(* ===== verification/Prelude.thy ===== *)
theory Prelude
  imports Main "HOL-Library.Word"
begin

text \<open>
  The prelude of the development: the machine types of the engine (the fixed-width integers
  of \<open>stdint.h\<close>, byte strings, little-endian 16 and 32 bit loads), the collection of
  simplification rules the component theories share, and the generic facts on words, on
  power-of-two masks and on cyclic reads of a byte array that more than one component uses.
\<close>

unbundle bit_operations_syntax

section \<open>Machine types\<close>

type_synonym u8 = "8 word"
type_synonym u16 = "16 word"
type_synonym u32 = "32 word"
type_synonym u64 = "64 word"
type_synonym bytes = "u8 list"

text \<open>Addresses of heap cells. The model never does arithmetic on an entry's address.\<close>

type_synonym addr = nat

named_theorems engine_defs "definitions the component proofs unfold"
named_theorems engine_inv "preservation facts of the component invariants"

section \<open>Words\<close>

lemma unat_add_small:
  fixes a b :: "'a::len word"
  assumes "unat a + unat b < 2 ^ LENGTH('a)"
  shows "unat (a + b) = unat a + unat b"
  using assms by (simp add: unat_word_ariths)

lemma unat_minus_le:
  fixes a b :: "'a::len word"
  assumes "b \<le> a"
  shows "unat (a - b) = unat a - unat b"
  using assms by (rule unat_sub)

lemma unat_suc_less:
  fixes a b :: "'a::len word"
  assumes "a < b"
  shows "unat (a + 1) = Suc (unat a)"
proof -
  from assms have "unat a < unat b" by (simp add: word_less_nat_alt)
  moreover have "unat b < 2 ^ LENGTH('a)" using unsigned_less [of b, where ?'a = nat] .
  ultimately have "Suc (unat a) < 2 ^ LENGTH('a)" by linarith
  then have "unat a + unat (1 :: 'a word) < 2 ^ LENGTH('a)" by simp
  then show ?thesis by (subst unat_add_small) simp_all
qed

lemma unat_pred:
  fixes a :: "'a::len word"
  assumes "a \<noteq> 0"
  shows "unat (a - 1) = unat a - 1"
  using assms by (subst unat_minus_le) (simp_all add: word_le_nat_alt Suc_leI unat_gt_0)

text \<open>The integer promotion of a \<open>uint16_t\<close> to \<open>uint32_t\<close>.\<close>

lemma unat_ucast_u16: "unat (ucast (w :: u16) :: u32) = unat w"
proof -
  have "unat w < 2 ^ 16" using unsigned_less [of w, where ?'a = nat] by simp
  then show ?thesis by (simp add: unsigned_ucast_eq take_bit_eq_mod)
qed

lemma unat_eq_iff: "(a :: 'a::len word) = b \<longleftrightarrow> unat a = unat b"
  by (simp add: word_unat_eq_iff)

section \<open>Powers of two and masks\<close>

text \<open>
  The test \<open>value != 0 && (value & (value - 1)) == 0\<close> occurs in three places of the
  engine (\<open>RecvPacketBuffer::Initialize\<close>, \<open>SessionBufferConfig::IsPowerOfTwo\<close>,
  \<open>MemoryPoolDetail::IsPowerOfTwo\<close>).
\<close>

definition IsPowerOfTwo :: "u32 \<Rightarrow> bool" where
  "IsPowerOfTwo v \<longleftrightarrow> v \<noteq> 0 \<and> v AND (v - 1) = 0"

lemma nat_and_pred_zero:
  "n AND (n - 1) = 0 \<Longrightarrow> 0 < n \<Longrightarrow> \<exists>k. n = 2 ^ k" for n :: nat
proof (induction n rule: less_induct)
  case (less n)
  show ?case
  proof (cases "even n")
    case True
    then obtain m where m: "n = 2 * m" by blast
    with less.prems have m0: "0 < m" by simp
    have "2 * m - 1 = Suc (2 * (m - 1))" using m0 by simp
    then have "n AND (n - 1) = 2 * (m AND (m - 1))"
      using m by (simp add: and_nat_rec [of "2 * m"])
    with less.prems have "m AND (m - 1) = 0" by simp
    with less.IH [of m] m m0 obtain k where "m = 2 ^ k" by auto
    with m have "n = 2 ^ Suc k" by simp
    then show ?thesis by blast
  next
    case False
    then obtain m where m: "n = Suc (2 * m)" by (metis oddE Suc_eq_plus1)
    have "n AND (n - 1) = 2 * (m AND m)"
      using m by (simp add: and_nat_rec [of "Suc (2 * m)"])
    with less.prems m have "m = 0" by simp
    with m have "n = 2 ^ 0" by simp
    then show ?thesis by blast
  qed
qed

lemma IsPowerOfTwo_exp:
  assumes "IsPowerOfTwo v"
  obtains k where "k < 32" and "unat v = 2 ^ k"
proof -
  from assms have v0: "v \<noteq> 0" and a: "v AND (v - 1) = 0"
    by (simp_all add: IsPowerOfTwo_def)
  have "unat (v AND (v - 1)) = unat v AND (unat v - 1)"
    by (simp add: unsigned_and_eq unat_pred [OF v0])
  with a have "unat v AND (unat v - 1) = 0" by simp
  moreover have "0 < unat v" using v0 by (simp add: unat_gt_0)
  ultimately obtain k where k: "unat v = 2 ^ k" using nat_and_pred_zero by blast
  have "(2 :: nat) ^ k < 2 ^ 32" using unsigned_less [of v, where ?'a = nat] k by simp
  then have "k < 32" by (rule power_less_imp_less_exp [rotated]) simp
  with k show thesis by (rule that [rotated])
qed

lemma IsPowerOfTwo_mask:
  assumes "IsPowerOfTwo v"
  shows "unat (w AND (v - 1)) = unat w mod unat v"
proof -
  obtain k where k: "k < 32" "unat v = 2 ^ k" using IsPowerOfTwo_exp [OF assms] .
  have "v \<noteq> 0" using assms by (simp add: IsPowerOfTwo_def)
  then have "unat (v - 1) = mask k"
    by (simp add: unat_pred k mask_eq_exp_minus_1)
  then have "unat (w AND (v - 1)) = unat w AND mask k"
    by (simp add: unsigned_and_eq)
  also have "\<dots> = unat w mod 2 ^ k"
    by (simp flip: take_bit_eq_mask add: take_bit_eq_mod)
  finally show ?thesis using k by simp
qed

section \<open>Little-endian loads and stores\<close>

text \<open>The engine runs on x64: multi-byte fields of a packed structure are little-endian.\<close>

definition le16 :: "u16 \<Rightarrow> bytes" where
  "le16 w = [ucast w, ucast (drop_bit 8 w)]"

fun un_le16 :: "bytes \<Rightarrow> u16" where
  "un_le16 (a # b # _) = ucast a OR push_bit 8 (ucast b)"
| "un_le16 _ = 0"

lemma length_le16 [simp]: "length (le16 w) = 2"
  by (simp add: le16_def)

lemma un_le16_le16 [simp]: "un_le16 (le16 w @ xs) = w"
proof -
  have "un_le16 (le16 w @ xs) = ucast (ucast w :: u8) OR push_bit 8 (ucast (ucast (drop_bit 8 w) :: u8))"
    by (simp add: le16_def)
  also have "\<dots> = w"
    by (rule bit_eqI) (auto simp: bit_simps)
  finally show ?thesis .
qed

definition le32 :: "u32 \<Rightarrow> bytes" where
  "le32 w = le16 (ucast w) @ le16 (ucast (drop_bit 16 w))"

definition un_le32 :: "bytes \<Rightarrow> u32" where
  "un_le32 xs = ucast (un_le16 xs) OR push_bit 16 (ucast (un_le16 (drop 2 xs)))"

definition le64 :: "u64 \<Rightarrow> bytes" where
  "le64 w = le32 (ucast w) @ le32 (ucast (drop_bit 32 w))"

definition un_le64 :: "bytes \<Rightarrow> u64" where
  "un_le64 xs = ucast (un_le32 xs) OR push_bit 32 (ucast (un_le32 (drop 4 xs)))"

lemma length_le32 [simp]: "length (le32 w) = 4"
  by (simp add: le32_def)

lemma length_le64 [simp]: "length (le64 w) = 8"
  by (simp add: le64_def)

lemma un_le32_le32 [simp]: "un_le32 (le32 w @ xs) = w"
proof -
  have "un_le32 (le32 w @ xs) = ucast (ucast w :: u16) OR push_bit 16 (ucast (ucast (drop_bit 16 w) :: u16))"
    by (simp add: le32_def un_le32_def)
  also have "\<dots> = w"
    by (rule bit_eqI) (auto simp: bit_simps)
  finally show ?thesis .
qed

lemma un_le64_le64 [simp]: "un_le64 (le64 w @ xs) = w"
proof -
  have "un_le64 (le64 w @ xs) = ucast (ucast w :: u32) OR push_bit 32 (ucast (ucast (drop_bit 32 w) :: u32))"
    by (simp add: le64_def un_le64_def)
  also have "\<dots> = w"
    by (rule bit_eqI) (auto simp: bit_simps)
  finally show ?thesis .
qed

text \<open>The same laws where the field is the last one.\<close>

lemmas un_le_last [simp] = un_le16_le16 [of _ "[]", simplified] un_le32_le32 [of _ "[]", simplified]
  un_le64_le64 [of _ "[]", simplified]

lemma take_le16 [simp]: "un_le16 (take (Suc (Suc n)) xs) = un_le16 xs"
  by (cases xs rule: un_le16.cases) auto

section \<open>Cyclic reads\<close>

text \<open>
  The \<open>n\<close> elements of the array \<open>xs\<close> starting at index \<open>p\<close>, wrapping at the end:
  the contents of a ring buffer.
\<close>

definition cyc :: "'a list \<Rightarrow> nat \<Rightarrow> nat \<Rightarrow> 'a list" where
  "cyc xs p n = map (\<lambda>i. xs ! ((p + i) mod length xs)) [0..<n]"

lemma length_cyc [simp]: "length (cyc xs p n) = n"
  by (simp add: cyc_def)

lemma nth_cyc [simp]: "i < n \<Longrightarrow> cyc xs p n ! i = xs ! ((p + i) mod length xs)"
  by (simp add: cyc_def)

lemma cyc_0 [simp]: "cyc xs p 0 = []"
  by (simp add: cyc_def)

lemma cyc_add: "cyc xs p (m + n) = cyc xs p m @ cyc xs ((p + m) mod length xs) n"
proof (rule nth_equalityI)
  show "length (cyc xs p (m + n)) = length (cyc xs p m @ cyc xs ((p + m) mod length xs) n)"
    by simp
next
  fix i assume i: "i < length (cyc xs p (m + n))"
  show "cyc xs p (m + n) ! i = (cyc xs p m @ cyc xs ((p + m) mod length xs) n) ! i"
  proof (cases "i < m")
    case True
    with i show ?thesis by (simp add: nth_append)
  next
    case False
    then have "p + i = p + m + (i - m)" by simp
    then have "(p + i) mod length xs = ((p + m) mod length xs + (i - m)) mod length xs"
      by (simp only: mod_add_left_eq)
    with False i show ?thesis by (simp add: nth_append)
  qed
qed

lemma take_cyc: "m \<le> n \<Longrightarrow> take m (cyc xs p n) = cyc xs p m"
  by (rule nth_equalityI) auto

lemma drop_cyc: "m \<le> n \<Longrightarrow> drop m (cyc xs p n) = cyc xs ((p + m) mod length xs) (n - m)"
  using cyc_add [of xs p m "n - m"] by simp

text \<open>A read that does not reach the end of the array is contiguous.\<close>

lemma cyc_contiguous:
  assumes "p + n \<le> length xs"
  shows "cyc xs p n = take n (drop p xs)"
proof (rule nth_equalityI)
  show "length (cyc xs p n) = length (take n (drop p xs))" using assms by simp
next
  fix i assume "i < length (cyc xs p n)"
  with assms show "cyc xs p n ! i = take n (drop p xs) ! i" by simp
qed

text \<open>A read that reaches the end is the tail of the array followed by a prefix of it.\<close>

lemma cyc_split:
  assumes "p < length xs" and "length xs - p \<le> n" and "n \<le> length xs"
  shows "cyc xs p n = drop p xs @ take (n - (length xs - p)) xs"
proof -
  let ?m = "length xs - p"
  have "cyc xs p n = cyc xs p ?m @ cyc xs ((p + ?m) mod length xs) (n - ?m)"
    using cyc_add [of xs p ?m "n - ?m"] assms by simp
  also have "cyc xs p ?m = drop p xs" using assms by (simp add: cyc_contiguous)
  also have "cyc xs ((p + ?m) mod length xs) (n - ?m) = take (n - ?m) xs"
    using assms by (simp add: cyc_contiguous)
  finally show ?thesis .
qed

text \<open>Overwriting a contiguous range of an array.\<close>

definition overwrite :: "'a list \<Rightarrow> nat \<Rightarrow> 'a list \<Rightarrow> 'a list" where
  "overwrite xs p ys = take p xs @ ys @ drop (p + length ys) xs"

lemma length_overwrite [simp]: "p + length ys \<le> length xs \<Longrightarrow> length (overwrite xs p ys) = length xs"
  by (simp add: overwrite_def)

lemma nth_overwrite:
  assumes "p + length ys \<le> length xs" and "i < length xs"
  shows "overwrite xs p ys ! i = (if p \<le> i \<and> i < p + length ys then ys ! (i - p) else xs ! i)"
  using assms by (auto simp: overwrite_def nth_append min_def)

end
