(* ===== verification/Protocol.thy ===== *)
theory Protocol
  imports Prelude
begin

text \<open>
  The wire protocol: packet identifiers and their classification (\<open>Protocol/PacketID.h\<close>),
  the packet header (\<open>Protocol/PacketHeader.h\<close>), the system packets and the mapping of an
  authentication result to a disconnect reason (\<open>Protocol/SystemPacket.h\<close>), the reasons
  themselves (\<open>Session/DisconnectReason.h\<close>) and the table of packet handlers
  (\<open>HandlerTable/PacketHandlerTable.cpp\<close>).
\<close>

section \<open>Packet identifiers\<close>

text \<open>The enumerators of \<open>PACKET_ID\<close> (underlying type \<open>uint16_t\<close>).\<close>

definition PACKET_ID_NONE :: u16 where "PACKET_ID_NONE = 0"
definition SYSTEM_BEGIN :: u16 where "SYSTEM_BEGIN = 1"
definition CS_SYSTEM_AUTH_REQUEST :: u16 where "CS_SYSTEM_AUTH_REQUEST = SYSTEM_BEGIN"
definition SC_SYSTEM_AUTH_RESPONSE :: u16 where "SC_SYSTEM_AUTH_RESPONSE = 2"
definition CS_SYSTEM_HEARTBEAT_RESPONSE :: u16 where "CS_SYSTEM_HEARTBEAT_RESPONSE = 3"
definition SC_SYSTEM_HEARTBEAT_REQUEST :: u16 where "SC_SYSTEM_HEARTBEAT_REQUEST = 4"
definition SYSTEM_END :: u16 where "SYSTEM_END = 999"
definition SERVICE_BEGIN :: u16 where "SERVICE_BEGIN = 1000"
definition MAX_PACKET_ID :: u16 where "MAX_PACKET_ID = 10000"

lemmas packet_ids = PACKET_ID_NONE_def SYSTEM_BEGIN_def CS_SYSTEM_AUTH_REQUEST_def
  SC_SYSTEM_AUTH_RESPONSE_def CS_SYSTEM_HEARTBEAT_RESPONSE_def SC_SYSTEM_HEARTBEAT_REQUEST_def
  SYSTEM_END_def SERVICE_BEGIN_def MAX_PACKET_ID_def

definition IsValidPacketId :: "u16 \<Rightarrow> bool" where
  "IsValidPacketId i \<longleftrightarrow> i > PACKET_ID_NONE \<and> i < MAX_PACKET_ID"

definition IsSystemPacketId :: "u16 \<Rightarrow> bool" where
  "IsSystemPacketId i \<longleftrightarrow> i \<ge> SYSTEM_BEGIN \<and> i \<le> SYSTEM_END"

definition IsServicePacketId :: "u16 \<Rightarrow> bool" where
  "IsServicePacketId i \<longleftrightarrow> i \<ge> SERVICE_BEGIN \<and> i < MAX_PACKET_ID"

lemmas id_class_defs = IsValidPacketId_def IsSystemPacketId_def IsServicePacketId_def

lemma valid_id_cases:
  "IsValidPacketId i \<longleftrightarrow> IsSystemPacketId i \<or> IsServicePacketId i"
  by (simp add: id_class_defs packet_ids word_less_nat_alt word_le_nat_alt) linarith

lemma id_classes_disjoint: "\<not> (IsSystemPacketId i \<and> IsServicePacketId i)"
  by (simp add: id_class_defs packet_ids word_less_nat_alt word_le_nat_alt)

section \<open>The packet header\<close>

record PACKET_HEADER =
  packetId :: u16
  packetSize :: u16

abbreviation sizeof_PACKET_HEADER :: nat where "sizeof_PACKET_HEADER \<equiv> 4"

text \<open>The largest packet the 16-bit size field can announce (\<open>Buffer/PreDefine.h\<close>).\<close>

definition PACKET_SIZE_LIMIT :: u32 where "PACKET_SIZE_LIMIT = 65535"

text \<open>
  The bytes of a header in memory and the reading of a header from memory: the structure is
  packed, so this is what \<open>memcpy\<close> into and out of a \<open>PACKET_HEADER\<close> does.
\<close>

definition header_bytes :: "PACKET_HEADER \<Rightarrow> bytes" where
  "header_bytes h = le16 (packetId h) @ le16 (packetSize h)"

definition header_of :: "bytes \<Rightarrow> PACKET_HEADER" where
  "header_of bs = \<lparr>packetId = un_le16 bs, packetSize = un_le16 (drop 2 bs)\<rparr>"

lemma length_header_bytes [simp]: "length (header_bytes h) = sizeof_PACKET_HEADER"
  by (simp add: header_bytes_def)

lemma header_of_bytes [simp]: "header_of (header_bytes h @ xs) = h"
  by (simp add: header_of_def header_bytes_def)

text \<open>Only the first four bytes matter.\<close>

lemma header_of_take:
  assumes "4 \<le> n"
  shows "header_of (take n bs) = header_of bs"
proof -
  define m where "m = n - 4"
  with assms have "n = Suc (Suc (Suc (Suc m)))" by simp
  then show ?thesis by (simp add: header_of_def drop_take)
qed

section \<open>Disconnect reasons\<close>

datatype DisconnectReason =
    Unknown | LocalShutdown | LocalRequest | PeerClosed | SocketError | ConnectFailed
  | ProtocolError | UnexpectedPacket | IdleTimeout | HeartbeatTimeout | StalledPeer
  | AuthRejectedServerFull | AuthRejectedProtocolMismatch | AuthRejectedInvalidState
  | AuthRejectedOther | ResourceExhausted

fun IsRetryableDisconnect :: "DisconnectReason \<Rightarrow> bool" where
  "IsRetryableDisconnect LocalShutdown = False"
| "IsRetryableDisconnect LocalRequest = False"
| "IsRetryableDisconnect AuthRejectedProtocolMismatch = False"
| "IsRetryableDisconnect _ = True"

fun DisconnectReason_ToString :: "DisconnectReason \<Rightarrow> string" where
  "DisconnectReason_ToString Unknown = ''unknown''"
| "DisconnectReason_ToString LocalShutdown = ''local shutdown''"
| "DisconnectReason_ToString LocalRequest = ''local request''"
| "DisconnectReason_ToString PeerClosed = ''peer closed''"
| "DisconnectReason_ToString SocketError = ''socket error''"
| "DisconnectReason_ToString ConnectFailed = ''connect failed''"
| "DisconnectReason_ToString ProtocolError = ''protocol error''"
| "DisconnectReason_ToString UnexpectedPacket = ''unexpected packet''"
| "DisconnectReason_ToString IdleTimeout = ''idle timeout''"
| "DisconnectReason_ToString HeartbeatTimeout = ''heartbeat timeout''"
| "DisconnectReason_ToString StalledPeer = ''stalled peer''"
| "DisconnectReason_ToString AuthRejectedServerFull = ''auth rejected : server full''"
| "DisconnectReason_ToString AuthRejectedProtocolMismatch = ''auth rejected : protocol mismatch''"
| "DisconnectReason_ToString AuthRejectedInvalidState = ''auth rejected : invalid state''"
| "DisconnectReason_ToString AuthRejectedOther = ''auth rejected''"
| "DisconnectReason_ToString ResourceExhausted = ''resource exhausted''"

section \<open>System packets\<close>

definition IOCP_ENGINE_PROTOCOL_VERSION :: u16 where "IOCP_ENGINE_PROTOCOL_VERSION = 2"

datatype SYSTEM_AUTH_RESULT = AUTH_SUCCESS | AUTH_FAILED | INVALID_STATE | PROTOCOL_MISMATCH | SERVER_FULL

fun auth_code :: "SYSTEM_AUTH_RESULT \<Rightarrow> u16" where
  "auth_code AUTH_SUCCESS = 0"
| "auth_code AUTH_FAILED = 1"
| "auth_code INVALID_STATE = 2"
| "auth_code PROTOCOL_MISMATCH = 3"
| "auth_code SERVER_FULL = 4"

text \<open>
  \<open>static_cast<SYSTEM_AUTH_RESULT>\<close> of a received code, with the \<open>default\<close> branch of
  \<open>ToDisconnectReason\<close> for the codes that name no enumerator.
\<close>

definition ToDisconnectReason :: "u16 \<Rightarrow> DisconnectReason" where
  "ToDisconnectReason r =
     (if r = auth_code SERVER_FULL then AuthRejectedServerFull
      else if r = auth_code PROTOCOL_MISMATCH then AuthRejectedProtocolMismatch
      else if r = auth_code INVALID_STATE then AuthRejectedInvalidState
      else AuthRejectedOther)"

record AUTH_REQUEST_PACKET =
  arq_header :: PACKET_HEADER
  arq_protocolVersion :: u16

record AUTH_RESPONSE_PACKET =
  ars_header :: PACKET_HEADER
  ars_authResult :: u16
  ars_protocolVersion :: u16
  ars_heartbeatIntervalMs :: u32

record HEARTBEAT_PACKET =
  hb_header :: PACKET_HEADER
  hb_tick :: u64

abbreviation sizeof_AUTH_REQUEST :: nat where "sizeof_AUTH_REQUEST \<equiv> 6"
abbreviation sizeof_AUTH_RESPONSE :: nat where "sizeof_AUTH_RESPONSE \<equiv> 12"
abbreviation sizeof_HEARTBEAT :: nat where "sizeof_HEARTBEAT \<equiv> 12"

text \<open>The default member initialisers of the four packet structures.\<close>

definition new_auth_request :: AUTH_REQUEST_PACKET where
  "new_auth_request = \<lparr>arq_header = \<lparr>packetId = CS_SYSTEM_AUTH_REQUEST, packetSize = 6\<rparr>,
     arq_protocolVersion = IOCP_ENGINE_PROTOCOL_VERSION\<rparr>"

definition new_auth_response :: AUTH_RESPONSE_PACKET where
  "new_auth_response = \<lparr>ars_header = \<lparr>packetId = SC_SYSTEM_AUTH_RESPONSE, packetSize = 12\<rparr>,
     ars_authResult = auth_code AUTH_SUCCESS,
     ars_protocolVersion = IOCP_ENGINE_PROTOCOL_VERSION, ars_heartbeatIntervalMs = 0\<rparr>"

definition new_heartbeat_request :: HEARTBEAT_PACKET where
  "new_heartbeat_request =
     \<lparr>hb_header = \<lparr>packetId = SC_SYSTEM_HEARTBEAT_REQUEST, packetSize = 12\<rparr>, hb_tick = 0\<rparr>"

definition new_heartbeat_response :: HEARTBEAT_PACKET where
  "new_heartbeat_response =
     \<lparr>hb_header = \<lparr>packetId = CS_SYSTEM_HEARTBEAT_RESPONSE, packetSize = 12\<rparr>, hb_tick = 0\<rparr>"

definition auth_request_bytes :: "AUTH_REQUEST_PACKET \<Rightarrow> bytes" where
  "auth_request_bytes p = header_bytes (arq_header p) @ le16 (arq_protocolVersion p)"

definition auth_request_of :: "bytes \<Rightarrow> AUTH_REQUEST_PACKET" where
  "auth_request_of bs = \<lparr>arq_header = header_of bs, arq_protocolVersion = un_le16 (drop 4 bs)\<rparr>"

definition auth_response_bytes :: "AUTH_RESPONSE_PACKET \<Rightarrow> bytes" where
  "auth_response_bytes p = header_bytes (ars_header p) @ le16 (ars_authResult p) @
     le16 (ars_protocolVersion p) @ le32 (ars_heartbeatIntervalMs p)"

definition auth_response_of :: "bytes \<Rightarrow> AUTH_RESPONSE_PACKET" where
  "auth_response_of bs = \<lparr>ars_header = header_of bs, ars_authResult = un_le16 (drop 4 bs),
     ars_protocolVersion = un_le16 (drop 6 bs), ars_heartbeatIntervalMs = un_le32 (drop 8 bs)\<rparr>"

definition heartbeat_bytes :: "HEARTBEAT_PACKET \<Rightarrow> bytes" where
  "heartbeat_bytes p = header_bytes (hb_header p) @ le64 (hb_tick p)"

definition heartbeat_of :: "bytes \<Rightarrow> HEARTBEAT_PACKET" where
  "heartbeat_of bs = \<lparr>hb_header = header_of bs, hb_tick = un_le64 (drop 4 bs)\<rparr>"

lemma length_system_packets [simp]:
  "length (auth_request_bytes q) = sizeof_AUTH_REQUEST"
  "length (auth_response_bytes r) = sizeof_AUTH_RESPONSE"
  "length (heartbeat_bytes h) = sizeof_HEARTBEAT"
  by (simp_all add: auth_request_bytes_def auth_response_bytes_def heartbeat_bytes_def)

lemma system_packet_roundtrips [simp]:
  "auth_request_of (auth_request_bytes q) = q"
  "auth_response_of (auth_response_bytes r) = r"
  "heartbeat_of (heartbeat_bytes h) = h"
  by (simp_all add: auth_request_bytes_def auth_request_of_def auth_response_bytes_def
      auth_response_of_def heartbeat_bytes_def heartbeat_of_def)

section \<open>The packet handler table\<close>

text \<open>
  \<open>m_handlerTable\<close> is an array of \<open>MAX_PACKET_ID\<close> function pointers, all null at the
  start; a handler is an opaque value of the service.
\<close>

type_synonym 'h handler_table = "'h option list"

definition empty_handler_table :: "'h handler_table" where
  "empty_handler_table = replicate (unat MAX_PACKET_ID) None"

definition Register :: "'h handler_table \<Rightarrow> u16 \<Rightarrow> 'h option \<Rightarrow> bool \<times> 'h handler_table" where
  "Register t i handler =
     (if \<not> IsServicePacketId i then (False, t)
      else if handler = None then (False, t)
      else if t ! unat i \<noteq> None then (False, t)
      else (True, t[unat i := handler]))"

definition GetHandler :: "'h handler_table \<Rightarrow> u16 \<Rightarrow> 'h option" where
  "GetHandler t i = (if i \<ge> MAX_PACKET_ID then None else t ! unat i)"

end
