(* ===== verification/Interfaces.thy ===== *)
theory Interfaces
  imports Prelude
begin

text \<open>
  The interfaces between the components, as locales. A component that uses another one only
  through its operations proves its lemmas inside the locale; the component that provides the
  operations interprets the locale on its own definitions.

  \<^item> \<open>packet_pool\<close>: what the receive ring, the send queue and the job queue rely on in
    \<open>EngineMemoryPool\<close> (\<open>Acquire\<close> and \<open>Release\<close>).
  \<^item> \<open>fifo\<close>: what \<open>SendPacketQueue\<close>, \<open>SessionJobQueue\<close> and \<open>ReadySessionQueue\<close> promise
    to their producers and consumers.
\<close>

section \<open>A memory pool\<close>

text \<open>
  \<open>live p\<close> is the set of payload addresses that are handed out. An acquired address was not
  handed out before; a failed acquisition hands nothing out; a released address is no longer
  handed out. The laws hold for sizes below 4 GiB, which every request of the engine is: packet
  sizes are 32 bit, entries and jobs have fixed sizes. For a size next to 2 to the 64 the pool
  does not keep them (\<open>bypass_size_wraps\<close> in \<open>TlsPool\<close>).
\<close>

locale packet_pool =
  fixes acquire :: "'p \<Rightarrow> nat \<Rightarrow> addr option \<times> 'p"
    and release :: "'p \<Rightarrow> addr \<Rightarrow> 'p"
    and live :: "'p \<Rightarrow> addr set"
    and invar :: "'p \<Rightarrow> bool"
  assumes acquire_invar: "invar p \<Longrightarrow> n < 2 ^ 32 \<Longrightarrow> acquire p n = (r, p') \<Longrightarrow> invar p'"
    and acquire_fresh: "invar p \<Longrightarrow> n < 2 ^ 32 \<Longrightarrow> acquire p n = (Some a, p') \<Longrightarrow> a \<notin> live p"
    and acquire_live: "invar p \<Longrightarrow> n < 2 ^ 32 \<Longrightarrow> acquire p n = (r, p') \<Longrightarrow> live p' = set_option r \<union> live p"
    and release_invar: "invar p \<Longrightarrow> a \<in> live p \<Longrightarrow> invar (release p a)"
    and release_live: "invar p \<Longrightarrow> a \<in> live p \<Longrightarrow> live (release p a) = live p - {a}"
begin

text \<open>Releasing a list of distinct live addresses, as the queues do when they are reset.\<close>

lemma release_all:
  "invar p \<Longrightarrow> distinct as \<Longrightarrow> set as \<subseteq> live p \<Longrightarrow>
     invar (foldl release p as) \<and> live (foldl release p as) = live p - set as"
proof (induction as arbitrary: p)
  case Nil
  then show ?case by simp
next
  case (Cons a as)
  then have "invar (release p a)" and l: "live (release p a) = live p - {a}"
    by (simp_all add: release_invar release_live)
  moreover from Cons.prems l have "set as \<subseteq> live (release p a)" by auto
  ultimately have "invar (foldl release (release p a) as) \<and>
      live (foldl release (release p a) as) = live (release p a) - set as"
    using Cons.IH Cons.prems(2) by simp
  with l show ?case by auto
qed

text \<open>An acquisition followed by the release of what it returned leaves \<open>live\<close> unchanged.\<close>

lemma acquire_release:
  assumes "invar p" and "n < 2 ^ 32" and "acquire p n = (Some a, p')"
  shows "invar (release p' a)" and "live (release p' a) = live p"
proof -
  from assms have i: "invar p'" and l: "live p' = insert a (live p)" and f: "a \<notin> live p"
    using acquire_invar acquire_live [of p n "Some a" p'] acquire_fresh by auto
  then show "invar (release p' a)" by (simp add: release_invar)
  from i l f show "live (release p' a) = live p" by (simp add: release_live)
qed

end

section \<open>A first-in first-out queue\<close>

text \<open>
  \<open>contents q\<close> is the queued elements, oldest first; \<open>room q x\<close> says that the queue would
  take \<open>x\<close>. A full queue refuses and is left as it was.
\<close>

locale fifo =
  fixes enq :: "'a \<Rightarrow> 'q \<Rightarrow> bool \<times> 'q"
    and deq :: "'q \<Rightarrow> 'a option \<times> 'q"
    and contents :: "'q \<Rightarrow> 'a list"
    and room :: "'q \<Rightarrow> bool"
    and fresh :: "'a \<Rightarrow> 'q \<Rightarrow> bool"
    and invar :: "'q \<Rightarrow> bool"
  assumes enq_ok: "invar q \<Longrightarrow> fresh x q \<Longrightarrow> room q \<Longrightarrow>
      fst (enq x q) \<and> contents (snd (enq x q)) = contents q @ [x] \<and> invar (snd (enq x q))"
    and enq_full: "invar q \<Longrightarrow> fresh x q \<Longrightarrow> \<not> room q \<Longrightarrow>
      \<not> fst (enq x q) \<and> contents (snd (enq x q)) = contents q \<and> invar (snd (enq x q))"
    and deq_empty: "invar q \<Longrightarrow> contents q = [] \<Longrightarrow>
      fst (deq q) = None \<and> contents (snd (deq q)) = [] \<and> invar (snd (deq q))"
    and deq_first: "invar q \<Longrightarrow> contents q = x # xs \<Longrightarrow>
      fst (deq q) = Some x \<and> contents (snd (deq q)) = xs \<and> invar (snd (deq q))"
begin

text \<open>
  A history of the queue: each operation is an attempt to add an element or to take one. A run
  returns the elements accepted and the elements delivered, in order. Elements are added only
  while they are not in the queue (an intrusive list cannot hold an entry twice).
\<close>

fun run :: "'a option list \<Rightarrow> 'q \<Rightarrow> 'a list \<times> 'a list \<times> 'q" where
  "run [] q = ([], [], q)"
| "run (Some x # ops) q =
     (let (ok, q1) = enq x q; (ins, outs, q2) = run ops q1
      in ((if ok then x # ins else ins), outs, q2))"
| "run (None # ops) q =
     (let (r, q1) = deq q; (ins, outs, q2) = run ops q1
      in (ins, (case r of None \<Rightarrow> outs | Some x \<Rightarrow> x # outs), q2))"

fun legal :: "'a option list \<Rightarrow> 'q \<Rightarrow> bool" where
  "legal [] q = True"
| "legal (Some x # ops) q = (fresh x q \<and> legal ops (snd (enq x q)))"
| "legal (None # ops) q = legal ops (snd (deq q))"

text \<open>
  Nothing is lost, duplicated or reordered: what was in the queue followed by what was accepted
  is what was delivered followed by what is still queued.
\<close>

lemma run_fifo:
  "invar q \<Longrightarrow> legal ops q \<Longrightarrow> run ops q = (ins, outs, q') \<Longrightarrow>
     contents q @ ins = outs @ contents q' \<and> invar q'"
proof (induction ops q arbitrary: ins outs q' rule: run.induct)
  case (1 q)
  then show ?case by simp
next
  case (2 x ops q)
  obtain ok q1 where e: "enq x q = (ok, q1)" by fastforce
  obtain ins' outs' q2 where r: "run ops q1 = (ins', outs', q2)" by (metis prod_cases3)
  have q1: "invar q1 \<and> contents q1 = contents q @ (if ok then [x] else [])"
    using enq_ok [of q x] enq_full [of q x] 2(2,3) e by (cases "room q") auto
  have "contents q1 @ ins' = outs' @ contents q2 \<and> invar q2"
    using "2.IH" [of "(ok, q1)" ok q1] e r q1 2(3) by simp
  with q1 2(4) e r show ?case by (auto split: if_splits)
next
  case (3 ops q)
  obtain r q1 where d: "deq q = (r, q1)" by fastforce
  obtain ins' outs' q2 where rr: "run ops q1 = (ins', outs', q2)" by (metis prod_cases3)
  have q1: "invar q1 \<and> contents q = (case r of None \<Rightarrow> [] | Some x \<Rightarrow> [x]) @ contents q1"
    using deq_empty [of q] deq_first [of q] 3(2) d
    by (cases "contents q") (auto split: option.splits)
  have "contents q1 @ ins' = outs' @ contents q2 \<and> invar q2"
    using "3.IH" [of "(r, q1)" r q1] d rr q1 3(3) by simp
  with q1 3(4) d rr show ?case by (auto split: option.splits)
qed

end

end
