(* ===== verification/RecvRing.thy ===== *)
theory RecvRing
  imports Protocol Interfaces
begin

text \<open>
  The receive ring of a session (\<open>Buffer/RecvPacketBuffer.h\<close> and \<open>.cpp\<close>): its fields at their
  32-bit width, every operation with its guards, the invariant of the positions, the byte
  stream the ring represents, and the parser of packets out of it. The ring allocates packets
  only through the \<open>packet_pool\<close> interface.
\<close>

section \<open>State\<close>

datatype PacketReadResult = Read_Ok | NeedMoreData | Invalid | OutOfMemory


text \<open>
  \<open>rb_buffer\<close> is the allocated block (\<open>None\<close> for a null pointer), \<open>rb_pool\<close> says whether the
  pool pointer is set, and \<open>rb_violations\<close> counts the \<open>ENGINE_VIOLATION\<close> reports made.
\<close>

record RecvPacketBuffer =
  rb_pool :: bool
  rb_buffer :: "bytes option"
  rb_writePos :: u32
  rb_readPos :: u32
  rb_storedSize :: u32
  rb_capacity :: u32
  rb_capacityMask :: u32
  rb_maxPacketSize :: u32
  rb_violations :: nat

definition new_RecvPacketBuffer :: RecvPacketBuffer where
  "new_RecvPacketBuffer = \<lparr>rb_pool = False, rb_buffer = None, rb_writePos = 0, rb_readPos = 0,
     rb_storedSize = 0, rb_capacity = 0, rb_capacityMask = 0, rb_maxPacketSize = 0,
     rb_violations = 0\<rparr>"

definition rb_violation :: "RecvPacketBuffer \<Rightarrow> RecvPacketBuffer" where
  "rb_violation b = b\<lparr>rb_violations := Suc (rb_violations b)\<rparr>"

section \<open>Operations\<close>

text \<open>
  \<open>_aligned_malloc\<close>: the allocator \<open>alloc\<close> of the C runtime may fail; when it does not, it
  returns as many bytes as were asked for (an answer of another length is not one of its
  answers and counts as a failure).
\<close>

definition aligned_malloc :: "(nat \<Rightarrow> bytes option) \<Rightarrow> nat \<Rightarrow> bytes option" where
  "aligned_malloc alloc n =
     (case alloc n of Some m \<Rightarrow> if length m = n then Some m else None | None \<Rightarrow> None)"

definition rb_Finalize :: "RecvPacketBuffer \<Rightarrow> RecvPacketBuffer" where
  "rb_Finalize b = b\<lparr>rb_pool := False, rb_writePos := 0, rb_readPos := 0, rb_storedSize := 0,
     rb_capacity := 0, rb_capacityMask := 0, rb_maxPacketSize := 0, rb_buffer := None\<rparr>"

definition rb_Reset :: "RecvPacketBuffer \<Rightarrow> RecvPacketBuffer" where
  "rb_Reset b = b\<lparr>rb_writePos := 0, rb_readPos := 0, rb_storedSize := 0\<rparr>"

definition rb_Initialize ::
  "(nat \<Rightarrow> bytes option) \<Rightarrow> bool \<Rightarrow> u32 \<Rightarrow> u32 \<Rightarrow> RecvPacketBuffer \<Rightarrow> bool \<times> RecvPacketBuffer" where
  "rb_Initialize alloc pool ringSize maxPacketSize b =
     (if \<not> pool then (False, b)
      else if ringSize = 0 \<or> ringSize AND (ringSize - 1) \<noteq> 0 then (False, rb_violation b)
      else if maxPacketSize < of_nat sizeof_PACKET_HEADER \<or> maxPacketSize > PACKET_SIZE_LIMIT
        then (False, rb_violation b)
      else if ringSize < maxPacketSize * 2 then (False, rb_violation b)
      else
        (let b1 = (rb_Finalize b)\<lparr>rb_pool := pool, rb_capacity := ringSize,
                    rb_capacityMask := ringSize - 1, rb_maxPacketSize := maxPacketSize\<rparr>
         in case aligned_malloc alloc (unat ringSize) of
              None \<Rightarrow> (False, rb_Finalize b1)
            | Some m \<Rightarrow> (True, rb_Reset (b1\<lparr>rb_buffer := Some m\<rparr>))))"

definition IsFull :: "RecvPacketBuffer \<Rightarrow> bool" where
  "IsFull b \<longleftrightarrow> rb_storedSize b = rb_capacity b"

definition rb_IsEmpty :: "RecvPacketBuffer \<Rightarrow> bool" where
  "rb_IsEmpty b \<longleftrightarrow> rb_storedSize b = 0"

text \<open>The writable pointer, as an offset into the block.\<close>

definition GetWriteablePtr :: "RecvPacketBuffer \<Rightarrow> nat option" where
  "GetWriteablePtr b = (case rb_buffer b of None \<Rightarrow> None | Some _ \<Rightarrow> Some (unat (rb_writePos b)))"

definition GetWriteableSize :: "RecvPacketBuffer \<Rightarrow> u32" where
  "GetWriteableSize b =
     (if rb_buffer b = None then 0
      else if IsFull b then 0
      else if rb_writePos b \<ge> rb_readPos b then
        (let spaceToEnd = rb_capacity b - rb_writePos b;
             totalSpace = rb_capacity b - rb_storedSize b
         in if spaceToEnd < totalSpace then spaceToEnd else totalSpace)
      else rb_readPos b - rb_writePos b)"

definition CommitWrite :: "u32 \<Rightarrow> RecvPacketBuffer \<Rightarrow> bool \<times> RecvPacketBuffer" where
  "CommitWrite bytesReceived b =
     (if rb_buffer b = None \<or> bytesReceived = 0 then (False, b)
      else if bytesReceived > GetWriteableSize b then (False, rb_violation b)
      else (True, b\<lparr>rb_writePos := (rb_writePos b + bytesReceived) AND rb_capacityMask b,
                    rb_storedSize := rb_storedSize b + bytesReceived\<rparr>))"

text \<open>\<open>memcpy(dst, m_buffer + off, n)\<close>.\<close>

definition read_at :: "bytes \<Rightarrow> nat \<Rightarrow> nat \<Rightarrow> bytes" where
  "read_at buf off n = take n (drop off buf)"

definition PeekHeader :: "RecvPacketBuffer \<Rightarrow> PACKET_HEADER option" where
  "PeekHeader b =
     (case rb_buffer b of
        None \<Rightarrow> None
      | Some buf \<Rightarrow>
        if rb_IsEmpty b then None
        else if rb_storedSize b < of_nat sizeof_PACKET_HEADER then None
        else
          (let remainFirst = rb_capacity b - rb_readPos b
           in if remainFirst \<ge> of_nat sizeof_PACKET_HEADER
              then Some (header_of (read_at buf (unat (rb_readPos b)) sizeof_PACKET_HEADER))
              else Some (header_of (read_at buf (unat (rb_readPos b)) (unat remainFirst) @
                          read_at buf 0 (sizeof_PACKET_HEADER - unat remainFirst)))))"

text \<open>\<open>memmove\<close> of the stored bytes to offset 0; the block's other bytes stay.\<close>

definition Compact :: "RecvPacketBuffer \<Rightarrow> RecvPacketBuffer" where
  "Compact b = b\<lparr>
     rb_buffer := map_option (\<lambda>buf. overwrite buf 0
        (read_at buf (unat (rb_readPos b)) (unat (rb_storedSize b)))) (rb_buffer b),
     rb_readPos := 0, rb_writePos := rb_storedSize b\<rparr>"

definition PrepareWrite :: "RecvPacketBuffer \<Rightarrow> RecvPacketBuffer" where
  "PrepareWrite b =
     (if rb_buffer b = None then b
      else if rb_storedSize b = 0 then b\<lparr>rb_readPos := 0, rb_writePos := 0\<rparr>
      else if rb_readPos b + rb_storedSize b > rb_capacity b then b
      else if rb_capacity b - rb_writePos b \<ge> rb_maxPacketSize b then b
      else Compact b)"

text \<open>The packet handed to the caller: the pool address and the bytes copied there.\<close>

record packet_out =
  po_buffer :: "(addr \<times> bytes) option"
  po_size :: u32
  po_packetId :: u16

definition no_packet :: packet_out where
  "no_packet = \<lparr>po_buffer = None, po_size = 0, po_packetId = 0\<rparr>"

definition ReadPacket ::
  "('p \<Rightarrow> nat \<Rightarrow> addr option \<times> 'p) \<Rightarrow> 'p \<Rightarrow> RecvPacketBuffer \<Rightarrow>
     PacketReadResult \<times> packet_out \<times> 'p \<times> RecvPacketBuffer" where
  "ReadPacket acquire p b =
     (case PeekHeader b of
        None \<Rightarrow> (NeedMoreData, no_packet, p, b)
      | Some header \<Rightarrow>
        (let size = ucast (packetSize header) :: u32 in
         if size < of_nat sizeof_PACKET_HEADER \<or> size > rb_maxPacketSize b
           then (Invalid, no_packet, p, b)
         else if rb_storedSize b < size then (NeedMoreData, no_packet, p, b)
         else if \<not> rb_pool b then (OutOfMemory, no_packet, p, b)
         else
           (case acquire p (unat size) of
              (None, p') \<Rightarrow> (OutOfMemory, no_packet, p', b)
            | (Some a, p') \<Rightarrow>
              (let buf = the (rb_buffer b);
                   remainFirst = rb_capacity b - rb_readPos b;
                   payload = (if size \<le> remainFirst
                              then read_at buf (unat (rb_readPos b)) (unat size)
                              else read_at buf (unat (rb_readPos b)) (unat remainFirst) @
                                   read_at buf 0 (unat (size - remainFirst)))
               in (Read_Ok,
                   \<lparr>po_buffer = Some (a, payload), po_size = size, po_packetId = packetId header\<rparr>,
                   p',
                   b\<lparr>rb_readPos := (rb_readPos b + size) AND rb_capacityMask b,
                     rb_storedSize := rb_storedSize b - size\<rparr>)))))"

text \<open>
  What the kernel does between \<open>GetWriteablePtr\<close> and \<open>CommitWrite\<close>: a completed \<open>WSARecv\<close> has
  stored the received bytes at the writable pointer.
\<close>

definition deliver :: "bytes \<Rightarrow> RecvPacketBuffer \<Rightarrow> RecvPacketBuffer" where
  "deliver data b =
     b\<lparr>rb_buffer := map_option (\<lambda>buf. overwrite buf (unat (rb_writePos b)) data) (rb_buffer b)\<rparr>"

section \<open>Invariant and abstraction\<close>

definition rb_inv :: "RecvPacketBuffer \<Rightarrow> bool" where
  "rb_inv b \<longleftrightarrow>
     (case rb_buffer b of
        None \<Rightarrow> \<not> rb_pool b \<and> rb_writePos b = 0 \<and> rb_readPos b = 0 \<and> rb_storedSize b = 0 \<and>
                rb_capacity b = 0 \<and> rb_capacityMask b = 0 \<and> rb_maxPacketSize b = 0
      | Some buf \<Rightarrow>
          rb_pool b \<and> IsPowerOfTwo (rb_capacity b) \<and> length buf = unat (rb_capacity b) \<and>
          rb_capacityMask b = rb_capacity b - 1 \<and>
          sizeof_PACKET_HEADER \<le> unat (rb_maxPacketSize b) \<and>
          unat (rb_maxPacketSize b) \<le> 65535 \<and>
          2 * unat (rb_maxPacketSize b) \<le> unat (rb_capacity b) \<and>
          unat (rb_readPos b) < unat (rb_capacity b) \<and>
          unat (rb_storedSize b) \<le> unat (rb_capacity b) \<and>
          unat (rb_writePos b) =
            (unat (rb_readPos b) + unat (rb_storedSize b)) mod unat (rb_capacity b))"

text \<open>The bytes received and not yet consumed, oldest first.\<close>

definition stored_bytes :: "RecvPacketBuffer \<Rightarrow> bytes" where
  "stored_bytes b =
     (case rb_buffer b of None \<Rightarrow> []
      | Some buf \<Rightarrow> cyc buf (unat (rb_readPos b)) (unat (rb_storedSize b)))"

lemma rb_inv_new [simp]: "rb_inv new_RecvPacketBuffer"
  by (simp add: rb_inv_def new_RecvPacketBuffer_def)

lemma rb_inv_violation [simp]: "rb_inv (rb_violation b) = rb_inv b"
  by (cases "rb_buffer b") (simp_all add: rb_inv_def rb_violation_def)

lemma stored_bytes_violation [simp]: "stored_bytes (rb_violation b) = stored_bytes b"
  by (cases "rb_buffer b") (simp_all add: stored_bytes_def rb_violation_def)

lemma rb_inv_Finalize [simp]: "rb_inv (rb_Finalize b)"
  by (simp add: rb_inv_def rb_Finalize_def)

lemma length_stored_bytes: "rb_inv b \<Longrightarrow> length (stored_bytes b) = unat (rb_storedSize b)"
  by (auto simp: rb_inv_def stored_bytes_def split: option.splits)

text \<open>The facts the invariant gives when the buffer is allocated.\<close>

lemma rb_invE:
  assumes "rb_inv b" and "rb_buffer b = Some buf"
  obtains k where "k < 32" and "unat (rb_capacity b) = 2 ^ k" and "length buf = 2 ^ k"
    and "\<And>w. unat (w AND rb_capacityMask b) = unat w mod 2 ^ k"
    and "4 \<le> unat (rb_maxPacketSize b)" and "unat (rb_maxPacketSize b) \<le> 65535"
    and "2 * unat (rb_maxPacketSize b) \<le> 2 ^ k"
    and "unat (rb_readPos b) < 2 ^ k" and "unat (rb_storedSize b) \<le> 2 ^ k"
    and "unat (rb_writePos b) = (unat (rb_readPos b) + unat (rb_storedSize b)) mod 2 ^ k"
    and "unat (rb_writePos b) < 2 ^ k" and "rb_pool b" and "(2::nat) ^ k \<le> 2 ^ 31"
proof -
  from assms have p: "IsPowerOfTwo (rb_capacity b)"
    and m: "rb_capacityMask b = rb_capacity b - 1"
    by (simp_all add: rb_inv_def)
  obtain k where k: "k < 32" "unat (rb_capacity b) = 2 ^ k" using IsPowerOfTwo_exp [OF p] .
  have "(2::nat) ^ k \<le> 2 ^ 31" using k(1) by (intro power_increasing) simp_all
  with assms k m IsPowerOfTwo_mask [OF p] show thesis
    by (intro that [of k]) (simp_all add: rb_inv_def)
qed

text \<open>Sums of two quantities of a ring never overflow 32 bits.\<close>

lemma unat_ring_add:
  fixes x y :: u32
  assumes "unat x \<le> 2 ^ k" and "unat y \<le> 2 ^ k" and "unat x < 2 ^ k \<or> unat y < 2 ^ k"
    and "(2::nat) ^ k \<le> 2 ^ 31"
  shows "unat (x + y) = unat x + unat y"
proof (rule unat_add_small)
  have "unat x + unat y < 2 ^ k + 2 ^ k" using assms(1,2,3) by linarith
  also have "\<dots> \<le> 2 ^ LENGTH(32)" using assms(4) by simp
  finally show "unat x + unat y < 2 ^ LENGTH(32)" .
qed

section \<open>Writing\<close>

lemma mod_once: "p < c \<Longrightarrow> i \<le> c \<Longrightarrow> (p + i) mod c = (if p + i < c then p + i else p + i - c)"
  for p i c :: nat
  by (simp add: mod_if)

text \<open>The writable range lies inside the block and does not overlap the stored bytes.\<close>

lemma writeable_bounds:
  assumes inv: "rb_inv b" and buf: "rb_buffer b = Some buf" and n: "n \<le> unat (GetWriteableSize b)"
  shows "unat (rb_writePos b) + n \<le> length buf" and "unat (rb_storedSize b) + n \<le> length buf"
proof -
  obtain k where k: "unat (rb_capacity b) = 2 ^ k" "length buf = 2 ^ k"
    and r: "unat (rb_readPos b) < 2 ^ k" and s: "unat (rb_storedSize b) \<le> 2 ^ k"
    and w: "unat (rb_writePos b) = (unat (rb_readPos b) + unat (rb_storedSize b)) mod 2 ^ k"
    and w2: "unat (rb_writePos b) < 2 ^ k"
    by (rule rb_invE [OF inv buf]) blast
  have "unat (rb_writePos b) + n \<le> 2 ^ k \<and> unat (rb_storedSize b) + n \<le> 2 ^ k"
  proof (cases "IsFull b")
    case True
    with n w2 s buf show ?thesis by (simp add: GetWriteableSize_def)
  next
    case nf: False
    show ?thesis
    proof (cases "rb_writePos b \<ge> rb_readPos b")
      case True
      have a: "rb_writePos b \<le> rb_capacity b" "rb_storedSize b \<le> rb_capacity b"
        using w2 s k by (simp_all add: word_le_nat_alt)
      have "n \<le> unat (rb_capacity b - rb_writePos b)" and "n \<le> unat (rb_capacity b - rb_storedSize b)"
        using n nf buf True
        by (auto simp: GetWriteableSize_def Let_def word_less_nat_alt split: if_splits)
      then have "n \<le> 2 ^ k - unat (rb_writePos b)" and "n \<le> 2 ^ k - unat (rb_storedSize b)"
        using a k by (simp_all add: unat_minus_le)
      with w2 s show ?thesis by linarith
    next
      case False
      then have lt: "unat (rb_writePos b) < unat (rb_readPos b)" by (simp add: word_less_nat_alt not_le)
      with w r s have "unat (rb_writePos b) + 2 ^ k = unat (rb_readPos b) + unat (rb_storedSize b)"
        by (auto simp: mod_once split: if_splits)
      moreover have "n \<le> unat (rb_readPos b) - unat (rb_writePos b)"
        using n nf buf False lt by (simp add: GetWriteableSize_def unat_minus_le word_le_nat_alt)
      ultimately show ?thesis using r lt by linarith
    qed
  qed
  with k show "unat (rb_writePos b) + n \<le> length buf" and "unat (rb_storedSize b) + n \<le> length buf"
    by simp_all
qed

lemma deliver_sels [simp]:
  "rb_writePos (deliver d b) = rb_writePos b" "rb_readPos (deliver d b) = rb_readPos b"
  "rb_storedSize (deliver d b) = rb_storedSize b" "rb_capacity (deliver d b) = rb_capacity b"
  "rb_capacityMask (deliver d b) = rb_capacityMask b" "rb_pool (deliver d b) = rb_pool b"
  "rb_maxPacketSize (deliver d b) = rb_maxPacketSize b"
  "(rb_buffer (deliver d b) = None) = (rb_buffer b = None)"
  by (simp_all add: deliver_def)

lemma GetWriteableSize_deliver [simp]: "GetWriteableSize (deliver d b) = GetWriteableSize b"
  by (simp add: GetWriteableSize_def IsFull_def)

text \<open>
  A completed receive of \<open>data\<close> bytes followed by \<open>CommitWrite\<close> appends exactly \<open>data\<close> to
  the stored stream, and keeps the invariant.
\<close>

lemma deliver_commit:
  assumes inv: "rb_inv b" and buf: "rb_buffer b = Some buf"
    and n: "length data \<le> unat (GetWriteableSize b)" and ne: "data \<noteq> []"
    and c: "CommitWrite (of_nat (length data)) (deliver data b) = (ok, b')"
  shows "ok" and "rb_inv b'" and "stored_bytes b' = stored_bytes b @ data"
    and "rb_buffer b' \<noteq> None" and "rb_maxPacketSize b' = rb_maxPacketSize b"
proof -
  obtain k where k: "k < 32" "unat (rb_capacity b) = 2 ^ k" "length buf = 2 ^ k"
    and mask: "\<And>w. unat (w AND rb_capacityMask b) = unat w mod 2 ^ k"
    and r: "unat (rb_readPos b) < 2 ^ k" and s: "unat (rb_storedSize b) \<le> 2 ^ k"
    and w: "unat (rb_writePos b) = (unat (rb_readPos b) + unat (rb_storedSize b)) mod 2 ^ k"
    and w2: "unat (rb_writePos b) < 2 ^ k" and le: "(2::nat) ^ k \<le> 2 ^ 31"
    by (rule rb_invE [OF inv buf]) blast
  let ?n = "length data" and ?w = "unat (rb_writePos b)" and ?s = "unat (rb_storedSize b)"
    and ?r = "unat (rb_readPos b)" and ?N = "of_nat (length data) :: u32"
  note wb = writeable_bounds [OF inv buf n, unfolded k]
  have "?n < 2 ^ 32" using wb(2) le by simp
  then have N: "unat ?N = ?n" by (simp add: unat_of_nat)
  have N0: "?N \<noteq> 0" using N ne by auto
  have addw: "unat (rb_writePos b + ?N) = ?w + ?n"
    using wb w2 le N by (intro unat_ring_add [where k = k, THEN trans]) auto
  have adds: "unat (rb_storedSize b + ?N) = ?s + ?n"
  proof (cases "?n = 2 ^ k")
    case True
    then have "?s = 0" using wb(2) by simp
    then have "rb_storedSize b = 0" by (simp add: unat_eq_0)
    with N show ?thesis by simp
  next
    case False
    then show ?thesis using wb s le N by (intro unat_ring_add [where k = k, THEN trans]) auto
  qed
  let ?buf = "overwrite buf ?w data"
  have len: "length ?buf = 2 ^ k" using wb k by simp
  have "\<not> ?N > GetWriteableSize b" using n N by (simp add: word_less_nat_alt)
  then have ok: ok and b': "b' = (deliver data b)\<lparr>rb_writePos := (rb_writePos b + ?N) AND rb_capacityMask b,
      rb_storedSize := rb_storedSize b + ?N\<rparr>"
    using c N0 buf by (simp_all add: CommitWrite_def split: if_splits)
  have buf': "rb_buffer b' = Some ?buf" using b' buf by (simp add: deliver_def)
  have wpos: "unat (rb_writePos b') = (?r + (?s + ?n)) mod 2 ^ k"
    using b' mask addw w by (simp add: mod_add_left_eq add.assoc [symmetric])
  show ok by (rule ok)
  show "rb_inv b'"
    using inv buf buf' b' len k wpos adds wb(2) by (simp add: rb_inv_def)
  show "rb_buffer b' \<noteq> None" using buf' by simp
  show "rb_maxPacketSize b' = rb_maxPacketSize b" using b' by simp
  have old: "cyc ?buf ?r ?s = cyc buf ?r ?s"
  proof (rule nth_equalityI)
    fix i assume "i < length (cyc ?buf ?r ?s)"
    then have i: "i < ?s" by simp
    let ?j = "(?r + i) mod 2 ^ k"
    have "?j < 2 ^ k" by simp
    moreover have "\<not> (?w \<le> ?j \<and> ?j < ?w + ?n)"
      using i r s w wb w2 by (auto simp: mod_once split: if_splits)
    ultimately show "cyc ?buf ?r ?s ! i = cyc buf ?r ?s ! i"
      using i len k wb by (auto simp: nth_overwrite)
  qed simp
  have new: "cyc ?buf ?w ?n = data"
    using wb k by (simp add: cyc_contiguous len overwrite_def)
  have "stored_bytes b' = cyc ?buf ?r (?s + ?n)"
    using buf' b' adds by (simp add: stored_bytes_def)
  also have "\<dots> = cyc ?buf ?r ?s @ cyc ?buf ?w ?n"
    using cyc_add [of ?buf ?r ?s ?n] len w by simp
  finally show "stored_bytes b' = stored_bytes b @ data"
    using old new buf by (simp add: stored_bytes_def)
qed

text \<open>The refused commits: nothing but the violation counter changes.\<close>

lemma CommitWrite_refused:
  assumes "rb_buffer b = None \<or> n = 0 \<or> n > GetWriteableSize b"
  shows "\<not> fst (CommitWrite n b)" and "stored_bytes (snd (CommitWrite n b)) = stored_bytes b"
    and "rb_inv (snd (CommitWrite n b)) = rb_inv b"
  using assms by (auto simp: CommitWrite_def)

section \<open>Preparing the next receive\<close>

lemma PrepareWrite_inv_stored:
  assumes inv: "rb_inv b"
  shows "rb_inv (PrepareWrite b)" and "stored_bytes (PrepareWrite b) = stored_bytes b"
    and "rb_buffer (PrepareWrite b) = None \<longleftrightarrow> rb_buffer b = None"
    and "rb_storedSize (PrepareWrite b) = rb_storedSize b"
    and "rb_maxPacketSize (PrepareWrite b) = rb_maxPacketSize b"
    and "rb_capacity (PrepareWrite b) = rb_capacity b"
proof -
  have "rb_inv (PrepareWrite b) \<and> stored_bytes (PrepareWrite b) = stored_bytes b"
  proof (cases "rb_buffer b")
    case None
    with inv show ?thesis by (simp add: PrepareWrite_def)
  next
    case buf: (Some buf)
    obtain k where k: "unat (rb_capacity b) = 2 ^ k" "length buf = 2 ^ k"
      and r: "unat (rb_readPos b) < 2 ^ k" and s: "unat (rb_storedSize b) \<le> 2 ^ k"
      and w: "unat (rb_writePos b) = (unat (rb_readPos b) + unat (rb_storedSize b)) mod 2 ^ k"
      and w2: "unat (rb_writePos b) < 2 ^ k" and le: "(2::nat) ^ k \<le> 2 ^ 31"
      and m: "2 * unat (rb_maxPacketSize b) \<le> 2 ^ k"
      by (rule rb_invE [OF inv buf]) blast
    let ?r = "unat (rb_readPos b)" and ?s = "unat (rb_storedSize b)"
    have add: "unat (rb_readPos b + rb_storedSize b) = ?r + ?s"
      using r s le by (intro unat_ring_add [where k = k]) auto
    show ?thesis
    proof (cases "rb_storedSize b = 0 \<or> rb_readPos b + rb_storedSize b > rb_capacity b \<or>
        rb_capacity b - rb_writePos b \<ge> rb_maxPacketSize b")
      case True
      with inv buf k show ?thesis
        by (auto simp: PrepareWrite_def rb_inv_def stored_bytes_def)
    next
      case False
      then have P: "PrepareWrite b = Compact b" and fit: "?r + ?s \<le> 2 ^ k"
        and near: "2 ^ k - unat (rb_writePos b) < unat (rb_maxPacketSize b)"
        using buf add k w2 by (auto simp: PrepareWrite_def word_less_nat_alt word_le_nat_alt unat_minus_le)
      have "?s < 2 ^ k"
      proof (rule ccontr)
        assume "\<not> ?s < 2 ^ k"
        with fit s have "?s = 2 ^ k" "?r = 0" by simp_all
        with w near m show False by simp
      qed
      let ?frag = "take ?s (drop ?r buf)"
      have frag: "length ?frag = ?s" using fit k by simp
      have "cyc (overwrite buf 0 ?frag) 0 ?s = ?frag"
        using frag \<open>?s < 2 ^ k\<close> k by (simp add: cyc_contiguous overwrite_def)
      moreover have "cyc buf ?r ?s = ?frag" using fit k by (simp add: cyc_contiguous)
      moreover have "length (overwrite buf 0 ?frag) = 2 ^ k" using frag s k by simp
      ultimately show ?thesis
        using inv buf k \<open>?s < 2 ^ k\<close> P
        by (simp add: Compact_def rb_inv_def stored_bytes_def read_at_def)
    qed
  qed
  then show "rb_inv (PrepareWrite b)" and "stored_bytes (PrepareWrite b) = stored_bytes b" by simp_all
qed (simp_all add: PrepareWrite_def Compact_def)

text \<open>
  After \<open>PrepareWrite\<close> a ring that holds less than one maximal packet has contiguous room for
  a maximal packet.
\<close>

lemma PrepareWrite_room:
  assumes inv: "rb_inv b" and buf: "rb_buffer b = Some buf"
    and frag: "unat (rb_storedSize b) < unat (rb_maxPacketSize b)"
  shows "unat (rb_maxPacketSize b) \<le> unat (GetWriteableSize (PrepareWrite b))"
proof -
  obtain k where k: "unat (rb_capacity b) = 2 ^ k" "length buf = 2 ^ k"
    and r: "unat (rb_readPos b) < 2 ^ k" and s: "unat (rb_storedSize b) \<le> 2 ^ k"
    and w: "unat (rb_writePos b) = (unat (rb_readPos b) + unat (rb_storedSize b)) mod 2 ^ k"
    and w2: "unat (rb_writePos b) < 2 ^ k" and le: "(2::nat) ^ k \<le> 2 ^ 31"
    and m: "2 * unat (rb_maxPacketSize b) \<le> 2 ^ k"
    by (rule rb_invE [OF inv buf]) blast
  let ?r = "unat (rb_readPos b)" and ?s = "unat (rb_storedSize b)" and ?w = "unat (rb_writePos b)"
    and ?m = "unat (rb_maxPacketSize b)"
  have add: "unat (rb_readPos b + rb_storedSize b) = ?r + ?s"
    using r s le by (intro unat_ring_add [where k = k]) auto
  have sm: "?s + ?m < 2 ^ k" using frag m by linarith
  have le_cap: "rb_writePos b \<le> rb_capacity b" "rb_storedSize b \<le> rb_capacity b"
    using w2 s k by (simp_all add: word_le_nat_alt)
  have subs: "unat (rb_capacity b - rb_writePos b) = 2 ^ k - ?w"
    "unat (rb_capacity b - rb_storedSize b) = 2 ^ k - ?s"
    using le_cap k by (simp_all add: unat_minus_le)
  have nf: "rb_storedSize b \<noteq> rb_capacity b" using sm k by (auto simp: unat_eq_iff)
  have c0: "unat (rb_capacity b) - 0 = 2 ^ k" using k by simp
  consider (empty) "?s = 0" | (wrapped) "?s \<noteq> 0" "?r + ?s > 2 ^ k"
    | (tail) "?s \<noteq> 0" "?r + ?s \<le> 2 ^ k" "?m \<le> 2 ^ k - ?w"
    | (compact) "?s \<noteq> 0" "?r + ?s \<le> 2 ^ k" "2 ^ k - ?w < ?m"
    by linarith
  then show ?thesis
  proof cases
    case empty
    then have "rb_storedSize b = 0" by (simp add: unat_eq_0)
    then have "GetWriteableSize (PrepareWrite b) = rb_capacity b"
      using buf nf by (simp add: PrepareWrite_def GetWriteableSize_def IsFull_def)
    with k m show ?thesis by simp
  next
    case wrapped
    then have P: "PrepareWrite b = b"
      using buf add k by (auto simp: PrepareWrite_def word_less_nat_alt unat_eq_iff)
    have w': "?w = ?r + ?s - 2 ^ k"
      using wrapped w r s by (simp add: mod_once)
    then have lt: "?w < ?r" using wrapped sm by linarith
    then have "GetWriteableSize b = rb_readPos b - rb_writePos b"
      using buf nf by (simp add: GetWriteableSize_def IsFull_def word_le_nat_alt)
    moreover have "unat (rb_readPos b - rb_writePos b) = ?r - ?w"
      using lt by (simp add: unat_minus_le word_le_nat_alt)
    ultimately show ?thesis using P w' lt wrapped sm by simp
  next
    case tail
    then have P: "PrepareWrite b = b"
      using buf add k subs by (auto simp: PrepareWrite_def word_less_nat_alt word_le_nat_alt unat_eq_iff)
    show ?thesis
    proof (cases "rb_writePos b \<ge> rb_readPos b")
      case True
      then have "unat (GetWriteableSize b) = min (2 ^ k - ?w) (2 ^ k - ?s)"
        using buf nf subs by (simp add: GetWriteableSize_def IsFull_def Let_def word_less_nat_alt min_def)
      with P tail sm show ?thesis by simp
    next
      case False
      then have lt: "?w < ?r" by (simp add: word_le_nat_alt)
      then have "?w + 2 ^ k = ?r + ?s" using w r s by (auto simp: mod_once split: if_splits)
      moreover have "unat (GetWriteableSize b) = ?r - ?w"
        using False lt buf nf by (simp add: GetWriteableSize_def IsFull_def unat_minus_le word_le_nat_alt)
      ultimately show ?thesis using P lt sm by simp
    qed
  next
    case compact
    then have P: "PrepareWrite b = Compact b"
      using buf add k subs by (auto simp: PrepareWrite_def word_less_nat_alt word_le_nat_alt unat_eq_iff)
    then have "GetWriteableSize (PrepareWrite b) = rb_capacity b - rb_storedSize b"
      using buf nf by (simp add: GetWriteableSize_def Compact_def IsFull_def Let_def)
    with subs sm show ?thesis by simp
  qed
qed

section \<open>Reading packets\<close>

text \<open>
  The specification of \<open>ReadPacket\<close>: the next packet of a byte stream, for a largest packet of
  \<open>mx\<close> bytes.
\<close>

datatype next_packet = Next_Incomplete | Next_Invalid | Next_Packet bytes bytes

definition next_packet :: "nat \<Rightarrow> bytes \<Rightarrow> next_packet" where
  "next_packet mx s =
     (if length s < sizeof_PACKET_HEADER then Next_Incomplete
      else (let sz = unat (packetSize (header_of s))
            in if sz < sizeof_PACKET_HEADER \<or> mx < sz then Next_Invalid
               else if length s < sz then Next_Incomplete
               else Next_Packet (take sz s) (drop sz s)))"

lemma PeekHeader_stored:
  assumes inv: "rb_inv b"
  shows "PeekHeader b =
     (if length (stored_bytes b) < 4 then None else Some (header_of (stored_bytes b)))"
proof (cases "rb_buffer b")
  case None
  then show ?thesis by (simp add: PeekHeader_def stored_bytes_def)
next
  case buf: (Some buf)
  obtain k where k: "unat (rb_capacity b) = 2 ^ k" "length buf = 2 ^ k"
    and r: "unat (rb_readPos b) < 2 ^ k" and s: "unat (rb_storedSize b) \<le> 2 ^ k"
    by (rule rb_invE [OF inv buf]) blast
  let ?r = "unat (rb_readPos b)" and ?s = "unat (rb_storedSize b)"
  have sub: "unat (rb_capacity b - rb_readPos b) = 2 ^ k - ?r"
    using r k by (simp add: unat_minus_le word_le_nat_alt)
  have len: "length (stored_bytes b) = ?s" using inv by (rule length_stored_bytes)
  show ?thesis
  proof (cases "?s < 4")
    case True
    with len buf show ?thesis
      by (simp add: PeekHeader_def rb_IsEmpty_def word_less_nat_alt)
  next
    case False
    then have n0: "rb_storedSize b \<noteq> 0" by auto
    have st: "stored_bytes b = cyc buf ?r ?s" using buf by (simp add: stored_bytes_def)
    have four: "take 4 (stored_bytes b) = cyc buf ?r 4" using False st by (simp add: take_cyc)
    show ?thesis
    proof (cases "4 \<le> 2 ^ k - ?r")
      case True
      then have "read_at buf ?r 4 = take 4 (stored_bytes b)"
        using k r four by (simp add: read_at_def cyc_contiguous)
      with True False n0 len buf sub show ?thesis
        by (simp add: PeekHeader_def rb_IsEmpty_def word_less_nat_alt word_le_nat_alt header_of_take)
    next
      case F: False
      then have "read_at buf ?r (2 ^ k - ?r) @ read_at buf 0 (4 - (2 ^ k - ?r)) = take 4 (stored_bytes b)"
        using k r s False four by (simp add: read_at_def cyc_split)
      with F False n0 len buf sub show ?thesis
        by (simp add: PeekHeader_def rb_IsEmpty_def word_less_nat_alt word_le_nat_alt header_of_take)
    qed
  qed
qed

lemma packet_copy:
  assumes inv: "rb_inv b" and buf: "rb_buffer b = Some buf" and n: "unat n \<le> unat (rb_storedSize b)"
  shows "(if n \<le> rb_capacity b - rb_readPos b then read_at buf (unat (rb_readPos b)) (unat n)
          else read_at buf (unat (rb_readPos b)) (unat (rb_capacity b - rb_readPos b)) @
               read_at buf 0 (unat (n - (rb_capacity b - rb_readPos b)))) = take (unat n) (stored_bytes b)"
proof -
  obtain k where k: "unat (rb_capacity b) = 2 ^ k" "length buf = 2 ^ k"
    and r: "unat (rb_readPos b) < 2 ^ k" and s: "unat (rb_storedSize b) \<le> 2 ^ k"
    by (rule rb_invE [OF inv buf]) blast
  have sub: "unat (rb_capacity b - rb_readPos b) = 2 ^ k - unat (rb_readPos b)"
    using r k by (simp add: unat_minus_le word_le_nat_alt)
  have "take (unat n) (stored_bytes b) = cyc buf (unat (rb_readPos b)) (unat n)"
    using buf n by (simp add: stored_bytes_def take_cyc)
  then show ?thesis
    using k r s n sub
    by (auto simp: read_at_def cyc_contiguous cyc_split word_le_nat_alt unat_minus_le)
qed

lemma consume_inv:
  assumes inv: "rb_inv b" and buf: "rb_buffer b = Some buf" and n: "unat n \<le> unat (rb_storedSize b)"
    and b': "b' = b\<lparr>rb_readPos := (rb_readPos b + n) AND rb_capacityMask b,
                    rb_storedSize := rb_storedSize b - n\<rparr>"
  shows "rb_inv b'" and "stored_bytes b' = drop (unat n) (stored_bytes b)"
proof -
  obtain k where k: "unat (rb_capacity b) = 2 ^ k" "length buf = 2 ^ k"
    and mask: "\<And>w. unat (w AND rb_capacityMask b) = unat w mod 2 ^ k"
    and r: "unat (rb_readPos b) < 2 ^ k" and s: "unat (rb_storedSize b) \<le> 2 ^ k"
    and w: "unat (rb_writePos b) = (unat (rb_readPos b) + unat (rb_storedSize b)) mod 2 ^ k"
    and le: "(2::nat) ^ k \<le> 2 ^ 31"
    by (rule rb_invE [OF inv buf]) blast
  let ?r = "unat (rb_readPos b)" and ?s = "unat (rb_storedSize b)" and ?n = "unat n"
  have add: "unat (rb_readPos b + n) = ?r + ?n"
    using r s n le by (intro unat_ring_add [where k = k]) auto
  have rp: "unat (rb_readPos b') = (?r + ?n) mod 2 ^ k" using b' mask add by simp
  have sp: "unat (rb_storedSize b') = ?s - ?n" using b' n by (simp add: unat_minus_le word_le_nat_alt)
  have "((?r + ?n) mod 2 ^ k + (?s - ?n)) mod 2 ^ k = (?r + ?n + (?s - ?n)) mod 2 ^ k"
    by (rule mod_add_left_eq)
  also have "?r + ?n + (?s - ?n) = ?r + ?s" using n by simp
  finally have "((?r + ?n) mod 2 ^ k + (?s - ?n)) mod 2 ^ k = (?r + ?s) mod 2 ^ k" .
  with inv buf k rp sp s w b' show "rb_inv b'"
    by (simp add: rb_inv_def)
  show "stored_bytes b' = drop (unat n) (stored_bytes b)"
    using buf b' rp sp n k by (simp add: stored_bytes_def drop_cyc)
qed

text \<open>
  \<open>ReadPacket\<close> is \<open>next_packet\<close> on the stored stream: an incomplete or invalid head leaves the
  ring untouched, a complete packet is copied out and removed from the stream, and the only
  other outcome is that the pool has no block for it.
\<close>

lemma ReadPacket_spec:
  assumes inv: "rb_inv b" and R: "ReadPacket acquire p b = (res, out, p', b')"
  shows "case next_packet (unat (rb_maxPacketSize b)) (stored_bytes b) of
      Next_Incomplete \<Rightarrow> res = NeedMoreData \<and> out = no_packet \<and> p' = p \<and> b' = b
    | Next_Invalid \<Rightarrow> res = Invalid \<and> out = no_packet \<and> p' = p \<and> b' = b
    | Next_Packet pkt rest \<Rightarrow>
        (case acquire p (length pkt) of
           (None, q) \<Rightarrow> res = OutOfMemory \<and> out = no_packet \<and> p' = q \<and> b' = b
         | (Some a, q) \<Rightarrow> res = Read_Ok \<and> p' = q \<and>
             out = \<lparr>po_buffer = Some (a, pkt), po_size = of_nat (length pkt),
                    po_packetId = packetId (header_of pkt)\<rparr> \<and>
             rb_inv b' \<and> stored_bytes b' = rest)"
proof (cases "rb_buffer b")
  case None
  then have "stored_bytes b = []" by (simp add: stored_bytes_def)
  then show ?thesis
    using R PeekHeader_stored [OF inv] by (simp add: ReadPacket_def next_packet_def)
next
  case buf: (Some buf)
  let ?s = "stored_bytes b" and ?h = "header_of (stored_bytes b)"
  let ?sz = "ucast (packetSize ?h) :: u32"
  have len: "length ?s = unat (rb_storedSize b)" using inv by (rule length_stored_bytes)
  have usz: "unat ?sz = unat (packetSize ?h)" by (rule unat_ucast_u16)
  have pool: "rb_pool b" using inv buf by (simp add: rb_inv_def)
  have cmp: "?sz < 4 \<longleftrightarrow> unat (packetSize ?h) < 4"
    "rb_maxPacketSize b < ?sz \<longleftrightarrow> unat (rb_maxPacketSize b) < unat (packetSize ?h)"
    "rb_storedSize b < ?sz \<longleftrightarrow> length ?s < unat (packetSize ?h)"
    by (simp_all only: word_less_nat_alt usz len) simp
  have P: "length ?s \<ge> 4 \<Longrightarrow> PeekHeader b = Some ?h" "length ?s < 4 \<Longrightarrow> PeekHeader b = None"
    by (simp_all add: PeekHeader_stored [OF inv])
  consider (short) "length ?s < 4"
    | (bad) "4 \<le> length ?s" "unat (packetSize ?h) < 4 \<or> unat (rb_maxPacketSize b) < unat (packetSize ?h)"
    | (part) "4 \<le> length ?s" "4 \<le> unat (packetSize ?h)" "unat (packetSize ?h) \<le> unat (rb_maxPacketSize b)"
        "length ?s < unat (packetSize ?h)"
    | (full) "4 \<le> length ?s" "4 \<le> unat (packetSize ?h)" "unat (packetSize ?h) \<le> unat (rb_maxPacketSize b)"
        "unat (packetSize ?h) \<le> length ?s"
    by linarith
  then show ?thesis
  proof cases
    case short
    with R P show ?thesis by (simp add: ReadPacket_def next_packet_def)
  next
    case bad
    with R P cmp show ?thesis by (simp add: ReadPacket_def next_packet_def Let_def)
  next
    case part
    with R P cmp show ?thesis by (simp add: ReadPacket_def next_packet_def Let_def)
  next
    case full
    define sz where "sz = ?sz"
    have n: "unat sz \<le> unat (rb_storedSize b)" using full len usz by (simp add: sz_def)
    have np: "next_packet (unat (rb_maxPacketSize b)) ?s = Next_Packet (take (unat sz) ?s) (drop (unat sz) ?s)"
      using full usz by (simp add: next_packet_def sz_def Let_def)
    have pk: "length (take (unat sz) ?s) = unat sz" using n len by simp
    have id: "header_of (take (unat sz) ?s) = ?h"
      using full usz by (intro header_of_take) (simp add: sz_def)
    have R': "(case acquire p (unat sz) of
              (None, q) \<Rightarrow> (OutOfMemory, no_packet, q, b)
            | (Some a, q) \<Rightarrow> (Read_Ok,
                   \<lparr>po_buffer = Some (a, take (unat sz) ?s), po_size = sz, po_packetId = packetId ?h\<rparr>, q,
                   b\<lparr>rb_readPos := (rb_readPos b + sz) AND rb_capacityMask b,
                     rb_storedSize := rb_storedSize b - sz\<rparr>)) = (res, out, p', b')"
      using R P(1) [OF full(1)] full cmp pool
      by (cases "acquire p (unat sz)"; cases "fst (acquire p (unat sz))")
        (simp_all add: ReadPacket_def Let_def buf packet_copy [OF inv buf n] flip: sz_def)
    show ?thesis
      using R' np id pk consume_inv [OF inv buf n refl]
      by (auto split: prod.splits option.splits)
  qed
qed

text \<open>When a read needs more data, less than one maximal packet is stored.\<close>

lemma NeedMoreData_fragment:
  assumes inv: "rb_inv b" and buf: "rb_buffer b = Some buf"
    and R: "ReadPacket acquire p b = (NeedMoreData, out, p', b')"
  shows "unat (rb_storedSize b) < unat (rb_maxPacketSize b)" and "b' = b" and "p' = p"
proof -
  have mx: "4 \<le> unat (rb_maxPacketSize b)" by (rule rb_invE [OF inv buf]) blast
  have len: "length (stored_bytes b) = unat (rb_storedSize b)" using inv by (rule length_stored_bytes)
  have "next_packet (unat (rb_maxPacketSize b)) (stored_bytes b) = Next_Incomplete \<and> b' = b \<and> p' = p"
    using ReadPacket_spec [OF inv R]
    by (auto split: next_packet.splits option.splits prod.splits)
  with mx len show "unat (rb_storedSize b) < unat (rb_maxPacketSize b)" and "b' = b" and "p' = p"
    by (auto simp: next_packet_def Let_def split: if_splits)
qed

section \<open>Initialisation and release\<close>

lemma rb_Initialize_inv:
  assumes inv: "rb_inv b" and I: "rb_Initialize alloc pool ring mx b = (ok, b')"
  shows "rb_inv b'"
    and "ok \<Longrightarrow> rb_buffer b' \<noteq> None \<and> stored_bytes b' = [] \<and> rb_capacity b' = ring \<and> rb_maxPacketSize b' = mx"
    and "ok \<Longrightarrow> pool \<and> IsPowerOfTwo ring \<and> 4 \<le> unat mx \<and> unat mx \<le> 65535 \<and> 2 * unat mx \<le> unat ring"
proof -
  have "rb_inv b' \<and> (ok \<longrightarrow> rb_buffer b' \<noteq> None \<and> stored_bytes b' = [] \<and> rb_capacity b' = ring \<and>
      rb_maxPacketSize b' = mx \<and> pool \<and> IsPowerOfTwo ring \<and> 4 \<le> unat mx \<and> unat mx \<le> 65535 \<and>
      2 * unat mx \<le> unat ring)"
  proof (cases "\<not> pool \<or> ring = 0 \<or> ring AND (ring - 1) \<noteq> 0 \<or> mx < of_nat sizeof_PACKET_HEADER \<or>
      mx > PACKET_SIZE_LIMIT \<or> ring < mx * 2")
    case True
    with I inv show ?thesis by (auto simp: rb_Initialize_def split: if_splits)
  next
    case False
    then have pow: "IsPowerOfTwo ring" by (simp add: IsPowerOfTwo_def)
    have mx: "4 \<le> unat mx" "unat mx \<le> 65535" using False
      by (simp_all add: word_less_nat_alt PACKET_SIZE_LIMIT_def)
    then have "unat (mx * 2) = unat mx * 2" by (simp add: unat_word_ariths)
    with False have two: "2 * unat mx \<le> unat ring" by (simp add: word_less_nat_alt)
    have r0: "0 < unat ring" using False by (simp add: unat_gt_0)
    show ?thesis
    proof (cases "aligned_malloc alloc (unat ring)")
      case None
      with I False show ?thesis by (auto simp: rb_Initialize_def Let_def split: if_splits)
    next
      case (Some m)
      then have "length m = unat ring" by (auto simp: aligned_malloc_def split: option.splits if_splits)
      with I False Some pow mx two r0 show ?thesis
        by (auto simp: rb_Initialize_def Let_def rb_Reset_def rb_inv_def stored_bytes_def split: if_splits)
    qed
  qed
  then show "rb_inv b'"
    and "ok \<Longrightarrow> rb_buffer b' \<noteq> None \<and> stored_bytes b' = [] \<and> rb_capacity b' = ring \<and> rb_maxPacketSize b' = mx"
    and "ok \<Longrightarrow> pool \<and> IsPowerOfTwo ring \<and> 4 \<le> unat mx \<and> unat mx \<le> 65535 \<and> 2 * unat mx \<le> unat ring"
    by simp_all
qed

lemma rb_Reset_inv [simp]: "rb_inv b \<Longrightarrow> rb_inv (rb_Reset b)"
  by (cases "rb_buffer b") (auto simp: rb_inv_def rb_Reset_def)

lemma rb_Reset_stored [simp]: "stored_bytes (rb_Reset b) = []"
  by (simp add: stored_bytes_def rb_Reset_def split: option.split)

section \<open>The stream parser\<close>

text \<open>
  The specification of the receive loop: cut a byte stream into packets until it is exhausted
  or its head is incomplete or invalid (the flag of the result).
\<close>

function parse_stream :: "nat \<Rightarrow> bytes \<Rightarrow> bytes list \<times> bool \<times> bytes" where
  "parse_stream mx s =
     (case next_packet mx s of
        Next_Incomplete \<Rightarrow> ([], False, s)
      | Next_Invalid \<Rightarrow> ([], True, s)
      | Next_Packet pkt rest \<Rightarrow>
          (let (ps, bad, r) = parse_stream mx rest in (pkt # ps, bad, r)))"
  by pat_completeness auto

lemma next_packet_split:
  assumes "next_packet mx s = Next_Packet pkt rest"
  shows "s = pkt @ rest" and "4 \<le> length pkt" and "length pkt \<le> mx" and "length rest < length s"
    and "length pkt = unat (packetSize (header_of pkt))"
proof -
  let ?z = "unat (packetSize (header_of s))"
  from assms have "4 \<le> length s \<and> 4 \<le> ?z \<and> ?z \<le> mx \<and> ?z \<le> length s \<and> pkt = take ?z s \<and> rest = drop ?z s"
    by (auto simp: next_packet_def Let_def split: if_splits)
  then show "s = pkt @ rest" and "4 \<le> length pkt" and "length pkt \<le> mx" and "length rest < length s"
    and "length pkt = unat (packetSize (header_of pkt))"
    by (auto simp: header_of_take)
qed

termination parse_stream
  by (relation "measure (\<lambda>(mx, s). length s)") (auto dest: next_packet_split(4))

declare parse_stream.simps [simp del]

text \<open>Bytes that arrive later do not change a decision already taken.\<close>

lemma next_packet_append:
  "next_packet mx s = Next_Packet pkt rest \<Longrightarrow> next_packet mx (s @ t) = Next_Packet pkt (rest @ t)"
  "next_packet mx s = Next_Invalid \<Longrightarrow> next_packet mx (s @ t) = Next_Invalid"
proof -
  have h: "4 \<le> length s \<Longrightarrow> header_of (s @ t) = header_of s"
    using header_of_take [of "length s" "s @ t"] by simp
  then show "next_packet mx s = Next_Packet pkt rest \<Longrightarrow> next_packet mx (s @ t) = Next_Packet pkt (rest @ t)"
    and "next_packet mx s = Next_Invalid \<Longrightarrow> next_packet mx (s @ t) = Next_Invalid"
    by (auto simp: next_packet_def Let_def split: if_splits)
qed

lemma parse_stream_append:
  "parse_stream mx s = (ps, False, r) \<Longrightarrow> parse_stream mx (r @ t) = (qs, bad, u) \<Longrightarrow>
     parse_stream mx (s @ t) = (ps @ qs, bad, u)"
proof (induction mx s arbitrary: ps rule: parse_stream.induct)
  case (1 mx s)
  show ?case
  proof (cases "next_packet mx s")
    case Next_Incomplete
    with "1.prems" show ?thesis by (simp add: parse_stream.simps [of mx s])
  next
    case Next_Invalid
    with "1.prems" show ?thesis by (simp add: parse_stream.simps [of mx s])
  next
    case (Next_Packet pkt rest)
    then obtain ps' where "ps = pkt # ps'" and "parse_stream mx rest = (ps', False, r)"
      using "1.prems" by (auto simp: parse_stream.simps [of mx s] split: prod.splits)
    with Next_Packet "1.IH" [OF Next_Packet] "1.prems" show ?thesis
      by (simp add: parse_stream.simps [of mx "s @ t"] next_packet_append)
  qed
qed

lemma parse_stream_sound:
  "parse_stream mx s = (ps, bad, r) \<Longrightarrow> s = concat ps @ r \<and>
     (\<forall>p \<in> set ps. 4 \<le> length p \<and> length p \<le> mx \<and> length p = unat (packetSize (header_of p)))"
proof (induction mx s arbitrary: ps rule: parse_stream.induct)
  case (1 mx s)
  show ?case
  proof (cases "next_packet mx s")
    case (Next_Packet pkt rest)
    then obtain ps' where ps: "ps = pkt # ps'" and r: "parse_stream mx rest = (ps', bad, r)"
      using "1.prems" by (auto simp: parse_stream.simps [of mx s] split: prod.splits)
    from next_packet_split [OF Next_Packet] "1.IH" [OF Next_Packet r] ps show ?thesis by auto
  qed (use "1.prems" in \<open>auto simp: parse_stream.simps [of mx s]\<close>)
qed

section \<open>The receive loop on the ring\<close>

text \<open>
  The loop of the receive handlers around \<open>ReadPacket\<close> (\<open>while (!recvBuf.IsEmpty())\<close> with its
  two exits), collecting the packets in order. It stops with the result of the last read, or
  with \<open>NeedMoreData\<close> when the ring is empty. The loop consumes stored bytes, so the number of
  stored bytes bounds its rounds: it is the fuel, and \<open>drain_complete\<close> shows it suffices.
\<close>

fun drain_fuel :: "nat \<Rightarrow> ('p \<Rightarrow> nat \<Rightarrow> addr option \<times> 'p) \<Rightarrow> 'p \<Rightarrow> RecvPacketBuffer \<Rightarrow>
     packet_out list \<times> PacketReadResult \<times> 'p \<times> RecvPacketBuffer" where
  "drain_fuel 0 acquire p b = ([], NeedMoreData, p, b)"
| "drain_fuel (Suc f) acquire p b =
     (if rb_IsEmpty b then ([], NeedMoreData, p, b)
      else (case ReadPacket acquire p b of
              (Read_Ok, out, p', b') \<Rightarrow>
                (let (outs, res, p'', b'') = drain_fuel f acquire p' b' in (out # outs, res, p'', b''))
            | (res, _, p', b') \<Rightarrow> ([], res, p', b')))"

definition drain :: "('p \<Rightarrow> nat \<Rightarrow> addr option \<times> 'p) \<Rightarrow> 'p \<Rightarrow> RecvPacketBuffer \<Rightarrow>
     packet_out list \<times> PacketReadResult \<times> 'p \<times> RecvPacketBuffer" where
  "drain acquire p b = drain_fuel (Suc (unat (rb_storedSize b))) acquire p b"

definition packet_bytes :: "packet_out \<Rightarrow> bytes" where
  "packet_bytes out = (case po_buffer out of None \<Rightarrow> [] | Some (_, bs) \<Rightarrow> bs)"

lemma ReadPacket_frame:
  assumes "ReadPacket acquire p b = (res, out, p', b')"
  shows "rb_maxPacketSize b' = rb_maxPacketSize b" and "rb_buffer b' = rb_buffer b"
    and "rb_capacity b' = rb_capacity b"
  using assms by (auto simp: ReadPacket_def Let_def split: option.splits if_splits prod.splits)

lemma drain_fuel_parse:
  assumes "rb_inv b" and "rb_buffer b \<noteq> None" and "length (stored_bytes b) < f"
    and "drain_fuel f acquire p b = (outs, res, p', b')" and "res \<noteq> OutOfMemory"
  shows "rb_inv b' \<and> rb_buffer b' \<noteq> None \<and> rb_maxPacketSize b' = rb_maxPacketSize b \<and>
    parse_stream (unat (rb_maxPacketSize b)) (stored_bytes b) =
      (map packet_bytes outs, res = Invalid, stored_bytes b') \<and> (res = Invalid \<or> res = NeedMoreData)"
  using assms
proof (induction f arbitrary: p b outs)
  case 0
  then show ?case by simp
next
  case (Suc f)
  let ?mx = "unat (rb_maxPacketSize b)"
  have len: "length (stored_bytes b) = unat (rb_storedSize b)" using Suc.prems(1) by (rule length_stored_bytes)
  show ?case
  proof (cases "rb_IsEmpty b")
    case True
    then have "stored_bytes b = []" using len by (simp add: rb_IsEmpty_def)
    with Suc.prems(1,2,4) True show ?thesis by (simp add: parse_stream.simps next_packet_def)
  next
    case False
    obtain r out q c where R: "ReadPacket acquire p b = (r, out, q, c)" by (metis prod_cases4)
    note spec = ReadPacket_spec [OF Suc.prems(1) R] and frame = ReadPacket_frame [OF R]
    show ?thesis
    proof (cases "next_packet ?mx (stored_bytes b)")
      case Next_Incomplete
      with spec R Suc.prems(1,2,4) False show ?thesis by (auto simp: parse_stream.simps)
    next
      case Next_Invalid
      with spec R Suc.prems(1,2,4) False show ?thesis by (auto simp: parse_stream.simps)
    next
      case (Next_Packet pkt rest)
      then obtain a where ok: "r = Read_Ok" and c: "rb_inv c" "stored_bytes c = rest"
        and pb: "packet_bytes out = pkt"
        using spec R Suc.prems(4,5) False
        by (auto simp: packet_bytes_def split: option.splits prod.splits)
      obtain outs' res' p'' b'' where D: "drain_fuel f acquire q c = (outs', res', p'', b'')"
        by (metis prod_cases4)
      have eqs: "outs = out # outs'" "res' = res" "p'' = p'" "b'' = b'"
        using Suc.prems(4) False R ok D by auto
      have lt: "length (stored_bytes c) < f" using next_packet_split(4) [OF Next_Packet] c Suc.prems(3) by simp
      have "rb_inv b' \<and> rb_buffer b' \<noteq> None \<and> rb_maxPacketSize b' = rb_maxPacketSize c \<and>
          parse_stream (unat (rb_maxPacketSize c)) (stored_bytes c) =
            (map packet_bytes outs', res = Invalid, stored_bytes b') \<and> (res = Invalid \<or> res = NeedMoreData)"
        using Suc.IH [of c q outs'] ok c(1) frame Suc.prems(2,5) lt D eqs by simp
      with frame c eqs pb Next_Packet show ?thesis
        by (simp add: parse_stream.simps [of ?mx "stored_bytes b"])
    qed
  qed
qed

text \<open>With fuel for one more round than there are stored bytes, the loop has really ended.\<close>

lemma drain_parse:
  assumes inv: "rb_inv b" and buf: "rb_buffer b \<noteq> None"
    and D: "drain acquire p b = (outs, res, p', b')" and res: "res \<noteq> OutOfMemory"
  shows "rb_inv b'" and "rb_buffer b' \<noteq> None" and "rb_maxPacketSize b' = rb_maxPacketSize b"
    and "parse_stream (unat (rb_maxPacketSize b)) (stored_bytes b) =
      (map packet_bytes outs, res = Invalid, stored_bytes b')"
    and "res = Invalid \<or> res = NeedMoreData"
  using drain_fuel_parse [OF inv buf _ D [unfolded drain_def] res] length_stored_bytes [OF inv]
  by simp_all

lemma parse_stream_rest:
  "parse_stream mx s = (ps, False, r) \<Longrightarrow> next_packet mx r = Next_Incomplete"
proof (induction mx s arbitrary: ps rule: parse_stream.induct)
  case (1 mx s)
  show ?case
  proof (cases "next_packet mx s")
    case (Next_Packet pkt rest)
    with 1 show ?thesis by (auto simp: parse_stream.simps [of mx s] split: prod.splits)
  qed (use "1.prems" in \<open>auto simp: parse_stream.simps [of mx s]\<close>)
qed

lemma incomplete_short:
  "next_packet mx s = Next_Incomplete \<Longrightarrow> 4 \<le> mx \<Longrightarrow> length s < mx"
  by (auto simp: next_packet_def Let_def split: if_splits)

section \<open>A connection's receive rounds\<close>

text \<open>
  The life of a connection on the receive side. \<open>stream\<close> is what the peer still sends; each
  receive takes some of it into the writable range (at most \<open>n\<close> bytes, at most what the posted
  buffer holds), the handler commits it and drains the ring, and the next receive is posted
  after \<open>PrepareWrite\<close>. The run stops at the first invalid head or failed acquisition (the
  session is disconnected), or when the schedule of sizes or the stream ends.
\<close>

primrec recv_rounds :: "('p \<Rightarrow> nat \<Rightarrow> addr option \<times> 'p) \<Rightarrow> nat list \<Rightarrow> bytes \<Rightarrow> 'p \<Rightarrow> RecvPacketBuffer \<Rightarrow>
     packet_out list \<times> PacketReadResult \<times> bytes \<times> 'p \<times> RecvPacketBuffer" where
  "recv_rounds acquire [] stream p b = ([], NeedMoreData, stream, p, b)"
| "recv_rounds acquire (n # ns) stream p b =
     (let got = min n (min (unat (GetWriteableSize b)) (length stream)) in
      if got = 0 then ([], NeedMoreData, stream, p, b)
      else
        (let chunk = take got stream;
             (ok, b1) = CommitWrite (of_nat got) (deliver chunk b)
         in if \<not> ok then ([], Invalid, drop got stream, p, b1)
            else
              (let (outs, res, p', b2) = drain acquire p b1 in
               if res = NeedMoreData then
                 (let (outs', res', stream', p'', b3) =
                        recv_rounds acquire ns (drop got stream) p' (PrepareWrite b2)
                  in (outs @ outs', res', stream', p'', b3))
               else (outs, res, drop got stream, p', b2))))"

text \<open>
  However the stream is cut into receives, the packets delivered are those of the stream parser
  on the bytes received, and what stays in the ring is the parser's remainder.
\<close>

lemma recv_rounds_parse:
  assumes "rb_inv b" and "rb_buffer b \<noteq> None"
    and "next_packet (unat (rb_maxPacketSize b)) (stored_bytes b) = Next_Incomplete"
    and "recv_rounds acquire ns stream p b = (outs, res, stream', p', b')" and "res \<noteq> OutOfMemory"
  shows "\<exists>got. stream = got @ stream' \<and>
      parse_stream (unat (rb_maxPacketSize b)) (stored_bytes b @ got) =
        (map packet_bytes outs, res = Invalid, stored_bytes b')"
  using assms
proof (induction ns arbitrary: stream p b outs)
  case Nil
  then show ?case by (auto simp: parse_stream.simps)
next
  case (Cons n ns)
  let ?got = "min n (min (unat (GetWriteableSize b)) (length stream))" and ?mx = "unat (rb_maxPacketSize b)"
  let ?chunk = "take ?got stream"
  show ?case
  proof (cases "?got = 0")
    case True
    then have "recv_rounds acquire (n # ns) stream p b = ([], NeedMoreData, stream, p, b)" by simp
    with Cons.prems(3,4) show ?thesis by (auto simp: parse_stream.simps)
  next
    case False
    obtain buf where buf: "rb_buffer b = Some buf" using Cons.prems(2) by auto
    have len: "length ?chunk = ?got" and fit: "length ?chunk \<le> unat (GetWriteableSize b)" by auto
    have ne: "?chunk \<noteq> []" using False by auto
    obtain ok b1 where C: "CommitWrite (of_nat ?got) (deliver ?chunk b) = (ok, b1)" by fastforce
    note dc = deliver_commit [OF Cons.prems(1) buf fit ne, unfolded len, OF C]
    obtain os r q b2 where D: "drain acquire p b1 = (os, r, q, b2)" by (metis prod_cases4)
    have st: "stored_bytes b1 = stored_bytes b @ ?chunk" by (rule dc(3))
    show ?thesis
    proof (cases "r = NeedMoreData")
      case True
      note dp = drain_parse [OF dc(2,4) D, unfolded True, simplified]
      obtain os' r' s' q' b3 where
        R: "recv_rounds acquire ns (drop ?got stream) q (PrepareWrite b2) = (os', r', s', q', b3)"
        by (metis prod_cases5)
      have eqs: "outs = os @ os'" "r' = res" "s' = stream'" "q' = p'" "b3 = b'"
        using Cons.prems(4) False C D R dc(1) True by (auto simp: Let_def)
      note pw = PrepareWrite_inv_stored [OF dp(1)]
      have "\<exists>got. drop ?got stream = got @ stream' \<and>
          parse_stream ?mx (stored_bytes b2 @ got) = (map packet_bytes os', res = Invalid, stored_bytes b')"
        using Cons.IH [of "PrepareWrite b2" "drop ?got stream" q os'] pw dp(2,3,4) dc(5)
          parse_stream_rest [of ?mx "stored_bytes b1"] R eqs Cons.prems(5) by simp
      then obtain got where g: "drop ?got stream = got @ stream'"
        "parse_stream ?mx (stored_bytes b2 @ got) = (map packet_bytes os', res = Invalid, stored_bytes b')"
        by blast
      have "parse_stream ?mx (stored_bytes b1 @ got) =
          (map packet_bytes os @ map packet_bytes os', res = Invalid, stored_bytes b')"
        using parse_stream_append [OF _ g(2)] dp(4) dc(5) by simp
      moreover have "stream = (?chunk @ got) @ stream'" using g(1) by (metis append_take_drop_id append.assoc)
      ultimately show ?thesis using st eqs by (intro exI [of _ "?chunk @ got"]) simp
    next
      case rn: False
      then have eqs: "outs = os" "r = res" "drop ?got stream = stream'" "q = p'" "b2 = b'"
        using Cons.prems(4) False C D dc(1) by (auto simp: Let_def)
      note dp = drain_parse [OF dc(2,4) D, unfolded eqs(2), OF Cons.prems(5)]
      have "stream = ?chunk @ stream'" using eqs(3) by (metis append_take_drop_id)
      then show ?thesis using dp(4) dc(5) st eqs by auto
    qed
  qed
qed

text \<open>
  A ring that was drained has room for a maximal packet after \<open>PrepareWrite\<close>, so every round takes at
  least one byte: a schedule with as many rounds as the stream has bytes receives all of it.
\<close>

lemma recv_rounds_all:
  assumes "rb_inv b" and "rb_buffer b \<noteq> None" and "0 < unat (GetWriteableSize b)"
    and "0 \<notin> set ns" and "length stream \<le> length ns"
    and "recv_rounds acquire ns stream p b = (outs, NeedMoreData, stream', p', b')"
  shows "stream' = []"
  using assms
proof (induction ns arbitrary: stream p b outs)
  case Nil
  then show ?case by simp
next
  case (Cons n ns)
  let ?got = "min n (min (unat (GetWriteableSize b)) (length stream))"
  let ?chunk = "take ?got stream"
  show ?case
  proof (cases "stream = []")
    case True
    with Cons.prems show ?thesis by simp
  next
    case False
    then have g0: "0 < ?got" using Cons.prems(3,4) by simp
    obtain buf where buf: "rb_buffer b = Some buf" using Cons.prems(2) by auto
    have len: "length ?chunk = ?got" and fit: "length ?chunk \<le> unat (GetWriteableSize b)" by auto
    have ne: "?chunk \<noteq> []" using g0 False by auto
    obtain ok b1 where C: "CommitWrite (of_nat ?got) (deliver ?chunk b) = (ok, b1)" by fastforce
    note dc = deliver_commit [OF Cons.prems(1) buf fit ne, unfolded len, OF C]
    obtain os r q b2 where D: "drain acquire p b1 = (os, r, q, b2)" by (metis prod_cases4)
    have r: "r = NeedMoreData" using Cons.prems(6) g0 C D dc(1)
      by (auto simp: Let_def split: prod.splits if_splits)
    note dp = drain_parse [OF dc(2,4) D, unfolded r, simplified]
    obtain os' r' s' q' b3 where
      R: "recv_rounds acquire ns (drop ?got stream) q (PrepareWrite b2) = (os', r', s', q', b3)"
      by (metis prod_cases5)
    have eqs: "r' = NeedMoreData" "s' = stream'" "q' = p'" "b3 = b'"
      using Cons.prems(6) g0 C D R dc(1) r by (auto simp: Let_def)
    note pw = PrepareWrite_inv_stored [OF dp(1)]
    obtain buf2 where buf2: "rb_buffer b2 = Some buf2" using dp(2) by auto
    have mx: "4 \<le> unat (rb_maxPacketSize b2)" by (rule rb_invE [OF dp(1) buf2]) blast
    have "unat (rb_storedSize b2) < unat (rb_maxPacketSize b2)"
      using incomplete_short [OF parse_stream_rest [of _ "stored_bytes b1"] mx] dp(3,4)
        length_stored_bytes [OF dp(1)] by simp
    then have "0 < unat (GetWriteableSize (PrepareWrite b2))"
      using PrepareWrite_room [OF dp(1) buf2] mx by linarith
    then show ?thesis
      using Cons.IH [of "PrepareWrite b2" "drop ?got stream" q os'] pw dp(2) R eqs Cons.prems(4,5) g0
      by auto
  qed
qed

lemma recv_rounds_result:
  assumes "rb_inv b" and "rb_buffer b \<noteq> None"
    and "recv_rounds acquire ns stream p b = (outs, res, stream', p', b')"
  shows "res = Invalid \<or> res = NeedMoreData \<or> res = OutOfMemory"
  using assms
proof (induction ns arbitrary: stream p b outs res stream' p' b')
  case Nil
  then show ?case by simp
next
  case (Cons n ns)
  let ?got = "min n (min (unat (GetWriteableSize b)) (length stream))"
  let ?chunk = "take ?got stream"
  obtain buf where buf: "rb_buffer b = Some buf" using Cons.prems(2) by auto
  have len: "length ?chunk = ?got" and fit: "length ?chunk \<le> unat (GetWriteableSize b)" by auto
  obtain ok b1 where C: "CommitWrite (of_nat ?got) (deliver ?chunk b) = (ok, b1)" by fastforce
  obtain os r q b2 where D: "drain acquire p b1 = (os, r, q, b2)" by (metis prod_cases4)
  obtain os' r' s' q' b3 where
    R: "recv_rounds acquire ns (drop ?got stream) q (PrepareWrite b2) = (os', r', s', q', b3)"
    by (metis prod_cases5)
  show ?case
  proof (cases "?got = 0")
    case False
    then have ne: "?chunk \<noteq> []" by auto
    note dc = deliver_commit [OF Cons.prems(1) buf fit ne, unfolded len, OF C]
    show ?thesis
    proof (cases "r = NeedMoreData")
      case True
      note dp = drain_parse [OF dc(2,4) D, unfolded True, simplified]
      have "r' = Invalid \<or> r' = NeedMoreData \<or> r' = OutOfMemory"
        using Cons.IH [OF _ _ R] PrepareWrite_inv_stored [OF dp(1)] dp(2) by simp
      with Cons.prems(3) False C D R dc(1) True show ?thesis by (auto simp: Let_def)
    next
      case r: False
      then have "res = r" using Cons.prems(3) False C D dc(1) by (auto simp: Let_def)
      then show ?thesis using drain_parse(5) [OF dc(2,4) D] by auto
    qed
  qed (use Cons.prems(3) in auto)
qed

lemma parse_stream_append_bad:
  "parse_stream mx s = (ps, True, r) \<Longrightarrow> parse_stream mx (s @ t) = (ps, True, r @ t)"
proof (induction mx s arbitrary: ps rule: parse_stream.induct)
  case (1 mx s)
  show ?case
  proof (cases "next_packet mx s")
    case Next_Incomplete
    with "1.prems" show ?thesis by (simp add: parse_stream.simps [of mx s])
  next
    case Next_Invalid
    with "1.prems" show ?thesis
      by (auto simp: parse_stream.simps [of mx s] parse_stream.simps [of mx "r @ t"] next_packet_append)
  next
    case (Next_Packet pkt rest)
    then obtain ps' where "ps = pkt # ps'" and "parse_stream mx rest = (ps', True, r)"
      using "1.prems" by (auto simp: parse_stream.simps [of mx s] split: prod.splits)
    with Next_Packet "1.IH" [OF Next_Packet] show ?thesis
      by (simp add: parse_stream.simps [of mx "s @ t"] next_packet_append)
  qed
qed

text \<open>The packets a sender may put on the wire: the header names the packet's own length.\<close>

definition wire_packet :: "nat \<Rightarrow> bytes \<Rightarrow> bool" where
  "wire_packet mx p \<longleftrightarrow> 4 \<le> length p \<and> length p \<le> mx \<and> length p = unat (packetSize (header_of p))"

lemma next_packet_wire:
  assumes "wire_packet mx p"
  shows "next_packet mx (p @ s) = Next_Packet p s"
proof -
  from assms have "header_of (p @ s) = header_of p"
    using header_of_take [of "length p" "p @ s"] by (simp add: wire_packet_def)
  with assms show ?thesis by (simp add: next_packet_def wire_packet_def Let_def)
qed

lemma parse_stream_concat:
  "\<forall>p \<in> set ps. wire_packet mx p \<Longrightarrow> parse_stream mx (concat ps) = (ps, False, [])"
proof (induction ps)
  case Nil
  show ?case by (simp add: parse_stream.simps next_packet_def)
next
  case (Cons p ps)
  then show ?case by (simp add: parse_stream.simps [of mx "p @ concat ps"] next_packet_wire)
qed

text \<open>Well-formed packets come out of the ring as they went into the wire.\<close>

lemma recv_rounds_packets:
  assumes "rb_inv b" and "rb_buffer b \<noteq> None" and "stored_bytes b = []" and "GetWriteableSize b \<noteq> 0"
    and "\<forall>q \<in> set ps. wire_packet (unat (rb_maxPacketSize b)) q"
    and "0 \<notin> set ns" and "length (concat ps) \<le> length ns"
    and "recv_rounds acquire ns (concat ps) p b = (outs, res, stream', p', b')" and "res \<noteq> OutOfMemory"
  shows "map packet_bytes outs = ps \<and> res = NeedMoreData \<and> stream' = [] \<and> stored_bytes b' = []"
proof -
  have inc: "next_packet (unat (rb_maxPacketSize b)) (stored_bytes b) = Next_Incomplete"
    using assms(3) by (simp add: next_packet_def)
  obtain got where g: "concat ps = got @ stream'"
    "parse_stream (unat (rb_maxPacketSize b)) got = (map packet_bytes outs, res = Invalid, stored_bytes b')"
    using recv_rounds_parse [OF assms(1,2) inc assms(8,9)] unfolding assms(3) append_Nil by blast
  note whole = parse_stream_concat [OF assms(5)]
  have ni: "res \<noteq> Invalid"
  proof
    assume "res = Invalid"
    with g(2) have "parse_stream (unat (rb_maxPacketSize b)) got = (map packet_bytes outs, True, stored_bytes b')"
      by simp
    from parse_stream_append_bad [OF this, of stream'] g(1) whole show False by simp
  qed
  with recv_rounds_result [OF assms(1,2,8)] assms(9) have nm: "res = NeedMoreData" by blast
  have "0 < unat (GetWriteableSize b)" using assms(4) by (simp add: unat_gt_0)
  moreover have "recv_rounds acquire ns (concat ps) p b = (outs, NeedMoreData, stream', p', b')"
    using assms(8) nm by simp
  ultimately have "stream' = []" by (rule recv_rounds_all [OF assms(1,2) _ assms(6,7)])
  with g whole ni nm show ?thesis by simp
qed

section \<open>Properties of the receive ring\<close>

text \<open>
  C2. Receiving does not depend on how TCP cuts the stream: for every schedule of receive sizes
  that is long enough, the packets handed to the handlers are those of the stream parser on
  the whole byte stream, the run ends with \<open>Invalid\<close> exactly when the parser finds an invalid
  head, and otherwise the whole stream was received and the parser's incomplete tail is what is
  left in the ring.
\<close>

theorem recv_any_cut:
  assumes "rb_inv b" and "rb_buffer b \<noteq> None" and "stored_bytes b = []" and "GetWriteableSize b \<noteq> 0"
    and "0 \<notin> set ns" and "length stream \<le> length ns"
    and "recv_rounds acquire ns stream p b = (outs, res, stream', p', b')" and "res \<noteq> OutOfMemory"
  shows "\<exists>rest. parse_stream (unat (rb_maxPacketSize b)) stream = (map packet_bytes outs, res = Invalid, rest) \<and>
    (res \<noteq> Invalid \<longrightarrow> stream' = [] \<and> stored_bytes b' = rest)"
proof -
  have inc: "next_packet (unat (rb_maxPacketSize b)) (stored_bytes b) = Next_Incomplete"
    using assms(3) by (simp add: next_packet_def)
  obtain got where g: "stream = got @ stream'"
    "parse_stream (unat (rb_maxPacketSize b)) got = (map packet_bytes outs, res = Invalid, stored_bytes b')"
    using recv_rounds_parse [OF assms(1,2) inc assms(7,8)] unfolding assms(3) append_Nil by blast
  have nm: "res = NeedMoreData" if "res \<noteq> Invalid" using recv_rounds_result [OF assms(1,2,7)] assms(8) that by simp
  show ?thesis
  proof (cases "res = Invalid")
    case True
    with g(2) have "parse_stream (unat (rb_maxPacketSize b)) got = (map packet_bytes outs, True, stored_bytes b')"
      by simp
    from parse_stream_append_bad [OF this, of stream'] g(1) True show ?thesis
      by (intro exI [of _ "stored_bytes b' @ stream'"]) simp
  next
    case False
    have "0 < unat (GetWriteableSize b)" using assms(4) by (simp add: unat_gt_0)
    moreover have "recv_rounds acquire ns stream p b = (outs, NeedMoreData, stream', p', b')"
      using assms(7) nm [OF False] by simp
    ultimately have "stream' = []" by (rule recv_rounds_all [OF assms(1,2) _ assms(5,6)])
    with g(1) have "stream = got" by simp
    with g(2) have "parse_stream (unat (rb_maxPacketSize b)) stream = (map packet_bytes outs, res = Invalid, stored_bytes b')"
      by blast
    with \<open>stream' = []\<close> show ?thesis by blast
  qed
qed

text \<open>A ring of eight bytes for packets of at most four, and a pool that counts its blocks.\<close>

definition ring8 :: RecvPacketBuffer where
  "ring8 = snd (rb_Initialize (\<lambda>n. Some (replicate n 0)) True 8 4 new_RecvPacketBuffer)"

definition counting_pool :: "nat \<Rightarrow> nat \<Rightarrow> addr option \<times> nat" where
  "counting_pool p n = (Some p, Suc p)"

lemma ring8_ok: "rb_inv ring8" "rb_buffer ring8 \<noteq> None" "stored_bytes ring8 = []" "GetWriteableSize ring8 = 8"
  "rb_maxPacketSize ring8 = 4"
  by code_simp+

lemma recv_any_cut_witness:
  "\<exists>outs res stream' p' b'. recv_rounds counting_pool [3, 2, 9, 1, 1, 1, 1, 1] [1, 0, 4, 0, 2, 0, 4, 0] 0 ring8 =
      (outs, res, stream', p', b') \<and> res = NeedMoreData \<and> map packet_bytes outs = [[1, 0, 4, 0], [2, 0, 4, 0]] \<and>
    (\<exists>rest. parse_stream (unat (rb_maxPacketSize ring8)) [1, 0, 4, 0, 2, 0, 4, 0] =
       (map packet_bytes outs, res = Invalid, rest) \<and> (res \<noteq> Invalid \<longrightarrow> stream' = [] \<and> stored_bytes b' = rest))"
proof -
  obtain outs res stream' p' b' where
    R: "recv_rounds counting_pool [3, 2, 9, 1, 1, 1, 1, 1] [1, 0, 4, 0, 2, 0, 4, 0] 0 ring8 = (outs, res, stream', p', b')"
    by (metis prod_cases5)
  have v: "(\<lambda>(outs, res, _). res = NeedMoreData \<and> map packet_bytes outs = [[1, 0, 4, 0], [2, 0, 4, 0]])
      (recv_rounds counting_pool [3, 2, 9, 1, 1, 1, 1, 1] [1, 0, 4, 0, 2, 0, 4, 0] 0 ring8)"
    by code_simp
  with R have "res = NeedMoreData" "map packet_bytes outs = [[1, 0, 4, 0], [2, 0, 4, 0]]" by simp_all
  with recv_any_cut [OF ring8_ok(1-3) _ _ _ R] R show ?thesis by (simp add: ring8_ok)
qed

text \<open>
  Round trip over the wire: any list of well-formed packets, written back to back by the peer and cut
  by TCP in any way, comes out of the ring as exactly those packets in order, and leaves the
  ring empty (when the pool never runs out).
\<close>

theorem wire_roundtrip:
  assumes "rb_inv b" and "rb_buffer b \<noteq> None" and "stored_bytes b = []" and "GetWriteableSize b \<noteq> 0"
    and "\<forall>q \<in> set ps. wire_packet (unat (rb_maxPacketSize b)) q"
    and "0 \<notin> set ns" and "length (concat ps) \<le> length ns"
    and "recv_rounds acquire ns (concat ps) p b = (outs, res, stream', p', b')" and "res \<noteq> OutOfMemory"
  shows "map packet_bytes outs = ps \<and> res = NeedMoreData \<and> stream' = [] \<and> stored_bytes b' = []"
  using recv_rounds_packets [OF assms] .

lemma ring8_pool_lasts: "fst (snd (recv_rounds counting_pool [2, 1, 1, 1] [1, 0, 4, 0] 0 ring8)) \<noteq> OutOfMemory"
  by code_simp

lemma wire_roundtrip_witness:
  "\<exists>outs res stream' p' b'. recv_rounds counting_pool [2, 1, 1, 1] (concat [[1, 0, 4, 0]]) 0 ring8 =
      (outs, res, stream', p', b') \<and>
     map packet_bytes outs = [[1, 0, 4, 0]] \<and> res = NeedMoreData \<and> stream' = [] \<and> stored_bytes b' = []"
proof -
  obtain outs res stream' p' b' where
    R: "recv_rounds counting_pool [2, 1, 1, 1] (concat [[1, 0, 4, 0]]) 0 ring8 = (outs, res, stream', p', b')"
    by (metis prod_cases5)
  have "res \<noteq> OutOfMemory" using ring8_pool_lasts R by simp
  moreover have "\<forall>q \<in> set [[1, 0, 4, 0]]. wire_packet (unat (rb_maxPacketSize ring8)) q" by code_simp
  ultimately show ?thesis using wire_roundtrip [OF ring8_ok(1-3) _ _ _ _ R] R by (simp add: ring8_ok)
qed

text \<open>
  Bounds of the kernel's write: whatever completed receive stays within \<open>GetWriteableSize\<close>
  fits between the writable pointer and the end of the block, is accepted by \<open>CommitWrite\<close>, is
  appended to the received stream behind the bytes that are still pending, and keeps the
  ring's invariant.
\<close>

theorem receive_in_bounds:
  assumes "rb_inv b" and "rb_buffer b = Some buf" and "data \<noteq> []"
    and "length data \<le> unat (GetWriteableSize b)"
  shows "(\<exists>off. GetWriteablePtr b = Some off \<and> off + length data \<le> length buf) \<and>
    (\<exists>b'. CommitWrite (of_nat (length data)) (deliver data b) = (True, b') \<and> rb_inv b' \<and>
          stored_bytes b' = stored_bytes b @ data)"
proof -
  obtain ok b' where C: "CommitWrite (of_nat (length data)) (deliver data b) = (ok, b')" by fastforce
  from deliver_commit [OF assms(1,2,4,3) C] writeable_bounds(1) [OF assms(1,2,4)] C show ?thesis
    by (simp add: GetWriteablePtr_def assms(2))
qed

lemma receive_in_bounds_witness:
  "(\<exists>off. GetWriteablePtr ring8 = Some off \<and> off + length [1, 2, 3 :: u8] \<le> length (replicate 8 (0 :: u8))) \<and>
    (\<exists>b'. CommitWrite (of_nat (length [1, 2, 3 :: u8])) (deliver [1, 2, 3] ring8) = (True, b') \<and> rb_inv b' \<and>
          stored_bytes b' = stored_bytes ring8 @ [1, 2, 3])"
proof (rule receive_in_bounds)
  show "rb_inv ring8" "[1, 2, 3 :: u8] \<noteq> []" by (simp_all add: ring8_ok)
  show "rb_buffer ring8 = Some (replicate 8 0)" by code_simp
  show "length [1, 2, 3 :: u8] \<le> unat (GetWriteableSize ring8)" by (simp add: ring8_ok)
qed

text \<open>
  The ring never blocks the peer: when \<open>ReadPacket\<close> asks for more data, the stored fragment is
  shorter than the largest packet, and after \<open>PrepareWrite\<close> the writable range holds at least one
  largest packet. The receive of zero bytes that \<open>PostReceive\<close> guards against cannot be reached
  from a drained ring.
\<close>

theorem drained_ring_has_room:
  assumes "rb_inv b" and "rb_buffer b = Some buf"
    and "ReadPacket acquire p b = (NeedMoreData, out, p', b')"
  shows "unat (rb_storedSize b') < unat (rb_maxPacketSize b') \<and>
    unat (rb_maxPacketSize b') \<le> unat (GetWriteableSize (PrepareWrite b')) \<and>
    GetWriteableSize (PrepareWrite b') \<noteq> 0 \<and> stored_bytes (PrepareWrite b') = stored_bytes b"
proof -
  note nm = NeedMoreData_fragment [OF assms]
  have "4 \<le> unat (rb_maxPacketSize b)" by (rule rb_invE [OF assms(1,2)]) blast
  then have "GetWriteableSize (PrepareWrite b) \<noteq> 0" using PrepareWrite_room [OF assms(1,2) nm(1)] by auto
  then show ?thesis
    using nm PrepareWrite_room [OF assms(1,2) nm(1)] PrepareWrite_inv_stored(2) [OF assms(1)] by simp
qed

text \<open>A ring whose three stored bytes end at the block's end, so that \<open>PrepareWrite\<close> compacts.\<close>

definition ring8_tail :: RecvPacketBuffer where
  "ring8_tail = ring8\<lparr>rb_readPos := 3, rb_writePos := 6, rb_storedSize := 3\<rparr>"

lemma drained_ring_has_room_witness:
  "unat (rb_storedSize ring8_tail) < unat (rb_maxPacketSize ring8_tail) \<and>
    unat (rb_maxPacketSize ring8_tail) \<le> unat (GetWriteableSize (PrepareWrite ring8_tail)) \<and>
    GetWriteableSize (PrepareWrite ring8_tail) \<noteq> 0 \<and>
    stored_bytes (PrepareWrite ring8_tail) = stored_bytes ring8_tail"
proof (rule drained_ring_has_room)
  show "rb_inv ring8_tail" "rb_buffer ring8_tail = Some (replicate 8 0)"
    "ReadPacket counting_pool 0 ring8_tail = (NeedMoreData, no_packet, 0, ring8_tail)"
    by code_simp+
qed

text \<open>
  \<open>ReadPacket\<close> refines the packet parser on every branch: with an incomplete head it
  reports \<open>NeedMoreData\<close>, with a head whose size is below the header or above the limit it
  reports \<open>Invalid\<close>, both without touching ring or pool; with a complete packet it either
  reports \<open>OutOfMemory\<close> and keeps the packet, or copies exactly the packet's bytes into the
  acquired block and removes them from the stream.
\<close>

theorem ReadPacket_refines_parser:
  assumes "rb_inv b" and "ReadPacket acquire p b = (res, out, p', b')"
  shows "case next_packet (unat (rb_maxPacketSize b)) (stored_bytes b) of
      Next_Incomplete \<Rightarrow> res = NeedMoreData \<and> out = no_packet \<and> p' = p \<and> b' = b
    | Next_Invalid \<Rightarrow> res = Invalid \<and> out = no_packet \<and> p' = p \<and> b' = b
    | Next_Packet pkt rest \<Rightarrow>
        (case acquire p (length pkt) of
           (None, q) \<Rightarrow> res = OutOfMemory \<and> out = no_packet \<and> p' = q \<and> b' = b
         | (Some a, q) \<Rightarrow> res = Read_Ok \<and> p' = q \<and>
             out = \<lparr>po_buffer = Some (a, pkt), po_size = of_nat (length pkt),
                    po_packetId = packetId (header_of pkt)\<rparr> \<and>
             rb_inv b' \<and> stored_bytes b' = rest)"
  using assms by (rule ReadPacket_spec)

text \<open>A packet stored across the end of the block.\<close>

definition ring8_wrap :: RecvPacketBuffer where
  "ring8_wrap = ring8\<lparr>rb_buffer := Some [4, 0, 9, 9, 9, 9, 7, 1],
                      rb_readPos := 6, rb_writePos := 3, rb_storedSize := 5\<rparr>"

lemma ReadPacket_refines_parser_witness:
  "\<exists>b'. ReadPacket counting_pool 5 ring8_wrap =
      (Read_Ok, \<lparr>po_buffer = Some (5, [7, 1, 4, 0]), po_size = 4, po_packetId = 263\<rparr>, 6, b') \<and>
    rb_inv b' \<and> stored_bytes b' = [9]"
proof -
  obtain res out p' b' where R: "ReadPacket counting_pool 5 ring8_wrap = (res, out, p', b')"
    by (metis prod_cases4)
  have i: "rb_inv ring8_wrap" by code_simp
  have n: "next_packet (unat (rb_maxPacketSize ring8_wrap)) (stored_bytes ring8_wrap) = Next_Packet [7, 1, 4, 0] [9]"
    by code_simp
  have h: "packetId (header_of [7, 1, 4, 0]) = 263" by code_simp
  from ReadPacket_refines_parser [OF i R] R show ?thesis
    by (simp add: n counting_pool_def h)
qed

end
