(* ===== verification/SizeBin.thy ===== *)
theory SizeBin
  imports Prelude
begin

text \<open>
  The size classes of the memory pool (\<open>Memory/SizeBin.h\<close>, \<open>Memory/BlockLayout.h\<close> and the
  first part of \<open>TlsMemoryPool::Initialize\<close>): which bin a request goes to, how the constants of
  a bin are derived from its block size, and which bin table a configuration produces. The
  arithmetic is on the code's own widths (\<open>uint32_t\<close>, and \<open>size_t\<close> of the x64 build).
\<close>

section \<open>Constants and alignment\<close>

definition SEGMENT_TARGET_BYTES :: u64 where "SEGMENT_TARGET_BYTES = 262144"
definition CACHE_BYTES_PER_BIN :: u32 where "CACHE_BYTES_PER_BIN = 65536"
definition CACHE_CAP_BLOCK_LIMIT :: u32 where "CACHE_CAP_BLOCK_LIMIT = 512"
definition CACHE_CAP_MIN_BLOCKS :: u32 where "CACHE_CAP_MIN_BLOCKS = 4"
definition MIN_BLOCK_SIZE :: u64 where "MIN_BLOCK_SIZE = 32"
definition MAX_BIN_COUNT :: u32 where "MAX_BIN_COUNT = 24"
definition sizeof_BlockHeader :: u64 where "sizeof_BlockHeader = 16"

lemmas bin_consts = SEGMENT_TARGET_BYTES_def CACHE_BYTES_PER_BIN_def CACHE_CAP_BLOCK_LIMIT_def
  CACHE_CAP_MIN_BLOCKS_def MIN_BLOCK_SIZE_def MAX_BIN_COUNT_def sizeof_BlockHeader_def

definition AlignUpSize :: "u64 \<Rightarrow> u64 \<Rightarrow> u64" where
  "AlignUpSize value alignment = (value + (alignment - 1)) AND NOT (alignment - 1)"

definition HeaderSizeFor :: "u32 \<Rightarrow> u32" where
  "HeaderSizeFor payloadAlignment = ucast (AlignUpSize sizeof_BlockHeader (ucast payloadAlignment))"

lemma and_not_minus: "x AND NOT m = x - (x AND m)" for x m :: "'a::len word"
proof -
  have "(x AND m) AND (x AND NOT m) = 0" by (rule bit_eqI) (auto simp: bit_simps)
  then have "(x AND m) + (x AND NOT m) = (x AND m) OR (x AND NOT m)" by (rule disjunctive_add_eq_or)
  also have "\<dots> = x" by (rule bit_eqI) (auto simp: bit_simps)
  finally show ?thesis by (simp add: algebra_simps)
qed

lemma AlignUpSize_unat:
  assumes a: "unat a = 2 ^ k" and k: "k < 64" and small: "unat v + 2 ^ k \<le> 2 ^ 64"
  shows "unat (AlignUpSize v a) = (unat v + (2 ^ k - 1)) div 2 ^ k * 2 ^ k"
proof -
  have a0: "a \<noteq> 0" using a by auto
  then have m: "unat (a - 1) = 2 ^ k - 1" by (simp add: unat_pred a)
  let ?x = "v + (a - 1)"
  have x: "unat ?x = unat v + (2 ^ k - 1)"
  proof (subst unat_add_small)
    have "(1::nat) \<le> 2 ^ k" by simp
    with small show "unat v + unat (a - 1) < 2 ^ LENGTH(64)" by (simp only: m) simp
  qed (simp add: m)
  have "unat (?x AND (a - 1)) = unat ?x AND (2 ^ k - 1)" by (simp only: unsigned_and_eq m)
  also have "(2::nat) ^ k - 1 = mask k" by (simp add: mask_eq_exp_minus_1)
  also have "unat ?x AND mask k = unat ?x mod 2 ^ k"
    by (simp flip: take_bit_eq_mask add: take_bit_eq_mod)
  finally have am: "unat (?x AND (a - 1)) = unat ?x mod 2 ^ k" .
  have "unat (AlignUpSize v a) = unat (?x - (?x AND (a - 1)))"
    by (simp only: AlignUpSize_def and_not_minus)
  also have "\<dots> = unat ?x - unat ?x mod 2 ^ k"
    by (subst unat_minus_le) (simp_all only: am word_le_nat_alt mod_less_eq_dividend)
  also have "\<dots> = unat ?x div 2 ^ k * 2 ^ k" by (simp add: minus_mod_eq_div_mult)
  finally show ?thesis using x by simp
qed

section \<open>Choosing a bin\<close>

text \<open>
  \<open>_BitScanReverse64\<close>: the index of the highest set bit. For the value 0 the intrinsic leaves
  the caller's \<open>index = 0\<close>.
\<close>

fun top_bit :: "nat \<Rightarrow> nat" where
  "top_bit n = (if n < 2 then 0 else Suc (top_bit (n div 2)))"

declare top_bit.simps [simp del]

definition ScanReverse :: "u64 \<Rightarrow> nat" where
  "ScanReverse value = top_bit (unat value)"

definition CeilLog2 :: "u64 \<Rightarrow> u32" where
  "CeilLog2 value = (if value \<le> 1 then 0 else of_nat (ScanReverse (value - 1)) + 1)"

record BinSpec =
  bs_blockSize :: u32
  bs_stride :: u32
  bs_cacheCapBlocks :: u32
  bs_batchBlocks :: u32
  bs_blocksPerSegment :: u32

record BinTable =
  bt_binCount :: u32
  bt_minBinLog :: u32
  bt_headerSize :: u32
  bt_payloadAlignment :: u32
  bt_minMask :: u64
  bt_specs :: "BinSpec list"

definition BinOf :: "BinTable \<Rightarrow> u64 \<Rightarrow> u32" where
  "BinOf t sz = of_nat (ScanReverse ((sz - 1) OR bt_minMask t)) + 1 - bt_minBinLog t"

lemma top_bit_less: "top_bit n < k \<longleftrightarrow> n < 2 ^ k" if "0 < k"
  using that
proof (induction n arbitrary: k rule: top_bit.induct)
  case (1 n)
  show ?case
  proof (cases "n < 2")
    case True
    have "(2::nat) ^ 1 \<le> 2 ^ k" using "1.prems" by (intro power_increasing) simp_all
    with True "1.prems" show ?thesis by (simp add: top_bit.simps [of n])
  next
    case False
    then have t: "top_bit n = Suc (top_bit (n div 2))" by (simp add: top_bit.simps [of n])
    show ?thesis
    proof (cases "k = 1")
      case True
      with False t show ?thesis by simp
    next
      case k: False
      then obtain j where j: "k = Suc j" "0 < j" using "1.prems" by (cases k) auto
      have "top_bit n < k \<longleftrightarrow> top_bit (n div 2) < j" using t j by simp
      also have "\<dots> \<longleftrightarrow> n div 2 < 2 ^ j" using "1.IH" [OF False] j by simp
      also have "\<dots> \<longleftrightarrow> n < 2 ^ k" using j by (auto simp: div_less_iff_less_mult mult.commute)
      finally show ?thesis .
    qed
  qed
qed

lemma top_bit_u64: "top_bit (unat v) < 64" for v :: u64
  using unsigned_less [of v, where ?'a = nat] by (simp add: top_bit_less)

lemma or_less_exp: "a OR b < 2 ^ k \<longleftrightarrow> a < 2 ^ k \<and> b < 2 ^ k" for a b :: nat
proof -
  have "n < 2 ^ k \<longleftrightarrow> drop_bit k n = 0" for n :: nat by (simp add: drop_bit_eq_div div_eq_0_iff)
  then show ?thesis by (simp add: or_eq_0_iff)
qed

text \<open>The table fields that \<open>Initialize\<close> computes from the smallest configured sz.\<close>

definition bin_mask_ok :: "BinTable \<Rightarrow> nat \<Rightarrow> bool" where
  "bin_mask_ok t m \<longleftrightarrow> 0 < m \<and> m \<le> 32 \<and> bt_minBinLog t = of_nat m \<and> unat (bt_minMask t) = 2 ^ m - 1"

text \<open>The bin is the least one whose blocks, of \<open>2 ^ (m + b)\<close> bytes, hold the request.\<close>

lemma BinOf_le:
  assumes t: "bin_mask_ok t m" and sz: "sz \<noteq> 0"
  shows "unat (BinOf t sz) \<le> b \<longleftrightarrow> unat sz \<le> 2 ^ (m + b)"
proof -
  from t have m: "0 < m" "m \<le> 32" "bt_minBinLog t = of_nat m" "unat (bt_minMask t) = 2 ^ m - 1"
    by (simp_all add: bin_mask_ok_def)
  let ?v = "(sz - 1) OR bt_minMask t" and ?tb = "top_bit (unat ((sz - 1) OR bt_minMask t))"
  have s1: "unat (sz - 1) = unat sz - 1" using sz by (rule unat_pred)
  have v: "unat ?v = (unat sz - 1) OR (2 ^ m - 1)" by (simp add: unsigned_or_eq s1 m)
  have small: "?tb < 64" by (rule top_bit_u64)
  have "\<not> ?tb < m - 1 + 0 \<or> m = 1"
  proof (cases "m = 1")
    case False
    then have "0 < m - 1" using m by simp
    then have "?tb < m - 1 \<longleftrightarrow> unat ?v < 2 ^ (m - 1)" by (rule top_bit_less)
    also have "\<dots> \<longleftrightarrow> False"
    proof -
      have "(2::nat) ^ m = 2 * 2 ^ (m - 1)" using m by (simp flip: power_Suc)
      moreover have "(1::nat) \<le> 2 ^ (m - 1)" by simp
      ultimately have "\<not> (2::nat) ^ m - 1 < 2 ^ (m - 1)" by linarith
      then show ?thesis by (simp add: v or_less_exp)
    qed
    finally show ?thesis by simp
  qed simp
  then have ge: "m \<le> Suc ?tb" by auto
  have "BinOf t sz = of_nat (Suc ?tb - m)"
    using ge by (simp add: BinOf_def ScanReverse_def m of_nat_diff)
  then have B: "unat (BinOf t sz) = Suc ?tb - m"
    using small by (simp add: unat_of_nat)
  then have "unat (BinOf t sz) \<le> b \<longleftrightarrow> ?tb < m + b" using ge by linarith
  also have "\<dots> \<longleftrightarrow> unat ?v < 2 ^ (m + b)" using m by (intro top_bit_less) simp
  also have "\<dots> \<longleftrightarrow> unat sz - 1 < 2 ^ (m + b) \<and> 2 ^ m - 1 < (2::nat) ^ (m + b)"
    by (simp only: v or_less_exp)
  also have "\<dots> \<longleftrightarrow> unat sz \<le> 2 ^ (m + b)"
  proof -
    have "(2::nat) ^ m \<le> 2 ^ (m + b)" by (rule power_increasing) simp_all
    moreover have "(0::nat) < 2 ^ m" by simp
    moreover have "0 < unat sz" using sz by (simp add: unat_gt_0)
    ultimately show ?thesis by linarith
  qed
  finally show ?thesis .
qed

lemma CeilLog2_le:
  assumes "0 < b"
  shows "unat (CeilLog2 v) \<le> b \<longleftrightarrow> unat v \<le> 2 ^ b"
proof (cases "v \<le> 1")
  case True
  then have "unat v \<le> 1" by (simp add: word_le_nat_alt)
  then have "unat v \<le> 2 ^ b" by (meson le_trans one_le_numeral one_le_power)
  with True show ?thesis by (simp add: CeilLog2_def)
next
  case False
  then have v0: "v \<noteq> 0" by auto
  have t: "top_bit (unat (v - 1)) < 64" by (rule top_bit_u64)
  have "CeilLog2 v = of_nat (Suc (top_bit (unat (v - 1))))"
    using False by (simp add: CeilLog2_def ScanReverse_def)
  then have "unat (CeilLog2 v) = Suc (top_bit (unat (v - 1)))"
    using t by (simp only: unat_of_nat) simp
  then have "unat (CeilLog2 v) \<le> b \<longleftrightarrow> top_bit (unat (v - 1)) < b" by linarith
  also have "\<dots> \<longleftrightarrow> unat v - 1 < 2 ^ b" using assms v0 by (simp add: top_bit_less unat_pred)
  also have "\<dots> \<longleftrightarrow> unat v \<le> 2 ^ b" using unat_gt_0 [of v] v0 by linarith
  finally show ?thesis .
qed

section \<open>The constants of a bin\<close>

text \<open>
  \<open>MakeBinSpec\<close>. \<open>None\<close> is the processor's trap on the integer divisions by \<open>blockSize\<close> and by
  \<open>stride\<close> (HOL's division by zero would be 0).
\<close>

definition MakeBinSpec :: "u32 \<Rightarrow> u32 \<Rightarrow> u32 \<Rightarrow> BinSpec option" where
  "MakeBinSpec blockSize headerSize alignment =
     (let stride = ucast (AlignUpSize (ucast (headerSize + blockSize)) (ucast alignment)) :: u32 in
      if blockSize = 0 \<or> stride = 0 then None
      else
        (let cap0 = CACHE_BYTES_PER_BIN div blockSize;
             cap1 = (if cap0 > CACHE_CAP_BLOCK_LIMIT then CACHE_CAP_BLOCK_LIMIT else cap0);
             cap = (if cap1 < CACHE_CAP_MIN_BLOCKS then 0 else cap1);
             batch = (if cap \<ge> CACHE_CAP_MIN_BLOCKS then cap div 4 else 1);
             blocks0 = SEGMENT_TARGET_BYTES div ucast stride;
             blocks1 = (if blocks0 < ucast batch * 2 then ucast batch * 2 else blocks0);
             blocks = (if blocks1 < 2 then 2 else blocks1)
         in Some \<lparr>bs_blockSize = blockSize, bs_stride = stride, bs_cacheCapBlocks = cap,
                  bs_batchBlocks = batch, bs_blocksPerSegment = ucast blocks\<rparr>))"

text \<open>The scan of the configured sizes: \<open>None\<close> when one is zero, else the least and the largest.\<close>

primrec config_range :: "u32 list \<Rightarrow> u64 \<Rightarrow> u64 \<Rightarrow> (u64 \<times> u64) option" where
  "config_range [] smallest largest = Some (smallest, largest)"
| "config_range (c # cs) smallest largest =
     (if c = 0 then None
      else config_range cs (if ucast c < smallest then ucast c else smallest)
                           (if ucast c > largest then ucast c else largest))"

text \<open>
  What the table part of \<open>TlsMemoryPool::Initialize\<close> ends with: a table, a rejected configuration,
  or the trap.
\<close>

datatype table_result = Table BinTable | Rejected | Trap

definition collect_specs :: "BinSpec option list \<Rightarrow> BinSpec list option" where
  "collect_specs ss = (if None \<in> set ss then None else Some (map the ss))"

definition MakeBinTable :: "u32 list \<Rightarrow> u32 \<Rightarrow> table_result" where
  "MakeBinTable sizes payloadAlignment =
     (if sizes = [] then Rejected
      else if \<not> IsPowerOfTwo payloadAlignment \<or> payloadAlignment < 16 \<or> payloadAlignment > 4096
        then Rejected
      else
        (case config_range sizes (- 1) 0 of
           None \<Rightarrow> Rejected
         | Some (smallest0, largest) \<Rightarrow>
             (let smallest = (if smallest0 < MIN_BLOCK_SIZE then MIN_BLOCK_SIZE else smallest0);
                  minBinLog = CeilLog2 smallest;
                  maxBinLog = CeilLog2 largest;
                  binCount = maxBinLog - minBinLog + 1
              in if binCount > MAX_BIN_COUNT then Rejected
                 else
                   (let hdr = HeaderSizeFor payloadAlignment in
                    case collect_specs (map (\<lambda>bin. MakeBinSpec
                           (ucast (push_bit (unat minBinLog + bin) (1 :: u64))) hdr payloadAlignment)
                           [0..<unat binCount]) of
                      None \<Rightarrow> Trap
                    | Some specs \<Rightarrow>
                        Table \<lparr>bt_binCount = binCount, bt_minBinLog = minBinLog, bt_headerSize = hdr,
                               bt_payloadAlignment = payloadAlignment,
                               bt_minMask = push_bit (unat minBinLog) 1 - 1, bt_specs = specs\<rparr>))))"

text \<open>What the pool relies on in a bin of \<open>2 ^ k\<close> byte blocks with an alignment of \<open>2 ^ a\<close>.\<close>

definition spec_ok :: "nat \<Rightarrow> nat \<Rightarrow> nat \<Rightarrow> BinSpec \<Rightarrow> bool" where
  "spec_ok k a hdr s \<longleftrightarrow>
     unat (bs_blockSize s) = 2 ^ k \<and>
     2 ^ a dvd unat (bs_stride s) \<and> hdr + 2 ^ k \<le> unat (bs_stride s) \<and>
     unat (bs_stride s) < hdr + 2 ^ k + 2 ^ a \<and>
     1 \<le> unat (bs_batchBlocks s) \<and> 2 * unat (bs_batchBlocks s) \<le> unat (bs_blocksPerSegment s) \<and>
     2 \<le> unat (bs_blocksPerSegment s) \<and>
     unat (bs_cacheCapBlocks s) \<le> 512 \<and> unat (bs_cacheCapBlocks s) * 2 ^ k \<le> 65536 \<and>
     (unat (bs_cacheCapBlocks s) = 0 \<or> 4 * unat (bs_batchBlocks s) \<le> unat (bs_cacheCapBlocks s))"

lemma unat_ucast_64: "unat (ucast v :: u64) = unat v" for v :: u32
  using unsigned_less [of v, where ?'a = nat] by (simp add: unsigned_ucast_eq take_bit_nat_eq_self)

lemma HeaderSizeFor_unat:
  assumes "unat al = 2 ^ a" and "4 \<le> a" and "a \<le> 12"
  shows "unat (HeaderSizeFor al) = 2 ^ a"
proof -
  have a: "(2::nat) ^ a \<le> 2 ^ 12" "(2::nat) ^ 4 \<le> 2 ^ a" 
    using power_increasing [of a 12 "2::nat"] power_increasing [of 4 a "2::nat"] assms by simp_all
  have "unat (AlignUpSize sizeof_BlockHeader (ucast al)) = (16 + (2 ^ a - 1)) div 2 ^ a * 2 ^ a"
    using assms a by (subst AlignUpSize_unat [where k = a]) (simp_all add: unat_ucast_64 sizeof_BlockHeader_def)
  also have "(16 + (2 ^ a - 1)) div (2::nat) ^ a = 1"
    using a by (intro div_nat_eqI) auto
  finally have "unat (AlignUpSize sizeof_BlockHeader (ucast al)) = 2 ^ a" by simp
  then show ?thesis using a by (simp add: HeaderSizeFor_def unsigned_ucast_eq take_bit_eq_mod)
qed

lemma align_up_bounds:
  fixes v :: nat
  shows "v \<le> (v + (2 ^ a - 1)) div 2 ^ a * 2 ^ a" and "(v + (2 ^ a - 1)) div 2 ^ a * 2 ^ a < v + 2 ^ a"
proof -
  let ?x = "v + (2 ^ a - 1)"
  have "?x div 2 ^ a * 2 ^ a + ?x mod 2 ^ a = ?x" by (rule div_mult_mod_eq)
  moreover have "?x mod 2 ^ a < 2 ^ a" by simp
  moreover have "(1::nat) \<le> 2 ^ a" by simp
  ultimately show "v \<le> ?x div 2 ^ a * 2 ^ a" and "?x div 2 ^ a * 2 ^ a < v + 2 ^ a" by linarith+
qed

lemma MakeBinSpec_ok:
  assumes al: "unat al = 2 ^ a" "4 \<le> a" "a \<le> 12" and hdr: "unat hdr = 2 ^ a"
    and bs: "unat blockSize = 2 ^ k" and k: "5 \<le> k" "k \<le> 31"
  shows "\<exists>s. MakeBinSpec blockSize hdr al = Some s \<and> spec_ok k a (2 ^ a) s"
proof -
  have pk: "(2::nat) ^ k \<le> 2 ^ 31" "(2::nat) ^ 5 \<le> 2 ^ k" and pa: "(2::nat) ^ a \<le> 2 ^ 12" "(2::nat) ^ 4 \<le> 2 ^ a"
    using power_increasing [of k 31 "2::nat"] power_increasing [of 5 k "2::nat"]
      power_increasing [of a 12 "2::nat"] power_increasing [of 4 a "2::nat"] k al by simp_all
  have sum: "unat (hdr + blockSize) = 2 ^ a + 2 ^ k"
    using pk pa hdr bs by (subst unat_add_small) simp_all
  define up where "up = (2 ^ a + 2 ^ k + (2 ^ a - 1)) div 2 ^ a * (2::nat) ^ a"
  have up: "2 ^ a + 2 ^ k \<le> up" "up < 2 ^ a + 2 ^ k + 2 ^ a" "2 ^ a dvd up"
    using align_up_bounds [of "2 ^ a + 2 ^ k" a] by (simp_all add: up_def)
  have A: "unat (AlignUpSize (ucast (hdr + blockSize)) (ucast al)) = up"
    using al pk pa by (subst AlignUpSize_unat [where k = a]) (simp_all add: unat_ucast_64 sum up_def)
  define stride where "stride = (ucast (AlignUpSize (ucast (hdr + blockSize)) (ucast al)) :: u32)"
  have up32: "up < 2 ^ 32" using up(2) pk pa by simp
  have stride: "unat stride = up"
    unfolding stride_def by (simp add: unsigned_ucast_eq A take_bit_eq_mod) (use up32 in simp)
  have b0: "blockSize \<noteq> 0" and s0: "stride \<noteq> 0" using bs stride up(1) pk by auto
  define cap0 where "cap0 = CACHE_BYTES_PER_BIN div blockSize"
  define cap1 where "cap1 = (if cap0 > CACHE_CAP_BLOCK_LIMIT then CACHE_CAP_BLOCK_LIMIT else cap0)"
  define cap where "cap = (if cap1 < CACHE_CAP_MIN_BLOCKS then 0 else cap1)"
  define batch where "batch = (if cap \<ge> CACHE_CAP_MIN_BLOCKS then cap div 4 else 1)"
  define blocks0 where "blocks0 = SEGMENT_TARGET_BYTES div ucast stride"
  define blocks1 where "blocks1 = (if blocks0 < ucast batch * 2 then ucast batch * 2 else blocks0)"
  define blocks where "blocks = (if blocks1 < 2 then 2 else blocks1)"
  have M: "MakeBinSpec blockSize hdr al = Some \<lparr>bs_blockSize = blockSize, bs_stride = stride,
      bs_cacheCapBlocks = cap, bs_batchBlocks = batch, bs_blocksPerSegment = ucast blocks\<rparr>"
    unfolding MakeBinSpec_def Let_def stride_def [symmetric] cap0_def [symmetric] cap1_def [symmetric]
      cap_def [symmetric] batch_def [symmetric] blocks0_def [symmetric] blocks1_def [symmetric]
      blocks_def [symmetric]
    by (simp only: b0 s0 simp_thms if_False)
  have c0: "unat cap0 = 65536 div 2 ^ k" by (simp add: cap0_def CACHE_BYTES_PER_BIN_def unat_div bs)
  have c1: "unat cap1 = min 512 (unat cap0)"
    by (auto simp: cap1_def CACHE_CAP_BLOCK_LIMIT_def word_less_nat_alt min_def)
  have c: "unat cap = (if unat cap1 < 4 then 0 else unat cap1)"
    by (simp add: cap_def CACHE_CAP_MIN_BLOCKS_def word_less_nat_alt)
  have b: "unat batch = (if unat cap \<ge> 4 then unat cap div 4 else 1)"
    by (simp add: batch_def CACHE_CAP_MIN_BLOCKS_def word_le_nat_alt unat_div)
  have "unat cap \<le> unat cap0" using c c1 by simp
  then have "unat cap * 2 ^ k \<le> 65536 div 2 ^ k * 2 ^ k" using c0 by (simp add: mult_le_mono1)
  also have "\<dots> \<le> 65536" by simp
  finally have cap64: "unat cap * 2 ^ k \<le> 65536" .
  have cap512: "unat cap \<le> 512" using c c1 by simp
  have b128: "unat batch \<le> 128" using b cap512 by auto
  have bb: "unat (ucast batch * 2 :: u64) = 2 * unat batch"
    using b128 by (simp add: unat_word_ariths unat_ucast_64)
  have bl0: "unat blocks0 \<le> 262144"
    by (simp add: blocks0_def SEGMENT_TARGET_BYTES_def unat_div)
  have bl1: "unat blocks1 = max (2 * unat batch) (unat blocks0)"
    using bb by (auto simp: blocks1_def word_less_nat_alt max_def)
  have bl: "unat blocks = max 2 (unat blocks1)"
    by (auto simp: blocks_def word_less_nat_alt max_def)
  then have "unat blocks \<le> 262144" using bl1 bl0 b128 by simp
  then have ub: "unat (ucast blocks :: u32) = max 2 (max (2 * unat batch) (unat blocks0))"
    using bl bl1 by (simp add: unsigned_ucast_eq take_bit_eq_mod)
  have "spec_ok k a (2 ^ a) \<lparr>bs_blockSize = blockSize, bs_stride = stride,
      bs_cacheCapBlocks = cap, bs_batchBlocks = batch, bs_blocksPerSegment = ucast blocks\<rparr>"
    using bs stride up ub cap64 cap512 b c by (auto simp: spec_ok_def)
  with M show ?thesis by blast
qed

section \<open>Tables\<close>

text \<open>
  A table that \<open>Initialize\<close> accepts: bin \<open>b\<close> has blocks of \<open>2 ^ (m + b)\<close> bytes, and the alignment
  is \<open>2 ^ a\<close>.
\<close>

definition table_shape :: "BinTable \<Rightarrow> nat \<Rightarrow> nat \<Rightarrow> bool" where
  "table_shape t m a \<longleftrightarrow>
     bin_mask_ok t m \<and> 5 \<le> m \<and> 4 \<le> a \<and> a \<le> 12 \<and> unat (bt_payloadAlignment t) = 2 ^ a \<and>
     unat (bt_headerSize t) = 2 ^ a \<and> length (bt_specs t) = unat (bt_binCount t) \<and>
     unat (bt_binCount t) \<le> 24 \<and>
     (\<forall>b < length (bt_specs t). m + b \<le> 31 \<and> spec_ok (m + b) a (2 ^ a) (bt_specs t ! b))"

definition table_ok :: "BinTable \<Rightarrow> bool" where
  "table_ok t \<longleftrightarrow> (\<exists>m a. table_shape t m a)"

lemma config_range_bounds:
  "config_range cs s l = Some (s', l') \<Longrightarrow>
     unat s' \<le> unat s \<and> unat l \<le> unat l' \<and>
     (\<forall>c \<in> set cs. c \<noteq> 0 \<and> unat s' \<le> unat c \<and> unat c \<le> unat l')"
proof (induction cs arbitrary: s l)
  case Nil
  then show ?case by simp
next
  case (Cons c cs)
  then have c: "c \<noteq> 0" by (auto split: if_splits)
  with Cons.prems have "config_range cs (if ucast c < s then ucast c else s) (if ucast c > l then ucast c else l)
      = Some (s', l')" by simp
  from Cons.IH [OF this] c show ?case
    by (auto simp: word_less_nat_alt unat_ucast_64 split: if_splits)
qed

lemma config_range_None: "config_range cs s l = None \<longleftrightarrow> 0 \<in> set cs"
  by (induction cs arbitrary: s l) auto

lemma collect_specs_SomeD:
  assumes "collect_specs ss = Some xs"
  shows "length xs = length ss" and "\<And>i. i < length ss \<Longrightarrow> ss ! i = Some (xs ! i)"
proof -
  from assms have xs: "xs = map the ss" and n: "None \<notin> set ss"
    by (auto simp: collect_specs_def split: if_splits)
  show "length xs = length ss" using xs by simp
  show "\<And>i. i < length ss \<Longrightarrow> ss ! i = Some (xs ! i)"
    using xs n by (metis nth_map nth_mem option.exhaust_sel)
qed

lemma unat_push_bit_1: "k < 64 \<Longrightarrow> unat (push_bit k (1 :: u64)) = 2 ^ k"
proof -
  assume "k < 64"
  then have "(2::nat) ^ k < 2 ^ 64" by (intro power_strict_increasing) simp_all
  with \<open>k < 64\<close> show ?thesis
    by (simp only: unsigned_push_bit_eq) (simp add: push_bit_eq_mult take_bit_nat_eq_self)
qed

text \<open>Every table that comes out of \<open>Initialize\<close> has this shape.\<close>

lemma MakeBinTable_ok:
  assumes T: "MakeBinTable sizes al = Table t"
  shows "table_ok t"
proof -
  from T have ne: "sizes \<noteq> []" and p: "IsPowerOfTwo al" "16 \<le> al" "al \<le> 4096"
    by (auto simp: MakeBinTable_def not_less split: if_splits)
  obtain s0 l where R: "config_range sizes (- 1) 0 = Some (s0, l)"
    using T ne p by (auto simp: MakeBinTable_def split: if_splits option.splits)
  define s1 where "s1 = (if s0 < MIN_BLOCK_SIZE then MIN_BLOCK_SIZE else s0)"
  define mn where "mn = CeilLog2 s1"
  define bc where "bc = CeilLog2 l - mn + 1"
  define hdr where "hdr = HeaderSizeFor al"
  have T2: "(if bc > MAX_BIN_COUNT then Rejected else
      (case collect_specs (map (\<lambda>bin. MakeBinSpec (ucast (push_bit (unat mn + bin) (1 :: u64))) hdr al)
          [0..<unat bc]) of
        None \<Rightarrow> Trap
      | Some specs \<Rightarrow> Table \<lparr>bt_binCount = bc, bt_minBinLog = mn, bt_headerSize = hdr,
          bt_payloadAlignment = al, bt_minMask = push_bit (unat mn) 1 - 1, bt_specs = specs\<rparr>)) = Table t"
  proof -
    have "\<not> (\<not> IsPowerOfTwo al \<or> al < 16 \<or> al > 4096)" using p by (simp add: not_less)
    then show ?thesis
      using T [unfolded MakeBinTable_def R option.case prod.case Let_def]
      unfolding s1_def [symmetric] mn_def [symmetric] bc_def [symmetric] hdr_def [symmetric]
      by (simp only: ne if_False)
  qed
  then have bc24: "unat bc \<le> 24" and "\<exists>specs. collect_specs (map (\<lambda>bin. MakeBinSpec
      (ucast (push_bit (unat mn + bin) (1 :: u64))) hdr al) [0..<unat bc]) = Some specs"
    by (auto simp: MAX_BIN_COUNT_def word_less_nat_alt split: if_splits option.splits)
  then obtain specs where S: "collect_specs (map (\<lambda>bin. MakeBinSpec
      (ucast (push_bit (unat mn + bin) (1 :: u64))) hdr al) [0..<unat bc]) = Some specs" by blast
  have t: "t = \<lparr>bt_binCount = bc, bt_minBinLog = mn, bt_headerSize = hdr,
      bt_payloadAlignment = al, bt_minMask = push_bit (unat mn) 1 - 1, bt_specs = specs\<rparr>"
    using T2 S by (simp split: if_splits)
  obtain a where a: "a < 32" "unat al = 2 ^ a" using IsPowerOfTwo_exp [OF p(1)] .
  have "(2::nat) ^ 4 \<le> 2 ^ a" "(2::nat) ^ a \<le> 2 ^ 12" using p a by (simp_all add: word_le_nat_alt)
  then have a4: "4 \<le> a" "a \<le> 12" 
    by (auto intro: power_le_imp_le_exp [of "2::nat"])
  have hdr: "unat hdr = 2 ^ a" unfolding hdr_def using a(2) a4 by (rule HeaderSizeFor_unat)
  obtain c where c: "c \<in> set sizes" using ne by (cases sizes) auto
  have "unat s0 \<le> unat c" using config_range_bounds [OF R] c by blast
  then have s0: "unat s0 < 2 ^ 32" using unsigned_less [of c, where ?'a = nat] by simp
  have s1: "unat s1 \<le> 2 ^ 32" "32 \<le> unat s1"
    using s0 by (auto simp: s1_def MIN_BLOCK_SIZE_def word_less_nat_alt)
  have m32: "unat mn \<le> 32" using s1(1) CeilLog2_le [of 32 s1] by (simp add: mn_def)
  have m5: "5 \<le> unat mn"
  proof (rule ccontr)
    assume "\<not> 5 \<le> unat mn"
    then have "unat (CeilLog2 s1) \<le> 4" by (simp add: mn_def)
    then have "unat s1 \<le> 2 ^ 4" by (simp only: CeilLog2_le zero_less_numeral)
    with s1(2) show False by simp
  qed
  have mask: "unat (push_bit (unat mn) 1 - 1 :: u64) = 2 ^ unat mn - 1"
  proof -
    have u: "unat (push_bit (unat mn) (1 :: u64)) = 2 ^ unat mn" using m32 by (intro unat_push_bit_1) simp
    then have "push_bit (unat mn) (1 :: u64) \<noteq> 0" by (metis power_not_zero unat_0 zero_neq_numeral)
    from unat_pred [OF this] u show ?thesis by (simp only:)
  qed
  have len: "length specs = unat bc" using collect_specs_SomeD(1) [OF S] by simp
  have each: "unat mn + b \<le> 31 \<and> spec_ok (unat mn + b) a (2 ^ a) (specs ! b)" if b: "b < unat bc" for b
  proof -
    have "MakeBinSpec (ucast (push_bit (unat mn + b) (1 :: u64))) hdr al = Some (specs ! b)"
      using collect_specs_SomeD(2) [OF S, of b] b by simp
    moreover have lt: "unat mn + b < 64" using m32 b bc24 by simp
    have u: "unat (ucast (push_bit (unat mn + b) (1 :: u64)) :: u32) = 2 ^ (unat mn + b) mod 2 ^ 32"
      by (simp only: unsigned_ucast_eq unat_push_bit_1 [OF lt] take_bit_eq_mod) simp
    have le: "unat mn + b \<le> 31"
    proof (rule ccontr)
      assume "\<not> unat mn + b \<le> 31"
      then have "(2::nat) ^ 32 dvd 2 ^ (unat mn + b)" by (intro le_imp_power_dvd) simp
      then have "unat (ucast (push_bit (unat mn + b) (1 :: u64)) :: u32) = 0" using u by simp
      then have "(ucast (push_bit (unat mn + b) (1 :: u64)) :: u32) = 0" by (simp add: unat_eq_0)
      with calculation show False by (simp add: MakeBinSpec_def Let_def)
    qed
    then have "(2::nat) ^ (unat mn + b) < 2 ^ 32" by (intro power_strict_increasing) simp_all
    with u have "unat (ucast (push_bit (unat mn + b) (1 :: u64)) :: u32) = 2 ^ (unat mn + b)" by simp
    from MakeBinSpec_ok [OF a(2) a4 hdr this] m5 le calculation show ?thesis by simp
  qed
  have "table_shape t (unat mn) a"
    using t m5 m32 mask a a4 hdr len bc24 each by (simp add: table_shape_def bin_mask_ok_def)
  then show ?thesis unfolding table_ok_def by blast
qed

section \<open>Properties\<close>

text \<open>
  C13. \<open>BinOf\<close> picks the best fit: for a pool whose table \<open>Initialize\<close> built, a request that is served
  by a bin goes to the bin with the smallest blocks that hold it (every smaller bin's blocks are too small),
  and a request is sent past the pool exactly when it is larger than the blocks of the last bin.
\<close>

theorem BinOf_best_fit:
  assumes "MakeBinTable sizes al = Table t" and "sz \<noteq> 0" and "bt_binCount t \<noteq> 0"
  shows "(if BinOf t sz < bt_binCount t
          then unat sz \<le> unat (bs_blockSize (bt_specs t ! unat (BinOf t sz))) \<and>
               (\<forall>b < unat (BinOf t sz). unat (bs_blockSize (bt_specs t ! b)) < unat sz)
          else unat (bs_blockSize (bt_specs t ! (unat (bt_binCount t) - 1))) < unat sz)"
proof -
  obtain m a where sh: "table_shape t m a" using MakeBinTable_ok [OF assms(1)] by (auto simp: table_ok_def)
  then have t: "bin_mask_ok t m" and len: "length (bt_specs t) = unat (bt_binCount t)"
    and bs: "\<And>b. b < unat (bt_binCount t) \<Longrightarrow> unat (bs_blockSize (bt_specs t ! b)) = 2 ^ (m + b)"
    by (auto simp: table_shape_def spec_ok_def)
  note le = BinOf_le [OF t assms(2)]
  show ?thesis
  proof (cases "BinOf t sz < bt_binCount t")
    case True
    then have lt: "unat (BinOf t sz) < unat (bt_binCount t)" by (simp add: word_less_nat_alt)
    moreover have "unat (bs_blockSize (bt_specs t ! b)) < unat sz" if "b < unat (BinOf t sz)" for b
      using le [of b] bs [of b] that lt by simp
    ultimately show ?thesis using True bs le [of "unat (BinOf t sz)"] by simp
  next
    case False
    have "0 < unat (bt_binCount t)" using assms(3) by (simp add: unat_gt_0)
    moreover from False have "unat (bt_binCount t) \<le> unat (BinOf t sz)"
      by (simp add: word_less_nat_alt)
    ultimately have "\<not> unat (BinOf t sz) \<le> unat (bt_binCount t) - 1" by linarith
    with False le bs [of "unat (bt_binCount t) - 1"] \<open>0 < unat (bt_binCount t)\<close> show ?thesis by simp
  qed
qed

definition sizes3 :: "u32 list" where "sizes3 = [64, 128, 200]"

lemma BinOf_best_fit_witness:
  "\<exists>t. MakeBinTable sizes3 16 = Table t \<and> BinOf t 100 = 1 \<and> bt_binCount t = 3 \<and>
     unat (100 :: u64) \<le> unat (bs_blockSize (bt_specs t ! 1)) \<and>
     (\<forall>b < 1. unat (bs_blockSize (bt_specs t ! b)) < unat (100 :: u64))"
proof -
  have "case MakeBinTable sizes3 16 of Table t \<Rightarrow> BinOf t 100 = 1 \<and> bt_binCount t = 3 | _ \<Rightarrow> False"
    by code_simp
  then obtain t where T: "MakeBinTable sizes3 16 = Table t" and b: "BinOf t 100 = 1" and c: "bt_binCount t = 3"
    by (auto split: table_result.splits)
  from BinOf_best_fit [OF T, of 100] T b c show ?thesis by simp
qed

text \<open>
  The constants of every bin of an accepted table: a block with its header fits its stride, the stride
  is a multiple of the payload alignment (so every payload of a segment is aligned), a cached
  list is bounded by 64 KB and by 512 blocks and by four batches below, and a segment holds at
  least two batches, so that one growth always refills a cache.
\<close>

theorem MakeBinSpec_bounds:
  assumes "MakeBinTable sizes al = Table t" and "b < unat (bt_binCount t)"
  shows "\<exists>s. s = bt_specs t ! b \<and>
    unat (bt_headerSize t) + unat (bs_blockSize s) \<le> unat (bs_stride s) \<and>
    unat al dvd unat (bs_stride s) \<and> unat al dvd unat (bt_headerSize t) \<and> 16 \<le> unat (bt_headerSize t) \<and>
    unat (bs_cacheCapBlocks s) * unat (bs_blockSize s) \<le> 65536 \<and> unat (bs_cacheCapBlocks s) \<le> 512 \<and>
    (bs_cacheCapBlocks s = 0 \<or> 4 * unat (bs_batchBlocks s) \<le> unat (bs_cacheCapBlocks s)) \<and>
    1 \<le> unat (bs_batchBlocks s) \<and> 2 * unat (bs_batchBlocks s) \<le> unat (bs_blocksPerSegment s)"
proof -
  obtain m a where sh: "table_shape t m a" using MakeBinTable_ok [OF assms(1)] by (auto simp: table_ok_def)
  have al: "bt_payloadAlignment t = al"
    using assms(1) by (auto simp: MakeBinTable_def Let_def split: if_splits option.splits)
  have "(2::nat) ^ 4 \<le> 2 ^ a" using sh by (intro power_increasing) (simp_all add: table_shape_def)
  moreover have "spec_ok (m + b) a (2 ^ a) (bt_specs t ! b)" using sh assms(2) by (simp add: table_shape_def)
  ultimately show ?thesis
    using sh al by (auto simp: table_shape_def spec_ok_def unat_eq_0)
qed

lemma MakeBinSpec_bounds_witness:
  "\<exists>t s. MakeBinTable sizes3 16 = Table t \<and> s = bt_specs t ! 2 \<and>
    unat (bt_headerSize t) + unat (bs_blockSize s) \<le> unat (bs_stride s) \<and> unat (16 :: u32) dvd unat (bs_stride s)"
proof -
  have "case MakeBinTable sizes3 16 of Table t \<Rightarrow> bt_binCount t = 3 | _ \<Rightarrow> False" by code_simp
  then obtain t where T: "MakeBinTable sizes3 16 = Table t" and c: "bt_binCount t = 3"
    by (auto split: table_result.splits)
  have "2 < unat (bt_binCount t)" using c by simp
  from MakeBinSpec_bounds [OF T this] T show ?thesis by blast
qed

text \<open>
  What \<open>Initialize\<close> does with sizes outside the range it is written for. A configuration
  whose sizes all lie in 9..16 is accepted with no bin at all (the smallest size is raised to
  32, the largest is not, so the bin count is 4 - 5 + 1); one with sizes up to 8 wraps to a
  huge bin count and is rejected as spanning too many bins; a size above \<open>2 ^ 31\<close> makes the block size of
  its bin wrap to 0 and the division by it traps.
\<close>

theorem Initialize_extreme_sizes:
  "(\<exists>t. MakeBinTable [16] 16 = Table t \<and> bt_binCount t = 0 \<and> bt_specs t = []) \<and>
   MakeBinTable [8] 16 = Rejected \<and> CeilLog2 8 - CeilLog2 MIN_BLOCK_SIZE + 1 = (- 1 :: u32) \<and>
   MakeBinTable [2147483649] 16 = Trap"
proof (intro conjI)
  have "case MakeBinTable [16] 16 of Table t \<Rightarrow> bt_binCount t = 0 \<and> bt_specs t = [] | _ \<Rightarrow> False" by code_simp
  then show "\<exists>t. MakeBinTable [16] 16 = Table t \<and> bt_binCount t = 0 \<and> bt_specs t = []"
    by (auto split: table_result.splits)
  show "MakeBinTable [8] 16 = Rejected" by code_simp
  show "CeilLog2 8 - CeilLog2 MIN_BLOCK_SIZE + 1 = (- 1 :: u32)" by code_simp
  have "unat (CeilLog2 2147483649) \<le> 32" and "\<not> unat (CeilLog2 2147483649) \<le> 31"
    by (simp_all add: CeilLog2_le)
  then have "unat (CeilLog2 2147483649) = unat (32 :: u32)" by simp
  then have C: "CeilLog2 2147483649 = 32" by (simp only: unat_eq_iff)
  have P: "IsPowerOfTwo 16" by code_simp
  show "MakeBinTable [2147483649] 16 = Trap"
    by (simp add: MakeBinTable_def P C MIN_BLOCK_SIZE_def MAX_BIN_COUNT_def Let_def collect_specs_def
        MakeBinSpec_def)
qed

end
