(* ===== verification/Chains.thy ===== *)
theory Chains
  imports Prelude
begin

text \<open>
  Singly linked intrusive lists. The engine threads its free lists (\<open>BlockHeader::next\<close>), its
  send queues (\<open>SendPacketEntry::next\<close>) and its job queues (\<open>Job::next\<close>) through the elements
  themselves; \<open>lseg nx p xs q\<close> says that following the links \<open>nx\<close> from \<open>p\<close> one meets exactly the
  addresses \<open>xs\<close> and arrives at \<open>q\<close>.
\<close>

type_synonym links = "addr \<Rightarrow> addr option"

primrec lseg :: "links \<Rightarrow> addr option \<Rightarrow> addr list \<Rightarrow> addr option \<Rightarrow> bool" where
  "lseg nx p [] q \<longleftrightarrow> p = q"
| "lseg nx p (x # xs) q \<longleftrightarrow> p = Some x \<and> lseg nx (nx x) xs q"

abbreviation chain :: "links \<Rightarrow> addr option \<Rightarrow> addr list \<Rightarrow> bool" where
  "chain nx p xs \<equiv> lseg nx p xs None"

text \<open>The first \<open>n\<close> addresses met from \<open>p\<close>: the executable reading of a chain.\<close>

primrec walk :: "links \<Rightarrow> addr option \<Rightarrow> nat \<Rightarrow> addr list" where
  "walk nx p 0 = []"
| "walk nx p (Suc n) = (case p of None \<Rightarrow> [] | Some x \<Rightarrow> x # walk nx (nx x) n)"

lemma walk_numeral [simp]:
  "walk nx p (numeral k) = (case p of None \<Rightarrow> [] | Some x \<Rightarrow> x # walk nx (nx x) (pred_numeral k))"
  by (simp add: numeral_eq_Suc)

text \<open>\<open>for (i = 1; i < n; ++i) p = p->next\<close>.\<close>

primrec hop :: "links \<Rightarrow> addr \<Rightarrow> nat \<Rightarrow> addr option" where
  "hop nx p 0 = Some p"
| "hop nx p (Suc n) = (case nx p of None \<Rightarrow> None | Some q \<Rightarrow> hop nx q n)"

lemma lseg_append [simp]:
  "lseg nx p (xs @ ys) q \<longleftrightarrow> (\<exists>r. lseg nx p xs r \<and> lseg nx r ys q)"
  by (induction xs arbitrary: p) auto

lemma lseg_cong [fundef_cong]:
  "p = p' \<Longrightarrow> q = q' \<Longrightarrow> xs = xs' \<Longrightarrow> (\<And>x. x \<in> set xs' \<Longrightarrow> nx x = nx' x) \<Longrightarrow> lseg nx p xs q = lseg nx' p' xs' q'"
  by (induction xs arbitrary: p p' xs') auto

lemma lseg_frame: "lseg nx p xs q \<Longrightarrow> (\<And>x. x \<in> set xs \<Longrightarrow> nx' x = nx x) \<Longrightarrow> lseg nx' p xs q"
  by (induction xs arbitrary: p) auto

lemma lseg_upd_other [simp]: "y \<notin> set xs \<Longrightarrow> lseg (nx(y := v)) p xs q = lseg nx p xs q"
  by (intro lseg_cong) auto

lemma chain_unique: "chain nx p xs \<Longrightarrow> chain nx p ys \<Longrightarrow> xs = ys"
proof (induction xs arbitrary: p ys)
  case Nil
  then show ?case by (cases ys) auto
next
  case (Cons x xs)
  then show ?case by (cases ys) auto
qed

lemma chain_None [simp]: "chain nx None xs \<longleftrightarrow> xs = []"
  by (cases xs) auto

lemma chain_head: "chain nx p xs \<Longrightarrow> p = (case xs of [] \<Rightarrow> None | x # _ \<Rightarrow> Some x)"
  by (cases xs) auto

lemma chain_Some: "chain nx (Some x) xs \<Longrightarrow> \<exists>ys. xs = x # ys \<and> chain nx (nx x) ys"
  by (cases xs) auto

lemma chain_distinct: "chain nx p xs \<Longrightarrow> distinct xs"
proof (induction xs arbitrary: p)
  case Nil
  then show ?case by simp
next
  case (Cons x xs)
  then have d: "distinct xs" and c: "chain nx (nx x) xs" by auto
  have "x \<notin> set xs"
  proof
    assume "x \<in> set xs"
    then obtain us vs where xs: "xs = us @ x # vs" by (auto simp: in_set_conv_decomp)
    with c have "chain nx (nx x) vs" by auto
    with c have "xs = vs" by (rule chain_unique)
    with xs show False by simp
  qed
  with d show ?case by simp
qed

lemma walk_chain: "chain nx p xs \<Longrightarrow> walk nx p (length xs) = xs"
  by (induction xs arbitrary: p) auto

lemma walk_prefix: "lseg nx p xs q \<Longrightarrow> walk nx p (length xs) = xs"
  by (induction xs arbitrary: p) auto

lemma hop_last: "lseg nx (Some x) (x # xs) q \<Longrightarrow> hop nx x (length xs) = Some (last (x # xs))"
proof (induction xs arbitrary: x)
  case (Cons y ys)
  then show ?case by auto
qed simp

text \<open>The last link of a segment leads to its end.\<close>

lemma lseg_last: "lseg nx p xs q \<Longrightarrow> xs \<noteq> [] \<Longrightarrow> nx (last xs) = q"
  by (induction xs arbitrary: p) (auto split: if_splits)

text \<open>Cutting a chain behind its first part, and linking an element behind a chain.\<close>

lemma lseg_cut:
  assumes "lseg nx p xs q" and "distinct xs" and "xs \<noteq> []"
  shows "lseg (nx(last xs := r)) p xs r"
  using assms
proof (induction xs arbitrary: p)
  case (Cons x xs)
  then show ?case
    by (cases "xs = []") auto
qed simp

lemma chain_snoc:
  assumes "chain nx p xs" and "xs \<noteq> []" and "y \<notin> set xs"
  shows "chain (nx(y := None, last xs := Some y)) p (xs @ [y])"
proof -
  have "chain (nx(y := None)) p xs" using assms by simp
  then have "lseg (nx(y := None, last xs := Some y)) p xs (Some y)"
    using chain_distinct [OF assms(1)] assms(2) by (rule lseg_cut)
  moreover have "last xs \<noteq> y" using assms(2,3) by auto
  ultimately show ?thesis by auto
qed

end
