(* ===== verification/BlockPool.thy ===== *)
theory BlockPool
  imports SizeBin Chains "HOL-Library.Multiset"
begin

text \<open>
  The global layer of the memory pool (\<open>Memory/GlobalBlockPool\<close>, \<open>Memory/BlockLayout.h\<close>): block
  headers in an explicit store, segments carved into batches of linked free blocks, and the
  stack of batches (chunks) each bin keeps. The operating system's answers are a parameter of
  the operations (\<open>OS\<close>); an answer that is not what \<open>VirtualAlloc\<close> or \<open>HeapAlloc\<close> promise (a
  region that overlaps one in use, or one that is not aligned) is treated as a failure.

  Block and operation counters count disjoint blocks of one address space and are naturals; \<open>LONG64\<close>
  values that the code compares or subtracts are integers.
\<close>

section \<open>Block headers\<close>

record BlockHeader =
  bh_magic :: u32
  bh_binIndex :: u8
  bh_poolId :: u8
  bh_next :: "addr option"

definition MAGIC_LIVE :: u32 where "MAGIC_LIVE = 0xA110C8ED"
definition MAGIC_FREE :: u32 where "MAGIC_FREE = 0xF2EEB10C"
definition BIN_BYPASS :: u8 where "BIN_BYPASS = 0xFF"
definition POOL_ID_NONE :: u8 where "POOL_ID_NONE = 0xFF"

lemma MAGIC_neq [simp]: "MAGIC_LIVE \<noteq> MAGIC_FREE" "MAGIC_FREE \<noteq> MAGIC_LIVE"
  by (simp_all add: MAGIC_LIVE_def MAGIC_FREE_def)

type_synonym heap = "addr \<Rightarrow> BlockHeader option"

text \<open>The links of the heap: \<open>header->next\<close>.\<close>

definition hnext :: "heap \<Rightarrow> links" where
  "hnext h a = (case h a of None \<Rightarrow> None | Some k \<Rightarrow> bh_next k)"

text \<open>A store through a header pointer.\<close>

definition hmod :: "addr \<Rightarrow> (BlockHeader \<Rightarrow> BlockHeader) \<Rightarrow> heap \<Rightarrow> heap" where
  "hmod a f h = h(a := map_option f (h a))"

definition PayloadOf :: "addr \<Rightarrow> u32 \<Rightarrow> addr" where
  "PayloadOf header headerSize = header + unat headerSize"

definition HeaderOf :: "addr \<Rightarrow> u32 \<Rightarrow> addr" where
  "HeaderOf payload headerSize = payload - unat headerSize"

text \<open>\<open>FreeList\<close>, and the tag that \<open>ChunkNode\<close> writes on a batch: a head and a count.\<close>

type_synonym free_list = "addr option \<times> nat"

section \<open>State\<close>

record Bin =
  b_chunkList :: "free_list list"
  b_blocksInPool :: int
  b_blocksCreated :: int
  b_growthCount :: nat
  b_failCount :: nat
  b_segments :: "(addr \<times> nat) list"
  b_segmentCapacity :: nat
  b_committedBytes :: nat
  b_minBlocksInPool :: int

text \<open>
  \<open>gp_heap\<close> holds the headers of the blocks the pool has made, \<open>gp_raw\<close> the process-heap regions
  of its bypass blocks.
\<close>

record GlobalBlockPool =
  gp_initialized :: bool
  gp_bins :: "Bin list"
  gp_ownerTag :: u8
  gp_committedBytes :: nat
  gp_commitLimitHits :: nat
  gp_maxCommittedBytes :: nat
  gp_heap :: heap
  gp_raw :: "(addr \<times> nat) list"

record OS =
  os_VirtualAlloc :: "(addr \<times> nat) list \<Rightarrow> nat \<Rightarrow> addr option"
  os_HeapAlloc :: "(addr \<times> nat) list \<Rightarrow> nat \<Rightarrow> addr option"
  os_HeapReAlloc :: "nat \<Rightarrow> bool"

definition segs :: "GlobalBlockPool \<Rightarrow> (addr \<times> nat) list" where
  "segs gp = concat (map b_segments (gp_bins gp))"

definition regions :: "GlobalBlockPool \<Rightarrow> (addr \<times> nat) list" where
  "regions gp = segs gp @ gp_raw gp"

definition fresh_region :: "(addr \<times> nat) list \<Rightarrow> addr \<Rightarrow> nat \<Rightarrow> bool" where
  "fresh_region rs a n \<longleftrightarrow> a \<noteq> 0 \<and> (\<forall>(b, m) \<in> set rs. a + n \<le> b \<or> b + m \<le> a)"

definition VirtualAlloc :: "OS \<Rightarrow> (addr \<times> nat) list \<Rightarrow> nat \<Rightarrow> addr option" where
  "VirtualAlloc os rs n = (case os_VirtualAlloc os rs n of None \<Rightarrow> None
     | Some a \<Rightarrow> if fresh_region rs a n \<and> a mod 65536 = 0 then Some a else None)"

definition HeapAlloc :: "OS \<Rightarrow> (addr \<times> nat) list \<Rightarrow> nat \<Rightarrow> addr option" where
  "HeapAlloc os rs n = (case os_HeapAlloc os rs n of None \<Rightarrow> None
     | Some a \<Rightarrow> if fresh_region rs a n then Some a else None)"

definition upd_bin :: "nat \<Rightarrow> (Bin \<Rightarrow> Bin) \<Rightarrow> GlobalBlockPool \<Rightarrow> GlobalBlockPool" where
  "upd_bin bin f gp = gp\<lparr>gp_bins := (gp_bins gp)[bin := f (gp_bins gp ! bin)]\<rparr>"

section \<open>Operations\<close>

definition empty_bin :: Bin where
  "empty_bin = \<lparr>b_chunkList = [], b_blocksInPool = 0, b_blocksCreated = 0, b_growthCount = 0,
     b_failCount = 0, b_segments = [], b_segmentCapacity = 0, b_committedBytes = 0,
     b_minBlocksInPool = 2 ^ 63 - 1\<rparr>"

definition new_GlobalBlockPool :: GlobalBlockPool where
  "new_GlobalBlockPool = \<lparr>gp_initialized = False, gp_bins = [], gp_ownerTag = POOL_ID_NONE,
     gp_committedBytes = 0, gp_commitLimitHits = 0, gp_maxCommittedBytes = 0,
     gp_heap = (\<lambda>_. None), gp_raw = []\<rparr>"

text \<open>\<open>allocated\<close> is the answer of the process heap for the bin array.\<close>

definition gp_Initialize :: "bool \<Rightarrow> BinTable \<Rightarrow> u8 \<Rightarrow> GlobalBlockPool \<Rightarrow> bool \<times> GlobalBlockPool" where
  "gp_Initialize allocated t ownerTag gp =
     (if gp_initialized gp then (False, gp)
      else
        (let gp1 = gp\<lparr>gp_ownerTag := ownerTag\<rparr> in
         if \<not> allocated then (False, gp1)
         else (True, gp1\<lparr>gp_bins := replicate (unat (bt_binCount t)) empty_bin,
                         gp_initialized := True\<rparr>)))"

text \<open>
  \<open>Finalize\<close>: with \<open>releaseSegments\<close> the blocks of the segments are unmapped, without it they stay
  where they are (\<open>keptBytes\<close> is what the error log reports). \<open>in_regions\<close> tells the headers
  that lie in a segment.
\<close>

definition in_regions :: "(addr \<times> nat) list \<Rightarrow> addr \<Rightarrow> bool" where
  "in_regions rs a \<longleftrightarrow> (\<exists>(b, m) \<in> set rs. b \<le> a \<and> a < b + m)"

definition gp_Finalize :: "bool \<Rightarrow> GlobalBlockPool \<Rightarrow> nat \<times> GlobalBlockPool" where
  "gp_Finalize releaseSegments gp =
     (let sg = segs gp in
      ((if releaseSegments then 0 else sum_list (map b_committedBytes (gp_bins gp))),
       gp\<lparr>gp_heap := (if releaseSegments then (\<lambda>a. if in_regions sg a then None else gp_heap gp a)
                      else gp_heap gp),
          gp_bins := [], gp_initialized := False,
          gp_committedBytes := (if gp_bins gp = [] then gp_committedBytes gp else 0),
          gp_commitLimitHits := (if gp_bins gp = [] then gp_commitLimitHits gp else 0)\<rparr>))"

text \<open>
  \<open>RecordSegmentLocked\<close>. The capacity of the segment list doubles from 4; the answer of the
  process heap may be a refusal, which leaves the list as it was.
\<close>

definition RecordSegmentLocked ::
  "OS \<Rightarrow> nat \<Rightarrow> addr \<Rightarrow> nat \<Rightarrow> GlobalBlockPool \<Rightarrow> bool \<times> GlobalBlockPool" where
  "RecordSegmentLocked os bin segment bytes gp =
     (let target = gp_bins gp ! bin;
          full = length (b_segments target) \<ge> b_segmentCapacity target;
          newCapacity = (if b_segmentCapacity target = 0 then 4 else b_segmentCapacity target * 2)
      in if full \<and> \<not> os_HeapReAlloc os newCapacity then (False, gp)
         else (True, (upd_bin bin (\<lambda>b. b\<lparr>
                  b_segments := b_segments b @ [(segment, bytes)],
                  b_segmentCapacity := (if full then newCapacity else b_segmentCapacity b),
                  b_committedBytes := b_committedBytes b + bytes\<rparr>) gp)
                \<lparr>gp_committedBytes := gp_committedBytes gp + bytes\<rparr>))"

text \<open>The inner loop of \<open>CarveAndPush\<close>: \<open>take\<close> headers, each linked in front of the previous one.\<close>

primrec carve_links ::
  "nat \<Rightarrow> u8 \<Rightarrow> u8 \<Rightarrow> addr \<Rightarrow> nat \<Rightarrow> nat \<Rightarrow> addr option \<Rightarrow> heap \<Rightarrow> addr option \<times> heap" where
  "carve_links stride bin tag cursor i 0 head h = (head, h)"
| "carve_links stride bin tag cursor i (Suc n) head h =
     (let header = cursor + stride * i in
      carve_links stride bin tag cursor (Suc i) n (Some header)
        (h(header := Some \<lparr>bh_magic = MAGIC_FREE, bh_binIndex = bin, bh_poolId = tag, bh_next = head\<rparr>)))"

text \<open>
  The outer loop. Each round takes at least one block when batches are not empty, so the
  number of blocks is fuel enough.
\<close>

primrec carve_loop ::
  "nat \<Rightarrow> nat \<Rightarrow> nat \<Rightarrow> u8 \<Rightarrow> u8 \<Rightarrow> addr \<Rightarrow> nat \<Rightarrow> heap \<times> free_list list \<times> int \<Rightarrow>
     heap \<times> free_list list \<times> int" where
  "carve_loop 0 batch stride bin tag cursor remaining st = st"
| "carve_loop (Suc fuel) batch stride bin tag cursor remaining st =
     (if remaining = 0 then st
      else
        (let (h, chunks, inPool) = st;
             take = (if batch > remaining then remaining else batch);
             (head, h') = carve_links stride bin tag cursor 0 take None h
         in carve_loop fuel batch stride bin tag (cursor + stride * take) (remaining - take)
              (h', (head, take) # chunks, inPool + int take)))"

definition CarveAndPush ::
  "BinTable \<Rightarrow> nat \<Rightarrow> addr \<Rightarrow> nat \<Rightarrow> GlobalBlockPool \<Rightarrow> GlobalBlockPool" where
  "CarveAndPush t bin segment blocks gp =
     (let spec = bt_specs t ! bin; target = gp_bins gp ! bin;
          (h, chunks, inPool) = carve_loop blocks (unat (bs_batchBlocks spec)) (unat (bs_stride spec))
             (of_nat bin) (gp_ownerTag gp) segment blocks
             (gp_heap gp, b_chunkList target, b_blocksInPool target)
      in (upd_bin bin (\<lambda>b. b\<lparr>b_chunkList := chunks, b_blocksInPool := inPool\<rparr>) gp)\<lparr>gp_heap := h\<rparr>)"

definition note_fail :: "nat \<Rightarrow> GlobalBlockPool \<Rightarrow> GlobalBlockPool" where
  "note_fail bin = upd_bin bin (\<lambda>b. b\<lparr>b_failCount := b_failCount b + 1\<rparr>)"

definition GrowLocked ::
  "OS \<Rightarrow> BinTable \<Rightarrow> nat \<Rightarrow> nat \<Rightarrow> bool \<Rightarrow> GlobalBlockPool \<Rightarrow> bool \<times> GlobalBlockPool" where
  "GrowLocked os t bin minBlocks isInitial gp =
     (let spec = bt_specs t ! bin;
          blocks = (if unat (bs_blocksPerSegment spec) < minBlocks then minBlocks
                    else unat (bs_blocksPerSegment spec));
          bytes = unat (bs_stride spec) * blocks
      in if \<not> isInitial \<and> gp_maxCommittedBytes gp \<noteq> 0 \<and>
            gp_committedBytes gp + bytes > gp_maxCommittedBytes gp
         then (False, (note_fail bin gp)\<lparr>gp_commitLimitHits := gp_commitLimitHits gp + 1\<rparr>)
         else
           (case VirtualAlloc os (regions gp) bytes of
              None \<Rightarrow> (False, note_fail bin gp)
            | Some segment \<Rightarrow>
                (case RecordSegmentLocked os bin segment bytes gp of
                   (False, gp1) \<Rightarrow> (False, note_fail bin gp1)
                 | (True, gp1) \<Rightarrow>
                     (True, upd_bin bin (\<lambda>b. b\<lparr>b_blocksCreated := b_blocksCreated b + int blocks,
                                b_growthCount := (if isInitial then b_growthCount b else b_growthCount b + 1)\<rparr>)
                              (CarveAndPush t bin segment blocks gp1)))))"

definition Preallocate ::
  "OS \<Rightarrow> BinTable \<Rightarrow> nat \<Rightarrow> nat \<Rightarrow> GlobalBlockPool \<Rightarrow> bool \<times> GlobalBlockPool" where
  "Preallocate os t bin blocks gp =
     (if \<not> gp_initialized gp \<or> bin \<ge> unat (bt_binCount t) \<or> blocks = 0 then (False, gp)
      else GrowLocked os t bin blocks True gp)"

definition NotePopped :: "nat \<Rightarrow> nat \<Rightarrow> GlobalBlockPool \<Rightarrow> GlobalBlockPool" where
  "NotePopped bin cnt = upd_bin bin (\<lambda>b.
     let remaining = b_blocksInPool b - int cnt in
     b\<lparr>b_blocksInPool := remaining,
       b_minBlocksInPool := (if remaining \<ge> b_minBlocksInPool b then b_minBlocksInPool b else remaining)\<rparr>)"

text \<open>\<open>InterlockedPopEntrySList\<close> and \<open>InterlockedPushEntrySList\<close> on the chunk stack.\<close>

definition pop_entry :: "nat \<Rightarrow> GlobalBlockPool \<Rightarrow> free_list option \<times> GlobalBlockPool" where
  "pop_entry bin gp =
     (case b_chunkList (gp_bins gp ! bin) of
        [] \<Rightarrow> (None, gp)
      | c # cs \<Rightarrow> (Some c, upd_bin bin (\<lambda>b. b\<lparr>b_chunkList := cs\<rparr>) gp))"

definition PopChunk :: "OS \<Rightarrow> BinTable \<Rightarrow> nat \<Rightarrow> GlobalBlockPool \<Rightarrow> free_list \<times> GlobalBlockPool" where
  "PopChunk os t bin gp =
     (let (entry, gp1) =
            (case pop_entry bin gp of
               (Some c, g) \<Rightarrow> (Some c, g)
             | (None, g) \<Rightarrow>
                 (case pop_entry bin g of
                    (Some c, g') \<Rightarrow> (Some c, g')
                  | (None, g') \<Rightarrow>
                      (case GrowLocked os t bin (unat (bs_batchBlocks (bt_specs t ! bin))) False g' of
                         (True, g'') \<Rightarrow> pop_entry bin g''
                       | (False, g'') \<Rightarrow> (None, g''))))
      in case entry of
           None \<Rightarrow> ((None, 0), note_fail bin gp1)
         | Some (head, cnt) \<Rightarrow> ((head, cnt), NotePopped bin cnt gp1))"

definition PushChunk :: "nat \<Rightarrow> addr option \<Rightarrow> nat \<Rightarrow> GlobalBlockPool \<Rightarrow> GlobalBlockPool" where
  "PushChunk bin head cnt gp =
     (if head = None \<or> cnt = 0 then gp
      else upd_bin bin (\<lambda>b. b\<lparr>b_chunkList := (head, cnt) # b_chunkList b,
                              b_blocksInPool := b_blocksInPool b + int cnt\<rparr>) gp)"

definition SetCommitLimit :: "nat \<Rightarrow> GlobalBlockPool \<Rightarrow> GlobalBlockPool" where
  "SetCommitLimit n gp = gp\<lparr>gp_maxCommittedBytes := n\<rparr>"

section \<open>Free lists and the free blocks of a bin\<close>

definition list_addrs :: "heap \<Rightarrow> free_list \<Rightarrow> addr list" where
  "list_addrs h l = walk (hnext h) (fst l) (snd l)"

definition wf_list :: "heap \<Rightarrow> free_list \<Rightarrow> bool" where
  "wf_list h l \<longleftrightarrow> (\<exists>xs. chain (hnext h) (fst l) xs \<and> length xs = snd l)"

text \<open>The blocks of bin \<open>b\<close> that are marked free.\<close>

definition FreeBlocks :: "heap \<Rightarrow> nat \<Rightarrow> addr set" where
  "FreeBlocks h b = {a. \<exists>k. h a = Some k \<and> bh_magic k = MAGIC_FREE \<and> bh_binIndex k = of_nat b}"

definition LiveBlocks :: "heap \<Rightarrow> nat \<Rightarrow> addr set" where
  "LiveBlocks h b = {a. \<exists>k. h a = Some k \<and> bh_magic k = MAGIC_LIVE \<and> bh_binIndex k = of_nat b}"

text \<open>
  The lists \<open>M\<close> of bin \<open>b\<close> hold every free block of the bin, and each exactly once: as multisets, the
  blocks on the lists are the free blocks.
\<close>

definition bin_rel :: "heap \<Rightarrow> nat \<Rightarrow> free_list multiset \<Rightarrow> bool" where
  "bin_rel h b M \<longleftrightarrow>
     finite (FreeBlocks h b) \<and> (\<forall>l \<in># M. wf_list h l) \<and>
     (\<Sum>l \<in># M. mset (list_addrs h l)) = mset_set (FreeBlocks h b)"

lemma list_addrs_chain: "chain (hnext h) (fst l) xs \<Longrightarrow> length xs = snd l \<Longrightarrow> list_addrs h l = xs"
  by (auto simp: list_addrs_def dest: walk_chain)

lemma wf_listD: "wf_list h l \<Longrightarrow> chain (hnext h) (fst l) (list_addrs h l) \<and> length (list_addrs h l) = snd l"
  by (metis wf_list_def list_addrs_chain)

lemma list_frame:
  assumes "wf_list h l" and "\<And>x. x \<in> set (list_addrs h l) \<Longrightarrow> hnext h' x = hnext h x"
  shows "wf_list h' l" and "list_addrs h' l = list_addrs h l"
proof -
  have "chain (hnext h') (fst l) (list_addrs h l)"
    using wf_listD [OF assms(1)] assms(2) by (blast intro: lseg_frame)
  then show "wf_list h' l" and "list_addrs h' l = list_addrs h l"
    using wf_listD [OF assms(1)] list_addrs_chain [of h' l "list_addrs h l"] by (auto simp: wf_list_def)
qed

lemma bin_rel_mem:
  assumes "bin_rel h b (add_mset l M)"
  shows "wf_list h l" and "set (list_addrs h l) \<subseteq> FreeBlocks h b" and "distinct (list_addrs h l)"
proof -
  from assms have s: "mset (list_addrs h l) + (\<Sum>l \<in># M. mset (list_addrs h l)) = mset_set (FreeBlocks h b)"
    and f: "finite (FreeBlocks h b)" and w: "wf_list h l" by (auto simp: bin_rel_def)
  show "wf_list h l" by (rule w)
  from s have sub: "mset (list_addrs h l) \<subseteq># mset_set (FreeBlocks h b)" by (metis mset_subset_eq_add_left)
  then show "set (list_addrs h l) \<subseteq> FreeBlocks h b"
    using f by (metis finite_set_mset_mset_set set_mset_mono set_mset_mset)
  show "distinct (list_addrs h l)" using chain_distinct wf_listD [OF w] by blast
qed

text \<open>A block of one list is on no other list.\<close>

lemma bin_rel_disjoint:
  assumes "bin_rel h b (add_mset l M)" and "l' \<in># M"
  shows "set (list_addrs h l) \<inter> set (list_addrs h l') = {}"
proof -
  from assms have s: "mset (list_addrs h l) + (\<Sum>l \<in># M. mset (list_addrs h l)) = mset_set (FreeBlocks h b)"
    by (auto simp: bin_rel_def)
  obtain M' where M: "M = add_mset l' M'" using assms(2) by (metis insert_DiffM)
  { fix x assume x: "x \<in> set (list_addrs h l)" "x \<in> set (list_addrs h l')"
    have "count (mset_set (FreeBlocks h b)) x \<le> 1" by (simp add: count_mset_set')
    moreover have "count (mset (list_addrs h l)) x \<ge> 1" "count (mset (list_addrs h l')) x \<ge> 1"
      using x by (simp_all add: Suc_le_eq)
    moreover have "count (mset_set (FreeBlocks h b)) x = count (mset (list_addrs h l)) x +
        (count (mset (list_addrs h l')) x + count (\<Sum>l \<in># M'. mset (list_addrs h l)) x)"
      by (simp add: s [symmetric] M)
    ultimately have False by linarith
  }
  then show ?thesis by blast
qed

text \<open>
  The step rule of the free lists: some lists \<open>L\<close> are replaced by lists \<open>L'\<close>, the links of the
  blocks on all other lists are untouched, and the free blocks change by what the lists change by.
\<close>

lemma bin_rel_step:
  assumes r: "bin_rel h b (L + M)"
    and frame: "\<And>x. x \<in> FreeBlocks h b \<Longrightarrow> (\<And>l. l \<in># L \<Longrightarrow> x \<notin> set (list_addrs h l)) \<Longrightarrow> hnext h' x = hnext h x"
    and wf: "\<And>l. l \<in># L' \<Longrightarrow> wf_list h' l"
    and fin: "finite (FreeBlocks h' b)"
    and sum: "mset_set (FreeBlocks h' b) + (\<Sum>l \<in># L. mset (list_addrs h l)) =
              mset_set (FreeBlocks h b) + (\<Sum>l \<in># L'. mset (list_addrs h' l))"
  shows "bin_rel h' b (L' + M)"
proof -
  have same: "wf_list h' l \<and> list_addrs h' l = list_addrs h l" if l: "l \<in># M" for l
  proof -
    obtain M' where M: "M = add_mset l M'" using l by (metis insert_DiffM)
    have r': "bin_rel h b (add_mset l (L + M'))" using r M by simp
    have "hnext h' x = hnext h x" if x: "x \<in> set (list_addrs h l)" for x
    proof (rule frame)
      show "x \<in> FreeBlocks h b" using bin_rel_mem(2) [OF r'] x by blast
      show "x \<notin> set (list_addrs h l')" if "l' \<in># L" for l'
        using bin_rel_disjoint [OF r', of l'] that x by auto
    qed
    with list_frame [OF bin_rel_mem(1) [OF r']] show ?thesis by blast
  qed
  have M: "(\<Sum>l \<in># M. mset (list_addrs h' l)) = (\<Sum>l \<in># M. mset (list_addrs h l))"
    using same by (intro arg_cong [of _ _ "sum_mset"] image_mset_cong) simp
  have F: "mset_set (FreeBlocks h b) = (\<Sum>l \<in># L. mset (list_addrs h l)) + (\<Sum>l \<in># M. mset (list_addrs h l))"
    using r by (simp add: bin_rel_def)
  have "mset_set (FreeBlocks h' b) = (\<Sum>l \<in># L'. mset (list_addrs h' l)) + (\<Sum>l \<in># M. mset (list_addrs h l))"
    using sum unfolding F by (simp add: ac_simps)
  then have "(\<Sum>l \<in># L' + M. mset (list_addrs h' l)) = mset_set (FreeBlocks h' b)"
    by (simp add: M)
  with same wf fin show ?thesis by (auto simp: bin_rel_def)
qed

lemma bin_rel_other:
  assumes r: "bin_rel h b M" and same: "FreeBlocks h' b = FreeBlocks h b"
    and nx: "\<And>x. x \<in> FreeBlocks h b \<Longrightarrow> hnext h' x = hnext h x"
  shows "bin_rel h' b M"
  using bin_rel_step [of h b "{#}" M h' "{#}"] assms by (simp add: bin_rel_def)

lemma bin_rel_empty_list [simp]: "bin_rel h b (add_mset (None, 0) M) = bin_rel h b M"
  by (auto simp: bin_rel_def wf_list_def list_addrs_def)

text \<open>Taking the head block of a list and marking it live.\<close>

lemma bin_rel_pop:
  assumes r: "bin_rel h b (add_mset (Some a, c) M)" and k: "h a = Some k"
    and h': "h' = h(a := Some (k\<lparr>bh_magic := MAGIC_LIVE, bh_next := nx\<rparr>))"
  shows "bin_rel h' b (add_mset (bh_next k, c - 1) M)" and "a \<in> FreeBlocks h b" and "0 < c"
    and "FreeBlocks h' b = FreeBlocks h b - {a}"
proof -
  let ?l = "(Some a, c)" and ?xs = "list_addrs h (Some a, c)"
  note m = bin_rel_mem [OF r]
  obtain ys where xs: "?xs = a # ys" and ch: "chain (hnext h) (hnext h a) ys" and len: "length ?xs = c"
    using wf_listD [OF m(1)] chain_Some by fastforce
  show a: "a \<in> FreeBlocks h b" using m(2) xs by auto
  show "0 < c" using len xs by auto
  have ny: "a \<notin> set ys" using m(3) xs by simp
  have nxt: "hnext h a = bh_next k" using k by (simp add: hnext_def)
  have hx: "hnext h' x = hnext h x" if "x \<noteq> a" for x using that h' by (simp add: hnext_def)
  have ch': "chain (hnext h') (bh_next k) ys"
  proof (rule lseg_frame)
    show "chain (hnext h) (bh_next k) ys" using ch by (simp only: nxt)
    show "hnext h' x = hnext h x" if "x \<in> set ys" for x using that ny by (intro hx) blast
  qed
  have la: "list_addrs h' (bh_next k, c - 1) = ys"
    using ch' len xs by (intro list_addrs_chain) auto
  show F: "FreeBlocks h' b = FreeBlocks h b - {a}" using h' by (auto simp: FreeBlocks_def)
  have fin: "finite (FreeBlocks h b)" using r by (simp add: bin_rel_def)
  have ms: "mset_set (FreeBlocks h b) = add_mset a (mset_set (FreeBlocks h b - {a}))"
    using fin a by (rule mset_set.remove)
  have "bin_rel h' b ({#(bh_next k, c - 1)#} + M)"
  proof (rule bin_rel_step [where h = h and L = "{#?l#}"])
    show "bin_rel h b ({#?l#} + M)" using r by simp
    show "hnext h' x = hnext h x" if "\<And>l. l \<in># {#?l#} \<Longrightarrow> x \<notin> set (list_addrs h l)" for x
      using that xs by (intro hx) auto
    show "wf_list h' l" if "l \<in># {#(bh_next k, c - 1)#}" for l
      using that ch' len xs by (auto simp: wf_list_def)
    show "finite (FreeBlocks h' b)" using fin F by simp
    show "mset_set (FreeBlocks h' b) + (\<Sum>l \<in># {#?l#}. mset (list_addrs h l)) =
        mset_set (FreeBlocks h b) + (\<Sum>l \<in># {#(bh_next k, c - 1)#}. mset (list_addrs h' l))"
      using F ms xs la by simp
  qed
  then show "bin_rel h' b (add_mset (bh_next k, c - 1) M)" by simp
qed

text \<open>Marking a block free and putting it in front of a list.\<close>

lemma bin_rel_push:
  assumes r: "bin_rel h b (add_mset (p, c) M)" and k: "h a = Some k" and mg: "bh_magic k \<noteq> MAGIC_FREE"
    and bi: "bh_binIndex k = of_nat b"
    and h': "h' = h(a := Some (k\<lparr>bh_magic := MAGIC_FREE, bh_next := p\<rparr>))"
  shows "bin_rel h' b (add_mset (Some a, Suc c) M)" and "FreeBlocks h' b = insert a (FreeBlocks h b)"
proof -
  let ?xs = "list_addrs h (p, c)"
  note m = bin_rel_mem [OF r]
  have na: "a \<notin> FreeBlocks h b" using k mg by (simp add: FreeBlocks_def)
  have hx: "hnext h' x = hnext h x" if "x \<noteq> a" for x using that h' by (simp add: hnext_def)
  have "chain (hnext h') p ?xs"
  proof (rule lseg_frame)
    show "chain (hnext h) p ?xs" using wf_listD [OF m(1)] by simp
    show "hnext h' x = hnext h x" if "x \<in> set ?xs" for x using that m(2) na by (intro hx) blast
  qed
  then have ch': "chain (hnext h') (Some a) (a # ?xs)" and len: "length (a # ?xs) = Suc c"
    using wf_listD [OF m(1)] h' by (simp_all add: hnext_def)
  have la: "list_addrs h' (Some a, Suc c) = a # ?xs"
    using ch' len by (intro list_addrs_chain) auto
  show F: "FreeBlocks h' b = insert a (FreeBlocks h b)" using h' bi by (auto simp: FreeBlocks_def)
  have fin: "finite (FreeBlocks h b)" using r by (simp add: bin_rel_def)
  have "bin_rel h' b ({#(Some a, Suc c)#} + M)"
  proof (rule bin_rel_step [where h = h and L = "{#(p, c)#}"])
    show "bin_rel h b ({#(p, c)#} + M)" using r by simp
    show "hnext h' x = hnext h x" if "x \<in> FreeBlocks h b" for x using that na by (intro hx) auto
    show "wf_list h' l" if "l \<in># {#(Some a, Suc c)#}" for l
      using that ch' len by (auto simp: wf_list_def simp del: lseg.simps)
    show "finite (FreeBlocks h' b)" using fin F by simp
    show "mset_set (FreeBlocks h' b) + (\<Sum>l \<in># {#(p, c)#}. mset (list_addrs h l)) =
        mset_set (FreeBlocks h b) + (\<Sum>l \<in># {#(Some a, Suc c)#}. mset (list_addrs h' l))"
      using F fin na la by simp
  qed
  then show "bin_rel h' b (add_mset (Some a, Suc c) M)" by simp
qed

text \<open>Cutting a list behind its \<open>n\<close>-th block, as \<open>Flush\<close> does.\<close>

lemma bin_rel_split:
  assumes r: "bin_rel h b (add_mset (Some a, c) M)" and n: "0 < n" "n \<le> c"
  shows "\<exists>tail k. hop (hnext h) a (n - 1) = Some tail \<and> h tail = Some k \<and>
    (let h' = h(tail := Some (k\<lparr>bh_next := None\<rparr>)) in
     bin_rel h' b ({#(Some a, n), (hnext h tail, c - n)#} + M) \<and> FreeBlocks h' b = FreeBlocks h b \<and>
     (c - n = 0 \<longleftrightarrow> hnext h tail = None))"
proof -
  let ?xs = "list_addrs h (Some a, c)"
  note m = bin_rel_mem [OF r]
  have ch: "chain (hnext h) (Some a) ?xs" and len: "length ?xs = c" using wf_listD [OF m(1)] by simp_all
  define us vs where "us = take n ?xs" and "vs = drop n ?xs"
  have xs: "?xs = us @ vs" by (simp add: us_def vs_def)
  have lu: "length us = n" and lv: "length vs = c - n" using n len by (simp_all add: us_def vs_def)
  obtain q where q: "lseg (hnext h) (Some a) us q" "chain (hnext h) q vs" using ch xs by auto
  have u0: "us \<noteq> []" using lu n by auto
  then obtain us' where us: "us = a # us'" using q(1) by (cases us) auto
  define tail where "tail = last us"
  have hop: "hop (hnext h) a (n - 1) = Some tail" using hop_last [of "hnext h" a us' q] q(1) us lu
    by (auto simp: tail_def)
  have nt: "hnext h tail = q" using lseg_last [OF q(1) u0] by (simp add: tail_def)
  have tu: "tail \<in> set us" using u0 by (simp add: tail_def)
  have tF: "tail \<in> FreeBlocks h b" using m(2) xs tu by auto
  then obtain k where k: "h tail = Some k" by (auto simp: FreeBlocks_def)
  define h' where "h' = h(tail := Some (k\<lparr>bh_next := None\<rparr>))"
  have hh: "hnext h' = (hnext h)(tail := None)" by (rule ext) (simp add: h'_def hnext_def)
  have d: "distinct us" "set us \<inter> set vs = {}" using m(3) xs by auto
  have c1: "chain (hnext h') (Some a) us"
    using lseg_cut [OF q(1) d(1) u0, of None] by (simp add: hh tail_def)
  have c2: "chain (hnext h') q vs" using q(2) d(2) tu by (simp add: hh disjoint_iff)
  have l1: "list_addrs h' (Some a, n) = us" and l2: "list_addrs h' (q, c - n) = vs"
    using c1 c2 lu lv by (auto intro: list_addrs_chain)
  have F: "FreeBlocks h' b = FreeBlocks h b" using k by (auto simp: FreeBlocks_def h'_def)
  have fin: "finite (FreeBlocks h b)" using r by (simp add: bin_rel_def)
  have "bin_rel h' b ({#(Some a, n), (q, c - n)#} + M)"
  proof (rule bin_rel_step [where h = h and L = "{#(Some a, c)#}"])
    show "bin_rel h b ({#(Some a, c)#} + M)" using r by simp
    show "hnext h' x = hnext h x" if "\<And>l. l \<in># {#(Some a, c)#} \<Longrightarrow> x \<notin> set (list_addrs h l)" for x
      using that xs tu by (auto simp: hh)
    show "wf_list h' l" if "l \<in># {#(Some a, n), (q, c - n)#}" for l
      using that c1 c2 lu lv by (auto simp: wf_list_def)
    show "finite (FreeBlocks h' b)" using fin F by simp
    show "mset_set (FreeBlocks h' b) + (\<Sum>l \<in># {#(Some a, c)#}. mset (list_addrs h l)) =
        mset_set (FreeBlocks h b) + (\<Sum>l \<in># {#(Some a, n), (q, c - n)#}. mset (list_addrs h' l))"
      using F xs l1 l2 by simp
  qed
  moreover have "c - n = 0 \<longleftrightarrow> q = None"
    using q(2) lv by (cases vs) auto
  ultimately show ?thesis using hop k F unfolding h'_def Let_def nt
    by (intro exI [of _ tail] exI [of _ k] conjI) (simp_all add: nt)
qed

text \<open>
  The carving of a segment: the inner loop links its headers into one chain in front of \<open>head\<close>,
  and touches nothing outside the stride positions it visits.
\<close>

lemma carve_links_spec:
  assumes "carve_links stride bin tag cursor i n head h = (hd', h')" and "0 < stride"
  shows "lseg (hnext h') hd' (map (\<lambda>j. cursor + stride * j) (rev [i..<i + n])) head"
    and "\<And>x. x \<notin> (\<lambda>j. cursor + stride * j) ` {i..<i + n} \<Longrightarrow> h' x = h x"
    and "\<And>j. i \<le> j \<Longrightarrow> j < i + n \<Longrightarrow> \<exists>k. h' (cursor + stride * j) = Some k \<and>
           bh_magic k = MAGIC_FREE \<and> bh_binIndex k = bin \<and> bh_poolId k = tag"
proof -
  have "lseg (hnext h') hd' (map (\<lambda>j. cursor + stride * j) (rev [i..<i + n])) head \<and>
    (\<forall>x. x \<notin> (\<lambda>j. cursor + stride * j) ` {i..<i + n} \<longrightarrow> h' x = h x) \<and>
    (\<forall>j. i \<le> j \<longrightarrow> j < i + n \<longrightarrow> (\<exists>k. h' (cursor + stride * j) = Some k \<and>
           bh_magic k = MAGIC_FREE \<and> bh_binIndex k = bin \<and> bh_poolId k = tag))"
    using assms(1)
  proof (induction n arbitrary: i head h)
    case 0
    then show ?case by simp
  next
    case (Suc n)
    let ?a = "cursor + stride * i" and ?K = "\<lparr>bh_magic = MAGIC_FREE, bh_binIndex = bin, bh_poolId = tag, bh_next = head\<rparr>"
    have IH: "lseg (hnext h') hd' (map (\<lambda>j. cursor + stride * j) (rev [Suc i..<Suc i + n])) (Some ?a)"
      "\<And>x. x \<notin> (\<lambda>j. cursor + stride * j) ` {Suc i..<Suc i + n} \<Longrightarrow> h' x = (h(?a := Some ?K)) x"
      "\<And>j. Suc i \<le> j \<Longrightarrow> j < Suc i + n \<Longrightarrow> \<exists>k. h' (cursor + stride * j) = Some k \<and>
           bh_magic k = MAGIC_FREE \<and> bh_binIndex k = bin \<and> bh_poolId k = tag"
    proof -
      have cl: "carve_links stride bin tag cursor (Suc i) n (Some ?a) (h(?a := Some ?K)) = (hd', h')"
        using Suc.prems by (simp add: Let_def)
      note ih = Suc.IH [OF cl]
      show "lseg (hnext h') hd' (map (\<lambda>j. cursor + stride * j) (rev [Suc i..<Suc i + n])) (Some ?a)"
        using ih by (elim conjE)
      show "h' x = (h(?a := Some ?K)) x" if "x \<notin> (\<lambda>j. cursor + stride * j) ` {Suc i..<Suc i + n}" for x
        using conjunct1 [OF conjunct2 [OF ih], rule_format, OF that] .
      show "\<exists>k. h' (cursor + stride * j) = Some k \<and>
           bh_magic k = MAGIC_FREE \<and> bh_binIndex k = bin \<and> bh_poolId k = tag"
        if "Suc i \<le> j" "j < Suc i + n" for j
        using conjunct2 [OF conjunct2 [OF ih], rule_format, OF that] .
    qed
    have "?a \<notin> (\<lambda>j. cursor + stride * j) ` {Suc i..<Suc i + n}" using assms(2) by auto
    then have a: "h' ?a = Some ?K" using IH(2) by simp
    have up: "[i..<i + Suc n] = i # [Suc i..<Suc i + n]" by (simp add: upt_conv_Cons)
    have "lseg (hnext h') hd' (map (\<lambda>j. cursor + stride * j) (rev [i..<i + Suc n])) head"
      unfolding up using IH(1) a by (simp add: hnext_def)
    moreover have "h' x = h x" if "x \<notin> (\<lambda>j. cursor + stride * j) ` {i..<i + Suc n}" for x
    proof -
      from that have "x \<notin> (\<lambda>j. cursor + stride * j) ` {Suc i..<Suc i + n}" and "x \<noteq> ?a" by auto
      with IH(2) show ?thesis by simp
    qed
    moreover have "\<exists>k. h' (cursor + stride * j) = Some k \<and>
           bh_magic k = MAGIC_FREE \<and> bh_binIndex k = bin \<and> bh_poolId k = tag" if "i \<le> j" "j < i + Suc n" for j
      using that a IH(3) [of j] by (cases "j = i") auto
    ultimately show ?case by blast
  qed
  then show "lseg (hnext h') hd' (map (\<lambda>j. cursor + stride * j) (rev [i..<i + n])) head"
    and "\<And>x. x \<notin> (\<lambda>j. cursor + stride * j) ` {i..<i + n} \<Longrightarrow> h' x = h x"
    and "\<And>j. i \<le> j \<Longrightarrow> j < i + n \<Longrightarrow> \<exists>k. h' (cursor + stride * j) = Some k \<and>
           bh_magic k = MAGIC_FREE \<and> bh_binIndex k = bin \<and> bh_poolId k = tag"
    by blast+
qed

text \<open>A new list of blocks that were not in the heap before.\<close>

lemma bin_rel_new:
  assumes r: "bin_rel h b M" and ch: "chain (hnext h') p xs" and ne: "\<And>x. x \<in> set xs \<Longrightarrow> h x = None"
    and same: "\<And>x. x \<notin> set xs \<Longrightarrow> h' x = h x"
    and new: "\<And>x. x \<in> set xs \<Longrightarrow> \<exists>k. h' x = Some k \<and> bh_magic k = MAGIC_FREE \<and> bh_binIndex k = of_nat b"
  shows "bin_rel h' b (add_mset (p, length xs) M)"
proof -
  have fin: "finite (FreeBlocks h b)" using r by (simp add: bin_rel_def)
  have disj: "FreeBlocks h b \<inter> set xs = {}" using ne by (auto simp: FreeBlocks_def)
  have F: "FreeBlocks h' b = FreeBlocks h b \<union> set xs"
  proof (rule set_eqI)
    fix x show "x \<in> FreeBlocks h' b \<longleftrightarrow> x \<in> FreeBlocks h b \<union> set xs"
      using same [of x] new [of x] ne [of x] by (cases "x \<in> set xs") (auto simp: FreeBlocks_def)
  qed
  have la: "list_addrs h' (p, length xs) = xs" using ch by (intro list_addrs_chain) auto
  have "bin_rel h' b ({#(p, length xs)#} + M)"
  proof (rule bin_rel_step [where h = h and L = "{#}"])
    show "bin_rel h b ({#} + M)" using r by simp
    show "hnext h' x = hnext h x" if "x \<in> FreeBlocks h b" for x
    proof -
      have "x \<notin> set xs" using that disj by blast
      then show ?thesis by (simp add: hnext_def same)
    qed
    show "wf_list h' l" if "l \<in># {#(p, length xs)#}" for l using that ch by (auto simp: wf_list_def)
    show "finite (FreeBlocks h' b)" using fin F by simp
    have "mset_set (FreeBlocks h' b) = mset_set (FreeBlocks h b) + mset_set (set xs)"
      unfolding F using fin disj by (intro mset_set_Union) auto
    then show "mset_set (FreeBlocks h' b) + (\<Sum>l \<in># {#}. mset (list_addrs h l)) =
        mset_set (FreeBlocks h b) + (\<Sum>l \<in># {#(p, length xs)#}. mset (list_addrs h' l))"
      using la chain_distinct [OF ch] by (simp add: mset_set_set)
  qed
  then show ?thesis by simp
qed

definition stride_positions :: "addr \<Rightarrow> nat \<Rightarrow> nat \<Rightarrow> addr set" where
  "stride_positions cursor stride n = (\<lambda>j. cursor + stride * j) ` {0..<n}"

lemma stride_positions_split:
  "m \<le> n \<Longrightarrow> stride_positions c s n = stride_positions c s m \<union> stride_positions (c + s * m) s (n - m)"
proof (rule set_eqI, rule iffI)
  fix x assume "m \<le> n" and "x \<in> stride_positions c s n"
  then obtain j where j: "j < n" "x = c + s * j" by (auto simp: stride_positions_def)
  show "x \<in> stride_positions c s m \<union> stride_positions (c + s * m) s (n - m)"
  proof (cases "j < m")
    case True
    with j show ?thesis by (auto simp: stride_positions_def)
  next
    case False
    then have "x = c + s * m + s * (j - m)" "j - m < n - m"
      using j by (simp_all add: algebra_simps diff_mult_distrib2)
    then show ?thesis unfolding stride_positions_def by (intro UnI2 image_eqI [of _ _ "j - m"]) simp_all
  qed
next
  fix x assume le: "m \<le> n" and "x \<in> stride_positions c s m \<union> stride_positions (c + s * m) s (n - m)"
  then consider j where "j < m" "x = c + s * j" | j where "j < n - m" "x = c + s * (m + j)"
    by (auto simp: stride_positions_def algebra_simps)
  then show "x \<in> stride_positions c s n"
    using le by cases (auto simp: stride_positions_def)
qed

lemma stride_positions_disjoint:
  "0 < s \<Longrightarrow> stride_positions c s m \<inter> stride_positions (c + s * m) s n = {}"
proof -
  assume s: "0 < s"
  { fix i j assume "i < m" and e: "c + s * i = c + s * m + s * j"
    then have "s * i = s * (m + j)" by (simp add: algebra_simps)
    with s have "i = m + j" by simp
    with \<open>i < m\<close> have False by simp }
  then show ?thesis by (fastforce simp: stride_positions_def)
qed

lemma carve_loop_spec:
  assumes "carve_loop fuel batch stride (of_nat b) tag cursor n (h, chunks, ip) = (h', chunks', ip')"
    and "n \<le> fuel" and "0 < batch" and "0 < stride"
    and "\<And>x. x \<in> stride_positions cursor stride n \<Longrightarrow> h x = None"
    and "bin_rel h b (mset chunks + X)" and "\<forall>l \<in> set chunks. 0 < snd l"
  shows "bin_rel h' b (mset chunks' + X) \<and> ip' = ip + int n \<and>
    sum_list (map snd chunks') = sum_list (map snd chunks) + n \<and> (\<forall>l \<in> set chunks'. 0 < snd l) \<and>
    (n = 0 \<or> chunks' \<noteq> []) \<and>
    (\<forall>x. x \<notin> stride_positions cursor stride n \<longrightarrow> h' x = h x) \<and>
    (\<forall>x \<in> stride_positions cursor stride n. \<exists>k. h' x = Some k \<and> bh_magic k = MAGIC_FREE \<and>
        bh_binIndex k = of_nat b \<and> bh_poolId k = tag)"
  using assms
proof (induction fuel arbitrary: cursor n h chunks ip)
  case 0
  then show ?case by (simp add: stride_positions_def)
next
  case (Suc fuel)
  show ?case
  proof (cases "n = 0")
    case True
    with Suc.prems show ?thesis by (simp add: stride_positions_def)
  next
    case False
    define take where "take = (if batch > n then n else batch)"
    have tk: "0 < take" "take \<le> n" using False Suc.prems(3) by (auto simp: take_def)
    obtain p g where C: "carve_links stride (of_nat b) tag cursor 0 take None h = (p, g)" by fastforce
    let ?xs = "map (\<lambda>j. cursor + stride * j) (rev [0..<take])" and ?c = "cursor + stride * take"
    note cl = carve_links_spec [OF C Suc.prems(4), simplified]
    have sx: "set ?xs = stride_positions cursor stride take" by (auto simp: stride_positions_def)
    have outside: "g x = h x" if "x \<notin> stride_positions cursor stride take" for x
      using cl(2) that by (simp add: stride_positions_def)
    have inside: "\<exists>k. g x = Some k \<and> bh_magic k = MAGIC_FREE \<and> bh_binIndex k = of_nat b \<and> bh_poolId k = tag"
      if "x \<in> stride_positions cursor stride take" for x
      using cl(3) that by (auto simp: stride_positions_def)
    have sp: "stride_positions cursor stride n =
        stride_positions cursor stride take \<union> stride_positions ?c stride (n - take)"
      using tk by (intro stride_positions_split) simp
    have dj: "stride_positions cursor stride take \<inter> stride_positions ?c stride (n - take) = {}"
      using Suc.prems(4) by (rule stride_positions_disjoint)
    have len: "length ?xs = take" by simp
    have "bin_rel g b (add_mset (p, length ?xs) (mset chunks + X))"
    proof (rule bin_rel_new [OF Suc.prems(6)])
      show "chain (hnext g) p ?xs" by (rule cl(1))
      show "h x = None" if "x \<in> set ?xs" for x using that Suc.prems(5) sx sp by blast
      show "g x = h x" if "x \<notin> set ?xs" for x using that outside sx by blast
      show "\<exists>k. g x = Some k \<and> bh_magic k = MAGIC_FREE \<and> bh_binIndex k = of_nat b" if "x \<in> set ?xs" for x
        using inside that sx by blast
    qed
    then have r: "bin_rel g b (mset ((p, take) # chunks) + X)" by (simp only: len) simp
    have rec: "carve_loop fuel batch stride (of_nat b) tag ?c (n - take) (g, (p, take) # chunks, ip + int take)
        = (h', chunks', ip')"
      using Suc.prems(1) False C by (simp add: take_def [symmetric] Let_def)
    have f: "n - take \<le> fuel" using Suc.prems(2) tk by simp
    have nn: "g x = None" if "x \<in> stride_positions ?c stride (n - take)" for x
      using that dj outside [of x] Suc.prems(5) [of x] sp by auto
    have pos: "\<forall>l \<in> set ((p, take) # chunks). 0 < snd l" using tk Suc.prems(7) by simp
    note ih = Suc.IH [OF rec f Suc.prems(3,4) nn r pos]
    have c1: "ip' = ip + int n" using ih tk by simp
    have c2: "sum_list (map snd chunks') = sum_list (map snd chunks) + n" using ih tk by simp
    have c3: "chunks' \<noteq> []" using c2 False by auto
    have c4: "h' x = h x" if "x \<notin> stride_positions cursor stride n" for x
      using that ih outside [of x] sp by simp
    have c5: "\<exists>k. h' x = Some k \<and> bh_magic k = MAGIC_FREE \<and> bh_binIndex k = of_nat b \<and> bh_poolId k = tag"
      if "x \<in> stride_positions cursor stride n" for x
    proof (cases "x \<in> stride_positions ?c stride (n - take)")
      case True
      with ih show ?thesis by blast
    next
      case nx: False
      with that sp have "x \<in> stride_positions cursor stride take" by blast
      moreover have "h' x = g x" using ih nx by blast
      ultimately show ?thesis using inside by simp
    qed
    show ?thesis using ih c1 c2 c3 c4 c5 by blast
  qed
qed

section \<open>The invariant of the global layer\<close>

text \<open>
  \<open>bin_inv\<close>: the chunk stack of a bin and the lists \<open>X\<close> its thread caches hold are exactly its
  free blocks, the stock counter counts the blocks on the stack, every block ever made is free
  or live, and the committed bytes are the sizes of the segments. \<open>heap_ok\<close>: every header lies in a
  region of the pool and carries the pool's tag, and a bypass block's link is the raw region it lies in.
\<close>

definition bin_inv :: "heap \<Rightarrow> Bin \<Rightarrow> nat \<Rightarrow> free_list multiset \<Rightarrow> bool" where
  "bin_inv h B b X \<longleftrightarrow>
     bin_rel h b (mset (b_chunkList B) + X) \<and> (\<forall>l \<in> set (b_chunkList B). 0 < snd l) \<and>
     b_blocksInPool B = int (sum_list (map snd (b_chunkList B))) \<and>
     finite (LiveBlocks h b) \<and>
     b_blocksCreated B = int (card (FreeBlocks h b)) + int (card (LiveBlocks h b)) \<and>
     b_committedBytes B = sum_list (map snd (b_segments B))"

definition heap_ok :: "GlobalBlockPool \<Rightarrow> bool" where
  "heap_ok gp \<longleftrightarrow>
     (\<forall>a k. gp_heap gp a = Some k \<longrightarrow>
        bh_poolId k = gp_ownerTag gp \<and> bh_magic k \<in> {MAGIC_FREE, MAGIC_LIVE} \<and>
        (unat (bh_binIndex k) < length (gp_bins gp) \<and> in_regions (segs gp) a \<or>
         bh_binIndex k = BIN_BYPASS \<and> bh_magic k = MAGIC_LIVE \<and> in_regions (gp_raw gp) a))"

definition gp_inv :: "BinTable \<Rightarrow> GlobalBlockPool \<Rightarrow> (nat \<Rightarrow> free_list multiset) \<Rightarrow> bool" where
  "gp_inv t gp X \<longleftrightarrow>
     table_ok t \<and> length (gp_bins gp) = unat (bt_binCount t) \<and> heap_ok gp \<and>
     (\<forall>b < length (gp_bins gp). bin_inv (gp_heap gp) (gp_bins gp ! b) b (X b)) \<and>
     gp_committedBytes gp = sum_list (map b_committedBytes (gp_bins gp))"

text \<open>The live part of the heap is the same.\<close>

definition live_same :: "heap \<Rightarrow> heap \<Rightarrow> bool" where
  "live_same h h' \<longleftrightarrow> (\<forall>a k. bh_magic k = MAGIC_LIVE \<longrightarrow> (h' a = Some k \<longleftrightarrow> h a = Some k))"

lemma live_same_refl [simp]: "live_same h h" by (simp add: live_same_def)

lemma live_same_trans: "live_same h h' \<Longrightarrow> live_same h' h'' \<Longrightarrow> live_same h h''"
  by (simp add: live_same_def)

lemma live_same_LiveBlocks: "live_same h h' \<Longrightarrow> LiveBlocks h' b = LiveBlocks h b"
  by (auto simp: live_same_def LiveBlocks_def)

lemma upd_bin_sels [simp]:
  "length (gp_bins (upd_bin i f gp)) = length (gp_bins gp)" "gp_heap (upd_bin i f gp) = gp_heap gp"
  "gp_raw (upd_bin i f gp) = gp_raw gp" "gp_ownerTag (upd_bin i f gp) = gp_ownerTag gp"
  "gp_committedBytes (upd_bin i f gp) = gp_committedBytes gp"
  "gp_maxCommittedBytes (upd_bin i f gp) = gp_maxCommittedBytes gp"
  "gp_commitLimitHits (upd_bin i f gp) = gp_commitLimitHits gp"
  "gp_initialized (upd_bin i f gp) = gp_initialized gp"
  "gp_bins (upd_bin i f gp) = (gp_bins gp)[i := f (gp_bins gp ! i)]"
  by (simp_all add: upd_bin_def)

lemma sum_list_map_update:
  "i < length xs \<Longrightarrow> sum_list (map f (xs[i := y])) + f (xs ! i) = sum_list (map f xs) + f y" for f :: "'a \<Rightarrow> nat"
proof (induction xs arbitrary: i)
  case (Cons x xs)
  then show ?case by (cases i) auto
qed simp

lemma map_update_same: "f y = f (xs ! i) \<Longrightarrow> map f (xs[i := y]) = map f xs"
  by (metis list_update_beyond list_update_id map_update not_le)

lemma set_concat_update:
  "i < length xs \<Longrightarrow> f y = f (xs ! i) @ [z] \<Longrightarrow> set (concat (map f (xs[i := y]))) = insert z (set (concat (map f xs)))"
proof (induction xs arbitrary: i)
  case (Cons x xs)
  then show ?case by (cases i) auto
qed simp

lemma in_regions_append: "in_regions (rs @ rs') a \<longleftrightarrow> in_regions rs a \<or> in_regions rs' a"
  by (auto simp: in_regions_def)

lemma in_regions_mono: "set rs \<subseteq> set rs' \<Longrightarrow> in_regions rs a \<Longrightarrow> in_regions rs' a"
  by (auto simp: in_regions_def)

lemma fresh_not_in_regions: "fresh_region rs a n \<Longrightarrow> a \<le> x \<Longrightarrow> x < a + n \<Longrightarrow> \<not> in_regions rs x"
  by (force simp: fresh_region_def in_regions_def)

lemma fresh_regionD: "fresh_region rs a n \<Longrightarrow> (b, m) \<in> set rs \<Longrightarrow> a + n \<le> b \<or> b + m \<le> a"
  unfolding fresh_region_def by blast

lemma of_nat_u8_inj: "b < 256 \<Longrightarrow> b' < 256 \<Longrightarrow> (of_nat b :: u8) = of_nat b' \<longleftrightarrow> b = b'"
proof
  assume "b < 256" "b' < 256" and "(of_nat b :: u8) = of_nat b'"
  then have "unat (of_nat b :: u8) = unat (of_nat b' :: u8)" by simp
  with \<open>b < 256\<close> \<open>b' < 256\<close> show "b = b'" by (simp add: unat_of_nat)
qed simp

lemma BYPASS_not_bin: "b < 255 \<Longrightarrow> (of_nat b :: u8) \<noteq> BIN_BYPASS"
proof
  assume "b < 255" and "(of_nat b :: u8) = BIN_BYPASS"
  then have "unat (of_nat b :: u8) = 255" by (simp add: BIN_BYPASS_def)
  with \<open>b < 255\<close> show False by (simp add: unat_of_nat)
qed

text \<open>A change of bin \<open>i\<close> that no other bin can see.\<close>

lemma gp_inv_update:
  assumes inv: "gp_inv t gp X" and i: "i < length (gp_bins gp)"
    and gp': "gp_bins gp' = (gp_bins gp)[i := B']"
    and heap: "heap_ok gp'" and bin: "bin_inv (gp_heap gp') B' i (X' i)"
    and others: "\<And>b. b < length (gp_bins gp) \<Longrightarrow> b \<noteq> i \<Longrightarrow> X' b = X b \<and>
      FreeBlocks (gp_heap gp') b = FreeBlocks (gp_heap gp) b \<and> LiveBlocks (gp_heap gp') b = LiveBlocks (gp_heap gp) b \<and>
      (\<forall>x \<in> FreeBlocks (gp_heap gp) b. hnext (gp_heap gp') x = hnext (gp_heap gp) x)"
    and comm: "gp_committedBytes gp' + b_committedBytes (gp_bins gp ! i) = gp_committedBytes gp + b_committedBytes B'"
  shows "gp_inv t gp' X'"
proof -
  have "bin_inv (gp_heap gp') (gp_bins gp' ! b) b (X' b)" if b: "b < length (gp_bins gp)" for b
  proof (cases "b = i")
    case True
    with bin gp' i show ?thesis by simp
  next
    case False
    from inv b have "bin_inv (gp_heap gp) (gp_bins gp ! b) b (X b)" by (simp add: gp_inv_def)
    with others [OF b False] False gp' show ?thesis
      by (auto simp: bin_inv_def intro: bin_rel_other)
  qed
  moreover have "gp_committedBytes gp' = sum_list (map b_committedBytes (gp_bins gp'))"
    using comm sum_list_map_update [OF i, of b_committedBytes B'] inv gp' by (simp add: gp_inv_def)
  ultimately show ?thesis using inv heap gp' by (simp add: gp_inv_def)
qed

text \<open>\<open>GrowLocked\<close> either counts a failure, or maps a fresh segment and carves it.\<close>

lemma GrowLocked_cases:
  assumes G: "GrowLocked os t bin mb ini gp = (ok, gp')" and i: "bin < length (gp_bins gp)"
  shows "(\<not> ok \<and> (\<exists>hits. gp' = (note_fail bin gp)\<lparr>gp_commitLimitHits := hits\<rparr>)) \<or>
    (ok \<and> (\<exists>seg n h' chunks ip cap gr. 
       n = max (unat (bs_blocksPerSegment (bt_specs t ! bin))) mb \<and>
       fresh_region (regions gp) seg (unat (bs_stride (bt_specs t ! bin)) * n) \<and> seg mod 65536 = 0 \<and>
       (ini \<or> gp_maxCommittedBytes gp = 0 \<or>
          gp_committedBytes gp + unat (bs_stride (bt_specs t ! bin)) * n \<le> gp_maxCommittedBytes gp) \<and>
       carve_loop n (unat (bs_batchBlocks (bt_specs t ! bin))) (unat (bs_stride (bt_specs t ! bin))) (of_nat bin)
          (gp_ownerTag gp) seg n (gp_heap gp, b_chunkList (gp_bins gp ! bin), b_blocksInPool (gp_bins gp ! bin))
          = (h', chunks, ip) \<and>
       gp' = gp\<lparr>gp_committedBytes := gp_committedBytes gp + unat (bs_stride (bt_specs t ! bin)) * n,
                gp_heap := h',
                gp_bins := (gp_bins gp)[bin := (gp_bins gp ! bin)\<lparr>
                   b_segments := b_segments (gp_bins gp ! bin) @ [(seg, unat (bs_stride (bt_specs t ! bin)) * n)],
                   b_segmentCapacity := cap,
                   b_committedBytes := b_committedBytes (gp_bins gp ! bin) + unat (bs_stride (bt_specs t ! bin)) * n,
                   b_chunkList := chunks, b_blocksInPool := ip,
                   b_blocksCreated := b_blocksCreated (gp_bins gp ! bin) + int n,
                   b_growthCount := gr\<rparr>]\<rparr>))"
proof -
  define st where "st = unat (bs_stride (bt_specs t ! bin))"
  define n where "n = max (unat (bs_blocksPerSegment (bt_specs t ! bin))) mb"
  have nd: "(if unat (bs_blocksPerSegment (bt_specs t ! bin)) < mb then mb
      else unat (bs_blocksPerSegment (bt_specs t ! bin))) = n" by (simp add: n_def)
  note G' = G [unfolded GrowLocked_def Let_def nd, folded st_def]
  consider (limit) "\<not> ini \<and> gp_maxCommittedBytes gp \<noteq> 0 \<and> gp_committedBytes gp + st * n > gp_maxCommittedBytes gp"
    | (oom) "\<not> (\<not> ini \<and> gp_maxCommittedBytes gp \<noteq> 0 \<and> gp_committedBytes gp + st * n > gp_maxCommittedBytes gp)"
        "VirtualAlloc os (regions gp) (st * n) = None"
    | (go) seg where "\<not> (\<not> ini \<and> gp_maxCommittedBytes gp \<noteq> 0 \<and> gp_committedBytes gp + st * n > gp_maxCommittedBytes gp)"
        "VirtualAlloc os (regions gp) (st * n) = Some seg"
    by (cases "VirtualAlloc os (regions gp) (st * n)") blast+
  then show ?thesis
  proof cases
    case limit
    with G' show ?thesis by auto
  next
    case oom
    have "gp' = (note_fail bin gp)\<lparr>gp_commitLimitHits := gp_commitLimitHits gp\<rparr> \<and> \<not> ok"
      using G' [unfolded if_not_P [OF oom(1)]] oom(2) by (auto simp: note_fail_def)
    then show ?thesis by blast
  next
    case go
    have fr: "fresh_region (regions gp) seg (st * n)" "seg mod 65536 = 0"
      using go(2) by (auto simp: VirtualAlloc_def split: option.splits if_splits)
    obtain r gp1 where R: "RecordSegmentLocked os bin seg (st * n) gp = (r, gp1)" by fastforce
    show ?thesis
    proof (cases r)
      case False
      then have "gp1 = gp" using R by (auto simp: RecordSegmentLocked_def Let_def split: if_splits)
      then have "gp' = (note_fail bin gp)\<lparr>gp_commitLimitHits := gp_commitLimitHits gp\<rparr> \<and> \<not> ok"
        using G' [unfolded if_not_P [OF go(1)]] go(2) R False by (auto simp: note_fail_def)
      then show ?thesis by blast
    next
      case True
      obtain h' chunks ip where C: "carve_loop n (unat (bs_batchBlocks (bt_specs t ! bin))) st (of_nat bin)
          (gp_ownerTag gp) seg n (gp_heap gp, b_chunkList (gp_bins gp ! bin), b_blocksInPool (gp_bins gp ! bin))
          = (h', chunks, ip)" by (metis prod_cases3)
      define cap where "cap = (if length (b_segments (gp_bins gp ! bin)) \<ge> b_segmentCapacity (gp_bins gp ! bin)
          then (if b_segmentCapacity (gp_bins gp ! bin) = 0 then 4 else b_segmentCapacity (gp_bins gp ! bin) * 2)
          else b_segmentCapacity (gp_bins gp ! bin))"
      have g1: "gp1 = (upd_bin bin (\<lambda>b. b\<lparr>
                  b_segments := b_segments b @ [(seg, st * n)], b_segmentCapacity := cap,
                  b_committedBytes := b_committedBytes b + st * n\<rparr>) gp)\<lparr>gp_committedBytes := gp_committedBytes gp + st * n\<rparr>"
        using R True i
        by (auto simp: RecordSegmentLocked_def Let_def upd_bin_def cap_def split: if_splits)
      have ok: ok and gp': "gp' = gp\<lparr>gp_committedBytes := gp_committedBytes gp + st * n,
                gp_heap := h',
                gp_bins := (gp_bins gp)[bin := (gp_bins gp ! bin)\<lparr>
                   b_segments := b_segments (gp_bins gp ! bin) @ [(seg, st * n)],
                   b_segmentCapacity := cap,
                   b_committedBytes := b_committedBytes (gp_bins gp ! bin) + st * n,
                   b_chunkList := chunks, b_blocksInPool := ip,
                   b_blocksCreated := b_blocksCreated (gp_bins gp ! bin) + int n,
                   b_growthCount := (if ini then b_growthCount (gp_bins gp ! bin)
                                     else b_growthCount (gp_bins gp ! bin) + 1)\<rparr>]\<rparr>"
        using G' [unfolded if_not_P [OF go(1)]] go(2) R True g1 C i
        by (auto simp: CarveAndPush_def upd_bin_def Let_def st_def [symmetric] split: if_splits)
      have "ini \<or> gp_maxCommittedBytes gp = 0 \<or> gp_committedBytes gp + st * n \<le> gp_maxCommittedBytes gp"
        using go(1) by linarith
      note all = conjI [OF n_def [folded st_def] conjI [OF fr(1) conjI [OF fr(2) conjI [OF this conjI [OF C gp']]]]]
      show ?thesis unfolding st_def [symmetric]
        by (rule disjI2, rule conjI, rule ok, rule exI [of _ seg], rule exI [of _ n], rule exI [of _ h'],
            rule exI [of _ chunks], rule exI [of _ ip], rule exI [of _ cap],
            rule exI [of _ "if ini then b_growthCount (gp_bins gp ! bin) else b_growthCount (gp_bins gp ! bin) + 1"],
            rule all)
    qed
  qed
qed

lemma bin_inv_no_free_in:
  assumes "heap_ok gp" and "fresh_region (regions gp) seg (st * n)" and "0 < st"
    and "x \<in> stride_positions seg st n"
  shows "gp_heap gp x = None" and "seg \<le> x" and "x < seg + st * n"
proof -
  from assms(4) obtain j where j: "j < n" "x = seg + st * j" by (auto simp: stride_positions_def)
  then have "st * j < st * n" using assms(3) by simp
  with j show x: "seg \<le> x" "x < seg + st * n" by simp_all
  show "gp_heap gp x = None"
  proof (cases "gp_heap gp x")
    case (Some k)
    with assms(1) have "in_regions (regions gp) x" unfolding regions_def in_regions_append heap_ok_def by blast
    with fresh_not_in_regions [OF assms(2) x] show ?thesis by simp
  qed simp
qed

lemma card_stride_positions: "0 < st \<Longrightarrow> card (stride_positions seg st n) = n"
  unfolding stride_positions_def by (subst card_image) (auto intro: inj_onI)

lemma gp_inv_note_fail:
  assumes "gp_inv t gp X" and "i < length (gp_bins gp)"
  shows "gp_inv t ((note_fail i gp)\<lparr>gp_commitLimitHits := hits\<rparr>) X"
proof (rule gp_inv_update [OF assms])
  let ?gp = "(note_fail i gp)\<lparr>gp_commitLimitHits := hits\<rparr>"
  have "map b_segments (gp_bins ?gp) = map b_segments (gp_bins gp)"
    by (simp add: note_fail_def map_update_same)
  then have "segs ?gp = segs gp" by (simp add: segs_def)
  moreover have "heap_ok gp" using assms(1) by (simp add: gp_inv_def)
  ultimately show "heap_ok ?gp" by (simp add: heap_ok_def note_fail_def)
  show "gp_bins ?gp = (gp_bins gp)[i := (gp_bins gp ! i)\<lparr>b_failCount := b_failCount (gp_bins gp ! i) + 1\<rparr>]"
    by (simp add: note_fail_def)
  show "bin_inv (gp_heap ?gp) ((gp_bins gp ! i)\<lparr>b_failCount := b_failCount (gp_bins gp ! i) + 1\<rparr>) i (X i)"
    using assms by (simp add: gp_inv_def bin_inv_def note_fail_def)
qed (simp_all add: note_fail_def)

lemma table_okD:
  assumes "table_ok t" and "b < unat (bt_binCount t)"
  shows "0 < unat (bs_stride (bt_specs t ! b))" and "0 < unat (bs_batchBlocks (bt_specs t ! b))"
    and "0 < unat (bs_blocksPerSegment (bt_specs t ! b))" and "b < 24"
    and "unat (bt_headerSize t) + unat (bs_blockSize (bt_specs t ! b)) \<le> unat (bs_stride (bt_specs t ! b))"
    and "0 < unat (bs_blockSize (bt_specs t ! b))"
proof -
  obtain m a where sh: "table_shape t m a" using assms(1) by (auto simp: table_ok_def)
  then have sp: "spec_ok (m + b) a (2 ^ a) (bt_specs t ! b)" and hs: "unat (bt_headerSize t) = 2 ^ a"
    and c: "unat (bt_binCount t) \<le> 24"
    using assms(2) by (simp_all add: table_shape_def)
  have "(0::nat) < 2 ^ (m + b)" by simp
  with sp show "0 < unat (bs_stride (bt_specs t ! b))" and "0 < unat (bs_batchBlocks (bt_specs t ! b))"
    and "0 < unat (bs_blocksPerSegment (bt_specs t ! b))" and "0 < unat (bs_blockSize (bt_specs t ! b))"
    unfolding spec_ok_def by linarith+
  show "b < 24" using assms(2) c by simp
  show "unat (bt_headerSize t) + unat (bs_blockSize (bt_specs t ! b)) \<le> unat (bs_stride (bt_specs t ! b))"
    using sp hs by (simp add: spec_ok_def)
qed

lemma GrowLocked_inv:
  assumes inv: "gp_inv t gp X" and i: "bin < length (gp_bins gp)"
    and G: "GrowLocked os t bin mb ini gp = (ok, gp')"
  shows "gp_inv t gp' X" and "live_same (gp_heap gp) (gp_heap gp')"
    and "ok \<Longrightarrow> b_chunkList (gp_bins gp' ! bin) \<noteq> []" and "gp_raw gp' = gp_raw gp"
    and "gp_ownerTag gp' = gp_ownerTag gp" and "length (gp_bins gp') = length (gp_bins gp)"
    and "gp_maxCommittedBytes gp' = gp_maxCommittedBytes gp" and "gp_initialized gp' = gp_initialized gp"
    and "\<not> ini \<Longrightarrow> gp_maxCommittedBytes gp \<noteq> 0 \<Longrightarrow> gp_committedBytes gp \<le> gp_maxCommittedBytes gp \<Longrightarrow>
           gp_committedBytes gp' \<le> gp_maxCommittedBytes gp"
    and "\<not> ok \<Longrightarrow> gp_heap gp' = gp_heap gp"
proof -
  note cs = GrowLocked_cases [OF G i]
  have main: "gp_inv t gp' X \<and> live_same (gp_heap gp) (gp_heap gp') \<and> (ok \<longrightarrow> b_chunkList (gp_bins gp' ! bin) \<noteq> [])"
  proof (cases ok)
    case False
    with cs obtain hits where g: "gp' = (note_fail bin gp)\<lparr>gp_commitLimitHits := hits\<rparr>" by blast
    with gp_inv_note_fail [OF inv i] False show ?thesis by (simp add: note_fail_def)
  next
    case True
    define st where "st = unat (bs_stride (bt_specs t ! bin))"
    let ?B = "gp_bins gp ! bin"
    from cs True obtain seg n h' chunks ip cap gr where
      n: "n = max (unat (bs_blocksPerSegment (bt_specs t ! bin))) mb" and
      fr: "fresh_region (regions gp) seg (st * n)" and
      C: "carve_loop n (unat (bs_batchBlocks (bt_specs t ! bin))) st (of_nat bin)
          (gp_ownerTag gp) seg n (gp_heap gp, b_chunkList ?B, b_blocksInPool ?B) = (h', chunks, ip)" and
      gp': "gp' = gp\<lparr>gp_committedBytes := gp_committedBytes gp + st * n, gp_heap := h',
                gp_bins := (gp_bins gp)[bin := ?B\<lparr>
                   b_segments := b_segments ?B @ [(seg, st * n)], b_segmentCapacity := cap,
                   b_committedBytes := b_committedBytes ?B + st * n,
                   b_chunkList := chunks, b_blocksInPool := ip,
                   b_blocksCreated := b_blocksCreated ?B + int n, b_growthCount := gr\<rparr>]\<rparr>"
      unfolding st_def by blast
    have tab: "table_ok t" and hok: "heap_ok gp" and bi: "bin_inv (gp_heap gp) ?B bin (X bin)"
      and len: "length (gp_bins gp) = unat (bt_binCount t)" using inv i by (simp_all add: gp_inv_def)
    note ts = table_okD [OF tab, of bin]
    have st0: "0 < st" and bt0: "0 < unat (bs_batchBlocks (bt_specs t ! bin))" and n0: "0 < n" and b24: "bin < 24"
      using ts i len n by (simp_all add: st_def)
    let ?P = "stride_positions seg st n"
    note nf = bin_inv_no_free_in [OF hok fr st0]
    have rel: "bin_rel (gp_heap gp) bin (mset (b_chunkList ?B) + X bin)"
      and pos: "\<forall>l \<in> set (b_chunkList ?B). 0 < snd l" using bi by (simp_all add: bin_inv_def)
    note cl = carve_loop_spec [OF C order_refl bt0 st0 nf(1) rel pos]
    have out: "h' x = gp_heap gp x" if "x \<notin> ?P" for x using cl that by blast
    have ins: "\<exists>k. h' x = Some k \<and> bh_magic k = MAGIC_FREE \<and> bh_binIndex k = of_nat bin \<and> bh_poolId k = gp_ownerTag gp"
      if "x \<in> ?P" for x using cl that by blast
    have Fbin: "FreeBlocks h' bin = FreeBlocks (gp_heap gp) bin \<union> ?P"
    proof (rule set_eqI)
      fix x show "x \<in> FreeBlocks h' bin \<longleftrightarrow> x \<in> FreeBlocks (gp_heap gp) bin \<union> ?P"
        using out [of x] ins [of x] nf(1) [of x] by (cases "x \<in> ?P") (auto simp: FreeBlocks_def)
    qed
    have Foth: "FreeBlocks h' b = FreeBlocks (gp_heap gp) b" if "b < length (gp_bins gp)" "b \<noteq> bin" for b
    proof (rule set_eqI)
      have "b < 24" using that(1) len table_okD(4) [OF tab] by simp
      then have ne: "(of_nat bin :: u8) \<noteq> of_nat b" using of_nat_u8_inj [of bin b] b24 that(2) by auto
      fix x show "x \<in> FreeBlocks h' b \<longleftrightarrow> x \<in> FreeBlocks (gp_heap gp) b"
        using out [of x] ins [of x] nf(1) [of x] ne by (cases "x \<in> ?P") (auto simp: FreeBlocks_def)
    qed
    have ls: "live_same (gp_heap gp) h'"
    proof -
      have "h' a = Some k \<longleftrightarrow> gp_heap gp a = Some k" if "bh_magic k = MAGIC_LIVE" for a k
        using out [of a] ins [of a] nf(1) [of a] that by (cases "a \<in> ?P") auto
      then show ?thesis by (simp add: live_same_def)
    qed
    have disj: "FreeBlocks (gp_heap gp) bin \<inter> ?P = {}" using nf(1) by (auto simp: FreeBlocks_def)
    have finP: "finite ?P" by (simp add: stride_positions_def)
    have finF: "finite (FreeBlocks (gp_heap gp) bin)" using rel by (simp add: bin_rel_def)
    have cardF: "card (FreeBlocks h' bin) = card (FreeBlocks (gp_heap gp) bin) + n"
      using Fbin disj finP finF st0 by (simp add: card_Un_disjoint card_stride_positions)
    let ?B' = "?B\<lparr>b_segments := b_segments ?B @ [(seg, st * n)], b_segmentCapacity := cap,
                   b_committedBytes := b_committedBytes ?B + st * n,
                   b_chunkList := chunks, b_blocksInPool := ip,
                   b_blocksCreated := b_blocksCreated ?B + int n, b_growthCount := gr\<rparr>"
    have bi': "bin_inv h' ?B' bin (X bin)"
      using bi cl cardF live_same_LiveBlocks [OF ls] by (simp add: bin_inv_def)
    have regs: "set (segs gp') = insert (seg, st * n) (set (segs gp))"
      using set_concat_update [OF i, of b_segments ?B' "(seg, st * n)"] gp' by (simp add: segs_def)
    have hok': "heap_ok gp'"
    proof -
      have "bh_poolId k = gp_ownerTag gp \<and> bh_magic k \<in> {MAGIC_FREE, MAGIC_LIVE} \<and>
          (unat (bh_binIndex k) < length (gp_bins gp) \<and> in_regions (segs gp') a \<or>
           bh_binIndex k = BIN_BYPASS \<and> bh_magic k = MAGIC_LIVE \<and> in_regions (gp_raw gp) a)"
        if k: "h' a = Some k" for a k
      proof (cases "a \<in> ?P")
        case True
        have "unat (of_nat bin :: u8) = bin" using b24 by (simp add: unat_of_nat)
        moreover have "in_regions (segs gp') a" using nf(2,3) [OF True] regs by (auto simp: in_regions_def)
        ultimately show ?thesis using ins [OF True] k i by auto
      next
        case False
        with out k have "gp_heap gp a = Some k" by simp
        moreover have "in_regions (segs gp) a \<Longrightarrow> in_regions (segs gp') a"
          by (rule in_regions_mono) (use regs in auto)
        ultimately show ?thesis using hok by (auto simp: heap_ok_def)
      qed
      then show ?thesis using gp' by (simp add: heap_ok_def)
    qed
    have "gp_inv t gp' X"
    proof (rule gp_inv_update [OF inv i, where B' = ?B'])
      show "gp_bins gp' = (gp_bins gp)[bin := ?B']" using gp' by simp
      show "bin_inv (gp_heap gp') ?B' bin (X bin)" using bi' gp' by simp
      show "gp_committedBytes gp' + b_committedBytes (gp_bins gp ! bin) = gp_committedBytes gp + b_committedBytes ?B'"
        using gp' by simp
      show "X b = X b \<and> FreeBlocks (gp_heap gp') b = FreeBlocks (gp_heap gp) b \<and>
          LiveBlocks (gp_heap gp') b = LiveBlocks (gp_heap gp) b \<and>
          (\<forall>x \<in> FreeBlocks (gp_heap gp) b. hnext (gp_heap gp') x = hnext (gp_heap gp) x)"
        if "b < length (gp_bins gp)" "b \<noteq> bin" for b
      proof -
        have "hnext h' x = hnext (gp_heap gp) x" if "x \<in> FreeBlocks (gp_heap gp) b" for x
        proof -
          have "x \<notin> ?P" using that nf(1) by (auto simp: FreeBlocks_def)
          then show ?thesis by (simp add: hnext_def out)
        qed
        then show ?thesis using Foth [OF that] live_same_LiveBlocks [OF ls] gp' by simp
      qed
    qed (rule hok')
    moreover have "chunks \<noteq> []" using cl n0 by simp
    ultimately show ?thesis using ls gp' i by simp
  qed
  then show "gp_inv t gp' X" and "live_same (gp_heap gp) (gp_heap gp')"
    and "ok \<Longrightarrow> b_chunkList (gp_bins gp' ! bin) \<noteq> []" by simp_all
  show "gp_raw gp' = gp_raw gp" "gp_ownerTag gp' = gp_ownerTag gp" "length (gp_bins gp') = length (gp_bins gp)"
    "gp_maxCommittedBytes gp' = gp_maxCommittedBytes gp" "gp_initialized gp' = gp_initialized gp"
    "\<not> ok \<Longrightarrow> gp_heap gp' = gp_heap gp"
    using cs by (auto simp: note_fail_def)
  show "\<not> ini \<Longrightarrow> gp_maxCommittedBytes gp \<noteq> 0 \<Longrightarrow> gp_committedBytes gp \<le> gp_maxCommittedBytes gp \<Longrightarrow>
           gp_committedBytes gp' \<le> gp_maxCommittedBytes gp"
    using cs by (auto simp: note_fail_def)
qed

text \<open>A bin operation that leaves the heap and the segments alone.\<close>

lemma gp_inv_bin_only:
  assumes inv: "gp_inv t gp X" and i: "i < length (gp_bins gp)"
    and sg: "b_segments (f (gp_bins gp ! i)) = b_segments (gp_bins gp ! i)"
    and cm: "b_committedBytes (f (gp_bins gp ! i)) = b_committedBytes (gp_bins gp ! i)"
    and bin: "bin_inv (gp_heap gp) (f (gp_bins gp ! i)) i Y"
  shows "gp_inv t (upd_bin i f gp) (X(i := Y))"
proof (rule gp_inv_update [OF inv i])
  have "segs (upd_bin i f gp) = segs gp"
    by (simp add: segs_def map_update_same [of b_segments, OF sg])
  moreover have "heap_ok gp" using inv by (simp add: gp_inv_def)
  ultimately show "heap_ok (upd_bin i f gp)" by (simp add: heap_ok_def)
  show "gp_bins (upd_bin i f gp) = (gp_bins gp)[i := f (gp_bins gp ! i)]" by simp
  show "bin_inv (gp_heap (upd_bin i f gp)) (f (gp_bins gp ! i)) i ((X(i := Y)) i)" using bin by simp
qed (simp_all add: cm)

text \<open>What every operation of the global layer leaves alone.\<close>

definition gp_frame :: "GlobalBlockPool \<Rightarrow> GlobalBlockPool \<Rightarrow> bool" where
  "gp_frame gp gp' \<longleftrightarrow>
     live_same (gp_heap gp) (gp_heap gp') \<and> gp_raw gp' = gp_raw gp \<and> gp_ownerTag gp' = gp_ownerTag gp \<and>
     length (gp_bins gp') = length (gp_bins gp) \<and> gp_initialized gp' = gp_initialized gp \<and>
     gp_maxCommittedBytes gp' = gp_maxCommittedBytes gp \<and>
     (gp_maxCommittedBytes gp \<noteq> 0 \<and> gp_committedBytes gp \<le> gp_maxCommittedBytes gp \<longrightarrow>
      gp_committedBytes gp' \<le> gp_maxCommittedBytes gp)"

lemma gp_frame_refl [simp]: "gp_frame gp gp" by (simp add: gp_frame_def)

lemma gp_frame_trans: "gp_frame a b \<Longrightarrow> gp_frame b c \<Longrightarrow> gp_frame a c"
  unfolding gp_frame_def using live_same_trans by metis

lemma gp_frame_upd [simp]: "gp_frame gp (upd_bin i f gp)" by (simp add: gp_frame_def)

lemma NotePopped_inv:
  assumes inv: "gp_inv t gp X" and i: "bin < length (gp_bins gp)"
    and c: "b_chunkList (gp_bins gp ! bin) = (p, n) # cs"
  shows "gp_inv t (NotePopped bin n (upd_bin bin (\<lambda>b. b\<lparr>b_chunkList := cs\<rparr>) gp)) (X(bin := add_mset (p, n) (X bin)))"
proof -
  let ?f = "\<lambda>b. (b\<lparr>b_chunkList := cs\<rparr>)\<lparr>b_blocksInPool := b_blocksInPool b - int n,
       b_minBlocksInPool := (if b_blocksInPool b - int n \<ge> b_minBlocksInPool b then b_minBlocksInPool b
                             else b_blocksInPool b - int n)\<rparr>"
  have eq: "NotePopped bin n (upd_bin bin (\<lambda>b. b\<lparr>b_chunkList := cs\<rparr>) gp) = upd_bin bin ?f gp"
    using i by (simp add: NotePopped_def upd_bin_def Let_def)
  have bi: "bin_inv (gp_heap gp) (gp_bins gp ! bin) bin (X bin)" using inv i by (simp add: gp_inv_def)
  then have "bin_inv (gp_heap gp) (?f (gp_bins gp ! bin)) bin (add_mset (p, n) (X bin))"
    by (simp add: bin_inv_def c)
  then show ?thesis unfolding eq by (intro gp_inv_bin_only [OF inv i]) simp_all
qed

lemma PopChunk_inv:
  assumes inv: "gp_inv t gp X" and i: "bin < length (gp_bins gp)"
    and P: "PopChunk os t bin gp = ((p, n), gp')"
  shows "gp_frame gp gp'" and "p = None \<Longrightarrow> n = 0 \<and> gp_inv t gp' X \<and> gp_heap gp' = gp_heap gp"
    and "p \<noteq> None \<Longrightarrow> 0 < n \<and> gp_inv t gp' (X(bin := add_mset (p, n) (X bin)))"
proof -
  have pop: "gp_frame gp gp' \<and> (p = None \<longrightarrow> n = 0 \<and> gp_inv t gp' X \<and> gp_heap gp' = gp_heap gp) \<and>
      (p \<noteq> None \<longrightarrow> 0 < n \<and> gp_inv t gp' (X(bin := add_mset (p, n) (X bin))))"
    if g: "gp_inv t g X" "gp_frame gp g" "bin < length (gp_bins g)"
      and c: "b_chunkList (gp_bins g ! bin) = (p, n) # cs"
      and e: "gp' = NotePopped bin n (upd_bin bin (\<lambda>b. b\<lparr>b_chunkList := cs\<rparr>) g)" for g cs
  proof -
    have bi: "bin_inv (gp_heap g) (gp_bins g ! bin) bin (X bin)" using g(1,3) by (simp add: gp_inv_def)
    then have n: "0 < n" and "wf_list (gp_heap g) (p, n)" using c by (auto simp: bin_inv_def bin_rel_def)
    then have "p \<noteq> None" by (cases p) (auto simp: wf_list_def)
    moreover have "gp_frame gp gp'" unfolding e NotePopped_def
      by (rule gp_frame_trans [OF g(2)]) (simp add: gp_frame_def)
    ultimately show ?thesis using n NotePopped_inv [OF g(1,3) c] e by simp
  qed
  have "gp_frame gp gp' \<and> (p = None \<longrightarrow> n = 0 \<and> gp_inv t gp' X \<and> gp_heap gp' = gp_heap gp) \<and>
      (p \<noteq> None \<longrightarrow> 0 < n \<and> gp_inv t gp' (X(bin := add_mset (p, n) (X bin))))"
  proof (cases "b_chunkList (gp_bins gp ! bin)")
    case (Cons c cs)
    obtain q m where c: "c = (q, m)" by fastforce
    have "(p, n) = (q, m)" and e: "gp' = NotePopped bin n (upd_bin bin (\<lambda>b. b\<lparr>b_chunkList := cs\<rparr>) gp)"
      using P Cons c by (auto simp: PopChunk_def pop_entry_def)
    with Cons c have "b_chunkList (gp_bins gp ! bin) = (p, n) # cs" by simp
    from pop [OF inv gp_frame_refl i this e] show ?thesis .
  next
    case Nil
    obtain ok g where G: "GrowLocked os t bin (unat (bs_batchBlocks (bt_specs t ! bin))) False gp = (ok, g)"
      by fastforce
    note gi = GrowLocked_inv [OF inv i G]
    have fr: "gp_frame gp g" using gi by (simp add: gp_frame_def)
    show ?thesis
    proof (cases ok)
      case False
      then have e: "p = None" "n = 0" "gp' = note_fail bin g" using P Nil G by (auto simp: PopChunk_def pop_entry_def)
      have "gp_inv t ((note_fail bin g)\<lparr>gp_commitLimitHits := gp_commitLimitHits g\<rparr>) X"
        using gi i by (intro gp_inv_note_fail) simp_all
      then have "gp_inv t gp' X" using e by (simp add: note_fail_def upd_bin_def)
      moreover have "gp_frame gp gp'" unfolding e note_fail_def using fr gp_frame_upd by (rule gp_frame_trans)
      moreover have "gp_heap gp' = gp_heap gp" using e gi(10) False by (simp add: note_fail_def)
      ultimately show ?thesis using e by simp
    next
      case True
      then obtain c cs where cl: "b_chunkList (gp_bins g ! bin) = c # cs" using gi(3) by (meson list.exhaust)
      obtain q m where c: "c = (q, m)" by fastforce
      have "(p, n) = (q, m)" and e: "gp' = NotePopped bin n (upd_bin bin (\<lambda>b. b\<lparr>b_chunkList := cs\<rparr>) g)"
        using P Nil cl c G True by (auto simp: PopChunk_def pop_entry_def)
      with cl c have "b_chunkList (gp_bins g ! bin) = (p, n) # cs" by simp
      moreover have "bin < length (gp_bins g)" using gi(6) i by simp
      ultimately show ?thesis using pop [OF gi(1) fr _ _ e] by blast
    qed
  qed
  then show "gp_frame gp gp'" and "p = None \<Longrightarrow> n = 0 \<and> gp_inv t gp' X \<and> gp_heap gp' = gp_heap gp"
    and "p \<noteq> None \<Longrightarrow> 0 < n \<and> gp_inv t gp' (X(bin := add_mset (p, n) (X bin)))" by blast+
qed

lemma PushChunk_inv:
  assumes inv: "gp_inv t gp X" and i: "bin < length (gp_bins gp)" and x: "X bin = add_mset (p, n) Y"
  shows "gp_inv t (PushChunk bin p n gp) (X(bin := Y))" and "gp_frame gp (PushChunk bin p n gp)"
    and "gp_heap (PushChunk bin p n gp) = gp_heap gp"
proof -
  have bi: "bin_inv (gp_heap gp) (gp_bins gp ! bin) bin (X bin)" using inv i by (simp add: gp_inv_def)
  then have wf: "wf_list (gp_heap gp) (p, n)" using x by (auto simp: bin_inv_def bin_rel_def)
  show "gp_inv t (PushChunk bin p n gp) (X(bin := Y))"
  proof (cases "p = None \<or> n = 0")
    case True
    with wf have e: "(p, n) = (None, 0)" by (auto simp: wf_list_def)
    then have "bin_inv (gp_heap gp) (gp_bins gp ! bin) bin Y" using bi x by (simp add: bin_inv_def)
    then have "gp_inv t (upd_bin bin (\<lambda>b. b) gp) (X(bin := Y))" by (intro gp_inv_bin_only [OF inv i]) simp_all
    moreover have "upd_bin bin (\<lambda>b. b) gp = gp" by (simp add: upd_bin_def)
    ultimately show ?thesis using True by (simp add: PushChunk_def)
  next
    case False
    have "bin_inv (gp_heap gp) ((gp_bins gp ! bin)\<lparr>b_chunkList := (p, n) # b_chunkList (gp_bins gp ! bin),
        b_blocksInPool := b_blocksInPool (gp_bins gp ! bin) + int n\<rparr>) bin Y"
      using bi x False by (simp add: bin_inv_def)
    then show ?thesis using False by (auto simp: PushChunk_def intro: gp_inv_bin_only [OF inv i])
  qed
  show "gp_frame gp (PushChunk bin p n gp)" "gp_heap (PushChunk bin p n gp) = gp_heap gp"
    by (simp_all add: PushChunk_def)
qed

end
