(* ===== verification/TlsPool.thy ===== *)
theory TlsPool
  imports BlockPool Interfaces "HOL-Library.Code_Target_Nat"
begin

text \<open>
  The thread caches and the pool itself (\<open>Memory/ThreadBlockCache\<close>, \<open>Memory/TlsMemoryPool\<close>). A thread's
  cache is a free list per bin; blocks move between it and the global layer in batches. The pool finds
  the caller's cache, hands out payloads and checks every returned payload's header.

  A cache is found by its thread: the fast \<open>thread_local\<close> slot and the FLS slot are two ways to
  store that association, and are not modelled apart from the slot bitmap.
\<close>

section \<open>The slot bitmap\<close>

definition MAX_FAST_SLOTS :: nat where "MAX_FAST_SLOTS = 64"

text \<open>
  \<open>AcquireSlot\<close>: the first clear bit, or \<open>None\<close> (\<open>UINT32_MAX\<close>). The retry of the compare-and-swap
  is one atomic step here.
\<close>

definition AcquireSlot :: "u64 \<Rightarrow> nat option \<times> u64" where
  "AcquireSlot bits =
     (case find (\<lambda>i. bits AND push_bit i 1 = 0) [0..<MAX_FAST_SLOTS] of
        None \<Rightarrow> (None, bits)
      | Some slot \<Rightarrow> (Some slot, bits OR push_bit slot 1))"

definition ReleaseSlot :: "nat option \<Rightarrow> u64 \<Rightarrow> u64" where
  "ReleaseSlot slot bits =
     (case slot of None \<Rightarrow> bits
      | Some s \<Rightarrow> if s \<ge> MAX_FAST_SLOTS then bits else bits AND NOT (push_bit s 1))"

definition OwnerTag :: "nat option \<Rightarrow> u8" where
  "OwnerTag slot = (case slot of None \<Rightarrow> POOL_ID_NONE
     | Some s \<Rightarrow> if s < MAX_FAST_SLOTS then of_nat s else POOL_ID_NONE)"

section \<open>A thread's cache\<close>

record ThreadBlockCache =
  tc_threadId :: nat
  tc_lists :: "free_list list"
  tc_acquireCount :: "nat list"
  tc_releaseCount :: "nat list"

definition new_cache :: "nat \<Rightarrow> ThreadBlockCache" where
  "new_cache tid = \<lparr>tc_threadId = tid, tc_lists = replicate 24 (None, 0),
     tc_acquireCount = replicate 24 0, tc_releaseCount = replicate 24 0\<rparr>"

definition Refill :: "OS \<Rightarrow> BinTable \<Rightarrow> nat \<Rightarrow> ThreadBlockCache \<times> GlobalBlockPool \<Rightarrow>
    bool \<times> ThreadBlockCache \<times> GlobalBlockPool" where
  "Refill os t bin st =
     (let (c, gp) = st; (chunk, gp') = PopChunk os t bin gp in
      if fst chunk = None then (False, c, gp')
      else (True, c\<lparr>tc_lists := (tc_lists c)[bin := chunk]\<rparr>, gp'))"

definition Pop :: "OS \<Rightarrow> BinTable \<Rightarrow> nat \<Rightarrow> ThreadBlockCache \<times> GlobalBlockPool \<Rightarrow>
    addr option \<times> ThreadBlockCache \<times> GlobalBlockPool" where
  "Pop os t bin st =
     (let (ok, c, gp) = (if fst (tc_lists (fst st) ! bin) = None then Refill os t bin st
                         else (True, fst st, snd st))
      in if \<not> ok then (None, c, gp)
         else (case tc_lists c ! bin of
                 (None, n) \<Rightarrow> (None, c, gp)
               | (Some header, n) \<Rightarrow>
                   (Some header,
                    c\<lparr>tc_lists := (tc_lists c)[bin := (hnext (gp_heap gp) header, n - 1)],
                      tc_acquireCount := (tc_acquireCount c)[bin := tc_acquireCount c ! bin + 1]\<rparr>,
                    gp)))"

text \<open>
  The loop of \<open>Flush\<close> on one list: cut the first \<open>take\<close> blocks off and push them as a chunk, once or
  until the list is empty. Every round takes at least one block, so the list's count is fuel enough.
\<close>

primrec flush_loop :: "nat \<Rightarrow> nat \<Rightarrow> nat \<Rightarrow> bool \<Rightarrow> free_list \<times> GlobalBlockPool \<Rightarrow> free_list \<times> GlobalBlockPool" where
  "flush_loop 0 batch bin all st = st"
| "flush_loop (Suc fuel) batch bin all st =
     (let (l, gp) = st; (p, n) = l; take = (if batch > n then n else batch) in
      case p of
        None \<Rightarrow> st
      | Some head \<Rightarrow>
          if take = 0 then st
          else
            (case hop (hnext (gp_heap gp)) head (take - 1) of
               None \<Rightarrow> st
             | Some tail \<Rightarrow>
                 (let rest = (hnext (gp_heap gp) tail, n - take);
                      gp1 = gp\<lparr>gp_heap := hmod tail (\<lambda>k. k\<lparr>bh_next := None\<rparr>) (gp_heap gp)\<rparr>;
                      st' = (rest, PushChunk bin (Some head) take gp1)
                  in if all \<and> snd rest > 0 then flush_loop fuel batch bin all st' else st')))"

definition Flush :: "BinTable \<Rightarrow> nat \<Rightarrow> bool \<Rightarrow> ThreadBlockCache \<times> GlobalBlockPool \<Rightarrow>
    ThreadBlockCache \<times> GlobalBlockPool" where
  "Flush t bin all st =
     (let (c, gp) = st; l = tc_lists c ! bin in
      if snd l = 0 \<or> fst l = None then (c, gp)
      else (let (l', gp') = flush_loop (snd l) (unat (bs_batchBlocks (bt_specs t ! bin))) bin all (l, gp)
            in (c\<lparr>tc_lists := (tc_lists c)[bin := l']\<rparr>, gp')))"

definition FlushAll :: "BinTable \<Rightarrow> ThreadBlockCache \<times> GlobalBlockPool \<Rightarrow> ThreadBlockCache \<times> GlobalBlockPool" where
  "FlushAll t st = fold (\<lambda>bin. Flush t bin True) [0..<unat (bt_binCount t)] st"

definition Push :: "BinTable \<Rightarrow> nat \<Rightarrow> addr \<Rightarrow> ThreadBlockCache \<times> GlobalBlockPool \<Rightarrow>
    ThreadBlockCache \<times> GlobalBlockPool" where
  "Push t bin header st =
     (let (c, gp) = st; l = tc_lists c ! bin;
          gp1 = gp\<lparr>gp_heap := hmod header (\<lambda>k. k\<lparr>bh_next := fst l\<rparr>) (gp_heap gp)\<rparr>;
          c1 = c\<lparr>tc_lists := (tc_lists c)[bin := (Some header, snd l + 1)],
                 tc_releaseCount := (tc_releaseCount c)[bin := tc_releaseCount c ! bin + 1]\<rparr>
      in if snd l + 1 > unat (bs_cacheCapBlocks (bt_specs t ! bin)) then Flush t bin False (c1, gp1)
         else (c1, gp1))"

section \<open>The pool\<close>

record TlsMemoryPool =
  tp_table :: BinTable
  tp_global :: GlobalBlockPool
  tp_caches :: "ThreadBlockCache list"
  tp_retiredAcquire :: "nat list"
  tp_retiredRelease :: "nat list"
  tp_slot :: "nat option"
  tp_initialized :: bool
  tp_bypassAcquire :: nat
  tp_bypassRelease :: nat
  tp_corruptions :: nat
  tp_violations :: nat

text \<open>\<open>GetOrCreate\<close> and \<open>Attach\<close>: the index of the caller's cache, made when there is none.\<close>

definition cache_index :: "nat \<Rightarrow> ThreadBlockCache list \<Rightarrow> nat option" where
  "cache_index tid cs = find (\<lambda>i. tc_threadId (cs ! i) = tid) [0..<length cs]"

definition GetOrCreate :: "bool \<Rightarrow> nat \<Rightarrow> TlsMemoryPool \<Rightarrow> nat option \<times> TlsMemoryPool" where
  "GetOrCreate allocated tid s =
     (case cache_index tid (tp_caches s) of
        Some i \<Rightarrow> (Some i, s)
      | None \<Rightarrow> if \<not> allocated then (None, s)
                else (Some 0, s\<lparr>tp_caches := new_cache tid # tp_caches s\<rparr>))"

text \<open>
  \<open>AcquireBypass\<close>: a raw region with room for the header, the request and the alignment; the
  payload is aligned up behind the header, and the header remembers the raw address. The sum is a
  \<open>size_t\<close>, which wraps around for a request next to 2 to the 64.
\<close>

definition align_up :: "nat \<Rightarrow> nat \<Rightarrow> nat" where
  "align_up v a = (v + (a - 1)) div a * a"

definition AcquireBypass :: "OS \<Rightarrow> u64 \<Rightarrow> TlsMemoryPool \<Rightarrow> addr option \<times> TlsMemoryPool" where
  "AcquireBypass os sz s =
     (let t = tp_table s; gp = tp_global s; hs = unat (bt_headerSize t); al = unat (bt_payloadAlignment t);
          rawBytes = unat (ucast (bt_headerSize t) + sz + ucast (bt_payloadAlignment t))
      in case HeapAlloc os (regions gp) rawBytes of
           None \<Rightarrow> (None, s)
         | Some raw \<Rightarrow>
             (let payload = align_up (raw + hs) al; header = payload - hs in
              (Some payload,
               s\<lparr>tp_global := gp\<lparr>
                    gp_heap := (gp_heap gp)(header := Some \<lparr>bh_magic = MAGIC_LIVE, bh_binIndex = BIN_BYPASS,
                                 bh_poolId = OwnerTag (tp_slot s), bh_next = Some raw\<rparr>),
                    gp_raw := (raw, rawBytes) # gp_raw gp\<rparr>,
                 tp_bypassAcquire := tp_bypassAcquire s + 1\<rparr>)))"

definition Acquire :: "OS \<Rightarrow> bool \<Rightarrow> nat \<Rightarrow> TlsMemoryPool \<Rightarrow> u64 \<Rightarrow> addr option \<times> TlsMemoryPool" where
  "Acquire os allocated tid s sz =
     (if \<not> tp_initialized s \<or> sz = 0 then (None, s)
      else
        (let t = tp_table s; bin = BinOf t sz in
         if bin \<ge> bt_binCount t then AcquireBypass os sz s
         else
           (case GetOrCreate allocated tid s of
              (None, s1) \<Rightarrow> (None, s1)
            | (Some i, s1) \<Rightarrow>
                (case Pop os t (unat bin) (tp_caches s1 ! i, tp_global s1) of
                   (r, c, gp) \<Rightarrow>
                     (let s2 = s1\<lparr>tp_caches := (tp_caches s1)[i := c], tp_global := gp\<rparr> in
                      case r of
                        None \<Rightarrow> (None, s2)
                      | Some header \<Rightarrow>
                          (case gp_heap gp header of
                             None \<Rightarrow> (None, s2\<lparr>tp_corruptions := tp_corruptions s2 + 1\<rparr>)
                           | Some k \<Rightarrow>
                               if bh_magic k \<noteq> MAGIC_FREE
                               then (None, s2\<lparr>tp_corruptions := tp_corruptions s2 + 1\<rparr>)
                               else (Some (PayloadOf header (bt_headerSize t)),
                                     s2\<lparr>tp_global := gp\<lparr>gp_heap :=
                                          hmod header (\<lambda>k. k\<lparr>bh_magic := MAGIC_LIVE, bh_next := None\<rparr>)
                                            (gp_heap gp)\<rparr>\<rparr>)))))))"

definition HeapFree :: "addr \<Rightarrow> (addr \<times> nat) list \<Rightarrow> (addr \<times> nat) list" where
  "HeapFree raw rs = filter (\<lambda>r. fst r \<noteq> raw) rs"

definition ReleaseBypass :: "addr \<Rightarrow> TlsMemoryPool \<Rightarrow> TlsMemoryPool" where
  "ReleaseBypass header s =
     (let gp = tp_global s in
      case hnext (gp_heap gp) header of
        None \<Rightarrow> s\<lparr>tp_bypassRelease := tp_bypassRelease s + 1\<rparr>
      | Some raw \<Rightarrow>
          s\<lparr>tp_global := gp\<lparr>gp_heap := (gp_heap gp)(header := None), gp_raw := HeapFree raw (gp_raw gp)\<rparr>,
            tp_bypassRelease := tp_bypassRelease s + 1\<rparr>)"

text \<open>\<open>payload = None\<close> is \<open>nullptr\<close>. A payload without a header cell is one outside the pool's memory.\<close>

definition Release :: "bool \<Rightarrow> nat \<Rightarrow> addr option \<Rightarrow> TlsMemoryPool \<Rightarrow> TlsMemoryPool" where
  "Release allocated tid payload s =
     (case payload of
        None \<Rightarrow> s
      | Some a \<Rightarrow>
        if \<not> tp_initialized s then s\<lparr>tp_violations := tp_violations s + 1\<rparr>
        else
          (let t = tp_table s; gp = tp_global s; header = HeaderOf a (bt_headerSize t) in
           case gp_heap gp header of
             None \<Rightarrow> s\<lparr>tp_corruptions := tp_corruptions s + 1\<rparr>
           | Some k \<Rightarrow>
               if bh_magic k = MAGIC_FREE then s\<lparr>tp_corruptions := tp_corruptions s + 1\<rparr>
               else if bh_magic k \<noteq> MAGIC_LIVE then s\<lparr>tp_corruptions := tp_corruptions s + 1\<rparr>
               else if bh_poolId k \<noteq> POOL_ID_NONE \<and> bh_poolId k \<noteq> OwnerTag (tp_slot s)
                 then s\<lparr>tp_violations := tp_violations s + 1\<rparr>
               else
                 (let s1 = s\<lparr>tp_global := gp\<lparr>gp_heap := hmod header (\<lambda>k. k\<lparr>bh_magic := MAGIC_FREE\<rparr>) (gp_heap gp)\<rparr>\<rparr>
                  in if bh_binIndex k = BIN_BYPASS then ReleaseBypass header s1
                     else if unat (bh_binIndex k) \<ge> unat (bt_binCount t)
                       then s1\<lparr>tp_corruptions := tp_corruptions s1 + 1\<rparr>
                     else
                       (let bin = unat (bh_binIndex k) in
                        case GetOrCreate allocated tid s1 of
                          (None, s2) \<Rightarrow>
                            s2\<lparr>tp_global := PushChunk bin (Some header) 1 ((tp_global s2)\<lparr>gp_heap :=
                                 hmod header (\<lambda>k. k\<lparr>bh_next := None\<rparr>) (gp_heap (tp_global s2))\<rparr>),
                               tp_retiredRelease := (tp_retiredRelease s2)[bin := tp_retiredRelease s2 ! bin + 1]\<rparr>
                        | (Some i, s2) \<Rightarrow>
                            (case Push t bin header (tp_caches s2 ! i, tp_global s2) of
                               (c, gp') \<Rightarrow> s2\<lparr>tp_caches := (tp_caches s2)[i := c], tp_global := gp'\<rparr>)))))"

text \<open>\<open>Detach\<close>: a thread's cache is flushed, its counters are retired and it is taken off the list.\<close>

definition Detach :: "nat \<Rightarrow> TlsMemoryPool \<Rightarrow> TlsMemoryPool" where
  "Detach i s =
     (let (c, gp) = FlushAll (tp_table s) (tp_caches s ! i, tp_global s) in
      s\<lparr>tp_global := gp,
        tp_caches := take i (tp_caches s) @ drop (Suc i) (tp_caches s),
        tp_retiredAcquire := map (\<lambda>b. tp_retiredAcquire s ! b +
            (if b < unat (bt_binCount (tp_table s)) then tc_acquireCount c ! b else 0)) [0..<24],
        tp_retiredRelease := map (\<lambda>b. tp_retiredRelease s ! b +
            (if b < unat (bt_binCount (tp_table s)) then tc_releaseCount c ! b else 0)) [0..<24]\<rparr>)"

definition OnThreadExit :: "nat \<Rightarrow> TlsMemoryPool \<Rightarrow> TlsMemoryPool" where
  "OnThreadExit tid s = (case cache_index tid (tp_caches s) of None \<Rightarrow> s | Some i \<Rightarrow> Detach i s)"

text \<open>\<open>SumCounters\<close>.\<close>

definition SumAcquire :: "TlsMemoryPool \<Rightarrow> nat \<Rightarrow> nat" where
  "SumAcquire s b = tp_retiredAcquire s ! b + sum_list (map (\<lambda>c. tc_acquireCount c ! b) (tp_caches s))"

definition SumRelease :: "TlsMemoryPool \<Rightarrow> nat \<Rightarrow> nat" where
  "SumRelease s b = tp_retiredRelease s ! b + sum_list (map (\<lambda>c. tc_releaseCount c ! b) (tp_caches s))"

definition SumCached :: "TlsMemoryPool \<Rightarrow> nat \<Rightarrow> nat" where
  "SumCached s b = sum_list (map (\<lambda>c. snd (tc_lists c ! b)) (tp_caches s))"

section \<open>Moving single blocks\<close>

lemma hmod_apply [simp]: "hmod a f h a = map_option f (h a)" "x \<noteq> a \<Longrightarrow> hmod a f h x = h x"
  by (simp_all add: hmod_def)

lemma hmod_hmod: "hmod a f (hmod a g h) = hmod a (f \<circ> g) h"
  by (auto simp: hmod_def option.map_comp)

lemma hmod_Some: "h a = Some k \<Longrightarrow> hmod a f h = h(a := Some (f k))"
  by (simp add: hmod_def)

lemma gp_inv_bins: "gp_inv t gp X \<Longrightarrow> b < length (gp_bins gp) \<Longrightarrow> b < 24"
  using table_okD(4) by (auto simp: gp_inv_def)

lemma gp_inv_bin: "gp_inv t gp X \<Longrightarrow> b < length (gp_bins gp) \<Longrightarrow> bin_inv (gp_heap gp) (gp_bins gp ! b) b (X b)"
  by (simp add: gp_inv_def)

lemma gp_inv_cong: "gp_inv t gp X \<Longrightarrow> (\<And>b. b < length (gp_bins gp) \<Longrightarrow> X' b = X b) \<Longrightarrow> gp_inv t gp X'"
  by (simp add: gp_inv_def)

lemma gp_inv_heap:
  assumes inv: "gp_inv t gp X" and i: "i < length (gp_bins gp)" and k: "gp_heap gp a = Some k"
    and h': "h' = (gp_heap gp)(a := Some k')"
    and b: "bh_binIndex k = of_nat i" "bh_binIndex k' = of_nat i" "bh_poolId k' = bh_poolId k"
    and m: "bh_magic k' \<in> {MAGIC_FREE, MAGIC_LIVE}" and bin: "bin_inv h' (gp_bins gp ! i) i Y"
  shows "gp_inv t (gp\<lparr>gp_heap := h'\<rparr>) (X(i := Y))"
proof (rule gp_inv_update [OF inv i, where B' = "gp_bins gp ! i"])
  have i24: "i < 24" using gp_inv_bins [OF inv i] .
  have hok: "heap_ok gp" using inv by (simp add: gp_inv_def)
  have nb: "(of_nat i :: u8) \<noteq> BIN_BYPASS" using i24 by (intro BYPASS_not_bin) simp
  have a: "bh_poolId k = gp_ownerTag gp \<and> in_regions (segs gp) a"
    using hok [unfolded heap_ok_def, rule_format, OF k] b(1) nb by auto
  have ui: "unat (bh_binIndex k') < length (gp_bins gp)" using b(2) i i24 by (simp add: unat_of_nat)
  have sg: "segs (gp\<lparr>gp_heap := h'\<rparr>) = segs gp" by (simp add: segs_def)
  show "heap_ok (gp\<lparr>gp_heap := h'\<rparr>)"
    unfolding heap_ok_def sg
  proof (intro allI impI)
    fix x kx assume x: "gp_heap (gp\<lparr>gp_heap := h'\<rparr>) x = Some kx"
    show "bh_poolId kx = gp_ownerTag (gp\<lparr>gp_heap := h'\<rparr>) \<and> bh_magic kx \<in> {MAGIC_FREE, MAGIC_LIVE} \<and>
        (unat (bh_binIndex kx) < length (gp_bins (gp\<lparr>gp_heap := h'\<rparr>)) \<and> in_regions (segs gp) x \<or>
         bh_binIndex kx = BIN_BYPASS \<and> bh_magic kx = MAGIC_LIVE \<and> in_regions (gp_raw (gp\<lparr>gp_heap := h'\<rparr>)) x)"
    proof (cases "x = a")
      case True
      with x h' a b m ui show ?thesis by auto
    next
      case False
      with x h' have "gp_heap gp x = Some kx" by simp
      with hok show ?thesis unfolding heap_ok_def by simp
    qed
  qed
  show "(X(i := Y)) c = X c \<and> FreeBlocks (gp_heap (gp\<lparr>gp_heap := h'\<rparr>)) c = FreeBlocks (gp_heap gp) c \<and>
      LiveBlocks (gp_heap (gp\<lparr>gp_heap := h'\<rparr>)) c = LiveBlocks (gp_heap gp) c \<and>
      (\<forall>x \<in> FreeBlocks (gp_heap gp) c. hnext (gp_heap (gp\<lparr>gp_heap := h'\<rparr>)) x = hnext (gp_heap gp) x)"
    if c: "c < length (gp_bins gp)" "c \<noteq> i" for c
  proof -
    have "(of_nat i :: u8) \<noteq> of_nat c"
      using of_nat_u8_inj [of i c] i24 gp_inv_bins [OF inv c(1)] c(2) by auto
    with b k h' c show ?thesis by (auto simp: FreeBlocks_def LiveBlocks_def hnext_def)
  qed
qed (simp_all add: bin)

text \<open>Handing out the head block of a list.\<close>

lemma gp_take:
  assumes inv: "gp_inv t gp X" and i: "i < length (gp_bins gp)" and x: "X i = add_mset (Some a, n) M"
  shows "\<exists>k. gp_heap gp a = Some k \<and> bh_magic k = MAGIC_FREE \<and> bh_binIndex k = of_nat i \<and> 0 < n \<and>
    (let h' = hmod a (\<lambda>k. k\<lparr>bh_magic := MAGIC_LIVE, bh_next := None\<rparr>) (gp_heap gp) in
     gp_inv t (gp\<lparr>gp_heap := h'\<rparr>) (X(i := add_mset (hnext (gp_heap gp) a, n - 1) M)) \<and>
     a \<notin> LiveBlocks (gp_heap gp) i \<and> LiveBlocks h' i = insert a (LiveBlocks (gp_heap gp) i) \<and>
     (\<forall>b. b < length (gp_bins gp) \<longrightarrow> b \<noteq> i \<longrightarrow> LiveBlocks h' b = LiveBlocks (gp_heap gp) b))"
proof -
  let ?h = "gp_heap gp" and ?B = "gp_bins gp ! i"
  have bi: "bin_inv ?h ?B i (X i)" using inv i by (rule gp_inv_bin)
  have r: "bin_rel ?h i (add_mset (Some a, n) (mset (b_chunkList ?B) + M))"
    using bi x by (simp add: bin_inv_def)
  have "a \<in> set (list_addrs ?h (Some a, n))"
    using wf_listD [OF bin_rel_mem(1) [OF r]] chain_Some by fastforce
  then have "a \<in> FreeBlocks ?h i" using bin_rel_mem(2) [OF r] by blast
  then obtain k where k: "?h a = Some k" "bh_magic k = MAGIC_FREE" "bh_binIndex k = of_nat i"
    by (auto simp: FreeBlocks_def)
  define h' where "h' = hmod a (\<lambda>k. k\<lparr>bh_magic := MAGIC_LIVE, bh_next := None\<rparr>) ?h"
  have h': "h' = ?h(a := Some (k\<lparr>bh_magic := MAGIC_LIVE, bh_next := None\<rparr>))"
    unfolding h'_def using k(1) by (rule hmod_Some)
  note p = bin_rel_pop [OF r k(1) h']
  have L: "LiveBlocks h' i = insert a (LiveBlocks ?h i)" and nl: "a \<notin> LiveBlocks ?h i"
    using k h' by (auto simp: LiveBlocks_def)
  have nx: "bh_next k = hnext ?h a" using k by (simp add: hnext_def)
  have fin: "finite (FreeBlocks ?h i)" using r by (simp add: bin_rel_def)
  have c: "card (FreeBlocks ?h i) = Suc (card (FreeBlocks ?h i - {a}))"
    using fin p(2) by (rule card.remove)
  have "bin_inv h' ?B i (add_mset (hnext ?h a, n - 1) M)"
    using bi p(1,4) L nl c by (simp add: bin_inv_def nx)
  then have g: "gp_inv t (gp\<lparr>gp_heap := h'\<rparr>) (X(i := add_mset (hnext ?h a, n - 1) M))"
    using k by (intro gp_inv_heap [OF inv i k(1) h']) simp_all
  have other: "LiveBlocks h' b = LiveBlocks ?h b" if b: "b < length (gp_bins gp)" "b \<noteq> i" for b
  proof -
    have "(of_nat i :: u8) \<noteq> of_nat b"
      using of_nat_u8_inj [of i b] gp_inv_bins [OF inv i] gp_inv_bins [OF inv b(1)] b(2) by auto
    with k h' show ?thesis by (auto simp: LiveBlocks_def)
  qed
  show ?thesis using k p(3) g L nl other unfolding h'_def Let_def by blast
qed

text \<open>Taking a live block back in front of a list.\<close>

lemma gp_give:
  assumes inv: "gp_inv t gp X" and i: "i < length (gp_bins gp)" and x: "X i = add_mset (p, n) M"
    and k: "gp_heap gp a = Some k" "bh_magic k = MAGIC_LIVE" "bh_binIndex k = of_nat i"
    and h': "h' = hmod a (\<lambda>k. k\<lparr>bh_magic := MAGIC_FREE, bh_next := p\<rparr>) (gp_heap gp)"
  shows "gp_inv t (gp\<lparr>gp_heap := h'\<rparr>) (X(i := add_mset (Some a, Suc n) M))"
    and "a \<in> LiveBlocks (gp_heap gp) i" and "LiveBlocks h' i = LiveBlocks (gp_heap gp) i - {a}"
    and "\<And>b. b < length (gp_bins gp) \<Longrightarrow> b \<noteq> i \<Longrightarrow> LiveBlocks h' b = LiveBlocks (gp_heap gp) b"
proof -
  let ?h = "gp_heap gp" and ?B = "gp_bins gp ! i"
  have bi: "bin_inv ?h ?B i (X i)" using inv i by (rule gp_inv_bin)
  have r: "bin_rel ?h i (add_mset (p, n) (mset (b_chunkList ?B) + M))" using bi x by (simp add: bin_inv_def)
  have h2: "h' = ?h(a := Some (k\<lparr>bh_magic := MAGIC_FREE, bh_next := p\<rparr>))"
    unfolding h' using k(1) by (rule hmod_Some)
  have "bh_magic k \<noteq> MAGIC_FREE" using k by simp
  note ps = bin_rel_push [OF r k(1) this k(3) h2]
  show al: "a \<in> LiveBlocks ?h i" using k by (simp add: LiveBlocks_def)
  show L: "LiveBlocks h' i = LiveBlocks ?h i - {a}" using k h2 by (auto simp: LiveBlocks_def)
  have fF: "finite (FreeBlocks ?h i)" using r by (simp add: bin_rel_def)
  have fL: "finite (LiveBlocks ?h i)" using bi by (simp add: bin_inv_def)
  have "a \<notin> FreeBlocks ?h i" using k by (simp add: FreeBlocks_def)
  then have c1: "card (FreeBlocks h' i) = Suc (card (FreeBlocks ?h i))" using fF ps(2) by simp
  have c2: "card (LiveBlocks ?h i) = Suc (card (LiveBlocks ?h i - {a}))" using fL al by (rule card.remove)
  have "bin_inv h' ?B i (add_mset (Some a, Suc n) M)"
    using bi ps(1) L c1 c2 fL by (simp add: bin_inv_def)
  then show "gp_inv t (gp\<lparr>gp_heap := h'\<rparr>) (X(i := add_mset (Some a, Suc n) M))"
    using k by (intro gp_inv_heap [OF inv i k(1) h2]) simp_all
  show "LiveBlocks h' b = LiveBlocks ?h b" if b: "b < length (gp_bins gp)" "b \<noteq> i" for b
  proof -
    have "(of_nat i :: u8) \<noteq> of_nat b"
      using of_nat_u8_inj [of i b] gp_inv_bins [OF inv i] gp_inv_bins [OF inv b(1)] b(2) by auto
    with k h2 show ?thesis by (auto simp: LiveBlocks_def)
  qed
qed

text \<open>Cutting a list in two.\<close>

lemma gp_cut:
  assumes inv: "gp_inv t gp X" and i: "i < length (gp_bins gp)" and x: "X i = add_mset (Some a, n) M"
    and m: "0 < m" "m \<le> n"
  shows "\<exists>tail. hop (hnext (gp_heap gp)) a (m - 1) = Some tail \<and>
    (let h' = hmod tail (\<lambda>k. k\<lparr>bh_next := None\<rparr>) (gp_heap gp) in
     gp_inv t (gp\<lparr>gp_heap := h'\<rparr>) (X(i := add_mset (Some a, m) (add_mset (hnext (gp_heap gp) tail, n - m) M))) \<and>
     (\<forall>b. LiveBlocks h' b = LiveBlocks (gp_heap gp) b) \<and> live_same (gp_heap gp) h' \<and>
     (n - m = 0 \<longleftrightarrow> hnext (gp_heap gp) tail = None))"
proof -
  let ?h = "gp_heap gp" and ?B = "gp_bins gp ! i"
  have bi: "bin_inv ?h ?B i (X i)" using inv i by (rule gp_inv_bin)
  have r: "bin_rel ?h i (add_mset (Some a, n) (mset (b_chunkList ?B) + M))" using bi x by (simp add: bin_inv_def)
  from bin_rel_split [OF r m] obtain tail k where
    hop: "hop (hnext ?h) a (m - 1) = Some tail" and k: "?h tail = Some k" and
    sp: "bin_rel (?h(tail := Some (k\<lparr>bh_next := None\<rparr>))) i
          ({#(Some a, m), (hnext ?h tail, n - m)#} + (mset (b_chunkList ?B) + M))" and
    F: "FreeBlocks (?h(tail := Some (k\<lparr>bh_next := None\<rparr>))) i = FreeBlocks ?h i" and
    z: "n - m = 0 \<longleftrightarrow> hnext ?h tail = None"
    unfolding Let_def by (elim exE conjE) (rule that)
  define h' where "h' = hmod tail (\<lambda>k. k\<lparr>bh_next := None\<rparr>) ?h"
  have h': "h' = ?h(tail := Some (k\<lparr>bh_next := None\<rparr>))" unfolding h'_def using k by (rule hmod_Some)
  have "tail \<in> FreeBlocks ?h i"
  proof -
    have "tail \<in> set (list_addrs ?h (Some a, n))"
    proof -
      have ch: "chain (hnext ?h) (Some a) (list_addrs ?h (Some a, n))" "length (list_addrs ?h (Some a, n)) = n"
        using wf_listD [OF bin_rel_mem(1) [OF r]] by simp_all
      have "hop nx p j = Some q \<Longrightarrow> lseg nx (Some p) xs None \<Longrightarrow> q \<in> set xs" for nx p j q xs
        by (induction j arbitrary: p xs) (auto dest!: chain_Some split: option.splits)
      with hop ch show ?thesis by blast
    qed
    then show ?thesis using bin_rel_mem(2) [OF r] by blast
  qed
  then have kf: "bh_magic k = MAGIC_FREE" "bh_binIndex k = of_nat i" using k by (auto simp: FreeBlocks_def)
  have L: "LiveBlocks h' b = LiveBlocks ?h b" for b using k kf h' by (auto simp: LiveBlocks_def)
  have ls: "live_same ?h h'" using k kf h' by (auto simp: live_same_def)
  have "bin_inv h' ?B i (add_mset (Some a, m) (add_mset (hnext ?h tail, n - m) M))"
    using bi sp F L h' by (simp add: bin_inv_def)
  then have "gp_inv t (gp\<lparr>gp_heap := h'\<rparr>) (X(i := add_mset (Some a, m) (add_mset (hnext ?h tail, n - m) M)))"
    using kf by (intro gp_inv_heap [OF inv i k h']) simp_all
  with hop ls z show ?thesis using L unfolding h'_def Let_def
    by (intro exI [of _ tail]) simp
qed

section \<open>The cache operations\<close>

text \<open>
  The lists of all caches as the global layer's invariant sees them: those of the cache at
  hand and the multiset \<open>Y b\<close> of the others.
\<close>

definition cache_ok :: "ThreadBlockCache \<Rightarrow> bool" where
  "cache_ok c \<longleftrightarrow> length (tc_lists c) = 24 \<and> length (tc_acquireCount c) = 24 \<and> length (tc_releaseCount c) = 24"

definition with_cache :: "ThreadBlockCache \<Rightarrow> (nat \<Rightarrow> free_list multiset) \<Rightarrow> nat \<Rightarrow> free_list multiset" where
  "with_cache c Y b = add_mset (tc_lists c ! b) (Y b)"

lemma with_cache_upd:
  assumes "length (tc_lists c) = 24" and "tc_lists c' = (tc_lists c)[i := l]" and "i < 24"
  shows "with_cache c' Y = (with_cache c Y)(i := add_mset l (Y i))"
  using assms by (auto simp: with_cache_def nth_list_update)

lemma cache_ok_upd [simp]:
  "cache_ok (c\<lparr>tc_lists := (tc_lists c)[i := l]\<rparr>) = cache_ok c"
  "cache_ok (c\<lparr>tc_lists := (tc_lists c)[i := l], tc_acquireCount := (tc_acquireCount c)[j := n]\<rparr>) = cache_ok c"
  "cache_ok (c\<lparr>tc_lists := (tc_lists c)[i := l], tc_releaseCount := (tc_releaseCount c)[j := n]\<rparr>) = cache_ok c"
  by (simp_all add: cache_ok_def)

lemma gp_inv_empty_list:
  "gp_inv t gp (X(i := add_mset (None, 0) M)) = gp_inv t gp (X(i := M))"
  by (simp add: gp_inv_def bin_inv_def)

lemma gp_inv_wf: "gp_inv t gp X \<Longrightarrow> b < length (gp_bins gp) \<Longrightarrow> l \<in># X b \<Longrightarrow> wf_list (gp_heap gp) l"
  using gp_inv_bin by (fastforce simp: bin_inv_def bin_rel_def)

lemma wf_list_None: "wf_list h (None, n) \<Longrightarrow> n = 0"
  by (auto simp: wf_list_def)

lemma Refill_inv:
  assumes inv: "gp_inv t gp (with_cache c Y)" and i: "bin < length (gp_bins gp)" and c: "cache_ok c"
    and e: "fst (tc_lists c ! bin) = None" and R: "Refill os t bin (c, gp) = (ok, c', gp')"
  shows "gp_inv t gp' (with_cache c' Y)" and "gp_frame gp gp'" and "cache_ok c'"
    and "ok \<Longrightarrow> fst (tc_lists c' ! bin) \<noteq> None"
    and "tc_acquireCount c' = tc_acquireCount c" and "tc_releaseCount c' = tc_releaseCount c"
    and "tc_threadId c' = tc_threadId c" and "\<not> ok \<Longrightarrow> c' = c"
proof -
  have b24: "bin < 24" using gp_inv_bins [OF inv i] .
  have lc: "length (tc_lists c) = 24" using c by (simp add: cache_ok_def)
  obtain n0 where l: "tc_lists c ! bin = (None, n0)" using e by (cases "tc_lists c ! bin") auto
  have "tc_lists c ! bin \<in># with_cache c Y bin" by (simp add: with_cache_def)
  then have "n0 = 0" using gp_inv_wf [OF inv i] l by (metis wf_list_None)
  then have x: "with_cache c Y bin = add_mset (None, 0) (Y bin)" using l by (simp add: with_cache_def)
  obtain p n g where P: "PopChunk os t bin gp = ((p, n), g)" by (metis prod.exhaust_sel)
  note pi = PopChunk_inv [OF inv i P]
  show "gp_frame gp gp'" using R P pi(1) by (auto simp: Refill_def split: if_splits)
  show "cache_ok c'" using R P c by (auto simp: Refill_def split: if_splits)
  show "tc_acquireCount c' = tc_acquireCount c" "tc_releaseCount c' = tc_releaseCount c"
    "tc_threadId c' = tc_threadId c" "\<not> ok \<Longrightarrow> c' = c"
    using R P by (auto simp: Refill_def split: if_splits)
  show "ok \<Longrightarrow> fst (tc_lists c' ! bin) \<noteq> None"
    using R P lc b24 by (auto simp: Refill_def split: if_splits)
  show "gp_inv t gp' (with_cache c' Y)"
  proof (cases "p = None")
    case True
    then show ?thesis using R P pi(2) by (auto simp: Refill_def)
  next
    case False
    then have c': "c' = c\<lparr>tc_lists := (tc_lists c)[bin := (p, n)]\<rparr>" and g: "gp' = g"
      using R P by (auto simp: Refill_def)
    have "with_cache c' Y = (with_cache c Y)(bin := add_mset (p, n) (Y bin))"
      using lc b24 c' by (intro with_cache_upd) simp_all
    moreover have "gp_inv t g ((with_cache c Y)(bin := add_mset (p, n) (add_mset (None, 0) (Y bin))))"
      using pi(3) False x by simp
    then have "gp_inv t g ((with_cache c Y)(bin := add_mset (p, n) (Y bin)))"
      by (subst (asm) add_mset_commute) (simp only: gp_inv_empty_list)
    ultimately show ?thesis using g by simp
  qed
qed

text \<open>
  \<open>Pop\<close> followed by the marking in \<open>Acquire\<close>: either nothing was available and the caches are
  unchanged, or a free block of the bin left the cache and is live now.
\<close>

lemma Pop_inv:
  assumes inv: "gp_inv t gp (with_cache c Y)" and i: "bin < length (gp_bins gp)" and c: "cache_ok c"
    and P: "Pop os t bin (c, gp) = (r, c', gp')"
  shows "cache_ok c'" and "tc_threadId c' = tc_threadId c" and "tc_releaseCount c' = tc_releaseCount c"
    and "gp_frame gp gp'"
    and "r = None \<Longrightarrow> gp_inv t gp' (with_cache c' Y) \<and> tc_acquireCount c' = tc_acquireCount c"
    and "r = Some a \<Longrightarrow>
      (\<exists>k. gp_heap gp' a = Some k \<and> bh_magic k = MAGIC_FREE \<and> bh_binIndex k = of_nat bin) \<and>
      tc_acquireCount c' = (tc_acquireCount c)[bin := tc_acquireCount c ! bin + 1] \<and>
      (let h' = hmod a (\<lambda>k. k\<lparr>bh_magic := MAGIC_LIVE, bh_next := None\<rparr>) (gp_heap gp') in
       gp_inv t (gp'\<lparr>gp_heap := h'\<rparr>) (with_cache c' Y) \<and>
       a \<notin> LiveBlocks (gp_heap gp') bin \<and> LiveBlocks h' bin = insert a (LiveBlocks (gp_heap gp') bin) \<and>
       (\<forall>b. b < length (gp_bins gp) \<longrightarrow> b \<noteq> bin \<longrightarrow> LiveBlocks h' b = LiveBlocks (gp_heap gp') b))"
proof -
  have b24: "bin < 24" using gp_inv_bins [OF inv i] .
  obtain ok c1 g1 where F: "(if fst (tc_lists c ! bin) = None then Refill os t bin (c, gp) else (True, c, gp)) = (ok, c1, g1)"
    by (metis prod_cases3)
  have st: "gp_inv t g1 (with_cache c1 Y) \<and> gp_frame gp g1 \<and> cache_ok c1 \<and>
      tc_acquireCount c1 = tc_acquireCount c \<and> tc_releaseCount c1 = tc_releaseCount c \<and>
      tc_threadId c1 = tc_threadId c \<and> (ok \<longrightarrow> fst (tc_lists c1 ! bin) \<noteq> None)"
  proof (cases "fst (tc_lists c ! bin) = None")
    case True
    with F have "Refill os t bin (c, gp) = (ok, c1, g1)" by simp
    from Refill_inv [OF inv i c True this] show ?thesis by blast
  next
    case False
    with F inv c show ?thesis by auto
  qed
  have lc: "length (tc_lists c1) = 24" using st by (simp add: cache_ok_def)
  have P': "(if \<not> ok then (None, c1, g1)
         else (case tc_lists c1 ! bin of
                 (None, n) \<Rightarrow> (None, c1, g1)
               | (Some header, n) \<Rightarrow>
                   (Some header,
                    c1\<lparr>tc_lists := (tc_lists c1)[bin := (hnext (gp_heap g1) header, n - 1)],
                      tc_acquireCount := (tc_acquireCount c1)[bin := tc_acquireCount c1 ! bin + 1]\<rparr>,
                    g1))) = (r, c', gp')"
    using P unfolding Pop_def fst_conv snd_conv F Let_def prod.case .
  have res: "(r = None \<and> c' = c1 \<and> gp' = g1) \<or> (\<exists>header n. r = Some header \<and> gp' = g1 \<and>
      tc_lists c1 ! bin = (Some header, n) \<and>
      c' = c1\<lparr>tc_lists := (tc_lists c1)[bin := (hnext (gp_heap g1) header, n - 1)],
              tc_acquireCount := (tc_acquireCount c1)[bin := tc_acquireCount c1 ! bin + 1]\<rparr>)"
    using P' by (cases "tc_lists c1 ! bin"; cases "fst (tc_lists c1 ! bin)") (auto split: if_splits)
  then have gp1: "gp' = g1" and "cache_ok c' = cache_ok c1" and "tc_threadId c' = tc_threadId c1"
    and "tc_releaseCount c' = tc_releaseCount c1" by auto
  with st show "cache_ok c'" "tc_threadId c' = tc_threadId c" "tc_releaseCount c' = tc_releaseCount c" "gp_frame gp gp'"
    by simp_all
  show "r = None \<Longrightarrow> gp_inv t gp' (with_cache c' Y) \<and> tc_acquireCount c' = tc_acquireCount c"
    using res st by auto
  assume r: "r = Some a"
  then obtain n where l: "tc_lists c1 ! bin = (Some a, n)" and g': "gp' = g1"
    and c': "c' = c1\<lparr>tc_lists := (tc_lists c1)[bin := (hnext (gp_heap g1) a, n - 1)],
                      tc_acquireCount := (tc_acquireCount c1)[bin := tc_acquireCount c1 ! bin + 1]\<rparr>"
    using res by auto
  have i1: "bin < length (gp_bins g1)" and len: "length (gp_bins g1) = length (gp_bins gp)"
    using st i by (simp_all add: gp_frame_def)
  have x: "with_cache c1 Y bin = add_mset (Some a, n) (Y bin)" using l by (simp add: with_cache_def)
  have inv1: "gp_inv t g1 (with_cache c1 Y)" using st by simp
  have wc: "with_cache c' Y = (with_cache c1 Y)(bin := add_mset (hnext (gp_heap g1) a, n - 1) (Y bin))"
    using lc b24 c' by (intro with_cache_upd) simp_all
  have acq: "tc_acquireCount c' = (tc_acquireCount c)[bin := tc_acquireCount c ! bin + 1]" using c' st by simp
  show "(\<exists>k. gp_heap gp' a = Some k \<and> bh_magic k = MAGIC_FREE \<and> bh_binIndex k = of_nat bin) \<and>
      tc_acquireCount c' = (tc_acquireCount c)[bin := tc_acquireCount c ! bin + 1] \<and>
      (let h' = hmod a (\<lambda>k. k\<lparr>bh_magic := MAGIC_LIVE, bh_next := None\<rparr>) (gp_heap gp') in
       gp_inv t (gp'\<lparr>gp_heap := h'\<rparr>) (with_cache c' Y) \<and>
       a \<notin> LiveBlocks (gp_heap gp') bin \<and> LiveBlocks h' bin = insert a (LiveBlocks (gp_heap gp') bin) \<and>
       (\<forall>b. b < length (gp_bins gp) \<longrightarrow> b \<noteq> bin \<longrightarrow> LiveBlocks h' b = LiveBlocks (gp_heap gp') b))"
    using gp_take [OF inv1 i1 x] acq unfolding wc g' len Let_def by blast
qed

text \<open>The flush of one list: it becomes shorter, its blocks go to the global layer, and nothing is lost.\<close>

lemma flush_loop_inv:
  assumes "gp_inv t gp (X(bin := add_mset l M))" and "bin < length (gp_bins gp)"
    and "flush_loop fuel batch bin all (l, gp) = (l', gp')" and "0 < batch"
  shows "gp_inv t gp' (X(bin := add_mset l' M)) \<and> gp_frame gp gp' \<and>
    (\<forall>b. LiveBlocks (gp_heap gp') b = LiveBlocks (gp_heap gp) b) \<and>
    (all \<longrightarrow> snd l \<le> fuel \<longrightarrow> l' = (None, 0))"
  using assms
proof (induction fuel arbitrary: gp l)
  case 0
  obtain p n where l: "l = (p, n)" by fastforce
  have "wf_list (gp_heap gp) l" using gp_inv_wf [OF 0(1,2)] by simp
  then have "n = 0 \<Longrightarrow> p = None" using l by (auto simp: wf_list_def)
  with 0 l show ?case by auto
next
  case (Suc fuel)
  obtain p n where l: "l = (p, n)" by fastforce
  have wf: "wf_list (gp_heap gp) (p, n)" using gp_inv_wf [OF Suc.prems(1,2), of l] l by simp
  show ?case
  proof (cases p)
    case None
    with wf have "n = 0" by (auto dest: wf_list_None)
    with Suc.prems l None show ?thesis by auto
  next
    case (Some head)
    define take where "take = (if batch > n then n else batch)"
    have "0 < n" using wf Some by (cases n) (auto simp: wf_list_def)
    then have tk: "0 < take" "take \<le> n" using Suc.prems(4) by (auto simp: take_def)
    have x: "(X(bin := add_mset l M)) bin = add_mset (Some head, n) M" using l Some by simp
    obtain tail where hop: "hop (hnext (gp_heap gp)) head (take - 1) = Some tail" and
      cut: "gp_inv t (gp\<lparr>gp_heap := hmod tail (\<lambda>k. k\<lparr>bh_next := None\<rparr>) (gp_heap gp)\<rparr>)
        ((X(bin := add_mset l M))(bin := add_mset (Some head, take) (add_mset (hnext (gp_heap gp) tail, n - take) M)))"
      and L: "\<And>b. LiveBlocks (hmod tail (\<lambda>k. k\<lparr>bh_next := None\<rparr>) (gp_heap gp)) b = LiveBlocks (gp_heap gp) b"
      and ls: "live_same (gp_heap gp) (hmod tail (\<lambda>k. k\<lparr>bh_next := None\<rparr>) (gp_heap gp))"
      and z: "n - take = 0 \<longleftrightarrow> hnext (gp_heap gp) tail = None"
      using gp_cut [OF Suc.prems(1,2) x tk] unfolding Let_def by (elim exE conjE) (rule that, auto)
    define rest where "rest = (hnext (gp_heap gp) tail, n - take)"
    define g1 where "g1 = gp\<lparr>gp_heap := hmod tail (\<lambda>k. k\<lparr>bh_next := None\<rparr>) (gp_heap gp)\<rparr>"
    define g2 where "g2 = PushChunk bin (Some head) take g1"
    have i1: "bin < length (gp_bins g1)" using Suc.prems(2) by (simp add: g1_def)
    have inv1: "gp_inv t g1 (X(bin := add_mset (Some head, take) (add_mset rest M)))"
      using cut by (simp add: g1_def rest_def)
    have x1: "(X(bin := add_mset (Some head, take) (add_mset rest M))) bin = add_mset (Some head, take) (add_mset rest M)"
      by simp
    note pc = PushChunk_inv [OF inv1 i1 x1, folded g2_def]
    have inv2: "gp_inv t g2 (X(bin := add_mset rest M))" using pc(1) by (simp only: fun_upd_upd)
    have fr1: "gp_frame gp g1" using ls by (simp add: g1_def gp_frame_def)
    have fr2: "gp_frame gp g2" using fr1 pc(2) by (rule gp_frame_trans)
    have L2: "LiveBlocks (gp_heap g2) b = LiveBlocks (gp_heap gp) b" for b using pc(3) L by (simp add: g1_def)
    have i2: "bin < length (gp_bins g2)" using fr2 Suc.prems(2) by (simp add: gp_frame_def)
    have E: "(if all \<and> snd rest > 0 then flush_loop fuel batch bin all (rest, g2) else (rest, g2)) = (l', gp')"
      using Suc.prems(3) tk hop unfolding g2_def
      by (simp add: l Some Let_def take_def [symmetric] rest_def [symmetric] g1_def [symmetric])
    show ?thesis
    proof (cases "all \<and> snd rest > 0")
      case True
      then have "flush_loop fuel batch bin all (rest, g2) = (l', gp')" using E by simp
      note ih = Suc.IH [OF inv2 i2 this Suc.prems(4)]
      have "snd l \<le> Suc fuel \<Longrightarrow> snd rest \<le> fuel" using tk l by (simp add: rest_def)
      with ih fr2 L2 show ?thesis by (auto intro: gp_frame_trans)
    next
      case False
      then have e: "l' = rest" "gp' = g2" using E by auto
      have "all \<Longrightarrow> rest = (None, 0)" using False z by (auto simp: rest_def)
      with e inv2 fr2 L2 show ?thesis by (auto simp: fun_upd_def)
    qed
  qed
qed

lemma Flush_inv:
  assumes inv: "gp_inv t gp (with_cache c Y)" and i: "bin < length (gp_bins gp)" and c: "cache_ok c"
    and F: "Flush t bin all (c, gp) = (c', gp')"
  shows "gp_inv t gp' (with_cache c' Y)" and "gp_frame gp gp'" and "cache_ok c'"
    and "LiveBlocks (gp_heap gp') b = LiveBlocks (gp_heap gp) b"
    and "tc_acquireCount c' = tc_acquireCount c" and "tc_releaseCount c' = tc_releaseCount c"
    and "tc_threadId c' = tc_threadId c"
    and "all \<Longrightarrow> tc_lists c' = (tc_lists c)[bin := (None, 0)]"
proof -
  have b24: "bin < 24" using gp_inv_bins [OF inv i] .
  have lc: "length (tc_lists c) = 24" using c by (simp add: cache_ok_def)
  let ?l = "tc_lists c ! bin"
  have bt: "0 < unat (bs_batchBlocks (bt_specs t ! bin))"
    using table_okD(2) inv i by (simp add: gp_inv_def)
  have wc: "with_cache c Y = (with_cache c Y)(bin := add_mset ?l (Y bin))" by (auto simp: with_cache_def)
  have wf: "wf_list (gp_heap gp) ?l" using gp_inv_wf [OF inv i] by (simp add: with_cache_def)
  have "gp_inv t gp' (with_cache c' Y) \<and> gp_frame gp gp' \<and> cache_ok c' \<and>
    LiveBlocks (gp_heap gp') b = LiveBlocks (gp_heap gp) b \<and>
    tc_acquireCount c' = tc_acquireCount c \<and> tc_releaseCount c' = tc_releaseCount c \<and>
    tc_threadId c' = tc_threadId c \<and> (all \<longrightarrow> tc_lists c' = (tc_lists c)[bin := (None, 0)])"
  proof (cases "snd ?l = 0 \<or> fst ?l = None")
    case True
    then have e: "c' = c" "gp' = gp" using F by (auto simp: Flush_def Let_def)
    have "?l = (None, 0)" using wf True by (cases ?l) (auto simp: wf_list_def)
    then have "tc_lists c = (tc_lists c)[bin := (None, 0)]" by (metis list_update_id)
    with e inv c show ?thesis by simp
  next
    case False
    obtain l' g' where L: "flush_loop (snd ?l) (unat (bs_batchBlocks (bt_specs t ! bin))) bin all (?l, gp) = (l', g')"
      by fastforce
    have c': "c' = c\<lparr>tc_lists := (tc_lists c)[bin := l']\<rparr>" "gp' = g'" using F False L by (auto simp: Flush_def Let_def)
    have inv2: "gp_inv t gp ((with_cache c Y)(bin := add_mset ?l (Y bin)))" using inv wc by simp
    note fl = flush_loop_inv [OF inv2 i L bt]
    have w2: "with_cache c' Y = (with_cache c Y)(bin := add_mset l' (Y bin))"
      using lc b24 c' by (intro with_cache_upd) simp_all
    have "gp_inv t gp' (with_cache c' Y)" unfolding w2 using fl c' by (simp only:)
    with fl c' c show ?thesis by simp
  qed
  then show "gp_inv t gp' (with_cache c' Y)" "gp_frame gp gp'" "cache_ok c'"
    "LiveBlocks (gp_heap gp') b = LiveBlocks (gp_heap gp) b"
    "tc_acquireCount c' = tc_acquireCount c" "tc_releaseCount c' = tc_releaseCount c"
    "tc_threadId c' = tc_threadId c" "all \<Longrightarrow> tc_lists c' = (tc_lists c)[bin := (None, 0)]" by blast+
qed

lemma FlushAll_inv_aux:
  assumes "gp_inv t gp (with_cache c Y)" and "cache_ok c" and "n \<le> length (gp_bins gp)"
    and "fold (\<lambda>bin. Flush t bin True) [0..<n] (c, gp) = (c', gp')"
  shows "gp_inv t gp' (with_cache c' Y) \<and> gp_frame gp gp' \<and> cache_ok c' \<and>
    (\<forall>b. LiveBlocks (gp_heap gp') b = LiveBlocks (gp_heap gp) b) \<and>
    tc_acquireCount c' = tc_acquireCount c \<and> tc_releaseCount c' = tc_releaseCount c \<and>
    (\<forall>b < n. tc_lists c' ! b = (None, 0))"
  using assms
proof (induction n arbitrary: c' gp')
  case 0
  then show ?case by simp
next
  case (Suc n)
  obtain c1 g1 where F: "fold (\<lambda>bin. Flush t bin True) [0..<n] (c, gp) = (c1, g1)" by fastforce
  have FN: "Flush t n True (c1, g1) = (c', gp')" using Suc.prems(4) F by simp
  have ih: "gp_inv t g1 (with_cache c1 Y)" "gp_frame gp g1" "cache_ok c1"
    "\<And>b. LiveBlocks (gp_heap g1) b = LiveBlocks (gp_heap gp) b"
    "tc_acquireCount c1 = tc_acquireCount c" "tc_releaseCount c1 = tc_releaseCount c"
    "\<And>b. b < n \<Longrightarrow> tc_lists c1 ! b = (None, 0)"
    using Suc.IH [OF Suc.prems(1,2) _ F] Suc.prems(3) by simp_all
  have n1: "n < length (gp_bins g1)" using ih(2) Suc.prems(3) by (simp add: gp_frame_def)
  note fl = Flush_inv [OF ih(1) n1 ih(3) FN]
  have "n < 24" using gp_inv_bins [OF ih(1) n1] .
  then have "\<forall>b < Suc n. tc_lists c' ! b = (None, 0)"
    using fl(8) ih(3,7) by (auto simp: nth_list_update less_Suc_eq cache_ok_def)
  moreover have "gp_frame gp gp'" using ih(2) fl(2) by (rule gp_frame_trans)
  ultimately show ?case using fl ih by simp
qed

text \<open>After \<open>FlushAll\<close> the cache is empty in every bin of the table: it can be dropped.\<close>

lemma FlushAll_inv:
  assumes inv: "gp_inv t gp (with_cache c Y)" and c: "cache_ok c"
    and F: "FlushAll t (c, gp) = (c', gp')"
  shows "gp_inv t gp' Y" and "gp_frame gp gp'"
    and "LiveBlocks (gp_heap gp') b = LiveBlocks (gp_heap gp) b"
    and "tc_acquireCount c' = tc_acquireCount c" and "tc_releaseCount c' = tc_releaseCount c"
proof -
  have n: "unat (bt_binCount t) \<le> length (gp_bins gp)" using inv by (simp add: gp_inv_def)
  note fa = FlushAll_inv_aux [OF inv c n F [unfolded FlushAll_def]]
  show "gp_frame gp gp'" "LiveBlocks (gp_heap gp') b = LiveBlocks (gp_heap gp) b"
    "tc_acquireCount c' = tc_acquireCount c" "tc_releaseCount c' = tc_releaseCount c"
    using fa by simp_all
  have "length (gp_bins gp') = unat (bt_binCount t)" using fa by (simp add: gp_inv_def)
  with fa have "with_cache c' Y b = add_mset (None, 0) (Y b)" if "b < length (gp_bins gp')" for b
    using that by (simp add: with_cache_def)
  moreover have "gp_inv t gp' (with_cache c' Y)" using fa by simp
  ultimately show "gp_inv t gp' Y" by (simp add: gp_inv_def bin_inv_def)
qed

text \<open>
  \<open>Push\<close> of a block that \<open>Release\<close> has marked free: it ends on this thread's list, and a list
  above its bound gives one batch back.
\<close>

lemma Push_inv:
  assumes inv: "gp_inv t gp (with_cache c Y)" and i: "bin < length (gp_bins gp)" and c: "cache_ok c"
    and k: "gp_heap gp a = Some k" "bh_magic k = MAGIC_LIVE" "bh_binIndex k = of_nat bin"
    and P: "Push t bin a (c, gp\<lparr>gp_heap := hmod a (\<lambda>k. k\<lparr>bh_magic := MAGIC_FREE\<rparr>) (gp_heap gp)\<rparr>) = (c', gp')"
  shows "gp_inv t gp' (with_cache c' Y)" and "cache_ok c'" and "tc_threadId c' = tc_threadId c"
    and "tc_acquireCount c' = tc_acquireCount c"
    and "tc_releaseCount c' = (tc_releaseCount c)[bin := tc_releaseCount c ! bin + 1]"
    and "a \<in> LiveBlocks (gp_heap gp) bin" and "LiveBlocks (gp_heap gp') bin = LiveBlocks (gp_heap gp) bin - {a}"
    and "\<And>b. b < length (gp_bins gp) \<Longrightarrow> b \<noteq> bin \<Longrightarrow> LiveBlocks (gp_heap gp') b = LiveBlocks (gp_heap gp) b"
    and "gp_raw gp' = gp_raw gp" and "length (gp_bins gp') = length (gp_bins gp)"
    and "gp_ownerTag gp' = gp_ownerTag gp" and "gp_initialized gp' = gp_initialized gp"
    and "live_same (hmod a (\<lambda>k. k\<lparr>bh_magic := MAGIC_FREE\<rparr>) (gp_heap gp)) (gp_heap gp')"
proof -
  have b24: "bin < 24" using gp_inv_bins [OF inv i] .
  have lc: "length (tc_lists c) = 24" using c by (simp add: cache_ok_def)
  obtain p n where l: "tc_lists c ! bin = (p, n)" by fastforce
  have x: "with_cache c Y bin = add_mset (p, n) (Y bin)" using l by (simp add: with_cache_def)
  define h1 where "h1 = hmod a (\<lambda>k. k\<lparr>bh_magic := MAGIC_FREE, bh_next := p\<rparr>) (gp_heap gp)"
  note gv = gp_give [OF inv i x k h1_def]
  define c1 where "c1 = c\<lparr>tc_lists := (tc_lists c)[bin := (Some a, n + 1)],
                 tc_releaseCount := (tc_releaseCount c)[bin := tc_releaseCount c ! bin + 1]\<rparr>"
  define g1 where "g1 = gp\<lparr>gp_heap := h1\<rparr>"
  have hh: "hmod a (\<lambda>k. k\<lparr>bh_next := p\<rparr>) (hmod a (\<lambda>k. k\<lparr>bh_magic := MAGIC_FREE\<rparr>) (gp_heap gp)) = h1"
    by (simp add: hmod_hmod h1_def o_def)
  have E: "(if n + 1 > unat (bs_cacheCapBlocks (bt_specs t ! bin)) then Flush t bin False (c1, g1) else (c1, g1)) = (c', gp')"
    using P by (simp add: Push_def Let_def l hh c1_def g1_def cong: if_cong)
  have w1: "with_cache c1 Y = (with_cache c Y)(bin := add_mset (Some a, Suc n) (Y bin))"
    using lc b24 by (intro with_cache_upd) (simp_all add: c1_def)
  have inv1: "gp_inv t g1 (with_cache c1 Y)" unfolding w1 g1_def by (rule gv(1))
  have c1ok: "cache_ok c1" using c by (simp add: c1_def cache_ok_def)
  have i1: "bin < length (gp_bins g1)" using i by (simp add: g1_def)
  have r: "gp_inv t gp' (with_cache c' Y) \<and> gp_frame g1 gp' \<and> cache_ok c' \<and>
      (\<forall>b. LiveBlocks (gp_heap gp') b = LiveBlocks (gp_heap g1) b) \<and>
      tc_acquireCount c' = tc_acquireCount c1 \<and> tc_releaseCount c' = tc_releaseCount c1 \<and>
      tc_threadId c' = tc_threadId c1"
  proof (cases "n + 1 > unat (bs_cacheCapBlocks (bt_specs t ! bin))")
    case True
    then have "Flush t bin False (c1, g1) = (c', gp')" using E by simp
    from Flush_inv [OF inv1 i1 c1ok this] show ?thesis by blast
  next
    case False
    with E inv1 c1ok show ?thesis by auto
  qed
  have hn: "live_same (hmod a (\<lambda>k. k\<lparr>bh_magic := MAGIC_FREE\<rparr>) (gp_heap gp)) h1"
    using k by (auto simp: live_same_def h1_def hmod_def split: if_splits)
  show "gp_inv t gp' (with_cache c' Y)" "cache_ok c'" using r by simp_all
  show "tc_threadId c' = tc_threadId c" "tc_acquireCount c' = tc_acquireCount c"
    "tc_releaseCount c' = (tc_releaseCount c)[bin := tc_releaseCount c ! bin + 1]"
    using r by (simp_all add: c1_def)
  show "a \<in> LiveBlocks (gp_heap gp) bin" by (rule gv(2))
  show "LiveBlocks (gp_heap gp') bin = LiveBlocks (gp_heap gp) bin - {a}" using r gv(3) by (simp add: g1_def)
  show "LiveBlocks (gp_heap gp') b = LiveBlocks (gp_heap gp) b" if "b < length (gp_bins gp)" "b \<noteq> bin" for b
    using r gv(4) that by (simp add: g1_def)
  show "gp_raw gp' = gp_raw gp" "length (gp_bins gp') = length (gp_bins gp)" "gp_ownerTag gp' = gp_ownerTag gp"
    "gp_initialized gp' = gp_initialized gp"
    using r by (simp_all add: gp_frame_def g1_def)
  show "live_same (hmod a (\<lambda>k. k\<lparr>bh_magic := MAGIC_FREE\<rparr>) (gp_heap gp)) (gp_heap gp')"
    using hn r by (auto simp: gp_frame_def g1_def intro: live_same_trans)
qed

section \<open>The invariant of the pool\<close>

definition cached_lists :: "ThreadBlockCache list \<Rightarrow> nat \<Rightarrow> free_list multiset" where
  "cached_lists cs b = mset (map (\<lambda>c. tc_lists c ! b) cs)"

definition BypassBlocks :: "heap \<Rightarrow> addr set" where
  "BypassBlocks h = {a. \<exists>k. h a = Some k \<and> bh_magic k = MAGIC_LIVE \<and> bh_binIndex k = BIN_BYPASS}"

text \<open>Every bypass block lies in the raw region its link names, and no two share one.\<close>

definition bypass_ok :: "heap \<Rightarrow> (addr \<times> nat) list \<Rightarrow> bool" where
  "bypass_ok h raw \<longleftrightarrow> finite (BypassBlocks h) \<and>
     (\<forall>a \<in> BypassBlocks h. \<exists>r n. hnext h a = Some r \<and> (r, n) \<in> set raw \<and> r \<le> a \<and> a < r + n) \<and>
     inj_on (hnext h) (BypassBlocks h) \<and> (\<forall>(r, n) \<in> set raw. 0 < n)"

definition pool_inv :: "TlsMemoryPool \<Rightarrow> bool" where
  "pool_inv s \<longleftrightarrow>
     tp_initialized s \<and>
     gp_inv (tp_table s) (tp_global s) (cached_lists (tp_caches s)) \<and>
     gp_ownerTag (tp_global s) = OwnerTag (tp_slot s) \<and>
     (\<forall>c \<in> set (tp_caches s). cache_ok c) \<and> distinct (map tc_threadId (tp_caches s)) \<and>
     length (tp_retiredAcquire s) = 24 \<and> length (tp_retiredRelease s) = 24 \<and>
     (\<forall>b < unat (bt_binCount (tp_table s)).
        SumAcquire s b = SumRelease s b + card (LiveBlocks (gp_heap (tp_global s)) b)) \<and>
     bypass_ok (gp_heap (tp_global s)) (gp_raw (tp_global s)) \<and>
     tp_bypassAcquire s = tp_bypassRelease s + card (BypassBlocks (gp_heap (tp_global s)))"

text \<open>The headers of all live blocks, and the payloads that are handed out.\<close>

definition LiveAll :: "heap \<Rightarrow> addr set" where
  "LiveAll h = {a. \<exists>k. h a = Some k \<and> bh_magic k = MAGIC_LIVE}"

definition payloads :: "TlsMemoryPool \<Rightarrow> addr set" where
  "payloads s = (\<lambda>a. PayloadOf a (bt_headerSize (tp_table s))) ` LiveAll (gp_heap (tp_global s))"

lemma live_same_LiveAll: "live_same h h' \<Longrightarrow> LiveAll h' = LiveAll h"
  by (auto simp: live_same_def LiveAll_def)

lemma live_same_Bypass: "live_same h h' \<Longrightarrow> BypassBlocks h' = BypassBlocks h"
  by (auto simp: live_same_def BypassBlocks_def)

lemma live_same_hnext:
  assumes "live_same h h'" and "a \<in> LiveAll h"
  shows "hnext h' a = hnext h a"
proof -
  obtain k where "h a = Some k" "bh_magic k = MAGIC_LIVE" using assms(2) by (auto simp: LiveAll_def)
  moreover then have "h' a = Some k" using assms(1) by (simp add: live_same_def)
  ultimately show ?thesis by (simp add: hnext_def)
qed

lemma Bypass_Live: "a \<in> BypassBlocks h \<Longrightarrow> a \<in> LiveAll h"
  by (auto simp: BypassBlocks_def LiveAll_def)

lemma bypass_ok_live_same:
  assumes "live_same h h'" and "bypass_ok h raw"
  shows "bypass_ok h' raw"
proof -
  have n: "hnext h' a = hnext h a" if "a \<in> BypassBlocks h" for a
    using live_same_hnext [OF assms(1) Bypass_Live [OF that]] .
  then have "inj_on (hnext h') (BypassBlocks h) = inj_on (hnext h) (BypassBlocks h)" by (rule inj_on_cong)
  with assms(2) n show ?thesis by (simp add: bypass_ok_def live_same_Bypass [OF assms(1)])
qed

lemma PayloadOf_inj [simp]: "PayloadOf a n = PayloadOf b n \<longleftrightarrow> a = b"
  by (simp add: PayloadOf_def)

lemma HeaderOf_PayloadOf [simp]: "HeaderOf (PayloadOf a n) n = a"
  by (simp add: HeaderOf_def PayloadOf_def)

text \<open>Reading the invariant at one cache.\<close>

definition other_lists :: "nat \<Rightarrow> ThreadBlockCache list \<Rightarrow> nat \<Rightarrow> free_list multiset" where
  "other_lists i cs = cached_lists (take i cs @ drop (Suc i) cs)"

lemma cached_lists_split:
  assumes "i < length cs"
  shows "cached_lists cs = with_cache (cs ! i) (other_lists i cs)"
    and "cached_lists (cs[i := c]) = with_cache c (other_lists i cs)"
proof -
  have "cs = take i cs @ cs ! i # drop (Suc i) cs" using assms by (rule id_take_nth_drop)
  then have "cached_lists cs b = cached_lists (take i cs @ cs ! i # drop (Suc i) cs) b" for b by simp
  then show "cached_lists cs = with_cache (cs ! i) (other_lists i cs)"
    by (intro ext) (simp add: cached_lists_def with_cache_def other_lists_def)
  have "cs[i := c] = take i cs @ c # drop (Suc i) cs" using assms by (rule upd_conv_take_nth_drop)
  then show "cached_lists (cs[i := c]) = with_cache c (other_lists i cs)"
    by (intro ext) (simp add: cached_lists_def with_cache_def other_lists_def)
qed

lemma sum_list_map_update': "i < length xs \<Longrightarrow> f y = f (xs ! i) + d \<Longrightarrow> sum_list (map f (xs[i := y])) = sum_list (map f xs) + (d::nat)"
  using sum_list_map_update [of i xs f y] by simp

lemma distinct_map_update: "i < length xs \<Longrightarrow> f y = f (xs ! i) \<Longrightarrow> map f (xs[i := y]) = map f xs"
  by (simp add: map_update_same)

subsection \<open>Finding the cache\<close>

lemma GetOrCreate_cases:
  assumes "GetOrCreate al tid s = (r, s')"
  shows "(r = None \<and> s' = s) \<or>
    (\<exists>i. r = Some i \<and> s' = s \<and> i < length (tp_caches s)) \<or>
    (r = Some 0 \<and> s' = s\<lparr>tp_caches := new_cache tid # tp_caches s\<rparr> \<and> tid \<notin> set (map tc_threadId (tp_caches s)))"
proof (cases "cache_index tid (tp_caches s)")
  case None
  then have "\<forall>i < length (tp_caches s). tc_threadId (tp_caches s ! i) \<noteq> tid"
    by (auto simp: cache_index_def find_None_iff)
  then have "tid \<notin> set (map tc_threadId (tp_caches s))" by (auto simp: in_set_conv_nth)
  with None assms show ?thesis by (auto simp: GetOrCreate_def split: if_splits)
next
  case (Some i)
  then have "i < length (tp_caches s)" by (auto simp: cache_index_def find_Some_iff)
  with Some assms show ?thesis by (auto simp: GetOrCreate_def)
qed

lemma GetOrCreate_global:
  "GetOrCreate al tid (s\<lparr>tp_global := g\<rparr>) = (case GetOrCreate al tid s of (r, s') \<Rightarrow> (r, s'\<lparr>tp_global := g\<rparr>))"
  by (simp add: GetOrCreate_def split: option.split)

lemma new_cache_sels [simp]:
  "cache_ok (new_cache tid)" "tc_threadId (new_cache tid) = tid"
  "b < 24 \<Longrightarrow> tc_lists (new_cache tid) ! b = (None, 0)"
  "b < 24 \<Longrightarrow> tc_acquireCount (new_cache tid) ! b = 0" "b < 24 \<Longrightarrow> tc_releaseCount (new_cache tid) ! b = 0"
  by (simp_all add: new_cache_def cache_ok_def)

lemma binCount_24: "gp_inv t gp X \<Longrightarrow> unat (bt_binCount t) \<le> 24"
  by (auto simp: gp_inv_def table_ok_def table_shape_def)

lemma pool_inv_new_cache:
  assumes inv: "pool_inv s" and tid: "tid \<notin> set (map tc_threadId (tp_caches s))"
  shows "pool_inv (s\<lparr>tp_caches := new_cache tid # tp_caches s\<rparr>)"
proof -
  have g: "gp_inv (tp_table s) (tp_global s) (cached_lists (tp_caches s))" using inv by (simp add: pool_inv_def)
  have n: "unat (bt_binCount (tp_table s)) \<le> 24" using binCount_24 [OF g] .
  have "gp_inv (tp_table s) (tp_global s) (cached_lists (new_cache tid # tp_caches s))"
    using g n by (auto simp: gp_inv_def bin_inv_def cached_lists_def)
  moreover have "SumAcquire (s\<lparr>tp_caches := new_cache tid # tp_caches s\<rparr>) b = SumAcquire s b"
    "SumRelease (s\<lparr>tp_caches := new_cache tid # tp_caches s\<rparr>) b = SumRelease s b"
    if "b < unat (bt_binCount (tp_table s))" for b
    using that n by (simp_all add: SumAcquire_def SumRelease_def)
  ultimately show ?thesis using inv tid by (auto simp: pool_inv_def)
qed

lemma GetOrCreate_inv:
  assumes "pool_inv s" and "GetOrCreate al tid s = (r, s')"
  shows "pool_inv s'" and "tp_global s' = tp_global s" and "tp_table s' = tp_table s"
    and "r = Some i \<Longrightarrow> i < length (tp_caches s')"
    and "tp_slot s' = tp_slot s" and "tp_corruptions s' = tp_corruptions s" and "tp_violations s' = tp_violations s"
  using GetOrCreate_cases [OF assms(2)] assms(1) pool_inv_new_cache by auto

text \<open>The step rule of the pool: one cache and the global layer change together.\<close>

lemma pool_inv_step:
  assumes inv: "pool_inv s" and i: "i < length (tp_caches s)"
    and s': "s' = s\<lparr>tp_caches := (tp_caches s)[i := c'], tp_global := gp'\<rparr>"
    and g: "gp_inv (tp_table s) gp' (with_cache c' (other_lists i (tp_caches s)))"
    and tag: "gp_ownerTag gp' = gp_ownerTag (tp_global s)" and c': "cache_ok c'"
    and tid: "tc_threadId c' = tc_threadId (tp_caches s ! i)"
    and acc: "\<And>b. b < unat (bt_binCount (tp_table s)) \<Longrightarrow>
        tc_acquireCount c' ! b + tc_releaseCount (tp_caches s ! i) ! b + card (LiveBlocks (gp_heap (tp_global s)) b) =
        tc_acquireCount (tp_caches s ! i) ! b + tc_releaseCount c' ! b + card (LiveBlocks (gp_heap gp') b)"
    and bp: "bypass_ok (gp_heap gp') (gp_raw gp')" "BypassBlocks (gp_heap gp') = BypassBlocks (gp_heap (tp_global s))"
  shows "pool_inv s'"
proof -
  have "cached_lists (tp_caches s') = with_cache c' (other_lists i (tp_caches s))"
    using cached_lists_split(2) [OF i] s' by simp
  then have "gp_inv (tp_table s') (tp_global s') (cached_lists (tp_caches s'))" using g s' by simp
  moreover have "map tc_threadId (tp_caches s') = map tc_threadId (tp_caches s)"
    using s' tid by (simp add: map_update_same)
  moreover have "\<forall>c \<in> set (tp_caches s'). cache_ok c"
    using inv c' s' set_update_subset_insert [of "tp_caches s" i c'] by (auto simp: pool_inv_def)
  moreover have "SumAcquire s' b = SumRelease s' b + card (LiveBlocks (gp_heap (tp_global s')) b)"
    if b: "b < unat (bt_binCount (tp_table s))" for b
  proof -
    have "SumAcquire s' b + tc_acquireCount (tp_caches s ! i) ! b = SumAcquire s b + tc_acquireCount c' ! b"
      using sum_list_map_update [OF i, of "\<lambda>c. tc_acquireCount c ! b" c'] s' by (simp add: SumAcquire_def)
    moreover have "SumRelease s' b + tc_releaseCount (tp_caches s ! i) ! b = SumRelease s b + tc_releaseCount c' ! b"
      using sum_list_map_update [OF i, of "\<lambda>c. tc_releaseCount c ! b" c'] s' by (simp add: SumRelease_def)
    moreover have "SumAcquire s b = SumRelease s b + card (LiveBlocks (gp_heap (tp_global s)) b)"
      using inv b by (simp add: pool_inv_def)
    moreover have "tp_global s' = gp'" using s' by simp
    ultimately show ?thesis using acc [OF b] by simp
  qed
  ultimately show ?thesis using inv s' tag bp by (simp add: pool_inv_def)
qed

lemma nth_list_update_cases: "i < length xs \<Longrightarrow> xs[i := y] ! j = (if i = j then y else xs ! j)"
  by (simp add: nth_list_update)

lemma LiveAll_take:
  assumes "h a = Some k" and "bh_magic k = MAGIC_FREE"
  shows "a \<notin> LiveAll h" and "LiveAll (hmod a (\<lambda>k. k\<lparr>bh_magic := MAGIC_LIVE, bh_next := None\<rparr>) h) = insert a (LiveAll h)"
  using assms by (auto simp: LiveAll_def hmod_def)

lemma bypass_hmod:
  assumes "h a = Some k" and "bh_binIndex k \<noteq> BIN_BYPASS" and "\<And>k. bh_binIndex (f k) = bh_binIndex k"
  shows "BypassBlocks (hmod a f h) = BypassBlocks h" and "bypass_ok (hmod a f h) raw = bypass_ok h raw"
proof -
  have B: "BypassBlocks (hmod a f h) = BypassBlocks h" using assms by (auto simp: BypassBlocks_def hmod_def)
  then show "BypassBlocks (hmod a f h) = BypassBlocks h" .
  have n: "hnext (hmod a f h) x = hnext h x" if "x \<in> BypassBlocks h" for x
    using that assms by (auto simp: hnext_def hmod_def BypassBlocks_def)
  then have "inj_on (hnext (hmod a f h)) (BypassBlocks h) = inj_on (hnext h) (BypassBlocks h)" by (rule inj_on_cong)
  with n B show "bypass_ok (hmod a f h) raw = bypass_ok h raw" by (simp add: bypass_ok_def)
qed

lemma pool_inv_gp: "pool_inv s \<Longrightarrow> gp_inv (tp_table s) (tp_global s) (cached_lists (tp_caches s))"
  by (simp add: pool_inv_def)

text \<open>Serving a request from a bin.\<close>

lemma Acquire_pooled:
  assumes inv: "pool_inv s" and i: "i < length (tp_caches s)" and b: "bin < unat (bt_binCount (tp_table s))"
    and P: "Pop os (tp_table s) bin (tp_caches s ! i, tp_global s) = (r, c, gp)"
  shows "r = None \<Longrightarrow> pool_inv (s\<lparr>tp_caches := (tp_caches s)[i := c], tp_global := gp\<rparr>) \<and>
      LiveAll (gp_heap gp) = LiveAll (gp_heap (tp_global s))"
    and "r = Some a \<Longrightarrow>
      (\<exists>k. gp_heap gp a = Some k \<and> bh_magic k = MAGIC_FREE \<and> bh_binIndex k = of_nat bin) \<and>
      (let h' = hmod a (\<lambda>k. k\<lparr>bh_magic := MAGIC_LIVE, bh_next := None\<rparr>) (gp_heap gp) in
       pool_inv (s\<lparr>tp_caches := (tp_caches s)[i := c], tp_global := gp\<lparr>gp_heap := h'\<rparr>\<rparr>) \<and>
       a \<notin> LiveAll (gp_heap (tp_global s)) \<and> LiveAll h' = insert a (LiveAll (gp_heap (tp_global s))))"
proof -
  let ?Y = "other_lists i (tp_caches s)" and ?gp = "tp_global s"
  have g: "gp_inv (tp_table s) ?gp (with_cache (tp_caches s ! i) ?Y)"
    using pool_inv_gp [OF inv] cached_lists_split(1) [OF i] by simp
  have lb: "length (gp_bins ?gp) = unat (bt_binCount (tp_table s))" using g by (simp add: gp_inv_def)
  then have bi: "bin < length (gp_bins ?gp)" using b by simp
  have b24: "bin < 24" using gp_inv_bins [OF g bi] .
  have ck: "cache_ok (tp_caches s ! i)" using inv i by (simp add: pool_inv_def)
  note pi = Pop_inv [OF g bi ck P]
  have fr: "live_same (gp_heap ?gp) (gp_heap gp)" "gp_raw gp = gp_raw ?gp" "gp_ownerTag gp = gp_ownerTag ?gp"
    using pi(4) by (simp_all add: gp_frame_def)
  have bp: "bypass_ok (gp_heap gp) (gp_raw gp)" "BypassBlocks (gp_heap gp) = BypassBlocks (gp_heap ?gp)"
    using bypass_ok_live_same [OF fr(1), of "gp_raw ?gp"] inv live_same_Bypass [OF fr(1)] fr(2)
    by (simp_all add: pool_inv_def)
  note LA = live_same_LiveAll [OF fr(1)] and LB = live_same_LiveBlocks [OF fr(1)]
  { assume r: "r = None"
    note p5 = pi(5) [OF r]
    have "pool_inv (s\<lparr>tp_caches := (tp_caches s)[i := c], tp_global := gp\<rparr>)"
      by (rule pool_inv_step [OF inv i refl _ fr(3) pi(1,2) _ bp]) (simp_all add: p5 pi(3) LB)
    with LA show "pool_inv (s\<lparr>tp_caches := (tp_caches s)[i := c], tp_global := gp\<rparr>) \<and>
      LiveAll (gp_heap gp) = LiveAll (gp_heap (tp_global s))" by simp }
  { assume r: "r = Some a"
    define h' where "h' = hmod a (\<lambda>k. k\<lparr>bh_magic := MAGIC_LIVE, bh_next := None\<rparr>) (gp_heap gp)"
    note p6 = pi(6) [OF r, unfolded Let_def, folded h'_def]
    from p6 obtain k where k: "gp_heap gp a = Some k" "bh_magic k = MAGIC_FREE" "bh_binIndex k = of_nat bin" by blast
    have nb: "bh_binIndex k \<noteq> BIN_BYPASS" using k(3) BYPASS_not_bin [of bin] b24 by simp
    have la: "length (tc_acquireCount (tp_caches s ! i)) = 24" using ck by (simp add: cache_ok_def)
    have g2: "gp_inv (tp_table s) (gp\<lparr>gp_heap := h'\<rparr>) (with_cache c ?Y)" using p6 by blast
    have fin: "finite (LiveBlocks (gp_heap gp) bin)"
      using gp_inv_bin [OF g bi] LB by (simp add: bin_inv_def)
    have L1: "card (LiveBlocks h' bin) = Suc (card (LiveBlocks (gp_heap gp) bin))" using p6 fin by simp
    have L2: "LiveBlocks h' b = LiveBlocks (gp_heap gp) b" if "b < unat (bt_binCount (tp_table s))" "b \<noteq> bin" for b
      using p6 that lb by simp
    have acq: "tc_acquireCount c = (tc_acquireCount (tp_caches s ! i))[bin := tc_acquireCount (tp_caches s ! i) ! bin + 1]"
      using p6 by simp
    have "pool_inv (s\<lparr>tp_caches := (tp_caches s)[i := c], tp_global := gp\<lparr>gp_heap := h'\<rparr>\<rparr>)"
    proof (rule pool_inv_step [OF inv i refl g2 _ pi(1,2)])
      show "gp_ownerTag (gp\<lparr>gp_heap := h'\<rparr>) = gp_ownerTag (tp_global s)" using fr by simp
      show "bypass_ok (gp_heap (gp\<lparr>gp_heap := h'\<rparr>)) (gp_raw (gp\<lparr>gp_heap := h'\<rparr>))"
        "BypassBlocks (gp_heap (gp\<lparr>gp_heap := h'\<rparr>)) = BypassBlocks (gp_heap (tp_global s))"
        using bypass_hmod [where h = "gp_heap gp", OF k(1) nb] bp by (simp_all add: h'_def)
      show "tc_acquireCount c ! b + tc_releaseCount (tp_caches s ! i) ! b + card (LiveBlocks (gp_heap (tp_global s)) b) =
        tc_acquireCount (tp_caches s ! i) ! b + tc_releaseCount c ! b + card (LiveBlocks (gp_heap (gp\<lparr>gp_heap := h'\<rparr>)) b)"
        if "b < unat (bt_binCount (tp_table s))" for b
        using L1 L2 [OF that] la b24 pi(3) LB by (cases "b = bin") (simp_all add: acq nth_list_update)
    qed
    with k LA LiveAll_take [where h = "gp_heap gp", OF k(1,2), folded h'_def]
    show "(\<exists>k. gp_heap gp a = Some k \<and> bh_magic k = MAGIC_FREE \<and> bh_binIndex k = of_nat bin) \<and>
      (let h' = hmod a (\<lambda>k. k\<lparr>bh_magic := MAGIC_LIVE, bh_next := None\<rparr>) (gp_heap gp) in
       pool_inv (s\<lparr>tp_caches := (tp_caches s)[i := c], tp_global := gp\<lparr>gp_heap := h'\<rparr>\<rparr>) \<and>
       a \<notin> LiveAll (gp_heap (tp_global s)) \<and> LiveAll h' = insert a (LiveAll (gp_heap (tp_global s))))"
      by (simp add: Let_def h'_def [symmetric]) }
qed

subsection \<open>Bypass blocks\<close>

lemma align_up_range:
  assumes "a = 2 ^ k"
  shows "v \<le> align_up v a" and "align_up v a < v + a" and "a dvd align_up v a"
  using align_up_bounds [of v k] assms by (simp_all add: align_up_def)

text \<open>A change of one bypass header is invisible to the bins.\<close>

lemma gp_inv_bypass:
  assumes inv: "gp_inv t gp X" and o: "\<And>k. gp_heap gp a = Some k \<Longrightarrow> bh_binIndex k = BIN_BYPASS"
    and n: "\<And>k. v = Some k \<Longrightarrow> bh_binIndex k = BIN_BYPASS"
    and ok: "heap_ok (gp\<lparr>gp_heap := (gp_heap gp)(a := v), gp_raw := rs\<rparr>)"
  shows "gp_inv t (gp\<lparr>gp_heap := (gp_heap gp)(a := v), gp_raw := rs\<rparr>) X"
    and "\<And>b. b < length (gp_bins gp) \<Longrightarrow> LiveBlocks ((gp_heap gp)(a := v)) b = LiveBlocks (gp_heap gp) b"
proof -
  have ne: "(of_nat b :: u8) \<noteq> BIN_BYPASS" if "b < length (gp_bins gp)" for b
    using BYPASS_not_bin [of b] gp_inv_bins [OF inv that] by simp
  have L: "LiveBlocks ((gp_heap gp)(a := v)) b = LiveBlocks (gp_heap gp) b"
    and F: "FreeBlocks ((gp_heap gp)(a := v)) b = FreeBlocks (gp_heap gp) b"
    and nx: "\<And>x. x \<in> FreeBlocks (gp_heap gp) b \<Longrightarrow> hnext ((gp_heap gp)(a := v)) x = hnext (gp_heap gp) x"
    if b: "b < length (gp_bins gp)" for b
  proof -
    have oa: "\<not> (\<exists>k. gp_heap gp a = Some k \<and> bh_binIndex k = of_nat b)" using o ne [OF b] by fastforce
    have na: "\<not> (\<exists>k. v = Some k \<and> bh_binIndex k = of_nat b)" using n ne [OF b] by fastforce
    show "LiveBlocks ((gp_heap gp)(a := v)) b = LiveBlocks (gp_heap gp) b"
      using oa na by (auto simp: LiveBlocks_def split: if_splits)
    show "FreeBlocks ((gp_heap gp)(a := v)) b = FreeBlocks (gp_heap gp) b"
      using oa na by (auto simp: FreeBlocks_def split: if_splits)
    show "\<And>x. x \<in> FreeBlocks (gp_heap gp) b \<Longrightarrow> hnext ((gp_heap gp)(a := v)) x = hnext (gp_heap gp) x"
      using oa by (auto simp: FreeBlocks_def hnext_def)
  qed
  show "\<And>b. b < length (gp_bins gp) \<Longrightarrow> LiveBlocks ((gp_heap gp)(a := v)) b = LiveBlocks (gp_heap gp) b" by (rule L)
  have "bin_inv ((gp_heap gp)(a := v)) (gp_bins gp ! b) b (X b)" if b: "b < length (gp_bins gp)" for b
    using gp_inv_bin [OF inv b] L [OF b] F [OF b] bin_rel_other [OF _ F [OF b] nx [OF b]]
    by (simp add: bin_inv_def)
  then show "gp_inv t (gp\<lparr>gp_heap := (gp_heap gp)(a := v), gp_raw := rs\<rparr>) X"
    using inv ok by (simp add: gp_inv_def)
qed

text \<open>The sum of the bypass is exact for every request that is not within 8 KiB of 2 to the 64.\<close>

lemma table_ok_sizes:
  assumes "table_ok t"
  shows "unat (bt_headerSize t) \<le> 2 ^ 12" and "unat (bt_payloadAlignment t) \<le> 2 ^ 12"
    and "16 \<le> unat (bt_headerSize t)" and "16 \<le> unat (bt_payloadAlignment t)"
proof -
  obtain m a where sh: "table_shape t m a" using assms by (auto simp: table_ok_def)
  then have "4 \<le> a" and "a \<le> 12" by (simp_all add: table_shape_def)
  then have "(2::nat) ^ a \<le> 2 ^ 12" and "(2::nat) ^ 4 \<le> 2 ^ a" by (intro power_increasing; simp)+
  with sh show "unat (bt_headerSize t) \<le> 2 ^ 12" and "unat (bt_payloadAlignment t) \<le> 2 ^ 12"
    and "16 \<le> unat (bt_headerSize t)" and "16 \<le> unat (bt_payloadAlignment t)" by (simp_all add: table_shape_def)
qed

lemma unat_rawBytes:
  "unat (ucast h + sz + ucast al :: u64) = (unat (h :: u32) + unat sz + unat (al :: u32)) mod 2 ^ 64"
  by (simp add: unat_word_ariths unat_ucast_64 mod_simps)

lemma rawBytes_exact:
  assumes "table_ok t" and "unat sz + 2 ^ 13 < 2 ^ 64"
  shows "unat (ucast (bt_headerSize t) + sz + ucast (bt_payloadAlignment t) :: u64) =
    unat (bt_headerSize t) + unat sz + unat (bt_payloadAlignment t)"
  using table_ok_sizes [OF assms(1)] assms(2) unfolding unat_rawBytes by simp

lemma AcquireBypass_inv:
  assumes inv: "pool_inv s" and small: "unat sz + 2 ^ 13 < 2 ^ 64" and A: "AcquireBypass os sz s = (r, s')"
  shows "r = None \<Longrightarrow> s' = s"
    and "r = Some p \<Longrightarrow> pool_inv s' \<and> (\<exists>a. p = PayloadOf a (bt_headerSize (tp_table s)) \<and>
        a \<notin> LiveAll (gp_heap (tp_global s)) \<and> LiveAll (gp_heap (tp_global s')) = insert a (LiveAll (gp_heap (tp_global s)))) \<and>
        tp_table s' = tp_table s \<and> unat (bt_payloadAlignment (tp_table s)) dvd p \<and>
        (\<exists>raw n. (raw, n) \<in> set (gp_raw (tp_global s')) \<and> raw \<le> p \<and> p + unat sz \<le> raw + n)"
    and "tp_corruptions s' = tp_corruptions s" and "tp_violations s' = tp_violations s"
proof -
  let ?t = "tp_table s" and ?gp = "tp_global s"
  let ?hs = "unat (bt_headerSize ?t)" and ?al = "unat (bt_payloadAlignment ?t)"
  show "r = None \<Longrightarrow> s' = s" "tp_corruptions s' = tp_corruptions s" "tp_violations s' = tp_violations s"
    using A by (auto simp: AcquireBypass_def Let_def split: option.splits)
  note g = pool_inv_gp [OF inv]
  have tok: "table_ok ?t" using g by (simp add: gp_inv_def)
  note exact = rawBytes_exact [OF tok small]
  assume r: "r = Some p"
  then obtain raw where H: "HeapAlloc os (regions ?gp) (?hs + unat sz + ?al) = Some raw"
    using A by (auto simp: AcquireBypass_def Let_def exact split: option.splits)
  let ?n = "?hs + unat sz + ?al"
  define a where "a = align_up (raw + ?hs) ?al - ?hs"
  define kb where "kb = \<lparr>bh_magic = MAGIC_LIVE, bh_binIndex = BIN_BYPASS, bh_poolId = OwnerTag (tp_slot s), bh_next = Some raw\<rparr>"
  have p: "p = align_up (raw + ?hs) ?al" and s': "s' = s\<lparr>tp_global := ?gp\<lparr>gp_heap := (gp_heap ?gp)(a := Some kb),
      gp_raw := (raw, ?n) # gp_raw ?gp\<rparr>, tp_bypassAcquire := tp_bypassAcquire s + 1\<rparr>"
    using A r H by (auto simp: AcquireBypass_def Let_def exact a_def kb_def)
  obtain m k where sh: "table_shape ?t m k" using g by (auto simp: gp_inv_def table_ok_def)
  then have al: "?al = 2 ^ k" by (simp add: table_shape_def)
  note ar = align_up_range [OF al, of "raw + ?hs"]
  have ah: "a + ?hs = p" using ar(1) by (simp add: a_def p)
  have rng: "raw \<le> a" "a < raw + ?n" "p + unat sz \<le> raw + ?n" using ar ah p by linarith+
  have al0: "0 < ?al" using al by simp
  have fresh: "fresh_region (regions ?gp) raw ?n" using H by (auto simp: HeapAlloc_def split: option.splits if_splits)
  have hok: "heap_ok ?gp" using g by (simp add: gp_inv_def)
  have none: "gp_heap ?gp a = None"
  proof (cases "gp_heap ?gp a")
    case (Some k')
    then have "in_regions (regions ?gp) a" using hok unfolding regions_def in_regions_append heap_ok_def by blast
    with fresh_not_in_regions [OF fresh rng(1,2)] show ?thesis by simp
  qed simp
  let ?gp' = "?gp\<lparr>gp_heap := (gp_heap ?gp)(a := Some kb), gp_raw := (raw, ?n) # gp_raw ?gp\<rparr>"
  have hok': "heap_ok ?gp'"
    unfolding heap_ok_def
  proof (intro allI impI)
    fix x kx assume x: "gp_heap ?gp' x = Some kx"
    have sg: "segs ?gp' = segs ?gp" by (simp add: segs_def)
    show "bh_poolId kx = gp_ownerTag ?gp' \<and> bh_magic kx \<in> {MAGIC_FREE, MAGIC_LIVE} \<and>
        (unat (bh_binIndex kx) < length (gp_bins ?gp') \<and> in_regions (segs ?gp') x \<or>
         bh_binIndex kx = BIN_BYPASS \<and> bh_magic kx = MAGIC_LIVE \<and> in_regions (gp_raw ?gp') x)"
    proof (cases "x = a")
      case True
      then have kx: "kx = kb" using x by simp
      have "in_regions ((raw, ?n) # gp_raw ?gp) a" using rng by (auto simp: in_regions_def)
      moreover have "gp_ownerTag ?gp = OwnerTag (tp_slot s)" using inv by (simp add: pool_inv_def)
      ultimately show ?thesis unfolding kx using True by (simp add: kb_def)
    next
      case False
      with x have "gp_heap ?gp x = Some kx" by simp
      moreover have "in_regions (gp_raw ?gp) x \<Longrightarrow> in_regions ((raw, ?n) # gp_raw ?gp) x"
        by (auto simp: in_regions_def)
      ultimately show ?thesis using hok unfolding heap_ok_def sg by auto
    qed
  qed
  have kbb: "\<And>k. Some kb = Some k \<Longrightarrow> bh_binIndex k = BIN_BYPASS" by (simp add: kb_def)
  have non: "\<And>k. gp_heap ?gp a = Some k \<Longrightarrow> bh_binIndex k = BIN_BYPASS" using none by simp
  note gb = gp_inv_bypass [OF g non kbb hok']
  have LA: "LiveAll ((gp_heap ?gp)(a := Some kb)) = insert a (LiveAll (gp_heap ?gp))" and na: "a \<notin> LiveAll (gp_heap ?gp)"
    using none by (auto simp: LiveAll_def kb_def)
  have BB: "BypassBlocks ((gp_heap ?gp)(a := Some kb)) = insert a (BypassBlocks (gp_heap ?gp))"
    and nb: "a \<notin> BypassBlocks (gp_heap ?gp)" using none by (auto simp: BypassBlocks_def kb_def)
  have bo: "bypass_ok (gp_heap ?gp) (gp_raw ?gp)" using inv by (simp add: pool_inv_def)
  have hx: "hnext ((gp_heap ?gp)(a := Some kb)) x = (if x = a then Some raw else hnext (gp_heap ?gp) x)" for x
    by (simp add: hnext_def kb_def)
  have newraw: "hnext (gp_heap ?gp) x \<noteq> Some raw" if "x \<in> BypassBlocks (gp_heap ?gp)" for x
  proof
    assume e: "hnext (gp_heap ?gp) x = Some raw"
    with bo that obtain n where n: "(raw, n) \<in> set (gp_raw ?gp)" "0 < n" unfolding bypass_ok_def by fastforce
    then have "raw + ?n \<le> raw \<or> raw + n \<le> raw"
      using fresh_regionD [OF fresh, of raw n] by (simp add: regions_def)
    with n(2) al0 show False by simp
  qed
  have "inj_on (hnext ((gp_heap ?gp)(a := Some kb))) (insert a (BypassBlocks (gp_heap ?gp)))"
  proof (rule inj_onI)
    fix x y assume x: "x \<in> insert a (BypassBlocks (gp_heap ?gp))" and y: "y \<in> insert a (BypassBlocks (gp_heap ?gp))"
      and e: "hnext ((gp_heap ?gp)(a := Some kb)) x = hnext ((gp_heap ?gp)(a := Some kb)) y"
    have inj: "inj_on (hnext (gp_heap ?gp)) (BypassBlocks (gp_heap ?gp))" using bo by (simp add: bypass_ok_def)
    show "x = y"
    proof (cases "x = a \<or> y = a")
      case True
      with e x y newraw show ?thesis unfolding hx by (metis insertE)
    next
      case False
      with e x y inj show ?thesis unfolding hx by (auto dest: inj_onD)
    qed
  qed
  moreover have "\<forall>x \<in> insert a (BypassBlocks (gp_heap ?gp)). \<exists>r n. hnext ((gp_heap ?gp)(a := Some kb)) x = Some r \<and>
      (r, n) \<in> set ((raw, ?n) # gp_raw ?gp) \<and> r \<le> x \<and> x < r + n"
    using bo nb rng unfolding bypass_ok_def hx by fastforce
  ultimately have bo': "bypass_ok ((gp_heap ?gp)(a := Some kb)) ((raw, ?n) # gp_raw ?gp)"
    using bo al0 by (simp add: bypass_ok_def BB)
  have fin: "finite (BypassBlocks (gp_heap ?gp))" using bo by (simp add: bypass_ok_def)
  have cb: "card (insert a (BypassBlocks (gp_heap ?gp))) = Suc (card (BypassBlocks (gp_heap ?gp)))"
    using nb fin by simp
  have lb: "length (gp_bins ?gp) = unat (bt_binCount ?t)" using g by (simp add: gp_inv_def)
  have sums: "SumAcquire s' b = SumAcquire s b" "SumRelease s' b = SumRelease s b" for b
    using s' by (simp_all add: SumAcquire_def SumRelease_def)
  have "pool_inv s'"
    using inv gb(1) gb(2) bo' cb BB lb sums by (simp add: pool_inv_def s' del: card_insert_disjoint)
  moreover have "?al dvd p" using ar(3) p by simp
  moreover have "p = PayloadOf a (bt_headerSize ?t)" using ah by (simp add: PayloadOf_def)
  then have "\<exists>a. p = PayloadOf a (bt_headerSize (tp_table s)) \<and>
        a \<notin> LiveAll (gp_heap (tp_global s)) \<and> LiveAll (gp_heap (tp_global s')) = insert a (LiveAll (gp_heap (tp_global s)))"
    using LA na s' by (intro exI [of _ a]) simp
  moreover have "raw \<le> p" using rng ah by linarith
  then have "\<exists>raw n. (raw, n) \<in> set (gp_raw (tp_global s')) \<and> raw \<le> p \<and> p + unat sz \<le> raw + n"
    using s' rng(3) by (intro exI [of _ raw] exI [of _ ?n]) simp
  moreover have "tp_table s' = tp_table s" using s' by simp
  ultimately show "pool_inv s' \<and> (\<exists>a. p = PayloadOf a (bt_headerSize (tp_table s)) \<and>
        a \<notin> LiveAll (gp_heap (tp_global s)) \<and> LiveAll (gp_heap (tp_global s')) = insert a (LiveAll (gp_heap (tp_global s)))) \<and>
        tp_table s' = tp_table s \<and> unat (bt_payloadAlignment (tp_table s)) dvd p \<and>
        (\<exists>raw n. (raw, n) \<in> set (gp_raw (tp_global s')) \<and> raw \<le> p \<and> p + unat sz \<le> raw + n)"
    by blast
qed

lemma wrapped_sum:
  fixes x :: nat
  assumes "x < 2 ^ 64" and "a \<le> 2 ^ 12" and "b \<le> 2 ^ 12" and "2 ^ 64 \<le> a + x + b"
  shows "(a + x + b) mod 2 ^ 64 < 2 ^ 13"
proof -
  have "(a + x + b) mod 2 ^ 64 = (a + x + b - 2 ^ 64) mod 2 ^ 64" using assms(4) by (rule le_mod_geq)
  also have "\<dots> \<le> a + x + b - 2 ^ 64" by (rule mod_less_eq_dividend)
  also have "\<dots> < 2 ^ 13" using assms by simp
  finally show ?thesis .
qed

text \<open>
  For a request within the header and the alignment of 2 to the 64 the sum has wrapped around: the bypass allocates fewer bytes than a header
  and an alignment take, and hands out a payload for it.
\<close>

lemma bypass_size_wraps:
  assumes "table_ok (tp_table s)" and A: "AcquireBypass os sz s = (Some p, s')"
    and "2 ^ 64 \<le> unat (bt_headerSize (tp_table s)) + unat sz + unat (bt_payloadAlignment (tp_table s))"
  shows "\<exists>raw n. gp_raw (tp_global s') = (raw, n) # gp_raw (tp_global s) \<and> n < 2 ^ 13"
proof -
  have "unat sz < 2 ^ 64" using unsigned_less [of sz] by simp
  then have "unat (ucast (bt_headerSize (tp_table s)) + sz + ucast (bt_payloadAlignment (tp_table s)) :: u64) < 2 ^ 13"
    using table_ok_sizes [OF assms(1)] assms(3) unfolding unat_rawBytes by (intro wrapped_sum)
  with A show ?thesis by (auto simp: AcquireBypass_def Let_def split: option.splits)
qed

lemma ReleaseBypass_inv:
  assumes inv: "pool_inv s" and a: "a \<in> BypassBlocks (gp_heap (tp_global s))"
    and s1: "s1 = s\<lparr>tp_global := (tp_global s)\<lparr>gp_heap := hmod a (\<lambda>k. k\<lparr>bh_magic := MAGIC_FREE\<rparr>) (gp_heap (tp_global s))\<rparr>\<rparr>"
  shows "pool_inv (ReleaseBypass a s1)" and "tp_table (ReleaseBypass a s1) = tp_table s"
    and "LiveAll (gp_heap (tp_global (ReleaseBypass a s1))) = LiveAll (gp_heap (tp_global s)) - {a}"
    and "tp_corruptions (ReleaseBypass a s1) = tp_corruptions s" and "tp_violations (ReleaseBypass a s1) = tp_violations s"
proof -
  let ?gp = "tp_global s" and ?h = "gp_heap (tp_global s)"
  note g = pool_inv_gp [OF inv]
  have bo: "bypass_ok ?h (gp_raw ?gp)" using inv by (simp add: pool_inv_def)
  from a bo obtain raw n where raw: "hnext ?h a = Some raw" "(raw, n) \<in> set (gp_raw ?gp)" unfolding bypass_ok_def by blast
  from a obtain k where k: "?h a = Some k" "bh_magic k = MAGIC_LIVE" "bh_binIndex k = BIN_BYPASS"
    by (auto simp: BypassBlocks_def)
  let ?gp' = "?gp\<lparr>gp_heap := ?h(a := None), gp_raw := HeapFree raw (gp_raw ?gp)\<rparr>"
  have "hnext (hmod a (\<lambda>k. k\<lparr>bh_magic := MAGIC_FREE\<rparr>) ?h) a = Some raw" using raw(1) k by (simp add: hnext_def)
  moreover have "(hmod a (\<lambda>k. k\<lparr>bh_magic := MAGIC_FREE\<rparr>) ?h)(a := None) = ?h(a := None)" by (simp add: hmod_def)
  ultimately have R: "ReleaseBypass a s1 = s\<lparr>tp_global := ?gp', tp_bypassRelease := tp_bypassRelease s + 1\<rparr>"
    by (simp add: ReleaseBypass_def s1)
  have hok: "heap_ok ?gp" using g by (simp add: gp_inv_def)
  have inj: "inj_on (hnext ?h) (BypassBlocks ?h)" using bo by (simp add: bypass_ok_def)
  have keep: "\<exists>r m. hnext ?h x = Some r \<and> (r, m) \<in> set (HeapFree raw (gp_raw ?gp)) \<and> r \<le> x \<and> x < r + m"
    if x: "x \<in> BypassBlocks ?h" "x \<noteq> a" for x
  proof -
    obtain r m where r: "hnext ?h x = Some r" "(r, m) \<in> set (gp_raw ?gp)" "r \<le> x" "x < r + m"
      using bo x(1) unfolding bypass_ok_def by blast
    have "r \<noteq> raw" using inj_onD [OF inj, of x a] x a r(1) raw(1) by auto
    with r show ?thesis by (auto simp: HeapFree_def)
  qed
  have hok': "heap_ok ?gp'"
    unfolding heap_ok_def
  proof (intro allI impI)
    fix x kx assume x: "gp_heap ?gp' x = Some kx"
    have sg: "segs ?gp' = segs ?gp" by (simp add: segs_def)
    from x have xa: "x \<noteq> a" and hx: "?h x = Some kx" by (auto split: if_splits)
    note hk = hok [unfolded heap_ok_def, rule_format, OF hx]
    show "bh_poolId kx = gp_ownerTag ?gp' \<and> bh_magic kx \<in> {MAGIC_FREE, MAGIC_LIVE} \<and>
        (unat (bh_binIndex kx) < length (gp_bins ?gp') \<and> in_regions (segs ?gp') x \<or>
         bh_binIndex kx = BIN_BYPASS \<and> bh_magic kx = MAGIC_LIVE \<and> in_regions (gp_raw ?gp') x)"
    proof (cases "bh_binIndex kx = BIN_BYPASS \<and> bh_magic kx = MAGIC_LIVE")
      case True
      then have "x \<in> BypassBlocks ?h" using hx by (simp add: BypassBlocks_def)
      from keep [OF this xa] have "in_regions (gp_raw ?gp') x" by (auto simp: in_regions_def)
      with hk True show ?thesis by simp
    next
      case False
      with hk show ?thesis unfolding sg by auto
    qed
  qed
  have o: "\<And>k. gp_heap ?gp a = Some k \<Longrightarrow> bh_binIndex k = BIN_BYPASS" using k by simp
  have n: "\<And>k. (None :: BlockHeader option) = Some k \<Longrightarrow> bh_binIndex k = BIN_BYPASS" by simp
  note gb = gp_inv_bypass [OF g o n hok']
  have BB: "BypassBlocks (?h(a := None)) = BypassBlocks ?h - {a}" by (auto simp: BypassBlocks_def)
  have LA: "LiveAll (?h(a := None)) = LiveAll ?h - {a}" by (auto simp: LiveAll_def)
  have hx: "hnext (?h(a := None)) x = hnext ?h x" if "x \<noteq> a" for x using that by (simp add: hnext_def)
  have "inj_on (hnext (?h(a := None))) (BypassBlocks ?h - {a})"
    using inj hx by (auto simp: inj_on_def)
  moreover have "\<forall>x \<in> BypassBlocks ?h - {a}. \<exists>r m. hnext (?h(a := None)) x = Some r \<and>
      (r, m) \<in> set (HeapFree raw (gp_raw ?gp)) \<and> r \<le> x \<and> x < r + m"
    using keep hx by auto
  ultimately have bo': "bypass_ok (?h(a := None)) (HeapFree raw (gp_raw ?gp))"
    using bo unfolding bypass_ok_def BB by (auto simp: HeapFree_def)
  have fin: "finite (BypassBlocks ?h)" using bo by (simp add: bypass_ok_def)
  have cb: "card (BypassBlocks ?h) = Suc (card (BypassBlocks ?h - {a}))" using fin a by (rule card.remove)
  have lb: "length (gp_bins ?gp) = unat (bt_binCount (tp_table s))" using g by (simp add: gp_inv_def)
  have sums: "SumAcquire (ReleaseBypass a s1) b = SumAcquire s b" "SumRelease (ReleaseBypass a s1) b = SumRelease s b" for b
    using R by (simp_all add: SumAcquire_def SumRelease_def)
  show "pool_inv (ReleaseBypass a s1)"
    using inv gb bo' cb BB lb sums by (simp add: pool_inv_def R)
  show "LiveAll (gp_heap (tp_global (ReleaseBypass a s1))) = LiveAll ?h - {a}" using R LA by simp
  show "tp_table (ReleaseBypass a s1) = tp_table s" "tp_corruptions (ReleaseBypass a s1) = tp_corruptions s"
    "tp_violations (ReleaseBypass a s1) = tp_violations s" using R by simp_all
qed

subsection \<open>Acquire and Release\<close>

lemma hmod_gp: "gp\<lparr>gp_heap := h, gp_heap := h'\<rparr> = gp\<lparr>gp_heap := h'\<rparr>"
  by simp

text \<open>
  \<open>Acquire\<close> of a size for which the sum of the bypass does not wrap keeps the invariant, never
  reports a corrupted free list, and hands out a payload that was not handed out.
\<close>

lemma Acquire_inv:
  assumes inv: "pool_inv s" and small: "unat sz + 2 ^ 13 < 2 ^ 64" and A: "Acquire os al tid s sz = (r, s')"
  shows "pool_inv s'" and "tp_corruptions s' = tp_corruptions s" and "tp_violations s' = tp_violations s"
    and "tp_table s' = tp_table s" and "r = None \<Longrightarrow> payloads s' = payloads s"
    and "r = Some p \<Longrightarrow> p \<notin> payloads s \<and> payloads s' = insert p (payloads s)"
    and "sz = 0 \<Longrightarrow> r = None"
proof -
  let ?t = "tp_table s"
  have init: "tp_initialized s" using inv by (simp add: pool_inv_def)
  show "sz = 0 \<Longrightarrow> r = None" using A by (auto simp: Acquire_def)
  have "pool_inv s' \<and> tp_corruptions s' = tp_corruptions s \<and> tp_violations s' = tp_violations s \<and>
    tp_table s' = ?t \<and> (r = None \<longrightarrow> payloads s' = payloads s) \<and>
    (\<forall>p. r = Some p \<longrightarrow> p \<notin> payloads s \<and> payloads s' = insert p (payloads s))"
  proof (cases "sz = 0")
    case True
    with A inv show ?thesis by (simp add: Acquire_def)
  next
    case sz: False
    show ?thesis
    proof (cases "BinOf ?t sz \<ge> bt_binCount ?t")
      case True
      then have B: "AcquireBypass os sz s = (r, s')" using A init sz by (simp add: Acquire_def Let_def)
      note ab = AcquireBypass_inv [OF inv small B]
      show ?thesis
      proof (cases r)
        case None
        with ab inv show ?thesis by simp
      next
        case (Some p)
        from ab(2) [OF Some] obtain a where a: "p = PayloadOf a (bt_headerSize ?t)"
          "a \<notin> LiveAll (gp_heap (tp_global s))" "LiveAll (gp_heap (tp_global s')) = insert a (LiveAll (gp_heap (tp_global s)))"
          and t: "tp_table s' = ?t" and p: "pool_inv s'" by blast
        then have "p \<notin> payloads s" "payloads s' = insert p (payloads s)" by (auto simp: payloads_def)
        with Some t p ab(3,4) show ?thesis by simp
      qed
    next
      case False
      define bin where "bin = unat (BinOf ?t sz)"
      have bb: "bin < unat (bt_binCount ?t)" using False by (simp add: bin_def word_le_nat_alt)
      obtain ro s1 where G: "GetOrCreate al tid s = (ro, s1)" by fastforce
      note gi = GetOrCreate_inv [OF inv G]
      have A': "(case ro of None \<Rightarrow> (None, s1)
          | Some i \<Rightarrow> (case Pop os ?t bin (tp_caches s1 ! i, tp_global s1) of
             (r, c, gp) \<Rightarrow>
               (let s2 = s1\<lparr>tp_caches := (tp_caches s1)[i := c], tp_global := gp\<rparr> in
                case r of None \<Rightarrow> (None, s2)
                | Some header \<Rightarrow> (case gp_heap gp header of
                    None \<Rightarrow> (None, s2\<lparr>tp_corruptions := tp_corruptions s2 + 1\<rparr>)
                  | Some k \<Rightarrow> if bh_magic k \<noteq> MAGIC_FREE then (None, s2\<lparr>tp_corruptions := tp_corruptions s2 + 1\<rparr>)
                      else (Some (PayloadOf header (bt_headerSize ?t)),
                            s2\<lparr>tp_global := gp\<lparr>gp_heap := hmod header (\<lambda>k. k\<lparr>bh_magic := MAGIC_LIVE, bh_next := None\<rparr>)
                                                   (gp_heap gp)\<rparr>\<rparr>))))) = (r, s')"
        using A init sz False unfolding Acquire_def Let_def G bin_def by simp
      show ?thesis
      proof (cases ro)
        case None
        then have "r = None" "s' = s1" using A' by simp_all
        with gi show ?thesis by (simp add: payloads_def)
      next
        case (Some i)
        note il = gi(4) [OF Some]
        obtain q c gp where P: "Pop os ?t bin (tp_caches s1 ! i, tp_global s1) = (q, c, gp)" by (metis prod_cases3)
        have P': "Pop os (tp_table s1) bin (tp_caches s1 ! i, tp_global s1) = (q, c, gp)" using P gi(3) by simp
        have bb': "bin < unat (bt_binCount (tp_table s1))" using bb gi(3) by simp
        note ap = Acquire_pooled [OF gi(1) il bb' P']
        show ?thesis
        proof (cases q)
          case None
          then have "r = None" "s' = s1\<lparr>tp_caches := (tp_caches s1)[i := c], tp_global := gp\<rparr>"
            using A' Some P by simp_all
          with ap(1) [OF None] gi show ?thesis by (simp add: payloads_def)
        next
          case (Some a)
          note p2 = ap(2) [OF Some, unfolded Let_def]
          then obtain k where k: "gp_heap gp a = Some k" "bh_magic k = MAGIC_FREE" by blast
          define h' where "h' = hmod a (\<lambda>k. k\<lparr>bh_magic := MAGIC_LIVE, bh_next := None\<rparr>) (gp_heap gp)"
          have e: "r = Some (PayloadOf a (bt_headerSize ?t))"
            "s' = s1\<lparr>tp_caches := (tp_caches s1)[i := c], tp_global := gp\<lparr>gp_heap := h'\<rparr>\<rparr>"
            using A' \<open>ro = Some i\<close> P Some k by (simp_all add: h'_def)
          have L: "a \<notin> LiveAll (gp_heap (tp_global s))" "LiveAll h' = insert a (LiveAll (gp_heap (tp_global s)))"
            using p2 gi(2) by (simp_all add: h'_def)
          have "PayloadOf a (bt_headerSize ?t) \<notin> payloads s"
            "payloads s' = insert (PayloadOf a (bt_headerSize ?t)) (payloads s)"
            using L e gi(3) by (auto simp: payloads_def)
          with p2 e gi show ?thesis by (simp add: h'_def)
        qed
      qed
    qed
  qed
  then show "pool_inv s'" "tp_corruptions s' = tp_corruptions s" "tp_violations s' = tp_violations s"
    "tp_table s' = ?t" "r = None \<Longrightarrow> payloads s' = payloads s"
    "r = Some p \<Longrightarrow> p \<notin> payloads s \<and> payloads s' = insert p (payloads s)" by blast+
qed

lemma LiveAll_give: "h a = Some k \<Longrightarrow> LiveAll (hmod a (\<lambda>k. k\<lparr>bh_magic := MAGIC_FREE\<rparr>) h) = LiveAll h - {a}"
  by (auto simp: LiveAll_def hmod_def split: if_splits)

text \<open>Returning a pooled block to the caller's cache, or to the global layer when it has none.\<close>

lemma Release_pooled:
  assumes inv: "pool_inv s" and k: "gp_heap (tp_global s) a = Some k" "bh_magic k = MAGIC_LIVE"
    and nb: "bh_binIndex k \<noteq> BIN_BYPASS" and bin: "bin = unat (bh_binIndex k)"
    and h1: "h1 = hmod a (\<lambda>k. k\<lparr>bh_magic := MAGIC_FREE\<rparr>) (gp_heap (tp_global s))"
  shows "bin < unat (bt_binCount (tp_table s))"
    and "i < length (tp_caches s) \<Longrightarrow> Push (tp_table s) bin a (tp_caches s ! i, (tp_global s)\<lparr>gp_heap := h1\<rparr>) = (c, gp) \<Longrightarrow>
       pool_inv (s\<lparr>tp_caches := (tp_caches s)[i := c], tp_global := gp\<rparr>) \<and>
       LiveAll (gp_heap gp) = LiveAll (gp_heap (tp_global s)) - {a}"
    and "gp = PushChunk bin (Some a) 1 ((tp_global s)\<lparr>gp_heap := hmod a (\<lambda>k. k\<lparr>bh_next := None\<rparr>) h1\<rparr>) \<Longrightarrow>
       pool_inv (s\<lparr>tp_global := gp, tp_retiredRelease := (tp_retiredRelease s)[bin := tp_retiredRelease s ! bin + 1]\<rparr>) \<and>
       LiveAll (gp_heap gp) = LiveAll (gp_heap (tp_global s)) - {a}"
proof -
  let ?gp = "tp_global s" and ?h = "gp_heap (tp_global s)"
  note g = pool_inv_gp [OF inv]
  have hok: "heap_ok ?gp" and lb: "length (gp_bins ?gp) = unat (bt_binCount (tp_table s))"
    using g by (simp_all add: gp_inv_def)
  have bi: "bin < length (gp_bins ?gp)" using hok [unfolded heap_ok_def, rule_format, OF k(1)] nb bin by auto
  then show bb: "bin < unat (bt_binCount (tp_table s))" using lb by simp
  have b24: "bin < 24" using gp_inv_bins [OF g bi] .
  have kb: "bh_binIndex k = of_nat bin" using bin by simp
  have bp: "bypass_ok ?h (gp_raw ?gp)" using inv by (simp add: pool_inv_def)
  have LA1: "LiveAll h1 = LiveAll ?h - {a}" unfolding h1 using k(1) by (rule LiveAll_give)
  have bh1: "BypassBlocks h1 = BypassBlocks ?h" "bypass_ok h1 (gp_raw ?gp)"
    using bypass_hmod [where h = ?h and f = "\<lambda>k. k\<lparr>bh_magic := MAGIC_FREE\<rparr>", OF k(1) nb] bp nb k(1)
    unfolding h1 BypassBlocks_def hmod_def bypass_ok_def hnext_def
    by (auto simp: BypassBlocks_def hmod_def bypass_ok_def hnext_def split: if_splits)
  { assume i: "i < length (tp_caches s)"
      and P: "Push (tp_table s) bin a (tp_caches s ! i, ?gp\<lparr>gp_heap := h1\<rparr>) = (c, gp)"
    have gc: "gp_inv (tp_table s) ?gp (with_cache (tp_caches s ! i) (other_lists i (tp_caches s)))"
      using g cached_lists_split(1) [OF i] by simp
    have ck: "cache_ok (tp_caches s ! i)" using inv i by (simp add: pool_inv_def)
    have lr: "length (tc_releaseCount (tp_caches s ! i)) = 24" using ck by (simp add: cache_ok_def)
    note pu = Push_inv [OF gc bi ck k kb P [unfolded h1]]
    have ls: "live_same h1 (gp_heap gp)" using pu(13) by (simp only: h1)
    have fin: "finite (LiveBlocks ?h bin)" using gp_inv_bin [OF gc bi] by (simp add: bin_inv_def)
    have cd: "card (LiveBlocks ?h bin) = Suc (card (LiveBlocks (gp_heap gp) bin))"
      unfolding pu(7) using fin pu(6) by (rule card.remove)
    have "pool_inv (s\<lparr>tp_caches := (tp_caches s)[i := c], tp_global := gp\<rparr>)"
    proof (rule pool_inv_step [OF inv i refl pu(1) pu(11) pu(2,3)])
      show "bypass_ok (gp_heap gp) (gp_raw gp)" using bypass_ok_live_same [OF ls bh1(2)] pu(9) by simp
      show "BypassBlocks (gp_heap gp) = BypassBlocks ?h" using live_same_Bypass [OF ls] bh1(1) by simp
      show "tc_acquireCount c ! b + tc_releaseCount (tp_caches s ! i) ! b + card (LiveBlocks ?h b) =
          tc_acquireCount (tp_caches s ! i) ! b + tc_releaseCount c ! b + card (LiveBlocks (gp_heap gp) b)"
        if "b < unat (bt_binCount (tp_table s))" for b
        using pu(4,5) pu(8) [of b] cd that lb lr b24 by (cases "b = bin") (simp_all add: nth_list_update)
    qed
    then show "pool_inv (s\<lparr>tp_caches := (tp_caches s)[i := c], tp_global := gp\<rparr>) \<and>
       LiveAll (gp_heap gp) = LiveAll ?h - {a}"
      using live_same_LiveAll [OF ls] LA1 by simp }
  { assume gpd: "gp = PushChunk bin (Some a) 1 (?gp\<lparr>gp_heap := hmod a (\<lambda>k. k\<lparr>bh_next := None\<rparr>) h1\<rparr>)"
    let ?X = "cached_lists (tp_caches s)"
    define h2 where "h2 = hmod a (\<lambda>k. k\<lparr>bh_magic := MAGIC_FREE, bh_next := None\<rparr>) ?h"
    have h2: "hmod a (\<lambda>k. k\<lparr>bh_next := None\<rparr>) h1 = h2" by (simp add: h1 h2_def hmod_hmod o_def)
    have g0: "gp_inv (tp_table s) ?gp (?X(bin := add_mset (None, 0) (?X bin)))"
      unfolding gp_inv_empty_list using g by simp
    have x0: "(?X(bin := add_mset (None, 0) (?X bin))) bin = add_mset (None, 0) (?X bin)" by simp
    note gv = gp_give [OF g0 bi x0 k kb h2_def]
    have bi2: "bin < length (gp_bins (?gp\<lparr>gp_heap := h2\<rparr>))" using bi by simp
    have x1: "(?X(bin := add_mset (None, 0) (?X bin), bin := add_mset (Some a, Suc 0) (?X bin))) bin =
        add_mset (Some a, Suc 0) (?X bin)" by simp
    note pc = PushChunk_inv [OF gv(1) bi2 x1]
    have gp: "gp = PushChunk bin (Some a) (Suc 0) (?gp\<lparr>gp_heap := h2\<rparr>)" using gpd h2 by simp
    have g': "gp_inv (tp_table s) gp ?X" using pc(1) unfolding gp by (simp only: fun_upd_upd fun_upd_triv)
    have hp: "gp_heap gp = h2" using pc(3) unfolding gp by simp
    have fr: "gp_raw gp = gp_raw ?gp" "gp_ownerTag gp = gp_ownerTag ?gp"
      using pc(2) unfolding gp by (simp_all add: gp_frame_def)
    have LA: "LiveAll h2 = LiveAll ?h - {a}" using k by (auto simp: LiveAll_def h2_def hmod_def split: if_splits)
    have bh2: "BypassBlocks h2 = BypassBlocks ?h" "bypass_ok h2 (gp_raw ?gp)"
    proof -
      have "live_same h1 h2" using k by (auto simp: live_same_def h1 h2_def hmod_def split: if_splits)
      then show "BypassBlocks h2 = BypassBlocks ?h" "bypass_ok h2 (gp_raw ?gp)"
        using live_same_Bypass bypass_ok_live_same bh1 by blast+
    qed
    have fin: "finite (LiveBlocks ?h bin)" using gp_inv_bin [OF g bi] by (simp add: bin_inv_def)
    have cd: "card (LiveBlocks ?h bin) = Suc (card (LiveBlocks h2 bin))"
      unfolding gv(3) using fin gv(2) by (rule card.remove)
    let ?s' = "s\<lparr>tp_global := gp, tp_retiredRelease := (tp_retiredRelease s)[bin := tp_retiredRelease s ! bin + 1]\<rparr>"
    have "SumAcquire ?s' b = SumRelease ?s' b + card (LiveBlocks h2 b)" if b: "b < unat (bt_binCount (tp_table s))" for b
    proof -
      have "SumAcquire ?s' b = SumAcquire s b" by (simp add: SumAcquire_def)
      moreover have "SumRelease ?s' b = SumRelease s b + (if b = bin then 1 else 0)"
        using inv b24 by (simp add: SumRelease_def pool_inv_def nth_list_update)
      moreover have "SumAcquire s b = SumRelease s b + card (LiveBlocks ?h b)" using inv b by (simp add: pool_inv_def)
      ultimately show ?thesis using cd gv(4) [of b] b lb by (cases "b = bin") simp_all
    qed
    then have "pool_inv ?s'"
      using inv g' fr bh2 hp by (simp add: pool_inv_def)
    then show "pool_inv ?s' \<and> LiveAll (gp_heap gp) = LiveAll ?h - {a}" using LA hp by simp }
qed

text \<open>
  \<open>Release\<close> of a payload that is handed out keeps the invariant, takes exactly that payload back
  and reports nothing.
\<close>

lemma Release_inv:
  assumes inv: "pool_inv s" and p: "p \<in> payloads s"
  shows "pool_inv (Release al tid (Some p) s)" and "payloads (Release al tid (Some p) s) = payloads s - {p}"
    and "tp_corruptions (Release al tid (Some p) s) = tp_corruptions s"
    and "tp_violations (Release al tid (Some p) s) = tp_violations s"
proof -
  let ?t = "tp_table s" and ?h = "gp_heap (tp_global s)" and ?hs = "bt_headerSize (tp_table s)"
  from p obtain a k where a: "p = PayloadOf a ?hs" and k: "?h a = Some k" "bh_magic k = MAGIC_LIVE"
    by (auto simp: payloads_def LiveAll_def)
  define h1 where "h1 = hmod a (\<lambda>k. k\<lparr>bh_magic := MAGIC_FREE\<rparr>) ?h"
  define s1 where "s1 = s\<lparr>tp_global := (tp_global s)\<lparr>gp_heap := h1\<rparr>\<rparr>"
  note g = pool_inv_gp [OF inv]
  have hok: "heap_ok (tp_global s)" using g by (simp add: gp_inv_def)
  have tag: "bh_poolId k = OwnerTag (tp_slot s)"
    using hok [unfolded heap_ok_def, rule_format, OF k(1)] inv by (simp add: pool_inv_def)
  have init: "tp_initialized s" using inv by (simp add: pool_inv_def)
  have nf: "bh_magic k \<noteq> MAGIC_FREE" using k by simp
  have R: "Release al tid (Some p) s =
      (if bh_binIndex k = BIN_BYPASS then ReleaseBypass a s1
       else if unat (bh_binIndex k) \<ge> unat (bt_binCount ?t) then s1\<lparr>tp_corruptions := tp_corruptions s1 + 1\<rparr>
       else
         (let bin = unat (bh_binIndex k) in
          case GetOrCreate al tid s1 of
            (None, s2) \<Rightarrow>
              s2\<lparr>tp_global := PushChunk bin (Some a) 1 ((tp_global s2)\<lparr>gp_heap :=
                   hmod a (\<lambda>k. k\<lparr>bh_next := None\<rparr>) (gp_heap (tp_global s2))\<rparr>),
                 tp_retiredRelease := (tp_retiredRelease s2)[bin := tp_retiredRelease s2 ! bin + 1]\<rparr>
          | (Some i, s2) \<Rightarrow>
              (case Push ?t bin a (tp_caches s2 ! i, tp_global s2) of
                 (c, gp') \<Rightarrow> s2\<lparr>tp_caches := (tp_caches s2)[i := c], tp_global := gp'\<rparr>)))"
  proof -
    have H: "HeaderOf p ?hs = a" using a by simp
    show ?thesis
      unfolding Release_def option.case Let_def H k(1) s1_def h1_def using init nf k tag by simp
  qed
  have main: "pool_inv (Release al tid (Some p) s) \<and> tp_table (Release al tid (Some p) s) = ?t \<and>
     LiveAll (gp_heap (tp_global (Release al tid (Some p) s))) = LiveAll ?h - {a} \<and>
     tp_corruptions (Release al tid (Some p) s) = tp_corruptions s \<and>
     tp_violations (Release al tid (Some p) s) = tp_violations s"
  proof (cases "bh_binIndex k = BIN_BYPASS")
    case True
    then have "a \<in> BypassBlocks ?h" using k by (simp add: BypassBlocks_def)
    note rb = ReleaseBypass_inv [OF inv this s1_def [unfolded h1_def]]
    from True R have "Release al tid (Some p) s = ReleaseBypass a s1" by simp
    with rb show ?thesis by simp
  next
    case False
    define bin where "bin = unat (bh_binIndex k)"
    obtain r s0 where G: "GetOrCreate al tid s = (r, s0)" by fastforce
    note gi = GetOrCreate_inv [OF inv G]
    have G1: "GetOrCreate al tid s1 = (r, s0\<lparr>tp_global := (tp_global s)\<lparr>gp_heap := h1\<rparr>\<rparr>)"
      unfolding s1_def GetOrCreate_global G by simp
    have k0: "gp_heap (tp_global s0) a = Some k" using k(1) gi(2) by simp
    have h1': "h1 = hmod a (\<lambda>k. k\<lparr>bh_magic := MAGIC_FREE\<rparr>) (gp_heap (tp_global s0))" using gi(2) by (simp add: h1_def)
    note rp = Release_pooled [OF gi(1) k0 k(2) False bin_def h1']
    have lt: "\<not> unat (bh_binIndex k) \<ge> unat (bt_binCount ?t)" using rp(1) gi(3) by (simp add: bin_def)
    show ?thesis
    proof (cases r)
      case None
      have "Release al tid (Some p) s = s0\<lparr>tp_global := PushChunk bin (Some a) 1 ((tp_global s0)\<lparr>gp_heap :=
              hmod a (\<lambda>k. k\<lparr>bh_next := None\<rparr>) h1\<rparr>),
            tp_retiredRelease := (tp_retiredRelease s0)[bin := tp_retiredRelease s0 ! bin + 1]\<rparr>"
        using R False lt G1 None gi(2) by (simp add: Let_def bin_def)
      with rp(3) [OF refl] gi show ?thesis by simp
    next
      case (Some i)
      obtain c gp where P: "Push ?t bin a (tp_caches s0 ! i, (tp_global s0)\<lparr>gp_heap := h1\<rparr>) = (c, gp)" by fastforce
      have E: "Release al tid (Some p) s = s0\<lparr>tp_caches := (tp_caches s0)[i := c], tp_global := gp\<rparr>"
        using R False lt G1 Some P gi(2) by (simp add: Let_def bin_def)
      have P': "Push (tp_table s0) bin a (tp_caches s0 ! i, (tp_global s0)\<lparr>gp_heap := h1\<rparr>) = (c, gp)"
        using P gi(3) by simp
      note r2 = rp(2) [OF gi(4) [OF Some] P']
      have "LiveAll (gp_heap gp) = LiveAll ?h - {a}" using conjunct2 [OF r2] unfolding gi(2) .
      then show ?thesis unfolding E using conjunct1 [OF r2] gi(3,6,7) by simp
    qed
  qed
  then show "pool_inv (Release al tid (Some p) s)" "tp_corruptions (Release al tid (Some p) s) = tp_corruptions s"
    "tp_violations (Release al tid (Some p) s) = tp_violations s" by simp_all
  show "payloads (Release al tid (Some p) s) = payloads s - {p}"
  proof -
    have "payloads (Release al tid (Some p) s) = (\<lambda>a. PayloadOf a ?hs) ` (LiveAll ?h - {a})"
      using main by (simp only: payloads_def)
    also have "\<dots> = payloads s - {p}" unfolding payloads_def a by auto
    finally show ?thesis .
  qed
qed

section \<open>The pool as the rest of the engine sees it\<close>

lemma of_nat_small_size: "n < 2 ^ 32 \<Longrightarrow> unat (of_nat n :: u64) + 2 ^ 13 < 2 ^ 64"
  by (simp add: unat_of_nat)

interpretation tls: packet_pool
  "\<lambda>s n. Acquire os al tid s (of_nat n)" "\<lambda>s a. Release al tid (Some a) s" payloads pool_inv
  for os :: OS and al :: bool and tid :: nat
proof unfold_locales
  fix p r p' and n :: nat assume i: "pool_inv p" and n: "n < 2 ^ 32" and A: "Acquire os al tid p (of_nat n) = (r, p')"
  note small = of_nat_small_size [OF n]
  show "pool_inv p'" using Acquire_inv(1) [OF i small A] .
  show "payloads p' = set_option r \<union> payloads p"
    using Acquire_inv(5,6) [OF i small A] by (cases r) auto
next
  fix p a p' and n :: nat assume i: "pool_inv p" and n: "n < 2 ^ 32" and A: "Acquire os al tid p (of_nat n) = (Some a, p')"
  show "a \<notin> payloads p" using Acquire_inv(6) [OF i of_nat_small_size [OF n] A refl] by simp
next
  fix p a assume i: "pool_inv p" and a: "a \<in> payloads p"
  show "pool_inv (Release al tid (Some a) p)" using Release_inv(1) [OF i a] .
  show "payloads (Release al tid (Some a) p) = payloads p - {a}" using Release_inv(2) [OF i a] .
qed

section \<open>Thread exit\<close>

lemma sum_list_split_at:
  "i < length cs \<Longrightarrow> sum_list (map f cs) = f (cs ! i) + sum_list (map f (take i cs @ drop (Suc i) cs))" for f :: "_ \<Rightarrow> nat"
  by (subst id_take_nth_drop [of i cs]) simp_all

lemma Detach_inv:
  assumes inv: "pool_inv s" and i: "i < length (tp_caches s)"
  shows "pool_inv (Detach i s)" and "payloads (Detach i s) = payloads s"
    and "tp_table (Detach i s) = tp_table s"
    and "length (tp_caches (Detach i s)) = length (tp_caches s) - 1"
    and "gp_heap (tp_global (Detach i s)) a = Some k \<Longrightarrow> bh_magic k = MAGIC_LIVE \<Longrightarrow> gp_heap (tp_global s) a = Some k"
    and "LiveAll (gp_heap (tp_global (Detach i s))) = LiveAll (gp_heap (tp_global s))"
proof -
  let ?t = "tp_table s" and ?cs = "take i (tp_caches s) @ drop (Suc i) (tp_caches s)" and ?h = "gp_heap (tp_global s)"
  have g: "gp_inv ?t (tp_global s) (with_cache (tp_caches s ! i) (other_lists i (tp_caches s)))"
    using pool_inv_gp [OF inv] cached_lists_split(1) [OF i] by simp
  have ck: "cache_ok (tp_caches s ! i)" using inv i by (simp add: pool_inv_def)
  obtain c gp where F: "FlushAll ?t (tp_caches s ! i, tp_global s) = (c, gp)" by fastforce
  note fa = FlushAll_inv [OF g ck F]
  have ls: "live_same ?h (gp_heap gp)" and fr: "gp_raw gp = gp_raw (tp_global s)" "gp_ownerTag gp = gp_ownerTag (tp_global s)"
    using fa(2) by (simp_all add: gp_frame_def)
  have D: "Detach i s = s\<lparr>tp_global := gp, tp_caches := ?cs,
        tp_retiredAcquire := map (\<lambda>b. tp_retiredAcquire s ! b + (if b < unat (bt_binCount ?t) then tc_acquireCount c ! b else 0)) [0..<24],
        tp_retiredRelease := map (\<lambda>b. tp_retiredRelease s ! b + (if b < unat (bt_binCount ?t) then tc_releaseCount c ! b else 0)) [0..<24]\<rparr>"
    by (simp add: Detach_def F)
  have n24: "unat (bt_binCount ?t) \<le> 24" using binCount_24 [OF g] .
  have sums: "SumAcquire (Detach i s) b = SumAcquire s b" "SumRelease (Detach i s) b = SumRelease s b"
    if b: "b < unat (bt_binCount ?t)" for b
    using b n24 fa(4,5) sum_list_split_at [OF i, of "\<lambda>c. tc_acquireCount c ! b"]
      sum_list_split_at [OF i, of "\<lambda>c. tc_releaseCount c ! b"]
    by (simp_all add: D SumAcquire_def SumRelease_def)
  have bp: "bypass_ok (gp_heap gp) (gp_raw gp)" using bypass_ok_live_same [OF ls] inv fr by (simp add: pool_inv_def)
  have d: "distinct (map tc_threadId ?cs)"
  proof -
    have "distinct (map tc_threadId (take i (tp_caches s) @ tp_caches s ! i # drop (Suc i) (tp_caches s)))"
      using inv by (simp add: pool_inv_def id_take_nth_drop [OF i, symmetric])
    then show ?thesis by auto
  qed
  have cok: "\<forall>c \<in> set ?cs. cache_ok c" using inv by (auto simp: pool_inv_def dest: in_set_takeD in_set_dropD)
  have gi: "gp_inv ?t gp (cached_lists ?cs)" using fa(1) by (simp only: other_lists_def)
  show "pool_inv (Detach i s)"
    using inv gi fr bp d cok sums fa(3) live_same_Bypass [OF ls]
    by (simp add: pool_inv_def D [symmetric]) (simp add: D)
  show "tp_table (Detach i s) = ?t" by (simp add: D)
  show "LiveAll (gp_heap (tp_global (Detach i s))) = LiveAll ?h" using live_same_LiveAll [OF ls] by (simp add: D)
  then show "payloads (Detach i s) = payloads s" by (simp add: payloads_def D)
  show "length (tp_caches (Detach i s)) = length (tp_caches s) - 1" using i by (simp add: D)
  show "gp_heap (tp_global (Detach i s)) a = Some k \<Longrightarrow> bh_magic k = MAGIC_LIVE \<Longrightarrow> ?h a = Some k"
    using ls by (simp add: D live_same_def)
qed

lemma OnThreadExit_inv:
  assumes "pool_inv s"
  shows "pool_inv (OnThreadExit tid s)" and "payloads (OnThreadExit tid s) = payloads s"
proof -
  have "i < length (tp_caches s)" if "cache_index tid (tp_caches s) = Some i" for i
    using that by (auto simp: cache_index_def find_Some_iff)
  then show "pool_inv (OnThreadExit tid s)" and "payloads (OnThreadExit tid s) = payloads s"
    using assms Detach_inv by (auto simp: OnThreadExit_def split: option.split)
qed

section \<open>Initialisation and finalisation\<close>

definition empty_BinTable :: BinTable where
  "empty_BinTable = \<lparr>bt_binCount = 0, bt_minBinLog = 0, bt_headerSize = 0, bt_payloadAlignment = 16,
     bt_minMask = 0, bt_specs = []\<rparr>"

definition new_pool :: TlsMemoryPool where
  "new_pool = \<lparr>tp_table = empty_BinTable, tp_global = new_GlobalBlockPool, tp_caches = [],
     tp_retiredAcquire = replicate 24 0, tp_retiredRelease = replicate 24 0, tp_slot = None,
     tp_initialized = False, tp_bypassAcquire = 0, tp_bypassRelease = 0, tp_corruptions = 0, tp_violations = 0\<rparr>"

text \<open>\<open>ThreadCacheRegistry::Finalize\<close>: every cache that is left is detached, newest first.\<close>

primrec detach_all :: "nat \<Rightarrow> TlsMemoryPool \<Rightarrow> TlsMemoryPool" where
  "detach_all 0 s = s"
| "detach_all (Suc n) s = detach_all n (Detach 0 s)"

definition registry_Finalize :: "TlsMemoryPool \<Rightarrow> TlsMemoryPool" where
  "registry_Finalize s = (detach_all (length (tp_caches s)) s)\<lparr>tp_slot := None\<rparr>"

text \<open>
  \<open>Finalize\<close>: the caches come back, the counters say whether blocks are still out, and the segments
  are unmapped only when none are. The first result is the number of bytes that stay mapped.
\<close>

definition blocksStillOut :: "TlsMemoryPool \<Rightarrow> bool" where
  "blocksStillOut s \<longleftrightarrow>
     sum_list (map (SumAcquire s) [0..<unat (bt_binCount (tp_table s))]) \<noteq>
     sum_list (map (SumRelease s) [0..<unat (bt_binCount (tp_table s))]) \<or>
     tp_bypassAcquire s \<noteq> tp_bypassRelease s"

definition tls_Finalize :: "TlsMemoryPool \<Rightarrow> nat \<times> TlsMemoryPool" where
  "tls_Finalize s =
     (let s1 = registry_Finalize s in
      if \<not> tp_initialized s then (case gp_Finalize True (tp_global s1) of (_, gp) \<Rightarrow> (0, s1\<lparr>tp_global := gp\<rparr>))
      else
        (case gp_Finalize (\<not> blocksStillOut s1) (tp_global s1) of
           (kept, gp) \<Rightarrow>
             (kept, s1\<lparr>tp_global := gp, tp_bypassAcquire := 0, tp_bypassRelease := 0,
                       tp_table := empty_BinTable, tp_initialized := False\<rparr>)))"

text \<open>
  \<open>Initialize\<close>. \<open>None\<close> is the division trap of the table. The block counts of the configurations that fold
  into one bin are added as \<open>uint32_t\<close>; \<open>slots\<close> is the process-wide slot bitmap.
\<close>

primrec add_requests :: "BinTable \<Rightarrow> (u32 \<times> u32) list \<Rightarrow> u32 list \<Rightarrow> u32 list" where
  "add_requests t [] req = req"
| "add_requests t (c # cs) req =
     (let bin = unat (BinOf t (ucast (fst c))) in
      add_requests t cs (if bin < unat (bt_binCount t) then req[bin := req ! bin + snd c] else req))"

primrec prealloc_all :: "OS \<Rightarrow> BinTable \<Rightarrow> u32 list \<Rightarrow> nat \<Rightarrow> GlobalBlockPool \<Rightarrow> bool \<times> GlobalBlockPool" where
  "prealloc_all os t req 0 gp = (True, gp)"
| "prealloc_all os t req (Suc n) gp =
     (case prealloc_all os t req n gp of
        (False, gp1) \<Rightarrow> (False, gp1)
      | (True, gp1) \<Rightarrow> if req ! n = 0 then (True, gp1) else Preallocate os t n (unat (req ! n)) gp1)"

definition tls_Initialize ::
  "OS \<Rightarrow> bool \<Rightarrow> bool \<Rightarrow> u64 \<Rightarrow> (u32 \<times> u32) list \<Rightarrow> u32 \<Rightarrow> TlsMemoryPool \<Rightarrow> (bool \<times> u64 \<times> TlsMemoryPool) option" where
  "tls_Initialize os flsOk binsOk slots configs al s =
     (if tp_initialized s then Some (False, slots, s)
      else
        (case MakeBinTable (map fst configs) al of
           Trap \<Rightarrow> None
         | Rejected \<Rightarrow> Some (False, slots, s)
         | Table t \<Rightarrow>
             (case AcquireSlot slots of
                (slot, slots1) \<Rightarrow>
                  if \<not> flsOk then Some (False, ReleaseSlot slot slots1, s)
                  else
                    (case gp_Initialize binsOk t (OwnerTag slot) (tp_global s) of
                       (False, gp) \<Rightarrow> Some (False, ReleaseSlot slot slots1, s\<lparr>tp_global := gp\<rparr>)
                     | (True, gp) \<Rightarrow>
                         (let s1 = s\<lparr>tp_table := t, tp_slot := slot, tp_initialized := True\<rparr> in
                          case prealloc_all os t (add_requests t configs (replicate 24 0)) (unat (bt_binCount t)) gp of
                            (True, gp') \<Rightarrow> Some (True, slots1, s1\<lparr>tp_global := gp'\<rparr>)
                          | (False, gp') \<Rightarrow>
                              Some (False, ReleaseSlot slot slots1, snd (tls_Finalize (s1\<lparr>tp_global := gp'\<rparr>))))))))"

lemma prealloc_all_inv:
  assumes "gp_inv t gp X" and "n \<le> length (gp_bins gp)" and "prealloc_all os t req n gp = (ok, gp')"
  shows "gp_inv t gp' X \<and> live_same (gp_heap gp) (gp_heap gp') \<and> gp_raw gp' = gp_raw gp \<and>
    gp_ownerTag gp' = gp_ownerTag gp \<and> length (gp_bins gp') = length (gp_bins gp)"
  using assms
proof (induction n arbitrary: ok gp')
  case 0
  then show ?case by simp
next
  case (Suc n)
  obtain ok1 g1 where P: "prealloc_all os t req n gp = (ok1, g1)" by fastforce
  have ih: "gp_inv t g1 X" "live_same (gp_heap gp) (gp_heap g1)" "gp_raw g1 = gp_raw gp"
    "gp_ownerTag g1 = gp_ownerTag gp" "length (gp_bins g1) = length (gp_bins gp)"
    using Suc.IH [OF Suc.prems(1) _ P] Suc.prems(2) by simp_all
  show ?case
  proof (cases "ok1 \<and> req ! n \<noteq> 0")
    case False
    then have "gp' = g1" using Suc.prems(3) P by (auto split: bool.splits if_splits)
    with ih show ?thesis by simp
  next
    case True
    then have "Preallocate os t n (unat (req ! n)) g1 = (ok, gp')" using Suc.prems(3) P by simp
    then have "gp' = g1 \<or> GrowLocked os t n (unat (req ! n)) True g1 = (ok, gp')"
      by (auto simp: Preallocate_def split: if_splits)
    moreover have "n < length (gp_bins g1)" using ih(5) Suc.prems(2) by simp
    ultimately show ?thesis
      using ih GrowLocked_inv(1,2,4-6) [OF ih(1)] by (auto intro: live_same_trans)
  qed
qed

text \<open>A pool that \<open>Initialize\<close> made satisfies the invariant and has nothing out.\<close>

lemma tls_Initialize_inv:
  assumes "tls_Initialize os flsOk binsOk slots configs al new_pool = Some (True, slots', s)"
  shows "pool_inv s" and "payloads s = {}" and "MakeBinTable (map fst configs) al = Table (tp_table s)"
proof -
  obtain t where T: "MakeBinTable (map fst configs) al = Table t"
    using assms by (auto simp: tls_Initialize_def new_pool_def split: table_result.splits)
  obtain slot slots1 where S: "AcquireSlot slots = (slot, slots1)" by fastforce
  obtain okb gp where G: "gp_Initialize binsOk t (OwnerTag slot) new_GlobalBlockPool = (okb, gp)" by fastforce
  obtain okp gp' where P: "prealloc_all os t (add_requests t configs (replicate 24 0)) (unat (bt_binCount t)) gp = (okp, gp')"
    by fastforce
  have oks: "okb" "okp" and s: "s = new_pool\<lparr>tp_table := t, tp_slot := slot, tp_initialized := True, tp_global := gp'\<rparr>"
    using assms T S G P by (auto simp: tls_Initialize_def new_pool_def Let_def split: if_splits bool.splits)
  have gp: "gp = new_GlobalBlockPool\<lparr>gp_ownerTag := OwnerTag slot,
      gp_bins := replicate (unat (bt_binCount t)) empty_bin, gp_initialized := True\<rparr>"
    using G oks by (auto simp: gp_Initialize_def new_GlobalBlockPool_def Let_def split: if_splits)
  have F0: "FreeBlocks (\<lambda>_. None) b = {}" "LiveBlocks (\<lambda>_. None) b = {}" for b
    by (simp_all add: FreeBlocks_def LiveBlocks_def)
  have "table_ok t" using MakeBinTable_ok [OF T] .
  then have "gp_inv t gp (cached_lists [])"
    by (auto simp: gp gp_inv_def new_GlobalBlockPool_def heap_ok_def bin_inv_def bin_rel_def empty_bin_def F0
        cached_lists_def sum_list_replicate)
  moreover have "unat (bt_binCount t) \<le> length (gp_bins gp)" by (simp add: gp)
  ultimately have pi: "gp_inv t gp' (cached_lists [])" "live_same (gp_heap gp) (gp_heap gp')"
    "gp_raw gp' = []" "gp_ownerTag gp' = OwnerTag slot"
    using prealloc_all_inv [OF _ _ P] by (simp_all add: gp new_GlobalBlockPool_def)
  have h0: "gp_heap gp = (\<lambda>_. None)" by (simp add: gp new_GlobalBlockPool_def)
  have L: "LiveBlocks (gp_heap gp') b = {}" "BypassBlocks (gp_heap gp') = {}" "LiveAll (gp_heap gp') = {}" for b
    using live_same_LiveBlocks [OF pi(2)] live_same_Bypass [OF pi(2)] live_same_LiveAll [OF pi(2)]
    by (simp_all add: h0 LiveBlocks_def BypassBlocks_def LiveAll_def)
  have "unat (bt_binCount t) \<le> 24" using binCount_24 [OF pi(1)] .
  then show "pool_inv s"
    using pi L by (simp add: pool_inv_def s new_pool_def bypass_ok_def SumAcquire_def SumRelease_def)
  show "payloads s = {}" by (simp add: payloads_def s L)
  show "MakeBinTable (map fst configs) al = Table (tp_table s)" by (simp add: T s)
qed

lemma detach_all_inv:
  "pool_inv s \<Longrightarrow> n = length (tp_caches s) \<Longrightarrow>
     pool_inv (detach_all n s) \<and> payloads (detach_all n s) = payloads s \<and> tp_caches (detach_all n s) = [] \<and>
     LiveAll (gp_heap (tp_global (detach_all n s))) = LiveAll (gp_heap (tp_global s))"
proof (induction n arbitrary: s)
  case 0
  then show ?case by simp
next
  case (Suc n)
  have "0 < length (tp_caches s)" using Suc.prems(2) by linarith
  note d = Detach_inv [OF Suc.prems(1) this]
  have "n = length (tp_caches (Detach 0 s))" using d(4) Suc.prems(2) by simp
  from Suc.IH [OF d(1) this] d(2,6) show ?case by simp
qed

text \<open>The counters tell exactly whether a payload is out.\<close>

lemma blocksStillOut_iff:
  assumes inv: "pool_inv s"
  shows "blocksStillOut s \<longleftrightarrow> LiveAll (gp_heap (tp_global s)) \<noteq> {}"
proof -
  let ?h = "gp_heap (tp_global s)" and ?n = "unat (bt_binCount (tp_table s))"
  note g = pool_inv_gp [OF inv]
  have lb: "length (gp_bins (tp_global s)) = ?n" and hok: "heap_ok (tp_global s)" using g by (simp_all add: gp_inv_def)
  have finL: "finite (LiveBlocks ?h b)" if "b < ?n" for b
    using gp_inv_bin [OF g] that lb by (simp add: bin_inv_def)
  have finB: "finite (BypassBlocks ?h)" using inv by (simp add: pool_inv_def bypass_ok_def)
  have "sum_list (map (SumAcquire s) [0..<?n]) =
      sum_list (map (SumRelease s) [0..<?n]) + sum_list (map (\<lambda>b. card (LiveBlocks ?h b)) [0..<?n])"
  proof -
    have "map (SumAcquire s) [0..<?n] = map (\<lambda>b. SumRelease s b + card (LiveBlocks ?h b)) [0..<?n]"
      using inv by (intro map_cong) (auto simp: pool_inv_def)
    then show ?thesis by (simp only: sum_list_addf)
  qed
  moreover have "sum_list (map (\<lambda>b. card (LiveBlocks ?h b)) [0..<?n]) = 0 \<longleftrightarrow> (\<forall>b < ?n. LiveBlocks ?h b = {})"
    using finL by (auto simp: sum_list_eq_0_iff)
  moreover have "tp_bypassAcquire s = tp_bypassRelease s \<longleftrightarrow> BypassBlocks ?h = {}"
    using inv finB by (simp add: pool_inv_def)
  ultimately have "blocksStillOut s \<longleftrightarrow> \<not> ((\<forall>b < ?n. LiveBlocks ?h b = {}) \<and> BypassBlocks ?h = {})"
    by (auto simp: blocksStillOut_def)
  also have "(\<forall>b < ?n. LiveBlocks ?h b = {}) \<and> BypassBlocks ?h = {} \<longleftrightarrow> LiveAll ?h = {}"
  proof
    assume e: "(\<forall>b < ?n. LiveBlocks ?h b = {}) \<and> BypassBlocks ?h = {}"
    { fix a k assume k: "?h a = Some k" "bh_magic k = MAGIC_LIVE"
      from hok [unfolded heap_ok_def, rule_format, OF k(1)] lb
      consider "unat (bh_binIndex k) < ?n" | "bh_binIndex k = BIN_BYPASS" by auto
      then have False
      proof cases
        case 1
        then have "a \<in> LiveBlocks ?h (unat (bh_binIndex k))" using k by (simp add: LiveBlocks_def)
        with e 1 show False by simp
      next
        case 2
        then have "a \<in> BypassBlocks ?h" using k by (simp add: BypassBlocks_def)
        with e show False by simp
      qed }
    then show "LiveAll ?h = {}" by (auto simp: LiveAll_def)
  next
    assume "LiveAll ?h = {}"
    then show "(\<forall>b < ?n. LiveBlocks ?h b = {}) \<and> BypassBlocks ?h = {}"
      by (auto simp: LiveAll_def LiveBlocks_def BypassBlocks_def)
  qed
  finally show ?thesis by simp
qed

lemma registry_Finalize_inv:
  assumes "pool_inv s"
  shows "LiveAll (gp_heap (tp_global (registry_Finalize s))) = LiveAll (gp_heap (tp_global s))"
    and "blocksStillOut (registry_Finalize s) \<longleftrightarrow> LiveAll (gp_heap (tp_global s)) \<noteq> {}"
    and "tp_caches (registry_Finalize s) = []"
proof -
  note d = detach_all_inv [OF assms refl]
  then show "LiveAll (gp_heap (tp_global (registry_Finalize s))) = LiveAll (gp_heap (tp_global s))"
    "tp_caches (registry_Finalize s) = []"
    by (simp_all add: registry_Finalize_def)
  have "blocksStillOut (registry_Finalize s) = blocksStillOut (detach_all (length (tp_caches s)) s)"
    by (simp add: registry_Finalize_def blocksStillOut_def SumAcquire_def SumRelease_def cong: map_cong)
  then show "blocksStillOut (registry_Finalize s) \<longleftrightarrow> LiveAll (gp_heap (tp_global s)) \<noteq> {}"
    using blocksStillOut_iff d by simp
qed

text \<open>Which cells of the heap hold a header: pushing and flushing never removes or makes one.\<close>

definition same_dom :: "heap \<Rightarrow> heap \<Rightarrow> bool" where
  "same_dom h h' \<longleftrightarrow> (\<forall>a. h' a = None \<longleftrightarrow> h a = None)"

lemma same_dom_hmod [simp]: "same_dom h (hmod a f h)"
  by (simp add: same_dom_def hmod_def)

lemma same_dom_trans: "same_dom a b \<Longrightarrow> same_dom b c \<Longrightarrow> same_dom a c"
  by (simp add: same_dom_def)

lemma PushChunk_heap [simp]: "gp_heap (PushChunk b p n gp) = gp_heap gp"
  by (simp add: PushChunk_def)

lemma flush_loop_dom: "same_dom (gp_heap gp) (gp_heap (snd (flush_loop fuel batch bin all (l, gp))))"
proof (induction fuel arbitrary: l gp)
  case 0
  then show ?case by (simp add: same_dom_def)
next
  case (Suc fuel)
  obtain p n where l: "l = (p, n)" by fastforce
  show ?case
  proof (cases p)
    case None
    then show ?thesis by (simp add: l same_dom_def)
  next
    case (Some head)
    let ?take = "if batch > n then n else batch"
    show ?thesis
    proof (cases "?take = 0 \<or> hop (hnext (gp_heap gp)) head (?take - 1) = None")
      case True
      then show ?thesis by (auto simp: l Some same_dom_def Let_def)
    next
      case False
      then obtain tail where t: "hop (hnext (gp_heap gp)) head (?take - 1) = Some tail" by auto
      let ?g = "PushChunk bin (Some head) ?take (gp\<lparr>gp_heap := hmod tail (\<lambda>k. k\<lparr>bh_next := None\<rparr>) (gp_heap gp)\<rparr>)"
        and ?r = "(hnext (gp_heap gp) tail, n - ?take)"
      have E: "flush_loop (Suc fuel) batch bin all (l, gp) =
          (if all \<and> snd ?r > 0 then flush_loop fuel batch bin all (?r, ?g) else (?r, ?g))"
        using False t by (simp add: l Some Let_def cong: if_cong)
      have d: "same_dom (gp_heap gp) (gp_heap ?g)" by simp
      show ?thesis
      proof (cases "all \<and> snd ?r > 0")
        case True
        show ?thesis unfolding E if_P [OF True] using d Suc.IH by (rule same_dom_trans)
      next
        case nf: False
        show ?thesis unfolding E if_not_P [OF nf] by (simp only: snd_conv d)
      qed
    qed
  qed
qed

lemma Flush_dom: "same_dom (gp_heap gp) (gp_heap (snd (Flush t bin all (c, gp))))"
proof (cases "snd (tc_lists c ! bin) = 0 \<or> fst (tc_lists c ! bin) = None")
  case True
  then show ?thesis by (auto simp: Flush_def Let_def same_dom_def)
next
  case False
  obtain l' g' where L: "flush_loop (snd (tc_lists c ! bin)) (unat (bs_batchBlocks (bt_specs t ! bin))) bin all
      (tc_lists c ! bin, gp) = (l', g')" by fastforce
  have "gp_heap (snd (Flush t bin all (c, gp))) = gp_heap g'" using False L by (auto simp: Flush_def Let_def)
  with flush_loop_dom [of gp] L show ?thesis by (metis snd_conv)
qed

lemma Push_dom: "same_dom (gp_heap gp) (gp_heap (snd (Push t bin a (c, gp))))"
proof -
  define g where "g = gp\<lparr>gp_heap := hmod a (\<lambda>k. k\<lparr>bh_next := fst (tc_lists c ! bin)\<rparr>) (gp_heap gp)\<rparr>"
  have d: "same_dom (gp_heap gp) (gp_heap g)" by (simp add: g_def)
  have "\<exists>c'. Push t bin a (c, gp) = Flush t bin False (c', g) \<or> Push t bin a (c, gp) = (c', g)"
    by (auto simp: Push_def Let_def g_def)
  with d Flush_dom [of g] show ?thesis by (metis same_dom_trans snd_conv)
qed

text \<open>After a pooled block was returned, its header is still there and marked free.\<close>

lemma Release_pooled_free:
  assumes inv: "pool_inv s" and k: "gp_heap (tp_global s) a = Some k" "bh_magic k = MAGIC_LIVE"
    and nb: "bh_binIndex k \<noteq> BIN_BYPASS" and p: "p = PayloadOf a (bt_headerSize (tp_table s))"
    and s': "s' = Release al tid (Some p) s"
  shows "\<exists>k'. gp_heap (tp_global s') a = Some k' \<and> bh_magic k' = MAGIC_FREE" and "tp_table s' = tp_table s"
proof -
  have pp: "p \<in> payloads s" using k p by (auto simp: payloads_def LiveAll_def)
  note ri = Release_inv [OF inv pp, of al tid, folded s']
  let ?t = "tp_table s" and ?h = "gp_heap (tp_global s)"
  have init: "tp_initialized s" using inv by (simp add: pool_inv_def)
  have hok: "heap_ok (tp_global s)" using pool_inv_gp [OF inv] by (simp add: gp_inv_def)
  have tag: "bh_poolId k = OwnerTag (tp_slot s)"
    using hok [unfolded heap_ok_def, rule_format, OF k(1)] inv by (simp add: pool_inv_def)
  have nf: "bh_magic k \<noteq> MAGIC_FREE" using k by simp
  have H: "HeaderOf p (bt_headerSize ?t) = a" using p by simp
  obtain r s0 where G: "GetOrCreate al tid s = (r, s0)" by fastforce
  note gi = GetOrCreate_inv [OF inv G]
  define h1 where "h1 = hmod a (\<lambda>k. k\<lparr>bh_magic := MAGIC_FREE\<rparr>) ?h"
  have G1: "GetOrCreate al tid (s\<lparr>tp_global := (tp_global s)\<lparr>gp_heap := h1\<rparr>\<rparr>) = (r, s0\<lparr>tp_global := (tp_global s)\<lparr>gp_heap := h1\<rparr>\<rparr>)"
    unfolding GetOrCreate_global G by simp
  have nb': "\<not> unat (bh_binIndex k) \<ge> unat (bt_binCount ?t)"
    using hok [unfolded heap_ok_def, rule_format, OF k(1)] nb pool_inv_gp [OF inv] by (auto simp: gp_inv_def)
  have R: "s' = (case GetOrCreate al tid (s\<lparr>tp_global := (tp_global s)\<lparr>gp_heap := h1\<rparr>\<rparr>) of
            (None, s2) \<Rightarrow>
              s2\<lparr>tp_global := PushChunk (unat (bh_binIndex k)) (Some a) 1 ((tp_global s2)\<lparr>gp_heap :=
                   hmod a (\<lambda>k. k\<lparr>bh_next := None\<rparr>) (gp_heap (tp_global s2))\<rparr>),
                 tp_retiredRelease := (tp_retiredRelease s2)[unat (bh_binIndex k) := tp_retiredRelease s2 ! unat (bh_binIndex k) + 1]\<rparr>
          | (Some i, s2) \<Rightarrow>
              (case Push ?t (unat (bh_binIndex k)) a (tp_caches s2 ! i, tp_global s2) of
                 (c, gp') \<Rightarrow> s2\<lparr>tp_caches := (tp_caches s2)[i := c], tp_global := gp'\<rparr>))"
    unfolding s' Release_def option.case Let_def H k(1) h1_def using init nf k(2) tag nb nb' by simp
  have d1: "same_dom ?h h1" by (simp add: h1_def)
  have "same_dom ?h (gp_heap (tp_global s')) \<and> tp_table s' = ?t"
  proof (cases r)
    case None
    then show ?thesis unfolding R G1 using gi(3) d1 by (auto intro: same_dom_trans)
  next
    case (Some i)
    obtain c gp where P: "Push ?t (unat (bh_binIndex k)) a (tp_caches s0 ! i, (tp_global s)\<lparr>gp_heap := h1\<rparr>) = (c, gp)"
      by fastforce
    have "same_dom h1 (gp_heap gp)"
      using Push_dom [of "(tp_global s)\<lparr>gp_heap := h1\<rparr>" ?t "unat (bh_binIndex k)" a "tp_caches s0 ! i"] P by simp
    with d1 have "same_dom ?h (gp_heap gp)" by (rule same_dom_trans)
    then show ?thesis unfolding R G1 Some using gi(3) P by simp
  qed
  then have d: "same_dom ?h (gp_heap (tp_global s'))" and t: "tp_table s' = ?t" by simp_all
  show "tp_table s' = tp_table s" by (rule t)
  have "gp_heap (tp_global s') a \<noteq> None" using d k(1) by (simp add: same_dom_def)
  then obtain k' where k': "gp_heap (tp_global s') a = Some k'" by blast
  have "p \<notin> payloads s'" using ri(2) by simp
  then have "a \<notin> LiveAll (gp_heap (tp_global s'))" using p t by (auto simp: payloads_def)
  then have "bh_magic k' \<noteq> MAGIC_LIVE" using k' by (auto simp: LiveAll_def)
  moreover have "heap_ok (tp_global s')" using pool_inv_gp [OF ri(1)] by (simp add: gp_inv_def)
  ultimately show "\<exists>k'. gp_heap (tp_global s') a = Some k' \<and> bh_magic k' = MAGIC_FREE"
    using k' by (auto simp: heap_ok_def)
qed

section \<open>Histories of the pool\<close>

text \<open>
  What the threads of the engine do with the pool, one atomic operation after the other. The run
  keeps the payloads that are handed out by the acquisitions and returns, and notes whether every
  release was of a handed out payload (\<open>legal\<close>) and every acquired payload was new (\<open>fresh\<close>).
\<close>

datatype pool_op = Op_Acquire nat u64 | Op_Release nat addr | Op_ThreadExit nat

primrec pool_run :: "OS \<Rightarrow> bool \<Rightarrow> pool_op list \<Rightarrow> TlsMemoryPool \<Rightarrow> addr list \<Rightarrow> TlsMemoryPool \<times> addr list \<times> bool \<times> bool" where
  "pool_run os al [] s out = (s, out, True, True)"
| "pool_run os al (p # ops) s out =
     (case p of
        Op_Acquire tid sz \<Rightarrow>
          (case Acquire os al tid s sz of
             (None, s1) \<Rightarrow> pool_run os al ops s1 out
           | (Some a, s1) \<Rightarrow>
               (case pool_run os al ops s1 (a # out) of
                  (s2, out2, legal, fresh) \<Rightarrow> (s2, out2, legal, a \<notin> set out \<and> fresh)))
      | Op_Release tid a \<Rightarrow>
          (case pool_run os al ops (Release al tid (Some a) s) (filter (\<lambda>x. x \<noteq> a) out) of
             (s2, out2, legal, fresh) \<Rightarrow> (s2, out2, a \<in> set out \<and> legal, fresh))
      | Op_ThreadExit tid \<Rightarrow> pool_run os al ops (OnThreadExit tid s) out)"

lemma OnThreadExit_quiet [simp]:
  "tp_corruptions (OnThreadExit tid s) = tp_corruptions s" "tp_violations (OnThreadExit tid s) = tp_violations s"
  by (auto simp: OnThreadExit_def Detach_def split: option.split prod.split)

text \<open>The sizes asked for, each with room below 2 to the 64 for the header and the alignment of the bypass.\<close>

fun op_size_ok :: "pool_op \<Rightarrow> bool" where
  "op_size_ok (Op_Acquire tid sz) \<longleftrightarrow> unat sz + 2 ^ 13 < 2 ^ 64"
| "op_size_ok op \<longleftrightarrow> True"

lemma pool_run_inv:
  "list_all op_size_ok ops \<Longrightarrow> pool_inv s \<Longrightarrow> payloads s = set out \<Longrightarrow> pool_run os al ops s out = (s', out', True, fresh) \<Longrightarrow>
     pool_inv s' \<and> payloads s' = set out' \<and> fresh \<and>
     tp_corruptions s' = tp_corruptions s \<and> tp_violations s' = tp_violations s"
proof (induction ops arbitrary: s out fresh)
  case Nil
  then show ?case by simp
next
  case (Cons p ops)
  have sizes: "list_all op_size_ok ops" using Cons.prems(1) by simp
  show ?case
  proof (cases p)
    case (Op_Acquire tid sz)
    obtain r s1 where A: "Acquire os al tid s sz = (r, s1)" by fastforce
    have small: "unat sz + 2 ^ 13 < 2 ^ 64" using Cons.prems(1) Op_Acquire by simp
    note ai = Acquire_inv [OF Cons.prems(2) small A]
    show ?thesis
    proof (cases r)
      case None
      then have "pool_run os al ops s1 out = (s', out', True, fresh)" using Cons.prems(4) Op_Acquire A by simp
      with Cons.IH [OF sizes ai(1) _ this] ai None Cons.prems(3) show ?thesis by simp
    next
      case (Some a)
      obtain fr where R: "pool_run os al ops s1 (a # out) = (s', out', True, fr)" "fresh = (a \<notin> set out \<and> fr)"
        using Cons.prems(4) Op_Acquire A Some by (auto split: prod.splits)
      have "payloads s1 = set (a # out)" using ai(6) [OF Some] Cons.prems(3) by simp
      from Cons.IH [OF sizes ai(1) this R(1)] ai(2,3,6) Some R(2) Cons.prems(3) show ?thesis by simp
    qed
  next
    case (Op_Release tid a)
    have R: "pool_run os al ops (Release al tid (Some a) s) (filter (\<lambda>x. x \<noteq> a) out) = (s', out', True, fresh)"
      and a: "a \<in> payloads s" using Cons.prems(3,4) Op_Release by (auto split: prod.splits)
    note ri = Release_inv [OF Cons.prems(2) a, of al tid]
    have "payloads (Release al tid (Some a) s) = set (filter (\<lambda>x. x \<noteq> a) out)" using ri(2) Cons.prems(3) by auto
    from Cons.IH [OF sizes ri(1) this R] ri show ?thesis by simp
  next
    case (Op_ThreadExit tid)
    then have "pool_run os al ops (OnThreadExit tid s) out = (s', out', True, fresh)" using Cons.prems(4) by simp
    with Cons.IH [OF sizes OnThreadExit_inv(1) [OF Cons.prems(2)] _ this] OnThreadExit_inv(2) [OF Cons.prems(2)] Cons.prems(3)
    show ?thesis by simp
  qed
qed

section \<open>A concrete pool\<close>

definition os0 :: OS where
  "os0 = \<lparr>os_VirtualAlloc = (\<lambda>rs n. Some (65536 * (1 + length rs))),
          os_HeapAlloc = (\<lambda>rs n. Some (65536 * (100 + length rs))), os_HeapReAlloc = (\<lambda>_. True)\<rparr>"

definition spec0 :: BinSpec where
  "spec0 = \<lparr>bs_blockSize = 65536, bs_stride = 65552, bs_cacheCapBlocks = 0, bs_batchBlocks = 1, bs_blocksPerSegment = 3\<rparr>"
definition tab0 :: BinTable where
  "tab0 = \<lparr>bt_binCount = 1, bt_minBinLog = 16, bt_headerSize = 16, bt_payloadAlignment = 16, bt_minMask = 65535, bt_specs = [spec0]\<rparr>"

lemma spec0: "MakeBinSpec 65536 16 16 = Some spec0"
  by code_simp

lemma tab0: "MakeBinTable [65536] 16 = Table tab0"
proof -
  have c: "CeilLog2 65536 = 16" by code_simp
  have h: "HeaderSizeFor 16 = 16" by code_simp
  have p: "IsPowerOfTwo 16" by code_simp
  show ?thesis using spec0
    by (simp add: MakeBinTable_def c h p MIN_BLOCK_SIZE_def MAX_BIN_COUNT_def Let_def collect_specs_def tab0_def)
qed

definition pool0 :: TlsMemoryPool where
  "pool0 = new_pool\<lparr>tp_table := tab0, tp_slot := Some 0, tp_initialized := True, tp_global :=
     snd (Preallocate os0 tab0 0 1 (new_GlobalBlockPool\<lparr>gp_ownerTag := 0, gp_bins := [empty_bin], gp_initialized := True\<rparr>))\<rparr>"

lemma init0: "tls_Initialize os0 True True 0 [(65536, 1)] 16 new_pool = Some (True, 1, pool0)"
proof -
  have a: "AcquireSlot 0 = (Some 0, 1)" by code_simp
  have b: "BinOf tab0 65536 = 0" unfolding tab0_def by code_simp
  have g: "gp_Initialize True tab0 0 new_GlobalBlockPool = (True, new_GlobalBlockPool\<lparr>gp_ownerTag := 0, gp_bins := [empty_bin], gp_initialized := True\<rparr>)"
    by (simp add: gp_Initialize_def new_GlobalBlockPool_def tab0_def)
  have pr: "fst (Preallocate os0 tab0 0 1 (new_GlobalBlockPool\<lparr>gp_ownerTag := 0, gp_bins := [empty_bin], gp_initialized := True\<rparr>)) = True"
    by code_simp
  obtain gp where pr2: "Preallocate os0 tab0 0 1 (new_GlobalBlockPool\<lparr>gp_ownerTag := 0, gp_bins := [empty_bin], gp_initialized := True\<rparr>) = (True, gp)"
    using pr by (metis prod.collapse)
  have t1: "unat (bt_binCount tab0) = 1" by (simp add: tab0_def)
  have r: "add_requests tab0 [(65536, 1)] (replicate 24 0) ! 0 = 1" by (simp add: b t1)
  have P: "prealloc_all os0 tab0 (add_requests tab0 [(65536, 1)] (replicate 24 0)) 1
      (new_GlobalBlockPool\<lparr>gp_ownerTag := 0, gp_bins := [empty_bin], gp_initialized := True\<rparr>) = (True, gp)"
    unfolding One_nat_def prealloc_all.simps r using pr2 by simp
  have o: "OwnerTag (Some 0) = 0" by code_simp
  have n: "tp_initialized new_pool = False" "tp_global new_pool = new_GlobalBlockPool" by (simp_all add: new_pool_def)
  show ?thesis
    using tab0 a g P pr2 by (simp add: tls_Initialize_def n o t1 pool0_def Let_def)
qed
lemma size100: "unat (100 :: u64) + 2 ^ 13 < 2 ^ 64"
  by simp
lemma acq0: "fst (Acquire os0 True 1 pool0 100) = Some 196656"
  by code_simp
lemma pool0_ok: "pool_inv pool0" "payloads pool0 = {}"
  using tls_Initialize_inv [OF init0] by simp_all

section \<open>Properties\<close>

text \<open>
  C11. Memory safety of the pool over histories: after any sequence of acquisitions, releases of payloads that
  are handed out, and thread exits, by any threads in any order, on a pool that \<open>Initialize\<close> made,
  with any answers of the operating system, and for any sizes that leave room for a header and an alignment below 2 to the 64
  (beyond that the sum of the bypass wraps around, \<open>bypass_size_wraps\<close>): no acquisition ever returned a payload that was
  still handed out, no corruption or violation was reported, and the payloads marked live in the block headers
  are exactly those the callers hold.
\<close>

theorem pool_histories_safe:
  assumes "tls_Initialize os0' fls bins slots configs align new_pool = Some (True, slots', s)"
    and "list_all op_size_ok ops" and "pool_run os al ops s [] = (s', out, True, fresh)"
  shows "fresh \<and> payloads s' = set out \<and> tp_corruptions s' = 0 \<and> tp_violations s' = 0 \<and> pool_inv s'"
proof -
  note i = tls_Initialize_inv [OF assms(1)]
  have "payloads s = set []" using i(2) by simp
  note r = pool_run_inv [OF assms(2) i(1) this assms(3)]
  have "tp_corruptions s = 0 \<and> tp_violations s = 0"
    using assms(1) by (auto simp: tls_Initialize_def new_pool_def Let_def split: table_result.splits prod.splits if_splits bool.splits)
  with r show ?thesis by simp
qed

definition ops0 :: "pool_op list" where
  "ops0 = [Op_Acquire 1 100, Op_Acquire 2 70000, Op_Release 2 196656, Op_ThreadExit 2]"

lemma pool_histories_safe_witness:
  "\<exists>s' fresh. pool_run os0 True ops0 pool0 [] = (s', [6619152], True, fresh) \<and>
     fresh \<and> payloads s' = {6619152} \<and> tp_corruptions s' = 0"
proof -
  have "case pool_run os0 True ops0 pool0 [] of (s', out, legal, fresh) \<Rightarrow> out = [6619152] \<and> legal"
    by code_simp
  then obtain s' fresh where r: "pool_run os0 True ops0 pool0 [] = (s', [6619152], True, fresh)"
    by (auto split: prod.splits)
  have "list_all op_size_ok ops0" by (simp add: ops0_def)
  from pool_histories_safe [OF init0 this r] r show ?thesis by auto
qed

text \<open>
  C12. Double frees are caught: releasing a pooled payload a second time, by any thread, changes
  nothing but the corruption counter, wherever the block went in between (the first releaser's cache or a
  chunk of the global layer).
\<close>

theorem double_free_detected:
  assumes "pool_inv s" and "gp_heap (tp_global s) a = Some k" and "bh_magic k = MAGIC_LIVE"
    and "bh_binIndex k \<noteq> BIN_BYPASS" and "p = PayloadOf a (bt_headerSize (tp_table s))"
    and "s' = Release al tid (Some p) s"
  shows "Release al' tid' (Some p) s' = s'\<lparr>tp_corruptions := tp_corruptions s' + 1\<rparr> \<and> tp_corruptions s' = tp_corruptions s"
proof -
  have p: "p \<in> payloads s" using assms(2,3,5) by (auto simp: payloads_def LiveAll_def)
  obtain k' where k': "gp_heap (tp_global s') a = Some k'" "bh_magic k' = MAGIC_FREE"
    using Release_pooled_free(1) [OF assms] by blast
  have h: "HeaderOf p (bt_headerSize (tp_table s')) = a"
    using assms(5) Release_pooled_free(2) [OF assms] by simp
  have "tp_initialized s'" using Release_inv(1) [OF assms(1) p] assms(6) by (simp add: pool_inv_def)
  with k' h Release_inv(3) [OF assms(1) p] assms(6) show ?thesis by (simp add: Release_def Let_def)
qed

definition pool1 :: TlsMemoryPool where "pool1 = snd (Acquire os0 True 1 pool0 100)"

lemma acq1: "Acquire os0 True 1 pool0 100 = (Some 196656, pool1)"
  using acq0 by (metis pool1_def prod.collapse)

lemma double_free_detected_witness:
  "\<exists>k. gp_heap (tp_global pool1) 196640 = Some k \<and>
     Release True 2 (Some 196656) (Release True 1 (Some 196656) pool1) =
       (Release True 1 (Some 196656) pool1)\<lparr>tp_corruptions := 1\<rparr>"
proof -
  have "case gp_heap (tp_global pool1) 196640 of None \<Rightarrow> False
      | Some k \<Rightarrow> bh_magic k = MAGIC_LIVE \<and> bh_binIndex k \<noteq> BIN_BYPASS" by code_simp
  then obtain k where k: "gp_heap (tp_global pool1) 196640 = Some k" "bh_magic k = MAGIC_LIVE" "bh_binIndex k \<noteq> BIN_BYPASS"
    by (auto split: option.splits)
  note A = acq1
  have i: "pool_inv pool1" using Acquire_inv(1) [OF pool0_ok(1) size100 A] .
  have t: "(196656 :: nat) = PayloadOf 196640 (bt_headerSize (tp_table pool1))"
    using Acquire_inv(4) [OF pool0_ok(1) size100 A] by (simp add: pool0_def tab0_def PayloadOf_def)
  have c: "tp_corruptions pool1 = 0"
    using Acquire_inv(2) [OF pool0_ok(1) size100 A] by (simp add: pool0_def new_pool_def)
  from double_free_detected [OF i k t refl, of True 2 True 1] c k(1) show ?thesis by simp
qed

lemma size_sum_mset: "size (\<Sum>l \<in># M. f l) = (\<Sum>l \<in># M. size (f l))" for f :: "'a \<Rightarrow> 'b multiset"
  by (induction M) simp_all

text \<open>
  No block is lost: in every reachable state, the blocks a bin ever made are those in its global
  stock, those in the thread caches and those that are out (\<open>acquire - release\<close>), as the statistics claim.
\<close>

theorem blocks_conserved:
  assumes "pool_inv s" and "b < unat (bt_binCount (tp_table s))"
  shows "b_blocksCreated (gp_bins (tp_global s) ! b) =
      b_blocksInPool (gp_bins (tp_global s) ! b) + int (SumCached s b) + (int (SumAcquire s b) - int (SumRelease s b)) \<and>
    SumRelease s b \<le> SumAcquire s b"
proof -
  let ?h = "gp_heap (tp_global s)" and ?B = "gp_bins (tp_global s) ! b"
  note g = pool_inv_gp [OF assms(1)]
  have bl: "b < length (gp_bins (tp_global s))" using g assms(2) by (simp add: gp_inv_def)
  have bi: "bin_inv ?h ?B b (cached_lists (tp_caches s) b)" using gp_inv_bin [OF g bl] .
  then have r: "bin_rel ?h b (mset (b_chunkList ?B) + cached_lists (tp_caches s) b)" by (simp add: bin_inv_def)
  let ?M = "mset (b_chunkList ?B) + cached_lists (tp_caches s) b"
  have "card (FreeBlocks ?h b) = size (mset_set (FreeBlocks ?h b))" by simp
  also have "\<dots> = size (\<Sum>l \<in># ?M. mset (list_addrs ?h l))" using r by (simp add: bin_rel_def)
  also have "\<dots> = (\<Sum>l \<in># ?M. size (mset (list_addrs ?h l)))" by (rule size_sum_mset)
  also have "\<dots> = (\<Sum>l \<in># ?M. snd l)"
    using r wf_listD by (intro arg_cong [of _ _ sum_mset] image_mset_cong) (auto simp: bin_rel_def)
  also have "\<dots> = sum_list (map snd (b_chunkList ?B)) + SumCached s b"
    by (simp add: cached_lists_def SumCached_def sum_mset_sum_list [symmetric] multiset.map_comp o_def)
  finally have "card (FreeBlocks ?h b) = sum_list (map snd (b_chunkList ?B)) + SumCached s b" .
  moreover have "SumAcquire s b = SumRelease s b + card (LiveBlocks ?h b)" using assms by (simp add: pool_inv_def)
  ultimately show ?thesis using bi by (simp add: bin_inv_def)
qed

lemma blocks_conserved_witness:
  "b_blocksCreated (gp_bins (tp_global pool0) ! 0) =
      b_blocksInPool (gp_bins (tp_global pool0) ! 0) + int (SumCached pool0 0) +
      (int (SumAcquire pool0 0) - int (SumRelease pool0 0)) \<and> SumRelease pool0 0 \<le> SumAcquire pool0 0"
  by (rule blocks_conserved [OF pool0_ok(1)]) (simp add: pool0_def tab0_def)

text \<open>
  \<open>Finalize\<close> unmaps the segments exactly when no payload is out: the acquire and release counters of the bins
  and of the bypass differ if and only if some payload is handed out; then every live block keeps
  its header, and otherwise no header is left in any segment.
\<close>

theorem Finalize_keeps_live_blocks:
  assumes "pool_inv s" and "tls_Finalize s = (kept, s')"
  shows "\<not> tp_initialized s' \<and> (blocksStillOut (registry_Finalize s) \<longleftrightarrow> payloads s \<noteq> {}) \<and>
    (if payloads s \<noteq> {} then LiveAll (gp_heap (tp_global s')) = LiveAll (gp_heap (tp_global s))
     else kept = 0 \<and>
       (\<forall>a. in_regions (segs (tp_global (registry_Finalize s))) a \<longrightarrow> gp_heap (tp_global s') a = None))"
proof -
  note rf = registry_Finalize_inv [OF assms(1)]
  have p: "payloads s \<noteq> {} \<longleftrightarrow> LiveAll (gp_heap (tp_global s)) \<noteq> {}" by (simp add: payloads_def)
  then have b: "blocksStillOut (registry_Finalize s) \<longleftrightarrow> payloads s \<noteq> {}" using rf by simp
  have init: "tp_initialized s" using assms(1) by (simp add: pool_inv_def)
  define s1 where "s1 = registry_Finalize s"
  obtain k gp where G: "gp_Finalize (\<not> blocksStillOut s1) (tp_global s1) = (k, gp)" by fastforce
  have F: "kept = k" "s' = s1\<lparr>tp_global := gp, tp_bypassAcquire := 0, tp_bypassRelease := 0,
      tp_table := empty_BinTable, tp_initialized := False\<rparr>"
    using assms(2) init G by (simp_all add: tls_Finalize_def Let_def s1_def [symmetric])
  have "if payloads s \<noteq> {} then gp_heap gp = gp_heap (tp_global s1)
        else k = 0 \<and> (\<forall>a. in_regions (segs (tp_global s1)) a \<longrightarrow> gp_heap gp a = None)"
  proof (cases "payloads s = {}")
    case True
    with G b show ?thesis unfolding s1_def [symmetric] by (auto simp: gp_Finalize_def Let_def)
  next
    case False
    then have "blocksStillOut s1" using b by (simp add: s1_def)
    with G False show ?thesis by (auto simp: gp_Finalize_def Let_def)
  qed
  with F b rf(1) show ?thesis unfolding s1_def [symmetric] by (simp split: if_splits)
qed

lemma pool1_ok: "pool_inv pool1" "payloads pool1 = {196656}"
  using Acquire_inv(1,6) [OF pool0_ok(1) size100 acq1] pool0_ok(2) by simp_all

lemma Finalize_keeps_live_blocks_witness:
  "\<exists>kept s'. tls_Finalize pool1 = (kept, s') \<and> LiveAll (gp_heap (tp_global s')) = LiveAll (gp_heap (tp_global pool1)) \<and>
     LiveAll (gp_heap (tp_global s')) \<noteq> {} \<and> \<not> tp_initialized s'"
proof -
  obtain kept s' where F: "tls_Finalize pool1 = (kept, s')" by fastforce
  have "LiveAll (gp_heap (tp_global pool1)) \<noteq> {}" using pool1_ok(2) by (auto simp: payloads_def)
  with Finalize_keeps_live_blocks [OF pool1_ok(1) F] pool1_ok(2) F show ?thesis by simp
qed

text \<open>
  The commit limit bounds runtime growth: with a limit set and not yet exceeded, serving a thread cache
  never takes the pool's committed bytes beyond it, whatever the system answers; a refused growth is an empty
  answer that leaves the heap as it was, and the invariant survives either way.
\<close>

theorem PopChunk_respects_limit:
  assumes "gp_inv t gp X" and "bin < length (gp_bins gp)" and "PopChunk os t bin gp = ((p, n), gp')"
    and "gp_maxCommittedBytes gp \<noteq> 0" and "gp_committedBytes gp \<le> gp_maxCommittedBytes gp"
  shows "gp_committedBytes gp' \<le> gp_maxCommittedBytes gp \<and> gp_maxCommittedBytes gp' = gp_maxCommittedBytes gp \<and>
    (if p = None then n = 0 \<and> gp_inv t gp' X \<and> gp_heap gp' = gp_heap gp
     else 0 < n \<and> gp_inv t gp' (X(bin := add_mset (p, n) (X bin))))"
  using PopChunk_inv [OF assms(1-3)] assms(4,5) by (auto simp: gp_frame_def)

text \<open>A bin with an empty stock under a limit that its next segment would break.\<close>

definition gp_limited :: GlobalBlockPool where
  "gp_limited = new_GlobalBlockPool\<lparr>gp_bins := [empty_bin], gp_initialized := True, gp_maxCommittedBytes := 1000\<rparr>"

lemma PopChunk_respects_limit_witness:
  "\<exists>gp'. PopChunk os0 tab0 0 gp_limited = ((None, 0), gp') \<and> gp_committedBytes gp' \<le> 1000 \<and>
     gp_commitLimitHits gp' = 1"
proof -
  have "table_ok tab0" using MakeBinTable_ok [OF tab0] .
  then have i: "gp_inv tab0 gp_limited (\<lambda>_. {#})"
    by (simp add: gp_limited_def gp_inv_def new_GlobalBlockPool_def heap_ok_def bin_inv_def bin_rel_def
        empty_bin_def FreeBlocks_def LiveBlocks_def tab0_def)
  have "case PopChunk os0 tab0 0 gp_limited of (c, gp') \<Rightarrow> c = (None, 0) \<and> gp_commitLimitHits gp' = 1" by code_simp
  then obtain gp' where P: "PopChunk os0 tab0 0 gp_limited = ((None, 0), gp')" "gp_commitLimitHits gp' = 1"
    by (auto split: prod.splits)
  have b: "0 < length (gp_bins gp_limited)" "gp_maxCommittedBytes gp_limited = 1000" "gp_committedBytes gp_limited = 0"
    by (simp_all add: gp_limited_def new_GlobalBlockPool_def)
  from PopChunk_respects_limit [OF i b(1) P(1)] P b show ?thesis by simp
qed

end
