(* ===== verification/SendQueue.thy ===== *)
theory SendQueue
  imports Protocol TlsPool
begin

text \<open>
  The send queue of a session (\<open>Buffer/SendPacketQueue\<close>, \<open>Buffer/SendPacketEntry.h\<close>), the reference
  counted packet of a broadcast (\<open>Buffer/SharedSendPacket.h\<close>) and the pool helpers they use
  (\<open>Memory/EngineMemoryPoolHelper.h\<close>).

  The entries are blocks of the send queue pool linked through \<open>next\<close>; \<open>SendWorld\<close> holds the two pools
  and the objects living in their blocks. The pools are used only through \<open>acquire\<close> and
  \<open>release\<close>, so the lemmas are proved in the locale \<open>packet_pool\<close> and the properties instantiate them
  with the thread-caching pool.
\<close>

section \<open>Entries, shared packets and the memory they live in\<close>

text \<open>
  A \<open>SendPacketReleaseFunc\<close> is the engine's own \<open>SHARED_SEND_PACKET::ReleaseCallback\<close> or a callback of
  the service, of which the model only records the call.
\<close>

datatype release_func = ReleaseCallback | UserRelease nat

record SendPacketEntry =
  en_next :: "addr option"
  en_packetData :: "addr option"
  en_packetSize :: u32
  en_releaseFunc :: "release_func option"
  en_releaseContext :: "addr option"

definition new_entry :: SendPacketEntry where
  "new_entry = \<lparr>en_next = None, en_packetData = None, en_packetSize = 0,
     en_releaseFunc = None, en_releaseContext = None\<rparr>"

text \<open>
  \<open>refCount\<close> is a \<open>LONG\<close> that only moves by one and is compared with zero. The two pool pointers are
  modelled by whether they are set: the packet pool for \<open>packetPool\<close>, the send queue pool for \<open>selfPool\<close>.
\<close>

record SharedSendPacket =
  sp_refCount :: u32
  sp_packet :: "addr option"
  sp_packetPool :: bool
  sp_selfPool :: bool

abbreviation sizeof_SendPacketEntry :: nat where "sizeof_SendPacketEntry \<equiv> 40"
abbreviation sizeof_SharedSendPacket :: nat where "sizeof_SharedSendPacket \<equiv> 32"

record 'p SendWorld =
  w_entryPool :: 'p
  w_packetPool :: 'p
  w_entries :: "addr \<Rightarrow> SendPacketEntry option"
  w_shared :: "addr \<Rightarrow> SharedSendPacket option"
  w_userCalls :: "(nat \<times> addr \<times> addr option) list"
  w_violations :: nat

definition entry_at :: "'p SendWorld \<Rightarrow> addr \<Rightarrow> SendPacketEntry" where
  "entry_at w a = (case w_entries w a of Some e \<Rightarrow> e | None \<Rightarrow> new_entry)"

definition set_entry :: "addr \<Rightarrow> SendPacketEntry \<Rightarrow> 'p SendWorld \<Rightarrow> 'p SendWorld" where
  "set_entry a e w = w\<lparr>w_entries := (w_entries w)(a := Some e)\<rparr>"

section \<open>Pool helpers\<close>

definition CreateSendPacketEntry ::
  "('p \<Rightarrow> nat \<Rightarrow> addr option \<times> 'p) \<Rightarrow> 'p SendWorld \<Rightarrow> addr option \<times> 'p SendWorld" where
  "CreateSendPacketEntry acquire w =
     (case acquire (w_entryPool w) sizeof_SendPacketEntry of
        (None, p) \<Rightarrow> (None, w\<lparr>w_entryPool := p\<rparr>)
      | (Some a, p) \<Rightarrow> (Some a, set_entry a new_entry (w\<lparr>w_entryPool := p\<rparr>)))"

text \<open>Returning a block to its pool ends the life of the entry in it.\<close>

definition ReleaseSendPacketEntry ::
  "('p \<Rightarrow> addr \<Rightarrow> 'p) \<Rightarrow> addr \<Rightarrow> 'p SendWorld \<Rightarrow> 'p SendWorld" where
  "ReleaseSendPacketEntry release a w =
     w\<lparr>w_entryPool := release (w_entryPool w) a, w_entries := (w_entries w)(a := None)\<rparr>"

definition ReleasePacket :: "('p \<Rightarrow> addr \<Rightarrow> 'p) \<Rightarrow> addr option \<Rightarrow> 'p SendWorld \<Rightarrow> 'p SendWorld" where
  "ReleasePacket release m w =
     (case m of None \<Rightarrow> w | Some a \<Rightarrow> w\<lparr>w_packetPool := release (w_packetPool w) a\<rparr>)"

section \<open>Shared packets\<close>

definition shared_Create ::
  "('p \<Rightarrow> nat \<Rightarrow> addr option \<times> 'p) \<Rightarrow> addr option \<Rightarrow> 'p SendWorld \<Rightarrow> addr option \<times> 'p SendWorld" where
  "shared_Create acquire packet w =
     (if packet = None then (None, w)
      else
        (case acquire (w_entryPool w) sizeof_SharedSendPacket of
           (None, p) \<Rightarrow> (None, w\<lparr>w_entryPool := p\<rparr>)
         | (Some c, p) \<Rightarrow>
             (Some c, w\<lparr>w_entryPool := p, w_shared := (w_shared w)(c := Some
                \<lparr>sp_refCount = 1, sp_packet = packet, sp_packetPool = True, sp_selfPool = True\<rparr>)\<rparr>)))"

definition shared_AddRef :: "addr option \<Rightarrow> 'p SendWorld \<Rightarrow> 'p SendWorld" where
  "shared_AddRef shared w =
     (case shared of None \<Rightarrow> w
      | Some c \<Rightarrow> w\<lparr>w_shared := (w_shared w)(c := map_option
                     (\<lambda>s. s\<lparr>sp_refCount := sp_refCount s + 1\<rparr>) (w_shared w c))\<rparr>)"

definition shared_Release :: "('p \<Rightarrow> addr \<Rightarrow> 'p) \<Rightarrow> addr option \<Rightarrow> 'p SendWorld \<Rightarrow> 'p SendWorld" where
  "shared_Release release shared w =
     (case shared of
        None \<Rightarrow> w
      | Some c \<Rightarrow>
          (case w_shared w c of
             None \<Rightarrow> w\<lparr>w_violations := w_violations w + 1\<rparr>
           | Some s \<Rightarrow>
               (let n = sp_refCount s - 1 in
                if n \<noteq> 0 then w\<lparr>w_shared := (w_shared w)(c := Some (s\<lparr>sp_refCount := n\<rparr>))\<rparr>
                else
                  (let w1 = (if sp_packet s \<noteq> None \<and> sp_packetPool s
                             then w\<lparr>w_packetPool := release (w_packetPool w) (the (sp_packet s))\<rparr> else w)
                   in if sp_selfPool s
                      then w1\<lparr>w_entryPool := release (w_entryPool w1) c, w_shared := (w_shared w1)(c := None)\<rparr>
                      else w1\<lparr>w_shared := (w_shared w1)(c := Some (s\<lparr>sp_refCount := 0, sp_packet := None,
                                sp_packetPool := False, sp_selfPool := False\<rparr>))\<rparr>))))"

text \<open>Calling an entry's \<open>releaseFunc\<close>.\<close>

definition call_release ::
  "('p \<Rightarrow> addr \<Rightarrow> 'p) \<Rightarrow> release_func \<Rightarrow> addr \<Rightarrow> addr option \<Rightarrow> 'p SendWorld \<Rightarrow> 'p SendWorld" where
  "call_release release f packetData context w =
     (case f of
        ReleaseCallback \<Rightarrow> shared_Release release context w
      | UserRelease n \<Rightarrow> w\<lparr>w_userCalls := w_userCalls w @ [(n, packetData, context)]\<rparr>)"

section \<open>The queue\<close>

text \<open>The three pool pointers are modelled by whether they are set.\<close>

record SendPacketQueue =
  sq_head :: "addr option"
  sq_tail :: "addr option"
  sq_count :: u32
  sq_maxCount :: u32
  sq_sendQueueMemoryPool :: bool
  sq_packetMemoryPool :: bool
  sq_generalMemoryPool :: bool

definition new_SendPacketQueue :: SendPacketQueue where
  "new_SendPacketQueue = \<lparr>sq_head = None, sq_tail = None, sq_count = 0, sq_maxCount = 0,
     sq_sendQueueMemoryPool = False, sq_packetMemoryPool = False, sq_generalMemoryPool = False\<rparr>"

definition PushBack :: "addr \<Rightarrow> SendPacketQueue \<times> 'p SendWorld \<Rightarrow> bool \<times> SendPacketQueue \<times> 'p SendWorld" where
  "PushBack entry = (\<lambda>(q, w).
     (let w1 = set_entry entry ((entry_at w entry)\<lparr>en_next := None\<rparr>) w in
      if sq_count q \<ge> sq_maxCount q then (False, q, w1)
      else
        (let (q2, w2) =
               (case sq_tail q of
                  Some t \<Rightarrow> (q, set_entry t ((entry_at w1 t)\<lparr>en_next := Some entry\<rparr>) w1)
                | None \<Rightarrow> (q\<lparr>sq_head := Some entry\<rparr>, w1))
         in (True, q2\<lparr>sq_tail := Some entry, sq_count := sq_count q2 + 1\<rparr>, w2))))"

text \<open>
  The part \<open>Enqueue\<close> and \<open>EnqueueShared\<close> have in common: an entry is acquired, filled in and pushed; an
  entry the queue refuses goes back to its pool.
\<close>

definition push_new ::
  "('p \<Rightarrow> nat \<Rightarrow> addr option \<times> 'p) \<Rightarrow> ('p \<Rightarrow> addr \<Rightarrow> 'p) \<Rightarrow> (SendPacketEntry \<Rightarrow> SendPacketEntry) \<Rightarrow>
     SendPacketQueue \<times> 'p SendWorld \<Rightarrow> bool \<times> SendPacketQueue \<times> 'p SendWorld" where
  "push_new acquire release fill = (\<lambda>(q, w).
     (case CreateSendPacketEntry acquire w of
        (None, w1) \<Rightarrow> (False, q, w1)
      | (Some entry, w1) \<Rightarrow>
          (case PushBack entry (q, set_entry entry (fill (entry_at w1 entry)) w1) of
             (False, q2, w2) \<Rightarrow> (False, q2, ReleaseSendPacketEntry release entry w2)
           | (True, q2, w2) \<Rightarrow> (True, q2, w2))))"

text \<open>
  \<open>Enqueue\<close>. The argument is the caller's pointer variable (\<open>None\<close> when no variable is passed), the second
  component of the result is that variable afterwards.
\<close>

definition Enqueue ::
  "('p \<Rightarrow> nat \<Rightarrow> addr option \<times> 'p) \<Rightarrow> ('p \<Rightarrow> addr \<Rightarrow> 'p) \<Rightarrow> addr option option \<Rightarrow> u32 \<Rightarrow>
     SendPacketQueue \<times> 'p SendWorld \<Rightarrow> bool \<times> addr option option \<times> SendPacketQueue \<times> 'p SendWorld" where
  "Enqueue acquire release packetData sz = (\<lambda>(q, w).
     if \<not> sq_sendQueueMemoryPool q \<or> \<not> sq_packetMemoryPool q \<or> \<not> sq_generalMemoryPool q
     then (False, packetData, q, w)
     else if packetData = None \<or> packetData = Some None \<or> sz = 0 \<or> sz > PACKET_SIZE_LIMIT
     then (False, packetData, q, w)
     else
       (case push_new acquire release (\<lambda>e. e\<lparr>en_packetData := the packetData, en_packetSize := sz,
                en_releaseFunc := None, en_releaseContext := None\<rparr>) (q, w) of
          (False, q', w') \<Rightarrow> (False, packetData, q', w')
        | (True, q', w') \<Rightarrow> (True, Some None, q', w')))"

definition EnqueueShared ::
  "('p \<Rightarrow> nat \<Rightarrow> addr option \<times> 'p) \<Rightarrow> ('p \<Rightarrow> addr \<Rightarrow> 'p) \<Rightarrow> addr option \<Rightarrow> u32 \<Rightarrow> release_func option \<Rightarrow>
     addr option \<Rightarrow> SendPacketQueue \<times> 'p SendWorld \<Rightarrow> bool \<times> SendPacketQueue \<times> 'p SendWorld" where
  "EnqueueShared acquire release packetData sz releaseFunc releaseContext = (\<lambda>(q, w).
     if \<not> sq_sendQueueMemoryPool q \<or> \<not> sq_packetMemoryPool q \<or> \<not> sq_generalMemoryPool q
     then (False, q, w)
     else if packetData = None \<or> sz = 0 \<or> sz > PACKET_SIZE_LIMIT \<or> releaseFunc = None
     then (False, q, w)
     else push_new acquire release (\<lambda>e. e\<lparr>en_packetData := packetData, en_packetSize := sz,
            en_releaseFunc := releaseFunc, en_releaseContext := releaseContext\<rparr>) (q, w))"

definition Dequeue :: "SendPacketQueue \<times> 'p SendWorld \<Rightarrow> addr option \<times> SendPacketQueue \<times> 'p SendWorld" where
  "Dequeue = (\<lambda>(q, w).
     (case sq_head q of
        None \<Rightarrow> (None, q, w)
      | Some entry \<Rightarrow>
          (let head = en_next (entry_at w entry);
               q1 = q\<lparr>sq_head := head, sq_tail := (if head = None then None else sq_tail q),
                      sq_count := sq_count q - 1\<rparr>
           in (Some entry, q1, set_entry entry ((entry_at w entry)\<lparr>en_next := None\<rparr>) w))))"

definition ReleaseEntry ::
  "('p \<Rightarrow> addr \<Rightarrow> 'p) \<Rightarrow> SendPacketQueue \<Rightarrow> addr option \<Rightarrow> 'p SendWorld \<Rightarrow> 'p SendWorld" where
  "ReleaseEntry release q entry w =
     (case entry of
        None \<Rightarrow> w
      | Some a \<Rightarrow>
          (let e = entry_at w a;
               w1 = (case en_packetData e of
                       None \<Rightarrow> w
                     | Some p \<Rightarrow>
                         (case en_releaseFunc e of
                            Some f \<Rightarrow> call_release release f p (en_releaseContext e) w
                          | None \<Rightarrow>
                              if sq_packetMemoryPool q \<and> sq_generalMemoryPool q
                              then ReleasePacket release (Some p) w
                              else w\<lparr>w_violations := w_violations w + 1\<rparr>));
               w2 = set_entry a new_entry w1
           in if sq_sendQueueMemoryPool q then ReleaseSendPacketEntry release a w2
              else w2\<lparr>w_violations := w_violations w2 + 1\<rparr>))"

text \<open>
  The loop of \<open>Reset\<close>. The chain holds \<open>m_count\<close> entries, so the count read before the chain is detached is
  the fuel; \<open>Reset_releases_everything\<close> shows that it suffices.
\<close>

primrec release_chain ::
  "nat \<Rightarrow> ('p \<Rightarrow> addr \<Rightarrow> 'p) \<Rightarrow> SendPacketQueue \<Rightarrow> addr option \<Rightarrow> 'p SendWorld \<Rightarrow> addr option \<times> 'p SendWorld" where
  "release_chain 0 release q c w = (c, w)"
| "release_chain (Suc n) release q c w =
     (case c of
        None \<Rightarrow> (None, w)
      | Some a \<Rightarrow> release_chain n release q (en_next (entry_at w a)) (ReleaseEntry release q (Some a) w))"

definition sq_Reset ::
  "('p \<Rightarrow> addr \<Rightarrow> 'p) \<Rightarrow> SendPacketQueue \<times> 'p SendWorld \<Rightarrow> SendPacketQueue \<times> 'p SendWorld" where
  "sq_Reset release = (\<lambda>(q, w).
     (let q1 = q\<lparr>sq_head := None, sq_tail := None, sq_count := 0\<rparr>
      in (q1, snd (release_chain (unat (sq_count q)) release q1 (sq_head q) w))))"

definition sq_Finalize ::
  "('p \<Rightarrow> addr \<Rightarrow> 'p) \<Rightarrow> SendPacketQueue \<times> 'p SendWorld \<Rightarrow> SendPacketQueue \<times> 'p SendWorld" where
  "sq_Finalize release qw = (let (q, w) = sq_Reset release qw in (new_SendPacketQueue, w))"

definition sq_Initialize ::
  "('p \<Rightarrow> addr \<Rightarrow> 'p) \<Rightarrow> bool \<Rightarrow> bool \<Rightarrow> bool \<Rightarrow> u32 \<Rightarrow> SendPacketQueue \<times> 'p SendWorld \<Rightarrow>
     bool \<times> SendPacketQueue \<times> 'p SendWorld" where
  "sq_Initialize release sendQueuePool packetPool generalPool maxCount qw =
     (if \<not> sendQueuePool \<or> \<not> packetPool \<or> \<not> generalPool then (False, qw)
      else if maxCount = 0 then (False, (fst qw, (snd qw)\<lparr>w_violations := w_violations (snd qw) + 1\<rparr>))
      else
        (let (q, w) = sq_Finalize release qw
         in (True, q\<lparr>sq_sendQueueMemoryPool := True, sq_packetMemoryPool := True, sq_generalMemoryPool := True,
                     sq_maxCount := maxCount, sq_head := None, sq_tail := None, sq_count := 0\<rparr>, w)))"

definition sq_IsEmpty :: "SendPacketQueue \<Rightarrow> bool" where
  "sq_IsEmpty q \<longleftrightarrow> sq_count q = 0"

definition sq_GetCount :: "SendPacketQueue \<Rightarrow> u32" where
  "sq_GetCount q = sq_count q"

section \<open>What the queue holds\<close>

definition entry_links :: "'p SendWorld \<Rightarrow> links" where
  "entry_links w a = en_next (entry_at w a)"

definition sq_contents :: "SendPacketQueue \<times> 'p SendWorld \<Rightarrow> addr list" where
  "sq_contents = (\<lambda>(q, w). walk (entry_links w) (sq_head q) (unat (sq_count q)))"

definition sq_inv :: "SendPacketQueue \<times> 'p SendWorld \<Rightarrow> bool" where
  "sq_inv = (\<lambda>(q, w). chain (entry_links w) (sq_head q) (sq_contents (q, w)) \<and>
     length (sq_contents (q, w)) = unat (sq_count q) \<and> sq_count q \<le> sq_maxCount q \<and>
     sq_tail q = (if sq_contents (q, w) = [] then None else Some (last (sq_contents (q, w)))))"

definition sq_room :: "SendPacketQueue \<times> 'p SendWorld \<Rightarrow> bool" where
  "sq_room = (\<lambda>(q, w). sq_count q < sq_maxCount q)"

lemma entry_at_set [simp]: "entry_at (set_entry a e w) b = (if b = a then e else entry_at w b)"
  by (simp add: entry_at_def set_entry_def)

lemma entry_links_set: "entry_links (set_entry a e w) = (entry_links w)(a := en_next e)"
  by (auto simp: entry_links_def)

lemma sq_invI:
  assumes "chain (entry_links w) (sq_head q) xs" and "length xs = unat (sq_count q)"
    and "sq_count q \<le> sq_maxCount q" and "sq_tail q = (if xs = [] then None else Some (last xs))"
  shows "sq_inv (q, w) \<and> sq_contents (q, w) = xs"
proof -
  have "sq_contents (q, w) = xs" using walk_chain [OF assms(1)] assms(2) by (simp add: sq_contents_def)
  with assms show ?thesis by (simp add: sq_inv_def)
qed

text \<open>Linking changes nothing but links.\<close>

definition link_frame :: "'p SendWorld \<Rightarrow> 'p SendWorld \<Rightarrow> bool" where
  "link_frame w w' \<longleftrightarrow> w_entryPool w' = w_entryPool w \<and> w_packetPool w' = w_packetPool w \<and>
     w_shared w' = w_shared w \<and> w_userCalls w' = w_userCalls w \<and> w_violations w' = w_violations w \<and>
     (\<forall>b. (entry_at w' b)\<lparr>en_next := None\<rparr> = (entry_at w b)\<lparr>en_next := None\<rparr>)"

lemma set_entry_sels [simp]:
  "w_entryPool (set_entry a e w) = w_entryPool w" "w_packetPool (set_entry a e w) = w_packetPool w"
  "w_shared (set_entry a e w) = w_shared w" "w_userCalls (set_entry a e w) = w_userCalls w"
  "w_violations (set_entry a e w) = w_violations w"
  "w_entries (set_entry a e w) = (w_entries w)(a := Some e)"
  by (simp_all add: set_entry_def)

lemma sq_inv_last:
  assumes "sq_inv (q, w)" and "sq_contents (q, w) \<noteq> []"
  shows "sq_tail q = Some (last (sq_contents (q, w)))" and "sq_count q \<noteq> 0"
  using assms by (auto simp: sq_inv_def)

lemma PushBack_spec:
  assumes inv: "sq_inv (q, w)" and fr: "a \<notin> set (sq_contents (q, w))"
    and P: "PushBack a (q, w) = (ok, q', w')"
  shows "ok = (sq_count q < sq_maxCount q)" and "sq_inv (q', w')"
    and "sq_contents (q', w') = (if ok then sq_contents (q, w) @ [a] else sq_contents (q, w))"
    and "link_frame w w'"
    and "dom (w_entries w') = insert a (dom (w_entries w)) \<union> (if ok then set_option (sq_tail q) else {})"
    and "ok \<Longrightarrow> sq_count q' = sq_count q + 1" and "\<not> ok \<Longrightarrow> q' = q"
    and "sq_maxCount q' = sq_maxCount q \<and> sq_sendQueueMemoryPool q' = sq_sendQueueMemoryPool q \<and>
      sq_packetMemoryPool q' = sq_packetMemoryPool q \<and> sq_generalMemoryPool q' = sq_generalMemoryPool q"
proof -
  let ?xs = "sq_contents (q, w)"
  have c: "chain (entry_links w) (sq_head q) ?xs" and len: "length ?xs = unat (sq_count q)"
    and le: "sq_count q \<le> sq_maxCount q" and tl: "sq_tail q = (if ?xs = [] then None else Some (last ?xs))"
    using inv by (simp_all add: sq_inv_def)
  have chain0: "chain ((entry_links w)(a := None)) (sq_head q) ?xs" using c fr by simp
  have "ok = (sq_count q < sq_maxCount q) \<and> sq_inv (q', w') \<and>
      sq_contents (q', w') = (if ok then ?xs @ [a] else ?xs) \<and> link_frame w w' \<and>
      dom (w_entries w') = insert a (dom (w_entries w)) \<union> (if ok then set_option (sq_tail q) else {}) \<and>
      (ok \<longrightarrow> sq_count q' = sq_count q + 1) \<and> (\<not> ok \<longrightarrow> q' = q) \<and>
      sq_maxCount q' = sq_maxCount q \<and> sq_sendQueueMemoryPool q' = sq_sendQueueMemoryPool q \<and>
      sq_packetMemoryPool q' = sq_packetMemoryPool q \<and> sq_generalMemoryPool q' = sq_generalMemoryPool q"
  proof (cases "sq_count q < sq_maxCount q")
    case False
    then have e: "ok = False" "q' = q" "w' = set_entry a ((entry_at w a)\<lparr>en_next := None\<rparr>) w"
      using P by (auto simp: PushBack_def not_less)
    have "sq_inv (q, w') \<and> sq_contents (q, w') = ?xs"
      using chain0 len le tl unfolding e by (intro sq_invI) (simp_all add: entry_links_set)
    with False e show ?thesis by (auto simp: link_frame_def)
  next
    case True
    then have cnt: "unat (sq_count q + 1) = Suc (unat (sq_count q))" by (rule unat_suc_less)
    from True have nle: "\<not> sq_maxCount q \<le> sq_count q" by simp
    have le': "sq_count q + 1 \<le> sq_maxCount q"
      using True cnt by (simp add: word_le_nat_alt word_less_nat_alt)
    show ?thesis
    proof (cases "?xs = []")
      case Nil: True
      with tl have t: "sq_tail q = None" by simp
      from Nil len have z: "sq_count q = 0" by (simp add: unat_eq_0)
      have e: "ok = True" "q' = q\<lparr>sq_head := Some a, sq_tail := Some a, sq_count := sq_count q + 1\<rparr>"
        "w' = set_entry a ((entry_at w a)\<lparr>en_next := None\<rparr>) w"
        using P t nle by (simp_all add: PushBack_def)
      have "sq_inv (q', w') \<and> sq_contents (q', w') = [a]"
        using cnt le' z unfolding e by (intro sq_invI) (simp_all add: entry_links_set)
      with True Nil e t show ?thesis by (auto simp: link_frame_def)
    next
      case Cons: False
      with tl have t: "sq_tail q = Some (last ?xs)" by simp
      have la: "last ?xs \<noteq> a" using Cons fr by auto
      have e: "ok = True" "q' = q\<lparr>sq_tail := Some a, sq_count := sq_count q + 1\<rparr>"
        "w' = set_entry (last ?xs) ((entry_at w (last ?xs))\<lparr>en_next := Some a\<rparr>)
                (set_entry a ((entry_at w a)\<lparr>en_next := None\<rparr>) w)"
        using P t nle la by (simp_all add: PushBack_def)
      have "chain (entry_links w') (sq_head q) (?xs @ [a])"
        using chain_snoc [OF c Cons fr] by (simp add: e entry_links_set)
      then have "sq_inv (q', w') \<and> sq_contents (q', w') = ?xs @ [a]"
        using cnt le' len e(2) by (intro sq_invI) simp_all
      with True Cons e t show ?thesis by (auto simp: link_frame_def)
    qed
  qed
  then show "ok = (sq_count q < sq_maxCount q)" and "sq_inv (q', w')"
    and "sq_contents (q', w') = (if ok then ?xs @ [a] else ?xs)" and "link_frame w w'"
    and "dom (w_entries w') = insert a (dom (w_entries w)) \<union> (if ok then set_option (sq_tail q) else {})"
    and "ok \<Longrightarrow> sq_count q' = sq_count q + 1" and "\<not> ok \<Longrightarrow> q' = q"
    and "sq_maxCount q' = sq_maxCount q \<and> sq_sendQueueMemoryPool q' = sq_sendQueueMemoryPool q \<and>
      sq_packetMemoryPool q' = sq_packetMemoryPool q \<and> sq_generalMemoryPool q' = sq_generalMemoryPool q"
    by simp_all
qed

lemma Dequeue_spec:
  assumes inv: "sq_inv (q, w)" and D: "Dequeue (q, w) = (r, q', w')"
  shows "r = (case sq_contents (q, w) of [] \<Rightarrow> None | x # _ \<Rightarrow> Some x)" and "sq_inv (q', w')"
    and "sq_contents (q', w') = tl (sq_contents (q, w))" and "link_frame w w'"
    and "r = None \<Longrightarrow> q' = q \<and> w' = w" and "dom (w_entries w') = set_option r \<union> dom (w_entries w)"
    and "sq_maxCount q' = sq_maxCount q \<and> sq_sendQueueMemoryPool q' = sq_sendQueueMemoryPool q \<and>
      sq_packetMemoryPool q' = sq_packetMemoryPool q \<and> sq_generalMemoryPool q' = sq_generalMemoryPool q"
proof -
  let ?xs = "sq_contents (q, w)"
  have c: "chain (entry_links w) (sq_head q) ?xs" and len: "length ?xs = unat (sq_count q)"
    and le: "sq_count q \<le> sq_maxCount q" and tl: "sq_tail q = (if ?xs = [] then None else Some (last ?xs))"
    using inv by (simp_all add: sq_inv_def)
  have "r = (case ?xs of [] \<Rightarrow> None | x # _ \<Rightarrow> Some x) \<and> sq_inv (q', w') \<and>
      sq_contents (q', w') = tl ?xs \<and> link_frame w w' \<and> (r = None \<longrightarrow> q' = q \<and> w' = w) \<and>
      dom (w_entries w') = set_option r \<union> dom (w_entries w) \<and>
      sq_maxCount q' = sq_maxCount q \<and> sq_sendQueueMemoryPool q' = sq_sendQueueMemoryPool q \<and>
      sq_packetMemoryPool q' = sq_packetMemoryPool q \<and> sq_generalMemoryPool q' = sq_generalMemoryPool q"
  proof (cases "?xs")
    case Nil
    with c D have "r = None" "q' = q" "w' = w" by (auto simp: Dequeue_def)
    with Nil inv show ?thesis by (simp add: link_frame_def)
  next
    case (Cons x ys)
    then have h: "sq_head q = Some x" and cy: "chain (entry_links w) (entry_links w x) ys"
      using c by simp_all
    have x: "x \<notin> set ys" using chain_distinct [OF c] Cons by simp
    have cnt0: "sq_count q \<noteq> 0" using len Cons by auto
    then have cnt: "unat (sq_count q - 1) = length ys" using len Cons by (simp add: unat_pred)
    have e: "r = Some x" "q' = q\<lparr>sq_head := entry_links w x,
          sq_tail := (if entry_links w x = None then None else sq_tail q), sq_count := sq_count q - 1\<rparr>"
      "w' = set_entry x ((entry_at w x)\<lparr>en_next := None\<rparr>) w"
      using D h by (auto simp: Dequeue_def Let_def entry_links_def)
    have hn: "entry_links w x = None \<longleftrightarrow> ys = []" using chain_head [OF cy] by (cases ys) auto
    have "sq_count q - 1 \<le> sq_maxCount q" using le cnt0 by (simp add: word_le_nat_alt unat_pred)
    moreover have "chain (entry_links w') (entry_links w x) ys" using cy x by (simp add: e entry_links_set)
    ultimately have "sq_inv (q', w') \<and> sq_contents (q', w') = ys"
      using cnt tl Cons hn unfolding e by (intro sq_invI) auto
    with Cons e show ?thesis by (auto simp: link_frame_def)
  qed
  then show "r = (case ?xs of [] \<Rightarrow> None | x # _ \<Rightarrow> Some x)" and "sq_inv (q', w')"
    and "sq_contents (q', w') = tl ?xs" and "link_frame w w'" and "r = None \<Longrightarrow> q' = q \<and> w' = w"
    and "dom (w_entries w') = set_option r \<union> dom (w_entries w)"
    and "sq_maxCount q' = sq_maxCount q \<and> sq_sendQueueMemoryPool q' = sq_sendQueueMemoryPool q \<and>
      sq_packetMemoryPool q' = sq_packetMemoryPool q \<and> sq_generalMemoryPool q' = sq_generalMemoryPool q"
    by blast+
qed

text \<open>The queue is first-in first-out.\<close>

interpretation sq: fifo PushBack Dequeue sq_contents sq_room "\<lambda>a q. a \<notin> set (sq_contents q)" sq_inv
proof unfold_locales
  fix qw :: "SendPacketQueue \<times> 'p SendWorld" and a
  obtain q w ok q' w' where s: "qw = (q, w)" "PushBack a (q, w) = (ok, q', w')"
    by (metis prod.exhaust)
  assume i: "sq_inv qw" and f: "a \<notin> set (sq_contents qw)"
  note P = PushBack_spec [OF i [unfolded s] f [unfolded s] s(2)]
  show "fst (PushBack a qw) \<and> sq_contents (snd (PushBack a qw)) = sq_contents qw @ [a] \<and> sq_inv (snd (PushBack a qw))"
    if "sq_room qw" using P that s by (simp add: sq_room_def)
  show "\<not> fst (PushBack a qw) \<and> sq_contents (snd (PushBack a qw)) = sq_contents qw \<and> sq_inv (snd (PushBack a qw))"
    if "\<not> sq_room qw" using P that s by (simp add: sq_room_def)
next
  fix qw :: "SendPacketQueue \<times> 'p SendWorld" and x xs
  obtain q w r q' w' where s: "qw = (q, w)" "Dequeue (q, w) = (r, q', w')" by (metis prod.exhaust)
  assume i: "sq_inv qw"
  note D = Dequeue_spec [OF i [unfolded s] s(2)]
  show "fst (Dequeue qw) = None \<and> sq_contents (snd (Dequeue qw)) = [] \<and> sq_inv (snd (Dequeue qw))"
    if "sq_contents qw = []" using D that s by simp
  show "fst (Dequeue qw) = Some x \<and> sq_contents (snd (Dequeue qw)) = xs \<and> sq_inv (snd (Dequeue qw))"
    if "sq_contents qw = x # xs" using D that s by simp
qed

section \<open>Ownership of packets\<close>

text \<open>
  An entry without a release function owns its packet; an entry whose release function is the
  engine's callback holds one reference of its shared packet; a shared packet owns its packet. \<open>X c\<close> counts
  the references of the shared packet \<open>c\<close> held outside the queues (the distributor's own, and those taken for
  a session that has not accepted the packet yet).
\<close>

definition owned :: "SendPacketEntry \<Rightarrow> addr option" where
  "owned e = (if en_releaseFunc e = None then en_packetData e else None)"

definition refs_of :: "SendPacketEntry \<Rightarrow> addr \<Rightarrow> bool" where
  "refs_of e c \<longleftrightarrow> en_packetData e \<noteq> None \<and> en_releaseFunc e = Some ReleaseCallback \<and> en_releaseContext e = Some c"

definition holds :: "'p SendWorld \<Rightarrow> addr \<Rightarrow> addr option" where
  "holds w a = (if w_entries w a \<noteq> None then owned (entry_at w a)
     else (case w_shared w a of None \<Rightarrow> None | Some s \<Rightarrow> sp_packet s))"

definition entry_refs :: "'p SendWorld \<Rightarrow> addr \<Rightarrow> nat" where
  "entry_refs w c = card {a \<in> dom (w_entries w). refs_of (entry_at w a) c}"

definition world_inv :: "('p \<Rightarrow> bool) \<Rightarrow> ('p \<Rightarrow> addr set) \<Rightarrow> (addr \<Rightarrow> nat) \<Rightarrow> 'p SendWorld \<Rightarrow> bool" where
  "world_inv invar live X w \<longleftrightarrow>
     invar (w_entryPool w) \<and> invar (w_packetPool w) \<and> finite (dom (w_entries w)) \<and>
     dom (w_entries w) \<union> dom (w_shared w) \<subseteq> live (w_entryPool w) \<and>
     dom (w_entries w) \<inter> dom (w_shared w) = {} \<and>
     (\<forall>a p. holds w a = Some p \<longrightarrow> p \<in> live (w_packetPool w)) \<and>
     (\<forall>a b p. holds w a = Some p \<and> holds w b = Some p \<longrightarrow> a = b) \<and>
     (\<forall>c s. w_shared w c = Some s \<longrightarrow> sp_selfPool s \<and> sp_packetPool s \<and> sp_packet s \<noteq> None \<and>
        unat (sp_refCount s) = entry_refs w c + X c \<and> sp_refCount s \<noteq> 0) \<and>
     (\<forall>c. w_shared w c = None \<longrightarrow> entry_refs w c = 0 \<and> X c = 0)"

lemma world_invD:
  assumes "world_inv invar live X w"
  shows "invar (w_entryPool w)" and "invar (w_packetPool w)" and "finite (dom (w_entries w))"
    and "dom (w_entries w) \<union> dom (w_shared w) \<subseteq> live (w_entryPool w)"
    and "dom (w_entries w) \<inter> dom (w_shared w) = {}"
    and "holds w a = Some p \<Longrightarrow> p \<in> live (w_packetPool w)"
    and "holds w a = Some p \<Longrightarrow> holds w b = Some p \<Longrightarrow> a = b"
    and "w_shared w c = Some s \<Longrightarrow> sp_selfPool s \<and> sp_packetPool s \<and> sp_packet s \<noteq> None \<and>
        unat (sp_refCount s) = entry_refs w c + X c \<and> sp_refCount s \<noteq> 0"
    and "w_shared w c = None \<Longrightarrow> entry_refs w c = 0 \<and> X c = 0"
  using assms unfolding world_inv_def by blast+

lemma world_invI:
  assumes "invar (w_entryPool w)" and "invar (w_packetPool w)" and "finite (dom (w_entries w))"
    and "dom (w_entries w) \<union> dom (w_shared w) \<subseteq> live (w_entryPool w)"
    and "dom (w_entries w) \<inter> dom (w_shared w) = {}"
    and "\<And>a p. holds w a = Some p \<Longrightarrow> p \<in> live (w_packetPool w)"
    and "\<And>a b p. holds w a = Some p \<Longrightarrow> holds w b = Some p \<Longrightarrow> a = b"
    and "\<And>c s. w_shared w c = Some s \<Longrightarrow> sp_selfPool s \<and> sp_packetPool s \<and> sp_packet s \<noteq> None \<and>
        unat (sp_refCount s) = entry_refs w c + X c \<and> sp_refCount s \<noteq> 0"
    and "\<And>c. w_shared w c = None \<Longrightarrow> entry_refs w c = 0 \<and> X c = 0"
  shows "world_inv invar live X w"
  unfolding world_inv_def using assms by (intro conjI allI impI) blast+

lemma card_filter_upd:
  assumes "finite D" and "a \<in> D" and "\<And>x. x \<noteq> a \<Longrightarrow> Q x = P x"
  shows "card {x \<in> D. Q x} + of_bool (P a) = card {x \<in> D. P x} + of_bool (Q a)"
proof -
  let ?R = "{x \<in> D - {a}. P x}"
  have fin: "finite ?R" using assms(1) by simp
  have split: "{x \<in> D. S x} = (if S a then insert a {x \<in> D - {a}. S x} else {x \<in> D - {a}. S x})" for S
    using assms(2) by auto
  have "{x \<in> D - {a}. Q x} = ?R" using assms(3) by auto
  with fin show ?thesis by (subst (1 2) split) auto
qed

lemma entry_refs_set:
  assumes "finite (dom (w_entries w))" and "w_entries w a \<noteq> None"
  shows "entry_refs (set_entry a e w) c + of_bool (refs_of (entry_at w a) c) =
    entry_refs w c + of_bool (refs_of e c)"
proof -
  have dom: "dom (w_entries (set_entry a e w)) = dom (w_entries w)" using assms(2) by auto
  have a: "a \<in> dom (w_entries w)" using assms(2) by blast
  show ?thesis unfolding entry_refs_def
    using card_filter_upd [OF assms(1) a, of "\<lambda>x. refs_of (entry_at (set_entry a e w) x) c"
        "\<lambda>x. refs_of (entry_at w x) c"] by (simp only: dom entry_at_set if_True simp_thms if_False)
qed

lemma holds_set:
  assumes "w_entries w a \<noteq> None"
  shows "holds (set_entry a e w) b = (if b = a then owned e else holds w b)"
  using assms by (simp add: holds_def)

lemma new_entry_empty [simp]: "owned new_entry = None" "\<not> refs_of new_entry c"
  by (simp_all add: owned_def refs_of_def new_entry_def)

text \<open>Only the links of the entries differ: ownership is the same.\<close>

lemma link_frame_data:
  assumes "link_frame w w'"
  shows "owned (entry_at w' a) = owned (entry_at w a)" and "refs_of (entry_at w' a) c = refs_of (entry_at w a) c"
    and "en_packetData (entry_at w' a) = en_packetData (entry_at w a)"
    and "en_packetSize (entry_at w' a) = en_packetSize (entry_at w a)"
    and "en_releaseFunc (entry_at w' a) = en_releaseFunc (entry_at w a)"
    and "en_releaseContext (entry_at w' a) = en_releaseContext (entry_at w a)"
proof -
  have "(entry_at w' a)\<lparr>en_next := None\<rparr> = (entry_at w a)\<lparr>en_next := None\<rparr>"
    using assms by (simp add: link_frame_def)
  then have d: "en_packetData (entry_at w' a) = en_packetData (entry_at w a) \<and>
      en_packetSize (entry_at w' a) = en_packetSize (entry_at w a) \<and>
      en_releaseFunc (entry_at w' a) = en_releaseFunc (entry_at w a) \<and>
      en_releaseContext (entry_at w' a) = en_releaseContext (entry_at w a)"
    by (cases "entry_at w' a"; cases "entry_at w a") simp
  then show "owned (entry_at w' a) = owned (entry_at w a)" and "refs_of (entry_at w' a) c = refs_of (entry_at w a) c"
    and "en_packetData (entry_at w' a) = en_packetData (entry_at w a)"
    and "en_packetSize (entry_at w' a) = en_packetSize (entry_at w a)"
    and "en_releaseFunc (entry_at w' a) = en_releaseFunc (entry_at w a)"
    and "en_releaseContext (entry_at w' a) = en_releaseContext (entry_at w a)"
    by (simp_all add: owned_def refs_of_def)
qed

lemma world_inv_link:
  assumes "world_inv invar live X w" and "link_frame w w'" and "dom (w_entries w') = dom (w_entries w)"
  shows "world_inv invar live X w'" and "holds w' a = holds w a"
proof -
  have n: "w_entries w' a = None \<longleftrightarrow> w_entries w a = None" for a using assms(3) by blast
  have h: "holds w' a = holds w a" for a
    using assms(2) n [of a] by (simp add: holds_def link_frame_data [OF assms(2)] link_frame_def)
  have r: "entry_refs w' c = entry_refs w c" for c
    by (simp add: entry_refs_def assms(3) link_frame_data [OF assms(2)])
  show "world_inv invar live X w'"
    using assms(1,2) unfolding world_inv_def h r assms(3) link_frame_def by simp
  show "holds w' a = holds w a" by (rule h)
qed

text \<open>Filling in an entry, and clearing it.\<close>

lemma world_inv_fill:
  assumes inv: "world_inv invar live X w" and a: "w_entries w a \<noteq> None"
    and old: "owned (entry_at w a) = None" "\<And>c. \<not> refs_of (entry_at w a) c"
    and own: "\<And>p. owned e = Some p \<Longrightarrow> p \<in> live (w_packetPool w) \<and> (\<forall>b. holds w b \<noteq> Some p)"
    and ref: "\<And>c. refs_of e c \<Longrightarrow> 0 < X c"
  shows "world_inv invar live (\<lambda>c. X c - of_bool (refs_of e c)) (set_entry a e w)"
proof -
  note D = world_invD [OF inv]
  have r: "entry_refs (set_entry a e w) c = entry_refs w c + of_bool (refs_of e c)" for c
    using entry_refs_set [OF D(3) a, of e c] old(2) by simp
  have dom: "dom (w_entries (set_entry a e w)) = dom (w_entries w)" using a by auto
  have eq: "entry_refs w c + of_bool (refs_of e c) + (X c - of_bool (refs_of e c)) = entry_refs w c + X c" for c
    using ref [of c] by (cases "refs_of e c") simp_all
  have none: "\<not> refs_of e c" if "w_shared w c = None" for c using D(9) [OF that] ref [of c] by auto
  show ?thesis
  proof (rule world_invI, unfold dom holds_set [OF a] r)
    fix b p assume "(if b = a then owned e else holds w b) = Some p"
    then show "p \<in> live (w_packetPool (set_entry a e w))"
      using own [of p] D(6) [of b p] by (auto split: if_splits)
  next
    fix b b' p assume "(if b = a then owned e else holds w b) = Some p"
      and "(if b' = a then owned e else holds w b') = Some p"
    then show "b = b'" using own [of p] D(7) [of b p b'] by (auto split: if_splits)
  next
    fix c s assume "w_shared (set_entry a e w) c = Some s"
    then show "sp_selfPool s \<and> sp_packetPool s \<and> sp_packet s \<noteq> None \<and>
        unat (sp_refCount s) = entry_refs w c + of_bool (refs_of e c) + (X c - of_bool (refs_of e c)) \<and> sp_refCount s \<noteq> 0"
      using D(8) [of c s] by (simp add: eq)
  next
    fix c assume "w_shared (set_entry a e w) c = None"
    then show "entry_refs w c + of_bool (refs_of e c) = 0 \<and> X c - of_bool (refs_of e c) = 0"
      using D(9) [of c] none [of c] by simp
  qed (use D(1-5) in simp_all)
qed

lemma world_inv_clear:
  assumes inv: "world_inv invar live X w" and a: "w_entries w a \<noteq> None"
  shows "world_inv invar live (\<lambda>c. X c + of_bool (refs_of (entry_at w a) c)) (set_entry a new_entry w)"
proof -
  note D = world_invD [OF inv]
  let ?e = "entry_at w a"
  have r: "entry_refs (set_entry a new_entry w) c + of_bool (refs_of ?e c) = entry_refs w c" for c
    using entry_refs_set [OF D(3) a, of new_entry c] by simp
  have dom: "dom (w_entries (set_entry a new_entry w)) = dom (w_entries w)" using a by auto
  have eq: "entry_refs (set_entry a new_entry w) c + (X c + of_bool (refs_of ?e c)) = entry_refs w c + X c" for c
    using r [of c] by simp
  have none: "entry_refs (set_entry a new_entry w) c = 0 \<and> X c + of_bool (refs_of ?e c) = 0"
    if "w_shared w c = None" for c using D(9) [OF that] r [of c] by simp
  show ?thesis
  proof (rule world_invI, unfold dom holds_set [OF a])
    fix b p assume "(if b = a then owned new_entry else holds w b) = Some p"
    then show "p \<in> live (w_packetPool (set_entry a new_entry w))" using D(6) [of b p] by (auto split: if_splits)
  next
    fix b b' p assume "(if b = a then owned new_entry else holds w b) = Some p"
      and "(if b' = a then owned new_entry else holds w b') = Some p"
    then show "b = b'" using D(7) [of b p b'] by (auto split: if_splits)
  next
    fix c s assume "w_shared (set_entry a new_entry w) c = Some s"
    then show "sp_selfPool s \<and> sp_packetPool s \<and> sp_packet s \<noteq> None \<and>
        unat (sp_refCount s) = entry_refs (set_entry a new_entry w) c + (X c + of_bool (refs_of ?e c)) \<and> sp_refCount s \<noteq> 0"
      using D(8) [of c s] by (simp add: eq)
  next
    fix c assume "w_shared (set_entry a new_entry w) c = None"
    then show "entry_refs (set_entry a new_entry w) c = 0 \<and> X c + of_bool (refs_of ?e c) = 0" using none [of c] by simp
  qed (use D(1-5) in simp_all)
qed

text \<open>A new entry in a fresh block, and the end of an empty one.\<close>

lemma entry_refs_other:
  assumes "\<And>c. \<not> refs_of e c" and "w_entries w a = None"
  shows "entry_refs (set_entry a e w) c = entry_refs w c"
proof -
  have "{x \<in> dom (w_entries (set_entry a e w)). refs_of (entry_at (set_entry a e w) x) c} =
      {x \<in> dom (w_entries w). refs_of (entry_at w x) c}" using assms by auto
  then show ?thesis by (simp only: entry_refs_def)
qed

lemma world_inv_add:
  assumes inv: "world_inv invar live X w" and a: "w_entries w a = None" "w_shared w a = None" "a \<in> live (w_entryPool w)"
  shows "world_inv invar live X (set_entry a new_entry w)"
proof -
  note D = world_invD [OF inv]
  have h: "holds (set_entry a new_entry w) b = holds w b" for b
    using a(1,2) by (cases "b = a"; cases "w_entries w b") (simp_all add: holds_def)
  have r: "entry_refs (set_entry a new_entry w) c = entry_refs w c" for c using a(1) by (intro entry_refs_other) simp_all
  show ?thesis by (rule world_invI, unfold h r) (use D a in auto)
qed

lemma world_inv_pool:
  assumes inv: "world_inv invar live X w" and p: "invar p" "live (w_entryPool w) \<subseteq> live p"
  shows "world_inv invar live X (w\<lparr>w_entryPool := p\<rparr>)"
proof -
  note D = world_invD [OF inv]
  have h: "holds (w\<lparr>w_entryPool := p\<rparr>) b = holds w b" for b by (simp add: holds_def entry_at_def)
  have r: "entry_refs (w\<lparr>w_entryPool := p\<rparr>) c = entry_refs w c" for c by (simp add: entry_refs_def entry_at_def)
  show ?thesis by (rule world_invI, unfold h r) (use D p in auto)
qed

lemma world_inv_calls:
  assumes inv: "world_inv invar live X w"
  shows "world_inv invar live X (w\<lparr>w_userCalls := cs\<rparr>)"
proof -
  note D = world_invD [OF inv]
  have h: "holds (w\<lparr>w_userCalls := cs\<rparr>) b = holds w b" for b by (simp add: holds_def entry_at_def)
  have r: "entry_refs (w\<lparr>w_userCalls := cs\<rparr>) c = entry_refs w c" for c by (simp add: entry_refs_def entry_at_def)
  show ?thesis by (rule world_invI, unfold h r) (use D in auto)
qed

lemma world_inv_remove:
  assumes inv: "world_inv invar live X w" and a: "w_entries w a = Some e" "owned e = None" "\<And>c. \<not> refs_of e c"
    and p: "invar p" "live p = live (w_entryPool w) - {a}"
  shows "world_inv invar live X (w\<lparr>w_entryPool := p, w_entries := (w_entries w)(a := None)\<rparr>)"
proof -
  note D = world_invD [OF inv]
  let ?w = "w\<lparr>w_entryPool := p, w_entries := (w_entries w)(a := None)\<rparr>"
  have sa: "w_shared w a = None" using D(5) a(1) by blast
  have ea: "entry_at w a = e" using a(1) by (simp add: entry_at_def)
  have h: "holds ?w b = holds w b" for b using a sa by (auto simp: holds_def entry_at_def)
  have "{x \<in> dom (w_entries ?w). refs_of (entry_at ?w x) c} = {x \<in> dom (w_entries w). refs_of (entry_at w x) c}" for c
    using a ea by (auto simp: entry_at_def split: if_splits)
  then have r: "entry_refs ?w c = entry_refs w c" for c by (simp only: entry_refs_def)
  show ?thesis by (rule world_invI, unfold h r) (use D a p sa in auto)
qed

text \<open>Dropping one reference of a shared packet that is not the last one, and the last one.\<close>

lemma world_inv_drop_ref:
  assumes inv: "world_inv invar live X w" and c: "w_shared w c = Some s" "0 < X c" "sp_refCount s - 1 \<noteq> 0"
  shows "world_inv invar live (X(c := X c - 1)) (w\<lparr>w_shared := (w_shared w)(c := Some (s\<lparr>sp_refCount := sp_refCount s - 1\<rparr>))\<rparr>)"
proof -
  note D = world_invD [OF inv]
  let ?w = "w\<lparr>w_shared := (w_shared w)(c := Some (s\<lparr>sp_refCount := sp_refCount s - 1\<rparr>))\<rparr>"
  have h: "holds ?w b = holds w b" for b using c(1) by (auto simp: holds_def entry_at_def)
  have r: "entry_refs ?w d = entry_refs w d" for d by (simp add: entry_refs_def entry_at_def)
  have cnt: "unat (sp_refCount s - 1) = entry_refs w c + (X c - 1)"
    using D(8) [OF c(1)] c(2) by (simp add: unat_pred)
  show ?thesis by (rule world_invI, unfold h r) (use D c cnt in \<open>auto split: if_splits\<close>)
qed

lemma world_inv_last_ref:
  assumes inv: "world_inv invar live X w" and c: "w_shared w c = Some s" "0 < X c" "sp_refCount s = 1"
    and p: "invar p" "live p = live (w_entryPool w) - {c}"
    and q: "invar q" "live q = live (w_packetPool w) - {the (sp_packet s)}"
  shows "world_inv invar live (X(c := X c - 1))
    (w\<lparr>w_packetPool := q, w_entryPool := p, w_shared := (w_shared w)(c := None)\<rparr>)"
proof -
  note D = world_invD [OF inv]
  let ?w = "w\<lparr>w_packetPool := q, w_entryPool := p, w_shared := (w_shared w)(c := None)\<rparr>"
  have ec: "w_entries w c = None" using D(5) c(1) by blast
  have hc: "holds w c = sp_packet s" using ec c(1) by (simp add: holds_def)
  have h: "holds ?w b = (if b = c then None else holds w b)" for b using ec by (auto simp: holds_def entry_at_def)
  have r: "entry_refs ?w d = entry_refs w d" for d by (simp add: entry_refs_def entry_at_def)
  have "entry_refs w c + X c = 1" using D(8) [OF c(1)] c(3) by simp
  then have z: "entry_refs w c = 0" "X c = 1" using c(2) by simp_all
  have own: "holds w b \<noteq> sp_packet s" if "b \<noteq> c" for b
    using D(7) [of c _ b] D(8) [OF c(1)] hc that by (metis option.exhaust)
  show ?thesis
  proof (rule world_invI, unfold h r)
    fix b k assume "(if b = c then None else holds w b) = Some k"
    then have "b \<noteq> c" and hb: "holds w b = Some k" by (simp_all split: if_splits)
    then have "k \<noteq> the (sp_packet s)" using own [of b] D(8) [OF c(1)] by auto
    then show "k \<in> live (w_packetPool ?w)" using D(6) [OF hb] q by simp
  next
    fix b b' k assume "(if b = c then None else holds w b) = Some k" and "(if b' = c then None else holds w b') = Some k"
    then show "b = b'" using D(7) [of b k b'] by (simp split: if_splits)
  qed (use D c z p q ec in \<open>auto split: if_splits\<close>)
qed

context packet_pool
begin

lemma CreateSendPacketEntry_inv:
  assumes inv: "world_inv invar live X w" and C: "CreateSendPacketEntry acquire w = (r, w')"
  shows "world_inv invar live X w'"
    and "live (w_entryPool w') = set_option r \<union> live (w_entryPool w)"
    and "w_packetPool w' = w_packetPool w \<and> w_shared w' = w_shared w \<and> w_userCalls w' = w_userCalls w \<and>
      w_violations w' = w_violations w"
    and "w_entries w' = (case r of None \<Rightarrow> w_entries w | Some a \<Rightarrow> (w_entries w)(a := Some new_entry))"
    and "r = Some a \<Longrightarrow> w_entries w a = None \<and> w_shared w a = None \<and> a \<notin> live (w_entryPool w)"
proof -
  note D = world_invD [OF inv]
  obtain r0 p where A: "acquire (w_entryPool w) sizeof_SendPacketEntry = (r0, p)" by fastforce
  have sz: "sizeof_SendPacketEntry < 2 ^ 32" by simp
  note l = acquire_live [OF D(1) sz A] and i = acquire_invar [OF D(1) sz A]
  have w1: "world_inv invar live X (w\<lparr>w_entryPool := p\<rparr>)"
  proof (rule world_inv_pool [OF inv i])
    show "live (w_entryPool w) \<subseteq> live p" using l by simp
  qed
  have "world_inv invar live X w' \<and> live (w_entryPool w') = set_option r \<union> live (w_entryPool w) \<and>
      (w_packetPool w' = w_packetPool w \<and> w_shared w' = w_shared w \<and> w_userCalls w' = w_userCalls w \<and>
        w_violations w' = w_violations w) \<and>
      w_entries w' = (case r of None \<Rightarrow> w_entries w | Some a \<Rightarrow> (w_entries w)(a := Some new_entry)) \<and>
      (\<forall>a. r = Some a \<longrightarrow> w_entries w a = None \<and> w_shared w a = None \<and> a \<notin> live (w_entryPool w))"
  proof (cases r0)
    case None
    with C A have e: "r = None" "w' = w\<lparr>w_entryPool := p\<rparr>" by (simp_all add: CreateSendPacketEntry_def)
    from w1 l None show ?thesis unfolding e by simp
  next
    case (Some a)
    then have f: "a \<notin> live (w_entryPool w)" using acquire_fresh [OF D(1) sz] A by blast
    then have n: "w_entries w a = None" "w_shared w a = None" using D(4) by blast+
    have "world_inv invar live X (set_entry a new_entry (w\<lparr>w_entryPool := p\<rparr>))"
      using n l Some by (intro world_inv_add [OF w1]) simp_all
    moreover have "r = Some a" "w' = set_entry a new_entry (w\<lparr>w_entryPool := p\<rparr>)"
      using C A Some by (simp_all add: CreateSendPacketEntry_def)
    ultimately show ?thesis using l Some f n by simp
  qed
  then show "world_inv invar live X w'"
    and "live (w_entryPool w') = set_option r \<union> live (w_entryPool w)"
    and "w_packetPool w' = w_packetPool w \<and> w_shared w' = w_shared w \<and> w_userCalls w' = w_userCalls w \<and>
      w_violations w' = w_violations w"
    and "w_entries w' = (case r of None \<Rightarrow> w_entries w | Some a \<Rightarrow> (w_entries w)(a := Some new_entry))"
    and "r = Some a \<Longrightarrow> w_entries w a = None \<and> w_shared w a = None \<and> a \<notin> live (w_entryPool w)"
    by simp_all
qed

lemma ReleaseSendPacketEntry_inv:
  assumes inv: "world_inv invar live X w" and a: "w_entries w a = Some e" "owned e = None" "\<And>c. \<not> refs_of e c"
  shows "world_inv invar live X (ReleaseSendPacketEntry release a w)"
    and "live (w_entryPool (ReleaseSendPacketEntry release a w)) = live (w_entryPool w) - {a}"
proof -
  note D = world_invD [OF inv]
  have al: "a \<in> live (w_entryPool w)" using D(4) a(1) by blast
  show "live (w_entryPool (ReleaseSendPacketEntry release a w)) = live (w_entryPool w) - {a}"
    by (simp add: ReleaseSendPacketEntry_def release_live [OF D(1) al])
  show "world_inv invar live X (ReleaseSendPacketEntry release a w)"
    unfolding ReleaseSendPacketEntry_def
    by (rule world_inv_remove [OF inv a]) (simp_all add: release_invar [OF D(1) al] release_live [OF D(1) al])
qed

lemma ReleasePacket_inv:
  assumes inv: "world_inv invar live X w" and p: "p \<in> live (w_packetPool w)" "\<And>b. holds w b \<noteq> Some p"
  shows "world_inv invar live X (ReleasePacket release (Some p) w)"
    and "live (w_packetPool (ReleasePacket release (Some p) w)) = live (w_packetPool w) - {p}"
proof -
  note D = world_invD [OF inv]
  let ?w = "ReleasePacket release (Some p) w"
  have h: "holds ?w b = holds w b" for b by (simp add: ReleasePacket_def holds_def entry_at_def)
  have r: "entry_refs ?w c = entry_refs w c" for c by (simp add: ReleasePacket_def entry_refs_def entry_at_def)
  show l: "live (w_packetPool ?w) = live (w_packetPool w) - {p}"
    by (simp add: ReleasePacket_def release_live [OF D(2) p(1)])
  show "world_inv invar live X ?w"
    by (rule world_invI, unfold h r l) (use D p in \<open>auto simp: ReleasePacket_def release_invar\<close>)
qed

text \<open>\<open>SHARED_SEND_PACKET::Release\<close> of a reference that somebody holds.\<close>

lemma shared_Release_inv:
  assumes inv: "world_inv invar live X w" and c: "0 < X c" and w': "w' = shared_Release release (Some c) w"
  shows "world_inv invar live (X(c := X c - 1)) w'"
    and "w_entries w' = w_entries w \<and> w_userCalls w' = w_userCalls w \<and> w_violations w' = w_violations w"
    and "\<exists>s. w_shared w c = Some s \<and>
      (if entry_refs w c + X c = 1
       then w_shared w' = (w_shared w)(c := None) \<and> live (w_packetPool w') = live (w_packetPool w) - {the (sp_packet s)} \<and>
            live (w_entryPool w') = live (w_entryPool w) - {c}
       else w_packetPool w' = w_packetPool w \<and> w_entryPool w' = w_entryPool w \<and>
            w_shared w' = (w_shared w)(c := Some (s\<lparr>sp_refCount := sp_refCount s - 1\<rparr>)))"
proof -
  note D = world_invD [OF inv]
  obtain s where s: "w_shared w c = Some s" using D(9) [of c] c by (cases "w_shared w c") auto
  note S = D(8) [OF s]
  have ec: "w_entries w c = None" using D(5) s by blast
  have one: "sp_refCount s - 1 = 0 \<longleftrightarrow> entry_refs w c + X c = 1"
    using S by (metis unat_1 unat_eq_iff right_minus_eq)
  have "world_inv invar live (X(c := X c - 1)) w' \<and>
      (w_entries w' = w_entries w \<and> w_userCalls w' = w_userCalls w \<and> w_violations w' = w_violations w) \<and>
      (if entry_refs w c + X c = 1
       then w_shared w' = (w_shared w)(c := None) \<and> live (w_packetPool w') = live (w_packetPool w) - {the (sp_packet s)} \<and>
            live (w_entryPool w') = live (w_entryPool w) - {c}
       else w_packetPool w' = w_packetPool w \<and> w_entryPool w' = w_entryPool w \<and>
            w_shared w' = (w_shared w)(c := Some (s\<lparr>sp_refCount := sp_refCount s - 1\<rparr>)))"
  proof (cases "sp_refCount s - 1 = 0")
    case False
    then have "w' = w\<lparr>w_shared := (w_shared w)(c := Some (s\<lparr>sp_refCount := sp_refCount s - 1\<rparr>))\<rparr>"
      using s by (simp add: w' shared_Release_def)
    then show ?thesis using world_inv_drop_ref [OF inv s c False] False one by simp
  next
    case True
    then have r1: "sp_refCount s = 1" by simp
    obtain k where k: "sp_packet s = Some k" using S by blast
    have hk: "holds w c = Some k" using s ec k by (simp add: holds_def)
    have kl: "k \<in> live (w_packetPool w)" using D(6) [OF hk] .
    have cl: "c \<in> live (w_entryPool w)" using D(4) s by blast
    have e: "w' = w\<lparr>w_packetPool := release (w_packetPool w) k, w_entryPool := release (w_entryPool w) c,
        w_shared := (w_shared w)(c := None)\<rparr>"
      using s S True k by (simp add: w' shared_Release_def)
    have "world_inv invar live (X(c := X c - 1)) w'" unfolding e
      by (rule world_inv_last_ref [OF inv s c r1])
        (simp_all add: k release_invar [OF D(1) cl] release_live [OF D(1) cl] release_invar [OF D(2) kl] release_live [OF D(2) kl])
    then show ?thesis using True one by (simp add: e k release_live [OF D(1) cl] release_live [OF D(2) kl])
  qed
  with s show "world_inv invar live (X(c := X c - 1)) w'"
    and "w_entries w' = w_entries w \<and> w_userCalls w' = w_userCalls w \<and> w_violations w' = w_violations w"
    and "\<exists>s. w_shared w c = Some s \<and>
      (if entry_refs w c + X c = 1
       then w_shared w' = (w_shared w)(c := None) \<and> live (w_packetPool w') = live (w_packetPool w) - {the (sp_packet s)} \<and>
            live (w_entryPool w') = live (w_entryPool w) - {c}
       else w_packetPool w' = w_packetPool w \<and> w_entryPool w' = w_entryPool w \<and>
            w_shared w' = (w_shared w)(c := Some (s\<lparr>sp_refCount := sp_refCount s - 1\<rparr>)))"
    by blast+
qed

end

text \<open>One reference more or less does not concern the entries.\<close>

lemma shared_Release_set_entry:
  "shared_Release release sc (set_entry a e w) = set_entry a e (shared_Release release sc w)"
  by (simp add: shared_Release_def set_entry_def Let_def split: option.split)

text \<open>What the release of an entry gives back.\<close>

definition gives_back :: "'x SendWorld \<Rightarrow> SendPacketEntry \<Rightarrow> addr \<Rightarrow> bool" where
  "gives_back w e k \<longleftrightarrow> owned e = Some k \<or> (\<exists>c s. refs_of e c \<and> w_shared w c = Some s \<and> sp_packet s = Some k)"

definition user_calls :: "SendPacketEntry \<Rightarrow> (nat \<times> addr \<times> addr option) list" where
  "user_calls e = (case (en_packetData e, en_releaseFunc e) of
     (Some k, Some (UserRelease n)) \<Rightarrow> [(n, k, en_releaseContext e)] | _ \<Rightarrow> [])"

definition shared_le :: "'x SendWorld \<Rightarrow> 'x SendWorld \<Rightarrow> bool" where
  "shared_le w w' \<longleftrightarrow> (\<forall>c s'. w_shared w' c = Some s' \<longrightarrow> (\<exists>s. w_shared w c = Some s \<and> sp_packet s = sp_packet s'))"

context packet_pool
begin

text \<open>The step before the entry itself is returned: its packet or reference is given back.\<close>

lemma release_payload:
  assumes inv: "world_inv invar live X w" and a: "w_entries w a = Some e"
    and q: "sq_packetMemoryPool q" "sq_generalMemoryPool q"
    and w1: "w1 = (case en_packetData e of None \<Rightarrow> w
       | Some p \<Rightarrow> (case en_releaseFunc e of Some f \<Rightarrow> call_release release f p (en_releaseContext e) w
          | None \<Rightarrow> if sq_packetMemoryPool q \<and> sq_generalMemoryPool q then ReleasePacket release (Some p) w
                    else w\<lparr>w_violations := w_violations w + 1\<rparr>))"
    and w2: "w2 = set_entry a new_entry w1"
  shows "world_inv invar live X w2 \<and> w_entries w2 = (w_entries w)(a := Some new_entry) \<and>
    w_violations w2 = w_violations w \<and> w_userCalls w2 = w_userCalls w @ user_calls e \<and>
    live (w_packetPool w2) \<subseteq> live (w_packetPool w) \<and> live (w_entryPool w2) \<subseteq> live (w_entryPool w) \<and>
    (\<forall>k. owned e = Some k \<longrightarrow> k \<notin> live (w_packetPool w2)) \<and>
    (\<forall>k. k \<in> live (w_packetPool w) - live (w_packetPool w2) \<longrightarrow> gives_back w e k) \<and> shared_le w w2"
proof -
  note D = world_invD [OF inv]
  have ea: "entry_at w a = e" using a by (simp add: entry_at_def)
  let ?w0 = "set_entry a new_entry w"
  have i0: "world_inv invar live (\<lambda>c. X c + of_bool (refs_of e c)) ?w0"
    using world_inv_clear [OF inv] a ea by fastforce
  have h0: "holds ?w0 b = (if b = a then None else holds w b)" for b using a by (simp add: holds_set)
  have le: "shared_le w ?w0" by (simp add: shared_le_def)
  show ?thesis
  proof (cases "en_packetData e")
    case None
    then have n: "refs_of e = (\<lambda>_. False)" "owned e = None" "user_calls e = []"
      by (auto simp: refs_of_def owned_def user_calls_def)
    have "w2 = ?w0" using None by (simp add: w2 w1)
    with i0 n le show ?thesis by simp
  next
    case (Some k)
    show ?thesis
    proof (cases "en_releaseFunc e")
      case None
      then have n: "refs_of e = (\<lambda>_. False)" "owned e = Some k" "user_calls e = []"
        using Some by (auto simp: refs_of_def owned_def user_calls_def)
      have e2: "w2 = ReleasePacket release (Some k) ?w0"
        using Some None q by (simp add: w2 w1 ReleasePacket_def set_entry_def)
      have hk: "holds w a = Some k" using a ea n by (simp add: holds_def)
      have "holds ?w0 b \<noteq> Some k" for b using D(7) [OF hk, of b] by (auto simp: h0)
      with i0 n D(6) [OF hk] have r: "world_inv invar live X w2" "live (w_packetPool w2) = live (w_packetPool w) - {k}"
        using ReleasePacket_inv [of X ?w0 k] by (simp_all add: e2)
      then show ?thesis using n by (auto simp: e2 ReleasePacket_def gives_back_def shared_le_def)
    next
      case f: (Some f)
      show ?thesis
      proof (cases "f = ReleaseCallback \<and> en_releaseContext e \<noteq> None")
        case True
        then obtain c where c: "en_releaseContext e = Some c" by blast
        have n: "refs_of e d = (d = c)" "owned e = None" "user_calls e = []" for d
          using Some f True c by (auto simp: refs_of_def owned_def user_calls_def)
        have e2: "w2 = shared_Release release (Some c) ?w0"
          using Some f True c by (simp add: w2 w1 call_release_def shared_Release_set_entry)
        have pos: "0 < X c + of_bool (refs_of e c)" by (simp add: n)
        note r = shared_Release_inv [OF i0 pos e2]
        have X: "(\<lambda>d. X d + of_bool (refs_of e d))(c := X c + of_bool (refs_of e c) - 1) = X" by (auto simp: n)
        obtain s where s: "w_shared w c = Some s" and
          eff: "if entry_refs ?w0 c + (X c + of_bool (refs_of e c)) = 1
            then w_shared w2 = (w_shared w)(c := None) \<and> live (w_packetPool w2) = live (w_packetPool w) - {the (sp_packet s)} \<and>
              live (w_entryPool w2) = live (w_entryPool w) - {c}
            else w_packetPool w2 = w_packetPool w \<and> w_entryPool w2 = w_entryPool w \<and>
              w_shared w2 = (w_shared w)(c := Some (s\<lparr>sp_refCount := sp_refCount s - 1\<rparr>))"
          using r(3) by auto
        obtain k' where k': "sp_packet s = Some k'" using D(8) [OF s] by blast
        have "live (w_packetPool w2) \<subseteq> live (w_packetPool w) \<and> live (w_entryPool w2) \<subseteq> live (w_entryPool w) \<and>
          (\<forall>k. k \<in> live (w_packetPool w) - live (w_packetPool w2) \<longrightarrow> k = k') \<and> shared_le w w2"
          using eff s k' by (auto simp: shared_le_def split: if_splits)
        then show ?thesis using r(1,2) s k' n unfolding X by (auto simp: gives_back_def)
      next
        case False
        then have n: "refs_of e = (\<lambda>_. False)" "owned e = None" using f by (auto simp: refs_of_def owned_def)
        have "w_userCalls w2 = w_userCalls w @ user_calls e \<and> w2 = ?w0\<lparr>w_userCalls := w_userCalls w @ user_calls e\<rparr>"
          using False Some f by (cases f) (auto simp: w2 w1 call_release_def shared_Release_def user_calls_def set_entry_def)
        then have e2: "w2 = ?w0\<lparr>w_userCalls := w_userCalls w @ user_calls e\<rparr>" by simp
        have "world_inv invar live X ?w0" using i0 n by simp
        then have "world_inv invar live X w2"
          unfolding e2 by (rule world_inv_calls)
        then show ?thesis using n by (simp add: e2 shared_le_def)
      qed
    qed
  qed
qed

lemma ReleaseEntry_inv:
  assumes inv: "world_inv invar live X w" and a: "w_entries w a = Some e"
    and q: "sq_sendQueueMemoryPool q" "sq_packetMemoryPool q" "sq_generalMemoryPool q"
    and w': "w' = ReleaseEntry release q (Some a) w"
  shows "world_inv invar live X w'" and "w_entries w' = (w_entries w)(a := None)"
    and "w_violations w' = w_violations w" and "w_userCalls w' = w_userCalls w @ user_calls e"
    and "live (w_packetPool w') \<subseteq> live (w_packetPool w)" and "live (w_entryPool w') \<subseteq> live (w_entryPool w) - {a}"
    and "owned e = Some k \<Longrightarrow> k \<notin> live (w_packetPool w')"
    and "k \<in> live (w_packetPool w) - live (w_packetPool w') \<Longrightarrow> gives_back w e k" and "shared_le w w'"
proof -
  have ea: "entry_at w a = e" using a by (simp add: entry_at_def)
  define w1 where "w1 = (case en_packetData e of None \<Rightarrow> w
       | Some p \<Rightarrow> (case en_releaseFunc e of Some f \<Rightarrow> call_release release f p (en_releaseContext e) w
          | None \<Rightarrow> if sq_packetMemoryPool q \<and> sq_generalMemoryPool q then ReleasePacket release (Some p) w
                    else w\<lparr>w_violations := w_violations w + 1\<rparr>))"
  define w2 where "w2 = set_entry a new_entry w1"
  have w'2: "w' = ReleaseSendPacketEntry release a w2"
    using q(1) by (simp add: w' ReleaseEntry_def Let_def ea w1_def w2_def)
  have r: "world_inv invar live X w2" "w_entries w2 = (w_entries w)(a := Some new_entry)"
    "w_violations w2 = w_violations w" "w_userCalls w2 = w_userCalls w @ user_calls e"
    "live (w_packetPool w2) \<subseteq> live (w_packetPool w)" "live (w_entryPool w2) \<subseteq> live (w_entryPool w)"
    "\<And>k. owned e = Some k \<Longrightarrow> k \<notin> live (w_packetPool w2)"
    "\<And>k. k \<in> live (w_packetPool w) - live (w_packetPool w2) \<Longrightarrow> gives_back w e k" "shared_le w w2"
    using release_payload [OF inv a q(2,3) w1_def w2_def] by blast+
  have e2: "w_entries w2 a = Some new_entry" by (simp add: r(2))
  note z = ReleaseSendPacketEntry_inv [OF r(1) e2 new_entry_empty]
  show "world_inv invar live X w'" unfolding w'2 by (rule z(1))
  show "w_entries w' = (w_entries w)(a := None)" by (simp add: w'2 ReleaseSendPacketEntry_def r(2))
  show "w_violations w' = w_violations w" "w_userCalls w' = w_userCalls w @ user_calls e"
    "live (w_packetPool w') \<subseteq> live (w_packetPool w)"
    using r(3-5) by (simp_all add: w'2 ReleaseSendPacketEntry_def)
  show "live (w_entryPool w') \<subseteq> live (w_entryPool w) - {a}" using z(2) r(6) by (auto simp: w'2)
  show "k \<notin> live (w_packetPool w')" if "owned e = Some k"
    using r(7) [OF that] by (simp add: w'2 ReleaseSendPacketEntry_def)
  show "gives_back w e k" if "k \<in> live (w_packetPool w) - live (w_packetPool w')"
    using r(8) [of k] that by (simp add: w'2 ReleaseSendPacketEntry_def)
  show "shared_le w w'" using r(9) by (simp add: w'2 ReleaseSendPacketEntry_def shared_le_def)
qed

lemma gives_back_mono: "shared_le w w' \<Longrightarrow> gives_back w' e k \<Longrightarrow> gives_back w e k"
  by (fastforce simp: gives_back_def shared_le_def)

text \<open>Releasing a detached chain of entries.\<close>

lemma release_chain_inv:
  assumes "world_inv invar live X w" and "chain (entry_links w) c xs" and "set xs \<subseteq> dom (w_entries w)"
    and "sq_sendQueueMemoryPool q" "sq_packetMemoryPool q" "sq_generalMemoryPool q"
    and "release_chain (length xs) release q c w = (c', w')"
  shows "c' = None \<and> world_inv invar live X w' \<and> w_entries w' = w_entries w |` (- set xs) \<and>
    w_violations w' = w_violations w \<and>
    w_userCalls w' = w_userCalls w @ concat (map (\<lambda>a. user_calls (entry_at w a)) xs) \<and>
    live (w_packetPool w') \<subseteq> live (w_packetPool w) \<and>
    live (w_entryPool w') \<subseteq> live (w_entryPool w) - set xs \<and>
    (\<forall>a k. a \<in> set xs \<and> owned (entry_at w a) = Some k \<longrightarrow> k \<notin> live (w_packetPool w')) \<and>
    (\<forall>k. k \<in> live (w_packetPool w) - live (w_packetPool w') \<longrightarrow> (\<exists>a \<in> set xs. gives_back w (entry_at w a) k))"
  using assms(1-3,7)
proof (induction xs arbitrary: w c)
  case Nil
  then show ?case by auto
next
  case (Cons x xs)
  define v where "v = ReleaseEntry release q (Some x) w"
  obtain e where e: "w_entries w x = Some e" using Cons.prems(3) by auto
  then have ex: "entry_at w x = e" by (simp add: entry_at_def)
  note R = ReleaseEntry_inv [OF Cons.prems(1) e assms(4-6) v_def]
  have x: "x \<notin> set xs" using chain_distinct [OF Cons.prems(2)] by simp
  have same: "entry_at v b = entry_at w b" if "b \<noteq> x" for b using R(2) that by (simp add: entry_at_def)
  then have same_xs: "entry_at v b = entry_at w b" if "b \<in> set xs" for b using that x by metis
  have c: "c = Some x" and ch: "chain (entry_links w) (entry_links w x) xs" using Cons.prems(2) by simp_all
  have ch': "chain (entry_links v) (entry_links w x) xs"
    by (rule lseg_frame [OF ch]) (simp add: entry_links_def same_xs)
  have sub: "set xs \<subseteq> dom (w_entries v)" using Cons.prems(3) x by (auto simp: R(2))
  have run: "release_chain (length xs) release q (entry_links w x) v = (c', w')"
    using Cons.prems(4) c by (simp add: v_def entry_links_def)
  note IH = Cons.IH [OF R(1) ch' sub run]
  have ent: "w_entries w' = w_entries w |` (- set (x # xs))"
    using IH unfolding R(2) by (auto simp: restrict_map_def fun_eq_iff)
  have calls: "map (\<lambda>a. user_calls (entry_at v a)) xs = map (\<lambda>a. user_calls (entry_at w a)) xs"
    using same_xs by simp
  have own: "k \<notin> live (w_packetPool w')" if "a \<in> set (x # xs)" "owned (entry_at w a) = Some k" for a k
  proof (cases "a = x")
    case True
    then show ?thesis using that(2) IH R(7) ex by blast
  next
    case False
    then have "a \<in> set xs" "owned (entry_at v a) = Some k" using that same_xs by auto
    then show ?thesis using IH by blast
  qed
  have gb: "\<exists>a \<in> set (x # xs). gives_back w (entry_at w a) k" if k: "k \<in> live (w_packetPool w) - live (w_packetPool w')" for k
  proof (cases "k \<in> live (w_packetPool v)")
    case True
    then obtain a where "a \<in> set xs" "gives_back v (entry_at v a) k" using IH k by blast
    then show ?thesis using gives_back_mono [OF R(9)] same_xs by auto
  next
    case False
    then show ?thesis using R(8) [of k] k ex by auto
  qed
  have "c' = None" "world_inv invar live X w'" "w_violations w' = w_violations w"
    using IH R(3) by simp_all
  moreover have "w_userCalls w' = w_userCalls w @ concat (map (\<lambda>a. user_calls (entry_at w a)) (x # xs))"
    using IH R(4) calls ex by simp
  moreover have "live (w_packetPool w') \<subseteq> live (w_packetPool w)" using IH R(5) by blast
  moreover have "live (w_entryPool w') \<subseteq> live (w_entryPool w) - set (x # xs)" using IH R(6) by auto
  ultimately show ?case using ent own gb by blast
qed

lemma sq_Reset_inv:
  assumes inv: "world_inv invar live X w" and q: "sq_inv (q, w)" "set (sq_contents (q, w)) \<subseteq> dom (w_entries w)"
    and pools: "sq_sendQueueMemoryPool q" "sq_packetMemoryPool q" "sq_generalMemoryPool q"
    and R: "sq_Reset release (q, w) = (q', w')"
  shows "sq_inv (q', w') \<and> sq_contents (q', w') = [] \<and> world_inv invar live X w' \<and>
    w_entries w' = w_entries w |` (- set (sq_contents (q, w))) \<and> w_violations w' = w_violations w \<and>
    w_userCalls w' = w_userCalls w @ concat (map (\<lambda>a. user_calls (entry_at w a)) (sq_contents (q, w))) \<and>
    live (w_packetPool w') \<subseteq> live (w_packetPool w) \<and>
    live (w_entryPool w') \<subseteq> live (w_entryPool w) - set (sq_contents (q, w)) \<and>
    (\<forall>a k. a \<in> set (sq_contents (q, w)) \<and> owned (entry_at w a) = Some k \<longrightarrow> k \<notin> live (w_packetPool w')) \<and>
    (\<forall>k. k \<in> live (w_packetPool w) - live (w_packetPool w') \<longrightarrow>
       (\<exists>a \<in> set (sq_contents (q, w)). gives_back w (entry_at w a) k))"
proof -
  let ?q = "q\<lparr>sq_head := None, sq_tail := None, sq_count := 0\<rparr>"
  have c: "chain (entry_links w) (sq_head q) (sq_contents (q, w))"
    and len: "length (sq_contents (q, w)) = unat (sq_count q)" using q(1) by (simp_all add: sq_inv_def)
  define cw where "cw = release_chain (length (sq_contents (q, w))) release ?q (sq_head q) w"
  have q': "q' = ?q" and "w' = snd cw" using R len by (auto simp: sq_Reset_def Let_def cw_def)
  then have run: "release_chain (length (sq_contents (q, w))) release ?q (sq_head q) w = (fst cw, w')"
    by (simp add: cw_def)
  have "sq_inv (q', w') \<and> sq_contents (q', w') = []" by (rule sq_invI) (simp_all add: q')
  moreover have p: "sq_sendQueueMemoryPool ?q" "sq_packetMemoryPool ?q" "sq_generalMemoryPool ?q" using pools by simp_all
  moreover note conjunct2 [OF release_chain_inv [OF inv c q(2) p run]]
  ultimately show ?thesis by (elim conjE) (intro conjI; assumption)
qed

text \<open>Acquiring, filling and pushing an entry.\<close>

lemma push_new_inv:
  assumes inv: "world_inv invar live X w" and q: "sq_inv (q, w)" "set (sq_contents (q, w)) \<subseteq> dom (w_entries w)"
    and e: "e = fill new_entry"
    and own: "\<And>p. owned e = Some p \<Longrightarrow> p \<in> live (w_packetPool w) \<and> (\<forall>b. holds w b \<noteq> Some p)"
    and ref: "\<And>c. refs_of e c \<Longrightarrow> 0 < X c"
    and P: "push_new acquire release fill (q, w) = (ok, q', w')"
  shows "if ok then sq_count q < sq_maxCount q \<and> world_inv invar live (\<lambda>c. X c - of_bool (refs_of e c)) w' \<and>
      sq_inv (q', w') \<and> w_packetPool w' = w_packetPool w \<and>
      (\<exists>a. a \<notin> live (w_entryPool w) \<and> live (w_entryPool w') = insert a (live (w_entryPool w)) \<and>
         sq_contents (q', w') = sq_contents (q, w) @ [a] \<and> dom (w_entries w') = insert a (dom (w_entries w)) \<and>
         (entry_at w' a)\<lparr>en_next := None\<rparr> = e\<lparr>en_next := None\<rparr>)
    else world_inv invar live X w' \<and> q' = q \<and> sq_inv (q, w') \<and> sq_contents (q, w') = sq_contents (q, w) \<and>
      w_entries w' = w_entries w \<and> live (w_entryPool w') = live (w_entryPool w) \<and> w_packetPool w' = w_packetPool w \<and>
      w_shared w' = w_shared w"
proof -
  obtain r w1 where C: "CreateSendPacketEntry acquire w = (r, w1)" by fastforce
  note c = CreateSendPacketEntry_inv [OF inv C]
  note i1 = c(1)
  show ?thesis
  proof (cases r)
    case None
    then have s: "\<not> ok" "q' = q" "w' = w1" using P C by (simp_all add: push_new_def)
    have we: "w_entries w1 = w_entries w" using c(4) None by simp
    then have "entry_at w1 = entry_at w" by (simp add: entry_at_def fun_eq_iff)
    then have "sq_contents (q, w1) = sq_contents (q, w) \<and> sq_inv (q, w1)"
      using q(1) by (simp add: sq_inv_def sq_contents_def entry_links_def [abs_def])
    with s c i1 None we show ?thesis by simp
  next
    case (Some a)
    have fr: "w_entries w a = None" "a \<notin> live (w_entryPool w)" using c(5) Some by simp_all
    have ents: "w_entries w1 = (w_entries w)(a := Some new_entry)" using c(4) Some by simp
    let ?w2 = "set_entry a e w1"
    have a1: "entry_at w1 a = new_entry" using ents by (simp add: entry_at_def)
    have h1: "holds w1 b = holds w b" for b
      using c(3,5) Some ents by (cases "b = a") (simp_all add: holds_def entry_at_def new_entry_empty)
    have an: "a \<notin> set (sq_contents (q, w))" using q(2) fr(1) by blast
    have lk: "entry_links ?w2 b = entry_links w b" if "b \<noteq> a" for b
      using that ents by (simp add: entry_links_def entry_at_def)
    have ch: "chain (entry_links w) (sq_head q) (sq_contents (q, w))" using q(1) by (simp add: sq_inv_def)
    have "chain (entry_links ?w2) (sq_head q) (sq_contents (q, w))"
      by (rule lseg_frame [OF ch]) (rule lk, use an in blast)
    then have q2: "sq_inv (q, ?w2) \<and> sq_contents (q, ?w2) = sq_contents (q, w)"
      using q(1) by (intro sq_invI) (simp_all add: sq_inv_def)
    obtain ok' q3 w3 where B: "PushBack a (q, ?w2) = (ok', q3, w3)" by (metis prod_cases3)
    have an2: "a \<notin> set (sq_contents (q, ?w2))" using q2 an by simp
    note p = PushBack_spec [OF conjunct1 [OF q2] an2 B]
    show ?thesis
    proof (cases ok')
      case True
      then have s: "ok" "q' = q3" "w' = w3" using P C Some B a1 by (simp_all add: push_new_def e)
      have i2: "world_inv invar live (\<lambda>c. X c - of_bool (refs_of e c)) ?w2"
      proof (rule world_inv_fill [OF i1])
        show "w_entries w1 a \<noteq> None" using ents by simp
        show "owned (entry_at w1 a) = None" "\<And>c. \<not> refs_of (entry_at w1 a) c" by (simp_all add: a1)
        show "p \<in> live (w_packetPool w1) \<and> (\<forall>b. holds w1 b \<noteq> Some p)" if "owned e = Some p" for p
          using own [OF that] c(3) h1 by simp
        show "0 < X c" if "refs_of e c" for c using ref [OF that] .
      qed
      have t: "set_option (sq_tail q) \<subseteq> dom (w_entries ?w2)"
        using q(1,2) ents by (auto simp: sq_inv_def split: if_splits intro!: last_in_set)
      have dom: "dom (w_entries w3) = dom (w_entries ?w2)" using p(5) True t by auto
      have "(entry_at w3 a)\<lparr>en_next := None\<rparr> = e\<lparr>en_next := None\<rparr>"
        using p(4) by (simp add: link_frame_def)
      moreover have "w_packetPool w3 = w_packetPool w \<and> live (w_entryPool w3) = insert a (live (w_entryPool w))"
        using p(4) c(2,3) Some by (simp add: link_frame_def)
      moreover have "dom (w_entries w3) = insert a (dom (w_entries w))" using dom ents by auto
      moreover have "sq_contents (q3, w3) = sq_contents (q, w) @ [a]" using p(3) True q2 by simp
      moreover have "sq_count q < sq_maxCount q" using p(1) True by simp
      ultimately show ?thesis
        using fr(2) p(2) world_inv_link(1) [OF i2 p(4) dom] unfolding s(2,3) if_P [OF s(1)] by blast
    next
      case False
      then have q3: "q3 = q" using p(7) by simp
      have w3: "w3 = set_entry a (e\<lparr>en_next := None\<rparr>) ?w2"
      proof -
        have "sq_maxCount q \<le> sq_count q" using p(1) False by simp
        with B show ?thesis by (simp add: PushBack_def Let_def)
      qed
      have s: "\<not> ok" "q' = q" "w' = ReleaseSendPacketEntry release a w3"
        using P C Some B a1 False q3 by (simp_all add: push_new_def e)
      have w': "w' = ReleaseSendPacketEntry release a w1"
        by (simp add: s(3) w3 ReleaseSendPacketEntry_def set_entry_def)
      have e1: "w_entries w1 a = Some new_entry" using ents by simp
      note z = ReleaseSendPacketEntry_inv [OF i1 e1 new_entry_empty]
      have we: "w_entries w' = w_entries w" using fr(1) ents by (auto simp: w' ReleaseSendPacketEntry_def)
      then have "entry_at w' = entry_at w" by (simp add: entry_at_def fun_eq_iff)
      then have "sq_contents (q, w') = sq_contents (q, w) \<and> sq_inv (q, w')"
        using q(1) by (simp add: sq_inv_def sq_contents_def entry_links_def [abs_def])
      moreover have "live (w_entryPool w') = live (w_entryPool w)" using z(2) c(2) Some fr(2) by (auto simp: w')
      moreover have "w_packetPool w' = w_packetPool w \<and> w_shared w' = w_shared w"
        using c(3) by (simp add: w' ReleaseSendPacketEntry_def)
      ultimately show ?thesis using s(1,2) z(1) we by (simp add: w')
    qed
  qed
qed

lemma Enqueue_cases:
  "\<not> sq_sendQueueMemoryPool q \<or> \<not> sq_packetMemoryPool q \<or> \<not> sq_generalMemoryPool q \<or> sz = 0 \<or> sz > PACKET_SIZE_LIMIT \<Longrightarrow>
     Enqueue acquire release (Some (Some k)) sz (q, w) = (False, Some (Some k), q, w)"
  "\<not> (\<not> sq_sendQueueMemoryPool q \<or> \<not> sq_packetMemoryPool q \<or> \<not> sq_generalMemoryPool q \<or> sz = 0 \<or> sz > PACKET_SIZE_LIMIT) \<Longrightarrow>
     Enqueue acquire release (Some (Some k)) sz (q, w) =
       (case push_new acquire release (\<lambda>e. e\<lparr>en_packetData := Some k, en_packetSize := sz,
                en_releaseFunc := None, en_releaseContext := None\<rparr>) (q, w) of
          (False, q', w') \<Rightarrow> (False, Some (Some k), q', w')
        | (True, q', w') \<Rightarrow> (True, Some None, q', w'))"
  "\<not> sq_sendQueueMemoryPool q \<or> \<not> sq_packetMemoryPool q \<or> \<not> sq_generalMemoryPool q \<or> sz = 0 \<or> sz > PACKET_SIZE_LIMIT \<Longrightarrow>
     EnqueueShared acquire release (Some k) sz (Some f) c (q, w) = (False, q, w)"
  "\<not> (\<not> sq_sendQueueMemoryPool q \<or> \<not> sq_packetMemoryPool q \<or> \<not> sq_generalMemoryPool q \<or> sz = 0 \<or> sz > PACKET_SIZE_LIMIT) \<Longrightarrow>
     EnqueueShared acquire release (Some k) sz (Some f) c (q, w) =
       push_new acquire release (\<lambda>e. e\<lparr>en_packetData := Some k, en_packetSize := sz,
            en_releaseFunc := Some f, en_releaseContext := c\<rparr>) (q, w)"
  by (simp_all add: Enqueue_def EnqueueShared_def)

lemma Enqueue_inv:
  assumes inv: "world_inv invar live X w" and q: "sq_inv (q, w)" "set (sq_contents (q, w)) \<subseteq> dom (w_entries w)"
    and k: "k \<in> live (w_packetPool w)" "\<And>b. holds w b \<noteq> Some k"
    and E: "Enqueue acquire release (Some (Some k)) sz (q, w) = (ok, var, q', w')"
  shows "world_inv invar live X w' \<and> sq_inv (q', w') \<and> set (sq_contents (q', w')) \<subseteq> dom (w_entries w') \<and>
    w_packetPool w' = w_packetPool w \<and>
    (if ok then var = Some None \<and> sq_count q < sq_maxCount q \<and> 0 < sz \<and> sz \<le> PACKET_SIZE_LIMIT \<and>
       (\<exists>a. a \<notin> live (w_entryPool w) \<and> live (w_entryPool w') = insert a (live (w_entryPool w)) \<and>
         sq_contents (q', w') = sq_contents (q, w) @ [a] \<and> holds w' a = Some k \<and> en_packetSize (entry_at w' a) = sz)
     else var = Some (Some k) \<and> q' = q \<and> w_entries w' = w_entries w \<and> w_shared w' = w_shared w \<and>
       sq_contents (q', w') = sq_contents (q, w) \<and> live (w_entryPool w') = live (w_entryPool w))"
proof -
  let ?fill = "\<lambda>e :: SendPacketEntry. e\<lparr>en_packetData := Some k, en_packetSize := sz, en_releaseFunc := None, en_releaseContext := None\<rparr>"
  let ?e = "?fill new_entry"
  show ?thesis
  proof (cases "\<not> sq_sendQueueMemoryPool q \<or> \<not> sq_packetMemoryPool q \<or> \<not> sq_generalMemoryPool q \<or>
      sz = 0 \<or> sz > PACKET_SIZE_LIMIT")
    case True
    then have "\<not> ok \<and> var = Some (Some k) \<and> q' = q \<and> w' = w" using E Enqueue_cases(1) [OF True] by simp
    with inv q show ?thesis by simp
  next
    case False
    obtain ok2 q2 w2 where P: "push_new acquire release ?fill (q, w) = (ok2, q2, w2)" by (metis prod_cases3)
    have s: "ok = ok2" "q' = q2" "w' = w2" "var = (if ok2 then Some None else Some (Some k))"
      using E P Enqueue_cases(2) [OF False] by (simp_all split: bool.splits)
    have o: "owned ?e = Some k" "\<And>c. \<not> refs_of ?e c" by (simp_all add: owned_def refs_of_def new_entry_def)
    have oo: "p \<in> live (w_packetPool w) \<and> (\<forall>b. holds w b \<noteq> Some p)" if "owned ?e = Some p" for p
      using that k o(1) by simp
    have rr: "0 < X c" if "refs_of ?e c" for c using that o(2) by blast
    note p = push_new_inv [OF inv q refl oo rr P]
    have sz: "0 < sz" "sz \<le> PACKET_SIZE_LIMIT" using False by (auto simp: word_neq_0_conv not_less)
    show ?thesis
    proof (cases ok2)
      case False
      with p s q show ?thesis by simp
    next
      case True
      have X: "(\<lambda>c. X c - of_bool (refs_of ?e c)) = X" using o(2) by simp
      obtain a where a: "a \<notin> live (w_entryPool w)" "live (w_entryPool w2) = insert a (live (w_entryPool w))"
        "sq_contents (q2, w2) = sq_contents (q, w) @ [a]" "dom (w_entries w2) = insert a (dom (w_entries w))"
        "(entry_at w2 a)\<lparr>en_next := None\<rparr> = ?e\<lparr>en_next := None\<rparr>" using p True by auto
      have d: "en_packetData (entry_at w2 a) = Some k \<and> en_packetSize (entry_at w2 a) = sz \<and> en_releaseFunc (entry_at w2 a) = None"
        using a(5) by (cases "entry_at w2 a") (simp add: new_entry_def)
      have "w_entries w2 a \<noteq> None" using a(4) by blast
      then have "holds w2 a = Some k" using d by (simp add: holds_def owned_def)
      then show ?thesis using p True s a d sz q(2) unfolding X by auto
    qed
  qed
qed

lemma EnqueueShared_inv:
  assumes inv: "world_inv invar live X w" and q: "sq_inv (q, w)" "set (sq_contents (q, w)) \<subseteq> dom (w_entries w)"
    and c: "0 < X c"
    and E: "EnqueueShared acquire release (Some k) sz (Some ReleaseCallback) (Some c) (q, w) = (ok, q', w')"
  shows "sq_inv (q', w') \<and> set (sq_contents (q', w')) \<subseteq> dom (w_entries w') \<and> w_packetPool w' = w_packetPool w \<and>
    (if ok then world_inv invar live (X(c := X c - 1)) w' \<and>
       (\<exists>a. sq_contents (q', w') = sq_contents (q, w) @ [a] \<and> refs_of (entry_at w' a) c)
     else world_inv invar live X w' \<and> q' = q \<and> w_entries w' = w_entries w \<and>
       sq_contents (q', w') = sq_contents (q, w) \<and> live (w_entryPool w') = live (w_entryPool w))"
proof -
  let ?fill = "\<lambda>e :: SendPacketEntry. e\<lparr>en_packetData := Some k, en_packetSize := sz, en_releaseFunc := Some ReleaseCallback, en_releaseContext := Some c\<rparr>"
  let ?e = "?fill new_entry"
  show ?thesis
  proof (cases "\<not> sq_sendQueueMemoryPool q \<or> \<not> sq_packetMemoryPool q \<or> \<not> sq_generalMemoryPool q \<or>
      sz = 0 \<or> sz > PACKET_SIZE_LIMIT")
    case True
    then have "\<not> ok \<and> q' = q \<and> w' = w" using E Enqueue_cases(3) [OF True] by simp
    with inv q show ?thesis by simp
  next
    case False
    then have P: "push_new acquire release ?fill (q, w) = (ok, q', w')" using E Enqueue_cases(4) [OF False] by simp
    have o: "owned ?e = None" "\<And>d. refs_of ?e d = (d = c)" by (simp_all add: owned_def refs_of_def eq_commute)
    have oo: "p \<in> live (w_packetPool w) \<and> (\<forall>b. holds w b \<noteq> Some p)" if "owned ?e = Some p" for p
      using that o(1) by simp
    have rr: "0 < X d" if "refs_of ?e d" for d using that o(2) c by simp
    note p = push_new_inv [OF inv q refl oo rr P]
    show ?thesis
    proof (cases ok)
      case False
      with p q show ?thesis by simp
    next
      case True
      have X: "(\<lambda>d. X d - of_bool (refs_of ?e d)) = X(c := X c - 1)" using o(2) by auto
      obtain a where a: "sq_contents (q', w') = sq_contents (q, w) @ [a]" "dom (w_entries w') = insert a (dom (w_entries w))"
        "(entry_at w' a)\<lparr>en_next := None\<rparr> = ?e\<lparr>en_next := None\<rparr>" using p True by auto
      have "refs_of (entry_at w' a) c"
        using a(3) by (cases "entry_at w' a") (simp add: refs_of_def new_entry_def)
      then show ?thesis using p True a q(2) unfolding X by auto
    qed
  qed
qed

end

end
