(* ===== verification/SendPath.thy ===== *)
theory SendPath
  imports SendQueue
begin

text \<open>
  The send queue on the engine's own pool: the ownership laws of \<open>SendQueue\<close>, which hold for every pool that keeps
  the \<open>packet_pool\<close> contract, instantiated with the thread-caching pool of \<open>TlsPool\<close>.
\<close>

abbreviation tls_acquire :: "OS \<Rightarrow> bool \<Rightarrow> nat \<Rightarrow> TlsMemoryPool \<Rightarrow> nat \<Rightarrow> addr option \<times> TlsMemoryPool" where
  "tls_acquire os al tid \<equiv> \<lambda>s n. Acquire os al tid s (of_nat n)"

abbreviation tls_release :: "bool \<Rightarrow> nat \<Rightarrow> TlsMemoryPool \<Rightarrow> addr \<Rightarrow> TlsMemoryPool" where
  "tls_release al tid \<equiv> \<lambda>s a. Release al tid (Some a) s"

abbreviation send_inv :: "(addr \<Rightarrow> nat) \<Rightarrow> TlsMemoryPool SendWorld \<Rightarrow> bool" where
  "send_inv \<equiv> world_inv pool_inv payloads"

section \<open>Concrete worlds\<close>

text \<open>A queue of one entry at most; a packet at 196656 of the packet pool, held by the caller.\<close>

definition queue1 :: SendPacketQueue where
  "queue1 = new_SendPacketQueue\<lparr>sq_maxCount := 1, sq_sendQueueMemoryPool := True,
     sq_packetMemoryPool := True, sq_generalMemoryPool := True\<rparr>"

definition world0 :: "TlsMemoryPool SendWorld" where
  "world0 = \<lparr>w_entryPool = pool0, w_packetPool = pool1, w_entries = (\<lambda>_. None), w_shared = (\<lambda>_. None),
     w_userCalls = [], w_violations = 0\<rparr>"

lemma world0_inv: "send_inv (\<lambda>_. 0) world0" "holds world0 b = None" "w_entries world0 = (\<lambda>_. None)"
  "w_packetPool world0 = pool1"
  by (simp_all add: world_inv_def world0_def pool0_ok pool1_ok holds_def entry_refs_def)

lemma queue1_inv: "sq_inv (queue1, w) \<and> sq_contents (queue1, w) = []"
  by (rule sq_invI) (simp_all add: queue1_def new_SendPacketQueue_def)

text \<open>The packet after it was enqueued.\<close>

definition enq1 :: "bool \<times> addr option option \<times> SendPacketQueue \<times> TlsMemoryPool SendWorld" where
  "enq1 = Enqueue (tls_acquire os0 True 1) (tls_release True 1) (Some (Some 196656)) 100 (queue1, world0)"

lemma enq1_ok: "fst enq1"
  by code_simp

lemma enq1_split: "\<exists>var q w. enq1 = (True, var, q, w)"
  using enq1_ok by (metis prod.collapse)

section \<open>Properties\<close>

text \<open>
  C14. The send queue is first-in first-out under any history: whatever entries are pushed and taken, in any order, the
  entries taken are, in order, those the queue held and then accepted; nothing is lost, repeated or
  reordered, and a push refused at the depth limit leaves the queue as it was.
\<close>

theorem send_queue_fifo:
  assumes "sq_inv qw" and "sq.legal ops qw" and "sq.run ops qw = (ins, outs, qw')"
  shows "sq_contents qw @ ins = outs @ sq_contents qw' \<and> sq_inv qw'"
  using sq.run_fifo [OF assms] .

definition qw1 :: "SendPacketQueue \<times> unit SendWorld" where
  "qw1 = (queue1\<lparr>sq_maxCount := 2\<rparr>, \<lparr>w_entryPool = (), w_packetPool = (), w_entries = (\<lambda>_. None), w_shared = (\<lambda>_. None),
     w_userCalls = [], w_violations = 0\<rparr>)"

lemma send_queue_fifo_witness:
  "\<exists>qw'. sq.run [Some 7, Some 9, Some 11, None, Some 11, None, None, None] qw1 = ([7, 9, 11], [7, 9, 11], qw') \<and>
     [7, 9, 11] = [7, 9, 11] @ sq_contents qw'"
proof -
  let ?ops = "[Some 7, Some 9, Some 11, None, Some 11, None, None, None] :: addr option list"
  have i: "sq_inv qw1 \<and> sq_contents qw1 = []"
    unfolding qw1_def by (rule sq_invI) (simp_all add: queue1_def new_SendPacketQueue_def)
  have "sq.legal ?ops qw1 \<and> fst (sq.run ?ops qw1) = [7, 9, 11] \<and> fst (snd (sq.run ?ops qw1)) = [7, 9, 11]"
    by (simp only: sq.run.simps sq.legal.simps) (simp add: qw1_def queue1_def new_SendPacketQueue_def PushBack_def [THEN fun_cong, of _ "(x, y)" for x y]
        Dequeue_def [THEN fun_cong, of "(x, y)" for x y] Let_def entry_at_def set_entry_def
        sq_contents_def entry_links_def new_entry_def word_le_nat_alt)
  then obtain qw' where "sq.legal ?ops qw1" and "sq.run ?ops qw1 = ([7, 9, 11], [7, 9, 11], qw')"
    by (metis prod.collapse)
  with send_queue_fifo [OF conjunct1 [OF i] this] i show ?thesis by simp
qed

text \<open>
  C15. \<open>Enqueue\<close> takes ownership exactly when it succeeds. On success the caller's pointer is cleared, one new entry that
  holds the packet is at the end of the queue and one block of the entry pool is in use for it; on every
  failure (pools gone, size out of range, no block for an entry, depth limit) the pointer still is
  the caller's, the queue and its entries are as before and no block stays behind.
\<close>

theorem Enqueue_takes_ownership:
  assumes "send_inv X w" and "sq_inv (q, w)" and "set (sq_contents (q, w)) \<subseteq> dom (w_entries w)"
    and "k \<in> payloads (w_packetPool w)" and "\<And>b. holds w b \<noteq> Some k"
    and "Enqueue (tls_acquire os al tid) (tls_release al tid) (Some (Some k)) sz (q, w) = (ok, var, q', w')"
  shows "send_inv X w' \<and> sq_inv (q', w') \<and> set (sq_contents (q', w')) \<subseteq> dom (w_entries w') \<and>
    w_packetPool w' = w_packetPool w \<and>
    (if ok then var = Some None \<and> sq_count q < sq_maxCount q \<and> 0 < sz \<and> sz \<le> PACKET_SIZE_LIMIT \<and>
       (\<exists>a. a \<notin> payloads (w_entryPool w) \<and> payloads (w_entryPool w') = insert a (payloads (w_entryPool w)) \<and>
         sq_contents (q', w') = sq_contents (q, w) @ [a] \<and> holds w' a = Some k \<and> en_packetSize (entry_at w' a) = sz)
     else var = Some (Some k) \<and> q' = q \<and> w_entries w' = w_entries w \<and> w_shared w' = w_shared w \<and>
       sq_contents (q', w') = sq_contents (q, w) \<and> payloads (w_entryPool w') = payloads (w_entryPool w))"
  using tls.Enqueue_inv [OF assms] .

lemma Enqueue_takes_ownership_witness:
  "\<exists>q' w' a. enq1 = (True, Some None, q', w') \<and> sq_contents (q', w') = [a] \<and> holds w' a = Some 196656 \<and> send_inv (\<lambda>_. 0) w'"
proof -
  obtain var q' w' where E: "enq1 = (True, var, q', w')" using enq1_split by blast
  have "set (sq_contents (queue1, world0)) \<subseteq> dom (w_entries world0)" by (simp add: queue1_inv)
  moreover have "196656 \<in> payloads (w_packetPool world0)" by (simp add: world0_inv pool1_ok)
  ultimately show ?thesis
    using Enqueue_takes_ownership [OF world0_inv(1) conjunct1 [OF queue1_inv] _ _ _ E [unfolded enq1_def]] queue1_inv [of world0] E
    by (auto simp: world0_inv(2))
qed

text \<open>
  \<open>Reset\<close> gives everything back, once: the queue is empty, every entry it held is returned to the entry pool, every
  packet those entries owned is returned to the packet pool, every service callback is called exactly once
  and in queue order, no violation is reported, and no other packet is released (a shared packet only when the queue
  held its last references).
\<close>

theorem Reset_releases_everything:
  assumes "send_inv X w" and "sq_inv (q, w)" and "set (sq_contents (q, w)) \<subseteq> dom (w_entries w)"
    and "sq_sendQueueMemoryPool q" and "sq_packetMemoryPool q" and "sq_generalMemoryPool q"
    and "sq_Reset (tls_release al tid) (q, w) = (q', w')"
  shows "sq_inv (q', w') \<and> sq_contents (q', w') = [] \<and> send_inv X w' \<and>
    w_entries w' = w_entries w |` (- set (sq_contents (q, w))) \<and> w_violations w' = w_violations w \<and>
    w_userCalls w' = w_userCalls w @ concat (map (\<lambda>a. user_calls (entry_at w a)) (sq_contents (q, w))) \<and>
    payloads (w_packetPool w') \<subseteq> payloads (w_packetPool w) \<and>
    payloads (w_entryPool w') \<subseteq> payloads (w_entryPool w) - set (sq_contents (q, w)) \<and>
    (\<forall>a k. a \<in> set (sq_contents (q, w)) \<and> owned (entry_at w a) = Some k \<longrightarrow> k \<notin> payloads (w_packetPool w')) \<and>
    (\<forall>k. k \<in> payloads (w_packetPool w) - payloads (w_packetPool w') \<longrightarrow>
       (\<exists>a \<in> set (sq_contents (q, w)). gives_back w (entry_at w a) k))"
  using tls.sq_Reset_inv [OF assms] .

lemma enq1_state:
  "\<exists>q w a. enq1 = (True, Some None, q, w) \<and> sq_contents (q, w) = [a] \<and> holds w a = Some 196656 \<and> send_inv (\<lambda>_. 0) w \<and>
     sq_inv (q, w) \<and> a \<in> dom (w_entries w) \<and> owned (entry_at w a) = Some 196656 \<and> w_packetPool w = pool1"
proof -
  obtain var q w where E: "enq1 = (True, var, q, w)" using enq1_split by blast
  have "set (sq_contents (queue1, world0)) \<subseteq> dom (w_entries world0)" by (simp add: queue1_inv)
  moreover have "196656 \<in> payloads (w_packetPool world0)" by (simp add: world0_inv pool1_ok)
  moreover have "\<And>b. holds world0 b \<noteq> Some 196656" by (simp add: world0_inv)
  ultimately have *: "send_inv (\<lambda>_. 0) w \<and> sq_inv (q, w) \<and> set (sq_contents (q, w)) \<subseteq> dom (w_entries w) \<and> w_packetPool w = pool1 \<and>
      var = Some None \<and> (\<exists>a. sq_contents (q, w) = [a] \<and> holds w a = Some 196656)"
    using tls.Enqueue_inv [OF world0_inv(1) conjunct1 [OF queue1_inv] _ _ _ E [unfolded enq1_def]] queue1_inv [of world0] world0_inv(4)
    by auto
  then obtain a where a: "sq_contents (q, w) = [a]" "holds w a = Some 196656" by blast
  with * have "a \<in> dom (w_entries w)" by simp
  moreover from this a(2) have "owned (entry_at w a) = Some 196656" by (auto simp: holds_def)
  ultimately show ?thesis using * a E by blast
qed

lemma Reset_releases_everything_witness:
  "\<exists>q w q' w'. enq1 = (True, Some None, q, w) \<and> sq_Reset (tls_release True 2) (q, w) = (q', w') \<and>
     196656 \<in> payloads (w_packetPool w) \<and> 196656 \<notin> payloads (w_packetPool w') \<and> sq_contents (q', w') = []"
proof -
  obtain q w a where e: "enq1 = (True, Some None, q, w)" "sq_contents (q, w) = [a]" "send_inv (\<lambda>_. 0) w"
    "sq_inv (q, w)" "a \<in> dom (w_entries w)" "owned (entry_at w a) = Some 196656" "w_packetPool w = pool1"
    using enq1_state by blast
  obtain q' w' where R: "sq_Reset (tls_release True 2) (q, w) = (q', w')" by fastforce
  have "sq_sendQueueMemoryPool (fst (snd (snd enq1))) \<and> sq_packetMemoryPool (fst (snd (snd enq1))) \<and>
      sq_generalMemoryPool (fst (snd (snd enq1)))" by code_simp
  from this [unfolded e(1)] have p: "sq_sendQueueMemoryPool q" "sq_packetMemoryPool q" "sq_generalMemoryPool q" by simp_all
  have s: "set (sq_contents (q, w)) \<subseteq> dom (w_entries w)" using e(2,5) by simp
  from Reset_releases_everything [OF e(3,4) s p R] have "sq_contents (q', w') = []" "196656 \<notin> payloads (w_packetPool w')"
    using e(2,6) by auto
  moreover have "196656 \<in> payloads (w_packetPool w)" by (simp add: e(7) pool1_ok)
  ultimately show ?thesis using e(1) R by blast
qed

text \<open>
  A broadcast packet lives exactly as long as its references: while anybody (a queue entry or the distributor)
  refers to a shared packet, its packet is in use; releasing a reference that is not the last one touches
  no pool, and releasing the last one returns the packet to its pool and the descriptor to its own.
\<close>

theorem shared_packet_lifetime:
  assumes "send_inv X w" and "0 < X c" and "w' = shared_Release (tls_release al tid) (Some c) w"
  shows "\<exists>s k. w_shared w c = Some s \<and> sp_packet s = Some k \<and> k \<in> payloads (w_packetPool w) \<and>
    send_inv (X(c := X c - 1)) w' \<and>
    (if entry_refs w c + X c = 1
     then w_shared w' c = None \<and> payloads (w_packetPool w') = payloads (w_packetPool w) - {k} \<and>
       payloads (w_entryPool w') = payloads (w_entryPool w) - {c}
     else w_packetPool w' = w_packetPool w \<and> w_entryPool w' = w_entryPool w \<and>
       (\<exists>s'. w_shared w' c = Some s' \<and> sp_packet s' = Some k \<and> k \<in> payloads (w_packetPool w')))"
proof -
  note r = tls.shared_Release_inv [OF assms]
  then obtain s where s: "w_shared w c = Some s" by blast
  obtain k where k: "sp_packet s = Some k" using world_invD(8) [OF assms(1) s] by blast
  have "w_entries w c = None" using world_invD(5) [OF assms(1)] s by blast
  then have "holds w c = Some k" using s k by (simp add: holds_def)
  then have "k \<in> payloads (w_packetPool w)" using world_invD(6) [OF assms(1)] by blast
  with r s k show ?thesis by (intro exI [of _ s] exI [of _ k]) (auto split: if_splits)
qed

definition world2 :: "TlsMemoryPool SendWorld" where
  "world2 = \<lparr>w_entryPool = pool1, w_packetPool = pool1, w_entries = (\<lambda>_. None),
     w_shared = [196656 \<mapsto> \<lparr>sp_refCount = 2, sp_packet = Some 196656, sp_packetPool = True, sp_selfPool = True\<rparr>],
     w_userCalls = [], w_violations = 0\<rparr>"

lemma shared_packet_lifetime_witness:
  "let w1 = shared_Release (tls_release True 1) (Some 196656) world2;
       w2 = shared_Release (tls_release True 2) (Some 196656) w1
   in 196656 \<in> payloads (w_packetPool w1) \<and> 196656 \<notin> payloads (w_packetPool w2) \<and> w_shared w2 196656 = None"
proof -
  let ?X = "(\<lambda>_. 0)(196656 := 2) :: addr \<Rightarrow> nat"
  have i: "send_inv ?X world2"
    by (auto simp: world_inv_def world2_def pool1_ok holds_def entry_refs_def split: if_splits)
  define w1 where "w1 = shared_Release (tls_release True 1) (Some 196656) world2"
  have er: "entry_refs world2 196656 = 0" by (simp add: entry_refs_def world2_def)
  have "0 < ?X 196656" by simp
  note s1 = shared_packet_lifetime [OF i this w1_def]
  have X1: "?X(196656 := ?X 196656 - 1) = (\<lambda>_. 0)(196656 := 1)" by auto
  from s1 have i1: "send_inv ((\<lambda>_. 0)(196656 := 1)) w1" unfolding X1 by blast
  have p1: "w_packetPool w1 = pool1" using s1 er by (auto simp: world2_def)
  have er1: "entry_refs w1 196656 = 0" unfolding w1_def by (simp add: shared_Release_def world2_def entry_refs_def)
  define w2 where "w2 = shared_Release (tls_release True 2) (Some 196656) w1"
  have "0 < ((\<lambda>_. 0)(196656 := 1) :: addr \<Rightarrow> nat) 196656" by simp
  note s2 = shared_packet_lifetime [OF i1 this w2_def]
  obtain s where s: "w_shared w1 196656 = Some s" "sp_packet s = Some 196656"
    unfolding w1_def by (simp add: shared_Release_def world2_def)
  from s2 er1 s have "196656 \<notin> payloads (w_packetPool w2)" "w_shared w2 196656 = None" by auto
  then show ?thesis using p1 pool1_ok(2) unfolding Let_def w1_def [symmetric] w2_def [symmetric] by simp
qed

end
