(* ===== verification/Config.thy ===== *)
theory Config
  imports RecvRing SendQueue
begin

text \<open>
  The configuration structures a service hands to the engine (\<open>Buffer/SessionBufferConfig.h\<close>,
  \<open>Core/HeartbeatConfig.h\<close>, \<open>Core/ClientLivenessConfig.h\<close>, \<open>Session/ConnectionPolicyConfig.h\<close>,
  \<open>Memory/EnginePoolConfig.h\<close>) with their validity checks and presets, and the start-up code that makes the
  engine's four pools from them (\<open>Memory/EnginePoolBuilder.h\<close>).
\<close>

section \<open>Session buffers\<close>

definition MEMORY_SIZE_1K :: u32 where "MEMORY_SIZE_1K = 1024"
definition MEMORY_SIZE_4K :: u32 where "MEMORY_SIZE_4K = 1024 * 4"
definition MEMORY_SIZE_16K :: u32 where "MEMORY_SIZE_16K = 1024 * 16"
definition MEMORY_SIZE_32K :: u32 where "MEMORY_SIZE_32K = 1024 * 32"
definition MEMORY_SIZE_64K :: u32 where "MEMORY_SIZE_64K = 1024 * 64"
definition MEMORY_SIZE_256K :: u32 where "MEMORY_SIZE_256K = 1024 * 256"
definition MEMORY_SIZE_1MB :: u32 where "MEMORY_SIZE_1MB = 1024 * 1024"
definition BLOCK_COUNT_4K :: u32 where "BLOCK_COUNT_4K = 1024 * 4"

record SessionBufferConfig =
  maxRecvPacketSize :: u32
  recvRingSize :: u32
  maxSendPacketSize :: u32
  sendQueueDepth :: u32
  recvPauseJobDepth :: u32
  recvResumeJobDepth :: u32

definition SessionBufferConfig_IsValid :: "SessionBufferConfig \<Rightarrow> bool" where
  "SessionBufferConfig_IsValid c \<longleftrightarrow>
     (if maxRecvPacketSize c < of_nat sizeof_PACKET_HEADER \<or> maxRecvPacketSize c > PACKET_SIZE_LIMIT then False
      else if maxSendPacketSize c < of_nat sizeof_PACKET_HEADER \<or> maxSendPacketSize c > PACKET_SIZE_LIMIT then False
      else if \<not> IsPowerOfTwo (recvRingSize c) then False
      else if recvRingSize c < maxRecvPacketSize c * 2 then False
      else if sendQueueDepth c = 0 then False
      else if recvPauseJobDepth c \<noteq> 0 \<and> recvResumeJobDepth c \<ge> recvPauseJobDepth c then False
      else True)"

definition SessionBufferPreset_Server :: SessionBufferConfig where
  "SessionBufferPreset_Server =
     \<lparr>maxRecvPacketSize = MEMORY_SIZE_4K, recvRingSize = MEMORY_SIZE_16K, maxSendPacketSize = PACKET_SIZE_LIMIT,
      sendQueueDepth = BLOCK_COUNT_4K, recvPauseJobDepth = 256, recvResumeJobDepth = 64\<rparr>"

definition SessionBufferPreset_Client :: SessionBufferConfig where
  "SessionBufferPreset_Client =
     \<lparr>maxRecvPacketSize = PACKET_SIZE_LIMIT, recvRingSize = MEMORY_SIZE_256K, maxSendPacketSize = MEMORY_SIZE_4K,
      sendQueueDepth = BLOCK_COUNT_4K, recvPauseJobDepth = 256, recvResumeJobDepth = 64\<rparr>"

section \<open>Heartbeats, liveness, admission\<close>

record HeartbeatConfig =
  checkInterval_ms :: u64
  timeout_ms :: u64
  stalledPeerTimeout_ms :: u64

definition new_HeartbeatConfig :: HeartbeatConfig where
  "new_HeartbeatConfig = \<lparr>checkInterval_ms = 5000, timeout_ms = 15000, stalledPeerTimeout_ms = 60000\<rparr>"

definition HeartbeatConfig_IsValid :: "HeartbeatConfig \<Rightarrow> bool" where
  "HeartbeatConfig_IsValid c \<longleftrightarrow>
     (if checkInterval_ms c = 0 then False
      else if timeout_ms c \<noteq> 0 \<and> timeout_ms c < checkInterval_ms c * 2 then False
      else if stalledPeerTimeout_ms c \<noteq> 0 \<and> stalledPeerTimeout_ms c < timeout_ms c then False
      else True)"

definition EffectiveStalledTimeout :: "HeartbeatConfig \<Rightarrow> u64" where
  "EffectiveStalledTimeout c = (if stalledPeerTimeout_ms c \<noteq> 0 then stalledPeerTimeout_ms c else timeout_ms c)"

record ClientLivenessConfig =
  missedHeartbeatLimit :: u32
  minIdleTimeout_ms :: u64
  useKeepAlive :: bool
  keepAliveTime_ms :: u32
  keepAliveInterval_ms :: u32

definition new_ClientLivenessConfig :: ClientLivenessConfig where
  "new_ClientLivenessConfig = \<lparr>missedHeartbeatLimit = 3, minIdleTimeout_ms = 15000, useKeepAlive = True,
     keepAliveTime_ms = 10000, keepAliveInterval_ms = 1000\<rparr>"

definition ClientLivenessConfig_IsValid :: "ClientLivenessConfig \<Rightarrow> bool" where
  "ClientLivenessConfig_IsValid c \<longleftrightarrow>
     (if missedHeartbeatLimit c = 1 then False
      else if missedHeartbeatLimit c \<noteq> 0 \<and> minIdleTimeout_ms c = 0 then False
      else if useKeepAlive c \<and> (keepAliveTime_ms c = 0 \<or> keepAliveInterval_ms c = 0) then False
      else True)"

definition ResolveIdleTimeout :: "ClientLivenessConfig \<Rightarrow> u32 \<Rightarrow> u64" where
  "ResolveIdleTimeout c serverHeartbeatInterval_ms =
     (if missedHeartbeatLimit c = 0 then 0
      else (let derived = ucast serverHeartbeatInterval_ms * ucast (missedHeartbeatLimit c) in
            if derived > minIdleTimeout_ms c then derived else minIdleTimeout_ms c))"

text \<open>A zero in either field of the connection policy means no limit.\<close>

record ConnectionPolicyConfig =
  serviceCapacity :: u32
  maxConnectionsPerAddress :: u32

section \<open>Pool configurations\<close>

definition MAX_ENTRIES :: u32 where "MAX_ENTRIES = 16"

text \<open>\<open>pbc_entries\<close> is the array of \<open>MAX_ENTRIES\<close> pairs of a block size and a block count.\<close>

record PoolBinSetConfig =
  pbc_entries :: "(u32 \<times> u32) list"
  pbc_entryCount :: u32
  pbc_commitLimitBytes :: u64

definition new_PoolBinSetConfig :: PoolBinSetConfig where
  "new_PoolBinSetConfig = \<lparr>pbc_entries = replicate 16 (0, 0), pbc_entryCount = 0, pbc_commitLimitBytes = 0\<rparr>"

definition Add :: "u32 \<Rightarrow> u32 \<Rightarrow> PoolBinSetConfig \<Rightarrow> bool \<times> PoolBinSetConfig" where
  "Add blockSize blockCount c =
     (if pbc_entryCount c \<ge> MAX_ENTRIES then (False, c)
      else if blockSize = 0 \<or> blockCount = 0 then (False, c)
      else (True, c\<lparr>pbc_entries := (pbc_entries c)[unat (pbc_entryCount c) := (blockSize, blockCount)],
                    pbc_entryCount := pbc_entryCount c + 1\<rparr>))"

abbreviation used_entries :: "PoolBinSetConfig \<Rightarrow> (u32 \<times> u32) list" where
  "used_entries c \<equiv> take (unat (pbc_entryCount c)) (pbc_entries c)"

definition LargestBlockSize :: "PoolBinSetConfig \<Rightarrow> u32" where
  "LargestBlockSize c = fold (\<lambda>e largest. if fst e > largest then fst e else largest) (used_entries c) 0"

definition PoolBinSetConfig_IsValid :: "PoolBinSetConfig \<Rightarrow> bool" where
  "PoolBinSetConfig_IsValid c \<longleftrightarrow>
     (if pbc_entryCount c = 0 \<or> pbc_entryCount c > MAX_ENTRIES then False
      else list_all (\<lambda>e. \<not> (fst e = 0 \<or> snd e = 0)) (used_entries c))"

record PoolReserveConfig =
  prc_blockCount :: u32
  prc_commitLimitBytes :: u64

definition PoolReserveConfig_IsValid :: "PoolReserveConfig \<Rightarrow> bool" where
  "PoolReserveConfig_IsValid c \<longleftrightarrow> prc_blockCount c \<noteq> 0"

record EnginePoolConfig =
  epc_packet :: PoolBinSetConfig
  epc_general :: PoolBinSetConfig
  epc_job :: PoolReserveConfig
  epc_sendQueue :: PoolReserveConfig

definition EnginePoolConfig_IsValid :: "EnginePoolConfig \<Rightarrow> bool" where
  "EnginePoolConfig_IsValid c \<longleftrightarrow>
     PoolBinSetConfig_IsValid (epc_packet c) \<and> PoolBinSetConfig_IsValid (epc_general c) \<and>
     PoolReserveConfig_IsValid (epc_job c) \<and> PoolReserveConfig_IsValid (epc_sendQueue c)"

definition add_all :: "(u32 \<times> u32) list \<Rightarrow> PoolBinSetConfig \<Rightarrow> PoolBinSetConfig" where
  "add_all es c = fold (\<lambda>e c. snd (Add (fst e) (snd e) c)) es c"

definition EnginePoolPreset :: "(u32 \<times> u32) list \<Rightarrow> EnginePoolConfig" where
  "EnginePoolPreset packetEntries =
     \<lparr>epc_packet = (add_all packetEntries new_PoolBinSetConfig)\<lparr>pbc_commitLimitBytes := 512 * 1024 * 1024\<rparr>,
      epc_general = (add_all [(MEMORY_SIZE_1MB, 1)] new_PoolBinSetConfig)\<lparr>pbc_commitLimitBytes := 256 * 1024 * 1024\<rparr>,
      epc_job = \<lparr>prc_blockCount = 1024, prc_commitLimitBytes = 64 * 1024 * 1024\<rparr>,
      epc_sendQueue = \<lparr>prc_blockCount = 1024 * 64, prc_commitLimitBytes = 128 * 1024 * 1024\<rparr>\<rparr>"

definition EnginePoolPreset_Server :: EnginePoolConfig where
  "EnginePoolPreset_Server = EnginePoolPreset
     [(64, 1024), (128, 1024), (256, 1024), (512, 1024), (1024, 1024), (2048, 1024), (4096, 1024),
      (8192, 512), (16384, 512), (32768, 512)]"

definition EnginePoolPreset_Client :: EnginePoolConfig where
  "EnginePoolPreset_Client = EnginePoolPreset
     [(64, 1024), (128, 1024), (256, 1024), (512, 1024), (1024, 512), (2048, 512), (4096, 512),
      (8192, 256), (16384, 128), (32768, 128), (65536, 64)]"

section \<open>Making the four pools\<close>

text \<open>
  What the system answers while one pool is made: its memory, whether \<open>new\<close> of the pool object succeeds, and whether the
  registry and the bins get their memory.
\<close>

record PoolAnswers =
  pa_os :: OS
  pa_new :: bool
  pa_fls :: bool
  pa_bins :: bool

record EnginePools =
  ep_packet :: "TlsMemoryPool option"
  ep_general :: "TlsMemoryPool option"
  ep_job :: "TlsMemoryPool option"
  ep_sendQueue :: "TlsMemoryPool option"

definition no_pools :: EnginePools where
  "no_pools = \<lparr>ep_packet = None, ep_general = None, ep_job = None, ep_sendQueue = None\<rparr>"

text \<open>
  \<open>delete pool\<close>: the destructor finalises the pool, which gives its slot back to the process-wide bitmap. The object
  is gone afterwards, so only the bitmap remains of it.
\<close>

definition delete_pool :: "TlsMemoryPool option \<Rightarrow> u64 \<Rightarrow> u64" where
  "delete_pool p slots = (case p of None \<Rightarrow> slots | Some s \<Rightarrow> ReleaseSlot (tp_slot s) slots)"

definition DestroyPools :: "EnginePools \<times> u64 \<Rightarrow> EnginePools \<times> u64" where
  "DestroyPools = (\<lambda>(pools, slots).
     (no_pools, delete_pool (ep_sendQueue pools) (delete_pool (ep_job pools)
       (delete_pool (ep_general pools) (delete_pool (ep_packet pools) slots)))))"

text \<open>\<open>FinalizePools\<close> keeps the objects: a late release finds an uninitialised pool, not freed memory.\<close>

definition finalize_pool :: "TlsMemoryPool option \<times> u64 \<Rightarrow> TlsMemoryPool option \<times> u64" where
  "finalize_pool = (\<lambda>(p, slots). case p of None \<Rightarrow> (None, slots)
     | Some s \<Rightarrow> (Some (snd (tls_Finalize s)), ReleaseSlot (tp_slot s) slots))"

definition FinalizePools :: "EnginePools \<times> u64 \<Rightarrow> EnginePools \<times> u64" where
  "FinalizePools = (\<lambda>(pools, slots0).
     (case finalize_pool (ep_packet pools, slots0) of (packet, slots1) \<Rightarrow>
     (case finalize_pool (ep_general pools, slots1) of (general, slots2) \<Rightarrow>
     (case finalize_pool (ep_job pools, slots2) of (job, slots3) \<Rightarrow>
     (case finalize_pool (ep_sendQueue pools, slots3) of (sendQueue, slots4) \<Rightarrow>
        (\<lparr>ep_packet = packet, ep_general = general, ep_job = job, ep_sendQueue = sendQueue\<rparr>, slots4))))))"

text \<open>
  The part \<open>CreateBinSetPool\<close> and \<open>CreateReservePool\<close> have in common. The outer \<open>None\<close> is the division trap of
  \<open>Initialize\<close>, the inner one \<open>nullptr\<close>.
\<close>

definition create_pool ::
  "PoolAnswers \<Rightarrow> (u32 \<times> u32) list \<Rightarrow> u32 \<Rightarrow> u64 \<Rightarrow> u64 \<Rightarrow> (TlsMemoryPool option \<times> u64) option" where
  "create_pool ans binConfigs payloadAlignment limit slots =
     (if \<not> pa_new ans then Some (None, slots)
      else
        (case tls_Initialize (pa_os ans) (pa_fls ans) (pa_bins ans) slots binConfigs payloadAlignment new_pool of
           None \<Rightarrow> None
         | Some (False, slots', pool) \<Rightarrow> Some (None, slots')
         | Some (True, slots', pool) \<Rightarrow>
             Some (Some (pool\<lparr>tp_global := SetCommitLimit (unat limit) (tp_global pool)\<rparr>), slots')))"

definition CreateBinSetPool ::
  "PoolAnswers \<Rightarrow> PoolBinSetConfig \<Rightarrow> u32 \<Rightarrow> u64 \<Rightarrow> (TlsMemoryPool option \<times> u64) option" where
  "CreateBinSetPool ans c payloadAlignment slots =
     create_pool ans (used_entries c) payloadAlignment (pbc_commitLimitBytes c) slots"

definition CreateReservePool ::
  "PoolAnswers \<Rightarrow> PoolReserveConfig \<Rightarrow> u32 \<Rightarrow> u32 \<Rightarrow> u64 \<Rightarrow> (TlsMemoryPool option \<times> u64) option" where
  "CreateReservePool ans c blockSize payloadAlignment slots =
     create_pool ans [(blockSize, prc_blockCount c)] payloadAlignment (prc_commitLimitBytes c) slots"

definition sizeof_Job :: u32 where "sizeof_Job = 64"
definition alignof_Job :: u32 where "alignof_Job = 64"

definition AlignedJobObjectSize :: u32 where
  "AlignedJobObjectSize = (sizeof_Job + 63) AND NOT 63"

text \<open>
  \<open>CreatePools\<close>. The outer \<open>None\<close> is the trap. \<open>ans\<close> gives the system's answers for the four pools.
\<close>

definition CreatePools ::
  "(nat \<Rightarrow> PoolAnswers) \<Rightarrow> EnginePoolConfig \<Rightarrow> u32 \<Rightarrow> EnginePools \<times> u64 \<Rightarrow> (bool \<times> EnginePools \<times> u64) option" where
  "CreatePools ans config maxRecv st =
     (let (p0, slots0) = DestroyPools st in
      if \<not> EnginePoolConfig_IsValid config then Some (False, p0, slots0)
      else
        (case CreateReservePool (ans 0) (epc_job config) AlignedJobObjectSize alignof_Job slots0 of
           None \<Rightarrow> None
         | Some (None, slots1) \<Rightarrow> Some (False, DestroyPools (p0, slots1))
         | Some (Some job, slots1) \<Rightarrow>
        (let p1 = p0\<lparr>ep_job := Some job\<rparr> in
         case CreateBinSetPool (ans 1) (epc_packet config) 16 slots1 of
           None \<Rightarrow> None
         | Some (None, slots2) \<Rightarrow> Some (False, DestroyPools (p1, slots2))
         | Some (Some packet, slots2) \<Rightarrow>
        (let p2 = p1\<lparr>ep_packet := Some packet\<rparr> in
         if BinOf (tp_table packet) (ucast maxRecv) \<ge> bt_binCount (tp_table packet)
         then Some (False, DestroyPools (p2, slots2))
         else
        (case CreateBinSetPool (ans 2) (epc_general config) 16 slots2 of
           None \<Rightarrow> None
         | Some (None, slots3) \<Rightarrow> Some (False, DestroyPools (p2, slots3))
         | Some (Some general, slots3) \<Rightarrow>
        (let p3 = p2\<lparr>ep_general := Some general\<rparr> in
         case CreateReservePool (ans 3) (epc_sendQueue config) (of_nat sizeof_SendPacketEntry) 16 slots3 of
           None \<Rightarrow> None
         | Some (None, slots4) \<Rightarrow> Some (False, DestroyPools (p3, slots4))
         | Some (Some sendQueue, slots4) \<Rightarrow> Some (True, p3\<lparr>ep_sendQueue := Some sendQueue\<rparr>, slots4)))))))"

section \<open>The slot bitmap while pools come and go\<close>

lemma bit_2exp [simp]: "bit (2 ^ s :: u64) i \<longleftrightarrow> i = s \<and> i < 64"
  by (auto simp: bit_exp_iff)

lemma bit_push_1: "bit (push_bit s (1 :: u64)) i \<longleftrightarrow> i = s \<and> i < 64"
  by simp

lemma push_1_free: "i < 64 \<Longrightarrow> x AND push_bit i 1 = 0 \<longleftrightarrow> \<not> bit (x :: u64) i"
proof
  assume i: "i < 64" and z: "x AND push_bit i 1 = 0"
  have "bit (x AND push_bit i 1) i \<longleftrightarrow> bit x i" using i by (simp only: bit_and_iff bit_push_1) simp
  with z show "\<not> bit x i" by simp
next
  assume "\<not> bit x i"
  then show "x AND push_bit i 1 = 0" by (intro bit_eqI) (auto simp: bit_and_iff)
qed

lemma AcquireSlot_spec:
  assumes "AcquireSlot x = (s, x')"
  shows "(case s of None \<Rightarrow> x' = x | Some i \<Rightarrow> i < 64 \<and> \<not> bit x i \<and> (\<forall>j. bit x' j \<longleftrightarrow> j = i \<or> bit x j))"
proof (cases s)
  case None
  then show ?thesis using assms by (auto simp: AcquireSlot_def split: option.splits)
next
  case (Some i)
  then have f: "find (\<lambda>i. x AND push_bit i 1 = 0) [0..<MAX_FAST_SLOTS] = Some i" and x': "x' = x OR push_bit i 1"
    using assms by (auto simp: AcquireSlot_def split: option.splits)
  from f have "i < 64" and "x AND push_bit i 1 = 0" by (auto simp: find_Some_iff MAX_FAST_SLOTS_def)
  then show ?thesis unfolding Some option.case x' using push_1_free by (auto simp: bit_or_iff)
qed

lemma bit_ReleaseSlot: "bit (ReleaseSlot s x) j \<longleftrightarrow> bit x j \<and> s \<noteq> Some j"
  by (cases s) (auto simp: ReleaseSlot_def MAX_FAST_SLOTS_def bit_and_iff bit_not_iff dest: bit_imp_le_length)

lemma Acquire_ReleaseSlot: "AcquireSlot x = (s, x') \<Longrightarrow> ReleaseSlot s x' = x"
  using AcquireSlot_spec [of x s x'] by (intro bit_eqI) (auto simp: bit_ReleaseSlot split: option.splits)

text \<open>The slot of a new pool: \<open>slot_step x s x'\<close> relates the bitmap before, the slot and the bitmap after.\<close>

definition slot_step :: "u64 \<Rightarrow> nat option \<Rightarrow> u64 \<Rightarrow> bool" where
  "slot_step x s x' \<longleftrightarrow>
     (\<forall>j. bit x' j \<longleftrightarrow> s = Some j \<or> bit x j) \<and> (\<forall>j. s = Some j \<longrightarrow> \<not> bit x j \<and> j < 64)"

lemma Preallocate_slots [simp]: "tp_slot (s\<lparr>tp_global := g\<rparr>) = tp_slot s"
  by simp

lemma tls_Initialize_slots:
  assumes "tls_Initialize os fls bins x cs al new_pool = Some (ok, x', s)"
  shows "if ok then slot_step x (tp_slot s) x' else x' = x"
proof (cases "MakeBinTable (map fst cs) al")
  case (Table t)
  obtain slot x1 where A: "AcquireSlot x = (slot, x1)" by fastforce
  have r: "ReleaseSlot slot x1 = x" using Acquire_ReleaseSlot [OF A] .
  have n: "\<not> tp_initialized new_pool" by (simp add: new_pool_def)
  have "ok \<Longrightarrow> x' = x1 \<and> tp_slot s = slot" and "\<not> ok \<Longrightarrow> x' = x"
    using assms Table A r n by (auto simp: tls_Initialize_def Let_def split: if_splits prod.splits bool.splits)
  moreover have "slot_step x slot x1"
    using AcquireSlot_spec [OF A] by (auto simp: slot_step_def split: option.splits)
  ultimately show ?thesis by auto
qed (use assms in \<open>auto simp: tls_Initialize_def new_pool_def\<close>)

lemma create_pool_slots:
  assumes "create_pool ans cs al limit x = Some (p, x')"
  shows "case p of None \<Rightarrow> x' = x | Some s \<Rightarrow> slot_step x (tp_slot s) x'"
proof (cases "pa_new ans")
  case True
  show ?thesis
  proof (cases "tls_Initialize (pa_os ans) (pa_fls ans) (pa_bins ans) x cs al new_pool")
    case None
    with True assms show ?thesis by (simp add: create_pool_def)
  next
    case (Some r)
    obtain ok y s where r: "r = (ok, y, s)" by (cases r)
    from tls_Initialize_slots [OF Some [unfolded r]] True assms Some r show ?thesis
      by (cases ok) (auto simp: create_pool_def)
  qed
qed (use assms in \<open>simp add: create_pool_def\<close>)

lemma SetCommitLimit_sels [simp]:
  "gp_heap (SetCommitLimit n gp) = gp_heap gp" "gp_bins (SetCommitLimit n gp) = gp_bins gp"
  "gp_raw (SetCommitLimit n gp) = gp_raw gp" "gp_ownerTag (SetCommitLimit n gp) = gp_ownerTag gp"
  "gp_committedBytes (SetCommitLimit n gp) = gp_committedBytes gp" "segs (SetCommitLimit n gp) = segs gp"
  "gp_initialized (SetCommitLimit n gp) = gp_initialized gp" "gp_maxCommittedBytes (SetCommitLimit n gp) = n"
  by (simp_all add: SetCommitLimit_def segs_def)

lemma SetCommitLimit_gp_inv [simp]: "gp_inv t (SetCommitLimit n gp) X = gp_inv t gp X"
  by (simp add: gp_inv_def heap_ok_def)

lemma SetCommitLimit_inv: "pool_inv s \<Longrightarrow> pool_inv (s\<lparr>tp_global := SetCommitLimit n (tp_global s)\<rparr>)"
  by (simp add: pool_inv_def bypass_ok_def SumAcquire_def SumRelease_def)

lemma create_pool_ok:
  assumes "create_pool ans cs al limit x = Some (Some p, x')"
  shows "pool_inv p \<and> payloads p = {} \<and> MakeBinTable (map fst cs) al = Table (tp_table p) \<and>
    gp_maxCommittedBytes (tp_global p) = unat limit"
proof -
  obtain s where i: "tls_Initialize (pa_os ans) (pa_fls ans) (pa_bins ans) x cs al new_pool = Some (True, x', s)"
    and p: "p = s\<lparr>tp_global := SetCommitLimit (unat limit) (tp_global s)\<rparr>"
    using assms by (auto simp: create_pool_def split: if_splits option.splits prod.splits bool.splits)
  show ?thesis using tls_Initialize_inv [OF i] SetCommitLimit_inv p
    by (simp add: payloads_def)
qed

text \<open>\<open>slots_from x ss x'\<close>: the slots \<open>ss\<close> were taken between \<open>x\<close> and \<open>x'\<close>, each once.\<close>

definition slots_from :: "u64 \<Rightarrow> nat option list \<Rightarrow> u64 \<Rightarrow> bool" where
  "slots_from x ss x' \<longleftrightarrow> (\<forall>j. bit x' j \<longleftrightarrow> Some j \<in> set ss \<or> bit x j) \<and>
     (\<forall>j. Some j \<in> set ss \<longrightarrow> \<not> bit x j) \<and> distinct (filter (\<lambda>s. s \<noteq> None) ss)"

lemma slots_from_Nil [simp]: "slots_from x [] x"
  by (simp add: slots_from_def)

lemma slots_from_step: "slots_from x ss y \<Longrightarrow> slot_step y s z \<Longrightarrow> slots_from x (s # ss) z"
  by (cases s) (auto simp: slots_from_def slot_step_def)

definition pool_slots :: "EnginePools \<Rightarrow> nat option list" where
  "pool_slots pools = map (\<lambda>p. Option.bind p tp_slot) [ep_sendQueue pools, ep_general pools, ep_packet pools, ep_job pools]"

lemma DestroyPools_fst [simp]: "fst (DestroyPools st) = no_pools"
  by (simp add: DestroyPools_def split: prod.split)

lemma bit_delete_pool: "bit (delete_pool p x) j \<longleftrightarrow> bit x j \<and> Option.bind p tp_slot \<noteq> Some j"
  by (cases p) (simp_all add: delete_pool_def bit_ReleaseSlot)

lemma DestroyPools_restores:
  assumes "slots_from x ss x'" and "set (pool_slots pools) - {None} = set ss - {None}"
  shows "DestroyPools (pools, x') = (no_pools, x)"
proof -
  have e: "Some j \<in> set (pool_slots pools) \<longleftrightarrow> Some j \<in> set ss" for j using assms(2) by blast
  have "bit (snd (DestroyPools (pools, x'))) j \<longleftrightarrow> bit x' j \<and> Some j \<notin> set (pool_slots pools)" for j
    by (auto simp: DestroyPools_def bit_delete_pool pool_slots_def)
  then have "snd (DestroyPools (pools, x')) = x"
    using assms(1) e by (intro bit_eqI) (auto simp: slots_from_def)
  then show ?thesis by (metis DestroyPools_fst prod.collapse)
qed

lemma no_pools_sels [simp]: "ep_packet no_pools = None" "ep_general no_pools = None" "ep_job no_pools = None"
  "ep_sendQueue no_pools = None"
  by (simp_all add: no_pools_def)

lemmas create_defs = CreateBinSetPool_def CreateReservePool_def

text \<open>
  One step of \<open>CreatePools\<close>: a pool is made, or everything made so far is destroyed and the bitmap is as it was.
\<close>

lemma create_stage:
  assumes st: "slots_from x ss z" and ps: "set (pool_slots p) - {None} = set ss - {None}"
    and C: "create_pool ans cs al limit z = c"
    and K: "(case c of None \<Rightarrow> None | Some (None, z') \<Rightarrow> Some (False, DestroyPools (p, z'))
      | Some (Some s, z') \<Rightarrow> k s z') = Some (ok, pools, x')"
  obtains "\<not> ok" and "pools = no_pools" and "x' = x"
  | s z' where "create_pool ans cs al limit z = Some (Some s, z')" and "slots_from x (tp_slot s # ss) z'"
      and "k s z' = Some (ok, pools, x')"
proof -
  from K obtain r z' where c: "c = Some (r, z')" by (auto split: option.splits)
  note sl = create_pool_slots [OF C [unfolded c]]
  show thesis
  proof (cases r)
    case None
    with sl st K c ps DestroyPools_restores [OF st ps] show thesis by (intro that(1)) auto
  next
    case (Some s)
    with sl st K c C slots_from_step show thesis by (intro that(2)) auto
  qed
qed

text \<open>What the engine may rely on in the pools that \<open>CreatePools\<close> made.\<close>

definition pools_made :: "EnginePoolConfig \<Rightarrow> u32 \<Rightarrow> EnginePools \<Rightarrow> bool" where
  "pools_made config m pools \<longleftrightarrow> (\<exists>packet general job sendQueue.
     pools = \<lparr>ep_packet = Some packet, ep_general = Some general, ep_job = Some job, ep_sendQueue = Some sendQueue\<rparr> \<and>
     list_all (\<lambda>p. pool_inv p \<and> payloads p = {}) [packet, general, job, sendQueue] \<and>
     MakeBinTable (map fst (used_entries (epc_packet config))) 16 = Table (tp_table packet) \<and>
     MakeBinTable [AlignedJobObjectSize] alignof_Job = Table (tp_table job) \<and>
     MakeBinTable [of_nat sizeof_SendPacketEntry] 16 = Table (tp_table sendQueue) \<and>
     BinOf (tp_table packet) (ucast m) < bt_binCount (tp_table packet) \<and>
     gp_maxCommittedBytes (tp_global packet) = unat (pbc_commitLimitBytes (epc_packet config)) \<and>
     gp_maxCommittedBytes (tp_global general) = unat (pbc_commitLimitBytes (epc_general config)) \<and>
     gp_maxCommittedBytes (tp_global job) = unat (prc_commitLimitBytes (epc_job config)) \<and>
     gp_maxCommittedBytes (tp_global sendQueue) = unat (prc_commitLimitBytes (epc_sendQueue config)))"

lemma CreatePools_spec:
  assumes C: "CreatePools ans config m st = Some (ok, pools, x')" and x: "x = snd (DestroyPools st)"
  shows "if ok then EnginePoolConfig_IsValid config \<and> pools_made config m pools \<and> slots_from x (pool_slots pools) x'
    else pools = no_pools \<and> x' = x"
proof (cases "EnginePoolConfig_IsValid config")
  case False
  then show ?thesis using C x by (cases "DestroyPools st") (auto simp: CreatePools_def dest: arg_cong [of _ _ fst])
next
  case valid: True
  have d0: "DestroyPools st = (no_pools, x)" using x DestroyPools_fst by (metis prod.collapse)
  note C1 = C [unfolded CreatePools_def d0 Let_def prod.case create_defs if_not_P [OF iffD2 [OF not_not valid]]]
  show ?thesis
  proof (rule create_stage [OF slots_from_Nil _ refl C1], goal_cases)
    case (3 job x1)
    note job = this
    show ?case
    proof (rule create_stage [OF job(2) _ refl job(3)], goal_cases)
      case (3 packet x2)
      note packet = this
      show ?case
      proof (cases "BinOf (tp_table packet) (ucast m) \<ge> bt_binCount (tp_table packet)")
        case True
        with packet(3) DestroyPools_restores [OF packet(2)] show ?thesis by (simp add: pool_slots_def)
      next
        case cover: False
        show ?thesis
        proof (rule create_stage [OF packet(2) _ refl packet(3) [unfolded if_not_P [OF cover]]], goal_cases)
          case (3 general x3)
          note general = this
          show ?case
          proof (rule create_stage [OF general(2) _ refl general(3)], goal_cases)
            case (3 sendQueue x4)
            note made = create_pool_ok [OF job(1)] create_pool_ok [OF packet(1)] create_pool_ok [OF general(1)]
              create_pool_ok [OF 3(1)]
            from 3(2,3) made valid cover show ?case
              by (auto simp: pools_made_def pool_slots_def no_pools_def)
          qed (simp_all add: pool_slots_def)
        qed (simp_all add: pool_slots_def)
      qed
    qed (simp_all add: pool_slots_def)
  qed (simp_all add: pool_slots_def)
qed

lemma covered_requests:
  assumes T: "MakeBinTable sizes al = Table t" and c: "BinOf t m < bt_binCount t" and z: "sz \<noteq> 0" "sz \<le> m"
  shows "BinOf t sz < bt_binCount t"
proof -
  obtain k a where s: "table_shape t k a" using MakeBinTable_ok [OF T] by (auto simp: table_ok_def)
  then have b: "bin_mask_ok t k" by (simp add: table_shape_def)
  have m: "m \<noteq> 0" using z by auto
  have "unat (BinOf t m) \<le> unat (bt_binCount t) - 1" using c by (simp add: word_less_nat_alt)
  then have "unat m \<le> 2 ^ (k + (unat (bt_binCount t) - 1))" using BinOf_le [OF b m] by simp
  moreover have "unat sz \<le> unat m" using z(2) by (simp add: word_le_nat_alt)
  ultimately have "unat (BinOf t sz) \<le> unat (bt_binCount t) - 1" using BinOf_le [OF b z(1)] by simp
  moreover have "0 < unat (bt_binCount t)" using c by (auto simp: word_less_nat_alt)
  ultimately show ?thesis by (simp add: word_less_nat_alt)
qed

text \<open>The tables of the two pools whose block size the engine fixes.\<close>

lemma single_table:
  assumes "CeilLog2 (ucast c) = k" and "CeilLog2 (if ucast c < MIN_BLOCK_SIZE then MIN_BLOCK_SIZE else ucast c) = k"
    and "IsPowerOfTwo al" and "16 \<le> al" and "al \<le> 4096" and "c \<noteq> 0"
    and "MakeBinSpec (ucast (push_bit (unat k) (1 :: u64))) (HeaderSizeFor al) al = Some spec"
    and "config_range [c] (- 1) 0 = Some (ucast c, ucast c)"
  shows "MakeBinTable [c] al = Table \<lparr>bt_binCount = 1, bt_minBinLog = k, bt_headerSize = HeaderSizeFor al,
    bt_payloadAlignment = al, bt_minMask = push_bit (unat k) 1 - 1, bt_specs = [spec]\<rparr>"
  using assms by (simp add: MakeBinTable_def Let_def MAX_BIN_COUNT_def collect_specs_def not_less)

definition tabJob :: BinTable where
  "tabJob = \<lparr>bt_binCount = 1, bt_minBinLog = 6, bt_headerSize = HeaderSizeFor 64, bt_payloadAlignment = 64,
     bt_minMask = 63, bt_specs = [the (MakeBinSpec 64 (HeaderSizeFor 64) 64)]\<rparr>"

definition tabSend :: BinTable where
  "tabSend = \<lparr>bt_binCount = 1, bt_minBinLog = 6, bt_headerSize = HeaderSizeFor 16, bt_payloadAlignment = 16,
     bt_minMask = 63, bt_specs = [the (MakeBinSpec 64 (HeaderSizeFor 16) 16)]\<rparr>"

lemma fixed_tables:
  "MakeBinTable [AlignedJobObjectSize] alignof_Job = Table tabJob"
  "MakeBinTable [of_nat sizeof_SendPacketEntry] 16 = Table tabSend"
  "BinOf tabJob 64 = 0" "BinOf tabSend 40 = 0"
  "bt_binCount tabJob = 1" "bt_binCount tabSend = 1" "bt_payloadAlignment tabJob = 64"
proof -
  have c: "CeilLog2 64 = 6" "CeilLog2 40 = 6" by code_simp+
  have p: "IsPowerOfTwo 64" "IsPowerOfTwo 16" by code_simp+
  have r: "config_range [64] (- 1) 0 = Some (64, 64)" "config_range [40] (- 1) 0 = Some (40, 40)" by code_simp+
  have m: "MakeBinSpec 64 (HeaderSizeFor 64) 64 \<noteq> None" "MakeBinSpec 64 (HeaderSizeFor 16) 16 \<noteq> None" by code_simp+
  have a: "AlignedJobObjectSize = 64" "alignof_Job = 64" by code_simp+
  show "MakeBinTable [AlignedJobObjectSize] alignof_Job = Table tabJob"
    unfolding a tabJob_def using c p r m by (subst single_table [where k = 6 and spec = "the (MakeBinSpec 64 (HeaderSizeFor 64) 64)"])
      (simp_all add: MIN_BLOCK_SIZE_def)
  show "MakeBinTable [of_nat sizeof_SendPacketEntry] 16 = Table tabSend"
    unfolding tabSend_def using c p r m by (subst single_table [where k = 6 and spec = "the (MakeBinSpec 64 (HeaderSizeFor 16) 16)"])
      (simp_all add: MIN_BLOCK_SIZE_def)
  have t: "ScanReverse 63 = 5" by code_simp
  show "BinOf tabJob 64 = 0" "BinOf tabSend 40 = 0" by (simp_all add: BinOf_def tabJob_def tabSend_def t)
qed (simp_all add: tabJob_def tabSend_def)

section \<open>Concrete pools\<close>

definition answers0 :: PoolAnswers where
  "answers0 = \<lparr>pa_os = os0, pa_new = True, pa_fls = True, pa_bins = True\<rparr>"

definition small_config :: EnginePoolConfig where
  "small_config =
     \<lparr>epc_packet = snd (Add 65536 1 new_PoolBinSetConfig), epc_general = snd (Add 65536 1 new_PoolBinSetConfig),
      epc_job = \<lparr>prc_blockCount = 1, prc_commitLimitBytes = 4096\<rparr>,
      epc_sendQueue = \<lparr>prc_blockCount = 1, prc_commitLimitBytes = 4096\<rparr>\<rparr>"

lemma create_single:
  assumes T: "MakeBinTable [c] al = Table t" and t: "bt_binCount t = 1" "BinOf t (ucast c) = 0" and n: "n \<noteq> 0"
  shows "\<exists>p x'. create_pool answers0 [(c, n)] al limit x = Some (Some p, x') \<and> tp_table p = t"
proof -
  obtain slot x1 where A: "AcquireSlot x = (slot, x1)" by fastforce
  let ?gp = "new_GlobalBlockPool\<lparr>gp_ownerTag := OwnerTag slot, gp_bins := [empty_bin], gp_initialized := True\<rparr>"
  have G: "gp_Initialize True t (OwnerTag slot) new_GlobalBlockPool = (True, ?gp)"
    by (simp add: gp_Initialize_def new_GlobalBlockPool_def t)
  have "fst (Preallocate os0 t 0 (unat n) ?gp)"
    using n by (simp add: Preallocate_def t GrowLocked_def Let_def VirtualAlloc_def os0_def regions_def segs_def
        fresh_region_def new_GlobalBlockPool_def empty_bin_def RecordSegmentLocked_def unat_eq_0)
  then obtain gp where P: "Preallocate os0 t 0 (unat n) ?gp = (True, gp)" by (metis prod.collapse)
  have "prealloc_all os0 t (add_requests t [(c, n)] (replicate 24 0)) (unat (bt_binCount t)) ?gp = (True, gp)"
    using n P by (simp add: t)
  with T A G n show ?thesis
    by (simp add: create_pool_def answers0_def tls_Initialize_def new_pool_def Let_def)
qed

section \<open>Properties\<close>

text \<open>
  C16. \<open>SessionBufferConfig::IsValid\<close> accepts exactly the configurations a session can be built from: the receive
  ring initialises on it, the send queue initialises on it, a packet of at most the send limit fits the size field of the header
  and is at least a header, and the two backpressure levels leave a gap.
\<close>

theorem IsValid_iff_buildable:
  assumes "\<And>n. \<exists>m. alloc n = Some m \<and> length m = n"
  shows "SessionBufferConfig_IsValid c \<longleftrightarrow>
    fst (rb_Initialize alloc True (recvRingSize c) (maxRecvPacketSize c) new_RecvPacketBuffer) \<and>
    fst (sq_Initialize release True True True (sendQueueDepth c) (new_SendPacketQueue, w)) \<and>
    (4 \<le> unat (maxSendPacketSize c) \<and> unat (maxSendPacketSize c) < 2 ^ 16) \<and>
    (recvPauseJobDepth c = 0 \<or> recvResumeJobDepth c < recvPauseJobDepth c)"
proof -
  have "\<exists>y. aligned_malloc alloc n = Some y" for n using assms [of n] by (auto simp: aligned_malloc_def)
  then obtain m where m: "\<And>n. aligned_malloc alloc n = Some (m n)" by metis
  have rb: "fst (rb_Initialize alloc True (recvRingSize c) (maxRecvPacketSize c) new_RecvPacketBuffer) \<longleftrightarrow>
      IsPowerOfTwo (recvRingSize c) \<and> 4 \<le> maxRecvPacketSize c \<and> maxRecvPacketSize c \<le> PACKET_SIZE_LIMIT \<and>
      maxRecvPacketSize c * 2 \<le> recvRingSize c"
    by (auto simp: rb_Initialize_def m Let_def IsPowerOfTwo_def not_less)
  have sq: "fst (sq_Initialize release True True True (sendQueueDepth c) (new_SendPacketQueue, w)) \<longleftrightarrow> sendQueueDepth c \<noteq> 0"
    by (simp add: sq_Initialize_def split: prod.split)
  have lim: "4 \<le> unat (maxSendPacketSize c) \<and> unat (maxSendPacketSize c) < 2 ^ 16 \<longleftrightarrow>
      4 \<le> maxSendPacketSize c \<and> maxSendPacketSize c \<le> PACKET_SIZE_LIMIT"
    by (auto simp: word_le_nat_alt PACKET_SIZE_LIMIT_def)
  have four: "of_nat sizeof_PACKET_HEADER = (4 :: u32)" by simp
  show ?thesis
    unfolding rb sq lim unfolding SessionBufferConfig_IsValid_def four if_bool_eq_conj not_less [symmetric] by blast
qed

lemma IsValid_iff_buildable_witness:
  "fst (rb_Initialize (\<lambda>n. Some (replicate n 0)) True MEMORY_SIZE_256K PACKET_SIZE_LIMIT new_RecvPacketBuffer)"
proof -
  have "SessionBufferConfig_IsValid SessionBufferPreset_Client" by code_simp
  then show ?thesis
    using IsValid_iff_buildable [of "\<lambda>n. Some (replicate n 0)" SessionBufferPreset_Client "\<lambda>p a. p"
        "\<lparr>w_entryPool = (), w_packetPool = (), w_entries = (\<lambda>_. None), w_shared = (\<lambda>_. None), w_userCalls = [],
           w_violations = 0\<rparr>"]
    by (simp add: SessionBufferPreset_Client_def)
qed

text \<open>
  C17. \<open>CreatePools\<close> makes all four pools or none. When it succeeds the configuration was valid, each pool
  satisfies its invariant with nothing handed out and has the configured commit limit, every receive size up to
  the configured maximum is served from a bin of the packet pool, job and queue entry blocks are too (jobs at a 64-byte
  alignment), and no two pools share a slot, so a block released into the wrong pool is recognised. When it fails no pool is left, and
  the slot bitmap is what it was; destroying the pools restores it as well.
\<close>

theorem CreatePools_all_or_nothing:
  assumes "CreatePools ans config m st = Some (ok, pools, x')"
  shows "if ok then EnginePoolConfig_IsValid config \<and> DestroyPools (pools, x') = DestroyPools st \<and>
      (\<exists>packet general job sendQueue.
        pools = \<lparr>ep_packet = Some packet, ep_general = Some general, ep_job = Some job, ep_sendQueue = Some sendQueue\<rparr> \<and>
        (\<forall>p \<in> {packet, general, job, sendQueue}. pool_inv p \<and> payloads p = {}) \<and>
        (\<forall>sz. sz \<noteq> 0 \<and> sz \<le> ucast m \<longrightarrow> BinOf (tp_table packet) sz < bt_binCount (tp_table packet)) \<and>
        BinOf (tp_table job) 64 < bt_binCount (tp_table job) \<and> bt_payloadAlignment (tp_table job) = 64 \<and>
        BinOf (tp_table sendQueue) 40 < bt_binCount (tp_table sendQueue) \<and>
        gp_maxCommittedBytes (tp_global packet) = unat (pbc_commitLimitBytes (epc_packet config)) \<and>
        gp_maxCommittedBytes (tp_global job) = unat (prc_commitLimitBytes (epc_job config)) \<and>
        distinct (filter (\<lambda>s. s \<noteq> None) [tp_slot sendQueue, tp_slot general, tp_slot packet, tp_slot job]))
    else (pools, x') = DestroyPools st"
proof (cases ok)
  case True
  let ?x = "snd (DestroyPools st)"
  have d: "DestroyPools st = (no_pools, ?x)" by (metis DestroyPools_fst prod.collapse)
  from CreatePools_spec [OF assms refl] True
  have v: "EnginePoolConfig_IsValid config" and pm: "pools_made config m pools" and sl: "slots_from ?x (pool_slots pools) x'"
    by simp_all
  from pm obtain packet general job sendQueue where p:
    "pools = \<lparr>ep_packet = Some packet, ep_general = Some general, ep_job = Some job, ep_sendQueue = Some sendQueue\<rparr>"
    "list_all (\<lambda>p. pool_inv p \<and> payloads p = {}) [packet, general, job, sendQueue]"
    "MakeBinTable (map fst (used_entries (epc_packet config))) 16 = Table (tp_table packet)"
    "MakeBinTable [AlignedJobObjectSize] alignof_Job = Table (tp_table job)"
    "MakeBinTable [of_nat sizeof_SendPacketEntry] 16 = Table (tp_table sendQueue)"
    "BinOf (tp_table packet) (ucast m) < bt_binCount (tp_table packet)"
    "gp_maxCommittedBytes (tp_global packet) = unat (pbc_commitLimitBytes (epc_packet config))"
    "gp_maxCommittedBytes (tp_global job) = unat (prc_commitLimitBytes (epc_job config))"
    unfolding pools_made_def by blast
  have "DestroyPools (pools, x') = DestroyPools st" using DestroyPools_restores [OF sl refl] d by simp
  moreover have "distinct (filter (\<lambda>s. s \<noteq> None) [tp_slot sendQueue, tp_slot general, tp_slot packet, tp_slot job])"
    using sl by (simp add: slots_from_def pool_slots_def p(1))
  moreover note covered_requests [OF p(3) p(6)] v
  moreover have "tp_table job = tabJob" "tp_table sendQueue = tabSend" using p(4,5) fixed_tables(1,2) by simp_all
  ultimately show ?thesis using True p(1,2,7,8) by (simp add: fixed_tables)
next
  case False
  then show ?thesis using CreatePools_spec [OF assms refl] by (metis DestroyPools_fst prod.collapse)
qed

lemma CreatePools_all_or_nothing_witness:
  "\<exists>pools x'. CreatePools (\<lambda>_. answers0) small_config 65535 (no_pools, 0) = Some (True, pools, x') \<and>
     DestroyPools (pools, x') = (no_pools, 0)"
proof -
  have v: "EnginePoolConfig_IsValid small_config" by code_simp
  have u: "used_entries (epc_packet small_config) = [(65536, 1)]" "used_entries (epc_general small_config) = [(65536, 1)]"
    by code_simp+
  have d: "DestroyPools (no_pools, 0) = (no_pools, 0)" by (simp add: DestroyPools_def delete_pool_def)
  have b: "BinOf tab0 65536 = 0" "BinOf tab0 65535 = 0" unfolding tab0_def by code_simp+
  have t0: "bt_binCount tab0 = 1" by (simp add: tab0_def)
  have aj: "ucast AlignedJobObjectSize = (64 :: u64)" by code_simp
  note cr = create_single [of AlignedJobObjectSize alignof_Job tabJob 1] create_single [of 65536 16 tab0 1]
    create_single [of "of_nat sizeof_SendPacketEntry" 16 tabSend 1]
  obtain job x1 where J: "CreateReservePool answers0 (epc_job small_config) AlignedJobObjectSize alignof_Job 0 = Some (Some job, x1)"
    using cr(1) fixed_tables aj by (fastforce simp: create_defs small_config_def)
  obtain packet x2 where P: "CreateBinSetPool answers0 (epc_packet small_config) 16 x1 = Some (Some packet, x2)"
    "tp_table packet = tab0" using cr(2) tab0 t0 b unfolding CreateBinSetPool_def u by fastforce
  obtain general x3 where G: "CreateBinSetPool answers0 (epc_general small_config) 16 x2 = Some (Some general, x3)"
    using cr(2) tab0 t0 b unfolding CreateBinSetPool_def u by fastforce
  obtain sq x4 where S: "CreateReservePool answers0 (epc_sendQueue small_config) (of_nat sizeof_SendPacketEntry) 16 x3 = Some (Some sq, x4)"
    using cr(3) fixed_tables by (fastforce simp: create_defs small_config_def)
  have "\<exists>pools x'. CreatePools (\<lambda>_. answers0) small_config 65535 (no_pools, 0) = Some (True, pools, x')"
    unfolding CreatePools_def d Let_def prod.case using v J P G S b t0 by simp
  with CreatePools_all_or_nothing d show ?thesis by fastforce
qed

text \<open>
  The idle timeout a client derives from the server's heartbeat interval is computed without wrap-around: it is the longer
  of the missed-heartbeat time and the floor, it is never zero while the check is on, and it covers at least two heartbeats of the server.
\<close>

theorem ResolveIdleTimeout_exact:
  assumes "ClientLivenessConfig_IsValid c"
  shows "if missedHeartbeatLimit c = 0 then ResolveIdleTimeout c i = 0
    else unat (ResolveIdleTimeout c i) = max (unat i * unat (missedHeartbeatLimit c)) (unat (minIdleTimeout_ms c)) \<and>
      ResolveIdleTimeout c i \<noteq> 0 \<and> 2 * unat i \<le> unat (ResolveIdleTimeout c i)"
proof (cases "missedHeartbeatLimit c = 0")
  case True
  then show ?thesis by (simp add: ResolveIdleTimeout_def)
next
  case False
  let ?l = "missedHeartbeatLimit c"
  have m: "minIdleTimeout_ms c \<noteq> 0" and l1: "?l \<noteq> 1"
    using assms False by (auto simp: ClientLivenessConfig_IsValid_def split: if_splits)
  have "unat ?l \<noteq> unat (0 :: u32)" "unat ?l \<noteq> unat (1 :: u32)" using False l1 by (simp_all only: unat_eq_iff not_False_eq_True)
  then have l: "2 \<le> unat ?l" by simp
  have "unat i * unat ?l < 2 ^ 32 * 2 ^ 32"
    using unsigned_less [of i, where 'a = nat] unsigned_less [of ?l, where 'a = nat] by (intro mult_strict_mono) simp_all
  then have p: "unat (ucast i * ucast ?l :: u64) = unat i * unat ?l"
    by (simp add: unat_word_ariths unat_ucast_64)
  have "unat (ResolveIdleTimeout c i) = max (unat i * unat ?l) (unat (minIdleTimeout_ms c))"
    using False by (simp add: ResolveIdleTimeout_def Let_def word_less_nat_alt p max_def)
  moreover have "2 * unat i \<le> max (unat i * unat ?l) n" for n 
    using mult_le_mono2 [OF l, of "unat i"] by (simp only: mult.commute le_max_iff_disj) simp
  moreover have "0 < unat (minIdleTimeout_ms c)" using m by (simp add: unat_gt_0)
  ultimately show ?thesis using False by (auto simp flip: unat_gt_0)
qed

lemma ResolveIdleTimeout_exact_witness: "unat (ResolveIdleTimeout new_ClientLivenessConfig 5000) = 15000"
proof -
  have "ClientLivenessConfig_IsValid new_ClientLivenessConfig" by code_simp
  from ResolveIdleTimeout_exact [OF this, of 5000] show ?thesis by (simp add: new_ClientLivenessConfig_def)
qed

text \<open>
  A valid heartbeat configuration whose interval is below \<open>2 ^ 63\<close> waits at least two intervals before a silent session is cut, and
  a stalled one is never cut earlier than a silent one. Above \<open>2 ^ 63\<close> the doubled interval wraps, and \<open>IsValid\<close> accepts a
  timeout shorter than one interval.
\<close>

theorem Heartbeat_two_periods:
  assumes "HeartbeatConfig_IsValid c"
  shows "checkInterval_ms c \<noteq> 0 \<and> unat (timeout_ms c) \<le> unat (EffectiveStalledTimeout c) \<and>
    (unat (checkInterval_ms c) < 2 ^ 63 \<longrightarrow> timeout_ms c = 0 \<or> 2 * unat (checkInterval_ms c) \<le> unat (timeout_ms c))"
proof -
  have v: "checkInterval_ms c \<noteq> 0" "timeout_ms c = 0 \<or> checkInterval_ms c * 2 \<le> timeout_ms c"
    "stalledPeerTimeout_ms c = 0 \<or> timeout_ms c \<le> stalledPeerTimeout_ms c"
    using assms by (auto simp: HeartbeatConfig_IsValid_def not_less split: if_splits)
  have "unat (checkInterval_ms c * 2) = 2 * unat (checkInterval_ms c)" if "unat (checkInterval_ms c) < 2 ^ 63"
    using that by (simp add: unat_word_ariths)
  with v show ?thesis by (auto simp: EffectiveStalledTimeout_def word_le_nat_alt)
qed

lemma Heartbeat_two_periods_witness: "2 * unat (5000 :: u64) \<le> unat (timeout_ms new_HeartbeatConfig)"
proof -
  have "HeartbeatConfig_IsValid new_HeartbeatConfig" by code_simp
  from Heartbeat_two_periods [OF this] show ?thesis by (simp add: new_HeartbeatConfig_def)
qed

text \<open>
  The test that the timeout spans two intervals is made in 64 bits and wraps: an interval of \<open>2 ^ 63 + 1\<close> milliseconds with
  a timeout of 2 is accepted (\<open>Core/HeartbeatConfig.h\<close>, \<open>IsValid\<close>).
\<close>

theorem heartbeat_interval_wraps:
  "HeartbeatConfig_IsValid \<lparr>checkInterval_ms = 2 ^ 63 + 1, timeout_ms = 2, stalledPeerTimeout_ms = 2\<rparr>"
  by (simp add: HeartbeatConfig_IsValid_def)

end
