(* ===== verification/JobQueue.thy ===== *)
theory JobQueue
  imports SendQueue
begin

text \<open>
  A session's queue of received packets waiting for their handler (\<open>Session/SessionJobQueue\<close>, \<open>Job/Job.h\<close>) and the
  ring of sessions that have work (\<open>Scheduler/ReadySessionQueue\<close>).

  Jobs are blocks of the job pool linked through \<open>next\<close>. \<open>JobWorld\<close> adds the job pool, the jobs and the log of
  handler calls to the world of the send path, because a job's packet comes from the same packet pool. Each
  operation runs under the queue's lock and is one step.
\<close>

section \<open>Jobs\<close>

datatype JobType = JobType_NONE | JobType_PACKET | JobType_DB | JobType_SYSTEM

datatype SESSION_ROLE = ROLE_NONE | ROLE_CLIENT | ROLE_SERVER | ROLE_ACCEPT

text \<open>Handler functions are opaque, and known by a number; \<open>job_func\<close> is the member of the union that the type selects.\<close>

record Job =
  job_next :: "addr option"
  job_target :: nat
  job_data :: "addr option"
  job_func :: "nat option"
  job_context :: bool
  job_size :: u32
  job_packetId :: u16
  job_jobType :: JobType

record job_call =
  jc_type :: JobType
  jc_func :: nat
  jc_target :: nat
  jc_data :: "addr option"
  jc_size :: u32

record 'p JobWorld =
  jw_send :: "'p SendWorld"
  jw_jobPool :: 'p
  jw_jobs :: "addr \<rightharpoonup> Job"
  jw_calls :: "job_call list"
  jw_violations :: nat

abbreviation sizeof_Job_bytes :: nat where "sizeof_Job_bytes \<equiv> 64"

definition job_at :: "'p JobWorld \<Rightarrow> addr \<Rightarrow> Job" where
  "job_at w a = the (jw_jobs w a)"

definition set_job :: "addr \<Rightarrow> Job \<Rightarrow> 'p JobWorld \<Rightarrow> 'p JobWorld" where
  "set_job a j w = w\<lparr>jw_jobs := (jw_jobs w)(a := Some j)\<rparr>"

text \<open>
  \<open>CreateJob\<close> does not initialise the block: \<open>junk\<close> is what the previous user left in it.
\<close>

definition CreateJob ::
  "('p \<Rightarrow> nat \<Rightarrow> addr option \<times> 'p) \<Rightarrow> Job \<Rightarrow> 'p JobWorld \<Rightarrow> addr option \<times> 'p JobWorld" where
  "CreateJob acquire junk w =
     (case acquire (jw_jobPool w) sizeof_Job_bytes of
        (None, p) \<Rightarrow> (None, w\<lparr>jw_jobPool := p\<rparr>)
      | (Some a, p) \<Rightarrow> (Some a, set_job a junk (w\<lparr>jw_jobPool := p\<rparr>)))"

definition ReleaseJob :: "('p \<Rightarrow> addr \<Rightarrow> 'p) \<Rightarrow> addr option \<Rightarrow> 'p JobWorld \<Rightarrow> 'p JobWorld" where
  "ReleaseJob release job w =
     (case job of None \<Rightarrow> w
      | Some a \<Rightarrow> w\<lparr>jw_jobPool := release (jw_jobPool w) a, jw_jobs := (jw_jobs w)(a := None)\<rparr>)"

definition SetPacketJob :: "JobType \<Rightarrow> nat option \<Rightarrow> nat \<Rightarrow> u16 \<Rightarrow> addr option \<Rightarrow> u32 \<Rightarrow> Job \<Rightarrow> Job" where
  "SetPacketJob jobType handlerFunc session pid data sz j =
     j\<lparr>job_jobType := jobType, job_func := handlerFunc, job_target := session, job_packetId := pid,
       job_data := data, job_size := sz, job_context := True\<rparr>"

text \<open>\<open>Job::Execute\<close>: the call it makes, if any. A job without a context is skipped.\<close>

definition Execute :: "Job \<Rightarrow> job_call option" where
  "Execute j =
     (if \<not> job_context j then None
      else (case job_jobType j of
              JobType_NONE \<Rightarrow> None
            | t \<Rightarrow> (case job_func j of None \<Rightarrow> None
                   | Some f \<Rightarrow> Some \<lparr>jc_type = t, jc_func = f, jc_target = job_target j, jc_data = job_data j,
                                   jc_size = job_size j\<rparr>)))"

definition run_job :: "addr \<Rightarrow> 'p JobWorld \<Rightarrow> 'p JobWorld" where
  "run_job a w = (case Execute (job_at w a) of None \<Rightarrow> w | Some c \<Rightarrow> w\<lparr>jw_calls := jw_calls w @ [c]\<rparr>)"

text \<open>\<open>ReleasePacket\<close> on the packet pool the jobs share with the send path.\<close>

definition release_packet :: "('p \<Rightarrow> addr \<Rightarrow> 'p) \<Rightarrow> addr option \<Rightarrow> 'p JobWorld \<Rightarrow> 'p JobWorld" where
  "release_packet release data w = w\<lparr>jw_send := ReleasePacket release data (jw_send w)\<rparr>"

section \<open>The session's job queue\<close>

text \<open>
  The counters are \<open>int32_t\<close>; a queue of \<open>2 ^ 31\<close> jobs would need 128 GB of job blocks, and they are
  unbounded here.
\<close>

record SessionJobQueue =
  jq_sessionRole :: SESSION_ROLE
  jq_head :: "addr option"
  jq_tail :: "addr option"
  jq_count :: int
  jq_peakCount :: int
  jq_stopFlag :: bool

definition new_SessionJobQueue :: "SESSION_ROLE \<Rightarrow> SessionJobQueue" where
  "new_SessionJobQueue role = \<lparr>jq_sessionRole = role, jq_head = None, jq_tail = None, jq_count = 0,
     jq_peakCount = 0, jq_stopFlag = False\<rparr>"

text \<open>\<open>EnqueueJob\<close>: the results are the return value and \<open>wasEmpty\<close>.\<close>

definition EnqueueJob :: "addr option \<Rightarrow> SessionJobQueue \<times> 'p JobWorld \<Rightarrow> (bool \<times> bool) \<times> SessionJobQueue \<times> 'p JobWorld" where
  "EnqueueJob job = (\<lambda>(q, w).
     (case job of
        None \<Rightarrow> ((False, False), q, w)
      | Some a \<Rightarrow>
          (let wasEmpty = (jq_head q = None);
               w1 = set_job a ((job_at w a)\<lparr>job_next := None\<rparr>) w;
               (q2, w2) = (case jq_tail q of
                   Some t \<Rightarrow> (q\<lparr>jq_tail := Some a\<rparr>, set_job t ((job_at w1 t)\<lparr>job_next := Some a\<rparr>) w1)
                 | None \<Rightarrow> (q\<lparr>jq_head := Some a, jq_tail := Some a\<rparr>, w1));
               q3 = q2\<lparr>jq_count := jq_count q2 + 1\<rparr>;
               q4 = (if jq_count q3 > jq_peakCount q3 then q3\<lparr>jq_peakCount := jq_count q3\<rparr> else q3)
           in ((True, wasEmpty), q4, w2))))"

text \<open>The part \<open>DequeueJob\<close> and \<open>WaitDequeueJob\<close> have in common: taking the first job.\<close>

definition take_job :: "SessionJobQueue \<times> 'p JobWorld \<Rightarrow> addr option \<times> SessionJobQueue \<times> 'p JobWorld" where
  "take_job = (\<lambda>(q, w).
     (case jq_head q of
        None \<Rightarrow> (None, q, w)
      | Some a \<Rightarrow>
          (let head = job_next (job_at w a) in
           (Some a, q\<lparr>jq_head := head, jq_tail := (if head = None then None else jq_tail q),
                      jq_count := jq_count q - 1\<rparr>, w))))"

definition DequeueJob :: "SessionJobQueue \<times> 'p JobWorld \<Rightarrow> addr option \<times> SessionJobQueue \<times> 'p JobWorld" where
  "DequeueJob = (\<lambda>(q, w).
     take_job (q, if jq_sessionRole q \<noteq> ROLE_SERVER then w\<lparr>jw_violations := jw_violations w + 1\<rparr> else w))"

definition WakeUp :: "SessionJobQueue \<Rightarrow> SessionJobQueue" where
  "WakeUp q = (if jq_sessionRole q \<noteq> ROLE_CLIENT then q else q\<lparr>jq_stopFlag := True\<rparr>)"

text \<open>
  One evaluation of the loop of \<open>WaitDequeueJob\<close> under the lock: it returns, or it sleeps on the condition variable
  and evaluates the loop again when it is woken.
\<close>

datatype 'a wait = Sleeps | Returns 'a

definition WaitDequeueJob ::
  "SessionJobQueue \<times> 'p JobWorld \<Rightarrow> addr option wait \<times> SessionJobQueue \<times> 'p JobWorld" where
  "WaitDequeueJob = (\<lambda>(q, w).
     (let w = (if jq_sessionRole q \<noteq> ROLE_CLIENT then w\<lparr>jw_violations := jw_violations w + 1\<rparr> else w) in
      if jq_head q = None then (if jq_stopFlag q then Returns None else Sleeps, q, w)
      else (case take_job (q, w) of (r, qw) \<Rightarrow> (Returns r, qw))))"

text \<open>The loop of \<open>Reset\<close>; the number of queued jobs is the fuel.\<close>

primrec release_jobs :: "nat \<Rightarrow> ('p \<Rightarrow> addr \<Rightarrow> 'p) \<Rightarrow> addr option \<Rightarrow> 'p JobWorld \<Rightarrow> addr option \<times> 'p JobWorld" where
  "release_jobs 0 release job w = (job, w)"
| "release_jobs (Suc n) release job w =
     (case job of
        None \<Rightarrow> (None, w)
      | Some a \<Rightarrow>
          (let nextJob = job_next (job_at w a);
               w1 = (if job_data (job_at w a) \<noteq> None then release_packet release (job_data (job_at w a)) w else w)
           in release_jobs n release nextJob (ReleaseJob release (Some a) w1)))"

definition jq_Reset :: "('p \<Rightarrow> addr \<Rightarrow> 'p) \<Rightarrow> SessionJobQueue \<times> 'p JobWorld \<Rightarrow> SessionJobQueue \<times> 'p JobWorld" where
  "jq_Reset release = (\<lambda>(q, w).
     (q\<lparr>jq_head := None, jq_tail := None, jq_count := 0, jq_peakCount := 0, jq_stopFlag := False\<rparr>,
      snd (release_jobs (nat (jq_count q)) release (jq_head q) w)))"

definition jq_IsEmpty :: "SessionJobQueue \<Rightarrow> bool" where
  "jq_IsEmpty q \<longleftrightarrow> jq_count q = 0"

definition jq_GetCount :: "SessionJobQueue \<Rightarrow> u32" where
  "jq_GetCount q = (if jq_count q > 0 then of_int (jq_count q) else 0)"

definition jq_GetPeakCount :: "SessionJobQueue \<Rightarrow> u32" where
  "jq_GetPeakCount q = (if jq_peakCount q > 0 then of_int (jq_peakCount q) else 0)"

definition jq_ResetPeakCount :: "SessionJobQueue \<Rightarrow> SessionJobQueue" where
  "jq_ResetPeakCount q = q\<lparr>jq_peakCount := jq_count q\<rparr>"

section \<open>The ring of ready sessions\<close>

text \<open>
  Sessions are known by a number. \<open>m_capacity\<close> is an \<open>int32_t\<close> assigned from a \<open>uint32_t\<close>, so it may come out
  negative; the other positions never do.
\<close>

record ReadySessionQueue =
  rq_queue :: "nat option list"
  rq_capacity :: int
  rq_head :: nat
  rq_tail :: nat
  rq_count :: nat
  rq_stopFlag :: bool

definition new_ReadySessionQueue :: ReadySessionQueue where
  "new_ReadySessionQueue = \<lparr>rq_queue = [], rq_capacity = 0, rq_head = 0, rq_tail = 0, rq_count = 0, rq_stopFlag = False\<rparr>"

definition rq_Initialize :: "bool \<Rightarrow> u32 \<Rightarrow> ReadySessionQueue \<Rightarrow> bool \<times> ReadySessionQueue" where
  "rq_Initialize allocated maxSessionCount q =
     (if maxSessionCount = 0 then (False, q)
      else if \<not> allocated then (False, q)
      else (True, \<lparr>rq_queue = replicate (unat maxSessionCount) None, rq_capacity = sint maxSessionCount,
                   rq_head = 0, rq_tail = 0, rq_count = 0, rq_stopFlag = False\<rparr>))"

definition rq_Finalize :: "ReadySessionQueue \<Rightarrow> ReadySessionQueue" where
  "rq_Finalize q = q\<lparr>rq_queue := [], rq_capacity := 0, rq_head := 0, rq_tail := 0, rq_count := 0\<rparr>"

definition rq_Push :: "nat \<Rightarrow> ReadySessionQueue \<Rightarrow> bool \<times> ReadySessionQueue" where
  "rq_Push session q =
     (if int (rq_count q) \<ge> rq_capacity q then (False, q)
      else (True, q\<lparr>rq_queue := (rq_queue q)[rq_tail q := Some session],
                    rq_tail := (rq_tail q + 1) mod nat (rq_capacity q), rq_count := rq_count q + 1\<rparr>))"

text \<open>The part of \<open>Pop\<close> behind its waiting loop, and one evaluation of that loop.\<close>

definition rq_take :: "ReadySessionQueue \<Rightarrow> nat option \<times> ReadySessionQueue" where
  "rq_take q =
     (if rq_count q = 0 then (None, q)
      else (rq_queue q ! rq_head q,
            q\<lparr>rq_queue := (rq_queue q)[rq_head q := None], rq_head := (rq_head q + 1) mod nat (rq_capacity q),
              rq_count := rq_count q - 1\<rparr>))"

definition rq_Pop :: "bool \<Rightarrow> ReadySessionQueue \<Rightarrow> nat option wait \<times> ReadySessionQueue" where
  "rq_Pop timedOut q =
     (if rq_count q = 0 then (if rq_stopFlag q \<or> timedOut then Returns None else Sleeps, q)
      else (case rq_take q of (r, q') \<Rightarrow> (Returns r, q')))"

definition rq_WakeAll :: "ReadySessionQueue \<Rightarrow> ReadySessionQueue" where
  "rq_WakeAll q = q\<lparr>rq_stopFlag := True\<rparr>"

definition rq_IsEmpty :: "ReadySessionQueue \<Rightarrow> bool" where
  "rq_IsEmpty q \<longleftrightarrow> rq_count q = 0"

definition rq_GetCount :: "ReadySessionQueue \<Rightarrow> nat" where
  "rq_GetCount q = rq_count q"

section \<open>What the queues hold\<close>

definition job_links :: "'p JobWorld \<Rightarrow> links" where
  "job_links w a = job_next (job_at w a)"

definition jq_contents :: "SessionJobQueue \<times> 'p JobWorld \<Rightarrow> addr list" where
  "jq_contents = (\<lambda>(q, w). walk (job_links w) (jq_head q) (nat (jq_count q)))"

definition jq_inv :: "SessionJobQueue \<times> 'p JobWorld \<Rightarrow> bool" where
  "jq_inv = (\<lambda>(q, w). chain (job_links w) (jq_head q) (jq_contents (q, w)) \<and>
     jq_count q = int (length (jq_contents (q, w))) \<and> jq_count q \<le> jq_peakCount q \<and>
     jq_tail q = (if jq_contents (q, w) = [] then None else Some (last (jq_contents (q, w)))))"

lemma jq_invI:
  assumes "chain (job_links w) (jq_head q) xs" and "jq_count q = int (length xs)"
    and "jq_count q \<le> jq_peakCount q" and "jq_tail q = (if xs = [] then None else Some (last xs))"
  shows "jq_inv (q, w) \<and> jq_contents (q, w) = xs"
proof -
  have "jq_contents (q, w) = xs" using walk_chain [OF assms(1)] assms(2) by (simp add: jq_contents_def)
  with assms show ?thesis by (simp add: jq_inv_def)
qed

lemma jq_invD:
  assumes "jq_inv (q, w)"
  shows "chain (job_links w) (jq_head q) (jq_contents (q, w))" and "jq_count q = int (length (jq_contents (q, w)))"
    and "jq_count q \<le> jq_peakCount q"
    and "jq_tail q = (if jq_contents (q, w) = [] then None else Some (last (jq_contents (q, w))))"
  using assms by (simp_all add: jq_inv_def)

lemma job_at_set [simp]: "job_at (set_job a j w) b = (if b = a then j else job_at w b)"
  by (simp add: job_at_def set_job_def)

lemma job_links_set: "job_links (set_job a j w) = (job_links w)(a := job_next j)"
  by (auto simp: job_links_def)

lemma set_job_sels [simp]:
  "jw_send (set_job a j w) = jw_send w" "jw_jobPool (set_job a j w) = jw_jobPool w"
  "jw_calls (set_job a j w) = jw_calls w" "jw_violations (set_job a j w) = jw_violations w"
  "jw_jobs (set_job a j w) = (jw_jobs w)(a := Some j)"
  by (simp_all add: set_job_def)

text \<open>Queueing changes nothing of a job but its link.\<close>

definition job_frame :: "'p JobWorld \<Rightarrow> 'p JobWorld \<Rightarrow> bool" where
  "job_frame w w' \<longleftrightarrow> jw_send w' = jw_send w \<and> jw_jobPool w' = jw_jobPool w \<and> jw_calls w' = jw_calls w \<and>
     jw_violations w' = jw_violations w \<and> (\<forall>b. (job_at w' b)\<lparr>job_next := None\<rparr> = (job_at w b)\<lparr>job_next := None\<rparr>)"

lemma EnqueueJob_spec:
  assumes inv: "jq_inv (q, w)" and fr: "a \<notin> set (jq_contents (q, w))"
    and E: "EnqueueJob (Some a) (q, w) = ((ok, wasEmpty), q', w')"
  shows "ok \<and> wasEmpty = (jq_contents (q, w) = []) \<and> jq_inv (q', w') \<and>
    jq_contents (q', w') = jq_contents (q, w) @ [a] \<and> job_frame w w' \<and>
    dom (jw_jobs w') = insert a (dom (jw_jobs w)) \<union> set_option (jq_tail q) \<and>
    jq_sessionRole q' = jq_sessionRole q \<and> jq_stopFlag q' = jq_stopFlag q"
proof -
  let ?xs = "jq_contents (q, w)" and ?j = "(job_at w a)\<lparr>job_next := None\<rparr>"
  note c = jq_invD(1) [OF inv] and cnt = jq_invD(2) [OF inv] and pk = jq_invD(3) [OF inv] and tl = jq_invD(4) [OF inv]
  have hd: "jq_head q = None \<longleftrightarrow> ?xs = []" using chain_head [OF c] by (cases ?xs) simp_all
  show ?thesis
  proof (cases "?xs = []")
    case True
    with tl have t: "jq_tail q = None" by simp
    have e: "ok" "wasEmpty" "w' = set_job a ?j w"
      "q' = q\<lparr>jq_head := Some a, jq_tail := Some a, jq_count := 1, jq_peakCount := max 1 (jq_peakCount q)\<rparr>"
      using E t hd True cnt by (auto simp: EnqueueJob_def Let_def)
    have "jq_inv (q', w') \<and> jq_contents (q', w') = [a]"
      unfolding e by (intro jq_invI) (simp_all add: job_links_set)
    with True e t show ?thesis by (auto simp: job_frame_def)
  next
    case False
    with tl have t: "jq_tail q = Some (last ?xs)" by simp
    have la: "last ?xs \<noteq> a" using False fr by auto
    have e: "ok" "\<not> wasEmpty" "w' = set_job (last ?xs) ((job_at w (last ?xs))\<lparr>job_next := Some a\<rparr>) (set_job a ?j w)"
      "q' = q\<lparr>jq_tail := Some a, jq_count := jq_count q + 1, jq_peakCount := max (jq_count q + 1) (jq_peakCount q)\<rparr>"
      using E t hd False la by (auto simp: EnqueueJob_def Let_def)
    have "chain (job_links w') (jq_head q) (?xs @ [a])"
      using chain_snoc [OF c False fr] by (simp add: e job_links_set)
    then have "jq_inv (q', w') \<and> jq_contents (q', w') = ?xs @ [a]"
      using cnt by (intro jq_invI) (simp_all add: e)
    with False e t show ?thesis by (auto simp: job_frame_def)
  qed
qed

lemma take_job_spec:
  assumes inv: "jq_inv (q, w)" and D: "take_job (q, w) = (r, q', w')"
  shows "r = (case jq_contents (q, w) of [] \<Rightarrow> None | x # _ \<Rightarrow> Some x) \<and> jq_inv (q', w') \<and>
    jq_contents (q', w') = tl (jq_contents (q, w)) \<and> w' = w \<and> (r = None \<longrightarrow> q' = q) \<and>
    jq_sessionRole q' = jq_sessionRole q \<and> jq_stopFlag q' = jq_stopFlag q"
proof (cases "jq_contents (q, w)")
  case Nil
  with jq_invD(1) [OF inv] D have "r = None" "q' = q" "w' = w" by (auto simp: take_job_def)
  with Nil inv show ?thesis by simp
next
  case (Cons x ys)
  with jq_invD(1) [OF inv] have h: "jq_head q = Some x" and cy: "chain (job_links w) (job_links w x) ys" by simp_all
  have e: "r = Some x" "w' = w" "q' = q\<lparr>jq_head := job_links w x,
      jq_tail := (if job_links w x = None then None else jq_tail q), jq_count := jq_count q - 1\<rparr>"
    using D h by (auto simp: take_job_def Let_def job_links_def)
  have hn: "job_links w x = None \<longleftrightarrow> ys = []" using chain_head [OF cy] by (cases ys) auto
  have "jq_inv (q', w') \<and> jq_contents (q', w') = ys"
    using cy jq_invD(2-4) [OF inv] Cons hn unfolding e by (intro jq_invI) auto
  with Cons e show ?thesis by simp
qed

lemma jq_inv_violations [simp]:
  "jq_inv (q, w\<lparr>jw_violations := n\<rparr>) = jq_inv (q, w)" "jq_contents (q, w\<lparr>jw_violations := n\<rparr>) = jq_contents (q, w)"
proof -
  have "job_links (w\<lparr>jw_violations := n\<rparr>) = job_links w" by (auto simp: job_links_def job_at_def)
  then show "jq_contents (q, w\<lparr>jw_violations := n\<rparr>) = jq_contents (q, w)"
    and "jq_inv (q, w\<lparr>jw_violations := n\<rparr>) = jq_inv (q, w)" by (simp_all add: jq_contents_def jq_inv_def)
qed

definition enq_job :: "addr \<Rightarrow> SessionJobQueue \<times> 'p JobWorld \<Rightarrow> bool \<times> SessionJobQueue \<times> 'p JobWorld" where
  "enq_job a qw = (case EnqueueJob (Some a) qw of ((ok, wasEmpty), qw') \<Rightarrow> (ok, qw'))"

interpretation jq: fifo enq_job DequeueJob jq_contents "\<lambda>_. True" "\<lambda>a q. a \<notin> set (jq_contents q)" jq_inv
proof unfold_locales
  fix qw :: "SessionJobQueue \<times> 'p JobWorld" and a
  obtain q w ok e q' w' where s: "qw = (q, w)" "EnqueueJob (Some a) (q, w) = ((ok, e), q', w')" by (metis prod.exhaust)
  assume i: "jq_inv qw" and f: "a \<notin> set (jq_contents qw)"
  from EnqueueJob_spec [OF i [unfolded s] f [unfolded s] s(2)] s
  show "fst (enq_job a qw) \<and> jq_contents (snd (enq_job a qw)) = jq_contents qw @ [a] \<and> jq_inv (snd (enq_job a qw))"
    by (simp add: enq_job_def)
next
  fix qw :: "SessionJobQueue \<times> 'p JobWorld" and x xs
  obtain q w where s: "qw = (q, w)" by fastforce
  define w1 where "w1 = (if jq_sessionRole q \<noteq> ROLE_SERVER then w\<lparr>jw_violations := jw_violations w + 1\<rparr> else w)"
  obtain r q' w' where t: "take_job (q, w1) = (r, q', w')" by (metis prod.exhaust)
  assume "jq_inv qw"
  then have i: "jq_inv (q, w1)" and c: "jq_contents (q, w1) = jq_contents qw" by (simp_all add: s w1_def)
  note D = take_job_spec [OF i t]
  have e: "DequeueJob qw = (r, q', w')" using t by (simp add: DequeueJob_def s w1_def)
  show "fst (DequeueJob qw) = None \<and> jq_contents (snd (DequeueJob qw)) = [] \<and> jq_inv (snd (DequeueJob qw))"
    if "jq_contents qw = []" using D c that i e by auto
  show "fst (DequeueJob qw) = Some x \<and> jq_contents (snd (DequeueJob qw)) = xs \<and> jq_inv (snd (DequeueJob qw))"
    if "jq_contents qw = x # xs" using D c that e by auto
qed (simp_all)

text \<open>The ring: the queued sessions, oldest first, lie between head and tail.\<close>

definition rq_contents :: "ReadySessionQueue \<Rightarrow> nat list" where
  "rq_contents q = map (\<lambda>i. the (rq_queue q ! ((rq_head q + i) mod length (rq_queue q)))) [0..<rq_count q]"

definition rq_inv :: "ReadySessionQueue \<Rightarrow> bool" where
  "rq_inv q \<longleftrightarrow> rq_capacity q = int (length (rq_queue q)) \<and> rq_count q \<le> length (rq_queue q) \<and>
     (rq_queue q \<noteq> [] \<longrightarrow> rq_head q < length (rq_queue q) \<and>
        rq_tail q = (rq_head q + rq_count q) mod length (rq_queue q)) \<and>
     (\<forall>i < rq_count q. rq_queue q ! ((rq_head q + i) mod length (rq_queue q)) \<noteq> None)"

definition rq_room :: "ReadySessionQueue \<Rightarrow> bool" where
  "rq_room q \<longleftrightarrow> rq_count q < length (rq_queue q)"

lemma mod_add_neq: "h < n \<Longrightarrow> i < n \<Longrightarrow> j < n \<Longrightarrow> i \<noteq> j \<Longrightarrow> (h + i) mod n \<noteq> (h + j) mod (n :: nat)"
  by (auto simp: mod_if split: if_splits)

lemma rq_Push_spec:
  assumes inv: "rq_inv q" and P: "rq_Push s q = (ok, q')"
  shows "ok = rq_room q \<and> rq_inv q' \<and> rq_contents q' = (if ok then rq_contents q @ [s] else rq_contents q) \<and>
    (\<not> ok \<longrightarrow> q' = q) \<and> length (rq_queue q') = length (rq_queue q) \<and> rq_stopFlag q' = rq_stopFlag q"
proof (cases "rq_room q")
  case False
  with inv P have "\<not> ok" "q' = q" by (auto simp: rq_Push_def rq_room_def rq_inv_def split: if_splits)
  with False inv show ?thesis by simp
next
  case True
  let ?n = "length (rq_queue q)"
  have c: "rq_capacity q = int ?n" and h: "rq_head q < ?n" and t: "rq_tail q = (rq_head q + rq_count q) mod ?n"
    and lt: "rq_count q < ?n" using inv True by (auto simp: rq_inv_def rq_room_def)
  have e: "ok" "q' = q\<lparr>rq_queue := (rq_queue q)[rq_tail q := Some s], rq_tail := (rq_tail q + 1) mod ?n, rq_count := rq_count q + 1\<rparr>"
    using P c lt by (auto simp: rq_Push_def split: if_splits)
  have tn: "rq_tail q < ?n" unfolding t using h by (intro mod_less_divisor) auto
  have other: "(rq_head q + i) mod ?n \<noteq> rq_tail q" if "i < rq_count q" for i
    unfolding t using that lt h by (intro mod_add_neq) simp_all
  have "rq_queue q' ! ((rq_head q + i) mod ?n) = (if i = rq_count q then Some s else rq_queue q ! ((rq_head q + i) mod ?n))"
    if "i \<le> rq_count q" for i
    using that other [of i] tn by (auto simp: e(2) t [symmetric])
  then have "rq_inv q' \<and> rq_contents q' = rq_contents q @ [s]"
    using inv lt h by (auto simp: rq_inv_def rq_contents_def e(2) t mod_Suc_eq less_Suc_eq)
  with True e show ?thesis by simp
qed

lemma rq_take_spec:
  assumes inv: "rq_inv q" and T: "rq_take q = (r, q')"
  shows "r = (case rq_contents q of [] \<Rightarrow> None | x # _ \<Rightarrow> Some x) \<and> rq_inv q' \<and> rq_contents q' = tl (rq_contents q) \<and>
    (r = None \<longrightarrow> q' = q) \<and> length (rq_queue q') = length (rq_queue q) \<and> rq_stopFlag q' = rq_stopFlag q"
proof (cases "rq_count q")
  case 0
  with T have "r = None" "q' = q" by (simp_all add: rq_take_def)
  with 0 inv show ?thesis by (simp add: rq_contents_def)
next
  case (Suc k)
  let ?n = "length (rq_queue q)"
  have c: "rq_capacity q = int ?n" and h: "rq_head q < ?n" and t: "rq_tail q = (rq_head q + rq_count q) mod ?n"
    and le: "rq_count q \<le> ?n" and some: "\<And>i. i < rq_count q \<Longrightarrow> rq_queue q ! ((rq_head q + i) mod ?n) \<noteq> None"
    using inv Suc by (auto simp: rq_inv_def)
  have e: "r = rq_queue q ! rq_head q"
    "q' = q\<lparr>rq_queue := (rq_queue q)[rq_head q := None], rq_head := (rq_head q + 1) mod ?n, rq_count := k\<rparr>"
    using T c Suc by (auto simp: rq_take_def)
  have r: "r = Some (the (rq_queue q ! (rq_head q mod ?n)))" using some [of 0] Suc h e by auto
  have cs: "rq_contents q = the (rq_queue q ! (rq_head q mod ?n)) #
      map (\<lambda>i. the (rq_queue q ! ((rq_head q + Suc i) mod ?n))) [0..<k]"
    unfolding rq_contents_def Suc upt_conv_Cons [OF zero_less_Suc] by (simp add: map_Suc_upt [symmetric] del: upt_Suc)
  have pos: "((rq_head q + 1) mod ?n + i) mod ?n = (rq_head q + Suc i) mod ?n" for i by (simp add: mod_simps)
  have other: "rq_queue q' ! (((rq_head q + 1) mod ?n + i) mod ?n) = rq_queue q ! ((rq_head q + Suc i) mod ?n)"
    if "i < k" for i
  proof -
    have "(rq_head q + Suc i) mod ?n \<noteq> (rq_head q + 0) mod ?n"
      using that le Suc h by (intro mod_add_neq) auto
    then show ?thesis unfolding pos using h by (simp add: e(2))
  qed
  have c': "rq_contents q' = tl (rq_contents q)"
    unfolding cs using other by (simp add: rq_contents_def e(2))
  have h': "(rq_head q + 1) mod ?n < ?n" using h by (intro mod_less_divisor) auto
  have "rq_inv q'"
    unfolding rq_inv_def
  proof (intro conjI impI allI)
    show "rq_tail q' = (rq_head q' + rq_count q') mod length (rq_queue q')"
      using t Suc by (simp add: e(2) mod_simps)
    show "rq_queue q' ! ((rq_head q' + i) mod length (rq_queue q')) \<noteq> None" if "i < rq_count q'" for i
      using other [of i] some [of "Suc i"] that Suc by (simp add: e(2))
  qed (use c le Suc h' in \<open>simp_all add: e(2)\<close>)
  with r c' cs show ?thesis by (simp add: e(2))
qed

interpretation rq: fifo rq_Push rq_take rq_contents rq_room "\<lambda>_ _. True" rq_inv
proof unfold_locales
  fix q s
  obtain ok q' where P: "rq_Push s q = (ok, q')" by fastforce
  assume "rq_inv q"
  note p = rq_Push_spec [OF this P]
  show "fst (rq_Push s q) \<and> rq_contents (snd (rq_Push s q)) = rq_contents q @ [s] \<and> rq_inv (snd (rq_Push s q))"
    if "rq_room q" using p that P by simp
  show "\<not> fst (rq_Push s q) \<and> rq_contents (snd (rq_Push s q)) = rq_contents q \<and> rq_inv (snd (rq_Push s q))"
    if "\<not> rq_room q" using p that P by auto
next
  fix q x xs
  obtain r q' where T: "rq_take q = (r, q')" by fastforce
  assume "rq_inv q"
  note p = rq_take_spec [OF this T]
  show "fst (rq_take q) = None \<and> rq_contents (snd (rq_take q)) = [] \<and> rq_inv (snd (rq_take q))"
    if e: "rq_contents q = []"
  proof -
    from p have "r = (case rq_contents q of [] \<Rightarrow> None | x # _ \<Rightarrow> Some x)" and "rq_inv q'" and "rq_contents q' = tl (rq_contents q)"
      by blast+
    with T e show ?thesis by simp
  qed
  show "fst (rq_take q) = Some x \<and> rq_contents (snd (rq_take q)) = xs \<and> rq_inv (snd (rq_take q))"
    if "rq_contents q = x # xs" using p that T by simp
qed

lemma sint_small:
  assumes "unat (n :: u32) < 2 ^ 31"
  shows "sint n = int (unat n)"
proof -
  have "int (unat n) < int (2 ^ 31)" using assms by (simp only: of_nat_less_iff)
  then have "uint n < 2 ^ 31" and "- (2 ^ 31) \<le> uint n" by (simp_all add: order_trans [of _ 0])
  then show ?thesis by (simp add: sint_uint signed_take_bit_int_eq_self)
qed

lemma rq_Initialize_spec:
  assumes "rq_Initialize True n q0 = (True, q)" and "unat n < 2 ^ 31"
  shows "rq_inv q \<and> rq_contents q = [] \<and> length (rq_queue q) = unat n"
proof -
  have n: "n \<noteq> 0" and q: "q = \<lparr>rq_queue = replicate (unat n) None, rq_capacity = sint n, rq_head = 0, rq_tail = 0,
      rq_count = 0, rq_stopFlag = False\<rparr>"
    using assms(1) by (simp_all add: rq_Initialize_def split: if_splits)
  have "0 < unat n" using n by (simp add: unat_gt_0)
  then show ?thesis unfolding q by (simp add: rq_inv_def rq_contents_def sint_small [OF assms(2)])
qed

section \<open>Who owns the jobs and their packets\<close>

definition job_holds :: "'p JobWorld \<Rightarrow> addr \<Rightarrow> addr option" where
  "job_holds w a = (case jw_jobs w a of None \<Rightarrow> None | Some j \<Rightarrow> job_data j)"

abbreviation jw_packetPool :: "'p JobWorld \<Rightarrow> 'p" where
  "jw_packetPool w \<equiv> w_packetPool (jw_send w)"

definition jobs_inv :: "('p \<Rightarrow> bool) \<Rightarrow> ('p \<Rightarrow> addr set) \<Rightarrow> 'p JobWorld \<Rightarrow> bool" where
  "jobs_inv invar live w \<longleftrightarrow> invar (jw_jobPool w) \<and> invar (jw_packetPool w) \<and>
     dom (jw_jobs w) \<subseteq> live (jw_jobPool w) \<and>
     (\<forall>a p. job_holds w a = Some p \<longrightarrow> p \<in> live (jw_packetPool w)) \<and>
     (\<forall>a b p. job_holds w a = Some p \<and> job_holds w b = Some p \<longrightarrow> a = b)"

lemma jobs_invD:
  assumes "jobs_inv invar live w"
  shows "invar (jw_jobPool w)" and "invar (jw_packetPool w)" and "dom (jw_jobs w) \<subseteq> live (jw_jobPool w)"
    and "job_holds w a = Some p \<Longrightarrow> p \<in> live (jw_packetPool w)"
    and "job_holds w a = Some p \<Longrightarrow> job_holds w b = Some p \<Longrightarrow> a = b"
  using assms unfolding jobs_inv_def by blast+

lemma jobs_inv_frame:
  assumes "jobs_inv invar live w" and "jw_jobPool w' = jw_jobPool w" and "jw_send w' = jw_send w"
    and "dom (jw_jobs w') \<subseteq> dom (jw_jobs w)" and "\<And>a p. job_holds w' a = Some p \<Longrightarrow> job_holds w a = Some p"
  shows "jobs_inv invar live w'"
  using assms unfolding jobs_inv_def by (metis subset_trans)

text \<open>What becomes of a job that has run, or is thrown away: its packet, if it still has one, and its block go back.\<close>

definition retire_job :: "('p \<Rightarrow> addr \<Rightarrow> 'p) \<Rightarrow> addr \<Rightarrow> 'p JobWorld \<Rightarrow> 'p JobWorld" where
  "retire_job release a w =
     ReleaseJob release (Some a)
       (if job_data (job_at w a) \<noteq> None then release_packet release (job_data (job_at w a)) w else w)"

lemma retire_job_sels [simp]:
  "jw_jobs (retire_job release a w) = (jw_jobs w)(a := None)"
  "jw_jobPool (retire_job release a w) = release (jw_jobPool w) a"
  "jw_calls (retire_job release a w) = jw_calls w" "jw_violations (retire_job release a w) = jw_violations w"
  "jw_send (retire_job release a w) =
     (case job_data (job_at w a) of None \<Rightarrow> jw_send w | Some p \<Rightarrow> ReleasePacket release (Some p) (jw_send w))"
  by (auto simp: retire_job_def ReleaseJob_def release_packet_def)

context packet_pool
begin

lemma retire_job_inv:
  assumes inv: "jobs_inv invar live w" and a: "a \<in> dom (jw_jobs w)"
  shows "jobs_inv invar live (retire_job release a w) \<and>
    live (jw_jobPool (retire_job release a w)) = live (jw_jobPool w) - {a} \<and>
    live (jw_packetPool (retire_job release a w)) = live (jw_packetPool w) - set_option (job_holds w a) \<and>
    (\<forall>b. b \<noteq> a \<longrightarrow> job_at (retire_job release a w) b = job_at w b)"
proof -
  note I = jobs_invD [OF inv]
  let ?w = "retire_job release a w"
  from a obtain j where j: "jw_jobs w a = Some j" by auto
  have la: "a \<in> live (jw_jobPool w)" using I(3) a by blast
  have jp: "invar (jw_jobPool ?w)" "live (jw_jobPool ?w) = live (jw_jobPool w) - {a}"
    using release_invar [OF I(1) la] release_live [OF I(1) la] by simp_all
  have jd: "job_data (job_at w a) = job_holds w a" using j by (simp add: job_at_def job_holds_def)
  have pp: "invar (jw_packetPool ?w)" "live (jw_packetPool ?w) = live (jw_packetPool w) - set_option (job_holds w a)"
    using I(2) release_invar [OF I(2)] release_live [OF I(2)] I(4) jd
    by (auto simp: ReleasePacket_def split: option.splits)
  have h: "job_holds ?w b = (if b = a then None else job_holds w b)" for b by (simp add: job_holds_def)
  have "jobs_inv invar live ?w"
    unfolding jobs_inv_def
  proof (intro conjI allI impI)
    show "p \<in> live (jw_packetPool ?w)" if "job_holds ?w b = Some p" for b p
    proof -
      have b: "b \<noteq> a" "job_holds w b = Some p" using that h by (auto split: if_splits)
      then have "p \<notin> set_option (job_holds w a)" using I(5) by auto
      with b I(4) pp(2) show ?thesis by auto
    qed
    show "b = c" if "job_holds ?w b = Some p \<and> job_holds ?w c = Some p" for b c p
      using that h I(5) by (auto split: if_splits)
    show "dom (jw_jobs ?w) \<subseteq> live (jw_jobPool ?w)" using I(3) jp(2) by auto
  qed (rule jp pp)+
  with jp pp show ?thesis by (simp add: job_at_def)
qed

end

lemma release_jobs_Some [simp]:
  "release_jobs (Suc n) release (Some a) w = release_jobs n release (job_next (job_at w a)) (retire_job release a w)"
  by (simp add: retire_job_def Let_def)

declare release_jobs.simps(2) [simp del]

text \<open>The packets of the jobs \<open>xs\<close>.\<close>

definition packets_of :: "'p JobWorld \<Rightarrow> addr list \<Rightarrow> addr set" where
  "packets_of w xs = (\<Union>a \<in> set xs. set_option (job_holds w a))"

lemma retire_chain:
  assumes "chain (job_links w) p (a # xs)"
  shows "chain (job_links (retire_job release a w)) (job_links w a) xs"
proof -
  have "chain (job_links w) (job_links w a) xs" using assms by simp
  moreover have "a \<notin> set xs" using chain_distinct [OF assms] by simp
  ultimately show ?thesis by (elim lseg_frame) (auto simp: job_links_def job_at_def)
qed

context packet_pool
begin

lemma release_jobs_inv:
  assumes "jobs_inv invar live w" and "chain (job_links w) p xs" and "set xs \<subseteq> dom (jw_jobs w)"
    and "release_jobs (length xs) release p w = (p', w')"
  shows "p' = None \<and> jobs_inv invar live w' \<and> jw_jobs w' = jw_jobs w |` (- set xs) \<and>
    live (jw_jobPool w') = live (jw_jobPool w) - set xs \<and>
    live (jw_packetPool w') = live (jw_packetPool w) - packets_of w xs \<and>
    jw_calls w' = jw_calls w \<and> jw_violations w' = jw_violations w"
  using assms
proof (induction xs arbitrary: p w)
  case Nil
  then show ?case by (simp add: packets_of_def)
next
  case (Cons a xs)
  let ?w = "retire_job release a w"
  have p: "p = Some a" using Cons.prems(2) by simp
  have a: "a \<in> dom (jw_jobs w)" using Cons.prems(3) by simp
  note r = retire_job_inv [OF Cons.prems(1) a]
  have nd: "a \<notin> set xs" using chain_distinct [OF Cons.prems(2)] by simp
  have "set xs \<subseteq> dom (jw_jobs ?w)" using Cons.prems(3) nd by auto
  moreover have "release_jobs (length xs) release (job_links w a) ?w = (p', w')"
    using Cons.prems(4) by (simp add: p job_links_def)
  ultimately have ih: "p' = None \<and> jobs_inv invar live w' \<and> jw_jobs w' = jw_jobs ?w |` (- set xs) \<and>
    live (jw_jobPool w') = live (jw_jobPool ?w) - set xs \<and>
    live (jw_packetPool w') = live (jw_packetPool ?w) - packets_of ?w xs \<and>
    jw_calls w' = jw_calls ?w \<and> jw_violations w' = jw_violations ?w"
    using Cons.IH [OF _ retire_chain [OF Cons.prems(2)]] r by blast
  have "packets_of ?w xs = packets_of w xs"
    using nd by (auto simp: packets_of_def job_holds_def split: option.splits if_splits)
  then have "live (jw_packetPool w') = live (jw_packetPool w) - packets_of w (a # xs)"
    using ih r by (auto simp: packets_of_def)
  moreover have "jw_jobs w' = jw_jobs w |` (- set (a # xs))"
    using ih by (auto simp: restrict_map_def fun_eq_iff)
  moreover have "live (jw_jobPool w') = live (jw_jobPool w) - set (a # xs)" using ih r by auto
  ultimately show ?case using ih by simp
qed

lemma jq_Reset_inv:
  assumes inv: "jobs_inv invar live w" and q: "jq_inv (q, w)" and d: "set (jq_contents (q, w)) \<subseteq> dom (jw_jobs w)"
    and R: "jq_Reset release (q, w) = (q', w')"
  shows "jq_inv (q', w') \<and> jq_contents (q', w') = [] \<and> jobs_inv invar live w' \<and>
    jw_jobs w' = jw_jobs w |` (- set (jq_contents (q, w))) \<and>
    live (jw_jobPool w') = live (jw_jobPool w) - set (jq_contents (q, w)) \<and>
    live (jw_packetPool w') = live (jw_packetPool w) - packets_of w (jq_contents (q, w)) \<and>
    jw_calls w' = jw_calls w \<and> jw_violations w' = jw_violations w"
proof -
  let ?xs = "jq_contents (q, w)"
  have n: "nat (jq_count q) = length ?xs" using jq_invD(2) [OF q] by simp
  obtain p w1 where r: "release_jobs (length ?xs) release (jq_head q) w = (p, w1)" by fastforce
  have e: "w' = w1" "q' = q\<lparr>jq_head := None, jq_tail := None, jq_count := 0, jq_peakCount := 0, jq_stopFlag := False\<rparr>"
    using R r n by (auto simp: jq_Reset_def)
  have "jq_inv (q', w') \<and> jq_contents (q', w') = []" unfolding e by (intro jq_invI) simp_all
  with release_jobs_inv [OF inv jq_invD(1) [OF q] d r] show ?thesis unfolding e(1) by blast
qed

end

section \<open>Draining a session\<close>

text \<open>
  The inner loop of \<open>WorkerThreadLoop\<close>: jobs are taken, run and retired until the queue is empty. \<open>True\<close> says that it got
  there. With nobody adding jobs the number of queued jobs plus one is fuel enough (\<open>drain_all\<close>).
\<close>

primrec drain_session ::
  "nat \<Rightarrow> ('p \<Rightarrow> addr \<Rightarrow> 'p) \<Rightarrow> SessionJobQueue \<times> 'p JobWorld \<Rightarrow> bool \<times> SessionJobQueue \<times> 'p JobWorld" where
  "drain_session 0 release qw = (False, qw)"
| "drain_session (Suc n) release qw =
     (case DequeueJob qw of
        (None, q, w) \<Rightarrow> (True, q, w)
      | (Some a, q, w) \<Rightarrow> drain_session n release (q, retire_job release a (run_job a w)))"

text \<open>
  The body of the loop of \<open>ClientSessionScheduler::Run\<close> for one job. \<open>takes\<close> says whether the handler claims the
  packet with \<open>ClearCurrentJobData\<close>.
\<close>

definition run_client_job :: "('p \<Rightarrow> addr \<Rightarrow> 'p) \<Rightarrow> bool \<Rightarrow> addr \<Rightarrow> 'p JobWorld \<Rightarrow> 'p JobWorld" where
  "run_client_job release takes a w =
     (let w1 = run_job a w;
          w2 = (if takes then set_job a ((job_at w1 a)\<lparr>job_data := None\<rparr>) w1 else w1);
          w3 = (if job_jobType (job_at w2 a) = JobType_PACKET \<and> job_data (job_at w2 a) \<noteq> None
                then release_packet release (job_data (job_at w2 a)) w2 else w2)
      in ReleaseJob release (Some a) w3)"

lemma run_job_sels [simp]:
  "jw_send (run_job a w) = jw_send w" "jw_jobPool (run_job a w) = jw_jobPool w" "jw_jobs (run_job a w) = jw_jobs w"
  "jw_violations (run_job a w) = jw_violations w"
  "jw_calls (run_job a w) = jw_calls w @ (case Execute (job_at w a) of None \<Rightarrow> [] | Some c \<Rightarrow> [c])"
  by (simp_all add: run_job_def split: option.split)

lemma run_job_at [simp]: "job_at (run_job a w) b = job_at w b" "job_links (run_job a w) = job_links w"
  "job_holds (run_job a w) = job_holds w"
  by (auto simp: job_at_def job_links_def job_holds_def)

lemma jobs_inv_run [simp]: "jobs_inv invar live (run_job a w) = jobs_inv invar live w"
  by (simp add: jobs_inv_def)

text \<open>The calls the jobs \<open>xs\<close> make, in order.\<close>

definition calls_of :: "'p JobWorld \<Rightarrow> addr list \<Rightarrow> job_call list" where
  "calls_of w xs = concat (map (\<lambda>a. case Execute (job_at w a) of None \<Rightarrow> [] | Some c \<Rightarrow> [c]) xs)"

lemma jq_inv_retire:
  assumes "jq_inv (q, w)" and "a \<notin> set (jq_contents (q, w))"
  shows "jq_inv (q, retire_job release a w) \<and> jq_contents (q, retire_job release a w) = jq_contents (q, w)"
proof -
  have "chain (job_links (retire_job release a w)) (jq_head q) (jq_contents (q, w))"
    using jq_invD(1) [OF assms(1)] by (rule lseg_frame) (use assms(2) in \<open>auto simp: job_links_def job_at_def\<close>)
  with jq_invD [OF assms(1)] show ?thesis by (intro jq_invI) simp_all
qed

context packet_pool
begin

lemma drain_all:
  assumes "jobs_inv invar live w" and "jq_inv (q, w)" and "jq_contents (q, w) = xs" and "set xs \<subseteq> dom (jw_jobs w)"
    and "jq_sessionRole q = ROLE_SERVER" and "length xs < n" and "drain_session n release (q, w) = (ok, q', w')"
  shows "ok \<and> jq_inv (q', w') \<and> jq_contents (q', w') = [] \<and> jobs_inv invar live w' \<and>
    jw_jobs w' = jw_jobs w |` (- set xs) \<and> live (jw_jobPool w') = live (jw_jobPool w) - set xs \<and>
    live (jw_packetPool w') = live (jw_packetPool w) - packets_of w xs \<and>
    jw_calls w' = jw_calls w @ calls_of w xs \<and> jw_violations w' = jw_violations w"
  using assms
proof (induction xs arbitrary: n q w)
  case Nil
  then obtain m where n: "n = Suc m" by (cases n) auto
  have D: "DequeueJob (q, w) = take_job (q, w)" using Nil.prems(5) by (simp add: DequeueJob_def)
  obtain r q1 w1 where t: "take_job (q, w) = (r, q1, w1)" by (metis prod.exhaust)
  from take_job_spec [OF Nil.prems(2) t] Nil.prems(3) have "r = None" "w1 = w" "q1 = q" by auto
  with Nil.prems D t n show ?case by (auto simp: packets_of_def calls_of_def)
next
  case (Cons a xs)
  then obtain m where n: "n = Suc m" by (cases n) auto
  have D: "DequeueJob (q, w) = take_job (q, w)" using Cons.prems(5) by (simp add: DequeueJob_def)
  obtain r q1 w1 where t: "take_job (q, w) = (r, q1, w1)" by (metis prod.exhaust)
  from take_job_spec [OF Cons.prems(2) t] Cons.prems(3,5) have q1: "r = Some a" "w1 = w" "jq_inv (q1, w)"
    "jq_contents (q1, w) = xs" "jq_sessionRole q1 = ROLE_SERVER" by auto
  have nd: "a \<notin> set xs" using chain_distinct [OF jq_invD(1) [OF Cons.prems(2)]] Cons.prems(3) by simp
  define v where "v = run_job a w"
  let ?w = "retire_job release a v"
  have jv: "jobs_inv invar live v" "a \<in> dom (jw_jobs v)" using Cons.prems(1,4) by (simp_all add: v_def)
  note R = retire_job_inv [OF jv]
  have "jq_inv (q1, v) \<and> jq_contents (q1, v) = xs"
    using q1(3,4) by (simp add: jq_inv_def jq_contents_def v_def)
  then have c: "jq_inv (q1, ?w)" "jq_contents (q1, ?w) = xs" using jq_inv_retire nd by blast+
  have d: "set xs \<subseteq> dom (jw_jobs ?w)" using Cons.prems(4) nd by (auto simp: v_def)
  have E: "drain_session m release (q1, ?w) = (ok, q', w')" using Cons.prems(7) D t q1 n by (simp add: v_def)
  have "length xs < m" using Cons.prems(6) n by simp
  note ih = Cons.IH [OF conjunct1 [OF R] c d q1(5) this E]
  have pk: "packets_of ?w xs = packets_of w xs"
    using nd by (auto simp: packets_of_def job_holds_def v_def split: option.splits if_splits)
  have "calls_of ?w xs = calls_of w xs"
    unfolding calls_of_def using R nd by (intro arg_cong [of _ _ concat] map_cong) (auto simp: v_def)
  then have "jw_calls w' = jw_calls w @ calls_of w (a # xs)" using ih by (simp add: v_def calls_of_def)
  moreover have "live (jw_packetPool w') = live (jw_packetPool w) - packets_of w (a # xs)"
    using ih R pk by (auto simp: packets_of_def v_def)
  moreover have "jw_jobs w' = jw_jobs w |` (- set (a # xs))"
    using ih by (auto simp: restrict_map_def fun_eq_iff v_def)
  moreover have "live (jw_jobPool w') = live (jw_jobPool w) - set (a # xs)" using ih R by (auto simp: v_def)
  ultimately show ?case using ih by (simp add: v_def)
qed

end

end
