(* ===== verification/Scheduler.thy ===== *)
theory Scheduler
  imports JobQueue
begin

text \<open>
  How a received packet gets to its handler on the server: \<open>IOCPServer::SubmitPacketJob\<close> queues a job and schedules the
  session, \<open>ReadySessionScheduler::WorkerThreadLoop\<close> drains it. The first part is the code of one call with everything
  it owns; the second part is the protocol of many threads, one step per interlocked operation or lock.
\<close>

section \<open>Submitting a packet\<close>

text \<open>Which of the server's members are set, and the handler table.\<close>

record ServerParts =
  sv_packetHandlerTable :: "nat handler_table option"
  sv_jobMemoryPool :: bool
  sv_readySessionQueue :: bool
  sv_packetMemoryPool :: bool
  sv_generalMemoryPool :: bool

text \<open>What \<open>SubmitPacketJob\<close> works on: the session's processing flag and job queue, the ready ring, the world.\<close>

record 'p SubmitState =
  su_processing :: bool
  su_queue :: SessionJobQueue
  su_ready :: ReadySessionQueue
  su_world :: "'p JobWorld"

definition dropPacket :: "('p \<Rightarrow> addr \<Rightarrow> 'p) \<Rightarrow> ServerParts \<Rightarrow> addr option \<Rightarrow> 'p JobWorld \<Rightarrow> 'p JobWorld" where
  "dropPacket release sv packetData w =
     (if packetData \<noteq> None \<and> sv_packetMemoryPool sv \<and> sv_generalMemoryPool sv
      then release_packet release packetData w else w)"

definition SubmitPacketJob ::
  "('p \<Rightarrow> nat \<Rightarrow> addr option \<times> 'p) \<Rightarrow> ('p \<Rightarrow> addr \<Rightarrow> 'p) \<Rightarrow> Job \<Rightarrow> ServerParts \<Rightarrow> nat option \<Rightarrow> u16 \<Rightarrow> addr option \<Rightarrow> u32 \<Rightarrow>
     'p SubmitState \<Rightarrow> bool \<times> 'p SubmitState" where
  "SubmitPacketJob acquire release junk sv session pid packetData sz st =
     (let w = su_world st in
      if session = None \<or> packetData = None
      then (False, st\<lparr>su_world := dropPacket release sv packetData (w\<lparr>jw_violations := jw_violations w + 1\<rparr>)\<rparr>)
      else if sv_packetHandlerTable sv = None \<or> \<not> sv_jobMemoryPool sv \<or> \<not> sv_readySessionQueue sv
      then (False, st\<lparr>su_world := dropPacket release sv packetData (w\<lparr>jw_violations := jw_violations w + 1\<rparr>)\<rparr>)
      else
        (case GetHandler (the (sv_packetHandlerTable sv)) pid of
           None \<Rightarrow> (False, st\<lparr>su_world := dropPacket release sv packetData w\<rparr>)
         | Some handler \<Rightarrow>
             (case CreateJob acquire junk w of
                (None, w1) \<Rightarrow> (False, st\<lparr>su_world := dropPacket release sv packetData w1\<rparr>)
              | (Some job, w1) \<Rightarrow>
                  (let w2 = set_job job (SetPacketJob JobType_PACKET (Some handler) (the session) pid packetData sz
                              (job_at w1 job)) w1 in
                   case EnqueueJob (Some job) (su_queue st, w2) of
                     ((False, _), q, w3) \<Rightarrow>
                       (False, st\<lparr>su_queue := q,
                          su_world := ReleaseJob release (Some job) (dropPacket release sv packetData w3)\<rparr>)
                   | ((True, _), q, w3) \<Rightarrow>
                       (let st1 = st\<lparr>su_queue := q, su_world := w3\<rparr> in
                        if su_processing st1 then (True, st1)
                        else (case rq_Push (the session) (su_ready st1) of
                                (True, r) \<Rightarrow> (True, st1\<lparr>su_processing := True, su_ready := r\<rparr>)
                              | (False, r) \<Rightarrow> (True, st1\<lparr>su_processing := False, su_ready := r\<rparr>)))))))"

text \<open>What \<open>dropPacket\<close> gives back: the packet, when there is one and the server has its pools.\<close>

definition dropped :: "ServerParts \<Rightarrow> addr option \<Rightarrow> addr set" where
  "dropped sv packetData = (if sv_packetMemoryPool sv \<and> sv_generalMemoryPool sv then set_option packetData else {})"

context packet_pool
begin

lemma dropPacket_inv:
  assumes "jobs_inv invar live w"
    and packet: "\<And>p. packetData = Some p \<Longrightarrow> p \<in> live (jw_packetPool w) \<and> (\<forall>a. job_holds w a \<noteq> Some p)"
  shows "jobs_inv invar live (dropPacket release sv packetData w) \<and>
    live (jw_packetPool (dropPacket release sv packetData w)) = live (jw_packetPool w) - dropped sv packetData \<and>
    jw_jobPool (dropPacket release sv packetData w) = jw_jobPool w \<and> jw_jobs (dropPacket release sv packetData w) = jw_jobs w"
proof (cases "packetData = None \<or> \<not> sv_packetMemoryPool sv \<or> \<not> sv_generalMemoryPool sv")
  case True
  with assms(1) show ?thesis by (auto simp: dropPacket_def dropped_def)
next
  case False
  then obtain p where p: "packetData = Some p" by auto
  note p = p packet [OF p, THEN conjunct1] packet [OF p, THEN conjunct2]
  note I = jobs_invD [OF assms(1)]
  let ?w = "dropPacket release sv packetData w"
  have e: "jw_packetPool ?w = release (jw_packetPool w) p" "jw_jobPool ?w = jw_jobPool w" "jw_jobs ?w = jw_jobs w"
    using False p(1) by (simp_all add: dropPacket_def release_packet_def ReleasePacket_def)
  have h: "job_holds ?w = job_holds w" by (simp add: job_holds_def e fun_eq_iff)
  have "live (jw_packetPool ?w) = live (jw_packetPool w) - {p}" using release_live [OF I(2) p(2)] e by simp
  moreover have "jobs_inv invar live ?w"
    using I release_invar [OF I(2) p(2)] p(3) e h calculation
    unfolding jobs_inv_def by (metis Diff_iff singletonD)
  moreover have "dropped sv packetData = {p}" using False p(1) by (simp add: dropped_def)
  ultimately show ?thesis using e by simp
qed

lemma CreateJob_inv:
  assumes inv: "jobs_inv invar live w" and C: "CreateJob acquire junk w = (r, w')"
  shows "(case r of
      None \<Rightarrow> jobs_inv invar live w' \<and> jw_jobs w' = jw_jobs w \<and> live (jw_jobPool w') = live (jw_jobPool w)
    | Some a \<Rightarrow> a \<notin> dom (jw_jobs w) \<and> a \<notin> live (jw_jobPool w) \<and> live (jw_jobPool w') = insert a (live (jw_jobPool w)) \<and>
        jw_jobs w' = (jw_jobs w)(a := Some junk) \<and>
        (\<forall>j. (\<forall>p. job_data j = Some p \<longrightarrow> p \<in> live (jw_packetPool w) \<and> (\<forall>b. job_holds w b \<noteq> Some p)) \<longrightarrow>
           jobs_inv invar live (set_job a j w'))) \<and> jw_send w' = jw_send w \<and> jw_calls w' = jw_calls w \<and>
    jw_violations w' = jw_violations w"
proof -
  note I = jobs_invD [OF inv]
  obtain x p' where A: "acquire (jw_jobPool w) sizeof_Job_bytes = (x, p')" by fastforce
  have sz: "sizeof_Job_bytes < 2 ^ 32" by simp
  note iv = acquire_invar [OF I(1) sz A] and lv = acquire_live [OF I(1) sz A]
  show ?thesis
  proof (cases x)
    case None
    then have e: "r = None" "w' = w\<lparr>jw_jobPool := p'\<rparr>" using C A by (simp_all add: CreateJob_def)
    have h: "job_holds w' = job_holds w" by (simp add: e job_holds_def fun_eq_iff)
    have "jobs_inv invar live w'" unfolding jobs_inv_def h using I iv lv None by (auto simp: e)
    with lv None e show ?thesis by simp
  next
    case (Some a)
    then have e: "r = Some a" "w' = set_job a junk (w\<lparr>jw_jobPool := p'\<rparr>)" using C A by (simp_all add: CreateJob_def)
    have f: "a \<notin> live (jw_jobPool w)" using acquire_fresh [OF I(1) sz A [unfolded Some]] .
    have d: "a \<notin> dom (jw_jobs w)" using f I(3) by blast
    have "jobs_inv invar live (set_job a j w')"
      if j: "\<forall>p. job_data j = Some p \<longrightarrow> p \<in> live (jw_packetPool w) \<and> (\<forall>b. job_holds w b \<noteq> Some p)" for j
    proof -
      have h: "job_holds (set_job a j w') b = (if b = a then job_data j else job_holds w b)" for b
        by (simp add: job_holds_def e)
      show ?thesis unfolding jobs_inv_def h using I iv lv Some j by (auto simp: e split: if_splits)
    qed
    with f d lv Some e show ?thesis by (simp add: insert_commute)
  qed
qed

end

lemma job_frame_holds:
  assumes "job_frame w w'" and "dom (jw_jobs w') = dom (jw_jobs w)"
  shows "job_holds w' = job_holds w"
proof
  fix a
  show "job_holds w' a = job_holds w a"
  proof (cases "a \<in> dom (jw_jobs w)")
    case True
    then obtain j j' where j: "jw_jobs w a = Some j" "jw_jobs w' a = Some j'" using assms(2) by blast
    then have "j'\<lparr>job_next := None\<rparr> = j\<lparr>job_next := None\<rparr>" using assms(1) by (auto simp: job_frame_def job_at_def dest: spec [of _ a])
    then have "job_data (j'\<lparr>job_next := None\<rparr>) = job_data (j\<lparr>job_next := None\<rparr>)" by (rule arg_cong)
    with j show ?thesis by (simp add: job_holds_def)
  next
    case False
    with assms(2) have "a \<notin> dom (jw_jobs w')" by simp
    with False have "jw_jobs w a = None" "jw_jobs w' a = None" by (simp_all add: domIff)
    then show ?thesis by (simp add: job_holds_def)
  qed
qed

lemma job_frame_inv:
  assumes "jobs_inv invar live w" and "job_frame w w'" and "dom (jw_jobs w') = dom (jw_jobs w)"
  shows "jobs_inv invar live w'"
proof -
  have "jw_jobPool w' = jw_jobPool w" "jw_send w' = jw_send w" using assms(2) by (simp_all add: job_frame_def)
  with assms(1,3) show ?thesis by (simp add: jobs_inv_def job_frame_holds [OF assms(2,3)])
qed

text \<open>The contents of a queue only depend on the links of its jobs.\<close>

lemma jq_new_block:
  assumes q: "jq_inv (q, w)" and d: "set (jq_contents (q, w)) \<subseteq> dom (jw_jobs w)" and a: "a \<notin> dom (jw_jobs w)"
    and w': "jw_jobs w' = (jw_jobs w)(a := j)"
  shows "jq_inv (q, w') \<and> jq_contents (q, w') = jq_contents (q, w)"
proof -
  have "chain (job_links w') (jq_head q) (jq_contents (q, w))"
    using jq_invD(1) [OF q] by (rule lseg_frame) (use d a in \<open>auto simp: job_links_def job_at_def w'\<close>)
  with jq_invD [OF q] show ?thesis by (intro jq_invI) simp_all
qed

lemma EnqueueJob_inv:
  assumes inv: "jobs_inv invar live w" and q: "jq_inv (q, w)" and d: "set (jq_contents (q, w)) \<subseteq> dom (jw_jobs w)"
    and a: "a \<in> dom (jw_jobs w)" "a \<notin> set (jq_contents (q, w))" and E: "EnqueueJob (Some a) (q, w) = ((ok, e), q', w')"
  shows "jobs_inv invar live w'" and "dom (jw_jobs w') = dom (jw_jobs w)" and "job_holds w' = job_holds w"
    and "Execute (job_at w' b) = Execute (job_at w b)"
proof -
  note En = EnqueueJob_spec [OF q a(2) E]
  have "set_option (jq_tail q) \<subseteq> set (jq_contents (q, w))" using jq_invD(4) [OF q] by (auto split: if_splits)
  with d a En show dm: "dom (jw_jobs w') = dom (jw_jobs w)" by auto
  have f: "job_frame w w'" using En by blast
  show "jobs_inv invar live w'" using job_frame_inv [OF inv f dm] .
  show "job_holds w' = job_holds w" using job_frame_holds [OF f dm] .
  have "Execute ((job_at w' b)\<lparr>job_next := None\<rparr>) = Execute ((job_at w b)\<lparr>job_next := None\<rparr>)"
    using f by (simp add: job_frame_def)
  moreover have "Execute (j\<lparr>job_next := None\<rparr>) = Execute j" for j by (simp add: Execute_def split: JobType.split option.split)
  ultimately show "Execute (job_at w' b) = Execute (job_at w b)" by simp
qed

definition submitted :: "ServerParts \<Rightarrow> nat \<Rightarrow> u16 \<Rightarrow> addr \<Rightarrow> u32 \<Rightarrow> 'p SubmitState \<Rightarrow> addr \<Rightarrow> 'p SubmitState \<Rightarrow> bool" where
  "submitted sv s pid p sz st a st' \<longleftrightarrow>
     jq_contents (su_queue st', su_world st') = jq_contents (su_queue st, su_world st) @ [a] \<and>
     Execute (job_at (su_world st') a) = Some \<lparr>jc_type = JobType_PACKET,
       jc_func = the (GetHandler (the (sv_packetHandlerTable sv)) pid), jc_target = s, jc_data = Some p, jc_size = sz\<rparr> \<and>
     job_holds (su_world st') a = Some p \<and>
     (if su_processing st then su_processing st' \<and> su_ready st' = su_ready st
      else if rq_room (su_ready st)
      then su_processing st' \<and> rq_inv (su_ready st') \<and> rq_contents (su_ready st') = rq_contents (su_ready st) @ [s]
      else \<not> su_processing st' \<and> su_ready st' = su_ready st)"

context packet_pool
begin

lemma SubmitPacketJob_inv:
  assumes inv: "jobs_inv invar live (su_world st)"
    and packet: "\<And>p. packetData = Some p \<Longrightarrow> p \<in> live (jw_packetPool (su_world st)) \<and> (\<forall>a. job_holds (su_world st) a \<noteq> Some p)"
    and q: "jq_inv (su_queue st, su_world st)" and d: "set (jq_contents (su_queue st, su_world st)) \<subseteq> dom (jw_jobs (su_world st))"
    and r: "rq_inv (su_ready st)"
    and S: "SubmitPacketJob acquire release junk sv session pid packetData sz st = (ok, st')"
  shows "jobs_inv invar live (su_world st') \<and> jq_inv (su_queue st', su_world st') \<and>
    (if ok then jw_send (su_world st') = jw_send (su_world st) \<and>
       (\<exists>s p a. session = Some s \<and> packetData = Some p \<and> a \<notin> live (jw_jobPool (su_world st)) \<and>
         live (jw_jobPool (su_world st')) = insert a (live (jw_jobPool (su_world st))) \<and> submitted sv s pid p sz st a st')
     else live (jw_packetPool (su_world st')) = live (jw_packetPool (su_world st)) - dropped sv packetData \<and>
       live (jw_jobPool (su_world st')) = live (jw_jobPool (su_world st)) \<and> jw_jobs (su_world st') = jw_jobs (su_world st) \<and>
       su_queue st' = su_queue st \<and> su_ready st' = su_ready st \<and> su_processing st' = su_processing st)"
proof -
  let ?w = "su_world st" and ?q = "su_queue st"
  have drop: ?thesis
    if e: "\<not> ok" "st' = st\<lparr>su_world := dropPacket release sv packetData v\<rparr>" and v: "jobs_inv invar live v"
      "jw_send v = jw_send ?w" "jw_jobs v = jw_jobs ?w" "live (jw_jobPool v) = live (jw_jobPool ?w)" for v
  proof -
    have "job_holds v = job_holds ?w" by (simp add: job_holds_def v(3) fun_eq_iff)
    then have D: "jobs_inv invar live (dropPacket release sv packetData v) \<and>
      live (jw_packetPool (dropPacket release sv packetData v)) = live (jw_packetPool v) - dropped sv packetData \<and>
      jw_jobPool (dropPacket release sv packetData v) = jw_jobPool v \<and> jw_jobs (dropPacket release sv packetData v) = jw_jobs v"
      using dropPacket_inv [OF v(1)] packet v(2) by simp
    then have l: "job_links (su_world st') = job_links ?w" by (simp add: e(2) v(3) job_links_def job_at_def fun_eq_iff)
    have "jq_inv (?q, su_world st')" using q by (simp add: jq_inv_def jq_contents_def l)
    with D e v show ?thesis by simp
  qed
  show ?thesis
  proof (cases "session = None \<or> packetData = None \<or> sv_packetHandlerTable sv = None \<or> \<not> sv_jobMemoryPool sv \<or> \<not> sv_readySessionQueue sv")
    case True
    have "jobs_inv invar live (?w\<lparr>jw_violations := n\<rparr>)" for n
      using inv by (rule jobs_inv_frame) (auto simp: job_holds_def)
    with True S show ?thesis
      by (intro drop [of "?w\<lparr>jw_violations := jw_violations ?w + 1\<rparr>"]) (auto simp: SubmitPacketJob_def Let_def split: if_splits)
  next
    case parts: False
    then obtain t s p where t: "sv_packetHandlerTable sv = Some t" and arg: "session = Some s" "packetData = Some p" by auto
    have np: "\<forall>a. job_holds ?w a \<noteq> Some p" using packet arg by blast
    have p: "p \<in> live (jw_packetPool ?w)" using packet arg by blast
    show ?thesis
    proof (cases "GetHandler t pid")
      case None
      with S parts t inv show ?thesis by (intro drop [of ?w]) (auto simp: SubmitPacketJob_def)
    next
      case handler: (Some h)
      obtain x w1 where C: "CreateJob acquire junk ?w = (x, w1)" by fastforce
      note c = CreateJob_inv [OF inv C]
      show ?thesis
      proof (cases x)
        case None
        with S parts t handler C c show ?thesis by (intro drop [of w1]) (auto simp: SubmitPacketJob_def)
      next
        case (Some a)
        define j where "j = SetPacketJob JobType_PACKET (Some h) s pid (Some p) sz (job_at w1 a)"
        define w2 where "w2 = set_job a j w1"
        have jd: "job_data j = Some p" by (simp add: j_def SetPacketJob_def)
        then have i2: "jobs_inv invar live w2" using c Some p np by (simp add: w2_def)
        have ad: "a \<notin> dom (jw_jobs ?w)" and w2j: "jw_jobs w2 = (jw_jobs ?w)(a := Some j)" using c Some by (simp_all add: w2_def)
        note q2 = jq_new_block [OF q d ad w2j]
        have na: "a \<notin> set (jq_contents (?q, w2))" using q2 d ad by auto
        obtain ok1 we q3 w3 where E: "EnqueueJob (Some a) (?q, w2) = ((ok1, we), q3, w3)" by (metis prod.exhaust)
        note En = EnqueueJob_spec [OF conjunct1 [OF q2] na E]
        have q2d: "set (jq_contents (?q, w2)) \<subseteq> dom (jw_jobs w2)" "a \<in> dom (jw_jobs w2)" using q2 d by (auto simp: w2j)
        note Ei = EnqueueJob_inv [OF i2 conjunct1 [OF q2] q2d na E]
        have h3: "job_holds w3 a = Some p" using Ei(3) jd by (simp add: job_holds_def w2j)
        have ex: "Execute (job_at w3 a) = Some \<lparr>jc_type = JobType_PACKET, jc_func = h, jc_target = s,
            jc_data = Some p, jc_size = sz\<rparr>" using Ei(4) [of a] by (simp add: w2_def Execute_def j_def SetPacketJob_def)
        have jp: "jw_send w3 = jw_send ?w" "live (jw_jobPool w3) = insert a (live (jw_jobPool ?w))" "a \<notin> live (jw_jobPool ?w)"
          using En c Some by (simp_all add: job_frame_def w2_def)
        obtain rok r' where R: "rq_Push s (su_ready st) = (rok, r')" by fastforce
        note rp = rq_Push_spec [OF r R]
        have st': "ok" "su_world st' = w3" "su_queue st' = q3"
          "su_processing st' = (su_processing st \<or> rok)" "su_ready st' = (if su_processing st then su_ready st else r')"
          using S parts t arg handler C Some En R unfolding SubmitPacketJob_def Let_def
          by (auto simp: E j_def [symmetric] w2_def [symmetric] split: if_splits bool.splits)
        have "submitted sv s pid p sz st a st'"
          unfolding submitted_def using st' ex h3 En q2 handler t rp by auto
        with st' Ei(1) En jp arg show ?thesis by auto
      qed
    qed
  qed
qed

end

end
