(* ===== verification/JobPath.thy ===== *)
theory JobPath
  imports SendPath Scheduler
begin

text \<open>
  The job queue and \<open>SubmitPacketJob\<close> on the engine's own pool: the ownership laws of \<open>JobQueue\<close> and
  \<open>Scheduler\<close> instantiated with the thread-caching pool.
\<close>

abbreviation tls_jobs_inv :: "TlsMemoryPool JobWorld \<Rightarrow> bool" where
  "tls_jobs_inv \<equiv> jobs_inv pool_inv payloads"

section \<open>A concrete server\<close>

definition parts1 :: ServerParts where
  "parts1 = \<lparr>sv_packetHandlerTable = Some (empty_handler_table[1000 := Some 5]), sv_jobMemoryPool = True,
     sv_readySessionQueue = True, sv_packetMemoryPool = True, sv_generalMemoryPool = True\<rparr>"

definition junk1 :: Job where
  "junk1 = \<lparr>job_next = Some 3, job_target = 9, job_data = Some 1, job_func = None, job_context = False, job_size = 0,
     job_packetId = 0, job_jobType = JobType_NONE\<rparr>"

text \<open>Nothing queued; the packet at 196656 was just received.\<close>

definition submit1 :: "TlsMemoryPool SubmitState" where
  "submit1 = \<lparr>su_processing = False, su_queue = new_SessionJobQueue ROLE_SERVER,
     su_ready = \<lparr>rq_queue = [None, None], rq_capacity = 2, rq_head = 0, rq_tail = 0, rq_count = 0, rq_stopFlag = False\<rparr>,
     su_world = \<lparr>jw_send = world0, jw_jobPool = pool0, jw_jobs = (\<lambda>_. None), jw_calls = [], jw_violations = 0\<rparr>\<rparr>"

definition submitted1 :: "bool \<times> TlsMemoryPool SubmitState" where
  "submitted1 = SubmitPacketJob (tls_acquire os0 True 2) (tls_release True 2) junk1 parts1 (Some 1) 1000 (Some 196656) 100 submit1"

lemma submit1_inv: "tls_jobs_inv (su_world submit1)" "job_holds (su_world submit1) a = None"
  "196656 \<in> payloads (jw_packetPool (su_world submit1))" "jq_inv (su_queue submit1, su_world submit1)"
  "jq_contents (su_queue submit1, su_world submit1) = []" "rq_inv (su_ready submit1)" "rq_room (su_ready submit1)"
proof -
  have p: "jw_packetPool (su_world submit1) = pool1" by (simp add: submit1_def world0_def)
  show h: "job_holds (su_world submit1) a = None" for a by (simp add: submit1_def job_holds_def)
  show "196656 \<in> payloads (jw_packetPool (su_world submit1))" by (simp add: p pool1_ok)
  show "tls_jobs_inv (su_world submit1)"
    unfolding jobs_inv_def h p by (simp add: pool1_ok pool0_ok submit1_def)
  have "jq_inv (su_queue submit1, su_world submit1) \<and> jq_contents (su_queue submit1, su_world submit1) = []"
    by (rule jq_invI) (simp_all add: submit1_def new_SessionJobQueue_def)
  then show "jq_inv (su_queue submit1, su_world submit1)" "jq_contents (su_queue submit1, su_world submit1) = []" by simp_all
qed (simp_all add: submit1_def rq_inv_def rq_room_def)

lemma handler1: "GetHandler (the (sv_packetHandlerTable parts1)) 1000 = Some 5"
  by (simp add: parts1_def GetHandler_def empty_handler_table_def MAX_PACKET_ID_def)

definition jobpool1 :: TlsMemoryPool where "jobpool1 = snd (Acquire os0 True 2 pool0 64)"

lemma job1: "Acquire os0 True 2 pool0 64 = (Some 196656, jobpool1)"
proof -
  have "fst (Acquire os0 True 2 pool0 64) = Some 196656" by code_simp
  then show ?thesis unfolding jobpool1_def by (metis prod.collapse)
qed

definition jobworld1 :: "TlsMemoryPool JobWorld" where
  "jobworld1 = set_job 196656 junk1 ((su_world submit1)\<lparr>jw_jobPool := jobpool1\<rparr>)"

lemma CreateJob1: "CreateJob (tls_acquire os0 True 2) junk1 (su_world submit1) = (Some 196656, jobworld1)"
proof -
  have "jw_jobPool (su_world submit1) = pool0" by (simp add: submit1_def)
  then show ?thesis by (simp add: CreateJob_def job1 jobworld1_def)
qed

lemma submitted1_facts:
  "fst submitted1" "jq_sessionRole (su_queue (snd submitted1)) = ROLE_SERVER" "jw_calls (su_world (snd submitted1)) = []"
proof -
  have s: "sv_packetHandlerTable parts1 = Some (empty_handler_table[1000 := Some 5])" "sv_jobMemoryPool parts1" "sv_readySessionQueue parts1"
    by (simp_all add: parts1_def)
  let ?j = "SetPacketJob JobType_PACKET (Some 5) (the (Some 1)) 1000 (Some 196656) 100 (job_at jobworld1 196656)"
  obtain ok e q w where E: "EnqueueJob (Some 196656) (su_queue submit1, set_job 196656 ?j jobworld1) = ((ok, e), q, w)"
    by (metis prod.exhaust)
  then have e: "ok" "jq_sessionRole q = ROLE_SERVER" "jw_calls w = []"
    by (auto simp: EnqueueJob_def submit1_def new_SessionJobQueue_def Let_def jobworld1_def)
  show "fst submitted1" "jq_sessionRole (su_queue (snd submitted1)) = ROLE_SERVER" "jw_calls (su_world (snd submitted1)) = []"
    unfolding submitted1_def SubmitPacketJob_def Let_def CreateJob1 handler1 option.case prod.case E
    using s e by (simp_all split: prod.split bool.split)
qed

section \<open>Properties\<close>

text \<open>
  C18. \<open>SubmitPacketJob\<close> owns the packet it is given, on every branch, also when it is called without a session or a packet or on a server
  that is not set up. When it accepts, it was given a session and a packet, exactly one new job is at the end of the session's queue, and it holds the
  packet and will call the registered handler with it. If the session was scheduled already, nothing else changes; if not and the ring has room,
  the session is appended to the ring and its flag set; if the ring is full, the job stays queued with the flag clear, so the next packet tries
  again. When it refuses, the packet (if there is one and the server has its pools) is back in its pool, no job block stays
  behind, and queue, ring and flag are as before.
\<close>

theorem SubmitPacketJob_owns_packet:
  assumes "tls_jobs_inv (su_world st)"
    and "\<And>p. packetData = Some p \<Longrightarrow> p \<in> payloads (jw_packetPool (su_world st)) \<and> (\<forall>a. job_holds (su_world st) a \<noteq> Some p)"
    and "jq_inv (su_queue st, su_world st)" and "set (jq_contents (su_queue st, su_world st)) \<subseteq> dom (jw_jobs (su_world st))"
    and "rq_inv (su_ready st)"
    and "SubmitPacketJob (tls_acquire os al tid) (tls_release al tid) junk sv session pid packetData sz st = (ok, st')"
  shows "tls_jobs_inv (su_world st') \<and> jq_inv (su_queue st', su_world st') \<and>
    (if ok then jw_send (su_world st') = jw_send (su_world st) \<and>
       (\<exists>s p a. session = Some s \<and> packetData = Some p \<and> a \<notin> payloads (jw_jobPool (su_world st)) \<and>
         payloads (jw_jobPool (su_world st')) = insert a (payloads (jw_jobPool (su_world st))) \<and>
         submitted sv s pid p sz st a st')
     else payloads (jw_packetPool (su_world st')) = payloads (jw_packetPool (su_world st)) - dropped sv packetData \<and>
       payloads (jw_jobPool (su_world st')) = payloads (jw_jobPool (su_world st)) \<and>
       jw_jobs (su_world st') = jw_jobs (su_world st) \<and> su_queue st' = su_queue st \<and> su_ready st' = su_ready st \<and>
       su_processing st' = su_processing st)"
  using tls.SubmitPacketJob_inv [OF assms] .

lemma SubmitPacketJob_owns_packet_witness:
  "\<exists>st a. submitted1 = (True, st) \<and> jq_contents (su_queue st, su_world st) = [a] \<and> job_holds (su_world st) a = Some 196656 \<and>
     rq_contents (su_ready st) = [1] \<and> su_processing st"
proof -
  obtain st where E: "submitted1 = (True, st)" using submitted1_facts(1) by (metis prod.collapse)
  have r: "rq_contents (su_ready submit1) = []" "\<not> su_processing submit1" by (simp_all add: submit1_def rq_contents_def)
  have d: "set (jq_contents (su_queue submit1, su_world submit1)) \<subseteq> dom (jw_jobs (su_world submit1))" by (simp add: submit1_inv(5))
  have n: "p \<in> payloads (jw_packetPool (su_world submit1)) \<and> (\<forall>a. job_holds (su_world submit1) a \<noteq> Some p)"
    if "Some 196656 = Some p" for p using that submit1_inv(2,3) by simp
  note S = SubmitPacketJob_owns_packet [OF submit1_inv(1) n submit1_inv(4) d submit1_inv(6) E [unfolded submitted1_def]]
  then obtain a where "submitted parts1 1 1000 196656 100 submit1 a st" by auto
  then show ?thesis using E r submit1_inv(5,7) by (auto simp: submitted_def)
qed

text \<open>
  A worker that drains a session runs each queued job exactly once, in the order of arrival, and gives back everything: the queue is empty,
  the job blocks and the packets the jobs held are back in their pools and nothing else was released; as many rounds as there are jobs, and
  one, are enough.
\<close>

theorem drain_runs_each_job_once:
  assumes "tls_jobs_inv w" and "jq_inv (q, w)" and "set (jq_contents (q, w)) \<subseteq> dom (jw_jobs w)"
    and "jq_sessionRole q = ROLE_SERVER" and "length (jq_contents (q, w)) < n"
    and "drain_session n (tls_release al tid) (q, w) = (ok, q', w')"
  shows "ok \<and> jq_inv (q', w') \<and> jq_contents (q', w') = [] \<and> tls_jobs_inv w' \<and>
    jw_calls w' = jw_calls w @ calls_of w (jq_contents (q, w)) \<and>
    payloads (jw_jobPool w') = payloads (jw_jobPool w) - set (jq_contents (q, w)) \<and>
    payloads (jw_packetPool w') = payloads (jw_packetPool w) - packets_of w (jq_contents (q, w)) \<and>
    jw_violations w' = jw_violations w"
  using tls.drain_all [OF assms(1,2) refl assms(3-6)] by blast

lemma drain_runs_each_job_once_witness:
  "\<exists>st q w. submitted1 = (True, st) \<and> drain_session 2 (tls_release True 2) (su_queue st, su_world st) = (True, q, w) \<and>
     196656 \<in> payloads (jw_packetPool (su_world st)) \<and> 196656 \<notin> payloads (jw_packetPool w) \<and> length (jw_calls w) = 1"
proof -
  obtain st where E: "submitted1 = (True, st)" using submitted1_facts(1) by (metis prod.collapse)
  have d0: "set (jq_contents (su_queue submit1, su_world submit1)) \<subseteq> dom (jw_jobs (su_world submit1))" by (simp add: submit1_inv(5))
  have n: "p \<in> payloads (jw_packetPool (su_world submit1)) \<and> (\<forall>a. job_holds (su_world submit1) a \<noteq> Some p)"
    if "Some 196656 = Some p" for p using that submit1_inv(2,3) by simp
  from tls.SubmitPacketJob_inv [OF submit1_inv(1) n submit1_inv(4) d0 submit1_inv(6) E [unfolded submitted1_def]]
  obtain a where i: "tls_jobs_inv (su_world st)" "jq_inv (su_queue st, su_world st)" "jw_send (su_world st) = jw_send (su_world submit1)"
    "submitted parts1 1 1000 196656 100 submit1 a st" by auto
  then have c: "jq_contents (su_queue st, su_world st) = [a]" "job_holds (su_world st) a = Some 196656"
    "Execute (job_at (su_world st) a) \<noteq> None" using submit1_inv(5) by (simp_all add: submitted_def)
  then have "a \<in> dom (jw_jobs (su_world st))" by (auto simp: job_holds_def split: option.splits)
  then have d: "set (jq_contents (su_queue st, su_world st)) \<subseteq> dom (jw_jobs (su_world st))" using c by simp
  have r: "jq_sessionRole (su_queue st) = ROLE_SERVER" using submitted1_facts(2) by (simp add: E)
  have jc: "jw_calls (su_world st) = []" using submitted1_facts(3) by (simp add: E)
  obtain ok q w where D: "drain_session 2 (tls_release True 2) (su_queue st, su_world st) = (ok, q, w)" by (metis prod.exhaust)
  have "length (jq_contents (su_queue st, su_world st)) < 2" by (simp add: c)
  note S = drain_runs_each_job_once [OF i(1,2) d r this D]
  then have ok: "ok" and calls: "jw_calls w = calls_of (su_world st) [a]" and
    pk: "payloads (jw_packetPool w) = payloads (jw_packetPool (su_world st)) - packets_of (su_world st) [a]"
    unfolding c(1) jc by simp_all
  have "drain_session 2 (tls_release True 2) (su_queue st, su_world st) = (True, q, w)" using D ok by simp
  moreover have "length (jw_calls w) = 1" using calls c(3) by (auto simp: calls_of_def)
  moreover have "196656 \<notin> payloads (jw_packetPool w)" using pk c(2) by (simp add: packets_of_def)
  moreover have "196656 \<in> payloads (jw_packetPool (su_world st))" using i(3) submit1_inv(3) by simp
  ultimately show ?thesis by (intro exI [of _ st] exI [of _ q] exI [of _ w] conjI E)
qed

end
