(* ===== verification/ReadyProtocol.thy ===== *)
theory ReadyProtocol
  imports JobQueue "HOL-Library.Sublist"
begin

text \<open>
  Scheduling sessions with many threads: producers run \<open>IOCPServer::SubmitPacketJob\<close>, workers run
  \<open>ReadySessionScheduler::WorkerThreadLoop\<close>. A step is one critical section or one interlocked operation: the
  lock of a job queue, the lock of the ready ring, the compare-and-swap on \<open>m_processing\<close>, its reset. The ring is the
  one of \<open>JobQueue\<close>; a job queue is its contents (\<open>jq\<close> shows that it is first-in first-out). A disconnect recycles the session:
  \<open>ClientSession::ResetSession\<close> clears the flag and discards the queued jobs, whatever the workers are doing.
\<close>

section \<open>Threads and steps\<close>

text \<open>
  Where a thread is: \<open>Enqueued s\<close> has queued a job for \<open>s\<close> and is before the compare-and-swap, \<open>Pushing s\<close> has won
  it, \<open>PushFailed s\<close> found the ring full, \<open>Draining s\<close> is at the head of the inner loop, \<open>Running s j\<close> executes \<open>j\<close>, \<open>Drained s\<close>
  found the queue empty, \<open>Checking s\<close> has cleared the flag, \<open>Rechecking s\<close> found a new job.
\<close>

datatype pc = Idle | Enqueued nat | Pushing nat | PushFailed nat | Draining nat | Running nat nat
  | Drained nat | Checking nat | Rechecking nat

text \<open>
  Threads below \<open>sc_workers\<close> are workers, the others producers. \<open>sc_added\<close> and \<open>sc_done\<close> record the jobs of a session
  in the order they were queued and executed, \<open>sc_dropped\<close> those that were discarded when it was recycled.
\<close>

record Sched =
  sc_workers :: nat
  sc_jobs :: "nat \<Rightarrow> nat list"
  sc_processing :: "nat \<Rightarrow> bool"
  sc_ready :: ReadySessionQueue
  sc_pc :: "nat \<Rightarrow> pc"
  sc_added :: "nat \<Rightarrow> nat list"
  sc_done :: "nat \<Rightarrow> nat list"
  sc_dropped :: "nat \<Rightarrow> nat list"

abbreviation sessions :: "Sched \<Rightarrow> nat" where
  "sessions st \<equiv> length (rq_queue (sc_ready st))"

definition set_pc :: "nat \<Rightarrow> pc \<Rightarrow> Sched \<Rightarrow> Sched" where
  "set_pc t p st = st\<lparr>sc_pc := (sc_pc st)(t := p)\<rparr>"

definition set_flag :: "nat \<Rightarrow> bool \<Rightarrow> Sched \<Rightarrow> Sched" where
  "set_flag s b st = st\<lparr>sc_processing := (sc_processing st)(s := b)\<rparr>"

text \<open>The start of \<open>SubmitPacketJob\<close>: \<open>EnqueueJob\<close> of a new job.\<close>

inductive arrive :: "Sched \<Rightarrow> Sched \<Rightarrow> bool" where
  enqueue: "sc_pc st t = Idle \<Longrightarrow> sc_workers st \<le> t \<Longrightarrow> s < sessions st \<Longrightarrow>
    arrive st (set_pc t (Enqueued s) (st\<lparr>sc_jobs := (sc_jobs st)(s := sc_jobs st s @ [j]),
      sc_added := (sc_added st)(s := sc_added st s @ [j])\<rparr>))"

text \<open>
  Its end, which the worker's loop repeats: \<open>IsProcessingReady\<close>, \<open>Push\<close>, and \<open>UpdateProcessingFlag(0)\<close> when the ring is full.
\<close>

inductive schedule :: "Sched \<Rightarrow> Sched \<Rightarrow> bool" where
  cas_won: "sc_pc st t \<in> {Enqueued s, Rechecking s} \<Longrightarrow> \<not> sc_processing st s \<Longrightarrow>
    schedule st (set_pc t (Pushing s) (set_flag s True st))"
| cas_lost: "sc_pc st t \<in> {Enqueued s, Rechecking s} \<Longrightarrow> sc_processing st s \<Longrightarrow> schedule st (set_pc t Idle st)"
| push_ok: "sc_pc st t = Pushing s \<Longrightarrow> rq_Push s (sc_ready st) = (True, r) \<Longrightarrow>
    schedule st (set_pc t Idle (st\<lparr>sc_ready := r\<rparr>))"
| push_full: "sc_pc st t = Pushing s \<Longrightarrow> rq_Push s (sc_ready st) = (False, r) \<Longrightarrow>
    schedule st (set_pc t (PushFailed s) (st\<lparr>sc_ready := r\<rparr>))"
| unflag: "sc_pc st t = PushFailed s \<Longrightarrow> schedule st (set_pc t Idle (set_flag s False st))"

text \<open>\<open>WorkerThreadLoop\<close>.\<close>

inductive worker :: "Sched \<Rightarrow> Sched \<Rightarrow> bool" where
  pop: "sc_pc st t = Idle \<Longrightarrow> t < sc_workers st \<Longrightarrow> rq_Pop False (sc_ready st) = (Returns (Some s), r) \<Longrightarrow>
    worker st (set_pc t (Draining s) (st\<lparr>sc_ready := r\<rparr>))"
| dequeue: "sc_pc st t = Draining s \<Longrightarrow> sc_jobs st s = j # js \<Longrightarrow>
    worker st (set_pc t (Running s j) (st\<lparr>sc_jobs := (sc_jobs st)(s := js)\<rparr>))"
| executed: "sc_pc st t = Running s j \<Longrightarrow>
    worker st (set_pc t (Draining s) (st\<lparr>sc_done := (sc_done st)(s := sc_done st s @ [j])\<rparr>))"
| empty: "sc_pc st t = Draining s \<Longrightarrow> sc_jobs st s = [] \<Longrightarrow> worker st (set_pc t (Drained s) st)"
| clear: "sc_pc st t = Drained s \<Longrightarrow> worker st (set_pc t (Checking s) (set_flag s False st))"
| check_empty: "sc_pc st t = Checking s \<Longrightarrow> sc_jobs st s = [] \<Longrightarrow> worker st (set_pc t Idle st)"
| check_more: "sc_pc st t = Checking s \<Longrightarrow> sc_jobs st s \<noteq> [] \<Longrightarrow> worker st (set_pc t (Rechecking s) st)"

text \<open>
  What \<open>ClientSession::ResetSession\<close>, called when a released session goes back to its pool, does to the scheduler's state: it
  stores 0 in the flag, and then it empties the job queue. Nothing keeps it from doing so while the ring or a worker has the session, since
  neither holds an I/O count.
\<close>

definition clear_jobs :: "nat \<Rightarrow> Sched \<Rightarrow> Sched" where
  "clear_jobs s st = st\<lparr>sc_jobs := (sc_jobs st)(s := []), sc_dropped := (sc_dropped st)(s := sc_dropped st s @ sc_jobs st s)\<rparr>"

definition reset_session :: "nat \<Rightarrow> Sched \<Rightarrow> Sched" where
  "reset_session s st = clear_jobs s (set_flag s False st)"

inductive recycle :: "Sched \<Rightarrow> Sched \<Rightarrow> bool" where
  reset_flag: "recycle st (set_flag s False st)"
| reset_jobs: "recycle st (clear_jobs s st)"

definition work_step :: "Sched \<Rightarrow> Sched \<Rightarrow> bool" where
  "work_step st st' \<longleftrightarrow> arrive st st' \<or> schedule st st' \<or> worker st st'"

text \<open>
  A step of the server: packets arrive, threads work, and sessions are recycled at any time. A calm step recycles no session whose flag
  is set: the store of 0 then changes nothing, and the jobs may be discarded at any time.
\<close>

definition sched_step :: "Sched \<Rightarrow> Sched \<Rightarrow> bool" where
  "sched_step st st' \<longleftrightarrow> work_step st st' \<or> recycle st st'"

definition calm_step :: "Sched \<Rightarrow> Sched \<Rightarrow> bool" where
  "calm_step st st' \<longleftrightarrow> work_step st st' \<or> recycle st st' \<and> sc_processing st' = sc_processing st"

text \<open>A started server: all sessions idle, all threads idle, a ring with room for every session.\<close>

definition sched_init :: "nat \<Rightarrow> u32 \<Rightarrow> Sched \<Rightarrow> bool" where
  "sched_init n maxSessionCount st \<longleftrightarrow> sc_workers st = n \<and> (\<forall>s. sc_jobs st s = [] \<and> \<not> sc_processing st s) \<and>
     (\<forall>t. sc_pc st t = Idle) \<and> (\<forall>s. sc_added st s = [] \<and> sc_done st s = [] \<and> sc_dropped st s = []) \<and>
     rq_Initialize True maxSessionCount new_ReadySessionQueue = (True, sc_ready st) \<and> unat maxSessionCount < 2 ^ 31"

section \<open>The invariant\<close>

text \<open>The session whose processing token a thread holds, and the session a thread will still look at.\<close>

fun token :: "pc \<Rightarrow> nat option" where
  "token (Pushing s) = Some s" | "token (PushFailed s) = Some s" | "token (Draining s) = Some s"
| "token (Running s j) = Some s" | "token (Drained s) = Some s" | "token _ = None"

fun looking :: "pc \<Rightarrow> nat option" where
  "looking (Enqueued s) = Some s" | "looking (Checking s) = Some s" | "looking (Rechecking s) = Some s" | "looking _ = None"

text \<open>
  The token of a session is in one place: its flag is set exactly when the ring \<open>rs\<close> or one thread has it.
\<close>

definition tok_inv :: "nat \<Rightarrow> nat list \<Rightarrow> (nat \<Rightarrow> bool) \<Rightarrow> (nat \<Rightarrow> nat option) \<Rightarrow> bool" where
  "tok_inv cap rs pr tok \<longleftrightarrow> distinct rs \<and> set rs \<union> ran tok \<subseteq> {..<cap} \<and> set rs \<inter> ran tok = {} \<and>
     (\<forall>s. pr s \<longleftrightarrow> s \<in> set rs \<union> ran tok) \<and> inj_on tok (dom tok)"

lemma inj_gain: "inj_on f (dom f) \<Longrightarrow> f t = None \<Longrightarrow> s \<notin> ran f \<Longrightarrow> inj_on (f(t \<mapsto> s)) (dom (f(t \<mapsto> s)))"
  by (auto simp: inj_on_def ran_def)

lemma inj_drop: "inj_on f (dom f) \<Longrightarrow> inj_on (f(t := None)) (dom (f(t := None)))"
  by (auto simp: inj_on_def)

lemma ran_drop: "inj_on f (dom f) \<Longrightarrow> f t = Some s \<Longrightarrow> ran (f(t := None)) = ran f - {s}"
proof -
  assume i: "inj_on f (dom f)" and t: "f t = Some s"
  have "a = t" if "f a = Some s" for a using inj_onD [OF i, of a t] that t by (simp add: dom_def)
  then have "f a \<noteq> Some s" if "a \<noteq> t" for a using that by blast
  then show ?thesis using t by (intro set_eqI) (auto simp: ran_def; metis option.inject)
qed

lemma tok_gain:
  assumes "tok_inv cap rs pr tok" and "\<not> pr s" and "s < cap" and "tok t = None"
  shows "tok_inv cap rs (pr(s := True)) (tok(t \<mapsto> s))"
proof -
  have "s \<notin> ran tok" using assms unfolding tok_inv_def by blast
  then show ?thesis using assms inj_gain [of tok t s] unfolding tok_inv_def by simp
qed

lemma tok_drop:
  assumes "tok_inv cap rs pr tok" and "tok t = Some s"
  shows "tok_inv cap rs (pr(s := False)) (tok(t := None))"
proof -
  have "s \<in> ran tok" using assms(2) by (rule ranI)
  then show ?thesis using assms(1) inj_drop [of tok t] ran_drop [of tok t s] assms(2) unfolding tok_inv_def by auto
qed

lemma tok_push:
  assumes "tok_inv cap rs pr tok" and "tok t = Some s"
  shows "tok_inv cap (rs @ [s]) pr (tok(t := None))"
proof -
  have "s \<in> ran tok" using assms(2) by (rule ranI)
  then show ?thesis using assms(1) inj_drop [of tok t] ran_drop [of tok t s] assms(2) unfolding tok_inv_def by auto
qed

lemma tok_pop:
  assumes "tok_inv cap (s # rs) pr tok" and "tok t = None"
  shows "tok_inv cap rs pr (tok(t \<mapsto> s))"
proof -
  have "s \<notin> ran tok" using assms unfolding tok_inv_def by auto
  then show ?thesis using assms inj_gain [of tok t s] unfolding tok_inv_def by auto
qed

text \<open>A thread that holds a token leaves room for it in the ring.\<close>

lemma tok_room:
  assumes "tok_inv cap rs pr tok" and "tok t = Some s"
  shows "length rs < cap"
proof -
  have "s \<in> ran tok" using assms(2) by (rule ranI)
  then have s: "s \<notin> set rs" "insert s (set rs) \<subseteq> {..<cap}" and d: "distinct rs"
    using assms(1) unfolding tok_inv_def by auto
  have "card (insert s (set rs)) \<le> card {..<cap}" by (rule card_mono [OF finite_lessThan s(2)])
  with s(1) d show ?thesis by (simp add: distinct_card)
qed

definition tokens_ok :: "Sched \<Rightarrow> bool" where
  "tokens_ok st \<longleftrightarrow> rq_inv (sc_ready st) \<and>
     tok_inv (sessions st) (rq_contents (sc_ready st)) (sc_processing st) (token \<circ> sc_pc st) \<and>
     (\<forall>t s. looking (sc_pc st t) = Some s \<longrightarrow> s < sessions st) \<and> (\<forall>t s. sc_pc st t \<noteq> PushFailed s)"

text \<open>
  \<open>kept xs ds as\<close>: of the jobs \<open>as\<close> that were queued, \<open>xs\<close> are left in their order and \<open>ds\<close> were discarded, each job once.
\<close>

definition kept :: "nat list \<Rightarrow> nat list \<Rightarrow> nat list \<Rightarrow> bool" where
  "kept xs ds as \<longleftrightarrow> subseq xs as \<and> mset as = mset xs + mset ds"

lemma kept_Nil [simp]: "kept [] [] []"
  by (simp add: kept_def)

lemma kept_add: "kept xs ds as \<Longrightarrow> kept (xs @ [j]) ds (as @ [j])"
  by (auto simp: kept_def intro: list_emb_append_mono)

lemma kept_drop: "kept (xs @ ys) ds as \<Longrightarrow> kept xs (ds @ ys) as"
  by (auto simp: kept_def intro: subseq_order.trans [of xs "xs @ ys"] prefix_imp_subseq)

lemma kept_all: "kept xs [] as \<Longrightarrow> xs = as"
  by (auto simp: kept_def dest!: mset_eq_length intro: subseq_same_length)

text \<open>Queued jobs are not forgotten, and a session's jobs are executed in order.\<close>

definition jobs_ok :: "Sched \<Rightarrow> bool" where
  "jobs_ok st \<longleftrightarrow>
     (\<forall>s. sc_jobs st s \<noteq> [] \<longrightarrow> sc_processing st s \<or> (\<exists>t. looking (sc_pc st t) = Some s)) \<and>
     (\<forall>t s j. sc_pc st t = Running s j \<longrightarrow> kept (sc_done st s @ j # sc_jobs st s) (sc_dropped st s) (sc_added st s)) \<and>
     (\<forall>s. (\<forall>t j. sc_pc st t \<noteq> Running s j) \<longrightarrow> kept (sc_done st s @ sc_jobs st s) (sc_dropped st s) (sc_added st s))"

lemma set_pc_sels [simp]:
  "sc_pc (set_pc t p st) = (sc_pc st)(t := p)" "sc_jobs (set_pc t p st) = sc_jobs st"
  "sc_processing (set_pc t p st) = sc_processing st" "sc_ready (set_pc t p st) = sc_ready st"
  "sc_added (set_pc t p st) = sc_added st" "sc_done (set_pc t p st) = sc_done st" "sc_dropped (set_pc t p st) = sc_dropped st" "sc_workers (set_pc t p st) = sc_workers st"
  "sc_pc (set_flag s b st) = sc_pc st" "sc_jobs (set_flag s b st) = sc_jobs st"
  "sc_processing (set_flag s b st) = (sc_processing st)(s := b)" "sc_ready (set_flag s b st) = sc_ready st"
  "sc_added (set_flag s b st) = sc_added st" "sc_done (set_flag s b st) = sc_done st" "sc_dropped (set_flag s b st) = sc_dropped st" "sc_workers (set_flag s b st) = sc_workers st"
  by (simp_all add: set_pc_def set_flag_def)

lemma tokens_okI:
  assumes "rq_inv (sc_ready st')" and "tok_inv (sessions st') (rq_contents (sc_ready st')) (sc_processing st') ((token \<circ> sc_pc st)(t := token p))"
    and "sc_pc st' = (sc_pc st)(t := p)" and "tokens_ok st" and "sessions st' = sessions st"
    and "\<And>s. looking p = Some s \<Longrightarrow> s < sessions st" and "\<And>s. p \<noteq> PushFailed s"
  shows "tokens_ok st'"
  using assms unfolding tokens_ok_def by (simp add: fun_upd_comp)

lemma tokens_okD:
  assumes "tokens_ok st"
  shows "rq_inv (sc_ready st)"
    and "tok_inv (sessions st) (rq_contents (sc_ready st)) (sc_processing st) (token \<circ> sc_pc st)"
    and "looking (sc_pc st t) = Some s \<Longrightarrow> s < sessions st" and "sc_pc st t \<noteq> PushFailed s"
    and "token (sc_pc st t) = Some s \<Longrightarrow> s < sessions st"
proof -
  show I: "rq_inv (sc_ready st)"
    "tok_inv (sessions st) (rq_contents (sc_ready st)) (sc_processing st) (token \<circ> sc_pc st)"
    "looking (sc_pc st t) = Some s \<Longrightarrow> s < sessions st" "sc_pc st t \<noteq> PushFailed s"
    using assms unfolding tokens_ok_def by blast+
  assume "token (sc_pc st t) = Some s"
  then have "s \<in> ran (token \<circ> sc_pc st)" by (auto intro: ranI [of _ t])
  with I(2) show "s < sessions st" unfolding tok_inv_def by auto
qed

lemma tokens_stay:
  assumes "tokens_ok st" and "token p = token (sc_pc st t)" and "looking p = looking (sc_pc st t) \<or> looking p = None \<or> (\<exists>s. looking p = Some s \<and> s < sessions st)"
    and "\<And>s. p \<noteq> PushFailed s" and "sc_ready st' = sc_ready st" "sc_processing st' = sc_processing st" "sc_pc st' = (sc_pc st)(t := p)"
  shows "tokens_ok st'"
proof (rule tokens_okI [where st = st and t = t and p = p])
  have "(token \<circ> sc_pc st)(t := token p) = token \<circ> sc_pc st" using assms(2) by auto
  then show "tok_inv (sessions st') (rq_contents (sc_ready st')) (sc_processing st') ((token \<circ> sc_pc st)(t := token p))"
    using tokens_okD(2) [OF assms(1)] assms(5,6) by simp
qed (use assms tokens_okD [OF assms(1)] in auto)

lemma arrive_tokens: "arrive st st' \<Longrightarrow> tokens_ok st \<Longrightarrow> tokens_ok st'"
proof (induction rule: arrive.induct)
  case (enqueue st t s j)
  show ?case by (rule tokens_stay [where st = st and t = t and p = "Enqueued s"]) (use enqueue in \<open>simp_all\<close>)
qed

lemma schedule_tokens: "schedule st st' \<Longrightarrow> tokens_ok st \<Longrightarrow> tokens_ok st'"
proof (induction rule: schedule.induct)
  case (cas_won st t s)
  note I = tokens_okD [OF cas_won(3)]
  have "(token \<circ> sc_pc st) t = None" and s: "s < sessions st" using cas_won(1) I(3) [of t s] by auto
  then have "tok_inv (sessions st) (rq_contents (sc_ready st)) ((sc_processing st)(s := True)) ((token \<circ> sc_pc st)(t \<mapsto> s))"
    using tok_gain [OF I(2) cas_won(2)] by blast
  then show ?case
    by (intro tokens_okI [OF _ _ _ cas_won(3), where t = t and p = "Pushing s"]) (use I(1) s in simp_all)
next
  case (cas_lost st t s)
  show ?case by (rule tokens_stay [where st = st and t = t and p = Idle]) (use cas_lost in \<open>auto\<close>)
next
  case (push_ok st t s r)
  note I = tokens_okD [OF push_ok(3)]
  note p = rq_Push_spec [OF I(1) push_ok(2)]
  have "(token \<circ> sc_pc st) t = Some s" using push_ok(1) by simp
  from tok_push [OF I(2) this] p show ?case
    by (intro tokens_okI [OF _ _ _ push_ok(3), where t = t and p = Idle]) (simp_all add: comp_def)
next
  case (push_full st t s r)
  note I = tokens_okD [OF push_full(3)]
  have "(token \<circ> sc_pc st) t = Some s" using push_full(1) by simp
  from tok_room [OF I(2) this] have "rq_room (sc_ready st)" by (simp add: rq_room_def rq_contents_def)
  with rq_Push_spec [OF I(1) push_full(2)] show ?case by simp
next
  case (unflag st t s)
  with tokens_okD(4) [OF unflag(2), of t s] show ?case by simp
qed

lemma worker_tokens: "worker st st' \<Longrightarrow> tokens_ok st \<Longrightarrow> tokens_ok st'"
proof (induction rule: worker.induct)
  case (pop st t s r)
  note I = tokens_okD [OF pop(4)]
  have T: "rq_take (sc_ready st) = (Some s, r)" using pop(3) by (auto simp: rq_Pop_def split: if_splits prod.splits)
  from rq_take_spec [OF I(1) T] have r: "rq_inv r" "rq_contents (sc_ready st) = s # rq_contents r"
    "length (rq_queue r) = length (rq_queue (sc_ready st))" by (auto split: list.splits)
  have "(token \<circ> sc_pc st) t = None" using pop(1) by simp
  from tok_pop [OF I(2) [unfolded r(2)] this] r show ?case
    by (intro tokens_okI [OF _ _ _ pop(4), where t = t and p = "Draining s"]) (simp_all add: comp_def)
next
  case (clear st t s)
  note I = tokens_okD [OF clear(2)]
  have "(token \<circ> sc_pc st) t = Some s" using clear(1) by simp
  have s: "s < sessions st" using I(5) [of t s] clear(1) by simp
  from tok_drop [OF I(2) \<open>(token \<circ> sc_pc st) t = Some s\<close>] I(1) s show ?case
    by (intro tokens_okI [OF _ _ _ clear(2), where t = t and p = "Checking s"]) (simp_all add: comp_def)
next
  case (check_more st t s)
  show ?case by (rule tokens_stay [where st = st and t = t and p = "Rechecking s"]) (use check_more in \<open>simp_all\<close>)
next
  case (dequeue st t s j js)
  show ?case by (rule tokens_stay [where st = st and t = t and p = "Running s j"]) (use dequeue in \<open>simp_all\<close>)
next
  case (executed st t s j)
  show ?case by (rule tokens_stay [where st = st and t = t and p = "Draining s"]) (use executed in \<open>simp_all\<close>)
next
  case (empty st t s)
  show ?case by (rule tokens_stay [where st = st and t = t and p = "Drained s"]) (use empty in \<open>simp_all\<close>)
next
  case (check_empty st t s)
  show ?case by (rule tokens_stay [where st = st and t = t and p = Idle]) (use check_empty in \<open>simp_all\<close>)
qed

text \<open>Only one thread at a time executes a job of a session.\<close>

lemma one_token:
  assumes "tokens_ok st" and "token (sc_pc st t) = Some s" and "token (sc_pc st t') = Some s"
  shows "t = t'"
proof -
  have "inj_on (token \<circ> sc_pc st) (dom (token \<circ> sc_pc st))" using tokens_okD(2) [OF assms(1)] by (simp add: tok_inv_def)
  then show ?thesis by (rule inj_onD) (use assms in auto)
qed

lemma jobs_okD:
  assumes "jobs_ok st"
  shows "sc_jobs st s \<noteq> [] \<Longrightarrow> sc_processing st s \<or> (\<exists>t. looking (sc_pc st t) = Some s)"
    and "sc_pc st t = Running s j \<Longrightarrow> kept (sc_done st s @ j # sc_jobs st s) (sc_dropped st s) (sc_added st s)"
    and "(\<And>t j. sc_pc st t \<noteq> Running s j) \<Longrightarrow> kept (sc_done st s @ sc_jobs st s) (sc_dropped st s) (sc_added st s)"
  using assms unfolding jobs_ok_def by blast+

text \<open>A move of thread \<open>t\<close> to \<open>p\<close> that touches no job.\<close>

lemma jobs_stay:
  assumes J: "jobs_ok st" and pc: "sc_pc st' = (sc_pc st)(t := p)" "\<And>s j. p \<noteq> Running s j" "\<And>s j. sc_pc st t \<noteq> Running s j"
    and eq: "sc_jobs st' = sc_jobs st" "sc_added st' = sc_added st" "sc_done st' = sc_done st" "sc_dropped st' = sc_dropped st"
    and seen: "\<And>s. sc_jobs st s \<noteq> [] \<Longrightarrow> sc_processing st s \<or> looking (sc_pc st t) = Some s \<Longrightarrow>
      sc_processing st' s \<or> looking p = Some s"
  shows "jobs_ok st'"
  unfolding jobs_ok_def eq
proof (intro conjI allI impI)
  fix s assume n: "sc_jobs st s \<noteq> []"
  from jobs_okD(1) [OF J n] consider "sc_processing st s" | t' where "looking (sc_pc st t') = Some s" by blast
  then show "sc_processing st' s \<or> (\<exists>t. looking (sc_pc st' t) = Some s)"
  proof cases
    case 1
    with seen n show ?thesis by (auto simp: pc(1) intro: exI [of _ t])
  next
    case (2 t')
    show ?thesis
    proof (cases "t' = t")
      case True
      with seen n 2 show ?thesis by (auto simp: pc(1) intro: exI [of _ t])
    next
      case False
      with 2 show ?thesis by (auto simp: pc(1) intro: exI [of _ t'])
    qed
  qed
next
  fix t' s j assume "sc_pc st' t' = Running s j"
  then have "sc_pc st t' = Running s j" using pc by (auto split: if_splits)
  then show "kept (sc_done st s @ j # sc_jobs st s) (sc_dropped st s) (sc_added st s)" by (rule jobs_okD(2) [OF J])
next
  fix s assume r: "\<forall>t j. sc_pc st' t \<noteq> Running s j"
  have "sc_pc st t' \<noteq> Running s j" for t' j using r [rule_format, of t' j] pc by (auto split: if_splits)
  then show "kept (sc_done st s @ sc_jobs st s) (sc_dropped st s) (sc_added st s)" by (rule jobs_okD(3) [OF J])
qed

lemma looking_stay: "looking (pc t) = None \<Longrightarrow> \<exists>t. looking (pc t) = Some x \<Longrightarrow> \<exists>t'. looking ((pc(t := p)) t') = Some x"
  by (metis fun_upd_other option.distinct(1))

lemma arrive_jobs:
  assumes "arrive st st'" and "jobs_ok st"
  shows "jobs_ok st'"
  using assms
proof (induction rule: arrive.induct)
  case (enqueue st t s j)
  note J = jobs_okD [OF enqueue(4)]
  let ?st = "set_pc t (Enqueued s) (st\<lparr>sc_jobs := (sc_jobs st)(s := sc_jobs st s @ [j]),
      sc_added := (sc_added st)(s := sc_added st s @ [j])\<rparr>)"
  have old: "sc_pc st t' = p" if "sc_pc ?st t' = p" "\<And>s. p \<noteq> Enqueued s" for t' p
    using that by (auto split: if_splits)
  show ?case
    unfolding jobs_ok_def
  proof (intro conjI allI impI)
    fix x assume "sc_jobs ?st x \<noteq> []"
    then consider "x = s" | "x \<noteq> s" "sc_processing st x" | t' where "x \<noteq> s" "looking (sc_pc st t') = Some x"
      using J(1) [of x] by (cases "x = s") auto
    then show "sc_processing ?st x \<or> (\<exists>t. looking (sc_pc ?st t) = Some x)"
    proof cases
      case (3 t')
      with enqueue(1) have "t' \<noteq> t" by auto
      with 3 show ?thesis by (auto intro: exI [of _ t'])
    qed (auto intro: exI [of _ t])
  next
    fix t' x j' assume "sc_pc ?st t' = Running x j'"
    then have "sc_pc st t' = Running x j'" by (rule old) simp
    from J(2) [OF this] kept_add [OF J(2) [OF this], of j]
    show "kept (sc_done ?st x @ j' # sc_jobs ?st x) (sc_dropped ?st x) (sc_added ?st x)" by auto
  next
    fix x assume r: "\<forall>t j. sc_pc ?st t \<noteq> Running x j"
    have "sc_pc st t' \<noteq> Running x j'" for t' j' using r [rule_format, of t' j'] enqueue(1) by (auto split: if_splits)
    from J(3) [OF this] kept_add [OF J(3) [OF this], of j]
    show "kept (sc_done ?st x @ sc_jobs ?st x) (sc_dropped ?st x) (sc_added ?st x)" by auto
  qed
qed

lemma schedule_jobs:
  assumes "schedule st st'" and "tokens_ok st" and "jobs_ok st"
  shows "jobs_ok st'"
  using assms
proof (induction rule: schedule.induct)
  case (cas_won st t s)
  show ?case by (rule jobs_stay [OF cas_won(4), of _ t "Pushing s"]) (use cas_won in auto)
next
  case (cas_lost st t s)
  show ?case by (rule jobs_stay [OF cas_lost(4), of _ t Idle]) (use cas_lost in auto)
next
  case (push_ok st t s r)
  show ?case by (rule jobs_stay [OF push_ok(4), of _ t Idle]) (use push_ok in auto)
next
  case (push_full st t s r)
  show ?case by (rule jobs_stay [OF push_full(4), of _ t "PushFailed s"]) (use push_full in auto)
next
  case (unflag st t s)
  with tokens_okD(4) [OF unflag(2), of t s] show ?case by simp
qed

lemma worker_jobs:
  assumes "worker st st'" and "tokens_ok st" and "jobs_ok st"
  shows "jobs_ok st'"
  using assms
proof (induction rule: worker.induct)
  case (pop st t s r)
  show ?case by (rule jobs_stay [OF pop(5), of _ t "Draining s"]) (use pop in auto)
next
  case (empty st t s)
  show ?case by (rule jobs_stay [OF empty(4), of _ t "Drained s"]) (use empty in auto)
next
  case (clear st t s)
  show ?case by (rule jobs_stay [OF clear(3), of _ t "Checking s"]) (use clear in auto)
next
  case (check_empty st t s)
  show ?case by (rule jobs_stay [OF check_empty(4), of _ t Idle]) (use check_empty in auto)
next
  case (check_more st t s)
  show ?case by (rule jobs_stay [OF check_more(4), of _ t "Rechecking s"]) (use check_more in auto)
next
  case (dequeue st t s j js)
  note J = jobs_okD [OF dequeue(4)] and one = one_token [OF dequeue(3), of t s]
  have alone: "sc_pc st t' \<noteq> Running s j'" for t' j' using one [of t'] dequeue(1) by auto
  have "sc_jobs st s \<noteq> [] \<Longrightarrow> sc_processing st s"
    using tokens_okD(2) [OF dequeue(3)] dequeue(1) by (auto simp: tok_inv_def intro: ranI [of _ t])
  then have p: "sc_processing st s" using dequeue(2) by simp
  let ?st = "set_pc t (Running s j) (st\<lparr>sc_jobs := (sc_jobs st)(s := js)\<rparr>)"
  show ?case
    unfolding jobs_ok_def
  proof (intro conjI allI impI)
    fix x assume "sc_jobs ?st x \<noteq> []"
    then show "sc_processing ?st x \<or> (\<exists>t. looking (sc_pc ?st t) = Some x)"
      using J(1) [of x] looking_stay [of "sc_pc st" t x "Running s j"] dequeue(1) p
      by (cases "x = s", simp, simp add: fun_upd_other del: fun_upd_apply, blast)
  next
    fix t' x j' assume r: "sc_pc ?st t' = Running x j'"
    show "kept (sc_done ?st x @ j' # sc_jobs ?st x) (sc_dropped ?st x) (sc_added ?st x)"
    proof (cases "t' = t")
      case True
      with r J(3) [OF alone] dequeue(2) show ?thesis by simp
    next
      case False
      with r have "sc_pc st t' = Running x j'" by simp
      with J(2) [OF this] alone [of t' j'] show ?thesis by auto
    qed
  next
    fix x assume r: "\<forall>t j. sc_pc ?st t \<noteq> Running x j"
    then have x: "x \<noteq> s" using r [rule_format, of t j] by auto
    then have "sc_pc st t' \<noteq> Running x j'" for t' j' using r [rule_format, of t' j'] dequeue(1) by (auto split: if_splits)
    from J(3) [OF this] x show "kept (sc_done ?st x @ sc_jobs ?st x) (sc_dropped ?st x) (sc_added ?st x)" by simp
  qed
next
  case (executed st t s j)
  note J = jobs_okD [OF executed(3)] and one = one_token [OF executed(2), of t s]
  let ?st = "set_pc t (Draining s) (st\<lparr>sc_done := (sc_done st)(s := sc_done st s @ [j])\<rparr>)"
  have alone: "t' = t" if "sc_pc st t' = Running s j'" for t' j' using one [of t'] executed(1) that by auto
  show ?case
    unfolding jobs_ok_def
  proof (intro conjI allI impI)
    fix x assume "sc_jobs ?st x \<noteq> []"
    then show "sc_processing ?st x \<or> (\<exists>t. looking (sc_pc ?st t) = Some x)"
      using J(1) [of x] looking_stay [of "sc_pc st" t x "Draining s"] executed(1) by (simp del: fun_upd_apply) blast
  next
    fix t' x j' assume r: "sc_pc ?st t' = Running x j'"
    then have "sc_pc st t' = Running x j'" and "x \<noteq> s" using alone [of t'] by (auto split: if_splits)
    with J(2) [OF this(1)] show "kept (sc_done ?st x @ j' # sc_jobs ?st x) (sc_dropped ?st x) (sc_added ?st x)" by simp
  next
    fix x assume r: "\<forall>t j. sc_pc ?st t \<noteq> Running x j"
    show "kept (sc_done ?st x @ sc_jobs ?st x) (sc_dropped ?st x) (sc_added ?st x)"
    proof (cases "x = s")
      case True
      with J(2) [OF executed(1)] show ?thesis by simp
    next
      case False
      then have "sc_pc st t' \<noteq> Running x j'" for t' j' using r [rule_format, of t' j'] executed(1) by (auto split: if_splits)
      from J(3) [OF this] False show ?thesis by simp
    qed
  qed
qed

lemma init_ok:
  assumes "sched_init n m st"
  shows "tokens_ok st \<and> jobs_ok st"
proof -
  have i: "\<And>t. sc_pc st t = Idle" "\<And>s. sc_jobs st s = []" "\<And>s. \<not> sc_processing st s" "\<And>s. sc_added st s = []"
    "\<And>s. sc_done st s = []" "\<And>s. sc_dropped st s = []" using assms by (simp_all add: sched_init_def)
  have r: "rq_inv (sc_ready st)" "rq_contents (sc_ready st) = []"
    using assms rq_Initialize_spec [of m new_ReadySessionQueue "sc_ready st"] by (simp_all add: sched_init_def)
  have "token \<circ> sc_pc st = (\<lambda>_. None)" by (simp add: comp_def i)
  with r i show ?thesis by (simp add: tokens_ok_def jobs_ok_def tok_inv_def)
qed

text \<open>Discarding the jobs of a session keeps both, and so does a store of 0 in a flag that is clear.\<close>

lemma clear_jobs_sels [simp]:
  "sc_pc (clear_jobs s st) = sc_pc st" "sc_processing (clear_jobs s st) = sc_processing st" "sc_ready (clear_jobs s st) = sc_ready st"
  "sc_added (clear_jobs s st) = sc_added st" "sc_done (clear_jobs s st) = sc_done st" "sc_workers (clear_jobs s st) = sc_workers st"
  "sc_jobs (clear_jobs s st) = (sc_jobs st)(s := [])"
  "sc_dropped (clear_jobs s st) = (sc_dropped st)(s := sc_dropped st s @ sc_jobs st s)"
  by (simp_all add: clear_jobs_def)

lemma clear_jobs_jobs:
  assumes "jobs_ok st"
  shows "jobs_ok (clear_jobs s st)"
  unfolding jobs_ok_def
proof (intro conjI allI impI)
  note J = jobs_okD [OF assms]
  show "sc_processing (clear_jobs s st) x \<or> (\<exists>t. looking (sc_pc (clear_jobs s st) t) = Some x)" if "sc_jobs (clear_jobs s st) x \<noteq> []" for x
    using J(1) [of x] that by (simp split: if_splits)
  show "kept (sc_done (clear_jobs s st) x @ j # sc_jobs (clear_jobs s st) x) (sc_dropped (clear_jobs s st) x) (sc_added (clear_jobs s st) x)"
    if "sc_pc (clear_jobs s st) t = Running x j" for t x j
    using J(2) [of t x j] kept_drop [of "sc_done st x @ [j]" "sc_jobs st x" "sc_dropped st x" "sc_added st x"] that by (cases "x = s") auto
  show "kept (sc_done (clear_jobs s st) x @ sc_jobs (clear_jobs s st) x) (sc_dropped (clear_jobs s st) x) (sc_added (clear_jobs s st) x)"
    if "\<forall>t j. sc_pc (clear_jobs s st) t \<noteq> Running x j" for x
    using J(3) [of x] kept_drop [of "sc_done st x" "sc_jobs st x" "sc_dropped st x" "sc_added st x"] that by (cases "x = s") auto
qed

lemma recycle_calm:
  assumes "recycle st st'" and "sc_processing st' = sc_processing st" and "tokens_ok st \<and> jobs_ok st"
  shows "tokens_ok st' \<and> jobs_ok st'"
  using assms
proof (induction rule: recycle.induct)
  case (reset_flag st s)
  then have f: "(sc_processing st)(s := False) = sc_processing st" by (simp only: set_pc_sels)
  have "set_flag s False st = st" by (simp add: set_flag_def f del: fun_upd_apply)
  with reset_flag show ?case by simp
next
  case (reset_jobs st s)
  then show ?case using clear_jobs_jobs by (simp add: tokens_ok_def)
qed

lemma reachable_ok:
  assumes "calm_step\<^sup>*\<^sup>* st st'" and "tokens_ok st \<and> jobs_ok st"
  shows "tokens_ok st' \<and> jobs_ok st'"
  using assms
proof (induction rule: rtranclp_induct)
  case (step y z)
  then show ?case
    using arrive_tokens schedule_tokens worker_tokens arrive_jobs schedule_jobs worker_jobs recycle_calm
    by (auto simp: calm_step_def work_step_def)
qed

section \<open>Termination\<close>

text \<open>
  What a thread has left to do, given whether the session it is about has queued jobs: a thread behind the drain
  still has a round to go when a job has arrived meanwhile.
\<close>

fun pc_weight :: "(nat \<Rightarrow> nat list) \<Rightarrow> pc \<Rightarrow> nat" where
  "pc_weight jobs Idle = 0" | "pc_weight jobs (Enqueued s) = 7" | "pc_weight jobs (Rechecking s) = 7"
| "pc_weight jobs (Pushing s) = 6" | "pc_weight jobs (PushFailed s) = 5" | "pc_weight jobs (Running s j) = 4"
| "pc_weight jobs (Draining s) = 3" | "pc_weight jobs (Drained s) = (if jobs s = [] then 2 else 9)"
| "pc_weight jobs (Checking s) = (if jobs s = [] then 1 else 8)"

definition active :: "Sched \<Rightarrow> nat set" where
  "active st = {t. sc_pc st t \<noteq> Idle}"

definition left_to_do :: "Sched \<Rightarrow> nat" where
  "left_to_do st = (\<Sum>t \<in> active st. pc_weight (sc_jobs st) (sc_pc st t)) +
     10 * (\<Sum>s < sessions st. length (sc_jobs st s)) + 5 * rq_count (sc_ready st)"

lemma left_to_do_on:
  assumes "finite A" and "active st \<subseteq> A"
  shows "left_to_do st = (\<Sum>t \<in> A. pc_weight (sc_jobs st) (sc_pc st t)) +
    10 * (\<Sum>s < sessions st. length (sc_jobs st s)) + 5 * rq_count (sc_ready st)"
proof -
  have "(\<Sum>t \<in> A. pc_weight (sc_jobs st) (sc_pc st t)) = (\<Sum>t \<in> active st. pc_weight (sc_jobs st) (sc_pc st t))"
    using assms by (intro sum.mono_neutral_right) (auto simp: active_def)
  then show ?thesis by (simp add: left_to_do_def)
qed

text \<open>The weights of the other threads do not grow while no job is queued.\<close>

lemma weights_move:
  assumes "finite A" and "t \<in> A" and "\<And>s. jobs s = [] \<Longrightarrow> jobs' s = []"
  shows "(\<Sum>u \<in> A. pc_weight jobs' ((pc(t := p)) u)) + pc_weight jobs (pc t) \<le>
    (\<Sum>u \<in> A. pc_weight jobs (pc u)) + pc_weight jobs' p"
proof -
  have le: "pc_weight jobs' q \<le> pc_weight jobs q" for q using assms(3) by (cases q) auto
  have "(\<Sum>u \<in> A. pc_weight jobs' ((pc(t := p)) u)) = pc_weight jobs' p + (\<Sum>u \<in> A - {t}. pc_weight jobs' (pc u))"
    using assms(1,2) by (subst sum.remove [of A t]) (auto intro: sum.cong)
  moreover have "(\<Sum>u \<in> A - {t}. pc_weight jobs' (pc u)) \<le> (\<Sum>u \<in> A - {t}. pc_weight jobs (pc u))"
    by (intro sum_mono le)
  moreover have "(\<Sum>u \<in> A. pc_weight jobs (pc u)) = pc_weight jobs (pc t) + (\<Sum>u \<in> A - {t}. pc_weight jobs (pc u))"
    using assms(1,2) by (rule sum.remove)
  ultimately show ?thesis by simp
qed

lemma left_to_do_move:
  assumes "finite (active st)" and "sc_pc st' = (sc_pc st)(t := p)" and "sessions st' = sessions st"
    and "\<And>s. sc_jobs st s = [] \<Longrightarrow> sc_jobs st' s = []"
    and "pc_weight (sc_jobs st') p + 10 * (\<Sum>s < sessions st. length (sc_jobs st' s)) + 5 * rq_count (sc_ready st') <
      pc_weight (sc_jobs st) (sc_pc st t) + 10 * (\<Sum>s < sessions st. length (sc_jobs st s)) + 5 * rq_count (sc_ready st)"
  shows "left_to_do st' < left_to_do st" and "finite (active st')"
proof -
  let ?A = "insert t (active st)"
  have A: "finite ?A" "active st \<subseteq> ?A" "active st' \<subseteq> ?A" using assms(1,2) by (auto simp: active_def split: if_splits)
  then show "finite (active st')" using finite_subset by blast
  have "t \<in> ?A" by simp
  from weights_move [OF A(1) this, where jobs = "sc_jobs st" and jobs' = "sc_jobs st'" and pc = "sc_pc st" and p = p] assms(4)
  have "(\<Sum>u \<in> ?A. pc_weight (sc_jobs st') (sc_pc st' u)) + pc_weight (sc_jobs st) (sc_pc st t) \<le>
      (\<Sum>u \<in> ?A. pc_weight (sc_jobs st) (sc_pc st u)) + pc_weight (sc_jobs st') p"
    unfolding assms(2) by blast
  with assms(5) show "left_to_do st' < left_to_do st"
    unfolding left_to_do_on [OF A(1,2)] left_to_do_on [OF A(1,3)] assms(3) by linarith
qed

lemma schedule_less:
  assumes "schedule st st'" and "tokens_ok st" and "finite (active st)"
  shows "left_to_do st' < left_to_do st \<and> finite (active st')"
  using assms
proof (induction rule: schedule.induct)
  case (cas_won st t s)
  show ?case using left_to_do_move [OF cas_won(4), of "set_pc t (Pushing s) (set_flag s True st)" t "Pushing s"] cas_won by auto
next
  case (cas_lost st t s)
  show ?case using left_to_do_move [OF cas_lost(4), of "set_pc t Idle st" t Idle] cas_lost by auto
next
  case (push_ok st t s r)
  note p = rq_Push_spec [OF tokens_okD(1) [OF push_ok(3)] push_ok(2)]
  then have "length (rq_contents r) = Suc (length (rq_contents (sc_ready st)))" by simp
  then have c: "rq_count r = Suc (rq_count (sc_ready st))" by (simp add: rq_contents_def)
  show ?case using left_to_do_move [OF push_ok(4), of "set_pc t Idle (st\<lparr>sc_ready := r\<rparr>)" t Idle] push_ok(1) p c by auto
next
  case (push_full st t s r)
  note p = rq_Push_spec [OF tokens_okD(1) [OF push_full(3)] push_full(2)]
  then have "r = sc_ready st" by simp
  then show ?case using left_to_do_move [OF push_full(4), of "set_pc t (PushFailed s) (st\<lparr>sc_ready := r\<rparr>)" t "PushFailed s"] push_full(1)
    by auto
next
  case (unflag st t s)
  show ?case using left_to_do_move [OF unflag(3), of "set_pc t Idle (set_flag s False st)" t Idle] unflag by auto
qed

lemma sum_lengths_tl:
  assumes "f s = j # js" and "s < (n :: nat)"
  shows "(\<Sum>x < n. length (f x)) = Suc (\<Sum>x < n. length ((f(s := js)) x))"
proof -
  have s: "s \<in> {..<n}" using assms(2) by simp
  have "(\<Sum>x < n. length (f x)) = length (f s) + (\<Sum>x \<in> {..<n} - {s}. length (f x))"
    by (rule sum.remove [OF finite_lessThan s])
  moreover have "(\<Sum>x < n. length ((f(s := js)) x)) = length js + (\<Sum>x \<in> {..<n} - {s}. length (f x))"
    by (subst sum.remove [OF finite_lessThan s]) (auto intro: sum.cong)
  ultimately show ?thesis using assms(1) by simp
qed

lemma worker_less:
  assumes "worker st st'" and "tokens_ok st" and "finite (active st)"
  shows "left_to_do st' < left_to_do st \<and> finite (active st')"
  using assms
proof (induction rule: worker.induct)
  case (pop st t s r)
  have T: "rq_take (sc_ready st) = (Some s, r)" and c: "rq_count (sc_ready st) = Suc (rq_count r)"
    using pop(3) by (auto simp: rq_Pop_def rq_take_def split: if_splits prod.splits)
  note p = rq_take_spec [OF tokens_okD(1) [OF pop(4)] T]
  show ?case using left_to_do_move [OF pop(5), of "set_pc t (Draining s) (st\<lparr>sc_ready := r\<rparr>)" t "Draining s"] pop(1) p c by auto
next
  case (dequeue st t s j js)
  have s: "s < sessions st" using tokens_okD(5) [OF dequeue(3), of t s] dequeue(1) by simp
  let ?st = "set_pc t (Running s j) (st\<lparr>sc_jobs := (sc_jobs st)(s := js)\<rparr>)"
  have "(\<Sum>x < sessions st. length (sc_jobs st x)) = Suc (\<Sum>x < sessions st. length (sc_jobs ?st x))"
    using sum_lengths_tl [of "sc_jobs st" s j js, OF dequeue(2) s] by simp
  moreover have "sc_jobs ?st x = []" if "sc_jobs st x = []" for x using that dequeue(2) by auto
  ultimately show ?case using left_to_do_move [OF dequeue(4), of ?st t "Running s j"] dequeue(1) by simp
next
  case (executed st t s j)
  show ?case using left_to_do_move [OF executed(3), of "set_pc t (Draining s) (st\<lparr>sc_done := (sc_done st)(s := sc_done st s @ [j])\<rparr>)" t "Draining s"]
      executed by auto
next
  case (empty st t s)
  show ?case using left_to_do_move [OF empty(4), of "set_pc t (Drained s) st" t "Drained s"] empty by auto
next
  case (clear st t s)
  show ?case using left_to_do_move [OF clear(3), of "set_pc t (Checking s) (set_flag s False st)" t "Checking s"] clear by auto
next
  case (check_empty st t s)
  show ?case using left_to_do_move [OF check_empty(4), of "set_pc t Idle st" t Idle] check_empty by auto
next
  case (check_more st t s)
  show ?case using left_to_do_move [OF check_more(4), of "set_pc t (Rechecking s) st" t "Rechecking s"] check_more by auto
qed

lemma arrive_finite: "arrive st st' \<Longrightarrow> finite (active st) \<Longrightarrow> finite (active st')"
proof (induction rule: arrive.induct)
  case (enqueue st t s j)
  have "active (set_pc t (Enqueued s) (st\<lparr>sc_jobs := (sc_jobs st)(s := sc_jobs st s @ [j]),
      sc_added := (sc_added st)(s := sc_added st s @ [j])\<rparr>)) \<subseteq> insert t (active st)"
    by (auto simp: active_def)
  then show ?case using enqueue(4) finite_subset by blast
qed

lemma reachable_finite:
  assumes "calm_step\<^sup>*\<^sup>* st st'" and "tokens_ok st \<and> jobs_ok st" and "finite (active st)"
  shows "finite (active st')"
  using assms
proof (induction rule: rtranclp_induct)
  case (step y z)
  then have "tokens_ok y" using reachable_ok by blast
  then show ?case using step arrive_finite schedule_less worker_less by (auto simp: calm_step_def work_step_def active_def elim!: recycle.cases)
qed

text \<open>When no thread can move, nothing is queued and everything queued was executed or discarded.\<close>

lemma stuck_done:
  assumes T: "tokens_ok st" and J: "jobs_ok st" and w: "0 < sc_workers st"
    and stuck: "\<And>st'. \<not> schedule st st'" "\<And>st'. \<not> worker st st'"
  shows "sc_jobs st s = [] \<and> kept (sc_done st s) (sc_dropped st s) (sc_added st s)"
proof -
  have idle: "sc_pc st t = Idle" for t
  proof (cases "sc_pc st t")
    case (Pushing x)
    then show ?thesis using stuck(1) push_ok push_full by (cases "rq_Push x (sc_ready st)"; cases "fst (rq_Push x (sc_ready st))") fastforce+
  next
    case (Draining x)
    then show ?thesis using stuck(2) dequeue empty by (cases "sc_jobs st x") fastforce+
  next
    case (Checking x)
    then show ?thesis using stuck(2) check_empty check_more by blast
  next
    case (Enqueued x)
    then show ?thesis using stuck(1) cas_won cas_lost by blast
  next
    case (Rechecking x)
    then show ?thesis using stuck(1) cas_won cas_lost by blast
  qed (use stuck unflag executed clear in blast)+
  have "rq_count (sc_ready st) = 0"
  proof (rule ccontr)
    assume n: "rq_count (sc_ready st) \<noteq> 0"
    obtain r q where t: "rq_take (sc_ready st) = (r, q)" by fastforce
    have "rq_contents (sc_ready st) \<noteq> []" using n by (simp add: rq_contents_def)
    with rq_take_spec [OF tokens_okD(1) [OF T] t] obtain x where "r = Some x" by (auto split: list.splits)
    with n t have "rq_Pop False (sc_ready st) = (Returns (Some x), q)" by (simp add: rq_Pop_def)
    from pop [OF idle w this] stuck(2) show False by blast
  qed
  then have "rq_contents (sc_ready st) = []" by (simp add: rq_contents_def)
  moreover have "token \<circ> sc_pc st = (\<lambda>_. None)" by (simp add: comp_def idle)
  ultimately have "\<not> sc_processing st s" using tokens_okD(2) [OF T] by (simp add: tok_inv_def)
  then have "sc_jobs st s = []" using jobs_okD(1) [OF J, of s] by (auto simp: idle)
  with jobs_okD(3) [OF J, of s] show ?thesis by (simp add: idle)
qed

section \<open>Every job is accounted for\<close>

text \<open>The jobs of a session that a thread is executing, and that all threads are executing.\<close>

fun runs :: "nat \<Rightarrow> pc \<Rightarrow> nat multiset" where
  "runs s (Running x j) = (if x = s then {#j#} else {#})" | "runs s _ = {#}"

definition running :: "Sched \<Rightarrow> nat \<Rightarrow> nat multiset" where
  "running st s = (\<Sum>t \<in> active st. runs s (sc_pc st t))"

definition accounted :: "Sched \<Rightarrow> bool" where
  "accounted st \<longleftrightarrow> finite (active st) \<and>
     (\<forall>s. mset (sc_added st s) = mset (sc_done st s) + running st s + mset (sc_jobs st s) + mset (sc_dropped st s))"

lemma running_on:
  assumes "finite A" and "active st \<subseteq> A"
  shows "running st s = (\<Sum>t \<in> A. runs s (sc_pc st t))"
  unfolding running_def using assms by (intro sum.mono_neutral_left) (auto simp: active_def)

lemma accounted_move:
  assumes "accounted st" and pc: "sc_pc st' = (sc_pc st)(t := p)"
    and jobs: "\<And>s. mset (sc_added st' s) + mset (sc_done st s) + runs s (sc_pc st t) + mset (sc_jobs st s) + mset (sc_dropped st s) =
      mset (sc_added st s) + mset (sc_done st' s) + runs s p + mset (sc_jobs st' s) + mset (sc_dropped st' s)"
  shows "accounted st'"
proof -
  let ?A = "insert t (active st)"
  have fin: "finite (active st)" using assms(1) by (simp add: accounted_def)
  then have A: "finite ?A" "active st \<subseteq> ?A" "active st' \<subseteq> ?A" using pc by (auto simp: active_def split: if_splits)
  have "mset (sc_added st' s) = mset (sc_done st' s) + running st' s + mset (sc_jobs st' s) + mset (sc_dropped st' s)" for s
  proof -
    let ?R = "\<Sum>u \<in> ?A - {t}. runs s (sc_pc st u)"
    have "running st s = runs s (sc_pc st t) + ?R"
      unfolding running_on [OF A(1,2)] by (rule sum.remove) (use A(1) in simp_all)
    moreover have "running st' s = runs s p + ?R"
      unfolding running_on [OF A(1,3)] pc by (subst sum.remove [of ?A t]) (use A(1) in \<open>auto intro: sum.cong\<close>)
    moreover have "mset (sc_added st s) = mset (sc_done st s) + running st s + mset (sc_jobs st s) + mset (sc_dropped st s)"
      using assms(1) by (simp add: accounted_def)
    ultimately show ?thesis using jobs [of s] by (simp add: ac_simps)
  qed
  moreover have "finite (active st')" using A finite_subset by blast
  ultimately show ?thesis by (simp add: accounted_def)
qed

lemma arrive_accounted: "arrive st st' \<Longrightarrow> accounted st \<Longrightarrow> accounted st'"
proof (induction rule: arrive.induct)
  case (enqueue st t s j)
  show ?case by (rule accounted_move [OF enqueue(4), of _ t "Enqueued s"]) (use enqueue(1) in simp_all)
qed

lemma schedule_accounted: "schedule st st' \<Longrightarrow> accounted st \<Longrightarrow> accounted st'"
proof (induction rule: schedule.induct)
  case (cas_won st t s)
  show ?case by (rule accounted_move [OF cas_won(3), of _ t "Pushing s"]) (use cas_won(1) in auto)
next
  case (cas_lost st t s)
  show ?case by (rule accounted_move [OF cas_lost(3), of _ t Idle]) (use cas_lost(1) in auto)
next
  case (push_ok st t s r)
  show ?case by (rule accounted_move [OF push_ok(3), of _ t Idle]) (use push_ok(1) in auto)
next
  case (push_full st t s r)
  show ?case by (rule accounted_move [OF push_full(3), of _ t "PushFailed s"]) (use push_full(1) in auto)
next
  case (unflag st t s)
  show ?case by (rule accounted_move [OF unflag(2), of _ t Idle]) (use unflag(1) in auto)
qed

lemma worker_accounted: "worker st st' \<Longrightarrow> accounted st \<Longrightarrow> accounted st'"
proof (induction rule: worker.induct)
  case (pop st t s r)
  show ?case by (rule accounted_move [OF pop(4), of _ t "Draining s"]) (use pop(1) in auto)
next
  case (dequeue st t s j js)
  show ?case by (rule accounted_move [OF dequeue(3), of _ t "Running s j"]) (use dequeue in auto)
next
  case (executed st t s j)
  show ?case by (rule accounted_move [OF executed(2), of _ t "Draining s"]) (use executed in auto)
next
  case (empty st t s)
  show ?case by (rule accounted_move [OF empty(3), of _ t "Drained s"]) (use empty in auto)
next
  case (clear st t s)
  show ?case by (rule accounted_move [OF clear(2), of _ t "Checking s"]) (use clear in auto)
next
  case (check_empty st t s)
  show ?case by (rule accounted_move [OF check_empty(3), of _ t Idle]) (use check_empty in auto)
next
  case (check_more st t s)
  show ?case by (rule accounted_move [OF check_more(3), of _ t "Rechecking s"]) (use check_more in auto)
qed

lemma recycle_accounted: "recycle st st' \<Longrightarrow> accounted st \<Longrightarrow> accounted st'"
proof (induction rule: recycle.induct)
  case (reset_flag st s)
  then show ?case by (simp add: accounted_def running_def active_def)
next
  case (reset_jobs st s)
  then show ?case by (simp add: accounted_def running_def active_def ac_simps)
qed

lemma reachable_accounted: "sched_step\<^sup>*\<^sup>* st st' \<Longrightarrow> accounted st \<Longrightarrow> accounted st'"
proof (induction rule: rtranclp_induct)
  case (step y z)
  then show ?case using arrive_accounted schedule_accounted worker_accounted recycle_accounted
    by (auto simp: sched_step_def work_step_def)
qed

lemma init_accounted: "sched_init n m st \<Longrightarrow> accounted st"
  by (simp add: sched_init_def accounted_def running_def active_def)

section \<open>A concrete run\<close>

definition sched0 :: Sched where
  "sched0 = \<lparr>sc_workers = 2, sc_jobs = (\<lambda>_. []), sc_processing = (\<lambda>_. False),
     sc_ready = snd (rq_Initialize True 2 new_ReadySessionQueue), sc_pc = (\<lambda>_. Idle), sc_added = (\<lambda>_. []), sc_done = (\<lambda>_. []), sc_dropped = (\<lambda>_. [])\<rparr>"

lemma ready2: "rq_Initialize True 2 new_ReadySessionQueue =
    (True, \<lparr>rq_queue = [None, None], rq_capacity = 2, rq_head = 0, rq_tail = 0, rq_count = 0, rq_stopFlag = False\<rparr>)"
proof -
  have "sint (2 :: u32) = 2" by (subst sint_small) simp_all
  moreover have "replicate (unat (2 :: u32)) None = [None, None :: nat option]" by code_simp
  ultimately show ?thesis by (simp add: rq_Initialize_def)
qed

lemma sched0_init: "sched_init 2 2 sched0"
  by (simp add: sched_init_def sched0_def ready2)

text \<open>
  Submitting job \<open>j\<close> for session 0 on producer 2 and popping the session on worker \<open>t\<close>, from a state where that
  session's flag is clear.
\<close>

definition at_head :: "nat \<Rightarrow> nat \<Rightarrow> nat \<Rightarrow> Sched \<Rightarrow> Sched" where
  "at_head t h j st = st\<lparr>sc_jobs := (sc_jobs st)(0 := sc_jobs st 0 @ [j]), sc_added := (sc_added st)(0 := sc_added st 0 @ [j]),
     sc_processing := (sc_processing st)(0 := True), sc_pc := (sc_pc st)(2 := Idle, t := Draining 0),
     sc_ready := \<lparr>rq_queue = [None, None], rq_capacity = 2, rq_head = Suc h mod 2, rq_tail = Suc h mod 2, rq_count = 0, rq_stopFlag = False\<rparr>\<rparr>"

lemma submit_and_pop:
  assumes "sc_pc st 2 = Idle" and "sc_pc st t = Idle" and "t < 2" and "sc_workers st = 2" and "\<not> sc_processing st 0" and "h < 2"
    and "sc_ready st = \<lparr>rq_queue = [None, None], rq_capacity = 2, rq_head = h, rq_tail = h, rq_count = 0, rq_stopFlag = False\<rparr>"
  shows "work_step\<^sup>*\<^sup>* st (at_head t h j st)"
proof -
  let ?a = "set_pc 2 (Enqueued 0) (st\<lparr>sc_jobs := (sc_jobs st)(0 := sc_jobs st 0 @ [j]), sc_added := (sc_added st)(0 := sc_added st 0 @ [j])\<rparr>)"
  let ?b = "set_pc 2 (Pushing 0) (set_flag 0 True ?a)"
  let ?r = "\<lparr>rq_queue = [None, None][h := Some 0], rq_capacity = 2, rq_head = h, rq_tail = Suc h mod 2, rq_count = 1, rq_stopFlag = False\<rparr>"
  let ?c = "set_pc 2 Idle (?b\<lparr>sc_ready := ?r\<rparr>)"
  let ?q = "\<lparr>rq_queue = [None, None], rq_capacity = 2, rq_head = Suc h mod 2, rq_tail = Suc h mod 2, rq_count = 0, rq_stopFlag = False\<rparr>"
  let ?d = "set_pc t (Draining 0) (?c\<lparr>sc_ready := ?q\<rparr>)"
  have h: "h = 0 \<or> h = 1" using assms(6) by auto
  have "arrive st ?a" using assms by (intro enqueue) simp_all
  moreover have "schedule ?a ?b" using assms by (intro cas_won) simp_all
  moreover have "schedule ?b ?c" using assms h by (intro push_ok) (auto simp: rq_Push_def)
  moreover have "worker ?c ?d"
    using assms h by (intro pop) (auto simp: rq_Pop_def rq_take_def)
  moreover have "?d = at_head t h j st" using assms by (simp add: at_head_def set_pc_def set_flag_def fun_upd_twist)
  ultimately show ?thesis
    unfolding work_step_def by (metis (no_types, lifting) converse_rtranclp_into_rtranclp rtranclp.rtrancl_refl)
qed

section \<open>Properties\<close>

text \<open>
  C19. Scheduling in a server whose ring has room for all its sessions. However packets arrive, threads interleave and sessions are recycled,
  every job that was queued is exactly one of executed, being executed, still queued, or discarded when its session was recycled: no job runs
  twice and none is made up. And as long as no session is recycled while its processing flag is set (\<open>calm_step\<close>; \<open>reset_breaks_exclusion\<close> shows that
  this is needed and that the code does not ensure it), at most one thread executes or drains a session, its flag is set
  exactly while the ring or that thread has it, no \<open>Push\<close> ever finds the ring full, and the jobs executed, being executed and queued are those
  queued, in their order, except for the discarded ones.
\<close>

theorem scheduling_exclusive:
  assumes "sched_init n m st"
  shows "(\<forall>st' s. sched_step\<^sup>*\<^sup>* st st' \<longrightarrow>
      mset (sc_added st' s) = mset (sc_done st' s) + running st' s + mset (sc_jobs st' s) + mset (sc_dropped st' s)) \<and>
    (\<forall>st'. calm_step\<^sup>*\<^sup>* st st' \<longrightarrow>
      (\<forall>t t' s. token (sc_pc st' t) = Some s \<and> token (sc_pc st' t') = Some s \<longrightarrow> t = t') \<and>
      (\<forall>s. sc_processing st' s \<longleftrightarrow> s \<in> set (rq_contents (sc_ready st')) \<or> (\<exists>t. token (sc_pc st' t) = Some s)) \<and>
      distinct (rq_contents (sc_ready st')) \<and> (\<forall>t s. sc_pc st' t \<noteq> PushFailed s) \<and>
      (\<forall>s. \<exists>js. length js \<le> 1 \<and> subseq (sc_done st' s @ js @ sc_jobs st' s) (sc_added st' s) \<and>
         mset (sc_added st' s) = mset (sc_done st' s @ js @ sc_jobs st' s) + mset (sc_dropped st' s)))"
proof (intro conjI [OF _ allI [OF impI]] allI impI)
  fix st' s assume "sched_step\<^sup>*\<^sup>* st st'"
  from reachable_accounted [OF this init_accounted [OF assms]]
  show "mset (sc_added st' s) = mset (sc_done st' s) + running st' s + mset (sc_jobs st' s) + mset (sc_dropped st' s)"
    by (simp add: accounted_def)
next
  fix st' assume "calm_step\<^sup>*\<^sup>* st st'"
  from reachable_ok [OF this init_ok [OF assms]] have T: "tokens_ok st'" and J: "jobs_ok st'" by simp_all
  have "\<exists>js. length js \<le> 1 \<and> kept (sc_done st' s @ js @ sc_jobs st' s) (sc_dropped st' s) (sc_added st' s)" for s
  proof (cases "\<exists>t j. sc_pc st' t = Running s j")
    case True
    then obtain t j where "sc_pc st' t = Running s j" by blast
    from jobs_okD(2) [OF J this] show ?thesis by (intro exI [of _ "[j]"]) simp
  next
    case False
    with jobs_okD(3) [OF J, of s] show ?thesis by (intro exI [of _ "[]"]) simp
  qed
  moreover have "sc_processing st' s \<longleftrightarrow> s \<in> set (rq_contents (sc_ready st')) \<or> (\<exists>t. token (sc_pc st' t) = Some s)" for s
    using tokens_okD(2) [OF T] by (simp add: tok_inv_def ran_def)
  moreover have "distinct (rq_contents (sc_ready st'))" using tokens_okD(2) [OF T] by (simp add: tok_inv_def)
  ultimately show "(\<forall>t t' s. token (sc_pc st' t) = Some s \<and> token (sc_pc st' t') = Some s \<longrightarrow> t = t') \<and>
      (\<forall>s. sc_processing st' s \<longleftrightarrow> s \<in> set (rq_contents (sc_ready st')) \<or> (\<exists>t. token (sc_pc st' t) = Some s)) \<and>
      distinct (rq_contents (sc_ready st')) \<and> (\<forall>t s. sc_pc st' t \<noteq> PushFailed s) \<and>
      (\<forall>s. \<exists>js. length js \<le> 1 \<and> subseq (sc_done st' s @ js @ sc_jobs st' s) (sc_added st' s) \<and>
         mset (sc_added st' s) = mset (sc_done st' s @ js @ sc_jobs st' s) + mset (sc_dropped st' s))"
    using tokens_okD(4) [OF T] one_token [OF T] unfolding kept_def by blast
qed

text \<open>A step of a thread or an arrival is a calm step.\<close>

lemma work_calm: "work_step\<^sup>*\<^sup>* st st' \<Longrightarrow> calm_step\<^sup>*\<^sup>* st st'"
  by (rule rtranclp_mono [THEN predicate2D, of work_step]) (auto simp: calm_step_def)

lemma scheduling_exclusive_witness:
  "let st = at_head 0 0 7 sched0 in calm_step\<^sup>*\<^sup>* sched0 st \<and> sc_jobs st 0 = [7] \<and> sc_processing st 0 \<and>
     (\<forall>t. token (sc_pc st t) = Some 0 \<longrightarrow> t = 0)"
proof -
  have "work_step\<^sup>*\<^sup>* sched0 (at_head 0 0 7 sched0)"
    by (intro submit_and_pop) (simp_all add: sched0_def ready2)
  then have r: "calm_step\<^sup>*\<^sup>* sched0 (at_head 0 0 7 sched0)" by (rule work_calm)
  have "token (sc_pc (at_head 0 0 7 sched0) 0) = Some 0" "sc_jobs (at_head 0 0 7 sched0) 0 = [7]"
    by (simp_all add: at_head_def sched0_def)
  with r conjunct2 [OF scheduling_exclusive [OF sched0_init]] show ?thesis unfolding Let_def by blast
qed

text \<open>
  C20. No job is forgotten, and the scheduler comes to rest, as long as no session is recycled while its processing flag is set:
  from any state reached that way the threads can make only finitely many steps unless new packets arrive or sessions are recycled, and when no
  thread can move every queue is empty and the jobs executed are, in order, all that were queued except those that were discarded when their session
  was recycled: all of them if none was. (In between, a queued job always has a thread or the ring responsible for it.)
\<close>

theorem scheduling_terminates:
  assumes "sched_init n m st" and "0 < n"
  shows "wf {(st2, st1). calm_step\<^sup>*\<^sup>* st st1 \<and> (schedule st1 st2 \<or> worker st1 st2)} \<and>
    (\<forall>st1. calm_step\<^sup>*\<^sup>* st st1 \<longrightarrow> (\<forall>s. sc_jobs st1 s \<noteq> [] \<longrightarrow>
       sc_processing st1 s \<or> (\<exists>t. looking (sc_pc st1 t) = Some s)) \<and>
       ((\<forall>st2. \<not> schedule st1 st2 \<and> \<not> worker st1 st2) \<longrightarrow> (\<forall>s. sc_jobs st1 s = [] \<and>
          subseq (sc_done st1 s) (sc_added st1 s) \<and> mset (sc_added st1 s) = mset (sc_done st1 s) + mset (sc_dropped st1 s) \<and>
          (sc_dropped st1 s = [] \<longrightarrow> sc_done st1 s = sc_added st1 s))))"
proof -
  have f: "finite (active st)" using assms(1) by (simp add: active_def sched_init_def)
  note ok = reachable_ok [OF _ init_ok [OF assms(1)]] and fin = reachable_finite [OF _ init_ok [OF assms(1)] f]
  have "{(st2, st1). calm_step\<^sup>*\<^sup>* st st1 \<and> (schedule st1 st2 \<or> worker st1 st2)} \<subseteq> measure left_to_do"
    using ok fin schedule_less worker_less by auto
  then have "wf {(st2, st1). calm_step\<^sup>*\<^sup>* st st1 \<and> (schedule st1 st2 \<or> worker st1 st2)}"
    by (rule wf_subset [OF wf_measure])
  moreover have w: "sc_workers st1 = n" if "calm_step\<^sup>*\<^sup>* st st1" for st1
    using that
  proof (induction rule: rtranclp_induct)
    case base
    then show ?case using assms(1) by (simp add: sched_init_def)
  next
    case (step y z)
    then show ?case
      by (auto simp: calm_step_def work_step_def elim: arrive.cases schedule.cases worker.cases recycle.cases)
  qed
  moreover have "sc_jobs st1 s = [] \<and> kept (sc_done st1 s) (sc_dropped st1 s) (sc_added st1 s)"
    if "calm_step\<^sup>*\<^sup>* st st1" "\<forall>st2. \<not> schedule st1 st2 \<and> \<not> worker st1 st2" for st1 s
  proof -
    have "0 < sc_workers st1" using w [OF that(1)] assms(2) by simp
    from stuck_done [OF _ _ this] ok [OF that(1)] that(2) show ?thesis by blast
  qed
  then have "sc_jobs st1 s = [] \<and> subseq (sc_done st1 s) (sc_added st1 s) \<and>
      mset (sc_added st1 s) = mset (sc_done st1 s) + mset (sc_dropped st1 s) \<and> (sc_dropped st1 s = [] \<longrightarrow> sc_done st1 s = sc_added st1 s)"
    if "calm_step\<^sup>*\<^sup>* st st1" "\<forall>st2. \<not> schedule st1 st2 \<and> \<not> worker st1 st2" for st1 s
    using that kept_all [of "sc_done st1 s" "sc_added st1 s"] unfolding kept_def by metis
  ultimately show ?thesis using ok jobs_okD(1) by blast
qed

lemma scheduling_terminates_witness:
  "wf {(st2, st1). calm_step\<^sup>*\<^sup>* sched0 st1 \<and> (schedule st1 st2 \<or> worker st1 st2)}"
  using scheduling_terminates [OF sched0_init] by simp

text \<open>
  C21. Recycling a session while a worker drains it breaks the exclusion: the flag is cleared although the worker still has the session, and the
  next packet of the slot's new owner starts a second worker on the same session.
\<close>

theorem reset_breaks_exclusion:
  "\<exists>st1 st2. work_step\<^sup>*\<^sup>* sched0 st1 \<and> work_step\<^sup>*\<^sup>* (reset_session 0 st1) st2 \<and>
     sc_pc st2 0 = Draining 0 \<and> sc_pc st2 1 = Draining 0"
proof -
  let ?st1 = "at_head 0 0 7 sched0"
  have "work_step\<^sup>*\<^sup>* sched0 ?st1" by (intro submit_and_pop) (simp_all add: sched0_def ready2)
  moreover have "work_step\<^sup>*\<^sup>* (reset_session 0 ?st1) (at_head 1 1 8 (reset_session 0 ?st1))"
    by (intro submit_and_pop) (simp_all add: at_head_def reset_session_def sched0_def)
  moreover have "sc_pc (at_head 1 1 8 (reset_session 0 ?st1)) 0 = Draining 0"
    "sc_pc (at_head 1 1 8 (reset_session 0 ?st1)) 1 = Draining 0"
    by (simp_all add: at_head_def reset_session_def)
  ultimately show ?thesis by blast
qed

end
