(* ===== verification/ReleaseProtocol.thy ===== *)
theory ReleaseProtocol
  imports Prelude "HOL-Library.Multiset"
begin

text \<open>
  Giving a session back while its I/O is being cancelled, with any number of threads. Every I/O operation holds one count of
  \<open>m_ioCount\<close> from \<open>BeginIO\<close> to its \<open>DecrementIO\<close>; \<open>ClientSessionPool::Release\<close> asks for the session with
  \<open>RequestRelease\<close>; whoever takes \<open>m_releasePending\<close> from 1 to 0 runs \<open>CompleteRelease\<close>. A step is one interlocked operation or
  one read of a shared field, so the threads interleave as they can on the machine. The model starts when the connected session
  leaves the pool and ends with the entry to \<open>CompleteRelease\<close>.
\<close>

section \<open>Threads and steps\<close>

datatype SESSION_POOL_STATE = SESSION_POOL_FREE | SESSION_POOL_IN_USE | SESSION_POOL_RELEASING

text \<open>
  Where a thread, or the operation it has posted, is. \<open>Counted\<close>: \<open>BeginIO\<close> has incremented the count and has not read
  \<open>m_cancelIo\<close>. \<open>Posted\<close>: \<open>BeginIO\<close> returned true; the operation is in the kernel, or its handler runs. \<open>Declined\<close>:
  \<open>BeginIO\<close> found the cancel and is before its \<open>DecrementIO\<close>. \<open>Reached_zero\<close>: \<open>DecrementIO\<close> brought the
  count to 0 and is before its exchange of \<open>m_releasePending\<close>. \<open>Claimed\<close>: \<open>Release\<close> has taken the node from in use to releasing.
  \<open>Cancelled\<close>: it has called \<open>CancelPendingIO\<close>. \<open>Requested\<close>: \<open>RequestRelease\<close> has set \<open>m_releasePending\<close>.
  \<open>Saw_zero\<close>: it has read a count of 0 and is before its exchange.
\<close>

datatype io_pc = Counted | Posted | Declined | Reached_zero | Claimed | Cancelled | Requested | Saw_zero

record ReleaseState =
  rs_pool :: SESSION_POOL_STATE
  rs_io :: int
  rs_cancel :: bool
  rs_pending :: bool
  rs_threads :: "io_pc multiset"
  rs_completed :: nat

text \<open>\<open>BaseSession::BeginIO\<close>.\<close>

inductive begin_io :: "ReleaseState \<Rightarrow> ReleaseState \<Rightarrow> bool" where
  count: "begin_io st (st\<lparr>rs_io := rs_io st + 1, rs_threads := add_mset Counted (rs_threads st)\<rparr>)"
| accepted: "rs_threads st = add_mset Counted T \<Longrightarrow> \<not> rs_cancel st \<Longrightarrow> begin_io st (st\<lparr>rs_threads := add_mset Posted T\<rparr>)"
| declined: "rs_threads st = add_mset Counted T \<Longrightarrow> rs_cancel st \<Longrightarrow> begin_io st (st\<lparr>rs_threads := add_mset Declined T\<rparr>)"

text \<open>\<open>BaseSession::DecrementIO\<close>; a negative count would be the violation it reports.\<close>

inductive decrement_io :: "ReleaseState \<Rightarrow> ReleaseState \<Rightarrow> bool" where
  not_last: "rs_threads st = add_mset p T \<Longrightarrow> p \<in> {Posted, Declined} \<Longrightarrow> rs_io st - 1 \<noteq> 0 \<Longrightarrow>
    decrement_io st (st\<lparr>rs_io := rs_io st - 1, rs_threads := T\<rparr>)"
| last: "rs_threads st = add_mset p T \<Longrightarrow> p \<in> {Posted, Declined} \<Longrightarrow> rs_io st - 1 = 0 \<Longrightarrow>
    decrement_io st (st\<lparr>rs_io := 0, rs_threads := add_mset Reached_zero T\<rparr>)"
| finish: "rs_threads st = add_mset Reached_zero T \<Longrightarrow> rs_pending st \<Longrightarrow>
    decrement_io st (st\<lparr>rs_pending := False, rs_threads := T, rs_completed := rs_completed st + 1\<rparr>)"
| nothing_asked: "rs_threads st = add_mset Reached_zero T \<Longrightarrow> \<not> rs_pending st \<Longrightarrow> decrement_io st (st\<lparr>rs_threads := T\<rparr>)"

text \<open>
  \<open>ClientSessionPool::Release\<close>: the compare-and-swap on the node, then \<open>CancelPendingIO\<close>. A caller that loses the compare-and-swap
  changes nothing. \<open>RequestAllRecvSendIOCancel\<close> can set the cancel at any time.
\<close>

inductive claim_release :: "ReleaseState \<Rightarrow> ReleaseState \<Rightarrow> bool" where
  claim: "rs_pool st = SESSION_POOL_IN_USE \<Longrightarrow>
    claim_release st (st\<lparr>rs_pool := SESSION_POOL_RELEASING, rs_threads := add_mset Claimed (rs_threads st)\<rparr>)"
| cancel: "rs_threads st = add_mset Claimed T \<Longrightarrow>
    claim_release st (st\<lparr>rs_cancel := True, rs_threads := add_mset Cancelled T\<rparr>)"
| cancel_all: "claim_release st (st\<lparr>rs_cancel := True\<rparr>)"

text \<open>\<open>BaseSession::RequestRelease\<close>.\<close>

inductive request_release :: "ReleaseState \<Rightarrow> ReleaseState \<Rightarrow> bool" where
  ask: "rs_threads st = add_mset Cancelled T \<Longrightarrow>
    request_release st (st\<lparr>rs_pending := True, rs_threads := add_mset Requested T\<rparr>)"
| still_busy: "rs_threads st = add_mset Requested T \<Longrightarrow> rs_io st \<noteq> 0 \<Longrightarrow> request_release st (st\<lparr>rs_threads := T\<rparr>)"
| saw_zero: "rs_threads st = add_mset Requested T \<Longrightarrow> rs_io st = 0 \<Longrightarrow>
    request_release st (st\<lparr>rs_threads := add_mset Saw_zero T\<rparr>)"
| complete: "rs_threads st = add_mset Saw_zero T \<Longrightarrow> rs_pending st \<Longrightarrow>
    request_release st (st\<lparr>rs_pending := False, rs_threads := T, rs_completed := rs_completed st + 1\<rparr>)"
| taken: "rs_threads st = add_mset Saw_zero T \<Longrightarrow> \<not> rs_pending st \<Longrightarrow> request_release st (st\<lparr>rs_threads := T\<rparr>)"

definition release_step :: "ReleaseState \<Rightarrow> ReleaseState \<Rightarrow> bool" where
  "release_step st st' \<longleftrightarrow> begin_io st st' \<or> decrement_io st st' \<or> claim_release st st' \<or> request_release st st'"

text \<open>
  A connected session: in use, one count held by the handler that runs the connect sequence.
\<close>

definition release_init :: ReleaseState where
  "release_init = \<lparr>rs_pool = SESSION_POOL_IN_USE, rs_io = 1, rs_cancel = False, rs_pending = False,
     rs_threads = {#Posted#}, rs_completed = 0\<rparr>"

text \<open>
  The discipline of the receive chain: a count is held until the cancel is requested, because a receive handler posts the next
  receive, or asks for the release, before it drops its own count.
\<close>

definition held_step :: "ReleaseState \<Rightarrow> ReleaseState \<Rightarrow> bool" where
  "held_step st st' \<longleftrightarrow> release_step st st' \<and> (rs_cancel st' \<or> rs_io st' \<noteq> 0)"

section \<open>The count and the request\<close>

text \<open>The threads that hold a count, and those between the compare-and-swap and the end of \<open>RequestRelease\<close>.\<close>

definition holding :: "ReleaseState \<Rightarrow> nat" where
  "holding st = count (rs_threads st) Counted + count (rs_threads st) Posted + count (rs_threads st) Declined"

definition asking :: "ReleaseState \<Rightarrow> nat" where
  "asking st = count (rs_threads st) Claimed + count (rs_threads st) Cancelled + count (rs_threads st) Requested +
     count (rs_threads st) Saw_zero"

definition early :: "ReleaseState \<Rightarrow> nat" where
  "early st = count (rs_threads st) Claimed + count (rs_threads st) Cancelled"

definition release_inv :: "ReleaseState \<Rightarrow> bool" where
  "release_inv st \<longleftrightarrow> rs_io st = int (holding st) \<and> rs_pool st \<noteq> SESSION_POOL_FREE \<and>
     (rs_pool st = SESSION_POOL_IN_USE \<longrightarrow> asking st = 0 \<and> \<not> rs_pending st \<and> rs_completed st = 0) \<and>
     (rs_pool st = SESSION_POOL_RELEASING \<longrightarrow> asking st \<le> 1 \<and>
        early st + of_bool (rs_pending st) + rs_completed st = 1 \<and>
        (asking st = 0 \<and> rs_pending st \<longrightarrow> 0 < rs_io st \<or> Reached_zero \<in># rs_threads st))"

lemmas release_defs = holding_def asking_def early_def

lemma begin_io_inv: "begin_io st st' \<Longrightarrow> release_inv st \<Longrightarrow> release_inv st'"
  by (induction rule: begin_io.induct) (auto simp: release_inv_def release_defs)

lemma decrement_io_inv: "decrement_io st st' \<Longrightarrow> release_inv st \<Longrightarrow> release_inv st'"
  by (induction rule: decrement_io.induct) (auto simp: release_inv_def release_defs)

lemma claim_release_inv: "claim_release st st' \<Longrightarrow> release_inv st \<Longrightarrow> release_inv st'"
  by (induction rule: claim_release.induct) (auto simp: release_inv_def release_defs)

lemma request_release_inv: "request_release st st' \<Longrightarrow> release_inv st \<Longrightarrow> release_inv st'"
  by (induction rule: request_release.induct) (auto simp: release_inv_def release_defs)

lemma release_step_inv: "release_step st st' \<Longrightarrow> release_inv st \<Longrightarrow> release_inv st'"
  unfolding release_step_def
  using begin_io_inv decrement_io_inv claim_release_inv request_release_inv by blast

lemma release_init_inv: "release_inv release_init"
  by (simp add: release_init_def release_inv_def release_defs)

lemma release_reach_inv: "release_step\<^sup>*\<^sup>* release_init st \<Longrightarrow> release_inv st"
  by (induction rule: rtranclp_induct) (auto intro: release_init_inv release_step_inv)

text \<open>
  C22. Giving a session back is done exactly once. Whatever the threads do, the count is never negative and is the number of
  operations that hold it, \<open>CompleteRelease\<close> is entered at most once, and only after a release was asked for; and once a
  release was asked for and every operation and every call is over, it has been entered: no release is lost between the
  requester that sees a count above 0 and the handler that drops the last one.
\<close>

theorem release_exactly_once:
  assumes "release_step\<^sup>*\<^sup>* release_init st"
  shows "rs_io st = int (holding st) \<and> rs_completed st \<le> of_bool (rs_pool st = SESSION_POOL_RELEASING) \<and>
    (rs_pool st = SESSION_POOL_RELEASING \<and> rs_threads st = {#} \<longrightarrow> rs_completed st = 1)"
  using release_reach_inv [OF assms]
  by (cases "rs_pool st"; auto simp: release_inv_def release_defs)+

section \<open>The session is recycled only when its I/O is over\<close>

definition quiet_inv :: "ReleaseState \<Rightarrow> bool" where
  "quiet_inv st \<longleftrightarrow> (rs_cancel st \<or> rs_io st \<noteq> 0) \<and>
     (Cancelled \<in># rs_threads st \<or> Requested \<in># rs_threads st \<longrightarrow> rs_cancel st) \<and>
     (Reached_zero \<in># rs_threads st \<or> Saw_zero \<in># rs_threads st \<or> 0 < rs_completed st \<longrightarrow>
        rs_cancel st \<and> Posted \<notin># rs_threads st)"

lemma nobody_posted: "int (count T Counted) + (int (count T Posted) + int (count T Declined)) = 0 \<Longrightarrow> Posted \<notin># T"
  "int (count T Counted) + int (count T Posted) + int (count T Declined) = 0 \<Longrightarrow> Posted \<notin># T"
  by (simp_all add: not_in_iff)

lemma quiet_step:
  assumes "held_step st st'" and "release_inv st" and "quiet_inv st"
  shows "quiet_inv st'"
proof -
  have c: "rs_cancel st' \<or> rs_io st' \<noteq> 0" and "release_step st st'" using assms(1) by (auto simp: held_step_def)
  then consider "begin_io st st'" | "decrement_io st st'" | "claim_release st st'" | "request_release st st'"
    by (auto simp: release_step_def)
  then show ?thesis
  proof cases
    case 1
    then show ?thesis using assms(2,3) c by cases (auto simp: quiet_inv_def)
  next
    case 2
    then show ?thesis using assms(2,3) c
      by cases (auto simp: quiet_inv_def release_inv_def release_defs dest: nobody_posted)
  next
    case 3
    then show ?thesis using assms(2,3) c by cases (auto simp: quiet_inv_def)
  next
    case 4
    then show ?thesis using assms(2,3) c
      by cases (auto simp: quiet_inv_def release_inv_def release_defs dest: nobody_posted)
  qed
qed

lemma held_reach: "held_step\<^sup>*\<^sup>* release_init st \<Longrightarrow> release_inv st \<and> quiet_inv st"
proof (induction rule: rtranclp_induct)
  case base
  show ?case by (simp add: release_init_inv) (simp add: quiet_inv_def release_init_def)
next
  case (step y z)
  then show ?case using quiet_step release_step_inv by (auto simp: held_step_def)
qed

text \<open>
  When the receive chain keeps its discipline (a count is held until the cancel is requested), \<open>CompleteRelease\<close> is entered only
  when no posted operation is outstanding, and none can be posted afterwards: the buffers the kernel writes to and sends from are not
  recycled under it.
\<close>

theorem release_after_io:
  assumes "held_step\<^sup>*\<^sup>* release_init st" and "0 < rs_completed st"
  shows "Posted \<notin># rs_threads st \<and> rs_cancel st \<and> (\<forall>st'. held_step st st' \<longrightarrow> Posted \<notin># rs_threads st')"
proof (intro conjI allI impI)
  have I: "release_inv st" "quiet_inv st" using held_reach [OF assms(1)] by auto
  show P: "Posted \<notin># rs_threads st" "rs_cancel st" using I(2) assms(2) by (auto simp: quiet_inv_def)
  fix st'
  assume h: "held_step st st'"
  have "0 < rs_completed st'"
    using h assms(2) by (auto simp: held_step_def release_step_def elim!: begin_io.cases decrement_io.cases
      claim_release.cases request_release.cases)
  with quiet_step [OF h I] show "Posted \<notin># rs_threads st'" by (auto simp: quiet_inv_def)
qed

text \<open>Applied to the run of a session that is released by its last handler.\<close>

definition released :: ReleaseState where
  "released = release_init\<lparr>rs_pool := SESSION_POOL_RELEASING, rs_io := 0, rs_cancel := True, rs_threads := {#}, rs_completed := 1\<rparr>"

lemma release_run:
  defines "st1 \<equiv> release_init\<lparr>rs_pool := SESSION_POOL_RELEASING, rs_threads := {#Claimed, Posted#}\<rparr>"
  shows "held_step\<^sup>*\<^sup>* release_init released"
proof -
  let ?st2 = "st1\<lparr>rs_cancel := True, rs_threads := {#Cancelled, Posted#}\<rparr>"
  let ?st3 = "?st2\<lparr>rs_pending := True, rs_threads := {#Requested, Posted#}\<rparr>"
  let ?st4 = "?st3\<lparr>rs_threads := {#Posted#}\<rparr>"
  let ?st5 = "?st4\<lparr>rs_io := 0, rs_threads := {#Reached_zero#}\<rparr>"
  have "claim_release release_init st1" using claim [of release_init] by (simp add: st1_def release_init_def)
  moreover have "claim_release st1 ?st2" using cancel [of st1 "{#Posted#}"] by (simp add: st1_def)
  moreover have "request_release ?st2 ?st3" using ask [of ?st2 "{#Posted#}"] by simp
  moreover have "request_release ?st3 ?st4"
    using still_busy [of ?st3 "{#Posted#}"] by (simp add: st1_def release_init_def)
  moreover have "decrement_io ?st4 ?st5" using last [of ?st4 Posted "{#}"] by (simp add: st1_def release_init_def)
  moreover have "decrement_io ?st5 released"
    using finish [of ?st5 "{#}"] by (simp add: st1_def release_init_def released_def)
  ultimately have "held_step release_init st1" "held_step st1 ?st2" "held_step ?st2 ?st3" "held_step ?st3 ?st4"
    "held_step ?st4 ?st5" "held_step ?st5 released"
    by (simp_all add: held_step_def release_step_def st1_def release_init_def released_def)
  then show ?thesis by (meson converse_rtranclp_into_rtranclp rtranclp.rtrancl_refl)
qed

lemma held_is_release: "held_step\<^sup>*\<^sup>* st st' \<Longrightarrow> release_step\<^sup>*\<^sup>* st st'"
  by (erule rtranclp_mono [THEN predicate2D, rotated]) (auto simp: held_step_def)

lemma release_exactly_once_witness: "rs_completed released = 1 \<and> rs_io released = 0"
proof -
  note reach = held_is_release [OF release_run]
  have "rs_completed released = 1" using release_exactly_once [OF reach] by (simp add: released_def)
  moreover have "rs_io released = 0" using release_exactly_once [OF reach] by (simp add: released_def holding_def)
  ultimately show ?thesis by simp
qed

lemma release_after_io_witness: "Posted \<notin># rs_threads released \<and> rs_cancel released"
  using release_after_io [OF release_run] by (simp add: released_def)

text \<open>
  Without the discipline the exchange in \<open>DecrementIO\<close> can come too late. A second thread has taken the node to releasing but has not
  cancelled yet; the receive handler of a closed connection loses the compare-and-swap and drops the last count; before its exchange a
  sender posts a send, and the other thread cancels and requests the release. The exchange then completes the release
  although the send is outstanding.
\<close>

theorem late_exchange_completes_early:
  "\<exists>st. release_step\<^sup>*\<^sup>* release_init st \<and> rs_completed st = 1 \<and> Posted \<in># rs_threads st \<and> rs_io st = 1"
proof -
  let ?st1 = "release_init\<lparr>rs_pool := SESSION_POOL_RELEASING, rs_threads := {#Claimed, Posted#}\<rparr>"
  let ?st2 = "?st1\<lparr>rs_io := 0, rs_threads := {#Reached_zero, Claimed#}\<rparr>"
  let ?st3 = "?st2\<lparr>rs_io := 1, rs_threads := {#Counted, Reached_zero, Claimed#}\<rparr>"
  let ?st4 = "?st3\<lparr>rs_threads := {#Posted, Reached_zero, Claimed#}\<rparr>"
  let ?st5 = "?st4\<lparr>rs_cancel := True, rs_threads := {#Cancelled, Posted, Reached_zero#}\<rparr>"
  let ?st6 = "?st5\<lparr>rs_pending := True, rs_threads := {#Requested, Posted, Reached_zero#}\<rparr>"
  let ?st7 = "?st6\<lparr>rs_threads := {#Posted, Reached_zero#}\<rparr>"
  let ?st8 = "?st7\<lparr>rs_pending := False, rs_threads := {#Posted#}, rs_completed := 1\<rparr>"
  have "claim_release release_init ?st1" using claim [of release_init] by (simp add: release_init_def)
  moreover have "decrement_io ?st1 ?st2" using last [of ?st1 Posted "{#Claimed#}"] by (simp add: release_init_def add_mset_commute)
  moreover have "begin_io ?st2 ?st3" using count [of ?st2] by simp
  moreover have "begin_io ?st3 ?st4" using accepted [of ?st3 "{#Reached_zero, Claimed#}"] by (simp add: release_init_def)
  moreover have "claim_release ?st4 ?st5" using cancel [of ?st4 "{#Posted, Reached_zero#}"] by (simp add: add_mset_commute)
  moreover have "request_release ?st5 ?st6" using ask [of ?st5 "{#Posted, Reached_zero#}"] by simp
  moreover have "request_release ?st6 ?st7" using still_busy [of ?st6 "{#Posted, Reached_zero#}"] by simp
  moreover have "decrement_io ?st7 ?st8" using finish [of ?st7 "{#Posted#}"] by (simp add: release_init_def add_mset_commute)
  ultimately have "release_step release_init ?st1" "release_step ?st1 ?st2" "release_step ?st2 ?st3" "release_step ?st3 ?st4"
    "release_step ?st4 ?st5" "release_step ?st5 ?st6" "release_step ?st6 ?st7" "release_step ?st7 ?st8"
    by (simp_all add: release_step_def)
  then have "release_step\<^sup>*\<^sup>* release_init ?st8" by (meson converse_rtranclp_into_rtranclp rtranclp.rtrancl_refl)
  then show ?thesis by (rule exI [of _ ?st8, OF conjI]) simp
qed

end
