(* ===== verification/SendProtocol.thy ===== *)
theory SendProtocol
  imports Prelude "HOL-Library.Multiset"
begin

text \<open>
  Sending from many threads. Any thread may queue a packet and call \<open>ClientSession::TrySendNext\<close>; \<open>m_sending\<close> is the token that lets
  one of them at a time take a packet and post it, and the handler of the completed send goes on with the token. A step is one critical
  section of the send queue, one interlocked operation or one call of \<open>WSASend\<close>. The send queue is its contents (\<open>sq\<close> in
  \<open>SendQueue\<close> shows that the code's queue is first-in first-out); packets are numbers with a size. How far the current packet has been sent
  is \<open>m_sendOffset\<close>; the bytes themselves are the subject of \<open>SendStream\<close>.
\<close>

section \<open>Threads and steps\<close>

text \<open>
  Where a thread, or the send it has posted, is. \<open>Trying\<close>: at the head of the loop of \<open>TrySendNext\<close>. \<open>Won\<close>: has set \<open>m_sending\<close>.
  \<open>Found_empty\<close>: its \<open>Dequeue\<close> failed. \<open>Rechecking\<close>: has cleared \<open>m_sending\<close> and is before \<open>IsEmpty\<close>. \<open>Posting\<close>: at the start of
  \<open>PostCurrentSend\<close>. \<open>Checked\<close>: past its look at \<open>m_cancelIo\<close>. \<open>Sending\<close>: the send is outstanding, or its handler is before
  \<open>OnSendCompleted\<close>. \<open>Sent\<close>: the handler has released the packet. \<open>Dropping\<close>: the packet was given up and released.
  \<open>Abandoned\<close>: the thread has returned and left \<open>m_sending\<close> set for the release of the session to clear.
\<close>

datatype send_pc = Trying | Won | Found_empty | Rechecking | Posting | Checked | Sending | Sent | Dropping | Abandoned

text \<open>
  \<open>sp_accepted\<close> records the packets in the order they were queued, \<open>sp_taken\<close> in the order they became the current packet;
  \<open>sp_gave_up\<close> that a send was given up, by an error or a cancel. \<open>sp_size\<close> is the size of each packet, \<open>sp_offset\<close> is \<open>m_sendOffset\<close>.
\<close>

record SendState =
  sp_sending :: bool
  sp_queue :: "nat list"
  sp_current :: "nat option"
  sp_cancel :: bool
  sp_threads :: "send_pc multiset"
  sp_accepted :: "nat list"
  sp_taken :: "nat list"
  sp_gave_up :: bool
  sp_size :: "nat \<Rightarrow> nat"
  sp_offset :: nat

text \<open>
  The end of \<open>EnqueueSendPacket\<close>: the packet, which has at least the size of a header, is in the queue, then \<open>TrySendNext\<close>.
\<close>

inductive enqueue_send :: "SendState \<Rightarrow> SendState \<Rightarrow> bool" where
  push: "0 < sp_size st p \<Longrightarrow> enqueue_send st (st\<lparr>sp_queue := sp_queue st @ [p], sp_accepted := sp_accepted st @ [p],
    sp_threads := add_mset Trying (sp_threads st)\<rparr>)"

text \<open>\<open>ClientSession::TrySendNext\<close>.\<close>

inductive try_send_next :: "SendState \<Rightarrow> SendState \<Rightarrow> bool" where
  busy: "sp_threads st = add_mset Trying T \<Longrightarrow> sp_sending st \<Longrightarrow> try_send_next st (st\<lparr>sp_threads := T\<rparr>)"
| win: "sp_threads st = add_mset Trying T \<Longrightarrow> \<not> sp_sending st \<Longrightarrow>
    try_send_next st (st\<lparr>sp_sending := True, sp_threads := add_mset Won T\<rparr>)"
| resume: "sp_threads st = add_mset Won T \<Longrightarrow> sp_current st \<noteq> None \<Longrightarrow>
    try_send_next st (st\<lparr>sp_threads := add_mset Posting T\<rparr>)"
| take_next: "sp_threads st = add_mset Won T \<Longrightarrow> sp_current st = None \<Longrightarrow> sp_queue st = p # ps \<Longrightarrow>
    try_send_next st (st\<lparr>sp_queue := ps, sp_current := Some p, sp_taken := sp_taken st @ [p], sp_offset := 0,
      sp_threads := add_mset Posting T\<rparr>)"
| nothing: "sp_threads st = add_mset Won T \<Longrightarrow> sp_current st = None \<Longrightarrow> sp_queue st = [] \<Longrightarrow>
    try_send_next st (st\<lparr>sp_threads := add_mset Found_empty T\<rparr>)"
| go_idle: "sp_threads st = add_mset Found_empty T \<Longrightarrow>
    try_send_next st (st\<lparr>sp_sending := False, sp_threads := add_mset Rechecking T\<rparr>)"
| still_empty: "sp_threads st = add_mset Rechecking T \<Longrightarrow> sp_queue st = [] \<Longrightarrow> try_send_next st (st\<lparr>sp_threads := T\<rparr>)"
| again: "sp_threads st = add_mset Rechecking T \<Longrightarrow> sp_queue st \<noteq> [] \<Longrightarrow>
    try_send_next st (st\<lparr>sp_threads := add_mset Trying T\<rparr>)"

text \<open>
  \<open>ClientSession::PostCurrentSend\<close>: without a packet it returns, with nothing left of it the packet is released; then
  the look at \<open>m_cancelIo\<close>, \<open>BeginIO\<close>, which looks again, and \<open>WSASend\<close>, which may fail; then
  \<open>HandleSocketError\<close> releases the packet and clears \<open>m_sending\<close>.
\<close>

inductive post_current_send :: "SendState \<Rightarrow> SendState \<Rightarrow> bool" where
  no_packet: "sp_threads st = add_mset Posting T \<Longrightarrow> sp_current st = None \<Longrightarrow> post_current_send st (st\<lparr>sp_threads := T\<rparr>)"
| no_rest: "sp_threads st = add_mset Posting T \<Longrightarrow> sp_current st = Some p \<Longrightarrow> sp_size st p = sp_offset st \<Longrightarrow>
    post_current_send st (st\<lparr>sp_current := None, sp_threads := add_mset Dropping T\<rparr>)"
| go_on: "sp_threads st = add_mset Posting T \<Longrightarrow> sp_current st = Some p \<Longrightarrow> sp_size st p \<noteq> sp_offset st \<Longrightarrow> \<not> sp_cancel st \<Longrightarrow>
    post_current_send st (st\<lparr>sp_threads := add_mset Checked T\<rparr>)"
| decline: "sp_threads st = add_mset Posting T \<Longrightarrow> sp_current st = Some p \<Longrightarrow> sp_size st p \<noteq> sp_offset st \<Longrightarrow> sp_cancel st \<Longrightarrow>
    post_current_send st (st\<lparr>sp_current := None, sp_offset := 0, sp_gave_up := True, sp_threads := add_mset Dropping T\<rparr>)"
| raced: "sp_threads st = add_mset Checked T \<Longrightarrow> sp_cancel st \<Longrightarrow>
    post_current_send st (st\<lparr>sp_gave_up := True, sp_threads := add_mset Abandoned T\<rparr>)"
| post: "sp_threads st = add_mset Checked T \<Longrightarrow> \<not> sp_cancel st \<Longrightarrow>
    post_current_send st (st\<lparr>sp_threads := add_mset Sending T\<rparr>)"
| post_fails: "sp_threads st = add_mset Checked T \<Longrightarrow> \<not> sp_cancel st \<Longrightarrow>
    post_current_send st (st\<lparr>sp_current := None, sp_offset := 0, sp_gave_up := True, sp_threads := add_mset Dropping T\<rparr>)"
| drop_token: "sp_threads st = add_mset Dropping T \<Longrightarrow> post_current_send st (st\<lparr>sp_sending := False, sp_threads := T\<rparr>)"

text \<open>
  The handlers of a completed send: \<open>OnSendCompleted\<close> moves \<open>m_sendOffset\<close> on by the bytes \<open>n\<close> that were transferred and posts the rest of
  the packet, or releases it, clears \<open>m_sending\<close> and goes on with \<open>TrySendNext\<close>; \<open>HandleSendCancelled\<close> only drops the I/O count. A
  send that completes with success has transferred at least one byte and at most those that were posted.
\<close>

inductive send_partly :: "SendState \<Rightarrow> SendState \<Rightarrow> bool" where
  part: "sp_threads st = add_mset Sending T \<Longrightarrow> sp_current st = Some p \<Longrightarrow> 0 < n \<Longrightarrow> sp_offset st + n < sp_size st p \<Longrightarrow>
    send_partly st (st\<lparr>sp_offset := sp_offset st + n, sp_threads := add_mset Posting T\<rparr>)"

inductive send_completed :: "SendState \<Rightarrow> SendState \<Rightarrow> bool" where
  gone: "sp_threads st = add_mset Sending T \<Longrightarrow> sp_current st = None \<Longrightarrow>
    send_completed st (st\<lparr>sp_offset := sp_offset st + n, sp_threads := T\<rparr>)"
| whole: "sp_threads st = add_mset Sending T \<Longrightarrow> sp_current st = Some p \<Longrightarrow> 0 < n \<Longrightarrow> sp_offset st + n = sp_size st p \<Longrightarrow>
    send_completed st (st\<lparr>sp_current := None, sp_offset := 0, sp_threads := add_mset Sent T\<rparr>)"
| next_one: "sp_threads st = add_mset Sent T \<Longrightarrow>
    send_completed st (st\<lparr>sp_sending := False, sp_threads := add_mset Trying T\<rparr>)"
| cancelled: "sp_threads st = add_mset Sending T \<Longrightarrow>
    send_completed st (st\<lparr>sp_gave_up := True, sp_threads := add_mset Abandoned T\<rparr>)"

text \<open>\<open>CancelPendingIO\<close> on another thread.\<close>

inductive request_cancel :: "SendState \<Rightarrow> SendState \<Rightarrow> bool" where
  cancel: "request_cancel st (st\<lparr>sp_cancel := True\<rparr>)"

definition send_step :: "SendState \<Rightarrow> SendState \<Rightarrow> bool" where
  "send_step st st' \<longleftrightarrow> enqueue_send st st' \<or> try_send_next st st' \<or> post_current_send st st' \<or> send_partly st st' \<or>
     send_completed st st' \<or> request_cancel st st'"

definition send_init :: "(nat \<Rightarrow> nat) \<Rightarrow> SendState" where
  "send_init sizes = \<lparr>sp_sending = False, sp_queue = [], sp_current = None, sp_cancel = False, sp_threads = {#},
     sp_accepted = [], sp_taken = [], sp_gave_up = False, sp_size = sizes, sp_offset = 0\<rparr>"

section \<open>The token\<close>

text \<open>Those that own the token, and among them those that own the current packet.\<close>

definition with_packet :: "SendState \<Rightarrow> nat" where
  "with_packet st = count (sp_threads st) Posting + count (sp_threads st) Checked + count (sp_threads st) Sending +
     count (sp_threads st) Abandoned"

definition with_token :: "SendState \<Rightarrow> nat" where
  "with_token st = with_packet st + count (sp_threads st) Won + count (sp_threads st) Found_empty +
     count (sp_threads st) Sent + count (sp_threads st) Dropping"

definition send_token_inv :: "SendState \<Rightarrow> bool" where
  "send_token_inv st \<longleftrightarrow> with_token st = of_bool (sp_sending st) \<and> with_packet st = of_bool (sp_current st \<noteq> None) \<and>
     sp_accepted st = sp_taken st @ sp_queue st \<and>
     (\<forall>p. sp_current st = Some p \<longrightarrow> sp_taken st \<noteq> [] \<and> p = List.last (sp_taken st)) \<and>
     (sp_queue st \<noteq> [] \<longrightarrow> sp_sending st \<or> Trying \<in># sp_threads st \<or> Rechecking \<in># sp_threads st \<or> sp_gave_up st) \<and>
     (Dropping \<in># sp_threads st \<or> Abandoned \<in># sp_threads st \<longrightarrow> sp_gave_up st) \<and>
     (\<forall>p. sp_current st = Some p \<longrightarrow> sp_offset st < sp_size st p) \<and> (\<forall>p \<in> set (sp_queue st). 0 < sp_size st p)"

lemmas send_defs = send_token_inv_def with_token_def with_packet_def

lemma Suc_of_bool [simp]: "Suc n = of_bool b \<longleftrightarrow> b \<and> n = 0"
  by (cases b) auto

lemma enqueue_send_inv: "enqueue_send st st' \<Longrightarrow> send_token_inv st \<Longrightarrow> send_token_inv st'"
  by (induction rule: enqueue_send.induct) (auto simp: send_defs)

lemma try_send_next_inv: "try_send_next st st' \<Longrightarrow> send_token_inv st \<Longrightarrow> send_token_inv st'"
  by (induction rule: try_send_next.induct) (auto simp: send_defs)

lemma post_current_send_inv: "post_current_send st st' \<Longrightarrow> send_token_inv st \<Longrightarrow> send_token_inv st'"
  by (induction rule: post_current_send.induct) (auto simp: send_defs)

lemma send_completed_inv: "send_completed st st' \<Longrightarrow> send_token_inv st \<Longrightarrow> send_token_inv st'"
  by (induction rule: send_completed.induct) (auto simp: send_defs)

lemma request_cancel_inv: "request_cancel st st' \<Longrightarrow> send_token_inv st \<Longrightarrow> send_token_inv st'"
  by (induction rule: request_cancel.induct) (auto simp: send_defs)

lemma send_partly_inv: "send_partly st st' \<Longrightarrow> send_token_inv st \<Longrightarrow> send_token_inv st'"
  by (induction rule: send_partly.induct) (auto simp: send_defs)

lemma send_step_inv: "send_step st st' \<Longrightarrow> send_token_inv st \<Longrightarrow> send_token_inv st'"
  unfolding send_step_def
  using enqueue_send_inv try_send_next_inv post_current_send_inv send_partly_inv send_completed_inv request_cancel_inv by blast

lemma send_init_inv: "send_token_inv (send_init sizes)"
  by (simp add: send_init_def send_defs)

lemma send_reach_inv: "send_step\<^sup>*\<^sup>* (send_init sizes) st \<Longrightarrow> send_token_inv st"
  by (induction rule: rtranclp_induct) (use send_init_inv send_step_inv in blast)+

text \<open>
  C23. At most one thread, or one outstanding send, has the sending token, and \<open>m_sending\<close> is set exactly while it is held; the current
  packet belongs to its holder, so \<open>m_sendOverlapped\<close>, \<open>m_currentSendPacket\<close> and \<open>m_sendOffset\<close> have one writer
  and two sends are never outstanding; and packets become current in the order they were queued, each once.
\<close>

theorem one_send_at_a_time:
  assumes "send_step\<^sup>*\<^sup>* (send_init sizes) st"
  shows "with_token st = of_bool (sp_sending st) \<and> count (sp_threads st) Sending \<le> 1 \<and>
    with_packet st = of_bool (sp_current st \<noteq> None) \<and> sp_accepted st = sp_taken st @ sp_queue st"
proof (intro conjI)
  note I = send_reach_inv [OF assms]
  then show "with_token st = of_bool (sp_sending st)" "with_packet st = of_bool (sp_current st \<noteq> None)"
    "sp_accepted st = sp_taken st @ sp_queue st" unfolding send_token_inv_def by blast+
  have "count (sp_threads st) Sending \<le> with_packet st" by (simp add: with_packet_def)
  also have "\<dots> \<le> 1" using I by (simp add: send_token_inv_def of_bool_def)
  finally show "count (sp_threads st) Sending \<le> 1" .
qed

section \<open>No packet is left behind\<close>
















text \<open>Applied to the run that queues one packet and sends it in two parts.\<close>

definition send_at :: "send_pc multiset \<Rightarrow> bool \<Rightarrow> nat option \<Rightarrow> nat list \<Rightarrow> nat \<Rightarrow> SendState" where
  "send_at T sending cur q k = (send_init (\<lambda>_. 3))\<lparr>sp_sending := sending, sp_queue := q, sp_current := cur, sp_threads := T,
     sp_accepted := [7], sp_taken := (if q = [] then [7] else []), sp_offset := k\<rparr>"

lemma send_step_intros:
  "enqueue_send s t \<Longrightarrow> send_step s t" "try_send_next s t \<Longrightarrow> send_step s t" "post_current_send s t \<Longrightarrow> send_step s t"
  "send_completed s t \<Longrightarrow> send_step s t" "send_partly s t \<Longrightarrow> send_step s t"
  by (simp_all add: send_step_def)

lemma send_run: "send_step\<^sup>*\<^sup>* (send_init (\<lambda>_. 3)) (send_at {#} False None [] 0)"
proof -
  have s1: "send_step (send_init (\<lambda>_. 3)) (send_at {#Trying#} False None [7] 0)"
    by (rule send_step_intros(1)) (use enqueue_send.push [of "send_init (\<lambda>_. 3)" 7] in \<open>simp add: send_at_def send_init_def\<close>)
  have s2: "send_step (send_at {#Trying#} False None [7] 0) (send_at {#Won#} True None [7] 0)"
    by (rule send_step_intros(2)) (use try_send_next.win [of "send_at {#Trying#} False None [7] 0" "{#}"] in \<open>simp add: send_at_def send_init_def\<close>)
  have s3: "send_step (send_at {#Won#} True None [7] 0) (send_at {#Posting#} True (Some 7) [] 0)"
    by (rule send_step_intros(2)) (use try_send_next.take_next [of "send_at {#Won#} True None [7] 0" "{#}" 7 "[]"] in \<open>simp add: send_at_def send_init_def\<close>)
  have s4: "send_step (send_at {#Posting#} True (Some 7) [] 0) (send_at {#Checked#} True (Some 7) [] 0)"
    by (rule send_step_intros(3)) (use post_current_send.go_on [of "send_at {#Posting#} True (Some 7) [] 0" "{#}" 7] in \<open>simp add: send_at_def send_init_def\<close>)
  have s5: "send_step (send_at {#Checked#} True (Some 7) [] 0) (send_at {#Sending#} True (Some 7) [] 0)"
    by (rule send_step_intros(3)) (use post_current_send.post [of "send_at {#Checked#} True (Some 7) [] 0" "{#}"] in \<open>simp add: send_at_def send_init_def\<close>)
  have s6: "send_step (send_at {#Sending#} True (Some 7) [] 0) (send_at {#Posting#} True (Some 7) [] 2)"
    by (rule send_step_intros(5)) (use send_partly.part [of "send_at {#Sending#} True (Some 7) [] 0" "{#}" 7 2] in \<open>simp add: numeral_2_eq_2 send_at_def send_init_def\<close>)
  have s7: "send_step (send_at {#Posting#} True (Some 7) [] 2) (send_at {#Checked#} True (Some 7) [] 2)"
    by (rule send_step_intros(3)) (use post_current_send.go_on [of "send_at {#Posting#} True (Some 7) [] 2" "{#}" 7] in \<open>simp add: send_at_def send_init_def\<close>)
  have s8: "send_step (send_at {#Checked#} True (Some 7) [] 2) (send_at {#Sending#} True (Some 7) [] 2)"
    by (rule send_step_intros(3)) (use post_current_send.post [of "send_at {#Checked#} True (Some 7) [] 2" "{#}"] in \<open>simp add: send_at_def send_init_def\<close>)
  have s9: "send_step (send_at {#Sending#} True (Some 7) [] 2) (send_at {#Sent#} True None [] 0)"
    by (rule send_step_intros(4)) (use send_completed.whole [of "send_at {#Sending#} True (Some 7) [] 2" "{#}" 7 1] in \<open>simp add: send_at_def send_init_def\<close>)
  have s10: "send_step (send_at {#Sent#} True None [] 0) (send_at {#Trying#} False None [] 0)"
    by (rule send_step_intros(4)) (use send_completed.next_one [of "send_at {#Sent#} True None [] 0" "{#}"] in \<open>simp add: send_at_def send_init_def\<close>)
  have s11: "send_step (send_at {#Trying#} False None [] 0) (send_at {#Won#} True None [] 0)"
    by (rule send_step_intros(2)) (use try_send_next.win [of "send_at {#Trying#} False None [] 0" "{#}"] in \<open>simp add: send_at_def send_init_def\<close>)
  have s12: "send_step (send_at {#Won#} True None [] 0) (send_at {#Found_empty#} True None [] 0)"
    by (rule send_step_intros(2)) (use try_send_next.nothing [of "send_at {#Won#} True None [] 0" "{#}"] in \<open>simp add: send_at_def send_init_def\<close>)
  have s13: "send_step (send_at {#Found_empty#} True None [] 0) (send_at {#Rechecking#} False None [] 0)"
    by (rule send_step_intros(2)) (use try_send_next.go_idle [of "send_at {#Found_empty#} True None [] 0" "{#}"] in \<open>simp add: send_at_def send_init_def\<close>)
  have s14: "send_step (send_at {#Rechecking#} False None [] 0) (send_at {#} False None [] 0)"
    by (rule send_step_intros(2)) (use try_send_next.still_empty [of "send_at {#Rechecking#} False None [] 0" "{#}"] in \<open>simp add: send_at_def send_init_def\<close>)
  show ?thesis using s1 s2 s3 s4 s5 s6 s7 s8 s9 s10 s11 s12 s13 s14
    by (meson converse_rtranclp_into_rtranclp rtranclp.rtrancl_refl)
qed

lemma one_send_at_a_time_witness: "with_token (send_at {#} False None [] 0) = 0"
  using one_send_at_a_time [OF send_run] by (simp add: send_at_def)


end
