(* ===== verification/PauseProtocol.thy ===== *)
theory PauseProtocol
  imports Prelude "HOL-Library.Multiset"
begin

text \<open>
  The receive chain of a session and its backpressure. A handler that has finished with a receive posts the next one, or pauses
  when too many jobs are queued (\<open>ClientSession::PostReceiveOrPause\<close>); a pause holds one count of \<open>m_ioCount\<close>, and whoever takes
  \<open>m_recvPaused\<close> from 1 to 0 gives it back: a worker that has drained the jobs, the pausing handler itself, or a cancel. A step is one
  interlocked operation, one read of a shared field, one critical section of the job queue, or one \<open>PostReceive\<close>.
\<close>

section \<open>Threads and steps\<close>

text \<open>
  \<open>Receiving\<close>: a posted receive, up to the end of \<open>HandleRecv\<close>'s parsing. \<open>At_tail\<close>: \<open>HandleRecv\<close> calls
  \<open>PostReceiveOrPause\<close>. \<open>Marking\<close>: past the \<open>BeginIO\<close> that keeps the session for the pause. \<open>Marked\<close>: has set \<open>m_recvPaused\<close>
  and will look at the depth again. \<open>Resuming h\<close>: at the compare-and-swap of \<open>ResumeReceive\<close>. \<open>Resumer h\<close>: has won it. \<open>Dropping h\<close>: after its
  \<open>PostReceive\<close>, before the \<open>DecrementIO\<close> of the pause. The handler's own calls have \<open>h\<close> true, those of a worker
  false. \<open>Leaving\<close>: the handler before its last \<open>DecrementIO\<close>. \<open>Unpausing\<close>: a canceller that has
  won the compare-and-swap of \<open>ReleaseUnpostedIO\<close>. \<open>Working\<close>: a worker in its loop over the jobs. \<open>Drained\<close>: after the loop,
  at \<open>ResumeReceiveIfDrained\<close>. \<open>Saw_pause\<close>: has read \<open>m_recvPaused\<close> as 1 and will read the depth.
\<close>

datatype recv_pc = Receiving | At_tail | Marking | Marked | Resuming bool | Resumer bool | Dropping bool | Leaving
  | Unpausing | Working | Drained | Saw_pause

record PauseState =
  pp_pauseDepth :: nat
  pp_resumeDepth :: nat
  pp_depth :: nat
  pp_paused :: bool
  pp_io :: int
  pp_cancel :: bool
  pp_ended :: bool
  pp_threads :: "recv_pc multiset"

text \<open>A job is queued, by the handler or any other thread; a receive completes.\<close>

inductive receive_step :: "PauseState \<Rightarrow> PauseState \<Rightarrow> bool" where
  job: "receive_step st (st\<lparr>pp_depth := pp_depth st + 1\<rparr>)"
| received: "pp_threads st = add_mset Receiving T \<Longrightarrow> receive_step st (st\<lparr>pp_threads := add_mset At_tail T\<rparr>)"
| closed: "pp_threads st = add_mset Receiving T \<Longrightarrow>
    receive_step st (st\<lparr>pp_ended := True, pp_threads := add_mset Leaving T\<rparr>)"
| leave: "pp_threads st = add_mset Leaving T \<Longrightarrow> receive_step st (st\<lparr>pp_io := pp_io st - 1, pp_threads := T\<rparr>)"

text \<open>\<open>ClientSession::PostReceiveOrPause\<close>. A \<open>PostReceive\<close> that fails, because of a cancel or otherwise, ends the chain.\<close>

inductive post_or_pause :: "PauseState \<Rightarrow> PauseState \<Rightarrow> bool" where
  post: "pp_threads st = add_mset At_tail T \<Longrightarrow> pp_pauseDepth st = 0 \<or> pp_depth st < pp_pauseDepth st \<Longrightarrow> \<not> pp_cancel st \<Longrightarrow>
    post_or_pause st (st\<lparr>pp_io := pp_io st + 1, pp_threads := add_mset Receiving (add_mset Leaving T)\<rparr>)"
| post_fails: "pp_threads st = add_mset At_tail T \<Longrightarrow> pp_pauseDepth st = 0 \<or> pp_depth st < pp_pauseDepth st \<Longrightarrow>
    post_or_pause st (st\<lparr>pp_ended := True, pp_threads := add_mset Leaving T\<rparr>)"
| hold: "pp_threads st = add_mset At_tail T \<Longrightarrow> \<not> (pp_pauseDepth st = 0 \<or> pp_depth st < pp_pauseDepth st) \<Longrightarrow> \<not> pp_cancel st \<Longrightarrow>
    post_or_pause st (st\<lparr>pp_io := pp_io st + 1, pp_threads := add_mset Marking T\<rparr>)"
| hold_declined: "pp_threads st = add_mset At_tail T \<Longrightarrow> \<not> (pp_pauseDepth st = 0 \<or> pp_depth st < pp_pauseDepth st) \<Longrightarrow> pp_cancel st \<Longrightarrow>
    post_or_pause st (st\<lparr>pp_ended := True, pp_threads := add_mset Leaving T\<rparr>)"
| mark: "pp_threads st = add_mset Marking T \<Longrightarrow>
    post_or_pause st (st\<lparr>pp_paused := True, pp_threads := add_mset Marked T\<rparr>)"
| stay_paused: "pp_threads st = add_mset Marked T \<Longrightarrow> pp_depth st > pp_resumeDepth st \<Longrightarrow>
    post_or_pause st (st\<lparr>pp_threads := add_mset Leaving T\<rparr>)"
| look_again: "pp_threads st = add_mset Marked T \<Longrightarrow> pp_depth st \<le> pp_resumeDepth st \<Longrightarrow>
    post_or_pause st (st\<lparr>pp_threads := add_mset (Resuming True) T\<rparr>)"

text \<open>
  \<open>ClientSession::ResumeReceive\<close>, called by the handler or a worker; after it the handler leaves and the worker is done.
\<close>

definition after :: "bool \<Rightarrow> recv_pc multiset \<Rightarrow> recv_pc multiset" where
  "after h T = (if h then add_mset Leaving T else T)"

inductive resume_receive :: "PauseState \<Rightarrow> PauseState \<Rightarrow> bool" where
  lost: "pp_threads st = add_mset (Resuming h) T \<Longrightarrow> \<not> pp_paused st \<Longrightarrow> resume_receive st (st\<lparr>pp_threads := after h T\<rparr>)"
| won: "pp_threads st = add_mset (Resuming h) T \<Longrightarrow> pp_paused st \<Longrightarrow>
    resume_receive st (st\<lparr>pp_paused := False, pp_threads := add_mset (Resumer h) T\<rparr>)"
| repost: "pp_threads st = add_mset (Resumer h) T \<Longrightarrow> \<not> pp_cancel st \<Longrightarrow>
    resume_receive st (st\<lparr>pp_io := pp_io st + 1, pp_threads := add_mset Receiving (add_mset (Dropping h) T)\<rparr>)"
| repost_fails: "pp_threads st = add_mset (Resumer h) T \<Longrightarrow>
    resume_receive st (st\<lparr>pp_ended := True, pp_threads := add_mset (Dropping h) T\<rparr>)"
| drop: "pp_threads st = add_mset (Dropping h) T \<Longrightarrow>
    resume_receive st (st\<lparr>pp_io := pp_io st - 1, pp_threads := after h T\<rparr>)"

text \<open>
  The worker's loop over the jobs, and \<open>ResumeReceiveIfDrained\<close> after it.
\<close>

inductive drain_step :: "PauseState \<Rightarrow> PauseState \<Rightarrow> bool" where
  enter: "drain_step st (st\<lparr>pp_threads := add_mset Working (pp_threads st)\<rparr>)"
| take: "pp_threads st = add_mset Working T \<Longrightarrow> pp_depth st = Suc d \<Longrightarrow> drain_step st (st\<lparr>pp_depth := d\<rparr>)"
| done_all: "pp_threads st = add_mset Working T \<Longrightarrow> pp_depth st = 0 \<Longrightarrow>
    drain_step st (st\<lparr>pp_threads := add_mset Drained T\<rparr>)"
| not_paused: "pp_threads st = add_mset Drained T \<Longrightarrow> \<not> pp_paused st \<Longrightarrow> drain_step st (st\<lparr>pp_threads := T\<rparr>)"
| is_paused: "pp_threads st = add_mset Drained T \<Longrightarrow> pp_paused st \<Longrightarrow>
    drain_step st (st\<lparr>pp_threads := add_mset Saw_pause T\<rparr>)"
| too_deep: "pp_threads st = add_mset Saw_pause T \<Longrightarrow> pp_depth st > pp_resumeDepth st \<Longrightarrow> drain_step st (st\<lparr>pp_threads := T\<rparr>)"
| low: "pp_threads st = add_mset Saw_pause T \<Longrightarrow> pp_depth st \<le> pp_resumeDepth st \<Longrightarrow>
    drain_step st (st\<lparr>pp_threads := add_mset (Resuming False) T\<rparr>)"

text \<open>A cancel: \<open>m_cancelIo\<close>, and \<open>ReleaseUnpostedIO\<close>, which the waiting thread repeats.\<close>

inductive release_unposted :: "PauseState \<Rightarrow> PauseState \<Rightarrow> bool" where
  cancel: "release_unposted st (st\<lparr>pp_cancel := True\<rparr>)"
| unpause: "pp_cancel st \<Longrightarrow> pp_paused st \<Longrightarrow>
    release_unposted st (st\<lparr>pp_paused := False, pp_ended := True, pp_threads := add_mset Unpausing (pp_threads st)\<rparr>)"
| give_back: "pp_threads st = add_mset Unpausing T \<Longrightarrow>
    release_unposted st (st\<lparr>pp_io := pp_io st - 1, pp_threads := T\<rparr>)"

definition pause_step :: "PauseState \<Rightarrow> PauseState \<Rightarrow> bool" where
  "pause_step st st' \<longleftrightarrow> receive_step st st' \<or> post_or_pause st st' \<or> resume_receive st st' \<or> drain_step st st' \<or> release_unposted st st'"

text \<open>A connected session with its first receive posted.\<close>

definition pause_init :: "nat \<Rightarrow> nat \<Rightarrow> PauseState" where
  "pause_init pauseDepth resumeDepth = \<lparr>pp_pauseDepth = pauseDepth, pp_resumeDepth = resumeDepth, pp_depth = 0, pp_paused = False,
     pp_io = 1, pp_cancel = False, pp_ended = False, pp_threads = {#Receiving#}\<rparr>"

section \<open>The chain and its counts\<close>

text \<open>The I/O counts a thread or posted receive holds, and whether it is the link of the receive chain.\<close>

fun counts :: "recv_pc \<Rightarrow> int" where
  "counts Receiving = 1" | "counts At_tail = 1" | "counts Marking = 2" | "counts Marked = 1" | "counts (Resuming h) = of_bool h"
| "counts (Resumer h) = 1 + of_bool h" | "counts (Dropping h) = 1 + of_bool h" | "counts Leaving = 1" | "counts Unpausing = 1"
| "counts _ = 0"

fun link :: "recv_pc \<Rightarrow> nat" where
  "link Receiving = 1" | "link At_tail = 1" | "link Marking = 1" | "link (Resumer h) = 1" | "link _ = 0"

fun looks :: "recv_pc \<Rightarrow> bool" where
  "looks Working = True" | "looks Drained = True" | "looks Saw_pause = True" | "looks Marked = True"
| "looks (Resuming h) = True" | "looks _ = False"

definition pause_inv :: "PauseState \<Rightarrow> bool" where
  "pause_inv st \<longleftrightarrow> pp_io st = (\<Sum>p\<in>#pp_threads st. counts p) + of_bool (pp_paused st) \<and>
     (\<Sum>p\<in>#pp_threads st. link p) + of_bool (pp_paused st) + of_bool (pp_ended st) = 1 \<and>
     (pp_paused st \<and> pp_depth st \<le> pp_resumeDepth st \<longrightarrow> (\<exists>p\<in>#pp_threads st. looks p))"

lemma receive_step_inv: "receive_step st st' \<Longrightarrow> pause_inv st \<Longrightarrow> pause_inv st'"
  by (induction rule: receive_step.induct) (auto simp: pause_inv_def)

lemma post_or_pause_inv: "post_or_pause st st' \<Longrightarrow> pause_inv st \<Longrightarrow> pause_inv st'"
  by (induction rule: post_or_pause.induct) (auto simp: pause_inv_def)

lemma resume_receive_inv: "resume_receive st st' \<Longrightarrow> pause_inv st \<Longrightarrow> pause_inv st'"
  by (induction rule: resume_receive.induct) (auto simp: pause_inv_def after_def)

lemma drain_step_inv: "drain_step st st' \<Longrightarrow> pause_inv st \<Longrightarrow> pause_inv st'"
  by (induction rule: drain_step.induct) (auto simp: pause_inv_def)

lemma release_unposted_inv: "release_unposted st st' \<Longrightarrow> pause_inv st \<Longrightarrow> pause_inv st'"
  by (induction rule: release_unposted.induct) (auto simp: pause_inv_def)

lemma pause_step_intros:
  "receive_step s t \<Longrightarrow> pause_step s t" "post_or_pause s t \<Longrightarrow> pause_step s t" "resume_receive s t \<Longrightarrow> pause_step s t"
  "drain_step s t \<Longrightarrow> pause_step s t" "release_unposted s t \<Longrightarrow> pause_step s t"
  by (simp_all add: pause_step_def)

lemma pause_step_inv: "pause_step st st' \<Longrightarrow> pause_inv st \<Longrightarrow> pause_inv st'"
  unfolding pause_step_def
  using receive_step_inv post_or_pause_inv resume_receive_inv drain_step_inv release_unposted_inv by blast

lemma pause_init_inv: "pause_inv (pause_init a b)"
  by (simp add: pause_init_def pause_inv_def)

lemma pause_reach_inv: "pause_step\<^sup>*\<^sup>* (pause_init a b) st \<Longrightarrow> pause_inv st"
  by (induction rule: rtranclp_induct) (use pause_init_inv pause_step_inv in blast)+

lemma count_le_links: "count T Receiving \<le> (\<Sum>p\<in>#T. link p)"
  by (induction T) auto

lemma counts_nonneg: "0 \<le> (\<Sum>p\<in>#T. counts p)"
proof (induction T)
  case (add p T)
  have "0 \<le> counts p" by (cases p) auto
  with add show ?case by simp
qed simp

text \<open>
  C25. The receive chain of a session has one link at a time: a posted receive, the handler that follows it, a pause, or the thread that
  resumes it. So two receives are never outstanding and the receive ring has one writer; a paused session has no
  receive outstanding; the count a pause holds is given back exactly once, so the I/O count never goes negative and is the
  sum of what is held.
\<close>

theorem receive_chain:
  assumes "pause_step\<^sup>*\<^sup>* (pause_init a b) st"
  shows "(\<Sum>p\<in>#pp_threads st. link p) + of_bool (pp_paused st) + of_bool (pp_ended st) = 1 \<and>
    count (pp_threads st) Receiving \<le> 1 \<and> (pp_paused st \<longrightarrow> Receiving \<notin># pp_threads st) \<and>
    pp_io st = (\<Sum>p\<in>#pp_threads st. counts p) + of_bool (pp_paused st) \<and> 0 \<le> pp_io st"
proof (intro conjI impI)
  note I = pause_reach_inv [OF assms, unfolded pause_inv_def]
  show one: "(\<Sum>p\<in>#pp_threads st. link p) + of_bool (pp_paused st) + of_bool (pp_ended st) = 1"
    and io: "pp_io st = (\<Sum>p\<in>#pp_threads st. counts p) + of_bool (pp_paused st)" using I by auto
  show "count (pp_threads st) Receiving \<le> 1" using count_le_links [of "pp_threads st"] one by linarith
  show "Receiving \<notin># pp_threads st" if "pp_paused st"
  proof -
    have "(\<Sum>p\<in>#pp_threads st. link p) + 1 + of_bool (pp_ended st) = 1" using one that by (simp only: of_bool_eq)
    then have "count (pp_threads st) Receiving = 0" using count_le_links [of "pp_threads st"] by linarith
    then show ?thesis by (simp only: not_in_iff)
  qed
  show "0 \<le> pp_io st" using io counts_nonneg [of "pp_threads st"] by simp
qed

text \<open>
  C26. No pause is forgotten. When the jobs have been worked off below the resume level and no thread is on its way,
  a chain that has not ended (by a closed connection, a failed receive or a cancel) has its receive posted: the session does not stay
  deaf because a worker looked at \<open>m_recvPaused\<close> just before it was set.
\<close>

theorem pause_not_lost:
  assumes "pause_step\<^sup>*\<^sup>* (pause_init a b) st" and "pp_depth st \<le> pp_resumeDepth st"
    and "\<forall>p\<in>#pp_threads st. p = Receiving" and "\<not> pp_ended st"
  shows "pp_threads st = {#Receiving#} \<and> \<not> pp_paused st \<and> pp_io st = 1"
proof (intro conjI)
  note I = pause_reach_inv [OF assms(1), unfolded pause_inv_def]
  show np: "\<not> pp_paused st" using I assms(2,3) by fastforce
  have all: "pp_threads st = replicate_mset (size (pp_threads st)) Receiving"
    using assms(3) set_mset_subset_singletonD [of "pp_threads st" Receiving] by blast
  then obtain n where n: "pp_threads st = replicate_mset n Receiving" by blast
  have "(\<Sum>p\<in>#replicate_mset n Receiving. link p) = n" by (induction n) auto
  then have "n = 1" using I np assms(4) n by simp
  then show "pp_threads st = {#Receiving#}" using n by simp
  then show "pp_io st = 1" using I np by simp
qed

text \<open>Applied to the run that pauses at one job and resumes when it is done.\<close>

definition pause_at :: "recv_pc multiset \<Rightarrow> nat \<Rightarrow> bool \<Rightarrow> int \<Rightarrow> PauseState" where
  "pause_at T depth paused io =
     (pause_init 1 0)\<lparr>pp_depth := depth, pp_paused := paused, pp_io := io, pp_threads := T\<rparr>"

lemma pause_run: "pause_step\<^sup>*\<^sup>* (pause_init 1 0) (pause_at {#Receiving#} 0 False 1)"
proof -
  have s1: "pause_step (pause_init 1 0) (pause_at {#Receiving#} 1 False 1)"
    by (rule pause_step_intros(1)) (use receive_step.job [of "pause_init 1 0"] in \<open>simp add: pause_at_def pause_init_def after_def\<close>)
  have s2: "pause_step (pause_at {#Receiving#} 1 False 1) (pause_at {#At_tail#} 1 False 1)"
    by (rule pause_step_intros(1)) (use receive_step.received [of "pause_at {#Receiving#} 1 False 1" "{#}"] in \<open>simp add: pause_at_def pause_init_def after_def\<close>)
  have s3: "pause_step (pause_at {#At_tail#} 1 False 1) (pause_at {#Marking#} 1 False 2)"
    by (rule pause_step_intros(2)) (use post_or_pause.hold [of "pause_at {#At_tail#} 1 False 1" "{#}"] in \<open>simp add: pause_at_def pause_init_def after_def\<close>)
  have s4: "pause_step (pause_at {#Marking#} 1 False 2) (pause_at {#Marked#} 1 True 2)"
    by (rule pause_step_intros(2)) (use post_or_pause.mark [of "pause_at {#Marking#} 1 False 2" "{#}"] in \<open>simp add: pause_at_def pause_init_def after_def\<close>)
  have s5: "pause_step (pause_at {#Marked#} 1 True 2) (pause_at {#Leaving#} 1 True 2)"
    by (rule pause_step_intros(2)) (use post_or_pause.stay_paused [of "pause_at {#Marked#} 1 True 2" "{#}"] in \<open>simp add: pause_at_def pause_init_def after_def\<close>)
  have s6: "pause_step (pause_at {#Leaving#} 1 True 2) (pause_at {#} 1 True 1)"
    by (rule pause_step_intros(1)) (use receive_step.leave [of "pause_at {#Leaving#} 1 True 2" "{#}"] in \<open>simp add: pause_at_def pause_init_def after_def\<close>)
  have s7: "pause_step (pause_at {#} 1 True 1) (pause_at {#Working#} 1 True 1)"
    by (rule pause_step_intros(4)) (use drain_step.enter [of "pause_at {#} 1 True 1"] in \<open>simp add: pause_at_def pause_init_def after_def\<close>)
  have s8: "pause_step (pause_at {#Working#} 1 True 1) (pause_at {#Working#} 0 True 1)"
    by (rule pause_step_intros(4)) (use drain_step.take [of "pause_at {#Working#} 1 True 1" "{#}" 0] in \<open>simp add: pause_at_def pause_init_def after_def\<close>)
  have s9: "pause_step (pause_at {#Working#} 0 True 1) (pause_at {#Drained#} 0 True 1)"
    by (rule pause_step_intros(4)) (use drain_step.done_all [of "pause_at {#Working#} 0 True 1" "{#}"] in \<open>simp add: pause_at_def pause_init_def after_def\<close>)
  have s10: "pause_step (pause_at {#Drained#} 0 True 1) (pause_at {#Saw_pause#} 0 True 1)"
    by (rule pause_step_intros(4)) (use drain_step.is_paused [of "pause_at {#Drained#} 0 True 1" "{#}"] in \<open>simp add: pause_at_def pause_init_def after_def\<close>)
  have s11: "pause_step (pause_at {#Saw_pause#} 0 True 1) (pause_at {#Resuming False#} 0 True 1)"
    by (rule pause_step_intros(4)) (use drain_step.low [of "pause_at {#Saw_pause#} 0 True 1" "{#}"] in \<open>simp add: pause_at_def pause_init_def after_def\<close>)
  have s12: "pause_step (pause_at {#Resuming False#} 0 True 1) (pause_at {#Resumer False#} 0 False 1)"
    by (rule pause_step_intros(3)) (use resume_receive.won [of "pause_at {#Resuming False#} 0 True 1" False "{#}"] in \<open>simp add: pause_at_def pause_init_def after_def\<close>)
  have s13: "pause_step (pause_at {#Resumer False#} 0 False 1) (pause_at {#Receiving, Dropping False#} 0 False 2)"
    by (rule pause_step_intros(3)) (use resume_receive.repost [of "pause_at {#Resumer False#} 0 False 1" False "{#}"] in \<open>simp add: pause_at_def pause_init_def after_def\<close>)
  have s14: "pause_step (pause_at {#Receiving, Dropping False#} 0 False 2) (pause_at {#Receiving#} 0 False 1)"
    by (rule pause_step_intros(3)) (use resume_receive.drop [of "pause_at {#Receiving, Dropping False#} 0 False 2" False "{#Receiving#}"] in \<open>simp add: pause_at_def pause_init_def after_def\<close>)
  show ?thesis using s1 s2 s3 s4 s5 s6 s7 s8 s9 s10 s11 s12 s13 s14 by (meson converse_rtranclp_into_rtranclp rtranclp.rtrancl_refl)
qed

lemma receive_chain_witness: "pp_io (pause_at {#Receiving#} 0 False 1) = 1"
  using receive_chain [OF pause_run] by (simp add: pause_at_def)

lemma pause_not_lost_witness: "\<not> pp_paused (pause_at {#Receiving#} 0 False 1)"
  using pause_not_lost [OF pause_run] by (simp add: pause_at_def pause_init_def)

end
