(* ===== verification/Session.thy ===== *)
theory Session
  imports RecvRing JobQueue Config
begin

text \<open>
  Sessions, as one thread sees them: \<open>Session/BaseSession\<close> and \<open>Session/ClientSession\<close>. The state of a session is a record with
  the members of the two classes; what it shares (pools, packets, the clock, the kernel's answers) is a record of the
  world. The interleaving of many threads is the subject of \<open>ReleaseProtocol\<close>, \<open>SendProtocol\<close> and \<open>PauseProtocol\<close>.
  Logging is left out.
\<close>

section \<open>State\<close>

datatype IO_OPERATION = OP_INVALID | OP_ACCEPT | OP_CONNECT | OP_RECV | OP_SEND

datatype ClientSessionState = Client_NONE | Client_CONNECT_READY | Client_CONNECTING | Client_CONNECTED | Client_AUTH_PENDING
  | Client_ESTABLISHED | Client_CONNECT_ABORTED | Client_DISCONNECTED

datatype ServerSessionState = Server_NONE | Server_CONNECT_READY | Server_CONNECTED | Server_AUTH_PENDING | Server_ESTABLISHED
  | Server_HEARTBEAT_TIMEOUT | Server_DISCONNECTED

datatype AcceptSessionState = Accept_NONE | Accept_READY | Accept_WAIT | Accept_COMPLETE | Accept_ABORTED | Accept_DISCONNECTED

text \<open>
  The flags that are 0 or 1 are booleans. The event is \<open>None\<close> when there is no handle, else whether it is signalled; a callback
  pointer is modelled by whether it is set.
\<close>

record BaseSession =
  m_destroyFlag :: bool
  m_sessionRole :: SESSION_ROLE
  m_clientSessionState :: ClientSessionState
  m_serverSessionState :: ServerSessionState
  m_acceptSessionState :: AcceptSessionState
  m_disconnectReason :: DisconnectReason
  m_clientSocket :: "nat option"
  m_sessionId :: u32
  m_closing :: bool
  m_ioCount :: int
  m_cancelIo :: bool
  m_releasePending :: bool
  m_releaseReadyFunc :: bool
  m_ioCancelCompleteEvent :: "bool option"

datatype SendRejectReason = NotEstablished | SendQueueFull

record ClientSession = BaseSession +
  m_recvPacketBuffer :: "RecvPacketBuffer option"
  m_bufferConfig :: SessionBufferConfig
  m_sendPacketQueue :: "SendPacketQueue option"
  m_currentSendPacket :: "addr option"
  m_currentJob :: "addr option"
  m_sendOffset :: u32
  m_jobQueue :: "SessionJobQueue option"
  m_sending :: bool
  m_processing :: bool
  m_recvPaused :: bool
  m_recvPauseCount :: nat
  m_serviceConnectNotified :: bool
  m_eventHandler :: bool
  m_sessionContext :: bool
  m_clientIPAddress :: string
  m_clientPort :: u16
  m_lastRecvTick :: u64
  m_lastHeartbeatTick :: u64
  m_sendRejectLogTick :: "SendRejectReason \<Rightarrow> u64"
  m_sendRejectSuppressed :: "SendRejectReason \<Rightarrow> nat"

text \<open>
  The world: the pools and their objects (\<open>JobWorld\<close>), the contents of packet memory, the clock, the kernel's answers to the socket
  calls in the order they are made (\<open>None\<close> for success, else the error code), what was posted by which session, and the violations reported.
\<close>

datatype posted = RecvPosted u32 nat u32 | SendPosted u32 bytes

record 'p NetWorld =
  nw_jobs :: "'p JobWorld"
  nw_mem :: "addr \<Rightarrow> bytes"
  nw_now :: u64
  nw_answers :: "nat \<Rightarrow> nat option"
  nw_calls :: nat
  nw_posted :: "posted list"
  nw_violations :: nat

type_synonym ('a, 'p, 'z) BaseNet = "'a BaseSession_scheme \<times> ('p, 'z) NetWorld_scheme"

type_synonym ('p, 'z) Net = "ClientSession \<times> ('p, 'z) NetWorld_scheme"

text \<open>The operations of the pools, and the two callbacks a session is given: \<open>ISessionEvent\<close> and \<open>ReleaseReadyFunc\<close>.\<close>

record ('p, 'w) Env =
  ev_acquire :: "'p \<Rightarrow> nat \<Rightarrow> addr option \<times> 'p"
  ev_release :: "'p \<Rightarrow> addr \<Rightarrow> 'p"
  ev_OnDisconnectRequest :: "'w \<Rightarrow> 'w"
  ev_OnReleaseReady :: "'w \<Rightarrow> 'w"

definition violation :: "('p, 'z) NetWorld_scheme \<Rightarrow> ('p, 'z) NetWorld_scheme" where
  "violation w = w\<lparr>nw_violations := nw_violations w + 1\<rparr>"

definition ask_os :: "('p, 'z) NetWorld_scheme \<Rightarrow> nat option \<times> ('p, 'z) NetWorld_scheme" where
  "ask_os w = (nw_answers w (nw_calls w), w\<lparr>nw_calls := nw_calls w + 1\<rparr>)"

abbreviation nw_send :: "('p, 'z) NetWorld_scheme \<Rightarrow> 'p SendWorld" where
  "nw_send w \<equiv> jw_send (nw_jobs w)"

definition set_send :: "'p SendWorld \<Rightarrow> ('p, 'z) NetWorld_scheme \<Rightarrow> ('p, 'z) NetWorld_scheme" where
  "set_send sw w = w\<lparr>nw_jobs := (nw_jobs w)\<lparr>jw_send := sw\<rparr>\<rparr>"

section \<open>BaseSession\<close>

text \<open>The operations of the base class act on a session of any kind: \<open>'a\<close> are the members of the derived class.\<close>

definition BaseSession_Initialize :: "bool \<Rightarrow> SESSION_ROLE \<Rightarrow> u32 \<Rightarrow> 'a BaseSession_scheme \<Rightarrow> bool \<times> 'a BaseSession_scheme" where
  "BaseSession_Initialize eventCreated sessionType sessionId s =
     (let s1 = s\<lparr>m_sessionRole := sessionType, m_sessionId := sessionId\<rparr> in
      case m_ioCancelCompleteEvent s1 of
        None \<Rightarrow> if eventCreated then (True, s1\<lparr>m_ioCancelCompleteEvent := Some False\<rparr>) else (False, s1)
      | Some _ \<Rightarrow> (True, s1\<lparr>m_ioCancelCompleteEvent := Some False\<rparr>))"

definition BaseSession_ResetSession :: "('a, 'p, 'z) BaseNet \<Rightarrow> ('a, 'p, 'z) BaseNet" where
  "BaseSession_ResetSession = (\<lambda>(s, w).
     (let w1 = (if m_clientSocket s \<noteq> None then violation w else w);
          w2 = (if m_ioCount s \<noteq> 0 then violation w1 else w1)
      in (s\<lparr>m_clientSessionState := Client_NONE, m_serverSessionState := Server_NONE, m_acceptSessionState := Accept_NONE,
            m_disconnectReason := Unknown, m_closing := False, m_cancelIo := False, m_releasePending := False\<rparr>, w2)))"

definition BaseSession_Finalize :: "('a, 'p, 'z) BaseNet \<Rightarrow> ('a, 'p, 'z) BaseNet" where
  "BaseSession_Finalize = (\<lambda>(s, w).
     if m_destroyFlag s then (s, w)
     else
       (let w1 = (if m_ioCount s \<noteq> 0 then violation w else w);
            w2 = (if m_clientSocket s \<noteq> None then violation w1 else w1)
        in (s\<lparr>m_clientSessionState := Client_NONE, m_serverSessionState := Server_NONE, m_acceptSessionState := Accept_NONE,
              m_closing := False, m_ioCount := 0, m_cancelIo := False, m_releasePending := False,
              m_ioCancelCompleteEvent := None, m_destroyFlag := True\<rparr>, w2)))"

definition SetEvent :: "'a BaseSession_scheme \<Rightarrow> 'a BaseSession_scheme" where
  "SetEvent s = s\<lparr>m_ioCancelCompleteEvent := map_option (\<lambda>_. True) (m_ioCancelCompleteEvent s)\<rparr>"

definition IncrementIO :: "'a BaseSession_scheme \<Rightarrow> 'a BaseSession_scheme" where
  "IncrementIO s = s\<lparr>m_ioCount := m_ioCount s + 1\<rparr>"

definition DecrementIO :: "('p, ('a, 'p, 'z) BaseNet) Env \<Rightarrow> ('a, 'p, 'z) BaseNet \<Rightarrow> ('a, 'p, 'z) BaseNet" where
  "DecrementIO env = (\<lambda>(s, w).
     (let s1 = s\<lparr>m_ioCount := m_ioCount s - 1\<rparr> in
      if m_ioCount s1 < 0 then (s1, violation w)
      else if m_ioCount s1 \<noteq> 0 then (s1, w)
      else
        (let s2 = (if m_cancelIo s1 then SetEvent s1 else s1);
             pending = m_releasePending s2;
             s3 = s2\<lparr>m_releasePending := False\<rparr>
         in if pending \<and> m_releaseReadyFunc s3 then ev_OnReleaseReady env (s3, w) else (s3, w))))"

definition RequestRelease :: "'a BaseSession_scheme \<Rightarrow> bool \<times> 'a BaseSession_scheme" where
  "RequestRelease s =
     (let s1 = s\<lparr>m_releasePending := True\<rparr> in
      if m_ioCount s1 \<noteq> 0 then (False, s1)
      else (m_releasePending s1, s1\<lparr>m_releasePending := False\<rparr>))"

abbreviation ERROR_INVALID_HANDLE :: nat where "ERROR_INVALID_HANDLE \<equiv> 6"
abbreviation ERROR_NETNAME_DELETED :: nat where "ERROR_NETNAME_DELETED \<equiv> 64"
abbreviation ERROR_OPERATION_ABORTED :: nat where "ERROR_OPERATION_ABORTED \<equiv> 995"
abbreviation WSA_IO_PENDING :: nat where "WSA_IO_PENDING \<equiv> 997"
abbreviation ERROR_NOT_FOUND :: nat where "ERROR_NOT_FOUND \<equiv> 1168"
abbreviation WSAEMFILE :: nat where "WSAEMFILE \<equiv> 10024"
abbreviation WSAECONNABORTED :: nat where "WSAECONNABORTED \<equiv> 10053"
abbreviation WSAECONNRESET :: nat where "WSAECONNRESET \<equiv> 10054"
abbreviation WSAENOBUFS :: nat where "WSAENOBUFS \<equiv> 10055"
abbreviation WSAENOTCONN :: nat where "WSAENOTCONN \<equiv> 10057"
abbreviation WSAESHUTDOWN :: nat where "WSAESHUTDOWN \<equiv> 10058"

text \<open>
  \<open>CancelPendingIO\<close> and the wait call the virtual \<open>ReleaseUnpostedIO\<close>, which the derived class gives as \<open>unposted\<close>; in the base
  class it does nothing.
\<close>

definition BaseSession_CancelPendingIO ::
  "(('a, 'p, 'z) BaseNet \<Rightarrow> ('a, 'p, 'z) BaseNet) \<Rightarrow> ('a, 'p, 'z) BaseNet \<Rightarrow> bool \<times> ('a, 'p, 'z) BaseNet" where
  "BaseSession_CancelPendingIO unposted = (\<lambda>(s, w).
     if m_clientSocket s \<noteq> None \<and> \<not> m_cancelIo s then
       (let s1 = s\<lparr>m_cancelIo := True, m_ioCancelCompleteEvent := map_option (\<lambda>_. False) (m_ioCancelCompleteEvent s)\<rparr> in
        case ask_os w of
          (None, w1) \<Rightarrow> (True, unposted (s1, w1))
        | (Some errorCode, w1) \<Rightarrow>
            if errorCode = ERROR_NOT_FOUND \<or> errorCode = ERROR_INVALID_HANDLE
            then (True, if m_ioCount s1 = 0 then SetEvent s1 else s1, w1)
            else (False, s1, w1))
     else (True, unposted (s, w)))"

definition ReissueCancelIo :: "('a, 'p, 'z) BaseNet \<Rightarrow> ('a, 'p, 'z) BaseNet" where
  "ReissueCancelIo = (\<lambda>(s, w). if m_clientSocket s = None then (s, w) else (s, snd (ask_os w)))"

text \<open>
  \<open>WaitForIOCancelComplete\<close>. Each element of \<open>waits\<close> is one wait on the event: what the other threads do meanwhile, with the clock,
  and how the wait ends. \<open>None\<close> means that the list is used up before the function returns.
\<close>

datatype wait_result = WAIT_OBJECT_0 | WAIT_TIMEOUT | WAIT_FAILED

abbreviation CANCEL_RETRY_SLICE_MS :: u32 where "CANCEL_RETRY_SLICE_MS \<equiv> 50"

definition wait_remaining :: "u64 \<Rightarrow> ('p, 'z) NetWorld_scheme \<Rightarrow> u32" where
  "wait_remaining deadline w = (if nw_now w \<ge> deadline then 0 else ucast (deadline - nw_now w))"

primrec wait_slices ::
  "(u32 \<Rightarrow> ('a, 'p, 'z) BaseNet \<Rightarrow> wait_result \<times> ('a, 'p, 'z) BaseNet) list \<Rightarrow>
     (('a, 'p, 'z) BaseNet \<Rightarrow> ('a, 'p, 'z) BaseNet) \<Rightarrow> u64 \<Rightarrow> ('a, 'p, 'z) BaseNet \<Rightarrow> (bool \<times> ('a, 'p, 'z) BaseNet) option" where
  "wait_slices [] unposted deadline sw =
     (if wait_remaining deadline (snd sw) = 0 then Some (m_ioCount (fst sw) = 0, sw) else None)"
| "wait_slices (wait # waits) unposted deadline sw =
     (let remaining = wait_remaining deadline (snd sw) in
      if remaining = 0 then Some (m_ioCount (fst sw) = 0, sw)
      else
        (case wait (if remaining < CANCEL_RETRY_SLICE_MS then remaining else CANCEL_RETRY_SLICE_MS) sw of
           (WAIT_OBJECT_0, sw1) \<Rightarrow> Some (True, sw1)
         | (WAIT_FAILED, sw1) \<Rightarrow> Some (False, sw1)
         | (WAIT_TIMEOUT, sw1) \<Rightarrow>
             if m_ioCount (fst sw1) = 0 then Some (True, sw1)
             else wait_slices waits unposted deadline (ReissueCancelIo (unposted sw1))))"

definition WaitForIOCancelComplete ::
  "(u32 \<Rightarrow> ('a, 'p, 'z) BaseNet \<Rightarrow> wait_result \<times> ('a, 'p, 'z) BaseNet) list \<Rightarrow>
     (('a, 'p, 'z) BaseNet \<Rightarrow> ('a, 'p, 'z) BaseNet) \<Rightarrow> u32 \<Rightarrow> ('a, 'p, 'z) BaseNet \<Rightarrow> (bool \<times> ('a, 'p, 'z) BaseNet) option" where
  "WaitForIOCancelComplete waits unposted timeout sw =
     (if m_ioCount (fst sw) = 0 then Some (True, sw)
      else if m_ioCancelCompleteEvent (fst sw) = None then Some (True, sw)
      else wait_slices waits unposted (nw_now (snd sw) + ucast timeout) sw)"

definition IsIOCancelRequested :: "'a BaseSession_scheme \<Rightarrow> bool" where
  "IsIOCancelRequested s \<longleftrightarrow> m_cancelIo s"

definition IsReleasePending :: "'a BaseSession_scheme \<Rightarrow> bool" where
  "IsReleasePending s \<longleftrightarrow> m_releasePending s"

definition BeginIO :: "('p, ('a, 'p, 'z) BaseNet) Env \<Rightarrow> ('a, 'p, 'z) BaseNet \<Rightarrow> bool \<times> ('a, 'p, 'z) BaseNet" where
  "BeginIO env = (\<lambda>(s, w).
     (let s1 = s\<lparr>m_ioCount := m_ioCount s + 1\<rparr> in
      if \<not> m_cancelIo s1 then (True, s1, w) else (False, DecrementIO env (s1, w))))"

definition BaseSession_OnDisconnect :: "'a BaseSession_scheme \<Rightarrow> bool \<times> 'a BaseSession_scheme" where
  "BaseSession_OnDisconnect s =
     (if m_closing s then (True, s)
      else
        (let s1 = s\<lparr>m_closing := True\<rparr> in
         (True, case m_sessionRole s1 of
                  ROLE_CLIENT \<Rightarrow> s1\<lparr>m_clientSessionState := Client_DISCONNECTED\<rparr>
                | ROLE_SERVER \<Rightarrow> s1\<lparr>m_serverSessionState := Server_DISCONNECTED\<rparr>
                | ROLE_ACCEPT \<Rightarrow> s1\<lparr>m_acceptSessionState := Accept_DISCONNECTED\<rparr>
                | ROLE_NONE \<Rightarrow> s1)))"

definition AttachSocket :: "nat option \<Rightarrow> ('a, 'p, 'z) BaseNet \<Rightarrow> ('a, 'p, 'z) BaseNet" where
  "AttachSocket socket = (\<lambda>(s, w).
     (s\<lparr>m_clientSocket := socket\<rparr>, if m_clientSocket s \<noteq> None then violation w else w))"

definition DetachSocket :: "'a BaseSession_scheme \<Rightarrow> nat option \<times> 'a BaseSession_scheme" where
  "DetachSocket s = (m_clientSocket s, s\<lparr>m_clientSocket := None\<rparr>)"

definition NoteDisconnectReason :: "DisconnectReason \<Rightarrow> 'a BaseSession_scheme \<Rightarrow> 'a BaseSession_scheme" where
  "NoteDisconnectReason reason s =
     (if m_disconnectReason s = Unknown then s\<lparr>m_disconnectReason := reason\<rparr> else s)"

section \<open>ClientSession: the count of a pause\<close>

text \<open>The override of \<open>ReleaseUnpostedIO\<close>, and \<open>CancelPendingIO\<close> with it.\<close>

definition ReleaseUnpostedIO :: "('p, ('p, 'z) Net) Env \<Rightarrow> ('p, 'z) Net \<Rightarrow> ('p, 'z) Net" where
  "ReleaseUnpostedIO env = (\<lambda>(s, w).
     if \<not> m_recvPaused s then (s, w) else DecrementIO env (s\<lparr>m_recvPaused := False\<rparr>, w))"

abbreviation CancelPendingIO :: "('p, ('p, 'z) Net) Env \<Rightarrow> ('p, 'z) Net \<Rightarrow> bool \<times> ('p, 'z) Net" where
  "CancelPendingIO env \<equiv> BaseSession_CancelPendingIO (ReleaseUnpostedIO env)"

section \<open>ClientSession: life cycle\<close>

text \<open>\<open>IsPeerClosedError\<close> only chooses the level of a log line.\<close>

definition new_ClientSession :: ClientSession where
  "new_ClientSession = \<lparr>m_destroyFlag = False, m_sessionRole = ROLE_NONE, m_clientSessionState = Client_NONE,
     m_serverSessionState = Server_NONE, m_acceptSessionState = Accept_NONE, m_disconnectReason = Unknown,
     m_clientSocket = None, m_sessionId = 4294967295, m_closing = False, m_ioCount = 0, m_cancelIo = False,
     m_releasePending = False, m_releaseReadyFunc = False, m_ioCancelCompleteEvent = None, m_recvPacketBuffer = None,
     m_bufferConfig = \<lparr>maxRecvPacketSize = 0, recvRingSize = 0, maxSendPacketSize = 0, sendQueueDepth = 0,
       recvPauseJobDepth = 0, recvResumeJobDepth = 0\<rparr>,
     m_sendPacketQueue = None, m_currentSendPacket = None, m_currentJob = None, m_sendOffset = 0, m_jobQueue = None,
     m_sending = False, m_processing = False, m_recvPaused = False, m_recvPauseCount = 0, m_serviceConnectNotified = False,
     m_eventHandler = False, m_sessionContext = False, m_clientIPAddress = [], m_clientPort = 0, m_lastRecvTick = 0,
     m_lastHeartbeatTick = 0, m_sendRejectLogTick = (\<lambda>_. 0), m_sendRejectSuppressed = (\<lambda>_. 0)\<rparr>"

definition set_CONNECT_READY :: "ClientSession \<Rightarrow> ClientSession" where
  "set_CONNECT_READY s =
     (if m_sessionRole s = ROLE_CLIENT then s\<lparr>m_clientSessionState := Client_CONNECT_READY\<rparr>
      else if m_sessionRole s = ROLE_SERVER then s\<lparr>m_serverSessionState := Server_CONNECT_READY\<rparr>
      else s)"

definition ClientSession_Initialize :: "bool \<Rightarrow> SESSION_ROLE \<Rightarrow> u32 \<Rightarrow> ClientSession \<Rightarrow> bool \<times> ClientSession" where
  "ClientSession_Initialize eventCreated sessionType sessionId s =
     (case BaseSession_Initialize eventCreated sessionType sessionId s of
        (False, s1) \<Rightarrow> (False, s1)
      | (True, s1) \<Rightarrow> (True, set_CONNECT_READY s1))"

text \<open>The current packet is released through the queue it came from.\<close>

definition drop_current :: "('p, ('p, 'z) Net) Env \<Rightarrow> ('p, 'z) Net \<Rightarrow> ('p, 'z) Net" where
  "drop_current env = (\<lambda>(s, w).
     (s\<lparr>m_currentSendPacket := None\<rparr>,
      case m_sendPacketQueue s of
        Some q \<Rightarrow> set_send (ReleaseEntry (ev_release env) q (m_currentSendPacket s) (nw_send w)) w
      | None \<Rightarrow> w))"

definition reset_sendQueue :: "('p, ('p, 'z) Net) Env \<Rightarrow> ('p, 'z) Net \<Rightarrow> ('p, 'z) Net" where
  "reset_sendQueue env = (\<lambda>(s, w).
     (case m_sendPacketQueue s of
        None \<Rightarrow> (s, w)
      | Some q \<Rightarrow> (case sq_Reset (ev_release env) (q, nw_send w) of
                    (q', sw) \<Rightarrow> (s\<lparr>m_sendPacketQueue := Some q'\<rparr>, set_send sw w))))"

definition reset_jobQueue :: "('p, ('p, 'z) Net) Env \<Rightarrow> ('p, 'z) Net \<Rightarrow> ('p, 'z) Net" where
  "reset_jobQueue env = (\<lambda>(s, w).
     (case m_jobQueue s of
        None \<Rightarrow> (s, w)
      | Some q \<Rightarrow> (case jq_Reset (ev_release env) (q, nw_jobs w) of
                    (q', jw) \<Rightarrow> (s\<lparr>m_jobQueue := Some q'\<rparr>, w\<lparr>nw_jobs := jw\<rparr>))))"

text \<open>
  \<open>ClientSession::ResetSession\<close>. The overlapped structures, which every post fills in afresh, are not part of the state.
\<close>

definition ClientSession_ResetSession :: "('p, ('p, 'z) Net) Env \<Rightarrow> ('p, 'z) Net \<Rightarrow> ('p, 'z) Net" where
  "ClientSession_ResetSession env sw0 =
     (let (s, w) = BaseSession_ResetSession sw0;
          s1 = (set_CONNECT_READY s)\<lparr>m_sending := False, m_processing := False, m_recvPaused := False, m_recvPauseCount := 0,
                 m_sendRejectLogTick := (\<lambda>_. 0), m_sendRejectSuppressed := (\<lambda>_. 0), m_serviceConnectNotified := False,
                 m_sessionContext := False\<rparr>;
          (s2, w2) = reset_sendQueue env (s1, w);
          s3 = s2\<lparr>m_recvPacketBuffer := map_option rb_Reset (m_recvPacketBuffer s2)\<rparr>;
          (s4, w4) = drop_current env (s3, w2);
          (s5, w5) = reset_jobQueue env (s4\<lparr>m_sendOffset := 0\<rparr>, w4)
      in (s5\<lparr>m_lastRecvTick := 0, m_lastHeartbeatTick := 0\<rparr>, w5))"

definition ReleaseMemoryResources :: "('p, ('p, 'z) Net) Env \<Rightarrow> ('p, 'z) Net \<Rightarrow> ('p, 'z) Net" where
  "ReleaseMemoryResources env = (\<lambda>(s, w).
     (let (s1, w1) = (case m_sendPacketQueue s of
             None \<Rightarrow> (s, w)
           | Some q \<Rightarrow> (s\<lparr>m_sendPacketQueue := None\<rparr>, set_send (snd (sq_Finalize (ev_release env) (q, nw_send w))) w));
          (s2, w2) = (case m_jobQueue s1 of
             None \<Rightarrow> (s1, w1)
           | Some q \<Rightarrow> (s1\<lparr>m_jobQueue := None\<rparr>, w1\<lparr>nw_jobs := snd (jq_Reset (ev_release env) (q, nw_jobs w1))\<rparr>))
      in (s2\<lparr>m_recvPacketBuffer := None\<rparr>, w2)))"

text \<open>
  \<open>InitializeMemoryPool\<close>. Which pools are given is a boolean each; \<open>alloc\<close> answers for the ring's block. A \<open>new\<close> that
  fails throws, so its null tests are dead.
\<close>

definition InitializeMemoryPool ::
  "('p, ('p, 'z) Net) Env \<Rightarrow> (nat \<Rightarrow> bytes option) \<Rightarrow> bool \<Rightarrow> bool \<Rightarrow> bool \<Rightarrow> SessionBufferConfig \<Rightarrow> ('p, 'z) Net \<Rightarrow>
     bool \<times> ('p, 'z) Net" where
  "InitializeMemoryPool env alloc sendQueuePool packetPool generalPool config = (\<lambda>(s, w).
     if \<not> SessionBufferConfig_IsValid config then (False, s, violation w)
     else if \<not> sendQueuePool then (False, s, violation w)
     else
       (let s1 = s\<lparr>m_bufferConfig := config\<rparr> in
        case rb_Initialize alloc packetPool (recvRingSize config) (maxRecvPacketSize config) new_RecvPacketBuffer of
          (False, b) \<Rightarrow> (False, ReleaseMemoryResources env (s1\<lparr>m_recvPacketBuffer := Some b\<rparr>, w))
        | (True, b) \<Rightarrow>
            (let s2 = s1\<lparr>m_recvPacketBuffer := Some b, m_jobQueue := Some (new_SessionJobQueue (m_sessionRole s1))\<rparr> in
             case sq_Initialize (ev_release env) sendQueuePool packetPool generalPool (sendQueueDepth config)
                    (new_SendPacketQueue, nw_send w) of
               (False, q, sw) \<Rightarrow> (False, ReleaseMemoryResources env (s2\<lparr>m_sendPacketQueue := Some q\<rparr>, set_send sw w))
             | (True, q, sw) \<Rightarrow> (True, s2\<lparr>m_sendPacketQueue := Some q\<rparr>, set_send sw w))))"

definition ClearRemoteAddress :: "ClientSession \<Rightarrow> ClientSession" where
  "ClearRemoteAddress s = s\<lparr>m_clientIPAddress := [], m_clientPort := 0\<rparr>"

text \<open>\<open>strncpy_s\<close> with \<open>_TRUNCATE\<close> into 22 bytes.\<close>

definition SetRemoteAddress :: "string option \<Rightarrow> u16 \<Rightarrow> ClientSession \<Rightarrow> ClientSession" where
  "SetRemoteAddress ipAddress port s =
     (case ipAddress of None \<Rightarrow> s | Some a \<Rightarrow> s\<lparr>m_clientIPAddress := take 21 a, m_clientPort := port\<rparr>)"

definition ClientSession_Finalize :: "('p, ('p, 'z) Net) Env \<Rightarrow> ('p, 'z) Net \<Rightarrow> ('p, 'z) Net" where
  "ClientSession_Finalize env sw0 =
     (if m_destroyFlag (fst sw0) then sw0
      else
        (let (s, w) = BaseSession_Finalize sw0;
             s1 = (ClearRemoteAddress s)\<lparr>m_sessionContext := False, m_eventHandler := False\<rparr>;
             (s2, w2) = drop_current env (s1, w);
             (s3, w3) = ReleaseMemoryResources env (s2\<lparr>m_sendOffset := 0\<rparr>, w2);
             s4 = (set_CONNECT_READY s3)\<lparr>m_sending := False, m_processing := False, m_recvPaused := False, m_recvPauseCount := 0,
                    m_sendRejectLogTick := (\<lambda>_. 0), m_sendRejectSuppressed := (\<lambda>_. 0), m_lastRecvTick := 0,
                    m_lastHeartbeatTick := 0, m_destroyFlag := True\<rparr>
         in (s4, w3)))"

definition ClientSession_OnDisconnect :: "ClientSession \<Rightarrow> bool \<times> ClientSession" where
  "ClientSession_OnDisconnect s = BaseSession_OnDisconnect (ClearRemoteAddress s)"

section \<open>ClientSession: state queries\<close>

definition IsReady :: "ClientSession \<Rightarrow> bool" where
  "IsReady s \<longleftrightarrow>
     (if m_sessionRole s = ROLE_CLIENT then m_clientSessionState s = Client_CONNECT_READY
      else if m_sessionRole s = ROLE_SERVER then m_serverSessionState s = Server_CONNECT_READY
      else False)"

definition IsTransportConnected :: "ClientSession \<Rightarrow> bool" where
  "IsTransportConnected s \<longleftrightarrow>
     (if m_sessionRole s = ROLE_CLIENT
      then m_clientSessionState s \<in> {Client_CONNECTED, Client_AUTH_PENDING, Client_ESTABLISHED}
      else if m_sessionRole s = ROLE_SERVER
      then m_serverSessionState s \<in> {Server_CONNECTED, Server_AUTH_PENDING, Server_ESTABLISHED, Server_HEARTBEAT_TIMEOUT}
      else False)"

definition IsEstablished :: "ClientSession \<Rightarrow> bool" where
  "IsEstablished s \<longleftrightarrow>
     (if m_sessionRole s = ROLE_CLIENT then m_clientSessionState s = Client_ESTABLISHED
      else if m_sessionRole s = ROLE_SERVER then m_serverSessionState s = Server_ESTABLISHED
      else False)"

definition MarkServiceConnectNotified :: "ClientSession \<Rightarrow> ClientSession" where
  "MarkServiceConnectNotified s = s\<lparr>m_serviceConnectNotified := True\<rparr>"

definition ConsumeServiceConnectNotified :: "ClientSession \<Rightarrow> bool \<times> ClientSession" where
  "ConsumeServiceConnectNotified s = (m_serviceConnectNotified s, s\<lparr>m_serviceConnectNotified := False\<rparr>)"

definition HasPendingSend :: "ClientSession \<Rightarrow> bool" where
  "HasPendingSend s \<longleftrightarrow>
     (if m_sending s then True else case m_sendPacketQueue s of None \<Rightarrow> False | Some q \<Rightarrow> \<not> sq_IsEmpty q)"

definition GetJobQueueDepth :: "ClientSession \<Rightarrow> u32" where
  "GetJobQueueDepth s = (case m_jobQueue s of None \<Rightarrow> 0 | Some q \<Rightarrow> jq_GetCount q)"

definition GetJobQueuePeakDepth :: "ClientSession \<Rightarrow> u32" where
  "GetJobQueuePeakDepth s = (case m_jobQueue s of None \<Rightarrow> 0 | Some q \<Rightarrow> jq_GetPeakCount q)"

definition GetRecvPauseCount :: "ClientSession \<Rightarrow> u32" where
  "GetRecvPauseCount s = of_nat (m_recvPauseCount s)"

definition CanSendPacket :: "u16 \<Rightarrow> ClientSession \<Rightarrow> bool" where
  "CanSendPacket i s \<longleftrightarrow>
     (if IsSystemPacketId i then IsTransportConnected s
      else if IsServicePacketId i then IsEstablished s
      else False)"

definition UpdateLastRecvTick :: "u64 \<Rightarrow> ClientSession \<Rightarrow> ClientSession" where
  "UpdateLastRecvTick now s = s\<lparr>m_lastRecvTick := now\<rparr>"

definition UpdateLastHeartbeatTick :: "u64 \<Rightarrow> ClientSession \<Rightarrow> ClientSession" where
  "UpdateLastHeartbeatTick now s = s\<lparr>m_lastHeartbeatTick := now\<rparr>"

definition GetLastActiveTick :: "ClientSession \<Rightarrow> u64" where
  "GetLastActiveTick s = (if m_lastRecvTick s > m_lastHeartbeatTick s then m_lastRecvTick s else m_lastHeartbeatTick s)"

definition IsHeartbeatTimedOut :: "u64 \<Rightarrow> u64 \<Rightarrow> ClientSession \<Rightarrow> bool" where
  "IsHeartbeatTimedOut nowTick timeout s \<longleftrightarrow>
     (if timeout = 0 then False
      else
        (let lastActiveTick = GetLastActiveTick s in
         if lastActiveTick = 0 \<or> nowTick < lastActiveTick then False
         else nowTick - lastActiveTick \<ge> timeout))"

definition MarkHeartbeatTimeout :: "ClientSession \<Rightarrow> ClientSession" where
  "MarkHeartbeatTimeout s =
     (if m_sessionRole s = ROLE_SERVER then s\<lparr>m_serverSessionState := Server_HEARTBEAT_TIMEOUT\<rparr> else s)"

text \<open>
  \<open>ShouldLogSendReject\<close>: the results are whether to log and how many were suppressed since; the ticks are compared as
  signed numbers.
\<close>

definition ShouldLogSendReject :: "SendRejectReason \<Rightarrow> u64 \<Rightarrow> ClientSession \<Rightarrow> bool \<times> nat \<times> ClientSession" where
  "ShouldLogSendReject reason now s =
     (let previous = m_sendRejectLogTick s reason in
      if previous \<noteq> 0 \<and> sint (now - previous) < 1000
      then (False, 0, s\<lparr>m_sendRejectSuppressed := (m_sendRejectSuppressed s)(reason := m_sendRejectSuppressed s reason + 1)\<rparr>)
      else (True, m_sendRejectSuppressed s reason,
            s\<lparr>m_sendRejectLogTick := (m_sendRejectLogTick s)(reason := now),
              m_sendRejectSuppressed := (m_sendRejectSuppressed s)(reason := 0)\<rparr>))"

section \<open>ClientSession: receiving\<close>

definition NotifyDisconnect :: "('p, ('p, 'z) Net) Env \<Rightarrow> ('p, 'z) Net \<Rightarrow> ('p, 'z) Net" where
  "NotifyDisconnect env = (\<lambda>(s, w). if m_eventHandler s then ev_OnDisconnectRequest env (s, w) else (s, w))"

definition connection_errors :: "nat list" where
  "connection_errors = [WSAECONNRESET, WSAECONNABORTED, WSAENOTCONN, WSAESHUTDOWN, ERROR_NETNAME_DELETED]"

definition HandleSocketError :: "('p, ('p, 'z) Net) Env \<Rightarrow> nat \<Rightarrow> IO_OPERATION \<Rightarrow> ('p, 'z) Net \<Rightarrow> ('p, 'z) Net" where
  "HandleSocketError env errorCode ioOperation sw0 =
     (let (s1, w1) = (if ioOperation = OP_SEND
                      then (case drop_current env sw0 of (s, w) \<Rightarrow> (s\<lparr>m_sendOffset := 0, m_sending := False\<rparr>, w))
                      else sw0);
          (s2, w2) = (if errorCode \<in> set connection_errors
                      then NotifyDisconnect env (NoteDisconnectReason SocketError s1, w1)
                      else if errorCode = WSAENOBUFS \<or> errorCode = WSAEMFILE then (s1, w1)
                      else if errorCode = ERROR_OPERATION_ABORTED then (s1, w1)
                      else NotifyDisconnect env (NoteDisconnectReason SocketError s1, w1))
      in DecrementIO env (s2, w2))"

text \<open>
  A socket call that posts: it fails when it returns an error other than \<open>WSA_IO_PENDING\<close>, else the kernel has the operation.
\<close>

definition post_failed :: "nat option \<Rightarrow> nat option" where
  "post_failed answer = (if answer = Some WSA_IO_PENDING then None else answer)"

definition PostReceive :: "('p, ('p, 'z) Net) Env \<Rightarrow> ('p, 'z) Net \<Rightarrow> bool \<times> ('p, 'z) Net" where
  "PostReceive env = (\<lambda>(s, w).
     if \<not> IsTransportConnected s then (False, s, w)
     else
       (case m_recvPacketBuffer s of
          None \<Rightarrow> (False, s, violation w)
        | Some b0 \<Rightarrow>
            (let b = PrepareWrite b0; s1 = s\<lparr>m_recvPacketBuffer := Some b\<rparr> in
             if GetWriteableSize b = 0 then (False, s1, w)
             else
               (case BeginIO env (s1, w) of
                  (False, sw) \<Rightarrow> (False, sw)
                | (True, s2, w2) \<Rightarrow>
                    (case ask_os w2 of (answer, w3) \<Rightarrow>
                       (case post_failed answer of
                          Some errorCode \<Rightarrow> (False, HandleSocketError env errorCode OP_RECV (s2, w3))
                        | None \<Rightarrow> (True, s2, w3\<lparr>nw_posted := nw_posted w3 @
                                    [RecvPosted (m_sessionId s2) (the (GetWriteablePtr b)) (GetWriteableSize b)]\<rparr>)))))))"

definition ResumeReceive :: "('p, ('p, 'z) Net) Env \<Rightarrow> ('p, 'z) Net \<Rightarrow> ('p, 'z) Net" where
  "ResumeReceive env = (\<lambda>(s, w).
     if \<not> m_recvPaused s then (s, w)
     else
       (case PostReceive env (s\<lparr>m_recvPaused := False\<rparr>, w) of
          (False, s1, w1) \<Rightarrow> DecrementIO env (NotifyDisconnect env (NoteDisconnectReason ResourceExhausted s1, w1))
        | (True, sw) \<Rightarrow> DecrementIO env sw))"

definition PostReceiveOrPause :: "('p, ('p, 'z) Net) Env \<Rightarrow> ('p, 'z) Net \<Rightarrow> bool \<times> ('p, 'z) Net" where
  "PostReceiveOrPause env = (\<lambda>(s, w).
     (let pauseLevel = recvPauseJobDepth (m_bufferConfig s) in
      if pauseLevel = 0 \<or> GetJobQueueDepth s < pauseLevel then
        (case PostReceive env (s, w) of
           (True, sw) \<Rightarrow> (True, sw)
         | (False, s1, w1) \<Rightarrow> (IsIOCancelRequested s1, s1, w1))
      else
        (case BeginIO env (s, w) of
           (False, sw) \<Rightarrow> (True, sw)
         | (True, s1, w1) \<Rightarrow>
             (let s2 = s1\<lparr>m_recvPaused := True, m_recvPauseCount := m_recvPauseCount s1 + 1\<rparr> in
              if GetJobQueueDepth s2 > recvResumeJobDepth (m_bufferConfig s2) then (True, s2, w1)
              else (True, ResumeReceive env (s2, w1))))))"

definition ResumeReceiveIfDrained :: "('p, ('p, 'z) Net) Env \<Rightarrow> ('p, 'z) Net \<Rightarrow> ('p, 'z) Net" where
  "ResumeReceiveIfDrained env = (\<lambda>(s, w).
     if \<not> m_recvPaused s then (s, w)
     else if GetJobQueueDepth s > recvResumeJobDepth (m_bufferConfig s) then (s, w)
     else ResumeReceive env (s, w))"

definition OnConnect :: "('p, ('p, 'z) Net) Env \<Rightarrow> ('p, 'z) Net \<Rightarrow> bool \<times> ('p, 'z) Net" where
  "OnConnect env = (\<lambda>(s, w).
     (let s1 = (if m_sessionRole s = ROLE_CLIENT then s\<lparr>m_clientSessionState := Client_CONNECTED\<rparr>
                else if m_sessionRole s = ROLE_SERVER then s\<lparr>m_serverSessionState := Server_CONNECTED\<rparr>
                else s);
          s2 = UpdateLastHeartbeatTick (nw_now w) (UpdateLastRecvTick (nw_now w) s1)
      in PostReceive env (s2, w)))"

section \<open>ClientSession: sending\<close>

definition PostCurrentSend :: "('p, ('p, 'z) Net) Env \<Rightarrow> ('p, 'z) Net \<Rightarrow> bool \<times> ('p, 'z) Net" where
  "PostCurrentSend env = (\<lambda>(s, w).
     (case m_currentSendPacket s of
        None \<Rightarrow> (False, s, w)
      | Some a \<Rightarrow>
          (let e = entry_at (nw_send w) a; remainingBytes = en_packetSize e - m_sendOffset s in
           if remainingBytes = 0
           then (case drop_current env (s, w) of (s1, w1) \<Rightarrow> (False, s1\<lparr>m_sending := False\<rparr>, w1))
           else if IsIOCancelRequested s
           then (case drop_current env (s, w) of (s1, w1) \<Rightarrow> (False, s1\<lparr>m_sendOffset := 0, m_sending := False\<rparr>, w1))
           else
             (case BeginIO env (s, w) of
                (False, sw) \<Rightarrow> (False, sw)
              | (True, s1, w1) \<Rightarrow>
                  (case ask_os w1 of (answer, w2) \<Rightarrow>
                     (case post_failed answer of
                        Some errorCode \<Rightarrow> (False, HandleSocketError env errorCode OP_SEND (s1, w2))
                      | None \<Rightarrow> (True, s1, w2\<lparr>nw_posted := nw_posted w2 @
                          [SendPosted (m_sessionId s1) (take (unat remainingBytes) (drop (unat (m_sendOffset s))
                             (nw_mem w2 (the (en_packetData e)))))]\<rparr>)))))))"

text \<open>
  The loop of \<open>TrySendNext\<close>. It goes round again only when the queue was filled between \<open>Dequeue\<close> and \<open>IsEmpty\<close>, which takes a second
  thread (\<open>one_round\<close> in \<open>SendStream\<close>).
\<close>

primrec try_send_rounds :: "nat \<Rightarrow> ('p, ('p, 'z) Net) Env \<Rightarrow> SendPacketQueue \<Rightarrow> ('p, 'z) Net \<Rightarrow> bool \<times> ('p, 'z) Net" where
  "try_send_rounds 0 env q sw = (False, sw)"
| "try_send_rounds (Suc n) env q sw =
     (let (s, w) = sw in
      if m_sending s then (False, s, w)
      else
        (let s1 = s\<lparr>m_sending := True\<rparr> in
         case m_currentSendPacket s1 of
           Some _ \<Rightarrow> PostCurrentSend env (s1, w)
         | None \<Rightarrow>
             (case Dequeue (q, nw_send w) of
                (None, q', sw') \<Rightarrow>
                  (let s2 = s1\<lparr>m_sendPacketQueue := Some q', m_sending := False\<rparr>; w2 = set_send sw' w in
                   if sq_IsEmpty q' then (False, s2, w2) else try_send_rounds n env q' (s2, w2))
              | (Some a, q', sw') \<Rightarrow>
                  PostCurrentSend env
                    (s1\<lparr>m_sendPacketQueue := Some q', m_currentSendPacket := Some a, m_sendOffset := 0\<rparr>, set_send sw' w))))"

definition TrySendNext :: "('p, ('p, 'z) Net) Env \<Rightarrow> ('p, 'z) Net \<Rightarrow> bool \<times> ('p, 'z) Net" where
  "TrySendNext env = (\<lambda>(s, w).
     (case m_sendPacketQueue s of None \<Rightarrow> (False, s, w) | Some q \<Rightarrow> try_send_rounds 1 env q (s, w)))"

definition OnSendCompleted :: "('p, ('p, 'z) Net) Env \<Rightarrow> u32 \<Rightarrow> ('p, 'z) Net \<Rightarrow> bool \<times> ('p, 'z) Net" where
  "OnSendCompleted env bytesTransferred = (\<lambda>(s, w).
     (let s1 = s\<lparr>m_sendOffset := m_sendOffset s + bytesTransferred\<rparr> in
      case m_currentSendPacket s1 of
        None \<Rightarrow> (False, s1, w)
      | Some a \<Rightarrow>
          if m_sendOffset s1 < en_packetSize (entry_at (nw_send w) a) then PostCurrentSend env (s1, w)
          else
            (case drop_current env (s1, w) of
               (s2, w2) \<Rightarrow> (True, snd (TrySendNext env (s2\<lparr>m_sendOffset := 0, m_sending := False\<rparr>, w2))))))"

text \<open>The caller's packet pointer comes back as \<open>SendPacketQueue::Enqueue\<close> leaves it.\<close>

definition reject :: "SendRejectReason \<Rightarrow> ('p, 'z) Net \<Rightarrow> ('p, 'z) Net" where
  "reject reason = (\<lambda>(s, w). (snd (snd (ShouldLogSendReject reason (nw_now w) s)), w))"

definition EnqueueSendPacket ::
  "('p, ('p, 'z) Net) Env \<Rightarrow> addr option option \<Rightarrow> u32 \<Rightarrow> ('p, 'z) Net \<Rightarrow> bool \<times> addr option option \<times> ('p, 'z) Net" where
  "EnqueueSendPacket env packetData sz = (\<lambda>(s, w).
     (case m_sendPacketQueue s of
        None \<Rightarrow> (False, packetData, s, w)
      | Some q \<Rightarrow>
          if packetData = None \<or> sz = 0 then (False, packetData, s, w)
          else if the packetData = None \<or> sz < of_nat sizeof_PACKET_HEADER then (False, packetData, s, w)
          else
            (let header = header_of (nw_mem w (the (the packetData))) in
             if ucast (packetSize header) \<noteq> sz then (False, packetData, s, w)
             else if sz > maxSendPacketSize (m_bufferConfig s) then (False, packetData, s, w)
             else if \<not> CanSendPacket (packetId header) s then (False, packetData, reject NotEstablished (s, w))
             else
               (case Enqueue (ev_acquire env) (ev_release env) packetData sz (q, nw_send w) of
                  (False, packetData', q', sw) \<Rightarrow>
                    (False, packetData', reject SendQueueFull (s\<lparr>m_sendPacketQueue := Some q'\<rparr>, set_send sw w))
                | (True, packetData', q', sw) \<Rightarrow>
                    (True, packetData', snd (TrySendNext env (s\<lparr>m_sendPacketQueue := Some q'\<rparr>, set_send sw w)))))))"

definition EnqueueSharedSendPacket ::
  "('p, ('p, 'z) Net) Env \<Rightarrow> addr option \<Rightarrow> u32 \<Rightarrow> release_func option \<Rightarrow> addr option \<Rightarrow> ('p, 'z) Net \<Rightarrow> bool \<times> ('p, 'z) Net" where
  "EnqueueSharedSendPacket env packetData sz releaseFunc releaseContext = (\<lambda>(s, w).
     (case m_sendPacketQueue s of
        None \<Rightarrow> (False, s, w)
      | Some q \<Rightarrow>
          if packetData = None \<or> sz = 0 \<or> releaseFunc = None then (False, s, w)
          else if sz < of_nat sizeof_PACKET_HEADER then (False, s, w)
          else
            (let header = header_of (nw_mem w (the packetData)) in
             if ucast (packetSize header) \<noteq> sz then (False, s, w)
             else if sz > maxSendPacketSize (m_bufferConfig s) then (False, s, w)
             else if \<not> CanSendPacket (packetId header) s then (False, reject NotEstablished (s, w))
             else
               (case EnqueueShared (ev_acquire env) (ev_release env) packetData sz releaseFunc releaseContext (q, nw_send w) of
                  (False, q', sw) \<Rightarrow>
                    (False, reject SendQueueFull (s\<lparr>m_sendPacketQueue := Some q'\<rparr>, set_send sw w))
                | (True, q', sw) \<Rightarrow>
                    (True, snd (TrySendNext env (s\<lparr>m_sendPacketQueue := Some q'\<rparr>, set_send sw w)))))))"

text \<open>\<open>CreatePacket\<close>, and writing \<open>bs\<close> at the start of the block.\<close>

definition CreatePacket :: "('p, ('p, 'z) Net) Env \<Rightarrow> nat \<Rightarrow> ('p, 'z) NetWorld_scheme \<Rightarrow> addr option \<times> ('p, 'z) NetWorld_scheme" where
  "CreatePacket env n w =
     (case ev_acquire env (w_packetPool (nw_send w)) n of
        (r, p) \<Rightarrow> (r, set_send ((nw_send w)\<lparr>w_packetPool := p\<rparr>) w))"

definition write_mem :: "addr \<Rightarrow> bytes \<Rightarrow> ('p, 'z) NetWorld_scheme \<Rightarrow> ('p, 'z) NetWorld_scheme" where
  "write_mem a bs w = w\<lparr>nw_mem := (nw_mem w)(a := bs @ drop (length bs) (nw_mem w a))\<rparr>"

text \<open>Creating a system packet and queueing it; a packet that is not taken goes back to its pool.\<close>

definition send_system :: "('p, ('p, 'z) Net) Env \<Rightarrow> bytes \<Rightarrow> ('p, 'z) Net \<Rightarrow> bool \<times> ('p, 'z) Net" where
  "send_system env bs = (\<lambda>(s, w).
     (case CreatePacket env (length bs) w of
        (None, w1) \<Rightarrow> (False, s, w1)
      | (Some a, w1) \<Rightarrow>
          (case EnqueueSendPacket env (Some (Some a)) (of_nat (length bs)) (s, write_mem a bs w1) of
             (True, _, sw) \<Rightarrow> (True, sw)
           | (False, _, s2, w2) \<Rightarrow> (False, s2, set_send (ReleasePacket (ev_release env) (Some a) (nw_send w2)) w2))))"

definition SendSystemHeartbeatRequest :: "('p, ('p, 'z) Net) Env \<Rightarrow> ('p, 'z) Net \<Rightarrow> bool \<times> ('p, 'z) Net" where
  "SendSystemHeartbeatRequest env = (\<lambda>(s, w).
     if m_sessionRole s \<noteq> ROLE_SERVER \<or> \<not> IsEstablished s then (False, s, w)
     else send_system env (heartbeat_bytes (new_heartbeat_request\<lparr>hb_tick := nw_now w\<rparr>)) (s, w))"

definition SendSystemHeartbeatResponse :: "('p, ('p, 'z) Net) Env \<Rightarrow> u64 \<Rightarrow> ('p, 'z) Net \<Rightarrow> bool \<times> ('p, 'z) Net" where
  "SendSystemHeartbeatResponse env requestTick = (\<lambda>(s, w).
     if m_sessionRole s \<noteq> ROLE_CLIENT \<or> \<not> IsEstablished s then (False, s, w)
     else send_system env (heartbeat_bytes (new_heartbeat_response\<lparr>hb_tick := requestTick\<rparr>)) (s, w))"

section \<open>ClientSession: jobs\<close>

definition ClientSession_EnqueueJob :: "addr option \<Rightarrow> ('p, 'z) Net \<Rightarrow> (bool \<times> bool) \<times> ('p, 'z) Net" where
  "ClientSession_EnqueueJob job = (\<lambda>(s, w).
     (case (job, m_jobQueue s) of
        (Some a, Some q) \<Rightarrow>
          (case EnqueueJob (Some a) (q, nw_jobs w) of
             (r, q', jw) \<Rightarrow> (r, s\<lparr>m_jobQueue := Some q'\<rparr>, w\<lparr>nw_jobs := jw\<rparr>))
      | _ \<Rightarrow> ((False, False), s, w)))"

definition SubmitJob :: "addr option \<Rightarrow> ('p, 'z) Net \<Rightarrow> bool \<times> ('p, 'z) Net" where
  "SubmitJob job = (\<lambda>(s, w).
     if job = None then (False, s, w)
     else if m_jobQueue s = None then (False, s, violation w)
     else (case ClientSession_EnqueueJob job (s, w) of ((ok, _), sw) \<Rightarrow> (ok, sw)))"

definition IsProcessingReady :: "ClientSession \<Rightarrow> bool \<times> ClientSession" where
  "IsProcessingReady s = (\<not> m_processing s, s\<lparr>m_processing := True\<rparr>)"

definition UpdateProcessingFlag :: "bool \<Rightarrow> ClientSession \<Rightarrow> ClientSession" where
  "UpdateProcessingFlag value s = s\<lparr>m_processing := value\<rparr>"

definition SetCurrentJob :: "addr option \<Rightarrow> ClientSession \<Rightarrow> ClientSession" where
  "SetCurrentJob job s = s\<lparr>m_currentJob := job\<rparr>"

definition ClearCurrentJobData :: "('p, 'z) Net \<Rightarrow> ('p, 'z) Net" where
  "ClearCurrentJobData = (\<lambda>(s, w).
     if m_sessionRole s \<noteq> ROLE_CLIENT then (s, violation w)
     else
       (case m_currentJob s of
          None \<Rightarrow> (s, w)
        | Some a \<Rightarrow> (s, w\<lparr>nw_jobs := set_job a ((job_at (nw_jobs w) a)\<lparr>job_data := None\<rparr>) (nw_jobs w)\<rparr>)))"

end
