(* ===== verification/SendStream.thy ===== *)
theory SendStream
  imports Session SendPath
begin

text \<open>
  What a session puts on the wire. The kernel may take any part of a posted send; \<open>ClientSession::OnSendCompleted\<close> posts the rest, then the
  next packet. The lemmas follow the bytes through \<open>EnqueueSendPacket\<close>, \<open>TrySendNext\<close>, \<open>PostCurrentSend\<close> and
  \<open>OnSendCompleted\<close>.
\<close>

section \<open>The bytes a session still has to send\<close>

definition entry_bytes :: "('p, 'z) NetWorld_scheme \<Rightarrow> addr \<Rightarrow> bytes" where
  "entry_bytes w a = (let e = entry_at (nw_send w) a in take (unat (en_packetSize e)) (nw_mem w (the (en_packetData e))))"

definition current_bytes :: "('p, 'z) Net \<Rightarrow> bytes" where
  "current_bytes = (\<lambda>(s, w).
     (case m_currentSendPacket s of None \<Rightarrow> [] | Some a \<Rightarrow> drop (unat (m_sendOffset s)) (entry_bytes w a)))"

definition queued :: "('p, 'z) Net \<Rightarrow> addr list" where
  "queued = (\<lambda>(s, w). (case m_sendPacketQueue s of None \<Rightarrow> [] | Some q \<Rightarrow> sq_contents (q, nw_send w)))"

definition to_wire :: "('p, 'z) Net \<Rightarrow> bytes" where
  "to_wire sw = current_bytes sw @ concat (map (entry_bytes (snd sw)) (queued sw))"

text \<open>An entry whose packet can be sent; the entries and pools of a session's send queue.\<close>

definition sendable :: "('p, 'z) NetWorld_scheme \<Rightarrow> addr \<Rightarrow> bool" where
  "sendable w a \<longleftrightarrow> (\<exists>e p. w_entries (nw_send w) a = Some e \<and> en_packetData e = Some p \<and> en_releaseFunc e = None \<and>
     en_packetSize e \<noteq> 0 \<and> unat (en_packetSize e) \<le> length (nw_mem w p))"

definition queue_ok :: "('p \<Rightarrow> bool) \<Rightarrow> ('p \<Rightarrow> addr set) \<Rightarrow> (addr \<Rightarrow> nat) \<Rightarrow> ('p, 'z) Net \<Rightarrow> bool" where
  "queue_ok invar live X = (\<lambda>(s, w).
     world_inv invar live X (nw_send w) \<and>
     (\<exists>q. m_sendPacketQueue s = Some q \<and> sq_inv (q, nw_send w) \<and> sq_sendQueueMemoryPool q \<and> sq_packetMemoryPool q \<and>
        sq_generalMemoryPool q) \<and>
     (\<forall>a \<in> set (queued (s, w)). sendable w a) \<and>
     (\<forall>a. m_currentSendPacket s = Some a \<longrightarrow> sendable w a \<and> a \<notin> set (queued (s, w))))"

text \<open>A session at rest between two events: what is left of the current packet is what was posted last.\<close>

definition at_rest :: "('p, 'z) Net \<Rightarrow> bool" where
  "at_rest = (\<lambda>(s, w).
     m_sending s = (m_currentSendPacket s \<noteq> None) \<and> \<not> m_cancelIo s \<and>
     (case m_currentSendPacket s of
        None \<Rightarrow> queued (s, w) = []
      | Some a \<Rightarrow> current_bytes (s, w) \<noteq> [] \<and> nw_posted w \<noteq> [] \<and> last (nw_posted w) = SendPosted (m_sessionId s) (current_bytes (s, w))))"

definition kernel_accepts :: "('p, 'z) NetWorld_scheme \<Rightarrow> bool" where
  "kernel_accepts w \<longleftrightarrow> (\<forall>i. post_failed (nw_answers w i) = None)"

lemma set_send_sels [simp]:
  "nw_send (set_send v w) = v" "nw_mem (set_send v w) = nw_mem w" "nw_now (set_send v w) = nw_now w"
  "nw_answers (set_send v w) = nw_answers w" "nw_calls (set_send v w) = nw_calls w" "nw_posted (set_send v w) = nw_posted w"
  "nw_violations (set_send v w) = nw_violations w"
  by (simp_all add: set_send_def)

lemma set_send_same [simp]: "set_send (nw_send w) w = w"
  by (simp add: set_send_def)

lemma queue_okD:
  assumes "queue_ok invar live X (s, w)"
  obtains q where "m_sendPacketQueue s = Some q" "sq_inv (q, nw_send w)" "sq_sendQueueMemoryPool q" "sq_packetMemoryPool q"
    "sq_generalMemoryPool q" "world_inv invar live X (nw_send w)" "queued (s, w) = sq_contents (q, nw_send w)"
    "\<And>a. a \<in> set (sq_contents (q, nw_send w)) \<Longrightarrow> sendable w a"
    "\<And>a. m_currentSendPacket s = Some a \<Longrightarrow> sendable w a \<and> a \<notin> set (sq_contents (q, nw_send w))"
proof -
  from assms obtain q where "m_sendPacketQueue s = Some q" unfolding queue_ok_def by auto
  moreover from this have "queued (s, w) = sq_contents (q, nw_send w)" by (simp add: queued_def)
  ultimately show ?thesis using that [of q] assms unfolding queue_ok_def by simp
qed

text \<open>What an entry sends depends on its data only.\<close>

definition same_entry :: "('p, 'z) NetWorld_scheme \<Rightarrow> ('p, 'z) NetWorld_scheme \<Rightarrow> addr \<Rightarrow> bool" where
  "same_entry w w' a \<longleftrightarrow> (w_entries (nw_send w) a \<noteq> None \<longrightarrow> w_entries (nw_send w') a \<noteq> None) \<and>
     (entry_at (nw_send w') a)\<lparr>en_next := None\<rparr> = (entry_at (nw_send w) a)\<lparr>en_next := None\<rparr> \<and>
     (\<forall>p. en_packetData (entry_at (nw_send w) a) = Some p \<longrightarrow> nw_mem w' p = nw_mem w p)"

lemma same_entryD:
  assumes "same_entry w w' a"
  shows "en_packetData (entry_at (nw_send w') a) = en_packetData (entry_at (nw_send w) a)"
    and "en_packetSize (entry_at (nw_send w') a) = en_packetSize (entry_at (nw_send w) a)"
    and "en_releaseFunc (entry_at (nw_send w') a) = en_releaseFunc (entry_at (nw_send w) a)"
proof -
  have e: "(entry_at (nw_send w') a)\<lparr>en_next := None\<rparr> = (entry_at (nw_send w) a)\<lparr>en_next := None\<rparr>"
    using assms by (simp add: same_entry_def)
  show "en_packetData (entry_at (nw_send w') a) = en_packetData (entry_at (nw_send w) a)"
    and "en_packetSize (entry_at (nw_send w') a) = en_packetSize (entry_at (nw_send w) a)"
    and "en_releaseFunc (entry_at (nw_send w') a) = en_releaseFunc (entry_at (nw_send w) a)"
    using arg_cong [OF e, of en_packetData] arg_cong [OF e, of en_packetSize] arg_cong [OF e, of en_releaseFunc] by simp_all
qed

lemma sendable_entry: "sendable w a \<longleftrightarrow> w_entries (nw_send w) a \<noteq> None \<and>
   (\<exists>p. en_packetData (entry_at (nw_send w) a) = Some p \<and> en_releaseFunc (entry_at (nw_send w) a) = None \<and>
     en_packetSize (entry_at (nw_send w) a) \<noteq> 0 \<and>
     unat (en_packetSize (entry_at (nw_send w) a)) \<le> length (nw_mem w p))"
  by (auto simp: sendable_def entry_at_def)

lemma same_entry_sendable: "same_entry w w' a \<Longrightarrow> sendable w a \<Longrightarrow> sendable w' a"
  using same_entryD [of w w' a] unfolding sendable_entry by (auto simp: same_entry_def)

lemma same_entry_bytes: "same_entry w w' a \<Longrightarrow> sendable w a \<Longrightarrow> entry_bytes w' a = entry_bytes w a"
  using same_entryD [of w w' a] unfolding sendable_entry by (auto simp: same_entry_def entry_bytes_def)

lemma link_same_entry:
  assumes "link_frame (nw_send w) (nw_send w')" and "dom (w_entries (nw_send w')) = dom (w_entries (nw_send w))" and "nw_mem w' = nw_mem w"
  shows "same_entry w w' a"
proof -
  have "(w_entries (nw_send w') a = None) = (w_entries (nw_send w) a = None)" using assms(2) by (metis domIff)
  with assms(1,3) show ?thesis unfolding same_entry_def link_frame_def by simp
qed

lemma length_entry_bytes: "sendable w a \<Longrightarrow> length (entry_bytes w a) = unat (en_packetSize (entry_at (nw_send w) a))"
  by (auto simp: sendable_entry entry_bytes_def)

section \<open>Posting\<close>

text \<open>\<open>PostCurrentSend\<close> posts exactly what is left of the current packet.\<close>

lemma PostCurrentSend_posts:
  assumes cur: "m_currentSendPacket s = Some a" and a: "sendable w a" and nc: "\<not> m_cancelIo s"
    and off: "m_sendOffset s < en_packetSize (entry_at (nw_send w) a)" and k: "kernel_accepts w"
  shows "PostCurrentSend env (s, w) = (True, s\<lparr>m_ioCount := m_ioCount s + 1\<rparr>,
    w\<lparr>nw_calls := nw_calls w + 1, nw_posted := nw_posted w @ [SendPosted (m_sessionId s) (current_bytes (s, w))]\<rparr>)"
proof -
  let ?e = "entry_at (nw_send w) a"
  have le: "m_sendOffset s \<le> en_packetSize ?e" using off by simp
  have r: "en_packetSize ?e - m_sendOffset s \<noteq> 0" using off by simp
  have u: "unat (en_packetSize ?e - m_sendOffset s) = unat (en_packetSize ?e) - unat (m_sendOffset s)"
    by (rule unat_minus_le [OF le])
  have "take (unat (en_packetSize ?e - m_sendOffset s)) (drop (unat (m_sendOffset s)) (nw_mem w (the (en_packetData ?e)))) =
      current_bytes (s, w)"
    by (simp add: u current_bytes_def cur entry_bytes_def Let_def drop_take)
  with cur nc r k show ?thesis
    by (simp add: PostCurrentSend_def IsIOCancelRequested_def BeginIO_def ask_os_def kernel_accepts_def Let_def)
qed

lemma posting_frame [simp]:
  "entry_bytes (w\<lparr>nw_calls := n, nw_posted := ps\<rparr>) = entry_bytes w"
  "sendable (w\<lparr>nw_calls := n, nw_posted := ps\<rparr>) = sendable w"
  "queued (s\<lparr>m_ioCount := i\<rparr>, w\<lparr>nw_calls := n, nw_posted := ps\<rparr>) = queued (s, w)"
  "current_bytes (s\<lparr>m_ioCount := i\<rparr>, w\<lparr>nw_calls := n, nw_posted := ps\<rparr>) = current_bytes (s, w)"
  "queue_ok invar live X (s\<lparr>m_ioCount := i\<rparr>, w\<lparr>nw_calls := n, nw_posted := ps\<rparr>) = queue_ok invar live X (s, w)"
  "kernel_accepts (w\<lparr>nw_calls := n, nw_posted := ps\<rparr>) = kernel_accepts w"
  by (simp_all add: entry_bytes_def [abs_def] sendable_def [abs_def] queued_def current_bytes_def queue_ok_def kernel_accepts_def
      split: option.split)

text \<open>After a post the session is at rest, and nothing it has to send has changed.\<close>

lemma posted_rest:
  assumes P: "PostCurrentSend env (s, w) = (r, s', w')" and Q: "queue_ok invar live X (s, w)"
    and cur: "m_currentSendPacket s = Some a" and sg: "m_sending s" and nc: "\<not> m_cancelIo s"
    and off: "m_sendOffset s < en_packetSize (entry_at (nw_send w) a)" and k: "kernel_accepts w"
  shows "queue_ok invar live X (s', w') \<and> at_rest (s', w') \<and> to_wire (s', w') = to_wire (s, w) \<and> kernel_accepts w' \<and>
    nw_mem w' = nw_mem w \<and> nw_send w' = nw_send w \<and> m_bufferConfig s' = m_bufferConfig s"
proof -
  have a: "sendable w a" using Q cur by (simp add: queue_ok_def)
  have e: "s' = s\<lparr>m_ioCount := m_ioCount s + 1\<rparr>"
    "w' = w\<lparr>nw_calls := nw_calls w + 1, nw_posted := nw_posted w @ [SendPosted (m_sessionId s) (current_bytes (s, w))]\<rparr>"
    using P PostCurrentSend_posts [OF cur a nc off k] by simp_all
  have "current_bytes (s, w) \<noteq> []"
    using off length_entry_bytes [OF a] by (simp add: current_bytes_def cur word_less_nat_alt)
  then have "at_rest (s', w')" using cur sg nc unfolding e by (simp add: at_rest_def)
  with Q k show ?thesis unfolding e by (simp add: to_wire_def)
qed

text \<open>For one thread one round of the loop decides.\<close>

lemma one_round:
  assumes "sq_inv (q, nw_send w)" and "m_sendPacketQueue s = Some q"
  shows "try_send_rounds (Suc n) env q (s, w) = TrySendNext env (s, w)"
proof -
  obtain x q' sw' where D: "Dequeue (q, nw_send w) = (x, q', sw')" by (metis prod_cases3)
  note d = Dequeue_spec [OF assms(1) D]
  have "sq_IsEmpty q'" if "x = None"
    using d(1,2,3,5) that by (cases "sq_contents (q, nw_send w)") (simp_all add: sq_inv_def sq_IsEmpty_def unat_eq_0)
  then show ?thesis using assms(2) D by (auto simp: TrySendNext_def Let_def split: option.split)
qed

lemma TrySendNext_rest:
  assumes Q: "queue_ok invar live X (s, w)" and cur: "m_currentSendPacket s = None" and ns: "\<not> m_sending s"
    and nc: "\<not> m_cancelIo s" and k: "kernel_accepts w" and T: "TrySendNext env (s, w) = (r, s', w')"
  shows "queue_ok invar live X (s', w') \<and> at_rest (s', w') \<and> to_wire (s', w') = to_wire (s, w) \<and> kernel_accepts w' \<and>
    nw_mem w' = nw_mem w \<and> w_packetPool (nw_send w') = w_packetPool (nw_send w) \<and> m_bufferConfig s' = m_bufferConfig s"
proof -
  obtain q where q: "m_sendPacketQueue s = Some q" "sq_inv (q, nw_send w)" "sq_sendQueueMemoryPool q" "sq_packetMemoryPool q"
    "sq_generalMemoryPool q" and wi: "world_inv invar live X (nw_send w)" and cts: "queued (s, w) = sq_contents (q, nw_send w)"
    and sd: "\<And>a. a \<in> set (sq_contents (q, nw_send w)) \<Longrightarrow> sendable w a" by (rule queue_okD [OF Q]) blast
  obtain x q' sw' where D: "Dequeue (q, nw_send w) = (x, q', sw')" by (metis prod_cases3)
  note d = Dequeue_spec [OF q(2) D]
  show ?thesis
  proof (cases "sq_contents (q, nw_send w)")
    case Nil
    then have n: "x = None" "q' = q" "sw' = nw_send w" using d(1,5) by simp_all
    have "sq_IsEmpty q" using q(2) Nil by (simp add: sq_inv_def sq_IsEmpty_def unat_eq_0)
    then have "s' = s\<lparr>m_sendPacketQueue := Some q, m_sending := False\<rparr>" "w' = w"
      using T q(1) ns cur D n by (simp_all add: TrySendNext_def)
    with q(1) ns have "s' = s" "w' = w" by simp_all
    with Q k Nil cts cur ns nc show ?thesis by (simp add: at_rest_def)
  next
    case (Cons y ys)
    then have x: "x = Some y" "sq_contents (q', sw') = ys" using d(1,3) by simp_all
    let ?s = "s\<lparr>m_sending := True, m_sendPacketQueue := Some q', m_currentSendPacket := Some y, m_sendOffset := 0\<rparr>"
    let ?w = "set_send sw' w"
    have P: "PostCurrentSend env (?s, ?w) = (r, s', w')"
      using T q(1) ns cur D x by (simp add: TrySendNext_def)
    have yd: "y \<in> dom (w_entries (nw_send w))" using sd [of y] Cons by (auto simp: sendable_entry)
    have dm: "dom (w_entries sw') = dom (w_entries (nw_send w))" using d(6) x(1) yd by auto
    have same: "same_entry w ?w a" for a by (rule link_same_entry) (use d(4) dm in simp_all)
    have "chain (entry_links (nw_send w)) (sq_head q) (sq_contents (q, nw_send w))" using q(2) by (simp add: sq_inv_def)
    from chain_distinct [OF this] Cons have dist: "distinct (y # ys)" by simp
    have "queue_ok invar live X (?s, ?w)"
      using world_inv_link(1) [OF wi d(4) dm] d(2,7) q(3-5) x(2) dist sd same_entry_sendable [OF same] Cons
      by (simp add: queue_ok_def queued_def)
    moreover have yb: "sendable ?w y" using same_entry_sendable [OF same] sd Cons by simp
    moreover have "0 < en_packetSize (entry_at (nw_send ?w) y)" using yb by (auto simp: sendable_entry word_neq_0_conv)
    moreover have "kernel_accepts ?w" using k by (simp add: kernel_accepts_def)
    ultimately have R: "queue_ok invar live X (s', w') \<and> at_rest (s', w') \<and> to_wire (s', w') = to_wire (?s, ?w) \<and>
        kernel_accepts w' \<and> nw_mem w' = nw_mem ?w \<and> nw_send w' = nw_send ?w \<and> m_bufferConfig s' = m_bufferConfig ?s"
      using posted_rest [OF P, of invar live X y] nc by simp
    have y: "entry_bytes ?w y = entry_bytes w y" and ys: "map (entry_bytes ?w) ys = map (entry_bytes w) ys"
      using same_entry_bytes [OF same sd] Cons by (simp, intro map_cong) simp_all
    have "to_wire (?s, ?w) = to_wire (s, w)"
      using Cons cur cts x(2) by (simp add: to_wire_def current_bytes_def queued_def q(1) y ys)
    with R d(4) show ?thesis by (simp add: link_frame_def)
  qed
qed

context packet_pool
begin

lemma drop_current_ok:
  assumes Q: "queue_ok invar live X (s, w)" and cur: "m_currentSendPacket s = Some a" and env: "ev_release env = release"
    and D: "drop_current env (s, w) = (s', w')"
  shows "s' = s\<lparr>m_currentSendPacket := None\<rparr>" and "queue_ok invar live X (s', w')" and "queued (s', w') = queued (s, w)"
    and "map (entry_bytes w') (queued (s, w)) = map (entry_bytes w) (queued (s, w))" and "nw_mem w' = nw_mem w"
    and "kernel_accepts w' = kernel_accepts w" and "nw_posted w' = nw_posted w"
proof -
  obtain q where q: "m_sendPacketQueue s = Some q" "sq_inv (q, nw_send w)" "sq_sendQueueMemoryPool q" "sq_packetMemoryPool q"
    "sq_generalMemoryPool q" and wi: "world_inv invar live X (nw_send w)" and cts: "queued (s, w) = sq_contents (q, nw_send w)"
    and sd: "\<And>a. a \<in> set (sq_contents (q, nw_send w)) \<Longrightarrow> sendable w a"
    and c: "\<And>a. m_currentSendPacket s = Some a \<Longrightarrow> sendable w a \<and> a \<notin> set (sq_contents (q, nw_send w))"
    by (rule queue_okD [OF Q]) blast
  from c [OF cur] obtain e where e: "w_entries (nw_send w) a = Some e" and an: "a \<notin> set (sq_contents (q, nw_send w))"
    by (auto simp: sendable_def)
  let ?sw = "ReleaseEntry release q (Some a) (nw_send w)"
  note R = ReleaseEntry_inv [OF wi e q(3-5) refl]
  have w': "w' = set_send ?sw w" and s': "s' = s\<lparr>m_currentSendPacket := None\<rparr>"
    using D q(1) cur env by (simp_all add: drop_current_def)
  then show "s' = s\<lparr>m_currentSendPacket := None\<rparr>" and "nw_mem w' = nw_mem w" and "nw_posted w' = nw_posted w"
    and "kernel_accepts w' = kernel_accepts w" by (simp_all add: kernel_accepts_def)
  have ent: "entry_at ?sw b = entry_at (nw_send w) b" "w_entries ?sw b = w_entries (nw_send w) b" if "b \<noteq> a" for b
    using R(2) that by (simp_all add: entry_at_def)
  have "chain (entry_links ?sw) (sq_head q) (sq_contents (q, nw_send w))"
  proof (rule lseg_frame [of "entry_links (nw_send w)"])
    fix b assume "b \<in> set (sq_contents (q, nw_send w))"
    with an have "b \<noteq> a" by blast
    from ent(1) [OF this] show "entry_links ?sw b = entry_links (nw_send w) b" by (simp add: entry_links_def)
  qed (use q(2) in \<open>simp add: sq_inv_def\<close>)
  then have qi: "sq_inv (q, ?sw) \<and> sq_contents (q, ?sw) = sq_contents (q, nw_send w)"
    using q(2) by (intro sq_invI) (simp_all add: sq_inv_def)
  have sd': "sendable w' b" and eb: "entry_bytes w' b = entry_bytes w b" if "b \<in> set (sq_contents (q, nw_send w))" for b
  proof -
    have "b \<noteq> a" using that an by blast
    then show "sendable w' b" "entry_bytes w' b = entry_bytes w b"
      using ent [of b] sd [OF that] by (simp_all add: w' sendable_def entry_bytes_def)
  qed
  show "queued (s', w') = queued (s, w)" using q(1) qi cts by (simp add: queued_def s' w')
  then show "queue_ok invar live X (s', w')"
    using R(1) q qi cts sd' by (simp add: queue_ok_def s' w')
  show "map (entry_bytes w') (queued (s, w)) = map (entry_bytes w) (queued (s, w))" using eb cts by simp
qed

text \<open>
  A completed send: the bytes the kernel took leave the front of what is to be sent, whatever their number, and the next post is in place.
\<close>

lemma OnSendCompleted_rest:
  assumes Q: "queue_ok invar live X (s, w)" and rest: "at_rest (s, w)" and cur: "m_currentSendPacket s = Some a"
    and n: "n \<noteq> 0" "unat n \<le> length (current_bytes (s, w))" and k: "kernel_accepts w" and env: "ev_release env = release"
    and C: "OnSendCompleted env n (s, w) = (r, s', w')"
  shows "queue_ok invar live X (s', w') \<and> at_rest (s', w') \<and> to_wire (s', w') = drop (unat n) (to_wire (s, w)) \<and>
    kernel_accepts w' \<and> nw_mem w' = nw_mem w \<and> m_bufferConfig s' = m_bufferConfig s"
proof -
  let ?e = "entry_at (nw_send w) a" and ?s1 = "s\<lparr>m_sendOffset := m_sendOffset s + n\<rparr>"
  have a: "sendable w a" using Q cur by (simp add: queue_ok_def)
  have sg: "m_sending s" and nc: "\<not> m_cancelIo s" using rest cur by (simp_all add: at_rest_def)
  have len: "length (current_bytes (s, w)) = unat (en_packetSize ?e) - unat (m_sendOffset s)"
    using length_entry_bytes [OF a] by (simp add: current_bytes_def cur)
  have ne: "current_bytes (s, w) \<noteq> []" using rest cur by (simp add: at_rest_def)
  then have le: "unat (m_sendOffset s) + unat n \<le> unat (en_packetSize ?e)" using n(2) len by (cases "current_bytes (s, w)") auto
  also have "\<dots> < 2 ^ LENGTH(32)" by (rule unsigned_less)
  finally have u: "unat (m_sendOffset s + n) = unat (m_sendOffset s) + unat n" by (rule unat_add_small)
  have Q1: "queue_ok invar live X (?s1, w)" and qu: "queued (?s1, w) = queued (s, w)"
    using Q by (simp_all add: queue_ok_def queued_def)
  have cb: "current_bytes (?s1, w) = drop (unat n) (current_bytes (s, w))"
    using cur by (simp add: current_bytes_def u add.commute [of "unat n"])
  have tw: "to_wire (?s1, w) = drop (unat n) (to_wire (s, w))" using n(2) cb qu by (simp add: to_wire_def)
  show ?thesis
  proof (cases "m_sendOffset ?s1 < en_packetSize ?e")
    case True
    with C cur have "PostCurrentSend env (?s1, w) = (r, s', w')" by (simp add: OnSendCompleted_def)
    from posted_rest [OF this Q1 _ _ _ _ k, of a] cur sg nc True tw show ?thesis by simp
  next
    case False
    then have "unat (en_packetSize ?e) \<le> unat (m_sendOffset s) + unat n" using u by (simp add: word_less_nat_alt)
    then have "current_bytes (?s1, w) = []" using len le cb by simp
    obtain s2 w2 where D: "drop_current env (?s1, w) = (s2, w2)" by fastforce
    have cur1: "m_currentSendPacket ?s1 = Some a" using cur by simp
    note d = drop_current_ok [OF Q1 cur1 env D]
    let ?s3 = "s2\<lparr>m_sendOffset := 0, m_sending := False\<rparr>"
    have "snd (TrySendNext env (?s3, w2)) = (s', w')" using C cur False D by (simp add: OnSendCompleted_def)
    then obtain r' where T: "TrySendNext env (?s3, w2) = (r', s', w')" by (cases "TrySendNext env (?s3, w2)") simp
    have Q3: "queue_ok invar live X (?s3, w2)" and qu3: "queued (?s3, w2) = queued (s2, w2)"
      using d(2) by (simp_all add: queue_ok_def queued_def)
    have s3: "m_currentSendPacket ?s3 = None" "\<not> m_sending ?s3" "\<not> m_cancelIo ?s3" using d(1) nc by simp_all
    have "to_wire (?s3, w2) = to_wire (?s1, w)"
      using d(3,4) qu3 s3(1) \<open>current_bytes (?s1, w) = []\<close> by (simp only: to_wire_def snd_conv) (simp add: current_bytes_def)
    with TrySendNext_rest [OF Q3 s3 _ T] d(1,5,6) k tw show ?thesis by simp
  qed
qed

end

section \<open>Queueing a packet\<close>

lemma push_new_frame:
  assumes P: "push_new acquire release fill (q, w) = (ok, q', w')"
    and C: "\<And>w1 a. CreateSendPacketEntry acquire w = (Some a, w1) \<Longrightarrow> a \<noteq> b"
  shows "(entry_at w' b)\<lparr>en_next := None\<rparr> = (entry_at w b)\<lparr>en_next := None\<rparr>"
    and "w_entries w b \<noteq> None \<Longrightarrow> w_entries w' b \<noteq> None"
proof -
  have "(entry_at w' b)\<lparr>en_next := None\<rparr> = (entry_at w b)\<lparr>en_next := None\<rparr> \<and> (w_entries w b \<noteq> None \<longrightarrow> w_entries w' b \<noteq> None)"
  proof (cases "CreateSendPacketEntry acquire w")
    case (Pair r w1)
    have w1: "w_entries w1 = (case r of None \<Rightarrow> w_entries w | Some a \<Rightarrow> (w_entries w)(a := Some new_entry))"
      using Pair by (auto simp: CreateSendPacketEntry_def split: option.splits prod.splits)
    show ?thesis
    proof (cases r)
      case None
      then show ?thesis using P Pair w1 by (simp add: push_new_def entry_at_def)
    next
      case (Some a)
      with C Pair have ne: "a \<noteq> b" by blast
      then have same: "w_entries w1 b = w_entries w b" using w1 Some by simp
      let ?w2 = "set_entry a (fill (entry_at w1 a)) w1"
      obtain ok2 q2 w3 where B: "PushBack a (q, ?w2) = (ok2, q2, w3)" by (metis prod_cases3)
      have f: "(entry_at w3 b)\<lparr>en_next := None\<rparr> = (entry_at w b)\<lparr>en_next := None\<rparr> \<and> (w_entries w b \<noteq> None \<longrightarrow> w_entries w3 b \<noteq> None)"
        using B ne same by (auto simp: PushBack_def Let_def entry_at_def split: option.splits if_splits)
      show ?thesis
        using P Pair Some B f ne by (auto simp: push_new_def ReleaseSendPacketEntry_def entry_at_def split: bool.splits)
    qed
  qed
  then show "(entry_at w' b)\<lparr>en_next := None\<rparr> = (entry_at w b)\<lparr>en_next := None\<rparr>"
    and "w_entries w b \<noteq> None \<Longrightarrow> w_entries w' b \<noteq> None" by blast+
qed

lemma push_new_flags:
  "push_new acquire release fill (q, w) = (ok, q', w') \<Longrightarrow> sq_sendQueueMemoryPool q' = sq_sendQueueMemoryPool q \<and>
     sq_packetMemoryPool q' = sq_packetMemoryPool q \<and> sq_generalMemoryPool q' = sq_generalMemoryPool q"
  by (auto simp: push_new_def PushBack_def Let_def split: option.splits if_splits prod.splits bool.splits)

lemma reject_frame [simp]:
  "m_sendPacketQueue (fst (reject r (s, w))) = m_sendPacketQueue s"
  "m_currentSendPacket (fst (reject r (s, w))) = m_currentSendPacket s"
  "m_sendOffset (fst (reject r (s, w))) = m_sendOffset s" "m_sending (fst (reject r (s, w))) = m_sending s"
  "m_cancelIo (fst (reject r (s, w))) = m_cancelIo s" "m_sessionId (fst (reject r (s, w))) = m_sessionId s" "m_bufferConfig (fst (reject r (s, w))) = m_bufferConfig s" "snd (reject r (s, w)) = w"
  by (simp_all add: reject_def ShouldLogSendReject_def Let_def)

text \<open>The parts of a session the sending lemmas look at.\<close>

lemma send_part_cong:
  assumes "m_sendPacketQueue s' = m_sendPacketQueue s" and "m_currentSendPacket s' = m_currentSendPacket s"
    and "m_sendOffset s' = m_sendOffset s"
  shows "queued (s', w) = queued (s, w)" and "current_bytes (s', w) = current_bytes (s, w)"
    and "to_wire (s', w) = to_wire (s, w)" and "queue_ok invar live X (s', w) = queue_ok invar live X (s, w)"
    and "m_sending s' = m_sending s \<Longrightarrow> m_cancelIo s' = m_cancelIo s \<Longrightarrow> m_sessionId s' = m_sessionId s \<Longrightarrow> at_rest (s', w) = at_rest (s, w)"
proof -
  show q: "queued (s', w) = queued (s, w)" and c: "current_bytes (s', w) = current_bytes (s, w)"
    using assms by (simp_all add: queued_def current_bytes_def split: option.split)
  show "to_wire (s', w) = to_wire (s, w)" by (simp add: to_wire_def q c)
  show "queue_ok invar live X (s', w) = queue_ok invar live X (s, w)" by (simp add: queue_ok_def q assms)
  show "at_rest (s', w) = at_rest (s, w)" if "m_sending s' = m_sending s" "m_cancelIo s' = m_cancelIo s"
    "m_sessionId s' = m_sessionId s" using that assms by (simp add: at_rest_def q c split: option.split)
qed

text \<open>A change of the world that leaves the entries of the session alone.\<close>

lemma same_world:
  assumes Q: "queue_ok invar live X (s, w)" and W: "world_inv invar live X (nw_send w')"
    and same: "\<And>a. sendable w a \<Longrightarrow> same_entry w w' a" and lnk: "entry_links (nw_send w') = entry_links (nw_send w)"
  shows "queue_ok invar live X (s, w')" and "queued (s, w') = queued (s, w)" and "current_bytes (s, w') = current_bytes (s, w)"
    and "to_wire (s, w') = to_wire (s, w)"
    and "nw_posted w' = nw_posted w \<Longrightarrow> at_rest (s, w') = at_rest (s, w)"
proof -
  obtain q where q: "m_sendPacketQueue s = Some q" "sq_inv (q, nw_send w)" "sq_sendQueueMemoryPool q" "sq_packetMemoryPool q"
    "sq_generalMemoryPool q" and cts: "queued (s, w) = sq_contents (q, nw_send w)"
    and sd: "\<And>a. a \<in> set (sq_contents (q, nw_send w)) \<Longrightarrow> sendable w a"
    and c: "\<And>a. m_currentSendPacket s = Some a \<Longrightarrow> sendable w a \<and> a \<notin> set (sq_contents (q, nw_send w))"
    by (rule queue_okD [OF Q]) blast
  have sc: "sq_contents (q, nw_send w') = sq_contents (q, nw_send w)" by (simp add: sq_contents_def lnk)
  have si: "sq_inv (q, nw_send w')" using q(2) by (simp add: sq_inv_def sc lnk)
  show qu: "queued (s, w') = queued (s, w)" using q(1) sc cts by (simp add: queued_def)
  have sd': "sendable w' a" if "sendable w a" for a using same_entry_sendable [OF same [OF that] that] .
  then show "queue_ok invar live X (s, w')" using W q si qu cts sd c by (simp add: queue_ok_def)
  have eb: "entry_bytes w' a = entry_bytes w a" if "sendable w a" for a using same_entry_bytes [OF same [OF that] that] .
  then show cb: "current_bytes (s, w') = current_bytes (s, w)"
    using c by (auto simp: current_bytes_def split: option.split)
  have "map (entry_bytes w') (queued (s, w)) = map (entry_bytes w) (queued (s, w))" using eb sd cts by simp
  then show "to_wire (s, w') = to_wire (s, w)" by (simp only: to_wire_def cb qu snd_conv)
  show "at_rest (s, w') = at_rest (s, w)" if "nw_posted w' = nw_posted w" using that by (simp add: at_rest_def qu cb split: option.split)
qed

lemma world_inv_packetPool:
  assumes inv: "world_inv invar live X w" and p: "invar p" "live (w_packetPool w) \<subseteq> live p"
  shows "world_inv invar live X (w\<lparr>w_packetPool := p\<rparr>)"
proof -
  note D = world_invD [OF inv]
  have h: "holds (w\<lparr>w_packetPool := p\<rparr>) b = holds w b" for b by (simp add: holds_def entry_at_def)
  have r: "entry_refs (w\<lparr>w_packetPool := p\<rparr>) c = entry_refs w c" for c by (simp add: entry_refs_def entry_at_def)
  show ?thesis by (rule world_invI, unfold h r) (use D p in auto)
qed

lemma sendable_holds: "sendable w a \<Longrightarrow> holds (nw_send w) a = en_packetData (entry_at (nw_send w) a)"
  by (auto simp: sendable_entry holds_def owned_def)

context packet_pool
begin

text \<open>
  \<open>EnqueueSendPacket\<close> with a packet nobody else holds: it is taken exactly when the result is true, and then its bytes are the
  last the session has to send.
\<close>

lemma EnqueueSendPacket_rest:
  assumes Q: "queue_ok invar live X (s, w)" and rest: "at_rest (s, w)" and k: "kernel_accepts w"
    and env: "ev_acquire env = acquire" "ev_release env = release"
    and p: "p \<in> live (w_packetPool (nw_send w))" "\<And>b. holds (nw_send w) b \<noteq> Some p" "unat sz \<le> length (nw_mem w p)"
    and E: "EnqueueSendPacket env (Some (Some p)) sz (s, w) = (ok, var, s', w')"
  shows "queue_ok invar live X (s', w') \<and> at_rest (s', w') \<and> kernel_accepts w' \<and> nw_mem w' = nw_mem w \<and>
    w_packetPool (nw_send w') = w_packetPool (nw_send w) \<and> m_bufferConfig s' = m_bufferConfig s \<and>
    (if ok then to_wire (s', w') = to_wire (s, w) @ take (unat sz) (nw_mem w p) \<and> var = Some None \<and>
       4 \<le> unat sz \<and> sz \<le> maxSendPacketSize (m_bufferConfig s) \<and> ucast (packetSize (header_of (nw_mem w p))) = sz
     else to_wire (s', w') = to_wire (s, w) \<and> var = Some (Some p) \<and> (\<forall>b. holds (nw_send w') b \<noteq> Some p))"
proof -
  let ?hdr = "header_of (nw_mem w p)"
  obtain q where q: "m_sendPacketQueue s = Some q" "sq_inv (q, nw_send w)" "sq_sendQueueMemoryPool q" "sq_packetMemoryPool q"
    "sq_generalMemoryPool q" and wi: "world_inv invar live X (nw_send w)" and cts: "queued (s, w) = sq_contents (q, nw_send w)"
    and sd: "\<And>a. a \<in> set (sq_contents (q, nw_send w)) \<Longrightarrow> sendable w a"
    and c: "\<And>a. m_currentSendPacket s = Some a \<Longrightarrow> sendable w a \<and> a \<notin> set (sq_contents (q, nw_send w))"
    by (rule queue_okD [OF Q]) blast
  have refused: ?thesis if r: "\<not> ok" "var = Some (Some p)" "(s', w') = (s, w) \<or> (s', w') = reject NotEstablished (s, w)"
  proof -
    have w: "w' = w" and s: "s' = s \<or> s' = fst (reject NotEstablished (s, w))" using r(3) by (auto simp: prod_eq_iff)
    have f: "m_sendPacketQueue s' = m_sendPacketQueue s" "m_currentSendPacket s' = m_currentSendPacket s"
      "m_sendOffset s' = m_sendOffset s" "m_sending s' = m_sending s" "m_cancelIo s' = m_cancelIo s" "m_bufferConfig s' = m_bufferConfig s"
      "m_sessionId s' = m_sessionId s" using s by auto
    with send_part_cong [OF f(1-3), where w = w] Q rest k p(2) r(1,2) w f show ?thesis by simp
  qed
  show ?thesis
  proof (cases "sz = 0 \<or> sz < 4 \<or> ucast (packetSize ?hdr) \<noteq> sz \<or> sz > maxSendPacketSize (m_bufferConfig s) \<or> \<not> CanSendPacket (packetId ?hdr) s")
    case True
    then show ?thesis
      by (intro refused) (use E q(1) in \<open>auto simp: EnqueueSendPacket_def Let_def split: if_splits prod.splits\<close>)
  next
    case good: False
    obtain ok1 var1 q1 sw1 where N: "Enqueue acquire release (Some (Some p)) sz (q, nw_send w) = (ok1, var1, q1, sw1)"
      by (metis prod_cases4)
    have qd: "set (sq_contents (q, nw_send w)) \<subseteq> dom (w_entries (nw_send w))" using sd by (auto simp: sendable_def)
    note n = Enqueue_inv [OF wi q(2) qd p(1,2) N]
    let ?s1 = "s\<lparr>m_sendPacketQueue := Some q1\<rparr>" and ?w1 = "set_send sw1 w"
    have same: "same_entry w ?w1 a" if "sendable w a" for a
    proof (cases "sq_sendQueueMemoryPool q \<and> sz > PACKET_SIZE_LIMIT")
      case True
      then have "sw1 = nw_send w" using N by (auto simp: Enqueue_def split: if_splits)
      then show ?thesis by (simp add: same_entry_def)
    next
      case False
      define fill :: "SendPacketEntry \<Rightarrow> SendPacketEntry" where "fill = (\<lambda>e. e\<lparr>en_packetData := Some p, en_packetSize := sz,
         en_releaseFunc := None, en_releaseContext := None\<rparr>)"
      obtain ok2 where P: "push_new acquire release fill (q, nw_send w) = (ok2, q1, sw1)"
        using N q(3-5) good False by (auto simp: Enqueue_def fill_def split: prod.splits bool.splits)
      have ad: "w_entries (nw_send w) a \<noteq> None" using that by (simp add: sendable_entry)
      have ne: "b \<noteq> a" if "CreateSendPacketEntry acquire (nw_send w) = (Some b, v)" for v b
        using CreateSendPacketEntry_inv(5) [OF wi that] ad by auto
      have "(entry_at sw1 a)\<lparr>en_next := None\<rparr> = (entry_at (nw_send w) a)\<lparr>en_next := None\<rparr>"
        using push_new_frame(1) [OF P] ne by blast
      moreover have "w_entries sw1 a \<noteq> None" using push_new_frame(2) [OF P] ne ad by blast
      ultimately show ?thesis using ad by (simp add: same_entry_def)
    qed
    have world: "nw_mem ?w1 = nw_mem w" "nw_posted ?w1 = nw_posted w" "kernel_accepts ?w1" using k by (simp_all add: kernel_accepts_def)
    have sd1: "sendable ?w1 a" if "sendable w a" for a using same_entry_sendable [OF same [OF that] that] .
    have eb: "entry_bytes ?w1 a = entry_bytes w a" if "sendable w a" for a using same_entry_bytes [OF same [OF that] that] .
    have cb: "current_bytes (?s1, ?w1) = current_bytes (s, w)" using c eb by (auto simp: current_bytes_def split: option.split)
    have mp: "map (entry_bytes ?w1) (sq_contents (q, nw_send w)) = map (entry_bytes w) (sq_contents (q, nw_send w))" using eb sd by simp
    show ?thesis
    proof (cases ok1)
      case False
      then have e0: "\<not> ok \<and> var = Some (Some p) \<and> (s', w') = reject SendQueueFull (?s1, ?w1) \<and> q1 = q"
        using E q(1) good N n env by (auto simp: EnqueueSendPacket_def Let_def split: prod.splits)
      then have rj: "(s', w') = reject SendQueueFull (?s1, ?w1)" and "q1 = q" by blast+
      have "w' = snd (reject SendQueueFull (?s1, ?w1))" "s' = fst (reject SendQueueFull (?s1, ?w1))"
        unfolding rj [symmetric] by simp_all
      then have e: "\<not> ok" "var = Some (Some p)" "w' = ?w1" "s' = fst (reject SendQueueFull (?s1, ?w1))" "q1 = q"
        using e0 by simp_all
      have f: "m_sendPacketQueue s' = m_sendPacketQueue s" "m_currentSendPacket s' = m_currentSendPacket s"
        "m_sendOffset s' = m_sendOffset s" "m_sending s' = m_sending s" "m_cancelIo s' = m_cancelIo s"
        "m_bufferConfig s' = m_bufferConfig s" "m_sessionId s' = m_sessionId s" using e(4,5) q(1) by simp_all
      have sc: "sq_contents (q, sw1) = sq_contents (q, nw_send w)" and si: "sq_inv (q, sw1)" and wv: "world_inv invar live X sw1"
        and we: "w_entries sw1 = w_entries (nw_send w)" and pp: "w_packetPool sw1 = w_packetPool (nw_send w)"
        using n False e(5) by auto
      have lk: "entry_links (nw_send ?w1) = entry_links (nw_send w)" by (simp add: entry_links_def [abs_def] entry_at_def we)
      note S = same_world [OF Q _ same lk]
      have "holds sw1 b = holds (nw_send w) b" for b using n False we by (simp add: holds_def entry_at_def)
      with p(2) S send_part_cong [OF f(1-3), where w = ?w1] wv world rest e pp f(4-7) show ?thesis by simp
    next
      case True
      then obtain a where a: "a \<notin> live (w_entryPool (nw_send w))" "sq_contents (q1, sw1) = sq_contents (q, nw_send w) @ [a]"
        "holds sw1 a = Some p" "en_packetSize (entry_at sw1 a) = sz" and si: "sq_inv (q1, sw1)" and wv: "world_inv invar live X sw1"
        and sub: "set (sq_contents (q1, sw1)) \<subseteq> dom (w_entries sw1)" and pp: "w_packetPool sw1 = w_packetPool (nw_send w)"
        and var1: "var1 = Some None" and lim: "sz \<le> PACKET_SIZE_LIMIT" using n by auto
      have flags: "sq_sendQueueMemoryPool q1 \<and> sq_packetMemoryPool q1 \<and> sq_generalMemoryPool q1"
        using N q(3-5) push_new_flags True
        by (fastforce simp: Enqueue_def split: prod.splits bool.splits if_splits)
      have "w_entries sw1 a \<noteq> None" using sub a(2) by auto
      then have sa: "sendable ?w1 a" using a(3,4) good p(3)
        by (auto simp: sendable_entry holds_def owned_def split: if_splits)
      have ab: "entry_bytes ?w1 a = take (unat sz) (nw_mem w p)"
        using a(3,4) \<open>w_entries sw1 a \<noteq> None\<close> by (auto simp: entry_bytes_def holds_def owned_def split: if_splits)
      have qu: "queued (?s1, ?w1) = queued (s, w) @ [a]" using a(2) cts by (simp add: queued_def)
      have "a \<noteq> b" if "sendable w b" for b
        using that a(1) world_invD(4) [OF wi] by (auto simp: sendable_def)
      then have Q1: "queue_ok invar live X (?s1, ?w1)"
        using wv si flags qu cts sd c sd1 sa by (simp add: queue_ok_def) blast
      have tw: "to_wire (?s1, ?w1) = to_wire (s, w) @ take (unat sz) (nw_mem w p)"
        unfolding to_wire_def cb qu cts snd_conv by (simp add: ab mp)
      have hd: "4 \<le> unat sz \<and> sz \<le> maxSendPacketSize (m_bufferConfig s) \<and> ucast (packetSize ?hdr) = sz"
        using good by (simp add: word_less_nat_alt word_le_nat_alt not_less)
      have e: "ok" "var = Some None" "(s', w') = snd (TrySendNext env (?s1, ?w1))"
        using E q(1) good N True env var1 by (auto simp: EnqueueSendPacket_def Let_def split: prod.splits)
      show ?thesis
      proof (cases "m_sending s")
        case True
        then have "TrySendNext env (?s1, ?w1) = (False, ?s1, ?w1)" by (simp add: TrySendNext_def)
        then have s': "s' = ?s1" "w' = ?w1" using e(3) by simp_all
        have "at_rest (?s1, ?w1)" using rest True cb world(2) by (auto simp: at_rest_def split: option.splits)
        then show ?thesis using Q1 world pp tw hd e(1,2) unfolding s' by simp
      next
        case False
        then have n1: "m_currentSendPacket ?s1 = None" "\<not> m_sending ?s1" "\<not> m_cancelIo ?s1"
          using rest by (simp_all add: at_rest_def)
        obtain r where T: "TrySendNext env (?s1, ?w1) = (r, s', w')" using e(3) by (metis prod.collapse)
        from TrySendNext_rest [OF Q1 n1 world(3) T] world(1) pp tw hd e(1,2) show ?thesis by simp
      qed
    qed
  qed
qed

text \<open>A packet that is created, filled in and queued; one that is refused goes back to its pool.\<close>

lemma send_system_rest:
  assumes Q: "queue_ok invar live X (s, w)" and rest: "at_rest (s, w)" and k: "kernel_accepts w"
    and env: "ev_acquire env = acquire" "ev_release env = release" and len: "length bs < 2 ^ 32"
    and S: "send_system env bs (s, w) = (ok, s', w')"
  shows "queue_ok invar live X (s', w') \<and> at_rest (s', w') \<and> kernel_accepts w' \<and> m_bufferConfig s' = m_bufferConfig s \<and>
    (if ok then to_wire (s', w') = to_wire (s, w) @ bs \<and> wire_packet (unat (maxSendPacketSize (m_bufferConfig s))) bs
     else to_wire (s', w') = to_wire (s, w))"
proof -
  have wi: "world_inv invar live X (nw_send w)" using Q by (simp add: queue_ok_def)
  note I = world_invD [OF wi]
  obtain r p' where A: "acquire (w_packetPool (nw_send w)) (length bs) = (r, p')" by fastforce
  define w1 where "w1 = set_send ((nw_send w)\<lparr>w_packetPool := p'\<rparr>) w"
  have C: "CreatePacket env (length bs) w = (r, w1)" using A env by (simp add: CreatePacket_def w1_def)
  note iv = acquire_invar [OF I(2) len A] and lv = acquire_live [OF I(2) len A]
  have wi1: "world_inv invar live X (nw_send w1)"
    unfolding w1_def set_send_sels by (rule world_inv_packetPool [OF wi iv]) (use lv in blast)
  have ent1: "entry_at (nw_send w1) = entry_at (nw_send w)" "w_entries (nw_send w1) = w_entries (nw_send w)"
    "holds (nw_send w1) = holds (nw_send w)"
    by (simp_all add: w1_def entry_at_def holds_def fun_eq_iff)
  show ?thesis
  proof (cases r)
    case None
    then have e: "\<not> ok" "s' = s" "w' = w1" using S C by (simp_all add: send_system_def)
    have "same_entry w w1 a" for a by (simp add: same_entry_def ent1) (simp add: w1_def)
    note S1 = same_world [OF Q wi1 this]
    have "nw_posted w1 = nw_posted w" "kernel_accepts w1" using k by (simp_all add: w1_def kernel_accepts_def)
    with S1 rest e show ?thesis by (simp add: entry_links_def [abs_def] ent1)
  next
    case (Some a)
    define w2 where "w2 = write_mem a bs w1"
    have fresh: "a \<notin> live (w_packetPool (nw_send w))" using acquire_fresh [OF I(2) len A [unfolded Some]] .
    have mem: "nw_mem w2 a = bs @ drop (length bs) (nw_mem w a)" "\<And>b. b \<noteq> a \<Longrightarrow> nw_mem w2 b = nw_mem w b"
      by (simp_all add: w2_def write_mem_def w1_def)
    have snd2: "nw_send w2 = nw_send w1" and pst: "nw_posted w2 = nw_posted w" and kk: "kernel_accepts w2"
      using k by (simp_all add: w2_def write_mem_def w1_def kernel_accepts_def)
    have same: "same_entry w w2 b" if sb: "sendable w b" for b
    proof -
      obtain c where c: "en_packetData (entry_at (nw_send w) b) = Some c" using sb by (auto simp: sendable_entry)
      then have "c \<in> live (w_packetPool (nw_send w))" using I(6) [of b c] sendable_holds [OF sb] by simp
      with fresh have "c \<noteq> a" by blast
      then show ?thesis using c mem(2) by (simp add: same_entry_def snd2 ent1)
    qed
    have lk: "entry_links (nw_send w2) = entry_links (nw_send w)" by (simp add: entry_links_def [abs_def] snd2 ent1)
    note S2 = same_world [OF Q wi1 [folded snd2] same lk]
    have u: "unat (of_nat (length bs) :: u32) = length bs" using len by (simp add: unat_of_nat take_bit_nat_eq_self)
    obtain ok3 var3 s3 w3 where E: "EnqueueSendPacket env (Some (Some a)) (of_nat (length bs)) (s, w2) = (ok3, var3, s3, w3)"
      by (metis prod_cases4)
    have pa: "a \<in> live (w_packetPool (nw_send w2))" using lv Some by (simp add: snd2 w1_def)
    have ph: "holds (nw_send w2) b \<noteq> Some a" for b using fresh I(6) [of b a] by (auto simp: snd2 ent1)
    have pl: "unat (of_nat (length bs) :: u32) \<le> length (nw_mem w2 a)" by (simp add: u mem)
    note R = EnqueueSendPacket_rest [OF S2(1) _ kk env pa ph pl E]
    have ok: "ok = ok3" and rest3: "ok3 \<Longrightarrow> (s', w') = (s3, w3)"
      and rest4: "\<not> ok3 \<Longrightarrow> (s', w') = (s3, set_send (ReleasePacket release (Some a) (nw_send w3)) w3)"
      using S C Some E env by (auto simp: send_system_def w2_def split: bool.splits)
    have tk: "take (unat (of_nat (length bs) :: u32)) (nw_mem w2 a) = bs" by (simp add: u mem)
    show ?thesis
    proof (cases ok3)
      case True
      have hd: "header_of (nw_mem w2 a) = header_of bs" if "4 \<le> length bs"
        using header_of_take [OF that, of "nw_mem w2 a"] by (simp add: mem)
      have sz: "ucast (packetSize (header_of (nw_mem w2 a))) = (of_nat (length bs) :: u32)" "4 \<le> length bs"
        "(of_nat (length bs) :: u32) \<le> maxSendPacketSize (m_bufferConfig s)"
        using R True S2 rest pst u by simp_all
      have "unat (packetSize (header_of bs)) = unat (ucast (packetSize (header_of bs)) :: u32)" by (simp add: unat_ucast_u16)
      also have "\<dots> = length bs" using sz(1) hd [OF sz(2)] u by simp
      finally have "wire_packet (unat (maxSendPacketSize (m_bufferConfig s))) bs"
        using sz(2,3) u by (simp add: wire_packet_def word_le_nat_alt)
      with R True S2 rest pst ok rest3 tk show ?thesis by simp
    next
      case False
      define w4 where "w4 = set_send (ReleasePacket release (Some a) (nw_send w3)) w3"
      have e: "s' = s3" "w' = w4" using rest4 False by (simp_all add: w4_def)
      have R': "queue_ok invar live X (s3, w3)" "at_rest (s3, w3)" "kernel_accepts w3" "to_wire (s3, w3) = to_wire (s, w)"
        "\<And>b. holds (nw_send w3) b \<noteq> Some a" "w_packetPool (nw_send w3) = w_packetPool (nw_send w2)"
        "m_bufferConfig s3 = m_bufferConfig s"
        using R False S2 rest pst by simp_all
      have wi3: "world_inv invar live X (nw_send w3)" using R'(1) by (simp add: queue_ok_def)
      have wi4: "world_inv invar live X (nw_send w4)"
        unfolding w4_def set_send_sels by (rule ReleasePacket_inv(1) [OF wi3 _ R'(5)]) (use pa R'(6) in simp)
      have ent4: "entry_at (nw_send w4) = entry_at (nw_send w3)" "w_entries (nw_send w4) = w_entries (nw_send w3)"
        by (simp_all add: w4_def ReleasePacket_def entry_at_def fun_eq_iff)
      have "same_entry w3 w4 b" for b by (simp add: same_entry_def ent4) (simp add: w4_def)
      note S4 = same_world [OF R'(1) wi4 this]
      have "nw_posted w4 = nw_posted w3" "kernel_accepts w4" using R'(3) by (simp_all add: w4_def kernel_accepts_def)
      with S4 R' e False ok show ?thesis by (simp add: entry_links_def [abs_def] ent4)
    qed
  qed
qed

end

section \<open>Histories\<close>

text \<open>
  What happens to a connected session on the send side: a thread creates and queues a packet, or the kernel reports that it has taken some
  bytes of the posted send. Each event names the thread it runs on. The result is the packets accepted, and the bytes the kernel took.
\<close>

datatype net_event = Submit bytes | Complete nat

definition tls_env :: "OS \<Rightarrow> bool \<Rightarrow> ('w \<Rightarrow> 'w) \<Rightarrow> ('w \<Rightarrow> 'w) \<Rightarrow> nat \<Rightarrow> (TlsMemoryPool, 'w) Env" where
  "tls_env os al onDisconnect onReady tid = \<lparr>ev_acquire = tls_acquire os al tid, ev_release = tls_release al tid,
     ev_OnDisconnectRequest = onDisconnect, ev_OnReleaseReady = onReady\<rparr>"

definition outstanding :: "('p, 'z) Net \<Rightarrow> bytes" where
  "outstanding = (\<lambda>(s, w). if m_sending s then (case last (nw_posted w) of SendPosted _ d \<Rightarrow> d | _ \<Rightarrow> []) else [])"

fun session_run :: "(nat \<Rightarrow> ('p, ('p, 'z) Net) Env) \<Rightarrow> (nat \<times> net_event) list \<Rightarrow> ('p, 'z) Net \<Rightarrow> bytes list \<times> bytes \<times> ('p, 'z) Net" where
  "session_run env [] sw = ([], [], sw)"
| "session_run env ((tid, Submit bs) # evs) sw =
     (let (ok, sw1) = send_system (env tid) bs sw; (acc, wire, sw2) = session_run env evs sw1
      in (if ok then bs # acc else acc, wire, sw2))"
| "session_run env ((tid, Complete n) # evs) sw =
     (let d = outstanding sw; got = min n (length d) in
      if got = 0 then session_run env evs sw
      else
        (let (_, sw1) = OnSendCompleted (env tid) (of_nat got) sw; (acc, wire, sw2) = session_run env evs sw1
         in (acc, take got d @ wire, sw2)))"

lemma outstanding_rest: "at_rest sw \<Longrightarrow> outstanding sw = current_bytes sw"
  by (cases sw) (auto simp: at_rest_def outstanding_def current_bytes_def split: option.splits)

lemma session_run_wire:
  assumes "queue_ok pool_inv payloads X sw" and "at_rest sw" and "kernel_accepts (snd sw)"
    and "\<And>bs. Submit bs \<in> snd ` set evs \<Longrightarrow> length bs < 2 ^ 32"
    and "session_run (tls_env os al onD onR) evs sw = (acc, wire, sw')"
  shows "to_wire sw @ concat acc = wire @ to_wire sw' \<and>
    (\<forall>bs \<in> set acc. wire_packet (unat (maxSendPacketSize (m_bufferConfig (fst sw)))) bs) \<and> at_rest sw' \<and>
    queue_ok pool_inv payloads X sw'"
  using assms
proof (induction evs arbitrary: sw acc wire)
  case Nil
  then show ?case by simp
next
  case (Cons ev evs)
  obtain s w where sw: "sw = (s, w)" by fastforce
  obtain tid e where ev: "ev = (tid, e)" by fastforce
  have env: "ev_acquire (tls_env os al onD onR tid) = tls_acquire os al tid" "ev_release (tls_env os al onD onR tid) = tls_release al tid"
    by (simp_all add: tls_env_def)
  note rest = Cons.prems(1,2,3) [unfolded sw]
  have evs: "\<And>bs. Submit bs \<in> snd ` set evs \<Longrightarrow> length bs < 2 ^ 32" using Cons.prems(4) by auto
  show ?case
  proof (cases e)
    case (Submit bs)
    obtain ok s1 w1 where S: "send_system (tls_env os al onD onR tid) bs (s, w) = (ok, s1, w1)" by (metis prod_cases3)
    obtain acc' wire' sw2 where R: "session_run (tls_env os al onD onR) evs (s1, w1) = (acc', wire', sw2)" by (metis prod_cases3)
    have len: "length bs < 2 ^ 32" using Cons.prems(4) [of bs] ev Submit by simp
    have r: "acc = (if ok then bs # acc' else acc')" "wire = wire'" "sw2 = sw'"
      using Cons.prems(5) by (simp_all add: sw ev Submit S R)
    note T = tls.send_system_rest [OF rest(1,2) _ env len S]
    have ih: "to_wire (s1, w1) @ concat acc' = wire' @ to_wire sw' \<and>
      (\<forall>bs \<in> set acc'. wire_packet (unat (maxSendPacketSize (m_bufferConfig s1))) bs) \<and> at_rest sw' \<and> queue_ok pool_inv payloads X sw'"
      using Cons.IH [of "(s1, w1)" acc' wire'] T rest(3) evs R r(3) by simp
    then show ?thesis using T rest(3) r sw by (auto split: if_splits)
  next
    case (Complete n)
    let ?d = "outstanding (s, w)" and ?got = "min n (length (outstanding (s, w)))"
    have d: "?d = current_bytes (s, w)" using outstanding_rest [OF rest(2)] .
    show ?thesis
    proof (cases "?got = 0")
      case True
      then have "session_run (tls_env os al onD onR) evs sw = (acc, wire, sw')"
        using Cons.prems(5) by (simp add: sw ev Complete Let_def split: if_splits)
      from Cons.IH [OF Cons.prems(1-3) evs this] show ?thesis .
    next
      case False
      obtain b s1 w1 where C: "OnSendCompleted (tls_env os al onD onR tid) (of_nat ?got) (s, w) = (b, s1, w1)" by (metis prod_cases3)
      obtain acc' wire' sw2 where R: "session_run (tls_env os al onD onR) evs (s1, w1) = (acc', wire', sw2)" by (metis prod_cases3)
      have r: "acc = acc'" "wire = take ?got ?d @ wire'" "sw2 = sw'"
        using Cons.prems(5) False C R by (simp_all add: sw ev Complete Let_def)
      have "?d \<noteq> []" using False by auto
      then obtain a where cur: "m_currentSendPacket s = Some a" using d by (auto simp: current_bytes_def split: option.splits)
      have a: "sendable w a" using rest(1) cur by (simp add: queue_ok_def)
      have "length ?d \<le> unat (en_packetSize (entry_at (nw_send w) a))"
        using length_entry_bytes [OF a] d cur by (simp add: current_bytes_def)
      also have "\<dots> < 2 ^ 32" using unsigned_less [of "en_packetSize (entry_at (nw_send w) a)"] by simp
      finally have u: "unat (of_nat ?got :: u32) = ?got" by (simp add: unat_of_nat take_bit_nat_eq_self)
      have nz: "(of_nat ?got :: u32) \<noteq> 0" using u False by (metis unat_0)
      have le: "unat (of_nat ?got :: u32) \<le> length (current_bytes (s, w))" using u d by simp
      note T = tls.OnSendCompleted_rest [OF rest(1,2) cur nz le _ env(2) C]
      have ih: "to_wire (s1, w1) @ concat acc' = wire' @ to_wire sw' \<and>
        (\<forall>bs \<in> set acc'. wire_packet (unat (maxSendPacketSize (m_bufferConfig s1))) bs) \<and> at_rest sw' \<and> queue_ok pool_inv payloads X sw'"
        using Cons.IH [of "(s1, w1)" acc' wire'] T rest(3) evs R r(3) by simp
      have "take ?got ?d @ drop ?got (to_wire (s, w)) = to_wire (s, w)"
        by (simp add: to_wire_def d)
      then show ?thesis using ih T rest(3) r sw u by (metis append.assoc fst_conv snd_conv)
    qed
  qed
qed

section \<open>Properties\<close>

text \<open>
  C38. What a session sends is its packets, whole and in order, however the kernel cuts the sends: after any history of packets queued by any
  threads and of partial completions, the bytes the kernel took followed by those still to be sent are those that
  were to be sent at the start followed by the accepted packets; what is posted is always the rest of the current packet; and
  every accepted packet has a header that names its own length, within the limit.
\<close>

theorem send_stream_exact:
  assumes "queue_ok pool_inv payloads X sw" and "at_rest sw" and "kernel_accepts (snd sw)"
    and "\<And>bs. Submit bs \<in> snd ` set evs \<Longrightarrow> length bs < 2 ^ 32"
    and "session_run (tls_env os al onD onR) evs sw = (acc, wire, sw')"
  shows "to_wire sw @ concat acc = wire @ to_wire sw' \<and> at_rest sw' \<and>
    (\<forall>bs \<in> set acc. wire_packet (unat (maxSendPacketSize (m_bufferConfig (fst sw)))) bs)"
  using session_run_wire [OF assms] by blast

text \<open>A connected server session with an empty queue for one entry, on the pools of \<open>SendPath\<close>.\<close>

definition session1 :: ClientSession where
  "session1 = new_ClientSession\<lparr>m_sessionRole := ROLE_SERVER, m_serverSessionState := Server_CONNECTED, m_clientSocket := Some 5,
     m_ioCount := 1, m_bufferConfig := \<lparr>maxRecvPacketSize = 4, recvRingSize = 8, maxSendPacketSize = 4, sendQueueDepth = 1,
       recvPauseJobDepth = 0, recvResumeJobDepth = 0\<rparr>, m_sendPacketQueue := Some queue1\<rparr>"

definition net1 :: "TlsMemoryPool NetWorld" where
  "net1 = \<lparr>nw_jobs = \<lparr>jw_send = world0, jw_jobPool = pool0, jw_jobs = (\<lambda>_. None), jw_calls = [], jw_violations = 0\<rparr>,
     nw_mem = (\<lambda>_. []), nw_now = 0, nw_answers = (\<lambda>_. None), nw_calls = 0, nw_posted = [], nw_violations = 0\<rparr>"

definition run1 :: "bytes list \<times> bytes \<times> (TlsMemoryPool, unit) Net" where
  "run1 = session_run (tls_env os0 True id id) [(1, Submit [1, 0, 4, 0]), (2, Complete 3), (1, Complete 9)] (session1, net1)"

lemma session1_ok:
  "queue_ok pool_inv payloads (\<lambda>_. 0) (session1, net1)" "at_rest (session1, net1)" "kernel_accepts net1" "to_wire (session1, net1) = []"
proof -
  have s: "m_sendPacketQueue session1 = Some queue1" "m_currentSendPacket session1 = None" "\<not> m_sending session1" "\<not> m_cancelIo session1"
    by (simp_all add: session1_def new_ClientSession_def)
  have w: "nw_send net1 = world0" by (simp add: net1_def)
  have q: "queued (session1, net1) = []" by (simp add: queued_def s w queue1_inv)
  show "queue_ok pool_inv payloads (\<lambda>_. 0) (session1, net1)"
    by (simp add: queue_ok_def q s w world0_inv queue1_inv) (simp add: queue1_def)
  show "at_rest (session1, net1)" by (simp add: at_rest_def s q)
  show "kernel_accepts net1" by (simp add: kernel_accepts_def net1_def post_failed_def)
  show "to_wire (session1, net1) = []" by (simp add: to_wire_def q current_bytes_def s)
qed

lemma run1_result: "case run1 of (acc, wire, sw) \<Rightarrow> acc = [[1, 0, 4, 0]] \<and> wire = [1, 0, 4, 0] \<and> to_wire sw = []"
  by code_simp

lemma run1_cases: "\<exists>sw'. run1 = ([[1, 0, 4, 0]], [1, 0, 4, 0], sw') \<and> to_wire sw' = []"
  using run1_result by (auto split: prod.splits)

lemma session1_config: "maxSendPacketSize (m_bufferConfig session1) = 4"
  by (simp add: session1_def)

lemma send_stream_exact_witness: "\<exists>sw'. run1 = ([[1, 0, 4, 0]], [1, 0, 4, 0], sw') \<and> at_rest sw'"
proof -
  obtain sw' where r: "run1 = ([[1, 0, 4, 0]], [1, 0, 4, 0], sw')" using run1_cases by blast
  have "to_wire (session1, net1) @ concat [[1, 0, 4, 0]] = [1, 0, 4, 0] @ to_wire sw' \<and> at_rest sw' \<and>
      (\<forall>bs \<in> set [[1, 0, 4, 0]]. wire_packet (unat (maxSendPacketSize (m_bufferConfig (fst (session1, net1))))) bs)"
    by (rule send_stream_exact [OF session1_ok(1,2) _ _ r [unfolded run1_def]]) (simp_all add: session1_ok(3))
  with r show ?thesis by blast
qed

text \<open>
  C39. End to end, while the kernel accepts every send that is posted (\<open>kernel_accepts\<close>; \<open>shortage_cuts_packet\<close> shows what happens otherwise), once
  everything that was queued has been sent, and if the packet pool of the peer does not run short: the packets a session accepted are the packets
  the peer's receive ring hands out, in order and unchanged. Neither the sizes of the partial sends nor the way TCP cuts the stream into receives
  matters, and no accepted packet is invalid for a peer whose receive limit is at least the sender's send limit.
\<close>

theorem end_to_end:
  assumes "queue_ok pool_inv payloads X sw" and "at_rest sw" and "kernel_accepts (snd sw)"
    and "\<And>bs. Submit bs \<in> snd ` set evs \<Longrightarrow> length bs < 2 ^ 32"
    and "session_run (tls_env os al onD onR) evs sw = (acc, wire, sw')" and "to_wire sw = []" and "to_wire sw' = []"
    and "rb_inv b" and "rb_buffer b \<noteq> None" and "stored_bytes b = []" and "GetWriteableSize b \<noteq> 0"
    and "maxSendPacketSize (m_bufferConfig (fst sw)) \<le> rb_maxPacketSize b" and "0 \<notin> set ns" and "length wire \<le> length ns"
    and "recv_rounds acquire ns wire p b = (outs, res, stream', p', b')" and "res \<noteq> OutOfMemory"
  shows "map packet_bytes outs = acc \<and> res = NeedMoreData \<and> stream' = [] \<and> stored_bytes b' = []"
proof -
  have w: "wire = concat acc" and p: "\<forall>bs \<in> set acc. wire_packet (unat (maxSendPacketSize (m_bufferConfig (fst sw)))) bs"
    using session_run_wire [OF assms(1-5)] assms(6,7) by auto
  have "\<forall>bs \<in> set acc. wire_packet (unat (rb_maxPacketSize b)) bs"
    using p assms(12) by (fastforce simp: wire_packet_def word_le_nat_alt)
  from recv_rounds_packets [OF assms(8-11) this assms(13) assms(14,15) [unfolded w] assms(16)] show ?thesis .
qed

lemma end_to_end_witness:
  "\<exists>outs res stream' p' b'. recv_rounds counting_pool [2, 1, 1, 1] [1, 0, 4, 0] 0 ring8 = (outs, res, stream', p', b') \<and>
     map packet_bytes outs = fst run1"
proof -
  obtain sw' where r: "run1 = ([[1, 0, 4, 0]], [1, 0, 4, 0], sw')" and e: "to_wire sw' = []" using run1_cases by blast
  obtain outs res stream' p' b' where R: "recv_rounds counting_pool [2, 1, 1, 1] [1, 0, 4, 0] 0 ring8 = (outs, res, stream', p', b')"
    by (metis prod_cases5)
  have m: "res \<noteq> OutOfMemory" using ring8_pool_lasts R by simp
  have "map packet_bytes outs = [[1, 0, 4, 0]] \<and> res = NeedMoreData \<and> stream' = [] \<and> stored_bytes b' = []"
    by (rule end_to_end [OF session1_ok(1,2) _ _ r [unfolded run1_def] session1_ok(4) e ring8_ok(1-3) _ _ _ _ R m])
      (simp_all add: session1_ok(3) session1_config ring8_ok(4,5))
  with R have "map packet_bytes outs = fst run1" by (simp add: r)
  with R show ?thesis by blast
qed

text \<open>
  C40. A shortage of kernel buffers in the middle of a packet cuts it: when the kernel has taken a part and refuses the rest with
  \<open>WSAENOBUFS\<close> (or \<open>WSAEMFILE\<close>), the rest is thrown away and the session goes on, connected and uncancelled, so the peer will
  read the next packet as the missing part of this one.
\<close>

theorem shortage_cuts_packet:
  assumes "m_currentSendPacket s = Some a" and "unat (m_sendOffset s) + unat n < unat (en_packetSize (entry_at (nw_send w) a))"
    and "\<not> m_cancelIo s" and "0 < m_ioCount s" and "nw_answers w (nw_calls w) \<in> {Some WSAENOBUFS, Some WSAEMFILE}"
    and "OnSendCompleted env n (s, w) = (r, s', w')"
  shows "\<not> r \<and> m_currentSendPacket s' = None \<and> \<not> m_sending s' \<and> nw_posted w' = nw_posted w \<and>
    m_cancelIo s' = m_cancelIo s \<and> IsTransportConnected s' = IsTransportConnected s \<and> m_ioCount s' = m_ioCount s \<and>
    m_disconnectReason s' = m_disconnectReason s"
proof (intro conjI)
  have "unat (en_packetSize (entry_at (nw_send w) a)) < 2 ^ LENGTH(32)" by (rule unsigned_less)
  then have "unat (m_sendOffset s) + unat n < 2 ^ LENGTH(32)" using assms(2) by linarith
  then have u: "unat (m_sendOffset s + n) = unat (m_sendOffset s) + unat n" by (rule unat_add_small)
  then have lt: "m_sendOffset s + n < en_packetSize (entry_at (nw_send w) a)" using assms(2) by (simp add: word_less_nat_alt)
  then have nz: "en_packetSize (entry_at (nw_send w) a) - (m_sendOffset s + n) \<noteq> 0" by auto
  have pf: "post_failed (nw_answers w (nw_calls w)) = nw_answers w (nw_calls w)" using assms(5) by (auto simp: post_failed_def)
  obtain e where e: "nw_answers w (nw_calls w) = Some e" "e = WSAENOBUFS \<or> e = WSAEMFILE" using assms(5) by auto
  have ce: "e \<notin> set connection_errors" "e \<noteq> ERROR_OPERATION_ABORTED" using e(2) by (auto simp: connection_errors_def)
  have "OnSendCompleted env n (s, w) = (False, HandleSocketError env e OP_SEND
      (s\<lparr>m_sendOffset := m_sendOffset s + n, m_ioCount := m_ioCount s + 1\<rparr>, w\<lparr>nw_calls := nw_calls w + 1\<rparr>))"
    using assms(1,3) lt nz pf e(1)
    by (simp add: OnSendCompleted_def PostCurrentSend_def IsIOCancelRequested_def BeginIO_def ask_os_def Let_def)
  also have "\<dots> = (False, s\<lparr>m_sendOffset := 0, m_currentSendPacket := None, m_sending := False\<rparr>,
      case m_sendPacketQueue s of None \<Rightarrow> w\<lparr>nw_calls := nw_calls w + 1\<rparr>
      | Some q \<Rightarrow> set_send (ReleaseEntry (ev_release env) q (Some a) (nw_send w)) (w\<lparr>nw_calls := nw_calls w + 1\<rparr>))"
    using assms(1,4) e(2) ce by (auto simp: HandleSocketError_def drop_current_def DecrementIO_def Let_def split: option.split)
  finally show "\<not> r" and "m_currentSendPacket s' = None" and "\<not> m_sending s'" and "nw_posted w' = nw_posted w"
    and "m_cancelIo s' = m_cancelIo s" and "IsTransportConnected s' = IsTransportConnected s" and "m_ioCount s' = m_ioCount s"
    and "m_disconnectReason s' = m_disconnectReason s"
    using assms(6) by (auto simp: IsTransportConnected_def split: option.splits)
qed

text \<open>A packet of eight bytes of which three were taken, on a kernel without buffers.\<close>

definition cut_world :: "TlsMemoryPool NetWorld" where
  "cut_world = net1\<lparr>nw_answers := (\<lambda>_. Some WSAENOBUFS), nw_jobs := (nw_jobs net1)\<lparr>jw_send :=
     world0\<lparr>w_entries := [7 \<mapsto> new_entry\<lparr>en_packetData := Some 196656, en_packetSize := 8\<rparr>]\<rparr>\<rparr>\<rparr>"

lemma shortage_cuts_packet_witness:
  "\<exists>s' w'. OnSendCompleted (tls_env os0 True id id 1) 3 (session1\<lparr>m_currentSendPacket := Some 7, m_sending := True\<rparr>, cut_world) =
     (False, s', w') \<and> m_currentSendPacket s' = None \<and> IsTransportConnected s'"
proof -
  let ?s = "session1\<lparr>m_currentSendPacket := Some 7, m_sending := True\<rparr>"
  obtain r s' w' where O: "OnSendCompleted (tls_env os0 True id id 1) 3 (?s, cut_world) = (r, s', w')" by (metis prod_cases3)
  have c: "m_currentSendPacket ?s = Some 7" "\<not> m_cancelIo ?s" "0 < m_ioCount ?s" "IsTransportConnected ?s"
    "unat (m_sendOffset ?s) + unat (3 :: u32) < unat (en_packetSize (entry_at (nw_send cut_world) 7))"
    "nw_answers cut_world (nw_calls cut_world) \<in> {Some WSAENOBUFS, Some WSAEMFILE}"
    by (simp_all add: session1_def new_ClientSession_def cut_world_def entry_at_def IsTransportConnected_def)
  note T = shortage_cuts_packet [OF c(1,5,2,3,6) O]
  from T c(4) O show ?thesis by simp
qed

end
