(* ===== verification/ClientSessionPool.thy ===== *)
theory ClientSessionPool
  imports Session ReleaseProtocol
begin

text \<open>
  The pool of client sessions, \<open>Session/ClientSessionPool\<close>, and the part of \<open>Session/SessionManager\<close> that hands it out. The sessions and
  nodes are arrays of the world. A session that an operation works on is taken out of its array and carried beside the world, as in \<open>Session\<close>;
  \<open>on_session\<close> does that. Pointers to sessions and nodes are indices.
\<close>

section \<open>State\<close>

record SessionNode =
  nd_session :: bool
  nextNode :: "nat option"
  poolState :: SESSION_POOL_STATE

definition new_SessionNode :: SessionNode where
  "new_SessionNode = \<lparr>nd_session = False, nextNode = None, poolState = SESSION_POOL_FREE\<rparr>"

text \<open>The calls of the service's hooks that open and close a connection, in order.\<close>

datatype service_call = ClientConnect u32 | ClientDisconnect u32 DisconnectReason

record 'p PoolWorld = "'p NetWorld" +
  cp_sessions :: "ClientSession list"
  cp_nodes :: "SessionNode list"
  cp_freeList :: "nat option"
  cp_capacity :: u32
  cp_closeSocketFunc :: bool
  cp_disconnectNotifyFunc :: bool
  cp_ready :: bool
  nw_closed :: "nat list"
  sv_calls :: "service_call list"

type_synonym ('p, 'y) PoolNet = "ClientSession \<times> ('p, 'y) PoolWorld_scheme"

definition on_session :: "nat \<Rightarrow> (('p, 'y) PoolNet \<Rightarrow> ('p, 'y) PoolNet) \<Rightarrow> ('p, 'y) PoolWorld_scheme \<Rightarrow> ('p, 'y) PoolWorld_scheme" where
  "on_session i f w = (case f (cp_sessions w ! i, w) of (s, w') \<Rightarrow> w'\<lparr>cp_sessions := (cp_sessions w')[i := s]\<rparr>)"

abbreviation node_of :: "('p, 'y) PoolWorld_scheme \<Rightarrow> ClientSession \<Rightarrow> SessionNode" where
  "node_of w s \<equiv> cp_nodes w ! unat (m_sessionId s)"

definition set_node :: "nat \<Rightarrow> (SessionNode \<Rightarrow> SessionNode) \<Rightarrow> ('p, 'y) PoolWorld_scheme \<Rightarrow> ('p, 'y) PoolWorld_scheme" where
  "set_node i f w = w\<lparr>cp_nodes := (cp_nodes w)[i := f (cp_nodes w ! i)]\<rparr>"

text \<open>\<open>IOCPCore::CloseSocketHandle\<close>, the function that both pools are given.\<close>

definition CloseSocketHandle :: "nat option \<Rightarrow> ('p, 'y) PoolWorld_scheme \<Rightarrow> ('p, 'y) PoolWorld_scheme" where
  "CloseSocketHandle socket w = w\<lparr>nw_closed := nw_closed w @ (case socket of None \<Rightarrow> [] | Some x \<Rightarrow> [x])\<rparr>"

section \<open>Construction\<close>

text \<open>
  The constructor's loop from slot \<open>i\<close>. \<open>eventCreated\<close> and \<open>alloc\<close> answer for the event and the ring of each session; the pools are
  given or not as in \<open>InitializeMemoryPool\<close>. A \<open>new\<close> that fails throws.
\<close>

primrec init_sessions ::
  "nat \<Rightarrow> ('p, ('p, 'y) PoolNet) Env \<Rightarrow> (nat \<Rightarrow> bool) \<Rightarrow> (nat \<Rightarrow> nat \<Rightarrow> bytes option) \<Rightarrow> bool \<Rightarrow> bool \<Rightarrow> bool \<Rightarrow>
     SessionBufferConfig \<Rightarrow> nat \<Rightarrow> ('p, 'y) PoolWorld_scheme \<Rightarrow> bool \<times> ('p, 'y) PoolWorld_scheme" where
  "init_sessions 0 env eventCreated alloc sendQueuePool packetPool generalPool config i w = (True, w)"
| "init_sessions (Suc n) env eventCreated alloc sendQueuePool packetPool generalPool config i w =
     (case ClientSession_Initialize (eventCreated i) ROLE_SERVER (of_nat i) (cp_sessions w ! i) of
        (False, s) \<Rightarrow> (False, violation (w\<lparr>cp_sessions := (cp_sessions w)[i := s]\<rparr>))
      | (True, s) \<Rightarrow>
          (case InitializeMemoryPool env (alloc i) sendQueuePool packetPool generalPool config (s, w) of
             (False, s1, w1) \<Rightarrow> (False, violation (w1\<lparr>cp_sessions := (cp_sessions w1)[i := s1]\<rparr>))
           | (True, s1, w1) \<Rightarrow>
               init_sessions n env eventCreated alloc sendQueuePool packetPool generalPool config (i + 1)
                 ((set_node i (\<lambda>node. node\<lparr>nd_session := True, nextNode := cp_freeList w1\<rparr>)
                    (w1\<lparr>cp_sessions := (cp_sessions w1)[i := s1\<lparr>m_releaseReadyFunc := True\<rparr>]\<rparr>))\<lparr>cp_freeList := Some i\<rparr>)))"

definition ClientSessionPool_create ::
  "('p, ('p, 'y) PoolNet) Env \<Rightarrow> (nat \<Rightarrow> bool) \<Rightarrow> (nat \<Rightarrow> nat \<Rightarrow> bytes option) \<Rightarrow> bool \<Rightarrow> bool \<Rightarrow> bool \<Rightarrow> SessionBufferConfig \<Rightarrow> u32 \<Rightarrow>
     ('p, 'y) PoolWorld_scheme \<Rightarrow> ('p, 'y) PoolWorld_scheme" where
  "ClientSessionPool_create env eventCreated alloc sendQueuePool packetPool generalPool config capacity w =
     (case init_sessions (unat capacity) env eventCreated alloc sendQueuePool packetPool generalPool config 0
             (w\<lparr>cp_capacity := capacity, cp_sessions := replicate (unat capacity) new_ClientSession,
                cp_nodes := replicate (unat capacity) new_SessionNode, cp_freeList := None, cp_closeSocketFunc := False,
                cp_disconnectNotifyFunc := False, cp_ready := False\<rparr>) of
        (ok, w') \<Rightarrow> w'\<lparr>cp_ready := ok\<rparr>)"

definition SetEventHandler :: "('p, 'y) PoolWorld_scheme \<Rightarrow> ('p, 'y) PoolWorld_scheme" where
  "SetEventHandler w = w\<lparr>cp_sessions := map (\<lambda>s. s\<lparr>m_eventHandler := True\<rparr>) (cp_sessions w)\<rparr>"

section \<open>Handing out\<close>

definition IsSessionFull :: "('p, 'y) PoolWorld_scheme \<Rightarrow> bool" where
  "IsSessionFull w \<longleftrightarrow> cp_freeList w = None"

definition ClientSessionPool_Acquire :: "('p, 'y) PoolWorld_scheme \<Rightarrow> nat option \<times> ('p, 'y) PoolWorld_scheme" where
  "ClientSessionPool_Acquire w =
     (case cp_freeList w of
        None \<Rightarrow> (None, w)
      | Some i \<Rightarrow>
          (let w1 = set_node i (\<lambda>node. node\<lparr>nextNode := None\<rparr>) (w\<lparr>cp_freeList := nextNode (cp_nodes w ! i)\<rparr>) in
           if poolState (cp_nodes w1 ! i) \<noteq> SESSION_POOL_FREE then (None, w1)
           else (if nd_session (cp_nodes w1 ! i) then Some i else None,
                 set_node i (\<lambda>node. node\<lparr>poolState := SESSION_POOL_IN_USE\<rparr>) w1)))"

section \<open>Giving back\<close>

text \<open>
  The notification goes through \<open>IOCPServer::OnSessionDisconnectNotify\<close>, which takes the reason from the session, to the service's
  \<open>OnClientDisconnect\<close>.
\<close>

definition OnSessionDisconnectNotify :: "('p, 'y) PoolNet \<Rightarrow> ('p, 'y) PoolNet" where
  "OnSessionDisconnectNotify = (\<lambda>(s, w).
     (s, w\<lparr>sv_calls := sv_calls w @ [ClientDisconnect (m_sessionId s) (m_disconnectReason s)]\<rparr>))"

definition NotifyServiceDisconnect :: "('p, 'y) PoolNet \<Rightarrow> ('p, 'y) PoolNet" where
  "NotifyServiceDisconnect = (\<lambda>(s, w).
     if \<not> cp_disconnectNotifyFunc w then (s, w)
     else (case ConsumeServiceConnectNotified s of
             (False, s1) \<Rightarrow> (s1, w)
           | (True, s1) \<Rightarrow> OnSessionDisconnectNotify (s1, w)))"

definition CompleteRelease :: "('p, ('p, 'y) PoolNet) Env \<Rightarrow> ('p, 'y) PoolNet \<Rightarrow> ('p, 'y) PoolNet" where
  "CompleteRelease env = (\<lambda>(s, w).
     if m_sessionId s \<ge> cp_capacity w then (s, w)
     else
       (let i = unat (m_sessionId s);
            (s1, w1) = (if cp_closeSocketFunc w
                        then (case DetachSocket s of (socket, s') \<Rightarrow> (s', CloseSocketHandle socket w)) else (s, w));
            (s2, w2) = NotifyServiceDisconnect (s1, w1);
            (ok, s3) = ClientSession_OnDisconnect s2;
            (s4, w4) = ClientSession_ResetSession env (s3, if ok then w2 else violation w2)
        in (s4, (set_node i (\<lambda>node. node\<lparr>nextNode := cp_freeList w4, poolState := SESSION_POOL_FREE\<rparr>) w4)\<lparr>cp_freeList := Some i\<rparr>)))"

definition ClientSessionPool_Release :: "('p, ('p, 'y) PoolNet) Env \<Rightarrow> ('p, 'y) PoolNet \<Rightarrow> ('p, 'y) PoolNet" where
  "ClientSessionPool_Release env = (\<lambda>(s, w).
     if m_sessionId s \<ge> cp_capacity w then (s, w)
     else if poolState (node_of w s) \<noteq> SESSION_POOL_IN_USE then (s, w)
     else
       (let w1 = set_node (unat (m_sessionId s)) (\<lambda>node. node\<lparr>poolState := SESSION_POOL_RELEASING\<rparr>) w;
            (s2, w2) = (if IsTransportConnected s
                        then (case CancelPendingIO env (s, w1) of
                                (True, sw) \<Rightarrow> sw
                              | (False, s', w') \<Rightarrow> (s', violation w'))
                        else (s, w1))
        in case RequestRelease s2 of
             (False, s3) \<Rightarrow> (s3, w2)
           | (True, s3) \<Rightarrow> CompleteRelease env (s3, w2)))"

text \<open>
  \<open>SessionManager::ReleaseClientSession\<close>, and \<open>OnDisconnectRequest\<close>, by which a session asks to be given back. The server's
  \<open>SessionManager\<close> has its pools from the start.
\<close>

definition ReleaseClientSession :: "('p, ('p, 'y) PoolNet) Env \<Rightarrow> ('p, 'y) PoolNet \<Rightarrow> ('p, 'y) PoolNet" where
  "ReleaseClientSession env = (\<lambda>(s, w).
     if m_sessionId s \<ge> cp_capacity w then (s, violation w) else ClientSessionPool_Release env (s, w))"

definition OnDisconnectRequest :: "('p, ('p, 'y) PoolNet) Env \<Rightarrow> ('p, 'y) PoolNet \<Rightarrow> ('p, 'y) PoolNet" where
  "OnDisconnectRequest env = ReleaseClientSession env"

text \<open>
  The callbacks of a server session: \<open>ReleaseReadyFunc\<close> is \<open>CompleteRelease\<close>, \<open>ISessionEvent\<close> is the session manager. Completing a release
  calls neither, and giving back only the first, which is why the environments can be built one on the other.
\<close>

definition pool_env ::
  "('p \<Rightarrow> nat \<Rightarrow> addr option \<times> 'p) \<Rightarrow> ('p \<Rightarrow> addr \<Rightarrow> 'p) \<Rightarrow> ('p, ('p, 'y) PoolNet) Env" where
  "pool_env acquire release =
     (let memory = \<lparr>ev_acquire = acquire, ev_release = release, ev_OnDisconnectRequest = id, ev_OnReleaseReady = id\<rparr>;
          releasing = memory\<lparr>ev_OnReleaseReady := CompleteRelease memory\<rparr>
      in releasing\<lparr>ev_OnDisconnectRequest := OnDisconnectRequest releasing\<rparr>)"

section \<open>The whole pool\<close>

definition GetInUseCount :: "('p, 'y) PoolWorld_scheme \<Rightarrow> u32" where
  "GetInUseCount w = of_nat (length (filter (\<lambda>node. poolState node \<noteq> SESSION_POOL_FREE) (cp_nodes w)))"

text \<open>A session keeps at most 21 characters of its address, so \<open>strncmp\<close> over 22 is equality.\<close>

definition CountSessionsFromAddress :: "string option \<Rightarrow> ('p, 'y) PoolWorld_scheme \<Rightarrow> u32" where
  "CountSessionsFromAddress ipAddress w =
     (case ipAddress of
        None \<Rightarrow> 0
      | Some a \<Rightarrow>
          if a = [] then 0
          else of_nat (length (filter (\<lambda>(node, s). poolState node \<noteq> SESSION_POOL_FREE \<and> m_clientIPAddress s = a)
                 (zip (cp_nodes w) (cp_sessions w)))))"

definition GetSession :: "u32 \<Rightarrow> ('p, 'y) PoolWorld_scheme \<Rightarrow> nat option" where
  "GetSession sessionId w =
     (if sessionId \<ge> cp_capacity w then None
      else if nd_session (cp_nodes w ! unat sessionId) then Some (unat sessionId) else None)"

definition RequestAllRecvSendIOCancel :: "('p, ('p, 'y) PoolNet) Env \<Rightarrow> ('p, 'y) PoolWorld_scheme \<Rightarrow> ('p, 'y) PoolWorld_scheme" where
  "RequestAllRecvSendIOCancel env w =
     fold (\<lambda>i. on_session i (\<lambda>(s, w).
         if \<not> IsTransportConnected s then (s, w)
         else (case CancelPendingIO env (s, w) of (True, sw) \<Rightarrow> sw | (False, s', w') \<Rightarrow> (s', violation w'))))
       [0..<length (cp_sessions w)] w"

text \<open>\<open>waits i\<close> is what happens while the pool waits for session \<open>i\<close>; the result is \<open>None\<close> while a wait has not ended.\<close>

primrec wait_all ::
  "nat list \<Rightarrow> ('p, ('p, 'y) PoolNet) Env \<Rightarrow>
     (nat \<Rightarrow> (u32 \<Rightarrow> ('p, 'y) PoolNet \<Rightarrow> wait_result \<times> ('p, 'y) PoolNet) list) \<Rightarrow> u32 \<Rightarrow>
     ('p, 'y) PoolWorld_scheme \<Rightarrow> (bool \<times> ('p, 'y) PoolWorld_scheme) option" where
  "wait_all [] env waits timeout w = Some (True, w)"
| "wait_all (i # is) env waits timeout w =
     (if \<not> IsTransportConnected (cp_sessions w ! i) then wait_all is env waits timeout w
      else
        (case WaitForIOCancelComplete (waits i) (ReleaseUnpostedIO env) timeout (cp_sessions w ! i, w) of
           None \<Rightarrow> None
         | Some (ok, s, w1) \<Rightarrow>
             (let w2 = w1\<lparr>cp_sessions := (cp_sessions w1)[i := s]\<rparr> in
              if ok then wait_all is env waits timeout w2 else Some (False, violation w2))))"

definition WaitForAllRecvSendIOCancelComplete ::
  "('p, ('p, 'y) PoolNet) Env \<Rightarrow> (nat \<Rightarrow> (u32 \<Rightarrow> ('p, 'y) PoolNet \<Rightarrow> wait_result \<times> ('p, 'y) PoolNet) list) \<Rightarrow> u32 \<Rightarrow>
     ('p, 'y) PoolWorld_scheme \<Rightarrow> (bool \<times> ('p, 'y) PoolWorld_scheme) option" where
  "WaitForAllRecvSendIOCancelComplete env waits timeout w = wait_all [0..<length (cp_sessions w)] env waits timeout w"

definition disconnect_one :: "('p, ('p, 'y) PoolNet) Env \<Rightarrow> ('p, 'y) PoolNet \<Rightarrow> ('p, 'y) PoolNet" where
  "disconnect_one env = (\<lambda>(s, w).
     if \<not> IsTransportConnected s then (s, w)
     else
       (let (s1, w1) = (if cp_closeSocketFunc w
                        then (case DetachSocket s of (socket, s') \<Rightarrow> (s', CloseSocketHandle socket w)) else (s, w));
            (s2, w2) = NotifyServiceDisconnect (NoteDisconnectReason LocalShutdown s1, w1);
            (ok, s3) = ClientSession_OnDisconnect s2
        in ClientSession_ResetSession env (s3, if ok then w2 else violation w2)))"

definition DisconnectAllSessions :: "('p, ('p, 'y) PoolNet) Env \<Rightarrow> ('p, 'y) PoolWorld_scheme \<Rightarrow> ('p, 'y) PoolWorld_scheme" where
  "DisconnectAllSessions env w = fold (\<lambda>i. on_session i (disconnect_one env)) [0..<length (cp_sessions w)] w"

definition heartbeat_one :: "('p, ('p, 'y) PoolNet) Env \<Rightarrow> ('p, 'y) PoolNet \<Rightarrow> bool \<times> ('p, 'y) PoolNet" where
  "heartbeat_one env = (\<lambda>(s, w).
     if m_sessionRole s \<noteq> ROLE_SERVER then (False, s, w)
     else if \<not> IsEstablished s \<or> m_clientSocket s = None then (False, s, w)
     else SendSystemHeartbeatRequest env (s, w))"

definition SendHeartbeatRequests :: "('p, ('p, 'y) PoolNet) Env \<Rightarrow> ('p, 'y) PoolWorld_scheme \<Rightarrow> u32 \<times> ('p, 'y) PoolWorld_scheme" where
  "SendHeartbeatRequests env w =
     fold (\<lambda>i (sentCount, w).
         (case heartbeat_one env (cp_sessions w ! i, w) of
            (sent, s, w') \<Rightarrow> (if sent then sentCount + 1 else sentCount, w'\<lparr>cp_sessions := (cp_sessions w')[i := s]\<rparr>)))
       [0..<length (cp_sessions w)] (0, w)"

text \<open>
  Whether a session is a zombie, and with which reason: silent for the timeout with nothing to send, or silent for the longer timeout with
  sends pending.
\<close>

definition zombie_reason :: "u64 \<Rightarrow> u64 \<Rightarrow> u64 \<Rightarrow> ClientSession \<Rightarrow> DisconnectReason option" where
  "zombie_reason nowTick heartbeatTimeout stalledPeerTimeout s =
     (if \<not> IsTransportConnected s then None
      else if m_sessionRole s \<noteq> ROLE_SERVER then None
      else if m_clientSocket s = None then None
      else if \<not> IsHeartbeatTimedOut nowTick heartbeatTimeout s then None
      else if HasPendingSend s
      then (if IsHeartbeatTimedOut nowTick stalledPeerTimeout s then Some StalledPeer else None)
      else Some HeartbeatTimeout)"

text \<open>
  The loop of \<open>DisconnectZombieSessions\<close>; \<open>elapsed i\<close> is the time the pass has taken when it comes to slot \<open>i\<close>.
\<close>

primrec zombie_pass ::
  "nat list \<Rightarrow> ('p, ('p, 'y) PoolNet) Env \<Rightarrow> (nat \<Rightarrow> u64) \<Rightarrow> u64 \<Rightarrow> u64 \<Rightarrow> u64 \<Rightarrow> u64 \<Rightarrow> u32 \<Rightarrow> ('p, 'y) PoolWorld_scheme \<Rightarrow>
     u32 \<times> ('p, 'y) PoolWorld_scheme" where
  "zombie_pass [] env elapsed nowTick heartbeatTimeout stalledPeerTimeout releaseBudget disconnectedCount w = (disconnectedCount, w)"
| "zombie_pass (i # is) env elapsed nowTick heartbeatTimeout stalledPeerTimeout releaseBudget disconnectedCount w =
     (case zombie_reason nowTick heartbeatTimeout stalledPeerTimeout (cp_sessions w ! i) of
        None \<Rightarrow> zombie_pass is env elapsed nowTick heartbeatTimeout stalledPeerTimeout releaseBudget disconnectedCount w
      | Some reason \<Rightarrow>
          if disconnectedCount > 0 \<and> elapsed i \<ge> releaseBudget then (disconnectedCount, w)
          else
            zombie_pass is env elapsed nowTick heartbeatTimeout stalledPeerTimeout releaseBudget (disconnectedCount + 1)
              (on_session i (\<lambda>(s, w). ClientSessionPool_Release env (MarkHeartbeatTimeout (NoteDisconnectReason reason s), w)) w))"

definition DisconnectZombieSessions ::
  "('p, ('p, 'y) PoolNet) Env \<Rightarrow> (nat \<Rightarrow> u64) \<Rightarrow> u64 \<Rightarrow> u64 \<Rightarrow> u64 \<Rightarrow> u64 \<Rightarrow> ('p, 'y) PoolWorld_scheme \<Rightarrow>
     u32 \<times> ('p, 'y) PoolWorld_scheme" where
  "DisconnectZombieSessions env elapsed nowTick heartbeatTimeout stalledPeerTimeout releaseBudget w =
     (if heartbeatTimeout = 0 then (0, w)
      else zombie_pass [0..<length (cp_sessions w)] env elapsed nowTick heartbeatTimeout
             (if stalledPeerTimeout < heartbeatTimeout then heartbeatTimeout else stalledPeerTimeout) releaseBudget 0 w)"

definition GetPeakJobQueueDepth :: "('p, 'y) PoolWorld_scheme \<Rightarrow> u32" where
  "GetPeakJobQueueDepth w = fold (\<lambda>s peak. if GetJobQueuePeakDepth s > peak then GetJobQueuePeakDepth s else peak) (cp_sessions w) 0"

definition GetTotalRecvPauseCount :: "('p, 'y) PoolWorld_scheme \<Rightarrow> u32" where
  "GetTotalRecvPauseCount w = sum_list (map GetRecvPauseCount (cp_sessions w))"

definition GetOutstandingIOCount :: "('p, 'y) PoolWorld_scheme \<Rightarrow> u32" where
  "GetOutstandingIOCount w = sum_list (map (\<lambda>s. if m_ioCount s > 0 then of_int (m_ioCount s) else 0) (cp_sessions w))"

end
