(* ===== verification/Accounting.thy ===== *)
theory Accounting
  imports ClientSessionPool Chains
begin

text \<open>
  The accounts of a session. Every unit of \<open>m_ioCount\<close> belongs to a posted operation that has not completed, to a pause of the receive chain,
  or to code that is running; a session is recycled only when the count is 0. Each lemma follows one operation of \<open>Session\<close> or
  \<open>ClientSessionPool\<close> through these accounts, callbacks included.
\<close>

section \<open>Posted operations and notifications of a session\<close>

fun recv_of :: "u32 \<Rightarrow> posted \<Rightarrow> bool" where
  "recv_of i (RecvPosted j _ _) \<longleftrightarrow> j = i"
| "recv_of i (SendPosted _ _) \<longleftrightarrow> False"

fun send_of :: "u32 \<Rightarrow> posted \<Rightarrow> bool" where
  "send_of i (RecvPosted _ _ _) \<longleftrightarrow> False"
| "send_of i (SendPosted j _) \<longleftrightarrow> j = i"

definition recvs :: "u32 \<Rightarrow> posted list \<Rightarrow> nat" where
  "recvs i ps = length (filter (recv_of i) ps)"

definition sends :: "u32 \<Rightarrow> posted list \<Rightarrow> nat" where
  "sends i ps = length (filter (send_of i) ps)"

fun connect_of :: "u32 \<Rightarrow> service_call \<Rightarrow> bool" where
  "connect_of i (ClientConnect j) \<longleftrightarrow> j = i"
| "connect_of i (ClientDisconnect _ _) \<longleftrightarrow> False"

fun disconnect_of :: "u32 \<Rightarrow> service_call \<Rightarrow> bool" where
  "disconnect_of i (ClientConnect _) \<longleftrightarrow> False"
| "disconnect_of i (ClientDisconnect j _) \<longleftrightarrow> j = i"

definition connects :: "u32 \<Rightarrow> service_call list \<Rightarrow> nat" where
  "connects i cs = length (filter (connect_of i) cs)"

definition disconnects :: "u32 \<Rightarrow> service_call list \<Rightarrow> nat" where
  "disconnects i cs = length (filter (disconnect_of i) cs)"

definition last_recv :: "u32 \<Rightarrow> posted list \<Rightarrow> posted option" where
  "last_recv i ps = (let xs = filter (recv_of i) ps in if xs = [] then None else Some (last xs))"

lemma last_recv_snoc [simp]:
  "last_recv i (ps @ [RecvPosted j a n]) = (if j = i then Some (RecvPosted j a n) else last_recv i ps)"
  "last_recv i (ps @ [SendPosted j d]) = last_recv i ps"
  by (simp_all add: last_recv_def)

lemma counts_snoc [simp]:
  "recvs i (ps @ [RecvPosted j a n]) = recvs i ps + of_bool (j = i)" "recvs i (ps @ [SendPosted j d]) = recvs i ps"
  "sends i (ps @ [RecvPosted j a n]) = sends i ps" "sends i (ps @ [SendPosted j d]) = sends i ps + of_bool (j = i)"
  "connects i (cs @ [ClientConnect j]) = connects i cs + of_bool (j = i)" "connects i (cs @ [ClientDisconnect j r]) = connects i cs"
  "disconnects i (cs @ [ClientConnect j]) = disconnects i cs"
  "disconnects i (cs @ [ClientDisconnect j r]) = disconnects i cs + of_bool (j = i)"
  by (simp_all add: recvs_def sends_def connects_def disconnects_def)

section \<open>A session as it leaves the pool\<close>

text \<open>Only the ticks that limit log lines may differ, since a send to a session that is not connected is logged.\<close>

definition clean :: "ClientSession \<Rightarrow> bool" where
  "clean s \<longleftrightarrow> m_clientSessionState s = Client_NONE \<and> m_serverSessionState s = Server_CONNECT_READY \<and>
     m_acceptSessionState s = Accept_NONE \<and> m_disconnectReason s = Unknown \<and> m_clientSocket s = None \<and> \<not> m_closing s \<and>
     m_ioCount s = 0 \<and> \<not> m_cancelIo s \<and> \<not> m_releasePending s \<and>
     (\<forall>b. m_recvPacketBuffer s = Some b \<longrightarrow> rb_storedSize b = 0 \<and> rb_readPos b = 0 \<and> rb_writePos b = 0) \<and>
     (\<forall>q. m_sendPacketQueue s = Some q \<longrightarrow> sq_head q = None \<and> sq_tail q = None \<and> sq_count q = 0) \<and>
     (\<forall>q. m_jobQueue s = Some q \<longrightarrow> jq_head q = None \<and> jq_tail q = None \<and> jq_count q = 0 \<and> jq_peakCount q = 0) \<and>
     m_currentSendPacket s = None \<and> m_sendOffset s = 0 \<and> \<not> m_sending s \<and> \<not> m_processing s \<and> \<not> m_recvPaused s \<and>
     m_recvPauseCount s = 0 \<and> \<not> m_serviceConnectNotified s \<and> \<not> m_sessionContext s \<and> m_clientIPAddress s = [] \<and>
     m_clientPort s = 0 \<and> m_lastRecvTick s = 0 \<and> m_lastHeartbeatTick s = 0"

section \<open>The accounts\<close>

text \<open>The free list is exactly the free nodes, each once.\<close>

abbreviation node_links :: "('p, 'y) PoolWorld_scheme \<Rightarrow> links" where
  "node_links w \<equiv> \<lambda>i. nextNode (cp_nodes w ! i)"

definition free_list :: "('p, 'y) PoolWorld_scheme \<Rightarrow> nat list \<Rightarrow> bool" where
  "free_list w xs \<longleftrightarrow> chain (node_links w) (cp_freeList w) xs \<and>
     set xs = {i. i < length (cp_nodes w) \<and> poolState (cp_nodes w ! i) = SESSION_POOL_FREE}"

definition pool_ok :: "('p, 'y) PoolWorld_scheme \<Rightarrow> bool" where
  "pool_ok w \<longleftrightarrow> length (cp_nodes w) = unat (cp_capacity w) \<and> length (cp_sessions w) = unat (cp_capacity w) \<and>
     cp_closeSocketFunc w \<and> cp_disconnectNotifyFunc w \<and> (\<forall>node \<in> set (cp_nodes w). nd_session node) \<and>
     (\<exists>xs. free_list w xs) \<and> (\<forall>i r. ClientDisconnect i r \<in> set (sv_calls w) \<longrightarrow> r \<noteq> Unknown)"

text \<open>What an operation on session \<open>i\<close> leaves alone.\<close>

definition others_same :: "u32 \<Rightarrow> ('p, 'y) PoolWorld_scheme \<Rightarrow> ('p, 'y) PoolWorld_scheme \<Rightarrow> bool" where
  "others_same i w w' \<longleftrightarrow> cp_sessions w' = cp_sessions w \<and> cp_capacity w' = cp_capacity w \<and>
     length (cp_nodes w') = length (cp_nodes w) \<and>
     (\<forall>j. j \<noteq> unat i \<longrightarrow> j < length (cp_nodes w) \<longrightarrow> poolState (cp_nodes w' ! j) = poolState (cp_nodes w ! j)) \<and>
     (\<forall>j. j \<noteq> i \<longrightarrow> last_recv j (nw_posted w') = last_recv j (nw_posted w) \<and> recvs j (nw_posted w') = recvs j (nw_posted w) \<and> sends j (nw_posted w') = sends j (nw_posted w) \<and>
        connects j (sv_calls w') = connects j (sv_calls w) \<and> disconnects j (sv_calls w') = disconnects j (sv_calls w))"

text \<open>
  \<open>h\<close> counts are held by running code, which holds the link of the receive chain when \<open>c\<close> is 1 and \<open>m_sending\<close> when \<open>k\<close> is 1;
  \<open>dr\<close> receives and \<open>ds\<close> sends of the session have completed. The reference \<open>r0\<close> is an earlier state: the other sessions are as they were
  there, and when its flag is set, somebody has held a count since, so that the session was not recycled.
\<close>

definition held :: "bool \<times> ('p, 'y) PoolNet \<Rightarrow> nat \<Rightarrow> ClientSession \<Rightarrow> bool" where
  "held r0 h s \<longleftrightarrow> (fst r0 \<longrightarrow> 0 < h \<and>
     (m_disconnectReason (fst (snd r0)) \<noteq> Unknown \<longrightarrow> m_disconnectReason s = m_disconnectReason (fst (snd r0))) \<and>
     m_serviceConnectNotified s = m_serviceConnectNotified (fst (snd r0)))"

text \<open>A receive that is outstanding was posted for the room that the ring has now: nobody else has touched the ring since.\<close>

definition ring_posted :: "u32 \<Rightarrow> nat \<Rightarrow> ClientSession \<Rightarrow> posted list \<Rightarrow> bool" where
  "ring_posted i dr s ps \<longleftrightarrow> (dr < recvs i ps \<longrightarrow> (\<exists>b. m_recvPacketBuffer s = Some b \<and>
     last_recv i ps = Some (RecvPosted i (the (GetWriteablePtr b)) (GetWriteableSize b))))"

definition ring_ok :: "RecvPacketBuffer option \<Rightarrow> bool" where
  "ring_ok r \<longleftrightarrow> (\<exists>b. r = Some b \<and> rb_inv b \<and> rb_buffer b \<noteq> None)"

definition acct_base ::
  "u32 \<Rightarrow> bool \<times> ('p, 'y) PoolNet \<Rightarrow> nat \<Rightarrow> nat \<Rightarrow> nat \<Rightarrow> nat \<Rightarrow> nat \<Rightarrow> ('p, 'y) PoolNet \<Rightarrow> bool" where
  "acct_base i r0 h c k dr ds = (\<lambda>(s, w).
     pool_ok w \<and> others_same i (snd (snd r0)) w \<and> held r0 h s \<and> m_sessionId s = i \<and> i < cp_capacity w \<and>
     dr \<le> recvs i (nw_posted w) \<and> ds \<le> sends i (nw_posted w) \<and> ring_posted i dr s (nw_posted w) \<and> ring_ok (m_recvPacketBuffer s) \<and>
     m_ioCount s + int dr + int ds = int (h + recvs i (nw_posted w) + sends i (nw_posted w) + of_bool (m_recvPaused s)) \<and>
     recvs i (nw_posted w) + of_bool (m_recvPaused s) + c \<le> dr + 1 \<and>
     sends i (nw_posted w) + k \<le> ds + of_bool (m_sending s) \<and>
     m_releaseReadyFunc s \<and> m_eventHandler s \<and> m_sessionRole s = ROLE_SERVER \<and>
     connects i (sv_calls w) = disconnects i (sv_calls w) + of_bool (m_serviceConnectNotified s))"

text \<open>
  A connected session in use has its receive posted, or is paused, or the running code will see to it. A release that was asked for waits for
  a count.
\<close>

definition state_ok :: "nat \<Rightarrow> nat \<Rightarrow> ('p, 'y) PoolNet \<Rightarrow> bool" where
  "state_ok c dr = (\<lambda>(s, w).
     (poolState (node_of w s) = SESSION_POOL_FREE \<longrightarrow> clean s) \<and>
     (poolState (node_of w s) = SESSION_POOL_IN_USE \<longrightarrow> \<not> m_releasePending s \<and>
        (IsTransportConnected s \<and> \<not> m_cancelIo s \<longrightarrow>
           dr + 1 \<le> recvs (m_sessionId s) (nw_posted w) + of_bool (m_recvPaused s) + c)) \<and>
     (poolState (node_of w s) = SESSION_POOL_RELEASING \<longrightarrow>
        m_releasePending s \<and> 0 < m_ioCount s \<and> m_disconnectReason s \<noteq> Unknown))"

definition acct ::
  "u32 \<Rightarrow> bool \<times> ('p, 'y) PoolNet \<Rightarrow> nat \<Rightarrow> nat \<Rightarrow> nat \<Rightarrow> nat \<Rightarrow> nat \<Rightarrow> ('p, 'y) PoolNet \<Rightarrow> bool" where
  "acct i r0 h c k dr ds sw \<longleftrightarrow> acct_base i r0 h c k dr ds sw \<and> state_ok c dr sw"

section \<open>What the accounts depend on\<close>

definition pool_view :: "('p, 'y) PoolWorld_scheme \<Rightarrow> _" where
  "pool_view w = (cp_nodes w, cp_freeList w, cp_capacity w, cp_sessions w, cp_closeSocketFunc w, cp_disconnectNotifyFunc w,
     nw_posted w, sv_calls w)"

lemma pool_view_upd [simp]:
  "pool_view (set_send x w) = pool_view w" "pool_view (violation w) = pool_view w" "pool_view (w\<lparr>nw_jobs := j\<rparr>) = pool_view w"
  "pool_view (w\<lparr>nw_calls := n\<rparr>) = pool_view w" "pool_view (w\<lparr>nw_mem := m\<rparr>) = pool_view w"
  by (simp_all add: pool_view_def set_send_def violation_def)

lemma pool_viewD:
  assumes "pool_view w' = pool_view w"
  shows "cp_nodes w' = cp_nodes w" "cp_freeList w' = cp_freeList w" "cp_capacity w' = cp_capacity w" "cp_sessions w' = cp_sessions w"
    "cp_closeSocketFunc w' = cp_closeSocketFunc w" "cp_disconnectNotifyFunc w' = cp_disconnectNotifyFunc w"
    "nw_posted w' = nw_posted w" "sv_calls w' = sv_calls w"
  using assms by (simp_all add: pool_view_def)

lemma pool_ok_view:
  assumes "pool_view w' = pool_view w"
  shows "pool_ok w' = pool_ok w"
  by (simp add: pool_ok_def free_list_def pool_viewD [OF assms])

lemma acct_base_view:
  assumes "pool_view w' = pool_view w"
  shows "acct_base i r0 h c k dr ds (s, w') = acct_base i r0 h c k dr ds (s, w)"
  by (simp add: acct_base_def others_same_def pool_ok_view [OF assms] pool_viewD [OF assms])

lemma state_ok_view:
  assumes "pool_view w' = pool_view w"
  shows "state_ok c dr (s, w') = state_ok c dr (s, w)"
  unfolding state_ok_def prod.case pool_viewD [OF assms] by (rule refl)

lemma acct_view: "pool_view w' = pool_view w \<Longrightarrow> acct i r0 h c k dr ds (s, w') = acct i r0 h c k dr ds (s, w)"
  unfolding acct_def using acct_base_view state_ok_view by blast

lemma others_same_refl [simp]: "others_same i w w"
  by (simp add: others_same_def)

text \<open>Where callbacks lead: \<open>completes\<close> when a release is finished by the pool, \<open>asks\<close> when also a disconnect request goes to it.\<close>

definition completes :: "('p, ('p, 'y) PoolNet) Env \<Rightarrow> bool" where
  "completes env \<longleftrightarrow> (\<exists>e. ev_OnReleaseReady env = CompleteRelease e)"

definition asks :: "('p, ('p, 'y) PoolNet) Env \<Rightarrow> bool" where
  "asks env \<longleftrightarrow> completes env \<and> (\<exists>e. completes e \<and> ev_OnDisconnectRequest env = OnDisconnectRequest e)"

lemma asks_completes: "asks env \<Longrightarrow> completes env"
  by (simp add: asks_def)

lemma pool_env_asks: "asks (pool_env acquire release)"
proof -
  let ?m = "\<lparr>ev_acquire = acquire, ev_release = release, ev_OnDisconnectRequest = id, ev_OnReleaseReady = id\<rparr>"
  let ?r = "?m\<lparr>ev_OnReleaseReady := CompleteRelease ?m\<rparr>"
  have r: "completes ?r" unfolding completes_def by (rule exI [of _ ?m]) simp
  have p: "ev_OnReleaseReady (pool_env acquire release) = CompleteRelease ?m"
    "ev_OnDisconnectRequest (pool_env acquire release) = OnDisconnectRequest ?r" by (simp_all add: pool_env_def Let_def)
  show ?thesis unfolding asks_def completes_def p using r [unfolded completes_def] by blast
qed

section \<open>Recycling\<close>

lemma drop_current_sels:
  assumes "drop_current env (s, w) = (s', w')"
  shows "s' = s\<lparr>m_currentSendPacket := None\<rparr>" and "pool_view w' = pool_view w"
  using assms by (auto simp: drop_current_def split: option.splits)

lemma reset_sendQueue_sels:
  assumes "reset_sendQueue env (s, w) = (s', w')"
  obtains q where "s' = s\<lparr>m_sendPacketQueue := q\<rparr>" "\<forall>x. q = Some x \<longrightarrow> sq_head x = None \<and> sq_tail x = None \<and> sq_count x = 0"
    "pool_view w' = pool_view w"
  using assms that [of "m_sendPacketQueue s'"] by (auto simp: reset_sendQueue_def sq_Reset_def Let_def split: option.splits)

lemma reset_jobQueue_sels:
  assumes "reset_jobQueue env (s, w) = (s', w')"
  obtains q where "s' = s\<lparr>m_jobQueue := q\<rparr>"
    "\<forall>x. q = Some x \<longrightarrow> jq_head x = None \<and> jq_tail x = None \<and> jq_count x = 0 \<and> jq_peakCount x = 0"
    "pool_view w' = pool_view w"
  using assms that [of "m_jobQueue s'"] by (auto simp: reset_jobQueue_def jq_Reset_def split: option.splits)

lemma ResetSession_clean:
  assumes R: "ClientSession_ResetSession env (s, w) = (s', w')" and "m_clientSocket s = None" and "m_ioCount s = 0"
    and "m_sessionRole s = ROLE_SERVER" and "m_clientIPAddress s = []" and "m_clientPort s = 0"
  shows "clean s'" and "m_sessionId s' = m_sessionId s" and "m_releaseReadyFunc s' = m_releaseReadyFunc s"
    and "m_eventHandler s' = m_eventHandler s" and "m_sessionRole s' = m_sessionRole s" and "pool_view w' = pool_view w"
    and "m_recvPacketBuffer s' = map_option rb_Reset (m_recvPacketBuffer s)"
proof -
  obtain s1 w1 where B: "BaseSession_ResetSession (s, w) = (s1, w1)" by fastforce
  moreover from this have r: "set_CONNECT_READY s1 = s1\<lparr>m_serverSessionState := Server_CONNECT_READY\<rparr>"
    using assms by (auto simp: BaseSession_ResetSession_def set_CONNECT_READY_def Let_def)
  ultimately have b: "w1 = w" "s1 = s\<lparr>m_clientSessionState := Client_NONE, m_serverSessionState := Server_NONE,
      m_acceptSessionState := Accept_NONE, m_disconnectReason := Unknown, m_closing := False, m_cancelIo := False,
      m_releasePending := False\<rparr>"
    using assms by (simp_all add: BaseSession_ResetSession_def Let_def)
  let ?s1 = "s1\<lparr>m_serverSessionState := Server_CONNECT_READY, m_sending := False, m_processing := False, m_recvPaused := False, m_recvPauseCount := 0,
     m_sendRejectLogTick := (\<lambda>_. 0), m_sendRejectSuppressed := (\<lambda>_. 0), m_serviceConnectNotified := False, m_sessionContext := False\<rparr>"
  obtain s2 w2 where S: "reset_sendQueue env (?s1, w1) = (s2, w2)" by fastforce
  then obtain q where q: "s2 = ?s1\<lparr>m_sendPacketQueue := q\<rparr>"
    "\<forall>x. q = Some x \<longrightarrow> sq_head x = None \<and> sq_tail x = None \<and> sq_count x = 0" "pool_view w2 = pool_view w1"
    by (rule reset_sendQueue_sels)
  let ?s3 = "s2\<lparr>m_recvPacketBuffer := map_option rb_Reset (m_recvPacketBuffer s2)\<rparr>"
  obtain s4 w4 where D: "drop_current env (?s3, w2) = (s4, w4)" by fastforce
  note d = drop_current_sels [OF D]
  obtain s5 w5 where J: "reset_jobQueue env (s4\<lparr>m_sendOffset := 0\<rparr>, w4) = (s5, w5)" by fastforce
  then obtain j where j: "s5 = s4\<lparr>m_sendOffset := 0\<rparr>\<lparr>m_jobQueue := j\<rparr>"
    "\<forall>x. j = Some x \<longrightarrow> jq_head x = None \<and> jq_tail x = None \<and> jq_count x = 0 \<and> jq_peakCount x = 0" "pool_view w5 = pool_view w4"
    by (rule reset_jobQueue_sels)
  have e: "s' = s5\<lparr>m_lastRecvTick := 0, m_lastHeartbeatTick := 0\<rparr>" "w' = w5"
    using R B S D J r by (simp_all add: ClientSession_ResetSession_def)
  show "pool_view w' = pool_view w" using e(2) j(3) d(2) q(3) b(1) by simp
  show "m_sessionId s' = m_sessionId s" "m_releaseReadyFunc s' = m_releaseReadyFunc s" "m_eventHandler s' = m_eventHandler s"
    "m_sessionRole s' = m_sessionRole s" by (simp_all add: e(1) j(1) d(1) q(1) b(2))
  show "m_recvPacketBuffer s' = map_option rb_Reset (m_recvPacketBuffer s)" by (simp add: e(1) j(1) d(1) q(1) b(2))
  have "\<exists>x. m_recvPacketBuffer s' = map_option rb_Reset x" "m_sendPacketQueue s' = q" "m_jobQueue s' = j"
    by (auto simp: e(1) j(1) d(1) q(1))
  with q(2) j(2) show "clean s'"
    unfolding clean_def by (intro conjI; (simp only: e(1) j(1) d(1) q(1) b(2))?; (simp add: assms)?; (auto simp: rb_Reset_def)?)
qed

lemma OnDisconnect_sels:
  assumes "ClientSession_OnDisconnect s = (ok, s')"
  shows "ok" and "m_clientSocket s' = m_clientSocket s" and "m_ioCount s' = m_ioCount s" and "m_sessionRole s' = m_sessionRole s"
    and "m_sessionId s' = m_sessionId s" and "m_releaseReadyFunc s' = m_releaseReadyFunc s" and "m_eventHandler s' = m_eventHandler s"
    and "m_clientIPAddress s' = []" and "m_clientPort s' = 0" and "m_recvPacketBuffer s' = m_recvPacketBuffer s"
  using assms by (auto simp: ClientSession_OnDisconnect_def BaseSession_OnDisconnect_def ClearRemoteAddress_def Let_def
      split: if_splits SESSION_ROLE.splits)

lemma cp_nodes_set_node [simp]: "cp_nodes (set_node n f w) = (cp_nodes w)[n := f (cp_nodes w ! n)]"
  by (simp add: set_node_def)

lemma nth_update_if: "xs[n := y] ! i = (if i = n \<and> n < length xs then y else xs ! i)"
  by (cases "n < length xs") (simp_all add: nth_list_update list_update_beyond)

lemma nd_session_update:
  assumes "pool_ok w" and "n < length (cp_nodes w) \<longrightarrow> nd_session (f (cp_nodes w ! n)) = nd_session (cp_nodes w ! n)"
  shows "\<forall>node \<in> set ((cp_nodes w)[n := f (cp_nodes w ! n)]). nd_session node"
proof -
  have "\<forall>j < length (cp_nodes w). nd_session (cp_nodes w ! j)" using assms(1) by (simp add: pool_ok_def)
  then show ?thesis using assms(2) by (auto simp: all_set_conv_all_nth nth_update_if)
qed

text \<open>Pushing a node on the free list.\<close>

lemma free_list_push:
  assumes "free_list w xs" and "n < length (cp_nodes w)" and "poolState (cp_nodes w ! n) \<noteq> SESSION_POOL_FREE"
    and "w' = (set_node n (\<lambda>node. node\<lparr>nextNode := cp_freeList w, poolState := SESSION_POOL_FREE\<rparr>) w)\<lparr>cp_freeList := Some n\<rparr>"
  shows "free_list w' (n # xs)"
proof -
  have n: "n \<notin> set xs" using assms(1,3) by (auto simp: free_list_def)
  have "chain (node_links w') (cp_freeList w) xs"
    by (rule lseg_frame [OF conjunct1 [OF assms(1) [unfolded free_list_def]]]) (use n in \<open>auto simp: assms(4) nth_update_if\<close>)
  moreover have "set (n # xs) = {i. i < length (cp_nodes w') \<and> poolState (cp_nodes w' ! i) = SESSION_POOL_FREE}"
    using assms(1,2) by (auto simp: free_list_def assms(4) set_node_def nth_list_update)
  ultimately show ?thesis using assms(2) by (simp add: free_list_def assms(4) set_node_def)
qed

lemma pool_ok_push:
  assumes "pool_ok w" and "n < length (cp_nodes w)" and "poolState (cp_nodes w ! n) \<noteq> SESSION_POOL_FREE"
    and "w' = (set_node n (\<lambda>node. node\<lparr>nextNode := cp_freeList w, poolState := SESSION_POOL_FREE\<rparr>) w)\<lparr>cp_freeList := Some n\<rparr>"
  shows "pool_ok w'"
proof -
  obtain xs where "free_list w xs" using assms(1) by (auto simp: pool_ok_def)
  note fl = free_list_push [OF this assms(2-4)]
  have nd: "\<forall>node \<in> set (cp_nodes w'). nd_session node"
    unfolding assms(4) using nd_session_update [OF assms(1), of n "\<lambda>node. node\<lparr>nextNode := cp_freeList w, poolState := SESSION_POOL_FREE\<rparr>"]
    by simp
  from assms(1) have "length (cp_nodes w') = unat (cp_capacity w') \<and> length (cp_sessions w') = unat (cp_capacity w') \<and>
      cp_closeSocketFunc w' \<and> cp_disconnectNotifyFunc w' \<and> sv_calls w' = sv_calls w"
    by (simp add: pool_ok_def assms(4) set_node_def)
  with assms(1) fl nd show ?thesis unfolding pool_ok_def by metis
qed

text \<open>Taking a node from in use to releasing leaves the free list alone.\<close>

lemma pool_ok_claim:
  assumes "pool_ok w" and "poolState (cp_nodes w ! n) \<noteq> SESSION_POOL_FREE"
  shows "pool_ok (set_node n (\<lambda>node. node\<lparr>poolState := SESSION_POOL_RELEASING\<rparr>) w)"
proof -
  let ?w = "set_node n (\<lambda>node. node\<lparr>poolState := SESSION_POOL_RELEASING\<rparr>) w"
  obtain xs where xs: "free_list w xs" using assms(1) by (auto simp: pool_ok_def)
  have l: "node_links ?w = node_links w" by (simp add: fun_eq_iff nth_update_if)
  have "{i. i < length (cp_nodes ?w) \<and> poolState (cp_nodes ?w ! i) = SESSION_POOL_FREE} =
      {i. i < length (cp_nodes w) \<and> poolState (cp_nodes w ! i) = SESSION_POOL_FREE}"
    using assms(2) by (auto simp: nth_update_if)
  then have "free_list ?w xs" using xs unfolding free_list_def l by (simp add: set_node_def)
  moreover have "\<forall>node \<in> set (cp_nodes ?w). nd_session node"
    using nd_session_update [OF assms(1), of n "\<lambda>node. node\<lparr>poolState := SESSION_POOL_RELEASING\<rparr>"] by simp
  moreover from assms(1) have "length (cp_nodes ?w) = unat (cp_capacity ?w) \<and> length (cp_sessions ?w) = unat (cp_capacity ?w) \<and>
      cp_closeSocketFunc ?w \<and> cp_disconnectNotifyFunc ?w \<and> sv_calls ?w = sv_calls w"
    by (simp add: pool_ok_def set_node_def)
  ultimately show ?thesis using assms(1) unfolding pool_ok_def by metis
qed

text \<open>The end of a release: with the count at 0 the session goes back to the free list, clean, and everything is accounted for.\<close>

lemma CompleteRelease_acct:
  assumes A: "acct_base i r0 0 0 0 dr ds (s, w)" and z: "m_ioCount s = 0" and r: "poolState (node_of w s) = SESSION_POOL_RELEASING"
    and reason: "m_disconnectReason s \<noteq> Unknown" and C: "CompleteRelease env (s, w) = (s', w')"
  shows "acct i r0 0 0 0 dr ds (s', w')" and "poolState (node_of w' s') = SESSION_POOL_FREE"
proof -
  have a: "pool_ok w" "others_same i (snd (snd r0)) w" "m_sessionId s = i" "i < cp_capacity w" "m_releaseReadyFunc s" "m_eventHandler s"
    "m_sessionRole s = ROLE_SERVER" "connects i (sv_calls w) = disconnects i (sv_calls w) + of_bool (m_serviceConnectNotified s)"
    "recvs i (nw_posted w) = dr" "sends i (nw_posted w) = ds"
    using A z by (auto simp: acct_base_def held_def ring_posted_def of_bool_def split: if_splits)
  have len: "length (cp_nodes w) = unat (cp_capacity w)" and cl: "cp_closeSocketFunc w" "cp_disconnectNotifyFunc w"
    using a(1) by (simp_all add: pool_ok_def)
  let ?w1 = "CloseSocketHandle (m_clientSocket s) w" and ?s1 = "s\<lparr>m_clientSocket := None\<rparr>"
  obtain s2 w2 where N: "NotifyServiceDisconnect (?s1, ?w1) = (s2, w2)" by fastforce
  have n: "s2 = ?s1\<lparr>m_serviceConnectNotified := False\<rparr>"
    "w2 = ?w1\<lparr>sv_calls := sv_calls w @ (if m_serviceConnectNotified s then [ClientDisconnect i (m_disconnectReason s)] else [])\<rparr>"
    using N cl a(3) by (auto simp: NotifyServiceDisconnect_def ConsumeServiceConnectNotified_def OnSessionDisconnectNotify_def
        CloseSocketHandle_def split: if_splits bool.splits)
  obtain ok s3 where D: "ClientSession_OnDisconnect s2 = (ok, s3)" by fastforce
  note d = OnDisconnect_sels [OF D]
  obtain s4 w4 where R: "ClientSession_ResetSession env (s3, w2) = (s4, w4)" by fastforce
  have pre: "m_clientSocket s3 = None" "m_ioCount s3 = 0" "m_sessionRole s3 = ROLE_SERVER" using d n z a(7) by simp_all
  note rs = ResetSession_clean [OF R pre d(8,9)]
  note v = pool_viewD [OF rs(6)]
  let ?node = "\<lambda>node. node\<lparr>nextNode := cp_freeList w4, poolState := SESSION_POOL_FREE\<rparr>"
  have e: "s' = s4" "w' = (set_node (unat i) ?node w4)\<lparr>cp_freeList := Some (unat i)\<rparr>"
    using C a(4) N D R d(1) by (simp_all add: CompleteRelease_def DetachSocket_def Let_def cl a(3) linorder_not_le [THEN iffD2])
  have w4: "cp_nodes w4 = cp_nodes w" "cp_capacity w4 = cp_capacity w" "cp_sessions w4 = cp_sessions w" "nw_posted w4 = nw_posted w"
    "sv_calls w4 = sv_calls w2" "cp_freeList w4 = cp_freeList w" "cp_closeSocketFunc w4" "cp_disconnectNotifyFunc w4"
    using v n cl by (simp_all add: CloseSocketHandle_def)
  have lt: "unat i < length (cp_nodes w4)" using a(4) len w4(1) by (simp add: word_less_nat_alt)
  have "pool_ok w4" using a(1) reason n w4 by (auto simp: pool_ok_def free_list_def split: if_splits)
  then have ok: "pool_ok w'" by (rule pool_ok_push [OF _ lt _ e(2)]) (use r a(3) w4(1) in simp)
  have s': "m_sessionId s' = i" "clean s'" "m_releaseReadyFunc s'" "m_eventHandler s'" "m_sessionRole s' = ROLE_SERVER"
    using rs d n a e(1) by simp_all
  have "ring_ok (m_recvPacketBuffer s)" using A by (simp add: acct_base_def)
  moreover have "m_recvPacketBuffer s' = map_option rb_Reset (m_recvPacketBuffer s)" using rs(7) d(10) n(1) e(1) by simp
  ultimately have ring: "ring_ok (m_recvPacketBuffer s')" by (auto simp: ring_ok_def) (simp_all add: rb_Reset_def)
  show fr: "poolState (node_of w' s') = SESSION_POOL_FREE" using lt by (simp add: s' e(2) set_node_def)
  have ot: "others_same i (snd (snd r0)) w'"
    using a(2) by (auto simp: others_same_def e(2) set_node_def w4 n split: if_splits)
  have "\<not> fst r0" using A by (simp add: acct_base_def held_def ring_posted_def)
  then have "acct_base i r0 0 0 0 dr ds (s', w')"
    using ok ot s' ring a(4,8-10) by (auto simp: acct_base_def held_def ring_posted_def clean_def e(2) set_node_def w4 n)
  then show "acct i r0 0 0 0 dr ds (s', w')" using fr s'(2) by (simp add: acct_def state_ok_def)
qed

section \<open>Counting down\<close>

text \<open>What the accounts read of a session.\<close>

definition sess_view :: "ClientSession \<Rightarrow> _" where
  "sess_view s = (m_sessionId s, m_ioCount s, m_recvPaused s, m_sending s, m_releaseReadyFunc s, m_eventHandler s, m_sessionRole s,
     m_serviceConnectNotified s, m_releasePending s, m_cancelIo s, m_disconnectReason s, m_serverSessionState s, m_clientSessionState s,
     m_recvPacketBuffer s)"

lemma sess_viewD:
  assumes "sess_view s' = sess_view s"
  shows "m_sessionId s' = m_sessionId s" "m_ioCount s' = m_ioCount s" "m_recvPaused s' = m_recvPaused s" "m_sending s' = m_sending s"
    "m_releaseReadyFunc s' = m_releaseReadyFunc s" "m_eventHandler s' = m_eventHandler s" "m_sessionRole s' = m_sessionRole s"
    "m_serviceConnectNotified s' = m_serviceConnectNotified s" "m_releasePending s' = m_releasePending s" "m_cancelIo s' = m_cancelIo s"
    "m_disconnectReason s' = m_disconnectReason s" "IsTransportConnected s' = IsTransportConnected s"
    "m_recvPacketBuffer s' = m_recvPacketBuffer s"
  using assms by (simp_all add: sess_view_def IsTransportConnected_def)

abbreviation pool_state :: "('p, 'y) PoolNet \<Rightarrow> SESSION_POOL_STATE" where
  "pool_state sw \<equiv> poolState (node_of (snd sw) (fst sw))"

lemma acct_iff:
  "acct i r0 h c k dr ds (s, w) \<longleftrightarrow> acct_base i r0 h c k dr ds (s, w) \<and>
     (poolState (cp_nodes w ! unat i) = SESSION_POOL_FREE \<longrightarrow> clean s) \<and>
     (poolState (cp_nodes w ! unat i) = SESSION_POOL_IN_USE \<longrightarrow> \<not> m_releasePending s) \<and>
     (poolState (cp_nodes w ! unat i) = SESSION_POOL_IN_USE \<longrightarrow> IsTransportConnected s \<longrightarrow> \<not> m_cancelIo s \<longrightarrow>
        dr + 1 \<le> recvs i (nw_posted w) + of_bool (m_recvPaused s) + c) \<and>
     (poolState (cp_nodes w ! unat i) = SESSION_POOL_RELEASING \<longrightarrow>
        m_releasePending s \<and> 0 < m_ioCount s \<and> m_disconnectReason s \<noteq> Unknown)"
proof -
  have "acct_base i r0 h c k dr ds (s, w) \<Longrightarrow> m_sessionId s = i" by (simp add: acct_base_def)
  then show ?thesis unfolding acct_def state_ok_def prod.case by metis
qed

lemma acct_same:
  assumes "acct i r0 h c k dr ds (s, w)" and "sess_view s' = sess_view s" and "pool_view w' = pool_view w"
    and "pool_state (s, w) \<noteq> SESSION_POOL_FREE"
  shows "acct i r0 h c k dr ds (s', w')" and "pool_state (s', w') = pool_state (s, w)"
proof -
  note v = sess_viewD [OF assms(2)] and p = pool_viewD [OF assms(3)]
  have "acct i r0 h c k dr ds (s', w)" using assms(1,4) unfolding acct_def acct_base_def held_def ring_posted_def state_ok_def prod.case v fst_conv snd_conv by blast
  then show "acct i r0 h c k dr ds (s', w')" using acct_view [OF assms(3)] by blast
  show "pool_state (s', w') = pool_state (s, w)" by (simp add: v p)
qed

lemma acct_held: "acct i r0 h c k dr ds sw \<Longrightarrow> fst r0 \<longrightarrow> 0 < h"
  by (cases sw) (simp add: acct_def acct_base_def held_def ring_posted_def)

text \<open>A count that is held keeps the session out of the free list.\<close>

lemma acct_not_free:
  assumes "acct i r0 h c k dr ds sw" and "0 < h \<or> m_sending (fst sw) \<or> m_recvPaused (fst sw) \<or> IsTransportConnected (fst sw)"
  shows "pool_state sw \<noteq> SESSION_POOL_FREE"
  using assms by (auto simp: acct_def acct_base_def held_def ring_posted_def state_ok_def clean_def IsTransportConnected_def)

lemma acct_not_free0: "acct i r0 (Suc h) c k dr ds sw \<Longrightarrow> pool_state sw \<noteq> SESSION_POOL_FREE"
  using acct_not_free by blast

lemma acct_drop_token: "acct i r0 h c k dr ds sw \<Longrightarrow> acct i r0 h c 0 dr ds sw"
  by (cases sw) (auto simp: acct_def acct_base_def held_def ring_posted_def)

lemma acct_drop_link:
  assumes "acct i r0 h c k dr ds sw" and "pool_state sw \<noteq> SESSION_POOL_IN_USE \<or> m_cancelIo (fst sw)"
  shows "acct i r0 h 0 k dr ds sw"
  using assms by (cases sw) (auto simp: acct_def acct_base_def held_def ring_posted_def state_ok_def)

lemma acct_ring: "acct i r0 h c k dr ds sw \<Longrightarrow> ring_ok (m_recvPacketBuffer (fst sw))"
  by (cases sw) (simp add: acct_def acct_base_def)

lemma DecrementIO_acct:
  assumes A: "acct i r0 (Suc h) c k dr ds (s, w)" and h: "c + k \<le> h" and hb: "fst r0 \<longrightarrow> 0 < h" and env: "completes env"
    and D: "DecrementIO env (s, w) = (s', w')"
  shows "acct i r0 h c k dr ds (s', w')" and "pool_state (s, w) \<noteq> SESSION_POOL_IN_USE \<Longrightarrow> pool_state (s', w') \<noteq> SESSION_POOL_IN_USE"
    and "0 < h \<Longrightarrow> m_cancelIo s' = m_cancelIo s"
proof -
  note nf = acct_not_free0 [OF A]
  have b: "acct_base i r0 (Suc h) c k dr ds (s, w)" and so: "state_ok c dr (s, w)" using A by (simp_all add: acct_def)
  have n: "m_ioCount s - 1 = int h + (int (recvs i (nw_posted w)) - int dr) + (int (sends i (nw_posted w)) - int ds) + of_bool (m_recvPaused s)"
    "dr \<le> recvs i (nw_posted w)" "ds \<le> sends i (nw_posted w)" using b by (auto simp: acct_base_def held_def ring_posted_def)
  have *: "acct i r0 h c k dr ds (s', w') \<and> (pool_state (s, w) \<noteq> SESSION_POOL_IN_USE \<longrightarrow> pool_state (s', w') \<noteq> SESSION_POOL_IN_USE) \<and>
      (0 < h \<longrightarrow> m_cancelIo s' = m_cancelIo s)"
  proof (cases "m_ioCount s - 1 = 0")
    case False
    then have "0 < m_ioCount s - 1" using n by auto
    then have e: "s' = s\<lparr>m_ioCount := m_ioCount s - 1\<rparr>" "w' = w" using D by (auto simp: DecrementIO_def Let_def)
    show ?thesis using b so nf hb \<open>0 < m_ioCount s - 1\<close>
      by (simp add: e acct_def acct_base_def held_def ring_posted_def state_ok_def IsTransportConnected_def)
  next
    case True
    then have z: "h = 0" "recvs i (nw_posted w) = dr" "sends i (nw_posted w) = ds" "\<not> m_recvPaused s" "c = 0" "k = 0"
      using n h by (auto simp: of_bool_def split: if_splits)
    define t where "t = (if m_cancelIo s then SetEvent (s\<lparr>m_ioCount := 0\<rparr>) else s\<lparr>m_ioCount := 0\<rparr>)\<lparr>m_releasePending := False\<rparr>"
    have t: "m_sessionId t = m_sessionId s" "m_ioCount t = 0" "m_recvPaused t = m_recvPaused s" "m_sending t = m_sending s"
      "m_releaseReadyFunc t = m_releaseReadyFunc s" "m_eventHandler t = m_eventHandler s" "m_sessionRole t = m_sessionRole s"
      "m_serviceConnectNotified t = m_serviceConnectNotified s" "\<not> m_releasePending t" "m_cancelIo t = m_cancelIo s"
      "m_disconnectReason t = m_disconnectReason s" "IsTransportConnected t = IsTransportConnected s"
      "m_recvPacketBuffer t = m_recvPacketBuffer s"
      by (simp_all add: t_def SetEvent_def IsTransportConnected_def)
    have io: "m_ioCount s = 1" using True by simp
    have rr: "m_releaseReadyFunc s" using b by (simp add: acct_base_def held_def ring_posted_def)
    have e: "(s', w') = (if m_releasePending s then ev_OnReleaseReady env (t, w) else (t, w))"
      using D rr by (cases "m_releasePending s"; cases "m_cancelIo s") (simp_all add: DecrementIO_def io t_def Let_def SetEvent_def)
    have bt: "acct_base i r0 0 0 0 dr ds (t, w)" using b z io hb by (simp add: acct_base_def held_def ring_posted_def t)
    show ?thesis
    proof (cases "m_releasePending s")
      case False
      then have "s' = t" "w' = w" using e by simp_all
      moreover have "pool_state (s, w) = SESSION_POOL_IN_USE" using so nf False by (cases "pool_state (s, w)") (auto simp: state_ok_def)
      ultimately show ?thesis using bt so z by (simp add: acct_def state_ok_def t)
    next
      case True
      then have r: "pool_state (s, w) = SESSION_POOL_RELEASING"
        using so nf by (cases "pool_state (s, w)") (auto simp: state_ok_def)
      obtain f where "ev_OnReleaseReady env = CompleteRelease f" using env by (auto simp: completes_def)
      with e True have "CompleteRelease f (t, w) = (s', w')" by simp
      note c = CompleteRelease_acct [OF bt t(2) _ _ this]
      show ?thesis using c z so r by (simp add: t state_ok_def)
    qed
  qed
  then show "acct i r0 h c k dr ds (s', w')" "pool_state (s, w) \<noteq> SESSION_POOL_IN_USE \<Longrightarrow> pool_state (s', w') \<noteq> SESSION_POOL_IN_USE"
    "0 < h \<Longrightarrow> m_cancelIo s' = m_cancelIo s" by blast+
qed

section \<open>Giving a session back\<close>

text \<open>Cancelling in the middle of a release: no callback can come, since nothing is pending yet.\<close>

lemma DecrementIO_quiet:
  assumes "DecrementIO env (s, w) = (s', w')" and "\<not> m_releasePending s" and "0 < m_ioCount s"
  shows "m_ioCount s' = m_ioCount s - 1" and "w' = w" and "\<not> m_releasePending s'" and "m_sessionId s' = m_sessionId s"
    and "m_recvPaused s' = m_recvPaused s" and "m_sending s' = m_sending s" and "m_releaseReadyFunc s' = m_releaseReadyFunc s"
    and "m_eventHandler s' = m_eventHandler s" and "m_sessionRole s' = m_sessionRole s"
    and "m_serviceConnectNotified s' = m_serviceConnectNotified s" and "m_disconnectReason s' = m_disconnectReason s"
    and "m_cancelIo s' = m_cancelIo s" and "m_clientSocket s' = m_clientSocket s" and "m_recvPacketBuffer s' = m_recvPacketBuffer s"
  using assms by (auto simp: DecrementIO_def SetEvent_def Let_def split: if_splits)

lemma ReleaseUnpostedIO_quiet:
  assumes b: "acct_base i r0 h c k dr ds (s, w)" and np: "\<not> m_releasePending s"
    and R: "ReleaseUnpostedIO env (s, w) = (s', w')"
  shows "acct_base i r0 h c k dr ds (s', w')" and "\<not> m_releasePending s'" and "w' = w" and "m_sessionId s' = m_sessionId s"
    and "m_disconnectReason s' = m_disconnectReason s"
proof -
  have *: "acct_base i r0 h c k dr ds (s', w') \<and> \<not> m_releasePending s' \<and> w' = w \<and> m_sessionId s' = m_sessionId s \<and>
      m_disconnectReason s' = m_disconnectReason s"
  proof (cases "m_recvPaused s")
    case False then show ?thesis using R b np by (simp add: ReleaseUnpostedIO_def)
  next
    case True
    let ?s = "s\<lparr>m_recvPaused := False\<rparr>"
    have n: "0 < m_ioCount ?s" using b True by (auto simp: acct_base_def held_def ring_posted_def)
    have "DecrementIO env (?s, w) = (s', w')" using R True by (simp add: ReleaseUnpostedIO_def)
    note d = DecrementIO_quiet [OF this _ n]
    show ?thesis using b np True by (auto simp: acct_base_def held_def ring_posted_def d)
  qed
  then show "acct_base i r0 h c k dr ds (s', w')" "\<not> m_releasePending s'" "w' = w" "m_sessionId s' = m_sessionId s"
    "m_disconnectReason s' = m_disconnectReason s" by blast+
qed

lemma ask_os_view [simp]: "ask_os w = (a, w') \<Longrightarrow> pool_view w' = pool_view w"
  by (auto simp: ask_os_def)

lemma pool_view_ask [simp]: "pool_view (snd (ask_os w)) = pool_view w"
  by (simp add: ask_os_def)

text \<open>How a cancel ends: through \<open>ReleaseUnpostedIO\<close>, or with the event perhaps set.\<close>

lemma CancelPendingIO_cases:
  assumes "CancelPendingIO env (s, w) = (r, s', w')"
  obtains
    (unposted) c e w1 where "ReleaseUnpostedIO env (s\<lparr>m_cancelIo := c, m_ioCancelCompleteEvent := e\<rparr>, w1) = (s', w')"
      "pool_view w1 = pool_view w" "m_cancelIo s \<longrightarrow> c"
  | (direct) e where "s' = s\<lparr>m_cancelIo := True, m_ioCancelCompleteEvent := e\<rparr>" "pool_view w' = pool_view w"
proof -
  consider "m_clientSocket s \<noteq> None \<and> \<not> m_cancelIo s \<and> fst (ask_os w) = None"
    | "m_clientSocket s \<noteq> None \<and> \<not> m_cancelIo s \<and> fst (ask_os w) \<noteq> None" | "\<not> (m_clientSocket s \<noteq> None \<and> \<not> m_cancelIo s)" by blast
  then show thesis
  proof cases
    case 1
    then have "ReleaseUnpostedIO env (s\<lparr>m_cancelIo := True, m_ioCancelCompleteEvent := map_option (\<lambda>_. False) (m_ioCancelCompleteEvent s)\<rparr>,
        snd (ask_os w)) = (s', w')"
      using assms by (auto simp: BaseSession_CancelPendingIO_def Let_def split: prod.splits)
    then show thesis by (rule unposted) simp_all
  next
    case 2
    then show thesis
      using assms direct [of "m_ioCancelCompleteEvent s'"]
      by (auto simp: BaseSession_CancelPendingIO_def Let_def SetEvent_def split: prod.splits if_splits)
  next
    case 3
    then have "ReleaseUnpostedIO env (s\<lparr>m_cancelIo := m_cancelIo s, m_ioCancelCompleteEvent := m_ioCancelCompleteEvent s\<rparr>, w) = (s', w')"
      using assms by (auto simp: BaseSession_CancelPendingIO_def)
    then show thesis by (rule unposted) simp_all
  qed
qed

lemma CancelPendingIO_quiet:
  assumes b: "acct_base i r0 h c k dr ds (s, w)" and np: "\<not> m_releasePending s"
    and C: "CancelPendingIO env (s, w) = (r, s', w')"
  shows "acct_base i r0 h c k dr ds (s', w')" and "\<not> m_releasePending s'" and "pool_view w' = pool_view w"
    and "m_sessionId s' = m_sessionId s" and "m_disconnectReason s' = m_disconnectReason s"
proof -
  from C have *: "acct_base i r0 h c k dr ds (s', w') \<and> \<not> m_releasePending s' \<and> pool_view w' = pool_view w \<and>
      m_sessionId s' = m_sessionId s \<and> m_disconnectReason s' = m_disconnectReason s"
  proof (cases rule: CancelPendingIO_cases)
    case (unposted cf e w1)
    have "acct_base i r0 h c k dr ds (s\<lparr>m_cancelIo := cf, m_ioCancelCompleteEvent := e\<rparr>, w1)"
      unfolding acct_base_view [OF unposted(2)] using b by (simp add: acct_base_def held_def ring_posted_def)
    from ReleaseUnpostedIO_quiet [OF this _ unposted(1)] np unposted(2) show ?thesis by simp
  next
    case (direct e)
    have "acct_base i r0 h c k dr ds (s', w')" unfolding acct_base_view [OF direct(2)] using b by (simp add: acct_base_def held_def ring_posted_def direct(1))
    then show ?thesis using np direct by simp
  qed
  then show "acct_base i r0 h c k dr ds (s', w')" "\<not> m_releasePending s'" "pool_view w' = pool_view w" "m_sessionId s' = m_sessionId s"
    "m_disconnectReason s' = m_disconnectReason s" by blast+
qed

lemma Release_acct:
  assumes A: "acct i r0 h c k dr ds (s, w)" and h: "c + k \<le> h" and reason: "m_disconnectReason s \<noteq> Unknown"
    and R: "ClientSessionPool_Release env (s, w) = (s', w')"
  shows "acct i r0 h c k dr ds (s', w')" and "pool_state (s', w') \<noteq> SESSION_POOL_IN_USE"
proof -
  have b: "acct_base i r0 h c k dr ds (s, w)" and so: "state_ok c dr (s, w)" using A by (simp_all add: acct_def)
  then have id: "m_sessionId s = i" "i < cp_capacity w" "pool_ok w" by (simp_all add: acct_base_def held_def ring_posted_def)
  have *: "acct i r0 h c k dr ds (s', w') \<and> pool_state (s', w') \<noteq> SESSION_POOL_IN_USE"
  proof (cases "pool_state (s, w) = SESSION_POOL_IN_USE")
    case False
    then have "s' = s" "w' = w" using R id by (simp_all add: ClientSessionPool_Release_def linorder_not_le [THEN iffD2])
    then show ?thesis using A False by simp
  next
    case True
    let ?w = "set_node (unat i) (\<lambda>node. node\<lparr>poolState := SESSION_POOL_RELEASING\<rparr>) w"
    have lt: "unat i < length (cp_nodes w)" using id by (simp add: pool_ok_def word_less_nat_alt)
    have np: "\<not> m_releasePending s" using so True by (simp add: state_ok_def)
    have po: "pool_ok ?w" by (rule pool_ok_claim) (use id True in simp_all)
    have "others_same i (snd (snd r0)) ?w" using b by (auto simp: acct_base_def held_def ring_posted_def others_same_def set_node_def)
    then have b1: "acct_base i r0 h c k dr ds (s, ?w)" using b po by (simp add: acct_base_def held_def ring_posted_def set_node_def)
    obtain s2 w2 where S: "(if IsTransportConnected s then (case CancelPendingIO env (s, ?w) of (True, sw) \<Rightarrow> sw
        | (False, s', w') \<Rightarrow> (s', violation w')) else (s, ?w)) = (s2, w2)" by fastforce
    have "acct_base i r0 h c k dr ds (s2, w2) \<and> \<not> m_releasePending s2 \<and> pool_view w2 = pool_view ?w \<and> m_sessionId s2 = i \<and>
        m_disconnectReason s2 = m_disconnectReason s"
    proof (cases "IsTransportConnected s")
      case False then show ?thesis using S b1 np id by simp
    next
      case True
      obtain r s3 w3 where C: "CancelPendingIO env (s, ?w) = (r, s3, w3)" by (cases "CancelPendingIO env (s, ?w)")
      note c = CancelPendingIO_quiet [OF b1 np C]
      have "s2 = s3" "pool_view w2 = pool_view w3" using S True C by (auto split: bool.splits)
      then show ?thesis using c id acct_base_view [of w2 w3] by simp
    qed
    then have b2: "acct_base i r0 h c k dr ds (s2, w2)" and np2: "\<not> m_releasePending s2" and v: "pool_view w2 = pool_view ?w"
      and id2: "m_sessionId s2 = i" and rs: "m_disconnectReason s2 = m_disconnectReason s" by simp_all
    have st: "poolState (cp_nodes w2 ! unat i) = SESSION_POOL_RELEASING" using lt by (simp add: pool_viewD(1) [OF v])
    let ?s = "s2\<lparr>m_releasePending := True\<rparr>"
    have e: "(s', w') = (if m_ioCount s2 \<noteq> 0 then (?s, w2) else CompleteRelease env (s2\<lparr>m_releasePending := False\<rparr>, w2))"
      using R id True S by (cases "m_ioCount s2 = 0")
        (simp_all add: ClientSessionPool_Release_def RequestRelease_def Let_def linorder_not_le [THEN iffD2])
    show ?thesis
    proof (cases "m_ioCount s2 = 0")
      case False
      then have "0 < m_ioCount s2" using b2 by (cases "m_recvPaused s2") (auto simp: acct_base_def held_def ring_posted_def)
      then show ?thesis using e False b2 st id2 rs reason by (simp add: acct_def acct_base_def held_def ring_posted_def state_ok_def)
    next
      case z: True
      then have z0: "h = 0" "c = 0" "k = 0" using b2 h by (cases "m_recvPaused s2"; auto simp: acct_base_def held_def ring_posted_def)+
      have b3: "acct_base i r0 0 0 0 dr ds (s2\<lparr>m_releasePending := False\<rparr>, w2)" using b2 z0 by (simp add: acct_base_def held_def ring_posted_def)
      have "CompleteRelease env (s2\<lparr>m_releasePending := False\<rparr>, w2) = (s', w')" using e z by simp
      from CompleteRelease_acct [OF b3 _ _ _ this] z z0 st id2 rs reason show ?thesis by simp
    qed
  qed
  then show "acct i r0 h c k dr ds (s', w')" "pool_state (s', w') \<noteq> SESSION_POOL_IN_USE" by blast+
qed

lemma NotifyDisconnect_acct:
  assumes A: "acct i r0 h c k dr ds (s, w)" and h: "c + k \<le> h" and reason: "m_disconnectReason s \<noteq> Unknown" and env: "asks env"
    and N: "NotifyDisconnect env (s, w) = (s', w')"
  shows "acct i r0 h c k dr ds (s', w')" and "pool_state (s', w') \<noteq> SESSION_POOL_IN_USE"
proof -
  obtain e where "ev_OnDisconnectRequest env = OnDisconnectRequest e" using env by (auto simp: asks_def)
  moreover have "m_eventHandler s" "m_sessionId s < cp_capacity w" using A by (simp_all add: acct_def acct_base_def held_def ring_posted_def)
  ultimately have "ClientSessionPool_Release e (s, w) = (s', w')"
    using N by (simp add: NotifyDisconnect_def OnDisconnectRequest_def ReleaseClientSession_def linorder_not_le [THEN iffD2])
  from Release_acct [OF A h reason this]
  show "acct i r0 h c k dr ds (s', w')" "pool_state (s', w') \<noteq> SESSION_POOL_IN_USE" by blast+
qed

lemma NoteDisconnectReason_sels [simp]:
  "m_disconnectReason (NoteDisconnectReason r s) = (if m_disconnectReason s = Unknown then r else m_disconnectReason s)"
  by (simp add: NoteDisconnectReason_def)

lemma NoteDisconnectReason_acct:
  assumes "acct i r0 h c k dr ds (s, w)" and "pool_state (s, w) \<noteq> SESSION_POOL_FREE"
  shows "acct i r0 h c k dr ds (NoteDisconnectReason r s, w)" and "pool_state (NoteDisconnectReason r s, w) = pool_state (s, w)"
  using assms by (auto simp: acct_def acct_base_def held_def ring_posted_def state_ok_def NoteDisconnectReason_def IsTransportConnected_def)

lemma note_and_notify:
  assumes A: "acct i r0 h c k dr ds (s, w)" and h: "c + k \<le> h" and nf: "pool_state (s, w) \<noteq> SESSION_POOL_FREE" and "r \<noteq> Unknown"
    and env: "asks env" and N: "NotifyDisconnect env (NoteDisconnectReason r s, w) = (s', w')"
  shows "acct i r0 h c k dr ds (s', w')" and "pool_state (s', w') \<noteq> SESSION_POOL_IN_USE"
  using NotifyDisconnect_acct [OF NoteDisconnectReason_acct(1) [OF A nf] h _ env N] \<open>r \<noteq> Unknown\<close> by simp_all

text \<open>The end of an operation that failed: its count goes, and with it what it was holding.\<close>

lemma socket_error_tail:
  assumes A: "acct i r0 (Suc h) c k dr ds (s1, w1)" and h: "c + k \<le> h" and hb: "fst r0 \<longrightarrow> 0 < h" and env: "asks env"
    and E: "(if errorCode \<in> set connection_errors then NotifyDisconnect env (NoteDisconnectReason SocketError s1, w1)
       else if errorCode = WSAENOBUFS \<or> errorCode = WSAEMFILE then (s1, w1)
       else if errorCode = ERROR_OPERATION_ABORTED then (s1, w1)
       else NotifyDisconnect env (NoteDisconnectReason SocketError s1, w1)) = (s2, w2)"
    and D: "DecrementIO env (s2, w2) = (s', w')"
  shows "acct i r0 h c k dr ds (s', w')"
proof -
  have h': "c + k \<le> Suc h" using h by simp
  have "acct i r0 (Suc h) c k dr ds (s2, w2)"
    using A E note_and_notify(1) [OF A h' acct_not_free0 [OF A] _ env, of SocketError s2 w2] by (auto split: if_splits)
  then show ?thesis by (rule DecrementIO_acct(1) [OF _ h hb asks_completes [OF env] D])
qed

lemma HandleSocketError_recv_acct:
  assumes A: "acct i r0 (Suc h) c k dr ds (s, w)" and "c + k \<le> h" and "fst r0 \<longrightarrow> 0 < h" and "asks env"
    and H: "HandleSocketError env errorCode OP_RECV (s, w) = (s', w')"
  shows "acct i r0 h c k dr ds (s', w')"
proof -
  let ?N = "NotifyDisconnect env (NoteDisconnectReason SocketError s, w)"
  obtain s2 w2 where E: "(if errorCode \<in> set connection_errors then ?N else if errorCode = WSAENOBUFS \<or> errorCode = WSAEMFILE then (s, w)
       else if errorCode = ERROR_OPERATION_ABORTED then (s, w) else ?N) = (s2, w2)" by fastforce
  then have "DecrementIO env (s2, w2) = (s', w')" using H by (simp add: HandleSocketError_def Let_def)
  from socket_error_tail [OF assms(1-4) E this] show ?thesis .
qed

lemma acct_end_send:
  assumes A: "acct i r0 h c 1 dr ds (s, w)" and v: "sess_view s' = sess_view (s\<lparr>m_sending := False\<rparr>)"
  shows "acct i r0 h c 0 dr ds (s', w)"
proof -
  have k: "m_sending s" "sends i (nw_posted w) \<le> ds" using A by (auto simp: acct_def acct_base_def held_def ring_posted_def of_bool_def split: if_splits)
  then have nf: "pool_state (s, w) \<noteq> SESSION_POOL_FREE" using acct_not_free [OF A] by simp
  note f = sess_viewD [OF v]
  have t: "IsTransportConnected s' = IsTransportConnected s" unfolding f(12) by (simp add: IsTransportConnected_def)
  have id: "m_sessionId s = i" using A by (simp add: acct_def acct_base_def held_def ring_posted_def)
  from A k(2) nf show ?thesis unfolding acct_iff acct_base_def held_def ring_posted_def by (simp add: f(1-11,13) t id)
qed

lemma drop_current_acct:
  assumes A: "acct i r0 h c 1 dr ds (s, w)" and D: "drop_current env (s, w) = (s1, w1)"
    and v: "sess_view s' = sess_view (s1\<lparr>m_sending := False\<rparr>)"
  shows "acct i r0 h c 0 dr ds (s', w1)"
proof -
  note d = drop_current_sels [OF D]
  have "sess_view s' = sess_view (s\<lparr>m_sending := False\<rparr>)" using v by (simp add: d(1) sess_view_def)
  from acct_end_send [OF A this] show ?thesis using acct_view [OF d(2)] by blast
qed

lemma HandleSocketError_send_acct:
  assumes A: "acct i r0 (Suc h) c 1 dr ds (s, w)" and h: "c \<le> h" and hb: "fst r0 \<longrightarrow> 0 < h" and env: "asks env"
    and H: "HandleSocketError env errorCode OP_SEND (s, w) = (s', w')"
  shows "acct i r0 h c 0 dr ds (s', w')"
proof -
  obtain s0 w1 where D: "drop_current env (s, w) = (s0, w1)" by fastforce
  let ?s1 = "s0\<lparr>m_sendOffset := 0, m_sending := False\<rparr>"
  have A1: "acct i r0 (Suc h) c 0 dr ds (?s1, w1)" by (rule drop_current_acct [OF A D]) (simp add: sess_view_def)
  let ?N = "NotifyDisconnect env (NoteDisconnectReason SocketError ?s1, w1)"
  obtain s2 w2 where E: "(if errorCode \<in> set connection_errors then ?N else if errorCode = WSAENOBUFS \<or> errorCode = WSAEMFILE then (?s1, w1)
       else if errorCode = ERROR_OPERATION_ABORTED then (?s1, w1) else ?N) = (s2, w2)" by fastforce
  then have "DecrementIO env (s2, w2) = (s', w')" using H D by (simp add: HandleSocketError_def Let_def)
  from socket_error_tail [OF A1 _ hb env E this] h show ?thesis by simp
qed

section \<open>Posting\<close>

text \<open>Taking a count for an operation, unless the session is being cancelled; a failed attempt takes back its own count.\<close>

lemma IncrementIO_acct:
  assumes "acct i r0 h c k dr ds (s, w)" and "pool_state (s, w) \<noteq> SESSION_POOL_FREE"
  shows "acct i r0 (Suc h) c k dr ds (s\<lparr>m_ioCount := m_ioCount s + 1\<rparr>, w)"
proof -
  have "m_sessionId s = i" using assms by (simp add: acct_def acct_base_def held_def ring_posted_def)
  moreover have "IsTransportConnected (s\<lparr>m_ioCount := m_ioCount s + 1\<rparr>) = IsTransportConnected s" by (simp add: IsTransportConnected_def)
  ultimately show ?thesis using assms unfolding acct_iff acct_base_def held_def ring_posted_def by auto
qed

lemma BeginIO_acct:
  assumes A: "acct i r0 h c k dr ds (s, w)" and nf: "pool_state (s, w) \<noteq> SESSION_POOL_FREE" and h: "c + k \<le> h" and env: "completes env"
    and B: "BeginIO env (s, w) = (r, s', w')"
  shows "r \<Longrightarrow> s' = s\<lparr>m_ioCount := m_ioCount s + 1\<rparr> \<and> w' = w \<and> acct i r0 (Suc h) c k dr ds (s', w')"
    and "\<not> r \<Longrightarrow> acct i r0 h c k dr ds (s', w')" and "\<not> r \<Longrightarrow> 0 < h \<Longrightarrow> m_cancelIo s'"
proof -
  note A1 = IncrementIO_acct [OF A nf]
  show "r \<Longrightarrow> s' = s\<lparr>m_ioCount := m_ioCount s + 1\<rparr> \<and> w' = w \<and> acct i r0 (Suc h) c k dr ds (s', w')"
    using A1 B by (auto simp: BeginIO_def Let_def split: if_splits)
  assume r: "\<not> r"
  then have D: "DecrementIO env (s\<lparr>m_ioCount := m_ioCount s + 1\<rparr>, w) = (s', w')" and ca: "m_cancelIo s"
    using B by (auto simp: BeginIO_def Let_def split: if_splits)
  note d = DecrementIO_acct [OF A1 h acct_held [OF A] env D]
  show "acct i r0 h c k dr ds (s', w')" by (rule d(1))
  show "0 < h \<Longrightarrow> m_cancelIo s'" using d(3) ca by simp
qed

lemma post_recv_acct:
  assumes A: "acct i r0 (Suc h) 1 k dr ds (s, w)" and hb: "fst r0 \<longrightarrow> 0 < h" and v: "pool_view w' = pool_view w"
    and b: "m_recvPacketBuffer s = Some b"
  shows "acct i r0 h 0 k dr ds
    (s, w'\<lparr>nw_posted := nw_posted w' @ [RecvPosted (m_sessionId s) (the (GetWriteablePtr b)) (GetWriteableSize b)]\<rparr>)"
proof -
  let ?w = "w'\<lparr>nw_posted := nw_posted w' @ [RecvPosted (m_sessionId s) (the (GetWriteablePtr b)) (GetWriteableSize b)]\<rparr>"
  have A': "acct i r0 (Suc h) 1 k dr ds (s, w')" using A acct_view [OF v] by blast
  then have id: "m_sessionId s = i" by (simp add: acct_def acct_base_def held_def ring_posted_def)
  have p: "pool_ok ?w = pool_ok w'" by (simp add: pool_ok_def free_list_def)
  have "others_same i (snd (snd r0)) w'" using A' by (simp add: acct_def acct_base_def held_def ring_posted_def)
  then have o: "others_same i (snd (snd r0)) ?w" by (auto simp: others_same_def id of_bool_def)
  from A' hb b show ?thesis unfolding acct_iff acct_base_def held_def ring_posted_def by (simp add: p [unfolded id] o [unfolded id] id)
qed

lemma post_send_acct:
  assumes A: "acct i r0 (Suc h) c 1 dr ds (s, w)" and hb: "fst r0 \<longrightarrow> 0 < h" and v: "pool_view w' = pool_view w"
  shows "acct i r0 h c 0 dr ds (s, w'\<lparr>nw_posted := nw_posted w' @ [SendPosted (m_sessionId s) bs]\<rparr>)"
proof -
  let ?w = "w'\<lparr>nw_posted := nw_posted w' @ [SendPosted (m_sessionId s) bs]\<rparr>"
  have A': "acct i r0 (Suc h) c 1 dr ds (s, w')" using A acct_view [OF v] by blast
  then have id: "m_sessionId s = i" by (simp add: acct_def acct_base_def held_def ring_posted_def)
  have p: "pool_ok ?w = pool_ok w'" by (simp add: pool_ok_def free_list_def)
  have "others_same i (snd (snd r0)) w'" using A' by (simp add: acct_def acct_base_def held_def ring_posted_def)
  then have o: "others_same i (snd (snd r0)) ?w" by (auto simp: others_same_def id of_bool_def)
  from A' hb show ?thesis unfolding acct_iff acct_base_def held_def ring_posted_def by (simp add: p [unfolded id] o [unfolded id] id)
qed

section \<open>The receive chain\<close>

lemma acct_set_ring:
  assumes A: "acct i r0 h 1 k dr ds (s, w)" and ring: "ring_ok x" and nf: "pool_state (s, w) \<noteq> SESSION_POOL_FREE"
    and v: "sess_view s' = sess_view (s\<lparr>m_recvPacketBuffer := x\<rparr>)" and w: "pool_view w' = pool_view w"
  shows "acct i r0 h 1 k dr ds (s', w')"
proof -
  note f = sess_viewD [OF v]
  have t: "IsTransportConnected s' = IsTransportConnected s" unfolding f(12) by (simp add: IsTransportConnected_def)
  have id: "m_sessionId s = i" using A by (simp add: acct_def acct_base_def)
  have "acct i r0 h 1 k dr ds (s', w)"
    using A nf id ring unfolding acct_iff acct_base_def held_def ring_posted_def by (simp add: f t)
  then show ?thesis using acct_view [OF w] by blast
qed

text \<open>Posting a receive passes the link of the chain to the kernel; when it fails, the caller still holds it.\<close>

lemma PostReceive_acct:
  assumes A: "acct i r0 h 1 k dr ds (s, w)" and h: "1 + k \<le> h" and env: "asks env" and P: "PostReceive env (s, w) = (r, s', w')"
  shows "acct i r0 h (if r then 0 else 1) k dr ds (s', w')"
proof (cases "\<not> IsTransportConnected s")
  case True then show ?thesis using A P by (simp add: PostReceive_def)
next
  case con: False
  have nf: "pool_state (s, w) \<noteq> SESSION_POOL_FREE" by (rule acct_not_free [OF A]) (use h in simp)
  show ?thesis
  proof (cases "m_recvPacketBuffer s")
    case None
    then have "r = False" "s' = s" "w' = violation w" using P con by (simp_all add: PostReceive_def Let_def)
    then show ?thesis using A acct_view [of "violation w" w i r0 h 1 k dr ds s] by simp
  next
    case (Some b0)
    let ?b = "PrepareWrite b0"
    let ?s1 = "s\<lparr>m_recvPacketBuffer := Some ?b\<rparr>"
    have A1: "acct i r0 h 1 k dr ds (?s1, w)" by (rule acct_set_ring [OF A _ nf refl refl])
        (use A Some PrepareWrite_inv_stored(1,3) [of b0] in \<open>auto simp: acct_def acct_base_def ring_ok_def\<close>)
    show ?thesis
    proof (cases "GetWriteableSize ?b = 0")
      case True
      then show ?thesis using P con Some A1 by (simp add: PostReceive_def Let_def)
    next
      case wr: False
      obtain ok s2 w2 where B: "BeginIO env (?s1, w) = (ok, s2, w2)" by (cases "BeginIO env (?s1, w)") auto
      have nf1: "pool_state (?s1, w) \<noteq> SESSION_POOL_FREE" using nf by simp
      note b = BeginIO_acct [OF A1 nf1 h asks_completes [OF env] B]
      show ?thesis
      proof (cases ok)
        case False
        then have "r = False" "s' = s2" "w' = w2" using P con Some wr B by (simp_all add: PostReceive_def Let_def)
        then show ?thesis using b(2) False by simp
      next
        case ok: True
        then have A2: "acct i r0 (Suc h) 1 k dr ds (s2, w2)" using b(1) by blast
        obtain answer w3 where O: "ask_os w2 = (answer, w3)" by fastforce
        note v = ask_os_view [OF O]
        show ?thesis
        proof (cases "post_failed answer")
          case None
          then have "r" "s' = s2" "w' = w3\<lparr>nw_posted := nw_posted w3 @ [RecvPosted (m_sessionId s2) (the (GetWriteablePtr ?b)) (GetWriteableSize ?b)]\<rparr>"
            using P con Some wr B ok O by (auto simp: PostReceive_def Let_def)
          moreover have "m_recvPacketBuffer s2 = Some ?b" using b(1) ok by simp
          ultimately show ?thesis using post_recv_acct [OF A2 acct_held [OF A] v] by simp
        next
          case (Some err)
          then have r: "r = False" and H: "HandleSocketError env err OP_RECV (s2, w3) = (s', w')"
            using P con \<open>m_recvPacketBuffer s = Some b0\<close> wr B ok O by (simp_all add: PostReceive_def Let_def)
          have "acct i r0 (Suc h) 1 k dr ds (s2, w3)" using A2 acct_view [OF v] by blast
          from HandleSocketError_recv_acct [OF this h acct_held [OF A] env H] r show ?thesis by simp
        qed
      qed
    qed
  qed
qed

lemma ResumeReceive_acct:
  assumes A: "acct i r0 h c k dr ds (s, w)" and h: "k \<le> h" and env: "asks env" and R: "ResumeReceive env (s, w) = (s', w')"
  shows "acct i r0 h c k dr ds (s', w')"
proof (cases "m_recvPaused s")
  case False then show ?thesis using A R by (simp add: ResumeReceive_def)
next
  case True
  let ?s = "s\<lparr>m_recvPaused := False\<rparr>"
  have nf: "pool_state (s, w) \<noteq> SESSION_POOL_FREE" by (rule acct_not_free [OF A]) (use True in simp)
  have b: "m_sessionId s = i" "c = 0" using A True by (auto simp: acct_def acct_base_def held_def ring_posted_def)
  have t: "IsTransportConnected ?s = IsTransportConnected s" by (simp add: IsTransportConnected_def)
  have A1: "acct i r0 (Suc h) 1 k dr ds (?s, w)"
    using A nf True b unfolding acct_iff acct_base_def held_def ring_posted_def by (simp add: t)
  obtain r s1 w1 where P: "PostReceive env (?s, w) = (r, s1, w1)" by (cases "PostReceive env (?s, w)") auto
  have A2: "acct i r0 (Suc h) (if r then 0 else 1) k dr ds (s1, w1)" by (rule PostReceive_acct [OF A1 _ env P]) (use h in simp)
  show ?thesis
  proof (cases r)
    case True
    then have "DecrementIO env (s1, w1) = (s', w')" using R P \<open>m_recvPaused s\<close> by (simp add: ResumeReceive_def)
    moreover have "acct i r0 (Suc h) 0 k dr ds (s1, w1)" using A2 True by simp
    ultimately show ?thesis using DecrementIO_acct(1) [of i r0 h 0 k dr ds s1 w1 env s' w'] acct_held [OF A] asks_completes [OF env] h b by simp
  next
    case False
    obtain s2 w2 where N: "NotifyDisconnect env (NoteDisconnectReason ResourceExhausted s1, w1) = (s2, w2)" by fastforce
    then have D: "DecrementIO env (s2, w2) = (s', w')" using R P False \<open>m_recvPaused s\<close> by (simp add: ResumeReceive_def)
    have A2': "acct i r0 (Suc h) 1 k dr ds (s1, w1)" using A2 False by simp
    note n = note_and_notify [OF A2' _ acct_not_free0 [OF A2'] _ env N]
    have "acct i r0 (Suc h) 0 k dr ds (s2, w2)" by (rule acct_drop_link [OF n(1)]) (use n(2) h in simp_all)
    from DecrementIO_acct(1) [OF this _ acct_held [OF A] asks_completes [OF env] D] h b show ?thesis by simp
  qed
qed

lemma ResumeReceiveIfDrained_acct:
  assumes "acct i r0 h c k dr ds (s, w)" and "k \<le> h" and "asks env" and "ResumeReceiveIfDrained env (s, w) = (s', w')"
  shows "acct i r0 h c k dr ds (s', w')"
  using assms ResumeReceive_acct [OF assms(1-3)] by (auto simp: ResumeReceiveIfDrained_def split: if_splits)

text \<open>With pausing, the link is passed on unless the result is \<open>False\<close>.\<close>

lemma PostReceiveOrPause_acct:
  assumes A: "acct i r0 h 1 k dr ds (s, w)" and h: "1 + k \<le> h" and env: "asks env" and P: "PostReceiveOrPause env (s, w) = (r, s', w')"
  shows "acct i r0 h (if r then 0 else 1) k dr ds (s', w')"
proof (cases "recvPauseJobDepth (m_bufferConfig s) = 0 \<or> GetJobQueueDepth s < recvPauseJobDepth (m_bufferConfig s)")
  case True
  obtain ok s1 w1 where R: "PostReceive env (s, w) = (ok, s1, w1)" by (cases "PostReceive env (s, w)") auto
  note a = PostReceive_acct [OF A h env R]
  have e: "s' = s1" "w' = w1" "r = (ok \<or> m_cancelIo s1)"
    using P True R by (auto simp: PostReceiveOrPause_def IsIOCancelRequested_def Let_def split: bool.splits)
  show ?thesis using a acct_drop_link [of i r0 h 1 k dr ds "(s1, w1)"] by (cases ok; cases "m_cancelIo s1") (simp_all add: e)
next
  case False
  have nf: "pool_state (s, w) \<noteq> SESSION_POOL_FREE" by (rule acct_not_free [OF A]) (use h in simp)
  obtain ok s1 w1 where B: "BeginIO env (s, w) = (ok, s1, w1)" by (cases "BeginIO env (s, w)") auto
  note b = BeginIO_acct [OF A nf h asks_completes [OF env] B]
  show ?thesis
  proof (cases ok)
    case False
    then have e: "r" "s' = s1" "w' = w1"
      using P B \<open>\<not> (recvPauseJobDepth (m_bufferConfig s) = 0 \<or> GetJobQueueDepth s < recvPauseJobDepth (m_bufferConfig s))\<close>
      by (simp_all add: PostReceiveOrPause_def Let_def)
    have "m_cancelIo s1" using b(3) False h by simp
    then show ?thesis using acct_drop_link [OF b(2) [OF False]] by (simp add: e)
  next
    case True
    let ?s2 = "s1\<lparr>m_recvPaused := True, m_recvPauseCount := m_recvPauseCount s1 + 1\<rparr>"
    have A1: "acct i r0 (Suc h) 1 k dr ds (s1, w1)" using b(1) [OF True] by blast
    have id: "m_sessionId s1 = i" "\<not> m_recvPaused s1" using A1 by (auto simp: acct_def acct_base_def held_def ring_posted_def of_bool_def split: if_splits)
    have t: "IsTransportConnected ?s2 = IsTransportConnected s1" by (simp add: IsTransportConnected_def)
    have A2: "acct i r0 h 0 k dr ds (?s2, w1)" using A1 acct_not_free0 [OF A1] id acct_held [OF A] unfolding acct_iff acct_base_def held_def ring_posted_def by (simp add: t)
    have e: "r" "(s', w') = (if GetJobQueueDepth ?s2 > recvResumeJobDepth (m_bufferConfig ?s2) then (?s2, w1) else ResumeReceive env (?s2, w1))"
      using P B True False by (auto simp: PostReceiveOrPause_def Let_def split: if_splits)
    show ?thesis
    proof (cases "GetJobQueueDepth ?s2 > recvResumeJobDepth (m_bufferConfig ?s2)")
      case True then show ?thesis using e A2 by simp
    next
      case False
      then have "ResumeReceive env (?s2, w1) = (s', w')" using e by simp
      from ResumeReceive_acct [OF A2 _ env this] h e(1) show ?thesis by simp
    qed
  qed
qed

section \<open>Sending\<close>

lemma PostCurrentSend_acct:
  assumes A: "acct i r0 h c 1 dr ds (s, w)" and h: "c \<le> h" and env: "asks env" and P: "PostCurrentSend env (s, w) = (r, s', w')"
  shows "acct i r0 h c 0 dr ds (s', w')"
proof (cases "m_currentSendPacket s")
  case None then show ?thesis using acct_drop_token [OF A] P by (simp add: PostCurrentSend_def)
next
  case (Some a)
  have snd: "m_sending s" using A by (auto simp: acct_def acct_base_def held_def ring_posted_def of_bool_def split: if_splits)
  have nf: "pool_state (s, w) \<noteq> SESSION_POOL_FREE" by (rule acct_not_free [OF A]) (use snd in simp)
  obtain sd wd where D: "drop_current env (s, w) = (sd, wd)" by fastforce
  obtain ok s1 w1 where B: "BeginIO env (s, w) = (ok, s1, w1)" by (cases "BeginIO env (s, w)") auto
  obtain answer w2 where O: "ask_os w1 = (answer, w2)" by fastforce
  note v = ask_os_view [OF O]
  consider (dropped) x where "s' = sd\<lparr>m_sendOffset := x, m_sending := False\<rparr>" "w' = wd"
    | (cancelled) "\<not> ok" "s' = s1" "w' = w1"
    | (failed) err where "ok" "HandleSocketError env err OP_SEND (s1, w2) = (s', w')"
    | (posted) bs where "ok" "s' = s1" "w' = w2\<lparr>nw_posted := nw_posted w2 @ [SendPosted (m_sessionId s1) bs]\<rparr>"
  proof (cases "en_packetSize (entry_at (nw_send w) a) - m_sendOffset s = 0")
    case True
    then show ?thesis using P Some D dropped [of "m_sendOffset sd"] by (simp add: PostCurrentSend_def Let_def)
  next
    case more: False
    show ?thesis
    proof (cases "m_cancelIo s")
      case True
      then show ?thesis using P Some D more dropped [of 0] by (simp add: PostCurrentSend_def IsIOCancelRequested_def Let_def)
    next
      case False
      show ?thesis
      proof (cases ok)
        case False
        then show ?thesis using P Some B more \<open>\<not> m_cancelIo s\<close> cancelled by (simp add: PostCurrentSend_def IsIOCancelRequested_def Let_def)
      next
        case True
        with P Some B O more \<open>\<not> m_cancelIo s\<close> failed posted show ?thesis
          by (cases "post_failed answer") (auto simp: PostCurrentSend_def IsIOCancelRequested_def Let_def)
      qed
    qed
  qed
  then show ?thesis
  proof cases
    case dropped
    have "sess_view s' = sess_view (sd\<lparr>m_sending := False\<rparr>)" by (simp add: dropped(1) sess_view_def)
    from drop_current_acct [OF A D this] show ?thesis by (simp add: dropped(2))
  next
    case cancelled
    from BeginIO_acct(2) [OF acct_drop_token [OF A] nf _ asks_completes [OF env] B] cancelled h show ?thesis by simp
  next
    case failed
    from A nf have A1: "acct i r0 (Suc h) c 1 dr ds (s1, w1)"
      using IncrementIO_acct [OF A nf] B failed(1) by (auto simp: BeginIO_def Let_def split: if_splits)
    then have "acct i r0 (Suc h) c 1 dr ds (s1, w2)" using acct_view [OF v] by blast
    from HandleSocketError_send_acct [OF this h acct_held [OF A] env failed(2)] show ?thesis .
  next
    case posted
    from A nf have A1: "acct i r0 (Suc h) c 1 dr ds (s1, w1)"
      using IncrementIO_acct [OF A nf] B posted(1) by (auto simp: BeginIO_def Let_def split: if_splits)
    from post_send_acct [OF A1 acct_held [OF A] v] show ?thesis by (simp add: posted(2,3))
  qed
qed

lemma acct_begin_send:
  assumes "acct i r0 h c k dr ds (s, w)" and "\<not> m_sending s" and "pool_state (s, w) \<noteq> SESSION_POOL_FREE"
    and v: "sess_view s' = sess_view (s\<lparr>m_sending := True\<rparr>)" and w: "pool_view w' = pool_view w"
  shows "acct i r0 h c 1 dr ds (s', w')"
proof -
  note f = sess_viewD [OF v]
  have t: "IsTransportConnected s' = IsTransportConnected s" unfolding f(12) by (simp add: IsTransportConnected_def)
  have id: "m_sessionId s = i" using assms(1) by (simp add: acct_def acct_base_def held_def ring_posted_def)
  have "acct i r0 h c 1 dr ds (s', w)" using assms(1-3) id unfolding acct_iff acct_base_def held_def ring_posted_def by (simp add: f(1-11,13) t)
  then show ?thesis using acct_view [OF w] by blast
qed

lemma TrySendNext_acct:
  assumes A: "acct i r0 h c k dr ds (s, w)" and h: "c \<le> h" and env: "asks env" and nf: "pool_state (s, w) \<noteq> SESSION_POOL_FREE"
    and T: "TrySendNext env (s, w) = (r, s', w')"
  shows "acct i r0 h c k dr ds (s', w')"
proof (cases "m_sendPacketQueue s = None \<or> m_sending s")
  case True then show ?thesis using A T by (auto simp: TrySendNext_def split: option.splits)
next
  case False
  then obtain q where q: "m_sendPacketQueue s = Some q" "\<not> m_sending s" by auto
  have "k = 0" using A q(2) by (auto simp: acct_def acct_base_def)
  show ?thesis
  proof (cases "m_currentSendPacket s")
    case (Some a)
    then have "PostCurrentSend env (s\<lparr>m_sending := True\<rparr>, w) = (r, s', w')" using T q by (simp add: TrySendNext_def)
    from PostCurrentSend_acct [OF acct_begin_send [OF A q(2) nf refl refl] h env this] \<open>k = 0\<close> show ?thesis by simp
  next
    case None
    obtain d q' sw' where D: "Dequeue (q, nw_send w) = (d, q', sw')" by (cases "Dequeue (q, nw_send w)")
    show ?thesis
    proof (cases d)
      case None
      then have e: "s' = s\<lparr>m_sendPacketQueue := Some q', m_sending := False\<rparr>" "w' = set_send sw' w"
        using T q D \<open>m_currentSendPacket s = None\<close> by (simp_all add: TrySendNext_def Let_def split: if_splits)
      have "sess_view s' = sess_view s" using q by (simp add: e(1) sess_view_def)
      from acct_same(1) [OF A this _ nf] show ?thesis by (simp add: e(2))
    next
      case (Some a)
      then have P: "PostCurrentSend env (s\<lparr>m_sending := True, m_sendPacketQueue := Some q', m_currentSendPacket := Some a, m_sendOffset := 0\<rparr>,
          set_send sw' w) = (r, s', w')"
        using T q D \<open>m_currentSendPacket s = None\<close> by (simp add: TrySendNext_def)
      show ?thesis unfolding \<open>k = 0\<close>
        by (rule PostCurrentSend_acct [OF acct_begin_send [OF A q(2) nf] h env P]) (simp_all add: sess_view_def)
    qed
  qed
qed

text \<open>A completed send hands the flag on to the rest of the packet or to the next one.\<close>

lemma OnSendCompleted_acct:
  assumes A: "acct i r0 h c 1 dr ds (s, w)" and h: "c \<le> h" "0 < h" and env: "asks env" and O: "OnSendCompleted env n (s, w) = (r, s', w')"
  shows "acct i r0 h c 0 dr ds (s', w')"
proof -
  let ?s1 = "s\<lparr>m_sendOffset := m_sendOffset s + n\<rparr>"
  have nf: "pool_state (s, w) \<noteq> SESSION_POOL_FREE" by (rule acct_not_free [OF A]) (use h in simp)
  have A1: "acct i r0 h c 1 dr ds (?s1, w)" by (rule acct_same(1) [OF A _ refl nf]) (simp add: sess_view_def)
  show ?thesis
  proof (cases "m_currentSendPacket s")
    case None then show ?thesis using acct_drop_token [OF A1] O by (simp add: OnSendCompleted_def)
  next
    case (Some a)
    show ?thesis
    proof (cases "m_sendOffset ?s1 < en_packetSize (entry_at (nw_send w) a)")
      case True
      then have "PostCurrentSend env (?s1, w) = (r, s', w')" using O Some by (simp add: OnSendCompleted_def)
      from PostCurrentSend_acct [OF A1 h(1) env this] show ?thesis .
    next
      case False
      obtain s2 w2 where D: "drop_current env (?s1, w) = (s2, w2)" by fastforce
      let ?s3 = "s2\<lparr>m_sendOffset := 0, m_sending := False\<rparr>"
      have A3: "acct i r0 h c 0 dr ds (?s3, w2)" by (rule drop_current_acct [OF A1 D]) (simp add: sess_view_def)
      obtain r' where "TrySendNext env (?s3, w2) = (r', s', w')" using O Some False D
        by (cases "TrySendNext env (?s3, w2)") (simp add: OnSendCompleted_def)
      from TrySendNext_acct [OF A3 h(1) env _ this] acct_not_free [OF A3] h(2) show ?thesis by simp
    qed
  qed
qed

text \<open>Queueing a packet changes only the queue, the log ticks and the packet memory, and then tries to send.\<close>

lemma acct_try_send:
  assumes A: "acct i r0 h c k dr ds (s, w)" and h: "c \<le> h" and env: "asks env" and nf: "pool_state (s, w) \<noteq> SESSION_POOL_FREE"
    and v: "sess_view s1 = sess_view s" and w: "pool_view w1 = pool_view w"
    and T: "snd (TrySendNext env (s1, w1)) = (s', w')"
  shows "acct i r0 h c k dr ds (s', w')"
proof -
  obtain r where "TrySendNext env (s1, w1) = (r, s', w')" using T by (cases "TrySendNext env (s1, w1)") simp
  from TrySendNext_acct [OF acct_same(1) [OF A v w nf] h env _ this] acct_same(2) [OF A v w nf] nf show ?thesis by simp
qed

lemma reject_view:
  assumes "reject r (s, w) = (s', w')"
  shows "sess_view s' = sess_view s" and "w' = w"
  using assms by (auto simp: reject_def ShouldLogSendReject_def sess_view_def Let_def split: if_splits)

lemma enqueue_acct:
  assumes A: "acct i r0 h c k dr ds (s, w)" and h: "c \<le> h" and env: "asks env" and nf: "pool_state (s, w) \<noteq> SESSION_POOL_FREE"
  shows "reject r (s\<lparr>m_sendPacketQueue := q\<rparr>, set_send sw w) = (s', w') \<Longrightarrow> acct i r0 h c k dr ds (s', w')"
    and "snd (TrySendNext env (s\<lparr>m_sendPacketQueue := q\<rparr>, set_send sw w)) = (s', w') \<Longrightarrow> acct i r0 h c k dr ds (s', w')"
proof -
  assume R: "reject r (s\<lparr>m_sendPacketQueue := q\<rparr>, set_send sw w) = (s', w')"
  note r = reject_view [OF R]
  have "sess_view s' = sess_view s" using r(1) by (simp add: sess_view_def)
  from acct_same(1) [OF A this _ nf] r(2) show "acct i r0 h c k dr ds (s', w')" by simp
next
  assume "snd (TrySendNext env (s\<lparr>m_sendPacketQueue := q\<rparr>, set_send sw w)) = (s', w')"
  then show "acct i r0 h c k dr ds (s', w')" by (rule acct_try_send [OF A h env nf, rotated 2]) (simp_all add: sess_view_def)
qed

lemma EnqueueSendPacket_acct:
  assumes A: "acct i r0 h c k dr ds (s, w)" and h: "c \<le> h" and env: "asks env" and nf: "pool_state (s, w) \<noteq> SESSION_POOL_FREE"
    and E: "EnqueueSendPacket env packetData sz (s, w) = (ok, p, s', w')"
  shows "acct i r0 h c k dr ds (s', w')"
proof -
  consider (same) "s' = s" "w' = w"
    | (rej) r q sw where "reject r (s\<lparr>m_sendPacketQueue := q\<rparr>, set_send sw w) = (s', w')"
    | (snd) q sw where "snd (TrySendNext env (s\<lparr>m_sendPacketQueue := q\<rparr>, set_send sw w)) = (s', w')"
  proof (cases "m_sendPacketQueue s")
    case None then show ?thesis using E same by (simp add: EnqueueSendPacket_def)
  next
    case (Some q)
    obtain r1 p1 q1 sw where Q: "Enqueue (ev_acquire env) (ev_release env) packetData sz (q, nw_send w) = (r1, p1, q1, sw)"
      by (cases "Enqueue (ev_acquire env) (ev_release env) packetData sz (q, nw_send w)")
    have s: "s\<lparr>m_sendPacketQueue := Some q\<rparr> = s" "set_send (nw_send w) w = w" using Some by (simp_all add: set_send_def)
    show ?thesis using E Some Q same rej [of NotEstablished "Some q" "nw_send w"] rej [of SendQueueFull "Some q1" sw] snd [of "Some q1" sw]
      by (cases r1) (simp_all add: EnqueueSendPacket_def Let_def s split: if_splits)
  qed
  then show ?thesis by (cases) (use A enqueue_acct [OF A h env nf] in auto)
qed

lemma EnqueueSharedSendPacket_acct:
  assumes A: "acct i r0 h c k dr ds (s, w)" and h: "c \<le> h" and env: "asks env" and nf: "pool_state (s, w) \<noteq> SESSION_POOL_FREE"
    and E: "EnqueueSharedSendPacket env packetData sz rf rc (s, w) = (ok, s', w')"
  shows "acct i r0 h c k dr ds (s', w')"
proof -
  consider (same) "s' = s" "w' = w"
    | (rej) r q sw where "reject r (s\<lparr>m_sendPacketQueue := q\<rparr>, set_send sw w) = (s', w')"
    | (snd) q sw where "snd (TrySendNext env (s\<lparr>m_sendPacketQueue := q\<rparr>, set_send sw w)) = (s', w')"
  proof (cases "m_sendPacketQueue s")
    case None then show ?thesis using E same by (simp add: EnqueueSharedSendPacket_def)
  next
    case (Some q)
    obtain r1 q1 sw where Q: "EnqueueShared (ev_acquire env) (ev_release env) packetData sz rf rc (q, nw_send w) = (r1, q1, sw)"
      by (cases "EnqueueShared (ev_acquire env) (ev_release env) packetData sz rf rc (q, nw_send w)")
    have s: "s\<lparr>m_sendPacketQueue := Some q\<rparr> = s" "set_send (nw_send w) w = w" using Some by (simp_all add: set_send_def)
    show ?thesis using E Some Q same rej [of NotEstablished "Some q" "nw_send w"] rej [of SendQueueFull "Some q1" sw] snd [of "Some q1" sw]
      by (cases r1) (simp_all add: EnqueueSharedSendPacket_def Let_def s split: if_splits)
  qed
  then show ?thesis by (cases) (use A enqueue_acct [OF A h env nf] in auto)
qed

lemma send_system_acct:
  assumes A: "acct i r0 h c k dr ds (s, w)" and h: "c \<le> h" and env: "asks env" and nf: "pool_state (s, w) \<noteq> SESSION_POOL_FREE"
    and S: "send_system env bs (s, w) = (ok, s', w')"
  shows "acct i r0 h c k dr ds (s', w')"
proof -
  obtain r w1 where C: "CreatePacket env (length bs) w = (r, w1)" by fastforce
  then have v: "pool_view w1 = pool_view w" by (auto simp: CreatePacket_def split: prod.splits)
  show ?thesis
  proof (cases r)
    case None then show ?thesis using S C A acct_view [OF v] by (simp add: send_system_def)
  next
    case (Some a)
    have v1: "pool_view (write_mem a bs w1) = pool_view w" using v by (simp add: write_mem_def)
    obtain ok1 p s2 w2 where E: "EnqueueSendPacket env (Some (Some a)) (of_nat (length bs)) (s, write_mem a bs w1) = (ok1, p, s2, w2)"
      by (cases "EnqueueSendPacket env (Some (Some a)) (of_nat (length bs)) (s, write_mem a bs w1)")
    have A1: "acct i r0 h c k dr ds (s, write_mem a bs w1)" "pool_state (s, write_mem a bs w1) \<noteq> SESSION_POOL_FREE"
      using acct_same [OF A refl v1 nf] nf by simp_all
    have A2: "acct i r0 h c k dr ds (s2, w2)" by (rule EnqueueSendPacket_acct [OF A1(1) h env A1(2) E])
    have e: "s' = s2 \<and> pool_view w' = pool_view w2" using S C Some E by (cases ok1) (auto simp: send_system_def)
    show ?thesis using A2 acct_view [of w' w2] e by simp
  qed
qed

lemma SendSystemHeartbeatRequest_acct:
  assumes "acct i r0 h c k dr ds (s, w)" and "c \<le> h" and "asks env" and "SendSystemHeartbeatRequest env (s, w) = (ok, s', w')"
  shows "acct i r0 h c k dr ds (s', w')"
proof (cases "IsEstablished s")
  case True
  then have "IsTransportConnected s" by (auto simp: IsEstablished_def IsTransportConnected_def split: if_splits)
  then have "pool_state (s, w) \<noteq> SESSION_POOL_FREE" using acct_not_free [OF assms(1)] by simp
  with assms send_system_acct [OF assms(1-3)] show ?thesis by (auto simp: SendSystemHeartbeatRequest_def split: if_splits)
next
  case False then show ?thesis using assms by (simp add: SendSystemHeartbeatRequest_def)
qed

end
