(* ===== verification/Accept.thy ===== *)
theory Accept
  imports ClientSessionPool
begin

text \<open>
  The accept slots: \<open>Session/AcceptSession\<close>, \<open>Session/AcceptSessionPool\<close>, and \<open>Session/SessionManager\<close>, which owns both pools. The address
  buffer of a slot is filled by the kernel and read by \<open>HandleAccept\<close>, which takes its contents as an argument.
\<close>

section \<open>An accept slot\<close>

record AcceptSession = BaseSession +
  m_slotOwned :: bool

type_synonym ('p, 'z) AcceptNet = "AcceptSession \<times> ('p, 'z) NetWorld_scheme"

definition new_AcceptSession :: AcceptSession where
  "new_AcceptSession = \<lparr>m_destroyFlag = False, m_sessionRole = ROLE_NONE, m_clientSessionState = Client_NONE,
     m_serverSessionState = Server_NONE, m_acceptSessionState = Accept_NONE, m_disconnectReason = Unknown, m_clientSocket = None,
     m_sessionId = 4294967295, m_closing = False, m_ioCount = 0, m_cancelIo = False, m_releasePending = False,
     m_releaseReadyFunc = False, m_ioCancelCompleteEvent = None, m_slotOwned = False\<rparr>"

text \<open>A slot has no callbacks and uses no pools.\<close>

definition accept_env :: "('p, ('p, 'z) AcceptNet) Env" where
  "accept_env = \<lparr>ev_acquire = (\<lambda>p n. (None, p)), ev_release = (\<lambda>p a. p), ev_OnDisconnectRequest = id, ev_OnReleaseReady = id\<rparr>"

definition AcceptSession_Initialize :: "bool \<Rightarrow> SESSION_ROLE \<Rightarrow> u32 \<Rightarrow> AcceptSession \<Rightarrow> bool \<times> AcceptSession" where
  "AcceptSession_Initialize eventCreated sessionType sessionId s =
     (case BaseSession_Initialize eventCreated sessionType sessionId s of
        (False, s1) \<Rightarrow> (False, s1)
      | (True, s1) \<Rightarrow> (True, s1\<lparr>m_slotOwned := False, m_acceptSessionState := Accept_READY\<rparr>))"

definition AcceptSession_ResetSession :: "('p, 'z) AcceptNet \<Rightarrow> ('p, 'z) AcceptNet" where
  "AcceptSession_ResetSession sw = (case BaseSession_ResetSession sw of (s, w) \<Rightarrow> (s\<lparr>m_acceptSessionState := Accept_READY\<rparr>, w))"

definition ResetForRepost :: "AcceptSession \<Rightarrow> AcceptSession" where
  "ResetForRepost s = s\<lparr>m_closing := False, m_acceptSessionState := Accept_READY\<rparr>"

definition AcceptSession_Finalize :: "('p, 'z) AcceptNet \<Rightarrow> ('p, 'z) AcceptNet" where
  "AcceptSession_Finalize sw =
     (if m_destroyFlag (fst sw) then sw
      else (case BaseSession_Finalize sw of (s, w) \<Rightarrow> (s\<lparr>m_slotOwned := False, m_destroyFlag := True\<rparr>, w)))"

definition OnAccept :: "AcceptSession \<Rightarrow> bool \<times> AcceptSession" where
  "OnAccept s = (True, s\<lparr>m_acceptSessionState := Accept_COMPLETE\<rparr>)"

definition AcceptSession_OnConnect :: "('p, 'z) AcceptNet \<Rightarrow> bool \<times> ('p, 'z) AcceptNet" where
  "AcceptSession_OnConnect = (\<lambda>(s, w). (False, s, violation w))"

definition AcceptSession_OnDisconnect :: "AcceptSession \<Rightarrow> bool \<times> AcceptSession" where
  "AcceptSession_OnDisconnect s =
     (if m_closing s then (True, s)
      else
        (let s1 = s\<lparr>m_closing := True\<rparr> in
         if m_clientSocket s1 \<noteq> None then (False, s1)
         else (True, if m_acceptSessionState s1 \<noteq> Accept_ABORTED then s1\<lparr>m_acceptSessionState := Accept_DISCONNECTED\<rparr> else s1)))"

definition TryAcquireSlot :: "AcceptSession \<Rightarrow> bool \<times> AcceptSession" where
  "TryAcquireSlot s = (\<not> m_slotOwned s, s\<lparr>m_slotOwned := True\<rparr>)"

definition ReleaseSlot :: "('p, 'z) AcceptNet \<Rightarrow> ('p, 'z) AcceptNet" where
  "ReleaseSlot = (\<lambda>(s, w). (s\<lparr>m_slotOwned := False\<rparr>, if m_slotOwned s then w else violation w))"

section \<open>The pool of slots\<close>

record 'p AcceptWorld = "'p PoolWorld" +
  as_sessions :: "AcceptSession list"
  as_capacity :: u32
  as_closeSocketFunc :: bool
  as_ready :: bool

definition put_accept :: "nat \<Rightarrow> AcceptSession \<times> ('p, 'y) AcceptWorld_scheme \<Rightarrow> ('p, 'y) AcceptWorld_scheme" where
  "put_accept i = (\<lambda>(s, w). w\<lparr>as_sessions := (as_sessions w)[i := s]\<rparr>)"

primrec init_accepts :: "nat \<Rightarrow> (nat \<Rightarrow> bool) \<Rightarrow> nat \<Rightarrow> ('p, 'y) AcceptWorld_scheme \<Rightarrow> bool \<times> ('p, 'y) AcceptWorld_scheme" where
  "init_accepts 0 eventCreated i w = (True, w)"
| "init_accepts (Suc n) eventCreated i w =
     (case AcceptSession_Initialize (eventCreated i) ROLE_ACCEPT (of_nat i) (as_sessions w ! i) of
        (False, s) \<Rightarrow> (False, violation (put_accept i (s, w)))
      | (True, s) \<Rightarrow> init_accepts n eventCreated (i + 1) (put_accept i (s, w)))"

definition AcceptSessionPool_create :: "(nat \<Rightarrow> bool) \<Rightarrow> u32 \<Rightarrow> ('p, 'y) AcceptWorld_scheme \<Rightarrow> ('p, 'y) AcceptWorld_scheme" where
  "AcceptSessionPool_create eventCreated capacity w =
     (case init_accepts (unat capacity) eventCreated 0
             (w\<lparr>as_capacity := capacity, as_sessions := replicate (unat capacity) new_AcceptSession, as_closeSocketFunc := False,
                as_ready := False\<rparr>) of
        (ok, w') \<Rightarrow> w'\<lparr>as_ready := ok\<rparr>)"

definition AcceptSessionPool_GetSession :: "u32 \<Rightarrow> ('p, 'y) AcceptWorld_scheme \<Rightarrow> nat option" where
  "AcceptSessionPool_GetSession sessionId w =
     (if sessionId \<ge> 4294967295 then None else if sessionId \<ge> as_capacity w then None else Some (unat sessionId))"

definition AcceptSessionPool_GetOutstandingIOCount :: "('p, 'y) AcceptWorld_scheme \<Rightarrow> u32" where
  "AcceptSessionPool_GetOutstandingIOCount w =
     sum_list (map (\<lambda>s. if m_ioCount s > 0 then of_int (m_ioCount s) else 0) (as_sessions w))"

definition cancel_accept :: "AcceptSession \<times> ('p, 'y) AcceptWorld_scheme \<Rightarrow> AcceptSession \<times> ('p, 'y) AcceptWorld_scheme" where
  "cancel_accept = (\<lambda>(s, w).
     if m_clientSocket s = None then (s, w)
     else
       (let (s1, w1) = (case BaseSession_CancelPendingIO id (s, w) of
                          (True, sw) \<Rightarrow> sw
                        | (False, s', w') \<Rightarrow> (s', violation w'))
        in if as_closeSocketFunc w1 then (case DetachSocket s1 of (socket, s2) \<Rightarrow> (s2, CloseSocketHandle socket w1)) else (s1, w1)))"

definition RequestAllAcceptIOCancel :: "('p, 'y) AcceptWorld_scheme \<Rightarrow> ('p, 'y) AcceptWorld_scheme" where
  "RequestAllAcceptIOCancel w = fold (\<lambda>i w. put_accept i (cancel_accept (as_sessions w ! i, w))) [0..<length (as_sessions w)] w"

text \<open>The slots are all waited for and reset, whether or not a wait fails.\<close>

primrec wait_accepts ::
  "nat list \<Rightarrow> (nat \<Rightarrow> (u32 \<Rightarrow> AcceptSession \<times> ('p, 'y) AcceptWorld_scheme \<Rightarrow>
     wait_result \<times> AcceptSession \<times> ('p, 'y) AcceptWorld_scheme) list) \<Rightarrow> u32 \<Rightarrow> bool \<Rightarrow>
     ('p, 'y) AcceptWorld_scheme \<Rightarrow> (bool \<times> ('p, 'y) AcceptWorld_scheme) option" where
  "wait_accepts [] waits timeout allCompleted w = Some (allCompleted, w)"
| "wait_accepts (i # is) waits timeout allCompleted w =
     (if m_acceptSessionState (as_sessions w ! i) = Accept_READY then wait_accepts is waits timeout allCompleted w
      else
        (case WaitForIOCancelComplete (waits i) id timeout (as_sessions w ! i, w) of
           None \<Rightarrow> None
         | Some (ok, s, w1) \<Rightarrow>
             wait_accepts is waits timeout (allCompleted \<and> ok)
               (put_accept i (AcceptSession_ResetSession (s, if ok then w1 else violation w1)))))"

definition WaitForAllAcceptIOCancelComplete ::
  "(nat \<Rightarrow> (u32 \<Rightarrow> AcceptSession \<times> ('p, 'y) AcceptWorld_scheme \<Rightarrow> wait_result \<times> AcceptSession \<times> ('p, 'y) AcceptWorld_scheme) list) \<Rightarrow> u32 \<Rightarrow>
     ('p, 'y) AcceptWorld_scheme \<Rightarrow> (bool \<times> ('p, 'y) AcceptWorld_scheme) option" where
  "WaitForAllAcceptIOCancelComplete waits timeout w = wait_accepts [0..<length (as_sessions w)] waits timeout True w"

definition close_leftover :: "AcceptSession \<times> ('p, 'y) AcceptWorld_scheme \<Rightarrow> AcceptSession \<times> ('p, 'y) AcceptWorld_scheme" where
  "close_leftover = (\<lambda>(s, w).
     if m_clientSocket s = None then (s, w)
     else if as_closeSocketFunc w
     then (case DetachSocket s of (socket, s1) \<Rightarrow> (s1, CloseSocketHandle socket (violation w)))
     else (s, violation w))"

definition CloseLeftoverSockets :: "('p, 'y) AcceptWorld_scheme \<Rightarrow> ('p, 'y) AcceptWorld_scheme" where
  "CloseLeftoverSockets w = fold (\<lambda>i w. put_accept i (close_leftover (as_sessions w ! i, w))) [0..<length (as_sessions w)] w"

section \<open>The session manager\<close>

text \<open>Its other members pass the call on to the pool that has it.\<close>

definition SessionManager_Initialize ::
  "('p, ('p, 'y AcceptWorld_ext) PoolNet) Env \<Rightarrow> (nat \<Rightarrow> bool) \<Rightarrow> (nat \<Rightarrow> bool) \<Rightarrow> (nat \<Rightarrow> nat \<Rightarrow> bytes option) \<Rightarrow> bool \<Rightarrow> bool \<Rightarrow> bool \<Rightarrow>
     SessionBufferConfig \<Rightarrow> u32 \<Rightarrow> u32 \<Rightarrow> ('p, 'y) AcceptWorld_scheme \<Rightarrow> bool \<times> ('p, 'y) AcceptWorld_scheme" where
  "SessionManager_Initialize env acceptEvent clientEvent alloc sendQueuePool packetPool generalPool bufferConfig acceptSessionCount
     clientSessionCount w =
     (let w1 = AcceptSessionPool_create acceptEvent acceptSessionCount w in
      if \<not> as_ready w1 then (False, w1)
      else
        (let w2 = ClientSessionPool_create env clientEvent alloc sendQueuePool packetPool generalPool bufferConfig clientSessionCount
                    (w1\<lparr>as_closeSocketFunc := True\<rparr>)
         in if \<not> cp_ready w2 then (False, w2) else (True, SetEventHandler (w2\<lparr>cp_closeSocketFunc := True\<rparr>))))"

definition GetAcceptSession :: "u32 \<Rightarrow> ('p, 'y) AcceptWorld_scheme \<Rightarrow> nat option" where
  "GetAcceptSession sessionId w = (if sessionId \<ge> as_capacity w then None else AcceptSessionPool_GetSession sessionId w)"

definition GetClientSession :: "u32 \<Rightarrow> ('p, 'y) AcceptWorld_scheme \<Rightarrow> nat option" where
  "GetClientSession sessionId w = (if sessionId \<ge> cp_capacity w then None else GetSession sessionId w)"

definition SessionManager_GetOutstandingIOCount :: "('p, 'y) AcceptWorld_scheme \<Rightarrow> u32" where
  "SessionManager_GetOutstandingIOCount w = AcceptSessionPool_GetOutstandingIOCount w + GetOutstandingIOCount w"

end
