(* ===== verification/Server.thy ===== *)
theory Server
  imports Accept
begin

text \<open>
  The server's side of the I/O completions, \<open>Core/IOCPServer\<close>: accepting connections, the connect sequence, receiving and dispatching packets,
  authentication, send completions, errors and shutdown. The service derived from \<open>IOCPServer\<close> is a parameter. One completion is handled at
  a time; the interleaving inside a session is the subject of the protocol theories.
\<close>

section \<open>State\<close>

text \<open>
  \<open>m_serverSocket\<close>, the shutdown flag, the accounting of accepts, the configuration; the answers of \<open>WSASocket\<close>, and the accepts that were
  posted, with slot and socket.
\<close>

record 'p ServerWorld = "'p AcceptWorld" +
  m_serverSocket :: "nat option"
  m_serverShutdownRequested :: bool
  m_postedAcceptCount :: int
  m_desiredAcceptCount :: u32
  m_acceptStarvationReported :: bool
  m_connectionPolicy :: ConnectionPolicyConfig
  m_heartbeatConfig :: HeartbeatConfig
  nw_newSockets :: "nat \<Rightarrow> nat option"
  nw_socketCalls :: nat
  nw_accepts :: "(u32 \<times> nat) list"

type_synonym ('p, 'y) SlotNet = "AcceptSession \<times> ('p, 'y) ServerWorld_scheme"

type_synonym ('p, 'y) ServerNet = "ClientSession \<times> ('p, 'y) ServerWorld_scheme"

text \<open>The hooks of the service. \<open>OnReceive\<close> is given the packet and owns it.\<close>

record 'w Service =
  OnClientConnect :: "'w \<Rightarrow> 'w"
  OnReceive :: "u16 \<Rightarrow> addr \<Rightarrow> u32 \<Rightarrow> 'w \<Rightarrow> 'w"
  OnSend :: "u32 \<Rightarrow> 'w \<Rightarrow> 'w"

abbreviation ERROR_CONNECTION_ABORTED :: nat where "ERROR_CONNECTION_ABORTED \<equiv> 1236"

definition IsConnectionDeadError :: "nat \<Rightarrow> bool" where
  "IsConnectionDeadError errorCode \<longleftrightarrow>
     errorCode \<in> {WSAECONNRESET, WSAECONNABORTED, WSAENOTCONN, WSAESHUTDOWN, ERROR_NETNAME_DELETED, ERROR_CONNECTION_ABORTED}"

definition WSASocket :: "('p, 'y) ServerWorld_scheme \<Rightarrow> nat option \<times> ('p, 'y) ServerWorld_scheme" where
  "WSASocket w = (nw_newSockets w (nw_socketCalls w), w\<lparr>nw_socketCalls := nw_socketCalls w + 1\<rparr>)"

section \<open>Posting accepts\<close>

text \<open>What the ways out of \<open>PostAccept\<close> share: taking the socket off the slot and closing it.\<close>

definition close_slot_socket :: "('p, 'y) SlotNet \<Rightarrow> ('p, 'y) SlotNet" where
  "close_slot_socket = (\<lambda>(s, w). case DetachSocket s of (socket, s1) \<Rightarrow> (s1, CloseSocketHandle socket w))"

definition drop_connection :: "('p, 'y) SlotNet \<Rightarrow> ('p, 'y) SlotNet" where
  "drop_connection sw =
     (case close_slot_socket sw of (s1, w1) \<Rightarrow>
        (case AcceptSession_OnDisconnect s1 of (ok, s2) \<Rightarrow> (s2, if ok then w1 else violation w1)))"

definition undo_accept :: "('p, 'y) SlotNet \<Rightarrow> ('p, 'y) SlotNet" where
  "undo_accept sw =
     (let (s1, w1) = DecrementIO accept_env sw;
          (s2, w2) = close_slot_socket (s1\<lparr>m_acceptSessionState := Accept_ABORTED\<rparr>, w1)
      in (ResetForRepost s2, w2))"

definition PostAccept :: "('p, 'y) SlotNet \<Rightarrow> bool \<times> ('p, 'y) SlotNet" where
  "PostAccept = (\<lambda>(s, w).
     if m_serverShutdownRequested w then (case drop_connection (s, w) of (s1, w1) \<Rightarrow> (False, ResetForRepost s1, w1))
     else
       (case WSASocket w of
          (None, w1) \<Rightarrow> (False, s, w1)
        | (Some clientSocket, w1) \<Rightarrow>
            (let s1 = IncrementIO (s\<lparr>m_clientSocket := Some clientSocket\<rparr>) in
             if m_serverShutdownRequested w1 then (False, undo_accept (s1, w1))
             else
               (let s2 = s1\<lparr>m_acceptSessionState := Accept_WAIT\<rparr> in
                case ask_os w1 of (answer, w2) \<Rightarrow>
                  (case post_failed answer of
                     Some nError \<Rightarrow> (False, undo_accept (s2, w2))
                   | None \<Rightarrow> (True, s2, w2\<lparr>nw_accepts := nw_accepts w2 @ [(m_sessionId s2, clientSocket)],
                                          m_postedAcceptCount := m_postedAcceptCount w2 + 1\<rparr>))))))"

definition ReportAcceptStarvationIfNeeded :: "('p, 'y) ServerWorld_scheme \<Rightarrow> ('p, 'y) ServerWorld_scheme" where
  "ReportAcceptStarvationIfNeeded w =
     (if m_serverShutdownRequested w then w
      else if m_postedAcceptCount w \<noteq> 0 then w
      else if m_acceptStarvationReported w then w
      else violation (w\<lparr>m_acceptStarvationReported := True\<rparr>))"

text \<open>The end of every way through \<open>HandleAccept\<close>: post the next accept or give the slot up, then count down.\<close>

definition repost :: "('p, 'y) SlotNet \<Rightarrow> bool \<times> ('p, 'y) SlotNet" where
  "repost sw =
     (case PostAccept sw of (posted, sw1) \<Rightarrow>
        (case DecrementIO accept_env (if posted then sw1 else ReleaseSlot sw1) of (s2, w2) \<Rightarrow>
           (posted, s2, ReportAcceptStarvationIfNeeded w2)))"

definition reject_accept :: "('p, 'y) SlotNet \<Rightarrow> bool \<times> ('p, 'y) SlotNet" where
  "reject_accept sw = (case drop_connection sw of (s1, w1) \<Rightarrow> repost (ResetForRepost s1, w1))"

primrec PrepareAccept_from :: "nat list \<Rightarrow> ('p, 'y) ServerWorld_scheme \<Rightarrow> bool \<times> ('p, 'y) ServerWorld_scheme" where
  "PrepareAccept_from [] w = (True, w)"
| "PrepareAccept_from (i # is) w =
     (case GetAcceptSession (of_nat i) w of
        None \<Rightarrow> (False, w)
      | Some j \<Rightarrow>
          (let s = as_sessions w ! j in
           if m_sessionRole s \<noteq> ROLE_ACCEPT then (False, w)
           else if m_acceptSessionState s \<noteq> Accept_READY then (False, w)
           else
             (case TryAcquireSlot s of
                (False, s1) \<Rightarrow> (False, violation (put_accept j (s1, w)))
              | (True, s1) \<Rightarrow>
                  (case PostAccept (s1, w) of
                     (False, sw) \<Rightarrow> (False, put_accept j (ReleaseSlot sw))
                   | (True, sw) \<Rightarrow> PrepareAccept_from is (put_accept j sw)))))"

definition PrepareAccept :: "('p, 'y) ServerWorld_scheme \<Rightarrow> bool \<times> ('p, 'y) ServerWorld_scheme" where
  "PrepareAccept w = PrepareAccept_from [0..<unat (as_capacity w)] w"

primrec refill_from :: "nat list \<Rightarrow> u32 \<Rightarrow> ('p, 'y) ServerWorld_scheme \<Rightarrow> u32 \<times> ('p, 'y) ServerWorld_scheme" where
  "refill_from [] refilled w = (refilled, w)"
| "refill_from (i # is) refilled w =
     (case GetAcceptSession (of_nat i) w of
        None \<Rightarrow> refill_from is refilled w
      | Some j \<Rightarrow>
          (case TryAcquireSlot (as_sessions w ! j) of
             (False, s1) \<Rightarrow> refill_from is refilled (put_accept j (s1, w))
           | (True, s1) \<Rightarrow>
               (case PostAccept (s1, w) of
                  (False, sw) \<Rightarrow> (refilled, put_accept j (ReleaseSlot sw))
                | (True, sw) \<Rightarrow> refill_from is (refilled + 1) (put_accept j sw))))"

definition RefillAcceptSlots :: "('p, 'y) ServerWorld_scheme \<Rightarrow> ('p, 'y) ServerWorld_scheme" where
  "RefillAcceptSlots w =
     (if m_serverShutdownRequested w then w
      else
        (case refill_from [0..<unat (as_capacity w)] 0 w of
           (refilled, w1) \<Rightarrow> if refilled > 0 then w1\<lparr>m_acceptStarvationReported := False\<rparr> else w1))"

definition GetPostedAcceptCount :: "('p, 'y) ServerWorld_scheme \<Rightarrow> u32" where
  "GetPostedAcceptCount w = (if m_postedAcceptCount w < 0 then 0 else of_int (m_postedAcceptCount w))"

section \<open>Authentication\<close>

datatype SystemPacketResult = System_Ok | System_Rejected | System_Failed

definition SendSystemAuthResponse :: "('p, ('p, 'y) ServerNet) Env \<Rightarrow> SYSTEM_AUTH_RESULT \<Rightarrow> ('p, 'y) ServerNet \<Rightarrow> bool \<times> ('p, 'y) ServerNet" where
  "SendSystemAuthResponse env authResult = (\<lambda>(s, w).
     if \<not> IsTransportConnected s then (False, s, w)
     else send_system env (auth_response_bytes (new_auth_response\<lparr>ars_authResult := auth_code authResult,
            ars_heartbeatIntervalMs := (if timeout_ms (m_heartbeatConfig w) \<noteq> 0 then ucast (checkInterval_ms (m_heartbeatConfig w)) else 0)\<rparr>))
            (s, w))"

text \<open>The answer to a refused request goes out before the session is given back, and its result is not looked at.\<close>

definition refuse :: "('p, ('p, 'y) ServerNet) Env \<Rightarrow> DisconnectReason \<Rightarrow> SYSTEM_AUTH_RESULT \<Rightarrow> ('p, 'y) ServerNet \<Rightarrow>
     SystemPacketResult \<times> ('p, 'y) ServerNet" where
  "refuse env reason authResult = (\<lambda>(s, w).
     (System_Rejected, snd (SendSystemAuthResponse env authResult (NoteDisconnectReason reason s, w))))"

definition HandleSystemPacket ::
  "('p, ('p, 'y) ServerNet) Env \<Rightarrow> u16 \<Rightarrow> addr \<Rightarrow> u32 \<Rightarrow> ('p, 'y) ServerNet \<Rightarrow> SystemPacketResult \<times> ('p, 'y) ServerNet" where
  "HandleSystemPacket env i packetData sz = (\<lambda>(s, w).
     if i = CS_SYSTEM_AUTH_REQUEST then
       (if sz \<noteq> of_nat sizeof_AUTH_REQUEST then (System_Failed, s, w)
        else if m_serverSessionState s \<noteq> Server_CONNECTED \<and> m_serverSessionState s \<noteq> Server_AUTH_PENDING
        then refuse env AuthRejectedInvalidState INVALID_STATE (s, w)
        else if arq_protocolVersion (auth_request_of (nw_mem w packetData)) \<noteq> IOCP_ENGINE_PROTOCOL_VERSION
        then refuse env AuthRejectedProtocolMismatch PROTOCOL_MISMATCH (s, w)
        else if serviceCapacity (m_connectionPolicy w) > 0 \<and> GetInUseCount w > serviceCapacity (m_connectionPolicy w)
        then refuse env AuthRejectedServerFull SERVER_FULL (s, w)
        else
          (case SendSystemAuthResponse env AUTH_SUCCESS (s\<lparr>m_serverSessionState := Server_AUTH_PENDING\<rparr>, w) of
             (False, sw) \<Rightarrow> (System_Failed, sw)
           | (True, s1, w1) \<Rightarrow> (System_Ok, s1\<lparr>m_serverSessionState := Server_ESTABLISHED\<rparr>, w1)))
     else if i = CS_SYSTEM_HEARTBEAT_RESPONSE then
       (if sz \<noteq> of_nat sizeof_HEARTBEAT then (System_Failed, s, w)
        else if \<not> IsEstablished s then (System_Failed, s, w)
        else (System_Ok, UpdateLastHeartbeatTick (nw_now w) s, w))
     else (System_Failed, s, w))"

section \<open>Receiving\<close>

text \<open>
  The packet loop of \<open>HandleRecv\<close>: one round, which leaves the loop (\<open>Inl\<close>, with whether the session is to be given back) or goes on, and the
  loop. Each round takes at least a header out of the ring, so the number of stored bytes bounds the rounds: it is the fuel, and
  \<open>receive_loop_ends\<close> in \<open>Dispatch\<close> shows that it suffices.
\<close>

definition release_to_pool :: "('p, 'w) Env \<Rightarrow> addr \<Rightarrow> ('p, 'z) NetWorld_scheme \<Rightarrow> ('p, 'z) NetWorld_scheme" where
  "release_to_pool env a w = set_send (ReleasePacket (ev_release env) (Some a) (nw_send w)) w"

definition recv_next ::
  "('p, ('p, 'y) ServerNet) Env \<Rightarrow> ('p, 'y) ServerNet Service \<Rightarrow> ('p, 'y) ServerNet \<Rightarrow> (bool \<times> ('p, 'y) ServerNet) + ('p, 'y) ServerNet" where
  "recv_next env service = (\<lambda>(s, w).
     (let recvBuf = the (m_recvPacketBuffer s) in
      if rb_IsEmpty recvBuf then Inl (False, s, w)
      else
        (case ReadPacket (ev_acquire env) (w_packetPool (nw_send w)) recvBuf of (readResult, out, p, b) \<Rightarrow>
           (let s1 = s\<lparr>m_recvPacketBuffer := Some b\<rparr>; w1 = set_send ((nw_send w)\<lparr>w_packetPool := p\<rparr>) w in
            case readResult of
              NeedMoreData \<Rightarrow> Inl (False, s1, w1)
            | Invalid \<Rightarrow> Inl (True, NoteDisconnectReason ProtocolError s1, w1)
            | OutOfMemory \<Rightarrow> Inl (True, NoteDisconnectReason ResourceExhausted s1, w1)
            | Read_Ok \<Rightarrow>
                (let a = fst (the (po_buffer out)); i = po_packetId out; w2 = write_mem a (snd (the (po_buffer out))) w1 in
                 if \<not> IsValidPacketId i then Inl (True, NoteDisconnectReason ProtocolError s1, release_to_pool env a w2)
                 else if IsSystemPacketId i then
                   (case HandleSystemPacket env i a (po_size out) (s1, w2) of (systemResult, s3, w3) \<Rightarrow>
                      (let w4 = release_to_pool env a w3 in
                       if systemResult = System_Rejected then Inl (True, s3, w4)
                       else if systemResult \<noteq> System_Ok then Inl (True, NoteDisconnectReason ProtocolError s3, w4)
                       else Inr (s3, w4)))
                 else if \<not> IsEstablished s1 then Inl (True, NoteDisconnectReason UnexpectedPacket s1, release_to_pool env a w2)
                 else Inr (OnReceive service i a (po_size out) (s1, w2)))))))"

primrec recv_loop ::
  "nat \<Rightarrow> ('p, ('p, 'y) ServerNet) Env \<Rightarrow> ('p, 'y) ServerNet Service \<Rightarrow> ('p, 'y) ServerNet \<Rightarrow> bool \<times> ('p, 'y) ServerNet" where
  "recv_loop 0 env service sw = (False, sw)"
| "recv_loop (Suc n) env service sw =
     (case recv_next env service sw of Inl r \<Rightarrow> r | Inr sw' \<Rightarrow> recv_loop n env service sw')"

definition HandleSessionDisconnected ::
  "('p, ('p, 'y) ServerNet) Env \<Rightarrow> IO_OPERATION \<Rightarrow> ('p, 'y) ServerNet \<Rightarrow> ('p, 'y) ServerNet" where
  "HandleSessionDisconnected env operation = (\<lambda>(s, w).
     if operation = OP_RECV then DecrementIO env (ReleaseClientSession env (NoteDisconnectReason PeerClosed s, w))
     else DecrementIO env (s, violation w))"

definition HandleRecv ::
  "('p, ('p, 'y) ServerNet) Env \<Rightarrow> ('p, 'y) ServerNet Service \<Rightarrow> u32 \<Rightarrow> ('p, 'y) ServerNet \<Rightarrow> ('p, 'y) ServerNet" where
  "HandleRecv env service bytesTransferred = (\<lambda>(s, w).
     if bytesTransferred = 0 then HandleSessionDisconnected env OP_RECV (s, w)
     else
       (let s1 = UpdateLastRecvTick (nw_now w) s in
        case CommitWrite bytesTransferred (the (m_recvPacketBuffer s1)) of
          (False, b) \<Rightarrow> DecrementIO env (s1\<lparr>m_recvPacketBuffer := Some b\<rparr>, violation w)
        | (True, b) \<Rightarrow>
            (let (release1, s2, w2) = recv_loop (Suc (unat (rb_storedSize b))) env service (s1\<lparr>m_recvPacketBuffer := Some b\<rparr>, w);
                 (release2, s3, w3) =
                   (if \<not> release1 \<and> \<not> IsReleasePending s2
                    then (case PostReceiveOrPause env (s2, w2) of
                            (True, sw) \<Rightarrow> (False, sw)
                          | (False, s', w') \<Rightarrow> (True, NoteDisconnectReason ResourceExhausted s', w'))
                    else (release1, s2, w2))
             in DecrementIO env (if release2 then ReleaseClientSession env (s3, w3) else (s3, w3)))))"

definition HandleRecvCancelled :: "('p, ('p, 'y) ServerNet) Env \<Rightarrow> ('p, 'y) ServerNet \<Rightarrow> ('p, 'y) ServerNet" where
  "HandleRecvCancelled env sw = DecrementIO env sw"

section \<open>Sending\<close>

definition HandleSend ::
  "('p, ('p, 'y) ServerNet) Env \<Rightarrow> ('p, 'y) ServerNet Service \<Rightarrow> u32 \<Rightarrow> ('p, 'y) ServerNet \<Rightarrow> ('p, 'y) ServerNet" where
  "HandleSend env service bytesTransferred = (\<lambda>(s, w).
     if m_sessionRole s \<noteq> ROLE_SERVER then DecrementIO env (s, violation w)
     else DecrementIO env (snd (OnSendCompleted env bytesTransferred (OnSend service bytesTransferred (s, w)))))"

definition HandleSendCancelled :: "('p, ('p, 'y) ServerNet) Env \<Rightarrow> ('p, 'y) ServerNet \<Rightarrow> ('p, 'y) ServerNet" where
  "HandleSendCancelled env sw = DecrementIO env sw"

text \<open>The branches of \<open>HandleSocketError\<close> for a receive and a send; the branch for an accept is in \<open>HandleCompletion\<close>.\<close>

definition session_io_error :: "('p, ('p, 'y) ServerNet) Env \<Rightarrow> nat \<Rightarrow> ('p, 'y) ServerNet \<Rightarrow> ('p, 'y) ServerNet" where
  "session_io_error env errorCode = (\<lambda>(s, w).
     if errorCode = ERROR_OPERATION_ABORTED then HandleRecvCancelled env (s, w)
     else
       (let w1 = (if \<not> IsConnectionDeadError errorCode then violation w else w) in
        HandleRecvCancelled env (ReleaseClientSession env (NoteDisconnectReason SocketError s, w1))))"

section \<open>Accepting\<close>

text \<open>Four socket calls in a row, of which each may fail: the accept context, \<open>TCP_NODELAY\<close>, keepalive, and the I/O completion port.\<close>

primrec os_calls :: "nat \<Rightarrow> ('p, 'z) NetWorld_scheme \<Rightarrow> bool \<times> ('p, 'z) NetWorld_scheme" where
  "os_calls 0 w = (True, w)"
| "os_calls (Suc n) w = (case ask_os w of (None, w1) \<Rightarrow> os_calls n w1 | (Some _, w1) \<Rightarrow> (False, w1))"

definition RunAcceptedConnectSequence ::
  "('p, ('p, 'y) ServerNet) Env \<Rightarrow> ('p, 'y) ServerNet Service \<Rightarrow> ('p, 'y) ServerNet \<Rightarrow> bool \<times> ('p, 'y) ServerNet" where
  "RunAcceptedConnectSequence env service = (\<lambda>(s, w).
     if m_serverShutdownRequested w then (False, s, w)
     else
       (case os_calls 4 w of
          (False, w1) \<Rightarrow> (False, s, w1)
        | (True, w1) \<Rightarrow>
            (case OnConnect env (s, w1) of
               (False, sw) \<Rightarrow> (False, sw)
             | (True, s2, w2) \<Rightarrow>
                 (True, OnClientConnect service
                    (MarkServiceConnectNotified s2, w2\<lparr>sv_calls := sv_calls w2 @ [ClientConnect (m_sessionId s2)]\<rparr>)))))"

definition connect_accepted ::
  "('p, ('p, 'y) ServerNet) Env \<Rightarrow> ('p, 'y) ServerNet Service \<Rightarrow> ('p, 'y) ServerNet \<Rightarrow> ('p, 'y) ServerNet" where
  "connect_accepted env service = (\<lambda>(s, w).
     DecrementIO env
       (case RunAcceptedConnectSequence env service (IncrementIO s, w) of
          (True, sw) \<Rightarrow> sw
        | (False, s1, w1) \<Rightarrow> ReleaseClientSession env (NoteDisconnectReason SocketError s1, w1)))"

text \<open>Attaching the accepted socket, with the check that the pool handed out a clean session.\<close>

definition attach_accepted :: "nat option \<Rightarrow> string \<Rightarrow> u16 \<Rightarrow> ('p, 'y) ServerNet \<Rightarrow> ('p, 'y) ServerNet" where
  "attach_accepted acceptedSocket ipAddress port = (\<lambda>(s, w).
     (let w1 = (if m_clientSocket s \<noteq> None \<or> m_serverSessionState s \<noteq> Server_CONNECT_READY then violation w else w) in
      case AttachSocket acceptedSocket (s, w1) of (s1, w2) \<Rightarrow> (SetRemoteAddress (Some ipAddress) port s1, w2)))"

text \<open>\<open>remote\<close> is the address that \<open>GetAcceptExSockaddrs\<close> finds in the slot's buffer, with \<open>None\<close> when it cannot be read.\<close>

definition HandleAccept ::
  "('p, ('p, 'y) ServerNet) Env \<Rightarrow> ('p, 'y) ServerNet Service \<Rightarrow> (string \<times> u16) option \<Rightarrow> u32 \<Rightarrow> ('p, 'y) ServerWorld_scheme \<Rightarrow>
     ('p, 'y) ServerWorld_scheme" where
  "HandleAccept env service remote sessionId w0 =
     (case GetAcceptSession sessionId w0 of
        None \<Rightarrow> w0
      | Some i \<Rightarrow>
          (let s = snd (OnAccept (as_sessions w0 ! i)); w = w0\<lparr>m_postedAcceptCount := m_postedAcceptCount w0 - 1\<rparr>;
               (ip, port) = (case remote of Some r \<Rightarrow> r | None \<Rightarrow> ([], 0)) in
           if m_serverShutdownRequested w
           then put_accept i (ReleaseSlot (AcceptSession_ResetSession (DecrementIO accept_env (drop_connection (s, w)))))
           else if maxConnectionsPerAddress (m_connectionPolicy w) > 0 \<and> ip \<noteq> [] \<and>
                   CountSessionsFromAddress (Some ip) w \<ge> maxConnectionsPerAddress (m_connectionPolicy w)
           then put_accept i (snd (reject_accept (s, w)))
           else if \<not> IsSessionFull w then
             (case ClientSessionPool_Acquire w of
                (None, w1) \<Rightarrow>
                  (case reject_accept (s, w1) of (nextAcceptPosted, sw) \<Rightarrow>
                     if \<not> nextAcceptPosted then put_accept i sw else violation (put_accept i sw))
              | (Some j, w1) \<Rightarrow>
                  (case DetachSocket s of (acceptedSocket, s1) \<Rightarrow>
                     (case repost (s1, on_session j (attach_accepted acceptedSocket ip port) w1) of (nextAcceptPosted, sw) \<Rightarrow>
                        if \<not> nextAcceptPosted then put_accept i sw
                        else on_session j (connect_accepted env service) (put_accept i sw))))
           else put_accept i (snd (reject_accept (s, w)))))"

definition HandleAcceptIOCancelled :: "u32 \<Rightarrow> ('p, 'y) ServerWorld_scheme \<Rightarrow> ('p, 'y) ServerWorld_scheme" where
  "HandleAcceptIOCancelled sessionId w =
     (case GetAcceptSession sessionId w of
        None \<Rightarrow> w
      | Some i \<Rightarrow>
          put_accept i (ReleaseSlot (DecrementIO accept_env
            ((as_sessions w ! i)\<lparr>m_acceptSessionState := Accept_ABORTED\<rparr>, w\<lparr>m_postedAcceptCount := m_postedAcceptCount w - 1\<rparr>))))"

section \<open>Completions\<close>

text \<open>
  \<open>HandleCompletion\<close>, with the call of \<open>HandleSocketError\<close> written out. The overlapped structure gives operation and slot, the key the session;
  \<open>error\<close> is \<open>None\<close> when the completion status is good.
\<close>

definition HandleCompletion ::
  "('p, ('p, 'y) ServerNet) Env \<Rightarrow> ('p, 'y) ServerNet Service \<Rightarrow> (string \<times> u16) option \<Rightarrow> nat option \<Rightarrow> (IO_OPERATION \<times> u32) option \<Rightarrow>
     u32 \<Rightarrow> nat option \<Rightarrow> ('p, 'y) ServerWorld_scheme \<Rightarrow> ('p, 'y) ServerWorld_scheme" where
  "HandleCompletion env service remote completionKey overlapped bytesTransferred error w =
     (case overlapped of
        None \<Rightarrow> w
      | Some (operation, sessionId) \<Rightarrow>
          if operation = OP_ACCEPT then
            (case error of
               None \<Rightarrow> HandleAccept env service remote sessionId w
             | Some errorCode \<Rightarrow>
                 HandleAcceptIOCancelled sessionId (if errorCode = ERROR_OPERATION_ABORTED then w else violation w))
          else if operation = OP_RECV \<or> operation = OP_SEND then
            (case completionKey of
               None \<Rightarrow> violation w
             | Some j \<Rightarrow>
                 on_session j
                   (case error of
                      Some errorCode \<Rightarrow> session_io_error env errorCode
                    | None \<Rightarrow> if operation = OP_RECV then HandleRecv env service bytesTransferred else HandleSend env service bytesTransferred) w)
          else violation w)"

section \<open>Start\<close>

definition CreateListenSocket :: "('p, 'y) ServerWorld_scheme \<Rightarrow> bool \<times> ('p, 'y) ServerWorld_scheme" where
  "CreateListenSocket w =
     (case WSASocket w of
        (None, w1) \<Rightarrow> (False, w1\<lparr>m_serverSocket := None\<rparr>)
      | (Some x, w1) \<Rightarrow> os_calls 1 (w1\<lparr>m_serverSocket := Some x\<rparr>))"

text \<open>\<open>address\<close> is the answer of \<open>inet_pton\<close> for the bind address, with \<open>None\<close> when no address was given.\<close>

definition BindServerSocket :: "bool option \<Rightarrow> ('p, 'z) NetWorld_scheme \<Rightarrow> bool \<times> ('p, 'z) NetWorld_scheme" where
  "BindServerSocket address w = (if address = Some False then (False, w) else os_calls 1 w)"

definition ListenServerSocket :: "('p, 'z) NetWorld_scheme \<Rightarrow> bool \<times> ('p, 'z) NetWorld_scheme" where
  "ListenServerSocket w = os_calls 1 w"

definition InitializeGUIDAcceptEx :: "('p, 'z) NetWorld_scheme \<Rightarrow> bool \<times> ('p, 'z) NetWorld_scheme" where
  "InitializeGUIDAcceptEx w = os_calls 2 w"

definition accept_slot_count :: "u32 \<Rightarrow> u32" where
  "accept_slot_count maxConnectionCount =
     (let n = (if maxConnectionCount < 16 then maxConnectionCount else 16) in if n = 0 then 1 else n)"

text \<open>
  \<open>StartServer\<close>. What it makes outside this theory is given by whether it could be made: the I/O core, the memory pools with the ready ring and
  the scheduler (\<open>Config\<close>, \<open>Scheduler\<close>), the heartbeat thread.
\<close>

definition StartServer ::
  "('p, ('p, 'y) ServerNet) Env \<Rightarrow> (nat \<Rightarrow> bool) \<Rightarrow> (nat \<Rightarrow> bool) \<Rightarrow> (nat \<Rightarrow> nat \<Rightarrow> bytes option) \<Rightarrow> bool \<Rightarrow> bool \<Rightarrow> bool \<Rightarrow> bool option \<Rightarrow>
     u32 \<Rightarrow> SessionBufferConfig \<Rightarrow> ConnectionPolicyConfig \<Rightarrow> HeartbeatConfig \<Rightarrow> ('p, 'y) ServerWorld_scheme \<Rightarrow>
     bool \<times> ('p, 'y) ServerWorld_scheme" where
  "StartServer env acceptEvent clientEvent alloc coreStarted poolsMade heartbeatStarted address maxConnectionCount bufferConfig policyConfig
     heartbeatConfig w =
     (if \<not> SessionBufferConfig_IsValid bufferConfig then (False, w)
      else if serviceCapacity policyConfig > maxConnectionCount then (False, w)
      else if \<not> HeartbeatConfig_IsValid heartbeatConfig then (False, w)
      else
        (let w1 = w\<lparr>m_connectionPolicy := policyConfig, m_heartbeatConfig := heartbeatConfig, m_serverShutdownRequested := False,
                    m_acceptStarvationReported := False, m_postedAcceptCount := 0\<rparr> in
         if \<not> coreStarted then (False, w1)
         else
           (case CreateListenSocket w1 of
              (False, w2) \<Rightarrow> (False, w2)
            | (True, w2) \<Rightarrow>
                (case BindServerSocket address w2 of
                   (False, w3) \<Rightarrow> (False, w3)
                 | (True, w3) \<Rightarrow>
                     (case ListenServerSocket w3 of
                        (False, w4) \<Rightarrow> (False, w4)
                      | (True, w4) \<Rightarrow>
                          (case InitializeGUIDAcceptEx w4 of
                             (False, w5) \<Rightarrow> (False, w5)
                           | (True, w5) \<Rightarrow>
                               if \<not> poolsMade then (False, w5)
                               else
                                 (let n = accept_slot_count maxConnectionCount; w6 = w5\<lparr>m_desiredAcceptCount := n\<rparr> in
                                  case SessionManager_Initialize env acceptEvent clientEvent alloc True True True bufferConfig n
                                         maxConnectionCount w6 of
                                    (False, w7) \<Rightarrow> (False, w7)
                                  | (True, w7) \<Rightarrow>
                                      (case PrepareAccept (w7\<lparr>cp_disconnectNotifyFunc := True\<rparr>) of
                                         (False, w8) \<Rightarrow> (False, w8)
                                       | (True, w8) \<Rightarrow> (heartbeatStarted, w8)))))))))"

section \<open>Shutdown\<close>

definition CancelAllAcceptIO :: "('p, 'y) ServerWorld_scheme \<Rightarrow> bool \<times> ('p, 'y) ServerWorld_scheme" where
  "CancelAllAcceptIO w =
     (if m_serverSocket w = None then (True, w)
      else
        (case ask_os w of
           (None, w1) \<Rightarrow> (True, w1)
         | (Some error, w1) \<Rightarrow> (error = ERROR_NOT_FOUND \<or> error = ERROR_INVALID_HANDLE, w1)))"

definition DestroyListenSocket :: "('p, 'y) ServerWorld_scheme \<Rightarrow> ('p, 'y) ServerWorld_scheme" where
  "DestroyListenSocket w = (CloseSocketHandle (m_serverSocket w) w)\<lparr>m_serverSocket := None\<rparr>"

text \<open>
  \<open>StopServer\<close> up to the closing of the listen socket; what follows only deletes objects. \<open>None\<close> while one of its waits has not ended.
\<close>

definition StopServer ::
  "('p, ('p, 'y) ServerNet) Env \<Rightarrow>
     (nat \<Rightarrow> (u32 \<Rightarrow> ('p, 'y) SlotNet \<Rightarrow> wait_result \<times> ('p, 'y) SlotNet) list) \<Rightarrow>
     (nat \<Rightarrow> (u32 \<Rightarrow> ('p, 'y) ServerNet \<Rightarrow> wait_result \<times> ('p, 'y) ServerNet) list) \<Rightarrow>
     ('p, 'y) ServerWorld_scheme \<Rightarrow> ('p, 'y) ServerWorld_scheme option" where
  "StopServer env acceptWaits clientWaits w =
     (case WaitForAllAcceptIOCancelComplete acceptWaits 10000 (RequestAllAcceptIOCancel (w\<lparr>m_serverShutdownRequested := True\<rparr>)) of
        None \<Rightarrow> None
      | Some (_, w1) \<Rightarrow>
          (case WaitForAllRecvSendIOCancelComplete env clientWaits 10000 (RequestAllRecvSendIOCancel env w1) of
             None \<Rightarrow> None
           | Some (_, w2) \<Rightarrow>
               (case CancelAllAcceptIO (DisconnectAllSessions env w2) of
                  (ok, w3) \<Rightarrow> Some (DestroyListenSocket (if ok then w3 else violation w3)))))"

end
