(* ===== verification/ServerAccounts.thy ===== *)
theory ServerAccounts
  imports Accounting Server
begin

text \<open>
  The accounts of \<open>Accounting\<close> through the server's completion handlers, and the invariant of the whole server over any history of completions,
  calls of the service and rounds of the heartbeat thread.
\<close>

section \<open>More on the accounts\<close>

lemma acct_rebase:
  assumes "acct i r0 h c k dr ds (s, w)" and "b \<longrightarrow> 0 < h"
  shows "acct i (b, s, w) h c k dr ds (s, w)"
  using assms by (simp add: acct_def acct_base_def held_def ring_posted_def)

lemma acct_others: "acct i r0 h c k dr ds (s, w) \<Longrightarrow> others_same i (snd (snd r0)) w"
  by (simp add: acct_def acct_base_def)

lemma acct_reason:
  assumes "acct i (True, s0, w0) h c k dr ds (s, w)"
  shows "m_disconnectReason s0 \<noteq> Unknown \<Longrightarrow> m_disconnectReason s \<noteq> Unknown"
    and "m_serviceConnectNotified s = m_serviceConnectNotified s0"
  using assms by (auto simp: acct_def acct_base_def held_def ring_posted_def)

lemma others_same_trans: "others_same i w1 w2 \<Longrightarrow> others_same i w2 w3 \<Longrightarrow> others_same i w1 w3"
  by (simp add: others_same_def)

text \<open>While somebody holds the link of the chain, the state of the connection may change freely.\<close>

lemma acct_set_state:
  assumes A: "acct i r0 h 1 k dr ds (s, w)" and nf: "pool_state (s, w) \<noteq> SESSION_POOL_FREE"
    and v: "sess_view s' = sess_view (s\<lparr>m_serverSessionState := x\<rparr>)"
  shows "acct i r0 h 1 k dr ds (s', w)"
proof -
  note f = sess_viewD [OF v]
  have id: "m_sessionId s = i" using A by (simp add: acct_def acct_base_def)
  from A nf id show ?thesis unfolding acct_iff acct_base_def held_def ring_posted_def by (simp add: f(1-11,13))
qed

lemma sess_view_ticks [simp]:
  "sess_view (UpdateLastRecvTick t s) = sess_view s" "sess_view (UpdateLastHeartbeatTick t s) = sess_view s"
  by (simp_all add: UpdateLastRecvTick_def UpdateLastHeartbeatTick_def sess_view_def)

lemma pool_view_server [simp]:
  "pool_view (write_mem a bs w) = pool_view w" "pool_view (release_to_pool env a w) = pool_view w"
  by (simp_all add: write_mem_def release_to_pool_def)

text \<open>What the hooks of the service may do with a session: they keep its accounts, as every operation of the engine that they can call does.\<close>

definition keeps :: "(('p, 'y) PoolNet \<Rightarrow> ('p, 'y) PoolNet) \<Rightarrow> bool" where
  "keeps f \<longleftrightarrow> (\<forall>i r0 h c k dr ds s w. acct i r0 h c k dr ds (s, w) \<longrightarrow> c + k \<le> h \<longrightarrow> 0 < h \<longrightarrow> acct i r0 h c k dr ds (f (s, w)))"

lemma keepsD: "keeps f \<Longrightarrow> acct i r0 h c k dr ds (s, w) \<Longrightarrow> c + k \<le> h \<Longrightarrow> 0 < h \<Longrightarrow> acct i r0 h c k dr ds (f (s, w))"
  unfolding keeps_def by blast

section \<open>Authentication\<close>

lemma SendSystemAuthResponse_acct:
  assumes A: "acct i r0 h c k dr ds (s, w)" and h: "c \<le> h" "0 < h" and env: "asks env"
    and S: "SendSystemAuthResponse env res (s, w) = (ok, s', w')"
  shows "acct i r0 h c k dr ds (s', w')"
  using A S send_system_acct [OF A h(1) env acct_not_free [OF A]] h(2) by (auto simp: SendSystemAuthResponse_def split: if_splits)

lemma refuse_acct:
  assumes A: "acct i r0 h c k dr ds (s, w)" and h: "c \<le> h" "0 < h" and env: "asks env" and "reason \<noteq> Unknown"
    and R: "refuse env reason res (s, w) = (r, s', w')"
  shows "acct i r0 h c k dr ds (s', w')" and "m_disconnectReason s' \<noteq> Unknown"
proof -
  let ?s = "NoteDisconnectReason reason s"
  have A1: "acct i r0 h c k dr ds (?s, w)" by (rule NoteDisconnectReason_acct(1) [OF A acct_not_free [OF A]]) (use h in simp)
  obtain ok where S: "SendSystemAuthResponse env res (?s, w) = (ok, s', w')" using R
    by (cases "SendSystemAuthResponse env res (?s, w)") (simp add: refuse_def)
  show "acct i r0 h c k dr ds (s', w')" by (rule SendSystemAuthResponse_acct [OF A1 h env S])
  have "acct i (True, ?s, w) h c k dr ds (s', w')"
    by (rule SendSystemAuthResponse_acct [OF acct_rebase [OF A1] h env S]) (use h in simp)
  from acct_reason(1) [OF this] show "m_disconnectReason s' \<noteq> Unknown" using \<open>reason \<noteq> Unknown\<close> by simp
qed

lemma HandleSystemPacket_acct:
  assumes A: "acct i r0 h 1 k dr ds (s, w)" and h: "1 \<le> h" and env: "asks env"
    and P: "HandleSystemPacket env pid a sz (s, w) = (r, s', w')"
  shows "acct i r0 h 1 k dr ds (s', w') \<and> (r = System_Rejected \<longrightarrow> m_disconnectReason s' \<noteq> Unknown)"
proof -
  have h0: "0 < h" using h by simp
  have nf: "pool_state (s, w) \<noteq> SESSION_POOL_FREE" by (rule acct_not_free [OF A]) (use h in simp)
  note D = P [unfolded HandleSystemPacket_def prod.case]
  show ?thesis
  proof (cases "pid = CS_SYSTEM_AUTH_REQUEST")
    case False
    then show ?thesis using D A acct_same(1) [OF A _ refl nf, of "UpdateLastHeartbeatTick (nw_now w) s"] by (simp split: if_splits) auto
  next
    case auth: True
    show ?thesis
    proof (cases "sz = of_nat sizeof_AUTH_REQUEST")
      case False then show ?thesis using D A auth by auto
    next
      case sz: True
      note refused = refuse_acct [OF A h h0 env, of _ _ r s' w']
      let ?state = "m_serverSessionState s \<noteq> Server_CONNECTED \<and> m_serverSessionState s \<noteq> Server_AUTH_PENDING"
      let ?version = "arq_protocolVersion (auth_request_of (nw_mem w a)) \<noteq> IOCP_ENGINE_PROTOCOL_VERSION"
      let ?full = "serviceCapacity (m_connectionPolicy w) > 0 \<and> GetInUseCount w > serviceCapacity (m_connectionPolicy w)"
      show ?thesis
      proof (cases "?state \<or> ?version \<or> ?full")
        case True
        then have "refuse env AuthRejectedInvalidState INVALID_STATE (s, w) = (r, s', w') \<or>
            refuse env AuthRejectedProtocolMismatch PROTOCOL_MISMATCH (s, w) = (r, s', w') \<or>
            refuse env AuthRejectedServerFull SERVER_FULL (s, w) = (r, s', w')"
          using D auth sz by (cases ?state; cases ?version; cases ?full) simp_all
        then show ?thesis using refused [of AuthRejectedInvalidState INVALID_STATE]
            refused [of AuthRejectedProtocolMismatch PROTOCOL_MISMATCH] refused [of AuthRejectedServerFull SERVER_FULL]
          by (elim disjE) simp_all
      next
        case False
        then have n: "\<not> ?state" "\<not> ?version" "\<not> ?full" by blast+
        obtain ok s1 w1 where S: "SendSystemAuthResponse env AUTH_SUCCESS (s\<lparr>m_serverSessionState := Server_AUTH_PENDING\<rparr>, w) = (ok, s1, w1)"
          by (cases "SendSystemAuthResponse env AUTH_SUCCESS (s\<lparr>m_serverSessionState := Server_AUTH_PENDING\<rparr>, w)")
        then have e: "(if ok then (System_Ok, s1\<lparr>m_serverSessionState := Server_ESTABLISHED\<rparr>, w1) else (System_Failed, s1, w1)) = (r, s', w')"
          using D auth sz by (cases ok) (simp_all only: if_P if_not_P [OF n(1)] if_not_P [OF n(2)] if_not_P [OF n(3)]
              not_not not_True_eq_False refl if_True if_False prod.case bool.case)
        have A1: "acct i r0 h 1 k dr ds (s\<lparr>m_serverSessionState := Server_AUTH_PENDING\<rparr>, w)" by (rule acct_set_state [OF A nf refl])
        have A2: "acct i r0 h 1 k dr ds (s1, w1)" by (rule SendSystemAuthResponse_acct [OF A1 h h0 env S])
        have "pool_state (s1, w1) \<noteq> SESSION_POOL_FREE" by (rule acct_not_free [OF A2]) (use h in simp)
        from acct_set_state [OF A2 this refl] A2 e show ?thesis by (cases ok) auto
      qed
    qed
  qed
qed

section \<open>Receiving\<close>

lemma ReadPacket_inv:
  assumes "rb_inv b" and "ReadPacket acquire p b = (res, out, p', b')"
  shows "rb_inv b'"
  using ReadPacket_spec [OF assms] assms(1) by (auto split: next_packet.splits option.splits prod.splits)

lemma recv_loop_acct:
  assumes "acct i r0 h 1 k dr ds (s, w)" and h: "1 + k \<le> h" and env: "asks env" and service: "\<And>p a n. keeps (OnReceive service p a n)"
    and "recv_loop n env service (s, w) = (rel, s', w')"
  shows "acct i r0 h 1 k dr ds (s', w') \<and> (rel \<longrightarrow> m_disconnectReason s' \<noteq> Unknown)"
  using assms(1,5)
proof (induction n arbitrary: s w)
  case 0 then show ?case by simp
next
  case (Suc n)
  have nf: "pool_state (s, w) \<noteq> SESSION_POOL_FREE" by (rule acct_not_free [OF Suc.prems(1)]) (use h in simp)
  show ?case
  proof (cases "rb_IsEmpty (the (m_recvPacketBuffer s))")
    case True then show ?thesis using Suc.prems by (simp add: recv_next_def)
  next
    case False
    obtain res out p b where R: "ReadPacket (ev_acquire env) (w_packetPool (nw_send w)) (the (m_recvPacketBuffer s)) = (res, out, p, b)"
      by (cases "ReadPacket (ev_acquire env) (w_packetPool (nw_send w)) (the (m_recvPacketBuffer s))")
    let ?s = "s\<lparr>m_recvPacketBuffer := Some b\<rparr>" and ?w1 = "set_send ((nw_send w)\<lparr>w_packetPool := p\<rparr>) w"
    let ?a = "fst (the (po_buffer out))"
    let ?w2 = "write_mem ?a (snd (the (po_buffer out))) ?w1"
    have "ring_ok (Some b)"
      using acct_ring [OF Suc.prems(1)] ReadPacket_inv [OF _ R] ReadPacket_frame(2) [OF R] by (auto simp: ring_ok_def)
    then have A1: "acct i r0 h 1 k dr ds (?s, x)" if "pool_view x = pool_view w" for x
      by (rule acct_set_ring [OF Suc.prems(1) _ nf refl that])
    have N1: "acct i r0 h 1 k dr ds (NoteDisconnectReason q ?s, x)" if x: "pool_view x = pool_view w" for q x
      by (rule NoteDisconnectReason_acct(1) [OF A1 [OF x] acct_not_free [OF A1 [OF x]]]) (use h in simp)
    have q: "m_disconnectReason (NoteDisconnectReason q x) \<noteq> Unknown" if "q \<noteq> Unknown" for q x
      using that by (simp add: NoteDisconnectReason_def)
    note NoteDisconnectReason_sels [simp del]
    note L = Suc.prems(2) [unfolded recv_loop.simps recv_next_def Let_def prod.case, simplified False R if_False prod.case]
    show ?thesis
    proof (cases res)
      case NeedMoreData then show ?thesis using L A1 [of ?w1] by auto
    next
      case Invalid then show ?thesis using L N1 q by auto
    next
      case OutOfMemory then show ?thesis using L N1 q by auto
    next
      case Read_Ok
      show ?thesis
      proof (cases "IsValidPacketId (po_packetId out)")
        case False then show ?thesis using L N1 q Read_Ok by auto
      next
        case valid: True
        show ?thesis
        proof (cases "IsSystemPacketId (po_packetId out)")
          case False
          show ?thesis
          proof (cases "IsEstablished ?s")
            case est: True
            obtain s3 w3 where H: "OnReceive service (po_packetId out) ?a (po_size out) (?s, ?w2) = (s3, w3)" by fastforce
            have "acct i r0 h 1 k dr ds (OnReceive service (po_packetId out) ?a (po_size out) (?s, ?w2))"
              by (rule keepsD [OF service A1]) (use h in simp_all)
            with H have A3: "acct i r0 h 1 k dr ds (s3, w3)" by simp
            show ?thesis by (rule Suc.IH [OF A3]) (use L Read_Ok valid False est H in simp)
          next
            case False
            then show ?thesis using L N1 q Read_Ok valid \<open>\<not> IsSystemPacketId (po_packetId out)\<close> by auto
          qed
        next
          case sys: True
          obtain r s3 w3 where H: "HandleSystemPacket env (po_packetId out) ?a (po_size out) (?s, ?w2) = (r, s3, w3)"
            by (cases "HandleSystemPacket env (po_packetId out) ?a (po_size out) (?s, ?w2)")
          have A3: "acct i r0 h 1 k dr ds (s3, w3) \<and> (r = System_Rejected \<longrightarrow> m_disconnectReason s3 \<noteq> Unknown)"
            by (rule HandleSystemPacket_acct [OF A1 _ env H]) (use h in simp_all)
          let ?w4 = "release_to_pool env ?a w3"
          have A4: "acct i r0 h 1 k dr ds (s3, ?w4)" using A3 acct_view [of ?w4 w3 i r0 h 1 k dr ds s3] by simp
          have nf4: "pool_state (s3, ?w4) \<noteq> SESSION_POOL_FREE" by (rule acct_not_free [OF A4]) (use h in simp)
          show ?thesis
          proof (cases r)
            case System_Ok
            show ?thesis by (rule Suc.IH [OF A4]) (use L Read_Ok valid sys H System_Ok in simp)
          next
            case System_Rejected then show ?thesis using L Read_Ok valid sys H A3 A4 by auto
          next
            case System_Failed
            then show ?thesis using L Read_Ok valid sys H NoteDisconnectReason_acct(1) [OF A4 nf4, of ProtocolError] q by auto
          qed
        qed
      qed
    qed
  qed
qed

text \<open>The last count that a handler holds: what it still knows of the session goes with it.\<close>

lemma acct_unhold: "acct i (b, s0, w0) h c k dr ds sw \<Longrightarrow> acct i (False, s0, w0) h c k dr ds sw"
  by (cases sw) (simp add: acct_def acct_base_def held_def ring_posted_def)

lemma last_count:
  assumes A: "acct i (b, s0, w0) 1 0 k dr ds (s, w)" and env: "asks env" and D: "DecrementIO env (s, w) = (s', w')"
  shows "acct i (False, s0, w0) 0 0 0 dr ds (s', w')"
proof -
  have "acct i (False, s0, w0) (Suc 0) 0 0 dr ds (s, w)" using acct_unhold [OF acct_drop_token [OF A]] by simp
  from DecrementIO_acct(1) [OF this _ _ asks_completes [OF env] D] show ?thesis by simp
qed

lemma ReleaseClientSession_acct:
  assumes A: "acct i r0 h c k dr ds (s, w)" and h: "c + k \<le> h" and reason: "m_disconnectReason s \<noteq> Unknown"
    and R: "ReleaseClientSession env (s, w) = (s', w')"
  shows "acct i r0 h c k dr ds (s', w')" and "pool_state (s', w') \<noteq> SESSION_POOL_IN_USE"
proof -
  have "m_sessionId s < cp_capacity w" using A by (simp add: acct_def acct_base_def)
  then have "ClientSessionPool_Release env (s, w) = (s', w')" using R by (simp add: ReleaseClientSession_def linorder_not_le [THEN iffD2])
  from Release_acct [OF A h reason this]
  show "acct i r0 h c k dr ds (s', w')" "pool_state (s', w') \<noteq> SESSION_POOL_IN_USE" by blast+
qed

lemma give_back:
  assumes A: "acct i (b, s0, w0) 1 c k dr ds (s, w)" and h: "c + k \<le> 1" and reason: "m_disconnectReason s \<noteq> Unknown" and env: "asks env"
    and D: "DecrementIO env (ReleaseClientSession env (s, w)) = (s', w')"
  shows "acct i (False, s0, w0) 0 0 0 dr ds (s', w')"
proof -
  obtain s1 w1 where R: "ReleaseClientSession env (s, w) = (s1, w1)" by fastforce
  note r = ReleaseClientSession_acct [OF A h reason R]
  have "acct i (b, s0, w0) 1 0 k dr ds (s1, w1)" by (rule acct_drop_link [OF r(1)]) (use r(2) in simp)
  from last_count [OF this env] D R show ?thesis by simp
qed

lemma HandleRecv_acct:
  assumes A: "acct i (b, s0, w0) 1 1 0 dr ds (s, w)" and env: "asks env" and service: "\<And>p a n. keeps (OnReceive service p a n)"
    and n: "n = 0 \<or> (\<exists>bf. CommitWrite n (the (m_recvPacketBuffer s)) = (True, bf) \<and> ring_ok (Some bf))" and H: "HandleRecv env service n (s, w) = (s', w')"
  shows "acct i (False, s0, w0) 0 0 0 dr ds (s', w')"
proof -
  have nf: "pool_state (s, w) \<noteq> SESSION_POOL_FREE" using acct_not_free [OF A] by simp
  show ?thesis
  proof (cases "n = 0")
    case True
    have "acct i (b, s0, w0) 1 1 0 dr ds (NoteDisconnectReason PeerClosed s, w)" by (rule NoteDisconnectReason_acct(1) [OF A nf])
    from give_back [OF this _ _ env] H True show ?thesis by (simp add: HandleRecv_def HandleSessionDisconnected_def)
  next
    case False
    obtain bf where C: "CommitWrite n (the (m_recvPacketBuffer s)) = (True, bf)" and bf: "ring_ok (Some bf)" using n False by blast
    let ?s1 = "(UpdateLastRecvTick (nw_now w) s)\<lparr>m_recvPacketBuffer := Some bf\<rparr>"
    have A1: "acct i (b, s0, w0) 1 1 0 dr ds (?s1, w)"
      by (rule acct_set_ring [OF A bf nf _ refl]) (simp add: sess_view_def UpdateLastRecvTick_def)
    obtain rel s2 w2 where L: "recv_loop (Suc (unat (rb_storedSize bf))) env service (?s1, w) = (rel, s2, w2)"
      by (cases "recv_loop (Suc (unat (rb_storedSize bf))) env service (?s1, w)")
    have A2: "acct i (b, s0, w0) 1 1 0 dr ds (s2, w2)" and r2: "rel \<Longrightarrow> m_disconnectReason s2 \<noteq> Unknown"
      using recv_loop_acct [OF A1 _ env service L] by auto
    have m: "m_recvPacketBuffer (UpdateLastRecvTick (nw_now w) s) = m_recvPacketBuffer s" by (simp add: UpdateLastRecvTick_def)
    define after where "after = (if \<not> rel \<and> \<not> IsReleasePending s2
        then (case PostReceiveOrPause env (s2, w2) of
                (True, sw) \<Rightarrow> (False, sw)
              | (False, s', w') \<Rightarrow> (True, NoteDisconnectReason ResourceExhausted s', w'))
        else (rel, s2, w2))"
    obtain rel2 s3 w3 where N: "after = (rel2, s3, w3)" by (cases after)
    have D: "DecrementIO env (if rel2 then ReleaseClientSession env (s3, w3) else (s3, w3)) = (s', w')"
      using H False C L N by (simp add: HandleRecv_def m after_def [symmetric])
    show ?thesis
    proof (cases "\<not> rel \<and> \<not> IsReleasePending s2")
      case True
      obtain ok s4 w4 where P: "PostReceiveOrPause env (s2, w2) = (ok, s4, w4)" by (cases "PostReceiveOrPause env (s2, w2)") auto
      have A4: "acct i (b, s0, w0) 1 (if ok then 0 else 1) 0 dr ds (s4, w4)" by (rule PostReceiveOrPause_acct [OF A2 _ env P]) simp
      show ?thesis
      proof (cases ok)
        case True
        then have "rel2 = False" "s3 = s4" "w3 = w4" using N P \<open>\<not> rel \<and> \<not> IsReleasePending s2\<close> by (simp_all add: after_def)
        then show ?thesis using last_count [OF _ env, of i b s0 w0 0 dr ds s4 w4 s' w'] A4 True D by simp
      next
        case False
        then have e: "rel2" "s3 = NoteDisconnectReason ResourceExhausted s4" "w3 = w4"
          using N P \<open>\<not> rel \<and> \<not> IsReleasePending s2\<close> by (simp_all add: after_def)
        have A4': "acct i (b, s0, w0) 1 1 0 dr ds (s4, w4)" using A4 False by simp
        have "acct i (b, s0, w0) 1 1 0 dr ds (s3, w3)" unfolding e
          by (rule NoteDisconnectReason_acct(1) [OF A4' acct_not_free [OF A4']]) simp
        from give_back [OF this _ _ env] D e(1,2) show ?thesis by simp
      qed
    next
      case False
      then have e: "rel2 = rel" "s3 = s2" "w3 = w2" using N by (auto simp: after_def)
      show ?thesis
      proof (cases rel)
        case True
        from give_back [OF A2 _ r2 [OF True] env] D e True show ?thesis by simp
      next
        case nr: False
        then have "m_releasePending s2" using False by (simp add: IsReleasePending_def)
        then have "pool_state (s2, w2) \<noteq> SESSION_POOL_IN_USE" using A2 by (auto simp: acct_def state_ok_def)
        then have "acct i (b, s0, w0) 1 0 0 dr ds (s2, w2)" using acct_drop_link [OF A2] by simp
        from last_count [OF this env] D e nr show ?thesis by simp
      qed
    qed
  qed
qed

section \<open>Sending, errors\<close>

lemma HandleSend_acct:
  assumes A: "acct i (b, s0, w0) 1 0 1 dr ds (s, w)" and env: "asks env" and service: "\<And>n. keeps (OnSend service n)"
    and H: "HandleSend env service n (s, w) = (s', w')"
  shows "acct i (False, s0, w0) 0 0 0 dr ds (s', w')"
proof -
  have role: "m_sessionRole s = ROLE_SERVER" using A by (simp add: acct_def acct_base_def)
  obtain s1 w1 where S: "OnSend service n (s, w) = (s1, w1)" by fastforce
  have A1: "acct i (b, s0, w0) 1 0 1 dr ds (s1, w1)" using keepsD [OF service A, of n] S by simp
  obtain r s2 w2 where O: "OnSendCompleted env n (s1, w1) = (r, s2, w2)" by (cases "OnSendCompleted env n (s1, w1)") auto
  have A2: "acct i (b, s0, w0) 1 0 0 dr ds (s2, w2)" by (rule OnSendCompleted_acct [OF A1 _ _ env O]) simp_all
  show ?thesis by (rule last_count [OF A2 env]) (use H role S O in \<open>simp add: HandleSend_def\<close>)
qed

text \<open>
  The kernel reports \<open>ERROR_OPERATION_ABORTED\<close> only for an operation that was cancelled, and the engine cancels only after setting
  \<open>m_cancelIo\<close>.
\<close>

lemma session_io_error_acct:
  assumes A: "acct i (b, s0, w0) 1 c k dr ds (s, w)" and h: "c + k \<le> 1" and env: "asks env"
    and abort: "errorCode = ERROR_OPERATION_ABORTED \<longrightarrow> m_cancelIo s" and H: "session_io_error env errorCode (s, w) = (s', w')"
  shows "acct i (False, s0, w0) 0 0 0 dr ds (s', w')"
proof (cases "errorCode = ERROR_OPERATION_ABORTED")
  case True
  have "acct i (b, s0, w0) 1 0 k dr ds (s, w)" by (rule acct_drop_link [OF A]) (use True abort in simp)
  from last_count [OF this env] H True show ?thesis by (simp add: session_io_error_def HandleRecvCancelled_def)
next
  case False
  have nf: "pool_state (s, w) \<noteq> SESSION_POOL_FREE" using acct_not_free [OF A] by simp
  let ?w = "if \<not> IsConnectionDeadError errorCode then violation w else w"
  have "acct i (b, s0, w0) 1 c k dr ds (NoteDisconnectReason SocketError s, w)" by (rule NoteDisconnectReason_acct(1) [OF A nf])
  then have "acct i (b, s0, w0) 1 c k dr ds (NoteDisconnectReason SocketError s, ?w)" using acct_view [of "violation w" w] by simp
  from give_back [OF this h _ env] H False show ?thesis by (simp add: session_io_error_def HandleRecvCancelled_def Let_def)
qed

section \<open>Connecting\<close>

lemma os_calls_view: "os_calls n w = (ok, w') \<Longrightarrow> pool_view w' = pool_view w"
  by (induction n arbitrary: w) (auto split: option.splits prod.splits dest: ask_os_view)

lemma acct_take_link:
  assumes "acct i r0 h 0 k dr ds (s, w)" and "recvs i (nw_posted w) = dr" and "\<not> m_recvPaused s"
  shows "acct i r0 h 1 k dr ds (s, w)"
  using assms by (simp add: acct_def acct_base_def held_def ring_posted_def state_ok_def)

lemma acct_mark:
  assumes A: "acct i r0 h c k dr ds (s, w)" and n: "\<not> m_serviceConnectNotified s" and h: "0 < h"
    and e: "s' = MarkServiceConnectNotified s" "w' = w\<lparr>sv_calls := sv_calls w @ [ClientConnect (m_sessionId s)]\<rparr>"
  shows "acct i (True, s', w') h c k dr ds (s', w')" and "others_same i w w'"
proof -
  have nf: "poolState (cp_nodes w ! unat i) \<noteq> SESSION_POOL_FREE" using acct_not_free [OF A] h A by (simp add: acct_def acct_base_def)
  have id: "m_sessionId s = i" using A by (simp add: acct_def acct_base_def)
  have t: "IsTransportConnected s' = IsTransportConnected s" by (simp add: e(1) MarkServiceConnectNotified_def IsTransportConnected_def)
  have p: "pool_ok w' = pool_ok w" by (simp add: e(2) pool_ok_def free_list_def)
  have f: "m_sessionId s' = m_sessionId s" "m_ioCount s' = m_ioCount s" "m_recvPaused s' = m_recvPaused s" "m_sending s' = m_sending s"
    "m_releaseReadyFunc s' = m_releaseReadyFunc s" "m_eventHandler s' = m_eventHandler s" "m_sessionRole s' = m_sessionRole s"
    "m_releasePending s' = m_releasePending s" "m_cancelIo s' = m_cancelIo s" "m_disconnectReason s' = m_disconnectReason s"
    "m_recvPacketBuffer s' = m_recvPacketBuffer s" "m_serviceConnectNotified s'" by (simp_all add: e(1) MarkServiceConnectNotified_def)
  have g: "cp_nodes w' = cp_nodes w" "cp_capacity w' = cp_capacity w" "nw_posted w' = nw_posted w"
    "connects i (sv_calls w') = connects i (sv_calls w) + 1" "disconnects i (sv_calls w') = disconnects i (sv_calls w)"
    by (simp_all add: e(2) id)
  show "others_same i w w'" by (auto simp: e(2) others_same_def id of_bool_def)
  show "acct i (True, s', w') h c k dr ds (s', w')"
    using A h n nf id unfolding acct_iff acct_base_def held_def ring_posted_def by (simp add: t p f g)
qed

lemma OnConnect_acct:
  assumes A: "acct i r0 h 1 k dr ds (s, w)" and h: "1 + k \<le> h" and env: "asks env" and C: "OnConnect env (s, w) = (ok, s', w')"
  shows "acct i r0 h (if ok then 0 else 1) k dr ds (s', w')"
proof -
  have nf: "pool_state (s, w) \<noteq> SESSION_POOL_FREE" by (rule acct_not_free [OF A]) (use h in simp)
  have role: "m_sessionRole s = ROLE_SERVER" using A by (simp add: acct_def acct_base_def)
  let ?s = "UpdateLastHeartbeatTick (nw_now w) (UpdateLastRecvTick (nw_now w) (s\<lparr>m_serverSessionState := Server_CONNECTED\<rparr>))"
  have "acct i r0 h 1 k dr ds (?s, w)" by (rule acct_set_state [OF A nf]) simp
  from PostReceive_acct [OF this h env] C role show ?thesis by (simp add: OnConnect_def Let_def)
qed

lemma connect_accepted_acct:
  assumes A: "acct i r0 0 0 0 dr ds (s, w)" and nf: "pool_state (s, w) \<noteq> SESSION_POOL_FREE"
    and idle: "recvs i (nw_posted w) = dr" "\<not> m_recvPaused s" "\<not> m_serviceConnectNotified s"
    and env: "asks env" and service: "keeps (OnClientConnect service)" and C: "connect_accepted env service (s, w) = (s', w')"
  shows "acct i (False, s', w') 0 0 0 dr ds (s', w') \<and> others_same i w w'"
proof -
  let ?s = "IncrementIO s"
  have "acct i r0 1 0 0 dr ds (?s, w)" using IncrementIO_acct [OF A nf] by (simp add: IncrementIO_def)
  then have A1: "acct i (True, ?s, w) 1 1 0 dr ds (?s, w)"
    by (intro acct_take_link acct_rebase) (use idle in \<open>simp_all add: IncrementIO_def\<close>)
  obtain ok s1 w1 where R: "RunAcceptedConnectSequence env service (?s, w) = (ok, s1, w1)"
    by (cases "RunAcceptedConnectSequence env service (?s, w)")
  show ?thesis
  proof (cases ok)
    case False
    have A2: "acct i (True, ?s, w) 1 1 0 dr ds (s1, w1)"
    proof (cases "m_serverShutdownRequested w")
      case True then show ?thesis using R A1 by (simp add: RunAcceptedConnectSequence_def)
    next
      case up: False
      obtain ok2 w2 where O: "os_calls 4 w = (ok2, w2)" by fastforce
      have A2: "acct i (True, ?s, w) 1 1 0 dr ds (?s, w2)" using A1 acct_view [OF os_calls_view [OF O]] by blast
      show ?thesis
      proof (cases ok2)
        case False then show ?thesis using R up O A2 by (simp add: RunAcceptedConnectSequence_def)
      next
        case True
        obtain ok3 s3 w3 where C3: "OnConnect env (?s, w2) = (ok3, s3, w3)" by (cases "OnConnect env (?s, w2)") auto
        from OnConnect_acct [OF A2 _ env C3] R up O True False C3 show ?thesis
          by (cases ok3) (simp_all add: RunAcceptedConnectSequence_def)
      qed
    qed
    have nf2: "pool_state (s1, w1) \<noteq> SESSION_POOL_FREE" using acct_not_free [OF A2] by simp
    have D: "DecrementIO env (ReleaseClientSession env (NoteDisconnectReason SocketError s1, w1)) = (s', w')"
      using C R False by (simp add: connect_accepted_def)
    have "acct i (False, ?s, w) 0 0 0 dr ds (s', w')"
      by (rule give_back [OF NoteDisconnectReason_acct(1) [OF A2 nf2] _ _ env D]) simp_all
    then show ?thesis using acct_rebase acct_others by fastforce
  next
    case True
    obtain w2 where O: "os_calls 4 w = (True, w2)" and up: "\<not> m_serverShutdownRequested w"
      using R True by (cases "os_calls 4 w") (auto simp: RunAcceptedConnectSequence_def split: if_splits bool.splits)
    have A2: "acct i (True, ?s, w) 1 1 0 dr ds (?s, w2)" using A1 acct_view [OF os_calls_view [OF O]] by blast
    obtain ok3 s3 w3 where C3: "OnConnect env (?s, w2) = (ok3, s3, w3)" by (cases "OnConnect env (?s, w2)") auto
    then have ok3: "ok3" and e: "(s1, w1) = OnClientConnect service
        (MarkServiceConnectNotified s3, w3\<lparr>sv_calls := sv_calls w3 @ [ClientConnect (m_sessionId s3)]\<rparr>)"
      using R True O up by (auto simp: RunAcceptedConnectSequence_def split: if_splits bool.splits)
    have A3: "acct i (True, ?s, w) 1 0 0 dr ds (s3, w3)" using OnConnect_acct [OF A2 _ env C3] ok3 by simp
    have n3: "\<not> m_serviceConnectNotified s3" using acct_reason(2) [OF A3] idle(3) by (simp add: IncrementIO_def)
    let ?s4 = "MarkServiceConnectNotified s3" and ?w4 = "w3\<lparr>sv_calls := sv_calls w3 @ [ClientConnect (m_sessionId s3)]\<rparr>"
    note m = acct_mark [OF A3 n3 _ refl refl, simplified]
    have A5: "acct i (True, ?s4, ?w4) 1 0 0 dr ds (s1, w1)" unfolding e by (rule keepsD [OF service]) (use m in simp_all)
    have "DecrementIO env (s1, w1) = (s', w')" using C R True by (simp add: connect_accepted_def)
    from last_count [OF A5 env this] have A6: "acct i (False, ?s4, ?w4) 0 0 0 dr ds (s', w')" .
    have "others_same i w w3" using acct_others [OF A3] by simp
    moreover have "others_same i ?w4 w'" using acct_others [OF A6] by simp
    ultimately have "others_same i w w'" using m(2) others_same_trans by blast
    then show ?thesis using acct_rebase [OF A6, of False] by simp
  qed
qed

section \<open>The whole server\<close>

definition server_ok :: "(u32 \<Rightarrow> nat) \<Rightarrow> (u32 \<Rightarrow> nat) \<Rightarrow> ('p, 'y) PoolWorld_scheme \<Rightarrow> bool" where
  "server_ok dr ds w \<longleftrightarrow> pool_ok w \<and> (\<forall>i < cp_capacity w.
     acct i (False, cp_sessions w ! unat i, w) 0 0 0 (dr i) (ds i) (cp_sessions w ! unat i, w))"

lemma acct_transfer:
  assumes A: "acct j (False, s, w) 0 0 0 a b (s, w)" and o: "others_same i w w'" and "j \<noteq> i" and "pool_ok w'"
  shows "acct j (False, s, w') 0 0 0 a b (s, w')"
proof -
  have "unat j < length (cp_nodes w)" using A by (simp add: acct_def acct_base_def pool_ok_def word_less_nat_alt)
  moreover have "unat j \<noteq> unat i" using \<open>j \<noteq> i\<close> by (simp add: word_unat_eq_iff)
  ultimately have e: "poolState (cp_nodes w' ! unat j) = poolState (cp_nodes w ! unat j)" "cp_capacity w' = cp_capacity w"
    "recvs j (nw_posted w') = recvs j (nw_posted w)" "sends j (nw_posted w') = sends j (nw_posted w)"
    "last_recv j (nw_posted w') = last_recv j (nw_posted w)"
    "connects j (sv_calls w') = connects j (sv_calls w)" "disconnects j (sv_calls w') = disconnects j (sv_calls w)"
    using o \<open>j \<noteq> i\<close> by (simp_all add: others_same_def)
  show ?thesis using A \<open>pool_ok w'\<close> unfolding acct_iff acct_base_def held_def ring_posted_def by (simp add: e)
qed

lemma pool_ok_sessions: "length xs = length (cp_sessions w) \<Longrightarrow> pool_ok (w\<lparr>cp_sessions := xs\<rparr>) = pool_ok w"
  by (simp add: pool_ok_def free_list_def)

lemma acct_sessions:
  assumes "acct i (False, s, w) 0 0 0 a b (s, w)" and "length xs = length (cp_sessions w)"
  shows "acct i (False, s, w\<lparr>cp_sessions := xs\<rparr>) 0 0 0 a b (s, w\<lparr>cp_sessions := xs\<rparr>)"
proof -
  from assms(1) pool_ok_sessions [OF assms(2)] show ?thesis unfolding acct_iff acct_base_def held_def ring_posted_def by simp
qed

lemma on_session_ok:
  assumes S: "server_ok dr ds w" and i: "i < cp_capacity w" and f: "f (cp_sessions w ! unat i, w) = (s', w')"
    and A: "acct i (False, s', w') 0 0 0 a b (s', w')" and o: "others_same i w w'"
  shows "server_ok (dr(i := a)) (ds(i := b)) (on_session (unat i) f w)"
proof -
  let ?xs = "(cp_sessions w')[unat i := s']"
  have e: "on_session (unat i) f w = w'\<lparr>cp_sessions := ?xs\<rparr>" using f by (simp add: on_session_def)
  have c: "cp_sessions w' = cp_sessions w" "cp_capacity w' = cp_capacity w" using o by (simp_all add: others_same_def)
  have ok: "pool_ok w'" using A by (simp add: acct_def acct_base_def)
  have l: "length (cp_sessions w) = unat (cp_capacity w)" using S by (simp add: server_ok_def pool_ok_def)
  have "acct j (False, ?xs ! unat j, w') 0 0 0 ((dr(i := a)) j) ((ds(i := b)) j) (?xs ! unat j, w')" if j: "j < cp_capacity w" for j
  proof (cases "j = i")
    case True then show ?thesis using A i l c by (simp add: word_less_nat_alt)
  next
    case False
    have "acct j (False, cp_sessions w ! unat j, w) 0 0 0 (dr j) (ds j) (cp_sessions w ! unat j, w)"
      using S j by (simp add: server_ok_def)
    from acct_transfer [OF this o False ok] False c show ?thesis by (simp add: word_unat_eq_iff)
  qed
  then have "\<forall>j < cp_capacity w. acct j (False, ?xs ! unat j, w'\<lparr>cp_sessions := ?xs\<rparr>) 0 0 0 ((dr(i := a)) j) ((ds(i := b)) j)
      (?xs ! unat j, w'\<lparr>cp_sessions := ?xs\<rparr>)"
    by (intro allI impI acct_sessions) simp_all
  moreover have "pool_ok (w'\<lparr>cp_sessions := ?xs\<rparr>)" using ok pool_ok_sessions [of ?xs w'] by simp
  ultimately show ?thesis by (simp add: server_ok_def e c)
qed

lemma server_ok_view:
  fixes w w' :: "('p, 'y) PoolWorld_scheme"
  assumes v: "pool_view w' = pool_view w" and S: "server_ok dr ds w"
  shows "server_ok dr ds w'"
proof -
  have "acct i (False, x, w') 0 0 0 a b (x, w')" if "acct i (False, x, w) 0 0 0 a b (x, w)" for i a b x
  proof -
    have "acct i (False, x, w) 0 0 0 a b (x, w')" using that acct_view [OF v] by blast
    from acct_rebase [OF this, of False] show ?thesis by simp
  qed
  with S show ?thesis by (simp add: server_ok_def pool_ok_view [OF v] pool_viewD [OF v])
qed

section \<open>A session that nothing can reach\<close>

text \<open>
  A session in use whose connection was never opened: nothing is posted for it, so no completion will ever touch it, and it keeps its socket.
  \<open>strands\<close> says that a change of the server leaves all such sessions as they are.
\<close>

definition stranded :: "u32 \<Rightarrow> nat option \<Rightarrow> (u32 \<Rightarrow> nat) \<Rightarrow> (u32 \<Rightarrow> nat) \<Rightarrow> ('p, 'y) PoolWorld_scheme \<Rightarrow> bool" where
  "stranded k socket dr ds w \<longleftrightarrow> k < cp_capacity w \<and> poolState (cp_nodes w ! unat k) = SESSION_POOL_IN_USE \<and>
     m_clientSocket (cp_sessions w ! unat k) = socket \<and> \<not> IsTransportConnected (cp_sessions w ! unat k) \<and>
     \<not> m_recvPaused (cp_sessions w ! unat k) \<and> recvs k (nw_posted w) = dr k \<and> sends k (nw_posted w) = ds k"

definition strands ::
  "(u32 \<Rightarrow> nat) \<Rightarrow> (u32 \<Rightarrow> nat) \<Rightarrow> ('p, 'y) PoolWorld_scheme \<Rightarrow> (u32 \<Rightarrow> nat) \<Rightarrow> (u32 \<Rightarrow> nat) \<Rightarrow> ('p, 'y) PoolWorld_scheme \<Rightarrow> bool" where
  "strands dr ds w dr' ds' w' \<longleftrightarrow> (\<forall>k x. stranded k x dr ds w \<longrightarrow> stranded k x dr' ds' w')"

lemma strands_refl [simp]: "strands dr ds w dr ds w"
  by (simp add: strands_def)

lemma strands_trans: "strands dr ds w dr1 ds1 w1 \<Longrightarrow> strands dr1 ds1 w1 dr' ds' w' \<Longrightarrow> strands dr ds w dr' ds' w'"
  by (simp add: strands_def)

lemma strands_view: "pool_view w' = pool_view w \<Longrightarrow> strands dr ds w dr ds w'"
  unfolding strands_def stranded_def by (metis pool_viewD(1,3,4,7))

text \<open>An operation on another session.\<close>

lemma stranded_on_session:
  assumes k: "stranded k x dr ds w" and i: "k \<noteq> i" and P: "pool_ok w" and f: "f (cp_sessions w ! unat i, w) = (s', w')" and o: "others_same i w w'"
  shows "stranded k x (dr(i := a)) (ds(i := b)) (on_session (unat i) f w)"
proof -
  have "unat k < length (cp_nodes w)" using k P by (simp add: stranded_def pool_ok_def word_less_nat_alt)
  moreover have "unat k \<noteq> unat i" using i by (simp add: word_unat_eq_iff)
  ultimately show ?thesis using k i o by (simp add: stranded_def on_session_def f others_same_def)
qed

section \<open>Accepting\<close>

text \<open>The slots are not part of what the accounts look at.\<close>

lemma pool_view_slots [simp]:
  "pool_view (CloseSocketHandle x w) = pool_view w" "pool_view (put_accept i (s, v)) = pool_view v"
  "pool_view (u\<lparr>m_postedAcceptCount := n\<rparr>) = pool_view u" "pool_view (u\<lparr>nw_socketCalls := n1\<rparr>) = pool_view u"
  "pool_view (u\<lparr>nw_accepts := a\<rparr>) = pool_view u" "pool_view (u\<lparr>m_acceptStarvationReported := b\<rparr>) = pool_view u"
  "pool_view (ReportAcceptStarvationIfNeeded u) = pool_view u"
  by (simp_all add: CloseSocketHandle_def put_accept_def pool_view_def ReportAcceptStarvationIfNeeded_def violation_def)

lemma DecrementIO_slot_view: "DecrementIO accept_env (s, w) = (s', w') \<Longrightarrow> pool_view w' = pool_view w"
  by (auto simp: DecrementIO_def accept_env_def Let_def split: if_splits)

lemma drop_connection_view: "drop_connection (s, w) = (s', w') \<Longrightarrow> pool_view w' = pool_view w"
  by (auto simp: drop_connection_def close_slot_socket_def DetachSocket_def split: prod.splits if_splits)

lemma undo_accept_view: "undo_accept (s, w) = (s', w') \<Longrightarrow> pool_view w' = pool_view w"
  by (auto simp: undo_accept_def close_slot_socket_def DetachSocket_def Let_def split: prod.splits dest: DecrementIO_slot_view)

lemma PostAccept_view:
  assumes "PostAccept (s, w) = (ok, s', w')"
  shows "pool_view w' = pool_view w"
proof -
  have W: "pool_view (snd (WSASocket w)) = pool_view w" by (simp add: WSASocket_def)
  show ?thesis using assms
    by (auto simp: PostAccept_def Let_def WSASocket_def split: if_splits prod.splits option.splits
        dest!: drop_connection_view undo_accept_view ask_os_view)
qed

lemma ReleaseSlot_view: "ReleaseSlot (s, w) = (s', w') \<Longrightarrow> pool_view w' = pool_view w"
  by (auto simp: ReleaseSlot_def split: if_splits)

lemma repost_view:
  assumes "repost (s, w) = (ok, s', w')"
  shows "pool_view w' = pool_view w"
proof -
  obtain posted s1 w1 where P: "PostAccept (s, w) = (posted, s1, w1)" by (cases "PostAccept (s, w)") auto
  obtain s2 w2 where R: "(if posted then (s1, w1) else ReleaseSlot (s1, w1)) = (s2, w2)" by fastforce
  obtain s3 w3 where D: "DecrementIO accept_env (s2, w2) = (s3, w3)" by fastforce
  have "w' = ReportAcceptStarvationIfNeeded w3" using assms P R D by (simp add: repost_def)
  moreover have "pool_view w2 = pool_view w1" using R ReleaseSlot_view [of s1 w1 s2 w2] by (cases posted) simp_all
  ultimately show ?thesis using PostAccept_view [OF P] DecrementIO_slot_view [OF D] by simp
qed

lemma reject_accept_view:
  assumes "reject_accept (s, w) = (ok, s', w')"
  shows "pool_view w' = pool_view w"
  using assms by (auto simp: reject_accept_def split: prod.splits dest!: drop_connection_view repost_view)

text \<open>The session at the head of the free list is handed out, and nothing else changes.\<close>

lemma Acquire_pool:
  assumes P: "pool_ok w" and Q: "ClientSessionPool_Acquire w = (r, w')"
  shows "case r of
      None \<Rightarrow> cp_freeList w = None \<and> w' = w
    | Some j \<Rightarrow> j < length (cp_nodes w) \<and> poolState (cp_nodes w ! j) = SESSION_POOL_FREE \<and> poolState (cp_nodes w' ! j) = SESSION_POOL_IN_USE \<and>
        pool_ok w' \<and> (\<forall>i. i \<noteq> j \<longrightarrow> poolState (cp_nodes w' ! i) = poolState (cp_nodes w ! i)) \<and>
        w' = w\<lparr>cp_nodes := cp_nodes w', cp_freeList := cp_freeList w'\<rparr> \<and> length (cp_nodes w') = length (cp_nodes w)"
proof (cases "cp_freeList w")
  case None then show ?thesis using Q by (auto simp: ClientSessionPool_Acquire_def)
next
  case (Some j)
  obtain xs where xs: "free_list w xs" using P by (auto simp: pool_ok_def)
  then obtain ys where ys: "xs = j # ys" "chain (node_links w) (nextNode (cp_nodes w ! j)) ys"
    using Some chain_Some [of "node_links w" j xs] by (auto simp: free_list_def)
  have d: "distinct xs" using xs chain_distinct by (auto simp: free_list_def)
  have j: "j < length (cp_nodes w)" "poolState (cp_nodes w ! j) = SESSION_POOL_FREE"
    using xs ys(1) by (auto simp: free_list_def)
  have nd: "nd_session (cp_nodes w ! j)" using P j by (auto simp: pool_ok_def)
  let ?node = "\<lambda>node. node\<lparr>nextNode := None, poolState := SESSION_POOL_IN_USE\<rparr>"
  have e: "r = Some j" "w' = w\<lparr>cp_freeList := nextNode (cp_nodes w ! j), cp_nodes := (cp_nodes w)[j := ?node (cp_nodes w ! j)]\<rparr>"
    using Q Some j nd by (auto simp: ClientSessionPool_Acquire_def Let_def set_node_def)
  have "chain (node_links w') (cp_freeList w') ys" unfolding e(2)
    by (simp, rule lseg_frame [OF ys(2)]) (use d ys(1) in \<open>auto simp: nth_update_if\<close>)
  moreover have "set ys = {i. i < length (cp_nodes w') \<and> poolState (cp_nodes w' ! i) = SESSION_POOL_FREE}"
    using xs d j unfolding ys(1) by (auto simp: free_list_def e(2) nth_update_if)
  ultimately have "free_list w' ys" by (simp add: free_list_def)
  moreover have "\<forall>node \<in> set (cp_nodes w'). nd_session node"
    using nd_session_update [OF P, of j ?node] by (simp add: e(2))
  moreover from P have "length (cp_nodes w') = unat (cp_capacity w') \<and> length (cp_sessions w') = unat (cp_capacity w') \<and>
      cp_closeSocketFunc w' \<and> cp_disconnectNotifyFunc w' \<and> sv_calls w' = sv_calls w"
    by (simp add: pool_ok_def e(2))
  ultimately have "pool_ok w'" using P unfolding pool_ok_def by metis
  then show ?thesis using j by (simp add: e nth_update_if)
qed

lemma acct_acquired:
  assumes A: "acct i (False, s, w) 0 0 0 a b (s, w)" and fr: "poolState (cp_nodes w ! unat i) = SESSION_POOL_FREE"
    and n: "poolState (cp_nodes w' ! unat i) = SESSION_POOL_IN_USE" and ok: "pool_ok w'"
    and e: "w' = w\<lparr>cp_nodes := cp_nodes w', cp_freeList := cp_freeList w'\<rparr>"
  shows "acct i (False, s, w') 0 0 0 a b (s, w')" and "recvs i (nw_posted w') = a" and "clean s"
proof -
  have cl: "clean s" using A fr by (simp add: acct_iff)
  then have c: "m_ioCount s = 0" "\<not> m_releasePending s" "\<not> IsTransportConnected s" "\<not> m_recvPaused s"
    by (simp_all add: clean_def IsTransportConnected_def)
  have w: "nw_posted w' = nw_posted w" "sv_calls w' = sv_calls w" "cp_capacity w' = cp_capacity w" by (subst e, simp)+
  show "clean s" by (rule cl)
  show "recvs i (nw_posted w') = a" using A c by (simp add: acct_def acct_base_def w)
  show "acct i (False, s, w') 0 0 0 a b (s, w')"
    using A c n ok unfolding acct_iff acct_base_def held_def ring_posted_def by (simp add: w)
qed

lemma attach_accepted_sels:
  assumes "attach_accepted x ip port (s, w) = (s', w')"
  shows "sess_view s' = sess_view s" and "pool_view w' = pool_view w"
  using assms by (auto simp: attach_accepted_def AttachSocket_def SetRemoteAddress_def sess_view_def Let_def)

lemma HandleAccept_ok:
  assumes S: "server_ok dr ds w" and env: "asks env" and service: "keeps (OnClientConnect service)"
  shows "server_ok dr ds (HandleAccept env service remote sessionId w) \<and> strands dr ds w dr ds (HandleAccept env service remote sessionId w)"
proof (cases "GetAcceptSession sessionId w")
  case None then show ?thesis using S by (simp add: HandleAccept_def)
next
  case (Some i)
  let ?s = "snd (OnAccept (as_sessions w ! i))" and ?w = "w\<lparr>m_postedAcceptCount := m_postedAcceptCount w - 1\<rparr>"
  obtain ip port where r: "(case remote of Some r \<Rightarrow> r | None \<Rightarrow> ([], 0)) = (ip, port)" by fastforce
  have S1: "server_ok dr ds ?w" by (rule server_ok_view [OF _ S]) simp
  then have P1: "pool_ok ?w" by (simp add: server_ok_def)
  obtain po ra wa where R: "reject_accept (?s, ?w) = (po, ra, wa)" by (cases "reject_accept (?s, ?w)") auto
  have viewed: "server_ok dr ds v \<and> strands dr ds w dr ds v" if "pool_view v = pool_view ?w" for v
    using server_ok_view [OF that S1] strands_view [of v w] that by simp
  have rejected: "server_ok dr ds (put_accept i (ra, wa)) \<and> strands dr ds w dr ds (put_accept i (ra, wa))"
    by (rule viewed) (simp add: reject_accept_view [OF R])
  let ?over = "maxConnectionsPerAddress (m_connectionPolicy ?w) > 0 \<and> ip \<noteq> [] \<and>
    CountSessionsFromAddress (Some ip) ?w \<ge> maxConnectionsPerAddress (m_connectionPolicy ?w)"
  note D = HandleAccept_def [of env service remote sessionId w, unfolded Some option.case r Let_def prod.case]
  consider (down) "m_serverShutdownRequested ?w" | (over) "\<not> m_serverShutdownRequested ?w" "?over"
    | (full) "\<not> m_serverShutdownRequested ?w" "\<not> ?over" "IsSessionFull ?w"
    | (free) "\<not> m_serverShutdownRequested ?w" "\<not> ?over" "\<not> IsSessionFull ?w" by blast
  then show ?thesis
  proof cases
    case down
    obtain s1 w1 where 1: "drop_connection (?s, ?w) = (s1, w1)" by fastforce
    obtain s2 w2 where 2: "DecrementIO accept_env (s1, w1) = (s2, w2)" by fastforce
    obtain s3 w3 where 3: "AcceptSession_ResetSession (s2, w2) = (s3, w3)" by fastforce
    obtain s4 w4 where 4: "ReleaseSlot (s3, w3) = (s4, w4)" by fastforce
    have "pool_view w3 = pool_view w2" using 3
      by (auto simp: AcceptSession_ResetSession_def BaseSession_ResetSession_def Let_def split: if_splits)
    then have "pool_view w4 = pool_view ?w"
      using drop_connection_view [OF 1] DecrementIO_slot_view [OF 2] ReleaseSlot_view [OF 4] by simp
    moreover have "HandleAccept env service remote sessionId w = put_accept i (s4, w4)"
      unfolding D if_P [OF down] using 1 2 3 4 by simp
    ultimately show ?thesis using viewed [of "put_accept i (s4, w4)"] by simp
  next
    case over
    then show ?thesis unfolding D if_not_P [OF over(1)] if_P [OF over(2)] using R rejected by simp
  next
    case full
    then show ?thesis unfolding D if_not_P [OF full(1)] if_not_P [OF full(2)] using R rejected by simp
  next
    case free
    note D' = D [unfolded if_not_P [OF free(1)] if_not_P [OF free(2)] if_P [OF free(3)]]
    obtain q w1 where Q: "ClientSessionPool_Acquire ?w = (q, w1)" by fastforce
    note a = Acquire_pool [OF P1 Q]
    show ?thesis
    proof (cases q)
      case None
      then have "cp_freeList ?w = None" using a by simp
      then show ?thesis using free(3) by (simp add: IsSessionFull_def)
    next
      case (Some j)
      define k :: u32 where "k = of_nat j"
      have j: "j < length (cp_nodes ?w)" using a Some by simp
      then have "j < unat (cp_capacity ?w)" using P1 by (simp add: pool_ok_def)
      then have k: "unat k = j" "k < cp_capacity ?w"
        using unsigned_less [of "cp_capacity ?w", where 'a = nat] by (simp_all add: k_def unat_of_nat word_less_nat_alt)
      have w1: "pool_ok w1" "w1 = ?w\<lparr>cp_nodes := cp_nodes w1, cp_freeList := cp_freeList w1\<rparr>"
        "poolState (cp_nodes ?w ! j) = SESSION_POOL_FREE" "poolState (cp_nodes w1 ! j) = SESSION_POOL_IN_USE"
        "length (cp_nodes w1) = length (cp_nodes ?w)" "\<And>i. i \<noteq> j \<Longrightarrow> poolState (cp_nodes w1 ! i) = poolState (cp_nodes ?w ! i)"
        using a Some by auto
      have f: "cp_sessions w1 = cp_sessions ?w" "cp_capacity w1 = cp_capacity ?w" "nw_posted w1 = nw_posted ?w" "sv_calls w1 = sv_calls ?w"
        by (subst w1(2), simp)+
      have o1: "others_same k ?w w1" unfolding others_same_def f by (simp add: w1(5,6) k(1))
      let ?c = "cp_sessions ?w ! j"
      have "acct k (False, ?c, ?w) 0 0 0 (dr k) (ds k) (?c, ?w)" using S1 k by (auto simp: server_ok_def)
      from acct_acquired [OF this _ _ w1(1,2)] w1(3,4) k(1)
      have c: "acct k (False, ?c, w1) 0 0 0 (dr k) (ds k) (?c, w1)" "recvs k (nw_posted w1) = dr k" "clean ?c" by simp_all
      have S2: "server_ok dr ds w1" unfolding server_ok_def f
      proof (intro conjI allI impI)
        show "pool_ok w1" by (rule w1(1))
        fix i assume i: "i < cp_capacity ?w"
        show "acct i (False, cp_sessions ?w ! unat i, w1) 0 0 0 (dr i) (ds i) (cp_sessions ?w ! unat i, w1)"
        proof (cases "i = k")
          case True then show ?thesis using c(1) k(1) by simp
        next
          case False
          show ?thesis by (rule acct_transfer [OF _ o1 False w1(1)]) (use S1 i in \<open>simp add: server_ok_def\<close>)
        qed
      qed
      obtain socket s1 where T: "DetachSocket ?s = (socket, s1)" by fastforce
      obtain c2 w2 where T2: "attach_accepted socket ip port (?c, w1) = (c2, w2)" by fastforce
      note at = attach_accepted_sels [OF T2]
      have nf1: "pool_state (?c, w1) \<noteq> SESSION_POOL_FREE" using c(1) w1(4) k(1) by (simp add: acct_def acct_base_def)
      have c2: "acct k (False, ?c, w1) 0 0 0 (dr k) (ds k) (c2, w2)" by (rule acct_same(1) [OF c(1) at nf1])
      let ?w2 = "on_session j (attach_accepted socket ip port) w1"
      have fresh: "k' \<noteq> k" if "stranded k' x dr ds w" for k' x using that w1(3) k(1) by (auto simp: stranded_def)
      have X1: "strands dr ds w dr ds w1" unfolding strands_def stranded_def
      proof (intro allI impI)
        fix k' x assume K: "k' < cp_capacity w \<and> poolState (cp_nodes w ! unat k') = SESSION_POOL_IN_USE \<and>
          m_clientSocket (cp_sessions w ! unat k') = x \<and> \<not> IsTransportConnected (cp_sessions w ! unat k') \<and>
          \<not> m_recvPaused (cp_sessions w ! unat k') \<and> recvs k' (nw_posted w) = dr k' \<and> sends k' (nw_posted w) = ds k'"
        then have "unat k' \<noteq> j" using w1(3) by auto
        from w1(6) [OF this] K show "k' < cp_capacity w1 \<and> poolState (cp_nodes w1 ! unat k') = SESSION_POOL_IN_USE \<and>
          m_clientSocket (cp_sessions w1 ! unat k') = x \<and> \<not> IsTransportConnected (cp_sessions w1 ! unat k') \<and>
          \<not> m_recvPaused (cp_sessions w1 ! unat k') \<and> recvs k' (nw_posted w1) = dr k' \<and> sends k' (nw_posted w1) = ds k'"
          by (simp add: f)
      qed
      have ts: "cp_sessions w1 ! unat k = ?c" by (simp add: f k(1))
      have "server_ok (dr(k := dr k)) (ds(k := ds k)) (on_session (unat k) (attach_accepted socket ip port) w1)"
        by (rule on_session_ok [OF S2 _ _ acct_rebase [OF c2]]) (use T2 k f acct_others [OF c2] in \<open>simp_all add: ts\<close>)
      then have S3: "server_ok dr ds ?w2" by (simp add: k(1))
      obtain posted s3 w3 where P3: "repost (s1, ?w2) = (posted, s3, w3)" by (cases "repost (s1, ?w2)") auto
      have v3: "pool_view (put_accept i (s3, w3)) = pool_view ?w2" using repost_view [OF P3] by simp
      have X4: "stranded k' x dr ds (put_accept i (s3, w3))" if K: "stranded k' x dr ds w" for k' x
      proof -
        have K1: "stranded k' x dr ds w1" using X1 K by (simp add: strands_def)
        have "others_same k w1 w2" using acct_others [OF c2] by simp
        then have "stranded k' x (dr(k := dr k)) (ds(k := ds k)) (on_session (unat k) (attach_accepted socket ip port) w1)"
          by (intro stranded_on_session [OF K1 fresh [OF K] w1(1)]) (use T2 f k(1) in simp_all)
        then show ?thesis using strands_view [OF v3, of dr ds] by (simp add: strands_def k(1))
      qed
      have S4: "server_ok dr ds (put_accept i (s3, w3))" by (rule server_ok_view [OF v3 S3])
      have H: "HandleAccept env service remote sessionId w =
          (if \<not> posted then put_accept i (s3, w3) else on_session j (connect_accepted env service) (put_accept i (s3, w3)))"
        unfolding D' using Q Some T P3 by simp
      show ?thesis
      proof (cases posted)
        case False then show ?thesis using H S4 X4 by (simp add: strands_def)
      next
        case True
        let ?w4 = "put_accept i (s3, w3)"
        have e2: "?w2 = w2\<lparr>cp_sessions := (cp_sessions w2)[j := c2]\<rparr>" using T2 by (simp add: on_session_def f)
        have l: "j < length (cp_sessions w2)" using w1(1) j w1(5) pool_viewD(4) [OF at(2)] by (simp add: pool_ok_def f)
        have x: "cp_sessions ?w4 ! j = c2" "cp_nodes ?w4 = cp_nodes w1" "nw_posted ?w4 = nw_posted w1"
          "cp_capacity ?w4 = cp_capacity ?w"
          unfolding pool_viewD [OF v3] using l pool_viewD [OF at(2)] f by (simp_all add: e2)
        obtain c5 w5 where C5: "connect_accepted env service (c2, ?w4) = (c5, w5)" by fastforce
        have c4: "acct k (False, c2, ?w4) 0 0 0 (dr k) (ds k) (c2, ?w4)" using S4 x k by (auto simp: server_ok_def)
        have cl: "\<not> m_recvPaused c2" "\<not> m_serviceConnectNotified c2" "m_sessionId c2 = k"
          using sess_viewD [OF at(1)] c(3) c(1) by (auto simp: clean_def acct_def acct_base_def)
        have A5: "acct k (False, c5, w5) 0 0 0 (dr k) (ds k) (c5, w5) \<and> others_same k ?w4 w5"
          by (rule connect_accepted_acct [OF c4 _ _ _ _ env service C5]) (use cl x c(2) w1(4) k(1) in simp_all)
        have "stranded k' y (dr(k := dr k)) (ds(k := ds k)) (on_session (unat k) (connect_accepted env service) ?w4)"
          if K: "stranded k' y dr ds w" for k' y
          by (rule stranded_on_session [OF X4 [OF K] fresh [OF K], of _ c5 w5]) (use A5 S4 C5 x k(1) in \<open>simp_all add: server_ok_def\<close>)
        then have X5: "strands dr ds w dr ds (on_session j (connect_accepted env service) ?w4)" by (simp add: strands_def k(1))
        from A5 have "server_ok (dr(k := dr k)) (ds(k := ds k)) (on_session (unat k) (connect_accepted env service) ?w4)"
          by (intro on_session_ok [OF S4, of k _ c5 w5]) (use C5 x k in simp_all)
        then show ?thesis using H True X5 by (simp add: k(1))
      qed
    qed
  qed
qed

lemma HandleAcceptIOCancelled_view: "pool_view (HandleAcceptIOCancelled sessionId w) = pool_view w"
proof (cases "GetAcceptSession sessionId w")
  case None then show ?thesis by (simp add: HandleAcceptIOCancelled_def)
next
  case (Some i)
  obtain s1 w1 where D: "DecrementIO accept_env ((as_sessions w ! i)\<lparr>m_acceptSessionState := Accept_ABORTED\<rparr>,
      w\<lparr>m_postedAcceptCount := m_postedAcceptCount w - 1\<rparr>) = (s1, w1)" by fastforce
  obtain s2 w2 where R: "ReleaseSlot (s1, w1) = (s2, w2)" by fastforce
  show ?thesis using DecrementIO_slot_view [OF D] ReleaseSlot_view [OF R] Some D R by (simp add: HandleAcceptIOCancelled_def)
qed

end
