(* ===== verification/ServerFrame.thy ===== *)
theory ServerFrame
  imports ServerAccounts
begin

text \<open>
  What the operations of a session can do to the rest: they never add bytes to the receive ring, never authenticate the session, and never touch
  the server's own state, its accept slots included. These facts bound the packet loop and separate the accept slots from the sessions.
\<close>

section \<open>The frame of a session's operations\<close>

definition stored_count :: "ClientSession \<Rightarrow> nat" where
  "stored_count s = (case m_recvPacketBuffer s of None \<Rightarrow> 0 | Some b \<Rightarrow> unat (rb_storedSize b))"

definition tame :: "('p, 'y) PoolNet \<Rightarrow> ('p, 'y) PoolNet \<Rightarrow> bool" where
  "tame r sw \<longleftrightarrow> m_sessionRole (fst sw) = m_sessionRole (fst r) \<and> stored_count (fst sw) \<le> stored_count (fst r) \<and>
     (ring_ok (m_recvPacketBuffer (fst r)) \<longrightarrow> ring_ok (m_recvPacketBuffer (fst sw))) \<and>
     (m_serverSessionState (fst sw) = Server_ESTABLISHED \<longrightarrow> m_serverSessionState (fst r) = Server_ESTABLISHED) \<and>
     (m_clientSessionState (fst sw) = Client_ESTABLISHED \<longrightarrow> m_clientSessionState (fst r) = Client_ESTABLISHED) \<and>
     PoolWorld.more (snd sw) = PoolWorld.more (snd r)"

lemma tame_refl [simp]: "tame sw sw"
  by (simp add: tame_def)

lemma tame_trans: "tame r sw \<Longrightarrow> tame sw sw' \<Longrightarrow> tame r sw'"
  by (auto simp: tame_def)

lemma tame_session [simp]:
  "tame r (s\<lparr>m_ioCount := n\<rparr>, w) = tame r (s, w)" "tame r (s\<lparr>m_cancelIo := c\<rparr>, w) = tame r (s, w)"
  "tame r (s\<lparr>m_releasePending := c\<rparr>, w) = tame r (s, w)" "tame r (s\<lparr>m_ioCancelCompleteEvent := e\<rparr>, w) = tame r (s, w)"
  "tame r (s\<lparr>m_recvPaused := c\<rparr>, w) = tame r (s, w)" "tame r (s\<lparr>m_recvPauseCount := k\<rparr>, w) = tame r (s, w)"
  "tame r (s\<lparr>m_disconnectReason := d\<rparr>, w) = tame r (s, w)" "tame r (s\<lparr>m_clientSocket := so\<rparr>, w) = tame r (s, w)"
  "tame r (s\<lparr>m_closing := c\<rparr>, w) = tame r (s, w)" "tame r (s\<lparr>m_sendPacketQueue := q\<rparr>, w) = tame r (s, w)"
  "tame r (s\<lparr>m_currentSendPacket := a\<rparr>, w) = tame r (s, w)" "tame r (s\<lparr>m_sendOffset := o1\<rparr>, w) = tame r (s, w)"
  "tame r (s\<lparr>m_sending := c\<rparr>, w) = tame r (s, w)" "tame r (s\<lparr>m_processing := c\<rparr>, w) = tame r (s, w)"
  "tame r (s\<lparr>m_jobQueue := jq\<rparr>, w) = tame r (s, w)" "tame r (s\<lparr>m_serviceConnectNotified := c\<rparr>, w) = tame r (s, w)"
  "tame r (s\<lparr>m_sessionContext := c\<rparr>, w) = tame r (s, w)" "tame r (s\<lparr>m_clientIPAddress := ip\<rparr>, w) = tame r (s, w)"
  "tame r (s\<lparr>m_clientPort := port\<rparr>, w) = tame r (s, w)" "tame r (s\<lparr>m_lastRecvTick := t\<rparr>, w) = tame r (s, w)"
  "tame r (s\<lparr>m_lastHeartbeatTick := t\<rparr>, w) = tame r (s, w)" "tame r (s\<lparr>m_sendRejectLogTick := f\<rparr>, w) = tame r (s, w)"
  "tame r (s\<lparr>m_sendRejectSuppressed := g\<rparr>, w) = tame r (s, w)" "tame r (s\<lparr>m_acceptSessionState := st\<rparr>, w) = tame r (s, w)"
  by (simp_all add: tame_def stored_count_def)

lemma tame_world [simp]:
  "tame r (s, violation w) = tame r (s, w)" "tame r (s, set_send sw w) = tame r (s, w)" "tame r (s, w\<lparr>nw_posted := ps\<rparr>) = tame r (s, w)"
  "tame r (s, w\<lparr>nw_calls := n\<rparr>) = tame r (s, w)" "tame r (s, w\<lparr>nw_mem := m\<rparr>) = tame r (s, w)" "tame r (s, w\<lparr>nw_jobs := j\<rparr>) = tame r (s, w)"
  "tame r (s, w\<lparr>cp_nodes := ns\<rparr>) = tame r (s, w)" "tame r (s, w\<lparr>cp_freeList := fl\<rparr>) = tame r (s, w)"
  "tame r (s, w\<lparr>nw_closed := cl\<rparr>) = tame r (s, w)" "tame r (s, w\<lparr>sv_calls := cs\<rparr>) = tame r (s, w)"
  "tame r (s, set_node i f w) = tame r (s, w)" "tame r (s, CloseSocketHandle x w) = tame r (s, w)" "tame r (s, write_mem a bs w) = tame r (s, w)"
  by (simp_all add: tame_def violation_def set_send_def set_node_def CloseSocketHandle_def write_mem_def)

text \<open>States that are not \<open>Server_ESTABLISHED\<close> may be set.\<close>

lemma tame_state:
  "tame r (s, w) \<Longrightarrow> x \<noteq> Server_ESTABLISHED \<Longrightarrow> tame r (s\<lparr>m_serverSessionState := x\<rparr>, w)"
  "tame r (s, w) \<Longrightarrow> y \<noteq> Client_ESTABLISHED \<Longrightarrow> tame r (s\<lparr>m_clientSessionState := y\<rparr>, w)"
  by (simp_all add: tame_def stored_count_def)

lemma tame_ring:
  assumes "tame r (s, w)" and "ring_ok (m_recvPacketBuffer s) \<Longrightarrow> ring_ok b" and "stored_count (s\<lparr>m_recvPacketBuffer := b\<rparr>) \<le> stored_count s"
  shows "tame r (s\<lparr>m_recvPacketBuffer := b\<rparr>, w)"
  using assms by (auto simp: tame_def)

definition tame_env :: "('p, ('p, 'y) PoolNet) Env \<Rightarrow> bool" where
  "tame_env env \<longleftrightarrow> (\<forall>sw. tame sw (ev_OnDisconnectRequest env sw)) \<and> (\<forall>sw. tame sw (ev_OnReleaseReady env sw))"

lemma tame_callbacks:
  assumes "tame_env env" and "tame r sw"
  shows "tame r (ev_OnDisconnectRequest env sw)" and "tame r (ev_OnReleaseReady env sw)"
  using assms tame_trans unfolding tame_env_def by blast+

section \<open>Counting, releasing\<close>

lemma small_tame [simp]:
  "tame r (SetEvent s, w) = tame r (s, w)" "tame r (IncrementIO s, w) = tame r (s, w)" "tame r (NoteDisconnectReason d s, w) = tame r (s, w)"
  "tame r (snd (RequestRelease s), w) = tame r (s, w)" "tame r (snd (DetachSocket s), w) = tame r (s, w)"
  "tame r (UpdateLastRecvTick t s, w) = tame r (s, w)" "tame r (UpdateLastHeartbeatTick t s, w) = tame r (s, w)"
  "tame r (MarkServiceConnectNotified s, w) = tame r (s, w)" "tame r (snd (ConsumeServiceConnectNotified s), w) = tame r (s, w)"
  "tame r (s, snd (ask_os w)) = tame r (s, w)" "tame r (snd (snd (ShouldLogSendReject rr t s)), w) = tame r (s, w)"
  "tame r (reject rr (s, w)) = tame r (s, w)"
  by (simp_all add: SetEvent_def IncrementIO_def NoteDisconnectReason_def RequestRelease_def DetachSocket_def UpdateLastRecvTick_def
      UpdateLastHeartbeatTick_def MarkServiceConnectNotified_def ConsumeServiceConnectNotified_def ask_os_def ShouldLogSendReject_def
      reject_def Let_def)

lemma DecrementIO_tame: "tame_env env \<Longrightarrow> tame r sw \<Longrightarrow> tame r (DecrementIO env sw)"
  by (cases sw) (auto simp: DecrementIO_def Let_def intro: tame_callbacks)

lemma BeginIO_tame: "BeginIO env sw = (ok, sw') \<Longrightarrow> tame_env env \<Longrightarrow> tame r sw \<Longrightarrow> tame r sw'"
  by (cases sw) (auto simp: BeginIO_def Let_def split: if_splits intro: DecrementIO_tame)

lemma ReleaseUnpostedIO_tame: "tame_env env \<Longrightarrow> tame r sw \<Longrightarrow> tame r (ReleaseUnpostedIO env sw)"
  by (cases sw) (auto simp: ReleaseUnpostedIO_def intro: DecrementIO_tame)

lemma CancelPendingIO_tame:
  "CancelPendingIO env (s, w) = (ok, sw') \<Longrightarrow> tame_env env \<Longrightarrow> tame r (s, w) \<Longrightarrow> tame r sw'"
  by (auto simp: BaseSession_CancelPendingIO_def Let_def ask_os_def split: if_splits option.splits intro: ReleaseUnpostedIO_tame)

lemma drop_current_tame [simp]: "tame r (drop_current env (s, w)) = tame r (s, w)"
  by (simp add: drop_current_def split: option.split)

lemma ResetSession_tame:
  assumes "tame r (s, w)"
  shows "tame r (ClientSession_ResetSession env (s, w))"
proof -
  let ?s1 = "fst (BaseSession_ResetSession (s, w))" and ?w1 = "snd (BaseSession_ResetSession (s, w))"
  have 1: "tame r (?s1, ?w1)"
    by (auto simp: BaseSession_ResetSession_def Let_def intro!: tame_state assms)
  then have 2: "tame r (set_CONNECT_READY ?s1, ?w1)" by (auto simp: set_CONNECT_READY_def intro: tame_state)
  have q: "tame r (reset_sendQueue env (x, v)) = tame r (x, v)" for x v
    by (simp add: reset_sendQueue_def split: option.split prod.split)
  have j: "tame r (reset_jobQueue env (x, v)) = tame r (x, v)" for x v
    by (simp add: reset_jobQueue_def split: option.split prod.split)
  have b: "tame r (x\<lparr>m_recvPacketBuffer := map_option rb_Reset (m_recvPacketBuffer x)\<rparr>, v)" if "tame r (x, v)" for x v
  proof (rule tame_ring [OF that])
    show "ring_ok (map_option rb_Reset (m_recvPacketBuffer x))" if "ring_ok (m_recvPacketBuffer x)"
    proof -
      obtain b where b: "m_recvPacketBuffer x = Some b" "rb_inv b" "rb_buffer b \<noteq> None" using \<open>ring_ok _\<close> by (auto simp: ring_ok_def)
      moreover have "rb_buffer (rb_Reset b) = rb_buffer b" by (simp add: rb_Reset_def)
      ultimately show ?thesis by (simp add: ring_ok_def)
    qed
  qed (simp add: stored_count_def rb_Reset_def split: option.split)
  let ?s2 = "(set_CONNECT_READY ?s1)\<lparr>m_sending := False, m_processing := False, m_recvPaused := False, m_recvPauseCount := 0,
     m_sendRejectLogTick := (\<lambda>_. 0), m_sendRejectSuppressed := (\<lambda>_. 0), m_serviceConnectNotified := False, m_sessionContext := False\<rparr>"
  obtain s3 w3 where 3: "reset_sendQueue env (?s2, ?w1) = (s3, w3)" by fastforce
  obtain s4 w4 where 4: "drop_current env (s3\<lparr>m_recvPacketBuffer := map_option rb_Reset (m_recvPacketBuffer s3)\<rparr>, w3) = (s4, w4)" by fastforce
  obtain s5 w5 where 5: "reset_jobQueue env (s4\<lparr>m_sendOffset := 0\<rparr>, w4) = (s5, w5)" by fastforce
  have "tame r (s3, w3)" using q [of ?s2 ?w1] 2 unfolding 3 by simp
  from b [OF this] have "tame r (s4, w4)" using drop_current_tame [of r env "s3\<lparr>m_recvPacketBuffer := map_option rb_Reset (m_recvPacketBuffer s3)\<rparr>" w3] unfolding 4 by simp
  then have "tame r (s5, w5)" using j [of "s4\<lparr>m_sendOffset := 0\<rparr>" w4] unfolding 5 by simp
  then show ?thesis using 3 4 5 by (simp add: ClientSession_ResetSession_def case_prod_beta Let_def)
qed

lemma CompleteRelease_tame:
  assumes "tame r sw"
  shows "tame r (CompleteRelease env sw)"
proof -
  obtain s w where sw: "sw = (s, w)" by fastforce
  obtain s1 w1 where 1: "(if cp_closeSocketFunc w then (case DetachSocket s of (socket, s') \<Rightarrow> (s', CloseSocketHandle socket w)) else (s, w)) = (s1, w1)"
    by fastforce
  obtain s2 w2 where 2: "NotifyServiceDisconnect (s1, w1) = (s2, w2)" by fastforce
  obtain ok s3 where 3: "ClientSession_OnDisconnect s2 = (ok, s3)" by fastforce
  have "tame r (s1, w1)" using assms 1 by (auto simp: sw DetachSocket_def split: if_splits)
  then have "tame r (s2, w2)" using 2
    by (auto simp: NotifyServiceDisconnect_def OnSessionDisconnectNotify_def ConsumeServiceConnectNotified_def split: bool.splits if_splits)
  then have "tame r (s3, w2)" using 3
    by (auto simp: ClientSession_OnDisconnect_def BaseSession_OnDisconnect_def ClearRemoteAddress_def Let_def
        split: SESSION_ROLE.splits if_splits intro: tame_state)
  then have "tame r (s3, if ok then w2 else violation w2)" by simp
  from ResetSession_tame [OF this, of env] show ?thesis using assms 1 2 3
    by (cases ok) (auto simp: sw CompleteRelease_def Let_def split: prod.split)
qed

lemma Release_tame:
  assumes "tame_env env" and "tame r (s, w)"
  shows "tame r (ClientSessionPool_Release env (s, w))"
proof (cases "m_sessionId s \<ge> cp_capacity w \<or> poolState (node_of w s) \<noteq> SESSION_POOL_IN_USE")
  case True then show ?thesis using assms(2) by (auto simp: ClientSessionPool_Release_def)
next
  case False
  let ?w = "set_node (unat (m_sessionId s)) (\<lambda>node. node\<lparr>poolState := SESSION_POOL_RELEASING\<rparr>) w"
  obtain s2 w2 where C: "(if IsTransportConnected s
      then (case CancelPendingIO env (s, ?w) of (True, sw) \<Rightarrow> sw | (False, s', w') \<Rightarrow> (s', violation w')) else (s, ?w)) = (s2, w2)" by fastforce
  have t: "tame r (s, ?w)" using assms(2) by simp
  obtain ok s' w' where P: "CancelPendingIO env (s, ?w) = (ok, s', w')" by (cases "CancelPendingIO env (s, ?w)") auto
  have "tame r (s2, w2)" using C P t CancelPendingIO_tame [OF P assms(1) t] by (cases ok) (auto split: if_splits)
  moreover obtain b s3 where R: "RequestRelease s2 = (b, s3)" by fastforce
  ultimately have "tame r (s3, w2)" using small_tame(4) [of r s2 w2] by simp
  then show ?thesis using False C R CompleteRelease_tame [of r "(s3, w2)"] by (cases b) (auto simp: ClientSessionPool_Release_def Let_def)
qed

lemma ReleaseClientSession_tame: "tame_env env \<Longrightarrow> tame r sw \<Longrightarrow> tame r (ReleaseClientSession env sw)"
  by (cases sw) (simp add: ReleaseClientSession_def Release_tame)

lemma pool_env_tame: "tame_env (pool_env acquire release :: ('p, ('p, 'y) PoolNet) Env)"
proof -
  let ?m = "\<lparr>ev_acquire = acquire, ev_release = release, ev_OnDisconnectRequest = id, ev_OnReleaseReady = id\<rparr> :: ('p, ('p, 'y) PoolNet) Env"
  let ?r = "?m\<lparr>ev_OnReleaseReady := CompleteRelease ?m\<rparr>"
  have r: "tame_env ?r" by (simp add: tame_env_def CompleteRelease_tame)
  show ?thesis using ReleaseClientSession_tame [OF r tame_refl]
    by (simp add: tame_env_def pool_env_def Let_def CompleteRelease_tame OnDisconnectRequest_def)
qed

section \<open>Receiving and sending\<close>

lemma NotifyDisconnect_tame: "tame_env env \<Longrightarrow> tame r sw \<Longrightarrow> tame r (NotifyDisconnect env sw)"
  by (cases sw) (simp add: NotifyDisconnect_def tame_callbacks)

lemma HandleSocketError_tame:
  assumes env: "tame_env env" and t: "tame r (s, w)"
  shows "tame r (HandleSocketError env e op (s, w))"
proof -
  obtain s1 w1 where 1: "(if op = OP_SEND then (case drop_current env (s, w) of (s, w) \<Rightarrow> (s\<lparr>m_sendOffset := 0, m_sending := False\<rparr>, w))
      else (s, w)) = (s1, w1)" by fastforce
  obtain s0 w0 where 0: "drop_current env (s, w) = (s0, w0)" by fastforce
  have "tame r (s1, w1)" using 1 0 t drop_current_tame [of r env s w] by (auto split: if_splits)
  then have n: "tame r (NotifyDisconnect env (NoteDisconnectReason SocketError s1, w1))" "tame r (s1, w1)"
    by (simp_all add: NotifyDisconnect_tame [OF env])
  show ?thesis unfolding HandleSocketError_def 1 Let_def prod.case using n by (simp add: DecrementIO_tame [OF env])
qed

lemma PrepareWrite_tame: "tame r (s, w) \<Longrightarrow> m_recvPacketBuffer s = Some b \<Longrightarrow> tame r (s\<lparr>m_recvPacketBuffer := Some (PrepareWrite b)\<rparr>, w)"
proof (erule tame_ring)
  assume b: "m_recvPacketBuffer s = Some b"
  show "ring_ok (Some (PrepareWrite b))" if "ring_ok (m_recvPacketBuffer s)"
    using that PrepareWrite_inv_stored(1,3) [of b] unfolding ring_ok_def b by auto
  show "stored_count (s\<lparr>m_recvPacketBuffer := Some (PrepareWrite b)\<rparr>) \<le> stored_count s"
    by (simp add: stored_count_def b PrepareWrite_def Compact_def)
qed

lemma PostReceive_tame:
  assumes P: "PostReceive env (s, w) = (ok, sw')" and e: "tame_env env" and t: "tame r (s, w)"
  shows "tame r sw'"
proof (cases "m_recvPacketBuffer s")
  case None then show ?thesis using P t by (auto simp: PostReceive_def split: if_splits)
next
  case (Some b)
  let ?s = "s\<lparr>m_recvPacketBuffer := Some (PrepareWrite b)\<rparr>"
  note t1 = PrepareWrite_tame [OF t Some]
  obtain began s2 w2 where B: "BeginIO env (?s, w) = (began, s2, w2)" by (cases "BeginIO env (?s, w)") auto
  have "tame r (s2, w2)" by (rule BeginIO_tame [OF B e t1])
  then show ?thesis using P Some B t t1
    by (auto simp: PostReceive_def Let_def ask_os_def split: if_splits option.splits bool.splits intro: HandleSocketError_tame [OF e])
qed

lemma ResumeReceive_tame: "tame_env env \<Longrightarrow> tame r (s, w) \<Longrightarrow> tame r (ResumeReceive env (s, w))"
  by (auto simp: ResumeReceive_def split: prod.splits bool.splits
      intro!: DecrementIO_tame NotifyDisconnect_tame dest: PostReceive_tame [where r = r])

lemma PostReceiveOrPause_tame: "PostReceiveOrPause env (s, w) = (ok, sw') \<Longrightarrow> tame_env env \<Longrightarrow> tame r (s, w) \<Longrightarrow> tame r sw'"
  by (auto simp: PostReceiveOrPause_def Let_def split: if_splits prod.splits bool.splits
      intro: ResumeReceive_tame PostReceive_tame dest!: BeginIO_tame [where r = r])

lemma PostCurrentSend_tame: "PostCurrentSend env (s, w) = (ok, sw') \<Longrightarrow> tame_env env \<Longrightarrow> tame r (s, w) \<Longrightarrow> tame r sw'"
  by (auto simp: PostCurrentSend_def Let_def ask_os_def drop_current_def split: if_splits option.splits prod.splits bool.splits
      intro: HandleSocketError_tame dest!: BeginIO_tame [where r = r])

lemma TrySendNext_tame: "TrySendNext env (s, w) = (ok, sw') \<Longrightarrow> tame_env env \<Longrightarrow> tame r (s, w) \<Longrightarrow> tame r sw'"
  by (auto simp: TrySendNext_def Let_def split: if_splits option.splits prod.splits intro: PostCurrentSend_tame)

lemma OnSendCompleted_tame: "OnSendCompleted env n (s, w) = (ok, sw') \<Longrightarrow> tame_env env \<Longrightarrow> tame r (s, w) \<Longrightarrow> tame r sw'"
proof -
  assume O: "OnSendCompleted env n (s, w) = (ok, sw')" and e: "tame_env env" and t: "tame r (s, w)"
  have d: "tame r (x, v)" if "drop_current env (s\<lparr>m_sendOffset := o1\<rparr>, w) = (x, v)" for x v o1
    using t that drop_current_tame [of r env "s\<lparr>m_sendOffset := o1\<rparr>" w] by simp
  show ?thesis using O e t d
    by (auto simp: OnSendCompleted_def Let_def split: if_splits option.splits prod.splits intro: PostCurrentSend_tame)
      (metis TrySendNext_tame surjective_pairing tame_session)+
qed

lemma EnqueueSendPacket_tame:
  "EnqueueSendPacket env pd n (s, w) = (ok, pd', sw') \<Longrightarrow> tame_env env \<Longrightarrow> tame r (s, w) \<Longrightarrow> tame r sw'"
proof -
  assume O: "EnqueueSendPacket env pd n (s, w) = (ok, pd', sw')" and e: "tame_env env" and t: "tame r (s, w)"
  have "tame r (snd (TrySendNext env (x, v)))" if "tame r (x, v)" for x v
    using TrySendNext_tame [OF surjective_pairing e that] by simp
  then show ?thesis using O t
    by (auto simp: EnqueueSendPacket_def Let_def split: if_splits option.splits prod.splits bool.splits)
qed

lemma send_system_tame: "send_system env bs (s, w) = (ok, sw') \<Longrightarrow> tame_env env \<Longrightarrow> tame r (s, w) \<Longrightarrow> tame r sw'"
  by (auto simp: send_system_def CreatePacket_def split: option.splits prod.splits bool.splits dest!: EnqueueSendPacket_tame)

lemma ResumeReceiveIfDrained_tame: "tame_env env \<Longrightarrow> tame r (s, w) \<Longrightarrow> tame r (ResumeReceiveIfDrained env (s, w))"
  by (simp add: ResumeReceiveIfDrained_def ResumeReceive_tame)

lemma heartbeat_one_tame:
  assumes "heartbeat_one env (s, w) = (ok, sw')" and "tame_env env" and "tame r (s, w)"
  shows "tame r sw'"
  using assms by (auto simp: heartbeat_one_def SendSystemHeartbeatRequest_def split: if_splits prod.splits dest: send_system_tame [where r = r])

section \<open>The packet loop\<close>

text \<open>A granted authentication leaves this frame only by the state of the session.\<close>

definition framed :: "('p, 'y) PoolNet \<Rightarrow> ('p, 'y) PoolNet \<Rightarrow> bool" where
  "framed r sw \<longleftrightarrow> m_sessionRole (fst sw) = m_sessionRole (fst r) \<and> stored_count (fst sw) \<le> stored_count (fst r) \<and>
     (ring_ok (m_recvPacketBuffer (fst r)) \<longrightarrow> ring_ok (m_recvPacketBuffer (fst sw))) \<and> PoolWorld.more (snd sw) = PoolWorld.more (snd r)"

lemma framed_refl [simp]: "framed sw sw"
  by (simp add: framed_def)

lemma framed_trans: "framed r sw \<Longrightarrow> framed sw sw' \<Longrightarrow> framed r sw'"
  by (auto simp: framed_def)

lemma tame_framed: "tame r sw \<Longrightarrow> framed r sw"
  by (simp add: tame_def framed_def)

text \<open>A hook of the service may call the operations of the session; the ring and the server's own state are private to the engine.\<close>

definition service_frames :: "('p, 'y) ServerNet Service \<Rightarrow> bool" where
  "service_frames service \<longleftrightarrow> (\<forall>sw. framed sw (OnClientConnect service sw)) \<and> (\<forall>i a n sw. framed sw (OnReceive service i a n sw)) \<and>
     (\<forall>n sw. framed sw (OnSend service n sw))"

lemma SendSystemAuthResponse_tame:
  "SendSystemAuthResponse env res (s, w) = (ok, sw') \<Longrightarrow> tame_env env \<Longrightarrow> tame r (s, w) \<Longrightarrow> tame r sw'"
  by (auto simp: SendSystemAuthResponse_def split: if_splits dest: send_system_tame [where r = r])

text \<open>Only an authentication request of the right size, version and state, within the capacity, authenticates a session.\<close>

definition auth_granted :: "('p, 'y) ServerNet \<Rightarrow> u16 \<Rightarrow> addr \<Rightarrow> u32 \<Rightarrow> bool" where
  "auth_granted = (\<lambda>(s, w) i a n. i = CS_SYSTEM_AUTH_REQUEST \<and> n = of_nat sizeof_AUTH_REQUEST \<and>
     (m_serverSessionState s = Server_CONNECTED \<or> m_serverSessionState s = Server_AUTH_PENDING) \<and>
     arq_protocolVersion (auth_request_of (nw_mem w a)) = IOCP_ENGINE_PROTOCOL_VERSION \<and>
     (serviceCapacity (m_connectionPolicy w) = 0 \<or> GetInUseCount w \<le> serviceCapacity (m_connectionPolicy w)))"

lemma HandleSystemPacket_frame:
  assumes H: "HandleSystemPacket env i a n (s, w) = (res, s', w')" and env: "tame_env env"
  shows "framed (s, w) (s', w')" and "\<not> auth_granted (s, w) i a n \<Longrightarrow> tame (s, w) (s', w')" and "res \<noteq> System_Ok \<Longrightarrow> tame (s, w) (s', w')"
proof -
  have R: "tame (s, w) (x, v)" if R0: "refuse env reason a (s, w) = (q, x, v)" for reason a q x v
  proof -
    obtain ok where "SendSystemAuthResponse env a (NoteDisconnectReason reason s, w) = (ok, x, v)"
      using R0 by (cases "SendSystemAuthResponse env a (NoteDisconnectReason reason s, w)") (simp add: refuse_def)
    from SendSystemAuthResponse_tame [OF this env] show ?thesis by simp
  qed
  obtain ok s1 w1 where S: "SendSystemAuthResponse env AUTH_SUCCESS (s\<lparr>m_serverSessionState := Server_AUTH_PENDING\<rparr>, w) = (ok, s1, w1)"
    by (cases "SendSystemAuthResponse env AUTH_SUCCESS (s\<lparr>m_serverSessionState := Server_AUTH_PENDING\<rparr>, w)") auto
  have "tame (s, w) (s\<lparr>m_serverSessionState := Server_AUTH_PENDING\<rparr>, w)" by (rule tame_state) simp_all
  from SendSystemAuthResponse_tame [OF S env this] have T: "tame (s, w) (s1, w1)" .
  then have F: "framed (s, w) (s1\<lparr>m_serverSessionState := Server_ESTABLISHED\<rparr>, w1)" by (simp add: tame_def framed_def stored_count_def)
  show "\<not> auth_granted (s, w) i a n \<Longrightarrow> tame (s, w) (s', w')" and r: "res \<noteq> System_Ok \<Longrightarrow> tame (s, w) (s', w')"
    using H S T R by (auto simp: HandleSystemPacket_def auth_granted_def word_gt_0 not_less split: if_splits bool.splits dest: R)
  show "framed (s, w) (s', w')"
  proof (cases "res = System_Ok")
    case False then show ?thesis using r tame_framed by blast
  next
    case True
    then have "(s', w') = (s1\<lparr>m_serverSessionState := Server_ESTABLISHED\<rparr>, w1) \<or> (s', w') = (UpdateLastHeartbeatTick (nw_now w) s, w)"
      using H S by (auto simp: HandleSystemPacket_def refuse_def split: if_splits bool.splits)
    then show ?thesis using F tame_framed [of "(s, w)" "(UpdateLastHeartbeatTick (nw_now w) s, w)"] by auto
  qed
qed

end
