(* ===== verification/ServerRun.thy ===== *)
theory ServerRun
  imports ServerAccounts
begin

text \<open>
  The server over any history: completions in any order, calls of the service, workers that have drained a session, rounds of the heartbeat
  thread. The kernel completes what was posted, each operation once, and writes at most as many bytes as a receive was posted for.
\<close>

section \<open>Events\<close>

datatype server_event =
    Received u32 bytes
  | ReceiveFailed u32 nat
  | Sent u32 u32
  | SendFailed u32 nat
  | Accepted u32 "(string \<times> u16) option"
  | AcceptFailed u32 nat
  | SendPacket u32 addr u32
  | JobsDrained u32
  | HeartbeatRound
  | ZombieRound "nat \<Rightarrow> u64" u64 u64 u64 u64
  | RefillRound
  | Clock u64

text \<open>What the kernel does with a receive before its completion is handled.\<close>

definition kernel_writes :: "bytes \<Rightarrow> ('p, 'y) PoolNet \<Rightarrow> ('p, 'y) PoolNet" where
  "kernel_writes bs = (\<lambda>(s, w). (s\<lparr>m_recvPacketBuffer := map_option (deliver bs) (m_recvPacketBuffer s)\<rparr>, w))"

definition fits_posted :: "u32 \<Rightarrow> bytes \<Rightarrow> posted list \<Rightarrow> bool" where
  "fits_posted i bs ps \<longleftrightarrow> (case last_recv i ps of Some (RecvPosted j a n) \<Rightarrow> length bs \<le> unat n | _ \<Rightarrow> False)"

abbreviation session_of :: "u32 \<Rightarrow> ('p, 'y) PoolWorld_scheme \<Rightarrow> ClientSession" where
  "session_of i w \<equiv> cp_sessions w ! unat i"

text \<open>
  One event, on the receives and sends of each session that have completed and the world; \<open>None\<close> when the kernel cannot produce it. An aborted
  operation was cancelled, which the engine does after setting \<open>m_cancelIo\<close>.
\<close>

fun server_step ::
  "('p, ('p, 'y) ServerNet) Env \<Rightarrow> ('p, 'y) ServerNet Service \<Rightarrow> server_event \<Rightarrow>
     (u32 \<Rightarrow> nat) \<times> (u32 \<Rightarrow> nat) \<times> ('p, 'y) ServerWorld_scheme \<Rightarrow> ((u32 \<Rightarrow> nat) \<times> (u32 \<Rightarrow> nat) \<times> ('p, 'y) ServerWorld_scheme) option" where
  "server_step env service (Received i bs) (dr, ds, w) =
     (if i < cp_capacity w \<and> dr i < recvs i (nw_posted w) \<and> fits_posted i bs (nw_posted w)
      then Some (dr(i := dr i + 1), ds, HandleCompletion env service None (Some (unat i)) (Some (OP_RECV, i)) (of_nat (length bs)) None
        (on_session (unat i) (kernel_writes bs) w))
      else None)"
| "server_step env service (ReceiveFailed i errorCode) (dr, ds, w) =
     (if i < cp_capacity w \<and> dr i < recvs i (nw_posted w) \<and>
         (errorCode = ERROR_OPERATION_ABORTED \<longrightarrow> m_cancelIo (session_of i w))
      then Some (dr(i := dr i + 1), ds, HandleCompletion env service None (Some (unat i)) (Some (OP_RECV, i)) 0 (Some errorCode) w)
      else None)"
| "server_step env service (Sent i n) (dr, ds, w) =
     (if i < cp_capacity w \<and> ds i < sends i (nw_posted w)
      then Some (dr, ds(i := ds i + 1), HandleCompletion env service None (Some (unat i)) (Some (OP_SEND, i)) n None w)
      else None)"
| "server_step env service (SendFailed i errorCode) (dr, ds, w) =
     (if i < cp_capacity w \<and> ds i < sends i (nw_posted w) \<and>
         (errorCode = ERROR_OPERATION_ABORTED \<longrightarrow> m_cancelIo (session_of i w))
      then Some (dr, ds(i := ds i + 1), HandleCompletion env service None (Some (unat i)) (Some (OP_SEND, i)) 0 (Some errorCode) w)
      else None)"
| "server_step env service (Accepted slot remote) (dr, ds, w) =
     Some (dr, ds, HandleCompletion env service remote None (Some (OP_ACCEPT, slot)) 0 None w)"
| "server_step env service (AcceptFailed slot errorCode) (dr, ds, w) =
     Some (dr, ds, HandleCompletion env service None None (Some (OP_ACCEPT, slot)) 0 (Some errorCode) w)"
| "server_step env service (SendPacket i a n) (dr, ds, w) =
     (if i < cp_capacity w
      then Some (dr, ds, on_session (unat i) (\<lambda>sw. snd (snd (EnqueueSendPacket env (Some (Some a)) n sw))) w) else None)"
| "server_step env service (JobsDrained i) (dr, ds, w) =
     (if i < cp_capacity w then Some (dr, ds, on_session (unat i) (ResumeReceiveIfDrained env) w) else None)"
| "server_step env service HeartbeatRound (dr, ds, w) = Some (dr, ds, snd (SendHeartbeatRequests env w))"
| "server_step env service (ZombieRound elapsed now heartbeat stalled budget) (dr, ds, w) =
     Some (dr, ds, snd (DisconnectZombieSessions env elapsed now heartbeat stalled budget w))"
| "server_step env service RefillRound (dr, ds, w) = Some (dr, ds, RefillAcceptSlots w)"
| "server_step env service (Clock now) (dr, ds, w) = Some (dr, ds, w\<lparr>nw_now := now\<rparr>)"

primrec server_run ::
  "('p, ('p, 'y) ServerNet) Env \<Rightarrow> ('p, 'y) ServerNet Service \<Rightarrow> server_event list \<Rightarrow>
     (u32 \<Rightarrow> nat) \<times> (u32 \<Rightarrow> nat) \<times> ('p, 'y) ServerWorld_scheme \<Rightarrow> ((u32 \<Rightarrow> nat) \<times> (u32 \<Rightarrow> nat) \<times> ('p, 'y) ServerWorld_scheme) option" where
  "server_run env service [] st = Some st"
| "server_run env service (e # es) st =
     (case server_step env service e st of None \<Rightarrow> None | Some st' \<Rightarrow> server_run env service es st')"

section \<open>Every event keeps the accounts\<close>

text \<open>An operation on one session that keeps its accounts keeps the server's, and strands no other session.\<close>

definition kept_except ::
  "u32 \<Rightarrow> (u32 \<Rightarrow> nat) \<Rightarrow> (u32 \<Rightarrow> nat) \<Rightarrow> ('p, 'y) PoolWorld_scheme \<Rightarrow> (u32 \<Rightarrow> nat) \<Rightarrow> (u32 \<Rightarrow> nat) \<Rightarrow> ('p, 'y) PoolWorld_scheme \<Rightarrow> bool" where
  "kept_except i dr ds w dr' ds' w' \<longleftrightarrow> server_ok dr' ds' w' \<and> cp_capacity w' = cp_capacity w \<and>
     (\<forall>k x. k \<noteq> i \<longrightarrow> stranded k x dr ds w \<longrightarrow> stranded k x dr' ds' w')"

definition kept :: "(u32 \<Rightarrow> nat) \<Rightarrow> (u32 \<Rightarrow> nat) \<Rightarrow> ('p, 'y) PoolWorld_scheme \<Rightarrow> (u32 \<Rightarrow> nat) \<Rightarrow> (u32 \<Rightarrow> nat) \<Rightarrow> ('p, 'y) PoolWorld_scheme \<Rightarrow> bool" where
  "kept dr ds w dr' ds' w' \<longleftrightarrow> server_ok dr' ds' w' \<and> strands dr ds w dr' ds' w'"

lemma kept_trans: "kept dr ds w dr1 ds1 w1 \<Longrightarrow> kept dr1 ds1 w1 dr' ds' w' \<Longrightarrow> kept dr ds w dr' ds' w'"
  unfolding kept_def using strands_trans by blast

lemma kept_view: "pool_view w' = pool_view w \<Longrightarrow> server_ok dr ds w \<Longrightarrow> kept dr ds w dr ds w'"
  by (simp add: kept_def server_ok_view strands_view)

lemma kept_other: "kept_except i dr ds w dr' ds' w' \<Longrightarrow> (\<And>x. \<not> stranded i x dr ds w) \<Longrightarrow> kept dr ds w dr' ds' w'"
  unfolding kept_def kept_except_def strands_def by metis

lemma kept_idle: "kept_except i dr ds w dr' ds' w' \<Longrightarrow> (\<And>x. stranded i x dr ds w \<Longrightarrow> stranded i x dr' ds' w') \<Longrightarrow> kept dr ds w dr' ds' w'"
  unfolding kept_def kept_except_def strands_def by metis

lemma session_acct: "server_ok dr ds w \<Longrightarrow> i < cp_capacity w \<Longrightarrow> acct i (False, session_of i w, w) 0 0 0 (dr i) (ds i) (session_of i w, w)"
  by (simp add: server_ok_def)

lemma on_session_keep:
  assumes S: "server_ok dr ds w" and i: "i < cp_capacity w"
    and f: "\<And>s' w'. f (session_of i w, w) = (s', w') \<Longrightarrow> acct i (False, session_of i w, w) 0 0 0 a b (s', w')"
  shows "kept_except i dr ds w (dr(i := a)) (ds(i := b)) (on_session (unat i) f w)"
  unfolding kept_except_def
proof (intro conjI allI impI)
  obtain s' w' where F: "f (session_of i w, w) = (s', w')" by fastforce
  note A = f [OF F]
  show "server_ok (dr(i := a)) (ds(i := b)) (on_session (unat i) f w)"
    by (rule on_session_ok [where f = f, OF S i F]) (use acct_rebase [OF A, of False] acct_others [OF A] in simp_all)
  show "cp_capacity (on_session (unat i) f w) = cp_capacity w"
    using acct_others [OF A] F by (simp add: on_session_def others_same_def)
  have "pool_ok w" using S by (simp add: server_ok_def)
  then show "stranded k x (dr(i := a)) (ds(i := b)) (on_session (unat i) f w)" if "k \<noteq> i" "stranded k x dr ds w" for k x
    by (intro stranded_on_session [where f = f, OF that(2,1) _ F]) (use acct_others [OF A] in simp_all)
qed

text \<open>A completed operation hands its count to the handler.\<close>

lemma recv_completes:
  assumes "acct i r0 0 0 0 dr ds (s, w)" and "dr < recvs i (nw_posted w)" and "\<not> fst r0"
  shows "acct i r0 1 1 0 (dr + 1) ds (s, w)"
  using assms by (auto simp: acct_iff acct_base_def held_def ring_posted_def clean_def)

lemma send_completes:
  assumes "acct i r0 0 0 0 dr ds (s, w)" and "ds < sends i (nw_posted w)" and "\<not> fst r0"
  shows "acct i r0 1 0 1 dr (ds + 1) (s, w)"
  using assms by (auto simp: acct_iff acct_base_def held_def ring_posted_def clean_def)

lemma posted_room:
  assumes "acct i r0 0 0 0 dr ds (s, w)" and "dr < recvs i (nw_posted w)" and "fits_posted i bs (nw_posted w)"
  shows "\<exists>b buf. m_recvPacketBuffer s = Some b \<and> rb_inv b \<and> rb_buffer b = Some buf \<and> length bs \<le> unat (GetWriteableSize b)"
  using assms by (auto simp: acct_def acct_base_def ring_posted_def fits_posted_def ring_ok_def)

lemma posted_commits:
  assumes "rb_inv b" and "rb_buffer b = Some buf" and "length bs \<le> unat (GetWriteableSize b)" and "bs \<noteq> []"
  shows "\<exists>bf. CommitWrite (of_nat (length bs)) (deliver bs b) = (True, bf) \<and> ring_ok (Some bf)"
proof -
  obtain ok bf where C: "CommitWrite (of_nat (length bs)) (deliver bs b) = (ok, bf)" by fastforce
  from deliver_commit [OF assms C] C show ?thesis by (auto simp: ring_ok_def)
qed

lemma deliver_inv:
  assumes "rb_inv b" and "rb_buffer b = Some buf" and "length bs \<le> unat (GetWriteableSize b)"
  shows "rb_inv (deliver bs b)" and "rb_buffer (deliver bs b) \<noteq> None"
  using assms writeable_bounds(1) [OF assms] by (simp_all add: rb_inv_def deliver_def)

lemma deliver_ring_sels [simp]:
  "GetWriteableSize (deliver bs b) = GetWriteableSize b" "GetWriteablePtr (deliver bs b) = None \<longleftrightarrow> GetWriteablePtr b = None"
  "the (GetWriteablePtr (deliver bs b)) = the (GetWriteablePtr b)" "rb_storedSize (deliver bs b) = rb_storedSize b"
  "rb_readPos (deliver bs b) = rb_readPos b" "rb_writePos (deliver bs b) = rb_writePos b"
  by (auto simp: deliver_def GetWriteableSize_def GetWriteablePtr_def IsFull_def Let_def split: option.splits)

lemma kernel_writes_ok:
  assumes S: "server_ok dr ds w" and i: "i < cp_capacity w"
    and b: "m_recvPacketBuffer (session_of i w) = Some b" "rb_inv b" "rb_buffer b = Some buf" "length bs \<le> unat (GetWriteableSize b)"
  shows "kept_except i dr ds w dr ds (on_session (unat i) (kernel_writes bs) w)"
proof -
  have "kept_except i dr ds w (dr(i := dr i)) (ds(i := ds i)) (on_session (unat i) (kernel_writes bs) w)"
  proof (rule on_session_keep [OF S i])
    fix s' w' assume k: "kernel_writes bs (session_of i w, w) = (s', w')"
    let ?s = "session_of i w"
    have e: "w' = w" "s' = ?s\<lparr>m_recvPacketBuffer := map_option (deliver bs) (m_recvPacketBuffer ?s)\<rparr>"
      using k by (auto simp: kernel_writes_def)
    have A: "acct i (False, ?s, w) 0 0 0 (dr i) (ds i) (?s, w)" by (rule session_acct [OF S i])
    have c: "clean s'" if "clean ?s" using that by (auto simp: e(2) clean_def)
    have r: "ring_posted i (dr i) s' (nw_posted w)" if "ring_posted i (dr i) ?s (nw_posted w)"
      using that by (auto simp: e(2) ring_posted_def)
    have f: "m_sessionId s' = m_sessionId ?s" "m_ioCount s' = m_ioCount ?s" "m_recvPaused s' = m_recvPaused ?s"
      "m_sending s' = m_sending ?s" "m_releaseReadyFunc s' = m_releaseReadyFunc ?s" "m_eventHandler s' = m_eventHandler ?s"
      "m_sessionRole s' = m_sessionRole ?s" "m_serviceConnectNotified s' = m_serviceConnectNotified ?s"
      "m_releasePending s' = m_releasePending ?s" "m_cancelIo s' = m_cancelIo ?s" "m_disconnectReason s' = m_disconnectReason ?s"
      "IsTransportConnected s' = IsTransportConnected ?s" by (simp_all add: e(2) IsTransportConnected_def)
    have ring: "ring_ok (m_recvPacketBuffer s')" unfolding ring_ok_def
      by (rule exI [of _ "deliver bs b"], intro conjI) (use deliver_inv [OF b(2-4)] in \<open>simp_all add: e(2) b(1)\<close>)
    show "acct i (False, ?s, w) 0 0 0 (dr i) (ds i) (s', w')"
      using A c r ring unfolding e(1) acct_iff acct_base_def held_def by (simp add: f)
  qed
  then show ?thesis by simp
qed

text \<open>A session that is not connected refuses every packet.\<close>

lemma EnqueueSendPacket_idle:
  assumes "\<not> IsTransportConnected s" and E: "EnqueueSendPacket env packetData sz (s, w) = (ok, p, s', w')"
  shows "s' = s \<and> w' = w \<or> reject NotEstablished (s, w) = (s', w')"
proof -
  have "\<not> CanSendPacket x s" for x
    using assms(1) by (auto simp: CanSendPacket_def IsTransportConnected_def IsEstablished_def split: if_splits)
  then show ?thesis using E by (auto simp: EnqueueSendPacket_def Let_def split: option.splits if_splits)
qed

lemma EnqueueSendPacket_free:
  assumes A: "acct i r0 0 0 0 dr ds (s, w)" and fr: "pool_state (s, w) = SESSION_POOL_FREE"
    and E: "EnqueueSendPacket env packetData sz (s, w) = (ok, p, s', w')"
  shows "acct i r0 0 0 0 dr ds (s', w')"
proof -
  have cl: "clean s" using A fr by (simp add: acct_def state_ok_def)
  then have "\<not> IsTransportConnected s" using A by (simp add: IsTransportConnected_def clean_def acct_def acct_base_def)
  from EnqueueSendPacket_idle [OF this E] have "s' = s \<and> w' = w \<or> reject NotEstablished (s, w) = (s', w')" .
  then show ?thesis
  proof
    assume "s' = s \<and> w' = w" then show ?thesis using A by simp
  next
    assume R: "reject NotEstablished (s, w) = (s', w')"
    note r = reject_view [OF R]
    have c: "clean s'" using R cl by (auto simp: reject_def ShouldLogSendReject_def Let_def clean_def split: if_splits)
    note f = sess_viewD [OF r(1)]
    show ?thesis using A c unfolding acct_iff acct_base_def held_def ring_posted_def by (simp add: f r(2))
  qed
qed

lemma send_packet_keep:
  assumes A: "acct i r0 0 0 0 dr ds (s, w)" and env: "asks env"
    and E: "snd (snd (EnqueueSendPacket env packetData sz (s, w))) = (s', w')"
  shows "acct i r0 0 0 0 dr ds (s', w')"
proof -
  obtain ok p where Q: "EnqueueSendPacket env packetData sz (s, w) = (ok, p, s', w')"
    using E by (cases "EnqueueSendPacket env packetData sz (s, w)") simp
  show ?thesis
  proof (cases "pool_state (s, w) = SESSION_POOL_FREE")
    case True from EnqueueSendPacket_free [OF A True Q] show ?thesis .
  next
    case False from EnqueueSendPacket_acct [OF A _ env False Q] show ?thesis by simp
  qed
qed

lemma heartbeat_keep:
  assumes S: "server_ok dr ds w" and env: "asks env" and i: "i < cp_capacity w"
  shows "kept dr ds w dr ds (on_session (unat i) (\<lambda>sw. snd (heartbeat_one env sw)) w) \<and>
    cp_capacity (on_session (unat i) (\<lambda>sw. snd (heartbeat_one env sw)) w) = cp_capacity w"
proof -
  have "kept_except i dr ds w (dr(i := dr i)) (ds(i := ds i)) (on_session (unat i) (\<lambda>sw. snd (heartbeat_one env sw)) w)"
  proof (rule on_session_keep [OF S i])
    fix s' w' assume h: "snd (heartbeat_one env (session_of i w, w)) = (s', w')"
    note A = session_acct [OF S i]
    obtain ok where "SendSystemHeartbeatRequest env (session_of i w, w) = (ok, s', w') \<or> (s', w') = (session_of i w, w)"
      using h by (cases "SendSystemHeartbeatRequest env (session_of i w, w)") (auto simp: heartbeat_one_def split: if_splits)
    then show "acct i (False, session_of i w, w) 0 0 0 (dr i) (ds i) (s', w')"
      using A SendSystemHeartbeatRequest_acct [OF A _ env] by auto
  qed
  then have K: "kept_except i dr ds w dr ds (on_session (unat i) (\<lambda>sw. snd (heartbeat_one env sw)) w)" by simp
  have "on_session (unat i) (\<lambda>sw. snd (heartbeat_one env sw)) w = w" if "stranded i x dr ds w" for x
    using that by (simp add: on_session_def heartbeat_one_def stranded_def IsTransportConnected_def IsEstablished_def split: if_splits)
  then have "kept dr ds w dr ds (on_session (unat i) (\<lambda>sw. snd (heartbeat_one env sw)) w)" using kept_idle [OF K] by metis
  with K show ?thesis by (simp add: kept_except_def)
qed

lemma zombie_release_acct:
  assumes S: "server_ok dr ds w" and i: "i < cp_capacity w" and reason: "reason \<noteq> Unknown" and t: "IsTransportConnected (session_of i w)"
    and r: "ClientSessionPool_Release env (MarkHeartbeatTimeout (NoteDisconnectReason reason (session_of i w)), w) = (s', w')"
  shows "acct i (False, session_of i w, w) 0 0 0 (dr i) (ds i) (s', w')" and "pool_state (s', w') \<noteq> SESSION_POOL_IN_USE"
proof -
  let ?s = "session_of i w"
  note A = session_acct [OF S i]
  have nf: "pool_state (?s, w) \<noteq> SESSION_POOL_FREE" by (rule acct_not_free [OF A]) (use t in simp)
  let ?m = "MarkHeartbeatTimeout (NoteDisconnectReason reason ?s)"
  have role: "m_sessionRole ?s = ROLE_SERVER" using A by (simp add: acct_def acct_base_def)
  have f: "m_sessionId ?m = m_sessionId ?s" "m_ioCount ?m = m_ioCount ?s" "m_recvPaused ?m = m_recvPaused ?s"
    "m_sending ?m = m_sending ?s" "m_releaseReadyFunc ?m = m_releaseReadyFunc ?s" "m_eventHandler ?m = m_eventHandler ?s"
    "m_sessionRole ?m = m_sessionRole ?s" "m_serviceConnectNotified ?m = m_serviceConnectNotified ?s"
    "m_releasePending ?m = m_releasePending ?s" "m_cancelIo ?m = m_cancelIo ?s" "m_recvPacketBuffer ?m = m_recvPacketBuffer ?s"
    "IsTransportConnected ?m" "m_disconnectReason ?m \<noteq> Unknown"
    using role reason by (auto simp: MarkHeartbeatTimeout_def NoteDisconnectReason_def IsTransportConnected_def)
  have "acct i (False, ?s, w) 0 0 0 (dr i) (ds i) (?m, w)"
    using A nf t unfolding acct_iff acct_base_def held_def ring_posted_def by (simp add: f)
  from Release_acct [OF this _ f(13) r]
  show "acct i (False, ?s, w) 0 0 0 (dr i) (ds i) (s', w')" and "pool_state (s', w') \<noteq> SESSION_POOL_IN_USE" by simp_all
qed

lemma zombie_keep:
  assumes S: "server_ok dr ds w" and i: "i < cp_capacity w" and reason: "reason \<noteq> Unknown" and t: "IsTransportConnected (session_of i w)"
  shows "kept_except i dr ds w dr ds
    (on_session (unat i) (\<lambda>(s, w). ClientSessionPool_Release env (MarkHeartbeatTimeout (NoteDisconnectReason reason s), w)) w)"
proof -
  let ?f = "\<lambda>(s, w). ClientSessionPool_Release env (MarkHeartbeatTimeout (NoteDisconnectReason reason s), w)"
  have "kept_except i dr ds w (dr(i := dr i)) (ds(i := ds i)) (on_session (unat i) ?f w)"
  proof (rule on_session_keep [OF S i])
    fix s' w' assume "?f (session_of i w, w) = (s', w')"
    then show "acct i (False, session_of i w, w) 0 0 0 (dr i) (ds i) (s', w')" by (intro zombie_release_acct(1) [OF S i reason t]) simp
  qed
  then show ?thesis by simp
qed

text \<open>The rounds of the heartbeat thread go over all sessions.\<close>

lemma server_ok_capacity: "server_ok dr ds w \<Longrightarrow> length (cp_sessions w) = unat (cp_capacity w)"
  by (simp add: server_ok_def pool_ok_def)

lemma slot_index:
  assumes "server_ok dr ds w" and "i < length (cp_sessions w)"
  obtains k :: u32 where "unat k = i" and "k < cp_capacity w"
proof -
  have "i < unat (cp_capacity w)" using assms server_ok_capacity by metis
  then have "unat (of_nat i :: u32) = i"
    using unsigned_less [of "cp_capacity w", where 'a = nat] by (simp add: unat_of_nat)
  with \<open>i < unat (cp_capacity w)\<close> show thesis using that by (simp add: word_less_nat_alt)
qed

lemma heartbeat_round_ok:
  assumes S: "server_ok dr ds w" and env: "asks env"
  shows "kept dr ds w dr ds (snd (SendHeartbeatRequests env w))"
proof -
  define step where "step = (\<lambda>i (sentCount :: u32, w). (case heartbeat_one env (cp_sessions w ! i, w) of
      (sent, s, w') \<Rightarrow> (if sent then sentCount + 1 else sentCount, w'\<lparr>cp_sessions := (cp_sessions w')[i := s]\<rparr>)))"
  have "kept dr ds w dr ds (snd (fold step is (n, w)))" if "server_ok dr ds w" "set is \<subseteq> {0..<unat (cp_capacity w)}" for "is" n w
    using that
  proof (induction "is" arbitrary: n w)
    case Nil then show ?case by (simp add: kept_def)
  next
    case (Cons i "is")
    then obtain k where k: "unat k = i" "k < cp_capacity w" using slot_index server_ok_capacity
      by (metis atLeastLessThan_iff insert_subset list.set(2))
    obtain sent s w' where H: "heartbeat_one env (cp_sessions w ! i, w) = (sent, s, w')" by (cases "heartbeat_one env (cp_sessions w ! i, w)")
    let ?n = "if sent then n + 1 else n" and ?w = "w'\<lparr>cp_sessions := (cp_sessions w')[i := s]\<rparr>"
    have e: "step i (n, w) = (?n, ?w)" by (simp add: step_def H)
    have "on_session (unat k) (\<lambda>sw. snd (heartbeat_one env sw)) w = ?w" by (simp add: on_session_def k(1) H)
    then have S': "kept dr ds w dr ds ?w" "cp_capacity ?w = cp_capacity w" using heartbeat_keep [OF Cons.prems(1) env k(2)] by simp_all
    then have "kept dr ds ?w dr ds (snd (fold step is (?n, ?w)))" using Cons.IH [of ?w ?n] Cons.prems(2) by (simp add: kept_def)
    then show ?case using kept_trans [OF S'(1)] e by simp
  qed
  from this [OF S, of "[0..<length (cp_sessions w)]" 0] server_ok_capacity [OF S]
  show ?thesis unfolding SendHeartbeatRequests_def step_def [symmetric] by simp
qed

lemma zombie_reason_known: "zombie_reason now h st s = Some r \<Longrightarrow> r \<noteq> Unknown \<and> IsTransportConnected s"
  by (auto simp: zombie_reason_def split: if_splits)

lemma zombie_pass_ok:
  assumes "server_ok dr ds w" and "set is \<subseteq> {0..<unat (cp_capacity w)}"
  shows "kept dr ds w dr ds (snd (zombie_pass is env elapsed now h st budget n w))"
  using assms
proof (induction "is" arbitrary: n w)
  case Nil then show ?case by (simp add: kept_def)
next
  case (Cons i "is")
  then obtain k where k: "unat k = i" "k < cp_capacity w" using slot_index server_ok_capacity
    by (metis atLeastLessThan_iff insert_subset list.set(2))
  show ?case
  proof (cases "zombie_reason now h st (cp_sessions w ! i)")
    case None then show ?thesis using Cons by simp
  next
    case (Some r)
    let ?w = "on_session i (\<lambda>(s, w). ClientSessionPool_Release env (MarkHeartbeatTimeout (NoteDisconnectReason r s), w)) w"
    note z = zombie_reason_known [OF Some]
    have K: "kept_except k dr ds w dr ds ?w" using zombie_keep [OF Cons.prems(1) k(2), of r env] z k(1) by simp
    then have w: "kept dr ds w dr ds ?w" using kept_other [OF K] z k(1) by (simp add: stranded_def)
    then have "kept dr ds ?w dr ds (snd (zombie_pass is env elapsed now h st budget (n + 1) ?w))"
      using Cons.IH [of ?w "n + 1"] Cons.prems(2) K by (simp add: kept_def kept_except_def)
    moreover have "kept dr ds w dr ds w" using Cons.prems(1) by (simp add: kept_def)
    ultimately show ?thesis using kept_trans [OF w] Some by (auto simp: Let_def)
  qed
qed

text \<open>
  What the pass does to each session: one that is no zombie is left as it was; a zombie is no longer in use afterwards, unless the time was up
  when the pass came to it and another had been ended before it.
\<close>

lemma zombie_one:
  assumes S: "server_ok dr ds w" and k: "k < cp_capacity w" and reason: "reason \<noteq> Unknown" and t: "IsTransportConnected (session_of k w)"
    and w': "w' = on_session (unat k) (\<lambda>(s, w). ClientSessionPool_Release env (MarkHeartbeatTimeout (NoteDisconnectReason reason s), w)) w"
  shows "server_ok dr ds w'" and "cp_capacity w' = cp_capacity w"
    and "j \<noteq> unat k \<Longrightarrow> j < unat (cp_capacity w) \<Longrightarrow>
      cp_sessions w' ! j = cp_sessions w ! j \<and> poolState (cp_nodes w' ! j) = poolState (cp_nodes w ! j)"
    and "poolState (cp_nodes w' ! unat k) \<noteq> SESSION_POOL_IN_USE"
proof -
  obtain s1 w1 where r: "ClientSessionPool_Release env (MarkHeartbeatTimeout (NoteDisconnectReason reason (session_of k w)), w) = (s1, w1)"
    by fastforce
  have e: "w' = w1\<lparr>cp_sessions := (cp_sessions w1)[unat k := s1]\<rparr>" using r by (simp add: w' on_session_def)
  note z = zombie_release_acct [OF S k reason t r]
  have o: "others_same k w w1" and id: "m_sessionId s1 = k" using z(1) by (simp_all add: acct_def acct_base_def)
  show "server_ok dr ds w'" "cp_capacity w' = cp_capacity w"
    using zombie_keep [OF S k reason t, of env] unfolding w' by (simp_all add: kept_except_def)
  have "length (cp_nodes w) = unat (cp_capacity w)" using S by (simp add: server_ok_def pool_ok_def)
  then show "cp_sessions w' ! j = cp_sessions w ! j \<and> poolState (cp_nodes w' ! j) = poolState (cp_nodes w ! j)"
    if "j \<noteq> unat k" "j < unat (cp_capacity w)" for j
    using o that by (simp add: e others_same_def)
  show "poolState (cp_nodes w' ! unat k) \<noteq> SESSION_POOL_IN_USE" using z(2) id by (simp add: e)
qed

lemma zombie_pass_each:
  fixes now T S :: u64 and w :: "('p, 'y) PoolWorld_scheme"
  defines "zombie \<equiv> \<lambda>(w :: ('p, 'y) PoolWorld_scheme) j. zombie_reason now T S (cp_sessions w ! j) \<noteq> None"
  assumes "server_ok dr ds w" and "distinct is" and "set is \<subseteq> {0..<unat (cp_capacity w)}"
    and "w' = snd (zombie_pass is env elapsed now T S budget n w)"
  shows "\<And>j. j < unat (cp_capacity w) \<Longrightarrow> j \<notin> set is \<or> \<not> zombie w j \<Longrightarrow>
      cp_sessions w' ! j = cp_sessions w ! j \<and> poolState (cp_nodes w' ! j) = poolState (cp_nodes w ! j)"
    and "\<And>xs j ys. is = xs @ j # ys \<Longrightarrow> zombie w j \<Longrightarrow>
      (\<forall>k \<in> set (xs @ [j]). zombie w k \<longrightarrow> elapsed k < budget) \<or> n = 0 \<and> (\<forall>k \<in> set xs. \<not> zombie w k) \<Longrightarrow>
      poolState (cp_nodes w' ! j) \<noteq> SESSION_POOL_IN_USE"
proof -
  have "(\<forall>j < unat (cp_capacity w). j \<notin> set is \<or> \<not> zombie w j \<longrightarrow>
        cp_sessions w' ! j = cp_sessions w ! j \<and> poolState (cp_nodes w' ! j) = poolState (cp_nodes w ! j)) \<and>
      (\<forall>xs j ys. is = xs @ j # ys \<longrightarrow> zombie w j \<longrightarrow>
        (\<forall>k \<in> set (xs @ [j]). zombie w k \<longrightarrow> elapsed k < budget) \<or> n = 0 \<and> (\<forall>k \<in> set xs. \<not> zombie w k) \<longrightarrow>
        poolState (cp_nodes w' ! j) \<noteq> SESSION_POOL_IN_USE)"
    using assms(2-5)
  proof (induction "is" arbitrary: n w)
    case Nil then show ?case by simp
  next
    case (Cons i "is")
    obtain k where k: "unat k = i" "k < cp_capacity w" using Cons.prems(1,3) slot_index server_ok_capacity
      by (metis atLeastLessThan_iff insert_subset list.set(2))
    have i: "i < unat (cp_capacity w)" "i \<notin> set is" "distinct is" "set is \<subseteq> {0..<unat (cp_capacity w)}" using Cons.prems by simp_all
    show ?case
    proof (cases "zombie_reason now T S (cp_sessions w ! i)")
      case None
      then have nz: "\<not> zombie w i" and e: "w' = snd (zombie_pass is env elapsed now T S budget n w)"
        using Cons.prems(4) by (simp_all add: zombie_def)
      note IH = Cons.IH [OF Cons.prems(1) i(3,4) e]
      show ?thesis
      proof (intro conjI allI impI; (elim conjE)?)
        fix j assume "j < unat (cp_capacity w)" "j \<notin> set (i # is) \<or> \<not> zombie w j"
        then show "cp_sessions w' ! j = cp_sessions w ! j" "poolState (cp_nodes w' ! j) = poolState (cp_nodes w ! j)" using IH by auto
      next
        fix xs j ys assume l: "i # is = xs @ j # ys" and z: "zombie w j"
          and b: "(\<forall>k \<in> set (xs @ [j]). zombie w k \<longrightarrow> elapsed k < budget) \<or> n = 0 \<and> (\<forall>k \<in> set xs. \<not> zombie w k)"
        from l z nz obtain xs' where xs: "xs = i # xs'" "is = xs' @ j # ys" by (cases xs) auto
        have "(\<forall>k \<in> set (xs' @ [j]). zombie w k \<longrightarrow> elapsed k < budget) \<or> n = 0 \<and> (\<forall>k \<in> set xs'. \<not> zombie w k)"
          using b xs(1) by auto
        with IH xs(2) z show "poolState (cp_nodes w' ! j) \<noteq> SESSION_POOL_IN_USE" by blast
      qed
    next
      case (Some r)
      then have zi: "zombie w i" by (simp add: zombie_def)
      show ?thesis
      proof (cases "n > 0 \<and> elapsed i \<ge> budget")
        case True
        then have e: "w' = w" and late: "n \<noteq> 0" "\<not> elapsed i < budget" using Cons.prems(4) Some by auto
        show ?thesis
        proof (intro conjI allI impI)
          fix xs j ys assume l: "i # is = xs @ j # ys"
            and b: "(\<forall>k \<in> set (xs @ [j]). zombie w k \<longrightarrow> elapsed k < budget) \<or> n = 0 \<and> (\<forall>k \<in> set xs. \<not> zombie w k)"
          from l have "i \<in> set (xs @ [j])" by (cases xs) auto
          with b zi late show "poolState (cp_nodes w' ! j) \<noteq> SESSION_POOL_IN_USE" by blast
        qed (simp_all add: e)
      next
        case False
        define w1 where "w1 = on_session i (\<lambda>(s, w). ClientSessionPool_Release env (MarkHeartbeatTimeout (NoteDisconnectReason r s), w)) w"
        have e: "w' = snd (zombie_pass is env elapsed now T S budget (n + 1) w1)"
          using Cons.prems(4) Some False by (auto simp: w1_def Let_def)
        have kn: "r \<noteq> Unknown" "IsTransportConnected (session_of k w)" using zombie_reason_known [OF Some] k(1) by simp_all
        note one = zombie_one [OF Cons.prems(1) k(2) kn w1_def [folded k(1)], unfolded k(1)]
        have c: "cp_capacity w1 = cp_capacity w" by (rule one(2))
        note IH = Cons.IH [OF one(1) i(3) i(4) [folded c] e, unfolded c]
        have zw: "zombie w1 j = zombie w j" if "j \<noteq> i" "j < unat (cp_capacity w)" for j
          using one(3) [OF that] by (simp add: zombie_def)
        show ?thesis
        proof (intro conjI allI impI)
          fix j assume j: "j < unat (cp_capacity w)" "j \<notin> set (i # is) \<or> \<not> zombie w j"
          then have ji: "j \<noteq> i" "j \<notin> set is \<or> \<not> zombie w1 j" using zi zw [of j] by auto
          show "cp_sessions w' ! j = cp_sessions w ! j" "poolState (cp_nodes w' ! j) = poolState (cp_nodes w ! j)"
            using IH j(1) ji(2) one(3) [OF ji(1) j(1)] by auto
        next
          fix xs j ys assume l: "i # is = xs @ j # ys" and z: "zombie w j"
            and b: "(\<forall>k \<in> set (xs @ [j]). zombie w k \<longrightarrow> elapsed k < budget) \<or> n = 0 \<and> (\<forall>k \<in> set xs. \<not> zombie w k)"
          show "poolState (cp_nodes w' ! j) \<noteq> SESSION_POOL_IN_USE"
          proof (cases xs)
            case Nil
            then have "j = i" using l by simp
            with IH i(1,2) one(4) show ?thesis by auto
          next
            case (Cons x xs')
            then have xs: "x = i" "is = xs' @ j # ys" using l by simp_all
            have lt: "k < unat (cp_capacity w) \<and> k \<noteq> i" if "k \<in> set (xs' @ [j])" for k using that i xs(2) by auto
            have "\<forall>k \<in> set (xs' @ [j]). zombie w1 k \<longrightarrow> elapsed k < budget" using b Cons xs(1) zi zw lt by auto
            moreover have "zombie w1 j" using z zw lt [of j] by simp
            ultimately show ?thesis using IH xs(2) by blast
          qed
        qed
      qed
    qed
  qed
  then show "\<And>j. j < unat (cp_capacity w) \<Longrightarrow> j \<notin> set is \<or> \<not> zombie w j \<Longrightarrow>
      cp_sessions w' ! j = cp_sessions w ! j \<and> poolState (cp_nodes w' ! j) = poolState (cp_nodes w ! j)"
    and "\<And>xs j ys. is = xs @ j # ys \<Longrightarrow> zombie w j \<Longrightarrow>
      (\<forall>k \<in> set (xs @ [j]). zombie w k \<longrightarrow> elapsed k < budget) \<or> n = 0 \<and> (\<forall>k \<in> set xs. \<not> zombie w k) \<Longrightarrow>
      poolState (cp_nodes w' ! j) \<noteq> SESSION_POOL_IN_USE" by blast+
qed

lemma zombie_round_ok:
  assumes "server_ok dr ds w"
  shows "kept dr ds w dr ds (snd (DisconnectZombieSessions env elapsed now h st budget w))"
  using zombie_pass_ok [OF assms, of "[0..<length (cp_sessions w)]"] server_ok_capacity [OF assms] assms
  by (simp add: DisconnectZombieSessions_def kept_def)

lemma refill_view: "pool_view (snd (refill_from is n w)) = pool_view w"
proof (induction "is" arbitrary: n w)
  case Nil then show ?case by simp
next
  case (Cons i "is")
  show ?case
  proof (cases "GetAcceptSession (of_nat i) w")
    case None then show ?thesis using Cons by simp
  next
    case (Some j)
    obtain own s1 where T: "TryAcquireSlot (as_sessions w ! j) = (own, s1)" by fastforce
    obtain ok s2 w2 where P: "PostAccept (s1, w) = (ok, s2, w2)" by (cases "PostAccept (s1, w)") auto
    obtain s3 w3 where R: "ReleaseSlot (s2, w2) = (s3, w3)" by fastforce
    show ?thesis using Some T P R Cons PostAccept_view [OF P] ReleaseSlot_view [OF R] by (cases own; cases ok) simp_all
  qed
qed

lemma RefillAcceptSlots_view: "pool_view (RefillAcceptSlots w) = pool_view w"
proof -
  obtain n w1 where "refill_from [0..<unat (as_capacity w)] 0 w = (n, w1)" by fastforce
  with refill_view [of "[0..<unat (as_capacity w)]" 0 w] show ?thesis by (simp add: RefillAcceptSlots_def)
qed

text \<open>The hooks of a service that keep the accounts.\<close>

definition service_ok :: "('p, 'y) ServerNet Service \<Rightarrow> bool" where
  "service_ok service \<longleftrightarrow> keeps (OnClientConnect service) \<and> (\<forall>i a n. keeps (OnReceive service i a n)) \<and> (\<forall>n. keeps (OnSend service n))"

lemma server_step_ok:
  assumes S: "server_ok dr ds w" and env: "asks env" and service: "service_ok service"
    and E: "server_step env service e (dr, ds, w) = Some (dr', ds', w')"
  shows "kept dr ds w dr' ds' w'"
proof -
  have hooks: "keeps (OnClientConnect service)" "\<And>i a n. keeps (OnReceive service i a n)" "\<And>n. keeps (OnSend service n)"
    using service by (simp_all add: service_ok_def)
  show ?thesis
  proof (cases e)
    case (Received i bs)
    then have i: "i < cp_capacity w" and o: "dr i < recvs i (nw_posted w)" and fit: "fits_posted i bs (nw_posted w)"
      and e: "dr' = dr(i := dr i + 1)" "ds' = ds"
        "w' = on_session (unat i) (HandleRecv env service (of_nat (length bs))) (on_session (unat i) (kernel_writes bs) w)"
      using E by (auto simp: HandleCompletion_def split: if_splits)
    let ?w = "on_session (unat i) (kernel_writes bs) w"
    obtain b buf where b: "m_recvPacketBuffer (session_of i w) = Some b" "rb_inv b" "rb_buffer b = Some buf"
        "length bs \<le> unat (GetWriteableSize b)"
      using posted_room [OF session_acct [OF S i] o fit] by blast
    have S1: "server_ok dr ds ?w" and i1: "i < cp_capacity ?w" using kernel_writes_ok [OF S i b] i by (simp_all add: kept_except_def)
    have l: "unat i < length (cp_sessions w)" using server_ok_capacity [OF S] i by (simp add: word_less_nat_alt)
    have p: "nw_posted ?w = nw_posted w" "m_recvPacketBuffer (session_of i ?w) = map_option (deliver bs) (m_recvPacketBuffer (session_of i w))"
      using l by (simp_all add: on_session_def kernel_writes_def)
    have K: "kept_except i dr ds ?w (dr(i := dr i + 1)) (ds(i := ds i)) (on_session (unat i) (HandleRecv env service (of_nat (length bs))) ?w)"
    proof (rule on_session_keep [OF S1 i1])
      fix s' v' assume H: "HandleRecv env service (of_nat (length bs)) (session_of i ?w, ?w) = (s', v')"
      have A: "acct i (False, session_of i ?w, ?w) 1 1 0 (dr i + 1) (ds i) (session_of i ?w, ?w)"
        by (rule recv_completes [OF session_acct [OF S1 i1]]) (use o p in simp_all)
      have room: "of_nat (length bs) = (0 :: u32) \<or>
          (\<exists>bf. CommitWrite (of_nat (length bs)) (the (m_recvPacketBuffer (session_of i ?w))) = (True, bf) \<and> ring_ok (Some bf))"
        using posted_commits [OF b(2-4)] p(2) b(1) by (cases "bs = []") auto
      show "acct i (False, session_of i ?w, ?w) 0 0 0 (dr i + 1) (ds i) (s', v')"
        by (rule HandleRecv_acct [OF A env hooks(2) room H])
    qed
    have "kept_except i dr ds w (dr(i := dr i + 1)) (ds(i := ds i)) (on_session (unat i) (HandleRecv env service (of_nat (length bs))) ?w)"
      using kernel_writes_ok [OF S i b] K unfolding kept_except_def by simp
    from kept_other [OF this] o show ?thesis by (simp add: e stranded_def)
  next
    case (ReceiveFailed i errorCode)
    then have i: "i < cp_capacity w" and o: "dr i < recvs i (nw_posted w)" and ab: "errorCode = ERROR_OPERATION_ABORTED \<longrightarrow> m_cancelIo (session_of i w)"
      and e: "dr' = dr(i := dr i + 1)" "ds' = ds" "w' = on_session (unat i) (session_io_error env errorCode) w"
      using E by (auto simp: HandleCompletion_def split: if_splits)
    have K: "kept_except i dr ds w (dr(i := dr i + 1)) (ds(i := ds i)) (on_session (unat i) (session_io_error env errorCode) w)"
      by (rule on_session_keep [OF S i], rule session_io_error_acct [OF recv_completes [OF session_acct [OF S i] o] _ env ab]) simp_all
    from kept_other [OF K] o show ?thesis by (simp add: e stranded_def)
  next
    case (Sent i n)
    then have i: "i < cp_capacity w" and o: "ds i < sends i (nw_posted w)"
      and e: "dr' = dr" "ds' = ds(i := ds i + 1)" "w' = on_session (unat i) (HandleSend env service n) w"
      using E by (auto simp: HandleCompletion_def split: if_splits)
    have K: "kept_except i dr ds w (dr(i := dr i)) (ds(i := ds i + 1)) (on_session (unat i) (HandleSend env service n) w)"
      by (rule on_session_keep [OF S i], rule HandleSend_acct [OF send_completes [OF session_acct [OF S i] o] env hooks(3)]) simp_all
    from kept_other [OF K] o show ?thesis by (simp add: e stranded_def)
  next
    case (SendFailed i errorCode)
    then have i: "i < cp_capacity w" and o: "ds i < sends i (nw_posted w)" and ab: "errorCode = ERROR_OPERATION_ABORTED \<longrightarrow> m_cancelIo (session_of i w)"
      and e: "dr' = dr" "ds' = ds(i := ds i + 1)" "w' = on_session (unat i) (session_io_error env errorCode) w"
      using E by (auto simp: HandleCompletion_def split: if_splits)
    have K: "kept_except i dr ds w (dr(i := dr i)) (ds(i := ds i + 1)) (on_session (unat i) (session_io_error env errorCode) w)"
      by (rule on_session_keep [OF S i], rule session_io_error_acct [OF send_completes [OF session_acct [OF S i] o] _ env ab]) simp_all
    from kept_other [OF K] o show ?thesis by (simp add: e stranded_def)
  next
    case (Accepted slot remote)
    then show ?thesis using E HandleAccept_ok [OF S env hooks(1)] by (auto simp: HandleCompletion_def kept_def)
  next
    case (AcceptFailed slot errorCode)
    have "pool_view (if errorCode = ERROR_OPERATION_ABORTED then w else violation w) = pool_view w" by simp
    then have "kept dr ds w dr ds (HandleAcceptIOCancelled slot (if errorCode = ERROR_OPERATION_ABORTED then w else violation w))"
      using kept_view [OF _ S] HandleAcceptIOCancelled_view by metis
    then show ?thesis using E AcceptFailed by (auto simp: HandleCompletion_def)
  next
    case (SendPacket i a n)
    then have i: "i < cp_capacity w" and e: "dr' = dr" "ds' = ds"
        "w' = on_session (unat i) (\<lambda>sw. snd (snd (EnqueueSendPacket env (Some (Some a)) n sw))) w"
      using E by (auto split: if_splits)
    have K: "kept_except i dr ds w (dr(i := dr i)) (ds(i := ds i)) (on_session (unat i) (\<lambda>sw. snd (snd (EnqueueSendPacket env (Some (Some a)) n sw))) w)"
      by (rule on_session_keep [OF S i], rule send_packet_keep [OF session_acct [OF S i] env])
    have "stranded i x dr ds w'" if x: "stranded i x dr ds w" for x
    proof -
      obtain ok p s' v' where Q: "EnqueueSendPacket env (Some (Some a)) n (session_of i w, w) = (ok, p, s', v')" by (metis prod_cases4)
      have "\<not> IsTransportConnected (session_of i w)" using x by (simp add: stranded_def)
      from EnqueueSendPacket_idle [OF this Q] have "v' = w \<and> m_clientSocket s' = m_clientSocket (session_of i w) \<and>
          m_recvPaused s' = m_recvPaused (session_of i w) \<and> IsTransportConnected s' = IsTransportConnected (session_of i w)"
        by (auto simp: reject_def ShouldLogSendReject_def Let_def IsTransportConnected_def split: if_splits)
      moreover have "unat i < length (cp_sessions w)" using server_ok_capacity [OF S] i by (simp add: word_less_nat_alt)
      ultimately show ?thesis using x Q by (simp add: e(3) on_session_def stranded_def)
    qed
    then show ?thesis using kept_idle [OF K] by (simp add: e)
  next
    case (JobsDrained i)
    then have i: "i < cp_capacity w" and e: "dr' = dr" "ds' = ds" "w' = on_session (unat i) (ResumeReceiveIfDrained env) w"
      using E by (auto split: if_splits)
    have K: "kept_except i dr ds w (dr(i := dr i)) (ds(i := ds i)) (on_session (unat i) (ResumeReceiveIfDrained env) w)"
      by (rule on_session_keep [OF S i], rule ResumeReceiveIfDrained_acct [OF session_acct [OF S i] _ env]) simp_all
    have "w' = w" if "stranded i x dr ds w" for x
      using that by (simp add: e(3) on_session_def stranded_def ResumeReceiveIfDrained_def)
    then show ?thesis using kept_idle [OF K] by (simp add: e)
  next
    case HeartbeatRound then show ?thesis using E heartbeat_round_ok [OF S env] by auto
  next
    case (ZombieRound elapsed now h st budget) then show ?thesis using E zombie_round_ok [OF S] by auto
  next
    case RefillRound then show ?thesis using E kept_view [OF RefillAcceptSlots_view S] by auto
  next
    case (Clock now)
    have "pool_view (w\<lparr>nw_now := now\<rparr>) = pool_view w" by (simp add: pool_view_def)
    from kept_view [OF this S] show ?thesis using E Clock by auto
  qed
qed

lemma server_run_ok:
  assumes "server_ok dr ds w" and "asks env" and "service_ok service" and "server_run env service es (dr, ds, w) = Some (dr', ds', w')"
  shows "kept dr ds w dr' ds' w'"
  using assms
proof (induction es arbitrary: dr ds w)
  case Nil then show ?case by (simp add: kept_def)
next
  case (Cons e es)
  then obtain dr1 ds1 w1 where E: "server_step env service e (dr, ds, w) = Some (dr1, ds1, w1)"
    "server_run env service es (dr1, ds1, w1) = Some (dr', ds', w')"
    by (cases "server_step env service e (dr, ds, w)") auto
  note K = server_step_ok [OF Cons.prems(1-3) E(1)]
  then have "server_ok dr1 ds1 w1" by (simp add: kept_def)
  from kept_trans [OF K Cons.IH [OF this Cons.prems(2,3) E(2)]] show ?case .
qed

end
