(* ===== verification/ServerStart.thy ===== *)
theory ServerStart
  imports ServerRun
begin

text \<open>
  The state that \<open>SessionManager::Initialize\<close> leaves satisfies the invariant of \<open>ServerRun\<close>, so that its properties hold of every server that
  starts.
\<close>

section \<open>Making the session pool\<close>

lemma InitializeMemoryPool_sels:
  assumes "InitializeMemoryPool env alloc p1 p2 p3 config (s, w) = (True, s', w')"
  obtains b q sw where "s' = s\<lparr>m_bufferConfig := config, m_recvPacketBuffer := Some b,
      m_jobQueue := Some (new_SessionJobQueue (m_sessionRole s)), m_sendPacketQueue := Some q\<rparr>" and "w' = set_send sw w"
    and "ring_ok (Some b)" and "rb_storedSize b = 0" and "rb_readPos b = 0" and "rb_writePos b = 0"
    and "sq_head q = None" and "sq_tail q = None" and "sq_count q = 0"
proof -
  obtain b where B: "rb_Initialize alloc p2 (recvRingSize config) (maxRecvPacketSize config) new_RecvPacketBuffer = (True, b)"
    using assms(1) by (cases "rb_Initialize alloc p2 (recvRingSize config) (maxRecvPacketSize config) new_RecvPacketBuffer")
      (auto simp: InitializeMemoryPool_def Let_def split: if_splits bool.splits)
  let ?s2 = "s\<lparr>m_bufferConfig := config, m_recvPacketBuffer := Some b, m_jobQueue := Some (new_SessionJobQueue (m_sessionRole s))\<rparr>"
  obtain q sw where Q: "sq_Initialize (ev_release env) p1 p2 p3 (sendQueueDepth config) (new_SendPacketQueue, nw_send w) = (True, q, sw)"
    and e: "s' = ?s2\<lparr>m_sendPacketQueue := Some q\<rparr>" "w' = set_send sw w"
    using assms(1) B by (auto simp: InitializeMemoryPool_def Let_def split: if_splits bool.splits prod.splits)
  have b: "rb_storedSize b = 0" "rb_readPos b = 0" "rb_writePos b = 0"
    using B by (auto simp: rb_Initialize_def rb_Reset_def Let_def split: if_splits option.splits)
  have q: "sq_head q = None" "sq_tail q = None" "sq_count q = 0"
    using Q by (auto simp: sq_Initialize_def Let_def split: if_splits prod.splits)
  have "ring_ok (Some b)" using rb_Initialize_inv(1,2) [OF rb_inv_new B] by (simp add: ring_ok_def)
  with that e b q show ?thesis by simp
qed

lemma InitializeMemoryPool_makes:
  assumes "InitializeMemoryPool env alloc p1 p2 p3 config (s, w) = (True, s', w')" and "clean s"
    and "m_recvPacketBuffer s = None"
  shows "clean s'" and "ring_ok (m_recvPacketBuffer s')" and "m_sessionId s' = m_sessionId s" and "m_sessionRole s' = m_sessionRole s"
    and "pool_view w' = pool_view w"
proof -
  show "clean s'" by (rule InitializeMemoryPool_sels [OF assms(1)]) (use assms(2) in \<open>simp add: clean_def new_SessionJobQueue_def\<close>)
  show "ring_ok (m_recvPacketBuffer s')" by (rule InitializeMemoryPool_sels [OF assms(1)]) simp
  show "m_sessionId s' = m_sessionId s" "m_sessionRole s' = m_sessionRole s" "pool_view w' = pool_view w"
    by (rule InitializeMemoryPool_sels [OF assms(1)], simp)+
qed

text \<open>The pool after \<open>i\<close> of its \<open>n\<close> sessions: the nodes are on the free list in reverse order.\<close>

definition pool_made :: "nat \<Rightarrow> nat \<Rightarrow> ('p, 'y) PoolWorld_scheme \<Rightarrow> bool" where
  "pool_made n i w \<longleftrightarrow> length (cp_nodes w) = n \<and> length (cp_sessions w) = n \<and> nw_posted w = [] \<and> sv_calls w = [] \<and>
     (\<forall>j < n. poolState (cp_nodes w ! j) = SESSION_POOL_FREE) \<and>
     chain (node_links w) (cp_freeList w) (rev [0..<i]) \<and>
     (\<forall>j. i \<le> j \<longrightarrow> j < n \<longrightarrow> cp_sessions w ! j = new_ClientSession) \<and>
     (\<forall>j < i. nd_session (cp_nodes w ! j) \<and> clean (cp_sessions w ! j) \<and> ring_ok (m_recvPacketBuffer (cp_sessions w ! j)) \<and>
        m_sessionId (cp_sessions w ! j) = of_nat j \<and> m_sessionRole (cp_sessions w ! j) = ROLE_SERVER \<and> m_releaseReadyFunc (cp_sessions w ! j))"

lemma Initialize_clean:
  assumes "ClientSession_Initialize ev ROLE_SERVER k new_ClientSession = (True, s)"
  shows "clean s" and "m_sessionId s = k" and "m_sessionRole s = ROLE_SERVER" and "m_recvPacketBuffer s = None"
  using assms by (auto simp: ClientSession_Initialize_def BaseSession_Initialize_def set_CONNECT_READY_def new_ClientSession_def clean_def
      Let_def split: bool.splits if_splits)

lemma init_sessions_made:
  assumes "pool_made n i w" and "i + m = n" and "init_sessions m env ev al p1 p2 p3 config i w = (True, w')"
  shows "pool_made n n w' \<and> cp_capacity w' = cp_capacity w \<and> cp_closeSocketFunc w' = cp_closeSocketFunc w"
  using assms
proof (induction m arbitrary: i w)
  case 0 then show ?case by simp
next
  case (Suc m)
  have P: "length (cp_nodes w) = n" "length (cp_sessions w) = n" "cp_sessions w ! i = new_ClientSession" "i < n"
    using Suc.prems(1,2) by (auto simp: pool_made_def)
  obtain s where I: "ClientSession_Initialize (ev i) ROLE_SERVER (of_nat i) new_ClientSession = (True, s)"
    using Suc.prems(3) P(3) by (cases "ClientSession_Initialize (ev i) ROLE_SERVER (of_nat i) new_ClientSession") (auto split: bool.splits)
  note i = Initialize_clean [OF I]
  obtain s1 w1 where M: "InitializeMemoryPool env (al i) p1 p2 p3 config (s, w) = (True, s1, w1)"
    using Suc.prems(3) P(3) I by (cases "InitializeMemoryPool env (al i) p1 p2 p3 config (s, w)") (auto split: bool.splits)
  note mk = InitializeMemoryPool_makes [OF M i(1,4)] and v = pool_viewD [OF InitializeMemoryPool_makes(5) [OF M i(1,4)]]
  let ?node = "\<lambda>node. node\<lparr>nd_session := True, nextNode := cp_freeList w1\<rparr>"
  let ?w = "(set_node i ?node (w1\<lparr>cp_sessions := (cp_sessions w1)[i := s1\<lparr>m_releaseReadyFunc := True\<rparr>]\<rparr>))\<lparr>cp_freeList := Some i\<rparr>"
  have R: "init_sessions m env ev al p1 p2 p3 config (i + 1) ?w = (True, w')" using Suc.prems(3) P(3) I M by simp
  have c: "clean (s1\<lparr>m_releaseReadyFunc := True\<rparr>)" using mk(1) by (simp add: clean_def)
  have "chain (node_links w) (cp_freeList w) (rev [0..<i])" using Suc.prems(1) by (simp add: pool_made_def)
  then have "chain (node_links ?w) (cp_freeList w) (rev [0..<i])" by (rule lseg_frame) (auto simp: v nth_update_if)
  then have ch: "chain (node_links ?w) (cp_freeList ?w) (rev [0..<i + 1])" using P by (simp add: v set_node_def)
  have "pool_made n (i + 1) ?w" using Suc.prems(1) ch c mk i P(4) unfolding pool_made_def
    by (auto simp: v set_node_def nth_list_update less_Suc_eq)
  from Suc.IH [OF this _ R] Suc.prems(2) show ?case by (simp add: v set_node_def)
qed

text \<open>The client session pool is made by its constructor and connected by the session manager and the server.\<close>

definition new_pool :: "('p, 'y) PoolWorld_scheme \<Rightarrow> bool" where
  "new_pool w \<longleftrightarrow> nw_posted w = [] \<and> sv_calls w = []"

lemma ClientSessionPool_create_made:
  assumes "cp_ready (ClientSessionPool_create env ev al p1 p2 p3 config capacity w)" and "new_pool w"
  shows "pool_made (unat capacity) (unat capacity) (ClientSessionPool_create env ev al p1 p2 p3 config capacity w)"
    and "cp_capacity (ClientSessionPool_create env ev al p1 p2 p3 config capacity w) = capacity"
proof -
  let ?w = "w\<lparr>cp_capacity := capacity, cp_sessions := replicate (unat capacity) new_ClientSession,
      cp_nodes := replicate (unat capacity) new_SessionNode, cp_freeList := None, cp_closeSocketFunc := False,
      cp_disconnectNotifyFunc := False, cp_ready := False\<rparr>"
  obtain ok w' where I: "init_sessions (unat capacity) env ev al p1 p2 p3 config 0 ?w = (ok, w')" by fastforce
  have c: "ClientSessionPool_create env ev al p1 p2 p3 config capacity w = w'\<lparr>cp_ready := ok\<rparr>"
    using I by (simp add: ClientSessionPool_create_def)
  have "pool_made (unat capacity) 0 ?w" using assms(2) by (simp add: pool_made_def new_SessionNode_def new_pool_def)
  then have "pool_made (unat capacity) (unat capacity) w' \<and> cp_capacity w' = capacity"
    using init_sessions_made [of _ 0 ?w] I assms(1) by (simp add: c)
  moreover have "pool_made n m (w'\<lparr>cp_ready := ok\<rparr>) = pool_made n m w'" for n m by (simp add: pool_made_def)
  ultimately show "pool_made (unat capacity) (unat capacity) (ClientSessionPool_create env ev al p1 p2 p3 config capacity w)"
    "cp_capacity (ClientSessionPool_create env ev al p1 p2 p3 config capacity w) = capacity" by (simp_all add: c)
qed

lemma pool_made_ok:
  assumes P: "pool_made (unat (cp_capacity w)) (unat (cp_capacity w)) w"
    and e: "w' = (SetEventHandler (w\<lparr>cp_closeSocketFunc := True\<rparr>))\<lparr>cp_disconnectNotifyFunc := True\<rparr>"
  shows "server_ok (\<lambda>_. 0) (\<lambda>_. 0) w'"
proof -
  let ?n = "unat (cp_capacity w)"
  have w: "cp_nodes w' = cp_nodes w" "cp_freeList w' = cp_freeList w" "cp_capacity w' = cp_capacity w" "nw_posted w' = []" "sv_calls w' = []"
    "cp_sessions w' = map (\<lambda>s. s\<lparr>m_eventHandler := True\<rparr>) (cp_sessions w)" "cp_closeSocketFunc w'" "cp_disconnectNotifyFunc w'"
    using P by (simp_all add: e SetEventHandler_def pool_made_def)
  have fl: "free_list w' (rev [0..<?n])" using P by (auto simp: free_list_def w pool_made_def)
  have ok: "pool_ok w'" using P fl unfolding pool_ok_def by (auto simp: w pool_made_def in_set_conv_nth)
  have "acct i (False, session_of i w', w') 0 0 0 0 0 (session_of i w', w')" if i: "i < cp_capacity w" for i
  proof -
    have l: "unat i < ?n" using i by (simp add: word_less_nat_alt)
    let ?s = "cp_sessions w ! unat i"
    have s: "clean ?s" "ring_ok (m_recvPacketBuffer ?s)" "m_sessionId ?s = i" "m_sessionRole ?s = ROLE_SERVER" "m_releaseReadyFunc ?s"
      "poolState (cp_nodes w ! unat i) = SESSION_POOL_FREE" "session_of i w' = ?s\<lparr>m_eventHandler := True\<rparr>"
      using P l by (auto simp: pool_made_def w)
    have c: "clean (session_of i w')" using s(1) by (simp add: s(7) clean_def)
    show ?thesis unfolding acct_iff acct_base_def held_def ring_posted_def
      using ok c s i by (auto simp: w clean_def recvs_def sends_def connects_def disconnects_def)
  qed
  then show ?thesis using ok by (simp add: server_ok_def w)
qed

section \<open>Starting\<close>

lemma new_pool_view: "pool_view w' = pool_view w \<Longrightarrow> new_pool w \<Longrightarrow> new_pool w'"
  using pool_viewD(7,8) unfolding new_pool_def by metis

lemma os_calls_new: "os_calls n w = (ok, w') \<Longrightarrow> new_pool w \<Longrightarrow> new_pool w'"
  by (rule new_pool_view [OF os_calls_view])

lemma init_accepts_new:
  "init_accepts m e i u = (ok, u') \<Longrightarrow> nw_posted u' = nw_posted u \<and> sv_calls u' = sv_calls u"
  by (induction m arbitrary: i u) (auto simp: put_accept_def violation_def split: prod.splits bool.splits if_splits)

lemma SessionManager_Initialize_ok:
  assumes I: "SessionManager_Initialize env ae ce al p1 p2 p3 config n capacity w = (True, w')" and new: "new_pool w"
  shows "server_ok (\<lambda>_. 0) (\<lambda>_. 0) (w'\<lparr>cp_disconnectNotifyFunc := True\<rparr>)"
proof -
  let ?w1 = "(AcceptSessionPool_create ae n w)\<lparr>as_closeSocketFunc := True\<rparr>"
  let ?w2 = "ClientSessionPool_create env ce al p1 p2 p3 config capacity ?w1"
  obtain ok u where U: "init_accepts (unat n) ae 0 (w\<lparr>as_capacity := n, as_sessions := replicate (unat n) new_AcceptSession,
      as_closeSocketFunc := False, as_ready := False\<rparr>) = (ok, u)" by fastforce
  have "new_pool ?w1" using init_accepts_new [OF U] new by (simp add: AcceptSessionPool_create_def new_pool_def U)
  moreover have r: "cp_ready ?w2" "w' = SetEventHandler (?w2\<lparr>cp_closeSocketFunc := True\<rparr>)"
    using I by (auto simp: SessionManager_Initialize_def Let_def split: if_splits)
  ultimately have "pool_made (unat (cp_capacity ?w2)) (unat (cp_capacity ?w2)) ?w2" using ClientSessionPool_create_made by metis
  from pool_made_ok [OF this, of "w'\<lparr>cp_disconnectNotifyFunc := True\<rparr>"] r(2) show ?thesis by simp
qed

lemma PrepareAccept_view: "pool_view (snd (PrepareAccept w)) = pool_view w"
proof -
  have "pool_view (snd (PrepareAccept_from is v)) = pool_view v" for "is" and v :: "('a, 'b) ServerWorld_scheme"
  proof (induction "is" arbitrary: v)
    case Nil then show ?case by simp
  next
    case (Cons i "is")
    show ?case
    proof (cases "GetAcceptSession (of_nat i) v")
      case None then show ?thesis by simp
    next
      case (Some j)
      obtain own s1 where T: "TryAcquireSlot (as_sessions v ! j) = (own, s1)" by fastforce
      obtain ok s2 w2 where P: "PostAccept (s1, v) = (ok, s2, w2)" by (cases "PostAccept (s1, v)") auto
      obtain s3 w3 where R: "ReleaseSlot (s2, w2) = (s3, w3)" by fastforce
      show ?thesis using Some T P R Cons PostAccept_view [OF P] ReleaseSlot_view [OF R] by (cases own; cases ok) (simp_all add: Let_def)
    qed
  qed
  then show ?thesis by (simp add: PrepareAccept_def)
qed

lemma StartServer_ok:
  assumes "StartServer env ae ce al core pools heart address n config policy hb w = (True, w')" and "new_pool w"
  shows "server_ok (\<lambda>_. 0) (\<lambda>_. 0) w'"
proof -
  let ?w1 = "w\<lparr>m_connectionPolicy := policy, m_heartbeatConfig := hb, m_serverShutdownRequested := False,
      m_acceptStarvationReported := False, m_postedAcceptCount := 0\<rparr>"
  obtain w2 w3 w4 w5 w7 where
    2: "CreateListenSocket ?w1 = (True, w2)" and 3: "BindServerSocket address w2 = (True, w3)" and 4: "ListenServerSocket w3 = (True, w4)"
    and 5: "InitializeGUIDAcceptEx w4 = (True, w5)"
    and 7: "SessionManager_Initialize env ae ce al True True True config (accept_slot_count n) n
      (w5\<lparr>m_desiredAcceptCount := accept_slot_count n\<rparr>) = (True, w7)"
    and 8: "PrepareAccept (w7\<lparr>cp_disconnectNotifyFunc := True\<rparr>) = (True, w')"
    using assms(1) by (auto simp: StartServer_def Let_def split: if_splits prod.splits bool.splits)
  have "new_pool ?w1" using assms(2) by (simp add: new_pool_def)
  moreover obtain x w1 where W: "WSASocket ?w1 = (Some x, w1)" and O: "os_calls 1 (w1\<lparr>m_serverSocket := Some x\<rparr>) = (True, w2)"
    using 2 unfolding CreateListenSocket_def by (cases "WSASocket ?w1") (auto split: option.splits)
  ultimately have "new_pool (w1\<lparr>m_serverSocket := Some x\<rparr>)" by (auto simp: new_pool_def WSASocket_def)
  from os_calls_new [OF O this] have "new_pool w2" .
  moreover have "os_calls 1 w2 = (True, w3)" "os_calls 1 w3 = (True, w4)"
    using 3 4 by (simp_all only: BindServerSocket_def ListenServerSocket_def split: if_splits) simp
  moreover have "new_pool w4 \<Longrightarrow> new_pool w5"
    using 5 by (simp add: InitializeGUIDAcceptEx_def del: os_calls.simps) (meson os_calls_new)
  ultimately have "new_pool w5" by (meson os_calls_new)
  then have "new_pool (w5\<lparr>m_desiredAcceptCount := accept_slot_count n\<rparr>)" by (simp add: new_pool_def)
  from server_ok_view [OF PrepareAccept_view SessionManager_Initialize_ok [OF 7 this]] 8 show ?thesis by simp
qed

end
