(* ===== verification/ServerGuarantees.thy ===== *)
theory ServerGuarantees
  imports ServerStart
begin

text \<open>
  What a server that was started guarantees in every state it can reach: the I/O counts, the receive chain, the recycling of sessions, the
  notifications of the service, and the memory that the kernel writes to.
\<close>

section \<open>Reachable states\<close>

text \<open>A state has the completed receives and sends of each session and the world.\<close>

inductive serves ::
  "('p \<Rightarrow> nat \<Rightarrow> addr option \<times> 'p) \<Rightarrow> ('p \<Rightarrow> addr \<Rightarrow> 'p) \<Rightarrow> ('p, 'y) ServerNet Service \<Rightarrow>
     (u32 \<Rightarrow> nat) \<times> (u32 \<Rightarrow> nat) \<times> ('p, 'y) ServerWorld_scheme \<Rightarrow> bool"
  for acquire release service where
  starts: "serves acquire release service (\<lambda>_. 0, \<lambda>_. 0, w0)"
    if "StartServer (pool_env acquire release) ae ce al core pools heart address n config policy hb w = (True, w0)" and "new_pool w"
| acts: "serves acquire release service st'"
    if "serves acquire release service st" and "server_step (pool_env acquire release) service e st = Some st'"

lemma serves_run:
  assumes "serves acquire release service st" and "server_run (pool_env acquire release) service es st = Some st'"
  shows "serves acquire release service st'"
  using assms
proof (induction es arbitrary: st)
  case Nil then show ?case by simp
next
  case (Cons e es)
  then obtain st1 where "server_step (pool_env acquire release) service e st = Some st1"
      and "server_run (pool_env acquire release) service es st1 = Some st'"
    by (auto split: option.splits)
  with Cons show ?case using acts by blast
qed

lemma serves_ok:
  assumes "serves acquire release service st" and "service_ok service"
  shows "case st of (dr, ds, w) \<Rightarrow> server_ok dr ds w"
  using assms(1)
proof induction
  case starts then show ?case using StartServer_ok by fastforce
next
  case (acts st e st')
  obtain dr ds w dr' ds' w' where "st = (dr, ds, w)" "st' = (dr', ds', w')" by (metis prod_cases3)
  with acts server_step_ok [OF _ pool_env_asks assms(2)] show ?case unfolding kept_def by (metis (no_types, lifting) case_prod_conv)
qed

lemma serves_session:
  assumes "serves acquire release service (dr, ds, w)" and "service_ok service" and "i < cp_capacity w"
  shows "acct i (False, session_of i w, w) 0 0 0 (dr i) (ds i) (session_of i w, w)" and "pool_ok w" and "m_sessionId (session_of i w) = i"
  using serves_ok [OF assms(1,2)] assms(3) session_acct [of dr ds w i] by (auto simp: server_ok_def acct_def acct_base_def)

lemma serves_counts:
  assumes "serves acquire release service (dr, ds, w)" and "service_ok service" and "i < cp_capacity w"
  shows "dr i \<le> recvs i (nw_posted w)" and "ds i \<le> sends i (nw_posted w)"
    and "m_ioCount (session_of i w) + int (dr i) + int (ds i) =
      int (recvs i (nw_posted w)) + int (sends i (nw_posted w)) + of_bool (m_recvPaused (session_of i w))"
    and "recvs i (nw_posted w) + of_bool (m_recvPaused (session_of i w)) \<le> dr i + 1"
    and "sends i (nw_posted w) \<le> ds i + of_bool (m_sending (session_of i w))"
  using serves_session(1) [OF assms] unfolding acct_def acct_base_def by simp_all

abbreviation state_of :: "u32 \<Rightarrow> ('p, 'y) PoolWorld_scheme \<Rightarrow> SESSION_POOL_STATE" where
  "state_of i w \<equiv> poolState (cp_nodes w ! unat i)"

section \<open>A small server\<close>

text \<open>One session, small buffers, pools that never run dry, a kernel that never fails and a service that gives every packet back.\<close>

definition demo_config :: SessionBufferConfig where
  "demo_config = \<lparr>maxRecvPacketSize = 16, recvRingSize = 32, maxSendPacketSize = 16, sendQueueDepth = 4, recvPauseJobDepth = 0,
     recvResumeJobDepth = 0\<rparr>"

definition demo_policy :: ConnectionPolicyConfig where
  "demo_policy = \<lparr>serviceCapacity = 0, maxConnectionsPerAddress = 0\<rparr>"

definition demo_world :: "nat ServerWorld" where
  "demo_world =
     \<lparr>nw_jobs = \<lparr>jw_send = \<lparr>w_entryPool = 1000, w_packetPool = 2000, w_entries = (\<lambda>_. None), w_shared = (\<lambda>_. None),
        w_userCalls = [], w_violations = 0\<rparr>, jw_jobPool = 3000, jw_jobs = (\<lambda>_. None), jw_calls = [], jw_violations = 0\<rparr>,
      nw_mem = (\<lambda>_. []), nw_now = 0, nw_answers = (\<lambda>_. None), nw_calls = 0, nw_posted = [], nw_violations = 0,
      cp_sessions = [], cp_nodes = [], cp_freeList = None, cp_capacity = 0, cp_closeSocketFunc = False, cp_disconnectNotifyFunc = False,
      cp_ready = False, nw_closed = [], sv_calls = [], as_sessions = [], as_capacity = 0, as_closeSocketFunc = False, as_ready = False,
      m_serverSocket = None, m_serverShutdownRequested = False, m_postedAcceptCount = 0, m_desiredAcceptCount = 0,
      m_acceptStarvationReported = False, m_connectionPolicy = demo_policy, m_heartbeatConfig = new_HeartbeatConfig,
      nw_newSockets = Some, nw_socketCalls = 0, nw_accepts = []\<rparr>"

definition keep_pool :: "nat \<Rightarrow> addr \<Rightarrow> nat" where
  "keep_pool p a = p"

definition demo_env :: "(nat, (nat, unit) ServerNet) Env" where
  "demo_env = pool_env counting_pool keep_pool"

definition demo_service :: "(nat, unit) ServerNet Service" where
  "demo_service = \<lparr>OnClientConnect = id, OnReceive = (\<lambda>i a n (s, w). (s, release_to_pool demo_env a w)), OnSend = (\<lambda>n. id)\<rparr>"

definition demo_start :: "bool \<times> nat ServerWorld" where
  "demo_start = StartServer (pool_env counting_pool keep_pool) (\<lambda>_. True) (\<lambda>_. True) (\<lambda>_ n. Some (replicate n 0)) True True True None 1
     demo_config demo_policy new_HeartbeatConfig demo_world"

definition demo_run :: "server_event list \<Rightarrow> ((u32 \<Rightarrow> nat) \<times> (u32 \<Rightarrow> nat) \<times> nat ServerWorld) option" where
  "demo_run es = server_run demo_env demo_service es (\<lambda>_. 0, \<lambda>_. 0, snd demo_start)"

text \<open>A client connects and authenticates; the answer is still being sent, and three bytes of the next packet have come.\<close>

definition demo_events :: "server_event list" where
  "demo_events = [Accepted 0 (Some (''10.0.0.1'', 4000)), Received 0 (auth_request_bytes new_auth_request), Received 0 [1, 2, 3]]"

lemma demo_started: "StartServer (pool_env counting_pool keep_pool) (\<lambda>_. True) (\<lambda>_. True) (\<lambda>_ n. Some (replicate n 0)) True True True None 1
    demo_config demo_policy new_HeartbeatConfig demo_world = (True, snd demo_start)"
proof -
  have "fst demo_start" by code_simp
  then show ?thesis unfolding demo_start_def by (metis prod.collapse)
qed

lemma demo_service_ok: "service_ok demo_service"
  by (simp add: service_ok_def demo_service_def keeps_def acct_view [OF pool_view_server(2)])

lemma demo_serves:
  assumes "demo_run es = Some st"
  shows "serves counting_pool keep_pool demo_service st"
proof (rule serves_run [OF starts [OF demo_started]])
  show "new_pool demo_world" by (simp add: new_pool_def demo_world_def)
  show "server_run (pool_env counting_pool keep_pool) demo_service es (\<lambda>_. 0, \<lambda>_. 0, snd demo_start) = Some st"
    using assms by (simp add: demo_run_def demo_env_def)
qed

lemma demo_ran:
  obtains dr ds w where "demo_run demo_events = Some (dr, ds, w)" and "0 < cp_capacity w" and "state_of 0 w = SESSION_POOL_IN_USE"
    and "IsTransportConnected (session_of 0 w)" and "\<not> m_cancelIo (session_of 0 w)" and "dr 0 < recvs 0 (nw_posted w)"
    and "m_sending (session_of 0 w)"
proof -
  have "case demo_run demo_events of None \<Rightarrow> False | Some (dr, ds, w) \<Rightarrow> 0 < cp_capacity w \<and> state_of 0 w = SESSION_POOL_IN_USE \<and>
      IsTransportConnected (session_of 0 w) \<and> \<not> m_cancelIo (session_of 0 w) \<and> dr 0 < recvs 0 (nw_posted w) \<and> m_sending (session_of 0 w)"
    by code_simp
  then show thesis using that by (auto split: option.splits)
qed

section \<open>The guarantees\<close>

text \<open>
  C1. In every state a started server can reach, the I/O count of a session is the number of its receives and sends that have not completed,
  and one more while it is paused. It has at most one receive outstanding, and none while it is paused, and at most one send, for which
  \<open>m_sending\<close> is set.
\<close>

theorem sessions_accounted:
  assumes "serves acquire release service (dr, ds, w)" and "service_ok service" and "i < cp_capacity w"
  shows "m_ioCount (session_of i w) =
      int (recvs i (nw_posted w) - dr i) + int (sends i (nw_posted w) - ds i) + of_bool (m_recvPaused (session_of i w)) \<and>
    recvs i (nw_posted w) - dr i + of_bool (m_recvPaused (session_of i w)) \<le> 1 \<and>
    sends i (nw_posted w) - ds i \<le> of_bool (m_sending (session_of i w)) \<and> dr i \<le> recvs i (nw_posted w) \<and> ds i \<le> sends i (nw_posted w)"
  using serves_counts [OF assms] by (cases "m_recvPaused (session_of i w)"; cases "m_sending (session_of i w)") (auto simp: of_nat_diff)

lemma sessions_accounted_witness:
  "\<exists>dr ds w. demo_run demo_events = Some (dr, ds, w) \<and> (m_ioCount (session_of 0 w) =
      int (recvs 0 (nw_posted w) - dr 0) + int (sends 0 (nw_posted w) - ds 0) + of_bool (m_recvPaused (session_of 0 w)) \<and>
      recvs 0 (nw_posted w) - dr 0 + of_bool (m_recvPaused (session_of 0 w)) \<le> 1 \<and>
      sends 0 (nw_posted w) - ds 0 \<le> of_bool (m_sending (session_of 0 w)) \<and> dr 0 \<le> recvs 0 (nw_posted w) \<and> ds 0 \<le> sends 0 (nw_posted w))"
  by (rule demo_ran) (use sessions_accounted [OF demo_serves demo_service_ok] in blast)

text \<open>
  C3. In every reachable state, a session in use with a connection that is not being cancelled has exactly one receive outstanding or is paused:
  no connected session is ever left without a receive, whatever failed.
\<close>

theorem connected_session_served:
  assumes "serves acquire release service (dr, ds, w)" and "service_ok service" and "i < cp_capacity w"
    and "state_of i w = SESSION_POOL_IN_USE" and "IsTransportConnected (session_of i w)" and "\<not> m_cancelIo (session_of i w)"
  shows "recvs i (nw_posted w) - dr i + of_bool (m_recvPaused (session_of i w)) = 1"
  using serves_session [OF assms(1-3)] assms(4-6) unfolding acct_def acct_base_def state_ok_def
  by (cases "m_recvPaused (session_of i w)") auto

lemma connected_session_served_witness:
  "\<exists>dr ds w. demo_run demo_events = Some (dr, ds, w) \<and> (recvs 0 (nw_posted w) - dr 0 + of_bool (m_recvPaused (session_of 0 w)) = 1)"
  by (rule demo_ran) (use connected_session_served [OF demo_serves demo_service_ok] in blast)

text \<open>
  C4. In every reachable state, a session on the free list is as new and nothing of it is outstanding, a session that waits to be released has
  an operation outstanding or is paused, so that a completion will release it, and the free list is exactly the free sessions, each once.
\<close>

theorem recycled_clean:
  assumes "serves acquire release service (dr, ds, w)" and "service_ok service" and "i < cp_capacity w"
  shows "(state_of i w = SESSION_POOL_FREE \<longrightarrow>
      clean (session_of i w) \<and> recvs i (nw_posted w) = dr i \<and> sends i (nw_posted w) = ds i) \<and>
    (state_of i w = SESSION_POOL_RELEASING \<longrightarrow>
      m_releasePending (session_of i w) \<and>
      (dr i < recvs i (nw_posted w) \<or> ds i < sends i (nw_posted w) \<or> m_recvPaused (session_of i w))) \<and>
    (\<exists>xs. free_list w xs)"
proof (intro conjI impI)
  note A = serves_session(1) [OF assms] and id = serves_session(3) [OF assms]
  note n = serves_counts [OF assms]
  note st = A [unfolded acct_def state_ok_def prod.case id]
  show "\<exists>xs. free_list w xs" using serves_session(2) [OF assms] by (simp add: pool_ok_def)
  show "clean (session_of i w)" if "state_of i w = SESSION_POOL_FREE" using st that by simp
  then have "m_ioCount (session_of i w) = 0" if "state_of i w = SESSION_POOL_FREE" using that by (simp add: clean_def)
  then show "recvs i (nw_posted w) = dr i" "sends i (nw_posted w) = ds i" if "state_of i w = SESSION_POOL_FREE"
    using n that by (cases "m_recvPaused (session_of i w)"; auto)+
  show "m_releasePending (session_of i w)" if "state_of i w = SESSION_POOL_RELEASING" using st that by simp
  have "0 < m_ioCount (session_of i w)" if "state_of i w = SESSION_POOL_RELEASING" using st that by simp
  then show "dr i < recvs i (nw_posted w) \<or> ds i < sends i (nw_posted w) \<or> m_recvPaused (session_of i w)"
    if "state_of i w = SESSION_POOL_RELEASING" using n that by (cases "m_recvPaused (session_of i w)"; auto)
qed

lemma recycled_clean_witness:
  "\<exists>dr ds w. demo_run demo_events = Some (dr, ds, w) \<and> ((state_of 0 w = SESSION_POOL_FREE \<longrightarrow>
      clean (session_of 0 w) \<and> recvs 0 (nw_posted w) = dr 0 \<and> sends 0 (nw_posted w) = ds 0) \<and>
      (state_of 0 w = SESSION_POOL_RELEASING \<longrightarrow>
      m_releasePending (session_of 0 w) \<and>
      (dr 0 < recvs 0 (nw_posted w) \<or> ds 0 < sends 0 (nw_posted w) \<or> m_recvPaused (session_of 0 w))) \<and>
      (\<exists>xs. free_list w xs))"
  by (rule demo_ran) (use recycled_clean [OF demo_serves demo_service_ok] in blast)

text \<open>
  C7. The service is told of every connection and of its end in turn: for each slot the calls of \<open>OnClientConnect\<close> exceed those of
  \<open>OnClientDisconnect\<close> by one exactly while the session is marked as notified, a free session never is, and no end is reported without a reason.
\<close>

theorem notifications_paired:
  assumes "serves acquire release service (dr, ds, w)" and "service_ok service" and "i < cp_capacity w"
  shows "connects i (sv_calls w) = disconnects i (sv_calls w) + of_bool (m_serviceConnectNotified (session_of i w)) \<and>
    (state_of i w = SESSION_POOL_FREE \<longrightarrow> \<not> m_serviceConnectNotified (session_of i w)) \<and>
    ClientDisconnect i Unknown \<notin> set (sv_calls w)"
proof -
  note A = serves_session(1) [OF assms] and id = serves_session(3) [OF assms]
  from A [unfolded acct_def acct_base_def prod.case] A [unfolded acct_def state_ok_def prod.case id] show ?thesis
    by (auto simp: clean_def pool_ok_def)
qed

lemma notifications_paired_witness:
  "\<exists>dr ds w. demo_run demo_events = Some (dr, ds, w) \<and> (connects 0 (sv_calls w) = disconnects 0 (sv_calls w) + of_bool (m_serviceConnectNotified (session_of 0 w)) \<and>
      (state_of 0 w = SESSION_POOL_FREE \<longrightarrow> \<not> m_serviceConnectNotified (session_of 0 w)) \<and>
      ClientDisconnect 0 Unknown \<notin> set (sv_calls w))"
  by (rule demo_ran) (use notifications_paired [OF demo_serves demo_service_ok] in blast)

text \<open>
  C8. Whatever the session has done since, the memory that an outstanding receive was posted for lies inside the block of its ring and holds no
  byte that was received and not yet read; what the kernel writes there is appended to the stream.
\<close>

theorem outstanding_receive_safe:
  assumes "serves acquire release service (dr, ds, w)" and "service_ok service" and "i < cp_capacity w" and "dr i < recvs i (nw_posted w)"
  shows "\<exists>b buf at n. m_recvPacketBuffer (session_of i w) = Some b \<and> rb_buffer b = Some buf \<and>
    last_recv i (nw_posted w) = Some (RecvPosted i at n) \<and> at + unat n \<le> length buf \<and>
    (\<forall>bs. bs \<noteq> [] \<longrightarrow> length bs \<le> unat n \<longrightarrow>
      (\<exists>b'. CommitWrite (of_nat (length bs)) (deliver bs b) = (True, b') \<and> stored_bytes b' = stored_bytes b @ bs))"
proof -
  note b = serves_session(1) [OF assms(1-3), unfolded acct_def acct_base_def prod.case]
  then have "ring_ok (m_recvPacketBuffer (session_of i w))" and "ring_posted i (dr i) (session_of i w) (nw_posted w)" by blast+
  then obtain b buf where B: "m_recvPacketBuffer (session_of i w) = Some b" "rb_inv b" "rb_buffer b = Some buf"
    "last_recv i (nw_posted w) = Some (RecvPosted i (unat (rb_writePos b)) (GetWriteableSize b))"
    using assms(4) by (auto simp: ring_ok_def ring_posted_def GetWriteablePtr_def)
  have "\<exists>b'. CommitWrite (of_nat (length bs)) (deliver bs b) = (True, b') \<and> stored_bytes b' = stored_bytes b @ bs"
    if bs: "bs \<noteq> []" "length bs \<le> unat (GetWriteableSize b)" for bs
  proof -
    obtain ok bf where C: "CommitWrite (of_nat (length bs)) (deliver bs b) = (ok, bf)" by fastforce
    from deliver_commit [OF B(2,3) bs(2,1) C] C show ?thesis by simp
  qed
  with B writeable_bounds(1) [OF B(2,3), of "unat (GetWriteableSize b)"] show ?thesis by blast
qed

lemma outstanding_receive_safe_witness:
  "\<exists>dr ds w. demo_run demo_events = Some (dr, ds, w) \<and> (\<exists>b buf at n. m_recvPacketBuffer (session_of 0 w) = Some b \<and> rb_buffer b = Some buf \<and>
      last_recv 0 (nw_posted w) = Some (RecvPosted 0 at n) \<and> at + unat n \<le> length buf \<and>
      (\<forall>bs. bs \<noteq> [] \<longrightarrow> length bs \<le> unat n \<longrightarrow>
      (\<exists>b'. CommitWrite (of_nat (length bs)) (deliver bs b) = (True, b') \<and> stored_bytes b' = stored_bytes b @ bs)))"
  by (rule demo_ran, intro exI, rule conjI, assumption, rule outstanding_receive_safe [OF demo_serves demo_service_ok])

end
