(* ===== verification/Dispatch.thy ===== *)
theory Dispatch
  imports ServerFrame ServerGuarantees
begin

text \<open>
  The packet loop of the server: it ends, it hands packets to the service only for authenticated sessions, and only a proper request
  authenticates a session.
\<close>

section \<open>The packet loop ends\<close>

lemma ReadPacket_consumes:
  assumes "ring_ok (Some b)" and R: "ReadPacket acquire p b = (res, out, p', b')"
  shows "ring_ok (Some b')" and "unat (rb_storedSize b') \<le> unat (rb_storedSize b)"
    and "res = Read_Ok \<Longrightarrow> unat (rb_storedSize b') < unat (rb_storedSize b)"
proof -
  have inv: "rb_inv b" using assms(1) by (simp add: ring_ok_def)
  note spec = ReadPacket_spec [OF inv R] and frame = ReadPacket_frame [OF R]
  have i: "rb_inv b'" using spec inv by (auto split: next_packet.splits option.splits prod.splits)
  then show "ring_ok (Some b')" using assms(1) frame(2) by (simp add: ring_ok_def)
  have l: "unat (rb_storedSize b) = length (stored_bytes b)" "unat (rb_storedSize b') = length (stored_bytes b')"
    using length_stored_bytes [OF inv] length_stored_bytes [OF i] by simp_all
  show "unat (rb_storedSize b') \<le> unat (rb_storedSize b)" and "res = Read_Ok \<Longrightarrow> unat (rb_storedSize b') < unat (rb_storedSize b)"
    using spec l by (auto split: next_packet.splits option.splits prod.splits dest!: next_packet_split(4))
qed

lemma recv_next_less:
  assumes N: "recv_next env service (s, w) = Inr sw'" and ok: "ring_ok (m_recvPacketBuffer s)" and env: "tame_env env"
    and service: "service_frames service"
  shows "ring_ok (m_recvPacketBuffer (fst sw'))" and "stored_count (fst sw') < stored_count s"
    and "PoolWorld.more (snd sw') = PoolWorld.more w"
proof -
  obtain b0 where b0: "m_recvPacketBuffer s = Some b0" "ring_ok (Some b0)" using ok by (auto simp: ring_ok_def)
  obtain res out p b where R: "ReadPacket (ev_acquire env) (w_packetPool (nw_send w)) b0 = (res, out, p, b)" by (metis prod_cases4)
  let ?a = "fst (the (po_buffer out))" and ?s = "s\<lparr>m_recvPacketBuffer := Some b\<rparr>"
  let ?w2 = "write_mem ?a (snd (the (po_buffer out))) (set_send ((nw_send w)\<lparr>w_packetPool := p\<rparr>) w)"
  obtain x s3 w3 where H: "HandleSystemPacket env (po_packetId out) ?a (po_size out) (?s, ?w2) = (x, s3, w3)" by (metis prod_cases3)
  note n = N [unfolded recv_next_def Let_def prod.case b0(1) option.sel, simplified R prod.case H]
  have Ok: "res = Read_Ok" using n by (cases res) (auto split: if_splits)
  then have lt: "ring_ok (Some b)" "unat (rb_storedSize b) < unat (rb_storedSize b0)" using ReadPacket_consumes [OF b0(2) R] by simp_all
  have m: "PoolWorld.more ?w2 = PoolWorld.more w" by (simp add: write_mem_def set_send_def)
  have fr: "framed (?s, ?w2) sw'" using n Ok HandleSystemPacket_frame(1) [OF H env] service
    by (auto simp: service_frames_def framed_def release_to_pool_def set_send_def split: if_splits)
  then show "ring_ok (m_recvPacketBuffer (fst sw'))" and "PoolWorld.more (snd sw') = PoolWorld.more w"
    using lt(1) m fr by (simp_all add: framed_def)
  show "stored_count (fst sw') < stored_count s" using fr lt(2) by (simp add: framed_def stored_count_def b0(1))
qed

text \<open>
  The rounds as the \<open>while (true)\<close> of the source has them: the result is only there once a round has left the loop, and is \<open>None\<close> when the
  rounds allowed were all used up.
\<close>

primrec recv_exit ::
  "nat \<Rightarrow> ('p, ('p, 'y) ServerNet) Env \<Rightarrow> ('p, 'y) ServerNet Service \<Rightarrow> ('p, 'y) ServerNet \<Rightarrow> (bool \<times> ('p, 'y) ServerNet) option" where
  "recv_exit 0 env service sw = None"
| "recv_exit (Suc n) env service sw =
     (case recv_next env service sw of Inl r \<Rightarrow> Some r | Inr sw' \<Rightarrow> recv_exit n env service sw')"

lemma recv_exit_loop: "recv_exit n env service sw = Some r \<Longrightarrow> recv_loop n env service sw = r"
  by (induction n arbitrary: sw) (auto split: sum.splits)

lemma recv_exit_mono: "recv_exit n env service sw = Some r \<Longrightarrow> n \<le> m \<Longrightarrow> recv_exit m env service sw = Some r"
proof (induction n arbitrary: m sw)
  case (Suc n)
  then show ?case by (cases m) (auto split: sum.splits)
qed simp

lemma recv_exit_returns:
  assumes "ring_ok (m_recvPacketBuffer (fst sw))" and "tame_env env" and "service_frames service" and "stored_count (fst sw) < n"
  shows "\<exists>r. recv_exit n env service sw = Some r"
  using assms
proof (induction n arbitrary: sw)
  case (Suc n)
  obtain s w where sw: "sw = (s, w)" by fastforce
  show ?case
  proof (cases "recv_next env service sw")
    case (Inl r)
    then show ?thesis by (cases r) simp
  next
    case (Inr sw')
    note l = recv_next_less [OF Inr [unfolded sw] _ Suc.prems(2,3)]
    have "\<exists>r. recv_exit n env service sw' = Some r" by (rule Suc.IH) (use l Suc.prems sw in auto)
    then show ?thesis using Inr by simp
  qed
qed simp

text \<open>
  C10. The packet loop of a completed receive ends: when the hooks of the service leave the ring alone, a round that does not leave the loop
  takes at least a header out of the ring, so within one round more than there are bytes stored in it one of the exits of the loop is reached
  (nothing to read, a packet that is not there in full, a malformed or unexpected packet, no memory), and what \<open>HandleRecv\<close> goes on with is
  the result of that exit.
\<close>

theorem receive_loop_ends:
  assumes "rb_inv b" and "rb_buffer b \<noteq> None" and "m_recvPacketBuffer s = Some b" and "service_frames service"
    and "unat (rb_storedSize b) < n"
  shows "recv_exit n (pool_env acquire release) service (s, w) =
    Some (recv_loop (Suc (unat (rb_storedSize b))) (pool_env acquire release) service (s, w))"
proof -
  have "ring_ok (m_recvPacketBuffer (fst (s, w)))" and "stored_count (fst (s, w)) < Suc (unat (rb_storedSize b))"
    using assms(1-3) by (simp_all add: ring_ok_def stored_count_def)
  from recv_exit_returns [OF this(1) pool_env_tame assms(4) this(2)]
  obtain r where r: "recv_exit (Suc (unat (rb_storedSize b))) (pool_env acquire release) service (s, w) = Some r" by blast
  then show ?thesis using recv_exit_mono [OF r, of n] recv_exit_loop [OF r] assms(5) by simp
qed

text \<open>The service of the small server, and a ring that holds one packet.\<close>

lemma demo_service_frames: "service_frames demo_service"
  by (simp add: service_frames_def demo_service_def framed_def release_to_pool_def set_send_def)

definition demo_session :: ClientSession where
  "demo_session = new_ClientSession\<lparr>m_sessionRole := ROLE_SERVER, m_serverSessionState := Server_CONNECTED,
     m_recvPacketBuffer := Some (snd (CommitWrite 6 (deliver (auth_request_bytes new_auth_request) ring8)))\<rparr>"

lemma receive_loop_ends_witness:
  "recv_exit 100 (pool_env counting_pool keep_pool) demo_service (demo_session, demo_world) =
   Some (recv_loop 7 (pool_env counting_pool keep_pool) demo_service (demo_session, demo_world))"
proof -
  let ?b = "snd (CommitWrite 6 (deliver (auth_request_bytes new_auth_request) ring8))"
  have "rb_inv ?b" "rb_buffer ?b \<noteq> None" "unat (rb_storedSize ?b) = 6" by code_simp+
  then show ?thesis using receive_loop_ends [of ?b demo_session demo_service 100 counting_pool keep_pool demo_world] demo_service_frames
    by (simp add: demo_session_def)
qed

section \<open>Dispatching\<close>

text \<open>
  C5. The service is handed a packet only of an authenticated session and only with an identifier of its own: two services that agree on such
  packets make no difference to what a completed receive does.
\<close>

theorem dispatch_only_established:
  assumes "\<And>i a n s w. IsEstablished s \<Longrightarrow> IsServicePacketId i \<Longrightarrow> OnReceive service i a n (s, w) = OnReceive service' i a n (s, w)"
  shows "HandleRecv env service bytesTransferred (s, w) = HandleRecv env service' bytesTransferred (s, w)"
proof -
  have S: "IsServicePacketId i" if "IsValidPacketId i" "\<not> IsSystemPacketId i" for i
    using that valid_id_cases by blast
  have N: "recv_next env service (s, w) = recv_next env service' (s, w)" for s w
    using S by (simp add: recv_next_def Let_def assms split: prod.split PacketReadResult.split)
  have "recv_loop n env service sw = recv_loop n env service' sw" for n sw
  proof (induction n arbitrary: sw)
    case (Suc n) then show ?case using N [of "fst sw" "snd sw"] by (simp split: sum.split)
  qed simp
  then have L: "recv_loop n env service = recv_loop n env service'" for n by blast
  show ?thesis unfolding HandleRecv_def L by (rule refl)
qed

lemma dispatch_only_established_witness:
  "HandleRecv demo_env (demo_service\<lparr>OnReceive := (\<lambda>i a n (s, w). if IsEstablished s \<and> IsServicePacketId i then (s, w) else (s, violation w))\<rparr>)
     6 (demo_session, demo_world) =
   HandleRecv demo_env (demo_service\<lparr>OnReceive := (\<lambda>i a n sw. sw)\<rparr>) 6 (demo_session, demo_world)"
proof -
  have c: "HandleRecv env (demo_service\<lparr>OnReceive := f\<rparr>) n sw = HandleRecv env (\<lparr>OnClientConnect = id, OnReceive = f, OnSend = \<lambda>n. id\<rparr>) n sw"
    for env f n sw by (simp add: demo_service_def)
  show ?thesis by (rule dispatch_only_established) simp
qed

section \<open>Authentication\<close>

text \<open>
  C6. A system packet authenticates a session only when it is a request of the right size and protocol version, from a session that is connected
  and not authenticated yet, while the server is within its capacity; on every other packet the session is as little authenticated as before.
\<close>

theorem authenticated_only_by_request:
  assumes "HandleSystemPacket (pool_env acquire release) i a n (s, w) = (res, s', w')" and "m_sessionRole s = ROLE_SERVER"
    and "IsEstablished s'" and "\<not> IsEstablished s"
  shows "i = CS_SYSTEM_AUTH_REQUEST \<and> n = 6 \<and> (m_serverSessionState s = Server_CONNECTED \<or> m_serverSessionState s = Server_AUTH_PENDING) \<and>
    arq_protocolVersion (auth_request_of (nw_mem w a)) = IOCP_ENGINE_PROTOCOL_VERSION \<and>
    (serviceCapacity (m_connectionPolicy w) = 0 \<or> GetInUseCount w \<le> serviceCapacity (m_connectionPolicy w)) \<and> res = System_Ok"
proof -
  note f = HandleSystemPacket_frame [OF assms(1) pool_env_tame]
  have not: "\<not> tame (s, w) (s', w')" using assms(2-4) by (auto simp: tame_def IsEstablished_def)
  then have "auth_granted (s, w) i a n" using f(2) by blast
  moreover have "res = System_Ok" using f(3) not by blast
  ultimately show ?thesis by (simp add: auth_granted_def)
qed

lemma authenticated_only_by_request_witness:
  "\<exists>w res s' w'. HandleSystemPacket (pool_env counting_pool keep_pool) CS_SYSTEM_AUTH_REQUEST 5 6 (session_of 0 w, w) = (res, s', w') \<and>
     IsEstablished s' \<and> \<not> IsEstablished (session_of 0 w) \<and> arq_protocolVersion (auth_request_of (nw_mem (w :: nat ServerWorld) 5)) = 2 \<and>
     res = System_Ok"
proof -
  let ?m = "\<lambda>w. w\<lparr>nw_mem := (nw_mem w)(5 := auth_request_bytes new_auth_request)\<rparr> :: nat ServerWorld"
  have "case demo_run [Accepted 0 None] of None \<Rightarrow> False | Some (dr, ds, w) \<Rightarrow> m_sessionRole (session_of 0 w) = ROLE_SERVER \<and>
      \<not> IsEstablished (session_of 0 w) \<and>
      IsEstablished (fst (snd (HandleSystemPacket (pool_env counting_pool keep_pool) CS_SYSTEM_AUTH_REQUEST 5 6 (session_of 0 w, ?m w))))"
    by code_simp
  then obtain w where w: "m_sessionRole (session_of 0 w) = ROLE_SERVER" "\<not> IsEstablished (session_of 0 w)"
      "IsEstablished (fst (snd (HandleSystemPacket (pool_env counting_pool keep_pool) CS_SYSTEM_AUTH_REQUEST 5 6 (session_of 0 w, ?m w))))"
    by (auto split: option.splits)
  obtain res s' w' where H: "HandleSystemPacket (pool_env counting_pool keep_pool) CS_SYSTEM_AUTH_REQUEST 5 6 (session_of 0 (?m w), ?m w) = (res, s', w')"
    by (metis prod_cases3)
  have e: "IsEstablished s'" "\<not> IsEstablished (session_of 0 (?m w))" "m_sessionRole (session_of 0 (?m w)) = ROLE_SERVER" using w H by simp_all
  from authenticated_only_by_request [OF H e(3,1,2)] have "arq_protocolVersion (auth_request_of (nw_mem (?m w) 5)) = 2" "res = System_Ok"
    by (simp_all add: IOCP_ENGINE_PROTOCOL_VERSION_def)
  with H e show ?thesis by blast
qed

end
