(* ===== verification/AcceptLeak.thy ===== *)
theory AcceptLeak
  imports ServerGuarantees
begin

text \<open>
  A connection that is lost between two completions: when the next \<open>AcceptEx\<close> cannot be posted, \<open>HandleAccept\<close> returns after it has attached
  the accepted socket, and before anything was posted for the session.
\<close>

lemma leaking_accept:
  assumes S: "server_ok dr ds w" and slot: "GetAcceptSession slot w = Some i" and up: "\<not> m_serverShutdownRequested w"
    and policy: "maxConnectionsPerAddress (m_connectionPolicy w) = 0" and free: "cp_freeList w = Some j"
    and no: "nw_newSockets w (nw_socketCalls w) = None" and socket: "m_clientSocket (as_sessions w ! i) = Some socket"
  shows "stranded (of_nat j) (Some socket) dr ds (HandleAccept env service remote slot w)"
proof -
  let ?s = "snd (OnAccept (as_sessions w ! i))" and ?w = "w\<lparr>m_postedAcceptCount := m_postedAcceptCount w - 1\<rparr>"
  let ?k = "of_nat j :: u32"
  obtain ip port where r: "(case remote of Some r \<Rightarrow> r | None \<Rightarrow> ([], 0)) = (ip, port)" by fastforce
  have S1: "server_ok dr ds ?w" by (rule server_ok_view [OF _ S]) simp
  then have P1: "pool_ok ?w" by (simp add: server_ok_def)
  obtain q w1 where Q: "ClientSessionPool_Acquire ?w = (q, w1)" by fastforce
  note ap = Acquire_pool [OF P1 Q]
  have q: "q = Some j"
  proof (cases q)
    case None then show ?thesis using ap free by simp
  next
    case (Some j') then show ?thesis using Q free by (simp add: ClientSessionPool_Acquire_def Let_def set_node_def split: if_splits)
  qed
  have e1: "w1 = ?w\<lparr>cp_nodes := cp_nodes w1, cp_freeList := cp_freeList w1\<rparr>" using ap q by simp
  have w1: "cp_sessions w1 = cp_sessions w" "cp_capacity w1 = cp_capacity w" "nw_posted w1 = nw_posted w"
    "nw_newSockets w1 = nw_newSockets w" "nw_socketCalls w1 = nw_socketCalls w" "m_serverShutdownRequested w1 = m_serverShutdownRequested w"
    by (subst e1, simp)+
  have a: "j < length (cp_nodes w)" "poolState (cp_nodes w ! j) = SESSION_POOL_FREE" "poolState (cp_nodes w1 ! j) = SESSION_POOL_IN_USE"
    "pool_ok w1" "length (cp_nodes w1) = length (cp_nodes w)"
    using ap q by auto
  have "j < unat (cp_capacity w)" using P1 a(1) by (simp add: pool_ok_def)
  then have k: "unat ?k = j" "?k < cp_capacity w"
    using unsigned_less [of "cp_capacity w", where 'a = nat] by (simp_all add: unat_of_nat word_less_nat_alt)
  let ?c = "cp_sessions w ! j"
  have A: "acct ?k (False, ?c, w) 0 0 0 (dr ?k) (ds ?k) (?c, w)" using S k by (auto simp: server_ok_def)
  have cl: "clean ?c" using A a(2) k(1) by (simp add: acct_iff)
  have out: "recvs ?k (nw_posted w) = dr ?k" "sends ?k (nw_posted w) = ds ?k"
    using A cl by (auto simp: acct_def acct_base_def clean_def)
  obtain so s1 where T: "DetachSocket ?s = (so, s1)" by fastforce
  then have so: "so = Some socket" using socket by (simp add: DetachSocket_def OnAccept_def)
  obtain c2 w2 where T2: "attach_accepted so ip port (?c, w1) = (c2, w2)" by fastforce
  note at = attach_accepted_sels [OF T2]
  have c2: "m_clientSocket c2 = Some socket" "\<not> IsTransportConnected c2" "\<not> m_recvPaused c2"
    using T2 cl sess_viewD [OF at(1)] by (auto simp: so attach_accepted_def AttachSocket_def SetRemoteAddress_def Let_def clean_def IsTransportConnected_def)
  have n2: "nw_newSockets w2 = nw_newSockets w1" "nw_socketCalls w2 = nw_socketCalls w1" "\<not> m_serverShutdownRequested w2"
    using T2 w1(6) up cl by (auto simp: attach_accepted_def AttachSocket_def Let_def clean_def)
  let ?w2 = "on_session j (attach_accepted so ip port) w1"
  have e2: "?w2 = w2\<lparr>cp_sessions := (cp_sessions w2)[j := c2]\<rparr>" using T2 w1(1) by (simp add: on_session_def)
  have W: "WSASocket ?w2 = (None, ?w2\<lparr>nw_socketCalls := nw_socketCalls ?w2 + 1\<rparr>)"
    using no n2 w1(4,5) by (simp add: WSASocket_def e2)
  obtain posted s3 w3 where P3: "repost (s1, ?w2) = (posted, s3, w3)" by (cases "repost (s1, ?w2)") auto
  have "\<not> posted" using P3 W n2(3) by (auto simp: repost_def PostAccept_def e2 split: prod.splits)
  then have H: "HandleAccept env service remote slot w = put_accept i (s3, w3)"
    using slot up policy free r Q q T P3 by (simp add: HandleAccept_def Let_def IsSessionFull_def)
  have v: "pool_view (put_accept i (s3, w3)) = pool_view ?w2" using repost_view [OF P3] by simp
  have l: "j < length (cp_sessions w)" using a(1) P1 by (simp add: pool_ok_def)
  show ?thesis unfolding H stranded_def pool_viewD [OF v] using k a(3) c2 out l w1 pool_viewD [OF at(2)] by (simp add: e2)
qed

text \<open>
  C9. When \<open>WSASocket\<close> fails while an accepted connection is handled, the connection's session and socket are lost: \<open>HandleAccept\<close> has attached
  the socket and returns, nothing is posted, and whatever the server does from then on, the session stays in use and never connected, with its
  socket open. Neither the heartbeat rounds nor the release protocol can give it back.
\<close>

theorem failed_repost_leaks_session:
  assumes "serves acquire release service (dr, ds, w)" and "service_ok service"
    and "GetAcceptSession slot w = Some i" and "\<not> m_serverShutdownRequested w" and "maxConnectionsPerAddress (m_connectionPolicy w) = 0"
    and "cp_freeList w = Some j" and "nw_newSockets w (nw_socketCalls w) = None" and "m_clientSocket (as_sessions w ! i) = Some socket"
    and "server_run (pool_env acquire release) service (Accepted slot remote # es) (dr, ds, w) = Some (dr', ds', w')"
  shows "state_of (of_nat j) w' = SESSION_POOL_IN_USE \<and> m_clientSocket (session_of (of_nat j) w') = Some socket \<and>
    \<not> IsTransportConnected (session_of (of_nat j) w') \<and> recvs (of_nat j) (nw_posted w') = dr' (of_nat j) \<and>
    sends (of_nat j) (nw_posted w') = ds' (of_nat j)"
proof -
  have S: "server_ok dr ds w" using serves_ok [OF assms(1,2)] by simp
  let ?w = "HandleAccept (pool_env acquire release) service remote slot w"
  have K: "kept dr ds w dr ds ?w" 
    by (rule server_step_ok [OF S pool_env_asks assms(2), of _ _ "Accepted slot remote"]) (simp add: HandleCompletion_def)
  have R: "server_run (pool_env acquire release) service es (dr, ds, ?w) = Some (dr', ds', w')" using assms(9) by (simp add: HandleCompletion_def)
  have "kept dr ds ?w dr' ds' w'" by (rule server_run_ok [OF _ pool_env_asks assms(2) R]) (use K in \<open>simp add: kept_def\<close>)
  moreover have "stranded (of_nat j) (Some socket) dr ds ?w" by (rule leaking_accept [OF S assms(3-8)])
  ultimately have "stranded (of_nat j) (Some socket) dr' ds' w'" by (simp add: kept_def strands_def)
  then show ?thesis by (simp add: stranded_def)
qed

text \<open>The small server when the process has handles for the listen socket and one more.\<close>

definition leak_start :: "bool \<times> nat ServerWorld" where
  "leak_start = StartServer (pool_env counting_pool keep_pool) (\<lambda>_. True) (\<lambda>_. True) (\<lambda>_ n. Some (replicate n 0)) True True True None 1
     demo_config demo_policy new_HeartbeatConfig (demo_world\<lparr>nw_newSockets := (\<lambda>n. if n < 2 then Some n else None)\<rparr>)"

definition leak_events :: "server_event list" where
  "leak_events = [HeartbeatRound, Clock 1000000, ZombieRound (\<lambda>_. 0) 1000000 15000 60000 1000]"

lemma leak_serves: "serves counting_pool keep_pool demo_service (\<lambda>_. 0, \<lambda>_. 0, snd leak_start)"
proof -
  have "fst leak_start" by code_simp
  then have "leak_start = (True, snd leak_start)" by (metis prod.collapse)
  then show ?thesis
    by (rule starts [OF leak_start_def [symmetric, THEN trans]]) (simp add: new_pool_def demo_world_def)
qed

lemma failed_repost_leaks_session_witness:
  "case server_run (pool_env counting_pool keep_pool) demo_service (Accepted 0 None # leak_events) (\<lambda>_. 0, \<lambda>_. 0, snd leak_start) of
     None \<Rightarrow> False
   | Some (dr, ds, w) \<Rightarrow> state_of 0 w = SESSION_POOL_IN_USE \<and> m_clientSocket (session_of 0 w) = Some 1 \<and> \<not> IsTransportConnected (session_of 0 w)"
proof -
  let ?w = "snd leak_start"
  have w: "GetAcceptSession 0 ?w = Some 0" "\<not> m_serverShutdownRequested ?w" "maxConnectionsPerAddress (m_connectionPolicy ?w) = 0"
    "cp_freeList ?w = Some 0" "nw_newSockets ?w (nw_socketCalls ?w) = None" "m_clientSocket (as_sessions ?w ! 0) = Some 1"
    by code_simp+
  have "server_run (pool_env counting_pool keep_pool) demo_service (Accepted 0 None # leak_events) (\<lambda>_. 0, \<lambda>_. 0, ?w) \<noteq> None"
    unfolding leak_events_def by (simp add: HandleCompletion_def)
  then obtain dr ds w' where R: "server_run (pool_env counting_pool keep_pool) demo_service (Accepted 0 None # leak_events)
      (\<lambda>_. 0, \<lambda>_. 0, ?w) = Some (dr, ds, w')" by auto
  from failed_repost_leaks_session [OF leak_serves demo_service_ok w R] R show ?thesis by simp
qed

end
