(* ===== verification/RingHistory.thy ===== *)
theory RingHistory
  imports RecvRing
begin

text \<open>The receive ring over any history of its operations, in any order.\<close>

section \<open>Histories\<close>

text \<open>The operations, and a write of the kernel into the range that was last offered to it.\<close>

datatype ring_op = RingInitialize bool u32 u32 | RingFinalize | RingReset | RingPrepareWrite | RingKernelWrites bytes | RingCommitWrite u32 | RingReadPacket

fun ring_do ::
  "(nat \<Rightarrow> bytes option) \<Rightarrow> ('p \<Rightarrow> nat \<Rightarrow> addr option \<times> 'p) \<Rightarrow> ring_op \<Rightarrow> 'p \<times> RecvPacketBuffer \<Rightarrow> 'p \<times> RecvPacketBuffer" where
  "ring_do alloc acquire (RingInitialize pool ringSize mx) (p, b) = (p, snd (rb_Initialize alloc pool ringSize mx b))"
| "ring_do alloc acquire RingFinalize (p, b) = (p, rb_Finalize b)"
| "ring_do alloc acquire RingReset (p, b) = (p, rb_Reset b)"
| "ring_do alloc acquire RingPrepareWrite (p, b) = (p, PrepareWrite b)"
| "ring_do alloc acquire (RingKernelWrites bs) (p, b) =
     (p, if rb_buffer b \<noteq> None \<and> length bs \<le> unat (GetWriteableSize b) then deliver bs b else b)"
| "ring_do alloc acquire (RingCommitWrite n) (p, b) = (p, snd (CommitWrite n b))"
| "ring_do alloc acquire RingReadPacket (p, b) = (case ReadPacket acquire p b of (_, _, p', b') \<Rightarrow> (p', b'))"

section \<open>Well-formedness\<close>

text \<open>Committing any count the ring accepts commits the bytes that lie there.\<close>

lemma CommitWrite_inv:
  assumes inv: "rb_inv b"
  shows "rb_inv (snd (CommitWrite n b))"
proof (cases "rb_buffer b = None \<or> n = 0 \<or> n > GetWriteableSize b")
  case True then show ?thesis using CommitWrite_refused(3) inv by blast
next
  case False
  then obtain buf where buf: "rb_buffer b = Some buf" and n: "unat n \<le> unat (GetWriteableSize b)" "n \<noteq> 0" by (auto simp: word_less_nat_alt)
  let ?d = "take (unat n) (drop (unat (rb_writePos b)) buf)"
  have len: "length ?d = unat n"
    using writeable_bounds(1) [OF inv buf n(1)] by simp
  have "overwrite buf (unat (rb_writePos b)) ?d =
      take (unat (rb_writePos b)) buf @ take (unat n) (drop (unat (rb_writePos b)) buf) @ drop (unat n) (drop (unat (rb_writePos b)) buf)"
    unfolding overwrite_def len by (simp add: add.commute)
  also have "\<dots> = buf" by (simp only: append_take_drop_id)
  finally have d: "deliver ?d b = b" using buf by (simp add: deliver_def)
  have "?d \<noteq> []" using len n(2) by (metis length_0_conv unat_eq_0)
  from deliver_commit(2) [OF inv buf _ this, of "fst (CommitWrite n b)" "snd (CommitWrite n b)"] n(1) len d show ?thesis by simp
qed

lemma deliver_well_formed: "rb_inv b \<Longrightarrow> rb_buffer b = Some buf \<Longrightarrow> length bs \<le> unat (GetWriteableSize b) \<Longrightarrow> rb_inv (deliver bs b)"
  using writeable_bounds(1) [of b buf "length bs"] by (simp add: rb_inv_def deliver_def)

lemma ring_do_inv:
  assumes "rb_inv (snd pb)"
  shows "rb_inv (snd (ring_do alloc acquire op pb))"
proof -
  obtain p b where pb: "pb = (p, b)" by fastforce
  have inv: "rb_inv b" using assms pb by simp
  show ?thesis
  proof (cases op)
    case (RingInitialize pool ringSize mx)
    then show ?thesis using rb_Initialize_inv(1) [OF inv, of alloc pool ringSize mx] pb by (cases "rb_Initialize alloc pool ringSize mx b") simp
  next
    case RingReadPacket
    obtain res out p' b' where R: "ReadPacket acquire p b = (res, out, p', b')" by (metis prod_cases4)
    have "rb_inv b'" using ReadPacket_spec [OF inv R] inv by (auto split: next_packet.splits option.splits prod.splits)
    then show ?thesis using R RingReadPacket pb by simp
  next
    case (RingKernelWrites bs)
    then show ?thesis using inv deliver_well_formed pb by auto
  qed (use inv pb PrepareWrite_inv_stored(1) CommitWrite_inv in simp_all)
qed

text \<open>
  C36. Whatever operations a receive ring goes through, in whatever order and with whatever arguments, failed and refused ones included, it stays well
  formed: its block has the size of its capacity, a power of two at least twice the largest packet, the positions lie in it, and the write position
  is where the stored bytes end; or it has no block and everything is zero.
\<close>

theorem ring_well_formed:
  "let b = snd (fold (ring_do alloc acquire) ops (p, new_RecvPacketBuffer)) in
     (case rb_buffer b of
        None \<Rightarrow> rb_capacity b = 0 \<and> rb_writePos b = 0 \<and> rb_readPos b = 0 \<and> rb_storedSize b = 0
      | Some buf \<Rightarrow> IsPowerOfTwo (rb_capacity b) \<and> length buf = unat (rb_capacity b) \<and>
          2 * unat (rb_maxPacketSize b) \<le> unat (rb_capacity b) \<and> unat (rb_readPos b) < unat (rb_capacity b) \<and>
          unat (rb_storedSize b) \<le> unat (rb_capacity b) \<and>
          unat (rb_writePos b) = (unat (rb_readPos b) + unat (rb_storedSize b)) mod unat (rb_capacity b))"
proof -
  have "rb_inv (snd pb) \<Longrightarrow> rb_inv (snd (fold (ring_do alloc acquire) ops pb))" for pb
    by (induction ops arbitrary: pb) (simp_all add: ring_do_inv)
  from this [of "(p, new_RecvPacketBuffer)"] have "rb_inv (snd (fold (ring_do alloc acquire) ops (p, new_RecvPacketBuffer)))" by simp
  then show ?thesis unfolding rb_inv_def by (cases "rb_buffer (snd (fold (ring_do alloc acquire) ops (p, new_RecvPacketBuffer)))") simp_all
qed

end
