(* ===== verification/IoCore.thy ===== *)
theory IoCore
  imports Prelude "HOL-Library.Multiset"
begin

text \<open>
  \<open>Core/IOCPCore\<close>: the completion port, the workers that read it, and how they are started and stopped. \<open>ThreadBase\<close> is not part of the
  repository: a worker has a flag that asks it to stop, and joining it returns once it has left its loop. The answers of Windows are parameters.
\<close>

section \<open>State\<close>

text \<open>What a worker is doing: at the head of its loop, in \<open>GetQueuedCompletionStatus\<close>, in \<open>HandleCompletion\<close>, or out of the loop.\<close>

datatype worker_state = LoopHead | InGQCS | InHandler nat | LeftLoop

record IOCPWorkerThread =
  wk_stopRequested :: bool
  wk_state :: worker_state

text \<open>
  What the port holds: the terminate code, or a completion, numbered. \<open>ic_handled\<close> and \<open>ic_dropped\<close> record the completions that were
  handled and those that were still in the port when its handle was closed.
\<close>

datatype queued = TERMINATE_CODE | Completion nat

fun completions_in :: "queued list \<Rightarrow> nat list" where
  "completions_in [] = []"
| "completions_in (TERMINATE_CODE # q) = completions_in q"
| "completions_in (Completion n # q) = n # completions_in q"

record IOCPCore =
  ic_destroyFlag :: bool
  m_winsockInitialized :: bool
  m_iocpHandle :: bool
  m_iocpThreadCount :: u32
  m_iocpWorkerThreads :: "IOCPWorkerThread option list option"
  ic_queue :: "queued list"
  ic_handled :: "nat list"
  ic_dropped :: "nat list"

definition new_IOCPCore :: IOCPCore where
  "new_IOCPCore = \<lparr>ic_destroyFlag = False, m_winsockInitialized = False, m_iocpHandle = False, m_iocpThreadCount = 0,
     m_iocpWorkerThreads = None, ic_queue = [], ic_handled = [], ic_dropped = []\<rparr>"

abbreviation workers :: "IOCPCore \<Rightarrow> IOCPWorkerThread option list" where
  "workers c \<equiv> (case m_iocpWorkerThreads c of None \<Rightarrow> [] | Some ws \<Rightarrow> ws)"

section \<open>Starting\<close>

definition InitializeWinsock :: "bool \<Rightarrow> IOCPCore \<Rightarrow> bool \<times> IOCPCore" where
  "InitializeWinsock ok c = (if ok then (True, c\<lparr>m_winsockInitialized := True\<rparr>) else (False, c))"

definition FinalizeWinsock :: "IOCPCore \<Rightarrow> IOCPCore" where
  "FinalizeWinsock c = c\<lparr>m_winsockInitialized := False\<rparr>"

text \<open>Nobody reads a port any more whose handle is closed or overwritten: the completions in it are lost.\<close>

definition abandon_port :: "IOCPCore \<Rightarrow> IOCPCore" where
  "abandon_port c = c\<lparr>ic_queue := [], ic_dropped := ic_dropped c @ completions_in (ic_queue c)\<rparr>"

definition InitializeIOCPHandle :: "bool \<Rightarrow> IOCPCore \<Rightarrow> bool \<times> IOCPCore" where
  "InitializeIOCPHandle ok c = (if ok then (True, (abandon_port c)\<lparr>m_iocpHandle := True\<rparr>) else (False, c))"

definition FinalizeIOCPHandle :: "IOCPCore \<Rightarrow> IOCPCore" where
  "FinalizeIOCPHandle c = (if m_iocpHandle c then (abandon_port c)\<lparr>m_iocpHandle := False\<rparr> else c)"

definition SetIOCPThreadCount :: "u32 \<Rightarrow> IOCPCore \<Rightarrow> IOCPCore" where
  "SetIOCPThreadCount n c = c\<lparr>m_iocpThreadCount := n\<rparr>"

text \<open>The workers that are made, each with whether it could be allocated and started; a worker that does not start stays in the table.\<close>

fun create_workers :: "(bool \<times> bool) list \<Rightarrow> bool \<times> IOCPWorkerThread option list" where
  "create_workers [] = (True, [])"
| "create_workers ((allocated, started) # ws) =
     (if \<not> allocated then (False, None # map (\<lambda>_. None) ws)
      else if \<not> started then (False, Some \<lparr>wk_stopRequested = False, wk_state = LeftLoop\<rparr> # map (\<lambda>_. None) ws)
      else (case create_workers ws of (ok, made) \<Rightarrow> (ok, Some \<lparr>wk_stopRequested = False, wk_state = LoopHead\<rparr> # made)))"

definition CreateIOCPWorkerthread :: "bool \<Rightarrow> (nat \<Rightarrow> bool \<times> bool) \<Rightarrow> IOCPCore \<Rightarrow> bool \<times> IOCPCore" where
  "CreateIOCPWorkerthread tableOk worker c =
     (if m_iocpThreadCount c = 0 then (False, c)
      else if \<not> tableOk then (False, c\<lparr>m_iocpWorkerThreads := None\<rparr>)
      else (case create_workers (map worker [0..<unat (m_iocpThreadCount c)]) of
              (ok, ws) \<Rightarrow> (ok, c\<lparr>m_iocpWorkerThreads := Some ws\<rparr>)))"

definition IOCPCore_Start :: "bool \<Rightarrow> bool \<Rightarrow> bool \<Rightarrow> (nat \<Rightarrow> bool \<times> bool) \<Rightarrow> IOCPCore \<Rightarrow> bool \<times> IOCPCore" where
  "IOCPCore_Start winsockOk handleOk tableOk worker c =
     (case InitializeWinsock winsockOk (c\<lparr>ic_destroyFlag := False\<rparr>) of
        (False, c1) \<Rightarrow> (False, c1)
      | (True, c1) \<Rightarrow>
          (case InitializeIOCPHandle handleOk c1 of
             (False, c2) \<Rightarrow> (False, c2)
           | (True, c2) \<Rightarrow> CreateIOCPWorkerthread tableOk worker c2))"

section \<open>The loop of a worker\<close>

definition set_worker :: "nat \<Rightarrow> IOCPWorkerThread \<Rightarrow> IOCPCore \<Rightarrow> IOCPCore" where
  "set_worker i k c = c\<lparr>m_iocpWorkerThreads := map_option (\<lambda>ws. ws[i := Some k]) (m_iocpWorkerThreads c)\<rparr>"

text \<open>
  One step of \<open>IOCPWorkerThreadLoop\<close>; \<open>None\<close> while the worker waits at an empty port, or when it has left. What was dequeued is handled whatever
  was asked meanwhile.
\<close>

definition worker_step :: "nat \<Rightarrow> IOCPCore \<Rightarrow> IOCPCore option" where
  "worker_step i c =
     (if length (workers c) \<le> i then None
      else
        (case workers c ! i of
           None \<Rightarrow> None
         | Some k \<Rightarrow>
             (case wk_state k of
                LoopHead \<Rightarrow> Some (set_worker i (k\<lparr>wk_state := if wk_stopRequested k then LeftLoop else InGQCS\<rparr>) c)
              | InGQCS \<Rightarrow>
                  (case ic_queue c of
                     [] \<Rightarrow> None
                   | TERMINATE_CODE # q \<Rightarrow> Some (set_worker i (k\<lparr>wk_state := LeftLoop\<rparr>) (c\<lparr>ic_queue := q\<rparr>))
                   | Completion n # q \<Rightarrow> Some (set_worker i (k\<lparr>wk_state := InHandler n\<rparr>) (c\<lparr>ic_queue := q\<rparr>)))
              | InHandler n \<Rightarrow> Some (set_worker i (k\<lparr>wk_state := LoopHead\<rparr>) (c\<lparr>ic_handled := ic_handled c @ [n]\<rparr>))
              | LeftLoop \<Rightarrow> None)))"

section \<open>Stopping\<close>

text \<open>One round of the loop of \<open>RequestIOCPThreadTerminate\<close>; the failure of the post is only logged.\<close>

definition terminate_worker :: "nat \<Rightarrow> bool \<Rightarrow> IOCPCore \<Rightarrow> IOCPCore" where
  "terminate_worker i posted c =
     (case workers c ! i of
        None \<Rightarrow> c
      | Some k \<Rightarrow> (let c1 = set_worker i (k\<lparr>wk_stopRequested := True\<rparr>) c in if posted then c1\<lparr>ic_queue := ic_queue c1 @ [TERMINATE_CODE]\<rparr> else c1))"

text \<open>\<open>DestroyIOCPWorkerthread\<close> joins every worker: \<open>None\<close> while one of them has not left its loop.\<close>

definition has_left :: "IOCPWorkerThread option \<Rightarrow> bool" where
  "has_left k \<longleftrightarrow> (case k of None \<Rightarrow> True | Some k \<Rightarrow> wk_state k = LeftLoop)"

definition DestroyIOCPWorkerthread :: "IOCPCore \<Rightarrow> IOCPCore option" where
  "DestroyIOCPWorkerthread c = (if list_all has_left (workers c) then Some (c\<lparr>m_iocpWorkerThreads := None\<rparr>) else None)"

text \<open>
  \<open>Stop\<close>, with the threads that run meanwhile: \<open>others\<close> is what they do after each terminate code, and before the joins; \<open>None\<close> while a join does not
  return.
\<close>

definition RequestIOCPThreadTerminate :: "(nat \<Rightarrow> bool) \<Rightarrow> (nat \<Rightarrow> IOCPCore \<Rightarrow> IOCPCore) \<Rightarrow> IOCPCore \<Rightarrow> IOCPCore" where
  "RequestIOCPThreadTerminate posted others c =
     (if m_iocpWorkerThreads c = None \<or> \<not> m_iocpHandle c then c
      else fold (\<lambda>i c. others i (terminate_worker i (posted i) c)) [0..<unat (m_iocpThreadCount c)] c)"

definition IOCPCore_Stop :: "(nat \<Rightarrow> bool) \<Rightarrow> (nat \<Rightarrow> IOCPCore \<Rightarrow> IOCPCore) \<Rightarrow> IOCPCore \<Rightarrow> IOCPCore option" where
  "IOCPCore_Stop posted others c =
     (if ic_destroyFlag c then Some c
      else map_option (FinalizeWinsock \<circ> FinalizeIOCPHandle)
        (DestroyIOCPWorkerthread (RequestIOCPThreadTerminate posted others (c\<lparr>ic_destroyFlag := True\<rparr>))))"

section \<open>Runs\<close>

text \<open>
  What can happen to a started core: the kernel queues a completion while the port is open, a worker makes a step; and the parts of \<open>Stop\<close>: the flag
  is set, \<open>RequestIOCPThreadTerminate\<close> asks a worker to stop, \<open>DestroyIOCPWorkerthread\<close> has joined the workers, then the handle
  is closed and Winsock cleaned up. The list has the completions that were queued.
\<close>

inductive core_runs :: "IOCPCore \<Rightarrow> nat list \<Rightarrow> IOCPCore \<Rightarrow> bool" for c where
  starts: "core_runs c [] c"
| queues: "core_runs c (ns @ [n]) (c'\<lparr>ic_queue := ic_queue c' @ [Completion n]\<rparr>)" if "core_runs c ns c'" and "m_iocpHandle c'"
| works: "core_runs c ns c''" if "core_runs c ns c'" and "worker_step i c' = Some c''"
| flags: "core_runs c ns (c'\<lparr>ic_destroyFlag := True\<rparr>)" if "core_runs c ns c'"
| asks: "core_runs c ns (terminate_worker i posted c')" if "core_runs c ns c'" and "i < length (workers c')"
| joins: "core_runs c ns c''" if "core_runs c ns c'" and "DestroyIOCPWorkerthread c' = Some c''"
| closes: "core_runs c ns (FinalizeIOCPHandle c')" if "core_runs c ns c'" and "m_iocpWorkerThreads c' = None"
| cleans: "core_runs c ns (FinalizeWinsock c')" if "core_runs c ns c'"

text \<open>The completions in the port, being handled, and handled.\<close>

definition queued_completions :: "queued list \<Rightarrow> nat multiset" where
  "queued_completions q = mset (completions_in q)"

definition in_hand :: "IOCPWorkerThread option list \<Rightarrow> nat multiset" where
  "in_hand ws = \<Sum>\<^sub># (mset (map (\<lambda>k. case k of Some k \<Rightarrow> (case wk_state k of InHandler n \<Rightarrow> {#n#} | _ \<Rightarrow> {#}) | None \<Rightarrow> {#}) ws))"

definition carried :: "IOCPCore \<Rightarrow> nat multiset" where
  "carried c = queued_completions (ic_queue c) + in_hand (workers c) + mset (ic_handled c)"

lemma completions_in_append [simp]: "completions_in (q @ q') = completions_in q @ completions_in q'"
  by (induction q rule: completions_in.induct) simp_all

lemma queued_completions_simps [simp]:
  "queued_completions [] = {#}" "queued_completions (TERMINATE_CODE # q) = queued_completions q"
  "queued_completions (Completion n # q) = add_mset n (queued_completions q)"
  "queued_completions (q @ q') = queued_completions q + queued_completions q'"
  by (simp_all add: queued_completions_def)

lemma set_worker_sels [simp]:
  "i < length (workers c) \<Longrightarrow> workers (set_worker i k c) = (workers c)[i := Some k]" "ic_queue (set_worker i k c) = ic_queue c"
  "ic_handled (set_worker i k c) = ic_handled c" "ic_dropped (set_worker i k c) = ic_dropped c" "m_iocpThreadCount (set_worker i k c) = m_iocpThreadCount c"
  "(m_iocpWorkerThreads (set_worker i k c) = None) = (m_iocpWorkerThreads c = None)" "m_iocpHandle (set_worker i k c) = m_iocpHandle c"
  by (auto simp: set_worker_def split: option.splits)

abbreviation hand_of :: "IOCPWorkerThread option \<Rightarrow> nat multiset" where
  "hand_of k \<equiv> (case k of Some k \<Rightarrow> (case wk_state k of InHandler n \<Rightarrow> {#n#} | _ \<Rightarrow> {#}) | None \<Rightarrow> {#})"

lemma in_hand_update: "i < length ws \<Longrightarrow> in_hand (ws[i := k]) + hand_of (ws ! i) = in_hand ws + hand_of k"
proof (induction ws arbitrary: i)
  case (Cons a ws) then show ?case by (cases i) (auto simp: in_hand_def ac_simps)
qed simp

lemma worker_step_cases:
  assumes "worker_step i c = Some c'"
  obtains k where "i < length (workers c)" and "workers c ! i = Some k" and "wk_state k = LoopHead"
      "c' = set_worker i (k\<lparr>wk_state := if wk_stopRequested k then LeftLoop else InGQCS\<rparr>) c"
  | k q where "i < length (workers c)" and "workers c ! i = Some k" and "wk_state k = InGQCS" and "ic_queue c = TERMINATE_CODE # q"
      "c' = set_worker i (k\<lparr>wk_state := LeftLoop\<rparr>) (c\<lparr>ic_queue := q\<rparr>)"
  | k q n where "i < length (workers c)" and "workers c ! i = Some k" and "wk_state k = InGQCS" and "ic_queue c = Completion n # q"
      "c' = set_worker i (k\<lparr>wk_state := InHandler n\<rparr>) (c\<lparr>ic_queue := q\<rparr>)"
  | k n where "i < length (workers c)" and "workers c ! i = Some k" and "wk_state k = InHandler n"
      "c' = set_worker i (k\<lparr>wk_state := LoopHead\<rparr>) (c\<lparr>ic_handled := ic_handled c @ [n]\<rparr>)"
  using assms unfolding worker_step_def by (auto split: if_splits option.splits worker_state.splits list.splits queued.splits)

lemma worker_step_carried:
  assumes "worker_step i c = Some c'"
  shows "carried c' = carried c"
  using assms
proof (cases rule: worker_step_cases)
  case (1 k)
  then show ?thesis using in_hand_update [of i "workers c" "Some (k\<lparr>wk_state := if wk_stopRequested k then LeftLoop else InGQCS\<rparr>)"]
    by (simp add: carried_def split: if_splits)
next
  case (2 k q)
  then show ?thesis using in_hand_update [of i "workers c" "Some (k\<lparr>wk_state := LeftLoop\<rparr>)"] by (simp add: carried_def)
next
  case (3 k q n)
  then show ?thesis using in_hand_update [of i "workers c" "Some (k\<lparr>wk_state := InHandler n\<rparr>)"] by (simp add: carried_def)
next
  case (4 k n)
  then show ?thesis using in_hand_update [of i "workers c" "Some (k\<lparr>wk_state := LoopHead\<rparr>)"] by (simp add: carried_def)
qed

lemma terminate_worker_carried:
  assumes "i < length (workers c)"
  shows "carried (terminate_worker i posted c) = carried c"
proof (cases "workers c ! i")
  case None then show ?thesis by (simp add: terminate_worker_def)
next
  case (Some k)
  then show ?thesis using assms in_hand_update [of i "workers c" "Some (k\<lparr>wk_stopRequested := True\<rparr>)"]
    by (simp add: terminate_worker_def carried_def Let_def)
qed

text \<open>What no step but the closing of the handle touches.\<close>

lemma worker_step_frame:
  assumes "worker_step i c = Some c'"
  shows "ic_dropped c' = ic_dropped c" and "m_iocpHandle c' = m_iocpHandle c" and "m_iocpWorkerThreads c \<noteq> None"
proof -
  show "ic_dropped c' = ic_dropped c" "m_iocpHandle c' = m_iocpHandle c" using assms by (cases rule: worker_step_cases; simp)+
  show "m_iocpWorkerThreads c \<noteq> None" using assms by (cases "m_iocpWorkerThreads c") (simp_all add: worker_step_def)
qed

lemma terminate_worker_frame [simp]:
  "ic_dropped (terminate_worker i posted c) = ic_dropped c" "m_iocpHandle (terminate_worker i posted c) = m_iocpHandle c"
  by (simp_all add: terminate_worker_def Let_def split: option.split)

lemma left_in_hand: "list_all has_left ws \<Longrightarrow> in_hand ws = {#}"
  by (induction ws) (auto simp: in_hand_def has_left_def split: option.splits)

lemma joined:
  assumes "DestroyIOCPWorkerthread c = Some c'"
  shows "carried c' = carried c" and "ic_dropped c' = ic_dropped c" and "m_iocpHandle c' = m_iocpHandle c"
    and "m_iocpWorkerThreads c' = None" and "ic_queue c' = ic_queue c" and "ic_handled c' = ic_handled c"
  using assms left_in_hand [of "workers c"] left_in_hand [of "[]"]
  by (auto simp: DestroyIOCPWorkerthread_def carried_def split: if_splits)

lemma carried_flags [simp]:
  "carried (c\<lparr>ic_destroyFlag := b\<rparr>) = carried c" "carried (FinalizeWinsock c) = carried c"
  "m_iocpHandle (FinalizeWinsock c) = m_iocpHandle c" "m_iocpWorkerThreads (FinalizeWinsock c) = m_iocpWorkerThreads c"
  "ic_queue (FinalizeWinsock c) = ic_queue c" "ic_handled (FinalizeWinsock c) = ic_handled c" "ic_dropped (FinalizeWinsock c) = ic_dropped c"
  by (simp_all add: carried_def FinalizeWinsock_def)

lemma FinalizeIOCPHandle_carried: "carried (FinalizeIOCPHandle c) + mset (ic_dropped (FinalizeIOCPHandle c)) = carried c + mset (ic_dropped c)"
  by (simp add: FinalizeIOCPHandle_def abandon_port_def carried_def queued_completions_def ac_simps)

lemma FinalizeIOCPHandle_frame [simp]:
  "\<not> m_iocpHandle (FinalizeIOCPHandle c)" "m_iocpWorkerThreads (FinalizeIOCPHandle c) = m_iocpWorkerThreads c"
  by (simp_all add: FinalizeIOCPHandle_def abandon_port_def)

text \<open>\<open>closed_from c ns c'\<close>: the handle was closed in a state reached from \<open>c\<close>, and what its port held then is all that was dropped.\<close>

definition closed_from :: "IOCPCore \<Rightarrow> nat list \<Rightarrow> IOCPCore \<Rightarrow> bool" where
  "closed_from c ns c' \<longleftrightarrow> (\<exists>d. core_runs c ns d \<and> m_iocpHandle d \<and> m_iocpWorkerThreads d = None \<and>
     ic_dropped c' = ic_dropped c @ completions_in (ic_queue d) \<and> ic_handled c' = ic_handled d)"

lemma core_runs_closed:
  assumes "core_runs c ns c'" and "m_iocpHandle c"
  shows "if m_iocpHandle c' then ic_dropped c' = ic_dropped c
    else m_iocpWorkerThreads c' = None \<and> ic_queue c' = [] \<and> closed_from c ns c'"
  using assms
proof (induction rule: core_runs.induct)
  case (works ns c' i c'')
  then show ?case using worker_step_frame [OF works.hyps(2)] by (simp split: if_splits)
next
  case (asks ns c' i posted)
  then have "m_iocpHandle c'" by (auto split: if_splits)
  then show ?case using asks by simp
next
  case (joins ns c' c'')
  note j = joined [OF joins.hyps(2)]
  show ?case
  proof (cases "m_iocpHandle c'")
    case True
    with joins j show ?thesis by simp
  next
    case False
    then have "ic_queue c' = []" "closed_from c ns c'" using joins by simp_all
    with False j show ?thesis by (simp add: closed_from_def)
  qed
next
  case (closes ns c')
  show ?case
  proof (cases "m_iocpHandle c'")
    case True
    then have "closed_from c ns (FinalizeIOCPHandle c')"
      using closes unfolding closed_from_def by (intro exI [of _ c']) (simp add: FinalizeIOCPHandle_def abandon_port_def)
    with closes True show ?thesis by (simp add: FinalizeIOCPHandle_def abandon_port_def)
  next
    case False
    with closes show ?thesis by (simp add: FinalizeIOCPHandle_def)
  qed
qed (auto simp: closed_from_def split: if_splits)

text \<open>
  C33. Completions are kept until the port is closed: whatever the workers do, whenever they are asked to stop, and up to the end of \<open>Stop\<close>, each completion
  that the port received is in exactly one place: still in the port, in the hands of one worker, handled, or dropped. Nothing is dropped
  while the handle is open. It is closed only after all workers have been joined, and what is dropped is then exactly what was still in the port:
  the notifications for which nobody is left, as the comment in \<open>BaseSession::Finalize\<close> says.
\<close>

theorem completions_kept:
  assumes "m_iocpHandle c" and "core_runs c ns c'"
  shows "carried c' + mset (ic_dropped c') = carried c + mset (ic_dropped c) + mset ns \<and>
    (if m_iocpHandle c' then ic_dropped c' = ic_dropped c
     else \<exists>d. core_runs c ns d \<and> m_iocpHandle d \<and> m_iocpWorkerThreads d = None \<and>
       ic_dropped c' = ic_dropped c @ completions_in (ic_queue d) \<and> ic_handled c' = ic_handled d)"
proof
  show "carried c' + mset (ic_dropped c') = carried c + mset (ic_dropped c) + mset ns"
    using assms(2)
  proof induction
    case (queues ns c' n) then show ?case by (simp add: carried_def)
  next
    case (works ns c' i c'') then show ?case using worker_step_carried worker_step_frame(1) by simp
  next
    case (asks ns c' i posted) then show ?case using terminate_worker_carried by simp
  next
    case (joins ns c' c'') then show ?case using joined by simp
  next
    case (closes ns c') then show ?case using FinalizeIOCPHandle_carried by simp
  qed simp_all
  show "if m_iocpHandle c' then ic_dropped c' = ic_dropped c
     else \<exists>d. core_runs c ns d \<and> m_iocpHandle d \<and> m_iocpWorkerThreads d = None \<and>
       ic_dropped c' = ic_dropped c @ completions_in (ic_queue d) \<and> ic_handled c' = ic_handled d"
    using core_runs_closed [OF assms(2,1)] by (simp add: closed_from_def split: if_splits)
qed

text \<open>A small core: two workers that read the port.\<close>

definition demo_core :: IOCPCore where
  "demo_core = snd (IOCPCore_Start True True True (\<lambda>i. (True, True)) (SetIOCPThreadCount 2 new_IOCPCore))"

primrec worker_steps :: "nat list \<Rightarrow> IOCPCore \<Rightarrow> IOCPCore option" where
  "worker_steps [] c = Some c"
| "worker_steps (i # is) c = (case worker_step i c of None \<Rightarrow> None | Some c' \<Rightarrow> worker_steps is c')"

lemma core_runs_steps: "core_runs c ns c' \<Longrightarrow> worker_steps is c' = Some c'' \<Longrightarrow> core_runs c ns c''"
  by (induction "is" arbitrary: c') (auto split: option.splits intro: core_runs.works)

text \<open>
  A run to the end of \<open>Stop\<close>: completion 7 is handled, both workers are asked to stop and leave, completion 8 arrives when nobody reads the port any
  more and is dropped with it.
\<close>

lemma completions_kept_witness:
  "\<exists>c. core_runs demo_core [7, 8] c \<and> \<not> m_iocpHandle c \<and> ic_handled c = [7] \<and> ic_dropped c = [8]"
proof -
  let ?c1 = "demo_core\<lparr>ic_queue := ic_queue demo_core @ [Completion 7]\<rparr>"
  let ?asked = "\<lambda>c. terminate_worker 1 True (terminate_worker 0 True c)"
  have "case worker_steps [0, 1, 0, 0] ?c1 of None \<Rightarrow> False
      | Some c2 \<Rightarrow> 1 < length (workers c2) \<and> 1 < length (workers (terminate_worker 0 True c2)) \<and>
          (case worker_steps [0, 1] (?asked c2) of None \<Rightarrow> False
           | Some c3 \<Rightarrow> m_iocpHandle c3 \<and> ic_handled c3 = [7] \<and> ic_dropped c3 = [] \<and> ic_queue c3 = [TERMINATE_CODE] \<and>
               DestroyIOCPWorkerthread (c3\<lparr>ic_queue := ic_queue c3 @ [Completion 8]\<rparr>) \<noteq> None)" by code_simp
  then obtain c2 c3 c4 where s: "worker_steps [0, 1, 0, 0] ?c1 = Some c2" "1 < length (workers c2)" "1 < length (workers (terminate_worker 0 True c2))"
      "worker_steps [0, 1] (?asked c2) = Some c3"
    and c3: "m_iocpHandle c3" "ic_handled c3 = [7]" "ic_dropped c3 = []" "ic_queue c3 = [TERMINATE_CODE]"
    and c4: "DestroyIOCPWorkerthread (c3\<lparr>ic_queue := ic_queue c3 @ [Completion 8]\<rparr>) = Some c4"
    by (auto split: option.splits)
  have h: "m_iocpHandle demo_core" "ic_dropped demo_core = []" by code_simp+
  have "core_runs demo_core ([] @ [7]) ?c1" by (rule core_runs.queues [OF core_runs.starts h(1)])
  then have "core_runs demo_core [7] ?c1" by simp
  from core_runs_steps [OF this s(1)] have "core_runs demo_core [7] c2" .
  then have "core_runs demo_core [7] (terminate_worker 0 True c2)" using s(2) by (intro core_runs.asks) auto
  from core_runs.asks [OF this s(3)] have "core_runs demo_core [7] (?asked c2)" .
  then have "core_runs demo_core [7] c3" using core_runs_steps s(4) by blast
  from core_runs.queues [OF this c3(1), of 8]
  have "core_runs demo_core ([7] @ [8]) (c3\<lparr>ic_queue := ic_queue c3 @ [Completion 8]\<rparr>)" .
  from core_runs.joins [OF this c4] have r: "core_runs demo_core [7, 8] (FinalizeIOCPHandle c4)"
    using core_runs.closes joined(4) [OF c4] by simp
  note j = joined [OF c4]
  have f: "ic_handled (FinalizeIOCPHandle c4) = [7]" "in_hand (workers (FinalizeIOCPHandle c4)) = {#}" "ic_queue (FinalizeIOCPHandle c4) = []"
    using j c3 left_in_hand [of "[]"] by (simp_all add: FinalizeIOCPHandle_def abandon_port_def)
  have "carried demo_core = {#}"
  proof -
    have "ic_queue demo_core = [] \<and> in_hand (workers demo_core) = {#} \<and> ic_handled demo_core = []" by code_simp
    then show ?thesis by (simp add: carried_def)
  qed
  with completions_kept [OF h(1) r] h(2) f have "mset (ic_dropped (FinalizeIOCPHandle c4)) = {#8#}" by (simp add: carried_def)
  then show ?thesis using r f(1) by (intro exI [of _ "FinalizeIOCPHandle c4"]) simp
qed

section \<open>Leaving\<close>

text \<open>The workers that have not left, the terminate codes in the port, and the workers still to be asked.\<close>

definition staying :: "IOCPCore \<Rightarrow> nat" where
  "staying c = length (filter (\<lambda>k. \<not> has_left k) (workers c))"

definition codes :: "IOCPCore \<Rightarrow> nat" where
  "codes c = length (filter (\<lambda>x. x = TERMINATE_CODE) (ic_queue c))"

lemma staying_update:
  assumes "i < length (workers c)"
  shows "staying (set_worker i k c) + of_bool (\<not> has_left (workers c ! i)) = staying c + of_bool (\<not> has_left (Some k))"
proof -
  have "length (filter P (ws[i := k])) + of_bool (P (ws ! i)) = length (filter P ws) + of_bool (P k)" if "i < length ws" for P k and ws :: "'a list" and i
    using that
  proof (induction ws arbitrary: i)
    case (Cons a ws) then show ?case by (cases i) auto
  qed simp
  from this [OF assms, of "\<lambda>k. \<not> has_left k" "Some k"] assms show ?thesis by (simp add: staying_def)
qed

text \<open>A worker takes a code only to leave, so the workers that stay are never more than the codes by more than before.\<close>

lemma worker_step_owes:
  assumes "worker_step i c = Some c'"
  shows "staying c' + codes c \<le> staying c + codes c'" and "length (workers c') = length (workers c)"
    and "m_iocpThreadCount c' = m_iocpThreadCount c" and "(m_iocpWorkerThreads c' = None) = (m_iocpWorkerThreads c = None)"
    and "m_iocpHandle c' = m_iocpHandle c" and "map (\<lambda>k. k = None) (workers c') = map (\<lambda>k. k = None) (workers c)"
proof -
  have q: "staying (c\<lparr>ic_queue := q\<rparr>) = staying c" "staying (c\<lparr>ic_handled := h\<rparr>) = staying c" "workers (c\<lparr>ic_queue := q\<rparr>) = workers c"
    "workers (c\<lparr>ic_handled := h\<rparr>) = workers c" for q h by (simp_all add: staying_def)
  show "staying c' + codes c \<le> staying c + codes c'"
    using assms
  proof (cases rule: worker_step_cases)
    case (1 k)
    then show ?thesis using staying_update [of i c "k\<lparr>wk_state := if wk_stopRequested k then LeftLoop else InGQCS\<rparr>"]
      by (simp add: codes_def has_left_def split: if_splits)
  next
    case (2 k q')
    then show ?thesis using staying_update [of i "c\<lparr>ic_queue := q'\<rparr>" "k\<lparr>wk_state := LeftLoop\<rparr>"] by (simp add: codes_def has_left_def q)
  next
    case (3 k q' n)
    then show ?thesis using staying_update [of i "c\<lparr>ic_queue := q'\<rparr>" "k\<lparr>wk_state := InHandler n\<rparr>"] by (simp add: codes_def has_left_def q)
  next
    case (4 k n)
    then show ?thesis using staying_update [of i "c\<lparr>ic_handled := ic_handled c @ [n]\<rparr>" "k\<lparr>wk_state := LoopHead\<rparr>"]
      by (simp add: codes_def has_left_def q)
  qed
  show "length (workers c') = length (workers c)" "m_iocpThreadCount c' = m_iocpThreadCount c"
      "(m_iocpWorkerThreads c' = None) = (m_iocpWorkerThreads c = None)" "m_iocpHandle c' = m_iocpHandle c"
    using assms by (cases rule: worker_step_cases; simp)+
  show "map (\<lambda>k. k = None) (workers c') = map (\<lambda>k. k = None) (workers c)"
    using assms by (cases rule: worker_step_cases) (auto simp: map_update list_update_same_conv)
qed

text \<open>What the other threads do while \<open>Stop\<close> runs; the list has the completions that are queued.\<close>

inductive others_run :: "IOCPCore \<Rightarrow> nat list \<Rightarrow> IOCPCore \<Rightarrow> bool" for c where
  rests: "others_run c [] c"
| queues: "others_run c (ns @ [n]) (c'\<lparr>ic_queue := ic_queue c' @ [Completion n]\<rparr>)" if "others_run c ns c'"
| works: "others_run c ns c''" if "others_run c ns c'" and "worker_step i c' = Some c''"

abbreviation table_shape :: "IOCPCore \<Rightarrow> bool list" where
  "table_shape c \<equiv> map (\<lambda>k. k = None) (workers c)"

lemma others_owe:
  assumes "others_run c ns c'"
  shows "staying c' + codes c \<le> staying c + codes c' \<and> m_iocpThreadCount c' = m_iocpThreadCount c \<and>
    (m_iocpWorkerThreads c' = None) = (m_iocpWorkerThreads c = None) \<and> m_iocpHandle c' = m_iocpHandle c \<and> table_shape c' = table_shape c"
  using assms
proof induction
  case (queues ns c' n) then show ?case by (simp add: staying_def codes_def)
next
  case (works ns c' i c'') then show ?case using worker_step_owes [OF works.hyps(2)] by simp
qed simp

text \<open>Asking the workers leaves as many codes as workers that stay, when every post succeeds.\<close>

definition unasked :: "nat \<Rightarrow> bool list \<Rightarrow> nat" where
  "unasked j shape = length (filter Not (drop j shape))"

lemma terminate_worker_owes:
  assumes i: "i < length (workers c)" and owe: "staying c \<le> codes c + unasked i (table_shape c)"
  shows "staying (terminate_worker i True c) \<le> codes (terminate_worker i True c) + unasked (Suc i) (table_shape c)"
    and "table_shape (terminate_worker i True c) = table_shape c"
proof -
  have u: "unasked i (table_shape c) = of_bool (workers c ! i \<noteq> None) + unasked (Suc i) (table_shape c)"
  proof -
    have "drop i (table_shape c) = (workers c ! i = None) # drop (Suc i) (table_shape c)" using i by (simp add: Cons_nth_drop_Suc [symmetric])
    then show ?thesis unfolding unasked_def by simp
  qed
  show "staying (terminate_worker i True c) \<le> codes (terminate_worker i True c) + unasked (Suc i) (table_shape c)"
  proof (cases "workers c ! i")
    case None then show ?thesis using owe u by (simp add: terminate_worker_def)
  next
    case (Some k)
    have "staying (set_worker i (k\<lparr>wk_stopRequested := True\<rparr>) c) = staying c"
      using staying_update [OF i, of "k\<lparr>wk_stopRequested := True\<rparr>"] Some by (simp add: has_left_def split: if_splits)
    then have "staying (terminate_worker i True c) = staying c" using Some by (simp add: terminate_worker_def Let_def staying_def)
    moreover have "codes (terminate_worker i True c) = Suc (codes c)" using Some by (simp add: terminate_worker_def Let_def codes_def)
    ultimately show ?thesis using owe u Some by simp
  qed
  show "table_shape (terminate_worker i True c) = table_shape c"
    by (cases "workers c ! i") (use i in \<open>simp_all add: terminate_worker_def Let_def map_update list_update_same_conv\<close>)
qed

lemma terminate_all_owes:
  assumes "\<And>i c. \<exists>ns. others_run c ns (others i c)" and "n \<le> length (workers c)"
  shows "table_shape (fold (\<lambda>i c. others i (terminate_worker i True c)) [0..<n] c) = table_shape c \<and>
    staying (fold (\<lambda>i c. others i (terminate_worker i True c)) [0..<n] c) \<le>
      codes (fold (\<lambda>i c. others i (terminate_worker i True c)) [0..<n] c) + unasked n (table_shape c)"
  using assms(2)
proof (induction n)
  case 0
  have "length (filter (\<lambda>k. \<not> has_left k) ws) \<le> length (filter Not (map (\<lambda>k. k = None) ws))" for ws
    by (induction ws) (auto simp: has_left_def)
  then have "staying c \<le> unasked 0 (table_shape c)" by (simp add: staying_def unasked_def)
  then show ?case by simp
next
  case (Suc n)
  let ?c = "fold (\<lambda>i c. others i (terminate_worker i True c)) [0..<n] c"
  have IH: "table_shape ?c = table_shape c" "staying ?c \<le> codes ?c + unasked n (table_shape c)" using Suc by simp_all
  have "length (workers ?c) = length (workers c)" using arg_cong [OF IH(1), of length] by simp
  then have n: "n < length (workers ?c)" using Suc.prems by simp
  note t = terminate_worker_owes [OF n, unfolded IH(1), OF IH(2)]
  obtain ns where "others_run (terminate_worker n True ?c) ns (others n (terminate_worker n True ?c))" using assms(1) by blast
  from others_owe [OF this] t show ?case by simp
qed

lemma Start_table:
  assumes "IOCPCore_Start w h a worker c = (True, c0)"
  shows "length (workers c0) = unat (m_iocpThreadCount c0)" and "m_iocpHandle c0" and "m_iocpWorkerThreads c0 \<noteq> None"
proof -
  have "length (snd (create_workers ws)) = length ws" for ws
    by (induction ws rule: create_workers.induct) (auto split: prod.splits)
  then have l: "length made = length ws" if "create_workers ws = (ok, made)" for ws ok made using that by (metis snd_conv)
  show "length (workers c0) = unat (m_iocpThreadCount c0)" "m_iocpHandle c0" "m_iocpWorkerThreads c0 \<noteq> None"
    using assms by (auto simp: IOCPCore_Start_def InitializeWinsock_def InitializeIOCPHandle_def CreateIOCPWorkerthread_def
        split: if_splits prod.splits dest: l)
qed

text \<open>The steps that the workers can still make.\<close>

definition steps_of :: "IOCPWorkerThread option \<Rightarrow> nat" where
  "steps_of k = (case k of None \<Rightarrow> 0 | Some k \<Rightarrow> (case wk_state k of LoopHead \<Rightarrow> 1 | InHandler _ \<Rightarrow> 2 | _ \<Rightarrow> 0))"

definition work_left :: "IOCPCore \<Rightarrow> nat" where
  "work_left c = 3 * length (ic_queue c) + sum_list (map steps_of (workers c))"

lemma worker_step_work:
  assumes "worker_step i c = Some c'"
  shows "work_left c' < work_left c"
proof -
  have u: "sum_list (map steps_of (ws[i := k])) + steps_of (ws ! i) = sum_list (map steps_of ws) + steps_of k" if "i < length ws" for ws i k
    using that
  proof (induction ws arbitrary: i)
    case (Cons a ws) then show ?case by (cases i) auto
  qed simp
  show ?thesis using assms
  proof (cases rule: worker_step_cases)
    case (1 k)
    then show ?thesis using u [of i "workers c" "Some (k\<lparr>wk_state := if wk_stopRequested k then LeftLoop else InGQCS\<rparr>)"]
      by (simp add: work_left_def steps_of_def split: if_splits)
  next
    case (2 k q)
    then show ?thesis using u [of i "workers c" "Some (k\<lparr>wk_state := LeftLoop\<rparr>)"] by (simp add: work_left_def steps_of_def)
  next
    case (3 k q n)
    then show ?thesis using u [of i "workers c" "Some (k\<lparr>wk_state := InHandler n\<rparr>)"] by (simp add: work_left_def steps_of_def)
  next
    case (4 k n)
    then show ?thesis using u [of i "workers c" "Some (k\<lparr>wk_state := LoopHead\<rparr>)"] by (simp add: work_left_def steps_of_def)
  qed
qed

text \<open>
  C34. Stopping a started core joins its workers: once every terminate code has been posted, the workers make finitely many steps between
  completions, and when none can make another, all of them have left, so that the joins return.
\<close>

theorem stop_joins_workers:
  assumes "IOCPCore_Start w h a worker c = (True, c0)" and "others_run c0 ns c1" and "\<And>i c. \<exists>ns. others_run c ns (others i c)"
    and "others_run (RequestIOCPThreadTerminate (\<lambda>_. True) others c1) ns' c2"
  shows "((\<forall>i. worker_step i c2 = None) \<longrightarrow> DestroyIOCPWorkerthread c2 \<noteq> None) \<and> (\<forall>i c3. worker_step i c2 = Some c3 \<longrightarrow> work_left c3 < work_left c2)"
proof (intro conjI impI allI)
  note s = Start_table [OF assms(1)] and o = others_owe [OF assms(2)]
  have "length (workers c1) = length (workers c0)" using arg_cong [OF o [THEN conjunct2, THEN conjunct2, THEN conjunct2, THEN conjunct2], of length] by simp
  then have l: "length (workers c1) = unat (m_iocpThreadCount c1)" using s o by simp
  let ?r = "RequestIOCPThreadTerminate (\<lambda>_. True) others c1"
  have r: "?r = fold (\<lambda>i c. others i (terminate_worker i True c)) [0..<length (workers c1)] c1"
    using s o l by (auto simp: RequestIOCPThreadTerminate_def)
  have "unasked (length (workers c1)) (table_shape c1) = 0" by (simp add: unasked_def)
  then have "staying ?r \<le> codes ?r" using terminate_all_owes [where others = others, OF assms(3) order_refl, of c1] r by simp
  then have owe: "staying c2 \<le> codes c2" using others_owe [OF assms(4)] by simp
  assume rest: "\<forall>i. worker_step i c2 = None"
  have "has_left k" if k: "k \<in> set (workers c2)" for k
  proof (rule ccontr)
    assume n: "\<not> has_left k"
    obtain i where i: "i < length (workers c2)" "workers c2 ! i = k" using k unfolding in_set_conv_nth by blast
    have "0 < staying c2" unfolding staying_def using k n by (auto simp: filter_empty_conv)
    then have "ic_queue c2 \<noteq> []" using owe by (auto simp: codes_def)
    then have "worker_step i c2 \<noteq> None" using i n
      by (auto simp: worker_step_def has_left_def split: option.splits worker_state.splits list.splits queued.splits)
    then show False using rest by simp
  qed
  then show "DestroyIOCPWorkerthread c2 \<noteq> None" by (simp add: DestroyIOCPWorkerthread_def list_all_iff)
next
  show "worker_step i c2 = Some c3 \<Longrightarrow> work_left c3 < work_left c2" for i c3 by (rule worker_step_work)
qed

lemma stop_joins_workers_witness:
  "\<exists>c2. worker_steps [0, 1] (RequestIOCPThreadTerminate (\<lambda>_. True) (\<lambda>i c. c) demo_core) = Some c2 \<and>
     ((\<forall>i. worker_step i c2 = None) \<longrightarrow> DestroyIOCPWorkerthread c2 \<noteq> None)"
proof -
  have s: "IOCPCore_Start True True True (\<lambda>i. (True, True)) (SetIOCPThreadCount 2 new_IOCPCore) = (True, demo_core)"
  proof -
    have "fst (IOCPCore_Start True True True (\<lambda>i. (True, True)) (SetIOCPThreadCount 2 new_IOCPCore))" by code_simp
    then show ?thesis unfolding demo_core_def by (metis prod.collapse)
  qed
  have run: "others_run c [] c''" if "others_run c [] c'" "worker_steps is c' = Some c''" for "is" c c' c''
    using that by (induction "is" arbitrary: c') (auto split: option.splits intro: others_run.works)
  let ?r = "RequestIOCPThreadTerminate (\<lambda>_. True) (\<lambda>i c. c) demo_core"
  have "worker_steps [0, 1] ?r \<noteq> None" by code_simp
  then obtain c2 where c2: "worker_steps [0, 1] ?r = Some c2" by blast
  have "\<exists>ns. others_run c ns c" for c using others_run.rests by blast
  from stop_joins_workers [OF s others_run.rests this run [OF others_run.rests c2]]
  show ?thesis using c2 by blast
qed

text \<open>
  The whole of \<open>Stop\<close>, when it returns, is such a run, with the completions \<open>ms\<close> that arrive meanwhile: so what it drops is what the port holds
  after the joins (\<open>completions_kept\<close>).
\<close>

lemma others_core:
  assumes "others_run d ms e" and "core_runs c ns d" and "m_iocpHandle d"
  shows "core_runs c (ns @ ms) e \<and> m_iocpHandle e \<and> length (workers e) = length (workers d)"
  using assms
proof (induction rule: others_run.induct)
  case (queues ms e n)
  then show ?case using core_runs.queues [of c "ns @ ms" e n] by simp
next
  case (works ms e i e')
  then show ?case using core_runs.works [of c "ns @ ms" e i e'] worker_step_frame(2) worker_step_owes(2) by simp
qed simp

lemma stop_is_run:
  assumes run: "core_runs c ns c'" and h: "m_iocpHandle c'" and n: "length (workers c') = unat (m_iocpThreadCount c')"
    and others: "\<And>i d. \<exists>ms. others_run d ms (others i d)" and fresh: "\<not> ic_destroyFlag c'"
    and S: "IOCPCore_Stop posted others c' = Some c''"
  shows "\<exists>ms. core_runs c (ns @ ms) c'' \<and> \<not> m_iocpHandle c''"
proof -
  let ?c = "c'\<lparr>ic_destroyFlag := True\<rparr>"
  let ?f = "\<lambda>k. fold (\<lambda>i d. others i (terminate_worker i (posted i) d)) [0..<k] ?c"
  have f: "\<exists>ms. core_runs c (ns @ ms) (?f k) \<and> m_iocpHandle (?f k) \<and> length (workers (?f k)) = length (workers c')"
    if "k \<le> length (workers c')" for k
    using that
  proof (induction k)
    case 0
    have "core_runs c (ns @ []) ?c" using core_runs.flags [OF run] by simp
    moreover have "m_iocpHandle ?c" "length (workers ?c) = length (workers c')" using h by simp_all
    ultimately show ?case unfolding upt_0 fold_Nil id_apply by blast
  next
    case (Suc k)
    then obtain ms where IH: "core_runs c (ns @ ms) (?f k)" "m_iocpHandle (?f k)" "length (workers (?f k)) = length (workers c')" by auto
    then have k: "k < length (workers (?f k))" using Suc.prems by simp
    let ?t = "terminate_worker k (posted k) (?f k)"
    obtain ms' where o: "others_run ?t ms' (others k ?t)" using others by blast
    have "core_runs c (ns @ ms) ?t" by (rule core_runs.asks [OF IH(1) k])
    from others_core [OF o this] IH(2)
    have "core_runs c ((ns @ ms) @ ms') (others k ?t)" "m_iocpHandle (others k ?t)" "length (workers (others k ?t)) = length (workers ?t)" by simp_all
    moreover have "length (workers ?t) = length (workers c')"
      using k IH(3) by (cases "workers (?f k) ! k") (simp_all add: terminate_worker_def Let_def)
    ultimately show ?case by (intro exI [of _ "ms @ ms'"]) simp
  qed
  let ?r = "RequestIOCPThreadTerminate posted others ?c"
  have "?r = ?c \<or> ?r = ?f (length (workers c'))" using n by (simp add: RequestIOCPThreadTerminate_def)
  then have "\<exists>ms. core_runs c (ns @ ms) ?r"
  proof
    assume e: "?r = ?c"
    show ?thesis unfolding e using core_runs.flags [OF run] by (intro exI [of _ "[]"]) simp
  next
    assume e: "?r = ?f (length (workers c'))"
    show ?thesis unfolding e using f [OF order_refl] by blast
  qed
  then obtain ms where r: "core_runs c (ns @ ms) ?r" ..
  obtain d where d: "DestroyIOCPWorkerthread ?r = Some d" "c'' = FinalizeWinsock (FinalizeIOCPHandle d)"
    using S fresh by (auto simp: IOCPCore_Stop_def)
  from core_runs.joins [OF r d(1)] have "core_runs c (ns @ ms) d" .
  from core_runs.cleans [OF core_runs.closes [OF this joined(4) [OF d(1)]]] show ?thesis using d(2) by auto
qed

section \<open>A terminate code that is lost\<close>

lemma others_wait:
  assumes "others_run c [] c'" and "ic_queue c = []" and "i < length (workers c)" and "workers c ! i = Some k" and "wk_state k = InGQCS"
  shows "ic_queue c' = [] \<and> i < length (workers c') \<and> workers c' ! i = Some k"
proof -
  have "others_run c ns c' \<Longrightarrow> ns = [] \<Longrightarrow> ic_queue c' = [] \<and> i < length (workers c') \<and> workers c' ! i = Some k" for ns c'
  proof (induction rule: others_run.induct)
    case rests then show ?case using assms by simp
  next
    case (queues ns c' n) then show ?case by simp
  next
    case (works ns c' j c'')
    then have IH: "ic_queue c' = []" "i < length (workers c')" "workers c' ! i = Some k" by simp_all
    have "j \<noteq> i" using works.hyps(2) IH assms(5) by (auto simp: worker_step_def)
    from works.hyps(2) show ?case
      by (cases rule: worker_step_cases) (use IH \<open>j \<noteq> i\<close> in simp_all)
  qed
  then show ?thesis using assms(1) by blast
qed

text \<open>
  A terminate code that cannot be posted is only logged, and \<open>Stop\<close> then does not return: a worker that waits at the empty port is asked to
  stop but nothing wakes it, so that joining it waits for ever.
\<close>

theorem lost_terminate_code_hangs:
  assumes "i < length (workers c)" and "workers c ! i = Some k" and "wk_state k = InGQCS" and "ic_queue c = []"
    and "length (workers c) = unat (m_iocpThreadCount c)" and "\<And>i c. others_run c [] (others i c)"
    and "others_run (RequestIOCPThreadTerminate (\<lambda>_. False) others c) [] c'"
  shows "DestroyIOCPWorkerthread c' = None"
proof -
  let ?waits = "\<lambda>c. ic_queue c = [] \<and> i < length (workers c) \<and> (\<exists>k. workers c ! i = Some k \<and> wk_state k = InGQCS)"
  have asked: "?waits (terminate_worker j False d)" if "?waits d" "j < length (workers d)" for j d
    using that by (cases "workers d ! j"; cases "j = i") (auto simp: terminate_worker_def Let_def)
  have ran: "?waits d'" if "?waits d" "others_run d [] d'" for d d'
    using others_wait [OF that(2)] that(1) by blast
  have len: "length (workers (terminate_worker j False d)) = length (workers d)" if "j < length (workers d)" for j d
    using that by (cases "workers d ! j") (simp_all add: terminate_worker_def Let_def)
  have len2: "length (workers d') = length (workers d)" if "others_run d [] d'" for d d'
    using others_owe [OF that] by (metis length_map)
  let ?f = "\<lambda>n. fold (\<lambda>i c. others i (terminate_worker i False c)) [0..<n] c"
  have "n \<le> length (workers c) \<Longrightarrow> ?waits (?f n) \<and> length (workers (?f n)) = length (workers c)" for n
  proof (induction n)
    case 0 then show ?case using assms(1-4) by simp
  next
    case (Suc n)
    then have IH: "?waits (?f n)" "length (workers (?f n)) = length (workers c)" "n < length (workers (?f n))" by simp_all
    have "?waits (others n (terminate_worker n False (?f n)))" by (rule ran [OF asked [OF IH(1,3)] assms(6)])
    moreover have "length (workers (others n (terminate_worker n False (?f n)))) = length (workers c)"
      using len [OF IH(3)] len2 [OF assms(6)] IH(2) by simp
    ultimately show ?case by simp
  qed
  then have "?waits (RequestIOCPThreadTerminate (\<lambda>_. False) others c)" using assms(1-5) by (simp add: RequestIOCPThreadTerminate_def)
  from ran [OF this assms(7)] obtain k' where "i < length (workers c')" "workers c' ! i = Some k'" "wk_state k' = InGQCS" by blast
  then show ?thesis by (auto simp: DestroyIOCPWorkerthread_def list_all_length has_left_def intro!: exI [of _ i])
qed

lemma lost_terminate_code_hangs_witness:
  "\<exists>c. worker_steps [0] demo_core = Some c \<and> DestroyIOCPWorkerthread (RequestIOCPThreadTerminate (\<lambda>_. False) (\<lambda>i c. c) c) = None"
proof -
  have "case worker_steps [0] demo_core of None \<Rightarrow> False | Some c \<Rightarrow> (case workers c of Some k # _ \<Rightarrow> wk_state k = InGQCS | _ \<Rightarrow> False) \<and>
      ic_queue c = [] \<and> length (workers c) = 2 \<and> m_iocpThreadCount c = 2" by code_simp
  then obtain c k where c: "worker_steps [0] demo_core = Some c" "0 < length (workers c)" "workers c ! 0 = Some k" "wk_state k = InGQCS"
      "ic_queue c = []" "length (workers c) = unat (m_iocpThreadCount c)"
    by (auto split: option.splits list.splits)
  from lost_terminate_code_hangs [OF c(2-6) others_run.rests others_run.rests] c(1) show ?thesis by blast
qed

end
