(* ===== verification/HeartbeatThread.thy ===== *)
theory HeartbeatThread
  imports ServerGuarantees
begin

text \<open>
  \<open>Core/HeartbeatThread\<close>: the thread of a server that sends the heartbeats, posts accept slots again, and ends the connections of silent
  clients.
\<close>

section \<open>The thread\<close>

text \<open>Whether there is a session manager and a repost function; what they do is \<open>ClientSessionPool\<close> and \<open>Server\<close>.\<close>

record HeartbeatThread =
  ht_sessionManager :: bool
  m_checkInterval_ms :: u64
  m_heartbeatTimeout_ms :: u64
  m_stalledPeerTimeout_ms :: u64
  ht_acceptRepostFunc :: bool

definition new_HeartbeatThread :: "bool \<Rightarrow> HeartbeatConfig \<Rightarrow> bool \<Rightarrow> HeartbeatThread" where
  "new_HeartbeatThread manager config func =
     \<lparr>ht_sessionManager = manager, m_checkInterval_ms = checkInterval_ms config, m_heartbeatTimeout_ms = timeout_ms config,
      m_stalledPeerTimeout_ms = EffectiveStalledTimeout config, ht_acceptRepostFunc = func\<rparr>"

definition SetCheckInterval :: "u64 \<Rightarrow> HeartbeatThread \<Rightarrow> HeartbeatThread" where
  "SetCheckInterval t h = h\<lparr>m_checkInterval_ms := t\<rparr>"

definition SetHeartbeatTimeout :: "u64 \<Rightarrow> HeartbeatThread \<Rightarrow> HeartbeatThread" where
  "SetHeartbeatTimeout t h = h\<lparr>m_heartbeatTimeout_ms := t\<rparr>"

definition MAXDWORD :: u64 where "MAXDWORD = 0xFFFFFFFF"

text \<open>How long \<open>Run\<close> waits for a cycle that is due at \<open>nextCycleTick\<close>.\<close>

definition heartbeat_wait_ms :: "u64 \<Rightarrow> u64 \<Rightarrow> u32" where
  "heartbeat_wait_ms nextCycleTick beforeWaitTick =
     (let remaining_ms = (if nextCycleTick > beforeWaitTick then nextCycleTick - beforeWaitTick else 0);
          wait_ms = ucast (if remaining_ms > MAXDWORD then MAXDWORD else remaining_ms)
      in if wait_ms < 50 then 50 else wait_ms)"

text \<open>The work of one cycle; \<open>elapsed\<close> is the time that the zombie pass has taken at each session.\<close>

definition heartbeat_cycle ::
  "('p, ('p, 'y) ServerNet) Env \<Rightarrow> HeartbeatThread \<Rightarrow> (nat \<Rightarrow> u64) \<Rightarrow> ('p, 'y) ServerWorld_scheme \<Rightarrow> ('p, 'y) ServerWorld_scheme" where
  "heartbeat_cycle env h elapsed w =
     (let w1 = snd (SendHeartbeatRequests env w);
          w2 = (if ht_acceptRepostFunc h then RefillAcceptSlots w1 else w1)
      in snd (DisconnectZombieSessions env elapsed (nw_now w2) (m_heartbeatTimeout_ms h) (m_stalledPeerTimeout_ms h)
                (m_checkInterval_ms h div 4) w2))"

text \<open>
  \<open>Run\<close>. Each element is one wait on the stop event, with what the other threads do meanwhile and the clock, and the elapsed times of its cycle.
  The result says whether the thread has ended, and when the next cycle is due.
\<close>

primrec heartbeat_run ::
  "('p, ('p, 'y) ServerNet) Env \<Rightarrow> HeartbeatThread \<Rightarrow>
     ((u32 \<Rightarrow> ('p, 'y) ServerWorld_scheme \<Rightarrow> wait_result \<times> ('p, 'y) ServerWorld_scheme) \<times> (nat \<Rightarrow> u64)) list \<Rightarrow>
     u64 \<times> ('p, 'y) ServerWorld_scheme \<Rightarrow> bool \<times> u64 \<times> ('p, 'y) ServerWorld_scheme" where
  "heartbeat_run env h [] st = (False, st)"
| "heartbeat_run env h (wait # waits) st =
     (case st of (nextCycleTick, w) \<Rightarrow>
        (case fst wait (heartbeat_wait_ms nextCycleTick (nw_now w)) w of
           (WAIT_OBJECT_0, w1) \<Rightarrow> (True, nextCycleTick, w1)
         | (WAIT_FAILED, w1) \<Rightarrow> (True, nextCycleTick, violation w1)
         | (WAIT_TIMEOUT, w1) \<Rightarrow>
             heartbeat_run env h waits
               (nw_now w1 + m_checkInterval_ms h, if ht_sessionManager h then heartbeat_cycle env h (snd wait) w1 else w1)))"

section \<open>What a cycle does to the server\<close>

lemma heartbeat_cycle_is_events:
  assumes "ht_acceptRepostFunc h" and "serves acquire release service (dr, ds, w)"
  shows "serves acquire release service (dr, ds, heartbeat_cycle (pool_env acquire release) h elapsed w)"
proof -
  let ?env = "pool_env acquire release"
  let ?w2 = "RefillAcceptSlots (snd (SendHeartbeatRequests ?env w))"
  have "server_run ?env service [HeartbeatRound, RefillRound,
      ZombieRound elapsed (nw_now ?w2) (m_heartbeatTimeout_ms h) (m_stalledPeerTimeout_ms h) (m_checkInterval_ms h div 4)] (dr, ds, w) =
      Some (dr, ds, heartbeat_cycle ?env h elapsed w)"
    using assms(1) by (simp add: heartbeat_cycle_def Let_def)
  from serves_run [OF assms(2) this] show ?thesis .
qed

text \<open>
  The heartbeat thread does to the server only what its guarantees are proved for: when the other threads keep to the events of a server
  during its waits, every state that the thread leaves is one that a started server can reach.
\<close>

theorem heartbeat_thread_serves:
  assumes "serves acquire release service (dr, ds, w)" and "ht_acceptRepostFunc h"
    and "\<And>wait e ms dr ds w. (wait, e) \<in> set waits \<Longrightarrow> serves acquire release service (dr, ds, w) \<Longrightarrow>
      fst (wait ms w) \<noteq> WAIT_FAILED \<and> (\<exists>dr' ds'. serves acquire release service (dr', ds', snd (wait ms w)))"
  shows "\<exists>dr' ds'. serves acquire release service
    (dr', ds', snd (snd (heartbeat_run (pool_env acquire release) h waits (nextCycleTick, w))))"
  using assms(1,3)
proof (induction waits arbitrary: dr ds w nextCycleTick)
  case Nil then show ?case by auto
next
  case (Cons a waits)
  obtain wait e where a: "a = (wait, e)" by fastforce
  obtain res w1 where W: "wait (heartbeat_wait_ms nextCycleTick (nw_now w)) w = (res, w1)" by fastforce
  from Cons.prems(2) [of wait e dr ds w "heartbeat_wait_ms nextCycleTick (nw_now w)"] Cons.prems(1) a W
  obtain dr1 ds1 where s: "res \<noteq> WAIT_FAILED" "serves acquire release service (dr1, ds1, w1)" by auto
  let ?w2 = "if ht_sessionManager h then heartbeat_cycle (pool_env acquire release) h e w1 else w1"
  have s2: "serves acquire release service (dr1, ds1, ?w2)" using heartbeat_cycle_is_events [OF assms(2) s(2)] s(2) by simp
  have "\<exists>dr' ds'. serves acquire release service
      (dr', ds', snd (snd (heartbeat_run (pool_env acquire release) h waits (nw_now w1 + m_checkInterval_ms h, ?w2))))"
  proof (rule Cons.IH [OF s2])
    fix wait' e' ms dr ds w
    assume "(wait', e') \<in> set waits" and s': "serves acquire release service (dr, ds, w)"
    then have "(wait', e') \<in> set (a # waits)" by simp
    from Cons.prems(2) [OF this s'] show "fst (wait' ms w) \<noteq> WAIT_FAILED \<and> (\<exists>dr' ds'. serves acquire release service (dr', ds', snd (wait' ms w)))" .
  qed
  moreover have "\<exists>dr' ds'. serves acquire release service (dr', ds', w1)" using s(2) by blast
  ultimately show ?case using s(1) W a by (cases res; cases "ht_sessionManager h") simp_all
qed

lemma heartbeat_thread_serves_witness:
  "\<exists>dr ds w. demo_run demo_events = Some (dr, ds, w) \<and> (\<exists>dr' ds'. serves counting_pool keep_pool demo_service
     (dr', ds', snd (snd (heartbeat_run (pool_env counting_pool keep_pool) (new_HeartbeatThread True new_HeartbeatConfig True)
        [(\<lambda>ms w. (WAIT_TIMEOUT, w), \<lambda>_. 0)] (5000, w)))))"
proof (rule demo_ran)
  fix dr ds w
  assume r: "demo_run demo_events = Some (dr, ds, w)"
  have h: "ht_acceptRepostFunc (new_HeartbeatThread True new_HeartbeatConfig True)" by (simp add: new_HeartbeatThread_def)
  have "\<exists>dr' ds'. serves counting_pool keep_pool demo_service
     (dr', ds', snd (snd (heartbeat_run (pool_env counting_pool keep_pool) (new_HeartbeatThread True new_HeartbeatConfig True)
        [(\<lambda>ms w. (WAIT_TIMEOUT, w), \<lambda>_. 0)] (5000, w))))"
    by (rule heartbeat_thread_serves [OF demo_serves [OF r] h]) auto
  then show ?thesis using r by blast
qed

section \<open>The period\<close>

lemma heartbeat_wait_value:
  assumes "unat next \<le> unat now + 4294967295"
  shows "unat (heartbeat_wait_ms next now) = max 50 (unat next - unat now)"
proof -
  let ?r = "if next > now then next - now else 0"
  have r: "unat ?r = unat next - unat now" using unat_sub [of now "next"] by (auto simp: word_less_nat_alt word_le_nat_alt)
  then have le: "\<not> ?r > MAXDWORD" using assms by (simp add: word_less_nat_alt MAXDWORD_def del: unat_sub_if_size)
  have u: "unat (ucast ?r :: u32) = unat next - unat now" unfolding r [symmetric]
    by (subst unsigned_ucast_eq) (use r assms in \<open>simp add: take_bit_nat_eq_self\<close>)
  show ?thesis using le u unfolding heartbeat_wait_ms_def Let_def by (auto simp: word_less_nat_alt max_def)
qed

text \<open>
  The thread keeps its period: a cycle that began at \<open>t\<close> and took at most the interval less 50 ms is followed by one that begins exactly one
  interval after it, however long its work took; after a longer one the thread rests for 50 ms.
\<close>

theorem heartbeat_period:
  assumes "unat t + unat (m_checkInterval_ms h) < 2 ^ 64" and "m_checkInterval_ms h \<le> MAXDWORD" and "t \<le> now" and "unat now + 50 < 2 ^ 64"
  shows "now + ucast (heartbeat_wait_ms (t + m_checkInterval_ms h) now) =
    (if unat now + 50 \<le> unat t + unat (m_checkInterval_ms h) then t + m_checkInterval_ms h else now + 50)"
proof -
  let ?next = "t + m_checkInterval_ms h"
  have n: "unat ?next = unat t + unat (m_checkInterval_ms h)" using assms(1) by (simp add: unat_word_ariths)
  have "unat (m_checkInterval_ms h) \<le> 4294967295" using assms(2) by (simp add: word_le_nat_alt MAXDWORD_def)
  then have "unat ?next \<le> unat now + 4294967295" using n assms(3) by (simp add: word_le_nat_alt)
  note v = heartbeat_wait_value [OF this]
  have c: "(ucast (heartbeat_wait_ms ?next now) :: u64) = of_nat (unat (heartbeat_wait_ms ?next now))" by simp
  show ?thesis
  proof (cases "unat now + 50 \<le> unat t + unat (m_checkInterval_ms h)")
    case True
    then have "max 50 (unat ?next - unat now) = unat ?next - unat now" using n by simp
    then have "(ucast (heartbeat_wait_ms ?next now) :: u64) = of_nat (unat ?next - unat now)" unfolding c v by simp
    also have "\<dots> = ?next - now" using True n by (simp add: of_nat_diff)
    finally show ?thesis using True by simp
  next
    case False
    then have "(ucast (heartbeat_wait_ms ?next now) :: u64) = of_nat 50" unfolding c v using n by (simp add: max_def)
    then show ?thesis using False by simp
  qed
qed

lemma heartbeat_period_witness: "(1700 :: u64) + ucast (heartbeat_wait_ms (1000 + 5000) 1700) = 6000"
  using heartbeat_period [of 1000 "new_HeartbeatThread True new_HeartbeatConfig True" 1700]
  by (simp add: new_HeartbeatThread_def new_HeartbeatConfig_def MAXDWORD_def)

section \<open>Silent connections\<close>

text \<open>
  A connection is silent for too long when nothing came from the peer for the timeout, or, while packets for it are still queued (a peer that
  does not read, but lives), for the longer of the two timeouts. Without a timeout none is.
\<close>

definition silent_too_long :: "HeartbeatThread \<Rightarrow> u64 \<Rightarrow> ClientSession \<Rightarrow> bool" where
  "silent_too_long h now s \<longleftrightarrow>
     IsTransportConnected s \<and> m_sessionRole s = ROLE_SERVER \<and> m_clientSocket s \<noteq> None \<and> m_heartbeatTimeout_ms h \<noteq> 0 \<and>
     IsHeartbeatTimedOut now (m_heartbeatTimeout_ms h) s \<and>
     (HasPendingSend s \<longrightarrow> IsHeartbeatTimedOut now (max (m_heartbeatTimeout_ms h) (m_stalledPeerTimeout_ms h)) s)"

lemma zombie_silent:
  "m_heartbeatTimeout_ms h \<noteq> 0 \<Longrightarrow>
   zombie_reason now (m_heartbeatTimeout_ms h)
     (if m_stalledPeerTimeout_ms h < m_heartbeatTimeout_ms h then m_heartbeatTimeout_ms h else m_stalledPeerTimeout_ms h) s \<noteq> None
   \<longleftrightarrow> silent_too_long h now s"
  by (auto simp: zombie_reason_def silent_too_long_def max_def not_le)

lemma zombies_ended:
  assumes S: "server_ok dr ds w"
    and w': "w' = snd (DisconnectZombieSessions env elapsed now (m_heartbeatTimeout_ms h) (m_stalledPeerTimeout_ms h) budget w)"
    and i: "i < length (cp_sessions w)"
  shows "if silent_too_long h now (cp_sessions w ! i)
    then (\<forall>k \<le> i. silent_too_long h now (cp_sessions w ! k) \<longrightarrow> elapsed k < budget) \<or>
        (\<forall>k < i. \<not> silent_too_long h now (cp_sessions w ! k)) \<longrightarrow>
      poolState (cp_nodes w' ! i) \<noteq> SESSION_POOL_IN_USE
    else cp_sessions w' ! i = cp_sessions w ! i \<and> poolState (cp_nodes w' ! i) = poolState (cp_nodes w ! i)"
proof (cases "m_heartbeatTimeout_ms h = 0")
  case True
  then show ?thesis by (simp add: w' DisconnectZombieSessions_def silent_too_long_def)
next
  case False
  note z = zombie_silent [OF False]
  let ?S = "if m_stalledPeerTimeout_ms h < m_heartbeatTimeout_ms h then m_heartbeatTimeout_ms h else m_stalledPeerTimeout_ms h"
  have l: "length (cp_sessions w) = unat (cp_capacity w)" by (rule server_ok_capacity [OF S])
  have "w' = snd (zombie_pass [0..<length (cp_sessions w)] env elapsed now (m_heartbeatTimeout_ms h) ?S budget 0 w)"
    using False by (simp add: w' DisconnectZombieSessions_def)
  note each = zombie_pass_each [OF S _ _ this, unfolded z]
  show ?thesis
  proof (cases "silent_too_long h now (cp_sessions w ! i)")
    case False
    with each(1) [of i] i l show ?thesis by simp
  next
    case True
    have "[0..<length (cp_sessions w)] = [0..<i] @ i # [Suc i..<length (cp_sessions w)]"
      using i by (metis upt_add_eq_append upt_conv_Cons le_add_diff_inverse less_imp_le_nat zero_le)
    with each(2) [of "[0..<i]" i "[Suc i..<length (cp_sessions w)]"] True l show ?thesis by (auto simp: le_less)
  qed
qed

text \<open>
  C35. One round of the heartbeat thread. It waits until the cycle is due, at least 50 ms; when the wait times out, the next cycle is due one
  interval after the clock of this one, and the work of the cycle is done: the heartbeats are sent and the accept slots posted first, and of the
  sessions as they are then, exactly those that were silent for too long may be touched: every other session is left as it was. A silent one is ended (it is no
  longer in use) as long as the ones before it, and the look at it, took less than a quarter of the interval; the first one is ended whatever the
  time, so that every cycle makes progress.
\<close>

theorem heartbeat_round_ends_silent:
  assumes "fst wait (heartbeat_wait_ms nextTick (nw_now w)) w = (WAIT_TIMEOUT, w1)" and "serves acquire release service (dr, ds, w1)"
    and "service_ok service" and "ht_sessionManager h" and "ht_acceptRepostFunc h" and "unat nextTick \<le> unat (nw_now w) + 4294967295"
    and "w2 = RefillAcceptSlots (snd (SendHeartbeatRequests (pool_env acquire release) w1))"
  shows "unat (heartbeat_wait_ms nextTick (nw_now w)) = max 50 (unat nextTick - unat (nw_now w)) \<and>
    (\<exists>w'. heartbeat_run (pool_env acquire release) h [wait] (nextTick, w) = (False, nw_now w1 + m_checkInterval_ms h, w') \<and>
      (\<forall>i < length (cp_sessions w2).
        if silent_too_long h (nw_now w2) (cp_sessions w2 ! i)
        then (\<forall>k \<le> i. silent_too_long h (nw_now w2) (cp_sessions w2 ! k) \<longrightarrow> snd wait k < m_checkInterval_ms h div 4) \<or>
            (\<forall>k < i. \<not> silent_too_long h (nw_now w2) (cp_sessions w2 ! k)) \<longrightarrow>
          poolState (cp_nodes w' ! i) \<noteq> SESSION_POOL_IN_USE
        else cp_sessions w' ! i = cp_sessions w2 ! i \<and> poolState (cp_nodes w' ! i) = poolState (cp_nodes w2 ! i)))"
proof
  let ?env = "pool_env acquire release"
  have "server_run ?env service [HeartbeatRound, RefillRound] (dr, ds, w1) = Some (dr, ds, w2)" by (simp add: assms(7))
  from serves_ok [OF serves_run [OF assms(2) this] assms(3)] have S: "server_ok dr ds w2" by simp
  have "heartbeat_run ?env h [wait] (nextTick, w) = (False, nw_now w1 + m_checkInterval_ms h, heartbeat_cycle ?env h (snd wait) w1)"
    using assms(1,4) by simp
  moreover have "heartbeat_cycle ?env h (snd wait) w1 = snd (DisconnectZombieSessions ?env (snd wait) (nw_now w2)
      (m_heartbeatTimeout_ms h) (m_stalledPeerTimeout_ms h) (m_checkInterval_ms h div 4) w2)"
    using assms(5,7) by (simp add: heartbeat_cycle_def Let_def)
  note zombies_ended [OF S this]
  ultimately show "\<exists>w'. heartbeat_run ?env h [wait] (nextTick, w) = (False, nw_now w1 + m_checkInterval_ms h, w') \<and>
      (\<forall>i < length (cp_sessions w2).
        if silent_too_long h (nw_now w2) (cp_sessions w2 ! i)
        then (\<forall>k \<le> i. silent_too_long h (nw_now w2) (cp_sessions w2 ! k) \<longrightarrow> snd wait k < m_checkInterval_ms h div 4) \<or>
            (\<forall>k < i. \<not> silent_too_long h (nw_now w2) (cp_sessions w2 ! k)) \<longrightarrow>
          poolState (cp_nodes w' ! i) \<noteq> SESSION_POOL_IN_USE
        else cp_sessions w' ! i = cp_sessions w2 ! i \<and> poolState (cp_nodes w' ! i) = poolState (cp_nodes w2 ! i))"
    by blast
  show "unat (heartbeat_wait_ms nextTick (nw_now w)) = max 50 (unat nextTick - unat (nw_now w))" by (rule heartbeat_wait_value [OF assms(6)])
qed

text \<open>The small server with a connection whose peer was silent for a long time.\<close>

lemma server_run_append:
  "server_run env service (es @ es') st = (case server_run env service es st of None \<Rightarrow> None | Some st' \<Rightarrow> server_run env service es' st')"
  by (induction es arbitrary: st) (auto split: option.split)

definition silent_events :: "server_event list" where
  "silent_events = [Clock 5000, Accepted 0 (Some (''10.0.0.1'', 4000)), Clock 1000000]"

lemma silent_ran:
  obtains dr ds w w2 where "demo_run silent_events = Some (dr, ds, w)" and "nw_now w = 1000000"
    and "w2 = RefillAcceptSlots (snd (SendHeartbeatRequests demo_env w))" and "0 < length (cp_sessions w2)"
    and "silent_too_long (new_HeartbeatThread True new_HeartbeatConfig True) (nw_now w2) (cp_sessions w2 ! 0)"
proof -
  have c: "case demo_run silent_events of None \<Rightarrow> False | Some (dr, ds, w) \<Rightarrow> nw_now w = 1000000" by code_simp
  have c2: "case demo_run (silent_events @ [HeartbeatRound, RefillRound]) of None \<Rightarrow> False | Some (dr, ds, w) \<Rightarrow>
      0 < length (cp_sessions w) \<and> silent_too_long (new_HeartbeatThread True new_HeartbeatConfig True) (nw_now w) (cp_sessions w ! 0)"
    by code_simp
  show thesis
  proof (cases "demo_run silent_events")
    case None with c show thesis by (simp only: option.case)
  next
    case (Some st)
    obtain dr ds w where st: "st = (dr, ds, w)" by (cases st)
    have "demo_run (silent_events @ [HeartbeatRound, RefillRound]) = Some (dr, ds, RefillAcceptSlots (snd (SendHeartbeatRequests demo_env w)))"
      using Some by (simp add: demo_run_def server_run_append st)
    note c2 [unfolded this option.case prod.case]
    with that [OF Some [unfolded st]] c [unfolded Some st option.case prod.case] show thesis by blast
  qed
qed

lemma heartbeat_round_ends_silent_witness:
  "\<exists>dr ds w w' nextTick. demo_run silent_events = Some (dr, ds, w) \<and>
     heartbeat_run demo_env (new_HeartbeatThread True new_HeartbeatConfig True) [(\<lambda>ms w. (WAIT_TIMEOUT, w), \<lambda>_. 0)] (1000000, w) =
       (False, nextTick, w') \<and> state_of 0 w' \<noteq> SESSION_POOL_IN_USE"
proof (rule silent_ran)
  let ?h = "new_HeartbeatThread True new_HeartbeatConfig True" and ?wait = "(\<lambda>ms w. (WAIT_TIMEOUT, w), \<lambda>_. 0) ::
    (u32 \<Rightarrow> nat ServerWorld \<Rightarrow> wait_result \<times> nat ServerWorld) \<times> (nat \<Rightarrow> u64)"
  fix dr ds and w w2 :: "nat ServerWorld"
  assume r: "demo_run silent_events = Some (dr, ds, w)" and now: "nw_now w = 1000000"
    and w2: "w2 = RefillAcceptSlots (snd (SendHeartbeatRequests demo_env w))"
    and z: "0 < length (cp_sessions w2)" "silent_too_long ?h (nw_now w2) (cp_sessions w2 ! 0)"
  have h: "ht_sessionManager ?h" "ht_acceptRepostFunc ?h" by (simp_all add: new_HeartbeatThread_def)
  have wait: "fst ?wait (heartbeat_wait_ms 1000000 (nw_now w)) w = (WAIT_TIMEOUT, w)" by simp
  have tick: "unat (1000000 :: u64) \<le> unat (nw_now w) + 4294967295" by (simp add: now)
  from heartbeat_round_ends_silent [OF wait demo_serves [OF r] demo_service_ok h tick w2 [unfolded demo_env_def]]
  obtain w' where run: "heartbeat_run demo_env ?h [?wait] (1000000, w) = (False, nw_now w + m_checkInterval_ms ?h, w')"
    and all: "\<forall>i < length (cp_sessions w2).
        if silent_too_long ?h (nw_now w2) (cp_sessions w2 ! i)
        then (\<forall>k \<le> i. silent_too_long ?h (nw_now w2) (cp_sessions w2 ! k) \<longrightarrow> snd ?wait k < m_checkInterval_ms ?h div 4) \<or>
            (\<forall>k < i. \<not> silent_too_long ?h (nw_now w2) (cp_sessions w2 ! k)) \<longrightarrow>
          poolState (cp_nodes w' ! i) \<noteq> SESSION_POOL_IN_USE
        else cp_sessions w' ! i = cp_sessions w2 ! i \<and> poolState (cp_nodes w' ! i) = poolState (cp_nodes w2 ! i)"
    unfolding demo_env_def by blast
  have "poolState (cp_nodes w' ! 0) \<noteq> SESSION_POOL_IN_USE" using all [rule_format, OF z(1)] z(2) by simp
  then have "state_of 0 w' \<noteq> SESSION_POOL_IN_USE" by simp
  then show ?thesis using r run by blast
qed

end
