(* ===== verification/Client.thy ===== *)
theory Client
  imports Server Scheduler
begin

text \<open>
  The client engine: \<open>Core/IOCPClient\<close> and \<open>Core/ClientWatchdogThread\<close>. A client has one session, which is carried beside the world as in
  \<open>Session\<close>; the service derived from \<open>IOCPClient\<close> is a parameter. What it shares with the server keeps its name with the class in front.
\<close>

section \<open>State\<close>

text \<open>\<open>m_idleTimeout_ms\<close> is 0 while the watchdog is not armed.\<close>

record ClientWatchdog =
  wd_config :: ClientLivenessConfig
  m_idleTimeout_ms :: u64
  m_fired :: bool
  m_resumeBaselineTick :: u64

text \<open>The calls of the service's hooks that open and close a connection, in order.\<close>

datatype client_call = ServerConnected | ServerEstablished | ServerDisconnected DisconnectReason | ConnectionFailed nat

text \<open>
  The members of \<open>IOCPClient\<close>; then the hooks that were called, the sockets closed, and the connects that were posted. The pools, the handler
  table and the scheduler are in \<open>IOCPClient_StartClient\<close> as whether they could be made.
\<close>

record 'p ClientWorld = "'p NetWorld" +
  cl_destroyFlag :: bool
  m_disconnecting :: bool
  cl_socket :: "nat option"
  m_clientWatchdog :: "ClientWatchdog option"
  m_livenessConfig :: ClientLivenessConfig
  m_serverIPAddress :: string
  m_serverPort :: u16
  cl_calls :: "client_call list"
  cl_closed :: "nat list"
  cl_connects :: "nat option list"

type_synonym ('p, 'y) ClientNet = "ClientSession \<times> ('p, 'y) ClientWorld_scheme"

record 'w ClientService =
  cs_OnClientConnect :: "'w \<Rightarrow> 'w"
  cs_OnSessionEstablished :: "'w \<Rightarrow> 'w"
  cs_OnClientDisconnect :: "DisconnectReason \<Rightarrow> 'w \<Rightarrow> 'w"
  cs_OnConnectFailed :: "nat \<Rightarrow> 'w \<Rightarrow> 'w"
  cs_OnReceive :: "u16 \<Rightarrow> addr \<Rightarrow> u32 \<Rightarrow> 'w \<Rightarrow> 'w"
  cs_OnSend :: "u32 \<Rightarrow> 'w \<Rightarrow> 'w"

definition called :: "client_call \<Rightarrow> ('p, 'y) ClientWorld_scheme \<Rightarrow> ('p, 'y) ClientWorld_scheme" where
  "called c w = w\<lparr>cl_calls := cl_calls w @ [c]\<rparr>"

section \<open>Ending a connection\<close>

definition DestroyConnectSocket :: "('p, 'y) ClientNet \<Rightarrow> ('p, 'y) ClientNet" where
  "DestroyConnectSocket = (\<lambda>(s, w).
     (case DetachSocket s of
        (None, s1) \<Rightarrow> (s1, w)
      | (Some socket, s1) \<Rightarrow> (s1, w\<lparr>cl_closed := cl_closed w @ [socket]\<rparr>)))"

definition CompleteDisconnect :: "('p, 'y) ClientNet ClientService \<Rightarrow> ('p, 'y) ClientNet \<Rightarrow> ('p, 'y) ClientNet" where
  "CompleteDisconnect service = (\<lambda>(s, w).
     (let (s1, w1) = (if m_clientSocket s \<noteq> None then DestroyConnectSocket (s, w) else (s, w));
          (s2, w2) = (case ConsumeServiceConnectNotified s1 of
                        (False, s') \<Rightarrow> (s', w1)
                      | (True, s') \<Rightarrow> cs_OnClientDisconnect service (m_disconnectReason s')
                                       (s', called (ServerDisconnected (m_disconnectReason s')) w1));
          (ok, s3) = ClientSession_OnDisconnect s2
      in (s3, if ok then w2 else violation w2)))"

text \<open>The one session of a client asks to be disconnected; \<open>ResolveOwnSession\<close> is for the pointer that \<open>SubmitPacketJob\<close> is given.\<close>

definition IOCPClient_OnDisconnectRequest ::
  "('p, ('p, 'y) ClientNet) Env \<Rightarrow> ('p, 'y) ClientNet ClientService \<Rightarrow> ('p, 'y) ClientNet \<Rightarrow> ('p, 'y) ClientNet" where
  "IOCPClient_OnDisconnectRequest env service = (\<lambda>(s, w).
     if m_disconnecting w then (s, w)
     else
       (let w1 = w\<lparr>m_disconnecting := True\<rparr>;
            (s2, w2) = (if m_clientSocket s \<noteq> None
                        then (case CancelPendingIO env (s, w1) of
                                (True, sw) \<Rightarrow> sw
                              | (False, s', w') \<Rightarrow> (s', violation w'))
                        else (s, w1))
        in case RequestRelease s2 of
             (False, s3) \<Rightarrow> (s3, w2)
           | (True, s3) \<Rightarrow> CompleteDisconnect service (s3, w2)))"

text \<open>The callbacks of the session: \<open>ReleaseReadyFunc\<close> completes the disconnect, \<open>ISessionEvent\<close> is the client.\<close>

definition client_env ::
  "('p \<Rightarrow> nat \<Rightarrow> addr option \<times> 'p) \<Rightarrow> ('p \<Rightarrow> addr \<Rightarrow> 'p) \<Rightarrow> ('p, 'y) ClientNet ClientService \<Rightarrow> ('p, ('p, 'y) ClientNet) Env" where
  "client_env acquire release service =
     (let completing = \<lparr>ev_acquire = acquire, ev_release = release, ev_OnDisconnectRequest = id,
                        ev_OnReleaseReady = CompleteDisconnect service\<rparr>
      in completing\<lparr>ev_OnDisconnectRequest := IOCPClient_OnDisconnectRequest completing service\<rparr>)"

section \<open>The watchdog\<close>

definition new_ClientWatchdog :: "ClientLivenessConfig \<Rightarrow> ClientWatchdog" where
  "new_ClientWatchdog config = \<lparr>wd_config = config, m_idleTimeout_ms = 0, m_fired = False, m_resumeBaselineTick = 0\<rparr>"

definition Arm :: "u32 \<Rightarrow> ClientWatchdog \<Rightarrow> ClientWatchdog" where
  "Arm serverHeartbeatInterval_ms d = d\<lparr>m_idleTimeout_ms := ResolveIdleTimeout (wd_config d) serverHeartbeatInterval_ms\<rparr>"

definition Disarm :: "ClientWatchdog \<Rightarrow> ClientWatchdog" where
  "Disarm d = d\<lparr>m_idleTimeout_ms := 0\<rparr>"

definition HasFiredTimeout :: "ClientWatchdog \<Rightarrow> bool" where
  "HasFiredTimeout d \<longleftrightarrow> m_fired d"

text \<open>How long \<open>Run\<close> waits: a quarter of the timeout, within bounds.\<close>

definition watchdog_wait_ms :: "u64 \<Rightarrow> u32" where
  "watchdog_wait_ms timeout =
     (if timeout = 0 then 250
      else (let derived = timeout div 4 in if derived < 250 then 250 else if derived > 5000 then 5000 else ucast derived))"

text \<open>What \<open>Run\<close> does when a wait timed out.\<close>

definition watchdog_check :: "('p, ('p, 'y) ClientNet) Env \<Rightarrow> ('p, 'y) ClientNet \<Rightarrow> ('p, 'y) ClientNet" where
  "watchdog_check env = (\<lambda>(s, w).
     (case m_clientWatchdog w of
        None \<Rightarrow> (s, w)
      | Some d \<Rightarrow>
          (let armed_ms = m_idleTimeout_ms d; nowTick = nw_now w in
           if armed_ms = 0 then (s, w)
           else if \<not> IsEstablished s then (s, w)
           else if m_recvPaused s then (s, w\<lparr>m_clientWatchdog := Some (d\<lparr>m_resumeBaselineTick := nowTick\<rparr>)\<rparr>)
           else
             (let lastRecvTick = m_lastRecvTick s;
                  lastListeningTick = (if lastRecvTick > m_resumeBaselineTick d then lastRecvTick else m_resumeBaselineTick d) in
              if lastListeningTick = 0 \<or> nowTick < lastListeningTick then (s, w)
              else if nowTick - lastListeningTick < armed_ms then (s, w)
              else NotifyDisconnect env (NoteDisconnectReason IdleTimeout s,
                     w\<lparr>m_clientWatchdog := Some (d\<lparr>m_idleTimeout_ms := 0, m_fired := True\<rparr>)\<rparr>)))))"

text \<open>
  \<open>Run\<close>. Each element of \<open>waits\<close> is one wait on the stop event: what the other threads do meanwhile, with the clock, and how the wait ends.
  The result says whether the thread has ended.
\<close>

primrec watchdog_run ::
  "('p, ('p, 'y) ClientNet) Env \<Rightarrow> (u32 \<Rightarrow> ('p, 'y) ClientNet \<Rightarrow> wait_result \<times> ('p, 'y) ClientNet) list \<Rightarrow> ('p, 'y) ClientNet \<Rightarrow>
     bool \<times> ('p, 'y) ClientNet" where
  "watchdog_run env [] sw = (False, sw)"
| "watchdog_run env (wait # waits) sw =
     (case wait (watchdog_wait_ms (case m_clientWatchdog (snd sw) of None \<Rightarrow> 0 | Some d \<Rightarrow> m_idleTimeout_ms d)) sw of
        (WAIT_OBJECT_0, sw1) \<Rightarrow> (True, sw1)
      | (WAIT_FAILED, s1, w1) \<Rightarrow> (True, s1, violation w1)
      | (WAIT_TIMEOUT, sw1) \<Rightarrow> watchdog_run env waits (watchdog_check env sw1))"


section \<open>Connecting\<close>

text \<open>
  Where the code calls its own \<open>OnDisconnectRequest\<close>, the model calls that of \<open>env\<close>, which \<open>client_env\<close> makes the same. \<open>addressOk\<close> is the answer of
  \<open>inet_pton\<close> for the stored address.
\<close>

definition PostConnect :: "('p, ('p, 'y) ClientNet) Env \<Rightarrow> bool \<Rightarrow> ('p, 'y) ClientNet \<Rightarrow> bool \<times> ('p, 'y) ClientNet" where
  "PostConnect env addressOk = (\<lambda>(s, w).
     if \<not> addressOk then (False, s, w)
     else
       (case os_calls 1 w of
          (False, w1) \<Rightarrow> (False, s, w1)
        | (True, w1) \<Rightarrow>
            (let s1 = (IncrementIO s)\<lparr>m_clientSessionState := Client_CONNECTING\<rparr> in
             case ask_os w1 of (answer, w2) \<Rightarrow>
               (case post_failed answer of
                  None \<Rightarrow> (True, s1, w2\<lparr>cl_connects := cl_connects w2 @ [cl_socket w2]\<rparr>)
                | Some nError \<Rightarrow>
                    (False, DecrementIO env
                       (ev_OnDisconnectRequest env (s1\<lparr>m_clientSessionState := Client_CONNECT_ABORTED\<rparr>, w2)))))))"

definition PrepareConnect :: "('p, ('p, 'y) ClientNet) Env \<Rightarrow> bool \<Rightarrow> ('p, 'y) ClientNet \<Rightarrow> bool \<times> ('p, 'y) ClientNet" where
  "PrepareConnect env addressOk = (\<lambda>(s, w).
     if m_clientSessionState s \<noteq> Client_CONNECT_READY then (False, s, w) else PostConnect env addressOk (s, w))"

text \<open>The state is set before the packet is queued, since the answer may come before \<open>EnqueueSendPacket\<close> returns.\<close>

definition SendSystemAuthRequest :: "('p, ('p, 'y) ClientNet) Env \<Rightarrow> ('p, 'y) ClientNet \<Rightarrow> bool \<times> ('p, 'y) ClientNet" where
  "SendSystemAuthRequest env = (\<lambda>(s, w).
     if \<not> IsTransportConnected s then (False, s, w)
     else
       (case CreatePacket env sizeof_AUTH_REQUEST w of
          (None, w1) \<Rightarrow> (False, s, w1)
        | (Some a, w1) \<Rightarrow>
            (case EnqueueSendPacket env (Some (Some a)) (of_nat sizeof_AUTH_REQUEST)
                    (s\<lparr>m_clientSessionState := Client_AUTH_PENDING\<rparr>, write_mem a (auth_request_bytes new_auth_request) w1) of
               (True, _, sw) \<Rightarrow> (True, sw)
             | (False, _, s2, w2) \<Rightarrow> (False, s2\<lparr>m_clientSessionState := Client_CONNECTED\<rparr>, release_to_pool env a w2))))"

text \<open>The failure of the keepalive option is only logged.\<close>

definition RunClientConnectSequence ::
  "('p, ('p, 'y) ClientNet) Env \<Rightarrow> ('p, 'y) ClientNet ClientService \<Rightarrow> ('p, 'y) ClientNet \<Rightarrow> bool \<times> ('p, 'y) ClientNet" where
  "RunClientConnectSequence env service = (\<lambda>(s, w).
     (case os_calls 2 w of
        (False, w1) \<Rightarrow> (False, s, w1)
      | (True, w1) \<Rightarrow>
          (case OnConnect env (s, if useKeepAlive (m_livenessConfig w1) then snd (ask_os w1) else w1) of
             (False, sw) \<Rightarrow> (False, sw)
           | (True, s2, w2) \<Rightarrow>
               SendSystemAuthRequest env (cs_OnClientConnect service (MarkServiceConnectNotified s2, called ServerConnected w2)))))"

definition HandleConnect :: "('p, ('p, 'y) ClientNet) Env \<Rightarrow> ('p, 'y) ClientNet ClientService \<Rightarrow> ('p, 'y) ClientNet \<Rightarrow> ('p, 'y) ClientNet" where
  "HandleConnect env service sw =
     DecrementIO env
       (case RunClientConnectSequence env service sw of
          (True, sw1) \<Rightarrow> sw1
        | (False, sw1) \<Rightarrow> ev_OnDisconnectRequest env sw1)"

definition HandleConnectCancelled ::
  "('p, ('p, 'y) ClientNet) Env \<Rightarrow> ('p, 'y) ClientNet ClientService \<Rightarrow> nat \<Rightarrow> ('p, 'y) ClientNet \<Rightarrow> ('p, 'y) ClientNet" where
  "HandleConnectCancelled env service errorCode = (\<lambda>(s, w).
     (let s1 = s\<lparr>m_clientSessionState := Client_CONNECT_ABORTED\<rparr> in
      DecrementIO env (ev_OnDisconnectRequest env
        (if errorCode \<noteq> ERROR_OPERATION_ABORTED
         then cs_OnConnectFailed service errorCode (NoteDisconnectReason ConnectFailed s1, called (ConnectionFailed errorCode) w)
         else (NoteDisconnectReason LocalShutdown s1, w)))))"

section \<open>Authentication and heartbeats\<close>

text \<open>The pointer \<open>m_clientWatchdog\<close> may be null.\<close>

definition IOCPClient_HandleSystemPacket ::
  "('p, ('p, 'y) ClientNet) Env \<Rightarrow> ('p, 'y) ClientNet ClientService \<Rightarrow> u16 \<Rightarrow> addr \<Rightarrow> u32 \<Rightarrow> ('p, 'y) ClientNet \<Rightarrow>
     bool \<times> ('p, 'y) ClientNet" where
  "IOCPClient_HandleSystemPacket env service i packetData sz = (\<lambda>(s, w).
     if i = SC_SYSTEM_AUTH_RESPONSE then
       (if sz \<noteq> of_nat sizeof_AUTH_RESPONSE then (False, s, w)
        else
          (let response = auth_response_of (nw_mem w packetData) in
           if ars_protocolVersion response \<noteq> IOCP_ENGINE_PROTOCOL_VERSION
           then (False, NoteDisconnectReason AuthRejectedProtocolMismatch s, w)
           else if ars_authResult response \<noteq> auth_code AUTH_SUCCESS
           then (False, NoteDisconnectReason (ToDisconnectReason (ars_authResult response)) s, w)
           else
             (True, cs_OnSessionEstablished service
                (s\<lparr>m_clientSessionState := Client_ESTABLISHED\<rparr>,
                 called ServerEstablished
                   (w\<lparr>m_clientWatchdog := map_option (Arm (ars_heartbeatIntervalMs response)) (m_clientWatchdog w)\<rparr>)))))
     else if i = SC_SYSTEM_HEARTBEAT_REQUEST then
       (if sz \<noteq> of_nat sizeof_HEARTBEAT then (False, s, w)
        else if \<not> IsEstablished s then (False, s, w)
        else (True, snd (SendSystemHeartbeatResponse env (hb_tick (heartbeat_of (nw_mem w packetData))) (s, w))))
     else (False, s, w))"


section \<open>Receiving and sending\<close>

text \<open>The packet loop of \<open>HandleRecv\<close>, as on the server: one round, and the loop with its fuel.\<close>

definition client_recv_next ::
  "('p, ('p, 'y) ClientNet) Env \<Rightarrow> ('p, 'y) ClientNet ClientService \<Rightarrow> ('p, 'y) ClientNet \<Rightarrow> (bool \<times> ('p, 'y) ClientNet) + ('p, 'y) ClientNet" where
  "client_recv_next env service = (\<lambda>(s, w).
     (let recvBuf = the (m_recvPacketBuffer s) in
      if rb_IsEmpty recvBuf then Inl (False, s, w)
      else
        (case ReadPacket (ev_acquire env) (w_packetPool (nw_send w)) recvBuf of (readResult, out, p, b) \<Rightarrow>
           (let s1 = s\<lparr>m_recvPacketBuffer := Some b\<rparr>; w1 = set_send ((nw_send w)\<lparr>w_packetPool := p\<rparr>) w in
            case readResult of
              NeedMoreData \<Rightarrow> Inl (False, s1, w1)
            | Invalid \<Rightarrow> Inl (True, NoteDisconnectReason ProtocolError s1, w1)
            | OutOfMemory \<Rightarrow> Inl (True, NoteDisconnectReason ResourceExhausted s1, w1)
            | Read_Ok \<Rightarrow>
                (let a = fst (the (po_buffer out)); i = po_packetId out; w2 = write_mem a (snd (the (po_buffer out))) w1 in
                 if \<not> IsValidPacketId i then Inl (True, NoteDisconnectReason ProtocolError s1, release_to_pool env a w2)
                 else if IsSystemPacketId i then
                   (case IOCPClient_HandleSystemPacket env service i a (po_size out) (s1, w2) of (handled, s3, w3) \<Rightarrow>
                      (let w4 = release_to_pool env a w3 in
                       if \<not> handled then Inl (True, NoteDisconnectReason ProtocolError s3, w4) else Inr (s3, w4)))
                 else if \<not> IsEstablished s1 then Inl (True, NoteDisconnectReason UnexpectedPacket s1, release_to_pool env a w2)
                 else Inr (cs_OnReceive service i a (po_size out) (s1, w2)))))))"

primrec client_recv_loop ::
  "nat \<Rightarrow> ('p, ('p, 'y) ClientNet) Env \<Rightarrow> ('p, 'y) ClientNet ClientService \<Rightarrow> ('p, 'y) ClientNet \<Rightarrow> bool \<times> ('p, 'y) ClientNet" where
  "client_recv_loop 0 env service sw = (False, sw)"
| "client_recv_loop (Suc n) env service sw =
     (case client_recv_next env service sw of Inl r \<Rightarrow> r | Inr sw' \<Rightarrow> client_recv_loop n env service sw')"

definition IOCPClient_HandleSessionDisconnected ::
  "('p, ('p, 'y) ClientNet) Env \<Rightarrow> IO_OPERATION \<Rightarrow> ('p, 'y) ClientNet \<Rightarrow> ('p, 'y) ClientNet" where
  "IOCPClient_HandleSessionDisconnected env operation = (\<lambda>(s, w).
     if operation = OP_RECV then ev_OnDisconnectRequest env (NoteDisconnectReason PeerClosed s, w) else (s, violation w))"

definition IOCPClient_HandleRecv ::
  "('p, ('p, 'y) ClientNet) Env \<Rightarrow> ('p, 'y) ClientNet ClientService \<Rightarrow> u32 \<Rightarrow> ('p, 'y) ClientNet \<Rightarrow> ('p, 'y) ClientNet" where
  "IOCPClient_HandleRecv env service bytesTransferred = (\<lambda>(s, w).
     if bytesTransferred = 0 then DecrementIO env (IOCPClient_HandleSessionDisconnected env OP_RECV (s, w))
     else
       (let s1 = UpdateLastRecvTick (nw_now w) s in
        case CommitWrite bytesTransferred (the (m_recvPacketBuffer s1)) of
          (False, b) \<Rightarrow> DecrementIO env (s1\<lparr>m_recvPacketBuffer := Some b\<rparr>, violation w)
        | (True, b) \<Rightarrow>
            (let (disconnect1, s2, w2) = client_recv_loop (Suc (unat (rb_storedSize b))) env service (s1\<lparr>m_recvPacketBuffer := Some b\<rparr>, w);
                 (disconnect2, s3, w3) =
                   (if \<not> disconnect1 \<and> \<not> IsReleasePending s2
                    then (case PostReceiveOrPause env (s2, w2) of
                            (True, sw) \<Rightarrow> (False, sw)
                          | (False, s', w') \<Rightarrow> (True, NoteDisconnectReason ResourceExhausted s', w'))
                    else (disconnect1, s2, w2))
             in DecrementIO env (if disconnect2 then ev_OnDisconnectRequest env (s3, w3) else (s3, w3)))))"

definition IOCPClient_HandleRecvCancelled :: "('p, ('p, 'y) ClientNet) Env \<Rightarrow> ('p, 'y) ClientNet \<Rightarrow> ('p, 'y) ClientNet" where
  "IOCPClient_HandleRecvCancelled env sw = DecrementIO env sw"

definition IOCPClient_HandleSend ::
  "('p, ('p, 'y) ClientNet) Env \<Rightarrow> ('p, 'y) ClientNet ClientService \<Rightarrow> u32 \<Rightarrow> ('p, 'y) ClientNet \<Rightarrow> ('p, 'y) ClientNet" where
  "IOCPClient_HandleSend env service bytesTransferred = (\<lambda>(s, w).
     if m_sessionRole s \<noteq> ROLE_CLIENT then DecrementIO env (s, violation w)
     else DecrementIO env (snd (OnSendCompleted env bytesTransferred (cs_OnSend service bytesTransferred (s, w)))))"

definition IOCPClient_HandleSendCancelled :: "('p, ('p, 'y) ClientNet) Env \<Rightarrow> ('p, 'y) ClientNet \<Rightarrow> ('p, 'y) ClientNet" where
  "IOCPClient_HandleSendCancelled env sw = DecrementIO env sw"

section \<open>Completions\<close>

text \<open>
  The error codes of a connect that are classified; for the others a violation is reported too. In order: the codes of \<open>ERROR_HOST_UNREACHABLE\<close>,
  \<open>ERROR_CONNECTION_REFUSED\<close>, \<open>ERROR_NETWORK_UNREACHABLE\<close>, \<open>ERROR_PORT_UNREACHABLE\<close>, \<open>WSAECONNRESET\<close>, \<open>WSAHOST_NOT_FOUND\<close>,
  \<open>WSATRY_AGAIN\<close>, \<open>WSANO_DATA\<close>, \<open>WSAEADDRNOTAVAIL\<close>, \<open>WSAEADDRINUSE\<close>, \<open>ERROR_OPERATION_ABORTED\<close>.
\<close>

definition connect_errors :: "nat list" where
  "connect_errors = [1232, 1225, 1231, 1234, WSAECONNRESET, 11001, 11002, 11004, 10049, 10048, ERROR_OPERATION_ABORTED]"

text \<open>The client has a copy of \<open>IsConnectionDeadError\<close> with the same codes.\<close>

definition IOCPClient_HandleSocketError ::
  "('p, ('p, 'y) ClientNet) Env \<Rightarrow> ('p, 'y) ClientNet ClientService \<Rightarrow> nat \<Rightarrow> IO_OPERATION \<Rightarrow> ('p, 'y) ClientNet \<Rightarrow> ('p, 'y) ClientNet" where
  "IOCPClient_HandleSocketError env service errorCode ioOperation = (\<lambda>(s, w).
     if ioOperation = OP_CONNECT then
       HandleConnectCancelled env service errorCode (s, if errorCode \<in> set connect_errors then w else violation w)
     else if ioOperation = OP_RECV then
       (if errorCode = ERROR_OPERATION_ABORTED then IOCPClient_HandleRecvCancelled env (s, w)
        else IOCPClient_HandleRecvCancelled env (ev_OnDisconnectRequest env (NoteDisconnectReason SocketError s,
               if \<not> IsConnectionDeadError errorCode then violation w else w)))
     else if ioOperation = OP_SEND then
       (if errorCode = ERROR_OPERATION_ABORTED then IOCPClient_HandleSendCancelled env (s, w)
        else IOCPClient_HandleSendCancelled env (ev_OnDisconnectRequest env (NoteDisconnectReason SocketError s,
               if \<not> IsConnectionDeadError errorCode then violation w else w)))
     else (s, violation w))"

text \<open>\<open>completionKey\<close> says whether the key is the session or null, \<open>overlapped\<close> is the operation of the structure, \<open>error\<close> is \<open>None\<close> for a
  good status.\<close>

definition IOCPClient_HandleCompletion ::
  "('p, ('p, 'y) ClientNet) Env \<Rightarrow> ('p, 'y) ClientNet ClientService \<Rightarrow> bool \<Rightarrow> IO_OPERATION option \<Rightarrow> u32 \<Rightarrow> nat option \<Rightarrow>
     ('p, 'y) ClientNet \<Rightarrow> ('p, 'y) ClientNet" where
  "IOCPClient_HandleCompletion env service completionKey overlapped bytesTransferred error = (\<lambda>(s, w).
     (case overlapped of
        None \<Rightarrow> (s, w)
      | Some operation \<Rightarrow>
          if \<not> completionKey then (s, w)
          else
            (case error of
               Some errorCode \<Rightarrow> IOCPClient_HandleSocketError env service errorCode operation (s, w)
             | None \<Rightarrow>
                 if operation = OP_CONNECT then HandleConnect env service (s, w)
                 else if operation = OP_RECV then IOCPClient_HandleRecv env service bytesTransferred (s, w)
                 else if operation = OP_SEND then IOCPClient_HandleSend env service bytesTransferred (s, w)
                 else (s, violation w))))"

section \<open>Submitting a packet\<close>

text \<open>The pointer a service gives: \<open>None\<close> for null, else whether it is the client's own session.\<close>

definition ResolveOwnSession :: "bool option \<Rightarrow> ('p, 'z) NetWorld_scheme \<Rightarrow> bool \<times> ('p, 'z) NetWorld_scheme" where
  "ResolveOwnSession session w = (if session = Some True then (True, w) else (False, violation w))"

text \<open>Which members are set is a \<open>ServerParts\<close> as on the server; a client has no ready ring.\<close>

definition IOCPClient_SubmitPacketJob ::
  "('p, ('p, 'y) ClientNet) Env \<Rightarrow> Job \<Rightarrow> ServerParts \<Rightarrow> bool option \<Rightarrow> u16 \<Rightarrow> addr option \<Rightarrow> u32 \<Rightarrow> ('p, 'y) ClientNet \<Rightarrow>
     bool \<times> ('p, 'y) ClientNet" where
  "IOCPClient_SubmitPacketJob env junk cl session i packetData sz = (\<lambda>(s, w0).
     (let (own, w) = ResolveOwnSession session w0;
          drop = (\<lambda>w. w\<lparr>nw_jobs := dropPacket (ev_release env) cl packetData (nw_jobs w)\<rparr>)
      in
      if \<not> own \<or> packetData = None then (False, s, drop w)
      else if sv_packetHandlerTable cl = None \<or> \<not> sv_jobMemoryPool cl then (False, s, drop (violation w))
      else
        (case GetHandler (the (sv_packetHandlerTable cl)) i of
           None \<Rightarrow> (False, s, drop w)
         | Some handler \<Rightarrow>
             (case CreateJob (ev_acquire env) junk (nw_jobs w) of
                (None, jw) \<Rightarrow> (False, s, drop (w\<lparr>nw_jobs := jw\<rparr>))
              | (Some job, jw) \<Rightarrow>
                  (let jw1 = set_job job (SetPacketJob JobType_PACKET (Some handler) (unat (m_sessionId s)) i packetData sz (job_at jw job)) jw in
                   case SubmitJob (Some job) (s, w\<lparr>nw_jobs := jw1\<rparr>) of
                     (True, sw) \<Rightarrow> (True, sw)
                   | (False, s2, w2) \<Rightarrow>
                       (case drop w2 of w3 \<Rightarrow> (False, s2, w3\<lparr>nw_jobs := ReleaseJob (ev_release env) (Some job) (nw_jobs w3)\<rparr>)))))))"

definition IOCPClient_GetOutstandingIOCount :: "ClientSession option \<Rightarrow> u32" where
  "IOCPClient_GetOutstandingIOCount session =
     (case session of None \<Rightarrow> 0 | Some s \<Rightarrow> if m_ioCount s < 0 then 0 else of_int (m_ioCount s))"

section \<open>Start and stop\<close>

definition CreateConnectSocket :: "nat option \<Rightarrow> ('p, 'y) ClientWorld_scheme \<Rightarrow> bool \<times> ('p, 'y) ClientWorld_scheme" where
  "CreateConnectSocket newSocket w = (newSocket \<noteq> None, w\<lparr>cl_socket := newSocket\<rparr>)"

definition BindClientSocket :: "('p, 'z) NetWorld_scheme \<Rightarrow> bool \<times> ('p, 'z) NetWorld_scheme" where
  "BindClientSocket w = os_calls 1 w"

definition InitializeGUIDConnectEx :: "('p, 'z) NetWorld_scheme \<Rightarrow> bool \<times> ('p, 'z) NetWorld_scheme" where
  "InitializeGUIDConnectEx w = os_calls 1 w"

definition client_worker_count :: "u32 \<Rightarrow> u32" where
  "client_worker_count iocpThreadCount =
     (let workerCount = (if iocpThreadCount = 0 then 2 else iocpThreadCount) in if workerCount < 2 then 2 else workerCount)"

definition make_client_session ::
  "('p, ('p, 'y) ClientNet) Env \<Rightarrow> bool \<Rightarrow> (nat \<Rightarrow> bytes option) \<Rightarrow> SessionBufferConfig \<Rightarrow> ('p, 'y) ClientWorld_scheme \<Rightarrow>
     bool \<times> ('p, 'y) ClientNet" where
  "make_client_session env eventCreated alloc bufferConfig w =
     (case ClientSession_Initialize eventCreated ROLE_CLIENT 0 new_ClientSession of
        (False, s) \<Rightarrow> (False, s, w)
      | (True, s) \<Rightarrow>
          (case InitializeMemoryPool env alloc True True True bufferConfig (s, w) of
             (False, sw) \<Rightarrow> (False, sw)
           | (True, s1, w1) \<Rightarrow>
               (True, s1\<lparr>m_eventHandler := True, m_releaseReadyFunc := True, m_clientSocket := cl_socket w1\<rparr>, w1)))"

text \<open>
  \<open>StartClient\<close>. What it makes outside this theory is given by whether it could be made: the I/O core, the memory pools (\<open>Config\<close>), the
  thread of the scheduler and that of the watchdog. The session is \<open>None\<close> until it has been made.
\<close>

definition IOCPClient_StartClient ::
  "('p, ('p, 'y) ClientNet) Env \<Rightarrow> bool \<Rightarrow> (nat \<Rightarrow> bytes option) \<Rightarrow> nat option \<Rightarrow> bool \<Rightarrow> bool \<Rightarrow> bool \<Rightarrow> bool \<Rightarrow> (string \<Rightarrow> bool) \<Rightarrow>
     string option \<Rightarrow> u16 \<Rightarrow> SessionBufferConfig \<Rightarrow> ClientLivenessConfig \<Rightarrow> ('p, 'y) ClientWorld_scheme \<Rightarrow>
     bool \<times> ClientSession option \<times> ('p, 'y) ClientWorld_scheme" where
  "IOCPClient_StartClient env eventCreated alloc newSocket coreStarted poolsMade schedulerStarted watchdogStarted inet_pton serverIp port
     bufferConfig livenessConfig w =
     (let w1 = w\<lparr>cl_destroyFlag := False, m_disconnecting := False\<rparr> in
      if \<not> SessionBufferConfig_IsValid bufferConfig then (False, None, w1)
      else if \<not> ClientLivenessConfig_IsValid livenessConfig then (False, None, w1)
      else
        (let w2 = w1\<lparr>m_livenessConfig := livenessConfig\<rparr> in
         if serverIp = None \<or> serverIp = Some [] then (False, None, w2)
         else if length (the serverIp) \<ge> 22 then (False, None, w2)
         else
           (let w3 = w2\<lparr>m_serverIPAddress := the serverIp, m_serverPort := port\<rparr> in
            if \<not> coreStarted then (False, None, w3)
            else
              (case CreateConnectSocket newSocket w3 of
                 (False, w4) \<Rightarrow> (False, None, w4)
               | (True, w4) \<Rightarrow>
                   (case BindClientSocket w4 of
                      (False, w5) \<Rightarrow> (False, None, w5)
                    | (True, w5) \<Rightarrow>
                        (case InitializeGUIDConnectEx w5 of
                           (False, w6) \<Rightarrow> (False, None, w6)
                         | (True, w6) \<Rightarrow>
                             if \<not> poolsMade then (False, None, w6)
                             else
                               (case make_client_session env eventCreated alloc bufferConfig w6 of
                                  (False, s7, w7) \<Rightarrow> (False, Some s7, w7)
                                | (True, s7, w7) \<Rightarrow>
                                    if \<not> schedulerStarted then (False, Some s7, w7)
                                    else if \<not> watchdogStarted then (False, Some s7, w7\<lparr>m_clientWatchdog := None\<rparr>)
                                    else
                                      (case PrepareConnect env (inet_pton (m_serverIPAddress w7))
                                              (s7, w7\<lparr>m_clientWatchdog := Some (new_ClientWatchdog livenessConfig)\<rparr>) of
                                         (ok, s8, w8) \<Rightarrow> (ok, Some s8, w8)))))))))"

text \<open>
  \<open>StopClient\<close>, from the joined watchdog to the cleared address; \<open>waits\<close> is what happens while it waits for cancelled I/O. Freeing the pools
  and joining the threads of the I/O core are not part of the state. \<open>None\<close> while the wait has not ended.
\<close>

definition IOCPClient_StopClient ::
  "('p, ('p, 'y) ClientNet) Env \<Rightarrow> (u32 \<Rightarrow> ('p, 'y) ClientNet \<Rightarrow> wait_result \<times> ('p, 'y) ClientNet) list \<Rightarrow>
     ClientSession option \<times> ('p, 'y) ClientWorld_scheme \<Rightarrow> (ClientSession option \<times> ('p, 'y) ClientWorld_scheme) option" where
  "IOCPClient_StopClient env waits = (\<lambda>(session, w).
     if cl_destroyFlag w then Some (session, w)
     else
       (let w1 = w\<lparr>cl_destroyFlag := True, m_clientWatchdog := None\<rparr>;
            clear = (\<lambda>w. w\<lparr>m_serverIPAddress := [], m_serverPort := 0\<rparr>)
        in case session of
             None \<Rightarrow> Some (None, clear w1)
           | Some s \<Rightarrow>
               (case WaitForIOCancelComplete waits (ReleaseUnpostedIO env) 10000
                       (ev_OnDisconnectRequest env (NoteDisconnectReason LocalShutdown s, w1)) of
                  None \<Rightarrow> None
                | Some (completed, s2, w2) \<Rightarrow>
                    Some (None, clear (snd (ClientSession_Finalize env (s2, if completed then w2 else violation w2)))))))"

end
