(* ===== verification/ClientAccounts.thy ===== *)
theory ClientAccounts
  imports Client Accounting
begin

text \<open>
  The accounts of a client: every unit of \<open>m_ioCount\<close> belongs to the outstanding connect, receive or send, to a pause, or to running code; the
  disconnect is asked for once and completed once, when nothing is outstanding. Each lemma follows one operation through the accounts,
  callbacks included.
\<close>

section \<open>The accounts\<close>

definition told :: "client_call list \<Rightarrow> nat" where
  "told cs = length (filter (\<lambda>c. c = ServerConnected) cs)"

definition ended :: "client_call list \<Rightarrow> nat" where
  "ended cs = length (filter (\<lambda>c. case c of ServerDisconnected _ \<Rightarrow> True | _ \<Rightarrow> False) cs)"

lemma told_ended_snoc [simp]:
  "told (cs @ [ServerConnected]) = told cs + 1" "told (cs @ [ServerEstablished]) = told cs" "told (cs @ [ServerDisconnected r]) = told cs"
  "told (cs @ [ConnectionFailed e]) = told cs" "ended (cs @ [ServerConnected]) = ended cs" "ended (cs @ [ServerEstablished]) = ended cs"
  "ended (cs @ [ServerDisconnected r]) = ended cs + 1" "ended (cs @ [ConnectionFailed e]) = ended cs"
  by (simp_all add: told_def ended_def)

text \<open>
  Running code holds \<open>h\<close> counts, the link of the receive chain when \<open>c\<close> is 1, \<open>m_sending\<close> when \<open>k\<close> is 1, and may tell the service of the
  connection when \<open>u\<close> is 1; \<open>dc\<close> connects, \<open>dr\<close> receives and \<open>ds\<close> sends have completed.
\<close>

definition counts_ok :: "nat \<Rightarrow> nat \<Rightarrow> nat \<Rightarrow> nat \<Rightarrow> nat \<Rightarrow> nat \<Rightarrow> nat \<Rightarrow> ('p, 'y) ClientNet \<Rightarrow> bool" where
  "counts_ok h c k u dc dr ds = (\<lambda>(s, w).
     m_sessionId s = 0 \<and> m_sessionRole s = ROLE_CLIENT \<and> m_releaseReadyFunc s \<and> m_eventHandler s \<and>
     dc \<le> length (cl_connects w) \<and> length (cl_connects w) \<le> 1 \<and> dr \<le> recvs 0 (nw_posted w) \<and> ds \<le> sends 0 (nw_posted w) \<and>
     m_ioCount s + int dc + int dr + int ds =
       int (h + length (cl_connects w) + recvs 0 (nw_posted w) + sends 0 (nw_posted w) + of_bool (m_recvPaused s)) \<and>
     recvs 0 (nw_posted w) + of_bool (m_recvPaused s) + c \<le> dr + 1 \<and> sends 0 (nw_posted w) + k \<le> ds + of_bool (m_sending s) \<and>
     (IsTransportConnected s \<longrightarrow> 0 < dc) \<and> (0 < c \<longrightarrow> 0 < dc) \<and> (dc = 0 \<longrightarrow> recvs 0 (nw_posted w) = 0 \<and> \<not> m_recvPaused s) \<and>
     ring_posted 0 dr s (nw_posted w) \<and> ring_ok (m_recvPacketBuffer s) \<and>
     told (cl_calls w) + u \<le> dc \<and> told (cl_calls w) = ended (cl_calls w) + of_bool (m_serviceConnectNotified s) \<and>
     (0 < told (cl_calls w) \<and> \<not> m_cancelIo s \<longrightarrow> dr + 1 \<le> recvs 0 (nw_posted w) + of_bool (m_recvPaused s) + c))"

text \<open>A disconnect that was asked for is pending or has been completed, which closed the socket.\<close>

definition life_ok :: "nat \<Rightarrow> nat \<Rightarrow> nat \<Rightarrow> ('p, 'y) ClientNet \<Rightarrow> bool" where
  "life_ok dc dr ds = (\<lambda>(s, w).
     m_cancelIo s = m_disconnecting w \<and> (m_disconnecting w \<longrightarrow> m_releasePending s \<or> m_clientSocket s = None) \<and>
     (m_releasePending s \<longrightarrow> m_disconnecting w \<and> 0 < m_ioCount s \<and> m_clientSocket s \<noteq> None) \<and>
     (m_clientSocket s = None \<longrightarrow> m_disconnecting w \<and> length (cl_connects w) = dc \<and> recvs 0 (nw_posted w) = dr \<and>
        sends 0 (nw_posted w) = ds \<and> \<not> m_recvPaused s \<and> \<not> m_serviceConnectNotified s) \<and>
     (m_clientSocket s \<noteq> None \<longrightarrow> m_clientSocket s = cl_socket w) \<and>
     (\<exists>x. cl_socket w = Some x \<and> cl_closed w = (if m_clientSocket s = None then [x] else [])))"

definition client_acct :: "nat \<Rightarrow> nat \<Rightarrow> nat \<Rightarrow> nat \<Rightarrow> nat \<Rightarrow> nat \<Rightarrow> nat \<Rightarrow> ('p, 'y) ClientNet \<Rightarrow> bool" where
  "client_acct h c k u dc dr ds sw \<longleftrightarrow> counts_ok h c k u dc dr ds sw \<and> life_ok dc dr ds sw"

lemmas acct_defs = client_acct_def counts_ok_def life_ok_def

text \<open>What the accounts do not read.\<close>

lemma acct_session [simp]:
  "client_acct h c k u dc dr ds (s\<lparr>m_disconnectReason := d\<rparr>, w) = client_acct h c k u dc dr ds (s, w)"
  "client_acct h c k u dc dr ds (s\<lparr>m_ioCancelCompleteEvent := e\<rparr>, w) = client_acct h c k u dc dr ds (s, w)"
  "client_acct h c k u dc dr ds (s\<lparr>m_sendPacketQueue := q\<rparr>, w) = client_acct h c k u dc dr ds (s, w)"
  "client_acct h c k u dc dr ds (s\<lparr>m_currentSendPacket := p\<rparr>, w) = client_acct h c k u dc dr ds (s, w)"
  "client_acct h c k u dc dr ds (s\<lparr>m_sendOffset := o1\<rparr>, w) = client_acct h c k u dc dr ds (s, w)"
  "client_acct h c k u dc dr ds (s\<lparr>m_jobQueue := jq\<rparr>, w) = client_acct h c k u dc dr ds (s, w)"
  "client_acct h c k u dc dr ds (s\<lparr>m_recvPauseCount := n\<rparr>, w) = client_acct h c k u dc dr ds (s, w)"
  "client_acct h c k u dc dr ds (s\<lparr>m_lastRecvTick := t\<rparr>, w) = client_acct h c k u dc dr ds (s, w)"
  "client_acct h c k u dc dr ds (s\<lparr>m_lastHeartbeatTick := t\<rparr>, w) = client_acct h c k u dc dr ds (s, w)"
  "client_acct h c k u dc dr ds (s\<lparr>m_sendRejectLogTick := f\<rparr>, w) = client_acct h c k u dc dr ds (s, w)"
  "client_acct h c k u dc dr ds (s\<lparr>m_sendRejectSuppressed := g\<rparr>, w) = client_acct h c k u dc dr ds (s, w)"
  "client_acct h c k u dc dr ds (s\<lparr>m_closing := cl\<rparr>, w) = client_acct h c k u dc dr ds (s, w)"
  "client_acct h c k u dc dr ds (s\<lparr>m_clientIPAddress := ip\<rparr>, w) = client_acct h c k u dc dr ds (s, w)"
  "client_acct h c k u dc dr ds (s\<lparr>m_clientPort := port\<rparr>, w) = client_acct h c k u dc dr ds (s, w)"
  by (simp_all add: acct_defs ring_posted_def IsTransportConnected_def)

lemma acct_world [simp]:
  "client_acct h c k u dc dr ds (s, violation w) = client_acct h c k u dc dr ds (s, w)"
  "client_acct h c k u dc dr ds (s, set_send sw w) = client_acct h c k u dc dr ds (s, w)"
  "client_acct h c k u dc dr ds (s, w\<lparr>nw_jobs := j\<rparr>) = client_acct h c k u dc dr ds (s, w)"
  "client_acct h c k u dc dr ds (s, w\<lparr>nw_calls := n\<rparr>) = client_acct h c k u dc dr ds (s, w)"
  "client_acct h c k u dc dr ds (s, w\<lparr>nw_mem := m\<rparr>) = client_acct h c k u dc dr ds (s, w)"
  "client_acct h c k u dc dr ds (s, w\<lparr>nw_now := t\<rparr>) = client_acct h c k u dc dr ds (s, w)"
  "client_acct h c k u dc dr ds (s, w\<lparr>m_clientWatchdog := d\<rparr>) = client_acct h c k u dc dr ds (s, w)"
  "client_acct h c k u dc dr ds (s, write_mem a bs w) = client_acct h c k u dc dr ds (s, w)"
  "client_acct h c k u dc dr ds (s, snd (ask_os w)) = client_acct h c k u dc dr ds (s, w)"
  "client_acct h c k u dc dr ds (s, release_to_pool env a w) = client_acct h c k u dc dr ds (s, w)"
  by (simp_all add: acct_defs ring_posted_def violation_def set_send_def write_mem_def ask_os_def release_to_pool_def)

lemma acct_small [simp]:
  "client_acct h c k u dc dr ds (SetEvent s, w) = client_acct h c k u dc dr ds (s, w)"
  "client_acct h c k u dc dr ds (NoteDisconnectReason d s, w) = client_acct h c k u dc dr ds (s, w)"
  "client_acct h c k u dc dr ds (UpdateLastRecvTick t s, w) = client_acct h c k u dc dr ds (s, w)"
  "client_acct h c k u dc dr ds (UpdateLastHeartbeatTick t s, w) = client_acct h c k u dc dr ds (s, w)"
  "client_acct h c k u dc dr ds (drop_current env (s, w)) = client_acct h c k u dc dr ds (s, w)"
  "client_acct h c k u dc dr ds (reject r (s, w)) = client_acct h c k u dc dr ds (s, w)"
  by (simp_all add: SetEvent_def NoteDisconnectReason_def UpdateLastRecvTick_def UpdateLastHeartbeatTick_def drop_current_def reject_def
      ShouldLogSendReject_def Let_def split: option.split)

lemma acct_os_calls: "os_calls n w = (ok, w') \<Longrightarrow> client_acct h c k u dc dr ds (s, w') = client_acct h c k u dc dr ds (s, w)"
  by (induction n arbitrary: w) (auto simp: ask_os_def split: option.splits)

text \<open>Tokens may be dropped; the link only when the connection is being ended or the service does not know of it.\<close>

lemma acct_drop_send: "client_acct h c k u dc dr ds sw \<Longrightarrow> client_acct h c 0 u dc dr ds sw"
  by (cases sw) (auto simp: acct_defs)

lemma client_acct_drop_link:
  "client_acct h c k u dc dr ds (s, w) \<Longrightarrow> m_cancelIo s \<or> told (cl_calls w) = 0 \<Longrightarrow> client_acct h 0 k u dc dr ds (s, w)"
  by (auto simp: acct_defs ring_posted_def)

lemma acct_drop_tell: "client_acct h c k u dc dr ds sw \<Longrightarrow> client_acct h c k 0 dc dr ds sw"
  by (cases sw) (auto simp: acct_defs)

lemma acct_not_sending: "client_acct h c (Suc 0) u dc dr ds (s, w) \<Longrightarrow> client_acct h c 0 u dc dr ds (s\<lparr>m_sending := False\<rparr>, w)"
  by (auto simp: acct_defs ring_posted_def IsTransportConnected_def of_bool_def split: if_splits)

lemma acct_sending: "client_acct h c k u dc dr ds (s, w) \<Longrightarrow> \<not> m_sending s \<Longrightarrow> client_acct h c (Suc 0) u dc dr ds (s\<lparr>m_sending := True\<rparr>, w)"
  by (auto simp: acct_defs ring_posted_def IsTransportConnected_def)

lemma acct_state:
  "client_acct h c k u dc dr ds (s, w) \<Longrightarrow> 0 < dc \<or> x \<notin> {Client_CONNECTED, Client_AUTH_PENDING, Client_ESTABLISHED} \<Longrightarrow>
     client_acct h c k u dc dr ds (s\<lparr>m_clientSessionState := x\<rparr>, w)"
  by (auto simp: acct_defs ring_posted_def IsTransportConnected_def)

lemma client_acct_ring: "client_acct h c k u dc dr ds (s, w) \<Longrightarrow> ring_ok (m_recvPacketBuffer s)"
  by (simp add: client_acct_def counts_ok_def)

lemma client_acct_set_ring:
  "client_acct h (Suc 0) k u dc dr ds (s, w) \<Longrightarrow> ring_ok b \<Longrightarrow> client_acct h (Suc 0) k u dc dr ds (s\<lparr>m_recvPacketBuffer := b\<rparr>, w)"
  by (auto simp: acct_defs ring_posted_def IsTransportConnected_def ring_posted_def)

lemma acct_hold: "client_acct h c k u dc dr ds (s, w) \<Longrightarrow> client_acct (Suc h) c k u dc dr ds (s\<lparr>m_ioCount := m_ioCount s + 1\<rparr>, w)"
  by (auto simp: acct_defs ring_posted_def IsTransportConnected_def)


lemma counts_upd [simp]:
  "counts_ok h c k u dc dr ds (s\<lparr>m_releasePending := b\<rparr>, w) = counts_ok h c k u dc dr ds (s, w)"
  "counts_ok h c k u dc dr ds (s\<lparr>m_ioCancelCompleteEvent := e\<rparr>, w) = counts_ok h c k u dc dr ds (s, w)"
  "counts_ok h c k u dc dr ds (SetEvent s, w) = counts_ok h c k u dc dr ds (s, w)"
  "counts_ok h c k u dc dr ds (s, w\<lparr>m_disconnecting := b\<rparr>) = counts_ok h c k u dc dr ds (s, w)"
  "counts_ok h c k u dc dr ds (s, w\<lparr>nw_calls := n\<rparr>) = counts_ok h c k u dc dr ds (s, w)"
  "counts_ok h c k u dc dr ds (s, violation w) = counts_ok h c k u dc dr ds (s, w)"
  by (simp_all add: counts_ok_def ring_posted_def IsTransportConnected_def SetEvent_def violation_def)

lemma counts_dec:
  "counts_ok (Suc h) c k u dc dr ds (s, w) \<Longrightarrow> counts_ok h c k u dc dr ds (s\<lparr>m_ioCount := m_ioCount s - 1\<rparr>, w)"
  by (simp add: counts_ok_def ring_posted_def IsTransportConnected_def)

lemma counts_unpause:
  "counts_ok h c k u dc dr ds (s, w) \<Longrightarrow> m_recvPaused s \<Longrightarrow> m_cancelIo s \<Longrightarrow>
     counts_ok h c k u dc dr ds (s\<lparr>m_recvPaused := False, m_ioCount := m_ioCount s - 1\<rparr>, w)"
  by (simp add: counts_ok_def ring_posted_def IsTransportConnected_def)

lemma life_count:
  "life_ok dc dr ds (s, w) \<Longrightarrow> 0 < n \<or> \<not> m_releasePending s \<Longrightarrow> life_ok dc dr ds (s\<lparr>m_ioCount := n\<rparr>, w)"
  by (auto simp: life_ok_def)

lemma life_upd [simp]:
  "\<not> m_releasePending s \<Longrightarrow> life_ok dc dr ds (s\<lparr>m_releasePending := False\<rparr>, w) = life_ok dc dr ds (s, w)"
  "life_ok dc dr ds (SetEvent s, w) = life_ok dc dr ds (s, w)" "m_releasePending (SetEvent s) = m_releasePending s"
  "m_ioCount (SetEvent s) = m_ioCount s" "m_cancelIo (SetEvent s) = m_cancelIo s" "m_clientSocket (SetEvent s) = m_clientSocket s"
  by (simp_all add: life_ok_def SetEvent_def)

text \<open>Where the counts are.\<close>

lemma counts_sum:
  assumes "counts_ok h c k u dc dr ds (s, w)"
  shows "m_ioCount s = int h + int (length (cl_connects w) - dc) + int (recvs 0 (nw_posted w) - dr) + int (sends 0 (nw_posted w) - ds) +
    of_bool (m_recvPaused s)"
  using assms by (simp add: counts_ok_def of_nat_diff)

lemma counts_zero:
  assumes "counts_ok h c k u dc dr ds (s, w)" and "m_ioCount s = int h"
  shows "length (cl_connects w) = dc" and "recvs 0 (nw_posted w) = dr" and "sends 0 (nw_posted w) = ds" and "\<not> m_recvPaused s"
proof -
  have le: "dc \<le> length (cl_connects w)" "dr \<le> recvs 0 (nw_posted w)" "ds \<le> sends 0 (nw_posted w)" using assms(1) by (simp_all add: counts_ok_def)
  have "length (cl_connects w) - dc = 0 \<and> recvs 0 (nw_posted w) - dr = 0 \<and> sends 0 (nw_posted w) - ds = 0 \<and> \<not> m_recvPaused s"
    using counts_sum [OF assms(1)] assms(2) by (cases "m_recvPaused s") simp_all
  with le show "length (cl_connects w) = dc" "recvs 0 (nw_posted w) = dr" "sends 0 (nw_posted w) = ds" "\<not> m_recvPaused s" by simp_all
qed

section \<open>Ending the connection\<close>

definition client_keeps :: "(('p, 'y) ClientNet \<Rightarrow> ('p, 'y) ClientNet) \<Rightarrow> bool" where
  "client_keeps f \<longleftrightarrow> (\<forall>h c k u dc dr ds sw. client_acct h c k u dc dr ds sw \<longrightarrow> client_acct h c k u dc dr ds (f sw))"

definition client_service_ok :: "('p, 'y) ClientNet ClientService \<Rightarrow> bool" where
  "client_service_ok service \<longleftrightarrow> client_keeps (cs_OnClientConnect service) \<and> client_keeps (cs_OnSessionEstablished service) \<and>
     (\<forall>r. client_keeps (cs_OnClientDisconnect service r)) \<and> (\<forall>e. client_keeps (cs_OnConnectFailed service e)) \<and>
     (\<forall>i a n. client_keeps (cs_OnReceive service i a n)) \<and> (\<forall>n. client_keeps (cs_OnSend service n))"

lemma client_keepsD: "client_keeps f \<Longrightarrow> client_acct h c k u dc dr ds sw \<Longrightarrow> client_acct h c k u dc dr ds (f sw)"
  unfolding client_keeps_def by blast

text \<open>Where the callbacks lead.\<close>

definition client_completes :: "('p, 'y) ClientNet ClientService \<Rightarrow> ('p, ('p, 'y) ClientNet) Env \<Rightarrow> bool" where
  "client_completes service env \<longleftrightarrow> client_service_ok service \<and> ev_OnReleaseReady env = CompleteDisconnect service"

definition client_asks :: "('p, 'y) ClientNet ClientService \<Rightarrow> ('p, ('p, 'y) ClientNet) Env \<Rightarrow> bool" where
  "client_asks service env \<longleftrightarrow> client_completes service env \<and>
     (\<exists>e. client_completes service e \<and> ev_OnDisconnectRequest env = IOCPClient_OnDisconnectRequest e service)"

lemma client_env_asks: "client_service_ok service \<Longrightarrow> client_asks service (client_env acquire release service)"
  unfolding client_asks_def client_completes_def client_env_def Let_def
  by (intro conjI exI [of _ "\<lparr>ev_acquire = acquire, ev_release = release, ev_OnDisconnectRequest = id,
        ev_OnReleaseReady = CompleteDisconnect service\<rparr>"]) simp_all

lemma client_asks_completes: "client_asks service env \<Longrightarrow> client_completes service env"
  by (simp add: client_asks_def)

lemma acct_OnDisconnect: "client_acct h c k u dc dr ds (s, w) \<Longrightarrow> client_acct h c k u dc dr ds (snd (ClientSession_OnDisconnect s), w)"
  by (auto simp: ClientSession_OnDisconnect_def BaseSession_OnDisconnect_def ClearRemoteAddress_def Let_def split: SESSION_ROLE.split
      intro: acct_state) (simp_all add: acct_defs IsTransportConnected_def)

lemma CompleteDisconnect_acct:
  assumes C: "counts_ok 0 c k u dc dr ds (s, w)" and z: "m_ioCount s = 0" and f: "m_cancelIo s" "m_disconnecting w" "\<not> m_releasePending s"
    and so: "m_clientSocket s \<noteq> None" "m_clientSocket s = cl_socket w" "cl_closed w = []" and service: "client_service_ok service"
  shows "client_acct 0 c k u dc dr ds (CompleteDisconnect service (s, w))"
proof -
  obtain x where x: "m_clientSocket s = Some x" using so by auto
  let ?s = "s\<lparr>m_clientSocket := None, m_serviceConnectNotified := False\<rparr>" and ?w = "w\<lparr>cl_closed := [x]\<rparr>"
  note out = counts_zero [OF C, simplified, OF z]
  have 1: "client_acct 0 c k u dc dr ds (?s, ?w)" if "\<not> m_serviceConnectNotified s"
    using C z f so x out that by (auto simp: acct_defs ring_posted_def IsTransportConnected_def)
  have 2: "client_acct 0 c k u dc dr ds (?s, called (ServerDisconnected r) ?w)" if "m_serviceConnectNotified s" for r
    using C z f so x out that by (auto simp: acct_defs ring_posted_def IsTransportConnected_def called_def)
  have e: "?s = s\<lparr>m_clientSocket := None\<rparr>" if "\<not> m_serviceConnectNotified s" using that by simp
  define t where "t = (if m_serviceConnectNotified s
      then cs_OnClientDisconnect service (m_disconnectReason s) (?s, called (ServerDisconnected (m_disconnectReason s)) ?w) else (?s, ?w))"
  have t: "client_acct 0 c k u dc dr ds t"
    using 1 client_keepsD [OF _ 2] service by (auto simp: t_def client_service_ok_def)
  have D: "CompleteDisconnect service (s, w) = (case t of (s2, w2) \<Rightarrow>
      (case ClientSession_OnDisconnect s2 of (ok, s3) \<Rightarrow> (s3, if ok then w2 else violation w2)))"
    using so x e by (auto simp: CompleteDisconnect_def DestroyConnectSocket_def DetachSocket_def ConsumeServiceConnectNotified_def t_def Let_def)
  obtain s2 w2 where T: "t = (s2, w2)" by fastforce
  obtain ok s3 where O: "ClientSession_OnDisconnect s2 = (ok, s3)" by fastforce
  have "client_acct 0 c k u dc dr ds (s3, w2)" using acct_OnDisconnect [of 0 c k u dc dr ds s2 w2] t T O by simp
  then show ?thesis by (simp add: D T O)
qed

lemma DecrementIO_client:
  assumes A: "client_acct (Suc h) c k u dc dr ds sw" and env: "client_completes service env"
  shows "client_acct h c k u dc dr ds (DecrementIO env sw)"
proof -
  obtain s w where sw: "sw = (s, w)" by fastforce
  let ?t = "s\<lparr>m_ioCount := m_ioCount s - 1\<rparr>"
  have sum: "m_ioCount s = int (Suc h) + int (length (cl_connects w) - dc) + int (recvs 0 (nw_posted w) - dr) +
      int (sends 0 (nw_posted w) - ds) + of_bool (m_recvPaused s)"
    by (rule counts_sum [of _ c k u]) (use A in \<open>simp add: sw client_acct_def\<close>)
  then have pos: "0 < m_ioCount s" by simp
  show ?thesis
  proof (cases "m_ioCount s - 1 = 0")
    case False
    then have "DecrementIO env sw = (?t, w)" using pos by (auto simp: sw DecrementIO_def Let_def)
    moreover have "0 < m_ioCount s - 1" using False pos by simp
    then have "life_ok dc dr ds (?t, w)" using A by (intro life_count) (simp_all add: sw client_acct_def)
    ultimately show ?thesis using A by (simp add: sw client_acct_def counts_dec)
  next
    case True
    then have h: "h = 0" using sum by (cases "m_recvPaused s") simp_all
    let ?u = "(if m_cancelIo s then SetEvent ?t else ?t)\<lparr>m_releasePending := False\<rparr>"
    have C: "counts_ok 0 c k u dc dr ds (?u, w)" using A h by (auto simp: sw client_acct_def intro: counts_dec)
    have rr: "m_releaseReadyFunc s" using A by (simp add: sw acct_defs)
    have D: "DecrementIO env sw = (if m_releasePending s then CompleteDisconnect service (?u, w) else (?u, w))"
      using env True rr by (auto simp: sw DecrementIO_def Let_def client_completes_def SetEvent_def)
    show ?thesis
    proof (cases "m_releasePending s")
      case False
      moreover have "life_ok dc dr ds (?u, w)" using A False by (auto simp: sw client_acct_def intro: life_count)
      ultimately show ?thesis using C h by (simp add: client_acct_def D)
    next
      case pending: True
      have "client_acct 0 c k u dc dr ds (CompleteDisconnect service (?u, w))"
      proof (rule CompleteDisconnect_acct)
        show "counts_ok 0 c k u dc dr ds (?u, w)" by (rule C)
        show "m_ioCount ?u = 0" using True by simp
        show "client_service_ok service" using env by (simp add: client_completes_def)
      qed (use A pending in \<open>auto simp: sw client_acct_def life_ok_def SetEvent_def\<close>)
      then show ?thesis using pending h by (simp add: D)
    qed
  qed
qed


text \<open>Cancelling before the release is asked for: no callback can come, since nothing is pending yet.\<close>

lemma ReleaseUnpostedIO_client_quiet:
  assumes C: "counts_ok h c k u dc dr ds (s, w)" and np: "\<not> m_releasePending s" and ca: "m_cancelIo s"
    and R: "ReleaseUnpostedIO env (s, w) = (s', w')"
  shows "counts_ok h c k u dc dr ds (s', w')" and "\<not> m_releasePending s'" and "m_cancelIo s'" and "m_clientSocket s' = m_clientSocket s"
    and "w' = w"
proof -
  note sum = counts_sum [OF C]
  have *: "counts_ok h c k u dc dr ds (s', w') \<and> \<not> m_releasePending s' \<and> m_cancelIo s' \<and> m_clientSocket s' = m_clientSocket s \<and> w' = w"
  proof (cases "m_recvPaused s")
    case False then show ?thesis using R C np ca by (simp add: ReleaseUnpostedIO_def)
  next
    case True
    let ?t = "s\<lparr>m_recvPaused := False, m_ioCount := m_ioCount s - 1\<rparr>"
    have "0 \<le> m_ioCount s - 1" using sum True by simp
    then have e: "w' = w \<and> (s' = ?t \<or> s' = ?t\<lparr>m_releasePending := False\<rparr> \<or> s' = (SetEvent ?t)\<lparr>m_releasePending := False\<rparr>)"
      using R True np by (auto simp: ReleaseUnpostedIO_def DecrementIO_def SetEvent_def Let_def split: if_splits)
    have "counts_ok h c k u dc dr ds (?t, w)" by (rule counts_unpause [OF C True ca])
    with e np ca show ?thesis by (auto simp: SetEvent_def)
  qed
  then show "counts_ok h c k u dc dr ds (s', w')" "\<not> m_releasePending s'" "m_cancelIo s'" "m_clientSocket s' = m_clientSocket s" "w' = w"
    by blast+
qed

lemma CancelPendingIO_client_quiet:
  assumes C: "counts_ok h c k u dc dr ds (s, w)" and np: "\<not> m_releasePending s" and ca: "\<not> m_cancelIo s" and so: "m_clientSocket s \<noteq> None"
    and R: "CancelPendingIO env (s, w) = (ok, s', w')"
  shows "counts_ok h c k u dc dr ds (s', w')" and "\<not> m_releasePending s'" and "m_cancelIo s'" and "m_clientSocket s' = m_clientSocket s"
    and "m_disconnecting w' = m_disconnecting w" and "cl_socket w' = cl_socket w" and "cl_closed w' = cl_closed w"
proof -
  let ?s = "s\<lparr>m_cancelIo := True, m_ioCancelCompleteEvent := map_option (\<lambda>_. False) (m_ioCancelCompleteEvent s)\<rparr>"
  obtain answer w1 where O: "ask_os w = (answer, w1)" by fastforce
  then have w1: "w1 = w\<lparr>nw_calls := nw_calls w + 1\<rparr>" by (simp add: ask_os_def)
  obtain s2 w2 where U: "ReleaseUnpostedIO env (?s, w1) = (s2, w2)" by fastforce
  have C1: "counts_ok h c k u dc dr ds (?s, w1)" using C by (simp add: counts_ok_def ring_posted_def IsTransportConnected_def w1)
  note q = ReleaseUnpostedIO_client_quiet [OF C1 _ _ U, simplified]
  have "(s', w') = (s2, w2) \<or> (s', w') = (?s, w1) \<or> (s', w') = (SetEvent ?s, w1)"
    using R so ca O U by (auto simp: BaseSession_CancelPendingIO_def Let_def split: option.splits if_splits)
  moreover have "counts_ok h c k u dc dr ds (SetEvent ?s, w1)" using C1 by (simp add: counts_ok_def ring_posted_def IsTransportConnected_def SetEvent_def)
  ultimately show "counts_ok h c k u dc dr ds (s', w')" "\<not> m_releasePending s'" "m_cancelIo s'" "m_clientSocket s' = m_clientSocket s"
    "m_disconnecting w' = m_disconnecting w" "cl_socket w' = cl_socket w" "cl_closed w' = cl_closed w"
    using q C1 np by (auto simp: SetEvent_def w1)
qed

text \<open>After a request the connection is being ended, so the link may be dropped.\<close>

lemma counts_drop_link: "counts_ok h c k u dc dr ds (s, w) \<Longrightarrow> m_cancelIo s \<Longrightarrow> counts_ok h 0 k u dc dr ds (s, w)"
  by (simp add: counts_ok_def)

lemma OnDisconnectRequest_client:
  assumes A: "client_acct h c k u dc dr ds (s, w)" and c': "c' = c \<or> c' = 0" and env: "client_completes service env"
  shows "client_acct h c' k u dc dr ds (IOCPClient_OnDisconnectRequest env service (s, w))"
proof (cases "m_disconnecting w")
  case True
  then have "m_cancelIo s" using A by (simp add: client_acct_def life_ok_def)
  then have "client_acct h c' k u dc dr ds (s, w)" using A client_acct_drop_link [OF A] c' by auto
  then show ?thesis using True by (simp add: IOCPClient_OnDisconnectRequest_def)
next
  case False
  let ?w = "w\<lparr>m_disconnecting := True\<rparr>"
  have C: "counts_ok h c k u dc dr ds (s, ?w)" using A by (simp add: client_acct_def counts_ok_def)
  have l: "\<not> m_releasePending s" "\<not> m_cancelIo s" "m_clientSocket s \<noteq> None" "m_clientSocket s = cl_socket w" "cl_closed w = []"
    using A False by (auto simp: client_acct_def life_ok_def)
  obtain ok s2 w2 where K: "CancelPendingIO env (s, ?w) = (ok, s2, w2)" by (cases "CancelPendingIO env (s, ?w)") auto
  note q = CancelPendingIO_client_quiet [OF C l(1-3) K]
  let ?w3 = "if ok then w2 else violation w2"
  have C3: "counts_ok h c' k u dc dr ds (s2, ?w3)" using q(1,3) c' by (auto intro: counts_drop_link)
  have w3: "m_disconnecting ?w3" "cl_socket ?w3 = cl_socket w" "cl_closed ?w3 = []" using q l by (simp_all add: violation_def)
  note sum = counts_sum [OF C3]
  have e: "IOCPClient_OnDisconnectRequest env service (s, w) = (case RequestRelease s2 of
      (False, s3) \<Rightarrow> (s3, ?w3) | (True, s3) \<Rightarrow> CompleteDisconnect service (s3, ?w3))"
    using False l(3) K by (cases ok) (simp_all add: IOCPClient_OnDisconnectRequest_def Let_def)
  show ?thesis
  proof (cases "m_ioCount s2 = 0")
    case True
    then have h: "h = 0" using sum by (cases "m_recvPaused s2") simp_all
    have r: "RequestRelease s2 = (True, s2\<lparr>m_releasePending := False\<rparr>)" using True by (simp add: RequestRelease_def Let_def)
    have "client_acct 0 c' k u dc dr ds (CompleteDisconnect service (s2\<lparr>m_releasePending := False\<rparr>, ?w3))"
      by (rule CompleteDisconnect_acct)
        (use C3 h True q(3,4) w3 l(3-5) env in \<open>simp_all add: client_completes_def\<close>)
    then show ?thesis by (simp add: e r h)
  next
    case False
    moreover have "0 \<le> m_ioCount s2" unfolding sum by simp
    ultimately have "life_ok dc dr ds (s2\<lparr>m_releasePending := True\<rparr>, ?w3)" using q w3 l A by (auto simp: client_acct_def life_ok_def)
    then have "client_acct h c' k u dc dr ds (s2\<lparr>m_releasePending := True\<rparr>, ?w3)" using C3 by (simp add: client_acct_def)
    then show ?thesis using False by (simp add: e RequestRelease_def Let_def)
  qed
qed

lemma request_client:
  assumes "client_asks service env" and "client_acct h c k u dc dr ds sw"
  shows "client_acct h c k u dc dr ds (ev_OnDisconnectRequest env sw)" and "client_acct h 0 k u dc dr ds (ev_OnDisconnectRequest env sw)"
  using assms by (cases sw; auto simp: client_asks_def intro: OnDisconnectRequest_client)+

lemma NotifyDisconnect_client:
  assumes "client_asks service env" and "client_acct h c k u dc dr ds (s, w)"
  shows "client_acct h c k u dc dr ds (NotifyDisconnect env (s, w))" and "client_acct h 0 k u dc dr ds (NotifyDisconnect env (s, w))"
proof -
  have "m_eventHandler s" using assms(2) by (simp add: client_acct_def counts_ok_def)
  with request_client [OF assms] show "client_acct h c k u dc dr ds (NotifyDisconnect env (s, w))"
    "client_acct h 0 k u dc dr ds (NotifyDisconnect env (s, w))" by (simp_all add: NotifyDisconnect_def)
qed


section \<open>Receiving\<close>

lemma BeginIO_client:
  assumes A: "client_acct h c k u dc dr ds (s, w)" and env: "client_completes service env" and B: "BeginIO env (s, w) = (ok, s', w')"
  shows "ok \<Longrightarrow> client_acct (Suc h) c k u dc dr ds (s', w') \<and> \<not> m_cancelIo s' \<and> s' = s\<lparr>m_ioCount := m_ioCount s + 1\<rparr> \<and> w' = w"
    and "\<not> ok \<Longrightarrow> client_acct h c k u dc dr ds (s', w') \<and> client_acct h 0 k u dc dr ds (s', w')"
proof -
  let ?s = "s\<lparr>m_ioCount := m_ioCount s + 1\<rparr>"
  note H = acct_hold [OF A]
  have H0: "client_acct (Suc h) 0 k u dc dr ds (?s, w)" if "m_cancelIo s" using client_acct_drop_link [OF H] that by simp
  show "ok \<Longrightarrow> client_acct (Suc h) c k u dc dr ds (s', w') \<and> \<not> m_cancelIo s' \<and> s' = ?s \<and> w' = w"
    using B H by (auto simp: BeginIO_def Let_def split: if_splits)
  show "\<not> ok \<Longrightarrow> client_acct h c k u dc dr ds (s', w') \<and> client_acct h 0 k u dc dr ds (s', w')"
    using B DecrementIO_client [OF H env] DecrementIO_client [OF H0 env] by (auto simp: BeginIO_def Let_def split: if_splits)
qed

lemma post_recv_client:
  assumes "client_acct (Suc h) (Suc 0) k u dc dr ds (s, w)" and "\<not> m_cancelIo s" and "0 < dc"
    and "m_recvPacketBuffer s = Some b" and "a = the (GetWriteablePtr b)" and "n = GetWriteableSize b"
  shows "client_acct h 0 k u dc dr ds (s, w\<lparr>nw_posted := nw_posted w @ [RecvPosted (m_sessionId s) a n]\<rparr>)"
proof -
  have "counts_ok h 0 k u dc dr ds (s, w\<lparr>nw_posted := nw_posted w @ [RecvPosted (m_sessionId s) a n]\<rparr>)"
    using assms by (simp add: client_acct_def counts_ok_def ring_posted_def)
  moreover have "life_ok dc dr ds (s, w\<lparr>nw_posted := nw_posted w @ [RecvPosted (m_sessionId s) a n]\<rparr>)"
    using assms by (auto simp: client_acct_def life_ok_def)
  ultimately show ?thesis by (simp add: client_acct_def)
qed

lemma HandleSocketError_client:
  assumes A: "client_acct (Suc h) c (if op = OP_SEND then Suc 0 else k) u dc dr ds (s, w)" and env: "client_asks service env"
  shows "client_acct h c (if op = OP_SEND then 0 else k) u dc dr ds (HandleSocketError env e op (s, w))"
proof -
  obtain s1 w1 where 1: "(if op = OP_SEND then (case drop_current env (s, w) of (s, w) \<Rightarrow> (s\<lparr>m_sendOffset := 0, m_sending := False\<rparr>, w))
      else (s, w)) = (s1, w1)" by fastforce
  obtain s0 w0 where 0: "drop_current env (s, w) = (s0, w0)" by fastforce
  have "client_acct (Suc h) c (if op = OP_SEND then Suc 0 else k) u dc dr ds (s0, w0)" using acct_small(5) [of "Suc h" c _ u dc dr ds env s w] A unfolding 0 by simp
  then have A1: "client_acct (Suc h) c (if op = OP_SEND then 0 else k) u dc dr ds (s1, w1)"
    using 1 0 A acct_not_sending [of "Suc h" c u dc dr ds "s0\<lparr>m_sendOffset := 0\<rparr>" w0] by (auto split: if_splits)
  then have "client_acct (Suc h) c (if op = OP_SEND then 0 else k) u dc dr ds (NotifyDisconnect env (NoteDisconnectReason SocketError s1, w1))"
    by (intro NotifyDisconnect_client [OF env]) simp
  with A1 show ?thesis unfolding HandleSocketError_def 1 Let_def prod.case
    using DecrementIO_client [OF _ client_asks_completes [OF env]] by simp
qed

lemma PostReceive_client:
  assumes A: "client_acct h (Suc 0) k u dc dr ds (s, w)" and env: "client_asks service env" and P: "PostReceive env (s, w) = (ok, s', w')"
  shows "client_acct h (if ok then 0 else Suc 0) k u dc dr ds (s', w')"
proof (cases "\<not> IsTransportConnected s \<or> m_recvPacketBuffer s = None")
  case True then show ?thesis using A P by (auto simp: PostReceive_def split: option.splits if_splits)
next
  case False
  then obtain b where b: "m_recvPacketBuffer s = Some b" and t: "IsTransportConnected s" by auto
  have dc: "0 < dc" using A t by (simp add: client_acct_def counts_ok_def)
  let ?s = "s\<lparr>m_recvPacketBuffer := Some (PrepareWrite b)\<rparr>"
  obtain begun s2 w2 where B: "BeginIO env (?s, w) = (begun, s2, w2)" by (cases "BeginIO env (?s, w)") auto
  obtain answer w3 where O: "ask_os w2 = (answer, w3)" by fastforce
  then have w3: "w3 = snd (ask_os w2)" by simp
  have "ring_ok (Some (PrepareWrite b))"
    using client_acct_ring [OF A] PrepareWrite_inv_stored(1,3) [of b] by (auto simp: ring_ok_def b)
  then have A1: "client_acct h (Suc 0) k u dc dr ds (?s, w)" by (rule client_acct_set_ring [OF A])
  note bg = BeginIO_client [OF A1 client_asks_completes [OF env] B]
  consider (full) "ok = False" "s' = ?s" "w' = w" | (cancelled) "\<not> begun" "ok = False" "s' = s2" "w' = w2"
    | (failed) e where "begun" "ok = False" "HandleSocketError env e OP_RECV (s2, w3) = (s', w')"
    | (posted) "begun" "ok" "s' = s2" "w' = w3\<lparr>nw_posted := nw_posted w3 @
        [RecvPosted (m_sessionId s2) (the (GetWriteablePtr (PrepareWrite b))) (GetWriteableSize (PrepareWrite b))]\<rparr>"
    using P b t B O by (auto simp: PostReceive_def Let_def split: if_splits bool.splits option.splits)
  then show ?thesis
  proof cases
    case full then show ?thesis using A1 by simp
  next
    case cancelled then show ?thesis using bg by simp
  next
    case failed
    then have "client_acct (Suc h) (Suc 0) k u dc dr ds (s2, w3)" using bg(1) [THEN conjunct1] by (simp add: w3)
    from HandleSocketError_client [where op = OP_RECV and k = k and e = e, simplified, OF this env] failed show ?thesis by simp
  next
    case posted
    note g = bg(1) [OF posted(1)]
    have A3: "client_acct (Suc h) (Suc 0) k u dc dr ds (s2, w3)" using g [THEN conjunct1] by (simp add: w3)
    have nc: "\<not> m_cancelIo s2" using g by blast
    have "m_recvPacketBuffer s2 = Some (PrepareWrite b)" using g by simp
    from post_recv_client [OF A3 nc dc this refl refl] posted show ?thesis by simp
  qed
qed


text \<open>Resuming takes the link that the pause held.\<close>

lemma counts_resume:
  assumes "client_acct h 0 k u dc dr ds (s, w)" and "m_recvPaused s"
  shows "client_acct (Suc h) (Suc 0) k u dc dr ds (s\<lparr>m_recvPaused := False\<rparr>, w)"
  using assms by (auto simp: client_acct_def counts_ok_def ring_posted_def life_ok_def IsTransportConnected_def)


lemma ResumeReceive_client:
  assumes A: "client_acct h 0 k u dc dr ds (s, w)" and env: "client_asks service env"
  shows "client_acct h 0 k u dc dr ds (ResumeReceive env (s, w))"
proof (cases "m_recvPaused s")
  case False then show ?thesis using A by (simp add: ResumeReceive_def)
next
  case True
  obtain ok s1 w1 where P: "PostReceive env (s\<lparr>m_recvPaused := False\<rparr>, w) = (ok, s1, w1)"
    by (cases "PostReceive env (s\<lparr>m_recvPaused := False\<rparr>, w)") auto
  note p = PostReceive_client [OF counts_resume [OF A True] env P]
  note D = DecrementIO_client [OF _ client_asks_completes [OF env]]
  show ?thesis
  proof (cases ok)
    case True
    then show ?thesis using p P D \<open>m_recvPaused s\<close> by (simp add: ResumeReceive_def)
  next
    case False
    then have "client_acct (Suc h) (Suc 0) k u dc dr ds (NoteDisconnectReason ResourceExhausted s1, w1)" using p by simp
    from D [OF NotifyDisconnect_client(2) [OF env this]] False P \<open>m_recvPaused s\<close> show ?thesis by (simp add: ResumeReceive_def)
  qed
qed

lemma counts_pause:
  assumes "client_acct (Suc h) (Suc 0) k u dc dr ds (s, w)" and "\<not> m_cancelIo s"
  shows "client_acct h 0 k u dc dr ds (s\<lparr>m_recvPaused := True, m_recvPauseCount := n\<rparr>, w)"
  using assms by (auto simp: client_acct_def counts_ok_def ring_posted_def life_ok_def IsTransportConnected_def)

lemma PostReceiveOrPause_client:
  assumes A: "client_acct h (Suc 0) k u dc dr ds (s, w)" and env: "client_asks service env"
    and P: "PostReceiveOrPause env (s, w) = (ok, s', w')"
  shows "client_acct h (if ok then 0 else Suc 0) k u dc dr ds (s', w')"
proof (cases "recvPauseJobDepth (m_bufferConfig s) = 0 \<or> GetJobQueueDepth s < recvPauseJobDepth (m_bufferConfig s)")
  case True
  obtain r s1 w1 where R: "PostReceive env (s, w) = (r, s1, w1)" by (cases "PostReceive env (s, w)") auto
  note p = PostReceive_client [OF A env R]
  show ?thesis using p P R True client_acct_drop_link [of h "Suc 0" k u dc dr ds s1 w1]
    by (cases r) (auto simp: PostReceiveOrPause_def IsIOCancelRequested_def)
next
  case False
  obtain begun s1 w1 where B: "BeginIO env (s, w) = (begun, s1, w1)" by (cases "BeginIO env (s, w)") auto
  note bg = BeginIO_client [OF A client_asks_completes [OF env] B]
  show ?thesis
  proof (cases begun)
    case no: False
    show ?thesis using False no B P bg(2) [OF no] by (auto simp: PostReceiveOrPause_def)
  next
    case True
    let ?s2 = "s1\<lparr>m_recvPaused := True, m_recvPauseCount := m_recvPauseCount s1 + 1\<rparr>"
    have A2: "client_acct h 0 k u dc dr ds (?s2, w1)" using counts_pause bg True by blast
    have e: "ok" "(s', w') = (if GetJobQueueDepth ?s2 > recvResumeJobDepth (m_bufferConfig ?s2) then (?s2, w1) else ResumeReceive env (?s2, w1))"
      using P B True False by (auto simp: PostReceiveOrPause_def Let_def split: if_splits)
    then show ?thesis using A2 ResumeReceive_client [OF A2 env] by simp
  qed
qed


lemma ResumeReceiveIfDrained_client:
  "client_acct h 0 k u dc dr ds (s, w) \<Longrightarrow> client_asks service env \<Longrightarrow> client_acct h 0 k u dc dr ds (ResumeReceiveIfDrained env (s, w))"
  by (simp add: ResumeReceiveIfDrained_def ResumeReceive_client)

section \<open>Sending\<close>

lemma post_send_client:
  assumes "client_acct (Suc h) c (Suc 0) u dc dr ds (s, w)" and "\<not> m_cancelIo s"
  shows "client_acct h c 0 u dc dr ds (s, w\<lparr>nw_posted := nw_posted w @ [SendPosted (m_sessionId s) bs]\<rparr>)"
proof -
  have "counts_ok h c 0 u dc dr ds (s, w\<lparr>nw_posted := nw_posted w @ [SendPosted (m_sessionId s) bs]\<rparr>)"
    using assms by (simp add: client_acct_def counts_ok_def ring_posted_def)
  moreover have "life_ok dc dr ds (s, w\<lparr>nw_posted := nw_posted w @ [SendPosted (m_sessionId s) bs]\<rparr>)"
    using assms by (auto simp: client_acct_def life_ok_def)
  ultimately show ?thesis by (simp add: client_acct_def)
qed

lemma drop_current_client:
  assumes "client_acct h c (Suc 0) u dc dr ds (s, w)" and "drop_current env (s, w) = (s', w')"
  shows "client_acct h c 0 u dc dr ds (s'\<lparr>m_sendOffset := x, m_sending := False\<rparr>, w')"
proof (rule acct_not_sending)
  show "client_acct h c (Suc 0) u dc dr ds (s'\<lparr>m_sendOffset := x\<rparr>, w')"
    using acct_small(5) [of h c "Suc 0" u dc dr ds env s w] assms by simp
qed

lemma PostCurrentSend_client:
  assumes A: "client_acct h c (Suc 0) u dc dr ds (s, w)" and env: "client_asks service env" and P: "PostCurrentSend env (s, w) = (r, s', w')"
  shows "client_acct h c 0 u dc dr ds (s', w')"
proof (cases "m_currentSendPacket s")
  case None then show ?thesis using acct_drop_send [OF A] P by (simp add: PostCurrentSend_def)
next
  case (Some a)
  obtain sd wd where D: "drop_current env (s, w) = (sd, wd)" by fastforce
  obtain ok s1 w1 where B: "BeginIO env (s, w) = (ok, s1, w1)" by (cases "BeginIO env (s, w)") auto
  obtain answer w2 where O: "ask_os w1 = (answer, w2)" by fastforce
  then have w2: "w2 = snd (ask_os w1)" by simp
  note bg = BeginIO_client [OF A client_asks_completes [OF env] B]
  have "(\<exists>x. s' = sd\<lparr>m_sendOffset := x, m_sending := False\<rparr> \<and> w' = wd) \<or> \<not> ok \<and> s' = s1 \<and> w' = w1 \<or>
      ok \<and> (\<exists>e. HandleSocketError env e OP_SEND (s1, w2) = (s', w')) \<or>
      ok \<and> (\<exists>bs. s' = s1 \<and> w' = w2\<lparr>nw_posted := nw_posted w2 @ [SendPosted (m_sessionId s1) bs]\<rparr>)"
  proof (cases "en_packetSize (entry_at (nw_send w) a) - m_sendOffset s = 0 \<or> m_cancelIo s")
    case True
    let ?x = "if en_packetSize (entry_at (nw_send w) a) - m_sendOffset s = 0 then m_sendOffset sd else 0"
    have "s' = sd\<lparr>m_sendOffset := ?x, m_sending := False\<rparr> \<and> w' = wd"
      using P Some D True by (simp add: PostCurrentSend_def IsIOCancelRequested_def Let_def split: if_splits)
    then show ?thesis by blast
  next
    case False
    then have "(if ok then case post_failed answer of
          Some errorCode \<Rightarrow> (False, HandleSocketError env errorCode OP_SEND (s1, w2))
        | None \<Rightarrow> (True, s1, w2\<lparr>nw_posted := nw_posted w2 @ [SendPosted (m_sessionId s1)
            (take (unat (en_packetSize (entry_at (nw_send w) a) - m_sendOffset s)) (drop (unat (m_sendOffset s))
               (nw_mem w2 (the (en_packetData (entry_at (nw_send w) a))))))]\<rparr>) else (False, s1, w1)) = (r, s', w')"
      using P Some B O by (cases ok) (simp_all add: PostCurrentSend_def IsIOCancelRequested_def Let_def)
    then show ?thesis by (cases ok; cases "post_failed answer") auto
  qed
  then consider (dropped) x where "s' = sd\<lparr>m_sendOffset := x, m_sending := False\<rparr>" "w' = wd" | (cancelled) "\<not> ok" "s' = s1" "w' = w1"
    | (failed) err where "ok" "HandleSocketError env err OP_SEND (s1, w2) = (s', w')"
    | (posted) bs where "ok" "s' = s1" "w' = w2\<lparr>nw_posted := nw_posted w2 @ [SendPosted (m_sessionId s1) bs]\<rparr>" by blast
  then show ?thesis
  proof cases
    case dropped
    show ?thesis unfolding dropped by (rule drop_current_client [OF A D])
  next
    case cancelled then show ?thesis using acct_drop_send bg(2) [OF cancelled(1)] by blast
  next
    case failed
    have "client_acct (Suc h) c (Suc 0) u dc dr ds (s1, w2)" using bg(1) [OF failed(1), THEN conjunct1] by (simp add: w2)
    with HandleSocketError_client [where op = OP_SEND, simplified, OF _ env] failed(2) show ?thesis by metis
  next
    case posted
    have "client_acct (Suc h) c (Suc 0) u dc dr ds (s1, w2)" "\<not> m_cancelIo s1"
      using bg(1) [OF posted(1), THEN conjunct1] bg(1) [OF posted(1), THEN conjunct2, THEN conjunct1] by (simp_all add: w2)
    from post_send_client [OF this] posted show ?thesis by simp
  qed
qed

lemma TrySendNext_client:
  assumes A: "client_acct h c k u dc dr ds (s, w)" and env: "client_asks service env" and T: "TrySendNext env (s, w) = (r, s', w')"
  shows "client_acct h c k u dc dr ds (s', w')"
proof (cases "m_sendPacketQueue s = None \<or> m_sending s")
  case True then show ?thesis using A T by (auto simp: TrySendNext_def split: option.splits)
next
  case False
  then obtain q where q: "m_sendPacketQueue s = Some q" "\<not> m_sending s" by auto
  have k: "k = 0" using A q(2) by (auto simp: client_acct_def counts_ok_def)
  have B: "client_acct h c (Suc 0) u dc dr ds (s\<lparr>m_sending := True\<rparr>, w)" by (rule acct_sending [OF A q(2)])
  show ?thesis
  proof (cases "m_currentSendPacket s")
    case (Some a)
    then have "PostCurrentSend env (s\<lparr>m_sending := True\<rparr>, w) = (r, s', w')" using T q by (simp add: TrySendNext_def)
    from PostCurrentSend_client [OF B env this] k show ?thesis by simp
  next
    case None
    obtain d q' sw' where D: "Dequeue (q, nw_send w) = (d, q', sw')" by (cases "Dequeue (q, nw_send w)")
    show ?thesis
    proof (cases d)
      case None
      then have e: "s' = s\<lparr>m_sendPacketQueue := Some q', m_sending := False\<rparr>" "w' = set_send sw' w"
        using T q D \<open>m_currentSendPacket s = None\<close> by (simp_all add: TrySendNext_def Let_def split: if_splits)
      have "s\<lparr>m_sending := False\<rparr> = s" using q(2) by simp
      then have "s' = s\<lparr>m_sendPacketQueue := Some q'\<rparr>" using e(1) q(2) by simp
      then show ?thesis using A e(2) by simp
    next
      case (Some a)
      let ?s = "s\<lparr>m_sending := True, m_sendPacketQueue := Some q', m_currentSendPacket := Some a, m_sendOffset := 0\<rparr>"
      have P: "PostCurrentSend env (?s, set_send sw' w) = (r, s', w')"
        using T q D Some \<open>m_currentSendPacket s = None\<close> by (simp add: TrySendNext_def)
      have "client_acct h c (Suc 0) u dc dr ds (?s, set_send sw' w)" using B by simp
      from PostCurrentSend_client [OF this env P] k show ?thesis by simp
    qed
  qed
qed

lemma try_send_client:
  "client_acct h c k u dc dr ds sw \<Longrightarrow> client_asks service env \<Longrightarrow> client_acct h c k u dc dr ds (snd (TrySendNext env sw))"
  using TrySendNext_client by (metis prod.collapse)

text \<open>A completed send hands the flag on to the rest of the packet or to the next one.\<close>

lemma OnSendCompleted_client:
  assumes A: "client_acct h c (Suc 0) u dc dr ds (s, w)" and env: "client_asks service env"
  shows "client_acct h c 0 u dc dr ds (snd (OnSendCompleted env n (s, w)))"
proof -
  let ?s1 = "s\<lparr>m_sendOffset := m_sendOffset s + n\<rparr>"
  have A1: "client_acct h c (Suc 0) u dc dr ds (?s1, w)" using A by simp
  show ?thesis
  proof (cases "m_currentSendPacket s")
    case None then show ?thesis using acct_drop_send [OF A1] by (simp add: OnSendCompleted_def)
  next
    case (Some a)
    obtain s2 w2 where D: "drop_current env (?s1, w) = (s2, w2)" by fastforce
    have "client_acct h c 0 u dc dr ds (s2\<lparr>m_sendOffset := 0, m_sending := False\<rparr>, w2)"
      by (rule drop_current_client [OF A1 D])
    from try_send_client [OF this env] PostCurrentSend_client [OF A1 env] Some D show ?thesis
      by (cases "PostCurrentSend env (?s1, w)") (auto simp: OnSendCompleted_def Let_def)
  qed
qed

lemma EnqueueSendPacket_client:
  assumes A: "client_acct h c k u dc dr ds (s, w)" and env: "client_asks service env"
  shows "client_acct h c k u dc dr ds (snd (snd (EnqueueSendPacket env packetData sz (s, w))))"
proof (cases "m_sendPacketQueue s")
  case None then show ?thesis using A by (simp add: EnqueueSendPacket_def)
next
  case (Some q)
  obtain r1 p1 q1 sw where Q: "Enqueue (ev_acquire env) (ev_release env) packetData sz (q, nw_send w) = (r1, p1, q1, sw)"
    by (cases "Enqueue (ev_acquire env) (ev_release env) packetData sz (q, nw_send w)")
  have B: "client_acct h c k u dc dr ds (s\<lparr>m_sendPacketQueue := Some q1\<rparr>, set_send sw w)" using A by simp
  show ?thesis using A B Q Some try_send_client [OF B env] by (cases r1) (simp_all add: EnqueueSendPacket_def Let_def)
qed

end
