(* ===== verification/ClientRun.thy ===== *)
theory ClientRun
  imports ClientAccounts ServerStart
begin

text \<open>
  The client over any history: completions in any order, calls of the service, jobs that were drained, rounds of the watchdog. The kernel
  completes what was posted, each operation once, and writes at most as many bytes as a receive was posted for.
\<close>

section \<open>Connecting\<close>

text \<open>The completed connect hands over its count, the link of the receive chain and the right to tell the service.\<close>

lemma connect_completes:
  assumes "client_acct 0 0 0 0 0 dr ds (s, w)" and "length (cl_connects w) = 1"
  shows "client_acct (Suc 0) (Suc 0) 0 (Suc 0) (Suc 0) dr ds (s, w)"
  using assms by (auto simp: acct_defs)

lemma PostReceive_posts:
  assumes P: "PostReceive env (s, w) = (True, s', w')"
  shows "\<exists>b. s' = s\<lparr>m_recvPacketBuffer := Some b, m_ioCount := m_ioCount s + 1\<rparr> \<and> \<not> m_cancelIo s \<and>
    w' = (snd (ask_os w))\<lparr>nw_posted := nw_posted w @ [RecvPosted (m_sessionId s) (the (GetWriteablePtr b)) (GetWriteableSize b)]\<rparr>"
proof -
  obtain b where b: "m_recvPacketBuffer s = Some b" using P by (auto simp: PostReceive_def split: if_splits option.splits)
  have "\<not> m_cancelIo s" using P b by (auto simp: PostReceive_def BeginIO_def Let_def split: if_splits)
  with P b show ?thesis
    by (intro exI [of _ "PrepareWrite b"]) (auto simp: PostReceive_def BeginIO_def Let_def ask_os_def split: if_splits option.splits)
qed

lemma OnConnect_client:
  assumes A: "client_acct h (Suc 0) k (Suc 0) (Suc 0) dr ds (s, w)" and env: "client_asks service env" and C: "OnConnect env (s, w) = (ok, s', w')"
  shows "ok \<Longrightarrow> client_acct h 0 k 0 (Suc 0) dr ds (MarkServiceConnectNotified s', called ServerConnected w')"
    and "\<not> ok \<Longrightarrow> client_acct h (Suc 0) k (Suc 0) (Suc 0) dr ds (s', w')"
proof -
  let ?s = "UpdateLastHeartbeatTick (nw_now w) (UpdateLastRecvTick (nw_now w) (s\<lparr>m_clientSessionState := Client_CONNECTED\<rparr>))"
  have role: "m_sessionRole s = ROLE_CLIENT" using A by (simp add: client_acct_def counts_ok_def)
  have A1: "client_acct h (Suc 0) k (Suc 0) (Suc 0) dr ds (?s, w)" using acct_state [OF A, of Client_CONNECTED] by simp
  have P: "PostReceive env (?s, w) = (ok, s', w')" using C role by (simp add: OnConnect_def Let_def)
  note p = PostReceive_client [OF A1 env P]
  show "\<not> ok \<Longrightarrow> client_acct h (Suc 0) k (Suc 0) (Suc 0) dr ds (s', w')" using p by simp
  assume ok: ok
  have "PostReceive env (?s, w) = (True, s', w')" using P ok by simp
  from PostReceive_posts [OF this] obtain b where b: "s' = ?s\<lparr>m_recvPacketBuffer := Some b, m_ioCount := m_ioCount ?s + 1\<rparr>"
    "w' = (snd (ask_os w))\<lparr>nw_posted := nw_posted w @ [RecvPosted (m_sessionId ?s) (the (GetWriteablePtr b)) (GetWriteableSize b)]\<rparr>"
    by blast
  have r: "Suc dr \<le> recvs 0 (nw_posted w')" using A1 b(2) by (simp add: client_acct_def counts_ok_def)
  from p ok have q: "client_acct h 0 k (Suc 0) (Suc 0) dr ds (s', w')" by simp
  then have so: "m_clientSocket s' \<noteq> None" using r by (auto simp: client_acct_def life_ok_def)
  have t: "told (cl_calls w') = 0" "\<not> m_serviceConnectNotified s'" using q by (auto simp: client_acct_def counts_ok_def)
  have "counts_ok h 0 k 0 (Suc 0) dr ds (MarkServiceConnectNotified s', called ServerConnected w')"
    using q t r by (auto simp: client_acct_def counts_ok_def MarkServiceConnectNotified_def called_def IsTransportConnected_def ring_posted_def)
  moreover have "life_ok (Suc 0) dr ds (MarkServiceConnectNotified s', called ServerConnected w')"
    using q so by (auto simp: client_acct_def life_ok_def MarkServiceConnectNotified_def called_def)
  ultimately show "client_acct h 0 k 0 (Suc 0) dr ds (MarkServiceConnectNotified s', called ServerConnected w')" by (simp add: client_acct_def)
qed

lemma CreatePacket_client:
  "CreatePacket env n w = (r, w') \<Longrightarrow> client_acct h c k u dc dr ds (s, w') = client_acct h c k u dc dr ds (s, w)"
  by (auto simp: CreatePacket_def split: prod.splits)

lemma SendSystemAuthRequest_client:
  assumes A: "client_acct h c k u dc dr ds (s, w)" and dc: "0 < dc" and env: "client_asks service env"
  shows "client_acct h c k u dc dr ds (snd (SendSystemAuthRequest env (s, w)))"
proof -
  obtain r w1 where P: "CreatePacket env sizeof_AUTH_REQUEST w = (r, w1)" by fastforce
  have A1: "client_acct h c k u dc dr ds (s, w1)" using A CreatePacket_client [OF P] by simp
  show ?thesis
  proof (cases "IsTransportConnected s \<and> r \<noteq> None")
    case False then show ?thesis using A A1 P by (auto simp: SendSystemAuthRequest_def)
  next
    case True
    then obtain a where r: "r = Some a" by auto
    let ?s = "s\<lparr>m_clientSessionState := Client_AUTH_PENDING\<rparr>" and ?w = "write_mem a (auth_request_bytes new_auth_request) w1"
    obtain ok x s2 w2 where E: "EnqueueSendPacket env (Some (Some a)) (of_nat sizeof_AUTH_REQUEST) (?s, ?w) = (ok, x, s2, w2)"
      by (cases "EnqueueSendPacket env (Some (Some a)) (of_nat sizeof_AUTH_REQUEST) (?s, ?w)")
    have "client_acct h c k u dc dr ds (?s, ?w)" using acct_state [OF A1] dc by simp
    from EnqueueSendPacket_client [OF this env, of "Some (Some a)" "of_nat sizeof_AUTH_REQUEST"] E
    have A2: "client_acct h c k u dc dr ds (s2, w2)" by simp
    then have "client_acct h c k u dc dr ds (s2\<lparr>m_clientSessionState := Client_CONNECTED\<rparr>, w2)" using dc by (intro acct_state) auto
    then show ?thesis using A2 True P r E by (cases ok) (simp_all add: SendSystemAuthRequest_def)
  qed
qed

lemma send_system_client:
  assumes A: "client_acct h c k u dc dr ds (s, w)" and env: "client_asks service env"
  shows "client_acct h c k u dc dr ds (snd (send_system env bs (s, w)))"
proof -
  obtain r w1 where P: "CreatePacket env (length bs) w = (r, w1)" by fastforce
  have A1: "client_acct h c k u dc dr ds (s, w1)" using A CreatePacket_client [OF P] by simp
  show ?thesis
  proof (cases r)
    case None then show ?thesis using A1 P by (simp add: send_system_def)
  next
    case (Some a)
    obtain ok x s2 w2 where E: "EnqueueSendPacket env (Some (Some a)) (of_nat (length bs)) (s, write_mem a bs w1) = (ok, x, s2, w2)"
      by (cases "EnqueueSendPacket env (Some (Some a)) (of_nat (length bs)) (s, write_mem a bs w1)")
    have "client_acct h c k u dc dr ds (s2, w2)" 
      using EnqueueSendPacket_client [OF _ env, of h c k u dc dr ds s "write_mem a bs w1" "Some (Some a)" "of_nat (length bs)"] A1 E by simp
    then show ?thesis using P Some E by (cases ok) (simp_all add: send_system_def)
  qed
qed

lemma HandleConnect_client:
  assumes A: "client_acct (Suc h) (Suc 0) k (Suc 0) (Suc 0) dr ds (s, w)" and env: "client_asks service env"
  shows "client_acct h 0 k 0 (Suc 0) dr ds (HandleConnect env service (s, w))"
proof -
  have service: "client_service_ok service" using env by (simp add: client_asks_def client_completes_def)
  note D = DecrementIO_client [OF _ client_asks_completes [OF env]]
  have give_up: "client_acct h 0 k 0 (Suc 0) dr ds (DecrementIO env (ev_OnDisconnectRequest env (x, v)))"
    if "client_acct (Suc h) (Suc 0) k (Suc 0) (Suc 0) dr ds (x, v)" for x v
    by (rule D, rule request_client(2) [OF env acct_drop_tell [OF that]])
  obtain ok w1 where O: "os_calls 2 w = (ok, w1)" by fastforce
  have A1: "client_acct (Suc h) (Suc 0) k (Suc 0) (Suc 0) dr ds (s, w1)" using A acct_os_calls [OF O] by simp
  show ?thesis
  proof (cases ok)
    case False then show ?thesis using give_up [OF A1] O by (simp add: HandleConnect_def RunClientConnectSequence_def)
  next
    case True
    let ?w = "if useKeepAlive (m_livenessConfig w1) then snd (ask_os w1) else w1"
    obtain ok2 s2 w2 where C: "OnConnect env (s, ?w) = (ok2, s2, w2)" by (cases "OnConnect env (s, ?w)") auto
    have "client_acct (Suc h) (Suc 0) k (Suc 0) (Suc 0) dr ds (s, ?w)" using A1 by simp
    note oc = OnConnect_client [OF this env C]
    show ?thesis
    proof (cases ok2)
      case False then show ?thesis using give_up [OF oc(2)] O C True by (simp add: HandleConnect_def RunClientConnectSequence_def)
    next
      case ok2: True
      obtain s3 w3 where K: "cs_OnClientConnect service (MarkServiceConnectNotified s2, called ServerConnected w2) = (s3, w3)" by fastforce
      have "client_acct (Suc h) 0 k 0 (Suc 0) dr ds (s3, w3)"
        using client_keepsD [OF _ oc(1) [OF ok2]] service K by (metis client_service_ok_def)
      from SendSystemAuthRequest_client [OF this _ env] 
      have S: "client_acct (Suc h) 0 k 0 (Suc 0) dr ds (snd (SendSystemAuthRequest env (s3, w3)))" by simp
      obtain ok4 s4 w4 where Q: "SendSystemAuthRequest env (s3, w3) = (ok4, s4, w4)" by (cases "SendSystemAuthRequest env (s3, w3)") auto
      show ?thesis using S Q D request_client(1) [OF env] O C True ok2 K
        by (cases ok4) (simp_all add: HandleConnect_def RunClientConnectSequence_def)
    qed
  qed
qed


lemma HandleConnectCancelled_client:
  assumes A: "client_acct (Suc h) c k u dc dr ds (s, w)" and env: "client_asks service env"
  shows "client_acct h 0 k u dc dr ds (HandleConnectCancelled env service e (s, w))"
proof -
  have service: "client_service_ok service" using env by (simp add: client_asks_def client_completes_def)
  note D = DecrementIO_client [OF _ client_asks_completes [OF env]]
  let ?s = "s\<lparr>m_clientSessionState := Client_CONNECT_ABORTED\<rparr>"
  have A1: "client_acct (Suc h) c k u dc dr ds (?s, w)" by (rule acct_state [OF A]) simp
  have A2: "client_acct (Suc h) c k u dc dr ds (?s, called (ConnectionFailed e) w)"
    using A1 by (simp add: client_acct_def counts_ok_def life_ok_def called_def)
  have "client_acct (Suc h) c k u dc dr ds (if e \<noteq> ERROR_OPERATION_ABORTED
      then cs_OnConnectFailed service e (NoteDisconnectReason ConnectFailed ?s, called (ConnectionFailed e) w)
      else (NoteDisconnectReason LocalShutdown ?s, w))"
    using A1 client_keepsD [of "cs_OnConnectFailed service e" "Suc h" c k u dc dr ds "(NoteDisconnectReason ConnectFailed ?s, called (ConnectionFailed e) w)"]
      A2 service by (simp add: client_service_ok_def)
  then show ?thesis unfolding HandleConnectCancelled_def prod.case Let_def by (intro D request_client(2) [OF env])
qed

section \<open>Receiving\<close>

lemma ReadPacket_ring:
  assumes "ring_ok (Some b)" and R: "ReadPacket acquire p b = (res, out, p', b')"
  shows "ring_ok (Some b')"
proof -
  have inv: "rb_inv b" using assms(1) by (simp add: ring_ok_def)
  have "rb_inv b'" using ReadPacket_spec [OF inv R] inv by (auto split: next_packet.splits option.splits prod.splits)
  then show ?thesis using assms(1) ReadPacket_frame(2) [OF R] by (simp add: ring_ok_def)
qed

lemma client_system_packet:
  assumes A: "client_acct h c k u dc dr ds (s, w)" and dc: "0 < dc" and env: "client_asks service env"
  shows "client_acct h c k u dc dr ds (snd (IOCPClient_HandleSystemPacket env service i a n (s, w)))"
proof -
  have service: "client_service_ok service" using env by (simp add: client_asks_def client_completes_def)
  let ?s = "s\<lparr>m_clientSessionState := Client_ESTABLISHED\<rparr>"
  have "client_acct h c k u dc dr ds (?s, called ServerEstablished (w\<lparr>m_clientWatchdog := d\<rparr>))" for d
  proof -
    have "client_acct h c k u dc dr ds (?s, w\<lparr>m_clientWatchdog := d\<rparr>)" using acct_state [OF A] dc by simp
    then show ?thesis by (simp add: client_acct_def counts_ok_def life_ok_def called_def)
  qed
  then have "client_acct h c k u dc dr ds (cs_OnSessionEstablished service (?s, called ServerEstablished (w\<lparr>m_clientWatchdog := d\<rparr>)))" for d
    using client_keepsD service unfolding client_service_ok_def by blast
  moreover have "client_acct h c k u dc dr ds (snd (SendSystemHeartbeatResponse env t (s, w)))" for t
    using A send_system_client [OF A env] by (simp add: SendSystemHeartbeatResponse_def)
  ultimately show ?thesis using A by (simp add: IOCPClient_HandleSystemPacket_def Let_def)
qed

lemma client_recv_next_acct:
  assumes A: "client_acct h (Suc 0) k u dc dr ds (s, w)" and env: "client_asks service env"
  shows "case client_recv_next env service (s, w) of Inl (x, sw) \<Rightarrow> client_acct h (Suc 0) k u dc dr ds sw
    | Inr sw \<Rightarrow> client_acct h (Suc 0) k u dc dr ds sw"
proof -
  have service: "client_service_ok service" using env by (simp add: client_asks_def client_completes_def)
  have dc: "0 < dc" using A by (simp add: client_acct_def counts_ok_def)
  obtain b0 where b0: "m_recvPacketBuffer s = Some b0" "ring_ok (Some b0)" using client_acct_ring [OF A] by (auto simp: ring_ok_def)
  show ?thesis
  proof (cases "rb_IsEmpty b0")
    case True then show ?thesis using A b0 by (simp add: client_recv_next_def)
  next
    case False
    obtain res out p b where R: "ReadPacket (ev_acquire env) (w_packetPool (nw_send w)) b0 = (res, out, p, b)" by (metis prod_cases4)
    let ?a = "fst (the (po_buffer out))" and ?s = "s\<lparr>m_recvPacketBuffer := Some b\<rparr>"
    let ?w1 = "set_send ((nw_send w)\<lparr>w_packetPool := p\<rparr>) w"
    let ?w2 = "write_mem ?a (snd (the (po_buffer out))) ?w1"
    have A1: "client_acct h (Suc 0) k u dc dr ds (?s, ?w1)" using client_acct_set_ring [OF A ReadPacket_ring [OF b0(2) R]] by simp
    then have A2: "client_acct h (Suc 0) k u dc dr ds (?s, ?w2)" by simp
    obtain handled s3 w3 where H: "IOCPClient_HandleSystemPacket env service (po_packetId out) ?a (po_size out) (?s, ?w2) = (handled, s3, w3)"
      by (metis prod_cases3)
    have A3: "client_acct h (Suc 0) k u dc dr ds (s3, w3)"
      using client_system_packet [OF A2 dc env, of "po_packetId out" ?a "po_size out"] H by simp
    have A4: "client_acct h (Suc 0) k u dc dr ds (cs_OnReceive service (po_packetId out) ?a (po_size out) (?s, ?w2))"
      using client_keepsD [OF _ A2] service unfolding client_service_ok_def by blast
    show ?thesis using A1 A3 A4 False
      unfolding client_recv_next_def Let_def prod.case b0(1) option.sel R by (cases res) (simp_all add: H)
  qed
qed

lemma client_recv_loop_acct:
  "client_acct h (Suc 0) k u dc dr ds sw \<Longrightarrow> client_asks service env \<Longrightarrow>
     client_acct h (Suc 0) k u dc dr ds (snd (client_recv_loop n env service sw))"
proof (induction n arbitrary: sw)
  case (Suc n)
  then show ?case using client_recv_next_acct [of h k u dc dr ds "fst sw" "snd sw" service env]
    by (auto split: sum.splits)
qed simp

lemma recv_commits_client:
  assumes "client_acct h c k u dc dr ds (s, w)" and "dr < recvs 0 (nw_posted w)" and "fits_posted 0 bs (nw_posted w)" and "bs \<noteq> []"
  shows "\<exists>b bf. m_recvPacketBuffer s = Some b \<and> CommitWrite (of_nat (length bs)) (deliver bs b) = (True, bf) \<and> ring_ok (Some bf)"
proof -
  have "ring_posted 0 dr s (nw_posted w)" "ring_ok (m_recvPacketBuffer s)" using assms(1) by (simp_all add: client_acct_def counts_ok_def)
  then obtain b buf where b: "m_recvPacketBuffer s = Some b" "rb_inv b" "rb_buffer b = Some buf" "length bs \<le> unat (GetWriteableSize b)"
    using assms(2,3) by (auto simp: ring_posted_def fits_posted_def ring_ok_def)
  with posted_commits [OF b(2-4) assms(4)] show ?thesis by blast
qed

lemma HandleRecv_client:
  assumes A: "client_acct (Suc h) (Suc 0) k u dc dr ds (s, w)" and env: "client_asks service env"
    and room: "n \<noteq> 0 \<Longrightarrow> \<exists>b bf. m_recvPacketBuffer s = Some b \<and> CommitWrite n b = (True, bf) \<and> ring_ok (Some bf)"
  shows "client_acct h 0 k u dc dr ds (IOCPClient_HandleRecv env service n (s, w))"
proof -
  note D = DecrementIO_client [OF _ client_asks_completes [OF env]]
  note give_up = D [OF request_client(2) [OF env]]
  show ?thesis
  proof (cases "n = 0")
    case True
    then show ?thesis using A by (simp add: IOCPClient_HandleRecv_def IOCPClient_HandleSessionDisconnected_def give_up)
  next
    case False
    obtain b bf where b: "m_recvPacketBuffer s = Some b" "CommitWrite n b = (True, bf)" "ring_ok (Some bf)" using room [OF False] by blast
    let ?s = "(UpdateLastRecvTick (nw_now w) s)\<lparr>m_recvPacketBuffer := Some bf\<rparr>"
    have 1: "m_recvPacketBuffer (UpdateLastRecvTick (nw_now w) s) = Some b" using b(1) by (simp add: UpdateLastRecvTick_def)
    obtain d2 s2 w2 where L: "client_recv_loop (Suc (unat (rb_storedSize bf))) env service (?s, w) = (d2, s2, w2)" by (metis prod_cases3)
    have "client_acct (Suc h) (Suc 0) k u dc dr ds (?s, w)" by (rule client_acct_set_ring [OF _ b(3)]) (use A in simp)
    from client_recv_loop_acct [OF this env, of "Suc (unat (rb_storedSize bf))"] L
    have A2: "client_acct (Suc h) (Suc 0) k u dc dr ds (s2, w2)" by simp
    obtain ok s3 w3 where P: "PostReceiveOrPause env (s2, w2) = (ok, s3, w3)" by (metis prod_cases3)
    note A3 = PostReceiveOrPause_client [OF A2 env P]
    have end_ok: "client_acct h 0 k u dc dr ds (DecrementIO env (s2, w2))" if "IsReleasePending s2"
    proof -
      have "m_cancelIo s2" using A2 that by (auto simp: client_acct_def life_ok_def IsReleasePending_def)
      then show ?thesis using D [OF client_acct_drop_link [OF A2]] by blast
    qed
    have e: "IOCPClient_HandleRecv env service n (s, w) =
        (if d2 then DecrementIO env (ev_OnDisconnectRequest env (s2, w2))
         else if IsReleasePending s2 then DecrementIO env (s2, w2)
         else if ok then DecrementIO env (s3, w3)
         else DecrementIO env (ev_OnDisconnectRequest env (NoteDisconnectReason ResourceExhausted s3, w3)))"
      using False by (simp add: IOCPClient_HandleRecv_def 1 b(2) L P del: client_recv_loop.simps)
    show ?thesis using give_up [OF A2] end_ok D [of h 0 k u dc dr ds "(s3, w3)"] A3
        give_up [of h "Suc 0" k u dc dr ds "(NoteDisconnectReason ResourceExhausted s3, w3)"]
      unfolding e by (cases ok) simp_all
  qed
qed

lemma HandleSend_client:
  assumes A: "client_acct (Suc h) c (Suc 0) u dc dr ds (s, w)" and env: "client_asks service env"
  shows "client_acct h c 0 u dc dr ds (IOCPClient_HandleSend env service n (s, w))"
proof -
  have service: "client_service_ok service" using env by (simp add: client_asks_def client_completes_def)
  have role: "m_sessionRole s = ROLE_CLIENT" using A by (simp add: client_acct_def counts_ok_def)
  obtain s1 w1 where K: "cs_OnSend service n (s, w) = (s1, w1)" by fastforce
  have "client_acct (Suc h) c (Suc 0) u dc dr ds (s1, w1)"
    using client_keepsD [OF _ A] service K unfolding client_service_ok_def by metis
  from DecrementIO_client [OF OnSendCompleted_client [OF this env] client_asks_completes [OF env]] role K
  show ?thesis by (simp add: IOCPClient_HandleSend_def)
qed

text \<open>A failed receive or send; an aborted one belongs to a connection that is being ended.\<close>

lemma socket_error_client:
  assumes A: "client_acct (Suc h) c k u dc dr ds (s, w)" and env: "client_asks service env" and op: "op = OP_RECV \<or> op = OP_SEND"
    and ab: "e = ERROR_OPERATION_ABORTED \<Longrightarrow> m_cancelIo s"
  shows "client_acct h 0 0 u dc dr ds (IOCPClient_HandleSocketError env service e op (s, w))"
proof -
  note D = DecrementIO_client [OF _ client_asks_completes [OF env]]
  have A1: "client_acct (Suc h) c 0 u dc dr ds (NoteDisconnectReason SocketError s, w')" if "w' = w \<or> w' = violation w" for w'
    using acct_drop_send [OF A] that by auto
  have "client_acct h 0 0 u dc dr ds (DecrementIO env (s, w))" if "m_cancelIo s"
    by (rule D [OF client_acct_drop_link [OF acct_drop_send [OF A]]]) (simp add: that)
  moreover have "client_acct h 0 0 u dc dr ds (DecrementIO env (ev_OnDisconnectRequest env (NoteDisconnectReason SocketError s, w')))"
    if "w' = w \<or> w' = violation w" for w'
    by (rule D [OF request_client(2) [OF env A1 [OF that]]])
  ultimately show ?thesis using op ab
    by (auto simp: IOCPClient_HandleSocketError_def IOCPClient_HandleRecvCancelled_def IOCPClient_HandleSendCancelled_def)
qed

lemma watchdog_check_client:
  assumes A: "client_acct h c k u dc dr ds (s, w)" and env: "client_asks service env"
  shows "client_acct h c k u dc dr ds (watchdog_check env (s, w))"
proof -
  have "client_acct h c k u dc dr ds (NotifyDisconnect env (NoteDisconnectReason r s, w\<lparr>m_clientWatchdog := d\<rparr>))" for r d
    by (rule NotifyDisconnect_client(1) [OF env]) (use A in simp)
  then show ?thesis using A by (simp add: watchdog_check_def Let_def split: option.split)
qed

end
