(* ===== verification/ClientGuarantees.thy ===== *)
theory ClientGuarantees
  imports ClientRun ServerGuarantees
begin

text \<open>
  What a client that was started guarantees in every state it can reach: the I/O counts, the one close of the socket, the pairing of the service's
  notifications, and a receive chain that never breaks while the connection lives.
\<close>

section \<open>Events\<close>

text \<open>The completions of the connect, the receive and the send; then the service, a drained session, the watchdog, \<open>StopClient\<close> and the clock.\<close>

datatype client_event =
    ConnectDone
  | ConnectError nat
  | RecvDone bytes
  | RecvError nat
  | SendDone u32
  | SendError nat
  | ClientSends addr u32
  | ClientDrained
  | WatchdogTick
  | StopAsked
  | ClientClock u64

type_synonym ('p, 'y) ClientRun = "nat \<times> nat \<times> nat \<times> ('p, 'y) ClientNet"

text \<open>
  One event, on the connects, receives and sends that have completed, the session and the world; \<open>None\<close> when the kernel cannot produce it.
  An aborted receive or send was cancelled, which the engine does after setting \<open>m_cancelIo\<close>.
\<close>

fun client_step ::
  "('p, ('p, 'y) ClientNet) Env \<Rightarrow> ('p, 'y) ClientNet ClientService \<Rightarrow> client_event \<Rightarrow> ('p, 'y) ClientRun \<Rightarrow> ('p, 'y) ClientRun option" where
  "client_step env service ConnectDone (dc, dr, ds, s, w) =
     (if dc < length (cl_connects w)
      then Some (dc + 1, dr, ds, IOCPClient_HandleCompletion env service True (Some OP_CONNECT) 0 None (s, w)) else None)"
| "client_step env service (ConnectError errorCode) (dc, dr, ds, s, w) =
     (if dc < length (cl_connects w)
      then Some (dc + 1, dr, ds, IOCPClient_HandleCompletion env service True (Some OP_CONNECT) 0 (Some errorCode) (s, w)) else None)"
| "client_step env service (RecvDone bs) (dc, dr, ds, s, w) =
     (if dr < recvs 0 (nw_posted w) \<and> fits_posted 0 bs (nw_posted w)
      then Some (dc, dr + 1, ds, IOCPClient_HandleCompletion env service True (Some OP_RECV) (of_nat (length bs)) None
        (s\<lparr>m_recvPacketBuffer := map_option (deliver bs) (m_recvPacketBuffer s)\<rparr>, w)) else None)"
| "client_step env service (RecvError errorCode) (dc, dr, ds, s, w) =
     (if dr < recvs 0 (nw_posted w) \<and> (errorCode = ERROR_OPERATION_ABORTED \<longrightarrow> m_cancelIo s)
      then Some (dc, dr + 1, ds, IOCPClient_HandleCompletion env service True (Some OP_RECV) 0 (Some errorCode) (s, w)) else None)"
| "client_step env service (SendDone n) (dc, dr, ds, s, w) =
     (if ds < sends 0 (nw_posted w)
      then Some (dc, dr, ds + 1, IOCPClient_HandleCompletion env service True (Some OP_SEND) n None (s, w)) else None)"
| "client_step env service (SendError errorCode) (dc, dr, ds, s, w) =
     (if ds < sends 0 (nw_posted w) \<and> (errorCode = ERROR_OPERATION_ABORTED \<longrightarrow> m_cancelIo s)
      then Some (dc, dr, ds + 1, IOCPClient_HandleCompletion env service True (Some OP_SEND) 0 (Some errorCode) (s, w)) else None)"
| "client_step env service (ClientSends a n) (dc, dr, ds, sw) = Some (dc, dr, ds, snd (snd (EnqueueSendPacket env (Some (Some a)) n sw)))"
| "client_step env service ClientDrained (dc, dr, ds, sw) = Some (dc, dr, ds, ResumeReceiveIfDrained env sw)"
| "client_step env service WatchdogTick (dc, dr, ds, sw) = Some (dc, dr, ds, watchdog_check env sw)"
| "client_step env service StopAsked (dc, dr, ds, s, w) =
     Some (dc, dr, ds, ev_OnDisconnectRequest env (NoteDisconnectReason LocalShutdown s, w))"
| "client_step env service (ClientClock now) (dc, dr, ds, s, w) = Some (dc, dr, ds, s, w\<lparr>nw_now := now\<rparr>)"

primrec client_run ::
  "('p, ('p, 'y) ClientNet) Env \<Rightarrow> ('p, 'y) ClientNet ClientService \<Rightarrow> client_event list \<Rightarrow> ('p, 'y) ClientRun \<Rightarrow> ('p, 'y) ClientRun option" where
  "client_run env service [] st = Some st"
| "client_run env service (e # es) st =
     (case client_step env service e st of None \<Rightarrow> None | Some st' \<Rightarrow> client_run env service es st')"

lemma connect_waits:
  assumes "client_acct 0 0 0 0 dc dr ds (s, w)" and "dc < length (cl_connects w)"
  shows "client_acct (Suc 0) (Suc 0) 0 (Suc 0) (Suc dc) dr ds (s, w) \<and> dc = 0"
proof -
  have "dc = 0" "length (cl_connects w) = 1" using assms by (auto simp: client_acct_def counts_ok_def)
  with connect_completes [of dr ds s w] assms(1) show ?thesis by simp
qed

lemma client_recv_completes:
  "client_acct 0 0 0 0 dc dr ds (s, w) \<Longrightarrow> dr < recvs 0 (nw_posted w) \<Longrightarrow> client_acct (Suc 0) (Suc 0) 0 0 dc (Suc dr) ds (s, w)"
  by (auto simp: acct_defs ring_posted_def)

lemma client_send_completes:
  assumes "client_acct 0 0 0 0 dc dr ds (s, w)" and "ds < sends 0 (nw_posted w)"
  shows "client_acct (Suc 0) 0 (Suc 0) 0 dc dr (Suc ds) (s, w)"
proof -
  have "counts_ok (Suc 0) 0 (Suc 0) 0 dc dr (Suc ds) (s, w)" using assms by (simp add: client_acct_def counts_ok_def)
  moreover have "life_ok dc dr (Suc ds) (s, w)" using assms by (auto simp: client_acct_def life_ok_def)
  ultimately show ?thesis by (simp add: client_acct_def)
qed

lemma client_step_ok:
  assumes A: "client_acct 0 0 0 0 dc dr ds (s, w)" and env: "client_asks service env"
    and E: "client_step env service e (dc, dr, ds, s, w) = Some (dc', dr', ds', sw')"
  shows "client_acct 0 0 0 0 dc' dr' ds' sw'"
proof (cases e)
  case ConnectDone
  with E have o: "dc < length (cl_connects w)" and e: "dc' = Suc dc" "dr' = dr" "ds' = ds" "sw' = HandleConnect env service (s, w)"
    by (auto simp: IOCPClient_HandleCompletion_def split: if_splits)
  from connect_waits [OF A o] show ?thesis using HandleConnect_client [OF _ env] by (auto simp: e)
next
  case (ConnectError errorCode)
  let ?w = "if errorCode \<in> set connect_errors then w else violation w"
  from ConnectError E have o: "dc < length (cl_connects w)"
    and e: "dc' = Suc dc" "dr' = dr" "ds' = ds" "sw' = HandleConnectCancelled env service errorCode (s, ?w)"
    by (auto simp: IOCPClient_HandleCompletion_def IOCPClient_HandleSocketError_def split: if_splits)
  have "client_acct (Suc 0) (Suc 0) 0 (Suc 0) (Suc dc) dr ds (s, ?w)" using connect_waits [OF A o] by auto
  from acct_drop_tell [OF HandleConnectCancelled_client [OF this env]] show ?thesis by (simp add: e)
next
  case (RecvDone bs)
  let ?s = "s\<lparr>m_recvPacketBuffer := map_option (deliver bs) (m_recvPacketBuffer s)\<rparr>"
  from RecvDone E have o: "dr < recvs 0 (nw_posted w)" and fit: "fits_posted 0 bs (nw_posted w)"
    and e: "dc' = dc" "dr' = Suc dr" "ds' = ds" "sw' = IOCPClient_HandleRecv env service (of_nat (length bs)) (?s, w)"
    by (auto simp: IOCPClient_HandleCompletion_def split: if_splits)
  obtain b buf where b: "m_recvPacketBuffer s = Some b" "rb_inv b" "rb_buffer b = Some buf" "length bs \<le> unat (GetWriteableSize b)"
    using A o fit by (auto simp: client_acct_def counts_ok_def ring_posted_def fits_posted_def ring_ok_def)
  have "ring_ok (m_recvPacketBuffer ?s)" unfolding ring_ok_def
    by (rule exI [of _ "deliver bs b"], intro conjI) (use deliver_inv [OF b(2-4)] in \<open>simp_all add: b(1)\<close>)
  from client_acct_set_ring [OF client_recv_completes [OF A o] this]
  have A1: "client_acct (Suc 0) (Suc 0) 0 0 dc (Suc dr) ds (?s, w)" by simp
  have "\<exists>b bf. m_recvPacketBuffer ?s = Some b \<and> CommitWrite (of_nat (length bs)) b = (True, bf) \<and> ring_ok (Some bf)"
    if "of_nat (length bs) \<noteq> (0 :: u32)"
  proof -
    have "bs \<noteq> []" using that by auto
    from recv_commits_client [OF A o fit this] show ?thesis by auto
  qed
  from HandleRecv_client [OF A1 env this] show ?thesis by (simp add: e)
next
  case (RecvError errorCode)
  then have o: "dr < recvs 0 (nw_posted w)" and ab: "errorCode = ERROR_OPERATION_ABORTED \<Longrightarrow> m_cancelIo s"
    and e: "dc' = dc" "dr' = Suc dr" "ds' = ds" "sw' = IOCPClient_HandleSocketError env service errorCode OP_RECV (s, w)"
    using E by (auto simp: IOCPClient_HandleCompletion_def split: if_splits)
  from socket_error_client [OF client_recv_completes [OF A o] env _ ab] show ?thesis by (simp add: e)
next
  case (SendDone n)
  then have o: "ds < sends 0 (nw_posted w)" and e: "dc' = dc" "dr' = dr" "ds' = Suc ds" "sw' = IOCPClient_HandleSend env service n (s, w)"
    using E by (auto simp: IOCPClient_HandleCompletion_def split: if_splits)
  from HandleSend_client [OF client_send_completes [OF A o] env] show ?thesis by (simp add: e)
next
  case (SendError errorCode)
  then have o: "ds < sends 0 (nw_posted w)" and ab: "errorCode = ERROR_OPERATION_ABORTED \<Longrightarrow> m_cancelIo s"
    and e: "dc' = dc" "dr' = dr" "ds' = Suc ds" "sw' = IOCPClient_HandleSocketError env service errorCode OP_SEND (s, w)"
    using E by (auto simp: IOCPClient_HandleCompletion_def split: if_splits)
  from socket_error_client [OF client_send_completes [OF A o] env _ ab] show ?thesis by (simp add: e)
next
  case (ClientSends a n)
  then show ?thesis using E EnqueueSendPacket_client [OF A env] by auto
next
  case ClientDrained
  then show ?thesis using E ResumeReceiveIfDrained_client [OF A env] by auto
next
  case WatchdogTick
  then show ?thesis using E watchdog_check_client [OF A env] by auto
next
  case StopAsked
  have "client_acct 0 0 0 0 dc dr ds (NoteDisconnectReason LocalShutdown s, w)" using A by simp
  from request_client(1) [OF env this] show ?thesis using E StopAsked by auto
next
  case (ClientClock now)
  then show ?thesis using E A by auto
qed

section \<open>Reachable states\<close>

text \<open>What \<open>StartClient\<close> is given: nothing has been posted, called or closed.\<close>

definition new_client :: "('p, 'y) ClientWorld_scheme \<Rightarrow> bool" where
  "new_client w \<longleftrightarrow> nw_posted w = [] \<and> cl_calls w = [] \<and> cl_closed w = [] \<and> cl_connects w = []"

lemma os_calls_client: "os_calls n w = (ok, w') \<Longrightarrow> \<exists>m. w' = w\<lparr>nw_calls := m\<rparr>"
proof (induction n arbitrary: w)
  case 0 then show ?case by (auto intro!: exI [of _ "nw_calls w"])
next
  case (Suc n) then show ?case by (fastforce simp: ask_os_def split: option.splits)
qed

lemma Initialize_client:
  assumes "ClientSession_Initialize ev ROLE_CLIENT 0 new_ClientSession = (True, s)"
  shows "m_sessionId s = 0" and "m_sessionRole s = ROLE_CLIENT" and "m_ioCount s = 0" and "\<not> m_recvPaused s" and "\<not> m_cancelIo s"
    and "\<not> m_releasePending s" and "\<not> m_serviceConnectNotified s" and "\<not> m_sending s" and "m_clientSessionState s = Client_CONNECT_READY"
  using assms by (auto simp: ClientSession_Initialize_def BaseSession_Initialize_def set_CONNECT_READY_def new_ClientSession_def
      Let_def split: bool.splits if_splits)

lemma make_client_session_ok:
  assumes "make_client_session env ev alloc config w = (True, s, w')"
  shows "m_sessionId s = 0 \<and> m_sessionRole s = ROLE_CLIENT \<and> m_ioCount s = 0 \<and> \<not> m_recvPaused s \<and> \<not> m_cancelIo s \<and>
      \<not> m_releasePending s \<and> \<not> m_serviceConnectNotified s \<and> \<not> m_sending s \<and> m_clientSessionState s = Client_CONNECT_READY"
    and "m_eventHandler s" and "m_releaseReadyFunc s" and "m_clientSocket s = cl_socket w" and "ring_ok (m_recvPacketBuffer s)"
    and "\<exists>v. w' = set_send v w"
proof -
  obtain s0 where I: "ClientSession_Initialize ev ROLE_CLIENT 0 new_ClientSession = (True, s0)"
    using assms by (auto simp: make_client_session_def split: prod.splits bool.splits)
  obtain s1 where M: "InitializeMemoryPool env alloc True True True config (s0, w) = (True, s1, w')"
    and s: "s = s1\<lparr>m_eventHandler := True, m_releaseReadyFunc := True, m_clientSocket := cl_socket w'\<rparr>"
    using assms I by (auto simp: make_client_session_def split: prod.splits bool.splits)
  obtain b q v where e: "s1 = s0\<lparr>m_bufferConfig := config, m_recvPacketBuffer := Some b,
      m_jobQueue := Some (new_SessionJobQueue (m_sessionRole s0)), m_sendPacketQueue := Some q\<rparr>" "w' = set_send v w" "ring_ok (Some b)"
    by (rule InitializeMemoryPool_sels [OF M])
  show "m_sessionId s = 0 \<and> m_sessionRole s = ROLE_CLIENT \<and> m_ioCount s = 0 \<and> \<not> m_recvPaused s \<and> \<not> m_cancelIo s \<and>
      \<not> m_releasePending s \<and> \<not> m_serviceConnectNotified s \<and> \<not> m_sending s \<and> m_clientSessionState s = Client_CONNECT_READY"
    using Initialize_client [OF I] by (simp add: s e(1))
  show "m_eventHandler s" "m_releaseReadyFunc s" "m_clientSocket s = cl_socket w" "ring_ok (m_recvPacketBuffer s)" "\<exists>v. w' = set_send v w"
    using e(2,3) by (auto simp: s e(1) set_send_def)
qed

lemma StartClient_ok:
  assumes S: "IOCPClient_StartClient env ev alloc sock core pools sched wd pton ip port config live w = (True, Some s, w0)" and n: "new_client w"
  shows "client_acct 0 0 0 0 0 0 0 (s, w0)"
proof -
  obtain x where x: "sock = Some x"
    using S by (cases sock) (auto simp: IOCPClient_StartClient_def CreateConnectSocket_def Let_def split: if_splits)
  obtain y where y: "ip = Some y" using S by (auto simp: IOCPClient_StartClient_def Let_def split: if_splits)
  let ?w3 = "w\<lparr>cl_destroyFlag := False, m_disconnecting := False, m_livenessConfig := live, m_serverIPAddress := y, m_serverPort := port,
    cl_socket := Some x\<rparr>"
  obtain ok5 w5 where B: "BindClientSocket ?w3 = (ok5, w5)" by fastforce
  obtain ok6 w6 where G: "InitializeGUIDConnectEx w5 = (ok6, w6)" by fastforce
  obtain ok7 s7 w7 where M: "make_client_session env ev alloc config w6 = (ok7, s7, w7)" by (metis prod_cases3)
  obtain ok8 s8 w8 where P0: "PrepareConnect env (pton (m_serverIPAddress w7)) (s7, w7\<lparr>m_clientWatchdog := Some (new_ClientWatchdog live)\<rparr>) = (ok8, s8, w8)"
    by (metis prod_cases3)
  have r: "ok5 \<and> ok6 \<and> ok7 \<and> ok8 \<and> s8 = s \<and> w8 = w0"
    using S x y by (auto simp: IOCPClient_StartClient_def CreateConnectSocket_def Let_def B G M P0 split: if_splits bool.splits)
  note B = B [unfolded eqTrueI [OF r [THEN conjunct1]]] and M = M [unfolded eqTrueI [OF r [THEN conjunct2, THEN conjunct2, THEN conjunct1]]]
  have P: "PrepareConnect env (pton (m_serverIPAddress w7)) (s7, w7\<lparr>m_clientWatchdog := Some (new_ClientWatchdog live)\<rparr>) = (True, s, w0)"
    using P0 r by simp
  obtain n5 n6 where w6: "w6 = ?w3\<lparr>nw_calls := n6\<rparr>" 
    using os_calls_client [OF B [unfolded BindClientSocket_def]] os_calls_client [OF G [unfolded InitializeGUIDConnectEx_def]] by auto
  note m = make_client_session_ok [OF M]
  obtain v where w7: "w7 = set_send v w6" using m(6) by blast
  from P have e: "s = (IncrementIO s7)\<lparr>m_clientSessionState := Client_CONNECTING\<rparr>"
      "\<exists>k. w0 = (w7\<lparr>m_clientWatchdog := Some (new_ClientWatchdog live), nw_calls := k\<rparr>)\<lparr>cl_connects := cl_connects w7 @ [cl_socket w7]\<rparr>"
    by (auto simp: PrepareConnect_def PostConnect_def ask_os_def Let_def split: if_splits option.splits)
  then obtain k where w0: "w0 = (w7\<lparr>m_clientWatchdog := Some (new_ClientWatchdog live), nw_calls := k\<rparr>)\<lparr>cl_connects := cl_connects w7 @ [cl_socket w7]\<rparr>"
    by blast
  have "counts_ok 0 0 0 0 0 0 0 (s, w0)"
    using m n by (auto simp: counts_ok_def e(1) w0 w7 w6 new_client_def IncrementIO_def ring_posted_def IsTransportConnected_def told_def
        ended_def recvs_def sends_def set_send_def)
  moreover have "life_ok 0 0 0 (s, w0)"
    using m n x by (auto simp: life_ok_def e(1) w0 w7 w6 new_client_def IncrementIO_def set_send_def recvs_def sends_def)
  ultimately show ?thesis by (simp add: client_acct_def)
qed

inductive client_serves ::
  "('p \<Rightarrow> nat \<Rightarrow> addr option \<times> 'p) \<Rightarrow> ('p \<Rightarrow> addr \<Rightarrow> 'p) \<Rightarrow> ('p, 'y) ClientNet ClientService \<Rightarrow> ('p, 'y) ClientRun \<Rightarrow> bool"
  for acquire release service where
  starts: "client_serves acquire release service (0, 0, 0, s, w0)"
    if "IOCPClient_StartClient (client_env acquire release service) ev alloc sock core pools sched wd pton ip port config live w = (True, Some s, w0)"
      and "new_client w"
| acts: "client_serves acquire release service st'"
    if "client_serves acquire release service st" and "client_step (client_env acquire release service) service e st = Some st'"

lemma client_serves_run:
  assumes "client_serves acquire release service st" and "client_run (client_env acquire release service) service es st = Some st'"
  shows "client_serves acquire release service st'"
  using assms
proof (induction es arbitrary: st)
  case (Cons e es)
  then obtain st1 where "client_step (client_env acquire release service) service e st = Some st1"
      and "client_run (client_env acquire release service) service es st1 = Some st'"
    by (auto split: option.splits)
  with Cons show ?case using client_serves.acts by blast
qed simp

lemma client_serves_ok:
  assumes "client_serves acquire release service st" and "client_service_ok service"
  shows "case st of (dc, dr, ds, sw) \<Rightarrow> client_acct 0 0 0 0 dc dr ds sw"
  using assms(1)
proof induction
  case starts then show ?case using StartClient_ok by fastforce
next
  case (acts st e st')
  obtain dc dr ds s w dc' dr' ds' sw' where "st = (dc, dr, ds, s, w)" "st' = (dc', dr', ds', sw')" by (metis prod_cases5 prod_cases4)
  with acts client_step_ok [OF _ client_env_asks [OF assms(2)]] show ?case by fastforce
qed

section \<open>A small client\<close>

text \<open>The buffers, pools and kernel of the small server, and a service that gives every packet back.\<close>

definition demo_client_world :: "nat ClientWorld" where
  "demo_client_world =
     \<lparr>nw_jobs = nw_jobs demo_world, nw_mem = (\<lambda>_. []), nw_now = 100, nw_answers = (\<lambda>_. None), nw_calls = 0, nw_posted = [], nw_violations = 0,
      cl_destroyFlag = False, m_disconnecting = False, cl_socket = None, m_clientWatchdog = None, m_livenessConfig = new_ClientLivenessConfig,
      m_serverIPAddress = [], m_serverPort = 0, cl_calls = [], cl_closed = [], cl_connects = []\<rparr>"

definition demo_client_service :: "(nat, unit) ClientNet ClientService" where
  "demo_client_service = \<lparr>cs_OnClientConnect = id, cs_OnSessionEstablished = id, cs_OnClientDisconnect = (\<lambda>r. id),
     cs_OnConnectFailed = (\<lambda>e. id), cs_OnReceive = (\<lambda>i a n (s, w). (s, w\<lparr>nw_mem := (nw_mem w)(a := [])\<rparr>)), cs_OnSend = (\<lambda>n. id)\<rparr>"

definition demo_client_env :: "(nat, (nat, unit) ClientNet) Env" where
  "demo_client_env = client_env counting_pool keep_pool demo_client_service"

definition demo_connect :: "bool \<times> ClientSession option \<times> nat ClientWorld" where
  "demo_connect = IOCPClient_StartClient (client_env counting_pool keep_pool demo_client_service) True (\<lambda>n. Some (replicate n 0)) (Some 7) True True
     True True (\<lambda>_. True) (Some ''10.0.0.2'') 4000 demo_config new_ClientLivenessConfig demo_client_world"

definition demo_client_run :: "client_event list \<Rightarrow> (nat, unit) ClientRun option" where
  "demo_client_run es = (case demo_connect of
     (True, Some s, w) \<Rightarrow> client_run demo_client_env demo_client_service es (0, 0, 0, s, w) | _ \<Rightarrow> None)"

text \<open>A client that connects and is accepted by the server; its request is still being sent. Then it is told to stop.\<close>

definition demo_client_events :: "client_event list" where
  "demo_client_events = [ConnectDone, RecvDone (auth_response_bytes new_auth_response)]"

definition demo_stop_events :: "client_event list" where
  "demo_stop_events = demo_client_events @ [StopAsked, RecvError ERROR_OPERATION_ABORTED, SendDone 6]"

lemma demo_client_service_ok: "client_service_ok demo_client_service"
  by (simp add: client_service_ok_def demo_client_service_def client_keeps_def)

lemma demo_client_serves:
  assumes "demo_client_run es = Some st"
  shows "client_serves counting_pool keep_pool demo_client_service st"
proof -
  obtain s w where D: "demo_connect = (True, Some s, w)"
    and R: "client_run (client_env counting_pool keep_pool demo_client_service) demo_client_service es (0, 0, 0, s, w) = Some st"
    using assms by (auto simp: demo_client_run_def demo_client_env_def split: prod.splits bool.splits option.splits)
  have "new_client demo_client_world" by (simp add: new_client_def demo_client_world_def)
  from client_serves_run [OF client_serves.starts [OF D [unfolded demo_connect_def] this] R] show ?thesis .
qed

lemma demo_client_ran:
  obtains dc dr ds s w where "demo_client_run demo_client_events = Some (dc, dr, ds, s, w)" and "told (cl_calls w) = 1" and "\<not> m_cancelIo s"
    and "IsEstablished s" and "cl_calls w = [ServerConnected, ServerEstablished]" and "dr < recvs 0 (nw_posted w)"
proof -
  have "case demo_client_run demo_client_events of None \<Rightarrow> False | Some (dc, dr, ds, s, w) \<Rightarrow> told (cl_calls w) = 1 \<and> \<not> m_cancelIo s \<and>
      IsEstablished s \<and> cl_calls w = [ServerConnected, ServerEstablished] \<and> dr < recvs 0 (nw_posted w)"
    by code_simp
  then show thesis using that by (auto split: option.splits)
qed

lemma demo_stop_ran:
  obtains dc dr ds s w where "demo_client_run demo_stop_events = Some (dc, dr, ds, s, w)" and "cl_closed w = [7]" and "m_disconnecting w"
    and "cl_calls w = [ServerConnected, ServerEstablished, ServerDisconnected LocalShutdown]" and "m_ioCount s = 0"
proof -
  have "case demo_client_run demo_stop_events of None \<Rightarrow> False | Some (dc, dr, ds, s, w) \<Rightarrow> cl_closed w = [7] \<and> m_disconnecting w \<and>
      cl_calls w = [ServerConnected, ServerEstablished, ServerDisconnected LocalShutdown] \<and> m_ioCount s = 0"
    by code_simp
  then show thesis using that by (auto split: option.splits)
qed

section \<open>The guarantees\<close>

lemma client_serves_acct:
  assumes "client_serves acquire release service (dc, dr, ds, s, w)" and "client_service_ok service"
  shows "counts_ok 0 0 0 0 dc dr ds (s, w)" and "life_ok dc dr ds (s, w)"
  using client_serves_ok [OF assms] by (simp_all add: client_acct_def)

text \<open>
  C27. In every state a started client can reach, the I/O count of its session is the number of connects, receives and sends that have not
  completed, and one more while it is paused. It has at most one of each outstanding, no receive while it is paused, and nothing but the connect
  before that has completed.
\<close>

theorem client_accounted:
  assumes "client_serves acquire release service (dc, dr, ds, s, w)" and "client_service_ok service"
  shows "m_ioCount s = int (length (cl_connects w) - dc) + int (recvs 0 (nw_posted w) - dr) + int (sends 0 (nw_posted w) - ds) +
      of_bool (m_recvPaused s) \<and>
    length (cl_connects w) \<le> 1 \<and> recvs 0 (nw_posted w) - dr + of_bool (m_recvPaused s) \<le> 1 \<and>
    sends 0 (nw_posted w) - ds \<le> of_bool (m_sending s) \<and> (dc = 0 \<longrightarrow> recvs 0 (nw_posted w) = 0 \<and> \<not> m_recvPaused s)"
proof -
  note c = client_serves_acct(1) [OF assms]
  have "recvs 0 (nw_posted w) + of_bool (m_recvPaused s) \<le> dr + 1" "sends 0 (nw_posted w) \<le> ds + of_bool (m_sending s)"
    using c by (simp_all add: counts_ok_def)
  then have "recvs 0 (nw_posted w) - dr + of_bool (m_recvPaused s) \<le> 1 \<and> sends 0 (nw_posted w) - ds \<le> of_bool (m_sending s)"
    by (cases "m_recvPaused s") auto
  moreover have "length (cl_connects w) \<le> 1 \<and> (dc = 0 \<longrightarrow> recvs 0 (nw_posted w) = 0 \<and> \<not> m_recvPaused s)" using c by (simp add: counts_ok_def)
  ultimately show ?thesis using counts_sum [OF c] by simp
qed

lemma client_accounted_witness:
  "\<exists>dc dr ds s w. demo_client_run demo_client_events = Some (dc, dr, ds, s, w) \<and>
     (m_ioCount s = int (length (cl_connects w) - dc) + int (recvs 0 (nw_posted w) - dr) + int (sends 0 (nw_posted w) - ds) +
        of_bool (m_recvPaused s) \<and>
      length (cl_connects w) \<le> 1 \<and> recvs 0 (nw_posted w) - dr + of_bool (m_recvPaused s) \<le> 1 \<and>
      sends 0 (nw_posted w) - ds \<le> of_bool (m_sending s) \<and> (dc = 0 \<longrightarrow> recvs 0 (nw_posted w) = 0 \<and> \<not> m_recvPaused s))"
  by (rule demo_client_ran) (use client_accounted [OF demo_client_serves demo_client_service_ok] in blast)

text \<open>
  C28. The socket of a client is closed at most once, and only when the connect, the receive and the send have completed; a disconnect that was
  asked for has closed it as soon as nothing is outstanding. The service is told of the connection at most once, and of its end exactly as often
  once the socket is closed.
\<close>

theorem client_closes_last:
  assumes "client_serves acquire release service (dc, dr, ds, s, w)" and "client_service_ok service"
  shows "length (cl_closed w) \<le> 1 \<and> set (cl_closed w) \<subseteq> set_option (cl_socket w) \<and>
    (cl_closed w \<noteq> [] \<longrightarrow> m_ioCount s = 0 \<and> m_clientSocket s = None \<and> told (cl_calls w) = ended (cl_calls w)) \<and>
    (m_disconnecting w \<and> m_ioCount s = 0 \<longrightarrow> cl_closed w \<noteq> []) \<and> told (cl_calls w) \<le> 1 \<and> ended (cl_calls w) \<le> told (cl_calls w)"
proof -
  note c = client_serves_acct [OF assms]
  note sum = counts_sum [OF c(1)]
  obtain x where x: "cl_socket w = Some x" "cl_closed w = (if m_clientSocket s = None then [x] else [])" using c(2) by (auto simp: life_ok_def)
  have "told (cl_calls w) \<le> 1" "ended (cl_calls w) \<le> told (cl_calls w)" using c(1) by (auto simp: counts_ok_def)
  moreover have "m_ioCount s = 0 \<and> told (cl_calls w) = ended (cl_calls w)" if "m_clientSocket s = None"
    using sum c that by (simp add: life_ok_def counts_ok_def)
  moreover have "m_clientSocket s = None" if "m_disconnecting w" "m_ioCount s = 0" using c(2) that by (auto simp: life_ok_def)
  ultimately show ?thesis using x by auto
qed

lemma client_closes_last_witness:
  "\<exists>dc dr ds s w. demo_client_run demo_stop_events = Some (dc, dr, ds, s, w) \<and> cl_closed w = [7] \<and> m_ioCount s = 0 \<and>
     told (cl_calls w) = ended (cl_calls w) \<and> ended (cl_calls w) \<le> 1"
proof (rule demo_stop_ran)
  fix dc dr ds s w
  assume r: "demo_client_run demo_stop_events = Some (dc, dr, ds, s, w)" and c: "cl_closed w = [7]"
  show ?thesis using client_closes_last [OF demo_client_serves [OF r] demo_client_service_ok] r c by auto
qed

text \<open>
  C29. While a client that has told its service of the connection is not being cancelled, it has exactly one receive outstanding or is paused,
  so that whatever the server sends will be read.
\<close>

theorem connected_client_served:
  assumes "client_serves acquire release service (dc, dr, ds, s, w)" and "client_service_ok service"
    and "ServerConnected \<in> set (cl_calls w)" and "\<not> m_cancelIo s"
  shows "recvs 0 (nw_posted w) - dr + of_bool (m_recvPaused s) = 1"
proof -
  have "0 < told (cl_calls w)" using assms(3) by (auto simp: told_def filter_empty_conv)
  then show ?thesis using client_serves_acct(1) [OF assms(1,2)] assms(4) by (auto simp: counts_ok_def)
qed

lemma connected_client_served_witness:
  "\<exists>dc dr ds s w. demo_client_run demo_client_events = Some (dc, dr, ds, s, w) \<and> recvs 0 (nw_posted w) - dr + of_bool (m_recvPaused s) = 1"
proof (rule demo_client_ran)
  fix dc dr ds s w
  assume r: "demo_client_run demo_client_events = Some (dc, dr, ds, s, w)" and c: "\<not> m_cancelIo s" "cl_calls w = [ServerConnected, ServerEstablished]"
  have "ServerConnected \<in> set (cl_calls w)" by (simp add: c(2))
  from connected_client_served [OF demo_client_serves [OF r] demo_client_service_ok this c(1)] r show ?thesis by blast
qed

end
