(* ===== verification/SessionFrame.thy ===== *)
theory SessionFrame
  imports Session
begin

text \<open>
  What counting, cancelling and sending leave alone: a predicate that survives the updates of single members and the two callbacks survives every
  operation of the session that is built of them.
\<close>

locale session_frame =
  fixes env :: "('p, ('p, 'z) Net) Env" and P :: "('p, 'z) Net \<Rightarrow> bool"
  assumes members: "P (s, w) \<Longrightarrow> P (s\<lparr>m_ioCount := n\<rparr>, w)" "P (s, w) \<Longrightarrow> P (s\<lparr>m_ioCancelCompleteEvent := e\<rparr>, w)"
      "P (s, w) \<Longrightarrow> P (s\<lparr>m_releasePending := b\<rparr>, w)" "P (s, w) \<Longrightarrow> P (s\<lparr>m_cancelIo := b\<rparr>, w)" "P (s, w) \<Longrightarrow> P (s\<lparr>m_recvPaused := b\<rparr>, w)"
      "P (s, w) \<Longrightarrow> P (s\<lparr>m_disconnectReason := d\<rparr>, w)" "P (s, w) \<Longrightarrow> P (s\<lparr>m_sendPacketQueue := q\<rparr>, w)"
      "P (s, w) \<Longrightarrow> P (s\<lparr>m_currentSendPacket := a\<rparr>, w)" "P (s, w) \<Longrightarrow> P (s\<lparr>m_sendOffset := o1\<rparr>, w)" "P (s, w) \<Longrightarrow> P (s\<lparr>m_sending := b\<rparr>, w)"
      "P (s, w) \<Longrightarrow> P (s\<lparr>m_sendRejectLogTick := t\<rparr>, w)" "P (s, w) \<Longrightarrow> P (s\<lparr>m_sendRejectSuppressed := x\<rparr>, w)"
    and world: "P (s, w) \<Longrightarrow> P (s, violation w)" "P (s, w) \<Longrightarrow> P (s, set_send v w)" "P (s, w) \<Longrightarrow> P (s, w\<lparr>nw_calls := k\<rparr>)"
      "P (s, w) \<Longrightarrow> P (s, w\<lparr>nw_posted := ps\<rparr>)" "P (s, w) \<Longrightarrow> P (s, w\<lparr>nw_mem := m\<rparr>)"
    and request: "P sw \<Longrightarrow> P (ev_OnDisconnectRequest env sw)" and ready: "P sw \<Longrightarrow> P (ev_OnReleaseReady env sw)"
begin

lemma small [simp]:
  "P (s, w) \<Longrightarrow> P (SetEvent s, w)" "P (s, w) \<Longrightarrow> P (NoteDisconnectReason d s, w)" "P (s, w) \<Longrightarrow> P (snd (RequestRelease s), w)"
  "P (s, w) \<Longrightarrow> P (s, snd (ask_os w))" "P (s, w) \<Longrightarrow> P (s, write_mem a bs w)" "P (s, w) \<Longrightarrow> P (drop_current env (s, w))"
  "P (s, w) \<Longrightarrow> P (reject rr (s, w))"
  by (auto simp: members world SetEvent_def NoteDisconnectReason_def RequestRelease_def ask_os_def write_mem_def drop_current_def reject_def
      ShouldLogSendReject_def Let_def split: option.split)

lemma decrement: "P sw \<Longrightarrow> P (DecrementIO env sw)"
  by (cases sw) (auto simp: DecrementIO_def Let_def members world intro!: ready)

lemma begins: "P (s, w) \<Longrightarrow> BeginIO env (s, w) = (ok, sw') \<Longrightarrow> P sw'"
  by (auto simp: BeginIO_def Let_def members split: if_splits intro!: decrement)

lemma unposted: "P sw \<Longrightarrow> P (ReleaseUnpostedIO env sw)"
  by (cases sw) (auto simp: ReleaseUnpostedIO_def members intro!: decrement)

lemma cancel: "P (s, w) \<Longrightarrow> CancelPendingIO env (s, w) = (ok, sw') \<Longrightarrow> P sw'"
  by (auto simp: BaseSession_CancelPendingIO_def Let_def ask_os_def members world split: if_splits option.splits intro!: unposted)

lemma notify: "P sw \<Longrightarrow> P (NotifyDisconnect env sw)"
  by (cases sw) (simp add: NotifyDisconnect_def request)

lemma io_failed:
  assumes "P (s, w)"
  shows "P (HandleSocketError env e op (s, w))"
proof -
  obtain s1 w1 where 1: "(if op = OP_SEND then (case drop_current env (s, w) of (s, w) \<Rightarrow> (s\<lparr>m_sendOffset := 0, m_sending := False\<rparr>, w))
      else (s, w)) = (s1, w1)" by fastforce
  obtain s0 w0 where 0: "drop_current env (s, w) = (s0, w0)" by fastforce
  have "P (s0, w0)" using small(6) [OF assms] 0 by simp
  then have p: "P (s1, w1)" using 1 0 assms by (auto simp: members split: if_splits)
  then have "P (NotifyDisconnect env (NoteDisconnectReason SocketError s1, w1))" by (intro notify) simp
  then show ?thesis unfolding HandleSocketError_def 1 Let_def prod.case using p by (auto intro!: decrement)
qed

lemma post_send:
  assumes p: "P (s, w)" and S: "PostCurrentSend env (s, w) = (ok, sw')"
  shows "P sw'"
proof -
  have d: "P (s1, w1)" if "drop_current env (s, w) = (s1, w1)" for s1 w1 using small(6) [OF p] that by simp
  show ?thesis using S p d
    by (auto simp: PostCurrentSend_def Let_def ask_os_def split: if_splits option.splits prod.splits bool.splits
        intro!: members world io_failed dest: begins)
qed

lemma try_send: "P (s, w) \<Longrightarrow> TrySendNext env (s, w) = (ok, sw') \<Longrightarrow> P sw'"
  by (auto simp: TrySendNext_def Let_def members world split: if_splits option.splits prod.splits elim!: post_send [rotated])

lemma try_sent: "P sw \<Longrightarrow> P (snd (TrySendNext env sw))"
  using try_send by (metis prod.collapse)

lemma enqueue: "P (s, w) \<Longrightarrow> EnqueueSendPacket env pd n (s, w) = (ok, pd', sw') \<Longrightarrow> P sw'"
  by (auto simp: EnqueueSendPacket_def Let_def members world split: if_splits option.splits prod.splits bool.splits intro!: try_sent)

lemma create_packet: "P (s, w) \<Longrightarrow> CreatePacket env n w = (r, w') \<Longrightarrow> P (s, w')"
  by (auto simp: CreatePacket_def world split: prod.splits)

lemma send_packet:
  assumes p: "P (s, w)"
  shows "P (snd (send_system env bs (s, w)))"
proof -
  obtain r w1 where C: "CreatePacket env (length bs) w = (r, w1)" by fastforce
  have p1: "P (s, w1)" by (rule create_packet [OF p C])
  show ?thesis
  proof (cases r)
    case None then show ?thesis using p1 C by (simp add: send_system_def)
  next
    case (Some a)
    obtain ok x s2 w2 where E: "EnqueueSendPacket env (Some (Some a)) (of_nat (length bs)) (s, write_mem a bs w1) = (ok, x, s2, w2)"
      by (cases "EnqueueSendPacket env (Some (Some a)) (of_nat (length bs)) (s, write_mem a bs w1)")
    have "P (s2, w2)" by (rule enqueue [OF _ E]) (use p1 in simp)
    then show ?thesis using C Some E by (cases ok) (simp_all add: send_system_def world)
  qed
qed

end

end
