(* ===== verification/ClientConduct.thy ===== *)
theory ClientConduct
  imports ClientGuarantees SessionFrame Dispatch
begin

text \<open>
  How a client behaves: when it believes the server, what it hands to its service, when its watchdog ends a silent connection, that its packet
  loop ends, and what its service is not told.
\<close>

section \<open>Dispatching and authentication\<close>

text \<open>
  A client hands its service only packets of an authenticated session, with an identifier of the service: replacing the hook by one that
  agrees on such packets makes no difference to what a completed receive does.
\<close>

theorem client_dispatch_only_established:
  assumes "\<And>i a n s w. IsEstablished s \<Longrightarrow> IsServicePacketId i \<Longrightarrow> cs_OnReceive service i a n (s, w) = f i a n (s, w)"
  shows "IOCPClient_HandleRecv env service bytesTransferred (s, w) =
    IOCPClient_HandleRecv env (service\<lparr>cs_OnReceive := f\<rparr>) bytesTransferred (s, w)"
proof -
  let ?service' = "service\<lparr>cs_OnReceive := f\<rparr>"
  have S: "IsServicePacketId i" if "IsValidPacketId i" "\<not> IsSystemPacketId i" for i
    using that valid_id_cases by blast
  have "cs_OnSessionEstablished ?service' = cs_OnSessionEstablished service" by simp
  then have H: "IOCPClient_HandleSystemPacket env ?service' = IOCPClient_HandleSystemPacket env service"
    unfolding IOCPClient_HandleSystemPacket_def by (rule arg_cong)
  have N: "client_recv_next env service (s, w) = client_recv_next env ?service' (s, w)" for s w
    using S by (simp add: client_recv_next_def Let_def assms H split: prod.split PacketReadResult.split)
  have "client_recv_loop n env service sw = client_recv_loop n env ?service' sw" for n sw
  proof (induction n arbitrary: sw)
    case (Suc n) then show ?case using N [of "fst sw" "snd sw"] by (simp split: sum.split)
  qed simp
  then have L: "client_recv_loop n env service = client_recv_loop n env ?service'" for n by blast
  show ?thesis unfolding IOCPClient_HandleRecv_def L by (rule refl)
qed

lemma client_dispatch_only_established_witness:
  "IOCPClient_HandleRecv demo_client_env
     (demo_client_service\<lparr>cs_OnReceive := (\<lambda>i a n (s, w). if IsEstablished s \<and> IsServicePacketId i then (s, w) else (s, violation w))\<rparr>) 5
     (new_ClientSession, demo_client_world) =
   IOCPClient_HandleRecv demo_client_env (demo_client_service\<lparr>cs_OnReceive := (\<lambda>i a n sw. sw)\<rparr>) 5 (new_ClientSession, demo_client_world)"
proof -
  let ?f = "\<lambda>(i :: u16) (a :: addr) (n :: u32) (s, w). if IsEstablished s \<and> IsServicePacketId i then (s, w) else (s, violation w)"
  have "IOCPClient_HandleRecv demo_client_env (demo_client_service\<lparr>cs_OnReceive := ?f\<rparr>) 5 (new_ClientSession, demo_client_world) =
      IOCPClient_HandleRecv demo_client_env (demo_client_service\<lparr>cs_OnReceive := ?f, cs_OnReceive := (\<lambda>i a n sw. sw)\<rparr>) 5
        (new_ClientSession, demo_client_world)"
    by (rule client_dispatch_only_established) simp
  then show ?thesis by simp
qed

text \<open>
  C30. A system packet establishes the session of a client only when it is an answer of the right size and protocol version that reports success;
  the service is then told, and the watchdog armed with the interval of the server.
\<close>

theorem established_only_by_response:
  assumes H: "IOCPClient_HandleSystemPacket env service i a n (s, w) = (handled, s', w')" and "m_sessionRole s = ROLE_CLIENT"
    and "IsEstablished s'" and "\<not> IsEstablished s"
  shows "i = SC_SYSTEM_AUTH_RESPONSE \<and> n = 12 \<and> ars_protocolVersion (auth_response_of (nw_mem w a)) = IOCP_ENGINE_PROTOCOL_VERSION \<and>
    ars_authResult (auth_response_of (nw_mem w a)) = auth_code AUTH_SUCCESS \<and> handled \<and>
    (s', w') = cs_OnSessionEstablished service (s\<lparr>m_clientSessionState := Client_ESTABLISHED\<rparr>,
      called ServerEstablished (w\<lparr>m_clientWatchdog :=
        map_option (Arm (ars_heartbeatIntervalMs (auth_response_of (nw_mem w a)))) (m_clientWatchdog w)\<rparr>))"
  using assms by (auto simp: IOCPClient_HandleSystemPacket_def NoteDisconnectReason_def IsEstablished_def Let_def split: if_splits)

lemma established_only_by_response_witness:
  "\<exists>s' w'. IOCPClient_HandleSystemPacket demo_client_env demo_client_service SC_SYSTEM_AUTH_RESPONSE 5 12
       (new_ClientSession\<lparr>m_sessionRole := ROLE_CLIENT\<rparr>, demo_client_world\<lparr>nw_mem := (\<lambda>_. [])(5 := auth_response_bytes new_auth_response)\<rparr>) =
         (True, s', w') \<and> cl_calls w' = [ServerEstablished]"
proof -
  let ?s = "new_ClientSession\<lparr>m_sessionRole := ROLE_CLIENT\<rparr>"
  let ?w = "demo_client_world\<lparr>nw_mem := (\<lambda>_. [])(5 := auth_response_bytes new_auth_response)\<rparr>"
  obtain handled s' w' where H: "IOCPClient_HandleSystemPacket demo_client_env demo_client_service SC_SYSTEM_AUTH_RESPONSE 5 12 (?s, ?w) =
      (handled, s', w')" by (metis prod_cases3)
  have c: "m_sessionRole ?s = ROLE_CLIENT" "\<not> IsEstablished ?s"
    "IsEstablished (fst (snd (IOCPClient_HandleSystemPacket demo_client_env demo_client_service SC_SYSTEM_AUTH_RESPONSE 5 12 (?s, ?w))))"
    by (simp, code_simp, code_simp)
  have "IsEstablished s'" using c(3) H by simp
  from established_only_by_response [OF H c(1) this c(2)]
  have e: "handled" "(s', w') = cs_OnSessionEstablished demo_client_service (?s\<lparr>m_clientSessionState := Client_ESTABLISHED\<rparr>,
      called ServerEstablished (?w\<lparr>m_clientWatchdog := map_option (Arm (ars_heartbeatIntervalMs (auth_response_of (nw_mem ?w 5)))) (m_clientWatchdog ?w)\<rparr>))"
    by blast+
  have "cl_calls w' = [ServerEstablished]" using e(2) by (simp add: demo_client_service_def called_def demo_client_world_def)
  then show ?thesis using H e(1) by auto
qed

text \<open>
  The converse has no condition on the state of the session: an answer that repeats is taken as the first one was, so that one connection can
  be established, and its service told, more than once.
\<close>

text \<open>
  A client accepts every successful answer, whatever its session's state: a server that repeats the answer makes it call the service's
  \<open>OnSessionEstablished\<close> again on a session that is already established.
\<close>

theorem repeated_response_reestablishes:
  assumes "ars_protocolVersion (auth_response_of (nw_mem w a)) = IOCP_ENGINE_PROTOCOL_VERSION"
    and "ars_authResult (auth_response_of (nw_mem w a)) = auth_code AUTH_SUCCESS" and "cs_OnSessionEstablished service = id"
  shows "\<exists>w'. IOCPClient_HandleSystemPacket env service SC_SYSTEM_AUTH_RESPONSE a 12 (s, w) =
      (True, s\<lparr>m_clientSessionState := Client_ESTABLISHED\<rparr>, w') \<and> cl_calls w' = cl_calls w @ [ServerEstablished]"
  using assms by (simp add: IOCPClient_HandleSystemPacket_def Let_def called_def)

lemma repeated_response_reestablishes_witness:
  "\<exists>s w w'. IsEstablished s \<and> cl_calls w = [ServerConnected, ServerEstablished] \<and>
     IOCPClient_HandleSystemPacket demo_client_env demo_client_service SC_SYSTEM_AUTH_RESPONSE 5 12 (s, w :: nat ClientWorld) =
       (True, s\<lparr>m_clientSessionState := Client_ESTABLISHED\<rparr>, w') \<and> cl_calls w' = [ServerConnected, ServerEstablished, ServerEstablished]"
proof (rule demo_client_ran)
  fix dc dr ds s w
  assume e: "IsEstablished s" and c: "cl_calls (w :: nat ClientWorld) = [ServerConnected, ServerEstablished]"
  let ?w = "w\<lparr>nw_mem := (nw_mem w)(5 := auth_response_bytes new_auth_response)\<rparr>"
  have "\<exists>w'. IOCPClient_HandleSystemPacket demo_client_env demo_client_service SC_SYSTEM_AUTH_RESPONSE 5 12 (s, ?w) =
      (True, s\<lparr>m_clientSessionState := Client_ESTABLISHED\<rparr>, w') \<and> cl_calls w' = cl_calls ?w @ [ServerEstablished]"
    by (rule repeated_response_reestablishes) (simp_all add: new_auth_response_def demo_client_service_def)
  then obtain w' where "IOCPClient_HandleSystemPacket demo_client_env demo_client_service SC_SYSTEM_AUTH_RESPONSE 5 12 (s, ?w) =
      (True, s\<lparr>m_clientSessionState := Client_ESTABLISHED\<rparr>, w')" "cl_calls w' = [ServerConnected, ServerEstablished, ServerEstablished]"
    by (auto simp: c)
  then show ?thesis using e c by (intro exI [of _ s] exI [of _ ?w] exI [of _ w']) simp
qed

section \<open>What the callbacks leave alone\<close>

text \<open>A frame of the completing callback alone is one of all callbacks of the client.\<close>

definition completing_env ::
  "('p \<Rightarrow> nat \<Rightarrow> addr option \<times> 'p) \<Rightarrow> ('p \<Rightarrow> addr \<Rightarrow> 'p) \<Rightarrow> ('p, 'y) ClientNet ClientService \<Rightarrow> ('p, ('p, 'y) ClientNet) Env" where
  "completing_env acquire release service =
     \<lparr>ev_acquire = acquire, ev_release = release, ev_OnDisconnectRequest = id, ev_OnReleaseReady = CompleteDisconnect service\<rparr>"

lemma request_frame:
  assumes F: "session_frame (completing_env acquire release service) P" and p: "P (s, w\<lparr>m_disconnecting := True\<rparr>)"
  shows "P (IOCPClient_OnDisconnectRequest (completing_env acquire release service) service (s, w))"
proof (cases "m_disconnecting w")
  case True
  then have "w\<lparr>m_disconnecting := True\<rparr> = w" by simp
  with p have "P (s, w)" by metis
  then show ?thesis using True by (simp add: IOCPClient_OnDisconnectRequest_def)
next
  case False
  let ?e = "completing_env acquire release service" and ?w = "w\<lparr>m_disconnecting := True\<rparr>"
  have ready: "P sw \<Longrightarrow> P (CompleteDisconnect service sw)" for sw using session_frame.ready [OF F, of sw] by (simp add: completing_env_def)
  obtain ok s1 w1 where C: "CancelPendingIO ?e (s, ?w) = (ok, s1, w1)" by (cases "CancelPendingIO ?e (s, ?w)") auto
  have "P (s1, w1)" by (rule session_frame.cancel [OF F p C])
  then have p2: "P (s1, w1)" "P (s1, violation w1)" "P (s, ?w)" using session_frame.world(1) [OF F] p by blast+
  obtain s2 w2 where 2: "(if m_clientSocket s \<noteq> None then (case CancelPendingIO ?e (s, ?w) of (True, sw) \<Rightarrow> sw
      | (False, s', w') \<Rightarrow> (s', violation w')) else (s, ?w)) = (s2, w2)" by fastforce
  have "P (s2, w2)" using 2 p2 C by (auto split: if_splits bool.splits)
  then have "P (snd (RequestRelease s2), w2)" by (rule session_frame.small(3) [OF F])
  then show ?thesis using False ready unfolding IOCPClient_OnDisconnectRequest_def prod.case Let_def 2
    by (auto simp: RequestRelease_def Let_def)
qed

lemma client_frame:
  assumes F: "session_frame (completing_env acquire release service) P" and d: "\<And>s w. P (s, w) \<Longrightarrow> P (s, w\<lparr>m_disconnecting := True\<rparr>)"
  shows "session_frame (client_env acquire release service) P"
proof -
  have ready: "P sw \<Longrightarrow> P (CompleteDisconnect service sw)" for sw using session_frame.ready [OF F, of sw] by (simp add: completing_env_def)
  have request: "P (s, w) \<Longrightarrow> P (IOCPClient_OnDisconnectRequest (completing_env acquire release service) service (s, w))" for s w
    by (rule request_frame [OF F d])
  show ?thesis
    by (intro session_frame.intro session_frame.members [OF F] session_frame.world [OF F])
      (use request [unfolded completing_env_def] ready in \<open>auto simp: client_env_def Let_def\<close>)
qed

text \<open>A service that was not told of a connection is not told of its end: no callback calls a hook, or takes the request back.\<close>

definition untold :: "bool \<Rightarrow> client_call list \<Rightarrow> ('p, 'y) ClientNet \<Rightarrow> bool" where
  "untold asked cs = (\<lambda>(s, w). \<not> m_serviceConnectNotified s \<and> cl_calls w = cs \<and> (asked \<longrightarrow> m_disconnecting w))"

lemma CompleteDisconnect_untold: "untold asked cs sw \<Longrightarrow> untold asked cs (CompleteDisconnect service sw)"
  by (cases sw) (auto simp: untold_def CompleteDisconnect_def DestroyConnectSocket_def DetachSocket_def ConsumeServiceConnectNotified_def
      ClientSession_OnDisconnect_def BaseSession_OnDisconnect_def ClearRemoteAddress_def violation_def Let_def
      split: option.split SESSION_ROLE.split)

interpretation silent_completion: session_frame "completing_env acquire release service" "untold asked cs"
proof unfold_locales
  show "untold asked cs sw \<Longrightarrow> untold asked cs (ev_OnReleaseReady (completing_env acquire release service) sw)" for sw
    using CompleteDisconnect_untold [of asked cs sw service] by (simp add: completing_env_def)
qed (auto simp: untold_def completing_env_def violation_def set_send_def)

interpretation silent: session_frame "client_env acquire release service" "untold asked cs"
  by (rule client_frame [OF silent_completion.session_frame_axioms]) (simp add: untold_def)

text \<open>Hooks that leave the receive ring alone.\<close>

definition ring_kept :: "('p, 'y) ClientNet ClientService \<Rightarrow> bool" where
  "ring_kept service \<longleftrightarrow> (\<forall>sw. m_recvPacketBuffer (fst (cs_OnSessionEstablished service sw)) = m_recvPacketBuffer (fst sw)) \<and>
     (\<forall>r sw. m_recvPacketBuffer (fst (cs_OnClientDisconnect service r sw)) = m_recvPacketBuffer (fst sw)) \<and>
     (\<forall>i a n sw. m_recvPacketBuffer (fst (cs_OnReceive service i a n sw)) = m_recvPacketBuffer (fst sw))"

lemma CompleteDisconnect_ring:
  assumes "ring_kept service"
  shows "m_recvPacketBuffer (fst (CompleteDisconnect service (s, w))) = m_recvPacketBuffer s"
proof -
  obtain s1 w1 where 1: "(if m_clientSocket s \<noteq> None then DestroyConnectSocket (s, w) else (s, w)) = (s1, w1)" by fastforce
  have b1: "m_recvPacketBuffer s1 = m_recvPacketBuffer s" using 1 by (auto simp: DestroyConnectSocket_def DetachSocket_def split: if_splits)
  let ?t = "s1\<lparr>m_serviceConnectNotified := False\<rparr>"
  obtain s2 w2 where 2: "(case ConsumeServiceConnectNotified s1 of (False, s') \<Rightarrow> (s', w1) | (True, s') \<Rightarrow>
      cs_OnClientDisconnect service (m_disconnectReason s') (s', called (ServerDisconnected (m_disconnectReason s')) w1)) = (s2, w2)"
    by fastforce
  have k: "m_recvPacketBuffer (fst (cs_OnClientDisconnect service r (?t, v))) = m_recvPacketBuffer s1" for r v
    using assms unfolding ring_kept_def by simp
  have "m_recvPacketBuffer s2 = m_recvPacketBuffer s1"
  proof (cases "m_serviceConnectNotified s1")
    case True
    then have "(s2, w2) = cs_OnClientDisconnect service (m_disconnectReason ?t) (?t, called (ServerDisconnected (m_disconnectReason ?t)) w1)"
      using 2 by (simp add: ConsumeServiceConnectNotified_def)
    then show ?thesis using k by (metis fst_conv)
  qed (use 2 in \<open>auto simp: ConsumeServiceConnectNotified_def\<close>)
  moreover have "m_recvPacketBuffer (snd (ClientSession_OnDisconnect s2)) = m_recvPacketBuffer s2"
    by (simp add: ClientSession_OnDisconnect_def BaseSession_OnDisconnect_def ClearRemoteAddress_def Let_def split: SESSION_ROLE.split)
  ultimately show ?thesis unfolding CompleteDisconnect_def prod.case 1 2 Let_def by (cases "ClientSession_OnDisconnect s2") (simp add: b1)
qed

lemma client_ring_frame:
  assumes "ring_kept service"
  shows "session_frame (client_env acquire release service) (\<lambda>sw. m_recvPacketBuffer (fst sw) = b)"
proof (rule client_frame, unfold_locales)
  show "m_recvPacketBuffer (fst (ev_OnReleaseReady (completing_env acquire release service) sw)) = b" if "m_recvPacketBuffer (fst sw) = b" for sw
    using CompleteDisconnect_ring [OF assms, of "fst sw" "snd sw"] that by (simp add: completing_env_def)
qed (simp_all add: completing_env_def)

section \<open>The packet loop ends\<close>

lemma client_system_ring:
  assumes k: "ring_kept service"
  shows "m_recvPacketBuffer (fst (snd (IOCPClient_HandleSystemPacket (client_env acquire release service) service i a n (s, w)))) =
    m_recvPacketBuffer s"
proof -
  have h: "m_recvPacketBuffer (fst (cs_OnSessionEstablished service sw)) = m_recvPacketBuffer (fst sw)" for sw
    using k unfolding ring_kept_def by blast
  have r: "m_recvPacketBuffer (fst (snd (send_system (client_env acquire release service) bs (s, w)))) = m_recvPacketBuffer s" for bs
    using session_frame.send_packet [OF client_ring_frame [OF k, of acquire release "m_recvPacketBuffer s"], of s w bs] by simp
  show ?thesis by (simp add: IOCPClient_HandleSystemPacket_def NoteDisconnectReason_def SendSystemHeartbeatResponse_def Let_def h r)
qed

lemma client_recv_next_less:
  assumes N: "client_recv_next (client_env acquire release service) service (s, w) = Inr sw'" and ok: "ring_ok (m_recvPacketBuffer s)"
    and k: "ring_kept service"
  shows "ring_ok (m_recvPacketBuffer (fst sw'))" and "stored_count (fst sw') < stored_count s"
proof -
  let ?env = "client_env acquire release service"
  obtain b0 where b0: "m_recvPacketBuffer s = Some b0" "ring_ok (Some b0)" using ok by (auto simp: ring_ok_def)
  obtain res out p b where R: "ReadPacket (ev_acquire ?env) (w_packetPool (nw_send w)) b0 = (res, out, p, b)" by (metis prod_cases4)
  let ?a = "fst (the (po_buffer out))" and ?s = "s\<lparr>m_recvPacketBuffer := Some b\<rparr>"
  let ?w2 = "write_mem ?a (snd (the (po_buffer out))) (set_send ((nw_send w)\<lparr>w_packetPool := p\<rparr>) w)"
  obtain x s3 w3 where H: "IOCPClient_HandleSystemPacket ?env service (po_packetId out) ?a (po_size out) (?s, ?w2) = (x, s3, w3)" by (metis prod_cases3)
  have h: "m_recvPacketBuffer s3 = Some b"
    using client_system_ring [OF k, of acquire release "po_packetId out" ?a "po_size out" ?s ?w2] H by simp
  have f: "m_recvPacketBuffer (fst (cs_OnReceive service i a n sw)) = m_recvPacketBuffer (fst sw)" for i a n sw
    using k unfolding ring_kept_def by blast
  note n = N [unfolded client_recv_next_def Let_def prod.case b0(1) option.sel, simplified R prod.case H]
  have Ok: "res = Read_Ok" using n by (cases res) (auto split: if_splits)
  have b: "m_recvPacketBuffer (fst sw') = Some b" using n Ok h f [of _ _ _ "(?s, ?w2)"] by (auto split: if_splits)
  have lt: "ring_ok (Some b)" "unat (rb_storedSize b) < unat (rb_storedSize b0)" using ReadPacket_consumes [OF b0(2) R] Ok by simp_all
  show "ring_ok (m_recvPacketBuffer (fst sw'))" and "stored_count (fst sw') < stored_count s"
    using lt by (simp_all add: b b0(1) stored_count_def)
qed

primrec client_recv_exit ::
  "nat \<Rightarrow> ('p, ('p, 'y) ClientNet) Env \<Rightarrow> ('p, 'y) ClientNet ClientService \<Rightarrow> ('p, 'y) ClientNet \<Rightarrow> (bool \<times> ('p, 'y) ClientNet) option" where
  "client_recv_exit 0 env service sw = None"
| "client_recv_exit (Suc n) env service sw =
     (case client_recv_next env service sw of Inl r \<Rightarrow> Some r | Inr sw' \<Rightarrow> client_recv_exit n env service sw')"

lemma client_recv_exit_loop: "client_recv_exit n env service sw = Some r \<Longrightarrow> client_recv_loop n env service sw = r"
  by (induction n arbitrary: sw) (auto split: sum.splits)

lemma client_recv_exit_mono: "client_recv_exit n env service sw = Some r \<Longrightarrow> n \<le> m \<Longrightarrow> client_recv_exit m env service sw = Some r"
proof (induction n arbitrary: m sw)
  case (Suc n)
  then show ?case by (cases m) (auto split: sum.splits)
qed simp

lemma client_recv_exit_returns:
  assumes "ring_ok (m_recvPacketBuffer (fst sw))" and "ring_kept service" and "stored_count (fst sw) < n"
  shows "\<exists>r. client_recv_exit n (client_env acquire release service) service sw = Some r"
  using assms
proof (induction n arbitrary: sw)
  case (Suc n)
  obtain s w where sw: "sw = (s, w)" by fastforce
  show ?case
  proof (cases "client_recv_next (client_env acquire release service) service sw")
    case (Inl r)
    then show ?thesis by (cases r) simp
  next
    case (Inr sw')
    note l = client_recv_next_less [OF Inr [unfolded sw] _ Suc.prems(2)]
    have "\<exists>r. client_recv_exit n (client_env acquire release service) service sw' = Some r"
      by (rule Suc.IH) (use l Suc.prems sw in auto)
    then show ?thesis using Inr by simp
  qed
qed simp

text \<open>
  The packet loop of a completed receive of a client ends: when the hooks leave the ring alone, one of its exits is reached within one round
  more than there are bytes stored in it, and \<open>HandleRecv\<close> goes on with the result of that exit.
\<close>

theorem client_receive_loop_ends:
  assumes "ring_ok (m_recvPacketBuffer s)" and "ring_kept service" and "stored_count s < n"
  shows "client_recv_exit n (client_env acquire release service) service (s, w) =
    Some (client_recv_loop (Suc (stored_count s)) (client_env acquire release service) service (s, w))"
proof -
  have "ring_ok (m_recvPacketBuffer (fst (s, w)))" and "stored_count (fst (s, w)) < Suc (stored_count s)" using assms(1) by simp_all
  from client_recv_exit_returns [OF this(1) assms(2) this(2)]
  obtain r where r: "client_recv_exit (Suc (stored_count s)) (client_env acquire release service) service (s, w) = Some r" by blast
  then show ?thesis using client_recv_exit_mono [OF r, of n] client_recv_exit_loop [OF r] assms(3) by simp
qed

lemma client_receive_loop_ends_witness:
  "client_recv_exit 100 (client_env counting_pool keep_pool demo_client_service) demo_client_service
     (demo_session\<lparr>m_sessionRole := ROLE_CLIENT\<rparr>, demo_client_world) =
   Some (client_recv_loop 7 (client_env counting_pool keep_pool demo_client_service) demo_client_service
     (demo_session\<lparr>m_sessionRole := ROLE_CLIENT\<rparr>, demo_client_world))"
proof -
  let ?s = "demo_session\<lparr>m_sessionRole := ROLE_CLIENT\<rparr>"
  have "rb_inv (snd (CommitWrite 6 (deliver (auth_request_bytes new_auth_request) ring8)))"
    "rb_buffer (snd (CommitWrite 6 (deliver (auth_request_bytes new_auth_request) ring8))) \<noteq> None"
    "unat (rb_storedSize (snd (CommitWrite 6 (deliver (auth_request_bytes new_auth_request) ring8)))) = 6" by code_simp+
  then have "ring_ok (m_recvPacketBuffer ?s)" "stored_count ?s = 6" by (simp_all add: demo_session_def ring_ok_def stored_count_def)
  moreover have "ring_kept demo_client_service" by (simp add: ring_kept_def demo_client_service_def)
  ultimately show ?thesis
    using client_receive_loop_ends [of ?s demo_client_service 100 counting_pool keep_pool demo_client_world] by simp
qed

section \<open>What the service is not told\<close>

text \<open>
  C32. When one of the socket options that follow a connect cannot be set, the service of the client hears nothing: neither the failed connect nor
  the end of the connection is reported, although the client gives the connection up.
\<close>

theorem failed_connect_sequence_silent:
  assumes "client_serves acquire release service (dc, dr, ds, s, w)" and "client_service_ok service"
    and "dc < length (cl_connects w)" and "os_calls 2 w = (False, w1)"
  shows "\<exists>s' w'. client_step (client_env acquire release service) service ConnectDone (dc, dr, ds, s, w) = Some (dc + 1, dr, ds, s', w') \<and>
    cl_calls w' = cl_calls w \<and> ServerConnected \<notin> set (cl_calls w) \<and> m_disconnecting w'"
proof -
  let ?env = "client_env acquire release service"
  have c: "counts_ok 0 0 0 0 dc dr ds (s, w)" by (rule client_serves_acct(1) [OF assms(1,2)])
  have t: "told (cl_calls w) = 0" and n: "\<not> m_serviceConnectNotified s" using c assms(3) by (auto simp: counts_ok_def)
  obtain k where k: "w1 = w\<lparr>nw_calls := k\<rparr>" using os_calls_client [OF assms(4)] by blast
  have e: "client_step ?env service ConnectDone (dc, dr, ds, s, w) =
      Some (dc + 1, dr, ds, DecrementIO ?env (ev_OnDisconnectRequest ?env (s, w1)))"
    using assms(3,4) by (simp add: IOCPClient_HandleCompletion_def HandleConnect_def RunClientConnectSequence_def)
  have "untold True (cl_calls w) (s, w1\<lparr>m_disconnecting := True\<rparr>)" using n k by (simp add: untold_def)
  from request_frame [OF silent_completion.session_frame_axioms this, of acquire release service]
  have "untold True (cl_calls w) (ev_OnDisconnectRequest ?env (s, w1))"
    by (simp add: client_env_def Let_def completing_env_def)
  then have "untold True (cl_calls w) (DecrementIO ?env (ev_OnDisconnectRequest ?env (s, w1)))" by (rule silent.decrement)
  moreover have "ServerConnected \<notin> set (cl_calls w)" using t by (auto simp: told_def filter_empty_conv)
  ultimately show ?thesis unfolding e
    by (cases "DecrementIO ?env (ev_OnDisconnectRequest ?env (s, w1))") (auto simp: untold_def)
qed

lemma failed_connect_sequence_silent_witness:
  "\<exists>s w s' w'. client_step demo_client_env demo_client_service ConnectDone (0, 0, 0, s, w) = Some (1, 0, 0, s', w' :: nat ClientWorld) \<and>
     cl_calls w' = [] \<and> m_disconnecting w'"
proof -
  let ?w = "demo_client_world\<lparr>nw_answers := (\<lambda>k. if k < 5 then None else Some 10038)\<rparr>"
  let ?start = "IOCPClient_StartClient (client_env counting_pool keep_pool demo_client_service) True (\<lambda>n. Some (replicate n 0)) (Some 7) True True
     True True (\<lambda>_. True) (Some ''10.0.0.2'') 4000 demo_config new_ClientLivenessConfig ?w"
  have "case ?start of (ok, None, w) \<Rightarrow> False | (ok, Some s, w) \<Rightarrow> ok \<and> 0 < length (cl_connects w) \<and> fst (os_calls 2 w) = False \<and> cl_calls w = []"
    by code_simp
  then obtain s w where S: "?start = (True, Some s, w)" and c: "0 < length (cl_connects w)" "fst (os_calls 2 w) = False" "cl_calls w = []"
    by (auto split: option.splits prod.splits)
  have "client_serves counting_pool keep_pool demo_client_service (0, 0, 0, s, w)"
    by (rule client_serves.starts [OF S]) (simp add: new_client_def demo_client_world_def)
  from failed_connect_sequence_silent [OF this demo_client_service_ok c(1), of "snd (os_calls 2 w)"] c show ?thesis
    by (auto simp: demo_client_env_def [symmetric] prod_eq_iff)
qed

text \<open>
  A client that could make its socket but not start, because the socket could not be bound for instance, leaves the socket open: stopping it
  closes nothing, since only a session closes the socket.
\<close>

theorem failed_start_leaks_socket:
  assumes S: "IOCPClient_StartClient env ev alloc sock core pools sched wd pton ip port config live w = (False, None, w0)"
    and "new_client w" and x: "cl_socket w0 = Some x" "cl_socket w \<noteq> Some x"
  shows "\<exists>w'. IOCPClient_StopClient env' waits (None, w0) = Some (None, w') \<and> cl_socket w' = Some x \<and> cl_closed w' = []"
proof -
  have "cl_closed w0 = cl_closed w \<and> \<not> cl_destroyFlag w0"
  proof (cases "SessionBufferConfig_IsValid config \<and> ClientLivenessConfig_IsValid live \<and> ip \<noteq> None \<and> ip \<noteq> Some [] \<and> \<not> 22 \<le> length (the ip) \<and>
      core \<and> sock \<noteq> None")
    case False
    then show ?thesis using S by (auto simp: IOCPClient_StartClient_def CreateConnectSocket_def Let_def split: if_splits)
  next
    case True
    then obtain y where y: "ip = Some y" by auto
    let ?w3 = "w\<lparr>cl_destroyFlag := False, m_disconnecting := False, m_livenessConfig := live, m_serverIPAddress := y, m_serverPort := port,
      cl_socket := sock\<rparr>"
    obtain ok5 w5 where B: "BindClientSocket ?w3 = (ok5, w5)" by fastforce
    obtain ok6 w6 where G: "InitializeGUIDConnectEx w5 = (ok6, w6)" by fastforce
    obtain ok7 s7 w7 where M: "make_client_session env ev alloc config w6 = (ok7, s7, w7)" by (metis prod_cases3)
    obtain ok8 s8 w8 where P0: "PrepareConnect env (pton (m_serverIPAddress w7)) (s7, w7\<lparr>m_clientWatchdog := Some (new_ClientWatchdog live)\<rparr>) = (ok8, s8, w8)"
      by (metis prod_cases3)
    have "w0 = w5 \<or> w0 = w6"
      using S True y by (auto simp: IOCPClient_StartClient_def CreateConnectSocket_def Let_def B G M P0 split: if_splits bool.splits)
    then show ?thesis using True os_calls_client [OF B [unfolded BindClientSocket_def]] os_calls_client [OF G [unfolded InitializeGUIDConnectEx_def]]
      by auto
  qed
  then show ?thesis using assms(2) x(1) by (simp add: IOCPClient_StopClient_def new_client_def)
qed

lemma failed_start_leaks_socket_witness:
  "\<exists>w0. IOCPClient_StartClient demo_client_env True (\<lambda>n. Some (replicate n 0)) (Some 7) True True True True (\<lambda>_. True) (Some ''10.0.0.2'') 4000
       demo_config new_ClientLivenessConfig (demo_client_world\<lparr>nw_answers := (\<lambda>_. Some 10048)\<rparr>) = (False, None, w0) \<and>
     (\<exists>w'. IOCPClient_StopClient demo_client_env [] (None, w0) = Some (None, w') \<and> cl_socket w' = Some 7 \<and> cl_closed w' = [])"
proof -
  let ?w = "demo_client_world\<lparr>nw_answers := (\<lambda>_. Some 10048)\<rparr>"
  let ?r = "IOCPClient_StartClient demo_client_env True (\<lambda>n. Some (replicate n 0)) (Some 7) True True True True (\<lambda>_. True) (Some ''10.0.0.2'') 4000
       demo_config new_ClientLivenessConfig ?w"
  have g: "\<exists>w0. r = (False, None, w0) \<and> cl_socket w0 = Some 7" if "fst r = False" "fst (snd r) = None" "cl_socket (snd (snd r)) = Some 7"
    for r :: "bool \<times> ClientSession option \<times> nat ClientWorld" using that by (cases r) auto
  have "fst ?r = False" "fst (snd ?r) = None" "cl_socket (snd (snd ?r)) = Some 7" by code_simp+
  then obtain w0 where r: "?r = (False, None, w0)" and c: "cl_socket w0 = Some 7" using g by blast
  have "new_client ?w" "cl_socket ?w \<noteq> Some 7" by (simp_all add: new_client_def demo_client_world_def)
  from failed_start_leaks_socket [OF r this(1) c this(2)] show ?thesis using r by blast
qed

section \<open>The watchdog\<close>

lemma watchdog_run_append:
  "watchdog_run env xs sw = (False, sw') \<Longrightarrow> watchdog_run env (xs @ ys) sw = watchdog_run env ys sw'"
  by (induction xs arbitrary: sw) (auto split: prod.splits wait_result.splits)

text \<open>A wait that times out when nothing happens meanwhile, and the tick up to which the client is known to have listened.\<close>

definition quiet_wait :: "u32 \<Rightarrow> ('p, 'y) ClientNet \<Rightarrow> wait_result \<times> ('p, 'y) ClientNet" where
  "quiet_wait ms = (\<lambda>(s, w). (WAIT_TIMEOUT, s, w\<lparr>nw_now := nw_now w + ucast ms\<rparr>))"

definition listening_since :: "ClientSession \<Rightarrow> ClientWatchdog \<Rightarrow> u64" where
  "listening_since s d = (if m_lastRecvTick s > m_resumeBaselineTick d then m_lastRecvTick s else m_resumeBaselineTick d)"

lemma watchdog_check_armed:
  assumes "m_clientWatchdog w = Some d" and "m_idleTimeout_ms d \<noteq> 0" and "IsEstablished s" and "\<not> m_recvPaused s"
    and "listening_since s d \<noteq> 0" and "listening_since s d \<le> nw_now w"
  shows "watchdog_check env (s, w) =
    (if unat (nw_now w) < unat (listening_since s d) + unat (m_idleTimeout_ms d) then (s, w)
     else NotifyDisconnect env (NoteDisconnectReason IdleTimeout s, w\<lparr>m_clientWatchdog := Some (d\<lparr>m_idleTimeout_ms := 0, m_fired := True\<rparr>)\<rparr>))"
proof -
  have "nw_now w - listening_since s d < m_idleTimeout_ms d \<longleftrightarrow> unat (nw_now w) < unat (listening_since s d) + unat (m_idleTimeout_ms d)"
    using unat_sub [OF assms(6)] assms(6) by (auto simp: word_less_nat_alt word_le_nat_alt)
  then show ?thesis using assms unfolding watchdog_check_def Let_def prod.case by (auto simp: listening_since_def [symmetric])
qed

lemma watchdog_wait_bounds: "250 \<le> unat (watchdog_wait_ms t) \<and> unat (watchdog_wait_ms t) \<le> 5000"
proof (cases "t div 4 < 250 \<or> 5000 < t div 4")
  case True then show ?thesis by (auto simp: watchdog_wait_ms_def Let_def)
next
  case False
  then have b: "250 \<le> unat (t div 4)" "unat (t div 4) \<le> 5000" by (auto simp: word_less_nat_alt word_le_nat_alt not_less)
  then have "unat (ucast (t div 4) :: u32) = unat (t div 4)" by (simp add: unsigned_ucast_eq take_bit_nat_eq_self)
  then show ?thesis using b False by (auto simp: watchdog_wait_ms_def Let_def)
qed

lemma unat_add_64: "unat x + m < 2 ^ 64 \<Longrightarrow> unat ((x :: u64) + of_nat m) = unat x + m"
  by (simp add: unat_word_ariths unat_of_nat)

text \<open>The waits of a watchdog whose session stays silent, up to the one after which the timeout has passed.\<close>

lemma watchdog_quiet:
  assumes d: "m_clientWatchdog w = Some d" "m_idleTimeout_ms d \<noteq> 0" and s: "IsEstablished s" "\<not> m_recvPaused s"
    and l: "listening_since s d \<noteq> 0" "listening_since s d \<le> nw_now w"
    and small: "unat (listening_since s d) + unat (m_idleTimeout_ms d) < 2 ^ 64"
  shows "k = 0 \<or> unat (nw_now w) + k * unat (watchdog_wait_ms (m_idleTimeout_ms d)) < unat (listening_since s d) + unat (m_idleTimeout_ms d) \<Longrightarrow>
    watchdog_run env (replicate k quiet_wait) (s, w) =
      (False, s, w\<lparr>nw_now := nw_now w + of_nat (k * unat (watchdog_wait_ms (m_idleTimeout_ms d)))\<rparr>)"
proof (induction k)
  case 0 then show ?case by simp
next
  case (Suc k)
  let ?W = "watchdog_wait_ms (m_idleTimeout_ms d)"
  let ?t = "nw_now w + of_nat (Suc k * unat ?W)"
  have lt: "unat (nw_now w) + Suc k * unat ?W < unat (listening_since s d) + unat (m_idleTimeout_ms d)" using Suc.prems by simp
  have u: "unat ?t = unat (nw_now w) + Suc k * unat ?W" by (rule unat_add_64) (use lt small in simp)
  have le: "listening_since s d \<le> ?t" using l(2) u by (simp add: word_le_nat_alt)
  have IH: "watchdog_run env (replicate k quiet_wait) (s, w) = (False, s, w\<lparr>nw_now := nw_now w + of_nat (k * unat ?W)\<rparr>)"
    by (rule Suc.IH) (use lt in simp)
  have "watchdog_check env (s, w\<lparr>nw_now := ?t\<rparr>) = (s, w\<lparr>nw_now := ?t\<rparr>)"
    using watchdog_check_armed [of "w\<lparr>nw_now := ?t\<rparr>" d s env] d s l(1) le u lt by simp
  then have "watchdog_run env [quiet_wait] (s, w\<lparr>nw_now := nw_now w + of_nat (k * unat ?W)\<rparr>) = (False, s, w\<lparr>nw_now := ?t\<rparr>)"
    using d by (simp add: quiet_wait_def algebra_simps)
  then show ?case using watchdog_run_append [OF IH, of "[quiet_wait]"] by (simp add: replicate_append_same)
qed

text \<open>
  C31. An armed watchdog ends a connection that has been silent for the timeout, and no earlier: however its waits fall, it notices the silence
  within one wait of the timeout, which is a quarter of the timeout and between 250 and 5000 milliseconds.
\<close>

theorem silence_noticed:
  assumes d: "m_clientWatchdog w = Some d" "m_idleTimeout_ms d \<noteq> 0" and s: "IsEstablished s" "\<not> m_recvPaused s"
    and l: "listening_since s d \<noteq> 0" "listening_since s d \<le> nw_now w"
    and now: "unat (nw_now w) < unat (listening_since s d) + unat (m_idleTimeout_ms d)"
    and small: "unat (listening_since s d) + unat (m_idleTimeout_ms d) + 5000 < 2 ^ 64"
  shows "\<exists>n t. watchdog_run env (replicate n quiet_wait) (s, w) = (False, NotifyDisconnect env (NoteDisconnectReason IdleTimeout s,
        w\<lparr>nw_now := t, m_clientWatchdog := Some (d\<lparr>m_idleTimeout_ms := 0, m_fired := True\<rparr>)\<rparr>)) \<and>
      unat (listening_since s d) + unat (m_idleTimeout_ms d) \<le> unat t \<and>
      unat t < unat (listening_since s d) + unat (m_idleTimeout_ms d) + unat (watchdog_wait_ms (m_idleTimeout_ms d)) \<and>
      (\<forall>k<n. \<exists>u. watchdog_run env (replicate k quiet_wait) (s, w) = (False, s, w\<lparr>nw_now := u\<rparr>))"
proof -
  let ?W = "unat (watchdog_wait_ms (m_idleTimeout_ms d))" and ?due = "unat (listening_since s d) + unat (m_idleTimeout_ms d)"
  have W: "250 \<le> ?W" "?W \<le> 5000" using watchdog_wait_bounds by blast+
  define n where "n = (LEAST n. ?due \<le> unat (nw_now w) + n * ?W)"
  have "?due \<le> unat (nw_now w) + ?due * ?W" using W(1) by (simp add: trans_le_add2)
  then have n: "?due \<le> unat (nw_now w) + n * ?W" unfolding n_def by (rule LeastI)
  have before: "unat (nw_now w) + k * ?W < ?due" if "k < n" for k
    using not_less_Least [OF that [unfolded n_def]] by simp
  have "n \<noteq> 0" using n now by (intro notI) simp
  then obtain m where m: "n = Suc m" by (cases n) auto
  let ?t = "nw_now w + of_nat (n * ?W)"
  have lt: "unat (nw_now w) + n * ?W < ?due + ?W" using before [of m] m by simp
  have u: "unat ?t = unat (nw_now w) + n * ?W" by (rule unat_add_64) (use lt W small in linarith)
  note quiet = watchdog_quiet [OF d s l, of _ env]
  have q: "watchdog_run env (replicate k quiet_wait) (s, w) = (False, s, w\<lparr>nw_now := nw_now w + of_nat (k * ?W)\<rparr>)" if "k < n" for k
    by (rule quiet) (use small before [OF that] in simp_all)
  have le: "listening_since s d \<le> ?t" using l(2) u by (simp add: word_le_nat_alt)
  have c: "watchdog_check env (s, w\<lparr>nw_now := ?t\<rparr>) = NotifyDisconnect env (NoteDisconnectReason IdleTimeout s,
      w\<lparr>nw_now := ?t, m_clientWatchdog := Some (d\<lparr>m_idleTimeout_ms := 0, m_fired := True\<rparr>)\<rparr>)"
    using watchdog_check_armed [of "w\<lparr>nw_now := ?t\<rparr>" d s env] d s l(1) le u n by simp
  have "watchdog_run env [quiet_wait] (s, w\<lparr>nw_now := nw_now w + of_nat (m * ?W)\<rparr>) = (False, watchdog_check env (s, w\<lparr>nw_now := ?t\<rparr>))"
    using d by (simp add: quiet_wait_def m algebra_simps)
  then have "watchdog_run env (replicate n quiet_wait) (s, w) = (False, watchdog_check env (s, w\<lparr>nw_now := ?t\<rparr>))"
    using watchdog_run_append [OF q [of m], of "[quiet_wait]"] m by (simp add: replicate_append_same)
  then show ?thesis using c n lt u q by (intro exI [of _ n] exI [of _ ?t]) auto
qed

definition demo_watchdog :: ClientWatchdog where
  "demo_watchdog = new_ClientWatchdog new_ClientLivenessConfig\<lparr>m_idleTimeout_ms := 15000\<rparr>"

definition demo_listener :: ClientSession where
  "demo_listener = new_ClientSession\<lparr>m_sessionRole := ROLE_CLIENT, m_clientSessionState := Client_ESTABLISHED, m_lastRecvTick := 50\<rparr>"

lemma silence_noticed_witness:
  "\<exists>n t. watchdog_run demo_client_env (replicate n quiet_wait) (demo_listener, demo_client_world\<lparr>m_clientWatchdog := Some demo_watchdog\<rparr>) =
     (False, NotifyDisconnect demo_client_env (NoteDisconnectReason IdleTimeout demo_listener, demo_client_world\<lparr>m_clientWatchdog := Some demo_watchdog,
        nw_now := t, m_clientWatchdog := Some (demo_watchdog\<lparr>m_idleTimeout_ms := 0, m_fired := True\<rparr>)\<rparr>)) \<and>
     15050 \<le> unat t \<and> unat t < 18800"
proof -
  have l: "listening_since demo_listener demo_watchdog = 50" "m_idleTimeout_ms demo_watchdog = 15000" "watchdog_wait_ms 15000 = 3750" "IsEstablished demo_listener"
    "\<not> m_recvPaused demo_listener" "nw_now (demo_client_world\<lparr>m_clientWatchdog := Some demo_watchdog\<rparr>) = 100" by code_simp+
  show ?thesis
    using silence_noticed [of "demo_client_world\<lparr>m_clientWatchdog := Some demo_watchdog\<rparr>" demo_watchdog demo_listener demo_client_env] l
    by (auto simp del: ClientWorld.update_convs)
qed

end
