(* ===== verification/SlabPool.thy ===== *)
theory SlabPool
  imports BlockPool
begin

text \<open>
  \<open>Memory/SlabMemoryPool\<close>: the pool that \<open>EngineMemoryPool.h\<close> can select instead of \<open>TlsMemoryPool\<close>. Each slab has one size of blocks, one
  lock, and a free list through the block headers; it grows by regions of the process heap. An operation runs under the lock of its slab and is
  atomic. \<open>OS\<close> gives the answers of the process heap, as in the other pool.
\<close>

section \<open>State\<close>

record SlabHeader =
  sh_bucketIndex :: u32
  sh_magic :: u32
  sh_next :: "addr option"

definition HEADER_MAGIC :: u32 where "HEADER_MAGIC = 0xDEADBEEF"
definition MEMORY_ALIGNMENT :: u64 where "MEMORY_ALIGNMENT = 16"

text \<open>\<open>sl_extraMemoryBlocks\<close> is the part of the table in use, \<open>extraMemoryCount\<close> is its length, \<open>sl_extraTable\<close> where the table lies.\<close>

record Slab =
  sl_freeList :: "addr option"
  sl_allocatedCount :: u32
  sl_blockSize :: u32
  sl_stride :: u32
  sl_blockCount :: u32
  sl_initialMemory :: "addr option"
  sl_extraTable :: "addr option"
  sl_extraMemoryBlocks :: "addr list"
  sl_extraMemoryCapacity :: nat
  sl_peakAllocated :: u32
  sl_growthCount :: u32
  sl_acquireFailCount :: u32
  sl_totalAcquire :: u64
  sl_totalRelease :: u64

definition new_Slab :: Slab where
  "new_Slab = \<lparr>sl_freeList = None, sl_allocatedCount = 0, sl_blockSize = 0, sl_stride = 0, sl_blockCount = 0, sl_initialMemory = None,
     sl_extraTable = None, sl_extraMemoryBlocks = [], sl_extraMemoryCapacity = 0, sl_peakAllocated = 0, sl_growthCount = 0,
     sl_acquireFailCount = 0, sl_totalAcquire = 0, sl_totalRelease = 0\<rparr>"

text \<open>
  \<open>sp_heap\<close> holds the headers written by the pool, \<open>sp_regions\<close> what it has allocated from the process heap and not freed, \<open>sp_violations\<close>
  counts the reports that break into the debugger.
\<close>

record SlabMemoryPool =
  sp_table :: "addr option"
  sp_slabs :: "Slab list"
  sp_initialized :: bool
  sp_heap :: "addr \<Rightarrow> SlabHeader option"
  sp_regions :: "(addr \<times> nat) list"
  sp_violations :: nat

definition new_SlabMemoryPool :: SlabMemoryPool where
  "new_SlabMemoryPool = \<lparr>sp_table = None, sp_slabs = [], sp_initialized = False, sp_heap = (\<lambda>_. None), sp_regions = [], sp_violations = 0\<rparr>"

definition upd_slab :: "nat \<Rightarrow> (Slab \<Rightarrow> Slab) \<Rightarrow> SlabMemoryPool \<Rightarrow> SlabMemoryPool" where
  "upd_slab i f s = s\<lparr>sp_slabs := (sp_slabs s)[i := f (sp_slabs s ! i)]\<rparr>"

definition slab_links :: "(addr \<Rightarrow> SlabHeader option) \<Rightarrow> links" where
  "slab_links h a = (case h a of None \<Rightarrow> None | Some k \<Rightarrow> sh_next k)"

section \<open>The process heap\<close>

text \<open>A request for no bytes gets an address of its own, as \<open>HeapAlloc\<close> does it.\<close>

definition slab_HeapAlloc :: "OS \<Rightarrow> nat \<Rightarrow> SlabMemoryPool \<Rightarrow> addr option \<times> SlabMemoryPool" where
  "slab_HeapAlloc os n s = (case HeapAlloc os (sp_regions s) (max 1 n) of
     None \<Rightarrow> (None, s)
   | Some a \<Rightarrow> (Some a, s\<lparr>sp_regions := (a, max 1 n) # sp_regions s\<rparr>))"

definition slab_HeapFree :: "addr option \<Rightarrow> SlabMemoryPool \<Rightarrow> SlabMemoryPool" where
  "slab_HeapFree p s = (case p of None \<Rightarrow> s
     | Some a \<Rightarrow> s\<lparr>sp_regions := filter (\<lambda>r. fst r \<noteq> a) (sp_regions s),
                   sp_heap := (\<lambda>x. if in_regions (filter (\<lambda>r. fst r = a) (sp_regions s)) x then None else sp_heap s x)\<rparr>)"

section \<open>Operations\<close>

definition AlignUp :: "u64 \<Rightarrow> u64 \<Rightarrow> u64" where
  "AlignUp memorySize alignment = (memorySize + (alignment - 1)) AND NOT (alignment - 1)"

text \<open>\<open>sizeof(BlockHeader)\<close> is 16, \<open>sizeof(Slab)\<close> is 128.\<close>

definition slab_headerSize :: u64 where
  "slab_headerSize = AlignUp 16 MEMORY_ALIGNMENT"

definition slab_stride :: "u32 \<Rightarrow> u32" where
  "slab_stride blockSize = ucast (slab_headerSize + AlignUp (ucast blockSize) MEMORY_ALIGNMENT)"

text \<open>The loop that cuts a region into blocks and puts them on the free list, the same in \<open>Initialize\<close> and \<open>AllocateExtraBlocks\<close>.\<close>

primrec slab_carve ::
  "u32 \<Rightarrow> nat \<Rightarrow> nat \<Rightarrow> addr \<Rightarrow> addr option \<times> (addr \<Rightarrow> SlabHeader option) \<Rightarrow> addr option \<times> (addr \<Rightarrow> SlabHeader option)" where
  "slab_carve slabIndex stride 0 cursor st = st"
| "slab_carve slabIndex stride (Suc n) cursor st =
     slab_carve slabIndex stride n (cursor + stride)
       (Some cursor, (snd st)(cursor \<mapsto> \<lparr>sh_bucketIndex = slabIndex, sh_magic = HEADER_MAGIC, sh_next = fst st\<rparr>))"

definition carve_region :: "nat \<Rightarrow> u32 \<Rightarrow> addr \<Rightarrow> SlabMemoryPool \<Rightarrow> SlabMemoryPool" where
  "carve_region i blockCount memory s =
     (case slab_carve (of_nat i) (unat (sl_stride (sp_slabs s ! i))) (unat blockCount) memory (sl_freeList (sp_slabs s ! i), sp_heap s) of
        (fl, h) \<Rightarrow> upd_slab i (\<lambda>b. b\<lparr>sl_freeList := fl\<rparr>) (s\<lparr>sp_heap := h\<rparr>))"

text \<open>One configuration is a block size and a block count.\<close>

definition make_slab :: "u32 \<times> u32 \<Rightarrow> Slab" where
  "make_slab c = new_Slab\<lparr>sl_blockSize := fst c, sl_blockCount := snd c, sl_stride := slab_stride (fst c)\<rparr>"

primrec slab_init_loop :: "OS \<Rightarrow> nat \<Rightarrow> (u32 \<times> u32) list \<Rightarrow> SlabMemoryPool \<Rightarrow> bool \<times> SlabMemoryPool" where
  "slab_init_loop os i [] s = (True, s)"
| "slab_init_loop os i (c # cs) s =
     (case slab_HeapAlloc os (unat (slab_stride (fst c)) * unat (snd c)) (upd_slab i (\<lambda>_. make_slab c) s) of
        (None, s1) \<Rightarrow> (False, s1)
      | (Some memory, s1) \<Rightarrow>
          slab_init_loop os (Suc i) cs (carve_region i (snd c) memory (upd_slab i (\<lambda>b. b\<lparr>sl_initialMemory := Some memory\<rparr>) s1)))"

text \<open>
  \<open>Initialize\<close>; \<open>slabCount\<close> is the length of \<open>configs\<close>, a null pointer is \<open>None\<close>. The alignment that is asked for is only compared for a log line.
\<close>

definition slab_Initialize :: "OS \<Rightarrow> (u32 \<times> u32) list option \<Rightarrow> SlabMemoryPool \<Rightarrow> bool \<times> SlabMemoryPool" where
  "slab_Initialize os configs s =
     (case configs of None \<Rightarrow> (False, s)
      | Some cs \<Rightarrow>
          if cs = [] \<or> sp_initialized s then (False, s)
          else
            (case slab_HeapAlloc os (128 * length cs) s of
               (None, s1) \<Rightarrow> (False, s1\<lparr>sp_table := None\<rparr>)
             | (Some m_slabs, s1) \<Rightarrow>
                 (case slab_init_loop os 0 cs (s1\<lparr>sp_table := Some m_slabs, sp_slabs := replicate (length cs) new_Slab\<rparr>) of
                    (False, s2) \<Rightarrow> (False, s2)
                  | (True, s2) \<Rightarrow> (True, s2\<lparr>sp_initialized := True\<rparr>))))"

definition VerifyAllMemoryReleased :: "SlabMemoryPool \<Rightarrow> bool" where
  "VerifyAllMemoryReleased s \<longleftrightarrow> list_all (\<lambda>b. sl_allocatedCount b = 0) (sp_slabs s)"

text \<open>What \<open>Finalize\<close> frees for a slab: the initial region, the extra regions, the table of the extra regions.\<close>

definition slab_memory :: "Slab \<Rightarrow> addr option list" where
  "slab_memory b = sl_initialMemory b # (case sl_extraTable b of None \<Rightarrow> [] | Some t \<Rightarrow> map Some (sl_extraMemoryBlocks b) @ [Some t])"

definition slab_Finalize :: "SlabMemoryPool \<Rightarrow> SlabMemoryPool" where
  "slab_Finalize s =
     (if \<not> sp_initialized s then s
      else
        (let s1 = (if VerifyAllMemoryReleased s then s else s\<lparr>sp_violations := sp_violations s + 1\<rparr>);
             s2 = fold slab_HeapFree (concat (map slab_memory (sp_slabs s1))) s1;
             s3 = slab_HeapFree (sp_table s2) s2
         in s3\<lparr>sp_table := None, sp_slabs := [], sp_initialized := False\<rparr>))"

text \<open>\<open>UINT32_MAX\<close> is \<open>None\<close>.\<close>

primrec slab_scan :: "u64 \<Rightarrow> Slab list \<Rightarrow> nat \<Rightarrow> nat option" where
  "slab_scan memorySize [] slabId = None"
| "slab_scan memorySize (b # bs) slabId =
     (if ucast (sl_blockSize b) \<ge> memorySize then Some slabId else slab_scan memorySize bs (Suc slabId))"

definition FindSlabIndex :: "u64 \<Rightarrow> SlabMemoryPool \<Rightarrow> nat option" where
  "FindSlabIndex memorySize s = slab_scan memorySize (sp_slabs s) 0"

text \<open>The table of extra regions, when it has no room for another: a new one of twice the size, and the old one is freed.\<close>

definition grow_extra_table :: "OS \<Rightarrow> nat \<Rightarrow> SlabMemoryPool \<Rightarrow> bool \<times> SlabMemoryPool" where
  "grow_extra_table os i s =
     (let b = sp_slabs s ! i in
      if length (sl_extraMemoryBlocks b) \<ge> sl_extraMemoryCapacity b
      then (let newCapacity = (if sl_extraMemoryCapacity b = 0 then 4 else sl_extraMemoryCapacity b * 2)
            in case slab_HeapAlloc os (8 * newCapacity) s of
                 (None, s1) \<Rightarrow> (False, s1)
               | (Some newArray, s1) \<Rightarrow>
                   (True, upd_slab i (\<lambda>b. b\<lparr>sl_extraTable := Some newArray, sl_extraMemoryCapacity := newCapacity\<rparr>)
                            (slab_HeapFree (sl_extraTable b) s1)))
      else (True, s))"

definition AllocateExtraBlocks :: "OS \<Rightarrow> nat \<Rightarrow> u32 \<Rightarrow> SlabMemoryPool \<Rightarrow> bool \<times> SlabMemoryPool" where
  "AllocateExtraBlocks os i blockCount s =
     (case slab_HeapAlloc os (unat (sl_stride (sp_slabs s ! i)) * unat blockCount) s of
        (None, s1) \<Rightarrow> (False, s1)
      | (Some memory, s1) \<Rightarrow>
          (case grow_extra_table os i s1 of
             (False, s2) \<Rightarrow> (False, slab_HeapFree (Some memory) s2)
           | (True, s2) \<Rightarrow>
               (True, carve_region i blockCount memory
                        (upd_slab i (\<lambda>b. b\<lparr>sl_extraMemoryBlocks := sl_extraMemoryBlocks b @ [memory]\<rparr>) s2))))"

text \<open>The part of \<open>Acquire\<close> that takes a block off the free list.\<close>

definition slab_take :: "nat \<Rightarrow> SlabMemoryPool \<Rightarrow> addr option \<times> SlabMemoryPool" where
  "slab_take i s =
     (case sl_freeList (sp_slabs s ! i) of
        None \<Rightarrow> (None, s)
      | Some header \<Rightarrow>
          (Some (header + unat slab_headerSize),
           upd_slab i (\<lambda>b. b\<lparr>sl_freeList := slab_links (sp_heap s) header, sl_allocatedCount := sl_allocatedCount b + 1,
                             sl_totalAcquire := sl_totalAcquire b + 1,
                             sl_peakAllocated := (if sl_allocatedCount b + 1 > sl_peakAllocated b then sl_allocatedCount b + 1
                                                  else sl_peakAllocated b)\<rparr>) s))"

definition slab_Acquire :: "OS \<Rightarrow> u64 \<Rightarrow> SlabMemoryPool \<Rightarrow> addr option \<times> SlabMemoryPool" where
  "slab_Acquire os sz s =
     (if \<not> sp_initialized s \<or> sz = 0 then (None, s)
      else
        (case FindSlabIndex sz s of
           None \<Rightarrow> (None, s)
         | Some i \<Rightarrow>
             if sl_freeList (sp_slabs s ! i) = None
             then (case AllocateExtraBlocks os i (sl_blockCount (sp_slabs s ! i)) s of
                     (False, s1) \<Rightarrow> (None, upd_slab i (\<lambda>b. b\<lparr>sl_acquireFailCount := sl_acquireFailCount b + 1\<rparr>) s1)
                   | (True, s1) \<Rightarrow> slab_take i (upd_slab i (\<lambda>b. b\<lparr>sl_growthCount := sl_growthCount b + 1\<rparr>) s1))
             else slab_take i s))"

text \<open>A payload without a header of this pool before it is one whose magic number does not match.\<close>

definition slab_Release :: "addr option \<Rightarrow> SlabMemoryPool \<Rightarrow> SlabMemoryPool" where
  "slab_Release payload s =
     (case payload of
        None \<Rightarrow> s
      | Some a \<Rightarrow>
          (let header = a - unat slab_headerSize in
           case sp_heap s header of
             None \<Rightarrow> s\<lparr>sp_violations := sp_violations s + 1\<rparr>
           | Some k \<Rightarrow>
               if sh_magic k \<noteq> HEADER_MAGIC then s\<lparr>sp_violations := sp_violations s + 1\<rparr>
               else
                 (let i = unat (sh_bucketIndex k) in
                  if i \<ge> length (sp_slabs s) then s\<lparr>sp_violations := sp_violations s + 1\<rparr>
                  else if sl_allocatedCount (sp_slabs s ! i) = 0 then s\<lparr>sp_violations := sp_violations s + 1\<rparr>
                  else upd_slab i (\<lambda>b. b\<lparr>sl_freeList := Some header, sl_allocatedCount := sl_allocatedCount b - 1,
                                         sl_totalRelease := sl_totalRelease b + 1\<rparr>)
                         (s\<lparr>sp_heap := (sp_heap s)(header \<mapsto> k\<lparr>sh_next := sl_freeList (sp_slabs s ! i)\<rparr>)\<rparr>))))"

text \<open>\<open>GetSlabStats\<close>: block size, block count, blocks out, peak, growths, failures, acquisitions, releases.\<close>

definition GetSlabStats :: "nat \<Rightarrow> SlabMemoryPool \<Rightarrow> (u32 \<times> u32 \<times> u32 \<times> u32 \<times> u32 \<times> u32 \<times> u64 \<times> u64) option" where
  "GetSlabStats slabIndex s =
     (if \<not> sp_initialized s \<or> slabIndex \<ge> length (sp_slabs s) then None
      else (let b = sp_slabs s ! slabIndex
            in Some (sl_blockSize b, sl_blockCount b, sl_allocatedCount b, sl_peakAllocated b, sl_growthCount b, sl_acquireFailCount b,
                     sl_totalAcquire b, sl_totalRelease b)))"

section \<open>The invariant\<close>

definition blocks :: "SlabMemoryPool \<Rightarrow> nat \<Rightarrow> addr set" where
  "blocks s i = {x. \<exists>k. sp_heap s x = Some k \<and> unat (sh_bucketIndex k) = i}"

definition width :: "SlabMemoryPool \<Rightarrow> SlabHeader \<Rightarrow> nat" where
  "width s k = unat (sl_stride (sp_slabs s ! unat (sh_bucketIndex k)))"

text \<open>Regions of the process heap do not overlap and are not empty.\<close>

definition regions_ok :: "(addr \<times> nat) list \<Rightarrow> bool" where
  "regions_ok rs \<longleftrightarrow> (\<forall>a m b n. (a, m) \<in> set rs \<longrightarrow> (b, n) \<in> set rs \<longrightarrow> 0 < m \<and> (a < b \<longrightarrow> a + m \<le> b) \<and> (a = b \<longrightarrow> m = n))"

definition free_of_headers :: "(addr \<Rightarrow> SlabHeader option) \<Rightarrow> (addr \<times> nat) list \<Rightarrow> addr \<Rightarrow> bool" where
  "free_of_headers h rs a \<longleftrightarrow> (\<forall>m x. (a, m) \<in> set rs \<longrightarrow> a \<le> x \<longrightarrow> x < a + m \<longrightarrow> h x = None)"

text \<open>
  Each header lies with its whole block in a region, blocks do not overlap, the first \<open>n\<close> slabs are made, and the free list of slab \<open>i\<close> is
  \<open>F i\<close>: blocks of that slab, the others are counted by \<open>allocatedCount\<close>.
\<close>

definition heap_sound :: "nat \<Rightarrow> SlabMemoryPool \<Rightarrow> bool" where
  "heap_sound n s \<longleftrightarrow> finite (dom (sp_heap s)) \<and> regions_ok (sp_regions s) \<and>
     (\<forall>x k. sp_heap s x = Some k \<longrightarrow> sh_magic k = HEADER_MAGIC \<and> unat (sh_bucketIndex k) < n \<and>
        (\<exists>(b, m) \<in> set (sp_regions s). b \<le> x \<and> x + width s k \<le> b + m)) \<and>
     (\<forall>x y k l. sp_heap s x = Some k \<longrightarrow> sp_heap s y = Some l \<longrightarrow> x < y \<longrightarrow> x + width s k \<le> y)"

definition slab_ok :: "SlabMemoryPool \<Rightarrow> (nat \<Rightarrow> addr list) \<Rightarrow> nat \<Rightarrow> bool" where
  "slab_ok s F i \<longleftrightarrow>
     chain (slab_links (sp_heap s)) (sl_freeList (sp_slabs s ! i)) (F i) \<and> set (F i) \<subseteq> blocks s i \<and>
     sl_allocatedCount (sp_slabs s ! i) = of_nat (card (blocks s i - set (F i))) \<and>
     sl_totalAcquire (sp_slabs s ! i) - sl_totalRelease (sp_slabs s ! i) = of_nat (card (blocks s i - set (F i))) \<and>
     (sl_extraTable (sp_slabs s ! i) = None \<longrightarrow> sl_extraMemoryBlocks (sp_slabs s ! i) = [] \<and> sl_extraMemoryCapacity (sp_slabs s ! i) = 0) \<and>
     (\<forall>t. sl_extraTable (sp_slabs s ! i) = Some t \<longrightarrow> free_of_headers (sp_heap s) (sp_regions s) t)"

definition slab_inv :: "nat \<Rightarrow> (nat \<Rightarrow> addr list) \<Rightarrow> SlabMemoryPool \<Rightarrow> bool" where
  "slab_inv n F s \<longleftrightarrow> n \<le> length (sp_slabs s) \<and> length (sp_slabs s) < 2 ^ 32 \<and> heap_sound n s \<and>
     (\<forall>i < length (sp_slabs s). slab_ok s F i) \<and>
     (\<forall>i < n. 16 + unat (sl_blockSize (sp_slabs s ! i)) \<le> unat (sl_stride (sp_slabs s ! i)))"

text \<open>The headers of the blocks that are handed out.\<close>

definition out_blocks :: "(nat \<Rightarrow> addr list) \<Rightarrow> SlabMemoryPool \<Rightarrow> addr set" where
  "out_blocks F s = {x. \<exists>k. sp_heap s x = Some k \<and> x \<notin> set (F (unat (sh_bucketIndex k)))}"

text \<open>What stays the same when a pool grows or hands out blocks.\<close>

definition slab_frame :: "SlabMemoryPool \<Rightarrow> SlabMemoryPool \<Rightarrow> bool" where
  "slab_frame s s' \<longleftrightarrow> length (sp_slabs s') = length (sp_slabs s) \<and> sp_table s' = sp_table s \<and> sp_initialized s' = sp_initialized s \<and>
     sp_violations s' = sp_violations s \<and>
     (\<forall>i < length (sp_slabs s). sl_blockSize (sp_slabs s' ! i) = sl_blockSize (sp_slabs s ! i) \<and>
        sl_stride (sp_slabs s' ! i) = sl_stride (sp_slabs s ! i)) \<and>
     (\<forall>x k. sp_heap s x = Some k \<longrightarrow> (\<exists>k'. sp_heap s' x = Some k' \<and> sh_bucketIndex k' = sh_bucketIndex k))"

lemma slab_frame_refl [simp]: "slab_frame s s"
  by (auto simp: slab_frame_def)

lemma slab_frame_trans: "slab_frame s s1 \<Longrightarrow> slab_frame s1 s2 \<Longrightarrow> slab_frame s s2"
  unfolding slab_frame_def by fastforce

lemma upd_slab_sels [simp]:
  "sp_heap (upd_slab i f s) = sp_heap s" "sp_regions (upd_slab i f s) = sp_regions s" "sp_initialized (upd_slab i f s) = sp_initialized s"
  "sp_violations (upd_slab i f s) = sp_violations s" "sp_table (upd_slab i f s) = sp_table s"
  "length (sp_slabs (upd_slab i f s)) = length (sp_slabs s)"
  "j \<noteq> i \<Longrightarrow> sp_slabs (upd_slab i f s) ! j = sp_slabs s ! j"
  "i < length (sp_slabs s) \<Longrightarrow> sp_slabs (upd_slab i f s) ! i = f (sp_slabs s ! i)"
  by (simp_all add: upd_slab_def)

lemma upd_slab_nth:
  "i < length (sp_slabs s) \<Longrightarrow> sp_slabs (upd_slab i f s) ! j = (if j = i then f (sp_slabs s ! i) else sp_slabs s ! j)"
  by simp

section \<open>Strides\<close>

lemma slab_headerSize [simp]: "slab_headerSize = 16"
  by code_simp

lemma AlignUp_unat:
  assumes "unat v + 16 \<le> 2 ^ 64"
  shows "unat (AlignUp v MEMORY_ALIGNMENT) = (unat v + 15) div 16 * 16"
proof -
  have "AlignUp v MEMORY_ALIGNMENT = AlignUpSize v MEMORY_ALIGNMENT" by (simp add: AlignUp_def AlignUpSize_def)
  then show ?thesis using AlignUpSize_unat [of MEMORY_ALIGNMENT 4 v] assms by (simp add: MEMORY_ALIGNMENT_def)
qed

text \<open>The stride has room for the header and the block, unless it wraps.\<close>

lemma slab_stride_room:
  assumes "unat sz \<le> 2 ^ 32 - 32"
  shows "16 + unat sz \<le> unat (slab_stride sz)"
proof -
  let ?a = "(unat sz + 15) div 16 * 16"
  have v: "unat (ucast sz :: u64) = unat sz" by (simp add: unat_ucast_64)
  have a: "unat (AlignUp (ucast sz) MEMORY_ALIGNMENT) = ?a" using assms v by (subst AlignUp_unat) simp_all
  have r: "unat sz \<le> ?a" "?a \<le> 2 ^ 32 - 32" using assms by simp_all
  have "unat (slab_headerSize + AlignUp (ucast sz) MEMORY_ALIGNMENT) = 16 + ?a"
    using a r(2) by (subst unat_add_small) simp_all
  then have "unat (slab_stride sz) = 16 + ?a"
    using r(2) by (simp add: slab_stride_def unsigned_ucast_eq take_bit_eq_mod)
  with r(1) show ?thesis by simp
qed

section \<open>The process heap and the invariant\<close>

lemma slab_HeapAlloc_cases:
  assumes "slab_HeapAlloc os n s = (r, s1)"
  obtains "r = None" and "s1 = s"
  | a where "r = Some a" and "s1 = s\<lparr>sp_regions := (a, max 1 n) # sp_regions s\<rparr>" and "fresh_region (sp_regions s) a (max 1 n)"
  using assms by (auto simp: slab_HeapAlloc_def HeapAlloc_def split: option.splits if_splits)

lemma regions_ok_Cons:
  assumes "regions_ok rs" and "fresh_region rs a n" and "0 < n"
  shows "regions_ok ((a, n) # rs)"
proof -
  have f: "a + n \<le> b \<or> b + m \<le> a" if "(b, m) \<in> set rs" for b m using fresh_regionD [OF assms(2) that] .
  have p: "0 < m" if "(b, m) \<in> set rs" for b m using assms(1) that unfolding regions_ok_def by blast
  have new: "a \<noteq> b \<and> (a < b \<longrightarrow> a + n \<le> b) \<and> (b < a \<longrightarrow> b + m \<le> a)" if "(b, m) \<in> set rs" for b m
    using f [OF that] p [OF that] assms(3) by linarith
  show ?thesis
    unfolding regions_ok_def
  proof (intro allI impI)
    fix x k y l assume "(x, k) \<in> set ((a, n) # rs)" and "(y, l) \<in> set ((a, n) # rs)"
    then consider "(x, k) = (a, n)" "(y, l) = (a, n)" | "(x, k) = (a, n)" "(y, l) \<in> set rs" | "(x, k) \<in> set rs" "(y, l) = (a, n)"
      | "(x, k) \<in> set rs" "(y, l) \<in> set rs" by auto
    then show "0 < k \<and> (x < y \<longrightarrow> x + k \<le> y) \<and> (x = y \<longrightarrow> k = l)"
    proof cases
      case 4
      then show ?thesis using assms(1) by (simp add: regions_ok_def)
    qed (use new p assms(3) in fastforce)+
  qed
qed

lemma regions_ok_subset: "regions_ok rs \<Longrightarrow> set rs' \<subseteq> set rs \<Longrightarrow> regions_ok rs'"
  unfolding regions_ok_def by blast

lemma width_regions [simp]: "width (s\<lparr>sp_regions := rs\<rparr>) k = width s k" "width (s\<lparr>sp_heap := h\<rparr>) k = width s k"
  by (simp_all add: width_def)

lemma slab_invD:
  assumes "slab_inv n F s" and "sp_heap s x = Some k"
  shows "sh_magic k = HEADER_MAGIC" and "unat (sh_bucketIndex k) < n" and "unat (sh_bucketIndex k) < length (sp_slabs s)"
    and "\<exists>b m. (b, m) \<in> set (sp_regions s) \<and> b \<le> x \<and> x + width s k \<le> b + m" and "16 \<le> width s k"
proof -
  show "sh_magic k = HEADER_MAGIC" and i: "unat (sh_bucketIndex k) < n"
    and "\<exists>b m. (b, m) \<in> set (sp_regions s) \<and> b \<le> x \<and> x + width s k \<le> b + m"
    using assms by (fastforce simp: slab_inv_def heap_sound_def)+
  show "unat (sh_bucketIndex k) < length (sp_slabs s)" using assms(1) i by (simp add: slab_inv_def)
  have "16 + unat (sl_blockSize (sp_slabs s ! unat (sh_bucketIndex k))) \<le> width s k" using assms(1) i by (simp add: slab_inv_def width_def)
  then show "16 \<le> width s k" by simp
qed

lemma block_outside:
  assumes "slab_inv n F s" and "fresh_region (sp_regions s) a m" and "sp_heap s x = Some k"
  shows "x + width s k \<le> a \<or> a + m \<le> x"
proof -
  obtain b l where b: "(b, l) \<in> set (sp_regions s)" "b \<le> x" "x + width s k \<le> b + l" using slab_invD(4) [OF assms(1,3)] by blast
  with fresh_regionD [OF assms(2) b(1)] show ?thesis by linarith
qed

lemma fresh_new_address:
  assumes "slab_inv n F s" and "fresh_region (sp_regions s) a m" and "0 < m"
  shows "a \<notin> fst ` set (sp_regions s)"
proof -
  have "0 < l" if "(b, l) \<in> set (sp_regions s)" for b l
    using assms(1) that unfolding slab_inv_def heap_sound_def regions_ok_def by blast
  with fresh_regionD [OF assms(2)] assms(3) show ?thesis by fastforce
qed

lemma fresh_free_of_headers:
  assumes "slab_inv n F s" and "fresh_region (sp_regions s) a m" and "0 < m"
  shows "free_of_headers (sp_heap s) ((a, m) # sp_regions s) a"
  unfolding free_of_headers_def
proof (intro allI impI)
  fix l x assume l: "(a, l) \<in> set ((a, m) # sp_regions s)" and x: "a \<le> x" "x < a + l"
  have p: "0 < l'" if "(a, l') \<in> set (sp_regions s)" for l'
    using assms(1) that unfolding slab_inv_def heap_sound_def regions_ok_def by blast
  have "l = m" using l fresh_regionD [OF assms(2)] p assms(3) by fastforce
  show "sp_heap s x = None"
  proof (cases "sp_heap s x")
    case (Some k)
    then show ?thesis using block_outside [OF assms(1,2) Some] slab_invD(5) [OF assms(1) Some] x \<open>l = m\<close> by linarith
  qed simp
qed

lemma slab_inv_alloc:
  assumes I: "slab_inv n F s" and f: "fresh_region (sp_regions s) a m" and m: "0 < m"
  shows "slab_inv n F (s\<lparr>sp_regions := (a, m) # sp_regions s\<rparr>)"
proof -
  have "slab_ok (s\<lparr>sp_regions := (a, m) # sp_regions s\<rparr>) F i" if i: "i < length (sp_slabs s)" for i
  proof -
    have ok: "slab_ok s F i" using I i by (simp add: slab_inv_def)
    have "free_of_headers (sp_heap s) ((a, m) # sp_regions s) t" if t: "free_of_headers (sp_heap s) (sp_regions s) t" for t
      using fresh_free_of_headers [OF I f m] t by (fastforce simp: free_of_headers_def)
    with ok show ?thesis by (auto simp: slab_ok_def blocks_def)
  qed
  moreover have "heap_sound n (s\<lparr>sp_regions := (a, m) # sp_regions s\<rparr>)"
    using I regions_ok_Cons [OF _ f m] by (fastforce simp: slab_inv_def heap_sound_def)
  ultimately show ?thesis using I by (simp add: slab_inv_def)
qed

text \<open>Freeing memory that holds no blocks.\<close>

lemma HeapFree_clear:
  assumes "free_of_headers (sp_heap s) (sp_regions s) a"
  shows "slab_HeapFree (Some a) s = s\<lparr>sp_regions := filter (\<lambda>r. fst r \<noteq> a) (sp_regions s)\<rparr>"
proof -
  have "(if in_regions (filter (\<lambda>r. fst r = a) (sp_regions s)) x then None else sp_heap s x) = sp_heap s x" for x
    using assms by (auto simp: in_regions_def free_of_headers_def)
  then show ?thesis by (simp add: slab_HeapFree_def)
qed

lemma slab_inv_free:
  assumes I: "slab_inv n F s" and f: "free_of_headers (sp_heap s) (sp_regions s) a"
  shows "slab_inv n F (slab_HeapFree (Some a) s)"
proof -
  let ?s = "s\<lparr>sp_regions := filter (\<lambda>r. fst r \<noteq> a) (sp_regions s)\<rparr>"
  have other: "b \<noteq> a" if k: "sp_heap s x = Some k" and b: "(b, m) \<in> set (sp_regions s)" "b \<le> x" "x + width s k \<le> b + m" for x k b m
    using f b slab_invD(5) [OF I k] k by (auto simp: free_of_headers_def)
  have "\<exists>(b, m) \<in> set (sp_regions ?s). b \<le> x \<and> x + width s k \<le> b + m" if "sp_heap s x = Some k" for x k
    using slab_invD(4) [OF I that] other [OF that] by fastforce
  then have "heap_sound n ?s"
    using I regions_ok_subset [of "sp_regions s" "sp_regions ?s"] by (fastforce simp: slab_inv_def heap_sound_def)
  moreover have "slab_ok ?s F i" if "i < length (sp_slabs s)" for i
    using I that by (fastforce simp: slab_inv_def slab_ok_def blocks_def free_of_headers_def)
  ultimately have "slab_inv n F ?s" using I by (simp add: slab_inv_def)
  then show ?thesis using HeapFree_clear [OF f] by simp
qed

section \<open>Cutting a region into blocks\<close>

lemma stride_positions_range:
  "x \<in> stride_positions c st n \<Longrightarrow> c \<le> x \<and> x + st \<le> c + st * n"
proof -
  assume "x \<in> stride_positions c st n"
  then obtain j where j: "j < n" "x = c + st * j" by (auto simp: stride_positions_def)
  then have "st * Suc j \<le> st * n" by (intro mult_le_mono2) simp
  with j show ?thesis by simp
qed

lemma stride_positions_apart:
  assumes "x \<in> stride_positions c st n" and "y \<in> stride_positions c st n" and "x < y"
  shows "x + st \<le> y"
proof -
  obtain i j where ij: "x = c + st * i" "y = c + st * j" using assms(1,2) by (auto simp: stride_positions_def)
  with assms(3) have "i < j" by simp
  then have "st * Suc i \<le> st * j" by (intro mult_le_mono2) simp
  with ij show ?thesis by simp
qed

lemma slab_carve_spec:
  assumes "slab_carve i st n c (fl, h) = (fl', h')" and "0 < st" and "chain (slab_links h) fl xs" and "set xs \<subseteq> dom h"
    and "\<And>x. x \<in> stride_positions c st n \<Longrightarrow> h x = None"
  shows "\<exists>ys. set ys = stride_positions c st n \<and> chain (slab_links h') fl' (ys @ xs) \<and>
      (\<forall>x. x \<notin> stride_positions c st n \<longrightarrow> h' x = h x) \<and>
      (\<forall>x \<in> stride_positions c st n. \<exists>q. h' x = Some \<lparr>sh_bucketIndex = i, sh_magic = HEADER_MAGIC, sh_next = q\<rparr>)"
  using assms
proof (induction n arbitrary: c fl h xs)
  case 0
  then show ?case by (intro exI [of _ "[]"]) (simp add: stride_positions_def)
next
  case (Suc n)
  let ?k = "\<lparr>sh_bucketIndex = i, sh_magic = HEADER_MAGIC, sh_next = fl\<rparr>"
  let ?h = "h(c \<mapsto> ?k)" and ?P = "stride_positions (c + st) st n"
  have P: "stride_positions c st (Suc n) = insert c ?P"
    using stride_positions_split [of 1 "Suc n" c st] by (simp add: stride_positions_def)
  have c: "c \<notin> ?P" using stride_positions_range [of c "c + st" st n] Suc.prems(2) by auto
  have cx: "c \<notin> set xs" using Suc.prems(4,5) P by fastforce
  have "chain (slab_links ?h) fl xs = chain (slab_links h) fl xs" using cx by (intro lseg_cong) (auto simp: slab_links_def)
  then have ch: "chain (slab_links ?h) (Some c) (c # xs)" using Suc.prems(3) by (simp add: slab_links_def)
  have C: "slab_carve i st n (c + st) (Some c, ?h) = (fl', h')" using Suc.prems(1) by simp
  have d: "set (c # xs) \<subseteq> dom ?h" using Suc.prems(4) by auto
  have nn: "?h x = None" if "x \<in> ?P" for x using that Suc.prems(5) [of x] c P by auto
  obtain ys where ys: "set ys = ?P" "chain (slab_links h') fl' (ys @ c # xs)" "\<forall>x. x \<notin> ?P \<longrightarrow> h' x = ?h x"
    "\<forall>x \<in> ?P. \<exists>q. h' x = Some \<lparr>sh_bucketIndex = i, sh_magic = HEADER_MAGIC, sh_next = q\<rparr>"
    using Suc.IH [OF C Suc.prems(2) ch d nn] by blast
  have "h' c = Some ?k" using ys(3) c by simp
  with ys P show ?case by (intro exI [of _ "ys @ [c]"]) auto
qed

lemma slab_links_upd [simp]: "y \<noteq> x \<Longrightarrow> slab_links (h(x := v)) y = slab_links h y"
  by (simp add: slab_links_def)

text \<open>What \<open>carve_region\<close> does: the addresses \<open>P\<close>, which held no header, get headers of slab \<open>i\<close>.\<close>

definition carved :: "nat \<Rightarrow> addr set \<Rightarrow> addr option \<Rightarrow> SlabMemoryPool \<Rightarrow> SlabMemoryPool \<Rightarrow> bool" where
  "carved i P fl s s' \<longleftrightarrow> i < length (sp_slabs s) \<and> (\<exists>h. s' = upd_slab i (\<lambda>b. b\<lparr>sl_freeList := fl\<rparr>) (s\<lparr>sp_heap := h\<rparr>)) \<and>
     (\<forall>x. x \<notin> P \<longrightarrow> sp_heap s' x = sp_heap s x) \<and>
     (\<forall>x \<in> P. sp_heap s x = None \<and> (\<exists>k. sp_heap s' x = Some k \<and> unat (sh_bucketIndex k) = i \<and> sh_magic k = HEADER_MAGIC))"

lemma carvedD:
  assumes "carved i P fl s s'"
  shows "length (sp_slabs s') = length (sp_slabs s)" and "sp_regions s' = sp_regions s" and "width s' = width s"
    and "sp_slabs s' ! j = (if j = i then (sp_slabs s ! i)\<lparr>sl_freeList := fl\<rparr> else sp_slabs s ! j)"
    and "blocks s' j = blocks s j \<union> (if j = i then P else {})"
    and "x \<notin> P \<Longrightarrow> sp_heap s' x = sp_heap s x" and "x \<in> P \<Longrightarrow> sp_heap s x = None"
    and "i < length (sp_slabs s)" and "slab_frame s s'"
proof -
  obtain h where s': "s' = upd_slab i (\<lambda>b. b\<lparr>sl_freeList := fl\<rparr>) (s\<lparr>sp_heap := h\<rparr>)" using assms by (auto simp: carved_def)
  show i: "i < length (sp_slabs s)" using assms by (simp add: carved_def)
  show "length (sp_slabs s') = length (sp_slabs s)" and "sp_regions s' = sp_regions s" by (simp_all add: s')
  show n: "sp_slabs s' ! j = (if j = i then (sp_slabs s ! i)\<lparr>sl_freeList := fl\<rparr> else sp_slabs s ! j)" for j using i by (simp add: s')
  show "width s' = width s" by (rule ext) (simp add: width_def n)
  show old: "x \<notin> P \<Longrightarrow> sp_heap s' x = sp_heap s x" and none: "x \<in> P \<Longrightarrow> sp_heap s x = None" for x using assms by (simp_all add: carved_def)
  show "blocks s' j = blocks s j \<union> (if j = i then P else {})"
  proof (rule set_eqI)
    fix x show "x \<in> blocks s' j \<longleftrightarrow> x \<in> blocks s j \<union> (if j = i then P else {})"
      using assms by (cases "x \<in> P") (auto simp: carved_def blocks_def)
  qed
  have "\<exists>k'. sp_heap s' x = Some k' \<and> sh_bucketIndex k' = sh_bucketIndex k" if "sp_heap s x = Some k" for x k
    using that none [of x] old [of x] by (cases "x \<in> P") auto
  then show "slab_frame s s'" using i unfolding slab_frame_def n by (simp add: s')
qed

lemma carved_old: "carved i P fl s s' \<Longrightarrow> sp_heap s x = Some k \<Longrightarrow> sp_heap s' x = Some k"
  by (cases "x \<in> P") (auto simp: carved_def)

lemma carved_cases:
  assumes "carved i P fl s s'" and "sp_heap s' x = Some k"
  obtains "x \<in> P" and "unat (sh_bucketIndex k) = i" and "sh_magic k = HEADER_MAGIC" and "width s k = unat (sl_stride (sp_slabs s ! i))"
  | "x \<notin> P" and "sp_heap s x = Some k"
  using assms by (cases "x \<in> P") (auto simp: carved_def width_def)

lemma carve_region_carved:
  assumes I: "slab_inv n F s" and i: "i < n" and P: "P = stride_positions memory (unat (sl_stride (sp_slabs s ! i))) (unat cnt)"
    and none: "\<And>x. x \<in> P \<Longrightarrow> sp_heap s x = None"
  shows "\<exists>ys fl. carved i P fl s (carve_region i cnt memory s) \<and> set ys = P \<and>
      chain (slab_links (sp_heap (carve_region i cnt memory s))) fl (ys @ F i)"
proof -
  let ?st = "unat (sl_stride (sp_slabs s ! i))" and ?fl = "sl_freeList (sp_slabs s ! i)"
  have len: "i < length (sp_slabs s)" "length (sp_slabs s) < 2 ^ 32" using I i by (simp_all add: slab_inv_def)
  have ui: "unat (of_nat i :: u32) = i" using len by (simp add: unat_of_nat)
  have st: "0 < ?st" using I i by (auto simp: slab_inv_def)
  obtain fl h where C: "slab_carve (of_nat i) ?st (unat cnt) memory (?fl, sp_heap s) = (fl, h)" by fastforce
  have s': "carve_region i cnt memory s = upd_slab i (\<lambda>b. b\<lparr>sl_freeList := fl\<rparr>) (s\<lparr>sp_heap := h\<rparr>)" using C by (simp add: carve_region_def)
  have ok: "slab_ok s F i" using I len by (simp add: slab_inv_def)
  then have ch: "chain (slab_links (sp_heap s)) ?fl (F i)" and d: "set (F i) \<subseteq> dom (sp_heap s)" by (auto simp: slab_ok_def blocks_def)
  have "\<exists>ys. set ys = P \<and> chain (slab_links h) fl (ys @ F i) \<and> (\<forall>x. x \<notin> P \<longrightarrow> h x = sp_heap s x) \<and>
      (\<forall>x \<in> P. \<exists>q. h x = Some \<lparr>sh_bucketIndex = of_nat i, sh_magic = HEADER_MAGIC, sh_next = q\<rparr>)"
    unfolding P by (rule slab_carve_spec [OF C st ch d]) (use none P in blast)
  then obtain ys where ys: "set ys = P" "chain (slab_links h) fl (ys @ F i)" "\<forall>x. x \<notin> P \<longrightarrow> h x = sp_heap s x"
    "\<forall>x \<in> P. \<exists>q. h x = Some \<lparr>sh_bucketIndex = of_nat i, sh_magic = HEADER_MAGIC, sh_next = q\<rparr>" by blast
  then have "carved i P fl s (carve_region i cnt memory s)" using len none ui unfolding carved_def s' by fastforce
  with ys(1,2) s' show ?thesis by auto
qed

lemma carved_out_blocks:
  assumes "carved i P fl s s'" and "set ys = P"
  shows "out_blocks (F(i := ys @ F i)) s' = out_blocks F s"
proof -
  have "x \<in> out_blocks (F(i := ys @ F i)) s' \<longleftrightarrow> x \<in> out_blocks F s" for x
    using assms by (cases "x \<in> P") (auto simp: out_blocks_def carved_def)
  then show ?thesis by blast
qed

text \<open>A region of the pool without blocks in it lies outside every block.\<close>

lemma block_outside_region:
  assumes I: "slab_inv n F s" and mem: "(a, m) \<in> set (sp_regions s)" and clear: "free_of_headers (sp_heap s) (sp_regions s) a"
    and k: "sp_heap s x = Some k"
  shows "x + width s k \<le> a \<or> a + m \<le> x"
proof -
  have ro: "regions_ok (sp_regions s)" using I by (simp add: slab_inv_def heap_sound_def)
  obtain b l where b: "(b, l) \<in> set (sp_regions s)" "b \<le> x" "x + width s k \<le> b + l" using slab_invD(4) [OF I k] by blast
  have "b \<noteq> a" using b clear k slab_invD(5) [OF I k] by (auto simp: free_of_headers_def)
  moreover have "a < b \<longrightarrow> a + m \<le> b" "b < a \<longrightarrow> b + l \<le> a" using ro mem b(1) unfolding regions_ok_def by blast+
  ultimately show ?thesis using b by linarith
qed

lemma carved_heap_sound:
  assumes I: "slab_inv n F s" and c: "carved i P fl s s'" and i: "i < n" and mem: "(a, m) \<in> set (sp_regions s)"
    and clear: "free_of_headers (sp_heap s) (sp_regions s) a"
    and P: "P = stride_positions a (unat (sl_stride (sp_slabs s ! i))) cnt" and fits: "unat (sl_stride (sp_slabs s ! i)) * cnt \<le> m"
  shows "heap_sound n s'"
proof -
  let ?st = "unat (sl_stride (sp_slabs s ! i))"
  have hs: "heap_sound n s" using I by (simp add: slab_inv_def)
  have inreg: "a \<le> x \<and> x + ?st \<le> a + m" if "x \<in> P" for x using stride_positions_range that fits P by fastforce
  have st: "16 \<le> ?st" using I i by (auto simp: slab_inv_def)
  have apart: "x + width s k \<le> y" if k: "sp_heap s' x = Some k" and l: "sp_heap s' y = Some l" and xy: "x < y" for x y k l
  proof (cases rule: carved_cases [OF c k])
    case 1
    show ?thesis
    proof (cases rule: carved_cases [OF c l])
      case 2
      from block_outside_region [OF I mem clear 2(2)] inreg [OF 1(1)] slab_invD(5) [OF I 2(2)] xy 1(4) show ?thesis by linarith
    qed (use stride_positions_apart xy 1 P in auto)
  next
    case kx: 2
    show ?thesis
    proof (cases rule: carved_cases [OF c l])
      case 1
      from block_outside_region [OF I mem clear kx(2)] inreg [OF 1(1)] xy st show ?thesis by linarith
    next
      case 2
      with hs kx xy show ?thesis unfolding heap_sound_def by blast
    qed
  qed
  have each: "sh_magic k = HEADER_MAGIC \<and> unat (sh_bucketIndex k) < n \<and> (\<exists>(b, l) \<in> set (sp_regions s). b \<le> x \<and> x + width s k \<le> b + l)"
    if k: "sp_heap s' x = Some k" for x k
  proof (cases rule: carved_cases [OF c k])
    case 1
    then show ?thesis using inreg [OF 1(1)] mem i by auto
  next
    case 2
    with hs show ?thesis unfolding heap_sound_def by blast
  qed
  have "dom (sp_heap s') \<subseteq> dom (sp_heap s) \<union> P" using c by (auto simp: carved_def)
  then have "finite (dom (sp_heap s'))" using hs P by (auto simp: heap_sound_def stride_positions_def intro: finite_subset)
  with each apart hs show ?thesis unfolding heap_sound_def by (simp add: carvedD(2,3) [OF c])
qed

lemma carved_slab_ok:
  assumes ok: "slab_ok s F j" and ok_i: "slab_ok s F i" and c: "carved i P fl s s'" and j: "j < length (sp_slabs s)" and ys: "set ys = P"
    and ch: "chain (slab_links (sp_heap s')) fl (ys @ F i)"
    and tables: "\<And>t. sl_extraTable (sp_slabs s ! j) = Some t \<Longrightarrow> free_of_headers (sp_heap s') (sp_regions s) t"
  shows "slab_ok s' (F(i := ys @ F i)) j"
proof -
  have Fout: "set (F l) \<inter> P = {}" if "slab_ok s F l" for l
    using that carvedD(7) [OF c] by (fastforce simp: slab_ok_def blocks_def)
  show ?thesis
  proof (cases "j = i")
    case True
    have "blocks s i \<inter> P = {}" using carvedD(7) [OF c] by (fastforce simp: blocks_def)
    then have "blocks s' i - set (ys @ F i) = blocks s i - set (F i)" using ys carvedD(5) [OF c, of i] by auto
    then show ?thesis
      using ok True ys carvedD(5) [OF c, of i] ch tables by (auto simp: slab_ok_def carvedD(2,4) [OF c])
  next
    case False
    have "chain (slab_links (sp_heap s')) (sl_freeList (sp_slabs s ! j)) (F j) = chain (slab_links (sp_heap s)) (sl_freeList (sp_slabs s ! j)) (F j)"
    proof (intro lseg_cong refl)
      fix x assume "x \<in> set (F j)"
      then have "x \<notin> P" using Fout [OF ok] by blast
      then show "slab_links (sp_heap s') x = slab_links (sp_heap s) x" by (simp add: slab_links_def carvedD(6) [OF c])
    qed
    with False ok tables carvedD(5) [OF c, of j] show ?thesis by (auto simp: slab_ok_def carvedD(2,4) [OF c])
  qed
qed

lemma carve_region_inv:
  assumes I: "slab_inv n F s" and i: "i < n" and mem: "(a, m) \<in> set (sp_regions s)"
    and fits: "unat (sl_stride (sp_slabs s ! i)) * unat cnt \<le> m"
    and clear: "free_of_headers (sp_heap s) (sp_regions s) a"
    and tables: "\<And>j. j < length (sp_slabs s) \<Longrightarrow> sl_extraTable (sp_slabs s ! j) \<noteq> Some a"
  obtains ys fl P where "slab_inv n (F(i := ys @ F i)) (carve_region i cnt a s)"
    and "out_blocks (F(i := ys @ F i)) (carve_region i cnt a s) = out_blocks F s"
    and "carved i P fl s (carve_region i cnt a s)"
proof -
  let ?st = "unat (sl_stride (sp_slabs s ! i))" and ?s = "carve_region i cnt a s"
  define P where "P = stride_positions a ?st (unat cnt)"
  have st: "16 \<le> ?st" and ro: "regions_ok (sp_regions s)" and len: "i < length (sp_slabs s)"
    using I i by (auto simp: slab_inv_def heap_sound_def)
  have ok: "slab_ok s F j" if "j < length (sp_slabs s)" for j using I that by (simp add: slab_inv_def)
  have inreg: "a \<le> x \<and> x < a + m" if "x \<in> P" for x using stride_positions_range [of x a ?st "unat cnt"] that fits st P_def by simp
  then have none: "sp_heap s x = None" if "x \<in> P" for x using clear mem that by (auto simp: free_of_headers_def)
  obtain ys fl where c: "carved i P fl s ?s" and ys: "set ys = P" and ch: "chain (slab_links (sp_heap ?s)) fl (ys @ F i)"
    using carve_region_carved [OF I i P_def none] by blast
  have tb: "free_of_headers (sp_heap ?s) (sp_regions s) t" if j: "j < length (sp_slabs s)" and t: "sl_extraTable (sp_slabs s ! j) = Some t" for j t
    unfolding free_of_headers_def
  proof (intro allI impI)
    fix l x assume l: "(t, l) \<in> set (sp_regions s)" and x: "t \<le> x" "x < t + l"
    have "t \<noteq> a" using tables [OF j] t by auto
    moreover have "a < t \<longrightarrow> a + m \<le> t" "t < a \<longrightarrow> t + l \<le> a" using ro mem l unfolding regions_ok_def by blast+
    ultimately have "x \<notin> P" using inreg [of x] x by force
    with ok [OF j] t l x show "sp_heap ?s x = None" using carvedD(6) [OF c] by (simp add: slab_ok_def free_of_headers_def)
  qed
  have "slab_ok ?s (F(i := ys @ F i)) j" if "j < length (sp_slabs s)" for j
    by (rule carved_slab_ok [OF ok [OF that] ok [OF len] c that ys ch tb [OF that]])
  moreover have "heap_sound n ?s" by (rule carved_heap_sound [OF I c i mem clear P_def fits])
  ultimately have "slab_inv n (F(i := ys @ F i)) ?s" using I by (simp add: slab_inv_def carvedD(1,4) [OF c])
  from that [OF this carved_out_blocks [OF c ys] c] show thesis .
qed

section \<open>Growing a slab\<close>

text \<open>The tables of extra regions are regions of their own; every region outside \<open>A\<close> is one that \<open>Finalize\<close> will free.\<close>

definition tables_ok :: "SlabMemoryPool \<Rightarrow> bool" where
  "tables_ok s \<longleftrightarrow> (\<forall>i t. i < length (sp_slabs s) \<longrightarrow> sl_extraTable (sp_slabs s ! i) = Some t \<longrightarrow>
     t \<in> fst ` set (sp_regions s) \<and> (\<forall>j < length (sp_slabs s). sl_extraTable (sp_slabs s ! j) = Some t \<longrightarrow> j = i))"

definition accounted :: "addr set \<Rightarrow> SlabMemoryPool \<Rightarrow> bool" where
  "accounted A s \<longleftrightarrow> (\<forall>a \<in> fst ` set (sp_regions s).
     a \<in> A \<or> sp_table s = Some a \<or> (\<exists>i < length (sp_slabs s). Some a \<in> set (slab_memory (sp_slabs s ! i))))"

definition slab_wf :: "nat \<Rightarrow> (nat \<Rightarrow> addr list) \<Rightarrow> SlabMemoryPool \<Rightarrow> bool" where
  "slab_wf n F s \<longleftrightarrow> slab_inv n F s \<and> tables_ok s \<and> accounted {} s"

text \<open>Changes of a slab that its invariant does not see.\<close>

lemma slab_inv_upd:
  assumes I: "slab_inv n F s" and i: "i < length (sp_slabs s)"
    and same: "sl_freeList (f (sp_slabs s ! i)) = sl_freeList (sp_slabs s ! i)" "sl_allocatedCount (f (sp_slabs s ! i)) = sl_allocatedCount (sp_slabs s ! i)"
      "sl_blockSize (f (sp_slabs s ! i)) = sl_blockSize (sp_slabs s ! i)" "sl_stride (f (sp_slabs s ! i)) = sl_stride (sp_slabs s ! i)"
      "sl_totalAcquire (f (sp_slabs s ! i)) = sl_totalAcquire (sp_slabs s ! i)" "sl_totalRelease (f (sp_slabs s ! i)) = sl_totalRelease (sp_slabs s ! i)"
    and none: "sl_extraTable (f (sp_slabs s ! i)) = None \<Longrightarrow> sl_extraMemoryBlocks (f (sp_slabs s ! i)) = [] \<and> sl_extraMemoryCapacity (f (sp_slabs s ! i)) = 0"
    and some: "\<And>t. sl_extraTable (f (sp_slabs s ! i)) = Some t \<Longrightarrow> free_of_headers (sp_heap s) (sp_regions s) t"
  shows "slab_inv n F (upd_slab i f s)" and "slab_frame s (upd_slab i f s)"
proof -
  have w: "width (upd_slab i f s) k = width s k" for k using i same(4) by (auto simp: width_def upd_slab_nth)
  have b: "blocks (upd_slab i f s) j = blocks s j" for j by (simp add: blocks_def)
  have "slab_ok (upd_slab i f s) F j" if "j < length (sp_slabs s)" for j
    using I that i same none some by (cases "j = i") (auto simp: slab_inv_def slab_ok_def b)
  then show "slab_inv n F (upd_slab i f s)"
    using I i same(3,4) by (simp add: slab_inv_def heap_sound_def w upd_slab_nth)
  show "slab_frame s (upd_slab i f s)" using i same(3,4) by (simp add: slab_frame_def upd_slab_nth)
qed

lemma slab_frame_regions [simp]: "slab_frame s (s1\<lparr>sp_regions := rs\<rparr>) = slab_frame s s1" "slab_frame (s\<lparr>sp_regions := rs\<rparr>) s1 = slab_frame s s1"
  by (simp_all add: slab_frame_def)

lemma grow_extra_table_cases:
  assumes I: "slab_inv n F s" and i: "i < length (sp_slabs s)" and G: "grow_extra_table os i s = (r, s1)"
  obtains "\<not> r" and "s1 = s"
  | "r" and "s1 = s" and "sl_extraTable (sp_slabs s ! i) \<noteq> None"
  | t m c where "r" and "fresh_region (sp_regions s) t m" and "0 < m" and "slab_inv n F s1" and "slab_frame s s1" and "sp_heap s1 = sp_heap s"
      and "sp_regions s1 = filter (\<lambda>x. Some (fst x) \<noteq> sl_extraTable (sp_slabs s ! i)) ((t, m) # sp_regions s)"
      and "sp_slabs s1 = (sp_slabs s)[i := (sp_slabs s ! i)\<lparr>sl_extraTable := Some t, sl_extraMemoryCapacity := c\<rparr>]"
proof -
  let ?b = "sp_slabs s ! i"
  define c where "c = (if sl_extraMemoryCapacity ?b = 0 then 4 else sl_extraMemoryCapacity ?b * 2)"
  have ok: "slab_ok s F i" using I i by (simp add: slab_inv_def)
  show thesis
  proof (cases "length (sl_extraMemoryBlocks ?b) \<ge> sl_extraMemoryCapacity ?b")
    case False
    then have "sl_extraTable ?b \<noteq> None" using ok by (auto simp: slab_ok_def)
    with False G that(2) show thesis by (auto simp: grow_extra_table_def)
  next
    case full: True
    obtain q s0 where A: "slab_HeapAlloc os (8 * c) s = (q, s0)" by fastforce
    show thesis
    proof (cases rule: slab_HeapAlloc_cases [OF A])
      case 1
      with full G A that(1) show thesis by (simp add: grow_extra_table_def c_def)
    next
      case (2 t)
      let ?m = "max 1 (8 * c)" and ?f = "\<lambda>b. b\<lparr>sl_extraTable := Some t, sl_extraMemoryCapacity := c\<rparr>"
      have m: "0 < ?m" by simp
      have I0: "slab_inv n F s0" and t0: "free_of_headers (sp_heap s0) (sp_regions s0) t"
        using slab_inv_alloc [OF I 2(3) m] fresh_free_of_headers [OF I 2(3) m] 2(2) by simp_all
      have s1: "r" "s1 = upd_slab i ?f (slab_HeapFree (sl_extraTable ?b) s0)"
        using full G A 2(1) by (simp_all add: grow_extra_table_def c_def Let_def)
      have old: "free_of_headers (sp_heap s0) (sp_regions s0) a" if "sl_extraTable ?b = Some a" for a
        using I0 i that 2(2) by (auto simp: slab_inv_def slab_ok_def)
      have F: "slab_inv n F (slab_HeapFree (sl_extraTable ?b) s0) \<and> slab_HeapFree (sl_extraTable ?b) s0 =
          s0\<lparr>sp_regions := filter (\<lambda>x. Some (fst x) \<noteq> sl_extraTable ?b) (sp_regions s0)\<rparr>"
      proof (cases "sl_extraTable ?b")
        case None
        then show ?thesis using I0 by (simp add: slab_HeapFree_def)
      next
        case (Some a)
        then show ?thesis using slab_inv_free [OF I0 old [OF Some]] HeapFree_clear [OF old [OF Some]] by simp
      qed
      let ?s = "slab_HeapFree (sl_extraTable ?b) s0"
      have e: "sp_heap ?s = sp_heap s" "sp_slabs ?s = sp_slabs s" using F 2(2) by simp_all
      have "set (sp_regions ?s) \<subseteq> set (sp_regions s0)" using F by (metis (no_types, lifting) SlabMemoryPool.select_convs(5)
            SlabMemoryPool.surjective SlabMemoryPool.update_convs(5) filter_is_subset)
      then have tf: "free_of_headers (sp_heap ?s) (sp_regions ?s) t"
        using t0 e(1) 2(2) by (auto simp: free_of_headers_def)
      have J: "slab_inv n F s1" "slab_frame ?s s1" using F slab_inv_upd [of n F ?s i ?f] i e tf unfolding s1(2) by auto
      have fr: "slab_frame s ?s" using F 2(2) by (simp add: slab_frame_def)
      show thesis
      proof (rule that(3) [OF s1(1) 2(3) m J(1) slab_frame_trans [OF fr J(2)]])
        show "sp_heap s1 = sp_heap s" using s1(2) e by simp
        show "sp_regions s1 = filter (\<lambda>x. Some (fst x) \<noteq> sl_extraTable ?b) ((t, ?m) # sp_regions s)" using s1(2) F 2(2) by simp
        show "sp_slabs s1 = (sp_slabs s)[i := ?f ?b]" using s1(2) e i by (simp add: upd_slab_def)
      qed
    qed
  qed
qed

lemma tables_okI:
  assumes "tables_ok s" and "length (sp_slabs s1) = length (sp_slabs s)" and "fst ` set (sp_regions s) \<subseteq> fst ` set (sp_regions s1)"
    and "\<And>i. i < length (sp_slabs s) \<Longrightarrow> sl_extraTable (sp_slabs s1 ! i) = sl_extraTable (sp_slabs s ! i)"
  shows "tables_ok s1"
  using assms(1,3) unfolding tables_ok_def assms(2) by (auto simp only: assms(4))

lemma accountedI:
  assumes A: "accounted A s" and r: "fst ` set (sp_regions s1) \<subseteq> B \<union> fst ` set (sp_regions s)" and "A \<union> B \<subseteq> A'"
    and t: "sp_table s1 = sp_table s" and l: "length (sp_slabs s1) = length (sp_slabs s)"
    and m: "\<And>i a. i < length (sp_slabs s) \<Longrightarrow> Some a \<in> set (slab_memory (sp_slabs s ! i)) \<Longrightarrow> Some a \<in> set (slab_memory (sp_slabs s1 ! i))"
  shows "accounted A' s1"
  unfolding accounted_def
proof
  fix a assume "a \<in> fst ` set (sp_regions s1)"
  then have "a \<in> B \<or> a \<in> fst ` set (sp_regions s)" using r by blast
  then consider "a \<in> A \<union> B" | "sp_table s = Some a" | i where "i < length (sp_slabs s)" "Some a \<in> set (slab_memory (sp_slabs s ! i))"
    using A unfolding accounted_def by blast
  then show "a \<in> A' \<or> sp_table s1 = Some a \<or> (\<exists>i < length (sp_slabs s1). Some a \<in> set (slab_memory (sp_slabs s1 ! i)))"
    by cases (use assms(3) t l m in auto)
qed

lemma grow_extra_table_wf:
  assumes I: "slab_inv n F s" and T: "tables_ok s" and A: "accounted A s" and i: "i < length (sp_slabs s)"
    and G: "grow_extra_table os i s = (r, s1)"
  obtains "\<not> r" and "s1 = s"
  | "r" and "slab_inv n F s1" and "tables_ok s1" and "accounted A s1" and "slab_frame s s1" and "sp_heap s1 = sp_heap s"
      and "sl_extraTable (sp_slabs s1 ! i) \<noteq> None"
      and "\<And>b l. (b, l) \<in> set (sp_regions s) \<Longrightarrow> sl_extraTable (sp_slabs s ! i) \<noteq> Some b \<Longrightarrow> (b, l) \<in> set (sp_regions s1)"
      and "\<And>j b. j < length (sp_slabs s) \<Longrightarrow> sl_extraTable (sp_slabs s1 ! j) = Some b \<Longrightarrow> b \<in> fst ` set (sp_regions s) \<Longrightarrow>
             sl_extraTable (sp_slabs s ! j) = Some b"
  using I i G
proof (cases rule: grow_extra_table_cases)
  case 1
  with that(1) show thesis by blast
next
  case 2
  with that(2) I T A show thesis by simp
next
  case (3 t m c)
  let ?b = "sp_slabs s ! i"
  have nth: "sp_slabs s1 ! j = (if j = i then ?b\<lparr>sl_extraTable := Some t, sl_extraMemoryCapacity := c\<rparr> else sp_slabs s ! j)" for j
    using 3(8) i by simp
  have len: "length (sp_slabs s1) = length (sp_slabs s)" using 3(8) by simp
  have new: "t \<notin> fst ` set (sp_regions s)" using fresh_new_address [OF I 3(2,3)] .
  have notold: "Some t \<noteq> sl_extraTable ?b" using T i new by (auto simp: tables_ok_def)
  have regs: "set (sp_regions s1) = insert (t, m) {x \<in> set (sp_regions s). Some (fst x) \<noteq> sl_extraTable ?b}" using 3(7) notold by auto
  show thesis
  proof (rule that(2) [OF 3(1,4) _ _ 3(5,6)])
    show "tables_ok s1"
      unfolding tables_ok_def len
    proof (intro allI impI)
      fix j u assume j: "j < length (sp_slabs s)" and u: "sl_extraTable (sp_slabs s1 ! j) = Some u"
      show "u \<in> fst ` set (sp_regions s1) \<and> (\<forall>k < length (sp_slabs s). sl_extraTable (sp_slabs s1 ! k) = Some u \<longrightarrow> k = j)"
      proof (cases "j = i")
        case True
        then have "u = t" using u nth by simp
        have "sl_extraTable (sp_slabs s ! k) \<noteq> Some t" if "k < length (sp_slabs s)" for k using T that new by (auto simp: tables_ok_def)
        then show ?thesis using True \<open>u = t\<close> regs nth by auto
      next
        case False
        then have u': "sl_extraTable (sp_slabs s ! j) = Some u" using u nth by simp
        then have "u \<in> fst ` set (sp_regions s)" "sl_extraTable ?b \<noteq> Some u"
          "\<forall>k < length (sp_slabs s). sl_extraTable (sp_slabs s ! k) = Some u \<longrightarrow> k = j"
          using T j i False unfolding tables_ok_def by blast+
        then show ?thesis using regs new nth by auto
      qed
    qed
    show "accounted A s1"
      unfolding accounted_def
    proof
      fix a assume a: "a \<in> fst ` set (sp_regions s1)"
      show "a \<in> A \<or> sp_table s1 = Some a \<or> (\<exists>j < length (sp_slabs s1). Some a \<in> set (slab_memory (sp_slabs s1 ! j)))"
      proof (cases "a = t")
        case True
        have "Some t \<in> set (slab_memory (sp_slabs s1 ! i))" by (simp add: nth slab_memory_def)
        then show ?thesis using True i len by auto
      next
        case False
        then have r: "a \<in> fst ` set (sp_regions s)" "sl_extraTable ?b \<noteq> Some a" using a regs by auto
        then consider "a \<in> A" | "sp_table s = Some a" | j where "j < length (sp_slabs s)" "Some a \<in> set (slab_memory (sp_slabs s ! j))"
          using A unfolding accounted_def by blast
        then show ?thesis
        proof cases
          case 2
          then show ?thesis using 3(5) by (simp add: slab_frame_def)
        next
          case (3 j)
          then have "Some a \<in> set (slab_memory (sp_slabs s1 ! j))" using r(2) nth by (auto simp: slab_memory_def split: option.splits)
          with 3 len show ?thesis by auto
        qed simp
      qed
    qed
    show "sl_extraTable (sp_slabs s1 ! i) \<noteq> None" by (simp add: nth)
    show "(b, l) \<in> set (sp_regions s1)" if "(b, l) \<in> set (sp_regions s)" "sl_extraTable ?b \<noteq> Some b" for b l
      unfolding regs using that by auto
    show "sl_extraTable (sp_slabs s ! j) = Some b"
      if "sl_extraTable (sp_slabs s1 ! j) = Some b" "b \<in> fst ` set (sp_regions s)" for j b
    proof (cases "j = i")
      case True
      then have "b = t" using that(1) nth by simp
      with that(2) new show ?thesis by simp
    next
      case False
      with that(1) nth show ?thesis by simp
    qed
  qed
qed

text \<open>A region of the pool without blocks is noted in slab \<open>i\<close> and cut into its blocks.\<close>

lemma add_region_wf:
  assumes I: "slab_inv n F s" and T: "tables_ok s" and A: "accounted {a} s" and i: "i < n" and mem: "(a, m) \<in> set (sp_regions s)"
    and clear: "free_of_headers (sp_heap s) (sp_regions s) a"
    and tables: "\<And>j. j < length (sp_slabs s) \<Longrightarrow> sl_extraTable (sp_slabs s ! j) \<noteq> Some a"
    and f: "slab_inv n F (upd_slab i f s)" "slab_frame s (upd_slab i f s)"
      "sl_extraTable (f (sp_slabs s ! i)) = sl_extraTable (sp_slabs s ! i)" "unat (sl_stride (f (sp_slabs s ! i))) * unat cnt \<le> m"
    and noted: "\<And>b. b = a \<or> Some b \<in> set (slab_memory (sp_slabs s ! i)) \<Longrightarrow> Some b \<in> set (slab_memory (f (sp_slabs s ! i)))"
  obtains ys where "slab_wf n (F(i := ys @ F i)) (carve_region i cnt a (upd_slab i f s))"
    and "out_blocks (F(i := ys @ F i)) (carve_region i cnt a (upd_slab i f s)) = out_blocks F s"
    and "slab_frame s (carve_region i cnt a (upd_slab i f s))"
proof -
  let ?s = "upd_slab i f s" and ?c = "carve_region i cnt a (upd_slab i f s)"
  have len: "i < length (sp_slabs s)" using I i by (simp add: slab_inv_def)
  obtain ys fl P where C: "slab_inv n (F(i := ys @ F i)) ?c" "out_blocks (F(i := ys @ F i)) ?c = out_blocks F ?s" "carved i P fl ?s ?c"
  proof (rule carve_region_inv [OF f(1) i, of a m cnt])
    show "(a, m) \<in> set (sp_regions ?s)" and "free_of_headers (sp_heap ?s) (sp_regions ?s) a" using mem clear by simp_all
    show "unat (sl_stride (sp_slabs ?s ! i)) * unat cnt \<le> m" using f(4) len by simp
    show "sl_extraTable (sp_slabs ?s ! j) \<noteq> Some a" if "j < length (sp_slabs ?s)" for j
      using tables [of j] that len f(3) by (auto simp: upd_slab_nth)
  qed blast
  have mem': "Some b \<in> set (slab_memory (sp_slabs ?c ! j))" if "b = a \<and> j = i \<or> Some b \<in> set (slab_memory (sp_slabs s ! j))" for b j
    using that noted len carvedD(4) [OF C(3), of j] by (auto simp: slab_memory_def)
  have "accounted {} ?c"
    unfolding accounted_def
  proof
    fix b assume "b \<in> fst ` set (sp_regions ?c)"
    then have "b \<in> fst ` set (sp_regions s)" by (simp add: carvedD(2) [OF C(3)])
    then consider "b = a" | "sp_table s = Some b" | j where "j < length (sp_slabs s)" "Some b \<in> set (slab_memory (sp_slabs s ! j))"
      using A unfolding accounted_def by blast
    then show "b \<in> {} \<or> sp_table ?c = Some b \<or> (\<exists>j < length (sp_slabs ?c). Some b \<in> set (slab_memory (sp_slabs ?c ! j)))"
    proof cases
      case 2
      then show ?thesis using carvedD(9) [OF C(3)] by (simp add: slab_frame_def)
    qed (use mem' len carvedD(1) [OF C(3)] in \<open>auto simp del: fun_upd_apply\<close>)
  qed
  moreover have "tables_ok ?c"
    by (rule tables_okI [OF T]) (use len f(3) in \<open>auto simp: carvedD(1,2,4) [OF C(3)]\<close>)
  ultimately have "slab_wf n (F(i := ys @ F i)) ?c" using C(1) by (simp add: slab_wf_def)
  moreover have "out_blocks (F(i := ys @ F i)) ?c = out_blocks F s" using C(2) by (simp add: out_blocks_def)
  ultimately show thesis using slab_frame_trans [OF f(2) carvedD(9) [OF C(3)]] by (rule that)
qed

lemma AllocateExtraBlocks_wf:
  assumes W: "slab_wf n F s" and i: "i < n" and E: "AllocateExtraBlocks os i cnt s = (r, s1)"
  obtains "\<not> r" and "s1 = s"
  | ys where "r" and "slab_wf n (F(i := ys @ F i)) s1" and "out_blocks (F(i := ys @ F i)) s1 = out_blocks F s" and "slab_frame s s1"
proof -
  let ?st = "sl_stride (sp_slabs s ! i)"
  have I: "slab_inv n F s" and T: "tables_ok s" and A: "accounted {} s" and len: "i < length (sp_slabs s)"
    using W i by (auto simp: slab_wf_def slab_inv_def)
  obtain q s0 where H: "slab_HeapAlloc os (unat ?st * unat cnt) s = (q, s0)" by fastforce
  show thesis
  proof (cases rule: slab_HeapAlloc_cases [OF H])
    case 1
    with E H that(1) show thesis by (simp add: AllocateExtraBlocks_def)
  next
    case (2 a)
    let ?m = "max 1 (unat ?st * unat cnt)"
    have m: "0 < ?m" by simp
    have sl0 [simp]: "sp_slabs s0 = sp_slabs s" "sp_table s0 = sp_table s" "sp_heap s0 = sp_heap s" "sp_regions s0 = (a, ?m) # sp_regions s"
      using 2(2) by simp_all
    have new: "a \<notin> fst ` set (sp_regions s)" using fresh_new_address [OF I 2(3) m] .
    have I0: "slab_inv n F s0" unfolding 2(2) by (rule slab_inv_alloc [OF I 2(3) m])
    have clear: "free_of_headers (sp_heap s0) (sp_regions s0) a" unfolding sl0 by (rule fresh_free_of_headers [OF I 2(3) m])
    have T0: "tables_ok s0" by (rule tables_okI [OF T]) auto
    have A0: "accounted {a} s0" using A unfolding accounted_def by simp
    have at: "sl_extraTable (sp_slabs s ! j) \<noteq> Some a" if "j < length (sp_slabs s)" for j using T that new unfolding tables_ok_def by blast
    obtain g s2 where G: "grow_extra_table os i s0 = (g, s2)" by fastforce
    have len0: "i < length (sp_slabs s0)" using len by simp
    show thesis
    proof (cases rule: grow_extra_table_wf [OF I0 T0 A0 len0 G])
      case 1
      have "filter (\<lambda>r. fst r \<noteq> a) (sp_regions s) = sp_regions s" using new by (intro filter_True) force
      then have "slab_HeapFree (Some a) s0 = s" using HeapFree_clear [OF clear] 2(2) by simp
      then show thesis using E H G 1 2(1) that(1) by (simp add: AllocateExtraBlocks_def)
    next
      case grown: 2
      let ?f = "\<lambda>b. b\<lparr>sl_extraMemoryBlocks := sl_extraMemoryBlocks b @ [a]\<rparr>"
      note concl = that(2)
      have s1: "r" "s1 = carve_region i cnt a (upd_slab i ?f s2)" using E H G grown(1) 2(1) by (simp_all add: AllocateExtraBlocks_def)
      have fr: "slab_frame s s2" using grown(5) 2(2) by simp
      have len2: "i < length (sp_slabs s2)" "length (sp_slabs s2) = length (sp_slabs s)" "sl_stride (sp_slabs s2 ! i) = ?st"
        using fr len by (simp_all add: slab_frame_def)
      have mem: "(a, ?m) \<in> set (sp_regions s2)" using grown(8) [of a ?m] at [OF len] by simp
      have c2: "free_of_headers (sp_heap s2) (sp_regions s2) a"
        unfolding free_of_headers_def
      proof (intro allI impI)
        fix l x assume "(a, l) \<in> set (sp_regions s2)" and x: "a \<le> x" "x < a + l"
        then have "l = ?m" using grown(2) mem unfolding slab_inv_def heap_sound_def regions_ok_def by blast
        with clear x show "sp_heap s2 x = None" by (simp add: grown(6) free_of_headers_def)
      qed
      have J: "slab_inv n F (upd_slab i ?f s2)" "slab_frame s2 (upd_slab i ?f s2)"
        using slab_inv_upd [OF grown(2) len2(1), of ?f] grown(2,7) len2(1) by (auto simp: slab_inv_def slab_ok_def)
      show thesis
      proof (rule add_region_wf [OF grown(2,3,4) i mem c2 _ J])
        show "sl_extraTable (sp_slabs s2 ! j) \<noteq> Some a" if "j < length (sp_slabs s2)" for j
          using grown(9) [of j a] at [of j] that len2(2) by auto
        show "Some b \<in> set (slab_memory (?f (sp_slabs s2 ! i)))" if "b = a \<or> Some b \<in> set (slab_memory (sp_slabs s2 ! i))" for b
          using that grown(7) by (auto simp: slab_memory_def split: option.splits)
        show thesis if "slab_wf n (F(i := ys @ F i)) (carve_region i cnt a (upd_slab i ?f s2))"
          "out_blocks (F(i := ys @ F i)) (carve_region i cnt a (upd_slab i ?f s2)) = out_blocks F s2"
          "slab_frame s2 (carve_region i cnt a (upd_slab i ?f s2))" for ys
          by (rule concl [OF s1(1), of ys]) (use that slab_frame_trans [OF fr that(3)] grown(6) in \<open>simp_all add: s1(2) out_blocks_def\<close>)
      qed (simp_all add: len2(3))
    qed
  qed
qed

section \<open>Initialising\<close>

lemma slab_inv_make:
  assumes I: "slab_inv i F s" and i: "i < length (sp_slabs s)" and new: "sp_slabs s ! i = new_Slab" and sz: "unat (fst c) \<le> 2 ^ 32 - 32"
  shows "slab_inv (Suc i) F (upd_slab i (\<lambda>_. make_slab c) s)"
proof -
  let ?s = "upd_slab i (\<lambda>_. make_slab c) s"
  have idx: "unat (sh_bucketIndex k) < i" if "sp_heap s x = Some k" for x k using slab_invD(2) [OF I that] .
  then have w: "width ?s k = width s k" if "sp_heap s x = Some k" for x k using idx [OF that] by (simp add: width_def)
  have "heap_sound (Suc i) ?s" using I idx unfolding slab_inv_def heap_sound_def by (fastforce simp: w)
  moreover have "slab_ok ?s F j" if "j < length (sp_slabs s)" for j
    using I that i new by (cases "j = i") (auto simp: slab_inv_def slab_ok_def blocks_def make_slab_def new_Slab_def)
  ultimately show ?thesis
    using I i slab_stride_room [OF sz] by (auto simp: slab_inv_def less_Suc_eq make_slab_def)
qed

lemma slab_init_loop_wf:
  assumes "slab_init_loop os i cs s = (True, s1)" and "slab_wf i F s" and "length (sp_slabs s) = i + length cs"
    and "\<And>j. i \<le> j \<Longrightarrow> j < length (sp_slabs s) \<Longrightarrow> sp_slabs s ! j = new_Slab" and "\<forall>c \<in> set cs. unat (fst c) \<le> 2 ^ 32 - 32"
    and "out_blocks F s = {}"
  shows "\<exists>F'. slab_wf (length (sp_slabs s1)) F' s1 \<and> out_blocks F' s1 = {} \<and> sp_violations s1 = sp_violations s"
  using assms
proof (induction cs arbitrary: i s F)
  case Nil
  then show ?case by auto
next
  case (Cons c cs)
  let ?s0 = "upd_slab i (\<lambda>_. make_slab c) s"
  have W: "slab_inv i F s" "tables_ok s" "accounted {} s" using Cons.prems(2) by (simp_all add: slab_wf_def)
  have i: "i < length (sp_slabs s)" and new: "sp_slabs s ! i = new_Slab" using Cons.prems(3,4) by simp_all
  have I: "slab_inv (Suc i) F ?s0" by (rule slab_inv_make [OF W(1) i new]) (use Cons.prems(5) in simp)
  obtain a s2 where A: "slab_HeapAlloc os (unat (slab_stride (fst c)) * unat (snd c)) ?s0 = (Some a, s2)"
    and L: "slab_init_loop os (Suc i) cs (carve_region i (snd c) a (upd_slab i (\<lambda>b. b\<lparr>sl_initialMemory := Some a\<rparr>) s2)) = (True, s1)"
    using Cons.prems(1) by (auto split: prod.splits option.splits)
  let ?m = "max 1 (unat (slab_stride (fst c)) * unat (snd c))" and ?f = "\<lambda>b. b\<lparr>sl_initialMemory := Some a\<rparr>"
  have m: "0 < ?m" by simp
  have s2: "s2 = ?s0\<lparr>sp_regions := (a, ?m) # sp_regions ?s0\<rparr>" and fr: "fresh_region (sp_regions ?s0) a ?m"
    using slab_HeapAlloc_cases [OF A] by blast+
  have sl: "sp_slabs s2 = sp_slabs ?s0" "sp_heap s2 = sp_heap s" "sp_regions s2 = (a, ?m) # sp_regions s" "sp_table s2 = sp_table s"
    by (simp_all add: s2)
  have I2: "slab_inv (Suc i) F s2" unfolding s2 by (rule slab_inv_alloc [OF I fr m])
  have clear: "free_of_headers (sp_heap s2) (sp_regions s2) a" using fresh_free_of_headers [OF I fr m] by (simp add: sl)
  have len2: "i < length (sp_slabs s2)" and made: "sp_slabs s2 ! i = make_slab c" using i by (simp_all add: sl)
  have T2: "tables_ok s2"
    by (rule tables_okI [OF W(2)]) (use i new in \<open>auto simp: sl upd_slab_nth make_slab_def new_Slab_def\<close>)
  have "a \<notin> fst ` set (sp_regions s)" using fresh_new_address [OF I fr m] by simp
  then have "sl_extraTable (sp_slabs s ! j) \<noteq> Some a" if "j < length (sp_slabs s)" for j
    using W(2) that unfolding tables_ok_def by blast
  then have at: "sl_extraTable (sp_slabs s2 ! j) \<noteq> Some a" if "j < length (sp_slabs s2)" for j
    using that i by (simp add: sl upd_slab_nth make_slab_def new_Slab_def)
  have A2: "accounted {a} s2"
    by (rule accountedI [OF W(3), of _ "{a}"]) (use i new in \<open>auto simp: sl upd_slab_nth new_Slab_def slab_memory_def split: if_splits\<close>)
  have J: "slab_inv (Suc i) F (upd_slab i ?f s2)" "slab_frame s2 (upd_slab i ?f s2)"
    using slab_inv_upd [OF I2 len2, of ?f] by (simp_all add: made make_slab_def new_Slab_def)
  show ?case
  proof (rule add_region_wf [OF I2 T2 A2 lessI _ clear at J, of ?m "snd c"])
    fix ys
    let ?s3 = "carve_region i (snd c) a (upd_slab i ?f s2)"
    assume W3: "slab_wf (Suc i) (F(i := ys @ F i)) ?s3" and O3: "out_blocks (F(i := ys @ F i)) ?s3 = out_blocks F s2" and F3: "slab_frame s2 ?s3"
    have "length (sp_slabs ?s3) = Suc i + length cs" using F3 Cons.prems(3) by (simp add: slab_frame_def sl)
    moreover have "sp_slabs ?s3 ! j = new_Slab" if "Suc i \<le> j" "j < length (sp_slabs ?s3)" for j
      using Cons.prems(4) [of j] that F3 by (simp add: carve_region_def slab_frame_def sl split: prod.splits)
    ultimately have "\<exists>F'. slab_wf (length (sp_slabs s1)) F' s1 \<and> out_blocks F' s1 = {} \<and> sp_violations s1 = sp_violations ?s3"
      by (intro Cons.IH [OF L W3]) (use Cons.prems(5,6) O3 in \<open>auto simp: out_blocks_def sl\<close>)
    moreover have "sp_violations ?s3 = sp_violations s" using F3 by (simp add: slab_frame_def s2)
    ultimately show ?case by simp
  qed (auto simp: made make_slab_def new_Slab_def slab_memory_def sl i)
qed

lemma slab_Initialize_wf:
  assumes "slab_Initialize os (Some cs) new_SlabMemoryPool = (True, s)" and "\<forall>c \<in> set cs. unat (fst c) \<le> 2 ^ 32 - 32" and "length cs < 2 ^ 32"
  shows "\<exists>F. slab_wf (length (sp_slabs s)) F s \<and> out_blocks F s = {} \<and> sp_initialized s \<and> sp_violations s = 0"
proof -
  let ?n = new_SlabMemoryPool
  obtain t s1 s2 where A: "slab_HeapAlloc os (128 * length cs) ?n = (Some t, s1)"
    and L: "slab_init_loop os 0 cs (s1\<lparr>sp_table := Some t, sp_slabs := replicate (length cs) new_Slab\<rparr>) = (True, s2)"
    and s: "s = s2\<lparr>sp_initialized := True\<rparr>"
    using assms(1) by (auto simp: slab_Initialize_def split: prod.splits option.splits bool.splits if_splits)
  let ?s1 = "s1\<lparr>sp_table := Some t, sp_slabs := replicate (length cs) new_Slab\<rparr>"
  have s1: "s1 = ?n\<lparr>sp_regions := [(t, max 1 (128 * length cs))]\<rparr>"
    using slab_HeapAlloc_cases [OF A] by (auto simp: new_SlabMemoryPool_def)
  have "slab_inv 0 (\<lambda>_. []) ?s1" using assms(3)
    by (auto simp: slab_inv_def heap_sound_def regions_ok_def slab_ok_def blocks_def s1 new_SlabMemoryPool_def new_Slab_def)
  then have "slab_wf 0 (\<lambda>_. []) ?s1"
    by (auto simp: slab_wf_def tables_ok_def accounted_def s1 new_Slab_def new_SlabMemoryPool_def)
  from slab_init_loop_wf [OF L this] assms(2) have "\<exists>F. slab_wf (length (sp_slabs s2)) F s2 \<and> out_blocks F s2 = {} \<and> sp_violations s2 = 0"
    by (simp add: out_blocks_def s1 new_SlabMemoryPool_def)
  moreover have "slab_wf n F s = slab_wf n F s2" "out_blocks F s = out_blocks F s2" for n F
    by (simp_all add: s slab_wf_def slab_inv_def heap_sound_def slab_ok_def blocks_def width_def tables_ok_def accounted_def out_blocks_def)
  ultimately show ?thesis by (simp add: s)
qed

section \<open>Acquiring and releasing\<close>

lemma finite_blocks:
  assumes "slab_inv n F s"
  shows "finite (blocks s i)" and "finite (out_blocks F s)"
proof -
  have "finite (dom (sp_heap s))" using assms by (simp add: slab_inv_def heap_sound_def)
  moreover have "blocks s i \<subseteq> dom (sp_heap s)" "out_blocks F s \<subseteq> dom (sp_heap s)" by (auto simp: blocks_def out_blocks_def)
  ultimately show "finite (blocks s i)" and "finite (out_blocks F s)" by (auto intro: finite_subset)
qed

lemma slab_ok_other:
  assumes "slab_ok s F j" and "sp_slabs s' ! j = sp_slabs s ! j" and "F' j = F j" and "sp_regions s' = sp_regions s"
    and "\<And>x. x \<in> set (F j) \<Longrightarrow> sp_heap s' x = sp_heap s x" and "blocks s' j = blocks s j" and "dom (sp_heap s') = dom (sp_heap s)"
  shows "slab_ok s' F' j"
proof -
  have "chain (slab_links (sp_heap s')) (sl_freeList (sp_slabs s ! j)) (F j) = chain (slab_links (sp_heap s)) (sl_freeList (sp_slabs s ! j)) (F j)"
    using assms(5) by (intro lseg_cong) (simp_all add: slab_links_def)
  moreover have "free_of_headers (sp_heap s') rs t = free_of_headers (sp_heap s) rs t" for rs t
    using assms(7) unfolding free_of_headers_def by (metis domIff)
  ultimately show ?thesis using assms(1-4,6) by (simp add: slab_ok_def)
qed

lemma slab_take_wf:
  assumes W: "slab_wf n F s" and i: "i < n" and t: "slab_take i s = (r, s1)"
  obtains "r = None" and "s1 = s"
  | x xs k where "r = Some (x + 16)" and "F i = x # xs" and "slab_wf n (F(i := xs)) s1" and "slab_frame s s1" and "sp_heap s x = Some k"
    and "unat (sh_bucketIndex k) = i" and "out_blocks (F(i := xs)) s1 = insert x (out_blocks F s)"
proof (cases "sl_freeList (sp_slabs s ! i)")
  case None
  with t that(1) show thesis by (simp add: slab_take_def)
next
  case (Some x)
  let ?b = "sp_slabs s ! i"
  have I: "slab_inv n F s" and len: "i < length (sp_slabs s)" and T: "tables_ok s" and A: "accounted {} s"
    using W i by (auto simp: slab_wf_def slab_inv_def)
  have ok: "slab_ok s F j" if "j < length (sp_slabs s)" for j using I that by (simp add: slab_inv_def)
  obtain xs where xs: "F i = x # xs" "chain (slab_links (sp_heap s)) (slab_links (sp_heap s) x) xs"
    using ok [OF len] Some chain_Some by (fastforce simp: slab_ok_def)
  have x: "x \<in> blocks s i" "x \<notin> set xs" using ok [OF len] xs chain_distinct [of "slab_links (sp_heap s)" "Some x" "F i"] Some
    by (auto simp: slab_ok_def)
  obtain k where k: "sp_heap s x = Some k" "unat (sh_bucketIndex k) = i" using x(1) by (auto simp: blocks_def)
  let ?f = "\<lambda>b. b\<lparr>sl_freeList := slab_links (sp_heap s) x, sl_allocatedCount := sl_allocatedCount b + 1,
      sl_totalAcquire := sl_totalAcquire b + 1,
      sl_peakAllocated := (if sl_allocatedCount b + 1 > sl_peakAllocated b then sl_allocatedCount b + 1 else sl_peakAllocated b)\<rparr>"
  have s1: "r = Some (x + 16)" "s1 = upd_slab i ?f s" using t Some by (simp_all add: slab_take_def)
  have "blocks s i - set xs = insert x (blocks s i - set (F i))" using x xs(1) by auto
  then have card: "card (blocks s i - set xs) = Suc (card (blocks s i - set (F i)))"
  proof -
    have "x \<notin> blocks s i - set (F i)" using xs(1) by simp
    then show ?thesis using finite_blocks(1) [OF I] unfolding \<open>blocks s i - set xs = _\<close> by (subst card_insert_disjoint) auto
  qed
  have bl: "blocks s1 j = blocks s j" for j by (simp add: blocks_def s1)
  have "slab_ok s1 (F(i := xs)) j" if j: "j < length (sp_slabs s)" for j
  proof (cases "j = i")
    case True
    have "sl_totalAcquire ?b + 1 - sl_totalRelease ?b = of_nat (card (blocks s i - set (F i))) + 1"
      using ok [OF len] by (simp add: slab_ok_def algebra_simps)
    then show ?thesis using ok [OF len] True len xs card bl by (simp add: slab_ok_def s1 add.commute)
  next
    case False
    then show ?thesis by (intro slab_ok_other [OF ok [OF j]]) (simp_all add: s1 bl [unfolded s1])
  qed
  moreover have "width s1 l = width s l" for l using len by (simp add: width_def s1 upd_slab_nth)
  ultimately have "slab_inv n (F(i := xs)) s1"
    using I len by (simp add: slab_inv_def heap_sound_def) (simp add: s1 upd_slab_nth)
  moreover have "tables_ok s1" by (rule tables_okI [OF T]) (use len in \<open>auto simp: s1 upd_slab_nth\<close>)
  moreover have "accounted {} s1" by (rule accountedI [OF A, of _ "{}"]) (use len in \<open>auto simp: s1 upd_slab_nth slab_memory_def\<close>)
  ultimately have "slab_wf n (F(i := xs)) s1" by (simp add: slab_wf_def)
  moreover have "slab_frame s s1" using len by (simp add: slab_frame_def s1 upd_slab_nth)
  moreover have "out_blocks (F(i := xs)) s1 = insert x (out_blocks F s)" using k x(2) xs(1) by (auto simp: out_blocks_def s1)
  ultimately show thesis using that(2) s1(1) xs(1) k by blast
qed

lemma slab_scan_Some:
  "slab_scan sz bs j = Some i \<Longrightarrow> j \<le> i \<and> i < j + length bs \<and> sz \<le> ucast (sl_blockSize (bs ! (i - j)))"
proof (induction bs arbitrary: j)
  case (Cons b bs)
  show ?case
  proof (cases "sz \<le> ucast (sl_blockSize b)")
    case False
    then have "Suc j \<le> i \<and> i < Suc j + length bs \<and> sz \<le> ucast (sl_blockSize (bs ! (i - Suc j)))"
      using Cons.IH [of "Suc j"] Cons.prems by simp
    moreover from this have "i - j = Suc (i - Suc j)" by linarith
    ultimately show ?thesis by simp
  qed (use Cons.prems in simp)
qed simp

lemma slab_wf_upd:
  assumes W: "slab_wf n F s" and i: "i < length (sp_slabs s)"
    and same: "sl_freeList (f (sp_slabs s ! i)) = sl_freeList (sp_slabs s ! i)" "sl_allocatedCount (f (sp_slabs s ! i)) = sl_allocatedCount (sp_slabs s ! i)"
      "sl_blockSize (f (sp_slabs s ! i)) = sl_blockSize (sp_slabs s ! i)" "sl_stride (f (sp_slabs s ! i)) = sl_stride (sp_slabs s ! i)"
      "sl_totalAcquire (f (sp_slabs s ! i)) = sl_totalAcquire (sp_slabs s ! i)" "sl_totalRelease (f (sp_slabs s ! i)) = sl_totalRelease (sp_slabs s ! i)"
      "sl_extraTable (f (sp_slabs s ! i)) = sl_extraTable (sp_slabs s ! i)" "sl_extraMemoryCapacity (f (sp_slabs s ! i)) = sl_extraMemoryCapacity (sp_slabs s ! i)"
      "sl_extraMemoryBlocks (f (sp_slabs s ! i)) = sl_extraMemoryBlocks (sp_slabs s ! i)" "sl_initialMemory (f (sp_slabs s ! i)) = sl_initialMemory (sp_slabs s ! i)"
  shows "slab_wf n F (upd_slab i f s)" and "slab_frame s (upd_slab i f s)"
    and "out_blocks F (upd_slab i f s) = out_blocks F s"
proof -
  have I: "slab_inv n F s" and T: "tables_ok s" and A: "accounted {} s" using W by (simp_all add: slab_wf_def)
  have ok: "slab_ok s F i" using I i by (simp add: slab_inv_def)
  have J: "slab_inv n F (upd_slab i f s)" "slab_frame s (upd_slab i f s)"
    using slab_inv_upd [of n F s i f, OF I i same(1-6)] ok same(7-9) by (auto simp: slab_ok_def)
  moreover have "tables_ok (upd_slab i f s)" by (rule tables_okI [OF T]) (use i same(7) in \<open>auto simp: upd_slab_nth\<close>)
  moreover have "accounted {} (upd_slab i f s)"
    by (rule accountedI [OF A, of _ "{}"]) (use i same(7-10) in \<open>auto simp: upd_slab_nth slab_memory_def split: option.splits\<close>)
  ultimately show "slab_wf n F (upd_slab i f s)" and "slab_frame s (upd_slab i f s)" by (simp_all add: slab_wf_def)
  show "out_blocks F (upd_slab i f s) = out_blocks F s" by (simp add: out_blocks_def)
qed

text \<open>A block that is acquired was not handed out, and has room for what was asked for.\<close>

definition acquired :: "nat \<Rightarrow> (nat \<Rightarrow> addr list) \<Rightarrow> SlabMemoryPool \<Rightarrow> u64 \<Rightarrow> addr option \<Rightarrow> SlabMemoryPool \<Rightarrow> bool" where
  "acquired n F s sz r s1 \<longleftrightarrow> slab_frame s s1 \<and> (\<exists>F'. slab_wf n F' s1 \<and>
     (case r of None \<Rightarrow> out_blocks F' s1 = out_blocks F s
      | Some a \<Rightarrow> (\<exists>x k. a = x + 16 \<and> x \<notin> out_blocks F s \<and> out_blocks F' s1 = insert x (out_blocks F s) \<and>
                   sp_heap s1 x = Some k \<and> 16 + unat sz \<le> width s1 k)))"

lemma slab_take_acquired:
  assumes W: "slab_wf n F s" and i: "i < n" and sz: "unat sz \<le> unat (sl_blockSize (sp_slabs s ! i))" and t: "slab_take i s = (r, s1)"
  shows "acquired n F s sz r s1"
  using W i t
proof (cases rule: slab_take_wf)
  case 1
  with W show ?thesis by (auto simp: acquired_def)
next
  case (2 x xs k)
  have new: "x \<notin> out_blocks F s" using 2(2,5,6) by (simp add: out_blocks_def)
  obtain k' where k': "sp_heap s1 x = Some k'" "sh_bucketIndex k' = sh_bucketIndex k"
    using 2(4,5) unfolding slab_frame_def by blast
  have "16 + unat (sl_blockSize (sp_slabs s1 ! i)) \<le> unat (sl_stride (sp_slabs s1 ! i))"
    using 2(3) i by (simp add: slab_wf_def slab_inv_def)
  moreover have "i < length (sp_slabs s)" using i W by (simp add: slab_wf_def slab_inv_def)
  then have "sl_blockSize (sp_slabs s1 ! i) = sl_blockSize (sp_slabs s ! i)" using 2(4) by (simp add: slab_frame_def)
  ultimately have "16 + unat sz \<le> width s1 k'" using sz 2(6) k'(2) by (simp add: width_def)
  then show ?thesis using 2(1,3,4,7) new k'(1) unfolding acquired_def by auto
qed

lemma acquired_after:
  assumes "slab_frame s s0" and "out_blocks F' s0 = out_blocks F s" and "acquired n F' s0 sz r s1"
  shows "acquired n F s sz r s1"
  using assms(3) slab_frame_trans [OF assms(1), of s1] unfolding acquired_def assms(2) by blast

lemma slab_Acquire_acquired:
  assumes W: "slab_wf n F s" and n: "n = length (sp_slabs s)" and A: "slab_Acquire os sz s = (r, s1)"
  shows "acquired n F s sz r s1"
proof -
  have none: "acquired n F s sz None s" using W by (auto simp: acquired_def)
  show ?thesis
  proof (cases "\<not> sp_initialized s \<or> sz = 0 \<or> FindSlabIndex sz s = None")
    case True
    then show ?thesis using A none by (auto simp: slab_Acquire_def split: if_splits)
  next
    case False
    then obtain i where fi: "FindSlabIndex sz s = Some i" by blast
    then have i: "i < n" "sz \<le> ucast (sl_blockSize (sp_slabs s ! i))"
      using slab_scan_Some [of sz "sp_slabs s" 0 i] n by (simp_all add: FindSlabIndex_def)
    then have sz: "unat sz \<le> unat (sl_blockSize (sp_slabs s ! i))" by (simp add: word_le_nat_alt unat_ucast_64)
    show ?thesis
    proof (cases "sl_freeList (sp_slabs s ! i) = None")
      case False
      then have "slab_take i s = (r, s1)" using A fi \<open>\<not> (_ \<or> _ \<or> _)\<close> by (auto simp: slab_Acquire_def)
      then show ?thesis by (rule slab_take_acquired [OF W i(1) sz])
    next
      case True
      obtain g s0 where E: "AllocateExtraBlocks os i (sl_blockCount (sp_slabs s ! i)) s = (g, s0)" by fastforce
      show ?thesis
      proof (cases rule: AllocateExtraBlocks_wf [OF W i(1) E])
        case 1
        let ?f = "\<lambda>b. b\<lparr>sl_acquireFailCount := sl_acquireFailCount b + 1\<rparr>"
        have "r = None" "s1 = upd_slab i ?f s" using A fi \<open>\<not> (_ \<or> _ \<or> _)\<close> True E 1 by (auto simp: slab_Acquire_def)
        then show ?thesis using slab_wf_upd [OF W, of i ?f] i(1) n by (auto simp: acquired_def)
      next
        case (2 ys)
        let ?f = "\<lambda>b. b\<lparr>sl_growthCount := sl_growthCount b + 1\<rparr>"
        have t: "slab_take i (upd_slab i ?f s0) = (r, s1)" using A fi \<open>\<not> (_ \<or> _ \<or> _)\<close> True E 2(1) by (simp add: slab_Acquire_def)
        have i0: "i < length (sp_slabs s0)" using 2(4) i(1) n by (simp add: slab_frame_def)
        note U = slab_wf_upd [OF 2(2) i0, of ?f, simplified]
        have "unat sz \<le> unat (sl_blockSize (sp_slabs (upd_slab i ?f s0) ! i))" using sz 2(4) i(1) n i0 by (simp add: slab_frame_def)
        then have "acquired n (F(i := ys @ F i)) (upd_slab i ?f s0) sz r s1" by (rule slab_take_acquired [OF U(1) i(1) _ t])
        then show ?thesis using acquired_after [OF slab_frame_trans [OF 2(4) U(2)]] U(3) 2(3) by simp
      qed
    qed
  qed
qed

lemma out_card:
  assumes "slab_inv n F s"
  shows "card (blocks s i - set (F i)) \<le> card (out_blocks F s)"
  using finite_blocks(2) [OF assms] by (intro card_mono) (auto simp: blocks_def out_blocks_def)

lemma heap_sound_relink:
  assumes hs: "heap_sound n s" and r: "sp_regions s1 = sp_regions s" and w: "\<And>l. width s1 l = width s l" and d: "dom (sp_heap s1) = dom (sp_heap s)"
    and like: "\<And>y l. sp_heap s1 y = Some l \<Longrightarrow>
      \<exists>l'. sp_heap s y = Some l' \<and> sh_magic l' = sh_magic l \<and> sh_bucketIndex l' = sh_bucketIndex l"
  shows "heap_sound n s1"
  unfolding heap_sound_def w r d
proof (intro conjI allI impI)
  show "finite (dom (sp_heap s))" "regions_ok (sp_regions s)" using hs by (simp_all add: heap_sound_def)
  fix y l assume "sp_heap s1 y = Some l"
  then obtain l' where l': "sp_heap s y = Some l'" "sh_magic l' = sh_magic l" "sh_bucketIndex l' = sh_bucketIndex l" using like by blast
  then have "width s l' = width s l" by (simp add: width_def)
  moreover have "sh_magic l' = HEADER_MAGIC \<and> unat (sh_bucketIndex l') < n \<and> (\<exists>(b, m) \<in> set (sp_regions s). b \<le> y \<and> y + width s l' \<le> b + m)"
    using hs l'(1) unfolding heap_sound_def by blast
  ultimately show "sh_magic l = HEADER_MAGIC" "unat (sh_bucketIndex l) < n"
    "\<exists>(b, m) \<in> set (sp_regions s). b \<le> y \<and> y + width s l \<le> b + m" using l'(2,3) by simp_all
next
  fix y z l k assume "sp_heap s1 y = Some l" and "sp_heap s1 z = Some k" and yz: "y < z"
  then obtain l' k' where l': "sp_heap s y = Some l'" "sh_bucketIndex l' = sh_bucketIndex l" "sp_heap s z = Some k'" using like by metis
  then have "width s l' = width s l" by (simp add: width_def)
  moreover have "y + width s l' \<le> z" using hs l'(1,3) yz unfolding heap_sound_def by blast
  ultimately show "y + width s l \<le> z" by simp
qed

lemma slab_Release_wf:
  assumes W: "slab_wf n F s" and x: "x \<in> out_blocks F s" and few: "card (out_blocks F s) < 2 ^ 32"
  defines "s1 \<equiv> slab_Release (Some (x + 16)) s"
  obtains i where "slab_wf n (F(i := x # F i)) s1" and "out_blocks (F(i := x # F i)) s1 = out_blocks F s - {x}" and "slab_frame s s1"
    and "dom (sp_heap s1) = dom (sp_heap s)"
proof -
  have I: "slab_inv n F s" and T: "tables_ok s" and A: "accounted {} s" using W by (simp_all add: slab_wf_def)
  obtain k where k: "sp_heap s x = Some k" "x \<notin> set (F (unat (sh_bucketIndex k)))" using x by (auto simp: out_blocks_def)
  define i where "i = unat (sh_bucketIndex k)"
  let ?b = "sp_slabs s ! i" and ?c = "card (blocks s i - set (F i))"
  have len: "i < length (sp_slabs s)" and mg: "sh_magic k = HEADER_MAGIC" using slab_invD(1,3) [OF I k(1)] by (simp_all add: i_def)
  have ok: "slab_ok s F j" if "j < length (sp_slabs s)" for j using I that by (simp add: slab_inv_def)
  have xi: "x \<in> blocks s i" "x \<notin> set (F i)" using k by (auto simp: blocks_def i_def)
  have fin: "finite (blocks s i - set (F i))" using finite_blocks(1) [OF I] by simp
  have c: "?c < 2 ^ 32" "?c \<noteq> 0" using out_card [OF I, of i] few xi fin by auto
  have cnt: "sl_allocatedCount ?b = of_nat ?c" "sl_totalAcquire ?b - sl_totalRelease ?b = of_nat ?c" using ok [OF len] by (simp_all add: slab_ok_def)
  have "unat (of_nat ?c :: u32) = ?c" using c(1) by (simp add: unat_of_nat)
  then have nz: "sl_allocatedCount ?b \<noteq> 0" using c(2) cnt(1) by auto
  let ?h = "(sp_heap s)(x \<mapsto> k\<lparr>sh_next := sl_freeList ?b\<rparr>)"
  let ?f = "\<lambda>b. b\<lparr>sl_freeList := Some x, sl_allocatedCount := sl_allocatedCount b - 1, sl_totalRelease := sl_totalRelease b + 1\<rparr>"
  have s1: "s1 = upd_slab i ?f (s\<lparr>sp_heap := ?h\<rparr>)"
    using k(1) mg len nz by (simp add: s1_def slab_Release_def Let_def i_def)
  have sl: "sp_slabs s1 ! j = (if j = i then ?f ?b else sp_slabs s ! j)" "length (sp_slabs s1) = length (sp_slabs s)"
    "sp_heap s1 = ?h" "sp_regions s1 = sp_regions s" "sp_table s1 = sp_table s" for j using len by (simp_all add: s1 upd_slab_nth)
  have d: "dom ?h = dom (sp_heap s)" using k(1) by auto
  have bl: "blocks s1 j = blocks s j" for j using k(1) by (auto simp: blocks_def sl)
  have card: "card (blocks s i - set (x # F i)) = ?c - 1"
  proof -
    have "blocks s i - set (x # F i) = (blocks s i - set (F i)) - {x}" by auto
    then show ?thesis using xi fin by simp
  qed
  have okj: "slab_ok s1 (F(i := x # F i)) j" if j: "j < length (sp_slabs s)" for j
  proof (cases "j = i")
    case True
    have "chain (slab_links ?h) (sl_freeList ?b) (F i) = chain (slab_links (sp_heap s)) (sl_freeList ?b) (F i)"
      using xi(2) by (intro lseg_cong) (auto simp: slab_links_def)
    then have "chain (slab_links ?h) (Some x) (x # F i)" using ok [OF len] by (simp add: slab_ok_def slab_links_def)
    moreover have "sl_totalAcquire ?b - (sl_totalRelease ?b + 1) = of_nat (?c - 1)"
      using cnt(2) c(2) by (simp add: of_nat_diff algebra_simps)
    moreover have "sl_allocatedCount ?b - 1 = of_nat (?c - 1)" using cnt(1) c(2) by (simp add: of_nat_diff)
    moreover have "free_of_headers ?h rs t = free_of_headers (sp_heap s) rs t" for rs t
      using d unfolding free_of_headers_def by (metis domIff)
    ultimately show ?thesis using ok [OF len] True xi(1) card unfolding slab_ok_def by (simp add: sl bl)
  next
    case False
    have "x \<notin> set (F j)" using ok [OF j] False k(1) by (auto simp: slab_ok_def blocks_def i_def)
    then show ?thesis using False by (intro slab_ok_other [OF ok [OF j]]) (auto simp: sl bl k(1))
  qed
  have "heap_sound n s1"
  proof (rule heap_sound_relink [of n s])
    show "heap_sound n s" using I by (simp add: slab_inv_def)
    show "width s1 l = width s l" for l by (simp add: width_def sl)
    show "\<exists>l'. sp_heap s y = Some l' \<and> sh_magic l' = sh_magic l \<and> sh_bucketIndex l' = sh_bucketIndex l" if "sp_heap s1 y = Some l" for y l
      using that k(1) by (cases "y = x") (auto simp: sl)
  qed (auto simp: sl k(1))
  then have "slab_inv n (F(i := x # F i)) s1" using I okj by (simp add: slab_inv_def sl)
  moreover have "tables_ok s1" by (rule tables_okI [OF T]) (auto simp: sl)
  moreover have "accounted {} s1" by (rule accountedI [OF A, of _ "{}"]) (auto simp: sl slab_memory_def)
  ultimately have "slab_wf n (F(i := x # F i)) s1" by (simp add: slab_wf_def)
  moreover have "out_blocks (F(i := x # F i)) s1 = out_blocks F s - {x}" using k(1) by (auto simp: out_blocks_def sl i_def)
  moreover have "slab_frame s s1" using k(1) len by (auto simp: slab_frame_def s1 upd_slab_nth)
  ultimately show thesis using that d sl(3) by metis
qed

section \<open>Histories\<close>

text \<open>
  What the threads do with the pool, one operation after the other; the heap may answer each differently. The run keeps the payloads that are
  handed out, with the size that was asked for, and notes whether every release was of one of them (\<open>legal\<close>) and every payload that was acquired
  lies apart from all of them (\<open>apart\<close>).
\<close>

datatype slab_op = Slab_Acquire OS u64 | Slab_Release addr

definition apart_from :: "(addr \<times> u64) list \<Rightarrow> addr \<Rightarrow> u64 \<Rightarrow> bool" where
  "apart_from out a sz \<longleftrightarrow> list_all (\<lambda>(b, m). b \<noteq> a \<and> (a + unat sz \<le> b \<or> b + unat m \<le> a)) out"

primrec slab_run :: "slab_op list \<Rightarrow> SlabMemoryPool \<Rightarrow> (addr \<times> u64) list \<Rightarrow> SlabMemoryPool \<times> (addr \<times> u64) list \<times> bool \<times> bool" where
  "slab_run [] s out = (s, out, True, True)"
| "slab_run (p # ops) s out =
     (case p of
        Slab_Acquire os sz \<Rightarrow>
          (case slab_Acquire os sz s of
             (None, s1) \<Rightarrow> slab_run ops s1 out
           | (Some a, s1) \<Rightarrow>
               (case slab_run ops s1 ((a, sz) # out) of
                  (s2, out2, legal, apart) \<Rightarrow> (s2, out2, legal, apart_from out a sz \<and> apart)))
      | Slab_Release a \<Rightarrow>
          (case slab_run ops (slab_Release (Some a) s) (filter (\<lambda>x. fst x \<noteq> a) out) of
             (s2, out2, legal, apart) \<Rightarrow> (s2, out2, a \<in> fst ` set out \<and> legal, apart)))"

definition holds_slabs :: "(nat \<Rightarrow> addr list) \<Rightarrow> SlabMemoryPool \<Rightarrow> (addr \<times> u64) list \<Rightarrow> bool" where
  "holds_slabs F s out \<longleftrightarrow> distinct (map fst out) \<and> fst ` set out = (\<lambda>x. x + 16) ` out_blocks F s \<and>
     (\<forall>(a, m) \<in> set out. \<exists>x k. a = x + 16 \<and> sp_heap s x = Some k \<and> 16 + unat m \<le> width s k)"

lemma holds_slabs_frame:
  assumes I: "slab_inv n F s" and f: "slab_frame s s1" and x: "sp_heap s x = Some k" "16 + m \<le> width s k"
  shows "\<exists>k. sp_heap s1 x = Some k \<and> 16 + m \<le> width s1 k"
proof -
  obtain k' where "sp_heap s1 x = Some k'" "sh_bucketIndex k' = sh_bucketIndex k" using f x(1) unfolding slab_frame_def by blast
  moreover have "unat (sh_bucketIndex k) < length (sp_slabs s)" using slab_invD(3) [OF I x(1)] .
  ultimately show ?thesis using f x(2) by (simp add: slab_frame_def width_def)
qed

lemma card_out_blocks: "holds_slabs F s out \<Longrightarrow> card (out_blocks F s) = length out"
proof -
  assume h: "holds_slabs F s out"
  have "card (out_blocks F s) = card ((\<lambda>x. x + 16) ` out_blocks F s)" by (rule card_image [symmetric]) (simp add: inj_on_def)
  also have "\<dots> = card (set (map fst out))" using h by (simp add: holds_slabs_def)
  also have "\<dots> = length out" using h distinct_card by (fastforce simp: holds_slabs_def)
  finally show ?thesis .
qed

lemma holds_slabs_acquire:
  assumes W: "slab_wf n F s" and h: "holds_slabs F s out" and a: "acquired n F s sz (Some a) s1"
  shows "apart_from out a sz \<and> (\<exists>F'. slab_wf n F' s1 \<and> holds_slabs F' s1 ((a, sz) # out))"
proof -
  obtain F' x k where f: "slab_frame s s1" and W1: "slab_wf n F' s1" and ax: "a = x + 16" and new: "x \<notin> out_blocks F s"
    and ob: "out_blocks F' s1 = insert x (out_blocks F s)" and k: "sp_heap s1 x = Some k" "16 + unat sz \<le> width s1 k"
    using a by (auto simp: acquired_def)
  have I: "slab_inv n F s" and I1: "slab_inv n F' s1" using W W1 by (simp_all add: slab_wf_def)
  have old: "\<exists>y l. b = y + 16 \<and> sp_heap s1 y = Some l \<and> 16 + unat m \<le> width s1 l" if "(b, m) \<in> set out" for b m
    using h that holds_slabs_frame [OF I f] by (fastforce simp: holds_slabs_def)
  have na: "a \<notin> fst ` set out" using h new ax by (auto simp: holds_slabs_def)
  have "b \<noteq> a \<and> (a + unat sz \<le> b \<or> b + unat m \<le> a)" if bm: "(b, m) \<in> set out" for b m
  proof -
    obtain y l where y: "b = y + 16" "sp_heap s1 y = Some l" "16 + unat m \<le> width s1 l" using old [OF bm] by blast
    have "b \<noteq> a" using na bm by force
    moreover have "x < y \<longrightarrow> x + width s1 k \<le> y" "y < x \<longrightarrow> y + width s1 l \<le> x"
      using I1 k(1) y(2) unfolding slab_inv_def heap_sound_def by blast+
    ultimately show ?thesis using y(1,3) k(2) ax by linarith
  qed
  then have "apart_from out a sz" by (auto simp: apart_from_def list_all_iff)
  moreover have "holds_slabs F' s1 ((a, sz) # out)" using h na ob ax k old by (fastforce simp: holds_slabs_def)
  ultimately show ?thesis using W1 by blast
qed

lemma holds_slabs_same:
  assumes W: "slab_wf n F s" and h: "holds_slabs F s out" and a: "acquired n F s sz None s1"
  shows "\<exists>F'. slab_wf n F' s1 \<and> holds_slabs F' s1 out"
proof -
  obtain F' where f: "slab_frame s s1" "slab_wf n F' s1" "out_blocks F' s1 = out_blocks F s" using a by (auto simp: acquired_def)
  have "slab_inv n F s" using W by (simp add: slab_wf_def)
  then have "holds_slabs F' s1 out" using h f(3) holds_slabs_frame [OF _ f(1)] by (fastforce simp: holds_slabs_def)
  with f(2) show ?thesis by blast
qed

lemma holds_slabs_release:
  assumes W: "slab_wf n F s" and h: "holds_slabs F s out" and a: "a \<in> fst ` set out" and few: "length out < 2 ^ 32"
  shows "\<exists>F'. slab_wf n F' (slab_Release (Some a) s) \<and> holds_slabs F' (slab_Release (Some a) s) (filter (\<lambda>x. fst x \<noteq> a) out) \<and>
      slab_frame s (slab_Release (Some a) s)"
proof -
  let ?s = "slab_Release (Some a) s"
  obtain x where x: "x \<in> out_blocks F s" "a = x + 16" using h a by (auto simp: holds_slabs_def)
  have "card (out_blocks F s) < 2 ^ 32" using card_out_blocks [OF h] few by simp
  then obtain i where R: "slab_wf n (F(i := x # F i)) ?s" "out_blocks (F(i := x # F i)) ?s = out_blocks F s - {x}" "slab_frame s ?s"
    using slab_Release_wf [OF W x(1)] x(2) by metis
  have I: "slab_inv n F s" using W by (simp add: slab_wf_def)
  have "fst ` set (filter (\<lambda>x. fst x \<noteq> a) out) = fst ` set out - {a}" by auto
  also have "\<dots> = (\<lambda>x. x + 16) ` (out_blocks F s - {x})" using h x(2) by (auto simp: holds_slabs_def)
  finally have out: "fst ` set (filter (\<lambda>x. fst x \<noteq> a) out) = (\<lambda>x. x + 16) ` out_blocks (F(i := x # F i)) ?s" using R(2) by simp
  have "\<exists>x k. b = x + 16 \<and> sp_heap ?s x = Some k \<and> 16 + unat m \<le> width ?s k" if "(b, m) \<in> set out" for b m
    using h that holds_slabs_frame [OF I R(3)] unfolding holds_slabs_def by blast
  then have "holds_slabs (F(i := x # F i)) ?s (filter (\<lambda>x. fst x \<noteq> a) out)"
    using h out distinct_map_filter [of fst out] unfolding holds_slabs_def by auto
  with R show ?thesis by blast
qed

lemma slab_run_wf:
  "slab_wf (length (sp_slabs s)) F s \<Longrightarrow> holds_slabs F s out \<Longrightarrow> length out + length ops < 2 ^ 32 \<Longrightarrow>
     slab_run ops s out = (s', out', True, apart) \<Longrightarrow>
     apart \<and> (\<exists>F'. slab_wf (length (sp_slabs s')) F' s' \<and> holds_slabs F' s' out') \<and> sp_violations s' = sp_violations s \<and>
     sp_initialized s' = sp_initialized s \<and> length out' < 2 ^ 32"
proof (induction ops arbitrary: s F out apart)
  case Nil
  then show ?case by auto
next
  case (Cons p ops)
  let ?n = "length (sp_slabs s)"
  note W = Cons.prems(1) and h = Cons.prems(2)
  have same: "length (sp_slabs s1) = ?n \<and> sp_violations s1 = sp_violations s \<and> sp_initialized s1 = sp_initialized s" if "slab_frame s s1" for s1
    using that by (simp add: slab_frame_def)
  show ?case
  proof (cases p)
    case (Slab_Acquire os sz)
    obtain r s1 where A: "slab_Acquire os sz s = (r, s1)" by fastforce
    have acq: "acquired ?n F s sz r s1" by (rule slab_Acquire_acquired [OF W refl A])
    then have f: "slab_frame s s1" by (simp add: acquired_def)
    show ?thesis
    proof (cases r)
      case None
      then have R: "slab_run ops s1 out = (s', out', True, apart)" using Cons.prems(4) Slab_Acquire A by simp
      obtain F' where "slab_wf ?n F' s1" "holds_slabs F' s1 out" using holds_slabs_same [OF W h] acq None by blast
      then show ?thesis using Cons.IH [OF _ _ _ R] Cons.prems(3) same [OF f] by simp
    next
      case (Some a)
      obtain ap where R: "slab_run ops s1 ((a, sz) # out) = (s', out', True, ap)" "apart = (apart_from out a sz \<and> ap)"
        using Cons.prems(4) Slab_Acquire A Some by (auto split: prod.splits)
      obtain F' where F': "apart_from out a sz" "slab_wf ?n F' s1" "holds_slabs F' s1 ((a, sz) # out)"
        using holds_slabs_acquire [OF W h] acq Some by blast
      then show ?thesis using Cons.IH [OF _ F'(3) _ R(1)] Cons.prems(3) same [OF f] R(2) by simp
    qed
  next
    case (Slab_Release a)
    have R: "slab_run ops (slab_Release (Some a) s) (filter (\<lambda>x. fst x \<noteq> a) out) = (s', out', True, apart)" and a: "a \<in> fst ` set out"
      using Cons.prems(4) Slab_Release by (auto split: prod.splits)
    have "length out < 2 ^ 32" using Cons.prems(3) by simp
    then obtain F' where F': "slab_wf ?n F' (slab_Release (Some a) s)"
      "holds_slabs F' (slab_Release (Some a) s) (filter (\<lambda>x. fst x \<noteq> a) out)" "slab_frame s (slab_Release (Some a) s)"
      using holds_slabs_release [OF W h a] by blast
    have "length (filter (\<lambda>x. fst x \<noteq> a) out) + length ops < 2 ^ 32"
      using Cons.prems(3) length_filter_le [of "\<lambda>x. fst x \<noteq> a" out] by (simp del: length_filter_le)
    then show ?thesis using Cons.IH [OF _ F'(2) _ R] F'(1) same [OF F'(3)] by simp
  qed
qed

section \<open>Finalising\<close>

lemma slab_HeapFree_sels [simp]:
  "sp_regions (slab_HeapFree p s) = filter (\<lambda>r. Some (fst r) \<noteq> p) (sp_regions s)" "sp_table (slab_HeapFree p s) = sp_table s"
  "sp_slabs (slab_HeapFree p s) = sp_slabs s" "sp_violations (slab_HeapFree p s) = sp_violations s"
  by (simp_all add: slab_HeapFree_def split: option.split)

lemma fold_HeapFree_sels [simp]:
  "sp_regions (fold slab_HeapFree ps s) = filter (\<lambda>r. Some (fst r) \<notin> set ps) (sp_regions s)"
  "sp_table (fold slab_HeapFree ps s) = sp_table s" "sp_violations (fold slab_HeapFree ps s) = sp_violations s"
  by (induction ps arbitrary: s) (auto intro: filter_cong)

lemma slab_Finalize_frees:
  assumes "slab_wf n F s" and "sp_initialized s"
  shows "sp_regions (slab_Finalize s) = []"
    and "sp_violations (slab_Finalize s) = (if VerifyAllMemoryReleased s then sp_violations s else sp_violations s + 1)"
proof -
  let ?ps = "concat (map slab_memory (sp_slabs s))"
  have known: "Some (fst r) \<in> set ?ps \<or> Some (fst r) = sp_table s" if "r \<in> set (sp_regions s)" for r
    using assms(1) that unfolding slab_wf_def accounted_def by fastforce
  have "sp_regions (slab_Finalize s) = filter (\<lambda>r. Some (fst r) \<noteq> sp_table s) (filter (\<lambda>r. Some (fst r) \<notin> set ?ps) (sp_regions s))"
    using assms(2) by (simp add: slab_Finalize_def Let_def del: set_concat)
  also have "\<dots> = []" unfolding filter_filter filter_empty_conv using known by blast
  finally show "sp_regions (slab_Finalize s) = []" .
  show "sp_violations (slab_Finalize s) = (if VerifyAllMemoryReleased s then sp_violations s else sp_violations s + 1)"
    using assms(2) by (simp add: slab_Finalize_def Let_def)
qed

lemma VerifyAllMemoryReleased_iff:
  assumes W: "slab_wf (length (sp_slabs s)) F s" and h: "holds_slabs F s out" and few: "length out < 2 ^ 32"
  shows "VerifyAllMemoryReleased s \<longleftrightarrow> out = []"
proof -
  have I: "slab_inv (length (sp_slabs s)) F s" using W by (simp add: slab_wf_def)
  have cnt: "sl_allocatedCount (sp_slabs s ! i) = 0 \<longleftrightarrow> blocks s i - set (F i) = {}" if i: "i < length (sp_slabs s)" for i
  proof -
    let ?c = "card (blocks s i - set (F i))"
    have "?c < 2 ^ 32" using out_card [OF I, of i] card_out_blocks [OF h] few by simp
    then have "unat (of_nat ?c :: u32) = ?c" by (simp add: unat_of_nat)
    then have "(of_nat ?c :: u32) = 0 \<longleftrightarrow> ?c = 0" by (simp only: word_unat_eq_iff unat_0)
    moreover have "sl_allocatedCount (sp_slabs s ! i) = of_nat ?c" using I i by (simp add: slab_inv_def slab_ok_def)
    moreover have "finite (blocks s i - set (F i))" using finite_blocks(1) [OF I] by simp
    ultimately show ?thesis by simp
  qed
  have "out = [] \<longleftrightarrow> out_blocks F s = {}" using card_out_blocks [OF h] finite_blocks(2) [OF I] by auto
  also have "\<dots> \<longleftrightarrow> (\<forall>i < length (sp_slabs s). blocks s i - set (F i) = {})"
    using slab_invD(3) [OF I] unfolding out_blocks_def blocks_def by blast
  also have "\<dots> \<longleftrightarrow> VerifyAllMemoryReleased s" using cnt by (simp add: VerifyAllMemoryReleased_def list_all_length)
  finally show ?thesis by blast
qed

section \<open>Properties\<close>

text \<open>
  C37. Memory safety of the slab pool over histories: on a pool that \<open>Initialize\<close> made with block sizes up to \<open>2 ^ 32 - 32\<close>, after fewer than
  \<open>2 ^ 32\<close> acquisitions and releases of payloads that are handed out, whatever the process heap answered: the bytes that were asked for lie apart
  from those of every payload handed out at that time, no release was refused, the pool reports unreleased memory exactly when payloads are out,
  and \<open>Finalize\<close> frees every region of the process heap.
\<close>

theorem slab_histories_safe:
  assumes "slab_Initialize os (Some cs) new_SlabMemoryPool = (True, s)" and "\<forall>c \<in> set cs. unat (fst c) \<le> 2 ^ 32 - 32" and "length cs < 2 ^ 32"
    and "slab_run ops s [] = (s', out, True, apart)" and "length ops < 2 ^ 32"
  shows "apart \<and> sp_violations s' = 0 \<and> (VerifyAllMemoryReleased s' \<longleftrightarrow> out = []) \<and>
    sp_regions (slab_Finalize s') = [] \<and> sp_violations (slab_Finalize s') = (if out = [] then 0 else 1)"
proof -
  obtain F where i: "slab_wf (length (sp_slabs s)) F s" "out_blocks F s = {}" "sp_initialized s" "sp_violations s = 0"
    using slab_Initialize_wf [OF assms(1-3)] by blast
  have "holds_slabs F s []" using i(2) by (simp add: holds_slabs_def)
  from slab_run_wf [OF i(1) this _ assms(4)] assms(5) obtain F' where
    r: "apart" "slab_wf (length (sp_slabs s')) F' s'" "holds_slabs F' s' out" "sp_violations s' = 0" "sp_initialized s'" "length out < 2 ^ 32"
    using i(3,4) by auto
  show ?thesis using r slab_Finalize_frees [OF r(2,5)] VerifyAllMemoryReleased_iff [OF r(2,3,6)] by simp
qed

text \<open>A heap that lays its regions one behind the other, and a pool with two slabs.\<close>

definition slab_os :: OS where
  "slab_os = \<lparr>os_VirtualAlloc = (\<lambda>rs n. None), os_HeapAlloc = (\<lambda>rs n. Some (case rs of [] \<Rightarrow> 16 | r # _ \<Rightarrow> fst r + snd r)),
     os_HeapReAlloc = (\<lambda>_. True)\<rparr>"

definition slab_ops :: "slab_op list" where
  "slab_ops = [Slab_Acquire slab_os 10, Slab_Acquire slab_os 16, Slab_Acquire slab_os 33, Slab_Acquire slab_os 100, Slab_Release 288]"

definition slab_pool :: SlabMemoryPool where
  "slab_pool = snd (slab_Initialize slab_os (Some [(16, 1), (48, 2)]) new_SlabMemoryPool)"

lemma slab_pool_made: "slab_Initialize slab_os (Some [(16, 1), (48, 2)]) new_SlabMemoryPool = (True, slab_pool)"
proof -
  have "fst (slab_Initialize slab_os (Some [(16, 1), (48, 2)]) new_SlabMemoryPool)" by code_simp
  then show ?thesis unfolding slab_pool_def by (metis prod.collapse)
qed

lemma slab_histories_safe_witness:
  "\<exists>s'. slab_run slab_ops slab_pool [] = (s', [(384, 33), (448, 16)], True, True) \<and> \<not> VerifyAllMemoryReleased s' \<and>
     sp_regions (slab_Finalize s') = [] \<and> sp_violations (slab_Finalize s') = 1"
proof -
  have "case slab_run slab_ops slab_pool [] of (s', out, legal, apart) \<Rightarrow> out = [(384, 33), (448, 16)] \<and> legal"
    by code_simp
  then obtain s' apart where r: "slab_run slab_ops slab_pool [] = (s', [(384, 33), (448, 16)], True, apart)"
    by (auto split: prod.splits)
  have "length slab_ops < 2 ^ 32" by (simp add: slab_ops_def)
  from slab_histories_safe [OF slab_pool_made _ _ r this] r show ?thesis by (intro exI [of _ s']) simp
qed

text \<open>
  A payload that is released twice while another payload of the same slab is out is put on the free list twice: the second release is taken for a
  good one, and then every acquisition from that slab returns that payload.
\<close>

lemma slab_scan_cong: "map sl_blockSize bs = map sl_blockSize bs' \<Longrightarrow> slab_scan sz bs i = slab_scan sz bs' i"
proof (induction bs arbitrary: bs' i)
  case (Cons b bs)
  then show ?case by (cases bs') auto
qed simp

lemma slab_Release_taken:
  assumes "sp_heap s x = Some k" and "sh_magic k = HEADER_MAGIC" and "unat (sh_bucketIndex k) = i" and "i < length (sp_slabs s)"
    and "sl_allocatedCount (sp_slabs s ! i) \<noteq> 0"
  shows "slab_Release (Some (x + 16)) s =
    upd_slab i (\<lambda>b. b\<lparr>sl_freeList := Some x, sl_allocatedCount := sl_allocatedCount b - 1, sl_totalRelease := sl_totalRelease b + 1\<rparr>)
      (s\<lparr>sp_heap := (sp_heap s)(x \<mapsto> k\<lparr>sh_next := sl_freeList (sp_slabs s ! i)\<rparr>)\<rparr>)"
  using assms by (simp add: slab_Release_def Let_def)

theorem double_release_hands_out_twice:
  assumes k: "sp_heap s x = Some k" "sh_magic k = HEADER_MAGIC" "unat (sh_bucketIndex k) = i" "i < length (sp_slabs s)"
    and two: "2 \<le> unat (sl_allocatedCount (sp_slabs s ! i))" and find: "FindSlabIndex sz s = Some i" and "sp_initialized s" and "sz \<noteq> 0"
  defines "s2 \<equiv> slab_Release (Some (x + 16)) (slab_Release (Some (x + 16)) s)"
  shows "sp_violations s2 = sp_violations s \<and> fst (slab_Acquire os sz s2) = Some (x + 16) \<and>
    fst (slab_Acquire os' sz (snd (slab_Acquire os sz s2))) = Some (x + 16)"
proof -
  let ?c = "sl_allocatedCount (sp_slabs s ! i)"
  have c: "?c \<noteq> 0" "?c - 1 \<noteq> 0" using two unat_pred [of ?c] by (auto simp: word_unat_eq_iff)
  define s1 where "s1 = slab_Release (Some (x + 16)) s"
  note s1 = slab_Release_taken [OF k c(1), folded s1_def]
  have k1: "\<exists>k'. sp_heap s1 x = Some k' \<and> sh_magic k' = HEADER_MAGIC \<and> unat (sh_bucketIndex k') = i" and
    b1: "sl_allocatedCount (sp_slabs s1 ! i) = ?c - 1" "sl_freeList (sp_slabs s1 ! i) = Some x" "i < length (sp_slabs s1)"
    using k by (simp_all add: s1)
  obtain k' where k': "sp_heap s1 x = Some k'" "sh_magic k' = HEADER_MAGIC" "unat (sh_bucketIndex k') = i" using k1 by blast
  note s2 = slab_Release_taken [OF k' b1(3), folded s1_def s2_def]
  have s2: "s2 = upd_slab i (\<lambda>b. b\<lparr>sl_freeList := Some x, sl_allocatedCount := sl_allocatedCount b - 1, sl_totalRelease := sl_totalRelease b + 1\<rparr>)
      (s1\<lparr>sp_heap := (sp_heap s1)(x \<mapsto> k'\<lparr>sh_next := Some x\<rparr>)\<rparr>)"
    using s2 b1 c(2) by (simp add: s2_def s1_def)
  have q: "sp_violations s2 = sp_violations s" "sp_initialized s2" "sl_freeList (sp_slabs s2 ! i) = Some x" "slab_links (sp_heap s2) x = Some x"
    "i < length (sp_slabs s2)"
    using k(4) b1(3) \<open>sp_initialized s\<close> by (simp_all add: s2 slab_links_def) (simp_all add: s1)
  have sizes: "map sl_blockSize (sp_slabs s2) = map sl_blockSize (sp_slabs s)"
    using k(4) by (intro nth_equalityI) (auto simp: s2 s1 upd_slab_nth)
  then have f2: "FindSlabIndex sz s2 = Some i" using find slab_scan_cong [OF sizes] by (simp add: FindSlabIndex_def)
  define s3 where "s3 = snd (slab_Acquire os sz s2)"
  have a: "slab_Acquire os sz s2 = slab_take i s2" using q f2 \<open>sz \<noteq> 0\<close> by (simp add: slab_Acquire_def)
  have s3: "s3 = snd (slab_take i s2)" by (simp add: s3_def a)
  have r: "sp_initialized s3" "sl_freeList (sp_slabs s3 ! i) = Some x" using q by (simp_all add: s3 slab_take_def)
  have "map sl_blockSize (sp_slabs s3) = map sl_blockSize (sp_slabs s2)"
    using q by (intro nth_equalityI) (auto simp: s3 slab_take_def upd_slab_nth)
  then have "FindSlabIndex sz s3 = Some i" using f2 slab_scan_cong [of "sp_slabs s3" "sp_slabs s2"] by (simp add: FindSlabIndex_def)
  then have "fst (slab_Acquire os' sz s3) = Some (x + 16)" using r \<open>sz \<noteq> 0\<close> by (simp add: slab_Acquire_def slab_take_def)
  moreover have "fst (slab_Acquire os sz s2) = Some (x + 16)" using a q by (simp add: slab_take_def)
  ultimately show ?thesis using q(1) by (simp add: s3_def)
qed

definition slab_two :: SlabMemoryPool where
  "slab_two = fst (slab_run [Slab_Acquire slab_os 33, Slab_Acquire slab_os 40] slab_pool [])"

lemma double_release_hands_out_twice_witness:
  "fst (slab_Acquire slab_os 40 (slab_Release (Some (368 + 16)) (slab_Release (Some (368 + 16)) slab_two))) = Some (368 + 16)"
proof -
  have h: "sp_heap slab_two 368 = Some \<lparr>sh_bucketIndex = 1, sh_magic = HEADER_MAGIC, sh_next = Some 304\<rparr>" by code_simp
  have l: "1 < length (sp_slabs slab_two)" by code_simp
  have c: "2 \<le> unat (sl_allocatedCount (sp_slabs slab_two ! 1))" by code_simp
  have f: "FindSlabIndex 40 slab_two = Some 1" by code_simp
  have i: "sp_initialized slab_two" by code_simp
  show ?thesis using double_release_hands_out_twice [OF h _ _ l c f i] by simp
qed

end
