(* ===== verification/Spec2Isabelle.thy ===== *)
theory Spec2Isabelle
  imports Protocol RecvRing TlsPool SendPath Config JobPath ReadyProtocol ReleaseProtocol SendProtocol PauseProtocol SendStream Dispatch AcceptLeak
    RingHistory IoCore HeartbeatThread ClientConduct SlabPool
begin

text \<open>
  A verification development for the IOCP network engine, a Windows library for packet-based TCP servers and clients on I/O completion ports.

  \<^bold>\<open>The program.\<close> A server (\<open>Core/IOCPServer\<close>) owns a completion port with its worker threads (\<open>Core/IOCPCore\<close>), a pool of client sessions and
  a pool of accept slots behind a session manager (\<open>Session\<close>), four memory pools (\<open>Memory\<close>), and the ready workers (\<open>Scheduler\<close>). An accepted
  connection gets a session from the pool; its receives land in the session's ring (\<open>Buffer/RecvPacketBuffer\<close>), from which the packet loop of
  \<open>HandleRecv\<close> takes whole packets (\<open>Protocol\<close>). System packets authenticate the session and answer heartbeats; every other packet goes to the
  service, which usually wraps it in a job (\<open>Job\<close>, \<open>HandlerTable\<close>) with \<open>SubmitPacketJob\<close>: the job is queued on the session
  (\<open>Session/SessionJobQueue\<close>), the session is put on the ready ring, and a ready worker drains it. A session with too many jobs stops receiving
  until they are drained. Outgoing packets are queued (\<open>Buffer/SendPacketQueue\<close>) and sent one at a time under \<open>m_sending\<close>. \<open>m_ioCount\<close> counts
  what still uses a session; one that is to be released goes back to the pool when the count falls to 0. A heartbeat thread calls the rounds
  that send heartbeats, disconnect zombies and refill accept slots. A client (\<open>Core/IOCPClient\<close>) has one session of the same kind, connects
  it, asks for authentication, and has a watchdog thread that ends a silent connection. Server and client share the completion port and its
  worker threads (\<open>Core/IOCPCore\<close>).

  \<^bold>\<open>The model.\<close> Records carry the members of the classes under their names, unsigned integers have their width, the interlocked counters of the
  sessions are \<open>int\<close>. An operation takes the object, or the pair of session and world, and returns it updated; failure is the \<open>bool\<close> or enum of
  the source, a null pointer is \<open>None\<close>, and a division by zero or a dereferenced null in the pools is a value of its own. The world of a session
  (\<open>NetWorld\<close>) has the packet pool, the memory the packets lie in, the clock, the answers the kernel will give to socket calls, in order, and a
  record of what was posted to it. \<open>violation\<close> counts what \<open>ENGINE_CHECK\<close> and its variants report. Worlds are extended from layer to layer:
  \<open>NetWorld\<close>, \<open>PoolWorld\<close> with the sessions, \<open>AcceptWorld\<close> with the slots, \<open>ServerWorld\<close>.

  \<^bold>\<open>Theories.\<close>
  \<^item> \<open>Prelude\<close>: machine types, little-endian loads, lists and maps. \<open>Chains\<close>: intrusive lists in a store, used by the free lists, the send queue
    and the job queue. \<open>Interfaces\<close>: the locales \<open>packet_pool\<close> (what the ring and the queues rely on in a memory pool), which \<open>TlsPool\<close>
    interprets on the engine's pool for sizes below 4 GiB, and \<open>fifo\<close>, which the send queue, the job queue and the ready ring interpret.
  \<^item> \<open>Protocol\<close>: \<open>Protocol\<close>, \<open>HandlerTable\<close>, \<open>Session/DisconnectReason.h\<close>: identifiers, packed layouts, result codes.
  \<^item> \<open>RecvRing\<close>: \<open>Buffer/RecvPacketBuffer\<close>. The abstract state is the list of unread bytes; \<open>ReadPacket\<close> refines a parser of byte lists on every
    branch, and any cut of the stream into receives gives its packets (\<open>recv_any_cut\<close>).
  \<^item> \<open>SizeBin\<close>, \<open>BlockPool\<close>, \<open>TlsPool\<close>: \<open>Memory/SizeBin.h\<close>, \<open>BlockLayout.h\<close>, \<open>GlobalBlockPool\<close>, \<open>ThreadBlockCache\<close>, \<open>TlsMemoryPool\<close>.
    Headers are words in an explicit store; the invariant \<open>tls_wf\<close> says that each block is in exactly one of the global list, a cache, or a user's
    hands. Over any history no block is handed out twice, double frees and blocks of other pools are detected, and \<open>Finalize\<close> never unmaps a
    block in use; sizes are 64 bits wide, and next to 2 to the 64 the sum of the bypass wraps (\<open>bypass_size_wraps\<close>). \<open>SlabPool\<close>: \<open>Memory/SlabMemoryPool\<close>, the pool that can be selected instead, over the same heap interface (\<open>OS\<close>): the bytes
    handed out never overlap, and everything is freed; a double release is not detected (\<open>double_release_hands_out_twice\<close>).
  \<^item> \<open>SendQueue\<close>, \<open>SendPath\<close>: \<open>Buffer/SendPacketQueue\<close>, \<open>SendPacketEntry.h\<close>, \<open>SharedSendPacket.h\<close>, first over any pool that satisfies
    \<open>packet_pool\<close>, then on the engine's pool: first-in first-out, and who owns a packet on every branch.
  \<^item> \<open>Config\<close>: the configuration structures and \<open>Memory/EnginePoolBuilder.h\<close>. What \<open>IsValid\<close> accepts is what can be built.
  \<^item> \<open>JobQueue\<close>, \<open>Scheduler\<close>, \<open>JobPath\<close>: \<open>Session/SessionJobQueue\<close>, \<open>Job\<close>, \<open>Scheduler\<close> and \<open>IOCPServer::SubmitPacketJob\<close>, sequentially.
  \<^item> \<open>ReadyProtocol\<close>, \<open>ReleaseProtocol\<close>, \<open>SendProtocol\<close>, \<open>PauseProtocol\<close>: step relations for any number of threads over the shared flags and
    counters, one atomic operation of the source at a time: the processing flag and the ready ring; \<open>m_ioCount\<close>, the release request and
    \<open>m_releasePending\<close>; \<open>m_sending\<close>; \<open>m_recvPaused\<close> and the receive chain. Invariants are proved by rule induction on reachability, progress by
    measures. The runs of \<open>ReadyProtocol\<close> include \<open>ResetSession\<close>, which the source may call while a worker has the session: every job is
    accounted for over all runs, exclusion and progress hold over those in which no flag that is set is cleared by it (\<open>calm_step\<close>), and
    \<open>reset_breaks_exclusion\<close> shows a run without that condition. Those of \<open>SendProtocol\<close> include partial sends.
  \<^item> \<open>Session\<close>, \<open>SendStream\<close>: \<open>Session/BaseSession\<close> and \<open>Session/ClientSession\<close> as one thread runs them, down to the bytes given to the kernel;
    \<open>end_to_end\<close> composes sender and receiver.
  \<^item> \<open>ClientSessionPool\<close>, \<open>Accept\<close>, \<open>Server\<close>: \<open>Session/ClientSessionPool\<close>, \<open>AcceptSession\<close>, \<open>AcceptSessionPool\<close>, \<open>SessionManager\<close> and
    \<open>Core/IOCPServer\<close>: every completion handler, authentication, the posting of accepts, the rounds of the heartbeat thread, start and stop.
  \<^item> \<open>Accounting\<close>, \<open>ServerAccounts\<close>, \<open>ServerRun\<close>, \<open>ServerStart\<close>, \<open>ServerGuarantees\<close>: the accounts of a session (each unit of \<open>m_ioCount\<close>
    belongs to an outstanding operation, a pause, or a running handler), preserved by every operation, every handler and every event, and
    established by \<open>StartServer\<close>; \<open>serves\<close> is reachability from a started server.
  \<^item> \<open>ServerFrame\<close>, \<open>Dispatch\<close>: what a session's operations leave alone; with it the packet loop ends, and the service is handed packets of
    authenticated sessions only.
  \<^item> \<open>AcceptLeak\<close>: a connection that is lost when the next accept cannot be posted.
  \<^item> \<open>RingHistory\<close>: the receive ring stays well formed over any history of its operations.
  \<^item> \<open>IoCore\<close>: \<open>Core/IOCPCore\<close>: start, any number of workers on one port, step by step, and the shutdown by terminate codes to the closing of the port: no completion is
    lost before that, exactly those still in the port are lost then, and the joins of \<open>Stop\<close> return, unless a terminate code cannot be posted (\<open>lost_terminate_code_hangs\<close>).
  \<^item> \<open>HeartbeatThread\<close>: \<open>Core/HeartbeatThread\<close>: its waits and cycles: what it does to the server are events of \<open>serves\<close>, it keeps its
    period, and it ends the silent connections and touches no other.
  \<^item> \<open>Client\<close>: \<open>Core/IOCPClient\<close> and \<open>Core/ClientWatchdogThread\<close>. \<open>ClientAccounts\<close>, \<open>ClientRun\<close>, \<open>ClientGuarantees\<close>: the accounts of the
    client's session, preserved by every handler and event and established by \<open>StartClient\<close>; \<open>client_serves\<close> is reachability from a started
    client. \<open>SessionFrame\<close>: a locale for what the operations of a session leave alone, given what its callbacks leave alone. \<open>ClientConduct\<close>
    interprets it twice: who authenticates and dispatches, that the packet loop ends, when the watchdog fires, and connections or sockets that
    are lost without a word to the service.

  \<^bold>\<open>Parameters.\<close> The service's hooks (\<open>Service\<close>), job handlers, release callbacks, what the kernel answers, the addresses the system maps and the
  allocations that fail. Properties of a server assume of the hooks only that they keep the accounts of sessions (\<open>service_ok\<close>), or that they
  leave the ring and the authentication state alone (\<open>service_frames\<close>), and of a client's likewise (\<open>client_service_ok\<close>, \<open>ring_kept\<close>), which holds of hooks that use the public operations; of the kernel, that it completes each
  posted operation once and writes no more than it was given. The witnesses run a server with one session through accept, authentication, receiving, sending
  and disconnecting.

  \<^bold>\<open>Fuel and loops.\<close> \<open>recv_loop\<close> takes one round more than there are bytes in the ring, and \<open>receive_loop_ends\<close> shows that an exit of the loop
  is reached before this is used up (\<open>recv_exit\<close> is \<open>None\<close> when it is not).
  \<open>try_send_rounds\<close> is run for one round, which decides while no other thread queues a packet (\<open>one_round\<close>). \<open>carve_loop\<close>, \<open>flush_loop\<close> and the loops over
  sessions and slots recurse on a count that the source's loop is bounded by. The waits for cancelled I/O (\<open>wait_slices\<close>) recurse on the list of
  what the waits answer and are \<open>None\<close> when it is shorter than the wait. \<open>client_recv_loop\<close> is \<open>recv_loop\<close> over again. \<open>watchdog_run\<close> and
  \<open>heartbeat_run\<close>, loops that run until the thread is stopped, recurse on the list of their waits.

  \<^bold>\<open>Atomicity.\<close> In the step relations a step is one interlocked operation or one critical section. Everywhere else an operation runs to its end
  before the next begins; the interleavings inside a session are what the step relations add.

  \<^bold>\<open>Not modelled.\<close> Logging and statistics that are only read by logs (\<open>Diagnostics\<close>, \<open>LogStats\<close>). Socket options (\<open>Network/SocketOption\<close>) are
  calls with constants. The thread base class of the workers, the heartbeat and the watchdog thread is not in the repository: what is modelled
  is their \<open>Run\<close>. The creation and joining of the ready workers. The
  process-wide thread_local slots of \<open>TlsMemoryPool\<close> are a map from threads to caches. The memory model of the processor is sequentially
  consistent.
\<close>

end
